(* ===== verification/Prelude.thy ===== *)
theory Prelude
  imports Main "HOL-Library.Word" "HOL-Library.Finite_Map" "HOL-Library.Product_Lexorder"
    "HOL-Library.List_Lexorder" "HOL-Library.Char_ord" "HOL-Library.Sublist"
begin

text \<open>
  Shared vocabulary of the development: the machine integers of the Rust code, the saturating
  operations it calls on them, and finite maps as the model of \<open>std::collections::HashMap\<close>.
  A hash map is an \<open>fmap\<close>: a finite partial function with no iteration order of its own.
  Where the code iterates and the order cannot be observed, the model walks the keys in
  ascending order (\<open>sorted_list_of_fmap\<close>); where it can be observed, the order is an
  argument of the operation.
\<close>

type_synonym u8 = "8 word"
type_synonym u16 = "16 word"
type_synonym u32 = "32 word"
type_synonym u64 = "64 word"

named_theorems rust_arith \<open>facts about the saturating and checked machine operations\<close>
named_theorems fm_simps \<open>facts about the size and the items of finite maps\<close>

section \<open>Saturating arithmetic\<close>

definition sat_sub :: "'a::len word \<Rightarrow> 'a word \<Rightarrow> 'a word" where
  "sat_sub a b = (if a < b then 0 else a - b)"

definition sat_add :: "'a::len word \<Rightarrow> 'a word \<Rightarrow> 'a word" where
  "sat_add a b = (if unat a + unat b < 2 ^ LENGTH('a) then a + b else - 1)"

lemma unat_bound: "unat a < 2 ^ LENGTH('a)" for a :: "'a::len word"
  by simp

lemma unat_sat_sub [rust_arith]: "unat (sat_sub a b) = unat a - unat b"
  by (auto simp: sat_sub_def unat_sub word_less_nat_alt not_less word_le_nat_alt)

lemma unat_sat_add [rust_arith]:
  "unat (sat_add a b) = min (unat a + unat b) (2 ^ LENGTH('a) - 1)" for a b :: "'a::len word"
  using unat_bound [of a] unat_bound [of b]
  by (auto simp: sat_add_def unat_add_lem [THEN iffD1] unsigned_minus_1_eq_mask mask_eq_exp_minus_1 min_def)

lemma sat_sub_le [rust_arith]: "sat_sub a b \<le> a"
  by (simp add: word_le_nat_alt unat_sat_sub)

lemma sat_sub_self [simp]: "sat_sub a a = 0"
  by (simp add: sat_sub_def)

lemma sat_sub_eq_0_iff: "sat_sub a b = 0 \<longleftrightarrow> a \<le> b"
  by (auto simp: sat_sub_def)

lemma sat_add_0_right [simp]: "sat_add a 0 = a"
  using unat_bound [of a] by (simp add: sat_add_def)

lemma sat_add_ge: "a \<le> sat_add a b"
proof -
  have "unat a \<le> 2 ^ LENGTH('a) - 1" using unat_bound [of a] by arith
  then show ?thesis by (simp add: word_le_nat_alt unat_sat_add)
qed

definition sat_mul :: "u64 \<Rightarrow> u64 \<Rightarrow> u64" where
  "sat_mul a b = (if unat a * unat b < 2 ^ 64 then a * b else - 1)"

lemma unat_sat_mul [rust_arith]: "unat (sat_mul a b) = min (unat a * unat b) (2 ^ 64 - 1)"
  by (auto simp: sat_mul_def unat_mult_lem [THEN iffD1] unsigned_minus_1_eq_mask mask_eq_exp_minus_1 min_def)

section \<open>Finite maps as hash maps\<close>

definition fmlen :: "('k, 'v) fmap \<Rightarrow> nat" where
  "fmlen m = card (fmdom' m)"

lemma fmlen_empty [simp, fm_simps]: "fmlen fmempty = 0"
  by (simp add: fmlen_def)

lemma fmlen_upd [fm_simps]:
  "fmlen (fmupd k v m) = (if k \<in> fmdom' m then fmlen m else Suc (fmlen m))"
  by (simp add: fmlen_def insert_absorb)

lemma fmlen_drop [fm_simps]:
  "fmlen (fmdrop k m) = (if k \<in> fmdom' m then fmlen m - 1 else fmlen m)"
  by (simp add: fmlen_def)

lemma fmlen_drop_le: "fmlen (fmdrop k m) \<le> fmlen m"
  by (simp add: fmlen_drop)

lemma fmlen_upd_le: "fmlen (fmupd k v m) \<le> Suc (fmlen m)"
  by (simp add: fmlen_upd)

lemma fmlen_mono: "fmdom' m \<subseteq> fmdom' n \<Longrightarrow> fmlen m \<le> fmlen n"
  unfolding fmlen_def by (rule card_mono) simp_all

lemma fmlen_pos: "fmlookup m k = Some v \<Longrightarrow> 0 < fmlen m"
  by (auto simp: fmlen_def card_gt_0_iff dest: fmdom'I)

lemma in_fmdom'_iff: "k \<in> fmdom' m \<longleftrightarrow> fmlookup m k \<noteq> None"
  by (auto simp: fmlookup_dom'_iff)

lemma sorted_list_of_fmap_map_fst:
  "map fst (sorted_list_of_fmap m) = sorted_list_of_fset (fmdom m)"
  by (simp add: sorted_list_of_fmap_def comp_def)

lemma distinct_fst_sorted_list_of_fmap [fm_simps]: "distinct (map fst (sorted_list_of_fmap m))"
  unfolding sorted_list_of_fmap_map_fst
  by (simp add: sorted_list_of_fset.rep_eq)

lemma distinct_sorted_list_of_fmap [fm_simps]: "distinct (sorted_list_of_fmap m)"
  using distinct_fst_sorted_list_of_fmap [of m] by (simp add: distinct_map)

lemma set_sorted_list_of_fmap [fm_simps]:
  "(k, v) \<in> set (sorted_list_of_fmap m) \<longleftrightarrow> fmlookup m k = Some v"
  by (metis map_of_sorted_list distinct_fst_sorted_list_of_fmap map_of_eq_Some_iff)

lemma length_sorted_list_of_fmap [fm_simps]: "length (sorted_list_of_fmap m) = fmlen m"
proof -
  have "length (sorted_list_of_fmap m) = length (map fst (sorted_list_of_fmap m))" by simp
  also have "\<dots> = card (set (map fst (sorted_list_of_fmap m)))"
    by (simp only: distinct_card [OF distinct_fst_sorted_list_of_fmap])
  also have "set (map fst (sorted_list_of_fmap m)) = fmdom' m"
    unfolding sorted_list_of_fmap_map_fst by (simp add: sorted_list_of_fset.rep_eq fmdom'_alt_def)
  finally show ?thesis by (simp add: fmlen_def)
qed

lemma fmdrop_None: "fmlookup m k = None \<Longrightarrow> fmdrop k m = m"
  by (rule fmap_ext) auto

text \<open>Dropping a list of keys, the way the eviction loops do.\<close>

definition fmdrop_keys :: "'k list \<Rightarrow> ('k, 'v) fmap \<Rightarrow> ('k, 'v) fmap" where
  "fmdrop_keys ks m = fold fmdrop ks m"

lemma fmdrop_keys_Nil [simp]: "fmdrop_keys [] m = m"
  by (simp add: fmdrop_keys_def)

lemma fmlookup_fmdrop_keys [simp]:
  "fmlookup (fmdrop_keys ks m) k = (if k \<in> set ks then None else fmlookup m k)"
  unfolding fmdrop_keys_def by (induction ks arbitrary: m) auto

lemma fmdom'_fmdrop_keys [simp]: "fmdom' (fmdrop_keys ks m) = fmdom' m - set ks"
  by (auto simp: fmlookup_dom'_iff split: if_splits)

lemma fmlen_fmdrop_keys:
  assumes "distinct ks" and "set ks \<subseteq> fmdom' m"
  shows "fmlen (fmdrop_keys ks m) = fmlen m - length ks"
  using assms by (simp add: fmlen_def card_Diff_subset distinct_card)

section \<open>Lists and options\<close>

lemma find_Some_iff2: "find P xs = Some x \<Longrightarrow> x \<in> set xs \<and> P x"
  by (induction xs) (auto split: if_splits)

lemma option_bind_eq_None: "Option.bind x f = None \<longleftrightarrow> (\<forall>y. x = Some y \<longrightarrow> f y = None)"
  by (cases x) auto

definition opt_or :: "'a option \<Rightarrow> 'a option \<Rightarrow> 'a option" where
  "opt_or a b = (case a of Some x \<Rightarrow> Some x | None \<Rightarrow> b)"

lemma opt_or_simps [simp]: "opt_or (Some x) b = Some x" "opt_or None b = b"
  by (simp_all add: opt_or_def)

definition opt_filter :: "('a \<Rightarrow> bool) \<Rightarrow> 'a option \<Rightarrow> 'a option" where
  "opt_filter P x = (case x of Some y \<Rightarrow> if P y then Some y else None | None \<Rightarrow> None)"

lemma opt_filter_simps [simp]:
  "opt_filter P (Some y) = (if P y then Some y else None)" "opt_filter P None = None"
  by (simp_all add: opt_filter_def)

lemma opt_filter_eq_Some: "opt_filter P x = Some y \<longleftrightarrow> x = Some y \<and> P y"
  by (cases x) auto

definition then_some :: "bool \<Rightarrow> 'a \<Rightarrow> 'a option" where
  "then_some b x = (if b then Some x else None)"

lemma then_some_eq_Some [simp]: "then_some b x = Some y \<longleftrightarrow> b \<and> x = y"
  by (simp add: then_some_def)

lemma then_some_eq_None [simp]: "then_some b x = None \<longleftrightarrow> \<not> b"
  by (simp add: then_some_def)

text \<open>The pattern \<open>(x != 0).then_some(x)\<close>: zero is the probe's "no sample" sentinel.\<close>

definition nonzero :: "'a::zero \<Rightarrow> 'a option" where
  "nonzero x = then_some (x \<noteq> 0) x"

lemma nonzero_simps [simp]: "nonzero 0 = None" "x \<noteq> 0 \<Longrightarrow> nonzero x = Some x"
  by (simp_all add: nonzero_def then_some_def)

lemma nonzero_eq_Some: "nonzero x = Some y \<longleftrightarrow> x = y \<and> x \<noteq> 0"
  by (auto simp: nonzero_def)

lemma in_map_filter: "y \<in> set (List.map_filter f xs) \<longleftrightarrow> (\<exists>x\<in>set xs. f x = Some y)"
  by (induction xs) (auto simp: map_filter_simps split: option.splits)

end
