(* ===== verification/RustStr.thy ===== *)
theory RustStr
  imports Prelude
begin

text \<open>
  The parts of Rust's \<open>str\<close>, \<open>u64::from_str\<close> and \<open>format!\<close> that the modelled code calls.
  A \<open>&str\<close> is a \<open>string\<close>: the list of its UTF-8 bytes (a HOL \<open>char\<close> is one byte), so
  \<open>length\<close> is \<open>str::len\<close> and list positions are byte offsets. A raw buffer \<open>&[u8]\<close> is a
  \<open>u8 list\<close>; \<open>from_utf8\<close> leads from one to the other.
\<close>

section \<open>Bytes and characters\<close>

definition chr_of :: "u8 \<Rightarrow> char" where
  "chr_of b = char_of (unat b)"

definition byte_of :: "char \<Rightarrow> u8" where
  "byte_of c = of_nat (of_char c)"

definition as_bytes :: "string \<Rightarrow> u8 list" where
  "as_bytes s = map byte_of s"

lemma chr_of_byte_of [simp]: "chr_of (byte_of c) = c"
  by (simp add: chr_of_def byte_of_def unat_of_nat take_bit_eq_mod [symmetric])

lemma byte_of_chr_of [simp]: "byte_of (chr_of b) = b"
proof -
  have "unat b < 256" using unat_bound [of b] by simp
  then show ?thesis by (simp add: chr_of_def byte_of_def)
qed

definition is_upper :: "char \<Rightarrow> bool" where
  "is_upper c = (65 \<le> (of_char c :: nat) \<and> (of_char c :: nat) \<le> 90)"

definition is_lower :: "char \<Rightarrow> bool" where
  "is_lower c = (97 \<le> (of_char c :: nat) \<and> (of_char c :: nat) \<le> 122)"

definition is_digit :: "char \<Rightarrow> bool" where
  "is_digit c = (48 \<le> (of_char c :: nat) \<and> (of_char c :: nat) \<le> 57)"

definition is_alphanumeric :: "char \<Rightarrow> bool" where
  "is_alphanumeric c = (is_upper c \<or> is_lower c \<or> is_digit c)"

definition lower_char :: "char \<Rightarrow> char" where
  "lower_char c = (if is_upper c then char_of ((of_char c :: nat) + 32) else c)"

definition to_ascii_lowercase :: "string \<Rightarrow> string" where
  "to_ascii_lowercase s = map lower_char s"

definition eq_ignore_ascii_case :: "string \<Rightarrow> string \<Rightarrow> bool" where
  "eq_ignore_ascii_case a b = (map lower_char a = map lower_char b)"

lemma is_upper_lower_char [simp]: "\<not> is_upper (lower_char c)"
proof (cases "is_upper c")
  case True
  then have "(of_char c :: nat) + 32 < 256" and "97 \<le> (of_char c :: nat) + 32"
    by (auto simp: is_upper_def)
  with True show ?thesis by (simp add: lower_char_def is_upper_def)
next
  case False
  then show ?thesis by (simp add: lower_char_def)
qed

lemma lower_char_idem [simp]: "lower_char (lower_char c) = lower_char c"
  by (simp add: lower_char_def [of "lower_char c"])

lemma length_to_ascii_lowercase [simp]: "length (to_ascii_lowercase s) = length s"
  by (simp add: to_ascii_lowercase_def)

lemma to_ascii_lowercase_idem [simp]:
  "to_ascii_lowercase (to_ascii_lowercase s) = to_ascii_lowercase s"
  by (simp add: to_ascii_lowercase_def)

lemma eq_ignore_ascii_case_lower:
  "eq_ignore_ascii_case a b \<longleftrightarrow> to_ascii_lowercase a = to_ascii_lowercase b"
  by (simp add: eq_ignore_ascii_case_def to_ascii_lowercase_def)

section \<open>Searching and splitting\<close>

definition starts_with :: "string \<Rightarrow> string \<Rightarrow> bool" where
  "starts_with p s = prefix p s"

definition ends_with :: "string \<Rightarrow> string \<Rightarrow> bool" where
  "ends_with p s = suffix p s"

definition strip_prefix :: "string \<Rightarrow> string \<Rightarrow> string option" where
  "strip_prefix p s = (if prefix p s then Some (drop (length p) s) else None)"

definition strip_suffix :: "string \<Rightarrow> string \<Rightarrow> string option" where
  "strip_suffix p s = (if suffix p s then Some (take (length s - length p) s) else None)"

definition trim_end_matches :: "char \<Rightarrow> string \<Rightarrow> string" where
  "trim_end_matches c s = rev (dropWhile (\<lambda>x. x = c) (rev s))"

fun split_char :: "char \<Rightarrow> string \<Rightarrow> string list" where
  "split_char c [] = [[]]"
| "split_char c (x # xs) =
     (if x = c then [] # split_char c xs
      else (case split_char c xs of [] \<Rightarrow> [[x]] | y # ys \<Rightarrow> (x # y) # ys))"

fun split_crlf :: "string \<Rightarrow> string list" where
  "split_crlf [] = [[]]"
| "split_crlf [x] = [[x]]"
| "split_crlf (x # y # zs) =
     (if x = CHR 0x0D \<and> y = CHR 0x0A then [] # split_crlf zs
      else (case split_crlf (y # zs) of [] \<Rightarrow> [[x]] | l # ls \<Rightarrow> (x # l) # ls))"

fun split_once :: "char \<Rightarrow> string \<Rightarrow> (string \<times> string) option" where
  "split_once c [] = None"
| "split_once c (x # xs) =
     (if x = c then Some ([], xs)
      else map_option (\<lambda>(a, b). (x # a, b)) (split_once c xs))"

definition rsplit_once :: "char \<Rightarrow> string \<Rightarrow> (string \<times> string) option" where
  "rsplit_once c s = map_option (\<lambda>(a, b). (rev b, rev a)) (split_once c (rev s))"

definition rfind :: "string \<Rightarrow> string \<Rightarrow> nat option" where
  "rfind p s = find (\<lambda>i. prefix p (drop i s)) (rev [0..<Suc (length s)])"

fun join :: "string \<Rightarrow> string list \<Rightarrow> string" where
  "join sep [] = []"
| "join sep [x] = x"
| "join sep (x # y # ys) = x @ sep @ join sep (y # ys)"

lemma split_char_nonempty [simp]: "split_char c s \<noteq> []"
  by (induction s) (auto split: list.splits)

lemma split_crlf_nonempty [simp]: "split_crlf s \<noteq> []"
  by (induction s rule: split_crlf.induct) (auto split: list.splits)

lemma split_once_SomeD: "split_once c s = Some (a, b) \<Longrightarrow> s = a @ c # b \<and> c \<notin> set a"
  by (induction s arbitrary: a) (auto split: if_splits)

lemma split_once_None_iff: "split_once c s = None \<longleftrightarrow> c \<notin> set s"
  by (induction s) auto

lemma split_once_append: "c \<notin> set a \<Longrightarrow> split_once c (a @ c # b) = Some (a, b)"
  by (induction a) auto

lemma rsplit_once_SomeD: "rsplit_once c s = Some (a, b) \<Longrightarrow> s = a @ c # b \<and> c \<notin> set b"
  by (auto simp: rsplit_once_def dest!: split_once_SomeD)
    (metis append_assoc append_Cons append_Nil rev.simps(2) rev_append rev_rev_ident)

lemma concat_split_char: "c \<notin> set x \<Longrightarrow> split_char c (x @ c # s) = x # split_char c s"
  by (induction x) auto

lemma split_char_no_sep: "c \<notin> set x \<Longrightarrow> split_char c x = [x]"
  by (induction x) auto

lemma set_split_char: "p \<in> set (split_char c s) \<Longrightarrow> c \<notin> set p \<and> set p \<subseteq> set s"
proof (induction s arbitrary: p)
  case Nil
  then show ?case by simp
next
  case (Cons x xs)
  show ?case
  proof (cases "x = c")
    case True
    with Cons show ?thesis by auto
  next
    case False
    obtain y ys where ys: "split_char c xs = y # ys"
      using split_char_nonempty [of c xs] by (cases "split_char c xs") auto
    with Cons.IH have y: "c \<notin> set y \<and> set y \<subseteq> set xs"
      and r: "\<And>q. q \<in> set ys \<Longrightarrow> c \<notin> set q \<and> set q \<subseteq> set xs" by auto
    from Cons.prems False ys have "p = x # y \<or> p \<in> set ys" by simp
    with y r False show ?thesis by fastforce
  qed
qed

lemma rfind_SomeD: "rfind p s = Some i \<Longrightarrow> i \<le> length s \<and> prefix p (drop i s)"
  unfolding rfind_def by (drule find_Some_iff2) auto

lemma rfind_NoneD: "rfind p s = None \<Longrightarrow> i \<le> length s \<Longrightarrow> \<not> prefix p (drop i s)"
  unfolding rfind_def find_None_iff by (auto simp: less_Suc_eq_le simp del: upt_Suc)

lemma rfind_last:
  assumes "rfind p s = Some i" and "prefix p (drop j s)" and "j \<le> length s"
  shows "j \<le> i"
proof (rule ccontr)
  assume "\<not> j \<le> i"
  from assms(1) obtain k where k: "k < Suc (length s)" "rev [0..<Suc (length s)] ! k = i"
    and before: "\<forall>l<k. \<not> prefix p (drop (rev [0..<Suc (length s)] ! l) s)"
    unfolding rfind_def find_Some_iff by auto
  have nth: "rev [0..<Suc (length s)] ! l = length s - l" if "l < Suc (length s)" for l
    using that by (simp only: rev_nth length_upt) (simp add: nth_upt del: upt_Suc)
  from k nth have "i = length s - k" by simp
  with \<open>\<not> j \<le> i\<close> assms(3) k(1) have "length s - j < k" by arith
  with before k(1) nth [of "length s - j"] assms(2,3) show False by auto
qed

lemma trim_end_matches_prefix: "prefix (trim_end_matches c s) s"
  unfolding trim_end_matches_def prefix_def
  by (metis rev_append rev_rev_ident takeWhile_dropWhile_id)

lemma trim_end_matches_last:
  assumes "trim_end_matches c s \<noteq> []"
  shows "last (trim_end_matches c s) \<noteq> c"
proof -
  have "dropWhile (\<lambda>x. x = c) (rev s) \<noteq> []" using assms by (simp add: trim_end_matches_def)
  from hd_dropWhile [OF this] show ?thesis
    by (simp add: trim_end_matches_def last_rev)
qed

lemma trim_end_matches_replicate:
  assumes "s \<noteq> []" and "last s \<noteq> c"
  shows "trim_end_matches c (s @ replicate k c) = s"
proof -
  have "dropWhile (\<lambda>x. x = c) (replicate k c @ rev s) = rev s"
    using assms by (induction k) (simp_all add: dropWhile_eq_self_iff hd_rev)
  then show ?thesis by (simp add: trim_end_matches_def)
qed

section \<open>Trimming whitespace\<close>

text \<open>
  \<open>str::trim\<close> removes code points with the Unicode property \<open>White_Space\<close>; these are their
  UTF-8 encodings.
\<close>

definition ws_seqs :: "string list" where
  "ws_seqs =
    [[CHR 0x09], [CHR 0x0A], [CHR 0x0B], [CHR 0x0C], [CHR 0x0D], [CHR 0x20],
     [CHR 0xC2, CHR 0x85], [CHR 0xC2, CHR 0xA0], [CHR 0xE1, CHR 0x9A, CHR 0x80],
     [CHR 0xE2, CHR 0x80, CHR 0x80], [CHR 0xE2, CHR 0x80, CHR 0x81],
     [CHR 0xE2, CHR 0x80, CHR 0x82], [CHR 0xE2, CHR 0x80, CHR 0x83],
     [CHR 0xE2, CHR 0x80, CHR 0x84], [CHR 0xE2, CHR 0x80, CHR 0x85],
     [CHR 0xE2, CHR 0x80, CHR 0x86], [CHR 0xE2, CHR 0x80, CHR 0x87],
     [CHR 0xE2, CHR 0x80, CHR 0x88], [CHR 0xE2, CHR 0x80, CHR 0x89],
     [CHR 0xE2, CHR 0x80, CHR 0x8A], [CHR 0xE2, CHR 0x80, CHR 0xA8],
     [CHR 0xE2, CHR 0x80, CHR 0xA9], [CHR 0xE2, CHR 0x80, CHR 0xAF],
     [CHR 0xE2, CHR 0x81, CHR 0x9F], [CHR 0xE3, CHR 0x80, CHR 0x80]]"

text \<open>Strip any of the sequences \<open>ps\<close> from the front, at most \<open>length s\<close> times.\<close>

fun strip_seqs :: "nat \<Rightarrow> string list \<Rightarrow> string \<Rightarrow> string" where
  "strip_seqs 0 ps s = s"
| "strip_seqs (Suc n) ps s =
     (case find (\<lambda>p. prefix p s) ps of
        None \<Rightarrow> s
      | Some p \<Rightarrow> strip_seqs n ps (drop (length p) s))"

definition trim_start :: "string \<Rightarrow> string" where
  "trim_start s = strip_seqs (length s) ws_seqs s"

definition trim_end :: "string \<Rightarrow> string" where
  "trim_end s = rev (strip_seqs (length s) (map rev ws_seqs) (rev s))"

definition trim :: "string \<Rightarrow> string" where
  "trim s = trim_end (trim_start s)"

section \<open>UTF-8\<close>

definition utf8_cont :: "u8 \<Rightarrow> bool" where
  "utf8_cont b = (0x80 \<le> b \<and> b \<le> 0xBF)"

text \<open>The width a leading byte announces, 0 for a byte that starts no code point.\<close>

definition utf8_need :: "u8 \<Rightarrow> nat" where
  "utf8_need b =
     (if b < 0x80 then 1
      else if 0xC2 \<le> b \<and> b \<le> 0xDF then 2
      else if 0xE0 \<le> b \<and> b \<le> 0xEF then 3
      else if 0xF0 \<le> b \<and> b \<le> 0xF4 then 4
      else 0)"

definition utf8_second_ok :: "u8 \<Rightarrow> u8 \<Rightarrow> bool" where
  "utf8_second_ok b0 b1 =
     (if b0 = 0xE0 then 0xA0 \<le> b1 \<and> b1 \<le> 0xBF
      else if b0 = 0xED then 0x80 \<le> b1 \<and> b1 \<le> 0x9F
      else if b0 = 0xF0 then 0x90 \<le> b1 \<and> b1 \<le> 0xBF
      else if b0 = 0xF4 then 0x80 \<le> b1 \<and> b1 \<le> 0x8F
      else utf8_cont b1)"

text \<open>
  The first chunk of a buffer: how many bytes it spans and whether they are one well-formed
  code point. An ill-formed chunk is the maximal prefix of a code point, as in
  \<open>Utf8Error::error_len\<close>.
\<close>

definition utf8_chunk :: "u8 list \<Rightarrow> nat \<times> bool" where
  "utf8_chunk bs =
     (case bs of [] \<Rightarrow> (0, True)
      | b0 # r0 \<Rightarrow>
        (let n = utf8_need b0 in
         if n = 0 then (1, False)
         else if n = 1 then (1, True)
         else case r0 of [] \<Rightarrow> (1, False)
           | b1 # r1 \<Rightarrow>
             if \<not> utf8_second_ok b0 b1 then (1, False)
             else if n = 2 then (2, True)
             else (case r1 of [] \<Rightarrow> (2, False)
               | b2 # r2 \<Rightarrow>
                 if \<not> utf8_cont b2 then (2, False)
                 else if n = 3 then (3, True)
                 else (case r2 of [] \<Rightarrow> (3, False)
                   | b3 # r3 \<Rightarrow> if utf8_cont b3 then (4, True) else (3, False)))))"

lemma utf8_chunk_pos: "bs \<noteq> [] \<Longrightarrow> 0 < fst (utf8_chunk bs)"
  by (auto simp: utf8_chunk_def Let_def split: list.splits)

lemma utf8_chunk_le: "fst (utf8_chunk bs) \<le> length bs"
  by (auto simp: utf8_chunk_def Let_def split: list.splits)

lemma utf8_chunk_ascii: "b < 0x80 \<Longrightarrow> utf8_chunk (b # r) = (1, True)"
  by (simp add: utf8_chunk_def utf8_need_def)

function utf8_valid_up_to :: "u8 list \<Rightarrow> nat" where
  "utf8_valid_up_to bs =
     (if bs = [] then 0
      else if snd (utf8_chunk bs)
      then fst (utf8_chunk bs) + utf8_valid_up_to (drop (fst (utf8_chunk bs)) bs)
      else 0)"
  by pat_completeness auto
termination
  by (relation "measure length") (auto simp: utf8_chunk_pos)

declare utf8_valid_up_to.simps [simp del]

definition from_utf8 :: "u8 list \<Rightarrow> string option" where
  "from_utf8 bs = (if utf8_valid_up_to bs = length bs then Some (map chr_of bs) else None)"

definition utf8_replacement :: string where
  "utf8_replacement = [CHR 0xEF, CHR 0xBF, CHR 0xBD]"

function from_utf8_lossy :: "u8 list \<Rightarrow> string" where
  "from_utf8_lossy bs =
     (if bs = [] then []
      else (if snd (utf8_chunk bs) then map chr_of (take (fst (utf8_chunk bs)) bs)
            else utf8_replacement)
        @ from_utf8_lossy (drop (fst (utf8_chunk bs)) bs))"
  by pat_completeness auto
termination
  by (relation "measure length") (auto simp: utf8_chunk_pos)

declare from_utf8_lossy.simps [simp del]

lemma utf8_valid_up_to_le: "utf8_valid_up_to bs \<le> length bs"
proof (induction bs rule: utf8_valid_up_to.induct)
  case (1 bs)
  then show ?case
    using utf8_chunk_le [of bs] by (subst utf8_valid_up_to.simps) auto
qed

lemma from_utf8_ascii:
  assumes "\<forall>b\<in>set bs. b < 0x80"
  shows "from_utf8 bs = Some (map chr_of bs)"
proof -
  have "utf8_valid_up_to bs = length bs" using assms
    by (induction bs) (simp_all add: utf8_valid_up_to.simps utf8_chunk_ascii)
  then show ?thesis by (simp add: from_utf8_def)
qed

lemma from_utf8_lossy_ascii:
  assumes "\<forall>b\<in>set bs. b < 0x80"
  shows "from_utf8_lossy bs = map chr_of bs"
  using assms by (induction bs) (simp_all add: from_utf8_lossy.simps utf8_chunk_ascii)

section \<open>Parsing and printing numbers\<close>

fun digits_value :: "nat \<Rightarrow> string \<Rightarrow> nat" where
  "digits_value acc [] = acc"
| "digits_value acc (c # cs) = digits_value (10 * acc + (of_char c - 48)) cs"

text \<open>
  \<open><unsigned>::from_str\<close> with largest value \<open>mx\<close>: an optional leading \<open>+\<close>, then one or more
  decimal digits whose value fits.
\<close>

definition parse_uint :: "nat \<Rightarrow> string \<Rightarrow> nat option" where
  "parse_uint mx s =
     (let ds = (case s of c # r \<Rightarrow> if c = CHR ''+'' then r else s | [] \<Rightarrow> []) in
      if ds \<noteq> [] \<and> list_all is_digit ds \<and> digits_value 0 ds \<le> mx
      then Some (digits_value 0 ds) else None)"

definition parse_u64 :: "string \<Rightarrow> u64 option" where
  "parse_u64 s = map_option of_nat (parse_uint (2 ^ 64 - 1) s)"

definition parse_u16 :: "string \<Rightarrow> u16 option" where
  "parse_u16 s = map_option of_nat (parse_uint (2 ^ 16 - 1) s)"

definition digit_char :: "nat \<Rightarrow> char" where
  "digit_char d = char_of (if d < 10 then 48 + d else 87 + d)"

fun dec_string :: "nat \<Rightarrow> string" where
  "dec_string n = (if n < 10 then [digit_char n] else dec_string (n div 10) @ [digit_char (n mod 10)])"

declare dec_string.simps [simp del]

fun hex_fixed :: "nat \<Rightarrow> nat \<Rightarrow> string" where
  "hex_fixed 0 n = []"
| "hex_fixed (Suc k) n = hex_fixed k (n div 16) @ [digit_char (n mod 16)]"

fun hex_string :: "nat \<Rightarrow> string" where
  "hex_string n = (if n < 16 then [digit_char n] else hex_string (n div 16) @ [digit_char (n mod 16)])"

declare hex_string.simps [simp del]

lemma length_hex_fixed [simp]: "length (hex_fixed k n) = k"
  by (induction k arbitrary: n) auto

lemma of_char_digit_char:
  "d < 16 \<Longrightarrow> of_char (digit_char d) = (if d < 10 then 48 + d else 87 + d)"
  by (simp add: digit_char_def)

lemma digit_char_inj: "a < 16 \<Longrightarrow> b < 16 \<Longrightarrow> digit_char a = digit_char b \<longleftrightarrow> a = b"
  by (auto dest!: arg_cong [where f = "of_char :: char \<Rightarrow> nat"] simp: of_char_digit_char
      split: if_splits)

lemma hex_fixed_inj:
  assumes "a < 16 ^ k" and "b < 16 ^ k" and "hex_fixed k a = hex_fixed k b"
  shows "a = b"
  using assms
proof (induction k arbitrary: a b)
  case 0
  then show ?case by simp
next
  case (Suc k)
  from Suc.prems(3) have "hex_fixed k (a div 16) = hex_fixed k (b div 16)"
    and "digit_char (a mod 16) = digit_char (b mod 16)" by auto
  moreover have "a div 16 < 16 ^ k" "b div 16 < 16 ^ k"
    using Suc.prems by (auto simp: less_mult_imp_div_less mult.commute)
  ultimately have "a div 16 = b div 16" and "a mod 16 = b mod 16"
    using Suc.IH by (auto simp: digit_char_inj)
  then show ?case by (metis div_mult_mod_eq)
qed

lemma digits_value_append:
  "digits_value acc (xs @ [c]) = 10 * digits_value acc xs + (of_char c - 48)"
  by (induction xs arbitrary: acc) auto

lemma is_digit_digit_char: "d < 10 \<Longrightarrow> is_digit (digit_char d)"
  by (simp add: is_digit_def of_char_digit_char)

lemma dec_string_nonempty [simp]: "dec_string n \<noteq> []"
  by (subst dec_string.simps) simp

lemma dec_string_digits: "list_all is_digit (dec_string n)"
proof (induction n rule: dec_string.induct)
  case (1 n)
  then show ?case by (subst dec_string.simps) (simp add: is_digit_digit_char)
qed

lemma digits_value_dec_string: "digits_value 0 (dec_string n) = n"
proof (induction n rule: dec_string.induct)
  case (1 n)
  then show ?case
    by (subst dec_string.simps) (simp add: digits_value_append of_char_digit_char)
qed

lemma parse_dec_string: "parse_uint mx (dec_string n) = (if n \<le> mx then Some n else None)"
proof -
  have "hd (dec_string n) \<noteq> CHR ''+''"
    using dec_string_digits [of n] by (cases "dec_string n") (auto simp: is_digit_def)
  then have "(case dec_string n of c # r \<Rightarrow> if c = CHR ''+'' then r else dec_string n | [] \<Rightarrow> [])
      = dec_string n"
    by (cases "dec_string n") auto
  then show ?thesis
    by (simp add: parse_uint_def dec_string_digits digits_value_dec_string)
qed

lemma parse_u64_dec_string: "parse_u64 (dec_string (unat w)) = Some w"
  using unat_bound [of w] by (simp add: parse_u64_def parse_dec_string)

end
