(* ===== verification/Events.thy ===== *)
theory Events
  imports RustStr
begin

text \<open>
  \<open>crates/s3tap-events/src/lib.rs\<close>: the kernel-to-agent event records and their decoder. A
  \<open>#[repr(C)]\<close> struct is a record whose reader takes each field from the byte offset the C layout
  gives it (the offsets that \<open>tests/layout.rs\<close> pins), little-endian as on x86_64 and aarch64.
  A fixed-size array field is a list; \<open>wf_event\<close> states its length. The writers \<open>enc_*\<close> lay a
  record out the way \<open>bpf/include/s3tap_events.h\<close> does, with arbitrary bytes in the padding.
\<close>

section \<open>Fields of a byte buffer\<close>

definition field_at :: "nat \<Rightarrow> nat \<Rightarrow> 'a list \<Rightarrow> 'a list" where
  "field_at off n b = take n (drop off b)"

fun le_nat :: "u8 list \<Rightarrow> nat" where
  "le_nat [] = 0"
| "le_nat (x # xs) = unat x + 256 * le_nat xs"

definition le16 :: "nat \<Rightarrow> u8 list \<Rightarrow> u16" where
  "le16 off b = of_nat (le_nat (field_at off 2 b))"

definition le32 :: "nat \<Rightarrow> u8 list \<Rightarrow> u32" where
  "le32 off b = of_nat (le_nat (field_at off 4 b))"

definition le64 :: "nat \<Rightarrow> u8 list \<Rightarrow> u64" where
  "le64 off b = of_nat (le_nat (field_at off 8 b))"

fun le_bytes :: "nat \<Rightarrow> nat \<Rightarrow> u8 list" where
  "le_bytes 0 v = []"
| "le_bytes (Suc n) v = of_nat (v mod 256) # le_bytes n (v div 256)"

definition enc_le :: "nat \<Rightarrow> 'a::len word \<Rightarrow> u8 list" where
  "enc_le n w = le_bytes n (unat w)"

definition enc_pad :: "(nat \<Rightarrow> u8) \<Rightarrow> nat \<Rightarrow> nat \<Rightarrow> u8 list" where
  "enc_pad p a b = map p [a..<b]"

lemma length_slice [simp]: "off + n \<le> length b \<Longrightarrow> length (field_at off n b) = n"
  by (simp add: field_at_def)

lemma length_le_bytes [simp]: "length (le_bytes n v) = n"
  by (induction n arbitrary: v) auto

lemma length_enc_le [simp]: "length (enc_le n w) = n"
  by (simp add: enc_le_def)

lemma length_enc_pad [simp]: "length (enc_pad p a b) = b - a"
  by (simp add: enc_pad_def)

lemma le_nat_le_bytes: "le_nat (le_bytes n v) = v mod 256 ^ n"
proof (induction n arbitrary: v)
  case 0
  then show ?case by simp
next
  case (Suc n)
  have "v mod (256 * 256 ^ n) = 256 * (v div 256 mod 256 ^ n) + v mod 256"
    by (simp add: mod_mult2_eq)
  then show ?case using Suc by (simp add: unat_of_nat)
qed

lemma of_nat_le_nat_enc_le:
  "LENGTH('a) = 8 * n \<Longrightarrow> of_nat (le_nat (enc_le n w)) = w" for w :: "'a::len word"
proof -
  assume n: "LENGTH('a) = 8 * n"
  have "(256 :: nat) ^ n = 2 ^ LENGTH('a)" by (simp add: n power_mult)
  then have "unat w < 256 ^ n" using unat_bound [of w] by simp
  then show ?thesis by (simp add: enc_le_def le_nat_le_bytes)
qed

lemma enc_le_roundtrip [simp]:
  "of_nat (le_nat (enc_le 2 (w16 :: u16))) = w16"
  "of_nat (le_nat (enc_le 4 (w32 :: u32))) = w32"
  "of_nat (le_nat (enc_le 8 (w64 :: u64))) = w64"
  by (simp_all add: of_nat_le_nat_enc_le)

section \<open>The common header and the constants\<close>

record event_hdr =
  hdr_schema_version :: u16
  hdr_type :: u16
  hdr_cpu :: u32
  hdr_ts_ns :: u64
  hdr_tgid :: u32
  hdr_tid :: u32
  hdr_sock_cookie :: u64

definition event_hdr_default :: event_hdr where
  "event_hdr_default = \<lparr>hdr_schema_version = 0, hdr_type = 0, hdr_cpu = 0, hdr_ts_ns = 0,
     hdr_tgid = 0, hdr_tid = 0, hdr_sock_cookie = 0\<rparr>"

definition read_hdr :: "u8 list \<Rightarrow> event_hdr" where
  "read_hdr b =
    \<lparr>hdr_schema_version = le16 0 b, hdr_type = le16 2 b, hdr_cpu = le32 4 b, hdr_ts_ns = le64 8 b,
     hdr_tgid = le32 16 b, hdr_tid = le32 20 b, hdr_sock_cookie = le64 24 b\<rparr>"

definition enc_hdr :: "event_hdr \<Rightarrow> u8 list" where
  "enc_hdr h = enc_le 2 (hdr_schema_version h) @ enc_le 2 (hdr_type h) @ enc_le 4 (hdr_cpu h)
     @ enc_le 8 (hdr_ts_ns h) @ enc_le 4 (hdr_tgid h) @ enc_le 4 (hdr_tid h) @ enc_le 8 (hdr_sock_cookie h)"

definition SCHEMA_VERSION :: u16 where "SCHEMA_VERSION = 2"

definition EVT_DNS_QUERY :: u16 where "EVT_DNS_QUERY = 1"
definition EVT_DNS_RESPONSE :: u16 where "EVT_DNS_RESPONSE = 2"
definition EVT_GETADDRINFO :: u16 where "EVT_GETADDRINFO = 3"
definition EVT_CONN_ID :: u16 where "EVT_CONN_ID = 10"
definition EVT_TCP_CONNECT :: u16 where "EVT_TCP_CONNECT = 11"
definition EVT_TCP_CLOSE :: u16 where "EVT_TCP_CLOSE = 13"
definition EVT_TCP_SAMPLE :: u16 where "EVT_TCP_SAMPLE = 14"
definition EVT_TLS_HANDSHAKE :: u16 where "EVT_TLS_HANDSHAKE = 20"
definition EVT_TLS_WRITE :: u16 where "EVT_TLS_WRITE = 21"
definition EVT_TLS_READ :: u16 where "EVT_TLS_READ = 22"
definition EVT_TLS_READ_BODY :: u16 where "EVT_TLS_READ_BODY = 23"
definition EVT_TLS_SERVER :: u16 where "EVT_TLS_SERVER = 24"
definition EVT_PROC_EXEC :: u16 where "EVT_PROC_EXEC = 30"

definition QNAME_MAX :: nat where "QNAME_MAX = 255"
definition SNI_MAX :: nat where "SNI_MAX = 255"
definition DNS_PAYLOAD_MAX :: nat where "DNS_PAYLOAD_MAX = 512"
definition HDR_CAP :: nat where "HDR_CAP = 4096"
definition COMM_LEN :: nat where "COMM_LEN = 16"
definition EXE_MAX :: nat where "EXE_MAX = 256"

lemmas evt_tags =
  EVT_DNS_QUERY_def EVT_DNS_RESPONSE_def EVT_GETADDRINFO_def EVT_CONN_ID_def EVT_TCP_CONNECT_def
  EVT_TCP_CLOSE_def EVT_TCP_SAMPLE_def EVT_TLS_HANDSHAKE_def EVT_TLS_WRITE_def EVT_TLS_READ_def
  EVT_TLS_READ_BODY_def EVT_TLS_SERVER_def EVT_PROC_EXEC_def

section \<open>The event records\<close>

record evt_conn_id =
  ci_hdr :: event_hdr
  ci_fd :: u32
  ci_pad :: u32

definition read_evt_conn_id :: "u8 list \<Rightarrow> evt_conn_id option" where
  "read_evt_conn_id b = then_some (length b = 40)
    \<lparr>ci_hdr = read_hdr b, ci_fd = le32 32 b, ci_pad = le32 36 b\<rparr>"

definition enc_evt_conn_id :: "(nat \<Rightarrow> u8) \<Rightarrow> evt_conn_id \<Rightarrow> u8 list" where
  "enc_evt_conn_id p e = enc_hdr (ci_hdr e) @ enc_le 4 (ci_fd e) @ enc_le 4 (ci_pad e)"

record evt_tcp_connect =
  tco_hdr :: event_hdr
  tco_family :: u8
  tco_saddr :: "u8 list"
  tco_daddr :: "u8 list"
  tco_connect_failed :: u8
  tco_dport :: u16
  tco_sport :: u16
  tco_connect_latency_ns :: u64

definition read_evt_tcp_connect :: "u8 list \<Rightarrow> evt_tcp_connect option" where
  "read_evt_tcp_connect b = then_some (length b = 80)
    \<lparr>tco_hdr = read_hdr b, tco_family = b ! 32, tco_saddr = field_at 33 16 b,
     tco_daddr = field_at 49 16 b, tco_connect_failed = b ! 65, tco_dport = le16 66 b,
     tco_sport = le16 68 b, tco_connect_latency_ns = le64 72 b\<rparr>"

definition enc_evt_tcp_connect :: "(nat \<Rightarrow> u8) \<Rightarrow> evt_tcp_connect \<Rightarrow> u8 list" where
  "enc_evt_tcp_connect p e = enc_hdr (tco_hdr e) @ [tco_family e] @ tco_saddr e @ tco_daddr e
     @ [tco_connect_failed e] @ enc_le 2 (tco_dport e) @ enc_le 2 (tco_sport e)
     @ enc_pad p 70 72 @ enc_le 8 (tco_connect_latency_ns e)"

record evt_tcp_close =
  tcl_hdr :: event_hdr
  tcl_bytes_sent :: u64
  tcl_bytes_recv :: u64
  tcl_retransmit_count :: u32
  tcl_srtt_us :: u32
  tcl_lifetime_ns :: u64
  tcl_delivery_rate_bps :: u64
  tcl_min_rtt_us :: u32
  tcl_rttvar_us :: u32
  tcl_snd_cwnd :: u32
  tcl_mss_cache :: u32
  tcl_busy_jiffies :: u32
  tcl_rwnd_limited_jiffies :: u32
  tcl_sndbuf_limited_jiffies :: u32
  tcl_lost :: u32
  tcl_sacked_out :: u32
  tcl_reordering :: u32
  tcl_ca_state :: u8
  tcl_rcv_wnd :: u32
  tcl_window_clamp :: u32
  tcl_handshake_us :: u32
  tcl_bytes_retrans :: u64
  tcl_dsack_dups :: u32
  tcl_rcv_ooopack :: u32
  tcl_rate_app_limited :: u8

definition read_evt_tcp_close :: "u8 list \<Rightarrow> evt_tcp_close option" where
  "read_evt_tcp_close b = then_some (length b = 152)
    \<lparr>tcl_hdr = read_hdr b, tcl_bytes_sent = le64 32 b, tcl_bytes_recv = le64 40 b,
     tcl_retransmit_count = le32 48 b, tcl_srtt_us = le32 52 b, tcl_lifetime_ns = le64 56 b,
     tcl_delivery_rate_bps = le64 64 b, tcl_min_rtt_us = le32 72 b,
     tcl_rttvar_us = le32 76 b, tcl_snd_cwnd = le32 80 b, tcl_mss_cache = le32 84 b,
     tcl_busy_jiffies = le32 88 b, tcl_rwnd_limited_jiffies = le32 92 b,
     tcl_sndbuf_limited_jiffies = le32 96 b, tcl_lost = le32 100 b,
     tcl_sacked_out = le32 104 b, tcl_reordering = le32 108 b, tcl_ca_state = b ! 112,
     tcl_rcv_wnd = le32 116 b, tcl_window_clamp = le32 120 b, tcl_handshake_us = le32 124 b,
     tcl_bytes_retrans = le64 128 b, tcl_dsack_dups = le32 136 b,
     tcl_rcv_ooopack = le32 140 b, tcl_rate_app_limited = b ! 144\<rparr>"

definition enc_evt_tcp_close :: "(nat \<Rightarrow> u8) \<Rightarrow> evt_tcp_close \<Rightarrow> u8 list" where
  "enc_evt_tcp_close p e = enc_hdr (tcl_hdr e) @ enc_le 8 (tcl_bytes_sent e) @ enc_le 8 (tcl_bytes_recv e)
     @ enc_le 4 (tcl_retransmit_count e) @ enc_le 4 (tcl_srtt_us e)
     @ enc_le 8 (tcl_lifetime_ns e) @ enc_le 8 (tcl_delivery_rate_bps e)
     @ enc_le 4 (tcl_min_rtt_us e) @ enc_le 4 (tcl_rttvar_us e) @ enc_le 4 (tcl_snd_cwnd e)
     @ enc_le 4 (tcl_mss_cache e) @ enc_le 4 (tcl_busy_jiffies e)
     @ enc_le 4 (tcl_rwnd_limited_jiffies e) @ enc_le 4 (tcl_sndbuf_limited_jiffies e)
     @ enc_le 4 (tcl_lost e) @ enc_le 4 (tcl_sacked_out e) @ enc_le 4 (tcl_reordering e)
     @ [tcl_ca_state e] @ enc_pad p 113 116 @ enc_le 4 (tcl_rcv_wnd e)
     @ enc_le 4 (tcl_window_clamp e) @ enc_le 4 (tcl_handshake_us e)
     @ enc_le 8 (tcl_bytes_retrans e) @ enc_le 4 (tcl_dsack_dups e)
     @ enc_le 4 (tcl_rcv_ooopack e) @ [tcl_rate_app_limited e] @ enc_pad p 145 152"

record evt_tcp_sample =
  tsa_hdr :: event_hdr
  tsa_bytes_sent :: u64
  tsa_bytes_recv :: u64
  tsa_bytes_in_flight :: u64
  tsa_delivery_rate_bps :: u64
  tsa_snd_cwnd :: u32
  tsa_srtt_us :: u32
  tsa_min_rtt_us :: u32
  tsa_total_retrans :: u32
  tsa_rcv_ooopack :: u32
  tsa_rcv_wnd :: u32
  tsa_snd_wnd :: u32
  tsa_lost :: u32
  tsa_sacked_out :: u32
  tsa_ca_state :: u8
  tsa_flags :: u8

definition read_evt_tcp_sample :: "u8 list \<Rightarrow> evt_tcp_sample option" where
  "read_evt_tcp_sample b = then_some (length b = 104)
    \<lparr>tsa_hdr = read_hdr b, tsa_bytes_sent = le64 32 b, tsa_bytes_recv = le64 40 b,
     tsa_bytes_in_flight = le64 48 b, tsa_delivery_rate_bps = le64 56 b,
     tsa_snd_cwnd = le32 64 b, tsa_srtt_us = le32 68 b, tsa_min_rtt_us = le32 72 b,
     tsa_total_retrans = le32 76 b, tsa_rcv_ooopack = le32 80 b, tsa_rcv_wnd = le32 84 b,
     tsa_snd_wnd = le32 88 b, tsa_lost = le32 92 b, tsa_sacked_out = le32 96 b,
     tsa_ca_state = b ! 100, tsa_flags = b ! 101\<rparr>"

definition enc_evt_tcp_sample :: "(nat \<Rightarrow> u8) \<Rightarrow> evt_tcp_sample \<Rightarrow> u8 list" where
  "enc_evt_tcp_sample p e = enc_hdr (tsa_hdr e) @ enc_le 8 (tsa_bytes_sent e) @ enc_le 8 (tsa_bytes_recv e)
     @ enc_le 8 (tsa_bytes_in_flight e) @ enc_le 8 (tsa_delivery_rate_bps e)
     @ enc_le 4 (tsa_snd_cwnd e) @ enc_le 4 (tsa_srtt_us e) @ enc_le 4 (tsa_min_rtt_us e)
     @ enc_le 4 (tsa_total_retrans e) @ enc_le 4 (tsa_rcv_ooopack e)
     @ enc_le 4 (tsa_rcv_wnd e) @ enc_le 4 (tsa_snd_wnd e) @ enc_le 4 (tsa_lost e)
     @ enc_le 4 (tsa_sacked_out e) @ [tsa_ca_state e] @ [tsa_flags e] @ enc_pad p 102 104"

record evt_dns_query =
  dq_hdr :: event_hdr
  dq_txn_id :: u16
  dq_proto :: u8
  dq_qname_len :: u8
  dq_qname_truncated :: u8
  dq_qname :: "u8 list"

definition read_evt_dns_query :: "u8 list \<Rightarrow> evt_dns_query option" where
  "read_evt_dns_query b = then_some (length b = 296)
    \<lparr>dq_hdr = read_hdr b, dq_txn_id = le16 32 b, dq_proto = b ! 34, dq_qname_len = b ! 35,
     dq_qname_truncated = b ! 36, dq_qname = field_at 37 255 b\<rparr>"

definition enc_evt_dns_query :: "(nat \<Rightarrow> u8) \<Rightarrow> evt_dns_query \<Rightarrow> u8 list" where
  "enc_evt_dns_query p e = enc_hdr (dq_hdr e) @ enc_le 2 (dq_txn_id e) @ [dq_proto e] @ [dq_qname_len e]
     @ [dq_qname_truncated e] @ dq_qname e @ enc_pad p 292 296"

record evt_dns_response =
  dr_hdr :: event_hdr
  dr_payload_len :: u16
  dr_payload :: "u8 list"

definition read_evt_dns_response :: "u8 list \<Rightarrow> evt_dns_response option" where
  "read_evt_dns_response b = then_some (length b = 552)
    \<lparr>dr_hdr = read_hdr b, dr_payload_len = le16 32 b, dr_payload = field_at 34 512 b\<rparr>"

definition enc_evt_dns_response :: "(nat \<Rightarrow> u8) \<Rightarrow> evt_dns_response \<Rightarrow> u8 list" where
  "enc_evt_dns_response p e = enc_hdr (dr_hdr e) @ enc_le 2 (dr_payload_len e) @ dr_payload e @ enc_pad p 546 552"

record evt_getaddrinfo =
  ga_hdr :: event_hdr
  ga_latency_ns :: u64
  ga_ret :: u32
  ga_hostname_len :: u8
  ga_hostname_truncated :: u8
  ga_saw_wire_activity :: u8
  ga_hostname :: "u8 list"

definition read_evt_getaddrinfo :: "u8 list \<Rightarrow> evt_getaddrinfo option" where
  "read_evt_getaddrinfo b = then_some (length b = 304)
    \<lparr>ga_hdr = read_hdr b, ga_latency_ns = le64 32 b, ga_ret = le32 40 b,
     ga_hostname_len = b ! 44, ga_hostname_truncated = b ! 45,
     ga_saw_wire_activity = b ! 46, ga_hostname = field_at 47 255 b\<rparr>"

definition enc_evt_getaddrinfo :: "(nat \<Rightarrow> u8) \<Rightarrow> evt_getaddrinfo \<Rightarrow> u8 list" where
  "enc_evt_getaddrinfo p e = enc_hdr (ga_hdr e) @ enc_le 8 (ga_latency_ns e) @ enc_le 4 (ga_ret e)
     @ [ga_hostname_len e] @ [ga_hostname_truncated e] @ [ga_saw_wire_activity e]
     @ ga_hostname e @ enc_pad p 302 304"

record evt_tls_handshake =
  th_hdr :: event_hdr
  th_tls_version :: u16
  th_sni_len :: u8
  th_sni_truncated :: u8
  th_sni :: "u8 list"

definition read_evt_tls_handshake :: "u8 list \<Rightarrow> evt_tls_handshake option" where
  "read_evt_tls_handshake b = then_some (length b = 296)
    \<lparr>th_hdr = read_hdr b, th_tls_version = le16 32 b, th_sni_len = b ! 34,
     th_sni_truncated = b ! 35, th_sni = field_at 36 255 b\<rparr>"

definition enc_evt_tls_handshake :: "(nat \<Rightarrow> u8) \<Rightarrow> evt_tls_handshake \<Rightarrow> u8 list" where
  "enc_evt_tls_handshake p e = enc_hdr (th_hdr e) @ enc_le 2 (th_tls_version e) @ [th_sni_len e]
     @ [th_sni_truncated e] @ th_sni e @ enc_pad p 291 296"

record evt_tls_server =
  tse_hdr :: event_hdr
  tse_version :: u16
  tse_cipher :: u16

definition read_evt_tls_server :: "u8 list \<Rightarrow> evt_tls_server option" where
  "read_evt_tls_server b = then_some (length b = 40)
    \<lparr>tse_hdr = read_hdr b, tse_version = le16 32 b, tse_cipher = le16 34 b\<rparr>"

definition enc_evt_tls_server :: "(nat \<Rightarrow> u8) \<Rightarrow> evt_tls_server \<Rightarrow> u8 list" where
  "enc_evt_tls_server p e = enc_hdr (tse_hdr e) @ enc_le 2 (tse_version e) @ enc_le 2 (tse_cipher e)
     @ enc_pad p 36 40"

record evt_tls_data =
  td_hdr :: event_hdr
  td_fd :: u32
  td_plaintext_len :: u32
  td_captured_len :: u16
  td_captured_truncated :: u8
  td_pad :: u8
  td_data :: "u8 list"

definition read_evt_tls_data :: "u8 list \<Rightarrow> evt_tls_data option" where
  "read_evt_tls_data b = then_some (length b = 4144)
    \<lparr>td_hdr = read_hdr b, td_fd = le32 32 b, td_plaintext_len = le32 36 b,
     td_captured_len = le16 40 b, td_captured_truncated = b ! 42, td_pad = b ! 43,
     td_data = field_at 44 4096 b\<rparr>"

definition enc_evt_tls_data :: "(nat \<Rightarrow> u8) \<Rightarrow> evt_tls_data \<Rightarrow> u8 list" where
  "enc_evt_tls_data p e = enc_hdr (td_hdr e) @ enc_le 4 (td_fd e) @ enc_le 4 (td_plaintext_len e)
     @ enc_le 2 (td_captured_len e) @ [td_captured_truncated e] @ [td_pad e] @ td_data e
     @ enc_pad p 4140 4144"

record evt_tls_body =
  tb_hdr :: event_hdr
  tb_fd :: u32
  tb_plaintext_len :: u32

definition read_evt_tls_body :: "u8 list \<Rightarrow> evt_tls_body option" where
  "read_evt_tls_body b = then_some (length b = 40)
    \<lparr>tb_hdr = read_hdr b, tb_fd = le32 32 b, tb_plaintext_len = le32 36 b\<rparr>"

definition enc_evt_tls_body :: "(nat \<Rightarrow> u8) \<Rightarrow> evt_tls_body \<Rightarrow> u8 list" where
  "enc_evt_tls_body p e = enc_hdr (tb_hdr e) @ enc_le 4 (tb_fd e) @ enc_le 4 (tb_plaintext_len e)"

record evt_proc_exec =
  pe_hdr :: event_hdr
  pe_cgroup_id :: u64
  pe_comm :: "u8 list"
  pe_exe_len :: u8
  pe_exe_truncated :: u8
  pe_pad :: u16
  pe_exe :: "u8 list"

definition read_evt_proc_exec :: "u8 list \<Rightarrow> evt_proc_exec option" where
  "read_evt_proc_exec b = then_some (length b = 320)
    \<lparr>pe_hdr = read_hdr b, pe_cgroup_id = le64 32 b, pe_comm = field_at 40 16 b,
     pe_exe_len = b ! 56, pe_exe_truncated = b ! 57, pe_pad = le16 58 b,
     pe_exe = field_at 60 256 b\<rparr>"

definition enc_evt_proc_exec :: "(nat \<Rightarrow> u8) \<Rightarrow> evt_proc_exec \<Rightarrow> u8 list" where
  "enc_evt_proc_exec p e = enc_hdr (pe_hdr e) @ enc_le 8 (pe_cgroup_id e) @ pe_comm e @ [pe_exe_len e]
     @ [pe_exe_truncated e] @ enc_le 2 (pe_pad e) @ pe_exe e @ enc_pad p 316 320"

section \<open>Default values\<close>

definition evt_conn_id_default :: evt_conn_id where
  "evt_conn_id_default =
    \<lparr>ci_hdr = event_hdr_default, ci_fd = 0, ci_pad = 0\<rparr>"

definition evt_tcp_connect_default :: evt_tcp_connect where
  "evt_tcp_connect_default =
    \<lparr>tco_hdr = event_hdr_default, tco_family = 0, tco_saddr = replicate 16 0,
     tco_daddr = replicate 16 0, tco_connect_failed = 0, tco_dport = 0, tco_sport = 0,
     tco_connect_latency_ns = 0\<rparr>"

definition evt_tcp_close_default :: evt_tcp_close where
  "evt_tcp_close_default =
    \<lparr>tcl_hdr = event_hdr_default, tcl_bytes_sent = 0, tcl_bytes_recv = 0,
     tcl_retransmit_count = 0, tcl_srtt_us = 0, tcl_lifetime_ns = 0,
     tcl_delivery_rate_bps = 0, tcl_min_rtt_us = 0, tcl_rttvar_us = 0, tcl_snd_cwnd = 0,
     tcl_mss_cache = 0, tcl_busy_jiffies = 0, tcl_rwnd_limited_jiffies = 0,
     tcl_sndbuf_limited_jiffies = 0, tcl_lost = 0, tcl_sacked_out = 0, tcl_reordering = 0,
     tcl_ca_state = 0, tcl_rcv_wnd = 0, tcl_window_clamp = 0, tcl_handshake_us = 0,
     tcl_bytes_retrans = 0, tcl_dsack_dups = 0, tcl_rcv_ooopack = 0,
     tcl_rate_app_limited = 0\<rparr>"

definition evt_tcp_sample_default :: evt_tcp_sample where
  "evt_tcp_sample_default =
    \<lparr>tsa_hdr = event_hdr_default, tsa_bytes_sent = 0, tsa_bytes_recv = 0,
     tsa_bytes_in_flight = 0, tsa_delivery_rate_bps = 0, tsa_snd_cwnd = 0, tsa_srtt_us = 0,
     tsa_min_rtt_us = 0, tsa_total_retrans = 0, tsa_rcv_ooopack = 0, tsa_rcv_wnd = 0,
     tsa_snd_wnd = 0, tsa_lost = 0, tsa_sacked_out = 0, tsa_ca_state = 0, tsa_flags = 0\<rparr>"

definition evt_tls_server_default :: evt_tls_server where
  "evt_tls_server_default =
    \<lparr>tse_hdr = event_hdr_default, tse_version = 0, tse_cipher = 0\<rparr>"

definition evt_tls_body_default :: evt_tls_body where
  "evt_tls_body_default =
    \<lparr>tb_hdr = event_hdr_default, tb_fd = 0, tb_plaintext_len = 0\<rparr>"

definition evt_dns_query_default :: evt_dns_query where
  "evt_dns_query_default =
    \<lparr>dq_hdr = event_hdr_default, dq_txn_id = 0, dq_proto = 0, dq_qname_len = 0,
     dq_qname_truncated = 0, dq_qname = replicate QNAME_MAX 0\<rparr>"

definition evt_dns_response_default :: evt_dns_response where
  "evt_dns_response_default =
    \<lparr>dr_hdr = event_hdr_default, dr_payload_len = 0,
     dr_payload = replicate DNS_PAYLOAD_MAX 0\<rparr>"

definition evt_getaddrinfo_default :: evt_getaddrinfo where
  "evt_getaddrinfo_default =
    \<lparr>ga_hdr = event_hdr_default, ga_latency_ns = 0, ga_ret = 0, ga_hostname_len = 0,
     ga_hostname_truncated = 0, ga_saw_wire_activity = 0,
     ga_hostname = replicate QNAME_MAX 0\<rparr>"

definition evt_tls_handshake_default :: evt_tls_handshake where
  "evt_tls_handshake_default =
    \<lparr>th_hdr = event_hdr_default, th_tls_version = 0, th_sni_len = 0, th_sni_truncated = 0,
     th_sni = replicate SNI_MAX 0\<rparr>"

definition evt_tls_data_default :: evt_tls_data where
  "evt_tls_data_default =
    \<lparr>td_hdr = event_hdr_default, td_fd = 0, td_plaintext_len = 0, td_captured_len = 0,
     td_captured_truncated = 0, td_pad = 0, td_data = replicate HDR_CAP 0\<rparr>"

definition evt_proc_exec_default :: evt_proc_exec where
  "evt_proc_exec_default =
    \<lparr>pe_hdr = event_hdr_default, pe_cgroup_id = 0, pe_comm = replicate COMM_LEN 0,
     pe_exe_len = 0, pe_exe_truncated = 0, pe_pad = 0, pe_exe = replicate EXE_MAX 0\<rparr>"

section \<open>Bounded accessors\<close>

definition captured :: "evt_tls_data \<Rightarrow> u8 list" where
  "captured e = take (min (unat (td_captured_len e)) (length (td_data e))) (td_data e)"

definition exe_path :: "evt_proc_exec \<Rightarrow> u8 list" where
  "exe_path e = take (min (unat (pe_exe_len e)) (length (pe_exe e))) (pe_exe e)"

definition comm_str :: "evt_proc_exec \<Rightarrow> u8 list" where
  "comm_str e = takeWhile (\<lambda>b. b \<noteq> 0) (pe_comm e)"

section \<open>Decoding\<close>

datatype event =
    DnsQuery evt_dns_query
  | DnsResponse evt_dns_response
  | Getaddrinfo evt_getaddrinfo
  | TlsHandshake evt_tls_handshake
  | TlsServer evt_tls_server
  | TlsWrite evt_tls_data
  | TlsRead evt_tls_data
  | TlsReadBody evt_tls_body
  | ConnId evt_conn_id
  | TcpConnect evt_tcp_connect
  | TcpClose evt_tcp_close
  | TcpSample evt_tcp_sample
  | ProcExec evt_proc_exec

definition peek_schema_version :: "u8 list \<Rightarrow> u16 option" where
  "peek_schema_version b = then_some (\<not> length b < 32) (le16 0 b)"

definition peek_type :: "u8 list \<Rightarrow> u16 option" where
  "peek_type b = then_some (\<not> length b < 32) (le16 2 b)"

definition parse_event :: "u8 list \<Rightarrow> event option" where
  "parse_event b =
     (case peek_schema_version b of None \<Rightarrow> None
      | Some v \<Rightarrow>
        if v \<noteq> SCHEMA_VERSION then None
        else case peek_type b of None \<Rightarrow> None
        | Some t \<Rightarrow>
          if t = EVT_DNS_QUERY then map_option DnsQuery (read_evt_dns_query b)
          else if t = EVT_DNS_RESPONSE then map_option DnsResponse (read_evt_dns_response b)
          else if t = EVT_GETADDRINFO then map_option Getaddrinfo (read_evt_getaddrinfo b)
          else if t = EVT_TLS_HANDSHAKE then map_option TlsHandshake (read_evt_tls_handshake b)
          else if t = EVT_TLS_SERVER then map_option TlsServer (read_evt_tls_server b)
          else if t = EVT_TLS_WRITE then map_option TlsWrite (read_evt_tls_data b)
          else if t = EVT_TLS_READ then map_option TlsRead (read_evt_tls_data b)
          else if t = EVT_TLS_READ_BODY then map_option TlsReadBody (read_evt_tls_body b)
          else if t = EVT_CONN_ID then map_option ConnId (read_evt_conn_id b)
          else if t = EVT_TCP_CONNECT then map_option TcpConnect (read_evt_tcp_connect b)
          else if t = EVT_TCP_CLOSE then map_option TcpClose (read_evt_tcp_close b)
          else if t = EVT_TCP_SAMPLE then map_option TcpSample (read_evt_tcp_sample b)
          else if t = EVT_PROC_EXEC then map_option ProcExec (read_evt_proc_exec b)
          else None)"

section \<open>Encoding, and the round trip\<close>

text \<open>The tag, the struct size and the header of an event.\<close>

fun event_tag :: "event \<Rightarrow> u16" where
  "event_tag (DnsQuery e) = EVT_DNS_QUERY"
| "event_tag (DnsResponse e) = EVT_DNS_RESPONSE"
| "event_tag (Getaddrinfo e) = EVT_GETADDRINFO"
| "event_tag (TlsHandshake e) = EVT_TLS_HANDSHAKE"
| "event_tag (TlsServer e) = EVT_TLS_SERVER"
| "event_tag (TlsWrite e) = EVT_TLS_WRITE"
| "event_tag (TlsRead e) = EVT_TLS_READ"
| "event_tag (TlsReadBody e) = EVT_TLS_READ_BODY"
| "event_tag (ConnId e) = EVT_CONN_ID"
| "event_tag (TcpConnect e) = EVT_TCP_CONNECT"
| "event_tag (TcpClose e) = EVT_TCP_CLOSE"
| "event_tag (TcpSample e) = EVT_TCP_SAMPLE"
| "event_tag (ProcExec e) = EVT_PROC_EXEC"

fun event_size :: "event \<Rightarrow> nat" where
  "event_size (DnsQuery e) = 296"
| "event_size (DnsResponse e) = 552"
| "event_size (Getaddrinfo e) = 304"
| "event_size (TlsHandshake e) = 296"
| "event_size (TlsServer e) = 40"
| "event_size (TlsWrite e) = 4144"
| "event_size (TlsRead e) = 4144"
| "event_size (TlsReadBody e) = 40"
| "event_size (ConnId e) = 40"
| "event_size (TcpConnect e) = 80"
| "event_size (TcpClose e) = 152"
| "event_size (TcpSample e) = 104"
| "event_size (ProcExec e) = 320"

fun event_header :: "event \<Rightarrow> event_hdr" where
  "event_header (DnsQuery e) = dq_hdr e"
| "event_header (DnsResponse e) = dr_hdr e"
| "event_header (Getaddrinfo e) = ga_hdr e"
| "event_header (TlsHandshake e) = th_hdr e"
| "event_header (TlsServer e) = tse_hdr e"
| "event_header (TlsWrite e) = td_hdr e"
| "event_header (TlsRead e) = td_hdr e"
| "event_header (TlsReadBody e) = tb_hdr e"
| "event_header (ConnId e) = ci_hdr e"
| "event_header (TcpConnect e) = tco_hdr e"
| "event_header (TcpClose e) = tcl_hdr e"
| "event_header (TcpSample e) = tsa_hdr e"
| "event_header (ProcExec e) = pe_hdr e"

fun enc_event :: "(nat \<Rightarrow> u8) \<Rightarrow> event \<Rightarrow> u8 list" where
  "enc_event p (DnsQuery e) = enc_evt_dns_query p e"
| "enc_event p (DnsResponse e) = enc_evt_dns_response p e"
| "enc_event p (Getaddrinfo e) = enc_evt_getaddrinfo p e"
| "enc_event p (TlsHandshake e) = enc_evt_tls_handshake p e"
| "enc_event p (TlsServer e) = enc_evt_tls_server p e"
| "enc_event p (TlsWrite e) = enc_evt_tls_data p e"
| "enc_event p (TlsRead e) = enc_evt_tls_data p e"
| "enc_event p (TlsReadBody e) = enc_evt_tls_body p e"
| "enc_event p (ConnId e) = enc_evt_conn_id p e"
| "enc_event p (TcpConnect e) = enc_evt_tcp_connect p e"
| "enc_event p (TcpClose e) = enc_evt_tcp_close p e"
| "enc_event p (TcpSample e) = enc_evt_tcp_sample p e"
| "enc_event p (ProcExec e) = enc_evt_proc_exec p e"

text \<open>The array fields have the sizes their C declarations give.\<close>

fun wf_arrays :: "event \<Rightarrow> bool" where
  "wf_arrays (DnsQuery e) = (length (dq_qname e) = QNAME_MAX)"
| "wf_arrays (DnsResponse e) = (length (dr_payload e) = DNS_PAYLOAD_MAX)"
| "wf_arrays (Getaddrinfo e) = (length (ga_hostname e) = QNAME_MAX)"
| "wf_arrays (TlsHandshake e) = (length (th_sni e) = SNI_MAX)"
| "wf_arrays (TlsServer e) = (True)"
| "wf_arrays (TlsWrite e) = (length (td_data e) = HDR_CAP)"
| "wf_arrays (TlsRead e) = (length (td_data e) = HDR_CAP)"
| "wf_arrays (TlsReadBody e) = (True)"
| "wf_arrays (ConnId e) = (True)"
| "wf_arrays (TcpConnect e) = (length (tco_saddr e) = 16 \<and> length (tco_daddr e) = 16)"
| "wf_arrays (TcpClose e) = (True)"
| "wf_arrays (TcpSample e) = (True)"
| "wf_arrays (ProcExec e) = (length (pe_comm e) = COMM_LEN \<and> length (pe_exe e) = EXE_MAX)"

definition wf_event :: "event \<Rightarrow> bool" where
  "wf_event ev \<longleftrightarrow> hdr_schema_version (event_header ev) = SCHEMA_VERSION
     \<and> hdr_type (event_header ev) = event_tag ev \<and> wf_arrays ev"

lemma length_enc_hdr [simp]: "length (enc_hdr h) = 32"
  by (simp add: enc_hdr_def)

lemma slice_append_right [simp]:
  "length a \<le> off \<Longrightarrow> field_at off n (a @ b) = field_at (off - length a) n b"
  by (simp add: field_at_def)

lemma slice_append_left [simp]:
  "off + n \<le> length a \<Longrightarrow> field_at off n (a @ b) = field_at off n a"
  by (simp add: field_at_def)

lemma slice_all [simp]: "length a = n \<Longrightarrow> field_at 0 n a = a"
  by (simp add: field_at_def)

lemma slice_Cons [simp]: "0 < off \<Longrightarrow> field_at off n (x # b) = field_at (off - 1) n b"
  by (cases off) (simp_all add: field_at_def)

lemma nth_append_numeral: "length a \<le> n \<Longrightarrow> (a @ b) ! n = b ! (n - length a)"
  by (simp add: nth_append)

lemma read_enc_hdr [simp]: "read_hdr (enc_hdr h @ r) = h"
  by (simp add: read_hdr_def enc_hdr_def le16_def le32_def le64_def)

lemma le16_enc_hdr [simp]:
  "le16 0 (enc_hdr h @ r) = hdr_schema_version h" "le16 2 (enc_hdr h @ r) = hdr_type h"
  by (simp_all add: enc_hdr_def le16_def)

lemmas le_defs = le16_def le32_def le64_def

lemma read_enc_evt_conn_id [simp]: "read_evt_conn_id (enc_evt_conn_id p e) = Some e"
  by (simp add: read_evt_conn_id_def enc_evt_conn_id_def le_defs nth_append_numeral)

lemma read_enc_evt_tcp_connect [simp]: "length (tco_saddr e) = 16 \<Longrightarrow> length (tco_daddr e) = 16 \<Longrightarrow> read_evt_tcp_connect (enc_evt_tcp_connect p e) = Some e"
  by (simp add: read_evt_tcp_connect_def enc_evt_tcp_connect_def le_defs nth_append_numeral)

lemma read_enc_evt_tcp_close [simp]: "read_evt_tcp_close (enc_evt_tcp_close p e) = Some e"
  by (simp add: read_evt_tcp_close_def enc_evt_tcp_close_def le_defs nth_append_numeral)

lemma read_enc_evt_tcp_sample [simp]: "read_evt_tcp_sample (enc_evt_tcp_sample p e) = Some e"
  by (simp add: read_evt_tcp_sample_def enc_evt_tcp_sample_def le_defs nth_append_numeral)

lemma read_enc_evt_dns_query [simp]: "length (dq_qname e) = 255 \<Longrightarrow> read_evt_dns_query (enc_evt_dns_query p e) = Some e"
  by (simp add: read_evt_dns_query_def enc_evt_dns_query_def le_defs nth_append_numeral)

lemma read_enc_evt_dns_response [simp]: "length (dr_payload e) = 512 \<Longrightarrow> read_evt_dns_response (enc_evt_dns_response p e) = Some e"
  by (simp add: read_evt_dns_response_def enc_evt_dns_response_def le_defs nth_append_numeral)

lemma read_enc_evt_getaddrinfo [simp]: "length (ga_hostname e) = 255 \<Longrightarrow> read_evt_getaddrinfo (enc_evt_getaddrinfo p e) = Some e"
  by (simp add: read_evt_getaddrinfo_def enc_evt_getaddrinfo_def le_defs nth_append_numeral)

lemma read_enc_evt_tls_handshake [simp]: "length (th_sni e) = 255 \<Longrightarrow> read_evt_tls_handshake (enc_evt_tls_handshake p e) = Some e"
  by (simp add: read_evt_tls_handshake_def enc_evt_tls_handshake_def le_defs nth_append_numeral)

lemma read_enc_evt_tls_server [simp]: "read_evt_tls_server (enc_evt_tls_server p e) = Some e"
  by (simp add: read_evt_tls_server_def enc_evt_tls_server_def le_defs nth_append_numeral)

lemma read_enc_evt_tls_data [simp]: "length (td_data e) = 4096 \<Longrightarrow> read_evt_tls_data (enc_evt_tls_data p e) = Some e"
  by (simp add: read_evt_tls_data_def enc_evt_tls_data_def le_defs nth_append_numeral)

lemma read_enc_evt_tls_body [simp]: "read_evt_tls_body (enc_evt_tls_body p e) = Some e"
  by (simp add: read_evt_tls_body_def enc_evt_tls_body_def le_defs nth_append_numeral)

lemma read_enc_evt_proc_exec [simp]: "length (pe_comm e) = 16 \<Longrightarrow> length (pe_exe e) = 256 \<Longrightarrow> read_evt_proc_exec (enc_evt_proc_exec p e) = Some e"
  by (simp add: read_evt_proc_exec_def enc_evt_proc_exec_def le_defs nth_append_numeral)

lemmas array_sizes = QNAME_MAX_def SNI_MAX_def DNS_PAYLOAD_MAX_def HDR_CAP_def COMM_LEN_def EXE_MAX_def

section \<open>What a decoded record says about its bytes\<close>

text \<open>Two records with the same bytes up to \<open>captured_len\<close> show the same capture.\<close>

lemma captured_prefix:
  assumes "length (td_data e) = HDR_CAP"
  shows "captured e = take (unat (td_captured_len e)) (td_data e)"
  by (simp add: captured_def min_def)

lemma length_captured_le: "length (captured e) \<le> unat (td_captured_len e)"
  by (simp add: captured_def)

lemma enc_le_nat_slice:
  "LENGTH('a) = 8 * n \<Longrightarrow> length b = n \<Longrightarrow> enc_le n (of_nat (le_nat b) :: 'a::len word) = b"
proof -
  assume n: "LENGTH('a) = 8 * n" and len: "length b = n"
  have bound: "le_nat b < 256 ^ length b"
  proof (induction b)
    case Nil
    then show ?case by simp
  next
    case (Cons x xs)
    have "unat x < 256" using unat_bound [of x] by simp
    with Cons show ?case by (simp add: algebra_simps)
  qed
  have "(256 :: nat) ^ n = 2 ^ LENGTH('a)" by (simp add: n power_mult)
  with bound len have "unat (of_nat (le_nat b) :: 'a word) = le_nat b"
    by (simp add: unat_of_nat)
  moreover have "le_bytes (length b) (le_nat b) = b"
  proof (induction b)
    case Nil
    then show ?case by simp
  next
    case (Cons x xs)
    have "unat x < 256" using unat_bound [of x] by simp
    then have "(unat x + 256 * le_nat xs) mod 256 = unat x"
      and "(unat x + 256 * le_nat xs) div 256 = le_nat xs" by auto
    with Cons show ?case by simp
  qed
  ultimately show ?thesis using len by (simp add: enc_le_def)
qed

lemma enc_le_read:
  "off + 2 \<le> length b \<Longrightarrow> enc_le 2 (le16 off b) = field_at off 2 b"
  "off + 4 \<le> length b \<Longrightarrow> enc_le 4 (le32 off b) = field_at off 4 b"
  "off + 8 \<le> length b \<Longrightarrow> enc_le 8 (le64 off b) = field_at off 8 b"
  by (simp_all add: le_defs enc_le_nat_slice)

lemma slice_1: "i < length b \<Longrightarrow> [b ! i] = field_at i 1 b"
  by (simp add: field_at_def Cons_nth_drop_Suc [symmetric] take_Suc)

lemma enc_pad_nth: "c \<le> length b \<Longrightarrow> enc_pad (nth b) a c = field_at a (c - a) b"
  by (rule nth_equalityI) (auto simp: enc_pad_def field_at_def)

lemma slice_join: "a' = a + n \<Longrightarrow> field_at a n b @ field_at a' m b = field_at a (n + m) b"
  unfolding field_at_def take_add drop_drop by (simp add: add.commute)

lemma slice_join_nth:
  "a' = i + 1 \<Longrightarrow> i < length b \<Longrightarrow> b ! i # field_at a' m b = field_at i (m + 1) b"
  by (simp add: field_at_def Cons_nth_drop_Suc [symmetric])

lemma slice_whole: "length b = n \<Longrightarrow> field_at 0 n b = b"
  by (simp add: field_at_def)

lemmas slice_assembly = enc_le_read slice_1 enc_pad_nth slice_join slice_join_nth slice_whole

lemma enc_read_hdr [simp]: "32 \<le> length b \<Longrightarrow> enc_hdr (read_hdr b) = field_at 0 32 b"
  by (simp add: enc_hdr_def read_hdr_def slice_assembly)

lemma read_evt_conn_id_SomeD:
  "read_evt_conn_id b = Some e \<Longrightarrow>
   length b = 40 \<and> enc_evt_conn_id (nth b) e = b \<and> ci_hdr e = read_hdr b"
  by (auto simp: read_evt_conn_id_def enc_evt_conn_id_def slice_assembly simp del: slice_Cons)

lemma read_evt_tcp_connect_SomeD:
  "read_evt_tcp_connect b = Some e \<Longrightarrow>
   length b = 80 \<and> enc_evt_tcp_connect (nth b) e = b \<and> tco_hdr e = read_hdr b \<and> length (tco_saddr e) = 16 \<and> length (tco_daddr e) = 16"
  by (auto simp: read_evt_tcp_connect_def enc_evt_tcp_connect_def slice_assembly simp del: slice_Cons)

lemma read_evt_tcp_close_SomeD:
  "read_evt_tcp_close b = Some e \<Longrightarrow>
   length b = 152 \<and> enc_evt_tcp_close (nth b) e = b \<and> tcl_hdr e = read_hdr b"
  by (auto simp: read_evt_tcp_close_def enc_evt_tcp_close_def slice_assembly simp del: slice_Cons)

lemma read_evt_tcp_sample_SomeD:
  "read_evt_tcp_sample b = Some e \<Longrightarrow>
   length b = 104 \<and> enc_evt_tcp_sample (nth b) e = b \<and> tsa_hdr e = read_hdr b"
  by (auto simp: read_evt_tcp_sample_def enc_evt_tcp_sample_def slice_assembly simp del: slice_Cons)

lemma read_evt_dns_query_SomeD:
  "read_evt_dns_query b = Some e \<Longrightarrow>
   length b = 296 \<and> enc_evt_dns_query (nth b) e = b \<and> dq_hdr e = read_hdr b \<and> length (dq_qname e) = 255"
  by (auto simp: read_evt_dns_query_def enc_evt_dns_query_def slice_assembly simp del: slice_Cons)

lemma read_evt_dns_response_SomeD:
  "read_evt_dns_response b = Some e \<Longrightarrow>
   length b = 552 \<and> enc_evt_dns_response (nth b) e = b \<and> dr_hdr e = read_hdr b \<and> length (dr_payload e) = 512"
  by (auto simp: read_evt_dns_response_def enc_evt_dns_response_def slice_assembly simp del: slice_Cons)

lemma read_evt_getaddrinfo_SomeD:
  "read_evt_getaddrinfo b = Some e \<Longrightarrow>
   length b = 304 \<and> enc_evt_getaddrinfo (nth b) e = b \<and> ga_hdr e = read_hdr b \<and> length (ga_hostname e) = 255"
  by (auto simp: read_evt_getaddrinfo_def enc_evt_getaddrinfo_def slice_assembly simp del: slice_Cons)

lemma read_evt_tls_handshake_SomeD:
  "read_evt_tls_handshake b = Some e \<Longrightarrow>
   length b = 296 \<and> enc_evt_tls_handshake (nth b) e = b \<and> th_hdr e = read_hdr b \<and> length (th_sni e) = 255"
  by (auto simp: read_evt_tls_handshake_def enc_evt_tls_handshake_def slice_assembly simp del: slice_Cons)

lemma read_evt_tls_server_SomeD:
  "read_evt_tls_server b = Some e \<Longrightarrow>
   length b = 40 \<and> enc_evt_tls_server (nth b) e = b \<and> tse_hdr e = read_hdr b"
  by (auto simp: read_evt_tls_server_def enc_evt_tls_server_def slice_assembly simp del: slice_Cons)

lemma read_evt_tls_data_SomeD:
  "read_evt_tls_data b = Some e \<Longrightarrow>
   length b = 4144 \<and> enc_evt_tls_data (nth b) e = b \<and> td_hdr e = read_hdr b \<and> length (td_data e) = 4096"
  by (auto simp: read_evt_tls_data_def enc_evt_tls_data_def slice_assembly simp del: slice_Cons)

lemma read_evt_tls_body_SomeD:
  "read_evt_tls_body b = Some e \<Longrightarrow>
   length b = 40 \<and> enc_evt_tls_body (nth b) e = b \<and> tb_hdr e = read_hdr b"
  by (auto simp: read_evt_tls_body_def enc_evt_tls_body_def slice_assembly simp del: slice_Cons)

lemma read_evt_proc_exec_SomeD:
  "read_evt_proc_exec b = Some e \<Longrightarrow>
   length b = 320 \<and> enc_evt_proc_exec (nth b) e = b \<and> pe_hdr e = read_hdr b \<and> length (pe_comm e) = 16 \<and> length (pe_exe e) = 256"
  by (auto simp: read_evt_proc_exec_def enc_evt_proc_exec_def slice_assembly simp del: slice_Cons)

lemmas read_evt_SomeD =
  read_evt_conn_id_SomeD
  read_evt_tcp_connect_SomeD
  read_evt_tcp_close_SomeD
  read_evt_tcp_sample_SomeD
  read_evt_dns_query_SomeD
  read_evt_dns_response_SomeD
  read_evt_getaddrinfo_SomeD
  read_evt_tls_handshake_SomeD
  read_evt_tls_server_SomeD
  read_evt_tls_data_SomeD
  read_evt_tls_body_SomeD
  read_evt_proc_exec_SomeD

lemma parse_event_enc:
  assumes "wf_event ev"
  shows "parse_event (enc_event p ev) = Some ev"
proof -
  obtain r where r: "enc_event p ev = enc_hdr (event_header ev) @ r"
    by (cases ev) (auto simp:
      enc_evt_conn_id_def
      enc_evt_tcp_connect_def
      enc_evt_tcp_close_def
      enc_evt_tcp_sample_def
      enc_evt_dns_query_def
      enc_evt_dns_response_def
      enc_evt_getaddrinfo_def
      enc_evt_tls_handshake_def
      enc_evt_tls_server_def
      enc_evt_tls_data_def
      enc_evt_tls_body_def
      enc_evt_proc_exec_def)
  have "\<not> length (enc_event p ev) < 32" by (simp add: r)
  then have v: "peek_schema_version (enc_event p ev) = Some SCHEMA_VERSION"
    and t: "peek_type (enc_event p ev) = Some (event_tag ev)"
    using assms by (simp_all add: peek_schema_version_def peek_type_def r wf_event_def then_some_def)
  show ?thesis unfolding parse_event_def v t
    using assms by (cases ev) (simp_all add: evt_tags wf_event_def array_sizes)
qed

lemma parse_event_SomeD:
  assumes "parse_event b = Some ev"
  shows "length b = event_size ev \<and> enc_event (nth b) ev = b \<and> wf_event ev"
proof -
  from assms have v: "le16 0 b = SCHEMA_VERSION" and len: "32 \<le> length b"
    by (auto simp: parse_event_def peek_schema_version_def then_some_def split: if_splits)
  then have h: "hdr_schema_version (read_hdr b) = SCHEMA_VERSION" "hdr_type (read_hdr b) = le16 2 b"
    by (simp_all add: read_hdr_def)
  show ?thesis
    using assms v len h
    by (auto simp: parse_event_def peek_schema_version_def peek_type_def then_some_def wf_event_def
        array_sizes dest!: read_evt_SomeD split: if_splits)
qed

section \<open>Properties\<close>

text \<open>C6: the decoder inverts the wire layout. A well-formed event laid out as the C structs lay it out,
  with any bytes in the padding, decodes to itself; and nothing else decodes: a buffer yields an event
  exactly when it is a layout of that event (right version, right tag, exact length).\<close>

theorem parse_event_correct:
  "parse_event b = Some ev \<longleftrightarrow> wf_event ev \<and> (\<exists>p. b = enc_event p ev)"
proof
  assume "parse_event b = Some ev"
  from parse_event_SomeD [OF this] show "wf_event ev \<and> (\<exists>p. b = enc_event p ev)" by metis
next
  assume "wf_event ev \<and> (\<exists>p. b = enc_event p ev)"
  then show "parse_event b = Some ev" using parse_event_enc by blast
qed

text \<open>Every event has one size on the wire, the one its struct has, so a buffer of another length is
  rejected whatever it holds.\<close>

theorem parse_event_exact_size:
  "parse_event b = Some ev \<Longrightarrow> length b = event_size ev \<and> event_size ev \<in> {40, 80, 104, 152, 296, 304, 320, 552, 4144}"
proof -
  assume p: "parse_event b = Some ev"
  have "event_size ev \<in> {40, 80, 104, 152, 296, 304, 320, 552, 4144}" by (cases ev) simp_all
  with parse_event_SomeD [OF p] show ?thesis by blast
qed

lemma parse_event_exact_size_witness:
  "length (enc_event (\<lambda>_. 7) (TlsReadBody \<lparr>tb_hdr = event_hdr_default\<lparr>hdr_schema_version := 2, hdr_type := 23\<rparr>,
      tb_fd = 3, tb_plaintext_len = 100\<rparr>)) = 40"
proof -
  let ?e = "TlsReadBody \<lparr>tb_hdr = event_hdr_default\<lparr>hdr_schema_version := 2, hdr_type := 23\<rparr>, tb_fd = 3, tb_plaintext_len = 100\<rparr>"
  have "wf_event ?e" by (simp add: wf_event_def SCHEMA_VERSION_def evt_tags event_hdr_default_def)
  from parse_event_exact_size [OF parse_event_enc [OF this, of "\<lambda>_. 7"]] show ?thesis by simp
qed

end
