(* ===== verification/Dns.thy ===== *)
theory Dns
  imports Events
begin

text \<open>
  The name and address helpers of \<open>crates/s3tap-core/src/correlate.rs\<close>: addresses and their text
  form, \<open>classify_endpoint\<close>, \<open>qname_str\<close>, the DNS response parser and the AWS region of a host.
  The parser reads attacker-supplied bytes with indexing that panics out of range, so it is
  modelled on outcomes: \<open>Panic\<close> is a value, and \<open>parse_dns_response_total\<close> shows it never occurs.
\<close>

section \<open>Addresses\<close>

text \<open>\<open>std::net::IpAddr\<close>, the octets in network order; IPv4 addresses come first in its order.\<close>

datatype ip_addr = V4 "u8 list" | V6 "u8 list"

instantiation ip_addr :: linorder
begin

fun less_eq_ip_addr :: "ip_addr \<Rightarrow> ip_addr \<Rightarrow> bool" where
  "less_eq_ip_addr (V4 a) (V4 b) = (a \<le> b)"
| "less_eq_ip_addr (V4 a) (V6 b) = True"
| "less_eq_ip_addr (V6 a) (V4 b) = False"
| "less_eq_ip_addr (V6 a) (V6 b) = (a \<le> b)"

definition less_ip_addr :: "ip_addr \<Rightarrow> ip_addr \<Rightarrow> bool" where
  "less_ip_addr a b \<longleftrightarrow> a \<le> b \<and> \<not> b \<le> a"

instance
proof
  fix x y z :: ip_addr
  show "(x < y) = (x \<le> y \<and> \<not> y \<le> x)" by (rule less_ip_addr_def)
  show "x \<le> x" by (cases x) auto
  show "x \<le> z" if "x \<le> y" "y \<le> z" using that by (cases x; cases y; cases z) auto
  show "x = y" if "x \<le> y" "y \<le> x" using that by (cases x; cases y) auto
  show "x \<le> y \<or> y \<le> x" by (cases x; cases y) auto
qed

end

definition be16 :: "u8 \<Rightarrow> u8 \<Rightarrow> u16" where
  "be16 a b = of_nat (256 * unat a + unat b)"

definition be32 :: "u8 \<Rightarrow> u8 \<Rightarrow> u8 \<Rightarrow> u8 \<Rightarrow> u32" where
  "be32 a b c d = of_nat (((unat a * 256 + unat b) * 256 + unat c) * 256 + unat d)"

definition ipv4_to_string :: "u8 list \<Rightarrow> string" where
  "ipv4_to_string a = join ''.'' (map (\<lambda>b. dec_string (unat b)) a)"

definition to_ipv4_mapped :: "u8 list \<Rightarrow> u8 list option" where
  "to_ipv4_mapped a = (if take 12 a = replicate 10 0 @ [0xFF, 0xFF] then Some (drop 12 a) else None)"

fun segments :: "u8 list \<Rightarrow> nat list" where
  "segments (a # b # r) = (256 * unat a + unat b) # segments r"
| "segments _ = []"

text \<open>The first longest run of zero segments, \<open>(start, length)\<close>.\<close>

fun zero_run :: "nat \<Rightarrow> nat \<times> nat \<Rightarrow> nat \<times> nat \<Rightarrow> nat list \<Rightarrow> nat \<times> nat" where
  "zero_run i longest cur [] = longest"
| "zero_run i longest cur (s # ss) =
    (if s = 0 then
       let cur' = (if snd cur = 0 then (i, 1) else (fst cur, snd cur + 1)) in
       zero_run (Suc i) (if snd longest < snd cur' then cur' else longest) cur' ss
     else zero_run (Suc i) longest (0, 0) ss)"

definition ipv6_to_string :: "u8 list \<Rightarrow> string" where
  "ipv6_to_string a =
    (case to_ipv4_mapped a of
       Some v4 \<Rightarrow> ''::ffff:'' @ ipv4_to_string v4
     | None \<Rightarrow>
         let ss = segments a; (start, n) = zero_run 0 (0, 0) (0, 0) ss; hex = map hex_string in
         if 1 < n then join '':'' (hex (take start ss)) @ ''::'' @ join '':'' (hex (drop (start + n) ss))
         else join '':'' (hex ss))"

fun ip_to_string :: "ip_addr \<Rightarrow> string" where
  "ip_to_string (V4 a) = ipv4_to_string a"
| "ip_to_string (V6 a) = ipv6_to_string a"

definition AF_INET :: u8 where "AF_INET = 2"

definition classify_endpoint :: "u8 \<Rightarrow> u8 list \<Rightarrow> ip_addr \<times> string" where
  "classify_endpoint family addr =
    (if family = AF_INET then (V4 (drop 12 addr), ''inet'')
     else case to_ipv4_mapped addr of
         Some v4 \<Rightarrow> (V4 v4, ''inet'')
       | None \<Rightarrow> (V6 addr, ''inet6''))"

section \<open>Names\<close>

definition host_legal :: "char \<Rightarrow> bool" where
  "host_legal c \<longleftrightarrow> is_alphanumeric c \<or> c = CHR ''-'' \<or> c = CHR ''.'' \<or> c = CHR ''_''"

definition qname_str :: "u8 list \<Rightarrow> u8 \<Rightarrow> string option" where
  "qname_str buf len0 =
    (let len = min (unat len0) (length buf) in
     if len = 0 then None
     else case from_utf8 (take len buf) of
         None \<Rightarrow> None
       | Some s0 \<Rightarrow>
           let s = to_ascii_lowercase (trim_end_matches CHR ''.'' s0) in
           if s = [] \<or> \<not> list_all host_legal s then None else Some s)"

text \<open>\<open>off.checked_add\<close> cannot overflow here: an offset stays below \<open>128 * 256\<close> past its start.\<close>

fun skip_name_loop :: "nat \<Rightarrow> u8 list \<Rightarrow> nat \<Rightarrow> nat option" where
  "skip_name_loop 0 buf off = None"
| "skip_name_loop (Suc n) buf off =
    (if off < length buf then
       let b = buf ! off in
       if b = 0 then Some (off + 1)
       else if and b 0xC0 = 0xC0 then Some (off + 2)
       else skip_name_loop n buf (off + (unat b + 1))
     else None)"

definition skip_name :: "u8 list \<Rightarrow> nat \<Rightarrow> nat option" where
  "skip_name buf off = skip_name_loop 128 buf off"

fun read_qname_loop :: "nat \<Rightarrow> u8 list \<Rightarrow> nat \<Rightarrow> string \<Rightarrow> string option" where
  "read_qname_loop 0 buf off out = Some out"
| "read_qname_loop (Suc n) buf off out =
    (if off < length buf then
       let b = buf ! off; len = unat b in
       if len = 0 \<or> and b 0xC0 = 0xC0 then Some out
       else if off + 1 + len \<le> length buf then
         read_qname_loop n buf (off + 1 + len)
           ((if out \<noteq> [] then out @ ''.'' else out) @ from_utf8_lossy (field_at (off + 1) len buf))
       else None
     else None)"

definition read_qname :: "u8 list \<Rightarrow> nat \<Rightarrow> string option" where
  "read_qname buf off =
    (case read_qname_loop 128 buf off [] of
       None \<Rightarrow> None
     | Some out \<Rightarrow> if out = [] then None else Some (to_ascii_lowercase out))"

section \<open>The response parser\<close>

datatype 'a outcome = Panic | Done 'a

fun obind :: "'a outcome \<Rightarrow> ('a \<Rightarrow> 'b outcome) \<Rightarrow> 'b outcome" where
  "obind Panic f = Panic"
| "obind (Done x) f = f x"

definition idx :: "'a list \<Rightarrow> nat \<Rightarrow> 'a outcome" where
  "idx xs i = (if i < length xs then Done (xs ! i) else Panic)"

definition idx_range :: "nat \<Rightarrow> nat \<Rightarrow> 'a list \<Rightarrow> 'a list outcome" where
  "idx_range off n xs = (if off + n \<le> length xs then Done (field_at off n xs) else Panic)"

definition be16_at :: "u8 list \<Rightarrow> nat \<Rightarrow> u16 outcome" where
  "be16_at p off = obind (idx p off) (\<lambda>a. obind (idx p (off + 1)) (\<lambda>b. Done (be16 a b)))"

definition be32_at :: "u8 list \<Rightarrow> nat \<Rightarrow> u32 outcome" where
  "be32_at p off = obind (idx p off) (\<lambda>a. obind (idx p (off + 1)) (\<lambda>b.
     obind (idx p (off + 2)) (\<lambda>c. obind (idx p (off + 3)) (\<lambda>d. Done (be32 a b c d)))))"

type_synonym answer = "ip_addr \<times> u32 option"

fun skip_questions :: "nat \<Rightarrow> u8 list \<Rightarrow> nat \<Rightarrow> nat option" where
  "skip_questions 0 p off = Some off"
| "skip_questions (Suc n) p off =
    (case skip_name p off of Some o' \<Rightarrow> skip_questions n p (o' + 4) | None \<Rightarrow> None)"

fun answers_loop :: "nat \<Rightarrow> u8 list \<Rightarrow> nat \<Rightarrow> answer list \<Rightarrow> answer list outcome" where
  "answers_loop 0 p off answers = Done answers"
| "answers_loop (Suc n) p off0 answers =
    (case skip_name p off0 of
       None \<Rightarrow> Done answers
     | Some off \<Rightarrow>
       if length p < off + 10 then Done answers
       else obind (be16_at p off) (\<lambda>rtype.
         obind (be32_at p (off + 4)) (\<lambda>ttl.
         obind (be16_at p (off + 8)) (\<lambda>rdlen16.
           let rdlen = unat rdlen16; off' = off + 10 in
           if length p < off' + rdlen then Done answers
           else obind
             (if rtype = 1 \<and> rdlen = 4 then
                obind (idx_range off' 4 p) (\<lambda>b. Done (answers @ [(V4 b, Some ttl)]))
              else if rtype = 28 \<and> rdlen = 16 then
                obind (idx_range off' 16 p) (\<lambda>b.
                  Done (answers @ [(case to_ipv4_mapped b of Some v4 \<Rightarrow> V4 v4 | None \<Rightarrow> V6 b, Some ttl)]))
              else Done answers)
             (answers_loop n p (off' + rdlen))))))"

definition parse_dns_response_checked ::
    "u8 list \<Rightarrow> (u16 \<times> string option \<times> answer list) option outcome" where
  "parse_dns_response_checked p =
    (if length p < 12 then Done None
     else obind (be16_at p 0) (\<lambda>txn_id. obind (be16_at p 4) (\<lambda>qdcount. obind (be16_at p 6) (\<lambda>ancount.
       let qname = (if 1 \<le> qdcount then read_qname p 12 else None) in
       case skip_questions (min (unat qdcount) 64) p 12 of
         None \<Rightarrow> Done (Some (txn_id, qname, []))
       | Some off \<Rightarrow> obind (answers_loop (min (unat ancount) 64) p off [])
           (\<lambda>answers. Done (Some (txn_id, qname, answers)))))))"

text \<open>Reading the outcome back, as the callers do: the last equation is never used.\<close>

definition parse_dns_response :: "u8 list \<Rightarrow> (u16 \<times> string option \<times> answer list) option" where
  "parse_dns_response p = (case parse_dns_response_checked p of Done r \<Rightarrow> r | Panic \<Rightarrow> None)"

section \<open>Regions\<close>

definition looks_like_region :: "string \<Rightarrow> bool" where
  "looks_like_region s =
    (let parts = split_char CHR ''-'' s; first = hd parts; last = List.last parts in
     3 \<le> length parts \<and> length parts \<le> 4
     \<and> length first = 2 \<and> list_all is_lower first
     \<and> last \<noteq> [] \<and> list_all is_digit last
     \<and> list_all (\<lambda>p. p \<noteq> [] \<and> list_all is_lower p) (butlast (tl parts)))"

fun nth_label :: "string list \<Rightarrow> nat \<Rightarrow> string option" where
  "nth_label [] i = None"
| "nth_label (x # xs) i = (case i of 0 \<Rightarrow> Some x | Suc j \<Rightarrow> nth_label xs j)"

text \<open>The loop over the labels: \<open>label # rest\<close> are \<open>labels[i..]\<close>, so \<open>rest\<close> holds \<open>labels[i + 1..]\<close>.\<close>

fun region_loop :: "bool \<Rightarrow> string list \<Rightarrow> string option" where
  "region_loop saw_s3 [] = then_some saw_s3 ''us-east-1''"
| "region_loop saw_s3 (label # rest) =
    (case (if nth_label rest 0 = Some ''amazonaws''
           then opt_filter looks_like_region (strip_prefix ''s3-'' label) else None) of
       Some r \<Rightarrow> Some r
     | None \<Rightarrow>
        if label = ''s3'' then
          (let j = (if nth_label rest 0 = Some ''dualstack'' then 1 else 0) in
           case opt_filter looks_like_region (nth_label rest j) of
             Some r \<Rightarrow> Some r
           | None \<Rightarrow> region_loop True rest)
        else region_loop saw_s3 rest)"

definition aws_region_from_host :: "string \<Rightarrow> string option" where
  "aws_region_from_host host0 =
    (let host = trim_end_matches CHR ''.'' host0 in
     if \<not> ends_with ''.amazonaws.com'' host \<and> host \<noteq> ''amazonaws.com'' then None
     else region_loop False (split_char CHR ''.'' host))"

section \<open>The parser does not panic\<close>

lemma be16_at_Done: "off + 1 < length p \<Longrightarrow> be16_at p off = Done (be16 (p ! off) (p ! (off + 1)))"
  by (simp add: be16_at_def idx_def)

lemma be32_at_Done: "off + 3 < length p \<Longrightarrow>
    be32_at p off = Done (be32 (p ! off) (p ! (off + 1)) (p ! (off + 2)) (p ! (off + 3)))"
  by (simp add: be32_at_def idx_def)

lemma idx_range_Done: "off + n \<le> length p \<Longrightarrow> idx_range off n p = Done (field_at off n p)"
  by (simp add: idx_range_def)

lemma answers_loop_Done: "\<exists>r. answers_loop n p off acc = Done r"
proof (induction n arbitrary: off acc)
  case 0
  then show ?case by simp
next
  case (Suc n)
  show ?case
  proof (cases "skip_name p off")
    case None
    then show ?thesis by simp
  next
    case (Some o1)
    show ?thesis
    proof (cases "length p < o1 + 10")
      case True
      with Some show ?thesis by simp
    next
      case False
      with Some Suc.IH show ?thesis
        by (simp add: be16_at_Done be32_at_Done idx_range_Done Let_def)
    qed
  qed
qed

fun wf_ip :: "ip_addr \<Rightarrow> bool" where
  "wf_ip (V4 a) = (length a = 4)"
| "wf_ip (V6 a) = (length a = 16 \<and> to_ipv4_mapped a = None)"

lemma wf_ip_mapped:
  "length b = 16 \<Longrightarrow> wf_ip (case to_ipv4_mapped b of Some v4 \<Rightarrow> V4 v4 | None \<Rightarrow> V6 b)"
  by (auto simp: to_ipv4_mapped_def)

lemma answers_loop_inv:
  assumes "answers_loop n p off acc = Done r" and "list_all (\<lambda>a. wf_ip (fst a)) acc"
  shows "list_all (\<lambda>a. wf_ip (fst a)) r \<and> length r \<le> length acc + n"
  using assms
proof (induction n arbitrary: off acc)
  case 0
  then show ?case by simp
next
  case (Suc n)
  show ?case
  proof (cases "skip_name p off")
    case None
    with Suc.prems show ?thesis by simp
  next
    case (Some o1)
    show ?thesis
    proof (cases "length p < o1 + 10")
      case True
      with Suc.prems Some show ?thesis by simp
    next
      case False
      let ?len = "unat (be16 (p ! (o1 + 8)) (p ! (9 + o1)))"
      show ?thesis
      proof (cases "length p < o1 + 10 + ?len")
        case True
        with Suc.prems Some False show ?thesis
          by (simp add: be16_at_Done be32_at_Done Let_def)
      next
        case inr: False
        have v6: "wf_ip (case to_ipv4_mapped (field_at (o1 + 10) 16 p) of Some v4 \<Rightarrow> V4 v4 | None \<Rightarrow> V6 (field_at (o1 + 10) 16 p))"
          if "\<not> length p < o1 + 10 + 16"
          using that by (intro wf_ip_mapped) simp
        from Suc.prems Some False inr v6 show ?thesis
          by (auto simp: be16_at_Done be32_at_Done idx_range_Done Let_def split: if_splits dest!: Suc.IH)
      qed
    qed
  qed
qed

section \<open>Rendered responses\<close>

definition be_bytes16 :: "u16 \<Rightarrow> u8 list" where
  "be_bytes16 w = [of_nat (unat w div 256), of_nat (unat w mod 256)]"

definition be_bytes32 :: "u32 \<Rightarrow> u8 list" where
  "be_bytes32 w = [of_nat (unat w div 256 div 256 div 256), of_nat (unat w div 256 div 256 mod 256),
     of_nat (unat w div 256 mod 256), of_nat (unat w mod 256)]"

lemma be16_bytes: "be16 (of_nat (unat w div 256)) (of_nat (unat w mod 256)) = w" for w :: u16
proof -
  have "unat w div 256 < 256" using unat_bound [of w] by (simp add: less_mult_imp_div_less)
  then have "256 * unat (of_nat (unat w div 256) :: u8) + unat (of_nat (unat w mod 256) :: u8) = unat w"
    by (simp add: unat_of_nat)
  then show ?thesis by (simp add: be16_def)
qed

lemma be16_0_1: "be16 0 1 = 1"
  by (simp add: be16_def)

lemma be32_bytes: "be32 (of_nat (unat w div 256 div 256 div 256)) (of_nat (unat w div 256 div 256 mod 256))
    (of_nat (unat w div 256 mod 256)) (of_nat (unat w mod 256)) = w" for w :: u32
proof -
  let ?n = "unat w"
  have b: "?n div 256 div 256 div 256 < 256"
    using unat_bound [of w] by (simp add: less_mult_imp_div_less div_mult2_eq [symmetric])
  have e: "x div 256 * 256 + x mod 256 = x" for x :: nat by simp
  have "((unat (of_nat (?n div 256 div 256 div 256) :: u8) * 256 + unat (of_nat (?n div 256 div 256 mod 256) :: u8)) * 256
      + unat (of_nat (?n div 256 mod 256) :: u8)) * 256 + unat (of_nat (?n mod 256) :: u8) = ?n"
    using b by (simp only: unat_of_nat) (simp add: e del: div_mult2_eq)
  then show ?thesis by (simp add: be32_def)
qed

definition enc_name :: "string list \<Rightarrow> u8 list" where
  "enc_name labels = concat (map (\<lambda>l. of_nat (length l) # as_bytes l) labels) @ [0]"

datatype rr = Addr ip_addr u32 | Other u16 u32 "u8 list"

definition enc_rr_fields :: "u16 \<Rightarrow> u32 \<Rightarrow> u8 list \<Rightarrow> u8 list" where
  "enc_rr_fields ty ttl d = [0xC0, 0x0C] @ be_bytes16 ty @ [0, 1] @ be_bytes32 ttl
     @ be_bytes16 (of_nat (length d)) @ d"

fun enc_rr :: "rr \<Rightarrow> u8 list" where
  "enc_rr (Addr (V4 a) ttl) = enc_rr_fields 1 ttl a"
| "enc_rr (Addr (V6 a) ttl) = enc_rr_fields 28 ttl a"
| "enc_rr (Other ty ttl d) = enc_rr_fields ty ttl d"

fun wf_rr :: "rr \<Rightarrow> bool" where
  "wf_rr (Addr ip ttl) = wf_ip ip"
| "wf_rr (Other ty ttl d) = (ty \<noteq> 1 \<and> ty \<noteq> 28 \<and> length d < 65536)"

fun rr_answers :: "rr \<Rightarrow> answer list" where
  "rr_answers (Addr ip ttl) = [(ip, Some ttl)]"
| "rr_answers (Other ty ttl d) = []"

definition enc_response :: "u16 \<Rightarrow> string list \<Rightarrow> rr list \<Rightarrow> u8 list" where
  "enc_response txn labels rrs = be_bytes16 txn @ [0x81, 0x80] @ [0, 1]
     @ be_bytes16 (of_nat (length rrs)) @ [0, 0, 0, 0] @ enc_name labels @ [0, 1, 0, 1]
     @ concat (map enc_rr rrs)"

definition plain_label :: "string \<Rightarrow> bool" where
  "plain_label l \<longleftrightarrow> l \<noteq> [] \<and> length l \<le> 63 \<and> list_all (\<lambda>c. (of_char c :: nat) < 128) l"

lemma label_byte:
  assumes "plain_label l"
  shows "unat (of_nat (length l) :: u8) = length l" "(of_nat (length l) :: u8) \<noteq> 0"
    "and (of_nat (length l) :: u8) 0xC0 \<noteq> 0xC0"
proof -
  have len: "0 < length l" "length l \<le> 63" using assms by (auto simp: plain_label_def)
  show u: "unat (of_nat (length l) :: u8) = length l" using len by (simp add: unat_of_nat)
  show "(of_nat (length l) :: u8) \<noteq> 0"
  proof
    assume "(of_nat (length l) :: u8) = 0"
    then have "unat (of_nat (length l) :: u8) = 0" by simp
    with u len show False by simp
  qed
  show "and (of_nat (length l) :: u8) 0xC0 \<noteq> 0xC0"
  proof
    assume "and (of_nat (length l) :: u8) 0xC0 = 0xC0"
    then have "(0xC0 :: u8) \<le> of_nat (length l)" by (metis word_and_le2)
    with u len show False by (simp add: word_le_nat_alt)
  qed
qed

lemma lossy_label: "plain_label l \<Longrightarrow> from_utf8_lossy (as_bytes l) = l"
proof -
  assume "plain_label l"
  then have "\<forall>b\<in>set (as_bytes l). b < 0x80"
    by (auto simp: plain_label_def as_bytes_def list_all_iff byte_of_def word_less_nat_alt unat_of_nat)
  then show ?thesis by (simp add: from_utf8_lossy_ascii) (simp add: as_bytes_def comp_def)
qed

lemma length_as_bytes [simp]: "length (as_bytes s) = length s"
  by (simp add: as_bytes_def)

lemma skip_name_labels:
  "list_all plain_label ls \<Longrightarrow> length ls < n \<Longrightarrow>
   skip_name_loop n (pre @ enc_name ls @ post) (length pre) = Some (length pre + length (enc_name ls))"
proof (induction ls arbitrary: n pre)
  case Nil
  then obtain m where "n = Suc m" by (cases n) auto
  then show ?case by (simp add: enc_name_def)
next
  case (Cons l ls)
  then obtain m where m: "n = Suc m" "length ls < m" by (cases n) auto
  have l: "plain_label l" using Cons.prems by simp
  have "skip_name_loop m ((pre @ of_nat (length l) # as_bytes l) @ enc_name ls @ post)
      (length (pre @ of_nat (length l) # as_bytes l :: u8 list)) =
      Some (length (pre @ of_nat (length l) # as_bytes l :: u8 list) + length (enc_name ls))"
    by (rule Cons.IH) (use Cons.prems m in auto)
  then show ?case
    using m label_byte [OF l] by (simp add: enc_name_def)
qed

lemma read_qname_labels:
  "list_all plain_label ls \<Longrightarrow> length ls < n \<Longrightarrow>
   read_qname_loop n (pre @ enc_name ls @ post) (length pre) out =
     Some (if out = [] then join ''.'' ls else if ls = [] then out else out @ ''.'' @ join ''.'' ls)"
proof (induction ls arbitrary: n pre out)
  case Nil
  then obtain m where "n = Suc m" by (cases n) auto
  then show ?case by (simp add: enc_name_def)
next
  case (Cons l ls)
  then obtain m where m: "n = Suc m" "length ls < m" by (cases n) auto
  have l: "plain_label l" using Cons.prems by simp
  then have ne: "l \<noteq> []" by (simp add: plain_label_def)
  let ?out = "(if out \<noteq> [] then out @ ''.'' else out) @ l"
  let ?pre = "pre @ of_nat (length l) # as_bytes l :: u8 list"
  have "read_qname_loop m (?pre @ enc_name ls @ post) (length ?pre) ?out =
      Some (if ?out = [] then join ''.'' ls else if ls = [] then ?out else ?out @ ''.'' @ join ''.'' ls)"
    by (rule Cons.IH) (use Cons.prems m in auto)
  moreover have "field_at (length pre + 1) (length l) (pre @ (of_nat (length l) # as_bytes l) @ r) = as_bytes l" for r
    by (simp add: field_at_def)
  ultimately show ?case
    using m label_byte [OF l] ne lossy_label [OF l]
    by (cases ls) (simp_all add: enc_name_def)
qed

lemma nth_pre: "(pre @ xs) ! (length pre + k) = xs ! k" "\<not> length (pre @ xs) < length pre + k \<longleftrightarrow> k \<le> length xs"
  by (simp_all add: nth_append not_less)

lemma skip_name_pointer: "skip_name (pre @ 0xC0 # 0x0C # r) (length pre) = Some (length pre + 2)"
proof -
  have "(128 :: nat) = Suc 127" by simp
  then show ?thesis unfolding skip_name_def by (simp only: skip_name_loop.simps) (simp add: nth_append)
qed

lemma answers_loop_fields:
  assumes "length d < 65536"
  shows "answers_loop (Suc n) (pre @ enc_rr_fields ty ttl d @ post) (length pre) acc =
    answers_loop n (pre @ enc_rr_fields ty ttl d @ post) (length (pre @ enc_rr_fields ty ttl d))
     (if ty = 1 \<and> length d = 4 then acc @ [(V4 d, Some ttl)]
      else if ty = 28 \<and> length d = 16
      then acc @ [(case to_ipv4_mapped d of Some v4 \<Rightarrow> V4 v4 | None \<Rightarrow> V6 d, Some ttl)]
      else acc)"
proof -
  let ?p = "pre @ enc_rr_fields ty ttl d @ post"
  let ?o = "length pre + 2"
  have s: "skip_name ?p (length pre) = Some ?o"
    using skip_name_pointer [of pre] by (simp add: enc_rr_fields_def)
  have len: "length (enc_rr_fields ty ttl d) = 12 + length d"
    by (simp add: enc_rr_fields_def be_bytes16_def be_bytes32_def)
  have r: "be16_at ?p ?o = Done ty"
    by (simp add: be16_at_def idx_def nth_append enc_rr_fields_def be_bytes16_def be16_bytes)
  have t: "be32_at ?p (?o + 4) = Done ttl"
    by (simp add: be32_at_def idx_def nth_append enc_rr_fields_def be_bytes16_def be_bytes32_def be32_bytes)
  have l: "be16_at ?p (?o + 8) = Done (of_nat (length d))"
    by (simp add: be16_at_def idx_def nth_append enc_rr_fields_def be_bytes16_def be_bytes32_def be16_bytes)
  have u: "unat (of_nat (length d) :: u16) = length d" using assms by (simp add: unat_of_nat)
  have f: "field_at (?o + 10) (length d) ?p = d"
    by (simp add: field_at_def enc_rr_fields_def be_bytes16_def be_bytes32_def)
  have f4: "length d = 4 \<Longrightarrow> idx_range (?o + 10) 4 ?p = Done d" and f16: "length d = 16 \<Longrightarrow> idx_range (?o + 10) 16 ?p = Done d"
    using f len by (auto simp: idx_range_def)
  show ?thesis
    using s len r t l u f4 f16 by (auto simp: Let_def add_ac)
qed


lemma wf_v6: "wf_ip (V6 a) \<Longrightarrow> to_ipv4_mapped a = None"
  by simp

lemma answers_loop_rrs:
  "list_all wf_rr rrs \<Longrightarrow>
   answers_loop (length rrs) (pre @ concat (map enc_rr rrs) @ post) (length pre) acc =
     Done (acc @ concat (map rr_answers rrs))"
proof (induction rrs arbitrary: pre acc)
  case Nil
  then show ?case by simp
next
  case (Cons r rrs)
  obtain ty ttl d where e: "enc_rr r = enc_rr_fields ty ttl d" and len: "length d < 65536"
    and acc: "(if ty = 1 \<and> length d = 4 then acc @ [(V4 d, Some ttl)]
      else if ty = 28 \<and> length d = 16
      then acc @ [(case to_ipv4_mapped d of Some v4 \<Rightarrow> V4 v4 | None \<Rightarrow> V6 d, Some ttl)]
      else acc) = acc @ rr_answers r"
  proof (cases r)
    case (Addr ip ttl)
    with Cons.prems that show ?thesis by (cases ip) auto
  next
    case (Other ty ttl d)
    with Cons.prems that show ?thesis by auto
  qed
  have "answers_loop (length (r # rrs)) (pre @ concat (map enc_rr (r # rrs)) @ post) (length pre) acc
      = answers_loop (length rrs) ((pre @ enc_rr r) @ concat (map enc_rr rrs) @ post)
          (length (pre @ enc_rr r)) (acc @ rr_answers r)"
    using answers_loop_fields [OF len, of "length rrs" pre ty ttl "concat (map enc_rr rrs) @ post" acc] acc
    by (simp add: e)
  also have "\<dots> = Done ((acc @ rr_answers r) @ concat (map rr_answers rrs))"
    by (rule Cons.IH) (use Cons.prems in simp)
  finally show ?case by simp
qed

lemma parse_dns_response_checked_Done:
  "\<exists>r. parse_dns_response_checked p = Done r
    \<and> (case r of None \<Rightarrow> length p < 12
       | Some (_, _, answers) \<Rightarrow> length answers \<le> 64 \<and> list_all (\<lambda>a. wf_ip (fst a)) answers)"
proof (cases "length p < 12")
  case True
  then show ?thesis by (simp add: parse_dns_response_checked_def)
next
  case False
  let ?n = "min (unat (be16 (p ! 6) (p ! 7))) 64"
  have h: "be16_at p 0 = Done (be16 (p ! 0) (p ! 1))" "be16_at p 4 = Done (be16 (p ! 4) (p ! 5))"
    "be16_at p 6 = Done (be16 (p ! 6) (p ! 7))"
    using False be16_at_Done [of 0 p] be16_at_Done [of 4 p] be16_at_Done [of 6 p] by simp_all
  show ?thesis
  proof (cases "skip_questions (min (unat (be16 (p ! 4) (p ! 5))) 64) p 12")
    case None
    with False h show ?thesis by (simp add: parse_dns_response_checked_def Let_def)
  next
    case (Some off)
    obtain r where r: "answers_loop ?n p off [] = Done r" using answers_loop_Done by blast
    with answers_loop_inv [OF r] have "list_all (\<lambda>a. wf_ip (fst a)) r" "length r \<le> 64" by auto
    with False h Some r show ?thesis by (simp add: parse_dns_response_checked_def Let_def)
  qed
qed

lemma parse_dns_response_SomeD:
  "parse_dns_response p = Some (t, q, answers) \<Longrightarrow> length answers \<le> 64 \<and> list_all (\<lambda>a. wf_ip (fst a)) answers"
  using parse_dns_response_checked_Done [of p] by (auto simp: parse_dns_response_def)

section \<open>Properties\<close>

text \<open>C32: the DNS parser never panics. Whatever bytes a response carries, every index and slice of
  \<open>parse_dns_response\<close> is in range; and what it returns is usable as a join key: at most 64 answers,
  each a 4-octet IPv4 address or a 16-octet IPv6 address that is not a mapped IPv4 one.\<close>

theorem parse_dns_response_total:
  "\<exists>r. parse_dns_response_checked p = Done r
    \<and> (case r of None \<Rightarrow> length p < 12
       | Some (_, _, answers) \<Rightarrow> length answers \<le> 64 \<and> list_all (\<lambda>a. wf_ip (fst a)) answers)"
  by (rule parse_dns_response_checked_Done)

text \<open>A DNS response written the usual way parses back. For a question name of at most 127 labels
  and at most 64 records (A, AAAA and any others, such as a CNAME chain, in any order), with
  compressed owner names, \<open>parse_dns_response\<close> returns the transaction id, the lowercased question name
  and exactly the addresses with their TTLs, in order.\<close>

theorem parse_dns_response_roundtrip:
  assumes "list_all plain_label labels" and "labels \<noteq> []" and "length labels \<le> 127"
    and "list_all wf_rr rrs" and "length rrs \<le> 64"
  shows "parse_dns_response (enc_response txn labels rrs @ extra) =
    Some (txn, Some (to_ascii_lowercase (join ''.'' labels)), concat (map rr_answers rrs))"
proof -
  let ?h = "be_bytes16 txn @ [0x81, 0x80] @ [0, 1] @ be_bytes16 (of_nat (length rrs)) @ [0, 0, 0, 0]"
  let ?tail = "[0, 1, 0, 1] @ concat (map enc_rr rrs) @ extra"
  let ?p = "?h @ enc_name labels @ ?tail"
  have p: "enc_response txn labels rrs @ extra = ?p" by (simp add: enc_response_def)
  have h: "length ?h = 12" by (simp add: be_bytes16_def)
  have txn: "be16_at ?p 0 = Done txn" and qd: "be16_at ?p 4 = Done 1"
    and an: "be16_at ?p 6 = Done (of_nat (length rrs))"
    by (simp_all add: be16_at_def idx_def be_bytes16_def be16_bytes be16_0_1)
  have n: "unat (of_nat (length rrs) :: u16) = length rrs" using assms(5) by (simp add: unat_of_nat)
  have "read_qname_loop 128 ?p 12 [] = Some (join ''.'' labels)"
    using read_qname_labels [OF assms(1), of 128 ?h ?tail "[]"] assms(3) unfolding h by simp
  moreover have "join ''.'' labels \<noteq> []"
    using assms(1,2) by (cases labels rule: list.exhaust; cases "tl labels") (auto simp: plain_label_def)
  ultimately have q: "read_qname ?p 12 = Some (to_ascii_lowercase (join ''.'' labels))"
    by (simp only: read_qname_def) simp
  have "skip_name ?p 12 = Some (12 + length (enc_name labels))"
    using skip_name_labels [OF assms(1), of 128 ?h ?tail] assms(3) unfolding h skip_name_def by simp
  then have s: "skip_questions 1 ?p 12 = Some (12 + length (enc_name labels) + 4)"
    by (simp only: One_nat_def skip_questions.simps) simp
  have off: "12 + length (enc_name labels) + 4 = length (?h @ enc_name labels @ [0, 1, 0, 1 :: u8])"
    using h by simp
  have a: "answers_loop (length rrs) ?p (12 + length (enc_name labels) + 4) [] = Done (concat (map rr_answers rrs))"
    using answers_loop_rrs [OF assms(4), of "?h @ enc_name labels @ [0, 1, 0, 1]" extra "[]"] unfolding off by simp
  have l: "\<not> length ?p < 12" using h by simp
  show ?thesis
    unfolding p parse_dns_response_def parse_dns_response_checked_def
    using l txn qd an n q s a assms(5) by (simp add: Let_def min_def)
qed

lemma parse_dns_response_roundtrip_witness:
  "parse_dns_response (enc_response 7 [''S3'', ''Amazonaws'', ''com'']
      [Other 5 60 [1, 97, 0], Addr (V4 [52, 1, 2, 3]) 5] @ []) =
    Some (7, Some ''s3.amazonaws.com'', [(V4 [52, 1, 2, 3], Some 5)])"
proof -
  have pre: "list_all plain_label [''S3'', ''Amazonaws'', ''com'']"
    "to_ascii_lowercase (join ''.'' [''S3'', ''Amazonaws'', ''com'']) = ''s3.amazonaws.com''"
    by code_simp+
  have rrs: "list_all wf_rr [Other 5 60 [1, 97, 0], Addr (V4 [52, 1, 2, 3]) 5]" by simp
  show ?thesis using parse_dns_response_roundtrip [OF pre(1) _ _ rrs, of 7 "[]"] pre(2) by simp
qed

section \<open>The region of an endpoint host\<close>

lemma split_char_join:
  "xs \<noteq> [] \<Longrightarrow> list_all (\<lambda>x. c \<notin> set x) xs \<Longrightarrow> split_char c (join [c] xs) = xs"
  by (induction "[c]" xs rule: join.induct) (auto simp: concat_split_char split_char_no_sep)

lemma split_char_covers: "x \<in> set s \<Longrightarrow> x \<noteq> c \<Longrightarrow> \<exists>p\<in>set (split_char c s). x \<in> set p"
proof (induction s)
  case Nil
  then show ?case by simp
next
  case (Cons y s)
  obtain p ps where "split_char c s = p # ps" by (cases "split_char c s") auto
  with Cons show ?case by (cases "x = y") auto
qed

lemma join_append: "xs \<noteq> [] \<Longrightarrow> ys \<noteq> [] \<Longrightarrow> join sep (xs @ ys) = join sep xs @ sep @ join sep ys"
  by (induction sep xs rule: join.induct) (auto simp: neq_Nil_conv)

lemma looks_like_region_no_dot: "looks_like_region r \<Longrightarrow> CHR ''.'' \<notin> set r"
proof
  assume r: "looks_like_region r" and dot: "CHR ''.'' \<in> set r"
  let ?ps = "split_char CHR ''-'' r"
  obtain p where p: "p \<in> set ?ps" "CHR ''.'' \<in> set p" using split_char_covers [OF dot] by auto
  obtain a b m where ps: "?ps = a # m @ [b]"
    using r by (cases ?ps; cases "tl ?ps" rule: rev_cases) (auto simp: looks_like_region_def Let_def)
  have d: "\<not> is_lower CHR ''.''" "\<not> is_digit CHR ''.''" by (simp_all add: is_lower_def is_digit_def)
  from r p d show False
    by (auto simp: looks_like_region_def Let_def ps list_all_iff)
qed

lemma region_not_word: "looks_like_region r \<Longrightarrow> r \<noteq> ''amazonaws'' \<and> r \<noteq> ''dualstack''"
proof -
  have "\<not> looks_like_region ''amazonaws''" "\<not> looks_like_region ''dualstack''" by code_simp+
  then show "looks_like_region r \<Longrightarrow> r \<noteq> ''amazonaws'' \<and> r \<noteq> ''dualstack''" by auto
qed

definition bucket_labels :: "string list \<Rightarrow> bool" where
  "bucket_labels ls \<longleftrightarrow> list_all (\<lambda>l. CHR ''.'' \<notin> set l \<and> l \<noteq> ''s3'' \<and> l \<noteq> ''amazonaws'') ls"

lemma nth_label_0: "nth_label xs 0 = (case xs of [] \<Rightarrow> None | x # _ \<Rightarrow> Some x)"
  by (cases xs) auto

lemma region_loop_bucket:
  "bucket_labels ls \<Longrightarrow> t \<noteq> [] \<Longrightarrow> hd t \<noteq> ''amazonaws'' \<Longrightarrow> region_loop saw (ls @ t) = region_loop saw t"
proof (induction ls)
  case Nil
  then show ?case by simp
next
  case (Cons l ls)
  have "nth_label (ls @ t) 0 \<noteq> Some ''amazonaws''"
    using Cons.prems by (cases ls; cases t) (auto simp: bucket_labels_def)
  with Cons show ?case by (simp add: bucket_labels_def)
qed

datatype endpoint_form = Dotted | Dualstack | Dashed

fun endpoint_labels :: "endpoint_form \<Rightarrow> string \<Rightarrow> string list" where
  "endpoint_labels Dotted r = [''s3'', r]"
| "endpoint_labels Dualstack r = [''s3'', ''dualstack'', r]"
| "endpoint_labels Dashed r = [''s3-'' @ r]"

lemma region_loop_endpoint:
  assumes "looks_like_region r"
  shows "region_loop False (endpoint_labels f r @ [''amazonaws'', ''com'']) = Some r"
  using assms region_not_word [OF assms] by (cases f) (auto simp: strip_prefix_def)

lemma endpoint_labels_props:
  assumes "looks_like_region r"
  shows "endpoint_labels f r \<noteq> []" "hd (endpoint_labels f r) \<noteq> ''amazonaws''"
    "list_all (\<lambda>l. CHR ''.'' \<notin> set l) (endpoint_labels f r)"
  using looks_like_region_no_dot [OF assms] by (cases f; simp)+

lemma aws_region_join:
  assumes "ls \<noteq> []" and "list_all (\<lambda>l. CHR ''.'' \<notin> set l) ls"
  shows "aws_region_from_host (join ''.'' (ls @ [''amazonaws'', ''com'']) @ replicate k CHR ''.'')
    = region_loop False (ls @ [''amazonaws'', ''com''])"
proof -
  let ?h = "join ''.'' (ls @ [''amazonaws'', ''com''])"
  have h: "?h = join ''.'' ls @ ''.amazonaws.com''" using assms(1) by (simp add: join_append)
  have "trim_end_matches CHR ''.'' (?h @ replicate k CHR ''.'') = ?h"
    unfolding h by (rule trim_end_matches_replicate) simp_all
  moreover have "ends_with ''.amazonaws.com'' ?h" unfolding h ends_with_def by (rule suffixI) simp
  moreover have "split_char CHR ''.'' ?h = ls @ [''amazonaws'', ''com'']"
    by (rule split_char_join) (use assms in auto)
  ultimately show ?thesis by (simp add: aws_region_from_host_def Let_def)
qed

text \<open>The region of an S3 host. For any bucket whose labels are neither \<open>s3\<close> nor \<open>amazonaws\<close> (a
  bucket named like a region included), \<open>aws_region_from_host\<close> returns exactly the region of the
  endpoint in each of its forms, \<open>s3.R\<close>, \<open>s3.dualstack.R\<close> and \<open>s3-R\<close>, with or without root dots, and
  \<open>us-east-1\<close> for the regionless endpoint.\<close>

theorem region_of_s3_host:
  assumes "bucket_labels bs" and "looks_like_region r"
  shows "aws_region_from_host
      (join ''.'' (bs @ endpoint_labels f r @ [''amazonaws'', ''com'']) @ replicate k CHR ''.'') = Some r
    \<and> aws_region_from_host (join ''.'' (bs @ [''s3'', ''amazonaws'', ''com'']) @ replicate k CHR ''.'') = Some ''us-east-1''"
proof -
  have b: "list_all (\<lambda>l. CHR ''.'' \<notin> set l) bs" using assms(1) by (auto simp: bucket_labels_def list_all_iff)
  note e = endpoint_labels_props [OF assms(2), of f]
  have 1: "aws_region_from_host (join ''.'' ((bs @ endpoint_labels f r) @ [''amazonaws'', ''com'']) @ replicate k CHR ''.'') = Some r"
    using b e region_loop_endpoint [OF assms(2), of f]
    by (subst aws_region_join) (auto simp: region_loop_bucket [OF assms(1)])
  have 2: "aws_region_from_host (join ''.'' ((bs @ [''s3'']) @ [''amazonaws'', ''com'']) @ replicate k CHR ''.'') = Some ''us-east-1''"
  proof -
    have "region_loop False [''s3'', ''amazonaws'', ''com''] = Some ''us-east-1''" by code_simp
    with b show ?thesis by (subst aws_region_join) (auto simp: region_loop_bucket [OF assms(1)])
  qed
  from 1 2 show ?thesis by simp
qed

lemma region_of_s3_host_witness:
  "aws_region_from_host ''eu-west-1.logs.s3.dualstack.ap-southeast-2.amazonaws.com.'' = Some ''ap-southeast-2''"
proof -
  have pre: "bucket_labels [''eu-west-1'', ''logs'']" "looks_like_region ''ap-southeast-2''" by code_simp+
  show ?thesis using region_of_s3_host [OF pre, of Dualstack 1] by simp
qed

text \<open>The premise on the bucket's labels is needed: a bucket called \<open>s3.eu-west-1\<close> is taken for an
  endpoint, although its host names the region \<open>us-east-2\<close>.\<close>

lemma region_of_shadowing_bucket:
  "aws_region_from_host ''s3.eu-west-1.s3.us-east-2.amazonaws.com'' = Some ''eu-west-1''"
  by code_simp

end
