(* ===== verification/Http.thy ===== *)
theory Http
  imports RustStr
begin

text \<open>
  \<open>crates/s3tap-core/src/http.rs\<close>: parsing the captured head of an HTTP message and resolving
  the S3 operation, bucket and key. A borrowed slice of the input is the string it denotes; where
  the code slices by an offset, the lemmas show the offset is in range.
\<close>

section \<open>The taxonomy\<close>

datatype s3op = GetObject | PutObject | HeadObject | DeleteObject | DeleteObjects
  | ListObjectsV2 | ListObjects | CreateMultipartUpload | UploadPart | CompleteMultipartUpload
  | AbortMultipartUpload | CreateSession | Unknown

fun as_str :: "s3op \<Rightarrow> string" where
  "as_str GetObject = ''GetObject''"
| "as_str PutObject = ''PutObject''"
| "as_str HeadObject = ''HeadObject''"
| "as_str DeleteObject = ''DeleteObject''"
| "as_str DeleteObjects = ''DeleteObjects''"
| "as_str ListObjectsV2 = ''ListObjectsV2''"
| "as_str ListObjects = ''ListObjects''"
| "as_str CreateMultipartUpload = ''CreateMultipartUpload''"
| "as_str UploadPart = ''UploadPart''"
| "as_str CompleteMultipartUpload = ''CompleteMultipartUpload''"
| "as_str AbortMultipartUpload = ''AbortMultipartUpload''"
| "as_str CreateSession = ''CreateSession''"
| "as_str Unknown = ''UNKNOWN''"

definition query_pairs :: "string \<Rightarrow> (string \<times> string) list" where
  "query_pairs q = map (\<lambda>p. case split_once CHR ''='' p of Some kv \<Rightarrow> kv | None \<Rightarrow> (p, []))
     (filter (\<lambda>s. s \<noteq> []) (split_char CHR ''&'' q))"

definition query_has :: "string \<Rightarrow> string \<Rightarrow> bool" where
  "query_has q name = list_ex (\<lambda>(k, v). k = name) (query_pairs q)"

definition query_value :: "string \<Rightarrow> string \<Rightarrow> string option" where
  "query_value q name = map_option snd (find (\<lambda>(k, v). k = name) (query_pairs q))"

definition classify :: "string \<Rightarrow> string \<Rightarrow> string \<Rightarrow> s3op" where
  "classify meth path q =
    (let has_key = 1 < length path in
     if meth = ''GET'' \<and> query_has q ''session'' then CreateSession
     else if meth = ''GET'' \<and> query_value q ''list-type'' = Some ''2'' then ListObjectsV2
     else if meth = ''GET'' \<and> \<not> has_key then ListObjects
     else if meth = ''GET'' then GetObject
     else if meth = ''HEAD'' \<and> \<not> has_key then Unknown
     else if meth = ''HEAD'' then HeadObject
     else if meth = ''PUT'' \<and> query_has q ''partNumber'' \<and> query_has q ''uploadId'' then UploadPart
     else if meth = ''PUT'' \<and> \<not> has_key then Unknown
     else if meth = ''PUT'' then PutObject
     else if meth = ''POST'' \<and> query_has q ''delete'' then DeleteObjects
     else if meth = ''POST'' \<and> query_has q ''uploads'' then CreateMultipartUpload
     else if meth = ''POST'' \<and> query_has q ''uploadId'' then CompleteMultipartUpload
     else if meth = ''DELETE'' \<and> query_has q ''uploadId'' then AbortMultipartUpload
     else if meth = ''DELETE'' \<and> \<not> has_key then Unknown
     else if meth = ''DELETE'' then DeleteObject
     else Unknown)"

section \<open>The message head\<close>

definition head_str :: "u8 list \<Rightarrow> string" where
  "head_str b = (let bytes = takeWhile (\<lambda>x. x \<noteq> 0) b in
     map chr_of (take (utf8_valid_up_to bytes) bytes))"

definition is_token :: "string \<Rightarrow> bool" where
  "is_token s \<longleftrightarrow> s \<noteq> [] \<and> length s \<le> 16 \<and> list_all is_upper s"

record request_head =
  rq_method :: string
  rq_path :: string
  rq_query :: string
  rq_host :: "string option"

text \<open>The first header called \<open>name\<close> before the blank line (shared by two loops of the code).\<close>

fun scan_header :: "string \<Rightarrow> string list \<Rightarrow> string option" where
  "scan_header name [] = None"
| "scan_header name (line # ls) =
     (if line = [] then None
      else case split_once CHR '':'' line of
          Some (n, v) \<Rightarrow> if eq_ignore_ascii_case n name then Some (trim v) else scan_header name ls
        | None \<Rightarrow> scan_header name ls)"

definition parse_request :: "u8 list \<Rightarrow> request_head option" where
  "parse_request b =
    (case split_crlf (head_str b) of [] \<Rightarrow> None
     | request_line # ls \<Rightarrow>
       (case split_char CHR '' '' request_line of
          [meth, target, version] \<Rightarrow>
            if \<not> is_token meth then None
            else if \<not> starts_with ''HTTP/1.'' version then None
            else (let (path, query) = (case split_once CHR ''?'' target of
                                         Some (p, q) \<Rightarrow> (p, q) | None \<Rightarrow> (target, [])) in
                  Some \<lparr>rq_method = meth, rq_path = path, rq_query = query,
                        rq_host = scan_header ''host'' ls\<rparr>)
        | _ \<Rightarrow> None))"

definition parse_status :: "u8 list \<Rightarrow> u16 option" where
  "parse_status b =
    (case split_crlf (head_str b) of [] \<Rightarrow> None
     | status_line # _ \<Rightarrow>
       (case split_char CHR '' '' status_line of
          version # code # _ \<Rightarrow>
            if \<not> starts_with ''HTTP/1.'' version then None
            else if length code \<noteq> 3 then None
            else opt_filter (\<lambda>c. 100 \<le> c \<and> c \<le> 599) (parse_u16 code)
        | _ \<Rightarrow> None))"

definition header_value :: "u8 list \<Rightarrow> string \<Rightarrow> string option" where
  "header_value b name = scan_header name (drop 1 (split_crlf (head_str b)))"

definition MAX_CONTENT_LENGTH :: u64 where "MAX_CONTENT_LENGTH = push_bit 40 5"

fun content_length_loop :: "u64 option \<Rightarrow> string list \<Rightarrow> u64 option" where
  "content_length_loop len [] = len"
| "content_length_loop len (line # ls) =
     (if line = [] then len
      else case split_once CHR '':'' line of
          None \<Rightarrow> content_length_loop len ls
        | Some (name, value) \<Rightarrow>
            if eq_ignore_ascii_case name ''transfer-encoding'' then None
            else if eq_ignore_ascii_case name ''content-length'' then
              (case opt_filter (\<lambda>n. n \<le> MAX_CONTENT_LENGTH) (parse_u64 (trim value)) of
                 None \<Rightarrow> None
               | Some n \<Rightarrow>
                   if (case len of Some prev \<Rightarrow> prev \<noteq> n | None \<Rightarrow> False) then None
                   else content_length_loop (Some n) ls)
            else content_length_loop len ls)"

definition content_length :: "u8 list \<Rightarrow> u64 option" where
  "content_length b = content_length_loop None (drop 1 (split_crlf (head_str b)))"

fun find_crlf2 :: "nat \<Rightarrow> u8 list \<Rightarrow> nat option" where
  "find_crlf2 i (a # b # c # d # r) =
     (if [a, b, c, d] = [13, 10, 13, 10] then Some i else find_crlf2 (Suc i) (b # c # d # r))"
| "find_crlf2 i _ = None"

definition header_end :: "u8 list \<Rightarrow> nat option" where
  "header_end b = map_option (\<lambda>i. i + 4) (find_crlf2 0 b)"

section \<open>Hosts, buckets and keys\<close>

fun opt_max :: "nat option \<Rightarrow> nat option \<Rightarrow> nat option" where
  "opt_max None y = y"
| "opt_max (Some x) None = Some x"
| "opt_max (Some x) (Some y) = Some (max x y)"

definition canonical_host :: "string \<Rightarrow> string" where
  "canonical_host h = trim_end_matches CHR ''.'' (to_ascii_lowercase h)"

text \<open>The literal suffix of both host checks, named so that proofs can keep it folded.\<close>

definition aws_suffix :: string where "aws_suffix = ''.amazonaws.com''"

definition bucket_from_host :: "string \<Rightarrow> string option" where
  "bucket_from_host host =
    (let lower = canonical_host host in
     if \<not> ends_with aws_suffix lower then None
     else case opt_max (rfind ''.s3.'' lower) (rfind ''.s3-'' lower) of
         None \<Rightarrow> None
       | Some idx \<Rightarrow> (let b = take idx host in if b = [] then None else Some b))"

definition host_without_port :: "string \<Rightarrow> string" where
  "host_without_port host =
    (case rsplit_once CHR '':'' host of
       Some (h, port) \<Rightarrow>
         if h \<noteq> [] \<and> CHR '':'' \<notin> set h \<and> \<not> starts_with ''['' h \<and> port \<noteq> [] \<and> list_all is_digit port
         then h else host
     | None \<Rightarrow> host)"

definition is_s3_endpoint :: "string \<Rightarrow> bool" where
  "is_s3_endpoint host =
    (let lower = canonical_host host in
     (starts_with ''s3.'' lower \<or> starts_with ''s3-'' lower) \<and> ends_with aws_suffix lower)"

record resolved =
  rs_op :: s3op
  rs_bucket :: "string option"
  rs_key :: "string option"
  rs_is_s3 :: bool

definition finish :: "string \<Rightarrow> string \<Rightarrow> string \<Rightarrow> string option \<Rightarrow> bool \<Rightarrow> resolved" where
  "finish meth key_path query bucket is_s3 =
    (let key = (case strip_prefix ''/'' key_path of Some k \<Rightarrow> k | None \<Rightarrow> key_path) in
     \<lparr>rs_op = classify meth key_path query, rs_bucket = bucket,
      rs_key = then_some (key \<noteq> []) key, rs_is_s3 = is_s3\<rparr>)"

definition path_style :: "string \<Rightarrow> string \<Rightarrow> string \<Rightarrow> resolved" where
  "path_style meth path query =
    (let tail = (case strip_prefix ''/'' path of Some t \<Rightarrow> t | None \<Rightarrow> path);
         bucket_level = finish meth ''/'' query
           (then_some (tail \<noteq> [] \<and> CHR ''/'' \<notin> set tail) tail) True in
     case split_once CHR ''/'' tail of
       Some (b, _) \<Rightarrow> if b \<noteq> [] then finish meth (drop (1 + length b) path) query (Some b) True
                      else bucket_level
     | None \<Rightarrow> bucket_level)"

definition matches_endpoint :: "string \<Rightarrow> string list \<Rightarrow> bool" where
  "matches_endpoint h eps = list_ex (\<lambda>ep. eq_ignore_ascii_case h ep) eps"

text \<open>\<open>str::get(..n)\<close>: \<open>None\<close> past the end or inside a code point.\<close>

definition str_get_to :: "nat \<Rightarrow> string \<Rightarrow> string option" where
  "str_get_to n s = then_some
     (n = length s \<or> n < length s \<and> \<not> utf8_cont (byte_of (s ! n))) (take n s)"

fun bucket_from_endpoint_subdomain :: "string \<Rightarrow> string list \<Rightarrow> string option" where
  "bucket_from_endpoint_subdomain h [] = None"
| "bucket_from_endpoint_subdomain h (ep # eps) =
    (if length h < length ep then bucket_from_endpoint_subdomain h eps
     else let cut = length h - length ep in
       if \<not> 1 < cut then bucket_from_endpoint_subdomain h eps
       else if \<not> eq_ignore_ascii_case (drop cut h) ep then bucket_from_endpoint_subdomain h eps
       else case strip_suffix ''.'' (take cut h) of
           Some b \<Rightarrow> if b \<noteq> [] then str_get_to (length b) h
                     else bucket_from_endpoint_subdomain h eps
         | None \<Rightarrow> bucket_from_endpoint_subdomain h eps)"

definition resolve_with ::
    "string \<Rightarrow> string \<Rightarrow> string \<Rightarrow> string option \<Rightarrow> string list \<Rightarrow> resolved" where
  "resolve_with meth path query host0 eps =
    (let host = map_option host_without_port host0 in
     case Option.bind host bucket_from_host of
       Some b \<Rightarrow> finish meth path query (Some b) True
     | None \<Rightarrow>
        if (case host of Some h \<Rightarrow> is_s3_endpoint h \<or> matches_endpoint h eps | None \<Rightarrow> False)
        then path_style meth path query
        else case Option.bind host (\<lambda>h. bucket_from_endpoint_subdomain h eps) of
            Some b \<Rightarrow> finish meth path query (Some b) True
          | None \<Rightarrow> finish meth path query None False)"

definition resolve :: "string \<Rightarrow> string \<Rightarrow> string \<Rightarrow> string option \<Rightarrow> resolved" where
  "resolve meth path query host = resolve_with meth path query host []"

section \<open>Headers\<close>

text \<open>What the header loops compute, stated on the list of all header fields of a head.\<close>

definition header_fields :: "string list \<Rightarrow> (string \<times> string) list" where
  "header_fields ls = List.map_filter (split_once CHR '':'') (takeWhile (\<lambda>l. l \<noteq> []) ls)"

definition values_of :: "string \<Rightarrow> (string \<times> string) list \<Rightarrow> string list" where
  "values_of name fs = map snd (filter (\<lambda>f. eq_ignore_ascii_case (fst f) name) fs)"

lemma header_fields_simps [simp]:
  "header_fields [] = []"
  "header_fields (l # ls) = (if l = [] then [] else
     (case split_once CHR '':'' l of None \<Rightarrow> header_fields ls | Some f \<Rightarrow> f # header_fields ls))"
  by (auto simp: header_fields_def map_filter_simps split: option.splits)

lemma values_of_simps [simp]:
  "values_of name [] = []"
  "values_of name (f # fs) = (if eq_ignore_ascii_case (fst f) name then snd f # values_of name fs
     else values_of name fs)"
  by (simp_all add: values_of_def)

lemma scan_header_values:
  "scan_header name ls = (case values_of name (header_fields ls) of [] \<Rightarrow> None | v # _ \<Rightarrow> Some (trim v))"
  by (induction name ls rule: scan_header.induct) (auto split: option.splits)

lemma te_not_cl: "eq_ignore_ascii_case n ''transfer-encoding'' \<Longrightarrow> \<not> eq_ignore_ascii_case n ''content-length''"
  by (auto simp: eq_ignore_ascii_case_def dest!: arg_cong [where f = length])

lemma content_length_loop_spec:
  "content_length_loop len ls = Some n \<longleftrightarrow>
     values_of ''transfer-encoding'' (header_fields ls) = []
     \<and> Some ` set_option len \<union> (\<lambda>v. parse_u64 (trim v)) ` set (values_of ''content-length'' (header_fields ls)) = {Some n}
     \<and> (len = None \<or> values_of ''content-length'' (header_fields ls) \<noteq> [] \<longrightarrow> n \<le> MAX_CONTENT_LENGTH)"
proof (induction len ls rule: content_length_loop.induct)
  case (1 len)
  then show ?case by (cases len) auto
next
  case (2 len line ls)
  show ?case
  proof (cases "line = []")
    case True
    then show ?thesis by (cases len) auto
  next
    case False
    show ?thesis
    proof (cases "split_once CHR '':'' line")
      case None
      with False 2(1) show ?thesis by simp
    next
      case (Some f)
      obtain name v where f: "f = (name, v)" by force
      consider (te) "eq_ignore_ascii_case name ''transfer-encoding''"
        | (cl) "\<not> eq_ignore_ascii_case name ''transfer-encoding''" "eq_ignore_ascii_case name ''content-length''"
        | (other) "\<not> eq_ignore_ascii_case name ''transfer-encoding''" "\<not> eq_ignore_ascii_case name ''content-length''"
        by blast
      then show ?thesis
      proof cases
        case te
        with False Some f show ?thesis by simp
      next
        case other
        with False Some f 2(2) [OF False Some [unfolded f]] 2(3) show ?thesis by simp
      next
        case cl
        note eqs = False Some f cl
        show ?thesis
        proof (cases "opt_filter (\<lambda>n. n \<le> MAX_CONTENT_LENGTH) (parse_u64 (trim v))")
          case None
          with eqs show ?thesis
            by (auto simp: opt_filter_def split: option.splits if_splits)
        next
          case (Some m)
          then have m: "parse_u64 (trim v) = Some m" "m \<le> MAX_CONTENT_LENGTH"
            by (simp_all add: opt_filter_eq_Some)
          show ?thesis
          proof (cases "case len of Some prev \<Rightarrow> prev \<noteq> m | None \<Rightarrow> False")
            case True
            with eqs Some m show ?thesis by (cases len) auto
          next
            case nc: False
            with eqs Some have "content_length_loop len (line # ls) = content_length_loop (Some m) ls"
              by simp
            moreover note 2(2) [OF False \<open>split_once CHR '':'' line = Some f\<close> [unfolded f] refl cl Some nc]
            ultimately show ?thesis
              using eqs m nc by (cases len) auto
          qed
        qed
      qed
    qed
  qed
qed

section \<open>Host names\<close>

lemma rfind_eq_SomeI:
  assumes "i \<le> length s" and "prefix p (drop i s)" and "\<And>j. i < j \<Longrightarrow> j \<le> length s \<Longrightarrow> \<not> prefix p (drop j s)"
  shows "rfind p s = Some i"
proof (cases "rfind p s")
  case None
  from rfind_NoneD [OF None assms(1)] assms(2) show ?thesis by simp
next
  case (Some k)
  with rfind_last [OF Some assms(2,1)] rfind_SomeD [OF Some] assms(3) [of k] show ?thesis
    by (cases "i = k") auto
qed

lemma opt_max_eq_SomeI:
  assumes "x = Some i \<or> y = Some i" and "\<And>j. x = Some j \<Longrightarrow> j \<le> i" and "\<And>j. y = Some j \<Longrightarrow> j \<le> i"
  shows "opt_max x y = Some i"
  using assms by (cases x; cases y) (auto simp: max_def)

lemma rfind_before_tail:
  assumes "rfind p (a @ c # t) = Some j" and "\<not> sublist p t"
  shows "j \<le> length a"
proof (rule ccontr)
  assume "\<not> j \<le> length a"
  moreover from rfind_SomeD [OF assms(1)] have "prefix p (drop j (a @ c # t))" by simp
  ultimately have "prefix p (drop (j - Suc (length a)) t)" by (simp add: drop_Cons')
  moreover have "suffix (drop (j - Suc (length a)) t) t" by (rule suffix_drop)
  ultimately have "sublist p t"
    by (meson prefix_imp_sublist suffix_imp_sublist sublist_order.order_trans)
  with assms(2) show False by simp
qed

lemma rfind_at_tail:
  assumes "prefix p (c # t)" and "\<not> sublist p t"
  shows "rfind p (a @ c # t) = Some (length a)"
proof -
  have *: "prefix p (drop (length a) (a @ c # t))" using assms(1) by simp
  show ?thesis
  proof (cases "rfind p (a @ c # t)")
    case None
    from rfind_NoneD [OF None, of "length a"] * show ?thesis by simp
  next
    case (Some j)
    from rfind_last [OF Some *] rfind_before_tail [OF Some assms(2)] show ?thesis
      using Some by simp
  qed
qed

lemma lower_append: "to_ascii_lowercase (a @ b) = to_ascii_lowercase a @ to_ascii_lowercase b"
  by (simp add: to_ascii_lowercase_def)

lemma lower_dot_Cons: "to_ascii_lowercase (CHR ''.'' # s) = CHR ''.'' # to_ascii_lowercase s"
  by (simp add: to_ascii_lowercase_def lower_char_def is_upper_def)

lemma lower_dots: "to_ascii_lowercase (replicate k CHR ''.'') = replicate k CHR ''.''"
  by (simp add: to_ascii_lowercase_def lower_char_def is_upper_def)

lemma lower_aws: "to_ascii_lowercase aws_suffix = aws_suffix"
  by (simp add: aws_suffix_def to_ascii_lowercase_def lower_char_def is_upper_def)

lemma canonical_aws:
  "canonical_host (h @ aws_suffix @ replicate k CHR ''.'') = to_ascii_lowercase h @ aws_suffix"
proof -
  have "last (to_ascii_lowercase h @ aws_suffix) \<noteq> CHR ''.''" "to_ascii_lowercase h @ aws_suffix \<noteq> []"
    by (simp_all add: aws_suffix_def)
  from trim_end_matches_replicate [OF this(2,1), of k] show ?thesis
    by (simp add: canonical_host_def lower_append lower_dots lower_aws)
qed

definition service_tail :: "char \<Rightarrow> string \<Rightarrow> string" where
  "service_tail sep region = ''s3'' @ sep # region"

definition plain_tail :: "char \<Rightarrow> string \<Rightarrow> bool" where
  "plain_tail sep region \<longleftrightarrow> (sep = CHR ''.'' \<or> sep = CHR ''-'')
     \<and> \<not> sublist ''.s3.'' (to_ascii_lowercase (service_tail sep region) @ aws_suffix)
     \<and> \<not> sublist ''.s3-'' (to_ascii_lowercase (service_tail sep region) @ aws_suffix)"

lemma lower_service_tail:
  "sep = CHR ''.'' \<or> sep = CHR ''-'' \<Longrightarrow>
   to_ascii_lowercase (service_tail sep region) = ''s3'' @ sep # to_ascii_lowercase region"
  by (auto simp: service_tail_def to_ascii_lowercase_def lower_char_def is_upper_def)

lemma bucket_from_host_virtual:
  assumes "plain_tail sep region" and "b \<noteq> []"
  shows "bucket_from_host (b @ CHR ''.'' # service_tail sep region @ aws_suffix @ replicate k CHR ''.'') = Some b"
proof -
  let ?t = "to_ascii_lowercase (service_tail sep region) @ aws_suffix"
  let ?l = "to_ascii_lowercase b @ CHR ''.'' # ?t"
  have l: "canonical_host (b @ CHR ''.'' # service_tail sep region @ aws_suffix @ replicate k CHR ''.'') = ?l"
    using canonical_aws [of "b @ CHR ''.'' # service_tail sep region" k]
    by (simp add: lower_append lower_dot_Cons)
  have sep: "sep = CHR ''.'' \<or> sep = CHR ''-''"
    and no: "\<not> sublist ''.s3.'' ?t" "\<not> sublist ''.s3-'' ?t"
    using assms(1) by (auto simp: plain_tail_def)
  have "prefix ''.s3.'' (CHR ''.'' # ?t) \<or> prefix ''.s3-'' (CHR ''.'' # ?t)"
    using sep lower_service_tail [OF sep, of region] by auto
  then have "rfind ''.s3.'' ?l = Some (length b) \<or> rfind ''.s3-'' ?l = Some (length b)"
    using rfind_at_tail [OF _ no(1)] rfind_at_tail [OF _ no(2)] by fastforce
  then have "opt_max (rfind ''.s3.'' ?l) (rfind ''.s3-'' ?l) = Some (length b)"
    by (rule opt_max_eq_SomeI)
      (use rfind_before_tail [OF _ no(1)] rfind_before_tail [OF _ no(2)] in fastforce)+
  moreover have "ends_with aws_suffix ?l"
    by (auto simp: ends_with_def suffix_def intro!: exI [of _ "to_ascii_lowercase b @ CHR ''.'' # to_ascii_lowercase (service_tail sep region)"])
  ultimately show ?thesis using assms(2) by (simp add: bucket_from_host_def l)
qed

lemma rfind_None_of_not_sublist: "\<not> sublist p s \<Longrightarrow> rfind p s = None"
proof (cases "rfind p s")
  case (Some i)
  from rfind_SomeD [OF this] have "prefix p (drop i s)" by simp
  moreover assume "\<not> sublist p s"
  ultimately show ?thesis
    by (meson prefix_imp_sublist suffix_imp_sublist sublist_order.order_trans suffix_drop)
qed

lemma bucket_from_host_bare:
  fixes sep region k
  defines "h \<equiv> service_tail sep region @ aws_suffix @ replicate k CHR ''.''"
  assumes "plain_tail sep region"
  shows "bucket_from_host h = None" and "is_s3_endpoint h"
proof -
  have l: "canonical_host h = to_ascii_lowercase (service_tail sep region) @ aws_suffix"
    unfolding h_def by (rule canonical_aws)
  have sep: "sep = CHR ''.'' \<or> sep = CHR ''-''" and
    r: "rfind ''.s3.'' (canonical_host h) = None" "rfind ''.s3-'' (canonical_host h) = None"
    using assms(2) unfolding plain_tail_def l by (auto intro: rfind_None_of_not_sublist)
  show "bucket_from_host h = None" by (simp add: bucket_from_host_def r Let_def)
  have "starts_with ''s3.'' (canonical_host h) \<or> starts_with ''s3-'' (canonical_host h)"
    using sep by (auto simp: l lower_service_tail [OF sep] starts_with_def)
  moreover have "ends_with aws_suffix (canonical_host h)" by (simp add: l ends_with_def suffix_def)
  ultimately show "is_s3_endpoint h" by (simp add: is_s3_endpoint_def)
qed

lemma bucket_from_host_SomeD:
  assumes "bucket_from_host h = Some b"
  shows "b \<noteq> [] \<and> prefix b h \<and> ends_with aws_suffix (canonical_host h)"
  using assms by (auto simp: bucket_from_host_def Let_def take_is_prefix split: if_splits option.splits)

lemma bucket_from_endpoint_subdomain_SomeD:
  assumes "bucket_from_endpoint_subdomain h eps = Some b"
  shows "\<exists>ep\<in>set eps. b \<noteq> [] \<and> prefix b h \<and> eq_ignore_ascii_case (drop (length b + 1) h) ep"
  using assms
proof (induction eps)
  case Nil
  then show ?case by simp
next
  case (Cons ep eps)
  let ?cut = "length h - length ep"
  have rest: "bucket_from_endpoint_subdomain h eps = Some b \<Longrightarrow> ?case"
    using Cons.IH by auto
  show ?case
  proof (cases "bucket_from_endpoint_subdomain h eps = Some b")
    case True then show ?thesis by (rule rest)
  next
    case False
    with Cons.prems obtain c where c: "eq_ignore_ascii_case (drop ?cut h) ep"
      "strip_suffix ''.'' (take ?cut h) = Some c" "c \<noteq> []" "str_get_to (length c) h = Some b"
      by (auto simp: Let_def split: if_splits option.splits)
    from c(4) have b: "b = take (length c) h" by (simp add: str_get_to_def)
    from c(2) have s: "take ?cut h = c @ ''.''"
      by (auto simp: strip_suffix_def suffix_def split: if_splits)
    then have "length c + 1 = ?cut" by (metis length_append_singleton length_take min.absorb2 diff_le_self Suc_eq_plus1)
    moreover from this have "length b = length c" by (simp add: b)
    ultimately show ?thesis using c(1,3) b by (auto simp: take_is_prefix)
  qed
qed


section \<open>Rendered heads\<close>

text \<open>Heads as clients and servers write them, for the round trips below.\<close>


definition visible :: "string \<Rightarrow> bool" where
  "visible s \<longleftrightarrow> list_all (\<lambda>c. 33 \<le> (of_char c :: nat) \<and> (of_char c :: nat) \<le> 126) s"

definition printable :: "string \<Rightarrow> bool" where
  "printable s \<longleftrightarrow> list_all (\<lambda>c. 32 \<le> (of_char c :: nat) \<and> (of_char c :: nat) \<le> 126) s"

definition crlf :: string where "crlf = [CHR 0x0D, CHR 0x0A]"

lemma visible_simps [simp]: "visible []" "visible (c # s) = (33 \<le> (of_char c :: nat) \<and> (of_char c :: nat) \<le> 126 \<and> visible s)"
  "visible (a @ b) = (visible a \<and> visible b)"
  by (auto simp: visible_def)

lemma printable_simps [simp]: "printable []" "printable (c # s) = (32 \<le> (of_char c :: nat) \<and> (of_char c :: nat) \<le> 126 \<and> printable s)"
  "printable (a @ b) = (printable a \<and> printable b)"
  by (auto simp: printable_def)

lemma visible_printable: "visible s \<Longrightarrow> printable s"
  by (induction s) auto

lemma visible_no: "visible s \<Longrightarrow> (of_char c :: nat) < 33 \<Longrightarrow> c \<notin> set s"
  by (induction s) auto

lemma printable_no: "printable s \<Longrightarrow> (of_char c :: nat) < 32 \<Longrightarrow> c \<notin> set s"
  by (induction s) auto

lemma split_crlf_append: "CHR 0x0D \<notin> set l \<Longrightarrow> split_crlf (l @ crlf @ r) = l # split_crlf r"
proof (induction l)
  case Nil
  then show ?case by (simp add: crlf_def)
next
  case (Cons x l)
  then have IH: "split_crlf (l @ crlf @ r) = l # split_crlf r" and x: "x \<noteq> CHR 0x0D" by auto
  obtain y ys where y: "l @ crlf @ r = y # ys" by (cases "l @ crlf @ r") (auto simp: crlf_def)
  with IH x show ?case by simp
qed

definition ascii :: "string \<Rightarrow> bool" where
  "ascii s \<longleftrightarrow> list_all (\<lambda>c. 0 < (of_char c :: nat) \<and> (of_char c :: nat) < 128) s"

lemma ascii_simps [simp]: "ascii []" "ascii (c # s) = (0 < (of_char c :: nat) \<and> (of_char c :: nat) < 128 \<and> ascii s)"
  "ascii (a @ b) = (ascii a \<and> ascii b)" "ascii crlf"
  by (auto simp: ascii_def crlf_def)

lemma printable_ascii: "printable s \<Longrightarrow> ascii s"
  by (induction s) auto

lemma byte_of_ascii: "(of_char c :: nat) < 128 \<Longrightarrow> byte_of c < 0x80"
  by (simp add: byte_of_def word_less_nat_alt unat_of_nat)

lemma utf8_valid_up_to_ascii:
  "ascii s \<Longrightarrow> utf8_valid_up_to (as_bytes s @ r) = length s + utf8_valid_up_to r"
proof (induction s)
  case Nil
  then show ?case by (simp add: as_bytes_def)
next
  case (Cons c s)
  then have "utf8_chunk (byte_of c # as_bytes s @ r) = (1, True)"
    by (intro utf8_chunk_ascii byte_of_ascii) simp
  with Cons show ?case
    by (subst utf8_valid_up_to.simps) (simp add: as_bytes_def)
qed

lemma byte_of_0: "byte_of c = 0 \<Longrightarrow> (of_char c :: nat) = 0"
proof -
  assume "byte_of c = 0"
  then have "chr_of (byte_of c) = chr_of 0" by simp
  then have "c = chr_of 0" by simp
  then show ?thesis by (simp add: chr_of_def)
qed

lemma head_str_ascii:
  assumes "ascii s"
  shows "\<exists>t. head_str (as_bytes s @ r) = s @ t"
proof -
  have nz: "x \<noteq> 0" if "x \<in> set (as_bytes s)" for x
  proof
    assume "x = 0"
    with that obtain c where "c \<in> set s" "byte_of c = 0" by (auto simp: as_bytes_def)
    with assms byte_of_0 [of c] show False by (auto simp: ascii_def list_all_iff)
  qed
  then have "takeWhile (\<lambda>x. x \<noteq> 0) (as_bytes s @ r) = as_bytes s @ takeWhile (\<lambda>x. x \<noteq> 0) r"
    by (simp add: takeWhile_append2)
  then show ?thesis
    by (simp add: head_str_def utf8_valid_up_to_ascii [OF assms])
      (simp add: as_bytes_def comp_def)
qed

lemma ws_first: "w \<in> set ws_seqs \<Longrightarrow> (of_char (hd w) :: nat) < 33 \<or> 128 \<le> (of_char (hd w) :: nat)"
  by (auto simp: ws_seqs_def)

lemma ws_last: "w \<in> set ws_seqs \<Longrightarrow> (of_char (last w) :: nat) < 33 \<or> 128 \<le> (of_char (last w) :: nat)"
  by (auto simp: ws_seqs_def)

lemma ws_nonempty: "w \<in> set ws_seqs \<Longrightarrow> w \<noteq> []"
  by (auto simp: ws_seqs_def)

lemma strip_seqs_none: "find (\<lambda>p. prefix p s) ps = None \<Longrightarrow> strip_seqs n ps s = s"
  by (cases n) auto

lemma no_ws_prefix: 
  assumes "visible h"
  shows "find (\<lambda>p. prefix p h) ws_seqs = None"
  unfolding find_None_iff
proof (intro notI, elim bexE exE conjE)
  fix w assume w: "w \<in> set ws_seqs" "prefix w h"
  obtain a v where a: "w = a # v" using ws_nonempty [OF w(1)] by (cases w) auto
  with w(2) obtain r where "h = a # r" by (auto simp: prefix_def)
  with assms ws_first [OF w(1)] a show False by auto
qed

lemma no_ws_suffix:
  assumes "visible h"
  shows "find (\<lambda>p. prefix p (rev h)) (map rev ws_seqs) = None"
  unfolding find_None_iff
proof (intro notI, elim bexE exE conjE)
  fix w assume "w \<in> set (map rev ws_seqs)" "prefix w (rev h)"
  then obtain v where w: "v \<in> set ws_seqs" "prefix (rev v) (rev h)" by auto
  then have "suffix v h" by (simp add: suffix_to_prefix)
  then obtain a where "h = a @ v" by (auto simp: suffix_def)
  moreover have "last v \<in> set v" using ws_nonempty [OF w(1)] by simp
  ultimately have "last v \<in> set h" by simp
  with assms have "33 \<le> (of_char (last v) :: nat)" "(of_char (last v) :: nat) \<le> 126"
    by (auto simp: visible_def list_all_iff)
  with ws_last [OF w(1)] show False by simp
qed

lemma trim_visible: "visible h \<Longrightarrow> trim (CHR '' '' # h) = h"
proof -
  assume h: "visible h"
  have f: "find (\<lambda>p. prefix p (CHR '' '' # h)) ws_seqs = Some [CHR 0x20]"
    by (simp add: ws_seqs_def)
  have "trim_start (CHR '' '' # h) = h"
    using no_ws_prefix [OF h] f by (simp add: trim_start_def strip_seqs_none)
  then show ?thesis
    using no_ws_suffix [OF h] by (simp add: trim_def trim_end_def strip_seqs_none)
qed


lemma split_three: "CHR '' '' \<notin> set a \<Longrightarrow> CHR '' '' \<notin> set b \<Longrightarrow> CHR '' '' \<notin> set c \<Longrightarrow>
  split_char CHR '' '' (a @ CHR '' '' # b @ CHR '' '' # c) = [a, b, c]"
  by (simp add: concat_split_char split_char_no_sep)

definition header_line :: "string \<times> string \<Rightarrow> string" where
  "header_line f = fst f @ '': '' @ snd f"

definition plain_header :: "string \<times> string \<Rightarrow> bool" where
  "plain_header f \<longleftrightarrow> visible (fst f) \<and> CHR '':'' \<notin> set (fst f) \<and> printable (snd f)"

lemma header_line_props:
  assumes "plain_header f"
  shows "CHR 0x0D \<notin> set (header_line f)" "ascii (header_line f)" "header_line f \<noteq> []"
    "split_once CHR '':'' (header_line f) = Some (fst f, CHR '' '' # snd f)"
  using assms visible_no [of "fst f" "CHR 0x0D"] printable_no [of "snd f" "CHR 0x0D"]
  by (auto simp: header_line_def plain_header_def split_once_append
      intro: printable_ascii visible_printable)

definition headers_text :: "(string \<times> string) list \<Rightarrow> string" where
  "headers_text fs = concat (map (\<lambda>f. header_line f @ crlf) fs)"

lemma split_headers_text:
  "list_all plain_header fs \<Longrightarrow> split_crlf (headers_text fs @ r) = map header_line fs @ split_crlf r"
  by (induction fs) (simp_all add: headers_text_def split_crlf_append header_line_props)

lemma ascii_headers_text: "list_all plain_header fs \<Longrightarrow> ascii (headers_text fs)"
  by (induction fs) (simp_all add: headers_text_def header_line_props)

lemma header_fields_text:
  "list_all plain_header fs \<Longrightarrow>
   header_fields (map header_line fs @ ls) = map (\<lambda>f. (fst f, CHR '' '' # snd f)) fs @ header_fields ls"
  by (induction fs) (simp_all add: header_line_props)

lemma values_of_text:
  "values_of name (map (\<lambda>f. (fst f, CHR '' '' # snd f)) fs) = map (Cons CHR '' '') (values_of name fs)"
  by (induction fs) auto

lemma split_once_target:
  "CHR ''?'' \<notin> set p \<Longrightarrow> split_once CHR ''?'' (p @ CHR ''?'' # q) = Some (p, q)"
  by (simp add: split_once_append)

lemma is_token_visible: "is_token m \<Longrightarrow> visible m"
  by (auto simp: is_token_def visible_def list_all_iff is_upper_def)

definition request_bytes :: "string \<Rightarrow> string \<Rightarrow> (string \<times> string) list \<Rightarrow> u8 list" where
  "request_bytes meth target fs =
     as_bytes ((meth @ CHR '' '' # target @ CHR '' '' # ''HTTP/1.1'') @ crlf @ headers_text fs @ crlf)"

lemma find_crlf2_skip: "x \<noteq> 13 \<Longrightarrow> find_crlf2 i (x # r) = find_crlf2 (Suc i) r"
proof -
  assume x: "x \<noteq> 13"
  consider b c d r' where "r = b # c # d # r'" | "length r < 3"
    by (metis One_nat_def Suc_1 length_Cons less_Suc_eq list.exhaust list.size(3) numeral_3_eq_3 zero_less_Suc)
  then show ?thesis
  proof cases
    case 1 with x show ?thesis by simp
  next
    case 2
    then show ?thesis by (cases r; cases "tl r"; cases "tl (tl r)") auto
  qed
qed

lemma find_crlf2_line: "13 \<notin> set l \<Longrightarrow> find_crlf2 i (l @ r) = find_crlf2 (i + length l) r"
  by (induction l arbitrary: i) (simp_all add: find_crlf2_skip)

lemma find_crlf2_crlf: "x \<noteq> 13 \<Longrightarrow> find_crlf2 i (13 # 10 # x # r) = find_crlf2 (i + 2) (x # r)"
  by (cases r) (simp_all add: find_crlf2_skip)

lemma as_bytes_append [simp]: "as_bytes (a @ b) = as_bytes a @ as_bytes b" "as_bytes (c # a) = byte_of c # as_bytes a"
  "as_bytes [] = []" "length (as_bytes a) = length a"
  by (simp_all add: as_bytes_def)

lemma as_bytes_crlf [simp]: "as_bytes crlf = [13, 10]"
  by (simp add: as_bytes_def crlf_def byte_of_def)

lemma byte_13: "CHR 0x0D \<notin> set s \<Longrightarrow> 13 \<notin> set (as_bytes s)"
proof
  assume "13 \<in> set (as_bytes s)"
  then obtain c where c: "c \<in> set s" "byte_of c = 13" by (auto simp: as_bytes_def)
  then have "chr_of (byte_of c) = CHR 0x0D" by (simp add: chr_of_def char_of_eq_iff)
  then have "c = CHR 0x0D" by simp
  moreover assume "CHR 0x0D \<notin> set s"
  ultimately show False using c by simp
qed

text \<open>One line and its CRLF, when the next line or the blank line's CRLF follows.\<close>

lemma find_crlf2_text:
  assumes "CHR 0x0D \<notin> set l" and "l \<noteq> []" and "list_all plain_header fs"
  shows "find_crlf2 i (as_bytes (l @ crlf @ headers_text fs @ crlf) @ body) =
    Some (i + length (l @ crlf @ headers_text fs) - 2)"
  using assms
proof (induction fs arbitrary: i l)
  case Nil
  then show ?case
    by (simp add: headers_text_def find_crlf2_line byte_13 del: One_nat_def) (simp add: crlf_def)
next
  case (Cons f fs)
  let ?h = "header_line f"
  have h: "CHR 0x0D \<notin> set ?h" "?h \<noteq> []" and fs: "list_all plain_header fs"
    using Cons.prems header_line_props [of f] by auto
  obtain c r where c: "as_bytes ?h = c # r" "c \<noteq> 13"
    using byte_13 [OF h(1)] h(2) by (cases ?h) (auto simp: as_bytes_def)
  have "find_crlf2 i (as_bytes (l @ crlf @ headers_text (f # fs) @ crlf) @ body)
      = find_crlf2 (i + length l) (13 # 10 # as_bytes (?h @ crlf @ headers_text fs @ crlf) @ body)"
    using Cons.prems by (simp add: headers_text_def find_crlf2_line byte_13)
  also have "\<dots> = find_crlf2 (i + length l + 2) (as_bytes (?h @ crlf @ headers_text fs @ crlf) @ body)"
    using c by (simp add: find_crlf2_crlf)
  also have "\<dots> = Some (i + length l + 2 + length (?h @ crlf @ headers_text fs) - 2)"
    by (rule Cons.IH [OF h fs])
  also have "\<dots> = Some (i + length (l @ crlf @ headers_text (f # fs)) - 2)"
    by (simp add: headers_text_def crlf_def)
  finally show ?case .
qed

definition response_bytes :: "string \<Rightarrow> string \<Rightarrow> (string \<times> string) list \<Rightarrow> u8 list" where
  "response_bytes code reason fs =
     as_bytes ((''HTTP/1.1'' @ CHR '' '' # code @ CHR '' '' # reason) @ crlf @ headers_text fs @ crlf)"

lemma digit_visible: "is_digit c \<Longrightarrow> visible [c]"
  by (simp add: is_digit_def)

lemma dec_string_visible: "visible (dec_string n)"
  using dec_string_digits [of n] by (auto simp: visible_def list_all_iff is_digit_def)

lemma length_dec_string:
  "length (dec_string n) = (if n < 10 then 1 else Suc (length (dec_string (n div 10))))"
  by (subst dec_string.simps) simp

lemma length_dec_string_3:
  assumes "100 \<le> n" and "n < 1000"
  shows "length (dec_string n) = 3"
proof -
  have "n div 10 < 100" using assms(2) by (intro less_mult_imp_div_less) simp
  then have c: "n div 10 div 10 < 10" by (intro less_mult_imp_div_less) simp
  have b: "\<not> n div 10 < 10" using div_le_mono [OF assms(1), of 10] by simp
  have a: "\<not> n < 10" using assms(1) by simp
  from a b c show ?thesis
    by (simp only: length_dec_string [of n] length_dec_string [of "n div 10"]
        length_dec_string [of "n div 10 div 10"] if_True if_False)
qed

lemma parse_u16_dec_string: "n < 65536 \<Longrightarrow> parse_u16 (dec_string n) = Some (of_nat n)"
  by (simp add: parse_u16_def parse_dec_string)

lemma response_head_str:
  assumes "visible code" "printable reason" "list_all plain_header fs"
  shows "\<exists>t. split_crlf (head_str (response_bytes code reason fs @ body)) =
    (''HTTP/1.1'' @ CHR '' '' # code @ CHR '' '' # reason) # map header_line fs @ [] # t"
proof -
  let ?l = "''HTTP/1.1'' @ CHR '' '' # code @ CHR '' '' # reason"
  have p: "printable ?l" using assms by (simp add: visible_printable)
  have "ascii (?l @ crlf @ headers_text fs @ crlf)"
    using printable_ascii [OF p] assms(3) by (simp add: ascii_headers_text)
  from head_str_ascii [OF this, of body] obtain t where
    t: "head_str (response_bytes code reason fs @ body) = (?l @ crlf @ headers_text fs @ crlf) @ t"
    by (auto simp: response_bytes_def)
  have cr: "CHR 0x0D \<notin> set ?l" using printable_no [OF p] by simp
  show ?thesis
    unfolding t using split_crlf_append [OF cr, of "headers_text fs @ crlf @ t"]
      split_crlf_append [of "[]" t] split_headers_text [OF assms(3), of "crlf @ t"] by simp
qed

lemma content_length_response:
  assumes "visible code" "printable reason" "list_all plain_header fs"
  shows "content_length (response_bytes code reason fs @ body) =
    content_length_loop None (map header_line fs)"
proof -
  have "content_length_loop len (ls @ [] # t) = content_length_loop len ls" for len ls t
    by (induction len ls rule: content_length_loop.induct) (auto split: option.splits)
  with response_head_str [OF assms, of body] show ?thesis by (auto simp: content_length_def)
qed

lemma header_end_response:
  assumes "visible code" "printable reason" "list_all plain_header fs"
  shows "header_end (response_bytes code reason fs @ body) = Some (length (response_bytes code reason fs))"
proof -
  let ?l = "''HTTP/1.1'' @ CHR '' '' # code @ CHR '' '' # reason"
  have "printable ?l" using assms by (simp add: visible_printable)
  then have "CHR 0x0D \<notin> set ?l" by (rule printable_no) simp
  from find_crlf2_text [OF this _ assms(3), of 0 body] show ?thesis
    by (simp add: header_end_def response_bytes_def crlf_def)
qed

lemma parse_status_eq:
  assumes "split_crlf (head_str b) = (''HTTP/1.1'' @ CHR '' '' # code @ CHR '' '' # reason) # ls"
    and "CHR '' '' \<notin> set code"
  shows "parse_status b = (if length code \<noteq> 3 then None
    else opt_filter (\<lambda>c. 100 \<le> c \<and> c \<le> 599) (parse_u16 code))"
  using assms by (simp add: parse_status_def concat_split_char starts_with_def)

lemma parse_status_response:
  assumes "100 \<le> n" "n \<le> 599" "printable reason" "list_all plain_header fs"
  shows "parse_status (response_bytes (dec_string n) reason fs @ body) = Some (of_nat n)"
proof -
  from response_head_str [OF dec_string_visible assms(3,4), of n body] obtain t where
    t: "split_crlf (head_str (response_bytes (dec_string n) reason fs @ body)) =
      (''HTTP/1.1'' @ CHR '' '' # dec_string n @ CHR '' '' # reason) # map header_line fs @ [] # t" by blast
  have "(100 :: u16) \<le> of_nat n \<and> (of_nat n :: u16) \<le> 599"
    using assms(1,2) by (simp add: word_le_nat_alt unat_of_nat)
  then show ?thesis
    using assms(1,2) visible_no [OF dec_string_visible, of "CHR '' ''" n]
    by (simp add: parse_status_eq [OF t] length_dec_string_3 parse_u16_dec_string)
qed

section \<open>Properties\<close>

lemma finish_simps [simp]:
  "rs_op (finish m p q b s) = classify m p q" "rs_bucket (finish m p q b s) = b"
  "rs_is_s3 (finish m p q b s) = s"
  "rs_key (finish m p q b s) = (let key = (case strip_prefix ''/'' p of Some k \<Rightarrow> k | None \<Rightarrow> p) in
     then_some (key \<noteq> []) key)"
  by (simp_all add: finish_def Let_def)

lemma host_without_port_no_colon: "CHR '':'' \<notin> set h \<Longrightarrow> host_without_port h = h"
  by (auto simp: host_without_port_def dest!: rsplit_once_SomeD split: option.splits)

lemma rsplit_once_append: "c \<notin> set p \<Longrightarrow> rsplit_once c (h @ c # p) = Some (h, p)"
  using split_once_append [of c "rev p" "rev h"] by (simp add: rsplit_once_def)

lemma digits_no_colon: "list_all is_digit p \<Longrightarrow> CHR '':'' \<notin> set p"
  by (auto simp: list_all_iff is_digit_def)

definition port_part :: "string \<Rightarrow> bool" where
  "port_part pp \<longleftrightarrow> pp = [] \<or> (hd pp = CHR '':'' \<and> tl pp \<noteq> [] \<and> list_all is_digit (tl pp))"

lemma host_without_port_port:
  assumes "CHR '':'' \<notin> set h" "h \<noteq> []" "hd h \<noteq> CHR ''[''" "port_part pp"
  shows "host_without_port (h @ pp) = h"
proof (cases pp)
  case Nil
  with assms(1) show ?thesis by (simp add: host_without_port_no_colon)
next
  case (Cons c ds)
  with assms(4) have "c = CHR '':''" "ds \<noteq> []" "list_all is_digit ds" by (auto simp: port_part_def)
  note ds = this
  have "rsplit_once CHR '':'' (h @ pp) = Some (h, ds)"
    using ds Cons by (simp add: rsplit_once_append digits_no_colon)
  moreover have "\<not> starts_with ''['' h" using assms(2,3) by (cases h) (auto simp: starts_with_def)
  ultimately show ?thesis using ds assms(1,2) by (simp add: host_without_port_def)
qed

lemma colon_free: "CHR '':'' \<notin> set aws_suffix" "CHR '':'' \<notin> set (replicate k CHR ''.'')"
  by (simp_all add: aws_suffix_def)

text \<open>A request written the usual way parses back. For a method token, a path and query of
  visible ASCII characters and any list of ordinary header fields, \<open>parse_request\<close> returns the
  method, the path, the query and the first \<open>Host\<close> value (in any letter case of the name), whatever
  bytes follow the head.\<close>

theorem parse_request_roundtrip:
  assumes "is_token m" "visible p" "visible q" "CHR ''?'' \<notin> set p"
    and "list_all plain_header fs" "values_of ''host'' fs = h # hs" "visible h"
  shows "parse_request (request_bytes m (p @ CHR ''?'' # q) fs @ body) =
    Some \<lparr>rq_method = m, rq_path = p, rq_query = q, rq_host = Some h\<rparr>"
proof -
  let ?v = "''HTTP/1.1''"
  let ?l = "m @ CHR '' '' # (p @ CHR ''?'' # q) @ CHR '' '' # ?v"
  have vis: "visible m" "visible (p @ CHR ''?'' # q)" "visible ?v"
    using assms(1-3) by (simp_all add: is_token_visible)
  have "ascii (?l @ crlf @ headers_text fs @ crlf)"
    using vis assms(5) by (simp add: ascii_headers_text printable_ascii visible_printable)
  from head_str_ascii [OF this, of body] obtain t where
    t: "head_str (request_bytes m (p @ CHR ''?'' # q) fs @ body) = (?l @ crlf @ headers_text fs @ crlf) @ t"
    by (auto simp: request_bytes_def)
  have cr: "CHR 0x0D \<notin> set ?l"
    using visible_no [OF vis(1), of "CHR 0x0D"] visible_no [OF vis(2), of "CHR 0x0D"] by auto
  have ls: "split_crlf ((?l @ crlf @ headers_text fs @ crlf) @ t) = ?l # map header_line fs @ [] # split_crlf t"
    using split_crlf_append [OF cr, of "headers_text fs @ crlf @ t"] split_crlf_append [of "[]" t]
      split_headers_text [OF assms(5), of "crlf @ t"] by simp
  have parts: "split_char CHR '' '' ?l = [m, p @ CHR ''?'' # q, ?v]"
    by (rule split_three) (use visible_no [OF vis(1)] visible_no [OF vis(2)] in auto)
  have host: "scan_header ''host'' (map header_line fs @ [] # split_crlf t) = Some h"
    using assms(6,7) by (simp add: scan_header_values header_fields_text [OF assms(5)] values_of_text trim_visible)
  show ?thesis
    unfolding parse_request_def t ls list.case parts
    by (simp add: assms(1) starts_with_def split_once_target [OF assms(4)] host)
qed

lemma parse_request_roundtrip_witness:
  "parse_request (request_bytes ''PUT'' ''/k?partNumber=1'' [(''User-Agent'', ''x y''), (''hOST'', ''b.s3.amazonaws.com'')]
      @ [0xFF, 0, 13]) =
    Some \<lparr>rq_method = ''PUT'', rq_path = ''/k'', rq_query = ''partNumber=1'', rq_host = Some ''b.s3.amazonaws.com''\<rparr>"
proof -
  have pre: "is_token ''PUT''" "visible ''/k''" "visible ''partNumber=1''" "CHR ''?'' \<notin> set ''/k''"
    "list_all plain_header [(''User-Agent'', ''x y''), (''hOST'', ''b.s3.amazonaws.com'')]"
    "values_of ''host'' [(''User-Agent'', ''x y''), (''hOST'', ''b.s3.amazonaws.com'')] = [''b.s3.amazonaws.com'']"
    "visible ''b.s3.amazonaws.com''"
    by code_simp+
  from parse_request_roundtrip [OF pre, of "[0xFF, 0, 13]"] show ?thesis by simp
qed

text \<open>C31: the two addressing styles agree. A virtual-hosted request for key \<open>k\<close> of bucket \<open>b\<close> and the
  path-style request for the same object on the bare endpoint resolve to the same operation,
  bucket and key, for both endpoint forms (\<open>s3.\<close> and \<open>s3-\<close>), any region text in which no later
  service label occurs, trailing root dots, an explicit port, and buckets that themselves contain
  \<open>.s3.\<close> or \<open>.s3-\<close>. The bucket keeps its case and the key loses exactly one slash.\<close>

theorem addressing_styles_agree:
  assumes "plain_tail sep region" and "b \<noteq> []" and "CHR ''/'' \<notin> set b"
    and "CHR '':'' \<notin> set (b @ sep # region)" and "hd b \<noteq> CHR ''[''" and "port_part pp"
  shows "resolve_with m (''/'' @ b @ ''/'' @ k) q
        (Some (service_tail sep region @ aws_suffix @ replicate n CHR ''.'' @ pp)) eps
      = resolve_with m (''/'' @ k) q
        (Some (b @ ''.'' @ service_tail sep region @ aws_suffix @ replicate n CHR ''.'' @ pp)) eps
    \<and> resolve_with m (''/'' @ k) q
        (Some (b @ ''.'' @ service_tail sep region @ aws_suffix @ replicate n CHR ''.'' @ pp)) eps
      = \<lparr>rs_op = classify m (''/'' @ k) q, rs_bucket = Some b, rs_key = then_some (k \<noteq> []) k, rs_is_s3 = True\<rparr>"
proof -
  let ?e = "service_tail sep region @ aws_suffix @ replicate n CHR ''.''"
  let ?v = "b @ CHR ''.'' # ?e"
  have c: "CHR '':'' \<notin> set ?e" "CHR '':'' \<notin> set ?v"
    using assms(4) by (auto simp: service_tail_def colon_free)
  have ne: "?e \<noteq> []" "hd ?e = CHR ''s''" "?v \<noteq> []" "hd ?v = hd b"
    using assms(2) by (simp_all add: service_tail_def)
  have hv: "host_without_port (?v @ pp) = ?v"
    by (rule host_without_port_port [OF c(2) ne(3)]) (use assms(5,6) ne(4) in simp_all)
  have he: "host_without_port (?e @ pp) = ?e"
    by (rule host_without_port_port [OF c(1) ne(1)]) (use assms(6) ne(2) in simp_all)
  have virt: "resolve_with m (''/'' @ k) q
        (Some (b @ ''.'' @ service_tail sep region @ aws_suffix @ replicate n CHR ''.'' @ pp)) eps
      = \<lparr>rs_op = classify m (''/'' @ k) q, rs_bucket = Some b, rs_key = then_some (k \<noteq> []) k, rs_is_s3 = True\<rparr>"
    using hv bucket_from_host_virtual [OF assms(1,2), of n]
    by (simp add: resolve_with_def finish_def strip_prefix_def)
  have "resolve_with m (''/'' @ b @ ''/'' @ k) q
        (Some (service_tail sep region @ aws_suffix @ replicate n CHR ''.'' @ pp)) eps
      = \<lparr>rs_op = classify m (''/'' @ k) q, rs_bucket = Some b, rs_key = then_some (k \<noteq> []) k, rs_is_s3 = True\<rparr>"
    using he bucket_from_host_bare [OF assms(1), of n] assms(2,3)
    by (simp add: resolve_with_def path_style_def finish_def strip_prefix_def split_once_append)
  with virt show ?thesis by simp
qed

lemma addressing_styles_agree_witness:
  "resolve_with ''GET'' ''/Weird.s3.name/a//b'' [] (Some ''s3-eu-west-1.amazonaws.com.:443'') [''minio.local'']
    = \<lparr>rs_op = GetObject, rs_bucket = Some ''Weird.s3.name'', rs_key = Some ''a//b'', rs_is_s3 = True\<rparr>"
proof -
  have p: "plain_tail CHR ''-'' ''eu-west-1''" by code_simp
  have pc: "port_part '':443''" "classify ''GET'' ''/a//b'' [] = GetObject" by code_simp+
  show ?thesis
    using addressing_styles_agree [OF p, of "''Weird.s3.name''" "'':443''" "''GET''" "''a//b''" "[]" 1 "[''minio.local'']"] pc
    by (simp add: service_tail_def aws_suffix_def then_some_def)
qed
text \<open>No guessing. A request is labelled S3 only when its host, less a port, ends in
  \<open>.amazonaws.com\<close> (any case, root dots ignored) or ends, in any case, in a configured endpoint; and
  a bucket is reported only for a request labelled S3.\<close>

theorem s3_only_when_recognised:
  "(rs_is_s3 (resolve_with m p q host eps) \<longrightarrow>
      (\<exists>h. host = Some h \<and>
        (ends_with aws_suffix (canonical_host (host_without_port h))
         \<or> (\<exists>ep\<in>set eps. ends_with (to_ascii_lowercase ep) (to_ascii_lowercase (host_without_port h))))))
   \<and> (rs_bucket (resolve_with m p q host eps) \<noteq> None \<longrightarrow> rs_is_s3 (resolve_with m p q host eps))"
proof (cases host)
  case None
  then show ?thesis by (simp add: resolve_with_def)
next
  case (Some h)
  let ?h = "host_without_port h"
  have sub: "\<exists>ep\<in>set eps. ends_with (to_ascii_lowercase ep) (to_ascii_lowercase ?h)"
    if "bucket_from_endpoint_subdomain ?h eps = Some b" for b
  proof -
    from bucket_from_endpoint_subdomain_SomeD [OF that] obtain ep where
      "ep \<in> set eps" "to_ascii_lowercase (drop (length b + 1) ?h) = to_ascii_lowercase ep"
      by (auto simp: eq_ignore_ascii_case_lower)
    moreover have "suffix (to_ascii_lowercase (drop (length b + 1) ?h)) (to_ascii_lowercase ?h)"
      unfolding to_ascii_lowercase_def by (intro map_mono_suffix suffix_drop)
    ultimately show ?thesis by (auto simp: ends_with_def)
  qed
  have ex: "\<exists>ep\<in>set eps. ends_with (to_ascii_lowercase ep) (to_ascii_lowercase ?h)"
    if "matches_endpoint ?h eps"
    using that by (auto simp: matches_endpoint_def list_ex_iff eq_ignore_ascii_case_lower ends_with_def)
  have aws: "ends_with aws_suffix (canonical_host ?h)" if "is_s3_endpoint ?h"
    using that by (simp add: is_s3_endpoint_def Let_def)
  show ?thesis
    using Some sub ex aws bucket_from_host_SomeD [of ?h]
    by (auto simp: resolve_with_def path_style_def Let_def split: option.splits)
qed

lemma s3_only_when_recognised_witness:
  "rs_is_s3 (resolve_with ''GET'' ''/b/k'' [] (Some ''s3.amazonaws.com'') [])
   \<and> ends_with aws_suffix (canonical_host (host_without_port ''s3.amazonaws.com''))"
proof -
  have r: "rs_is_s3 (resolve_with ''GET'' ''/b/k'' [] (Some ''s3.amazonaws.com'') [])" by code_simp
  with s3_only_when_recognised [of "''GET''" "''/b/k''" "[]" "Some ''s3.amazonaws.com''" "[]"] show ?thesis
    by auto
qed

text \<open>An object operation names an object. Whenever the resolution labels a request
  \<open>GetObject\<close>, \<open>PutObject\<close>, \<open>HeadObject\<close> or \<open>DeleteObject\<close>, in either addressing style, it has a key; a
  bucket-level request never carries an object-level label.\<close>

theorem object_op_has_key:
  assumes "rs_op (resolve_with m p q host eps) \<in> {GetObject, PutObject, HeadObject, DeleteObject}"
  shows "rs_key (resolve_with m p q host eps) \<noteq> None"
proof -
  have c: "classify m p' q \<in> {GetObject, PutObject, HeadObject, DeleteObject} \<Longrightarrow> 1 < length p'" for p'
    by (auto simp: classify_def Let_def split: if_splits)
  define P :: "resolved \<Rightarrow> bool" where "P r \<longleftrightarrow> (rs_op r \<in> {GetObject, PutObject, HeadObject, DeleteObject} \<longrightarrow> rs_key r \<noteq> None)" for r
  have f: "P (finish m p' q b s)" for p' b s
    using c [of p'] by (auto simp: P_def strip_prefix_def prefix_def)
  have ps: "P (path_style m p q)"
    unfolding path_style_def Let_def by (auto intro: f split: option.splits)
  have "P (resolve_with m p q host eps)"
    unfolding resolve_with_def Let_def by (auto intro: f ps split: option.splits)
  with assms show ?thesis by (simp add: P_def)
qed

lemma object_op_has_key_witness:
  "rs_key (resolve_with ''HEAD'' ''/b//'' [] (Some ''s3.amazonaws.com'') []) \<noteq> None"
proof -
  have "rs_op (resolve_with ''HEAD'' ''/b//'' [] (Some ''s3.amazonaws.com'') []) = HeadObject" by code_simp
  then show ?thesis
    by (intro object_op_has_key) simp
qed

text \<open>\<open>content_length\<close> accepts a length exactly when the header fields before the blank line
  contain no \<open>Transfer-Encoding\<close>, at least one \<open>Content-Length\<close>, and every \<open>Content-Length\<close> value
  parses to that same length of at most 5 TiB; the result does not depend on the order of the
  fields.\<close>

theorem content_length_correct:
  "content_length b = Some n \<longleftrightarrow>
    (let fs = header_fields (drop 1 (split_crlf (head_str b))) in
       values_of ''transfer-encoding'' fs = []
       \<and> (\<lambda>v. parse_u64 (trim v)) ` set (values_of ''content-length'' fs) = {Some n}
       \<and> unat n \<le> 5 * 2 ^ 40)"
proof -
  have mx: "n \<le> MAX_CONTENT_LENGTH \<longleftrightarrow> unat n \<le> 5 * 2 ^ 40"
    by (simp add: MAX_CONTENT_LENGTH_def word_le_nat_alt push_bit_eq_mult)
  have "(\<lambda>v. parse_u64 (trim v)) ` set vs = {Some n} \<Longrightarrow> vs \<noteq> []" for vs by auto
  then show ?thesis
    unfolding content_length_def content_length_loop_spec mx Let_def by auto
qed

text \<open>A response head parses back. For a status code from 100 to 599 and ordinary header fields,
  \<open>parse_status\<close> returns the code and \<open>header_end\<close> the exact length of the head, so that the bytes
  beyond it are the body, whatever the body holds.\<close>

theorem response_head_roundtrip:
  assumes "100 \<le> n" and "n \<le> 599" and "printable reason" and "list_all plain_header fs"
  shows "parse_status (response_bytes (dec_string n) reason fs @ body) = Some (of_nat n)
    \<and> header_end (response_bytes (dec_string n) reason fs @ body)
        = Some (length (response_bytes (dec_string n) reason fs))"
  using parse_status_response [OF assms] header_end_response [OF dec_string_visible assms(3,4)] by simp

lemma response_head_roundtrip_witness:
  "header_end (response_bytes ''206'' ''Partial Content'' [(''Content-Length'', ''3'')] @ [13, 10, 13, 10]) = Some 51"
proof -
  have d: "dec_string 206 = ''206''" and h: "list_all plain_header [(''Content-Length'', ''3'')]"
    and r: "printable ''Partial Content''"
    and l: "length (response_bytes ''206'' ''Partial Content'' [(''Content-Length'', ''3'')]) = 51" by code_simp+
  from response_head_roundtrip [of 206, OF _ _ r h] show ?thesis by (simp add: d l)
qed

end
