(* ===== verification/Hash.thy ===== *)
theory Hash
  imports RustStr
begin

unbundle bit_operations_syntax

text \<open>
  \<open>crates/s3tap-core/src/hash.rs\<close>: the vendored SHA-256, HMAC-SHA256 over it, and the
  \<open>sha256:<hex>\<close> form in which object keys leave the agent. The constant tables are written in
  decimal. The code's working arrays are lists updated in place (\<open>xs[i := v]\<close>), its block
  loop threads the hash state and the message schedule as the code does.
\<close>

section \<open>Bytes and words, big-endian\<close>

definition to_be_bytes :: "nat \<Rightarrow> 'a::len word \<Rightarrow> u8 list" where
  "to_be_bytes n w = map (\<lambda>i. ucast (drop_bit (8 * (n - 1 - i)) w)) [0..<n]"

definition u32_from_be :: "u8 \<Rightarrow> u8 \<Rightarrow> u8 \<Rightarrow> u8 \<Rightarrow> u32" where
  "u32_from_be a b c d =
     push_bit 24 (ucast a) OR push_bit 16 (ucast b) OR push_bit 8 (ucast c) OR ucast d"

lemma length_to_be_bytes [simp]: "length (to_be_bytes n w) = n"
  by (simp add: to_be_bytes_def)

section \<open>SHA-256\<close>

definition K256 :: "u32 list" where
  "K256 =
    [1116352408, 1899447441, 3049323471, 3921009573, 961987163,
     1508970993, 2453635748, 2870763221, 3624381080, 310598401,
     607225278, 1426881987, 1925078388, 2162078206, 2614888103,
     3248222580, 3835390401, 4022224774, 264347078, 604807628,
     770255983, 1249150122, 1555081692, 1996064986, 2554220882,
     2821834349, 2952996808, 3210313671, 3336571891, 3584528711,
     113926993, 338241895, 666307205, 773529912, 1294757372,
     1396182291, 1695183700, 1986661051, 2177026350, 2456956037,
     2730485921, 2820302411, 3259730800, 3345764771, 3516065817,
     3600352804, 4094571909, 275423344, 430227734, 506948616,
     659060556, 883997877, 958139571, 1322822218, 1537002063,
     1747873779, 1955562222, 2024104815, 2227730452, 2361852424,
     2428436474, 2756734187, 3204031479, 3329325298]"

definition H256 :: "u32 list" where
  "H256 =
    [1779033703, 3144134277, 1013904242, 2773480762, 1359893119,
     2600822924, 528734635, 1541459225]"

text \<open>The zero bytes still missing at a length that leaves \<open>n\<close> modulo 64.\<close>

lemma mod64_gap: "n < 64 \<Longrightarrow> (120 - n) mod 64 = (if n \<le> 56 then 56 - n else 120 - n)" for n :: nat
  by (auto simp: mod_if)

text \<open>The loop \<open>while data.len() % 64 != 56 { data.push(0) }\<close>.\<close>

function pad_zeros :: "u8 list \<Rightarrow> u8 list" where
  "pad_zeros data = (if length data mod 64 \<noteq> 56 then pad_zeros (data @ [0]) else data)"
  by pat_completeness auto
termination
proof (relation "measure (\<lambda>d. (120 - length d mod 64) mod 64)", goal_cases)
  case 1
  then show ?case by simp
next
  case (2 data)
  have "length data mod 64 < 64" by simp
  then have "Suc (length data) mod 64 = (if length data mod 64 = 63 then 0 else Suc (length data mod 64))"
    by (simp add: mod_Suc)
  then show ?case using 2 \<open>length data mod 64 < 64\<close> by (auto simp: mod64_gap split: if_splits)
qed

declare pad_zeros.simps [simp del]

definition sha256_pad :: "u8 list \<Rightarrow> u8 list" where
  "sha256_pad msg =
     (let bit_len = (of_nat (length msg) :: u64) * 8;
          data = pad_zeros (msg @ [0x80]) in
      data @ to_be_bytes 8 bit_len)"

definition sha256_load :: "u8 list \<Rightarrow> u32 list \<Rightarrow> u32 list" where
  "sha256_load block w =
     fold (\<lambda>i w. w[i := u32_from_be (block ! (i * 4)) (block ! (i * 4 + 1))
                          (block ! (i * 4 + 2)) (block ! (i * 4 + 3))]) [0..<16] w"

definition sha256_extend :: "u32 list \<Rightarrow> u32 list" where
  "sha256_extend w =
     fold (\<lambda>i w.
       (let s0 = word_rotr 7 (w ! (i - 15)) XOR word_rotr 18 (w ! (i - 15)) XOR drop_bit 3 (w ! (i - 15));
            s1 = word_rotr 17 (w ! (i - 2)) XOR word_rotr 19 (w ! (i - 2)) XOR drop_bit 10 (w ! (i - 2))
        in w[i := w ! (i - 16) + s0 + w ! (i - 7) + s1])) [16..<64] w"

type_synonym sha_vars = "u32 \<times> u32 \<times> u32 \<times> u32 \<times> u32 \<times> u32 \<times> u32 \<times> u32"

definition sha256_round :: "u32 list \<Rightarrow> nat \<Rightarrow> sha_vars \<Rightarrow> sha_vars" where
  "sha256_round w i v =
     (case v of (a, b, c, d, e, f, g, hh) \<Rightarrow>
       let s1 = word_rotr 6 e XOR word_rotr 11 e XOR word_rotr 25 e;
           ch = (e AND f) XOR (NOT e AND g);
           t1 = hh + s1 + ch + K256 ! i + w ! i;
           s0 = word_rotr 2 a XOR word_rotr 13 a XOR word_rotr 22 a;
           maj = (a AND b) XOR (a AND c) XOR (b AND c);
           t2 = s0 + maj
       in (t1 + t2, a, b, c, d + t1, e, f, g))"

definition sha256_vars :: "u32 list \<Rightarrow> sha_vars" where
  "sha256_vars h = (h ! 0, h ! 1, h ! 2, h ! 3, h ! 4, h ! 5, h ! 6, h ! 7)"

definition sha256_compress :: "u32 list \<Rightarrow> u32 list \<Rightarrow> u32 list" where
  "sha256_compress h w =
     (case fold (sha256_round w) [0..<64] (sha256_vars h) of
        (a, b, c, d, e, f, g, hh) \<Rightarrow>
          map2 (\<lambda>hi v. hi + v) h [a, b, c, d, e, f, g, hh])"

definition sha256_block :: "u8 list \<Rightarrow> u32 list \<times> u32 list \<Rightarrow> u32 list \<times> u32 list" where
  "sha256_block block s =
     (let w = sha256_extend (sha256_load block (snd s)) in (sha256_compress (fst s) w, w))"

text \<open>\<open>data.chunks_exact(n)\<close>: the full chunks, a shorter tail is dropped.\<close>

function chunks_exact :: "nat \<Rightarrow> 'a list \<Rightarrow> 'a list list" where
  "chunks_exact n xs =
     (if n = 0 \<or> length xs < n then [] else take n xs # chunks_exact n (drop n xs))"
  by pat_completeness auto
termination
  by (relation "measure (\<lambda>(n, xs). length xs)") auto

declare chunks_exact.simps [simp del]

definition sha256 :: "u8 list \<Rightarrow> u8 list" where
  "sha256 msg =
     concat (map (to_be_bytes 4)
       (fst (fold sha256_block (chunks_exact 64 (sha256_pad msg)) (H256, replicate 64 0))))"

section \<open>HMAC-SHA256 and the key hash\<close>

definition hmac_key :: "u8 list \<Rightarrow> u8 list" where
  "hmac_key key =
     (let k = (if 64 < length key then sha256 key else key) in k @ replicate (64 - length k) 0)"

definition hmac_sha256 :: "u8 list \<Rightarrow> u8 list \<Rightarrow> u8 list" where
  "hmac_sha256 key msg =
     (let k = hmac_key key;
          inner = map (\<lambda>b. b XOR 0x36) k @ msg;
          outer = map (\<lambda>b. b XOR 0x5c) k @ sha256 inner
      in sha256 outer)"

definition key_hash_salted :: "u8 list \<Rightarrow> string \<Rightarrow> string" where
  "key_hash_salted salt key =
     ''sha256:'' @ concat (map (\<lambda>b. hex_fixed 2 (unat b)) (hmac_sha256 salt (as_bytes key)))"

definition key_hash :: "string \<Rightarrow> string" where
  "key_hash s = key_hash_salted [] s"

section \<open>Padding\<close>

lemma pad_zeros_eq:
  "pad_zeros data = data @ replicate ((120 - length data mod 64) mod 64) 0"
proof (induction data rule: pad_zeros.induct)
  case (1 data)
  have lt: "length data mod 64 < 64" by simp
  show ?case
  proof (cases "length data mod 64 \<noteq> 56")
    case False
    then show ?thesis by (simp add: pad_zeros.simps [of data])
  next
    case True
    let ?n = "length data mod 64"
    have step: "(120 - ?n) mod 64 = Suc ((120 - length (data @ [0]) mod 64) mod 64)"
    proof -
      have "length (data @ [0]) mod 64 = (if ?n = 63 then 0 else Suc ?n)"
        by (simp add: mod_Suc)
      then show ?thesis using True lt by (auto simp: mod64_gap split: if_splits)
    qed
    from True have "pad_zeros data = pad_zeros (data @ [0])" by (subst pad_zeros.simps) simp
    also have "\<dots> = data @ 0 # replicate ((120 - length (data @ [0]) mod 64) mod 64) 0"
      using "1.IH" [OF True] by simp
    finally show ?thesis by (simp add: step)
  qed
qed

lemma length_pad_zeros_mod: "length (pad_zeros data) mod 64 = 56"
proof -
  define n where "n = length data mod 64"
  then have lt: "n < 64" by simp
  have "length (pad_zeros data) mod 64 = (n + (120 - n) mod 64) mod 64"
    unfolding pad_zeros_eq n_def by (simp add: mod_add_left_eq)
  also have "\<dots> = 56" using lt by (auto simp: mod64_gap)
  finally show ?thesis .
qed

lemma sha256_pad_eq:
  "sha256_pad msg = msg @ 0x80 # replicate ((120 - Suc (length msg) mod 64) mod 64) 0
     @ to_be_bytes 8 ((of_nat (length msg) :: u64) * 8)"
  by (simp add: sha256_pad_def pad_zeros_eq Let_def)

lemma length_sha256_pad: "length (sha256_pad msg) mod 64 = 0"
proof -
  have "length (sha256_pad msg) mod 64 = (length (pad_zeros (msg @ [0x80])) mod 64 + 8) mod 64"
    by (simp only: sha256_pad_def Let_def length_append length_to_be_bytes mod_add_left_eq)
  then show ?thesis by (simp only: length_pad_zeros_mod) simp
qed

lemma take_sha256_pad: "take (length msg) (sha256_pad msg) = msg"
  by (simp add: sha256_pad_eq)

lemma to_be_bytes_inj:
  fixes v w :: "'a::len word"
  assumes "to_be_bytes n v = to_be_bytes n w" and "LENGTH('a) = 8 * n"
  shows "v = w"
proof (rule bit_word_eqI)
  fix k assume k: "k < LENGTH('a)"
  let ?i = "n - 1 - k div 8"
  have lt: "k div 8 < n" using k assms(2) by (simp add: less_mult_imp_div_less mult.commute)
  then have i: "?i < n" and ki: "n - 1 - ?i = k div 8" by auto
  from assms(1) have "to_be_bytes n v ! ?i = to_be_bytes n w ! ?i" by simp
  with i have "ucast (drop_bit (8 * (n - 1 - ?i)) v) = (ucast (drop_bit (8 * (n - 1 - ?i)) w) :: u8)"
    by (simp add: to_be_bytes_def)
  then have "bit (ucast (drop_bit (8 * (k div 8)) v) :: u8) (k mod 8)
      = bit (ucast (drop_bit (8 * (k div 8)) w) :: u8) (k mod 8)" unfolding ki by simp
  then show "bit v k = bit w k"
    by (simp add: bit_ucast_iff bit_drop_bit_eq)
qed

section \<open>The message schedule\<close>

text \<open>The schedule as FIPS 180-4 writes it, a recurrence over the block's words.\<close>

definition block_word :: "u8 list \<Rightarrow> nat \<Rightarrow> u32" where
  "block_word block i = u32_from_be (block ! (i * 4)) (block ! (i * 4 + 1))
     (block ! (i * 4 + 2)) (block ! (i * 4 + 3))"

definition small_sigma0 :: "u32 \<Rightarrow> u32" where
  "small_sigma0 x = word_rotr 7 x XOR word_rotr 18 x XOR drop_bit 3 x"

definition small_sigma1 :: "u32 \<Rightarrow> u32" where
  "small_sigma1 x = word_rotr 17 x XOR word_rotr 19 x XOR drop_bit 10 x"

fun schedule :: "(nat \<Rightarrow> u32) \<Rightarrow> nat \<Rightarrow> u32" where
  "schedule M t =
     (if t < 16 then M t
      else small_sigma1 (schedule M (t - 2)) + schedule M (t - 7)
         + small_sigma0 (schedule M (t - 15)) + schedule M (t - 16))"

declare schedule.simps [simp del]

lemma length_fold_update:
  "(\<And>i w. i \<in> set is \<Longrightarrow> length (f i w) = length w) \<Longrightarrow> length (fold f is w) = length w"
  by (induction "is" arbitrary: w) auto

lemma sha256_load_nth:
  assumes "length w = 64" and "n \<le> 16"
  shows "let w' = fold (\<lambda>i w. w[i := block_word block i]) [0..<n] w
         in length w' = 64 \<and> (\<forall>j<n. w' ! j = block_word block j)"
  using assms(2)
proof (induction n)
  case 0
  then show ?case using assms(1) by simp
next
  case (Suc n)
  then show ?case by (auto simp: Let_def nth_list_update less_Suc_eq)
qed

lemma sha256_load_eq: "sha256_load block w = fold (\<lambda>i w. w[i := block_word block i]) [0..<16] w"
  by (simp add: sha256_load_def block_word_def)

definition extend_step :: "nat \<Rightarrow> u32 list \<Rightarrow> u32 list" where
  "extend_step i w = w[i := w ! (i - 16) + small_sigma0 (w ! (i - 15)) + w ! (i - 7)
                            + small_sigma1 (w ! (i - 2))]"

lemma sha256_extend_eq: "sha256_extend w = fold extend_step [16..<64] w"
  unfolding sha256_extend_def extend_step_def [abs_def] small_sigma0_def small_sigma1_def Let_def
  by (rule refl)

lemma sha256_extend_nth:
  assumes "length w = 64" and "\<forall>j<16. w ! j = M j" and "16 \<le> n" and "n \<le> 64"
  shows "length (fold extend_step [16..<n] w) = 64
    \<and> (\<forall>j<n. fold extend_step [16..<n] w ! j = schedule M j)"
  using assms(3,4)
proof (induction n rule: dec_induct)
  case base
  then show ?case using assms(1,2) by (simp add: schedule.simps)
next
  case (step n)
  define v where "v = fold extend_step [16..<n] w"
  from step have v: "length v = 64" "\<And>j. j < n \<Longrightarrow> v ! j = schedule M j"
    by (auto simp: v_def)
  have fold: "fold extend_step [16..<Suc n] w = extend_step n v"
    using step.hyps by (simp add: v_def)
  have "v ! (n - 16) + small_sigma0 (v ! (n - 15)) + v ! (n - 7) + small_sigma1 (v ! (n - 2))
      = schedule M n"
    using step.hyps by (subst schedule.simps) (simp add: v(2))
  then show ?case
    unfolding fold using v step.prems by (auto simp: extend_step_def nth_list_update less_Suc_eq)
qed

lemma schedule_correct:
  assumes "length w = 64"
  shows "sha256_extend (sha256_load block w) = map (schedule (block_word block)) [0..<64]"
proof -
  from sha256_load_nth [OF assms, of 16 block]
  have l: "length (sha256_load block w) = 64" "\<forall>j<16. sha256_load block w ! j = block_word block j"
    unfolding sha256_load_eq Let_def by blast+
  have e: "length (sha256_extend (sha256_load block w)) = 64"
    "\<forall>j<64. sha256_extend (sha256_load block w) ! j = schedule (block_word block) j"
    unfolding sha256_extend_eq using sha256_extend_nth [OF l, of 64] by simp_all
  show ?thesis by (rule nth_equalityI) (simp_all add: e)
qed

section \<open>Digest lengths\<close>

lemma chunks_exact_length: "c \<in> set (chunks_exact n xs) \<Longrightarrow> length c = n"
proof (induction n xs rule: chunks_exact.induct)
  case (1 n xs)
  then show ?case
    by (subst (asm) (2) chunks_exact.simps) (auto split: if_splits)
qed

lemma length_sha256_compress: "length h = 8 \<Longrightarrow> length (sha256_compress h w) = 8"
  by (simp add: sha256_compress_def split: prod.splits)

lemma sha256_blocks_length:
  "length (fst s) = 8 \<Longrightarrow> length (snd s) = 64 \<Longrightarrow>
   length (fst (fold sha256_block bs s)) = 8 \<and> length (snd (fold sha256_block bs s)) = 64"
proof (induction bs arbitrary: s)
  case Nil
  then show ?case by simp
next
  case (Cons b bs)
  have "length (fst (sha256_block b s)) = 8"
    using Cons.prems by (simp add: sha256_block_def Let_def length_sha256_compress)
  moreover have "length (snd (sha256_block b s)) = 64"
    using Cons.prems by (simp add: sha256_block_def Let_def schedule_correct)
  ultimately show ?case using Cons.IH by simp
qed

lemma length_concat_const: "(\<And>x. x \<in> set xs \<Longrightarrow> length (f x) = n) \<Longrightarrow> length (concat (map f xs)) = n * length xs"
  by (induction xs) auto

lemma length_H256: "length H256 = 8"
  by (simp add: H256_def)

lemma length_sha256 [simp]: "length (sha256 msg) = 32"
proof -
  have "length (fst (fold sha256_block (chunks_exact 64 (sha256_pad msg)) (H256, replicate 64 0))) = 8"
    using sha256_blocks_length [of "(H256, replicate 64 0)"] by (simp add: length_H256)
  then show ?thesis unfolding sha256_def by (subst length_concat_const [of _ _ 4]) auto
qed

lemma length_hmac_key [simp]: "length (hmac_key key) = 64"
  by (simp add: hmac_key_def Let_def)

lemma length_hmac_sha256 [simp]: "length (hmac_sha256 key msg) = 32"
  by (simp add: hmac_sha256_def Let_def)

lemma concat_hex_inj:
  assumes "length xs = length ys"
    and "concat (map (\<lambda>b. hex_fixed 2 (unat (b :: u8))) xs) = concat (map (\<lambda>b. hex_fixed 2 (unat b)) ys)"
  shows "xs = ys"
  using assms
proof (induction xs ys rule: list_induct2)
  case Nil
  then show ?case by simp
next
  case (Cons x xs y ys)
  then have "hex_fixed 2 (unat x) = hex_fixed 2 (unat y)"
    and "concat (map (\<lambda>b. hex_fixed 2 (unat b)) xs) = concat (map (\<lambda>b. hex_fixed 2 (unat b)) ys)"
    by (simp_all add: append_eq_append_conv)
  with Cons.IH show ?case
    using hex_fixed_inj [of "unat x" 2 "unat y"] unat_bound [of x] unat_bound [of y]
    by (simp add: word_unat_eq_iff)
qed

lemma hex_digits: "set (hex_fixed k n) \<subseteq> {c. is_digit c \<or> c \<in> set ''abcdef''}"
proof (induction k arbitrary: n)
  case 0
  then show ?case by simp
next
  case (Suc k)
  have "is_digit (digit_char d) \<or> digit_char d \<in> set ''abcdef''" if "d < 16" for d
  proof (cases "d < 10")
    case True
    then show ?thesis by (simp add: is_digit_digit_char)
  next
    case False
    with that have "d \<in> {10, 11, 12, 13, 14, 15}" by auto
    then show ?thesis by (auto simp: digit_char_def char_of_eq_iff)
  qed
  with Suc.IH [of "n div 16"] show ?case by auto
qed

text \<open>The written form of a hashed key: the family's label and 64 lowercase hexadecimal digits.\<close>

definition hashed_form :: "string \<Rightarrow> bool" where
  "hashed_form h \<longleftrightarrow> starts_with ''sha256:'' h \<and> length h = 71
     \<and> list_all (\<lambda>c. is_digit c \<or> c \<in> set ''abcdef'') (drop 7 h)"

lemma hashed_form_key_hash: "hashed_form (key_hash_salted salt key)"
proof -
  have "length (concat (map (\<lambda>b. hex_fixed 2 (unat b)) (hmac_sha256 salt (as_bytes key)))) = 64"
    by (subst length_concat_const [of _ _ 2]) auto
  then show ?thesis
    using hex_digits by (fastforce simp: hashed_form_def key_hash_salted_def starts_with_def list_all_iff)
qed

section \<open>Properties\<close>

text \<open>The padding loop is the padding of FIPS 180-4. For messages below \<open>2 ^ 61\<close> bytes the padded
  message is a whole number of 64-byte blocks, starts with the message, and determines it, so no two
  messages are hashed alike by padding alone.\<close>

theorem sha256_pad_correct:
  assumes "length a < 2 ^ 61" and "length b < 2 ^ 61"
  shows "length (sha256_pad a) mod 64 = 0 \<and> prefix (a @ [0x80]) (sha256_pad a)
    \<and> (sha256_pad a = sha256_pad b \<longleftrightarrow> a = b)"
proof -
  have tl: "drop (length (sha256_pad m) - 8) (sha256_pad m) = to_be_bytes 8 ((of_nat (length m) :: u64) * 8)" for m
    by (simp add: sha256_pad_def Let_def)
  have "a = b" if eq: "sha256_pad a = sha256_pad b"
  proof -
    from tl [of a] tl [of b] eq have "(of_nat (length a) :: u64) * 8 = of_nat (length b) * 8"
      by (intro to_be_bytes_inj [of 8]) auto
    then have "unat ((of_nat (length a) :: u64) * 8) = unat ((of_nat (length b) :: u64) * 8)" by simp
    moreover have "unat ((of_nat (length m) :: u64) * 8) = length m * 8" if "length m < 2 ^ 61" for m :: "u8 list"
      using that by (simp add: unat_word_ariths unat_of_nat)
    ultimately have "length a = length b" using assms by simp
    with eq show "a = b" by (metis take_sha256_pad)
  qed
  moreover have "prefix (a @ [0x80]) (sha256_pad a)"
    by (simp add: sha256_pad_eq prefix_def)
  ultimately show ?thesis by (auto simp: length_sha256_pad)
qed

lemma sha256_pad_correct_witness:
  "sha256_pad [1, 2, 3] \<noteq> sha256_pad [1, 2, 0x80]"
  using sha256_pad_correct [of "[1, 2, 3]" "[1, 2, 0x80]"] by simp

text \<open>The message schedule. Whatever the array \<open>w\<close> still holds from the previous block, loading
  and extending it in place yields the schedule of FIPS 180-4 for this block.\<close>

theorem sha256_schedule_fips:
  assumes "length w = 64" and "i < 64"
  shows "sha256_extend (sha256_load block w) ! i = schedule (block_word block) i"
  using schedule_correct [OF assms(1), of block] assms(2) by simp

lemma sha256_schedule_fips_witness:
  "sha256_extend (sha256_load [7] (replicate 64 9)) ! 63 = schedule (block_word [7]) 63"
  by (rule sha256_schedule_fips) simp_all

text \<open>The hashed form of a key. \<open>key_hash_salted\<close> writes \<open>sha256:\<close> and 64 lowercase hexadecimal
  digits, and two hashes are equal exactly when the HMAC digests are: the rendering loses nothing,
  and nothing of the key but its digest is written.\<close>

theorem key_hash_salted_correct:
  "hashed_form (key_hash_salted salt key)
   \<and> (key_hash_salted salt key = key_hash_salted salt' key' \<longleftrightarrow>
      hmac_sha256 salt (as_bytes key) = hmac_sha256 salt' (as_bytes key'))"
proof -
  have "hmac_sha256 salt (as_bytes key) = hmac_sha256 salt' (as_bytes key')"
    if "key_hash_salted salt key = key_hash_salted salt' key'"
    using that concat_hex_inj [of "hmac_sha256 salt (as_bytes key)" "hmac_sha256 salt' (as_bytes key')"]
    by (simp add: key_hash_salted_def)
  then have "key_hash_salted salt key = key_hash_salted salt' key' \<longleftrightarrow>
      hmac_sha256 salt (as_bytes key) = hmac_sha256 salt' (as_bytes key')"
    by (auto simp: key_hash_salted_def)
  with hashed_form_key_hash show ?thesis by blast
qed

text \<open>The known answer of FIPS 180-4 for the message \<open>abc\<close>, by evaluation of the model.\<close>

theorem sha256_known_answer:
  "sha256 [0x61, 0x62, 0x63] =
    [0xba, 0x78, 0x16, 0xbf, 0x8f, 0x01, 0xcf, 0xea, 0x41, 0x41, 0x40, 0xde, 0x5d, 0xae, 0x22, 0x23,
     0xb0, 0x03, 0x61, 0xa3, 0x96, 0x17, 0x7a, 0x9c, 0xb4, 0x10, 0xff, 0x61, 0xf2, 0x00, 0x15, 0xad]"
  by code_simp

end
