(* ===== verification/Schema.thy ===== *)
theory Schema
  imports RustStr "HOL-Library.Monad_Syntax"
begin

text \<open>
  \<open>crates/s3tap-schema/src/lib.rs\<close>: the public records and their JSON encoding. A struct is a
  record whose fields carry a short prefix; \<open>json_of_*\<close> and \<open>*_of_json\<close> are what its serde
  derives and attributes say, field by field and in the source's order, on JSON values (their
  text form is serde_json's). A constant tag type is the \<open>schema\<close> entry of the encoding and has no
  field. Decoding returns \<open>None\<close> where serde reports an error: a missing required field, a
  repeated field, a value of the wrong type or out of the integer's range. Unknown fields are
  ignored and a missing optional field is \<open>None\<close>.
\<close>

section \<open>JSON values and fields\<close>

datatype json = JNull | JBool bool | JNum int | JStr string | JArr "json list"
  | JObj "(string \<times> json) list"

type_synonym fields = "(string \<times> json) list"

definition json_of_word :: "'a::len word \<Rightarrow> json" where
  "json_of_word w = JNum (uint w)"

fun word_of_json :: "json \<Rightarrow> 'a::len word option" where
  "word_of_json (JNum i) = then_some (0 \<le> i \<and> i < 2 ^ LENGTH('a)) (word_of_int i)"
| "word_of_json _ = None"

fun bool_of_json :: "json \<Rightarrow> bool option" where
  "bool_of_json (JBool b) = Some b"
| "bool_of_json _ = None"

fun string_of_json :: "json \<Rightarrow> string option" where
  "string_of_json (JStr s) = Some s"
| "string_of_json _ = None"

fun json_of_opt :: "('a \<Rightarrow> json) \<Rightarrow> 'a option \<Rightarrow> json" where
  "json_of_opt e None = JNull"
| "json_of_opt e (Some x) = e x"

definition opt_of_json :: "(json \<Rightarrow> 'a option) \<Rightarrow> json \<Rightarrow> 'a option option" where
  "opt_of_json d j = (if j = JNull then Some None else map_option Some (d j))"

definition u64_as_dec_string :: "u64 \<Rightarrow> json" where
  "u64_as_dec_string v = JStr (dec_string (unat v))"

definition opt_u64_as_dec_string :: "u64 option \<Rightarrow> json" where
  "opt_u64_as_dec_string v = (case v of Some n \<Rightarrow> JStr (dec_string (unat n)) | None \<Rightarrow> JNull)"

fun u64_from_dec_string :: "json \<Rightarrow> u64 option" where
  "u64_from_dec_string (JStr s) = parse_u64 s"
| "u64_from_dec_string _ = None"

fun opt_u64_from_dec_string :: "json \<Rightarrow> u64 option option" where
  "opt_u64_from_dec_string (JStr s) = map_option Some (parse_u64 s)"
| "opt_u64_from_dec_string JNull = Some None"
| "opt_u64_from_dec_string _ = None"

text \<open>The value of a field: absent, present once, or repeated (an error).\<close>

definition entries :: "string \<Rightarrow> fields \<Rightarrow> json list" where
  "entries k fs = map snd (filter (\<lambda>e. fst e = k) fs)"

definition required :: "string \<Rightarrow> (json \<Rightarrow> 'a option) \<Rightarrow> fields \<Rightarrow> 'a option" where
  "required k d fs = (case entries k fs of [v] \<Rightarrow> d v | _ \<Rightarrow> None)"

definition defaulted :: "string \<Rightarrow> (json \<Rightarrow> 'a option option) \<Rightarrow> fields \<Rightarrow> 'a option option" where
  "defaulted k d fs = (case entries k fs of [] \<Rightarrow> Some None | [v] \<Rightarrow> d v | _ \<Rightarrow> None)"

definition optional :: "string \<Rightarrow> (json \<Rightarrow> 'a option) \<Rightarrow> fields \<Rightarrow> 'a option option" where
  "optional k d = defaulted k (opt_of_json d)"

definition fld :: "string \<Rightarrow> json \<Rightarrow> fields" where
  "fld k v = [(k, v)]"

definition skip_none :: "string \<Rightarrow> ('a \<Rightarrow> json) \<Rightarrow> 'a option \<Rightarrow> fields" where
  "skip_none k e x = (case x of None \<Rightarrow> [] | Some v \<Rightarrow> [(k, e v)])"

definition schema_tag :: "string \<Rightarrow> json \<Rightarrow> unit option" where
  "schema_tag t j = (case string_of_json j of Some s \<Rightarrow> then_some (s = t) () | None \<Rightarrow> None)"

fun fields_of_json :: "json \<Rightarrow> fields option" where
  "fields_of_json (JObj fs) = Some fs"
| "fields_of_json _ = None"

lemma word_of_json_roundtrip [simp]: "word_of_json (json_of_word w) = Some w"
  by (simp add: json_of_word_def then_some_def)

lemma opt_of_json_roundtrip:
  "(\<And>x. d (e x) = Some x) \<Longrightarrow> (\<And>x. e x \<noteq> JNull) \<Longrightarrow> opt_of_json d (json_of_opt e v) = Some v"
  by (cases v) (auto simp: opt_of_json_def)

lemma entries_simps [simp]:
  "entries k [] = []" "entries k (a @ b) = entries k a @ entries k b"
  "entries k (fld k' v) = (if k' = k then [v] else [])"
  "entries k (skip_none k' e x) = (if k' = k then (case x of None \<Rightarrow> [] | Some y \<Rightarrow> [e y]) else [])"
  by (auto simp: entries_def fld_def skip_none_def split: option.splits)

lemma entries_other [simp]: "k \<notin> fst ` set fs \<Longrightarrow> entries k fs = []"
  by (auto simp: entries_def filter_empty_conv)

lemma dec_string_field_roundtrip [simp]:
  "u64_from_dec_string (u64_as_dec_string v) = Some v"
  "opt_u64_from_dec_string (opt_u64_as_dec_string w) = Some w"
  by (auto simp: u64_as_dec_string_def opt_u64_as_dec_string_def parse_u64_dec_string split: option.splits)

section \<open>The records\<close>

definition OPERATION_SCHEMA :: string where "OPERATION_SCHEMA = ''s3tap.operation/1''"
definition CONNECTION_SCHEMA :: string where "CONNECTION_SCHEMA = ''s3tap.connection/2''"
definition SAMPLE_SCHEMA :: string where "SAMPLE_SCHEMA = ''s3tap.sample/1''"

datatype delimitation = Clean | Ambiguous

fun json_of_delimitation :: "delimitation \<Rightarrow> json" where
  "json_of_delimitation Clean = JStr ''clean''"
| "json_of_delimitation Ambiguous = JStr ''ambiguous''"

definition delimitation_of_json :: "json \<Rightarrow> delimitation option" where
  "delimitation_of_json j = (case string_of_json j of
       Some s \<Rightarrow> if s = ''clean'' then Some Clean else if s = ''ambiguous'' then Some Ambiguous else None
     | None \<Rightarrow> None)"

lemma delimitation_roundtrip [simp]: "delimitation_of_json (json_of_delimitation d) = Some d"
  by (cases d) (simp_all add: delimitation_of_json_def)

lemma delimitation_not_null [simp]: "json_of_delimitation d \<noteq> JNull"
  by (cases d) simp_all

lemma json_of_word_not_null [simp]: "json_of_word w \<noteq> JNull"
  by (simp add: json_of_word_def)

lemma optional_simps:
  "opt_of_json word_of_json (json_of_opt json_of_word w) = Some w"
  "opt_of_json string_of_json (json_of_opt JStr s) = Some s"
  by (cases w; cases s; simp add: opt_of_json_def)+

lemma skipped_simps:
  "(case w of None \<Rightarrow> Some None | Some y \<Rightarrow> opt_of_json word_of_json (json_of_word y)) = Some w"
  "(case b of None \<Rightarrow> Some None | Some y \<Rightarrow> opt_of_json bool_of_json (JBool y)) = Some b"
  "(case s of None \<Rightarrow> Some None | Some y \<Rightarrow> opt_of_json string_of_json (JStr y)) = Some s"
  by (auto simp: opt_of_json_def split: option.splits)

lemma schema_tag_simps: "schema_tag t (JStr s) = then_some (s = t) ()" "then_some True u = Some u"
  by (simp_all add: schema_tag_def then_some_def)

lemma case_opt_list: "(case (case x of None \<Rightarrow> [] | Some y \<Rightarrow> [e y]) of [] \<Rightarrow> n | [v] \<Rightarrow> f v | _ # _ # _ \<Rightarrow> u)
   = (case x of None \<Rightarrow> n | Some y \<Rightarrow> f (e y))"
  by (cases x) simp_all

lemmas serde_simps = required_def defaulted_def optional_def optional_simps schema_tag_simps
  case_opt_list skipped_simps opt_of_json_roundtrip

record app =
  app_pid :: "u32"

definition fields_of_app :: "app \<Rightarrow> fields" where
  "fields_of_app r =
     fld ''pid'' (json_of_word (app_pid r))"

definition json_of_app :: "app \<Rightarrow> json" where
  "json_of_app r = JObj (fields_of_app r)"

definition app_keys :: "string list" where
  "app_keys = [''pid'']"

definition app_of_json :: "json \<Rightarrow> app option" where
  "app_of_json j = do {
     fs \<leftarrow> fields_of_json j;
     x_pid \<leftarrow> required ''pid'' word_of_json fs;
     Some \<lparr>app_pid = x_pid\<rparr> }"

lemma json_of_app_not_null [simp]: "json_of_app r \<noteq> JNull"
  by (simp add: json_of_app_def)

lemma app_open:
  "(\<And>k. k \<in> set app_keys \<Longrightarrow> k \<notin> fst ` set extra) \<Longrightarrow>
   app_of_json (JObj (fields_of_app r @ extra)) = Some r"
  by (simp add: app_of_json_def fields_of_app_def app_keys_def serde_simps)

lemma app_roundtrip [simp]: "app_of_json (json_of_app r) = Some r"
  using app_open [of "[]" r] by (simp add: json_of_app_def)

record endpoint =
  ep_region :: "string option"
  ep_endpoint_ip :: "string option"
  ep_family :: "string option"
  ep_dport :: "u16 option"
  ep_via_vpce :: "bool"
  ep_cross_region :: "bool"

definition fields_of_endpoint :: "endpoint \<Rightarrow> fields" where
  "fields_of_endpoint r =
     fld ''region'' (json_of_opt JStr (ep_region r))
   @ fld ''endpoint_ip'' (json_of_opt JStr (ep_endpoint_ip r))
   @ fld ''family'' (json_of_opt JStr (ep_family r))
   @ fld ''dport'' (json_of_opt json_of_word (ep_dport r))
   @ fld ''via_vpce'' (JBool (ep_via_vpce r))
   @ fld ''cross_region'' (JBool (ep_cross_region r))"

definition json_of_endpoint :: "endpoint \<Rightarrow> json" where
  "json_of_endpoint r = JObj (fields_of_endpoint r)"

definition endpoint_keys :: "string list" where
  "endpoint_keys = [''region'', ''endpoint_ip'', ''family'', ''dport'', ''via_vpce'', ''cross_region'']"

definition endpoint_of_json :: "json \<Rightarrow> endpoint option" where
  "endpoint_of_json j = do {
     fs \<leftarrow> fields_of_json j;
     x_region \<leftarrow> optional ''region'' string_of_json fs;
     x_endpoint_ip \<leftarrow> optional ''endpoint_ip'' string_of_json fs;
     x_family \<leftarrow> optional ''family'' string_of_json fs;
     x_dport \<leftarrow> optional ''dport'' word_of_json fs;
     x_via_vpce \<leftarrow> required ''via_vpce'' bool_of_json fs;
     x_cross_region \<leftarrow> required ''cross_region'' bool_of_json fs;
     Some \<lparr>ep_region = x_region, ep_endpoint_ip = x_endpoint_ip, ep_family = x_family, ep_dport = x_dport, ep_via_vpce = x_via_vpce, ep_cross_region = x_cross_region\<rparr> }"

lemma json_of_endpoint_not_null [simp]: "json_of_endpoint r \<noteq> JNull"
  by (simp add: json_of_endpoint_def)

lemma endpoint_open:
  "(\<And>k. k \<in> set endpoint_keys \<Longrightarrow> k \<notin> fst ` set extra) \<Longrightarrow>
   endpoint_of_json (JObj (fields_of_endpoint r @ extra)) = Some r"
  by (simp add: endpoint_of_json_def fields_of_endpoint_def endpoint_keys_def serde_simps)

lemma endpoint_roundtrip [simp]: "endpoint_of_json (json_of_endpoint r) = Some r"
  using endpoint_open [of "[]" r] by (simp add: json_of_endpoint_def)

record tls =
  tls_seen :: "bool"
  tls_handshake_ns :: "u64 option"
  tls_version :: "string option"
  tls_sni :: "string option"
  tls_cipher :: "u16 option"

definition tls_default :: tls where
  "tls_default = \<lparr>tls_seen = False, tls_handshake_ns = None, tls_version = None,
     tls_sni = None, tls_cipher = None\<rparr>"

definition fields_of_tls :: "tls \<Rightarrow> fields" where
  "fields_of_tls r =
     fld ''seen'' (JBool (tls_seen r))
   @ fld ''handshake_ns'' (json_of_opt json_of_word (tls_handshake_ns r))
   @ fld ''version'' (json_of_opt JStr (tls_version r))
   @ fld ''sni'' (json_of_opt JStr (tls_sni r))
   @ skip_none ''cipher'' json_of_word (tls_cipher r)"

definition json_of_tls :: "tls \<Rightarrow> json" where
  "json_of_tls r = JObj (fields_of_tls r)"

definition tls_keys :: "string list" where
  "tls_keys = [''seen'', ''handshake_ns'', ''version'', ''sni'', ''cipher'']"

definition tls_of_json :: "json \<Rightarrow> tls option" where
  "tls_of_json j = do {
     fs \<leftarrow> fields_of_json j;
     x_seen \<leftarrow> required ''seen'' bool_of_json fs;
     x_handshake_ns \<leftarrow> optional ''handshake_ns'' word_of_json fs;
     x_version \<leftarrow> optional ''version'' string_of_json fs;
     x_sni \<leftarrow> optional ''sni'' string_of_json fs;
     x_cipher \<leftarrow> optional ''cipher'' word_of_json fs;
     Some \<lparr>tls_seen = x_seen, tls_handshake_ns = x_handshake_ns, tls_version = x_version, tls_sni = x_sni, tls_cipher = x_cipher\<rparr> }"

lemma json_of_tls_not_null [simp]: "json_of_tls r \<noteq> JNull"
  by (simp add: json_of_tls_def)

lemma tls_open:
  "(\<And>k. k \<in> set tls_keys \<Longrightarrow> k \<notin> fst ` set extra) \<Longrightarrow>
   tls_of_json (JObj (fields_of_tls r @ extra)) = Some r"
  by (simp add: tls_of_json_def fields_of_tls_def tls_keys_def serde_simps)

lemma tls_roundtrip [simp]: "tls_of_json (json_of_tls r) = Some r"
  using tls_open [of "[]" r] by (simp add: json_of_tls_def)

record dns =
  dns_latency_ns :: "u64"
  dns_cache_hit :: "bool"
  dns_resolved_ip :: "string option"
  dns_n_answers :: "u8"
  dns_ttl_s :: "u32 option"
  dns_via :: "string"

definition fields_of_dns :: "dns \<Rightarrow> fields" where
  "fields_of_dns r =
     fld ''latency_ns'' (json_of_word (dns_latency_ns r))
   @ fld ''cache_hit'' (JBool (dns_cache_hit r))
   @ fld ''resolved_ip'' (json_of_opt JStr (dns_resolved_ip r))
   @ fld ''n_answers'' (json_of_word (dns_n_answers r))
   @ fld ''ttl_s'' (json_of_opt json_of_word (dns_ttl_s r))
   @ fld ''via'' (JStr (dns_via r))"

definition json_of_dns :: "dns \<Rightarrow> json" where
  "json_of_dns r = JObj (fields_of_dns r)"

definition dns_keys :: "string list" where
  "dns_keys = [''latency_ns'', ''cache_hit'', ''resolved_ip'', ''n_answers'', ''ttl_s'', ''via'']"

definition dns_of_json :: "json \<Rightarrow> dns option" where
  "dns_of_json j = do {
     fs \<leftarrow> fields_of_json j;
     x_latency_ns \<leftarrow> required ''latency_ns'' word_of_json fs;
     x_cache_hit \<leftarrow> required ''cache_hit'' bool_of_json fs;
     x_resolved_ip \<leftarrow> optional ''resolved_ip'' string_of_json fs;
     x_n_answers \<leftarrow> required ''n_answers'' word_of_json fs;
     x_ttl_s \<leftarrow> optional ''ttl_s'' word_of_json fs;
     x_via \<leftarrow> required ''via'' string_of_json fs;
     Some \<lparr>dns_latency_ns = x_latency_ns, dns_cache_hit = x_cache_hit, dns_resolved_ip = x_resolved_ip, dns_n_answers = x_n_answers, dns_ttl_s = x_ttl_s, dns_via = x_via\<rparr> }"

lemma json_of_dns_not_null [simp]: "json_of_dns r \<noteq> JNull"
  by (simp add: json_of_dns_def)

lemma dns_open:
  "(\<And>k. k \<in> set dns_keys \<Longrightarrow> k \<notin> fst ` set extra) \<Longrightarrow>
   dns_of_json (JObj (fields_of_dns r @ extra)) = Some r"
  by (simp add: dns_of_json_def fields_of_dns_def dns_keys_def serde_simps)

lemma dns_roundtrip [simp]: "dns_of_json (json_of_dns r) = Some r"
  using dns_open [of "[]" r] by (simp add: json_of_dns_def)

record operation =
  o_emitted_at :: "string option"
  o_op_id :: "string"
  o_ts_ns :: "u64 option"
  o_sock_cookie :: "u64"
  o_req_seq :: "u32"
  o_app :: "app"
  o_verb :: "string option"
  o_s3_op :: "string option"
  o_bucket :: "string option"
  o_key_hash :: "string option"
  o_dns :: "dns option"
  o_tcp_connect_ns :: "u64 option"
  o_tls_handshake_ns :: "u64 option"
  o_tls_version :: "string option"
  o_ttfb_ns :: "u64 option"
  o_download_ns :: "u64 option"
  o_total_ns :: "u64 option"
  o_content_length :: "u64 option"
  o_op_bytes_sent :: "u64 option"
  o_op_bytes_recv :: "u64 option"
  o_bytes_sent :: "u64"
  o_bytes_recv :: "u64"
  o_retransmits :: "u32"
  o_srtt_us :: "u32 option"
  o_lifetime_ns :: "u64 option"
  o_connection_reused :: "bool"
  o_http_status :: "u16 option"
  o_aws_request_id :: "string option"
  o_partial :: "bool"
  o_delimitation :: "delimitation"

definition operation_default :: operation where
  "operation_default = \<lparr>o_emitted_at = None,
     o_op_id = '''',
     o_ts_ns = None,
     o_sock_cookie = 0,
     o_req_seq = 0,
     o_app = \<lparr>app_pid = 0\<rparr>,
     o_verb = None,
     o_s3_op = None,
     o_bucket = None,
     o_key_hash = None,
     o_dns = None,
     o_tcp_connect_ns = None,
     o_tls_handshake_ns = None,
     o_tls_version = None,
     o_ttfb_ns = None,
     o_download_ns = None,
     o_total_ns = None,
     o_content_length = None,
     o_op_bytes_sent = None,
     o_op_bytes_recv = None,
     o_bytes_sent = 0,
     o_bytes_recv = 0,
     o_retransmits = 0,
     o_srtt_us = None,
     o_lifetime_ns = None,
     o_connection_reused = False,
     o_http_status = None,
     o_aws_request_id = None,
     o_partial = False,
     o_delimitation = Clean\<rparr>"

definition fields_of_operation :: "operation \<Rightarrow> fields" where
  "fields_of_operation r =
     fld ''schema'' (JStr OPERATION_SCHEMA)
   @ skip_none ''emitted_at'' JStr (o_emitted_at r)
   @ fld ''op_id'' (JStr (o_op_id r))
   @ fld ''ts_ns'' (opt_u64_as_dec_string (o_ts_ns r))
   @ fld ''sock_cookie'' (u64_as_dec_string (o_sock_cookie r))
   @ fld ''req_seq'' (json_of_word (o_req_seq r))
   @ fld ''app'' (json_of_app (o_app r))
   @ fld ''verb'' (json_of_opt JStr (o_verb r))
   @ fld ''s3_op'' (json_of_opt JStr (o_s3_op r))
   @ fld ''bucket'' (json_of_opt JStr (o_bucket r))
   @ fld ''key_hash'' (json_of_opt JStr (o_key_hash r))
   @ fld ''dns'' (json_of_opt json_of_dns (o_dns r))
   @ fld ''tcp_connect_ns'' (json_of_opt json_of_word (o_tcp_connect_ns r))
   @ fld ''tls_handshake_ns'' (json_of_opt json_of_word (o_tls_handshake_ns r))
   @ fld ''tls_version'' (json_of_opt JStr (o_tls_version r))
   @ fld ''ttfb_ns'' (json_of_opt json_of_word (o_ttfb_ns r))
   @ fld ''download_ns'' (json_of_opt json_of_word (o_download_ns r))
   @ fld ''total_ns'' (json_of_opt json_of_word (o_total_ns r))
   @ fld ''content_length'' (json_of_opt json_of_word (o_content_length r))
   @ fld ''op_bytes_sent'' (json_of_opt json_of_word (o_op_bytes_sent r))
   @ fld ''op_bytes_recv'' (json_of_opt json_of_word (o_op_bytes_recv r))
   @ fld ''bytes_sent'' (json_of_word (o_bytes_sent r))
   @ fld ''bytes_recv'' (json_of_word (o_bytes_recv r))
   @ fld ''retransmits'' (json_of_word (o_retransmits r))
   @ fld ''srtt_us'' (json_of_opt json_of_word (o_srtt_us r))
   @ fld ''lifetime_ns'' (opt_u64_as_dec_string (o_lifetime_ns r))
   @ fld ''connection_reused'' (JBool (o_connection_reused r))
   @ fld ''http_status'' (json_of_opt json_of_word (o_http_status r))
   @ fld ''aws_request_id'' (json_of_opt JStr (o_aws_request_id r))
   @ fld ''partial'' (JBool (o_partial r))
   @ fld ''delimitation'' (json_of_delimitation (o_delimitation r))"

definition json_of_operation :: "operation \<Rightarrow> json" where
  "json_of_operation r = JObj (fields_of_operation r)"

definition operation_keys :: "string list" where
  "operation_keys = [''schema'', ''emitted_at'', ''op_id'', ''ts_ns'', ''sock_cookie'', ''req_seq'', ''app'', ''verb'', ''s3_op'', ''bucket'', ''key_hash'', ''dns'', ''tcp_connect_ns'', ''tls_handshake_ns'', ''tls_version'', ''ttfb_ns'', ''download_ns'', ''total_ns'', ''content_length'', ''op_bytes_sent'', ''op_bytes_recv'', ''bytes_sent'', ''bytes_recv'', ''retransmits'', ''srtt_us'', ''lifetime_ns'', ''connection_reused'', ''http_status'', ''aws_request_id'', ''partial'', ''delimitation'']"

definition operation_of_json :: "json \<Rightarrow> operation option" where
  "operation_of_json j = do {
     fs \<leftarrow> fields_of_json j;
     _ \<leftarrow> required ''schema'' (schema_tag OPERATION_SCHEMA) fs;
     x_emitted_at \<leftarrow> optional ''emitted_at'' string_of_json fs;
     x_op_id \<leftarrow> required ''op_id'' string_of_json fs;
     x_ts_ns \<leftarrow> defaulted ''ts_ns'' opt_u64_from_dec_string fs;
     x_sock_cookie \<leftarrow> required ''sock_cookie'' u64_from_dec_string fs;
     x_req_seq \<leftarrow> required ''req_seq'' word_of_json fs;
     x_app \<leftarrow> required ''app'' app_of_json fs;
     x_verb \<leftarrow> optional ''verb'' string_of_json fs;
     x_s3_op \<leftarrow> optional ''s3_op'' string_of_json fs;
     x_bucket \<leftarrow> optional ''bucket'' string_of_json fs;
     x_key_hash \<leftarrow> optional ''key_hash'' string_of_json fs;
     x_dns \<leftarrow> optional ''dns'' dns_of_json fs;
     x_tcp_connect_ns \<leftarrow> optional ''tcp_connect_ns'' word_of_json fs;
     x_tls_handshake_ns \<leftarrow> optional ''tls_handshake_ns'' word_of_json fs;
     x_tls_version \<leftarrow> optional ''tls_version'' string_of_json fs;
     x_ttfb_ns \<leftarrow> optional ''ttfb_ns'' word_of_json fs;
     x_download_ns \<leftarrow> optional ''download_ns'' word_of_json fs;
     x_total_ns \<leftarrow> optional ''total_ns'' word_of_json fs;
     x_content_length \<leftarrow> optional ''content_length'' word_of_json fs;
     x_op_bytes_sent \<leftarrow> optional ''op_bytes_sent'' word_of_json fs;
     x_op_bytes_recv \<leftarrow> optional ''op_bytes_recv'' word_of_json fs;
     x_bytes_sent \<leftarrow> required ''bytes_sent'' word_of_json fs;
     x_bytes_recv \<leftarrow> required ''bytes_recv'' word_of_json fs;
     x_retransmits \<leftarrow> required ''retransmits'' word_of_json fs;
     x_srtt_us \<leftarrow> optional ''srtt_us'' word_of_json fs;
     x_lifetime_ns \<leftarrow> defaulted ''lifetime_ns'' opt_u64_from_dec_string fs;
     x_connection_reused \<leftarrow> required ''connection_reused'' bool_of_json fs;
     x_http_status \<leftarrow> optional ''http_status'' word_of_json fs;
     x_aws_request_id \<leftarrow> optional ''aws_request_id'' string_of_json fs;
     x_partial \<leftarrow> required ''partial'' bool_of_json fs;
     x_delimitation \<leftarrow> required ''delimitation'' delimitation_of_json fs;
     Some \<lparr>o_emitted_at = x_emitted_at, o_op_id = x_op_id, o_ts_ns = x_ts_ns, o_sock_cookie = x_sock_cookie, o_req_seq = x_req_seq, o_app = x_app, o_verb = x_verb, o_s3_op = x_s3_op, o_bucket = x_bucket, o_key_hash = x_key_hash, o_dns = x_dns, o_tcp_connect_ns = x_tcp_connect_ns, o_tls_handshake_ns = x_tls_handshake_ns, o_tls_version = x_tls_version, o_ttfb_ns = x_ttfb_ns, o_download_ns = x_download_ns, o_total_ns = x_total_ns, o_content_length = x_content_length, o_op_bytes_sent = x_op_bytes_sent, o_op_bytes_recv = x_op_bytes_recv, o_bytes_sent = x_bytes_sent, o_bytes_recv = x_bytes_recv, o_retransmits = x_retransmits, o_srtt_us = x_srtt_us, o_lifetime_ns = x_lifetime_ns, o_connection_reused = x_connection_reused, o_http_status = x_http_status, o_aws_request_id = x_aws_request_id, o_partial = x_partial, o_delimitation = x_delimitation\<rparr> }"

lemma json_of_operation_not_null [simp]: "json_of_operation r \<noteq> JNull"
  by (simp add: json_of_operation_def)

lemma operation_open:
  "(\<And>k. k \<in> set operation_keys \<Longrightarrow> k \<notin> fst ` set extra) \<Longrightarrow>
   operation_of_json (JObj (fields_of_operation r @ extra)) = Some r"
  by (simp add: operation_of_json_def fields_of_operation_def operation_keys_def serde_simps)

lemma operation_roundtrip [simp]: "operation_of_json (json_of_operation r) = Some r"
  using operation_open [of "[]" r] by (simp add: json_of_operation_def)

record connection =
  cn_emitted_at :: "string option"
  cn_ts_ns :: "u64 option"
  cn_sock_cookie :: "u64"
  cn_app :: "app"
  cn_endpoint :: "endpoint"
  cn_dns :: "dns option"
  cn_tcp_connect_ns :: "u64 option"
  cn_connect_failed :: "bool"
  cn_tls :: "tls"
  cn_bytes_sent :: "u64"
  cn_bytes_recv :: "u64"
  cn_retransmits :: "u32"
  cn_srtt_us :: "u32 option"
  cn_lifetime_ns :: "u64 option"
  cn_min_rtt_us :: "u32 option"
  cn_rttvar_us :: "u32 option"
  cn_snd_cwnd :: "u32 option"
  cn_mss :: "u32 option"
  cn_delivery_rate_bps :: "u64 option"
  cn_busy_jiffies :: "u32 option"
  cn_rwnd_limited_jiffies :: "u32 option"
  cn_sndbuf_limited_jiffies :: "u32 option"
  cn_lost :: "u32 option"
  cn_sacked :: "u32 option"
  cn_reordering :: "u32 option"
  cn_ca_state :: "u8 option"
  cn_rcv_wnd :: "u32 option"
  cn_window_clamp :: "u32 option"
  cn_bytes_retrans :: "u64 option"
  cn_dsack_dups :: "u32 option"
  cn_rcv_ooopack :: "u32 option"
  cn_app_limited :: "bool option"
  cn_partial :: "bool"

definition fields_of_connection :: "connection \<Rightarrow> fields" where
  "fields_of_connection r =
     fld ''schema'' (JStr CONNECTION_SCHEMA)
   @ skip_none ''emitted_at'' JStr (cn_emitted_at r)
   @ fld ''ts_ns'' (opt_u64_as_dec_string (cn_ts_ns r))
   @ fld ''sock_cookie'' (u64_as_dec_string (cn_sock_cookie r))
   @ fld ''app'' (json_of_app (cn_app r))
   @ fld ''endpoint'' (json_of_endpoint (cn_endpoint r))
   @ fld ''dns'' (json_of_opt json_of_dns (cn_dns r))
   @ fld ''tcp_connect_ns'' (json_of_opt json_of_word (cn_tcp_connect_ns r))
   @ fld ''connect_failed'' (JBool (cn_connect_failed r))
   @ fld ''tls'' (json_of_tls (cn_tls r))
   @ fld ''bytes_sent'' (json_of_word (cn_bytes_sent r))
   @ fld ''bytes_recv'' (json_of_word (cn_bytes_recv r))
   @ fld ''retransmits'' (json_of_word (cn_retransmits r))
   @ fld ''srtt_us'' (json_of_opt json_of_word (cn_srtt_us r))
   @ fld ''lifetime_ns'' (opt_u64_as_dec_string (cn_lifetime_ns r))
   @ skip_none ''min_rtt_us'' json_of_word (cn_min_rtt_us r)
   @ skip_none ''rttvar_us'' json_of_word (cn_rttvar_us r)
   @ skip_none ''snd_cwnd'' json_of_word (cn_snd_cwnd r)
   @ skip_none ''mss'' json_of_word (cn_mss r)
   @ skip_none ''delivery_rate_bps'' json_of_word (cn_delivery_rate_bps r)
   @ skip_none ''busy_jiffies'' json_of_word (cn_busy_jiffies r)
   @ skip_none ''rwnd_limited_jiffies'' json_of_word (cn_rwnd_limited_jiffies r)
   @ skip_none ''sndbuf_limited_jiffies'' json_of_word (cn_sndbuf_limited_jiffies r)
   @ skip_none ''lost'' json_of_word (cn_lost r)
   @ skip_none ''sacked'' json_of_word (cn_sacked r)
   @ skip_none ''reordering'' json_of_word (cn_reordering r)
   @ skip_none ''ca_state'' json_of_word (cn_ca_state r)
   @ skip_none ''rcv_wnd'' json_of_word (cn_rcv_wnd r)
   @ skip_none ''window_clamp'' json_of_word (cn_window_clamp r)
   @ skip_none ''bytes_retrans'' json_of_word (cn_bytes_retrans r)
   @ skip_none ''dsack_dups'' json_of_word (cn_dsack_dups r)
   @ skip_none ''rcv_ooopack'' json_of_word (cn_rcv_ooopack r)
   @ skip_none ''app_limited'' JBool (cn_app_limited r)
   @ fld ''partial'' (JBool (cn_partial r))"

definition json_of_connection :: "connection \<Rightarrow> json" where
  "json_of_connection r = JObj (fields_of_connection r)"

definition connection_keys :: "string list" where
  "connection_keys = [''schema'', ''emitted_at'', ''ts_ns'', ''sock_cookie'', ''app'', ''endpoint'', ''dns'', ''tcp_connect_ns'', ''connect_failed'', ''tls'', ''bytes_sent'', ''bytes_recv'', ''retransmits'', ''srtt_us'', ''lifetime_ns'', ''min_rtt_us'', ''rttvar_us'', ''snd_cwnd'', ''mss'', ''delivery_rate_bps'', ''busy_jiffies'', ''rwnd_limited_jiffies'', ''sndbuf_limited_jiffies'', ''lost'', ''sacked'', ''reordering'', ''ca_state'', ''rcv_wnd'', ''window_clamp'', ''bytes_retrans'', ''dsack_dups'', ''rcv_ooopack'', ''app_limited'', ''partial'']"

definition connection_of_json :: "json \<Rightarrow> connection option" where
  "connection_of_json j = do {
     fs \<leftarrow> fields_of_json j;
     _ \<leftarrow> required ''schema'' (schema_tag CONNECTION_SCHEMA) fs;
     x_emitted_at \<leftarrow> optional ''emitted_at'' string_of_json fs;
     x_ts_ns \<leftarrow> defaulted ''ts_ns'' opt_u64_from_dec_string fs;
     x_sock_cookie \<leftarrow> required ''sock_cookie'' u64_from_dec_string fs;
     x_app \<leftarrow> required ''app'' app_of_json fs;
     x_endpoint \<leftarrow> required ''endpoint'' endpoint_of_json fs;
     x_dns \<leftarrow> optional ''dns'' dns_of_json fs;
     x_tcp_connect_ns \<leftarrow> optional ''tcp_connect_ns'' word_of_json fs;
     x_connect_failed \<leftarrow> required ''connect_failed'' bool_of_json fs;
     x_tls \<leftarrow> required ''tls'' tls_of_json fs;
     x_bytes_sent \<leftarrow> required ''bytes_sent'' word_of_json fs;
     x_bytes_recv \<leftarrow> required ''bytes_recv'' word_of_json fs;
     x_retransmits \<leftarrow> required ''retransmits'' word_of_json fs;
     x_srtt_us \<leftarrow> optional ''srtt_us'' word_of_json fs;
     x_lifetime_ns \<leftarrow> defaulted ''lifetime_ns'' opt_u64_from_dec_string fs;
     x_min_rtt_us \<leftarrow> optional ''min_rtt_us'' word_of_json fs;
     x_rttvar_us \<leftarrow> optional ''rttvar_us'' word_of_json fs;
     x_snd_cwnd \<leftarrow> optional ''snd_cwnd'' word_of_json fs;
     x_mss \<leftarrow> optional ''mss'' word_of_json fs;
     x_delivery_rate_bps \<leftarrow> optional ''delivery_rate_bps'' word_of_json fs;
     x_busy_jiffies \<leftarrow> optional ''busy_jiffies'' word_of_json fs;
     x_rwnd_limited_jiffies \<leftarrow> optional ''rwnd_limited_jiffies'' word_of_json fs;
     x_sndbuf_limited_jiffies \<leftarrow> optional ''sndbuf_limited_jiffies'' word_of_json fs;
     x_lost \<leftarrow> optional ''lost'' word_of_json fs;
     x_sacked \<leftarrow> optional ''sacked'' word_of_json fs;
     x_reordering \<leftarrow> optional ''reordering'' word_of_json fs;
     x_ca_state \<leftarrow> optional ''ca_state'' word_of_json fs;
     x_rcv_wnd \<leftarrow> optional ''rcv_wnd'' word_of_json fs;
     x_window_clamp \<leftarrow> optional ''window_clamp'' word_of_json fs;
     x_bytes_retrans \<leftarrow> optional ''bytes_retrans'' word_of_json fs;
     x_dsack_dups \<leftarrow> optional ''dsack_dups'' word_of_json fs;
     x_rcv_ooopack \<leftarrow> optional ''rcv_ooopack'' word_of_json fs;
     x_app_limited \<leftarrow> optional ''app_limited'' bool_of_json fs;
     x_partial \<leftarrow> required ''partial'' bool_of_json fs;
     Some \<lparr>cn_emitted_at = x_emitted_at, cn_ts_ns = x_ts_ns, cn_sock_cookie = x_sock_cookie, cn_app = x_app, cn_endpoint = x_endpoint, cn_dns = x_dns, cn_tcp_connect_ns = x_tcp_connect_ns, cn_connect_failed = x_connect_failed, cn_tls = x_tls, cn_bytes_sent = x_bytes_sent, cn_bytes_recv = x_bytes_recv, cn_retransmits = x_retransmits, cn_srtt_us = x_srtt_us, cn_lifetime_ns = x_lifetime_ns, cn_min_rtt_us = x_min_rtt_us, cn_rttvar_us = x_rttvar_us, cn_snd_cwnd = x_snd_cwnd, cn_mss = x_mss, cn_delivery_rate_bps = x_delivery_rate_bps, cn_busy_jiffies = x_busy_jiffies, cn_rwnd_limited_jiffies = x_rwnd_limited_jiffies, cn_sndbuf_limited_jiffies = x_sndbuf_limited_jiffies, cn_lost = x_lost, cn_sacked = x_sacked, cn_reordering = x_reordering, cn_ca_state = x_ca_state, cn_rcv_wnd = x_rcv_wnd, cn_window_clamp = x_window_clamp, cn_bytes_retrans = x_bytes_retrans, cn_dsack_dups = x_dsack_dups, cn_rcv_ooopack = x_rcv_ooopack, cn_app_limited = x_app_limited, cn_partial = x_partial\<rparr> }"

lemma json_of_connection_not_null [simp]: "json_of_connection r \<noteq> JNull"
  by (simp add: json_of_connection_def)

lemma connection_open:
  "(\<And>k. k \<in> set connection_keys \<Longrightarrow> k \<notin> fst ` set extra) \<Longrightarrow>
   connection_of_json (JObj (fields_of_connection r @ extra)) = Some r"
  by (simp add: connection_of_json_def fields_of_connection_def connection_keys_def serde_simps)

lemma connection_roundtrip [simp]: "connection_of_json (json_of_connection r) = Some r"
  using connection_open [of "[]" r] by (simp add: json_of_connection_def)

record tcp_sample =
  sm_emitted_at :: "string option"
  sm_ts_ns :: "u64 option"
  sm_sock_cookie :: "u64"
  sm_bytes_sent :: "u64"
  sm_bytes_recv :: "u64"
  sm_bytes_in_flight :: "u64"
  sm_snd_cwnd :: "u32"
  sm_rcv_wnd :: "u32"
  sm_snd_wnd :: "u32"
  sm_total_retrans :: "u32"
  sm_rcv_ooopack :: "u32"
  sm_lost :: "u32"
  sm_sacked_out :: "u32"
  sm_ca_state :: "u8"
  sm_rate_app_limited :: "bool"
  sm_srtt_us :: "u32 option"
  sm_min_rtt_us :: "u32 option"
  sm_delivery_rate_bps :: "u64 option"

definition fields_of_tcp_sample :: "tcp_sample \<Rightarrow> fields" where
  "fields_of_tcp_sample r =
     fld ''schema'' (JStr SAMPLE_SCHEMA)
   @ skip_none ''emitted_at'' JStr (sm_emitted_at r)
   @ fld ''ts_ns'' (opt_u64_as_dec_string (sm_ts_ns r))
   @ fld ''sock_cookie'' (u64_as_dec_string (sm_sock_cookie r))
   @ fld ''bytes_sent'' (json_of_word (sm_bytes_sent r))
   @ fld ''bytes_recv'' (json_of_word (sm_bytes_recv r))
   @ fld ''bytes_in_flight'' (json_of_word (sm_bytes_in_flight r))
   @ fld ''snd_cwnd'' (json_of_word (sm_snd_cwnd r))
   @ fld ''rcv_wnd'' (json_of_word (sm_rcv_wnd r))
   @ fld ''snd_wnd'' (json_of_word (sm_snd_wnd r))
   @ fld ''total_retrans'' (json_of_word (sm_total_retrans r))
   @ fld ''rcv_ooopack'' (json_of_word (sm_rcv_ooopack r))
   @ fld ''lost'' (json_of_word (sm_lost r))
   @ fld ''sacked_out'' (json_of_word (sm_sacked_out r))
   @ fld ''ca_state'' (json_of_word (sm_ca_state r))
   @ fld ''rate_app_limited'' (JBool (sm_rate_app_limited r))
   @ skip_none ''srtt_us'' json_of_word (sm_srtt_us r)
   @ skip_none ''min_rtt_us'' json_of_word (sm_min_rtt_us r)
   @ skip_none ''delivery_rate_bps'' json_of_word (sm_delivery_rate_bps r)"

definition json_of_tcp_sample :: "tcp_sample \<Rightarrow> json" where
  "json_of_tcp_sample r = JObj (fields_of_tcp_sample r)"

definition tcp_sample_keys :: "string list" where
  "tcp_sample_keys = [''schema'', ''emitted_at'', ''ts_ns'', ''sock_cookie'', ''bytes_sent'', ''bytes_recv'', ''bytes_in_flight'', ''snd_cwnd'', ''rcv_wnd'', ''snd_wnd'', ''total_retrans'', ''rcv_ooopack'', ''lost'', ''sacked_out'', ''ca_state'', ''rate_app_limited'', ''srtt_us'', ''min_rtt_us'', ''delivery_rate_bps'']"

definition tcp_sample_of_json :: "json \<Rightarrow> tcp_sample option" where
  "tcp_sample_of_json j = do {
     fs \<leftarrow> fields_of_json j;
     _ \<leftarrow> required ''schema'' (schema_tag SAMPLE_SCHEMA) fs;
     x_emitted_at \<leftarrow> optional ''emitted_at'' string_of_json fs;
     x_ts_ns \<leftarrow> defaulted ''ts_ns'' opt_u64_from_dec_string fs;
     x_sock_cookie \<leftarrow> required ''sock_cookie'' u64_from_dec_string fs;
     x_bytes_sent \<leftarrow> required ''bytes_sent'' word_of_json fs;
     x_bytes_recv \<leftarrow> required ''bytes_recv'' word_of_json fs;
     x_bytes_in_flight \<leftarrow> required ''bytes_in_flight'' word_of_json fs;
     x_snd_cwnd \<leftarrow> required ''snd_cwnd'' word_of_json fs;
     x_rcv_wnd \<leftarrow> required ''rcv_wnd'' word_of_json fs;
     x_snd_wnd \<leftarrow> required ''snd_wnd'' word_of_json fs;
     x_total_retrans \<leftarrow> required ''total_retrans'' word_of_json fs;
     x_rcv_ooopack \<leftarrow> required ''rcv_ooopack'' word_of_json fs;
     x_lost \<leftarrow> required ''lost'' word_of_json fs;
     x_sacked_out \<leftarrow> required ''sacked_out'' word_of_json fs;
     x_ca_state \<leftarrow> required ''ca_state'' word_of_json fs;
     x_rate_app_limited \<leftarrow> required ''rate_app_limited'' bool_of_json fs;
     x_srtt_us \<leftarrow> optional ''srtt_us'' word_of_json fs;
     x_min_rtt_us \<leftarrow> optional ''min_rtt_us'' word_of_json fs;
     x_delivery_rate_bps \<leftarrow> optional ''delivery_rate_bps'' word_of_json fs;
     Some \<lparr>sm_emitted_at = x_emitted_at, sm_ts_ns = x_ts_ns, sm_sock_cookie = x_sock_cookie, sm_bytes_sent = x_bytes_sent, sm_bytes_recv = x_bytes_recv, sm_bytes_in_flight = x_bytes_in_flight, sm_snd_cwnd = x_snd_cwnd, sm_rcv_wnd = x_rcv_wnd, sm_snd_wnd = x_snd_wnd, sm_total_retrans = x_total_retrans, sm_rcv_ooopack = x_rcv_ooopack, sm_lost = x_lost, sm_sacked_out = x_sacked_out, sm_ca_state = x_ca_state, sm_rate_app_limited = x_rate_app_limited, sm_srtt_us = x_srtt_us, sm_min_rtt_us = x_min_rtt_us, sm_delivery_rate_bps = x_delivery_rate_bps\<rparr> }"

lemma json_of_tcp_sample_not_null [simp]: "json_of_tcp_sample r \<noteq> JNull"
  by (simp add: json_of_tcp_sample_def)

lemma tcp_sample_open:
  "(\<And>k. k \<in> set tcp_sample_keys \<Longrightarrow> k \<notin> fst ` set extra) \<Longrightarrow>
   tcp_sample_of_json (JObj (fields_of_tcp_sample r @ extra)) = Some r"
  by (simp add: tcp_sample_of_json_def fields_of_tcp_sample_def tcp_sample_keys_def serde_simps)

lemma tcp_sample_roundtrip [simp]: "tcp_sample_of_json (json_of_tcp_sample r) = Some r"
  using tcp_sample_open [of "[]" r] by (simp add: json_of_tcp_sample_def)

section \<open>Terminal-safe rendering\<close>

text \<open>A \<open>str\<close> here is the list of its Unicode scalar values.\<close>

type_synonym uchar = nat

definition is_control :: "uchar \<Rightarrow> bool" where
  "is_control c \<longleftrightarrow> c < 32 \<or> (127 \<le> c \<and> c < 160)"

definition format_ranges :: "(nat \<times> nat) list" where
  "format_ranges =
    [(0xAD, 0xAD), (0x600, 0x605), (0x61C, 0x61C), (0x6DD, 0x6DD), (0x70F, 0x70F), (0x890, 0x891),
     (0x8E2, 0x8E2), (0x180E, 0x180E), (0x200B, 0x200F), (0x2028, 0x2029), (0x202A, 0x202E),
     (0x2060, 0x2064), (0x2066, 0x206F), (0xFEFF, 0xFEFF), (0xFFF9, 0xFFFB), (0x110BD, 0x110BD),
     (0x110CD, 0x110CD), (0x13430, 0x1343F), (0x1BCA0, 0x1BCA3), (0x1D173, 0x1D17A),
     (0xE0001, 0xE0001), (0xE0020, 0xE007F)]"

definition is_unsafe_term_char :: "uchar \<Rightarrow> bool" where
  "is_unsafe_term_char c \<longleftrightarrow> is_control c \<or> list_ex (\<lambda>(lo, hi). lo \<le> c \<and> c \<le> hi) format_ranges"

definition sanitize_term :: "uchar list \<Rightarrow> uchar list" where
  "sanitize_term s =
    (if list_ex is_unsafe_term_char s
     then map (\<lambda>c. if is_unsafe_term_char c then 0xFFFD else c) s
     else s)"

lemma replacement_char_safe [simp]: "\<not> is_unsafe_term_char 0xFFFD"
  by (simp add: is_unsafe_term_char_def is_control_def format_ranges_def)

lemma sanitize_term_map:
  "sanitize_term s = map (\<lambda>c. if is_unsafe_term_char c then 0xFFFD else c) s"
  by (auto simp: sanitize_term_def list_ex_iff intro!: map_idI [symmetric])

section \<open>Properties\<close>

lemma filter_fields:
  "filter (\<lambda>f. fst f \<notin> K) (fld k v) = (if k \<in> K then [] else fld k v)"
  "filter (\<lambda>f. fst f \<notin> K) (skip_none k e x) = (if k \<in> K then [] else skip_none k e x)"
  by (auto simp: fld_def skip_none_def split: option.splits)

definition additive_keys :: "string list" where
  "additive_keys = [''min_rtt_us'', ''rttvar_us'', ''snd_cwnd'', ''mss'', ''delivery_rate_bps'',
     ''busy_jiffies'', ''rwnd_limited_jiffies'', ''sndbuf_limited_jiffies'', ''lost'', ''sacked'',
     ''reordering'', ''ca_state'', ''rcv_wnd'', ''window_clamp'', ''bytes_retrans'', ''dsack_dups'',
     ''rcv_ooopack'', ''app_limited'']"

text \<open>Forward compatibility. An operation, connection or sample record reads back exactly, every
  field, also when a newer producer appended fields this reader does not know.\<close>

theorem records_forward_compatible:
  assumes "\<And>k. k \<in> set (operation_keys @ connection_keys @ tcp_sample_keys) \<Longrightarrow> k \<notin> fst ` set extra"
  shows "operation_of_json (JObj (fields_of_operation r1 @ extra)) = Some r1
    \<and> connection_of_json (JObj (fields_of_connection r2 @ extra)) = Some r2
    \<and> tcp_sample_of_json (JObj (fields_of_tcp_sample r3 @ extra)) = Some r3"
  using assms operation_open [of extra r1] connection_open [of extra r2] tcp_sample_open [of extra r3] by simp

lemma records_forward_compatible_witness:
  "operation_of_json (JObj (fields_of_operation operation_default @ [(''qualifiers'', JNull)])) = Some operation_default"
proof -
  have "\<And>k. k \<in> set (operation_keys @ connection_keys @ tcp_sample_keys) \<Longrightarrow> k \<notin> fst ` set [(''qualifiers'', JNull)]"
    by (simp add: operation_keys_def connection_keys_def tcp_sample_keys_def) auto
  from records_forward_compatible [OF this] show ?thesis by blast
qed

text \<open>Backward compatibility. A connection record from an agent that predates the eighteen
  path-diagnosis fields still reads: each of them is \<open>None\<close> and every other field is kept.\<close>

theorem connection_backward_compatible:
  "connection_of_json (JObj (filter (\<lambda>f. fst f \<notin> set additive_keys) (fields_of_connection r))) =
    Some (r\<lparr>cn_min_rtt_us := None, cn_rttvar_us := None, cn_snd_cwnd := None, cn_mss := None,
      cn_delivery_rate_bps := None, cn_busy_jiffies := None, cn_rwnd_limited_jiffies := None,
      cn_sndbuf_limited_jiffies := None, cn_lost := None, cn_sacked := None, cn_reordering := None,
      cn_ca_state := None, cn_rcv_wnd := None, cn_window_clamp := None, cn_bytes_retrans := None,
      cn_dsack_dups := None, cn_rcv_ooopack := None, cn_app_limited := None\<rparr>)"
  unfolding fields_of_connection_def filter_append filter_fields
  by (simp add: connection_of_json_def additive_keys_def serde_simps)

text \<open>The version tag decides. No record of one schema is ever accepted as another.\<close>

theorem schema_tags_separate:
  "connection_of_json (json_of_operation r1) = None \<and> tcp_sample_of_json (json_of_operation r1) = None
   \<and> operation_of_json (json_of_connection r2) = None \<and> tcp_sample_of_json (json_of_connection r2) = None
   \<and> operation_of_json (json_of_tcp_sample r3) = None \<and> connection_of_json (json_of_tcp_sample r3) = None"
proof -
  have tag: "entries ''schema'' (fields_of_operation r1) = [JStr OPERATION_SCHEMA]"
    "entries ''schema'' (fields_of_connection r2) = [JStr CONNECTION_SCHEMA]"
    "entries ''schema'' (fields_of_tcp_sample r3) = [JStr SAMPLE_SCHEMA]"
    by (simp_all add: fields_of_operation_def fields_of_connection_def fields_of_tcp_sample_def)
  have ne: "OPERATION_SCHEMA \<noteq> CONNECTION_SCHEMA" "OPERATION_SCHEMA \<noteq> SAMPLE_SCHEMA" "CONNECTION_SCHEMA \<noteq> SAMPLE_SCHEMA"
    by (simp_all add: OPERATION_SCHEMA_def CONNECTION_SCHEMA_def SAMPLE_SCHEMA_def)
  show ?thesis
    using ne ne [symmetric]
    by (simp add: operation_of_json_def connection_of_json_def tcp_sample_of_json_def
        json_of_operation_def json_of_connection_def json_of_tcp_sample_def required_def tag
        schema_tag_def then_some_def)
qed

text \<open>Terminal safety. What \<open>sanitize_term\<close> returns contains no control, format or line-separator
  character, has the length of its input and differs from it only at unsafe characters.\<close>

theorem sanitize_term_correct:
  "\<not> list_ex is_unsafe_term_char (sanitize_term s) \<and> length (sanitize_term s) = length s
   \<and> (i < length s \<and> \<not> is_unsafe_term_char (s ! i) \<longrightarrow> sanitize_term s ! i = s ! i)
   \<and> sanitize_term (sanitize_term s) = sanitize_term s"
proof -
  have "\<not> is_unsafe_term_char c" if "c \<in> set (sanitize_term s)" for c
    using that by (auto simp: sanitize_term_map split: if_splits)
  then have safe: "\<not> list_ex is_unsafe_term_char (sanitize_term s)" by (auto simp: list_ex_iff)
  then have "sanitize_term (sanitize_term s) = sanitize_term s" by (simp add: sanitize_term_def [of "sanitize_term s"])
  with safe show ?thesis by (simp add: sanitize_term_map)
qed

lemma sanitize_term_correct_witness: "sanitize_term [65, 27, 0x202E] ! 0 = 65"
  using sanitize_term_correct [of "[65, 27, 0x202E]" 0]
  by (simp add: is_unsafe_term_char_def is_control_def format_ranges_def)

end
