(* ===== verification/Evict.thy ===== *)
theory Evict
  imports Prelude "HOL-Library.Multiset"
begin

text \<open>
  Bounded maps of \<open>crates/s3tap-core/src/correlate.rs\<close>: \<open>evict_target\<close>, \<open>oldest_keys\<close> and
  \<open>evict_oldest_over\<close>. \<open>oldest_of\<close> works on a list of entries, the map in some iteration order;
  \<open>oldest_of_perm\<close> shows the order does not matter, which is why \<open>oldest_keys\<close> may walk the map in
  key order. The locale \<open>capped_map\<close> is what every capped insertion of the correlator promises its
  clients.
\<close>

section \<open>Choosing victims\<close>

definition EVICT_BATCH_DIVISOR :: nat where "EVICT_BATCH_DIVISOR = 10"

definition evict_target :: "nat \<Rightarrow> nat \<Rightarrow> nat" where
  "evict_target len cap = max (max (len - cap) (cap div EVICT_BATCH_DIVISOR)) 1"

text \<open>The candidates, \<open>(timestamp, key)\<close>, of a list of entries.\<close>

definition candidates :: "('v \<Rightarrow> u64) \<Rightarrow> ('k \<Rightarrow> bool) \<Rightarrow> ('k \<times> 'v) list \<Rightarrow> (u64 \<times> 'k) list" where
  "candidates ts keep xs = map (\<lambda>(k, v). (ts v, k)) (filter (\<lambda>(k, v). \<not> keep k) xs)"

text \<open>
  \<open>select_nth_unstable(n - 1)\<close>, \<open>truncate(n)\<close> and \<open>sort_unstable\<close> leave the \<open>n\<close> least candidates in
  order (\<open>select_truncate_sort\<close> below).
\<close>

definition oldest_of ::
    "('k::linorder \<times> 'v) list \<Rightarrow> nat \<Rightarrow> ('v \<Rightarrow> u64) \<Rightarrow> ('k \<Rightarrow> bool) \<Rightarrow> 'k list" where
  "oldest_of xs n ts keep =
    (if n = 0 then []
     else let cand = candidates ts keep xs; n' = min n (length cand) in
       if n' = 0 then [] else map snd (take n' (sort cand)))"

definition oldest_keys ::
    "('k::linorder, 'v) fmap \<Rightarrow> nat \<Rightarrow> ('v \<Rightarrow> u64) \<Rightarrow> ('k \<Rightarrow> bool) \<Rightarrow> 'k list" where
  "oldest_keys m n ts keep = oldest_of (sorted_list_of_fmap m) n ts keep"

definition evict_oldest_over ::
    "nat \<Rightarrow> 'k::linorder \<Rightarrow> ('v \<Rightarrow> u64) \<Rightarrow> ('k, 'v) fmap \<Rightarrow> ('k, 'v) fmap" where
  "evict_oldest_over cap keep ts m =
    (if cap < fmlen m
     then fmdrop_keys (oldest_keys m (evict_target (fmlen m) cap) ts (\<lambda>k. k = keep)) m
     else m)"

section \<open>Facts about the selection\<close>

text \<open>What \<open>select_nth_unstable\<close> at index \<open>i\<close> guarantees of its result \<open>p\<close>.\<close>

definition selected :: "'a::linorder list \<Rightarrow> nat \<Rightarrow> 'a list \<Rightarrow> bool" where
  "selected xs i p \<longleftrightarrow> mset p = mset xs \<and> (\<forall>a\<in>set (take (Suc i) p). \<forall>b\<in>set (drop (Suc i) p). a \<le> b)"

lemma select_truncate_sort:
  assumes "selected xs i p"
  shows "sort (take (Suc i) p) = take (Suc i) (sort xs)"
proof -
  let ?a = "take (Suc i) p" and ?b = "drop (Suc i) p"
  have "sort xs = sort ?a @ sort ?b"
  proof (rule properties_for_sort)
    show "mset (sort ?a @ sort ?b) = mset xs"
      using assms by (simp add: selected_def) (simp flip: mset_append)
    show "sorted (sort ?a @ sort ?b)"
      using assms by (auto simp: selected_def sorted_append)
  qed
  moreover have "length ?a = min (Suc i) (length xs)"
    using assms by (auto simp: selected_def dest: mset_eq_length)
  ultimately show ?thesis
    by (cases "Suc i \<le> length xs") auto
qed

lemma sort_perm: "mset xs = mset ys \<Longrightarrow> sort xs = sort ys" for xs :: "'a::linorder list"
  by (rule properties_for_sort) simp_all

lemma oldest_of_perm: "mset xs = mset ys \<Longrightarrow> oldest_of xs n ts keep = oldest_of ys n ts keep"
proof -
  assume "mset xs = mset ys"
  then have "mset (candidates ts keep xs) = mset (candidates ts keep ys)"
    by (simp add: candidates_def mset_map mset_filter)
  then have "sort (candidates ts keep xs) = sort (candidates ts keep ys)"
    "length (candidates ts keep xs) = length (candidates ts keep ys)"
    by (auto intro: sort_perm dest: mset_eq_length)
  then show ?thesis by (simp add: oldest_of_def Let_def)
qed

lemma oldest_of_take: "oldest_of xs n ts keep = map snd (take n (sort (candidates ts keep xs)))"
  by (auto simp: oldest_of_def Let_def min_def)

lemma distinct_candidates:
  assumes "distinct (map fst xs)"
  shows "distinct (map snd (candidates ts keep xs))"
proof -
  have "map snd (candidates ts keep xs) = map fst (filter (\<lambda>(k, v). \<not> keep k) xs)"
    by (auto simp: candidates_def)
  then show ?thesis using assms by (simp add: distinct_map_filter)
qed

lemma set_candidates_map:
  "(t, k) \<in> set (candidates ts keep (sorted_list_of_fmap m)) \<longleftrightarrow>
    (\<exists>v. fmlookup m k = Some v \<and> t = ts v \<and> \<not> keep k)"
  by (force simp: candidates_def fm_simps)

lemma distinct_oldest_keys: "distinct (oldest_keys m n ts keep)"
proof -
  let ?c = "candidates ts keep (sorted_list_of_fmap m)"
  have "distinct (map snd ?c)" by (intro distinct_candidates distinct_fst_sorted_list_of_fmap)
  then have "distinct (map snd (sort ?c))"
    by (metis distinct_map distinct_sort set_sort)
  then show ?thesis
    unfolding oldest_keys_def oldest_of_take take_map [symmetric] by (rule distinct_take)
qed

lemma oldest_keys_subset: "set (oldest_keys m n ts keep) \<subseteq> {k \<in> fmdom' m. \<not> keep k}"
proof
  fix k assume "k \<in> set (oldest_keys m n ts keep)"
  then obtain t where "(t, k) \<in> set (candidates ts keep (sorted_list_of_fmap m))"
    unfolding oldest_keys_def oldest_of_take by (auto dest: in_set_takeD)
  then show "k \<in> {k \<in> fmdom' m. \<not> keep k}"
    by (auto simp: set_candidates_map fmlookup_dom'_iff)
qed

lemma length_oldest_keys:
  "length (oldest_keys m n ts keep) = min n (card {k \<in> fmdom' m. \<not> keep k})"
proof -
  let ?c = "candidates ts keep (sorted_list_of_fmap m)"
  have d: "distinct (map snd ?c)" by (intro distinct_candidates distinct_fst_sorted_list_of_fmap)
  have "set (map snd ?c) = {k \<in> fmdom' m. \<not> keep k}"
  proof (rule set_eqI)
    fix k
    have "k \<in> set (map snd ?c) \<longleftrightarrow> (\<exists>t. (t, k) \<in> set ?c)" by force
    then show "k \<in> set (map snd ?c) \<longleftrightarrow> k \<in> {k \<in> fmdom' m. \<not> keep k}"
      by (auto simp: set_candidates_map fmlookup_dom'_iff)
  qed
  with distinct_card [OF d] show ?thesis
    by (simp add: oldest_keys_def oldest_of_take min.commute)
qed

text \<open>Every victim is at most every survivor in the order \<open>(timestamp, key)\<close>.\<close>

lemma oldest_keys_least:
  assumes "k \<in> set (oldest_keys m n ts keep)" and "fmlookup m k = Some v"
    and "j \<notin> set (oldest_keys m n ts keep)" and "fmlookup m j = Some w" and "\<not> keep j"
  shows "(ts v, k) \<le> (ts w, j)"
proof -
  let ?s = "sort (candidates ts keep (sorted_list_of_fmap m))"
  from assms(1) obtain t where t: "(t, k) \<in> set (take n ?s)"
    unfolding oldest_keys_def oldest_of_take by auto
  then have "(t, k) \<in> set (candidates ts keep (sorted_list_of_fmap m))"
    by (metis in_set_takeD set_sort)
  with assms(2) have "t = ts v" by (simp add: set_candidates_map)
  moreover have "(ts w, j) \<in> set ?s" using assms(4,5) by (simp add: set_candidates_map)
  then have "(ts w, j) \<in> set (take n ?s) \<union> set (drop n ?s)" by (metis append_take_drop_id set_append)
  moreover have "(ts w, j) \<notin> set (take n ?s)"
    using assms(3) unfolding oldest_keys_def oldest_of_take by (metis image_eqI snd_conv set_map)
  ultimately have "(t, k) \<le> (ts w, j)"
    using t sorted_append [of "take n ?s" "drop n ?s"] by (metis UnE append_take_drop_id sorted_sort)
  with \<open>t = ts v\<close> show ?thesis by simp
qed

section \<open>The eviction pass\<close>

lemma evict_target_pos: "0 < evict_target len cap"
  by (simp add: evict_target_def)

lemma evict_target_excess: "len - cap \<le> evict_target len cap"
  by (simp add: evict_target_def)

lemma card_except: "finite A \<Longrightarrow> card {k \<in> A. k \<noteq> x} \<ge> card A - 1"
proof -
  assume f: "finite A"
  have "{k \<in> A. k \<noteq> x} = A - {x}" by auto
  then show ?thesis using f by (simp add: card_Diff_singleton_if)
qed

lemma fmlen_after_drop:
  "fmlen (fmdrop_keys (oldest_keys m n ts keep) m)
    = fmlen m - min n (card {k \<in> fmdom' m. \<not> keep k})"
proof -
  have "set (oldest_keys m n ts keep) \<subseteq> fmdom' m" using oldest_keys_subset by fastforce
  from fmlen_fmdrop_keys [OF distinct_oldest_keys this] show ?thesis by (simp add: length_oldest_keys)
qed

lemma fmlen_evict_oldest_over:
  assumes "0 < cap"
  shows "fmlen (evict_oldest_over cap keep ts m) \<le> cap"
proof (cases "cap < fmlen m")
  case True
  have "fmlen m - 1 \<le> card {k \<in> fmdom' m. k \<noteq> keep}"
    unfolding fmlen_def by (rule card_except) simp
  then have "fmlen m - cap \<le> min (evict_target (fmlen m) cap) (card {k \<in> fmdom' m. k \<noteq> keep})"
    using evict_target_excess [of "fmlen m" cap] assms by linarith
  with True show ?thesis by (simp add: evict_oldest_over_def fmlen_after_drop del: min.bounded_iff)
next
  case False
  then show ?thesis by (simp add: evict_oldest_over_def)
qed

lemma evict_oldest_over_keep [simp]:
  "fmlookup (evict_oldest_over cap keep ts m) keep = fmlookup m keep"
  using oldest_keys_subset [of m "evict_target (fmlen m) cap" ts "\<lambda>k. k = keep"]
  by (auto simp: evict_oldest_over_def)

lemma evict_oldest_over_sub:
  "fmlookup (evict_oldest_over cap keep ts m) k = Some v \<Longrightarrow> fmlookup m k = Some v"
  by (auto simp: evict_oldest_over_def split: if_splits)

lemma evict_oldest_over_survivor:
  assumes "fmlookup m j = Some w" and "fmlookup (evict_oldest_over cap keep ts m) j = None"
    and "fmlookup (evict_oldest_over cap keep ts m) k = Some v" and "k \<noteq> keep"
  shows "(ts w, j) \<le> (ts v, k)"
proof -
  let ?o = "oldest_keys m (evict_target (fmlen m) cap) ts (\<lambda>k. k = keep)"
  from assms(1,2) have "cap < fmlen m" and j: "j \<in> set ?o"
    by (auto simp: evict_oldest_over_def split: if_splits)
  with assms(3) have "k \<notin> set ?o" and k: "fmlookup m k = Some v"
    by (auto simp: evict_oldest_over_def split: if_splits)
  from oldest_keys_least [OF j assms(1) this(1) k] assms(4) show ?thesis by simp
qed

section \<open>The interface of a capped map\<close>

text \<open>
  \<open>put\<close> stores an entry and may evict others: what it stored is there, nothing else changes except by
  eviction, no survivor is older than a victim, and the map never exceeds its cap.
\<close>

locale capped_map =
  fixes put :: "'k::linorder \<Rightarrow> 'v \<Rightarrow> ('k, 'v) fmap \<Rightarrow> ('k, 'v) fmap"
    and cap :: nat
    and ts :: "'v \<Rightarrow> u64"
  assumes put_same: "fmlookup (put k v m) k = Some v"
    and put_other: "j \<noteq> k \<Longrightarrow> fmlookup (put k v m) j = Some w \<Longrightarrow> fmlookup m j = Some w"
    and put_bounded: "fmlen (put k v m) \<le> cap"
    and put_oldest: "j \<noteq> k \<Longrightarrow> fmlookup m j = Some w \<Longrightarrow> fmlookup (put k v m) j = None \<Longrightarrow>
        i \<noteq> k \<Longrightarrow> fmlookup (put k v m) i = Some u \<Longrightarrow> (ts w, j) \<le> (ts u, i)"
    and put_roomy: "fmlen (fmupd k v m) \<le> cap \<Longrightarrow> put k v m = fmupd k v m"
begin

definition puts :: "('k \<times> 'v) list \<Rightarrow> ('k, 'v) fmap \<Rightarrow> ('k, 'v) fmap" where
  "puts xs m = fold (\<lambda>(k, v). put k v) xs m"

lemma puts_simps [simp]: "puts [] m = m" "puts ((k, v) # xs) m = puts xs (put k v m)"
  by (simp_all add: puts_def)

lemma puts_append: "puts (xs @ ys) m = puts ys (puts xs m)"
  by (simp add: puts_def)

lemma puts_bounded: "fmlen m \<le> cap \<Longrightarrow> fmlen (puts xs m) \<le> cap"
  by (induction xs arbitrary: m) (auto simp: put_bounded)

lemma puts_last: "fmlookup (puts (xs @ [(k, v)]) m) k = Some v"
  by (simp add: puts_append put_same)

lemma puts_origin:
  "fmlookup (puts xs m) k = Some v \<Longrightarrow> (k, v) \<in> set xs \<or> fmlookup m k = Some v"
proof (induction xs arbitrary: m)
  case Nil
  then show ?case by simp
next
  case (Cons x xs)
  obtain j w where x: "x = (j, w)" by force
  from Cons.IH [of "put j w m"] Cons.prems x
  have "(k, v) \<in> set xs \<or> fmlookup (put j w m) k = Some v" by simp
  then show ?case using x put_same [of j w m] put_other [of k j w m v] by (cases "k = j") auto
qed

end

definition capped_insert ::
    "nat \<Rightarrow> ('v \<Rightarrow> u64) \<Rightarrow> 'k::linorder \<Rightarrow> 'v \<Rightarrow> ('k, 'v) fmap \<Rightarrow> ('k, 'v) fmap" where
  "capped_insert cap ts k v m = evict_oldest_over cap k ts (fmupd k v m)"

lemma capped_map_capped_insert: "0 < cap \<Longrightarrow> capped_map (capped_insert cap ts) cap ts"
proof unfold_locales
  fix k j i :: 'a and v w u :: 'b and m
  assume "0 < cap"
  show "fmlookup (capped_insert cap ts k v m) k = Some v" by (simp add: capped_insert_def)
  show "fmlookup m j = Some w" if "j \<noteq> k" "fmlookup (capped_insert cap ts k v m) j = Some w"
    using that by (auto simp: capped_insert_def dest!: evict_oldest_over_sub)
  show "fmlen (capped_insert cap ts k v m) \<le> cap"
    unfolding capped_insert_def by (rule fmlen_evict_oldest_over) fact
  show "(ts w, j) \<le> (ts u, i)"
    if "j \<noteq> k" "fmlookup m j = Some w" "fmlookup (capped_insert cap ts k v m) j = None"
      "i \<noteq> k" "fmlookup (capped_insert cap ts k v m) i = Some u"
    using that unfolding capped_insert_def
    by (intro evict_oldest_over_survivor [of "fmupd k v m" j w cap k ts i u]) auto
  show "capped_insert cap ts k v m = fmupd k v m" if "fmlen (fmupd k v m) \<le> cap"
    using that by (simp add: capped_insert_def evict_oldest_over_def)
qed

lemma capped_inserts_roomy:
  "fmlen m + length xs \<le> cap \<Longrightarrow>
    fold (\<lambda>(k, v). capped_insert cap ts k v) xs m = fold (\<lambda>(k, v). fmupd k v) xs m"
proof (induction xs arbitrary: m)
  case (Cons x xs)
  obtain k v where x: "x = (k, v)" by force
  have "fmlen (fmupd k v m) \<le> Suc (fmlen m)" by (rule fmlen_upd_le)
  moreover from this have "capped_insert cap ts k v m = fmupd k v m"
    using Cons.prems by (simp add: capped_insert_def evict_oldest_over_def)
  ultimately show ?case using Cons.IH [of "fmupd k v m"] Cons.prems by (simp add: x)
qed simp

section \<open>Properties\<close>

text \<open>The choice of victims does not depend on the hash map's iteration order or on how the selection
  algorithm arranges equal work: for any order \<open>xs\<close> of the entries and any arrangement \<open>p\<close> that
  \<open>select_nth_unstable\<close> may leave, truncating and sorting gives the keys \<open>oldest_keys\<close> lists: distinct
  keys of the map, none exempt, and none younger than a key left behind.\<close>

theorem eviction_deterministic:
  assumes "mset xs = mset (sorted_list_of_fmap m)" and "n' = min n (length (candidates ts keep xs))" "0 < n'"
    and "selected (candidates ts keep xs) (n' - 1) p"
  shows "map snd (sort (take n' p)) = oldest_keys m n ts keep
    \<and> distinct (oldest_keys m n ts keep) \<and> set (oldest_keys m n ts keep) \<subseteq> {k \<in> fmdom' m. \<not> keep k}
    \<and> (\<forall>k j. k \<in> set (oldest_keys m n ts keep) \<and> j \<in> fmdom' m \<and> \<not> keep j \<and> j \<notin> set (oldest_keys m n ts keep)
        \<longrightarrow> (ts (the (fmlookup m k)), k) \<le> (ts (the (fmlookup m j)), j))"
proof -
  have "Suc (n' - 1) = n'" using assms(3) by simp
  then have "map snd (sort (take n' p)) = map snd (take n' (sort (candidates ts keep xs)))"
    using select_truncate_sort [OF assms(4)] by simp
  also have "\<dots> = oldest_of xs n ts keep"
    by (simp add: oldest_of_take assms(2) min_def)
  also have "\<dots> = oldest_keys m n ts keep"
    unfolding oldest_keys_def by (rule oldest_of_perm [OF assms(1)])
  finally show ?thesis
    using distinct_oldest_keys [of m n ts keep] oldest_keys_subset [of m n ts keep]
      oldest_keys_least [of _ m n ts keep] by (fastforce simp: fmlookup_dom'_iff)
qed

definition sample_map :: "(nat, u64) fmap" where
  "sample_map = fmupd 3 10 (fmupd 2 10 (fmupd 1 5 fmempty))"

lemma eviction_deterministic_witness:
  "map snd (sort (take 2 [(10 :: u64, 2 :: nat), (5, 1)])) = oldest_keys sample_map 2 (\<lambda>v :: u64. v) (\<lambda>k. k = 3)"
proof -
  have xs: "mset [(3, 10), (1, 5), (2, 10)] = mset (sorted_list_of_fmap sample_map)" by code_simp
  have "selected (candidates (\<lambda>v :: u64. v) (\<lambda>k. k = 3) [(3, 10), (1, 5), (2 :: nat, 10)]) (2 - 1) [(10, 2), (5, 1)]"
    by (simp add: selected_def candidates_def add_mset_commute)
  from eviction_deterministic [OF xs _ _ this, of 2] show ?thesis by (simp add: candidates_def)
qed

text \<open>Eviction is amortised. A pass over a map that just exceeded its cap leaves it a tenth below, so the
  next \<open>cap div 10 - 1\<close> insertions are plain updates: none of them scans or evicts.\<close>

theorem eviction_amortised:
  fixes m :: "('k::linorder, 'v) fmap"
  assumes "10 \<le> cap" and "fmlen m = Suc cap" and "m' = evict_oldest_over cap k ts m"
    and "length xs < cap div 10"
  shows "fmlen m' = Suc cap - cap div 10
    \<and> fold (\<lambda>(k, v). capped_insert cap ts k v) xs m' = fold (\<lambda>(k, v). fmupd k v) xs m'"
proof -
  have "cap \<le> card {j \<in> fmdom' m. j \<noteq> k}"
    using card_except [of "fmdom' m" k] assms(2) by (simp add: fmlen_def)
  moreover have "evict_target (fmlen m) cap = cap div 10"
    using assms(1,2) by (simp add: evict_target_def EVICT_BATCH_DIVISOR_def)
  ultimately have "fmlen m' = Suc cap - cap div 10"
    using assms(2,3) by (simp add: evict_oldest_over_def fmlen_after_drop min_def)
  moreover from this have "fmlen m' + length xs \<le> cap" using assms(1,4) by simp
  ultimately show ?thesis using capped_inserts_roomy by blast
qed

lemma eviction_amortised_witness:
  "fmlen (evict_oldest_over 20 0 (\<lambda>v :: u64. v) (fmap_of_list (map (\<lambda>i. (i, 7)) [0..<21]))) = 19"
proof -
  let ?m = "fmap_of_list (map (\<lambda>i. (i, 7 :: u64)) [0..<21])"
  have "fmdom' ?m = {0..<21}" by (auto simp: fmlookup_dom'_iff fmlookup_of_list map_of_map_restrict restrict_map_def split: if_splits)
  then have "fmlen ?m = Suc 20" by (simp add: fmlen_def)
  from eviction_amortised [OF _ this refl, of "[]" 0 "\<lambda>v. v"] show ?thesis by simp
qed

end
