(* ===== verification/CorrState.thy ===== *)
theory CorrState
  imports Dns Http Hash Schema Evict
begin

text \<open>
  The state of the correlator of \<open>crates/s3tap-core/src/correlate.rs\<close> and the operations every
  handler shares: \<open>dns_for_ip\<close>, \<open>build_op\<close>, \<open>flush_and_drop_op\<close>, \<open>flush_open_ops\<close>,
  \<open>take_flushed_ops\<close>, and its constructor. A method that takes \<open>&mut self\<close> returns the new state.
\<close>

section \<open>The state\<close>

definition DNS_MAP_CAP :: nat where "DNS_MAP_CAP = 16384"

definition DEFAULT_MAX_OPEN :: nat where "DEFAULT_MAX_OPEN = 65536"

record conn_state =
  cs_pid :: u32
  cs_connect_latency_ns :: u64
  cs_ts_ns :: u64
  cs_family :: u8
  cs_daddr :: "u8 list"
  cs_dport :: u16
  cs_connect_failed :: bool

record pending_query =
  pq_qname :: string
  pq_query_ts :: u64

record resolution =
  rn_hostname :: string
  rn_wire_latency_ns :: u64
  rn_ttl_s :: "u32 option"
  rn_n_answers :: u8
  rn_query_ts :: u64
  rn_resolved_ts :: u64

record gai_call =
  gi_latency_ns :: u64
  gi_cache_hit :: bool
  gi_ts :: u64

record tls_info =
  ti_sni :: string
  ti_ts :: u64
  ti_version :: "u16 option"
  ti_cipher :: "u16 option"

record fd_link =
  fl_cookie :: u64
  fl_ts :: u64

record resp_state =
  rp_head_ts :: u64
  rp_status :: u16
  rp_aws_request_id :: "string option"
  rp_op_bytes_recv :: u64
  rp_resp_truncated :: bool
  rp_body_target :: u64
  rp_body_seen :: u64

record open_op =
  oo_op_id :: string
  oo_ts_ns :: u64
  oo_req_seq :: u32
  oo_verb :: string
  oo_s3_op :: "string option"
  oo_bucket :: "string option"
  oo_key_hash :: "string option"
  oo_op_bytes_sent :: u64
  oo_interim_ts :: "u64 option"
  oo_head_truncated :: bool
  oo_ambiguous :: bool
  oo_resp :: "resp_state option"
  oo_cookie :: "u64 option"

record conn_ops =
  co_next_seq :: u32
  co_open :: "open_op option"
  co_last_ts :: u64
  co_last_bio_cookie :: "u64 option"

definition conn_ops_default :: conn_ops where
  "conn_ops_default = \<lparr>co_next_seq = 0, co_open = None, co_last_ts = 0, co_last_bio_cookie = None\<rparr>"

record resp_facts =
  rf_status :: "u16 option"
  rf_aws_request_id :: "string option"
  rf_op_bytes_recv :: u64
  rf_truncated :: bool
  rf_ts_ns :: "u64 option"
  rf_body_complete_ts :: "u64 option"
  rf_content_length :: "u64 option"

definition resp_facts_default :: resp_facts where
  "resp_facts_default = \<lparr>rf_status = None, rf_aws_request_id = None, rf_op_bytes_recv = 0,
     rf_truncated = False, rf_ts_ns = None, rf_body_complete_ts = None, rf_content_length = None\<rparr>"

type_synonym fd_key = "u32 \<times> u32"

record corr =
  c_conns :: "(u64, conn_state) fmap"
  c_max_open :: nat
  c_pending_dns :: "(u64 \<times> u16, pending_query) fmap"
  c_resolutions :: "(ip_addr, resolution) fmap"
  c_gai :: "(string, gai_call) fmap"
  c_tls :: "(u64, tls_info) fmap"
  c_fd_links :: "(fd_key, fd_link) fmap"
  c_fd_links_rev :: "(u64, fd_key) fmap"
  c_ops :: "(fd_key, conn_ops) fmap"
  c_op_counter :: u64
  c_flushed_ops :: "operation list"
  c_parse_failures :: u64
  c_s3_endpoints :: "string list"
  c_key_salt :: "u8 list"

section \<open>Construction\<close>

text \<open>
  \<open>File::open\<close> and \<open>read_exact\<close> of 16 bytes are the operating system's: the argument \<open>read16\<close> gives
  the bytes of a path or the error's text.
\<close>

datatype io_error = NoEntropy "string list" string

definition ENTROPY_SOURCES :: "string list" where
  "ENTROPY_SOURCES = [''/dev/urandom'', ''/dev/random'']"

fun random_salt_loop ::
    "(string \<Rightarrow> string + u8 list) \<Rightarrow> string option \<Rightarrow> string list \<Rightarrow> string option + u8 list" where
  "random_salt_loop read16 last_err [] = Inl last_err"
| "random_salt_loop read16 last_err (path # paths) =
    (case read16 path of Inr salt \<Rightarrow> Inr salt | Inl e \<Rightarrow> random_salt_loop read16 (Some e) paths)"

definition random_salt_from ::
    "(string \<Rightarrow> string + u8 list) \<Rightarrow> string list \<Rightarrow> io_error + u8 list" where
  "random_salt_from read16 sources =
    (case random_salt_loop read16 None sources of
       Inr salt \<Rightarrow> Inr salt
     | Inl last_err \<Rightarrow>
         Inl (NoEntropy sources (case last_err of None \<Rightarrow> ''no source configured'' | Some e \<Rightarrow> e)))"

definition try_with_max_open :: "(string \<Rightarrow> string + u8 list) \<Rightarrow> nat \<Rightarrow> io_error + corr" where
  "try_with_max_open read16 max_open =
    (case random_salt_from read16 ENTROPY_SOURCES of
       Inl e \<Rightarrow> Inl e
     | Inr salt \<Rightarrow> Inr
        \<lparr>c_conns = fmempty, c_max_open = max max_open 1, c_pending_dns = fmempty,
         c_resolutions = fmempty, c_gai = fmempty, c_tls = fmempty, c_fd_links = fmempty,
         c_fd_links_rev = fmempty, c_ops = fmempty, c_op_counter = 0, c_flushed_ops = [],
         c_parse_failures = 0, c_s3_endpoints = [], c_key_salt = salt\<rparr>)"

definition try_new :: "(string \<Rightarrow> string + u8 list) \<Rightarrow> io_error + corr" where
  "try_new read16 = try_with_max_open read16 DEFAULT_MAX_OPEN"

definition set_s3_endpoints :: "string list \<Rightarrow> corr \<Rightarrow> corr" where
  "set_s3_endpoints hosts c = c\<lparr>c_s3_endpoints := map to_ascii_lowercase hosts\<rparr>"

definition take_flushed_ops :: "corr \<Rightarrow> corr \<times> operation list" where
  "take_flushed_ops c = (c\<lparr>c_flushed_ops := []\<rparr>, c_flushed_ops c)"

section \<open>Joining facts\<close>

definition tls_version_str :: "u16 \<Rightarrow> string" where
  "tls_version_str v =
    (if v = 0x0304 then ''TLS 1.3''
     else if v = 0x0303 then ''TLS 1.2''
     else if v = 0x0302 then ''TLS 1.1''
     else if v = 0x0301 then ''TLS 1.0''
     else ''0x'' @ hex_fixed 4 (unat v))"

definition cookie_for_fd :: "corr \<Rightarrow> u32 \<Rightarrow> u32 \<Rightarrow> u64 option" where
  "cookie_for_fd c tgid fd = map_option fl_cookie (fmlookup (c_fd_links c) (tgid, fd))"

definition dns_for_ip :: "corr \<Rightarrow> ip_addr \<Rightarrow> u64 \<Rightarrow> dns option \<times> string option" where
  "dns_for_ip c ip conn_ts =
    (case fmlookup (c_resolutions c) ip of
       None \<Rightarrow> (None, None)
     | Some res \<Rightarrow>
         let region = aws_region_from_host (rn_hostname res);
             (latency_ns, via, cache_hit) =
               (case fmlookup (c_gai c) (rn_hostname res) of
                  Some g \<Rightarrow> if gi_ts g \<le> conn_ts then (gi_latency_ns g, ''getaddrinfo'', gi_cache_hit g)
                           else (rn_wire_latency_ns res, ''wire'', False)
                | None \<Rightarrow> (rn_wire_latency_ns res, ''wire'', False))
         in (Some \<lparr>dns_latency_ns = latency_ns, dns_cache_hit = cache_hit,
               dns_resolved_ip = Some (ip_to_string ip), dns_n_answers = rn_n_answers res,
               dns_ttl_s = rn_ttl_s res, dns_via = via\<rparr>, region))"

definition resp_facts_on_flush :: "open_op \<Rightarrow> resp_facts option" where
  "resp_facts_on_flush op = map_option (\<lambda>rs.
     \<lparr>rf_status = Some (rp_status rs), rf_aws_request_id = rp_aws_request_id rs,
      rf_op_bytes_recv = rp_op_bytes_recv rs, rf_truncated = rp_resp_truncated rs,
      rf_ts_ns = Some (rp_head_ts rs), rf_body_complete_ts = None,
      rf_content_length = Some (rp_body_target rs)\<rparr>) (oo_resp op)"

definition build_op :: "corr \<Rightarrow> fd_key \<Rightarrow> open_op \<Rightarrow> resp_facts \<Rightarrow> operation" where
  "build_op c key op resp =
    (let cookie = opt_or (oo_cookie op) (cookie_for_fd c (fst key) (snd key));
         conn = Option.bind cookie (fmlookup (c_conns c));
         sni = map_option ti_sni (Option.bind cookie (fmlookup (c_tls c)));
         bucket = opt_or (Option.bind sni bucket_from_host) (oo_bucket op);
         connection_reused = 0 < oo_req_seq op;
         dns = (if connection_reused then None
                else Option.bind conn (\<lambda>s.
                  fst (dns_for_ip c (fst (classify_endpoint (cs_family s) (cs_daddr s))) (cs_ts_ns s))));
         first_resp_ts = opt_or (oo_interim_ts op) (rf_ts_ns resp);
         ttfb_ns = opt_filter (\<lambda>n. n \<noteq> 0) (map_option (\<lambda>t. sat_sub t (oo_ts_ns op)) first_resp_ts);
         download_ns = (case (rf_ts_ns resp, rf_body_complete_ts resp) of
                          (Some head, Some fin) \<Rightarrow> Some (sat_sub fin head) | _ \<Rightarrow> None);
         total_ns = map_option (\<lambda>fin. sat_sub fin (oo_ts_ns op)) (rf_body_complete_ts resp)
     in \<lparr>o_emitted_at = None, o_op_id = oo_op_id op, o_ts_ns = Some (oo_ts_ns op),
         o_sock_cookie = (case cookie of Some k \<Rightarrow> k | None \<Rightarrow> 0),
         o_req_seq = oo_req_seq op,
         o_app = \<lparr>app_pid = (case conn of Some s \<Rightarrow> cs_pid s | None \<Rightarrow> fst key)\<rparr>,
         o_verb = Some (oo_verb op), o_s3_op = oo_s3_op op, o_bucket = bucket,
         o_key_hash = oo_key_hash op, o_dns = dns,
         o_tcp_connect_ns = (if connection_reused then None
           else opt_filter (\<lambda>n. n \<noteq> 0) (map_option cs_connect_latency_ns conn)),
         o_tls_handshake_ns = None, o_tls_version = None, o_ttfb_ns = ttfb_ns,
         o_download_ns = download_ns, o_total_ns = total_ns,
         o_content_length = rf_content_length resp, o_op_bytes_sent = Some (oo_op_bytes_sent op),
         o_op_bytes_recv = Some (rf_op_bytes_recv resp),
         o_bytes_sent = 0, o_bytes_recv = 0, o_retransmits = 0, o_srtt_us = None,
         o_lifetime_ns = None, o_connection_reused = connection_reused,
         o_http_status = rf_status resp, o_aws_request_id = rf_aws_request_id resp,
         o_partial = (conn = None \<or> oo_head_truncated op \<or> rf_truncated resp),
         o_delimitation = (if oo_ambiguous op then Ambiguous else Clean)\<rparr>)"

section \<open>Flushing\<close>

definition next_op_id :: "corr \<Rightarrow> corr \<times> string" where
  "next_op_id c = (let n = c_op_counter c + 1 in (c\<lparr>c_op_counter := n\<rparr>, hex_fixed 16 (unat n)))"

text \<open>The op of a slot, if one is open.\<close>

definition open_at :: "corr \<Rightarrow> fd_key \<Rightarrow> open_op option" where
  "open_at c key = Option.bind (fmlookup (c_ops c) key) co_open"

definition flush_and_drop_op :: "fd_key \<Rightarrow> corr \<Rightarrow> corr" where
  "flush_and_drop_op key c =
    (let c1 = (case open_at c key of
         None \<Rightarrow> c
       | Some op \<Rightarrow>
           let facts = (case resp_facts_on_flush op of Some f \<Rightarrow> f | None \<Rightarrow> resp_facts_default) in
           c\<lparr>c_flushed_ops := c_flushed_ops c @ [build_op c key op facts]\<rparr>)
     in c1\<lparr>c_ops := fmdrop key (c_ops c1)\<rparr>)"

text \<open>\<open>ord\<close> is the iteration order of the hash map \<open>ops\<close>: its keys, each once.\<close>

definition flush_open_ops :: "fd_key list \<Rightarrow> corr \<Rightarrow> corr" where
  "flush_open_ops ord c = fold flush_and_drop_op ord c"

end
