(* ===== verification/CorrConn.thy ===== *)
theory CorrConn
  imports CorrState
begin

text \<open>
  The connection side of the correlator (\<open>crates/s3tap-core/src/correlate.rs\<close>): \<open>on_connect\<close>,
  \<open>on_close\<close>, the DNS and TLS handlers and \<open>on_conn_id\<close>. \<open>on_close\<close> is split at its own comments:
  the link the close owns, the flush, the TLS block, the endpoint, and the record.
\<close>

section \<open>Connect\<close>

definition stale_link :: "u64 \<Rightarrow> u32 \<Rightarrow> corr \<Rightarrow> fd_key option" where
  "stale_link cookie tgid c =
    opt_filter (\<lambda>k. fst k \<noteq> tgid \<and> fmlookup (c_fd_links c) k \<noteq> None) (fmlookup (c_fd_links_rev c) cookie)"

definition unlink :: "fd_key \<Rightarrow> u64 \<Rightarrow> corr \<Rightarrow> corr" where
  "unlink key cookie c = c\<lparr>c_fd_links := fmdrop key (c_fd_links c),
     c_fd_links_rev := fmdrop cookie (c_fd_links_rev c)\<rparr>"

definition drop_stale_link :: "u64 \<Rightarrow> u32 \<Rightarrow> corr \<Rightarrow> corr" where
  "drop_stale_link cookie tgid c =
    (case stale_link cookie tgid c of
       None \<Rightarrow> c
     | Some old_key \<Rightarrow> unlink old_key cookie (flush_and_drop_op old_key c))"

definition on_connect :: "evt_tcp_connect \<Rightarrow> corr \<Rightarrow> corr \<times> connection option" where
  "on_connect e c0 =
    (let cookie = hdr_sock_cookie (tco_hdr e);
         c1 = drop_stale_link cookie (hdr_tgid (tco_hdr e)) c0;
         st = \<lparr>cs_pid = hdr_tgid (tco_hdr e), cs_connect_latency_ns = tco_connect_latency_ns e,
               cs_ts_ns = sat_sub (hdr_ts_ns (tco_hdr e)) (tco_connect_latency_ns e),
               cs_family = tco_family e, cs_daddr = tco_daddr e, cs_dport = tco_dport e,
               cs_connect_failed = (tco_connect_failed e \<noteq> 0)\<rparr>;
         conns1 = fmupd cookie st (c_conns c1);
         tls1 = fmdrop cookie (c_tls c1);
         conns2 = (if c_max_open c1 < fmlen conns1
           then fmdrop_keys (oldest_keys conns1 (evict_target (fmlen conns1) (c_max_open c1))
                  cs_ts_ns (\<lambda>k. k = cookie)) conns1
           else conns1)
     in (c1\<lparr>c_conns := conns2, c_tls := tls1\<rparr>, None))"

section \<open>Close\<close>

definition own_link :: "u64 \<Rightarrow> u64 \<Rightarrow> corr \<Rightarrow> fd_key option" where
  "own_link cookie ts c =
    opt_filter (\<lambda>k. case fmlookup (c_fd_links c) k of
        None \<Rightarrow> True | Some l \<Rightarrow> ts = 0 \<or> fl_ts l \<le> ts)
      (fmlookup (c_fd_links_rev c) cookie)"

text \<open>The two passes over \<open>ops\<close>, each taking the first match in the iteration order \<open>ord\<close>.\<close>

definition bio_slot :: "fd_key list \<Rightarrow> u64 \<Rightarrow> corr \<Rightarrow> fd_key option" where
  "bio_slot ord cookie c =
    opt_or
      (find (\<lambda>k. snd k = 0 \<and> Option.bind (open_at c k) oo_cookie = Some cookie) ord)
      (find (\<lambda>k. snd k = 0 \<and> Option.bind (fmlookup (c_ops c) k) co_last_bio_cookie = Some cookie) ord)"

definition close_flush :: "fd_key list \<Rightarrow> u64 \<Rightarrow> u64 \<Rightarrow> corr \<Rightarrow> corr" where
  "close_flush ord cookie ts c =
    (case own_link cookie ts c of
       Some key \<Rightarrow> flush_and_drop_op key c
     | None \<Rightarrow>
        if fmlookup (c_fd_links_rev c) cookie = None
        then (case bio_slot ord cookie c of Some k \<Rightarrow> flush_and_drop_op k c | None \<Rightarrow> c)
        else c)"

definition handshake_ns :: "evt_tcp_close \<Rightarrow> u64 option" where
  "handshake_ns e = then_some (tcl_handshake_us e \<noteq> 0) (ucast (tcl_handshake_us e) * 1000)"

definition close_tls :: "tls_info option \<Rightarrow> u64 option \<Rightarrow> tls" where
  "close_tls info hs =
    (case info of
       Some t \<Rightarrow> \<lparr>tls_seen = True, tls_handshake_ns = hs,
           tls_version = map_option tls_version_str (ti_version t),
           tls_sni = then_some (ti_sni t \<noteq> []) (ti_sni t), tls_cipher = ti_cipher t\<rparr>
     | None \<Rightarrow>
        if hs \<noteq> None
        then \<lparr>tls_seen = True, tls_handshake_ns = hs, tls_version = None, tls_sni = None, tls_cipher = None\<rparr>
        else tls_default)"

definition close_endpoint :: "conn_state option \<Rightarrow> string option \<Rightarrow> endpoint" where
  "close_endpoint state region =
    (case state of
       Some s \<Rightarrow> (let (ip, family) = classify_endpoint (cs_family s) (cs_daddr s) in
         \<lparr>ep_region = region, ep_endpoint_ip = Some (ip_to_string ip), ep_family = Some family,
          ep_dport = Some (cs_dport s), ep_via_vpce = False, ep_cross_region = False\<rparr>)
     | None \<Rightarrow>
         \<lparr>ep_region = region, ep_endpoint_ip = None, ep_family = None, ep_dport = None,
          ep_via_vpce = False, ep_cross_region = False\<rparr>)"

definition close_record ::
    "evt_tcp_close \<Rightarrow> conn_state option \<Rightarrow> endpoint \<Rightarrow> dns option \<Rightarrow> tls \<Rightarrow> connection" where
  "close_record e state endpoint dns tls =
    (let connect_failed = (case state of Some s \<Rightarrow> cs_connect_failed s | None \<Rightarrow> False);
         tcp_connect_ns = (if connect_failed then None
           else opt_filter (\<lambda>n. n \<noteq> 0) (map_option cs_connect_latency_ns state));
         chrono_sum = sat_add (sat_add (tcl_busy_jiffies e) (tcl_rwnd_limited_jiffies e))
                              (tcl_sndbuf_limited_jiffies e)
     in \<lparr>cn_emitted_at = None, cn_ts_ns = map_option cs_ts_ns state,
         cn_sock_cookie = hdr_sock_cookie (tcl_hdr e),
         cn_app = \<lparr>app_pid = (case state of Some s \<Rightarrow> cs_pid s | None \<Rightarrow> 0)\<rparr>,
         cn_endpoint = endpoint, cn_dns = dns, cn_tcp_connect_ns = tcp_connect_ns,
         cn_connect_failed = connect_failed, cn_tls = tls,
         cn_bytes_sent = tcl_bytes_sent e, cn_bytes_recv = tcl_bytes_recv e,
         cn_retransmits = tcl_retransmit_count e, cn_srtt_us = nonzero (tcl_srtt_us e),
         cn_lifetime_ns = nonzero (tcl_lifetime_ns e),
         cn_min_rtt_us = then_some (tcl_min_rtt_us e \<noteq> 0 \<and> tcl_min_rtt_us e \<noteq> - 1) (tcl_min_rtt_us e),
         cn_rttvar_us = nonzero (tcl_rttvar_us e), cn_snd_cwnd = nonzero (tcl_snd_cwnd e),
         cn_mss = nonzero (tcl_mss_cache e), cn_delivery_rate_bps = nonzero (tcl_delivery_rate_bps e),
         cn_busy_jiffies = then_some (chrono_sum \<noteq> 0) (tcl_busy_jiffies e),
         cn_rwnd_limited_jiffies = then_some (chrono_sum \<noteq> 0) (tcl_rwnd_limited_jiffies e),
         cn_sndbuf_limited_jiffies = then_some (chrono_sum \<noteq> 0) (tcl_sndbuf_limited_jiffies e),
         cn_lost = nonzero (tcl_lost e), cn_sacked = nonzero (tcl_sacked_out e),
         cn_reordering = nonzero (tcl_reordering e), cn_ca_state = nonzero (tcl_ca_state e),
         cn_rcv_wnd = nonzero (tcl_rcv_wnd e), cn_window_clamp = nonzero (tcl_window_clamp e),
         cn_bytes_retrans = nonzero (tcl_bytes_retrans e), cn_dsack_dups = nonzero (tcl_dsack_dups e),
         cn_rcv_ooopack = nonzero (tcl_rcv_ooopack e),
         cn_app_limited = then_some (tcl_rate_app_limited e \<noteq> 0) True,
         cn_partial = (state = None)\<rparr>)"

definition on_close :: "fd_key list \<Rightarrow> evt_tcp_close \<Rightarrow> corr \<Rightarrow> corr \<times> connection option" where
  "on_close ord e c0 =
    (let cookie = hdr_sock_cookie (tcl_hdr e); ts = hdr_ts_ns (tcl_hdr e);
         own = own_link cookie ts c0;
         c1 = close_flush ord cookie ts c0;
         state = fmlookup (c_conns c1) cookie;
         c2 = c1\<lparr>c_conns := fmdrop cookie (c_conns c1)\<rparr>;
         c3 = (case own of Some key \<Rightarrow> unlink key cookie c2 | None \<Rightarrow> c2);
         (dns, dns_region) = (case state of
             Some s \<Rightarrow> dns_for_ip c3 (fst (classify_endpoint (cs_family s) (cs_daddr s))) (cs_ts_ns s)
           | None \<Rightarrow> (None, None));
         tls_info = fmlookup (c_tls c3) cookie;
         c4 = c3\<lparr>c_tls := fmdrop cookie (c_tls c3)\<rparr>;
         region = opt_or (Option.bind tls_info (\<lambda>t. aws_region_from_host (ti_sni t))) dns_region
     in (c4, Some (close_record e state (close_endpoint state region) dns
              (close_tls tls_info (handshake_ns e)))))"

section \<open>DNS\<close>

definition on_dns_query :: "evt_dns_query \<Rightarrow> corr \<Rightarrow> corr" where
  "on_dns_query e c =
    (if dq_qname_truncated e \<noteq> 0 then c
     else case qname_str (dq_qname e) (dq_qname_len e) of
         None \<Rightarrow> c
       | Some qname \<Rightarrow>
           let key = (hdr_sock_cookie (dq_hdr e), dq_txn_id e) in
           c\<lparr>c_pending_dns := evict_oldest_over DNS_MAP_CAP key pq_query_ts
              (fmupd key \<lparr>pq_qname = qname, pq_query_ts = hdr_ts_ns (dq_hdr e)\<rparr> (c_pending_dns c))\<rparr>)"

definition record_answers ::
    "pending_query \<Rightarrow> u64 \<Rightarrow> answer list \<Rightarrow> (ip_addr, resolution) fmap \<Rightarrow> (ip_addr, resolution) fmap" where
  "record_answers q ts answers m =
    (let n = (of_nat (min (length answers) 255) :: u8) in
     fold (\<lambda>(ip, ttl). fmupd ip
        \<lparr>rn_hostname = pq_qname q, rn_wire_latency_ns = sat_sub ts (pq_query_ts q), rn_ttl_s = ttl,
         rn_n_answers = n, rn_query_ts = pq_query_ts q, rn_resolved_ts = ts\<rparr>) answers m)"

definition evict_resolutions ::
    "answer list \<Rightarrow> (ip_addr, resolution) fmap \<Rightarrow> (ip_addr, resolution) fmap" where
  "evict_resolutions answers m =
    (if DNS_MAP_CAP < fmlen m
     then fmdrop_keys (oldest_keys m (evict_target (fmlen m) DNS_MAP_CAP) rn_resolved_ts
            (\<lambda>ip. ip \<in> set (map fst answers))) m
     else m)"

definition on_dns_response :: "evt_dns_response \<Rightarrow> corr \<Rightarrow> corr" where
  "on_dns_response e c =
    (let payload = take (min (unat (dr_payload_len e)) (length (dr_payload e))) (dr_payload e) in
     case parse_dns_response payload of
       None \<Rightarrow> c
     | Some (txn_id, resp_qname, answers) \<Rightarrow>
         let key = (hdr_sock_cookie (dr_hdr e), txn_id) in
         case resp_qname of
           None \<Rightarrow> c
         | Some rq \<Rightarrow>
             if (case fmlookup (c_pending_dns c) key of Some q \<Rightarrow> pq_qname q \<noteq> rq | None \<Rightarrow> False) then c
             else case fmlookup (c_pending_dns c) key of
                 None \<Rightarrow> c
               | Some q \<Rightarrow>
                   c\<lparr>c_pending_dns := fmdrop key (c_pending_dns c),
                     c_resolutions := evict_resolutions answers
                       (record_answers q (hdr_ts_ns (dr_hdr e)) answers (c_resolutions c))\<rparr>)"

definition saw_wire :: "corr \<Rightarrow> string \<Rightarrow> u64 \<Rightarrow> u64 \<Rightarrow> bool" where
  "saw_wire c host window_start exit \<longleftrightarrow>
     list_ex (\<lambda>(ip, r). rn_hostname r = host \<and> rn_query_ts r \<le> exit \<and> window_start \<le> rn_resolved_ts r)
       (sorted_list_of_fmap (c_resolutions c))
   \<or> list_ex (\<lambda>(k, q). pq_qname q = host \<and> window_start \<le> pq_query_ts q \<and> pq_query_ts q \<le> exit)
       (sorted_list_of_fmap (c_pending_dns c))"

definition on_getaddrinfo :: "evt_getaddrinfo \<Rightarrow> corr \<Rightarrow> corr" where
  "on_getaddrinfo e c =
    (if ga_ret e \<noteq> 0 then c
     else if ga_hostname_truncated e \<noteq> 0 then c
     else case qname_str (ga_hostname e) (ga_hostname_len e) of
         None \<Rightarrow> c
       | Some host \<Rightarrow>
           let ts = hdr_ts_ns (ga_hdr e); window_start = sat_sub ts (ga_latency_ns e) in
           c\<lparr>c_gai := evict_oldest_over DNS_MAP_CAP host gi_ts
              (fmupd host \<lparr>gi_latency_ns = ga_latency_ns e, gi_cache_hit = (\<not> saw_wire c host window_start ts),
                           gi_ts = ts\<rparr> (c_gai c))\<rparr>)"

section \<open>TLS facts\<close>

definition tls_entry :: "corr \<Rightarrow> event_hdr \<Rightarrow> tls_info" where
  "tls_entry c h = (case fmlookup (c_tls c) (hdr_sock_cookie h) of
     Some t \<Rightarrow> t
   | None \<Rightarrow> \<lparr>ti_sni = [], ti_ts = hdr_ts_ns h, ti_version = None, ti_cipher = None\<rparr>)"

definition on_tls_handshake :: "evt_tls_handshake \<Rightarrow> corr \<Rightarrow> corr" where
  "on_tls_handshake e c =
    (if th_sni_truncated e \<noteq> 0 then c
     else case qname_str (th_sni e) (th_sni_len e) of
         None \<Rightarrow> c
       | Some sni \<Rightarrow>
           let cookie = hdr_sock_cookie (th_hdr e);
               entry = (tls_entry c (th_hdr e))\<lparr>ti_sni := sni, ti_ts := hdr_ts_ns (th_hdr e)\<rparr>
           in c\<lparr>c_tls := evict_oldest_over (c_max_open c) cookie ti_ts (fmupd cookie entry (c_tls c))\<rparr>)"

definition on_tls_server :: "evt_tls_server \<Rightarrow> corr \<Rightarrow> corr" where
  "on_tls_server e c =
    (let cookie = hdr_sock_cookie (tse_hdr e);
         e0 = tls_entry c (tse_hdr e);
         e1 = (if tse_version e \<noteq> 0 then e0\<lparr>ti_version := Some (tse_version e)\<rparr> else e0);
         e2 = (if tse_cipher e \<noteq> 0 then e1\<lparr>ti_cipher := Some (tse_cipher e)\<rparr> else e1)
     in c\<lparr>c_tls := evict_oldest_over (c_max_open c) cookie ti_ts (fmupd cookie e2 (c_tls c))\<rparr>)"

section \<open>The descriptor links\<close>

definition evict_link :: "fd_key \<Rightarrow> corr \<Rightarrow> corr" where
  "evict_link k c =
    (let c1 = flush_and_drop_op k c in
     case fmlookup (c_fd_links c1) k of
       None \<Rightarrow> c1
     | Some v \<Rightarrow>
         let c2 = c1\<lparr>c_fd_links := fmdrop k (c_fd_links c1)\<rparr> in
         if fmlookup (c_fd_links_rev c2) (fl_cookie v) = Some k
         then c2\<lparr>c_fd_links_rev := fmdrop (fl_cookie v) (c_fd_links_rev c2)\<rparr>
         else c2)"

text \<open>Both inserts of the link and what they displace: another cookie of this descriptor, then another
  descriptor of this cookie.\<close>

definition bind_link :: "fd_key \<Rightarrow> u64 \<Rightarrow> u64 \<Rightarrow> corr \<Rightarrow> corr" where
  "bind_link key cookie ts c1 =
    (let old = fmlookup (c_fd_links c1) key;
         c2 = c1\<lparr>c_fd_links := fmupd key \<lparr>fl_cookie = cookie, fl_ts = ts\<rparr> (c_fd_links c1)\<rparr>;
         c3 = (case old of
             Some l \<Rightarrow> if fl_cookie l \<noteq> cookie
               then c2\<lparr>c_fd_links_rev := fmdrop (fl_cookie l) (c_fd_links_rev c2)\<rparr> else c2
           | None \<Rightarrow> c2);
         old_key = fmlookup (c_fd_links_rev c3) cookie;
         c4 = c3\<lparr>c_fd_links_rev := fmupd cookie key (c_fd_links_rev c3)\<rparr>
     in case old_key of
          Some k \<Rightarrow> if k \<noteq> key
            then (let c' = flush_and_drop_op k c4 in c'\<lparr>c_fd_links := fmdrop k (c_fd_links c')\<rparr>) else c4
        | None \<Rightarrow> c4)"

definition evict_links :: "fd_key \<Rightarrow> corr \<Rightarrow> corr" where
  "evict_links key c =
    (if c_max_open c < fmlen (c_fd_links c)
     then fold evict_link (oldest_keys (c_fd_links c)
            (evict_target (fmlen (c_fd_links c)) (c_max_open c)) fl_ts (\<lambda>k. k = key)) c
     else c)"

definition on_conn_id :: "evt_conn_id \<Rightarrow> corr \<Rightarrow> corr" where
  "on_conn_id e c0 =
    (let key = (hdr_tgid (ci_hdr e), ci_fd e);
         c1 = (if fmlookup (c_ops c0) key \<noteq> None then flush_and_drop_op key c0 else c0)
     in evict_links key (bind_link key (hdr_sock_cookie (ci_hdr e)) (hdr_ts_ns (ci_hdr e)) c1))"

section \<open>Samples\<close>

definition on_tcp_sample :: "evt_tcp_sample \<Rightarrow> corr \<Rightarrow> tcp_sample option" where
  "on_tcp_sample e c = Some
    \<lparr>sm_emitted_at = None, sm_ts_ns = nonzero (hdr_ts_ns (tsa_hdr e)),
     sm_sock_cookie = hdr_sock_cookie (tsa_hdr e), sm_bytes_sent = tsa_bytes_sent e,
     sm_bytes_recv = tsa_bytes_recv e, sm_bytes_in_flight = tsa_bytes_in_flight e,
     sm_snd_cwnd = tsa_snd_cwnd e, sm_rcv_wnd = tsa_rcv_wnd e, sm_snd_wnd = tsa_snd_wnd e,
     sm_total_retrans = tsa_total_retrans e, sm_rcv_ooopack = tsa_rcv_ooopack e, sm_lost = tsa_lost e,
     sm_sacked_out = tsa_sacked_out e, sm_ca_state = tsa_ca_state e,
     sm_rate_app_limited = (and (tsa_flags e) 1 \<noteq> 0), sm_srtt_us = nonzero (tsa_srtt_us e),
     sm_min_rtt_us = then_some (tsa_min_rtt_us e \<noteq> 0 \<and> tsa_min_rtt_us e \<noteq> - 1) (tsa_min_rtt_us e),
     sm_delivery_rate_bps = nonzero (tsa_delivery_rate_bps e)\<rparr>"

end
