(* ===== verification/CorrOps.thy ===== *)
theory CorrOps
  imports CorrState
begin

text \<open>
  The plaintext side of the correlator (\<open>crates/s3tap-core/src/correlate.rs\<close>): \<open>on_tls_write\<close> opens
  an operation, \<open>on_tls_read\<close> and \<open>on_tls_read_body\<close> close it. Each returns the new state and the
  operation it finished, if any.
\<close>

section \<open>Requests\<close>

definition bio_cookie :: "evt_tls_data \<Rightarrow> u64 option" where
  "bio_cookie e = then_some (td_fd e = 0 \<and> hdr_sock_cookie (td_hdr e) \<noteq> 0) (hdr_sock_cookie (td_hdr e))"

definition slot :: "corr \<Rightarrow> fd_key \<Rightarrow> conn_ops" where
  "slot c key = (case fmlookup (c_ops c) key of Some s \<Rightarrow> s | None \<Rightarrow> conn_ops_default)"

definition bio_conn_changed :: "evt_tls_data \<Rightarrow> fd_key \<Rightarrow> corr \<Rightarrow> bool" where
  "bio_conn_changed e key c \<longleftrightarrow> bio_cookie e \<noteq> None
     \<and> (case Option.bind (fmlookup (c_ops c) key) co_last_bio_cookie of
          Some prev \<Rightarrow> Some prev \<noteq> bio_cookie e | None \<Rightarrow> False)"

text \<open>What the request line and headers say: the S3 operation, the bucket and the key hash.\<close>

definition resolve_request ::
    "corr \<Rightarrow> evt_tls_data \<Rightarrow> request_head \<Rightarrow> string option \<times> string option \<times> string option" where
  "resolve_request c e req =
    (let sni = map_option ti_sni (Option.bind
           (opt_or (bio_cookie e) (cookie_for_fd c (hdr_tgid (td_hdr e)) (td_fd e)))
           (fmlookup (c_tls c)));
         host = opt_or (rq_host req) sni;
         r = resolve_with (rq_method req) (rq_path req) (rq_query req) host (c_s3_endpoints c)
     in (then_some (rs_is_s3 r) (as_str (rs_op r)), rs_bucket r,
         map_option (\<lambda>k. key_hash_salted (c_key_salt c) k) (rs_key r)))"

text \<open>
  The slot's bookkeeping for a new request: activity, the sequence number it takes, the
  connection it belongs to. \<open>next_seq\<close> is a \<open>u32\<close> and wraps in the release build.
\<close>

definition take_seq :: "evt_tls_data \<Rightarrow> bool \<Rightarrow> conn_ops \<Rightarrow> conn_ops \<times> u32" where
  "take_seq e changed s0 =
    (let s1 = s0\<lparr>co_last_ts := hdr_ts_ns (td_hdr e)\<rparr>;
         s2 = (if changed then s1\<lparr>co_next_seq := 0\<rparr> else s1);
         s3 = (case bio_cookie e of Some bc \<Rightarrow> s2\<lparr>co_last_bio_cookie := Some bc\<rparr> | None \<Rightarrow> s2);
         s = co_next_seq s3
     in (s3\<lparr>co_next_seq := s + 1\<rparr>, s))"

text \<open>The interrupted prior operation, as it is emitted.\<close>

definition flush_prev :: "corr \<Rightarrow> fd_key \<Rightarrow> bool \<Rightarrow> open_op \<Rightarrow> operation" where
  "flush_prev c key changed p =
    (case resp_facts_on_flush p of
       Some facts \<Rightarrow> build_op c key p facts
     | None \<Rightarrow> build_op c key (if changed then p else p\<lparr>oo_ambiguous := True\<rparr>) resp_facts_default)"

definition evict_ops :: "fd_key \<Rightarrow> corr \<Rightarrow> corr" where
  "evict_ops key c =
    (if c_max_open c < fmlen (c_ops c)
     then fold flush_and_drop_op (oldest_keys (c_ops c)
            (evict_target (fmlen (c_ops c)) (c_max_open c)) co_last_ts (\<lambda>k. k = key)) c
     else c)"

definition on_tls_write :: "evt_tls_data \<Rightarrow> corr \<Rightarrow> corr \<times> operation option" where
  "on_tls_write e c0 =
    (case parse_request (captured e) of
       None \<Rightarrow> (if captured e \<noteq> [] then c0\<lparr>c_parse_failures := c_parse_failures c0 + 1\<rparr> else c0, None)
     | Some req \<Rightarrow>
         let key = (hdr_tgid (td_hdr e), td_fd e);
             (s3_op, bucket, key_hash) = resolve_request c0 e req;
             changed = bio_conn_changed e key c0;
             prev = open_at c0 key;
             prev_unanswered = ((case prev of Some p \<Rightarrow> oo_resp p = None | None \<Rightarrow> False) \<and> \<not> changed);
             (c1, op_id) = next_op_id c0;
             (s1, seq) = take_seq e changed ((slot c1 key)\<lparr>co_open := None\<rparr>);
             c2 = c1\<lparr>c_ops := fmupd key s1 (c_ops c1)\<rparr>;
             new = \<lparr>oo_op_id = op_id, oo_ts_ns = hdr_ts_ns (td_hdr e), oo_req_seq = seq,
                    oo_verb = rq_method req, oo_s3_op = s3_op, oo_bucket = bucket,
                    oo_key_hash = key_hash, oo_op_bytes_sent = ucast (td_plaintext_len e),
                    oo_interim_ts = None,
                    oo_head_truncated = (td_captured_truncated e \<noteq> 0 \<and> header_end (captured e) = None),
                    oo_ambiguous = prev_unanswered, oo_resp = None, oo_cookie = bio_cookie e\<rparr>;
             flushed = map_option (flush_prev c2 key changed) prev;
             c3 = c2\<lparr>c_ops := fmupd key ((slot c2 key)\<lparr>co_open := Some new\<rparr>) (c_ops c2)\<rparr>
         in (evict_ops key c3, flushed))"

section \<open>Responses\<close>

text \<open>The guard of the shared descriptor-0 slot: another connection's bytes.\<close>

definition foreign_bio :: "corr \<Rightarrow> fd_key \<Rightarrow> u64 \<Rightarrow> bool" where
  "foreign_bio c key cookie \<longleftrightarrow> snd key = 0 \<and> cookie \<noteq> 0
     \<and> (case Option.bind (open_at c key) oo_cookie of
          Some open_cookie \<Rightarrow> open_cookie \<noteq> cookie | None \<Rightarrow> False)"

definition set_slot :: "fd_key \<Rightarrow> conn_ops \<Rightarrow> corr \<Rightarrow> corr" where
  "set_slot key s c = c\<lparr>c_ops := fmupd key s (c_ops c)\<rparr>"

text \<open>Take the open operation of a slot (if any), marking the slot active first.\<close>

definition touch_take :: "fd_key \<Rightarrow> u64 \<Rightarrow> corr \<Rightarrow> corr \<times> open_op option" where
  "touch_take key ts c =
    (case fmlookup (c_ops c) key of
       None \<Rightarrow> (c, None)
     | Some s \<Rightarrow> (set_slot key (s\<lparr>co_last_ts := ts, co_open := None\<rparr>) c, co_open s))"

definition tally_body :: "fd_key \<Rightarrow> u64 \<Rightarrow> u32 \<Rightarrow> corr \<Rightarrow> corr \<times> operation option" where
  "tally_body key ts len c =
    (case fmlookup (c_ops c) key of
       None \<Rightarrow> (c, None)
     | Some s0 \<Rightarrow>
         let s = s0\<lparr>co_last_ts := ts\<rparr> in
         case co_open s of
           None \<Rightarrow> (set_slot key s c, None)
         | Some op \<Rightarrow>
             (case oo_resp op of
                None \<Rightarrow> (set_slot key s c, None)
              | Some rs0 \<Rightarrow>
                  let rs = rs0\<lparr>rp_body_seen := sat_add (rp_body_seen rs0) (ucast len)\<rparr>;
                      op' = op\<lparr>oo_resp := Some rs\<rparr> in
                  if rp_body_seen rs < rp_body_target rs
                  then (set_slot key (s\<lparr>co_open := Some op'\<rparr>) c, None)
                  else let c' = set_slot key (s\<lparr>co_open := None\<rparr>) c in
                    (c', Some (build_op c' key op'
                       \<lparr>rf_status = Some (rp_status rs), rf_aws_request_id = rp_aws_request_id rs,
                        rf_op_bytes_recv = rp_op_bytes_recv rs, rf_truncated = rp_resp_truncated rs,
                        rf_ts_ns = Some (rp_head_ts rs), rf_body_complete_ts = Some ts,
                        rf_content_length = Some (rp_body_target rs)\<rparr>))))"

definition awaiting_body :: "corr \<Rightarrow> fd_key \<Rightarrow> bool" where
  "awaiting_body c key \<longleftrightarrow> (case Option.bind (open_at c key) oo_resp of
     Some rs \<Rightarrow> rp_body_seen rs < rp_body_target rs | None \<Rightarrow> False)"

definition on_interim :: "fd_key \<Rightarrow> u64 \<Rightarrow> corr \<Rightarrow> corr" where
  "on_interim key ts c =
    (case fmlookup (c_ops c) key of
       None \<Rightarrow> c
     | Some s \<Rightarrow> set_slot key (s\<lparr>co_last_ts := ts,
         co_open := map_option (\<lambda>op. op\<lparr>oo_interim_ts := opt_or (oo_interim_ts op) (Some ts)\<rparr>) (co_open s)\<rparr>) c)"

definition finish_op :: "fd_key \<Rightarrow> u64 \<Rightarrow> resp_facts \<Rightarrow> corr \<Rightarrow> corr \<times> operation option" where
  "finish_op key ts facts c =
    (case touch_take key ts c of
       (c', None) \<Rightarrow> (c', None)
     | (c', Some op) \<Rightarrow> (c', Some (build_op c' key op facts)))"

definition on_final :: "evt_tls_data \<Rightarrow> fd_key \<Rightarrow> u16 \<Rightarrow> corr \<Rightarrow> corr \<times> operation option" where
  "on_final e key status c =
    (let b = captured e; ts = hdr_ts_ns (td_hdr e);
         aws_request_id = header_value b ''x-amz-request-id'';
         clen = content_length b; hend = header_end b;
         truncated = (td_captured_truncated e \<noteq> 0 \<and> hend = None);
         verb_is_head = (case open_at c key of
             Some op \<Rightarrow> eq_ignore_ascii_case (oo_verb op) ''HEAD'' | None \<Rightarrow> False);
         expects_body = ((case clen of Some n \<Rightarrow> 0 < n | None \<Rightarrow> False) \<and> \<not> verb_is_head
             \<and> \<not> (status = 204 \<or> status = 304) \<and> hend \<noteq> None);
         facts = (\<lambda>done_ts. \<lparr>rf_status = Some status, rf_aws_request_id = aws_request_id,
             rf_op_bytes_recv = ucast (td_plaintext_len e), rf_truncated = truncated,
             rf_ts_ns = Some ts, rf_body_complete_ts = done_ts, rf_content_length = clen\<rparr>)
     in if expects_body then
          (let body_target = the clen;
               body_in_head = sat_sub (ucast (td_plaintext_len e)) (of_nat (the hend))
           in if body_in_head < body_target then
                (case fmlookup (c_ops c) key of
                   None \<Rightarrow> c
                 | Some s \<Rightarrow> set_slot key (s\<lparr>co_last_ts := ts,
                     co_open := map_option (\<lambda>op. op\<lparr>oo_resp := Some
                       \<lparr>rp_head_ts = ts, rp_status = status, rp_aws_request_id = aws_request_id,
                        rp_op_bytes_recv = ucast (td_plaintext_len e), rp_resp_truncated = truncated,
                        rp_body_target = body_target, rp_body_seen = body_in_head\<rparr>\<rparr>) (co_open s)\<rparr>) c, None)
              else finish_op key ts (facts (Some ts)) c)
        else finish_op key ts (facts None) c)"

definition on_tls_read :: "evt_tls_data \<Rightarrow> corr \<Rightarrow> corr \<times> operation option" where
  "on_tls_read e c =
    (let key = (hdr_tgid (td_hdr e), td_fd e) in
     if foreign_bio c key (hdr_sock_cookie (td_hdr e)) then (c, None)
     else if awaiting_body c key then tally_body key (hdr_ts_ns (td_hdr e)) (td_plaintext_len e) c
     else case parse_status (captured e) of
         None \<Rightarrow> (c, None)
       | Some status \<Rightarrow>
           if 100 \<le> status \<and> status \<le> 199 then (on_interim key (hdr_ts_ns (td_hdr e)) c, None)
           else on_final e key status c)"

definition on_tls_read_body :: "evt_tls_body \<Rightarrow> corr \<Rightarrow> corr \<times> operation option" where
  "on_tls_read_body e c =
    (let key = (hdr_tgid (tb_hdr e), tb_fd e) in
     if foreign_bio c key (hdr_sock_cookie (tb_hdr e)) then (c, None)
     else tally_body key (hdr_ts_ns (tb_hdr e)) (tb_plaintext_len e) c)"

end
