(* ===== verification/Machine.thy ===== *)
theory Machine
  imports Prelude "HOL-Library.Multiset"
begin

text \<open>
  The contract of a component that consumes a stream of events: a step function from a state and an
  event to a new state and the outputs it emits. \<open>machine\<close> states an invariant of the states and a
  property of the outputs; \<open>ledger\<close> adds that every token a step issues is either still owed by the
  state or has been paid by an output. The lemmas lift the step's laws to whole runs.
\<close>

fun run :: "('e \<Rightarrow> 's \<Rightarrow> 's \<times> 'o list) \<Rightarrow> 'e list \<Rightarrow> 's \<Rightarrow> 's \<times> 'o list" where
  "run step [] s = (s, [])"
| "run step (e # es) s =
    (let (s', out) = step e s; (s'', out') = run step es s' in (s'', out @ out'))"

lemma run_simps [simp]:
  "fst (run step (e # es) s) = fst (run step es (fst (step e s)))"
  "snd (run step (e # es) s) = snd (step e s) @ snd (run step es (fst (step e s)))"
  by (simp_all add: split_beta Let_def)

declare run.simps(2) [simp del]

lemma run_append:
  "fst (run step (xs @ ys) s) = fst (run step ys (fst (run step xs s)))"
  "snd (run step (xs @ ys) s) = snd (run step xs s) @ snd (run step ys (fst (run step xs s)))"
  by (induction xs arbitrary: s) simp_all

locale machine =
  fixes step :: "'e \<Rightarrow> 's \<Rightarrow> 's \<times> 'o list"
    and inv :: "'s \<Rightarrow> bool"
    and good :: "'o \<Rightarrow> bool"
  assumes step_inv: "inv s \<Longrightarrow> inv (fst (step e s))"
    and step_good: "inv s \<Longrightarrow> y \<in> set (snd (step e s)) \<Longrightarrow> good y"
begin

lemma run_inv: "inv s \<Longrightarrow> inv (fst (run step es s))"
  by (induction es arbitrary: s) (auto intro: step_inv)

lemma run_good: "inv s \<Longrightarrow> y \<in> set (snd (run step es s)) \<Longrightarrow> good y"
  by (induction es arbitrary: s) (auto intro: step_inv dest: step_good)

end

locale ledger = machine step inv good
  for step :: "'e \<Rightarrow> 's \<Rightarrow> 's \<times> 'o list" and inv :: "'s \<Rightarrow> bool" and good :: "'o \<Rightarrow> bool" +
  fixes owed :: "'s \<Rightarrow> 'a multiset"
    and paid :: "'o \<Rightarrow> 'a multiset"
    and issued :: "'e \<Rightarrow> 's \<Rightarrow> 'a multiset"
  assumes step_ledger: "inv s \<Longrightarrow>
      (\<Sum>y\<leftarrow>snd (step e s). paid y) + owed (fst (step e s)) = owed s + issued e s"
begin

fun issued_by :: "'e list \<Rightarrow> 's \<Rightarrow> 'a multiset" where
  "issued_by [] s = {#}"
| "issued_by (e # es) s = issued e s + issued_by es (fst (step e s))"

lemma run_ledger: "inv s \<Longrightarrow>
    (\<Sum>y\<leftarrow>snd (run step es s). paid y) + owed (fst (run step es s)) = owed s + issued_by es s"
proof (induction es arbitrary: s)
  case Nil
  then show ?case by simp
next
  case (Cons e es)
  note IH = Cons.IH [OF step_inv [OF Cons.prems, of e]] and st = step_ledger [OF Cons.prems, of e]
  have "(\<Sum>y\<leftarrow>snd (run step (e # es) s). paid y) + owed (fst (run step (e # es) s))
      = (\<Sum>y\<leftarrow>snd (step e s). paid y) + (owed (fst (step e s)) + issued_by es (fst (step e s)))"
    using IH by (simp add: add.assoc)
  also have "\<dots> = owed s + issued e s + issued_by es (fst (step e s))"
    using st by (simp add: add.assoc [symmetric])
  finally show ?case by (simp add: add.assoc)
qed

end

end
