(* ===== verification/Fold.thy ===== *)
theory Fold
  imports CorrConn CorrOps Machine
begin

text \<open>
  The driver of \<open>crates/s3tap-cli/src/main.rs\<close>: \<open>fold\<close> decodes one ring-buffer record and feeds it to
  the correlator, the drain loops emit what it returns and what it flushed, and \<open>emit\<close> stamps and
  obscures a record on its way out. The exec filter is a BPF map: its state and its handler are
  arguments. \<open>ord\<close> gives the iteration order of the hash map \<open>ops\<close>.
\<close>

datatype out_record = RecConnection connection | RecOperation operation | RecTcpSample tcp_sample

definition handle :: "fd_key list \<Rightarrow> event \<Rightarrow> corr \<Rightarrow> corr \<times> out_record option" where
  "handle ord ev c =
    (case ev of
       TcpConnect e \<Rightarrow> map_prod id (map_option RecConnection) (on_connect e c)
     | TcpClose e \<Rightarrow> map_prod id (map_option RecConnection) (on_close ord e c)
     | TcpSample e \<Rightarrow> (c, map_option RecTcpSample (on_tcp_sample e c))
     | DnsQuery e \<Rightarrow> (on_dns_query e c, None)
     | DnsResponse e \<Rightarrow> (on_dns_response e c, None)
     | Getaddrinfo e \<Rightarrow> (on_getaddrinfo e c, None)
     | TlsHandshake e \<Rightarrow> (on_tls_handshake e c, None)
     | TlsServer e \<Rightarrow> (on_tls_server e c, None)
     | TlsWrite e \<Rightarrow> map_prod id (map_option RecOperation) (on_tls_write e c)
     | TlsRead e \<Rightarrow> map_prod id (map_option RecOperation) (on_tls_read e c)
     | TlsReadBody e \<Rightarrow> map_prod id (map_option RecOperation) (on_tls_read_body e c)
     | ConnId e \<Rightarrow> (on_conn_id e c, None)
     | ProcExec e \<Rightarrow> (c, None))"

record 'f agent =
  ag_corr :: corr
  ag_undecoded :: u64
  ag_filter :: "'f option"

definition fold_bytes ::
    "(evt_proc_exec \<Rightarrow> 'f \<Rightarrow> 'f) \<Rightarrow> fd_key list \<Rightarrow> u8 list \<Rightarrow> 'f agent \<Rightarrow> 'f agent \<times> out_record option" where
  "fold_bytes on_exec ord bytes a =
    (case parse_event bytes of
       None \<Rightarrow> (a\<lparr>ag_undecoded := ag_undecoded a + 1\<rparr>, None)
     | Some ev \<Rightarrow>
         let (c, r) = handle ord ev (ag_corr a);
             f = (case ev of ProcExec e \<Rightarrow> map_option (on_exec e) (ag_filter a) | _ \<Rightarrow> ag_filter a)
         in (a\<lparr>ag_corr := c, ag_filter := f\<rparr>, r))"

text \<open>One turn of a drain loop: the folded record, then the operations it flushed.\<close>

definition opt_list :: "'a option \<Rightarrow> 'a list" where
  "opt_list x = (case x of None \<Rightarrow> [] | Some y \<Rightarrow> [y])"

type_synonym ops_order = "(fd_key, conn_ops) fmap \<Rightarrow> fd_key list"

definition drain_item ::
    "(evt_proc_exec \<Rightarrow> 'f \<Rightarrow> 'f) \<Rightarrow> ops_order \<Rightarrow> u8 list \<Rightarrow> 'f agent \<Rightarrow> 'f agent \<times> out_record list" where
  "drain_item on_exec ord bytes a =
    (let (a1, r) = fold_bytes on_exec (ord (c_ops (ag_corr a))) bytes a;
         (c2, flushed) = take_flushed_ops (ag_corr a1)
     in (a1\<lparr>ag_corr := c2\<rparr>, opt_list r @ map RecOperation flushed))"

definition shutdown_flush :: "ops_order \<Rightarrow> corr \<Rightarrow> corr \<times> out_record list" where
  "shutdown_flush ord c =
    (let (c', flushed) = take_flushed_ops (flush_open_ops (ord (c_ops c)) c) in (c', map RecOperation flushed))"

text \<open>A capture: every ring item in the order the rings were drained, then the shutdown flush.\<close>

definition capture ::
    "(evt_proc_exec \<Rightarrow> 'f \<Rightarrow> 'f) \<Rightarrow> ops_order \<Rightarrow> u8 list list \<Rightarrow> 'f agent \<Rightarrow> out_record list" where
  "capture on_exec ord items a =
    (let (a', out) = run (drain_item on_exec ord) items a in out @ snd (shutdown_flush ord (ag_corr a')))"

section \<open>The output boundary\<close>

text \<open>\<open>RandomState\<close> is the standard library's keyed hash: the argument \<open>hash\<close> is one run's instance.\<close>

definition obscure :: "(u64 \<Rightarrow> u64) \<Rightarrow> u64 \<Rightarrow> u64" where
  "obscure hash raw = (if raw = 0 then 0 else hash raw)"

fun emit_jsonl :: "(u64 \<Rightarrow> u64) \<Rightarrow> string \<Rightarrow> out_record \<Rightarrow> json" where
  "emit_jsonl hash now (RecConnection r) =
     json_of_connection (r\<lparr>cn_emitted_at := Some now, cn_sock_cookie := obscure hash (cn_sock_cookie r)\<rparr>)"
| "emit_jsonl hash now (RecOperation r) =
     json_of_operation (r\<lparr>o_emitted_at := Some now, o_sock_cookie := obscure hash (o_sock_cookie r)\<rparr>)"
| "emit_jsonl hash now (RecTcpSample r) =
     json_of_tcp_sample (r\<lparr>sm_emitted_at := Some now, sm_sock_cookie := obscure hash (sm_sock_cookie r)\<rparr>)"

end
