(* ===== verification/CorrSlot.thy ===== *)
theory CorrSlot
  imports CorrOps
begin

text \<open>
  The life of an operation in its slot. \<open>slot_read\<close> is the step relation of the read handlers on the
  slot's open operation; \<open>reads\<close> says the handlers of \<open>CorrOps\<close> take such a step in the slot the
  event names and touch nothing else. \<open>new_op\<close> and \<open>write_slot\<close> put \<open>on_tls_write\<close> in the same form.
  \<open>phase_step\<close> is the abstract life cycle: idle, requested, streaming a body.
\<close>

section \<open>Frames\<close>

text \<open>\<open>build_op\<close> reads the connection facts only.\<close>

lemma build_op_cong:
  assumes "c_conns c = c_conns d" "c_tls c = c_tls d" "c_fd_links c = c_fd_links d"
    "c_resolutions c = c_resolutions d" "c_gai c = c_gai d"
  shows "build_op c k op f = build_op d k op f"
proof -
  have "dns_for_ip c ip t = dns_for_ip d ip t" for ip t
    unfolding dns_for_ip_def assms(4,5) by (rule refl)
  moreover have "cookie_for_fd c a b = cookie_for_fd d a b" for a b
    unfolding cookie_for_fd_def assms(3) by (rule refl)
  ultimately show ?thesis unfolding build_op_def assms(1,2) by presburger
qed

lemma build_op_set_slot [simp]: "build_op (set_slot k s c) k' op f = build_op c k' op f"
  by (rule build_op_cong) (simp_all add: set_slot_def)

lemma build_op_ops [simp]:
  "build_op (c\<lparr>c_ops := m\<rparr>) k op f = build_op c k op f"
  "build_op (c\<lparr>c_ops := m, c_op_counter := n\<rparr>) k op f = build_op c k op f"
  "build_op (c\<lparr>c_op_counter := n\<rparr>) k op f = build_op c k op f"
  "build_op (c\<lparr>c_flushed_ops := fl\<rparr>) k op f = build_op c k op f"
  by (rule build_op_cong; simp)+

section \<open>Reads\<close>

text \<open>What every response's facts satisfy: a body end needs a head and a length, and no status means no
  head at all.\<close>

definition facts_ok :: "resp_facts \<Rightarrow> bool" where
  "facts_ok f \<longleftrightarrow> (rf_body_complete_ts f \<noteq> None \<longrightarrow> rf_content_length f \<noteq> None \<and> rf_ts_ns f \<noteq> None)
     \<and> (rf_status f = None \<longleftrightarrow> rf_ts_ns f = None)
     \<and> (rf_status f = None \<longrightarrow> rf_content_length f = None \<and> rf_op_bytes_recv f = 0 \<and> rf_aws_request_id f = None)"

lemma facts_ok_default [simp]: "facts_ok resp_facts_default"
  by (simp add: facts_ok_def resp_facts_default_def)

lemma facts_ok_on_flush: "resp_facts_on_flush op = Some f \<Longrightarrow> facts_ok f \<and> rf_status f \<noteq> None \<and> rf_body_complete_ts f = None"
  by (auto simp: facts_ok_def resp_facts_on_flush_def)

inductive slot_read ::
    "open_op option \<Rightarrow> open_op option \<Rightarrow> (open_op \<times> resp_facts) option \<Rightarrow> bool" where
  idle: "slot_read x x None"
| interim: "slot_read (Some op) (Some (op\<lparr>oo_interim_ts := opt_or (oo_interim_ts op) (Some t)\<rparr>)) None"
| deferred: "rp_body_seen rs < rp_body_target rs \<Longrightarrow> \<not> (case oo_resp op of
      Some rs0 \<Rightarrow> rp_body_seen rs0 < rp_body_target rs0 | None \<Rightarrow> False) \<Longrightarrow>
    slot_read (Some op) (Some (op\<lparr>oo_resp := Some rs\<rparr>)) None"
| body: "oo_resp op = Some rs \<Longrightarrow> n = sat_add (rp_body_seen rs) d \<Longrightarrow> n < rp_body_target rs \<Longrightarrow>
    slot_read (Some op) (Some (op\<lparr>oo_resp := Some (rs\<lparr>rp_body_seen := n\<rparr>)\<rparr>)) None"
| body_done: "oo_resp op = Some rs \<Longrightarrow> n = sat_add (rp_body_seen rs) d \<Longrightarrow> \<not> n < rp_body_target rs \<Longrightarrow>
    facts_ok f \<Longrightarrow> rf_body_complete_ts f \<noteq> None \<Longrightarrow> rf_content_length f = Some (rp_body_target rs) \<Longrightarrow>
    rf_ts_ns f = Some (rp_head_ts rs) \<Longrightarrow>
    slot_read (Some op) None (Some (op\<lparr>oo_resp := Some (rs\<lparr>rp_body_seen := n\<rparr>)\<rparr>, f))"
| finish: "\<not> (case oo_resp op of Some rs0 \<Rightarrow> rp_body_seen rs0 < rp_body_target rs0 | None \<Rightarrow> False) \<Longrightarrow>
    facts_ok f \<Longrightarrow> rf_status f \<noteq> None \<Longrightarrow> slot_read (Some op) None (Some (op, f))"

inductive_cases slot_readE: "slot_read x y r"
inductive_simps slot_read_idle_iff: "slot_read None y r"

text \<open>One read event as seen from the state: a step in one slot, its result built from that step.\<close>

definition reads :: "fd_key \<Rightarrow> corr \<Rightarrow> corr \<times> operation option \<Rightarrow> bool" where
  "reads key c r \<longleftrightarrow> r = (c, None)
     \<or> (\<exists>s s' y. fmlookup (c_ops c) key = Some s \<and> fst r = set_slot key s' c
          \<and> co_next_seq s' = co_next_seq s \<and> co_last_bio_cookie s' = co_last_bio_cookie s
          \<and> slot_read (co_open s) (co_open s') y
          \<and> snd r = map_option (\<lambda>(op, f). build_op c key op f) y)"

lemma reads_skip [intro!, simp]: "reads key c (c, None)"
  by (simp add: reads_def)

lemma readsI:
  assumes "fmlookup (c_ops c) key = Some s" and "slot_read (co_open s) (co_open s') y"
    and "co_next_seq s' = co_next_seq s" "co_last_bio_cookie s' = co_last_bio_cookie s"
    and "x = map_option (\<lambda>(op, f). build_op c key op f) y"
  shows "reads key c (set_slot key s' c, x)"
  unfolding reads_def using assms by auto

lemma readsE:
  assumes "reads key c (c', x)"
  obtains (skip) "c' = c" "x = None"
  | (step) s s' y where "fmlookup (c_ops c) key = Some s" "c' = set_slot key s' c"
      "co_next_seq s' = co_next_seq s" "co_last_bio_cookie s' = co_last_bio_cookie s"
      "slot_read (co_open s) (co_open s') y" "x = map_option (\<lambda>(op, f). build_op c key op f) y"
  using assms unfolding reads_def by auto

lemma reads_tally_body: "reads key c (tally_body key ts len c)"
proof (cases "fmlookup (c_ops c) key")
  case None
  then show ?thesis by (simp add: tally_body_def)
next
  case (Some s)
  show ?thesis
  proof (cases "Option.bind (co_open s) oo_resp")
    case None
    then show ?thesis using Some
      by (auto simp: tally_body_def Let_def Option.bind_eq_None_conv intro!: readsI slot_read.idle split: option.split)
  next
    case (Some rs)
    then obtain op where op: "co_open s = Some op" "oo_resp op = Some rs"
      by (auto simp: Option.bind_eq_Some_conv)
    let ?n = "sat_add (rp_body_seen rs) (ucast len)"
    show ?thesis
    proof (cases "?n < rp_body_target rs")
      case True
      then show ?thesis using op \<open>fmlookup (c_ops c) key = Some s\<close>
        by (auto simp: tally_body_def Let_def intro!: readsI slot_read.body)
    next
      case False
      then show ?thesis using op \<open>fmlookup (c_ops c) key = Some s\<close>
        unfolding tally_body_def Let_def
        by (auto intro!: readsI [where y = "Some (_, _)"] slot_read.body_done simp: facts_ok_def)
    qed
  qed
qed

lemma reads_on_interim: "reads key c (on_interim key ts c, None)"
  by (cases "fmlookup (c_ops c) key"; cases "open_at c key")
    (auto simp: on_interim_def open_at_def intro!: readsI intro: slot_read.intros)

lemma reads_finish_op:
  assumes "\<not> awaiting_body c key" and "facts_ok f" "rf_status f \<noteq> None"
  shows "reads key c (finish_op key ts f c)"
proof (cases "fmlookup (c_ops c) key")
  case None
  then show ?thesis by (simp add: finish_op_def touch_take_def)
next
  case (Some s)
  show ?thesis
  proof (cases "co_open s")
    case None
    then show ?thesis using Some
      by (auto simp: finish_op_def touch_take_def intro!: readsI slot_read.idle)
  next
    case o: (Some op)
    then have "\<not> (case oo_resp op of Some rs0 \<Rightarrow> rp_body_seen rs0 < rp_body_target rs0 | None \<Rightarrow> False)"
      using assms(1) Some by (simp add: awaiting_body_def open_at_def)
    with Some o assms(2,3) show ?thesis
      by (auto simp: finish_op_def touch_take_def intro!: readsI [where y = "Some (_, _)"] slot_read.finish)
  qed
qed

lemma reads_on_final:
  assumes na: "\<not> awaiting_body c key"
  shows "reads key c (on_final e key status c)"
proof -
  have dfr: "reads key c (case fmlookup (c_ops c) key of None \<Rightarrow> c
      | Some s \<Rightarrow> set_slot key (s\<lparr>co_last_ts := t,
          co_open := map_option (\<lambda>op. op\<lparr>oo_resp := Some rs\<rparr>) (co_open s)\<rparr>) c, None)"
    if "rp_body_seen rs < rp_body_target rs" for t rs
  proof (cases "fmlookup (c_ops c) key")
    case (Some s)
    then show ?thesis using na that
      by (cases "co_open s") (auto simp: awaiting_body_def open_at_def intro!: readsI intro: slot_read.intros)
  qed simp
  show ?thesis
    unfolding on_final_def Let_def
    by (auto intro!: dfr reads_finish_op [OF na] simp: facts_ok_def split: option.split_asm)
qed

lemma reads_on_tls_read: "reads (hdr_tgid (td_hdr e), td_fd e) c (on_tls_read e c)"
  by (auto simp: on_tls_read_def Let_def intro!: reads_tally_body reads_on_interim reads_on_final
      split: option.split)

lemma reads_on_tls_read_body: "reads (hdr_tgid (tb_hdr e), tb_fd e) c (on_tls_read_body e c)"
  by (auto simp: on_tls_read_body_def Let_def intro!: reads_tally_body)

section \<open>Writes\<close>

definition new_op :: "evt_tls_data \<Rightarrow> request_head \<Rightarrow> corr \<Rightarrow> open_op" where
  "new_op e req c =
    (let key = (hdr_tgid (td_hdr e), td_fd e); changed = bio_conn_changed e key c;
         (s3_op, bucket, key_hash) = resolve_request c e req
     in \<lparr>oo_op_id = snd (next_op_id c), oo_ts_ns = hdr_ts_ns (td_hdr e),
         oo_req_seq = (if changed then 0 else co_next_seq (slot c key)),
         oo_verb = rq_method req, oo_s3_op = s3_op, oo_bucket = bucket,
         oo_key_hash = key_hash, oo_op_bytes_sent = ucast (td_plaintext_len e),
         oo_interim_ts = None,
         oo_head_truncated = (td_captured_truncated e \<noteq> 0 \<and> header_end (captured e) = None),
         oo_ambiguous = ((case open_at c key of Some p \<Rightarrow> oo_resp p = None | None \<Rightarrow> False) \<and> \<not> changed),
         oo_resp = None, oo_cookie = bio_cookie e\<rparr>)"

definition write_slot :: "evt_tls_data \<Rightarrow> request_head \<Rightarrow> corr \<Rightarrow> conn_ops" where
  "write_slot e req c =
    \<lparr>co_next_seq = oo_req_seq (new_op e req c) + 1, co_open = Some (new_op e req c),
     co_last_ts = hdr_ts_ns (td_hdr e),
     co_last_bio_cookie = opt_or (bio_cookie e) (co_last_bio_cookie (slot c (hdr_tgid (td_hdr e), td_fd e)))\<rparr>"

lemma on_tls_write_None:
  "parse_request (captured e) = None \<Longrightarrow>
    on_tls_write e c = (if captured e \<noteq> [] then c\<lparr>c_parse_failures := c_parse_failures c + 1\<rparr> else c, None)"
  by (simp add: on_tls_write_def)

lemma slot_simps [simp]:
  "slot (c\<lparr>c_op_counter := n\<rparr>) k = slot c k"
  "slot (c\<lparr>c_ops := fmupd k s m\<rparr>) k = s"
  "slot (c\<lparr>c_ops := fmupd k s m, c_op_counter := n\<rparr>) k = s"
  by (simp_all add: slot_def)

lemma open_at_slot: "open_at c k = co_open (slot c k)"
  by (simp add: open_at_def slot_def conn_ops_default_def split: option.split)

lemma fmupd_twice [simp]: "fmupd k a (fmupd k b m) = fmupd k a m"
  by (rule fmap_ext) simp

lemma flush_prev_ops [simp]:
  "flush_prev (c\<lparr>c_ops := m, c_op_counter := n\<rparr>) = flush_prev c"
  "flush_prev (c\<lparr>c_op_counter := n, c_ops := m\<rparr>) = flush_prev c"
  by (intro ext; simp add: flush_prev_def split: option.split)+

lemma on_tls_write_Some:
  assumes "parse_request (captured e) = Some req"
  shows "on_tls_write e c =
    (let key = (hdr_tgid (td_hdr e), td_fd e) in
     (evict_ops key (c\<lparr>c_ops := fmupd key (write_slot e req c) (c_ops c), c_op_counter := c_op_counter c + 1\<rparr>),
      map_option (flush_prev c key (bio_conn_changed e key c)) (open_at c key)))"
proof -
  obtain n o' t b where s: "slot c (hdr_tgid (td_hdr e), td_fd e)
      = \<lparr>co_next_seq = n, co_open = o', co_last_ts = t, co_last_bio_cookie = b\<rparr>"
    by (cases "slot c (hdr_tgid (td_hdr e), td_fd e)")
  obtain x y z where r: "resolve_request c e req = (x, y, z)" by (cases "resolve_request c e req")
  have swap: "c\<lparr>c_op_counter := n, c_ops := m\<rparr> = c\<lparr>c_ops := m, c_op_counter := n\<rparr>" for n m by simp
  show ?thesis
    unfolding swap
    by (cases "bio_cookie e")
      (simp_all add: swap on_tls_write_def assms s r Let_def next_op_id_def take_seq_def write_slot_def new_op_def)
qed

end
