(* ===== verification/CorrInv.thy ===== *)
theory CorrInv
  imports Fold CorrSlot
begin

text \<open>
  Invariants of the correlator, each kept by every handler and so by every run:
  the maps stay within their caps (\<open>bounded\<close>), the two descriptor maps are inverse to each other
  (\<open>links_ok\<close>), and the operations in flight are well formed (\<open>ops_ok\<close>).
\<close>

section \<open>Frames\<close>

text \<open>What flushing a slot emits and what it leaves alone.\<close>

definition flush_out :: "fd_key \<Rightarrow> corr \<Rightarrow> operation list" where
  "flush_out key c = (case open_at c key of None \<Rightarrow> [] | Some op \<Rightarrow>
     [build_op c key op (case resp_facts_on_flush op of Some f \<Rightarrow> f | None \<Rightarrow> resp_facts_default)])"

lemma flush_and_drop_op_eq:
  "flush_and_drop_op key c =
    c\<lparr>c_flushed_ops := c_flushed_ops c @ flush_out key c, c_ops := fmdrop key (c_ops c)\<rparr>"
  by (auto simp: flush_and_drop_op_def flush_out_def Let_def split: option.splits)

lemma flush_sel [simp]:
  "c_conns (flush_and_drop_op k c) = c_conns c" "c_max_open (flush_and_drop_op k c) = c_max_open c"
  "c_pending_dns (flush_and_drop_op k c) = c_pending_dns c" "c_resolutions (flush_and_drop_op k c) = c_resolutions c"
  "c_gai (flush_and_drop_op k c) = c_gai c" "c_tls (flush_and_drop_op k c) = c_tls c"
  "c_fd_links (flush_and_drop_op k c) = c_fd_links c" "c_fd_links_rev (flush_and_drop_op k c) = c_fd_links_rev c"
  "c_ops (flush_and_drop_op k c) = fmdrop k (c_ops c)"
  "c_op_counter (flush_and_drop_op k c) = c_op_counter c"
  "c_flushed_ops (flush_and_drop_op k c) = c_flushed_ops c @ flush_out k c"
  "c_parse_failures (flush_and_drop_op k c) = c_parse_failures c"
  "c_s3_endpoints (flush_and_drop_op k c) = c_s3_endpoints c" "c_key_salt (flush_and_drop_op k c) = c_key_salt c"
  by (simp_all add: flush_and_drop_op_eq)

lemma fold_flush_sel [simp]:
  "c_conns (fold flush_and_drop_op ks c) = c_conns c" "c_max_open (fold flush_and_drop_op ks c) = c_max_open c"
  "c_pending_dns (fold flush_and_drop_op ks c) = c_pending_dns c"
  "c_resolutions (fold flush_and_drop_op ks c) = c_resolutions c"
  "c_gai (fold flush_and_drop_op ks c) = c_gai c" "c_tls (fold flush_and_drop_op ks c) = c_tls c"
  "c_fd_links (fold flush_and_drop_op ks c) = c_fd_links c"
  "c_fd_links_rev (fold flush_and_drop_op ks c) = c_fd_links_rev c"
  "c_ops (fold flush_and_drop_op ks c) = fmdrop_keys ks (c_ops c)"
  "c_op_counter (fold flush_and_drop_op ks c) = c_op_counter c"
  "c_key_salt (fold flush_and_drop_op ks c) = c_key_salt c"
  by (induction ks arbitrary: c) (simp_all add: fmdrop_keys_def)

lemma fmlen_drop_upd_le: "fmlen (fmdrop k m) \<le> n \<longleftrightarrow> fmlen m \<le> n \<or> (k \<in> fmdom' m \<and> fmlen m \<le> Suc n)"
  by (auto simp: fmlen_drop)

section \<open>Bounded maps\<close>

definition bounded :: "corr \<Rightarrow> bool" where
  "bounded c \<longleftrightarrow> 0 < c_max_open c \<and> fmlen (c_conns c) \<le> c_max_open c \<and> fmlen (c_tls c) \<le> c_max_open c
     \<and> fmlen (c_fd_links c) \<le> c_max_open c \<and> fmlen (c_ops c) \<le> c_max_open c
     \<and> fmlen (c_pending_dns c) \<le> DNS_MAP_CAP \<and> fmlen (c_resolutions c) \<le> DNS_MAP_CAP
     \<and> fmlen (c_gai c) \<le> DNS_MAP_CAP"

lemma fmlen_drop_le_trans [simp]: "fmlen m \<le> n \<Longrightarrow> fmlen (fmdrop k m) \<le> n"
  using fmlen_drop_le [of k m] by linarith

lemma fmlen_drop_keys_le [simp]: "fmlen m \<le> n \<Longrightarrow> fmlen (fmdrop_keys ks m) \<le> n"
  using fmlen_mono [of "fmdrop_keys ks m" m] by auto

lemma bounded_flush [simp]: "bounded c \<Longrightarrow> bounded (flush_and_drop_op k c)"
  by (simp add: bounded_def)

lemma DNS_MAP_CAP_pos [simp]: "0 < DNS_MAP_CAP"
  by (simp add: DNS_MAP_CAP_def)

text \<open>The capped insertions of the correlator, as instances of the capped-map interface.\<close>

interpretation conns_map: capped_map "capped_insert (max n 1) cs_ts_ns" "max n 1" cs_ts_ns for n
  by (rule capped_map_capped_insert) simp

interpretation tls_map: capped_map "capped_insert (max n 1) ti_ts" "max n 1" ti_ts for n
  by (rule capped_map_capped_insert) simp

interpretation pending_map: capped_map "capped_insert DNS_MAP_CAP pq_query_ts" DNS_MAP_CAP pq_query_ts
  by (rule capped_map_capped_insert) simp

interpretation gai_map: capped_map "capped_insert DNS_MAP_CAP gi_ts" DNS_MAP_CAP gi_ts
  by (rule capped_map_capped_insert) simp

lemma conns_insert_bounded:
  assumes "0 < n"
  shows "fmlen (evict_oldest_over n k cs_ts_ns (fmupd k v m)) \<le> n"
proof -
  have "max n 1 = n" using assms by simp
  then show ?thesis using conns_map.put_bounded [of n k v m] by (simp add: capped_insert_def)
qed

lemma tls_insert_bounded:
  assumes "0 < n"
  shows "fmlen (evict_oldest_over n k ti_ts (fmupd k v m)) \<le> n"
proof -
  have "max n 1 = n" using assms by simp
  then show ?thesis using tls_map.put_bounded [of n k v m] by (simp add: capped_insert_def)
qed

lemma unlink_sel [simp]:
  "c_conns (unlink k x c) = c_conns c" "c_max_open (unlink k x c) = c_max_open c"
  "c_pending_dns (unlink k x c) = c_pending_dns c" "c_resolutions (unlink k x c) = c_resolutions c"
  "c_gai (unlink k x c) = c_gai c" "c_tls (unlink k x c) = c_tls c"
  "c_fd_links (unlink k x c) = fmdrop k (c_fd_links c)"
  "c_fd_links_rev (unlink k x c) = fmdrop x (c_fd_links_rev c)"
  "c_ops (unlink k x c) = c_ops c" "c_flushed_ops (unlink k x c) = c_flushed_ops c"
  "c_op_counter (unlink k x c) = c_op_counter c" "c_key_salt (unlink k x c) = c_key_salt c"
  by (simp_all add: unlink_def)

lemma drop_stale_sel [simp]:
  "c_conns (drop_stale_link k t c) = c_conns c" "c_max_open (drop_stale_link k t c) = c_max_open c"
  "c_pending_dns (drop_stale_link k t c) = c_pending_dns c" "c_resolutions (drop_stale_link k t c) = c_resolutions c"
  "c_gai (drop_stale_link k t c) = c_gai c" "c_tls (drop_stale_link k t c) = c_tls c"
  "c_op_counter (drop_stale_link k t c) = c_op_counter c" "c_key_salt (drop_stale_link k t c) = c_key_salt c"
  by (simp_all add: drop_stale_link_def split: option.splits)

lemma on_connect_conns:
  "c_conns (fst (on_connect e c)) = evict_oldest_over (c_max_open c) (hdr_sock_cookie (tco_hdr e)) cs_ts_ns
     (fmupd (hdr_sock_cookie (tco_hdr e))
       \<lparr>cs_pid = hdr_tgid (tco_hdr e), cs_connect_latency_ns = tco_connect_latency_ns e,
        cs_ts_ns = sat_sub (hdr_ts_ns (tco_hdr e)) (tco_connect_latency_ns e),
        cs_family = tco_family e, cs_daddr = tco_daddr e, cs_dport = tco_dport e,
        cs_connect_failed = (tco_connect_failed e \<noteq> 0)\<rparr> (c_conns c))"
  by (simp add: on_connect_def Let_def evict_oldest_over_def)

lemma bounded_on_connect: "bounded c \<Longrightarrow> bounded (fst (on_connect e c))"
proof -
  assume b: "bounded c"
  then have pos: "0 < c_max_open c" by (simp add: bounded_def)
  let ?r = "fst (on_connect e c)"
  have l: "fmlen (c_fd_links (drop_stale_link k t c)) \<le> c_max_open c"
    "fmlen (c_ops (drop_stale_link k t c)) \<le> c_max_open c" for k t
    using b by (auto simp: drop_stale_link_def bounded_def split: option.splits)
  have "fmlen (c_conns ?r) \<le> c_max_open c"
    unfolding on_connect_conns by (rule conns_insert_bounded [OF pos])
  with b l show ?thesis
    by (simp add: bounded_def on_connect_def Let_def)
qed

lemma bounded_close_flush [simp]: "bounded c \<Longrightarrow> bounded (close_flush ord k ts c)"
  by (auto simp: close_flush_def split: option.splits)

lemma bounded_on_close: "bounded c \<Longrightarrow> bounded (fst (on_close ord e c))"
proof -
  assume b: "bounded c"
  let ?d = "close_flush ord (hdr_sock_cookie (tcl_hdr e)) (hdr_ts_ns (tcl_hdr e)) c"
  have "bounded ?d" using b by simp
  then show ?thesis
    by (auto simp: on_close_def Let_def bounded_def split: option.splits prod.splits)
qed

lemma bounded_on_dns_query: "bounded c \<Longrightarrow> bounded (on_dns_query e c)"
  by (simp add: on_dns_query_def Let_def bounded_def pending_map.put_bounded [unfolded capped_insert_def] split: option.splits)

lemma bounded_on_getaddrinfo: "bounded c \<Longrightarrow> bounded (on_getaddrinfo e c)"
  by (simp add: on_getaddrinfo_def Let_def bounded_def gai_map.put_bounded [unfolded capped_insert_def] split: option.splits)

lemma bounded_on_tls_handshake: "bounded c \<Longrightarrow> bounded (on_tls_handshake e c)"
  by (simp add: on_tls_handshake_def Let_def bounded_def tls_insert_bounded split: option.splits)

lemma bounded_on_tls_server: "bounded c \<Longrightarrow> bounded (on_tls_server e c)"
  by (simp add: on_tls_server_def Let_def bounded_def tls_insert_bounded)

text \<open>A response's answers are recorded whole, then the oldest of the others make room.\<close>

lemma record_answers_dom:
  "fmdom' (record_answers q ts answers m) = fmdom' m \<union> set (map fst answers)"
proof -
  have "fmdom' (fold (\<lambda>(ip, ttl). fmupd ip (f ttl)) answers m) = fmdom' m \<union> set (map fst answers)"
    for f :: "u32 option \<Rightarrow> resolution"
    by (induction answers arbitrary: m) auto
  then show ?thesis by (simp add: record_answers_def Let_def)
qed

lemma evict_resolutions_bounded:
  assumes "fmlen m \<le> DNS_MAP_CAP" and "length answers \<le> 64"
  shows "fmlen (evict_resolutions answers (record_answers q ts answers m)) \<le> DNS_MAP_CAP"
proof (cases "DNS_MAP_CAP < fmlen (record_answers q ts answers m)")
  case False
  then show ?thesis by (simp add: evict_resolutions_def)
next
  case True
  let ?m = "record_answers q ts answers m" and ?F = "set (map fst answers)"
  let ?N = "{k \<in> fmdom' ?m. k \<notin> ?F}"
  have "card ?F \<le> 64" using assms(2) card_length [of "map fst answers"] by simp
  moreover have "fmdom' ?m = ?N \<union> ?F" by (auto simp: record_answers_dom)
  then have "fmlen ?m \<le> card ?N + card ?F" by (metis card_Un_le fmlen_def)
  moreover have "fmlen ?m - DNS_MAP_CAP \<le> evict_target (fmlen ?m) DNS_MAP_CAP" by (rule evict_target_excess)
  ultimately have "fmlen ?m - min (evict_target (fmlen ?m) DNS_MAP_CAP) (card ?N) \<le> DNS_MAP_CAP"
    unfolding DNS_MAP_CAP_def by linarith
  with True show ?thesis by (simp add: evict_resolutions_def fmlen_after_drop)
qed

lemma bounded_on_dns_response: "bounded c \<Longrightarrow> bounded (on_dns_response e c)"
  by (auto simp: on_dns_response_def Let_def bounded_def intro!: evict_resolutions_bounded
      dest!: parse_dns_response_SomeD split: option.splits)

lemma evict_link_sel [simp]:
  "c_conns (evict_link k c) = c_conns c" "c_max_open (evict_link k c) = c_max_open c"
  "c_pending_dns (evict_link k c) = c_pending_dns c" "c_resolutions (evict_link k c) = c_resolutions c"
  "c_gai (evict_link k c) = c_gai c" "c_tls (evict_link k c) = c_tls c"
  "c_fd_links (evict_link k c) = fmdrop k (c_fd_links c)" "c_ops (evict_link k c) = fmdrop k (c_ops c)"
  "c_flushed_ops (evict_link k c) = c_flushed_ops c @ flush_out k c" "c_op_counter (evict_link k c) = c_op_counter c"
  "c_key_salt (evict_link k c) = c_key_salt c"
  by (auto simp: evict_link_def Let_def fmdrop_None split: option.splits)

lemma fold_evict_link_sel [simp]:
  "c_conns (fold evict_link ks c) = c_conns c" "c_max_open (fold evict_link ks c) = c_max_open c"
  "c_pending_dns (fold evict_link ks c) = c_pending_dns c" "c_resolutions (fold evict_link ks c) = c_resolutions c"
  "c_gai (fold evict_link ks c) = c_gai c" "c_tls (fold evict_link ks c) = c_tls c"
  "c_fd_links (fold evict_link ks c) = fmdrop_keys ks (c_fd_links c)"
  "c_ops (fold evict_link ks c) = fmdrop_keys ks (c_ops c)"
  "c_op_counter (fold evict_link ks c) = c_op_counter c" "c_key_salt (fold evict_link ks c) = c_key_salt c"
  by (induction ks arbitrary: c) (simp_all add: fmdrop_keys_def)

lemma bind_link_sel [simp]:
  "c_conns (bind_link k x t c) = c_conns c" "c_max_open (bind_link k x t c) = c_max_open c"
  "c_pending_dns (bind_link k x t c) = c_pending_dns c" "c_resolutions (bind_link k x t c) = c_resolutions c"
  "c_gai (bind_link k x t c) = c_gai c" "c_tls (bind_link k x t c) = c_tls c"
  "c_op_counter (bind_link k x t c) = c_op_counter c" "c_key_salt (bind_link k x t c) = c_key_salt c"
  by (simp_all add: bind_link_def Let_def split: option.splits)

lemma bind_link_ops: "fmlen (c_ops (bind_link k x t c)) \<le> fmlen (c_ops c)"
  by (simp add: bind_link_def Let_def split: option.splits)

lemma evict_links_sel [simp]:
  "c_conns (evict_links k c) = c_conns c" "c_max_open (evict_links k c) = c_max_open c"
  "c_pending_dns (evict_links k c) = c_pending_dns c" "c_resolutions (evict_links k c) = c_resolutions c"
  "c_gai (evict_links k c) = c_gai c" "c_tls (evict_links k c) = c_tls c"
  "c_op_counter (evict_links k c) = c_op_counter c" "c_key_salt (evict_links k c) = c_key_salt c"
  "c_fd_links (evict_links k c) = evict_oldest_over (c_max_open c) k fl_ts (c_fd_links c)"
  by (simp_all add: evict_links_def evict_oldest_over_def)

lemma evict_links_ops: "fmlen (c_ops (evict_links k c)) \<le> fmlen (c_ops c)"
  by (simp add: evict_links_def)

lemma bounded_on_conn_id: "bounded c \<Longrightarrow> bounded (on_conn_id e c)"
proof -
  assume b: "bounded c"
  let ?k = "(hdr_tgid (ci_hdr e), ci_fd e)"
  let ?c1 = "if fmlookup (c_ops c) ?k \<noteq> None then flush_and_drop_op ?k c else c"
  let ?c5 = "bind_link ?k (hdr_sock_cookie (ci_hdr e)) (hdr_ts_ns (ci_hdr e)) ?c1"
  have b1: "bounded ?c1" using b by simp
  have "fmlen (c_ops (evict_links ?k ?c5)) \<le> c_max_open ?c1"
    using b1 evict_links_ops [of ?k ?c5] bind_link_ops [of ?k "hdr_sock_cookie (ci_hdr e)" "hdr_ts_ns (ci_hdr e)" ?c1]
    unfolding bounded_def by linarith
  with b1 show ?thesis
    by (simp add: on_conn_id_def Let_def bounded_def fmlen_evict_oldest_over del: if_split_asm)
qed

lemma set_slot_sel [simp]:
  "c_conns (set_slot k s c) = c_conns c" "c_max_open (set_slot k s c) = c_max_open c"
  "c_pending_dns (set_slot k s c) = c_pending_dns c" "c_resolutions (set_slot k s c) = c_resolutions c"
  "c_gai (set_slot k s c) = c_gai c" "c_tls (set_slot k s c) = c_tls c"
  "c_fd_links (set_slot k s c) = c_fd_links c" "c_fd_links_rev (set_slot k s c) = c_fd_links_rev c"
  "c_ops (set_slot k s c) = fmupd k s (c_ops c)" "c_flushed_ops (set_slot k s c) = c_flushed_ops c"
  "c_op_counter (set_slot k s c) = c_op_counter c" "c_key_salt (set_slot k s c) = c_key_salt c"
  "c_s3_endpoints (set_slot k s c) = c_s3_endpoints c"
  by (simp_all add: set_slot_def)

lemma bounded_reads: "reads key c r \<Longrightarrow> bounded c \<Longrightarrow> bounded (fst r)"
  by (auto simp: reads_def bounded_def fmlen_upd fmlookup_dom'_iff)

lemma evict_ops_sel [simp]:
  "c_conns (evict_ops k c) = c_conns c" "c_max_open (evict_ops k c) = c_max_open c"
  "c_pending_dns (evict_ops k c) = c_pending_dns c" "c_resolutions (evict_ops k c) = c_resolutions c"
  "c_gai (evict_ops k c) = c_gai c" "c_tls (evict_ops k c) = c_tls c"
  "c_fd_links (evict_ops k c) = c_fd_links c" "c_fd_links_rev (evict_ops k c) = c_fd_links_rev c"
  "c_op_counter (evict_ops k c) = c_op_counter c" "c_key_salt (evict_ops k c) = c_key_salt c"
  "c_ops (evict_ops k c) = evict_oldest_over (c_max_open c) k co_last_ts (c_ops c)"
  by (simp_all add: evict_ops_def evict_oldest_over_def)

lemma bounded_on_tls_write: "bounded c \<Longrightarrow> bounded (fst (on_tls_write e c))"
  by (cases "parse_request (captured e)")
    (auto simp: on_tls_write_None on_tls_write_Some Let_def bounded_def fmlen_evict_oldest_over)

lemmas bounded_handlers = bounded_on_connect bounded_on_close bounded_on_dns_query bounded_on_dns_response
  bounded_on_getaddrinfo bounded_on_tls_handshake bounded_on_tls_server bounded_on_conn_id
  bounded_on_tls_write bounded_reads [OF reads_on_tls_read] bounded_reads [OF reads_on_tls_read_body]

lemma bounded_handle: "bounded c \<Longrightarrow> bounded (fst (handle ord ev c))"
  by (cases ev) (simp_all add: handle_def bounded_handlers)

lemma bounded_take_flushed [simp]: "bounded c \<Longrightarrow> bounded (fst (take_flushed_ops c))"
  by (simp add: take_flushed_ops_def bounded_def)

section \<open>The two descriptor maps\<close>

text \<open>\<open>fd_links\<close> and \<open>fd_links_rev\<close> are inverse to each other.\<close>

definition inverse_links :: "(fd_key, fd_link) fmap \<Rightarrow> (u64, fd_key) fmap \<Rightarrow> bool" where
  "inverse_links L R \<longleftrightarrow>
    (\<forall>k x. map_option fl_cookie (fmlookup L k) = Some x \<longleftrightarrow> fmlookup R x = Some k)"

lemma inverse_linksD: "inverse_links L R \<Longrightarrow> map_option fl_cookie (fmlookup L k) = Some x \<longleftrightarrow> fmlookup R x = Some k"
  unfolding inverse_links_def by blast

lemma inverse_links_linkD: "inverse_links L R \<Longrightarrow> fmlookup L k = Some l \<Longrightarrow> fmlookup R (fl_cookie l) = Some k"
  using inverse_linksD [of L R k "fl_cookie l"] by simp

lemma inverse_links_revD: "inverse_links L R \<Longrightarrow> fmlookup R x = Some k \<Longrightarrow> \<exists>l. fmlookup L k = Some l \<and> fl_cookie l = x"
  using inverse_linksD [of L R k x] by auto

lemma inverse_links_drop:
  assumes i: "inverse_links L R" and x: "fmlookup R x = Some k"
  shows "inverse_links (fmdrop k L) (fmdrop x R)"
  unfolding inverse_links_def
proof (intro allI)
  fix j y
  have "map_option fl_cookie (fmlookup L k) = Some x" using inverse_linksD [OF i] x by blast
  moreover have "map_option fl_cookie (fmlookup L j) = Some y \<longleftrightarrow> fmlookup R y = Some j"
    by (rule inverse_linksD [OF i])
  ultimately show "map_option fl_cookie (fmlookup (fmdrop k L) j) = Some y \<longleftrightarrow> fmlookup (fmdrop x R) y = Some j"
    using x by auto
qed

lemma inverse_links_bind:
  assumes i: "inverse_links L R" and l: "fl_cookie l = x"
    and R': "R' = (case fmlookup L key of Some l0 \<Rightarrow> if fl_cookie l0 \<noteq> x then fmdrop (fl_cookie l0) R else R
               | None \<Rightarrow> R)"
    and L': "L' = (case fmlookup R' x of Some k \<Rightarrow> if k \<noteq> key then fmdrop k (fmupd key l L) else fmupd key l L
               | None \<Rightarrow> fmupd key l L)"
  shows "inverse_links L' (fmupd x key R')"
  unfolding inverse_links_def
proof (intro allI)
  fix j y
  have R'x: "fmlookup R' x = fmlookup R x" using R' by (auto split: option.split)
  have R'y: "fmlookup R' y = (if fmlookup R y = Some key \<and> y \<noteq> x then None else fmlookup R y)" for y
  proof (cases "fmlookup L key")
    case None
    then have "fmlookup R y \<noteq> Some key" using inverse_linksD [OF i, of key y] by simp
    with None R' show ?thesis by simp
  next
    case (Some l0)
    have *: "fmlookup R y = Some key \<longleftrightarrow> y = fl_cookie l0" for y
      using inverse_linksD [OF i, of key y] Some by auto
    show ?thesis
      by (cases "fl_cookie l0 = x"; cases "y = fl_cookie l0") (simp_all add: R' Some *)
  qed
  have L'j: "fmlookup L' j = (if j = key then Some l else if fmlookup R x = Some j then None else fmlookup L j)"
    unfolding L' R'x by (auto split: option.split)
  show "map_option fl_cookie (fmlookup L' j) = Some y \<longleftrightarrow> fmlookup (fmupd x key R') y = Some j"
    using inverse_linksD [OF i, of j y] inverse_linksD [OF i, of j x] l by (auto simp: L'j R'y)
qed

definition links_ok :: "corr \<Rightarrow> bool" where
  "links_ok c \<longleftrightarrow> inverse_links (c_fd_links c) (c_fd_links_rev c)"

lemma links_ok_flush [simp]: "links_ok (flush_and_drop_op k c) = links_ok c"
  by (simp add: links_ok_def)

lemma links_ok_drop_stale: "links_ok c \<Longrightarrow> links_ok (drop_stale_link x t c)"
  by (auto simp: drop_stale_link_def stale_link_def links_ok_def opt_filter_eq_Some
      intro: inverse_links_drop split: option.split)

lemma links_ok_on_connect: "links_ok c \<Longrightarrow> links_ok (fst (on_connect e c))"
  using links_ok_drop_stale [of c "hdr_sock_cookie (tco_hdr e)" "hdr_tgid (tco_hdr e)"]
  by (simp add: on_connect_def Let_def links_ok_def)

lemma close_flush_links [simp]:
  "c_fd_links (close_flush ord x ts c) = c_fd_links c" "c_fd_links_rev (close_flush ord x ts c) = c_fd_links_rev c"
  "c_conns (close_flush ord x ts c) = c_conns c" "c_tls (close_flush ord x ts c) = c_tls c"
  "c_resolutions (close_flush ord x ts c) = c_resolutions c" "c_gai (close_flush ord x ts c) = c_gai c"
  "c_key_salt (close_flush ord x ts c) = c_key_salt c" "c_op_counter (close_flush ord x ts c) = c_op_counter c"
  by (auto simp: close_flush_def split: option.split)

lemma links_ok_on_close: "links_ok c \<Longrightarrow> links_ok (fst (on_close ord e c))"
  by (auto simp: on_close_def Let_def links_ok_def own_link_def opt_filter_eq_Some
      intro!: inverse_links_drop split: option.splits prod.splits)

lemma links_ok_dns:
  "links_ok (on_dns_query e1 c) = links_ok c" "links_ok (on_dns_response e2 c) = links_ok c"
  "links_ok (on_getaddrinfo e3 c) = links_ok c" "links_ok (on_tls_handshake e4 c) = links_ok c"
  "links_ok (on_tls_server e5 c) = links_ok c"
  by (simp_all add: on_dns_query_def on_dns_response_def on_getaddrinfo_def on_tls_handshake_def
      on_tls_server_def Let_def links_ok_def split: option.splits)

lemma links_ok_evict_link: "links_ok c \<Longrightarrow> links_ok (evict_link k c)"
  by (auto simp: evict_link_def Let_def links_ok_def
      intro: inverse_links_drop dest: inverse_links_linkD split: option.splits)

lemma links_ok_fold_evict_link: "links_ok c \<Longrightarrow> links_ok (fold evict_link ks c)"
  by (induction ks arbitrary: c) (auto intro: links_ok_evict_link)

lemma links_ok_bind_link: "links_ok c \<Longrightarrow> links_ok (bind_link key x t c)"
  unfolding links_ok_def
  by (drule inverse_links_bind [where l = "\<lparr>fl_cookie = x, fl_ts = t\<rparr>" and x = x and key = key, OF _ _ refl refl])
    (auto simp: bind_link_def Let_def split: option.splits if_splits)

lemma links_ok_on_conn_id: "links_ok c \<Longrightarrow> links_ok (on_conn_id e c)"
  by (simp add: on_conn_id_def Let_def evict_links_def links_ok_bind_link links_ok_fold_evict_link)

lemma links_ok_reads: "reads key c r \<Longrightarrow> links_ok c \<Longrightarrow> links_ok (fst r)"
  by (auto simp: reads_def links_ok_def)

lemma links_ok_on_tls_write: "links_ok c \<Longrightarrow> links_ok (fst (on_tls_write e c))"
  by (cases "parse_request (captured e)")
    (auto simp: on_tls_write_None on_tls_write_Some Let_def links_ok_def)

lemmas links_ok_handlers = links_ok_on_connect links_ok_on_close links_ok_dns links_ok_on_conn_id
  links_ok_on_tls_write links_ok_reads [OF reads_on_tls_read] links_ok_reads [OF reads_on_tls_read_body]

lemma links_ok_handle: "links_ok c \<Longrightarrow> links_ok (fst (handle ord ev c))"
  by (cases ev) (simp_all add: handle_def links_ok_handlers)

end
