(* ===== verification/CorrLedger.thy ===== *)
theory CorrLedger
  imports CorrInv
begin

text \<open>
  Conservation of operations: every request the correlator opens is, at any time, either still open in
  its slot, waiting in \<open>flushed_ops\<close>, or has been returned to the caller, exactly once. The ids are
  the tokens of the \<open>ledger\<close> interface of \<open>Machine\<close>, interpreted on the drain loop.
\<close>

section \<open>What the state owes\<close>

definition slot_ids :: "conn_ops \<Rightarrow> string multiset" where
  "slot_ids s = (case co_open s of None \<Rightarrow> {#} | Some op \<Rightarrow> {#oo_op_id op#})"

definition open_ids :: "(fd_key, conn_ops) fmap \<Rightarrow> string multiset" where
  "open_ids m = (\<Sum>k\<in>fmdom' m. case fmlookup m k of None \<Rightarrow> {#} | Some s \<Rightarrow> slot_ids s)"

definition op_ids :: "operation list \<Rightarrow> string multiset" where
  "op_ids xs = mset (map o_op_id xs)"

definition owed_ids :: "corr \<Rightarrow> string multiset" where
  "owed_ids c = open_ids (c_ops c) + op_ids (c_flushed_ops c)"

lemma op_ids_simps [simp]: "op_ids [] = {#}" "op_ids (x # xs) = add_mset (o_op_id x) (op_ids xs)"
  "op_ids (xs @ ys) = op_ids xs + op_ids ys"
  by (simp_all add: op_ids_def)

lemma open_ids_empty [simp]: "open_ids fmempty = {#}"
  by (simp add: open_ids_def)

lemma open_ids_drop:
  "fmlookup m k = Some s \<Longrightarrow> open_ids m = slot_ids s + open_ids (fmdrop k m)"
proof -
  assume k: "fmlookup m k = Some s"
  let ?f = "\<lambda>m k. case fmlookup m k of None \<Rightarrow> {#} | Some s \<Rightarrow> slot_ids s"
  have "open_ids m = ?f m k + (\<Sum>j\<in>fmdom' m - {k}. ?f m j)"
    unfolding open_ids_def using k by (subst sum.remove [of _ k]) (auto intro: fmdom'I)
  also have "(\<Sum>j\<in>fmdom' m - {k}. ?f m j) = open_ids (fmdrop k m)"
    unfolding open_ids_def by (rule sum.cong) auto
  finally show ?thesis using k by simp
qed

lemma open_ids_upd: "open_ids (fmupd k s m) = slot_ids s + open_ids (fmdrop k m)"
proof -
  have "fmdrop k (fmupd k s m) = fmdrop k m" by (rule fmap_ext) simp
  then show ?thesis using open_ids_drop [of "fmupd k s m" k s] by simp
qed

lemma o_op_id_build_op [simp]: "o_op_id (build_op c k op f) = oo_op_id op"
  by (simp add: build_op_def Let_def)

lemma op_ids_flush_out: "op_ids (flush_out k c) = (case fmlookup (c_ops c) k of None \<Rightarrow> {#} | Some s \<Rightarrow> slot_ids s)"
  by (auto simp: flush_out_def open_at_def slot_ids_def split: option.split)

lemma open_ids_flush: "op_ids (flush_out k c) + open_ids (fmdrop k (c_ops c)) = open_ids (c_ops c)"
  by (cases "fmlookup (c_ops c) k") (auto simp: op_ids_flush_out fmdrop_None open_ids_drop)

lemma owed_flush [simp]: "owed_ids (flush_and_drop_op k c) = owed_ids c"
  using open_ids_flush [of k c] by (simp add: owed_ids_def ac_simps)

lemma owed_fold_flush [simp]: "owed_ids (fold flush_and_drop_op ks c) = owed_ids c"
  by (induction ks arbitrary: c) simp_all

section \<open>What each handler pays and issues\<close>

lemma owed_cong: "c_ops c = c_ops d \<Longrightarrow> c_flushed_ops c = c_flushed_ops d \<Longrightarrow> owed_ids c = owed_ids d"
  by (simp add: owed_ids_def)

lemma owed_drop_stale [simp]: "owed_ids (drop_stale_link x t c) = owed_ids c"
proof (cases "stale_link x t c")
  case (Some k)
  have "owed_ids (unlink k x (flush_and_drop_op k c)) = owed_ids (flush_and_drop_op k c)"
    by (rule owed_cong) simp_all
  with Some show ?thesis by (simp add: drop_stale_link_def)
qed (simp add: drop_stale_link_def)

lemma owed_on_connect: "owed_ids (fst (on_connect e c)) = owed_ids c"
proof -
  let ?d = "drop_stale_link (hdr_sock_cookie (tco_hdr e)) (hdr_tgid (tco_hdr e)) c"
  have "owed_ids (fst (on_connect e c)) = owed_ids ?d"
    by (rule owed_cong) (simp_all add: on_connect_def Let_def)
  then show ?thesis by simp
qed

lemma owed_close_flush [simp]: "owed_ids (close_flush ord x ts c) = owed_ids c"
  by (simp add: close_flush_def split: option.split)

lemma owed_on_close: "owed_ids (fst (on_close ord e c)) = owed_ids c"
proof -
  let ?d = "close_flush ord (hdr_sock_cookie (tcl_hdr e)) (hdr_ts_ns (tcl_hdr e)) c"
  have "owed_ids (fst (on_close ord e c)) = owed_ids ?d"
    by (rule owed_cong) (simp_all add: on_close_def Let_def split: option.split prod.split)
  then show ?thesis by simp
qed

lemma owed_facts:
  "owed_ids (on_dns_query e1 c) = owed_ids c" "owed_ids (on_dns_response e2 c) = owed_ids c"
  "owed_ids (on_getaddrinfo e3 c) = owed_ids c" "owed_ids (on_tls_handshake e4 c) = owed_ids c"
  "owed_ids (on_tls_server e5 c) = owed_ids c"
  by (simp_all add: on_dns_query_def on_dns_response_def on_getaddrinfo_def on_tls_handshake_def
      on_tls_server_def Let_def owed_ids_def split: option.splits)

lemma owed_evict_link [simp]: "owed_ids (evict_link k c) = owed_ids c"
  using open_ids_flush [of k c] by (simp add: owed_ids_def ac_simps)

lemma owed_fold_evict_link [simp]: "owed_ids (fold evict_link ks c) = owed_ids c"
  by (induction ks arbitrary: c) simp_all

lemma owed_links [simp]:
  "owed_ids (c\<lparr>c_fd_links := L\<rparr>) = owed_ids c" "owed_ids (c\<lparr>c_fd_links_rev := R\<rparr>) = owed_ids c"
  "owed_ids (c\<lparr>c_fd_links := L, c_fd_links_rev := R\<rparr>) = owed_ids c"
  by (simp_all add: owed_ids_def)

lemma owed_bind_link [simp]: "owed_ids (bind_link k x t c) = owed_ids c"
  by (simp add: bind_link_def Let_def split: option.split)

lemma owed_on_conn_id: "owed_ids (on_conn_id e c) = owed_ids c"
  by (simp add: on_conn_id_def Let_def evict_links_def)

definition opt_ids :: "operation option \<Rightarrow> string multiset" where
  "opt_ids x = (case x of None \<Rightarrow> {#} | Some y \<Rightarrow> {#o_op_id y#})"

lemma slot_read_ids: "slot_read x y r \<Longrightarrow>
    (case x of None \<Rightarrow> {#} | Some op \<Rightarrow> {#oo_op_id op#})
    = (case y of None \<Rightarrow> {#} | Some op \<Rightarrow> {#oo_op_id op#}) + (case r of None \<Rightarrow> {#} | Some (op, f) \<Rightarrow> {#oo_op_id op#})"
  by (induction rule: slot_read.induct) auto

lemma owed_reads: "reads key c r \<Longrightarrow> opt_ids (snd r) + owed_ids (fst r) = owed_ids c"
  by (auto simp: reads_def owed_ids_def open_ids_upd opt_ids_def open_ids_drop slot_ids_def
      dest!: slot_read_ids split: option.splits)

lemma owed_evict_ops [simp]: "owed_ids (evict_ops k c) = owed_ids c"
  by (simp add: evict_ops_def)

lemma slot_ids_open_at:
  "open_ids m = (case Option.bind (fmlookup m k) co_open of None \<Rightarrow> {#} | Some op \<Rightarrow> {#oo_op_id op#}) + open_ids (fmdrop k m)"
  by (cases "fmlookup m k") (auto simp: open_ids_drop fmdrop_None slot_ids_def)

lemma o_op_id_flush_prev [simp]: "o_op_id (flush_prev c k ch p) = oo_op_id p"
  by (simp add: flush_prev_def split: option.split)

definition issues :: "evt_tls_data \<Rightarrow> corr \<Rightarrow> string multiset" where
  "issues e c = (if parse_request (captured e) = None then {#} else {#snd (next_op_id c)#})"

lemma owed_on_tls_write:
  "opt_ids (snd (on_tls_write e c)) + owed_ids (fst (on_tls_write e c)) = owed_ids c + issues e c"
proof (cases "parse_request (captured e)")
  case None
  then show ?thesis by (simp add: on_tls_write_None issues_def opt_ids_def owed_ids_def)
next
  case (Some req)
  let ?k = "(hdr_tgid (td_hdr e), td_fd e)"
  let ?x = "\<lambda>ch. opt_ids (map_option (flush_prev c ?k ch) (open_at c ?k))"
  have id: "oo_op_id (new_op e req c) = snd (next_op_id c)" by (simp add: new_op_def Let_def split_beta)
  have prev: "open_ids (c_ops c) = ?x ch + open_ids (fmdrop ?k (c_ops c))" for ch
    by (subst slot_ids_open_at [of "c_ops c" ?k]) (simp add: opt_ids_def open_at_def split: option.split)
  have upd: "owed_ids (c\<lparr>c_ops := fmupd ?k s (c_ops c), c_op_counter := n\<rparr>)
      = slot_ids s + open_ids (fmdrop ?k (c_ops c)) + op_ids (c_flushed_ops c)" for s n
    by (simp add: owed_ids_def open_ids_upd)
  have tot: "owed_ids c = ?x ch + open_ids (fmdrop ?k (c_ops c)) + op_ids (c_flushed_ops c)" for ch
    unfolding owed_ids_def by (subst prev [of ch]) (rule refl)
  show ?thesis using Some
    by (simp add: on_tls_write_Some Let_def upd issues_def slot_ids_def write_slot_def id
        tot [of "bio_conn_changed e ?k c"] add.assoc)
qed

section \<open>The ledger of the drain loop\<close>

definition is_request :: "u8 list \<Rightarrow> bool" where
  "is_request bytes = (case parse_event bytes of Some (TlsWrite e) \<Rightarrow> parse_request (captured e) \<noteq> None | _ \<Rightarrow> False)"

fun rec_ids :: "out_record \<Rightarrow> string multiset" where
  "rec_ids (RecOperation r) = {#o_op_id r#}"
| "rec_ids _ = {#}"

definition issued_ids :: "u8 list \<Rightarrow> 'f agent \<Rightarrow> string multiset" where
  "issued_ids bytes a = (if is_request bytes then {#snd (next_op_id (ag_corr a))#} else {#})"

definition opt_rec_ids :: "out_record option \<Rightarrow> string multiset" where
  "opt_rec_ids r = (case r of None \<Rightarrow> {#} | Some y \<Rightarrow> rec_ids y)"

lemma opt_rec_ids_map [simp]:
  "opt_rec_ids (map_option RecOperation x) = opt_ids x"
  "opt_rec_ids (map_option RecConnection y) = {#}" "opt_rec_ids (map_option RecTcpSample z) = {#}"
  "opt_rec_ids None = {#}"
  by (simp_all add: opt_rec_ids_def opt_ids_def split: option.split)

lemma owed_handle:
  "opt_rec_ids (snd (handle ord ev c)) + owed_ids (fst (handle ord ev c))
    = owed_ids c + (case ev of TlsWrite e \<Rightarrow> issues e c | _ \<Rightarrow> {#})"
  by (cases ev) (simp_all add: handle_def owed_on_connect owed_on_close owed_facts owed_on_conn_id
      owed_on_tls_write owed_reads [OF reads_on_tls_read] owed_reads [OF reads_on_tls_read_body])

lemma counter_handle:
  "c_op_counter (fst (handle ord ev c)) = c_op_counter c
    + (case ev of TlsWrite e \<Rightarrow> if parse_request (captured e) = None then 0 else 1 | _ \<Rightarrow> 0)"
proof (cases ev)
  case (TlsWrite e)
  then show ?thesis
    by (cases "parse_request (captured e)") (simp_all add: handle_def on_tls_write_None on_tls_write_Some Let_def)
next
  case (TlsRead e)
  then show ?thesis using reads_on_tls_read [of e c] by (auto simp: handle_def reads_def)
next
  case (TlsReadBody e)
  then show ?thesis using reads_on_tls_read_body [of e c] by (auto simp: handle_def reads_def)
next
  case (TcpClose e)
  then show ?thesis by (simp add: handle_def on_close_def Let_def split: option.split prod.split)
qed (simp_all add: handle_def on_connect_def on_dns_query_def on_dns_response_def on_getaddrinfo_def
    on_tls_handshake_def on_tls_server_def on_conn_id_def Let_def split: option.split)

lemma sum_rec_ids [simp]: "(\<Sum>y\<leftarrow>map RecOperation xs. rec_ids y) = op_ids xs"
  "sum_list (map (rec_ids \<circ> RecOperation) xs) = op_ids xs"
  by (induction xs) simp_all

lemma sum_opt_list [simp]: "(\<Sum>y\<leftarrow>opt_list r. rec_ids y) = opt_rec_ids r"
  by (simp add: opt_list_def opt_rec_ids_def split: option.split)

lemma fold_bytes_None:
  "parse_event bytes = None \<Longrightarrow> fold_bytes h ord bytes a = (a\<lparr>ag_undecoded := ag_undecoded a + 1\<rparr>, None)"
  by (simp add: fold_bytes_def)

lemma fold_bytes_Some:
  assumes "parse_event bytes = Some ev"
  shows "ag_corr (fst (fold_bytes h ord bytes a)) = fst (handle ord ev (ag_corr a))"
    "snd (fold_bytes h ord bytes a) = snd (handle ord ev (ag_corr a))"
    "ag_undecoded (fst (fold_bytes h ord bytes a)) = ag_undecoded a"
  by (simp_all add: fold_bytes_def assms Let_def split_beta split: event.split)

lemma drain_item_eqs:
  "ag_corr (fst (drain_item h ord bytes a)) = fst (take_flushed_ops (ag_corr (fst (fold_bytes h (ord (c_ops (ag_corr a))) bytes a))))"
  "snd (drain_item h ord bytes a) = opt_list (snd (fold_bytes h (ord (c_ops (ag_corr a))) bytes a))
     @ map RecOperation (c_flushed_ops (ag_corr (fst (fold_bytes h (ord (c_ops (ag_corr a))) bytes a))))"
  by (simp_all add: drain_item_def Let_def split_beta take_flushed_ops_def)

lemma drain_item_None:
  assumes "parse_event bytes = None"
  shows "ag_corr (fst (drain_item h ord bytes a)) = fst (take_flushed_ops (ag_corr a))"
    "snd (drain_item h ord bytes a) = map RecOperation (c_flushed_ops (ag_corr a))"
  by (simp_all add: drain_item_eqs fold_bytes_None assms opt_list_def)

lemma drain_item_Some:
  assumes "parse_event bytes = Some ev"
  shows "ag_corr (fst (drain_item h ord bytes a)) = fst (take_flushed_ops (fst (handle (ord (c_ops (ag_corr a))) ev (ag_corr a))))"
    "snd (drain_item h ord bytes a) = opt_list (snd (handle (ord (c_ops (ag_corr a))) ev (ag_corr a)))
       @ map RecOperation (c_flushed_ops (fst (handle (ord (c_ops (ag_corr a))) ev (ag_corr a))))"
  by (simp_all add: drain_item_eqs fold_bytes_Some assms)

lemma owed_take_flushed: "owed_ids c = op_ids (c_flushed_ops c) + owed_ids (fst (take_flushed_ops c))"
  by (simp add: take_flushed_ops_def owed_ids_def)

lemma is_request_Some: "parse_event bytes = Some ev \<Longrightarrow>
    (case ev of TlsWrite e \<Rightarrow> issues e c | _ \<Rightarrow> {#}) = (if is_request bytes then {#snd (next_op_id c)#} else {#})"
  by (cases ev) (simp_all add: is_request_def issues_def)

lemma drain_item_ledger:
  "(\<Sum>y\<leftarrow>snd (drain_item h ord bytes a). rec_ids y) + owed_ids (ag_corr (fst (drain_item h ord bytes a)))
    = owed_ids (ag_corr a) + issued_ids bytes a"
proof (cases "parse_event bytes")
  case None
  then have "\<not> is_request bytes" by (simp add: is_request_def)
  with None show ?thesis
    using owed_take_flushed [of "ag_corr a"] by (simp add: drain_item_None issued_ids_def)
next
  case (Some ev)
  let ?c = "fst (handle (ord (c_ops (ag_corr a))) ev (ag_corr a))"
  show ?thesis
    using owed_handle [of "ord (c_ops (ag_corr a))" ev "ag_corr a"] owed_take_flushed [of ?c]
    by (simp add: drain_item_Some [OF Some] issued_ids_def is_request_Some [OF Some] add.assoc)
qed

interpretation op_ledger: ledger "drain_item h ord" "\<lambda>_. True" "\<lambda>_. True" "\<lambda>a. owed_ids (ag_corr a)" rec_ids issued_ids
  for h :: "evt_proc_exec \<Rightarrow> 'f \<Rightarrow> 'f" and ord :: ops_order
  by unfold_locales (simp_all add: drain_item_ledger)

definition op_id_of :: "nat \<Rightarrow> string" where
  "op_id_of n = hex_fixed 16 (unat (of_nat n :: u64))"

lemma counter_drain_item:
  "c_op_counter (ag_corr (fst (drain_item h ord bytes a)))
    = c_op_counter (ag_corr a) + (if is_request bytes then 1 else 0)"
proof (cases "parse_event bytes")
  case None
  then show ?thesis by (simp add: drain_item_None is_request_def take_flushed_ops_def)
next
  case (Some ev)
  then show ?thesis
    by (cases ev) (auto simp: drain_item_Some is_request_def take_flushed_ops_def counter_handle)
qed

lemma issued_by_ids:
  "c_op_counter (ag_corr a) = of_nat n \<Longrightarrow>
    op_ledger.issued_by h ord items a = mset (map op_id_of [Suc n..<Suc (n + length (filter is_request items))])"
proof (induction items arbitrary: a n)
  case Nil
  then show ?case by (simp add: op_ledger.issued_by.simps)
next
  case (Cons b items)
  let ?a = "fst (drain_item h ord b a)"
  show ?case
  proof (cases "is_request b")
    case True
    with Cons.prems have "c_op_counter (ag_corr ?a) = of_nat (Suc n)"
      by (simp add: counter_drain_item add.commute)
    note IH = Cons.IH [OF this]
    have "issued_ids b a = {#op_id_of (Suc n)#}"
      using True Cons.prems by (simp add: issued_ids_def next_op_id_def op_id_of_def Let_def add.commute)
    moreover have "[Suc n..<Suc (n + Suc m)] = Suc n # [Suc (Suc n)..<Suc (Suc n + m)]" for m
      by (simp add: upt_rec)
    ultimately show ?thesis using True IH by (simp add: op_ledger.issued_by.simps del: upt_Suc)
  next
    case False
    with Cons.prems have "c_op_counter (ag_corr ?a) = of_nat n" by (simp add: counter_drain_item)
    moreover have "issued_ids b a = {#}" using False by (simp add: issued_ids_def)
    ultimately show ?thesis using False Cons.IH by (simp add: op_ledger.issued_by.simps del: upt_Suc)
  qed
qed

end
