(* ===== verification/CorrShape.thy ===== *)
theory CorrShape
  imports CorrLedger
begin

text \<open>
  The shape of what is emitted. \<open>op_wf\<close> is what the state keeps of an open operation, \<open>op_shape\<close> what
  every emitted operation satisfies, \<open>conn_shape\<close> what every emitted connection does. \<open>agent_ok\<close>
  collects the invariants of the whole agent, and the \<open>machine\<close> interface of \<open>Machine\<close>, interpreted
  on the drain loop, carries them over every run.
\<close>

section \<open>Open operations\<close>

definition op_wf :: "u8 list \<Rightarrow> fd_key \<Rightarrow> open_op \<Rightarrow> bool" where
  "op_wf salt key op \<longleftrightarrow>
     (\<forall>h. oo_key_hash op = Some h \<longrightarrow> (\<exists>k. h = key_hash_salted salt k))
   \<and> (\<forall>s. oo_s3_op op = Some s \<longrightarrow> (\<exists>x. s = as_str x))
   \<and> is_token (oo_verb op)
   \<and> (\<forall>x. oo_cookie op = Some x \<longrightarrow> snd key = 0 \<and> x \<noteq> 0)
   \<and> (\<forall>rs. oo_resp op = Some rs \<longrightarrow> rp_body_seen rs < rp_body_target rs)"

lemma parse_request_is_token: "parse_request b = Some req \<Longrightarrow> is_token (rq_method req)"
  by (auto simp: parse_request_def Let_def split: list.splits option.splits if_splits prod.splits)

lemma op_wf_new_op:
  assumes "parse_request (captured e) = Some req"
  shows "op_wf (c_key_salt c) (hdr_tgid (td_hdr e), td_fd e) (new_op e req c)"
  using parse_request_is_token [OF assms]
  by (auto simp: op_wf_def new_op_def resolve_request_def bio_cookie_def Let_def split_beta)

lemma op_wf_slot_read:
  assumes "slot_read x y r" and "x = Some op" and "op_wf salt key op"
  shows "(\<forall>op'. y = Some op' \<longrightarrow> op_wf salt key op')"
  using assms by (induction rule: slot_read.induct) (auto simp: op_wf_def)

text \<open>The finished operation keeps what \<open>build_op\<close> reads of it.\<close>

definition op_base :: "u8 list \<Rightarrow> open_op \<Rightarrow> bool" where
  "op_base salt op \<longleftrightarrow> (\<forall>h. oo_key_hash op = Some h \<longrightarrow> (\<exists>k. h = key_hash_salted salt k))
     \<and> (\<forall>s. oo_s3_op op = Some s \<longrightarrow> (\<exists>x. s = as_str x)) \<and> is_token (oo_verb op)"

lemma op_wf_base: "op_wf salt key op \<Longrightarrow> op_base salt op"
  by (auto simp: op_wf_def op_base_def)

lemma slot_read_result:
  assumes "slot_read x y r" and "x = Some op" and "op_wf salt key op" and "r = Some (op', f)"
  shows "op_base salt op' \<and> facts_ok f"
  using assms by (induction rule: slot_read.induct) (auto simp: op_wf_def op_base_def)

section \<open>Emitted operations\<close>

definition op_shape :: "u8 list \<Rightarrow> operation \<Rightarrow> bool" where
  "op_shape salt r \<longleftrightarrow>
     (\<forall>h. o_key_hash r = Some h \<longrightarrow> (\<exists>k. h = key_hash_salted salt k))
   \<and> (\<forall>s. o_s3_op r = Some s \<longrightarrow> (\<exists>x. s = as_str x))
   \<and> (\<exists>v. o_verb r = Some v \<and> is_token v)
   \<and> (o_connection_reused r \<longleftrightarrow> 0 < o_req_seq r)
   \<and> (o_connection_reused r \<longrightarrow> o_dns r = None \<and> o_tcp_connect_ns r = None)
   \<and> (o_total_ns r = None \<longleftrightarrow> o_download_ns r = None)
   \<and> (o_total_ns r \<noteq> None \<longrightarrow> o_content_length r \<noteq> None \<and> o_http_status r \<noteq> None)
   \<and> (o_http_status r = None \<longrightarrow> o_content_length r = None \<and> o_aws_request_id r = None \<and> o_op_bytes_recv r = Some 0)
   \<and> o_ttfb_ns r \<noteq> Some 0 \<and> o_tcp_connect_ns r \<noteq> Some 0
   \<and> o_emitted_at r = None \<and> o_tls_handshake_ns r = None \<and> o_tls_version r = None
   \<and> o_bytes_sent r = 0 \<and> o_bytes_recv r = 0 \<and> o_retransmits r = 0
   \<and> o_srtt_us r = None \<and> o_lifetime_ns r = None"

lemma opt_filter_not_0 [simp]: "opt_filter (\<lambda>n. n \<noteq> 0) x \<noteq> Some (0 :: 'a :: zero)"
  by (auto simp: opt_filter_eq_Some)

lemma op_shape_build_op:
  assumes "op_base salt op" and "facts_ok f"
  shows "op_shape salt (build_op c key op f)"
  using assms unfolding op_shape_def op_base_def facts_ok_def
  by (auto simp: build_op_def Let_def split: option.splits)

definition ops_ok :: "corr \<Rightarrow> bool" where
  "ops_ok c \<longleftrightarrow> (\<forall>k op. open_at c k = Some op \<longrightarrow> op_wf (c_key_salt c) k op)
     \<and> (\<forall>r\<in>set (c_flushed_ops c). op_shape (c_key_salt c) r)"

lemma ops_okD: "ops_ok c \<Longrightarrow> open_at c k = Some op \<Longrightarrow> op_wf (c_key_salt c) k op"
  unfolding ops_ok_def by blast

lemma flush_out_shape: "ops_ok c \<Longrightarrow> r \<in> set (flush_out k c) \<Longrightarrow> op_shape (c_key_salt c) r"
proof (cases "open_at c k")
  case (Some op)
  assume "ops_ok c" "r \<in> set (flush_out k c)"
  with Some show ?thesis
    using op_wf_base [OF ops_okD, of c k op] facts_ok_on_flush [of op]
    by (cases "resp_facts_on_flush op") (simp_all add: flush_out_def op_shape_build_op)
qed (simp add: flush_out_def)

lemma ops_ok_flush_eq:
  assumes "ops_ok c" and "c_ops d = fmdrop k (c_ops c)" and "c_flushed_ops d = c_flushed_ops c @ flush_out k c"
    and "c_key_salt d = c_key_salt c"
  shows "ops_ok d"
  unfolding ops_ok_def
proof (intro conjI allI ballI impI)
  fix j op assume "open_at d j = Some op"
  then have "open_at c j = Some op" by (simp add: open_at_def assms(2) split: if_splits)
  then show "op_wf (c_key_salt d) j op" using ops_okD [OF assms(1)] assms(4) by simp
next
  fix r assume "r \<in> set (c_flushed_ops d)"
  then show "op_shape (c_key_salt d) r"
    using assms flush_out_shape [OF assms(1), of r k] by (auto simp: ops_ok_def)
qed

lemma ops_ok_flush [simp]: "ops_ok c \<Longrightarrow> ops_ok (flush_and_drop_op k c)"
  by (rule ops_ok_flush_eq) simp_all

lemma ops_ok_fold_flush [simp]: "ops_ok c \<Longrightarrow> ops_ok (fold flush_and_drop_op ks c)"
  by (induction ks arbitrary: c) simp_all

lemma ops_ok_cong:
  "ops_ok c \<Longrightarrow> c_ops d = c_ops c \<Longrightarrow> c_flushed_ops d = c_flushed_ops c \<Longrightarrow> c_key_salt d = c_key_salt c \<Longrightarrow> ops_ok d"
  by (simp add: ops_ok_def open_at_def)

lemma ops_ok_drop_stale [simp]: "ops_ok c \<Longrightarrow> ops_ok (drop_stale_link x t c)"
  by (auto simp: drop_stale_link_def intro: ops_ok_cong [OF ops_ok_flush] split: option.split)

lemma ops_ok_on_connect: "ops_ok c \<Longrightarrow> ops_ok (fst (on_connect e c))"
  by (rule ops_ok_cong [OF ops_ok_drop_stale]) (simp_all add: on_connect_def Let_def)

lemma ops_ok_close_flush [simp]: "ops_ok c \<Longrightarrow> ops_ok (close_flush ord x ts c)"
  by (simp add: close_flush_def split: option.split)

lemma ops_ok_on_close: "ops_ok c \<Longrightarrow> ops_ok (fst (on_close ord e c))"
  by (rule ops_ok_cong [OF ops_ok_close_flush [of c ord "hdr_sock_cookie (tcl_hdr e)" "hdr_ts_ns (tcl_hdr e)"]])
    (simp_all add: on_close_def Let_def split: option.split prod.split)

lemma ops_ok_facts:
  assumes "ops_ok c"
  shows "ops_ok (on_dns_query e1 c)" "ops_ok (on_dns_response e2 c)" "ops_ok (on_getaddrinfo e3 c)"
    "ops_ok (on_tls_handshake e4 c)" "ops_ok (on_tls_server e5 c)"
  by (rule ops_ok_cong [OF assms];
      simp add: on_dns_query_def on_dns_response_def on_getaddrinfo_def on_tls_handshake_def
        on_tls_server_def Let_def split: option.splits)+

lemma ops_ok_fold_evict_link [simp]: "ops_ok c \<Longrightarrow> ops_ok (fold evict_link ks c)"
proof (induction ks arbitrary: c)
  case (Cons k ks)
  have "ops_ok (evict_link k c)" by (rule ops_ok_flush_eq [OF Cons.prems]) simp_all
  then show ?case using Cons.IH by simp
qed simp

lemma ops_ok_links [simp]:
  "ops_ok (c\<lparr>c_fd_links := L\<rparr>) = ops_ok c" "ops_ok (c\<lparr>c_fd_links_rev := R\<rparr>) = ops_ok c"
  "ops_ok (c\<lparr>c_fd_links := L, c_fd_links_rev := R\<rparr>) = ops_ok c"
  by (simp_all add: ops_ok_def open_at_def)

lemma ops_ok_bind_link [simp]: "ops_ok c \<Longrightarrow> ops_ok (bind_link k x t c)"
  by (simp add: bind_link_def Let_def split: option.split)

lemma ops_ok_on_conn_id: "ops_ok c \<Longrightarrow> ops_ok (on_conn_id e c)"
  by (simp add: on_conn_id_def Let_def evict_links_def)

lemma ops_ok_reads:
  assumes "reads key c r" and "ops_ok c"
  shows "ops_ok (fst r) \<and> (\<forall>y. snd r = Some y \<longrightarrow> op_shape (c_key_salt c) y)"
proof -
  obtain c' x where r: "r = (c', x)" by (cases r)
  from assms(1) [unfolded r] show ?thesis
  proof (cases rule: readsE)
    case skip
    with assms(2) r show ?thesis by simp
  next
    case (step s s' y)
    show ?thesis
    proof (cases "co_open s")
      case None
      with step have "co_open s' = None" "y = None" by (simp_all add: slot_read_idle_iff)
      with step assms(2) r show ?thesis by (auto simp: ops_ok_def open_at_def)
    next
      case (Some op)
      have w: "op_wf (c_key_salt c) key op"
        using ops_okD [OF assms(2), of key op] step Some by (simp add: open_at_def)
      have "\<forall>op'. co_open s' = Some op' \<longrightarrow> op_wf (c_key_salt c) key op'"
        using op_wf_slot_read [OF _ Some w] step by blast
      moreover have "op_shape (c_key_salt c) z" if "x = Some z" for z
        using that step slot_read_result [OF _ Some w] by (auto intro: op_shape_build_op)
      ultimately show ?thesis
        using step assms(2) r by (auto simp: ops_ok_def open_at_def)
    qed
  qed
qed

lemma op_shape_flush_prev:
  assumes "op_wf salt k p"
  shows "op_shape salt (flush_prev c key ch p)"
  using op_wf_base [OF assms] facts_ok_on_flush [of p]
  by (auto simp: flush_prev_def op_base_def intro!: op_shape_build_op split: option.split)

lemma ops_ok_on_tls_write:
  assumes "ops_ok c"
  shows "ops_ok (fst (on_tls_write e c)) \<and> (\<forall>y. snd (on_tls_write e c) = Some y \<longrightarrow> op_shape (c_key_salt c) y)"
proof (cases "parse_request (captured e)")
  case None
  with assms show ?thesis by (auto simp: on_tls_write_None ops_ok_def open_at_def)
next
  case (Some req)
  let ?k = "(hdr_tgid (td_hdr e), td_fd e)"
  let ?d = "c\<lparr>c_ops := fmupd ?k (write_slot e req c) (c_ops c), c_op_counter := c_op_counter c + 1\<rparr>"
  have "ops_ok ?d"
    using assms op_wf_new_op [OF Some, of c] by (auto simp: ops_ok_def open_at_def write_slot_def)
  then have "ops_ok (evict_ops ?k ?d)" by (simp add: evict_ops_def)
  with Some show ?thesis
    by (auto simp: on_tls_write_Some Let_def intro: op_shape_flush_prev dest: ops_okD [OF assms])
qed

section \<open>Emitted connections and samples\<close>

definition conn_shape :: "connection \<Rightarrow> bool" where
  "conn_shape r \<longleftrightarrow>
     (cn_partial r \<longleftrightarrow> cn_ts_ns r = None)
   \<and> (cn_partial r \<longrightarrow> cn_tcp_connect_ns r = None \<and> cn_dns r = None \<and> app_pid (cn_app r) = 0
        \<and> ep_endpoint_ip (cn_endpoint r) = None \<and> ep_family (cn_endpoint r) = None
        \<and> ep_dport (cn_endpoint r) = None \<and> \<not> cn_connect_failed r)
   \<and> (cn_connect_failed r \<longrightarrow> cn_tcp_connect_ns r = None)
   \<and> cn_tcp_connect_ns r \<noteq> Some 0 \<and> cn_srtt_us r \<noteq> Some 0 \<and> cn_lifetime_ns r \<noteq> Some 0
   \<and> cn_min_rtt_us r \<notin> {Some 0, Some (- 1)} \<and> cn_app_limited r \<noteq> Some False
   \<and> (cn_busy_jiffies r = None \<longleftrightarrow> cn_rwnd_limited_jiffies r = None)
   \<and> (cn_busy_jiffies r = None \<longleftrightarrow> cn_sndbuf_limited_jiffies r = None)
   \<and> (cn_busy_jiffies r = Some 0 \<longrightarrow>
        cn_rwnd_limited_jiffies r \<noteq> Some 0 \<or> cn_sndbuf_limited_jiffies r \<noteq> Some 0)
   \<and> (\<not> tls_seen (cn_tls r) \<longrightarrow> cn_tls r = tls_default)
   \<and> tls_sni (cn_tls r) \<noteq> Some [] \<and> cn_emitted_at r = None"

lemma nonzero_not_0 [simp]: "nonzero x \<noteq> Some 0"
  by (simp add: nonzero_eq_Some)

lemma sat_add_eq_0: "sat_add a b = 0 \<longleftrightarrow> a = 0 \<and> b = 0"
proof
  assume z: "sat_add a b = 0"
  then have "a = 0" using sat_add_ge [of a b] by simp
  moreover from z this have "b = 0" by (auto simp: sat_add_def split: if_splits)
  ultimately show "a = 0 \<and> b = 0" by simp
qed simp

lemma conn_shape_close_record:
  assumes "state = None \<longrightarrow> dns = None \<and> ep_endpoint_ip ep = None \<and> ep_family ep = None \<and> ep_dport ep = None"
    and "\<not> tls_seen t \<longrightarrow> t = tls_default" and "tls_sni t \<noteq> Some []"
  shows "conn_shape (close_record e state ep dns t)"
  using assms unfolding conn_shape_def
  by (cases state) (auto simp: close_record_def Let_def sat_add_eq_0 then_some_def)

lemma close_tls_shape:
  "\<not> tls_seen (close_tls i h) \<longrightarrow> close_tls i h = tls_default" "tls_sni (close_tls i h) \<noteq> Some []"
  by (cases i; simp add: close_tls_def tls_default_def)+

lemma conn_shape_on_close: "snd (on_close ord e c) = Some r \<Longrightarrow> conn_shape r"
  by (auto simp: on_close_def Let_def close_endpoint_def close_tls_shape
      intro!: conn_shape_close_record split: option.splits prod.splits)

definition sample_shape :: "tcp_sample \<Rightarrow> bool" where
  "sample_shape r \<longleftrightarrow> sm_emitted_at r = None \<and> sm_ts_ns r \<noteq> Some 0 \<and> sm_srtt_us r \<noteq> Some 0
     \<and> sm_min_rtt_us r \<notin> {Some 0, Some (- 1)} \<and> sm_delivery_rate_bps r \<noteq> Some 0"

lemma sample_shape_on_tcp_sample: "on_tcp_sample e c = Some r \<Longrightarrow> sample_shape r"
  by (auto simp: on_tcp_sample_def sample_shape_def)

fun rec_shape :: "u8 list \<Rightarrow> out_record \<Rightarrow> bool" where
  "rec_shape salt (RecOperation r) = op_shape salt r"
| "rec_shape salt (RecConnection r) = conn_shape r"
| "rec_shape salt (RecTcpSample r) = sample_shape r"

section \<open>The invariants of the agent\<close>

definition corr_ok :: "u8 list \<Rightarrow> nat \<Rightarrow> corr \<Rightarrow> bool" where
  "corr_ok salt cap c \<longleftrightarrow> bounded c \<and> links_ok c \<and> ops_ok c \<and> c_key_salt c = salt \<and> c_max_open c = cap"

lemma consts_handle: "c_key_salt (fst (handle ord ev c)) = c_key_salt c \<and> c_max_open (fst (handle ord ev c)) = c_max_open c"
proof (cases ev)
  case (TlsWrite e)
  then show ?thesis
    by (cases "parse_request (captured e)") (simp_all add: handle_def on_tls_write_None on_tls_write_Some Let_def)
next
  case (TlsRead e)
  then show ?thesis using reads_on_tls_read [of e c] by (auto simp: handle_def reads_def)
next
  case (TlsReadBody e)
  then show ?thesis using reads_on_tls_read_body [of e c] by (auto simp: handle_def reads_def)
next
  case (TcpClose e)
  have "c_max_open (close_flush ord x ts c) = c_max_open c" for x ts
    by (simp add: close_flush_def split: option.split)
  with TcpClose show ?thesis by (simp add: handle_def on_close_def Let_def split: option.split prod.split)
qed (simp_all add: handle_def on_connect_def on_dns_query_def on_dns_response_def on_getaddrinfo_def
    on_tls_handshake_def on_tls_server_def on_conn_id_def Let_def split: option.split)

lemma ops_ok_handle: "ops_ok c \<Longrightarrow> ops_ok (fst (handle ord ev c))"
  by (cases ev) (simp_all add: handle_def ops_ok_on_connect ops_ok_on_close ops_ok_facts ops_ok_on_conn_id
      ops_ok_on_tls_write ops_ok_reads [OF reads_on_tls_read] ops_ok_reads [OF reads_on_tls_read_body])

lemma corr_ok_handle: "corr_ok salt cap c \<Longrightarrow> corr_ok salt cap (fst (handle ord ev c))"
  using consts_handle [of ord ev c]
  by (simp add: corr_ok_def bounded_handle links_ok_handle ops_ok_handle)

lemma handle_shape:
  assumes "ops_ok c" and "snd (handle ord ev c) = Some r"
  shows "rec_shape (c_key_salt c) r"
  using assms ops_ok_on_tls_write [OF assms(1)]
    ops_ok_reads [OF reads_on_tls_read assms(1)] ops_ok_reads [OF reads_on_tls_read_body assms(1)]
  by (cases ev) (auto simp: handle_def on_connect_def Let_def intro: conn_shape_on_close sample_shape_on_tcp_sample)

lemma corr_ok_take_flushed: "corr_ok salt cap c \<Longrightarrow> corr_ok salt cap (fst (take_flushed_ops c))"
  by (auto simp: corr_ok_def take_flushed_ops_def bounded_def links_ok_def ops_ok_def open_at_def)

lemma corr_ok_flushed_shape: "corr_ok salt cap c \<Longrightarrow> r \<in> set (c_flushed_ops c) \<Longrightarrow> op_shape salt r"
  by (auto simp: corr_ok_def ops_ok_def)

lemma corr_ok_drain_item:
  "corr_ok salt cap (ag_corr a) \<Longrightarrow> corr_ok salt cap (ag_corr (fst (drain_item h ord bytes a)))"
  by (cases "parse_event bytes") (simp_all add: drain_item_None drain_item_Some corr_ok_take_flushed corr_ok_handle)

lemma drain_item_shape:
  assumes ok: "corr_ok salt cap (ag_corr a)" and r: "r \<in> set (snd (drain_item h ord bytes a))"
  shows "rec_shape salt r"
proof (cases "parse_event bytes")
  case None
  with r corr_ok_flushed_shape [OF ok] show ?thesis by (auto simp: drain_item_None)
next
  case (Some ev)
  have "ops_ok (ag_corr a)" "c_key_salt (ag_corr a) = salt" using ok by (simp_all add: corr_ok_def)
  with r handle_shape [of "ag_corr a" "ord (c_ops (ag_corr a))" ev]
    corr_ok_flushed_shape [OF corr_ok_handle [OF ok]]
  show ?thesis by (auto simp: drain_item_Some [OF Some] opt_list_def split: option.splits)
qed

interpretation agent_machine: machine "drain_item h ord" "\<lambda>a. corr_ok salt cap (ag_corr a)" "rec_shape salt"
  for h :: "evt_proc_exec \<Rightarrow> 'f \<Rightarrow> 'f" and ord :: ops_order and salt :: "u8 list" and cap :: nat
  by unfold_locales (simp_all add: corr_ok_drain_item drain_item_shape)

lemma corr_ok_fresh:
  assumes "try_with_max_open read16 n = Inr c"
  shows "corr_ok (c_key_salt c) (max n 1) c"
  using assms
  by (auto simp: try_with_max_open_def corr_ok_def bounded_def links_ok_def inverse_links_def ops_ok_def open_at_def
      split: sum.splits)

end
