(* ===== verification/Capture.thy ===== *)
theory Capture
  imports CorrShape
begin

text \<open>
  Properties of whole captures: a correlator built by \<open>try_with_max_open\<close>, any sequence of ring items
  and the shutdown flush. Each follows from the \<open>ledger\<close> and \<open>machine\<close> interpretations of
  \<open>CorrLedger\<close> and \<open>CorrShape\<close> on the drain loop.
\<close>

section \<open>The shutdown flush\<close>

text \<open>An iteration order of a hash map lists its keys, each once.\<close>

definition ops_iter :: "ops_order \<Rightarrow> bool" where
  "ops_iter ord \<longleftrightarrow> (\<forall>m. distinct (ord m) \<and> set (ord m) = fmdom' m)"

lemma ops_iter_sorted: "ops_iter (\<lambda>m. sorted_list_of_fset (fmdom m))"
  by (simp add: ops_iter_def sorted_list_of_fset.rep_eq fmdom'_alt_def)

lemma fmdrop_all: "fmdom' m \<subseteq> set ks \<Longrightarrow> fmdrop_keys ks m = fmempty"
  by (rule fmap_ext) (auto simp: fmlookup_dom'_iff)

lemma flush_open_ops_all:
  assumes "ops_iter ord"
  shows "c_ops (flush_open_ops (ord (c_ops c)) c) = fmempty"
  using assms by (simp add: flush_open_ops_def ops_iter_def fmdrop_all)

lemma shutdown_ids:
  assumes "ops_iter ord"
  shows "(\<Sum>y\<leftarrow>snd (shutdown_flush ord c). rec_ids y) = owed_ids c"
proof -
  let ?d = "flush_open_ops (ord (c_ops c)) c"
  have "owed_ids ?d = op_ids (c_flushed_ops ?d)"
    by (simp add: owed_ids_def flush_open_ops_all [OF assms])
  moreover have "owed_ids ?d = owed_ids c" by (simp add: flush_open_ops_def)
  ultimately show ?thesis by (simp add: shutdown_flush_def take_flushed_ops_def)
qed

lemma corr_ok_flush_open_ops: "corr_ok salt cap c \<Longrightarrow> ops_ok (flush_open_ops ks c)"
  by (simp add: corr_ok_def flush_open_ops_def)

lemma shutdown_shape:
  assumes "corr_ok salt cap c" and "r \<in> set (snd (shutdown_flush ord c))"
  shows "rec_shape salt r"
proof -
  have "ops_ok (flush_open_ops (ord (c_ops c)) c)" by (rule corr_ok_flush_open_ops [OF assms(1)])
  moreover have "c_key_salt (flush_open_ops (ord (c_ops c)) c) = salt"
    using assms(1) by (simp add: flush_open_ops_def corr_ok_def)
  ultimately show ?thesis
    using assms(2) by (auto simp: shutdown_flush_def take_flushed_ops_def ops_ok_def)
qed

section \<open>A fresh agent\<close>

definition fresh :: "(string \<Rightarrow> string + u8 list) \<Rightarrow> nat \<Rightarrow> corr \<Rightarrow> bool" where
  "fresh read16 n c \<longleftrightarrow> (\<exists>c0 hosts. try_with_max_open read16 n = Inr c0 \<and> c = set_s3_endpoints hosts c0)"

lemma fresh_ok: "fresh read16 n c \<Longrightarrow> corr_ok (c_key_salt c) (max n 1) c"
  by (auto simp: fresh_def set_s3_endpoints_def corr_ok_def bounded_def links_ok_def ops_ok_def open_at_def
      dest: corr_ok_fresh)

lemma fresh_sel: "fresh read16 n c \<Longrightarrow> c_ops c = fmempty \<and> c_op_counter c = 0 \<and> c_flushed_ops c = []"
  by (auto simp: fresh_def set_s3_endpoints_def try_with_max_open_def split: sum.splits)

definition agent_of :: "corr \<Rightarrow> 'f option \<Rightarrow> 'f agent" where
  "agent_of c f = \<lparr>ag_corr = c, ag_undecoded = 0, ag_filter = f\<rparr>"

lemma agent_of_sel [simp]: "ag_corr (agent_of c f) = c" "ag_undecoded (agent_of c f) = 0" "ag_filter (agent_of c f) = f"
  by (simp_all add: agent_of_def)

lemma capture_eq:
  "capture h ord items a = snd (run (drain_item h ord) items a)
     @ snd (shutdown_flush ord (ag_corr (fst (run (drain_item h ord) items a))))"
  by (simp add: capture_def split_beta Let_def)

lemma capture_ids:
  assumes "fresh read16 n c" and "ops_iter ord"
  shows "(\<Sum>y\<leftarrow>capture h ord items (agent_of c f). rec_ids y)
    = mset (map op_id_of [1..<Suc (length (filter is_request items))])"
proof -
  have "c_op_counter (ag_corr (agent_of c f)) = of_nat 0" using fresh_sel [OF assms(1)] by simp
  note iss = issued_by_ids [OF this, of h ord items]
  have "owed_ids c = {#}" using fresh_sel [OF assms(1)] by (simp add: owed_ids_def)
  then show ?thesis
    using op_ledger.run_ledger [where s = "agent_of c f" and h = h and ord = ord and es = items] iss
    by (simp add: capture_eq shutdown_ids [OF assms(2)] del: upt_Suc)
qed

lemma capture_shape:
  assumes "corr_ok salt cap (ag_corr a)" and "r \<in> set (capture h ord items a)"
  shows "rec_shape salt r"
  using assms(2) agent_machine.run_good [OF assms(1)]
    shutdown_shape [OF agent_machine.run_inv [OF assms(1)]]
  by (auto simp: capture_eq)

lemma run_corr_ok:
  "fresh read16 n c \<Longrightarrow>
    corr_ok (c_key_salt c) (max n 1) (ag_corr (fst (run (drain_item h ord) items (agent_of c f))))"
  by (intro agent_machine.run_inv) (simp only: agent_of_sel fresh_ok)

definition emitted_ops :: "out_record list \<Rightarrow> operation list" where
  "emitted_ops out = concat (map (\<lambda>y. case y of RecOperation r \<Rightarrow> [r] | _ \<Rightarrow> []) out)"

lemma mset_emitted_ops: "mset (map o_op_id (emitted_ops out)) = (\<Sum>y\<leftarrow>out. rec_ids y)"
  by (induction out) (auto simp: emitted_ops_def split: out_record.split)

lemma op_id_of_inj:
  assumes "i < 2 ^ 64" and "j < 2 ^ 64" and "op_id_of i = op_id_of j"
  shows "i = j"
proof -
  have "unat (of_nat i :: u64) = i" "unat (of_nat j :: u64) = j"
    using assms(1,2) by (simp_all add: unat_of_nat)
  with assms hex_fixed_inj [of i 16 j] show ?thesis by (simp add: op_id_of_def)
qed

lemma distinct_op_ids: "n < 2 ^ 64 \<Longrightarrow> distinct (map op_id_of [1..<Suc n])"
  by (auto simp: distinct_map inj_on_def intro: op_id_of_inj simp del: upt_Suc)

lemma set_emitted_ops: "r \<in> set (emitted_ops out) \<longleftrightarrow> RecOperation r \<in> set out"
  by (force simp: emitted_ops_def split: out_record.splits)

lemma inverse_links_card:
  assumes "inverse_links L R"
  shows "fmlen R \<le> fmlen L"
proof -
  have "fmdom' R \<subseteq> (\<lambda>k. fl_cookie (the (fmlookup L k))) ` fmdom' L"
    using inverse_links_revD [OF assms] by (force simp: fmlookup_dom'_iff)
  then show ?thesis unfolding fmlen_def by (rule surj_card_le [rotated]) simp
qed

lemma flushed_empty_run:
  "c_flushed_ops (ag_corr a) = [] \<Longrightarrow> c_flushed_ops (ag_corr (fst (run (drain_item h ord) items a))) = []"
  by (induction items arbitrary: a) (simp_all add: drain_item_eqs take_flushed_ops_def)

section \<open>A sample request\<close>

text \<open>One captured \<open>SSL_write\<close>, laid out as the probe lays it out, for the witnesses.\<close>

definition sample_bytes :: "u8 list" where
  "sample_bytes = as_bytes ''GET /b/k HTTP/1.1''"

definition sample_write :: evt_tls_data where
  "sample_write = \<lparr>td_hdr = event_hdr_default\<lparr>hdr_schema_version := SCHEMA_VERSION, hdr_type := EVT_TLS_WRITE,
      hdr_ts_ns := 5, hdr_tgid := 7\<rparr>,
    td_fd = 9, td_plaintext_len = 17, td_captured_len = 17, td_captured_truncated = 0, td_pad = 0,
    td_data = sample_bytes @ replicate (HDR_CAP - 17) 0\<rparr>"

lemma captured_sample: "captured sample_write = sample_bytes"
proof -
  have "length sample_bytes = 17" by code_simp
  then show ?thesis by (simp add: captured_def sample_write_def array_sizes)
qed

lemma sample_is_request: "is_request (enc_event p (TlsWrite sample_write))"
proof -
  have "length sample_bytes = 17" by code_simp
  then have "wf_event (TlsWrite sample_write)"
    by (simp add: wf_event_def sample_write_def evt_tags array_sizes)
  moreover have "parse_request sample_bytes \<noteq> None" by code_simp
  ultimately show ?thesis
    by (simp add: is_request_def parse_event_enc captured_sample del: enc_event.simps)
qed

definition sample_corr :: "string list \<Rightarrow> corr" where
  "sample_corr hosts = set_s3_endpoints hosts
    \<lparr>c_conns = fmempty, c_max_open = 4, c_pending_dns = fmempty, c_resolutions = fmempty, c_gai = fmempty,
     c_tls = fmempty, c_fd_links = fmempty, c_fd_links_rev = fmempty, c_ops = fmempty, c_op_counter = 0,
     c_flushed_ops = [], c_parse_failures = 0, c_s3_endpoints = [], c_key_salt = replicate 16 1\<rparr>"

lemma fresh_sample: "fresh (\<lambda>_. Inr (replicate 16 1)) 4 (sample_corr hosts)"
  by (auto simp: fresh_def try_with_max_open_def random_salt_from_def ENTROPY_SOURCES_def sample_corr_def)

definition sample_close :: evt_tcp_close where
  "sample_close = (evt_tcp_close_default)
    \<lparr>tcl_hdr := event_hdr_default\<lparr>hdr_schema_version := SCHEMA_VERSION, hdr_type := EVT_TCP_CLOSE, hdr_sock_cookie := 77\<rparr>\<rparr>"

definition sample_items :: "u8 list list" where
  "sample_items = [enc_event (\<lambda>_. 3) (TlsWrite sample_write), enc_event (\<lambda>_. 4) (TcpClose sample_close)]"

definition sample_order :: ops_order where
  "sample_order m = sorted_list_of_fset (fmdom m)"

lemma ops_iter_sample: "ops_iter sample_order"
  using ops_iter_sorted by (simp add: sample_order_def [abs_def])

lemma sample_close_wf: "parse_event (enc_event p (TcpClose sample_close)) = Some (TcpClose sample_close)"
  by (rule parse_event_enc) (simp add: wf_event_def sample_close_def evt_tags)

lemma sample_emits_op: "\<exists>r. RecOperation r \<in> set (capture h sample_order sample_items (agent_of (sample_corr []) f))"
proof -
  have "\<not> is_request (enc_event (\<lambda>_. 4) (TcpClose sample_close))"
    by (simp add: is_request_def sample_close_wf del: enc_event.simps)
  then have "filter is_request sample_items = [enc_event (\<lambda>_. 3) (TlsWrite sample_write)]"
    by (simp add: sample_items_def sample_is_request del: enc_event.simps)
  with capture_ids [OF fresh_sample ops_iter_sample, of h sample_items "[]" f]
  have "mset (map o_op_id (emitted_ops (capture h sample_order sample_items (agent_of (sample_corr []) f)))) \<noteq> {#}"
    unfolding mset_emitted_ops by simp
  then obtain r where "r \<in> set (emitted_ops (capture h sample_order sample_items (agent_of (sample_corr []) f)))"
    by (cases "emitted_ops (capture h sample_order sample_items (agent_of (sample_corr []) f))") auto
  then show ?thesis unfolding set_emitted_ops by blast
qed

lemma sample_emits_conn: "\<exists>r. RecConnection r \<in> set (capture h sample_order sample_items (agent_of (sample_corr []) f))"
proof -
  have cl: "\<exists>r. snd (on_close ord e c) = Some r" for ord e c
    by (auto simp: on_close_def Let_def split: option.split prod.split)
  have "\<exists>r. RecConnection r \<in> set (snd (drain_item h ord (enc_event p (TcpClose sample_close)) a))"
    for ord p and a :: "'a agent"
    using cl [of "ord (c_ops (ag_corr a))" sample_close "ag_corr a"]
    by (auto simp: drain_item_Some [OF sample_close_wf] handle_def opt_list_def simp del: enc_event.simps)
  then show ?thesis by (fastforce simp: capture_eq sample_items_def simp del: enc_event.simps)
qed

section \<open>Properties\<close>

text \<open>C1: conservation. Whatever items the rings deliver and in whatever order, and whatever order the hash
  map iterates in, a capture that ends with the shutdown flush emits exactly one operation for each
  request the correlator parsed, never two and never none: the ids of the emitted operations are the
  first \<open>n\<close> counter values, each once, where \<open>n\<close> is the number of captured requests. Eviction, a
  reused descriptor, a closed connection or an interrupted response loses nothing.\<close>

theorem every_request_emitted_once:
  fixes a :: "'f agent"
  assumes "fresh read16 cap c" and "ops_iter ord" and "a = agent_of c f"
    and "length (filter is_request items) < 2 ^ 64"
  shows "mset (map o_op_id (emitted_ops (capture h ord items a)))
      = mset (map op_id_of [1..<Suc (length (filter is_request items))])
    \<and> distinct (map o_op_id (emitted_ops (capture h ord items a)))"
proof -
  have "mset (map o_op_id (emitted_ops (capture h ord items a)))
      = mset (map op_id_of [1..<Suc (length (filter is_request items))])"
    unfolding mset_emitted_ops assms(3) by (rule capture_ids [OF assms(1,2)])
  moreover from this have "distinct (map o_op_id (emitted_ops (capture h ord items a)))"
    using distinct_op_ids [OF assms(4)] by (metis mset_eq_imp_distinct_iff)
  ultimately show ?thesis by blast
qed

lemma every_request_emitted_once_witness:
  "map o_op_id (emitted_ops (capture (\<lambda>_. id) (\<lambda>m. sorted_list_of_fset (fmdom m))
      [[1, 2], enc_event (\<lambda>_. 3) (TlsWrite sample_write)] (agent_of (sample_corr [''minio'']) (Some ()))))
    = [''0000000000000001'']"
proof -
  have "\<not> is_request [1, 2]"
    by (simp add: is_request_def parse_event_def peek_schema_version_def then_some_def)
  then have n: "filter is_request [[1, 2], enc_event (\<lambda>_. 3) (TlsWrite sample_write)]
      = [enc_event (\<lambda>_. 3) (TlsWrite sample_write)]"
    by (simp add: sample_is_request del: enc_event.simps)
  have "op_id_of 1 = ''0000000000000001''" by (simp add: op_id_of_def) code_simp
  then have "mset (map o_op_id (emitted_ops (capture (\<lambda>_. id) (\<lambda>m. sorted_list_of_fset (fmdom m))
      [[1, 2], enc_event (\<lambda>_. 3) (TlsWrite sample_write)] (agent_of (sample_corr [''minio'']) (Some ())))))
    = {#''0000000000000001''#}"
    using every_request_emitted_once [OF fresh_sample ops_iter_sorted refl,
      of "[[1, 2], enc_event (\<lambda>_. 3) (TlsWrite sample_write)]" "\<lambda>_. id" "[''minio'']" "Some ()"] n
    by (simp del: enc_event.simps mset_map)
  then show ?thesis by (simp only: mset_single_iff)
qed

text \<open>C8: every operation of a capture is well formed. The key is there only as a keyed hash in its
  written form, the operation's name is one of the taxonomy and its verb a token; setup costs appear
  only on the first request of a connection; a measured download comes with a total, a status and a
  content length; a request that was never answered carries no response facts; a time to the first byte or
  to connect is never given as zero (a download may be: the body can end with its head); and the counters that belong to the connection record stay at their pinned values.\<close>

theorem operations_well_formed:
  fixes a :: "'f agent"
  assumes "fresh read16 cap c" and "a = agent_of c f" and "RecOperation r \<in> set (capture h ord items a)"
  shows "op_shape (c_key_salt c) r \<and> (\<forall>k. o_key_hash r = Some k \<longrightarrow> hashed_form k)"
proof -
  have "corr_ok (c_key_salt c) (max cap 1) (ag_corr a)"
    unfolding assms(2) agent_of_sel by (rule fresh_ok [OF assms(1)])
  from capture_shape [OF this assms(3)] have "op_shape (c_key_salt c) r" by simp
  then show ?thesis by (auto simp: op_shape_def intro: hashed_form_key_hash)
qed

lemma operations_well_formed_witness:
  "\<exists>r. RecOperation r \<in> set (capture (\<lambda>_. id) sample_order sample_items (agent_of (sample_corr []) (Some ())))
    \<and> op_shape (c_key_salt (sample_corr [])) r"
  using sample_emits_op [of "\<lambda>_. id" "Some ()"] operations_well_formed [OF fresh_sample refl] by blast

text \<open>Every connection of a capture is well formed. It is partial exactly when its connect was not
  seen, and then reports no endpoint, no DNS and no connect time; a failed connect reports no connect
  time; the kernel's zero and all-ones sentinels are absent, not numbers; the three stall counters come
  together or not at all, and never as three zeros; without any TLS fact the TLS block is empty.\<close>

theorem connections_well_formed:
  fixes a :: "'f agent"
  assumes "fresh read16 cap c" and "a = agent_of c f" and "RecConnection r \<in> set (capture h ord items a)"
  shows "conn_shape r"
proof -
  have "corr_ok (c_key_salt c) (max cap 1) (ag_corr a)"
    unfolding assms(2) agent_of_sel by (rule fresh_ok [OF assms(1)])
  from capture_shape [OF this assms(3)] show ?thesis by simp
qed

lemma connections_well_formed_witness:
  "\<exists>r. RecConnection r \<in> set (capture (\<lambda>_. id) sample_order sample_items (agent_of (sample_corr []) (Some ())))
    \<and> conn_shape r"
  using sample_emits_conn [of "\<lambda>_. id" "Some ()"] connections_well_formed [OF fresh_sample refl] by blast

text \<open>C9: bounded memory. After any sequence of ring items every map of the correlator is within its cap:
  the connection-keyed maps within the configured one (at least one), the DNS maps within
  \<open>DNS_MAP_CAP\<close>, and nothing is left in the flush queue after an item was drained.\<close>

theorem memory_bounded:
  fixes a :: "'f agent"
  assumes "fresh read16 cap c" and "a = agent_of c f"
    and "d = ag_corr (fst (run (drain_item h ord) items a))"
  shows "fmlen (c_conns d) \<le> max cap 1 \<and> fmlen (c_tls d) \<le> max cap 1 \<and> fmlen (c_ops d) \<le> max cap 1
    \<and> fmlen (c_fd_links d) \<le> max cap 1 \<and> fmlen (c_fd_links_rev d) \<le> max cap 1
    \<and> fmlen (c_pending_dns d) \<le> DNS_MAP_CAP \<and> fmlen (c_resolutions d) \<le> DNS_MAP_CAP \<and> fmlen (c_gai d) \<le> DNS_MAP_CAP
    \<and> c_flushed_ops d = []"
proof -
  have ok: "corr_ok (c_key_salt c) (max cap 1) d"
    unfolding assms(2,3) by (rule run_corr_ok [OF assms(1)])
  then have "fmlen (c_fd_links_rev d) \<le> fmlen (c_fd_links d)"
    by (intro inverse_links_card) (simp add: corr_ok_def links_ok_def)
  moreover have "c_flushed_ops d = []"
    using flushed_empty_run [of a h ord items] fresh_sel [OF assms(1)] by (simp add: assms(2,3))
  ultimately show ?thesis using ok by (simp add: corr_ok_def bounded_def)
qed

lemma memory_bounded_witness:
  "fmlen (c_ops (ag_corr (fst (run (drain_item (\<lambda>_. id) sample_order) sample_items (agent_of (sample_corr []) (Some ())))))) \<le> 4"
  using memory_bounded [OF fresh_sample refl refl, of "\<lambda>_. id" sample_order sample_items "[]" "Some ()"] by simp

text \<open>The two descriptor maps stay inverse to each other in every run: a descriptor is linked to a
  cookie exactly when that cookie leads back to it, so a close reaches the slot its requests are in.\<close>

theorem links_inverse:
  fixes a :: "'f agent"
  assumes "fresh read16 cap c" and "a = agent_of c f"
    and "d = ag_corr (fst (run (drain_item h ord) items a))"
  shows "cookie_for_fd d tgid fd = Some x \<longleftrightarrow> fmlookup (c_fd_links_rev d) x = Some (tgid, fd)"
proof -
  have "corr_ok (c_key_salt c) (max cap 1) d"
    unfolding assms(2,3) by (rule run_corr_ok [OF assms(1)])
  then show ?thesis
    by (simp only: corr_ok_def links_ok_def cookie_for_fd_def inverse_linksD)
qed

lemma links_inverse_witness:
  "\<exists>d. d = ag_corr (fst (run (drain_item (\<lambda>_. id) sample_order) sample_items (agent_of (sample_corr []) (Some ()))))
    \<and> (cookie_for_fd d 7 9 = Some 77 \<longleftrightarrow> fmlookup (c_fd_links_rev d) 77 = Some (7, 9))"
  using links_inverse [OF fresh_sample refl refl, of "\<lambda>_. id" sample_order sample_items "[]" "Some ()" 7 9 77] by blast

end
