(* ===== verification/PlainProps.thy ===== *)
theory PlainProps
  imports Capture
begin

text \<open>
  Properties of the plaintext handlers: the life cycle of a slot, the body count, pipelined requests,
  descriptor reuse and the isolation of slots.
\<close>

section \<open>The life cycle of a slot\<close>

text \<open>The abstract state machine: no request, a request without a final response, a body of \<open>t\<close> bytes of
  which \<open>n\<close> were seen. The flag tells whether the step emits an operation.\<close>

datatype phase = Idle | Requested | Streaming u64 u64

definition phase_of :: "open_op option \<Rightarrow> phase" where
  "phase_of x = (case x of None \<Rightarrow> Idle | Some op \<Rightarrow>
     (case oo_resp op of None \<Rightarrow> Requested | Some rs \<Rightarrow> Streaming (rp_body_seen rs) (rp_body_target rs)))"

inductive phase_step :: "phase \<Rightarrow> phase \<Rightarrow> bool \<Rightarrow> bool" where
  stay: "phase_step p p False"
| respond: "n < t \<Longrightarrow> phase_step Requested (Streaming n t) False"
| progress: "n \<le> n' \<Longrightarrow> n' < t \<Longrightarrow> phase_step (Streaming n t) (Streaming n' t) False"
| answered: "phase_step Requested Idle True"
| drained: "phase_step (Streaming n t) Idle True"

inductive_simps phase_step_Idle [simp]: "phase_step Idle p b"

lemma phase_slot_read:
  assumes "slot_read x y r" and "\<forall>op. x = Some op \<longrightarrow> op_wf salt k op"
  shows "phase_step (phase_of x) (phase_of y) (r \<noteq> None)"
  using assms
  by (induction rule: slot_read.induct)
    (auto simp: phase_of_def op_wf_def sat_add_ge intro: phase_step.intros split: option.splits)

lemma phase_reads:
  assumes "reads key c r" and "ops_ok c"
  shows "phase_step (phase_of (open_at c key)) (phase_of (open_at (fst r) key)) (snd r \<noteq> None)"
proof -
  obtain c' x where r: "r = (c', x)" by (cases r)
  from assms(1) [unfolded r] show ?thesis
  proof (cases rule: readsE)
    case skip
    then show ?thesis by (simp add: r phase_step.stay)
  next
    case (step s s' y)
    have "\<forall>op. co_open s = Some op \<longrightarrow> op_wf (c_key_salt c) key op"
      using ops_okD [OF assms(2), of key] step(1) by (simp add: open_at_def)
    from phase_slot_read [OF step(5) this] show ?thesis
      using step by (simp add: r open_at_def)
  qed
qed

lemma on_tls_write_open_at:
  assumes "parse_request (captured e) = Some req"
  shows "open_at (fst (on_tls_write e c)) (hdr_tgid (td_hdr e), td_fd e) = Some (new_op e req c)"
  by (simp add: on_tls_write_Some [OF assms] Let_def open_at_def write_slot_def)

section \<open>The body count\<close>

text \<open>A read of plaintext: with captured bytes, or with their length only.\<close>

datatype plain_read = DataRead evt_tls_data | BodyRead evt_tls_body

fun rd_key :: "plain_read \<Rightarrow> fd_key" where
  "rd_key (DataRead e) = (hdr_tgid (td_hdr e), td_fd e)"
| "rd_key (BodyRead e) = (hdr_tgid (tb_hdr e), tb_fd e)"

fun rd_hdr :: "plain_read \<Rightarrow> event_hdr" where
  "rd_hdr (DataRead e) = td_hdr e"
| "rd_hdr (BodyRead e) = tb_hdr e"

fun rd_len :: "plain_read \<Rightarrow> u32" where
  "rd_len (DataRead e) = td_plaintext_len e"
| "rd_len (BodyRead e) = tb_plaintext_len e"

fun plain_step :: "plain_read \<Rightarrow> corr \<Rightarrow> corr \<times> operation list" where
  "plain_step (DataRead e) c = (fst (on_tls_read e c), opt_list (snd (on_tls_read e c)))"
| "plain_step (BodyRead e) c = (fst (on_tls_read_body e c), opt_list (snd (on_tls_read_body e c)))"

text \<open>A read on the descriptor of \<open>key\<close>. Descriptor 0 is shared by custom transports: there it is a read
  of another connection if both name one and they differ.\<close>

definition own_read :: "fd_key \<Rightarrow> u64 option \<Rightarrow> plain_read \<Rightarrow> bool" where
  "own_read key cookie r \<longleftrightarrow> rd_key r = key
    \<and> (snd key \<noteq> 0 \<or> hdr_sock_cookie (rd_hdr r) = 0 \<or> cookie = None \<or> cookie = Some (hdr_sock_cookie (rd_hdr r)))"

definition streaming :: "corr \<Rightarrow> fd_key \<Rightarrow> open_op \<Rightarrow> resp_state \<Rightarrow> bool" where
  "streaming c key op rs \<longleftrightarrow> open_at c key = Some op \<and> oo_resp op = Some rs"

lemma streaming_slot:
  "streaming c key op rs \<Longrightarrow> \<exists>s. fmlookup (c_ops c) key = Some s \<and> co_open s = Some op \<and> oo_resp op = Some rs"
  by (auto simp: streaming_def open_at_def Option.bind_eq_Some_conv)

lemma unat_sat_add_small: "unat a + unat b < unat t \<Longrightarrow> unat (sat_add a b) = unat a + unat b" for a b t :: u64
  using unat_bound [of t] by (simp add: unat_sat_add)

lemma unat_ucast_u32 [simp]: "unat (ucast (x :: u32) :: u64) = unat x"
  using unat_bound [of x] by (simp add: unsigned_ucast_eq take_bit_nat_eq_self_iff)

lemma plain_step_tally:
  assumes "own_read key (oo_cookie op) r" and "streaming c key op rs" and "rp_body_seen rs < rp_body_target rs"
  shows "plain_step r c = (let x = tally_body key (hdr_ts_ns (rd_hdr r)) (rd_len r) c in (fst x, opt_list (snd x)))"
proof -
  have "\<not> foreign_bio c key (hdr_sock_cookie (rd_hdr r))" and "awaiting_body c key"
    using assms by (auto simp: own_read_def foreign_bio_def awaiting_body_def streaming_def)
  then show ?thesis using assms(1)
    by (cases r) (auto simp: own_read_def on_tls_read_def on_tls_read_body_def Let_def)
qed

lemma body_progress:
  assumes "own_read key (oo_cookie op) r" "streaming c key op rs"
    and "unat (rp_body_seen rs) + unat (rd_len r) < unat (rp_body_target rs)"
  shows "\<exists>op' rs'. snd (plain_step r c) = [] \<and> streaming (fst (plain_step r c)) key op' rs'
    \<and> rs' = rs\<lparr>rp_body_seen := rp_body_seen rs'\<rparr> \<and> op' = op\<lparr>oo_resp := Some rs'\<rparr>
    \<and> unat (rp_body_seen rs') = unat (rp_body_seen rs) + unat (rd_len r)"
proof -
  let ?n = "sat_add (rp_body_seen rs) (ucast (rd_len r))"
  have n: "unat ?n = unat (rp_body_seen rs) + unat (rd_len r)"
    using assms(3) by (subst unat_sat_add_small [of _ _ "rp_body_target rs"]) simp_all
  then have lt: "?n < rp_body_target rs" "rp_body_seen rs < rp_body_target rs"
    using assms(3) by (simp_all add: word_less_nat_alt)
  obtain s where s: "fmlookup (c_ops c) key = Some s" "co_open s = Some op" "oo_resp op = Some rs"
    using streaming_slot [OF assms(2)] by blast
  let ?rs = "rs\<lparr>rp_body_seen := ?n\<rparr>"
  have "streaming (fst (plain_step r c)) key (op\<lparr>oo_resp := Some ?rs\<rparr>) ?rs" "snd (plain_step r c) = []"
    using s lt plain_step_tally [OF assms(1,2) lt(2)]
    by (simp_all add: Let_def tally_body_def streaming_def open_at_def set_slot_def opt_list_def)
  with n show ?thesis by (intro exI [of _ "op\<lparr>oo_resp := Some ?rs\<rparr>"] exI [of _ ?rs]) simp
qed

lemma body_finish:
  assumes "own_read key (oo_cookie op) r" "streaming c key op rs" "rp_body_seen rs < rp_body_target rs"
    and "unat (rp_body_target rs) \<le> unat (rp_body_seen rs) + unat (rd_len r)"
  shows "\<exists>x. snd (plain_step r c) = [x] \<and> open_at (fst (plain_step r c)) key = None
    \<and> o_op_id x = oo_op_id op \<and> o_content_length x = Some (rp_body_target rs)
    \<and> o_http_status x = Some (rp_status rs)
    \<and> o_download_ns x = Some (sat_sub (hdr_ts_ns (rd_hdr r)) (rp_head_ts rs))
    \<and> o_total_ns x = Some (sat_sub (hdr_ts_ns (rd_hdr r)) (oo_ts_ns op))"
proof -
  have "unat (rp_body_target rs) \<le> unat (sat_add (rp_body_seen rs) (ucast (rd_len r)))"
    using assms(4) unat_bound [of "rp_body_target rs"] by (simp add: unat_sat_add)
  then have "\<not> sat_add (rp_body_seen rs) (ucast (rd_len r)) < rp_body_target rs"
    by (simp add: word_less_nat_alt)
  moreover obtain s where s: "fmlookup (c_ops c) key = Some s" "co_open s = Some op" "oo_resp op = Some rs"
    using streaming_slot [OF assms(2)] by blast
  ultimately show ?thesis using plain_step_tally [OF assms(1-3)]
    by (simp add: Let_def tally_body_def open_at_def set_slot_def opt_list_def build_op_def)
qed

lemma body_run:
  assumes "list_all (own_read key (oo_cookie op)) es" "streaming c key op rs"
    and "unat (rp_body_seen rs) + (\<Sum>e\<leftarrow>es. unat (rd_len e)) < unat (rp_body_target rs)"
  shows "\<exists>op' rs'. snd (run plain_step es c) = [] \<and> streaming (fst (run plain_step es c)) key op' rs'
    \<and> oo_cookie op' = oo_cookie op
    \<and> oo_op_id op' = oo_op_id op \<and> oo_ts_ns op' = oo_ts_ns op \<and> rp_head_ts rs' = rp_head_ts rs
    \<and> rp_status rs' = rp_status rs \<and> rp_body_target rs' = rp_body_target rs
    \<and> unat (rp_body_seen rs') = unat (rp_body_seen rs) + (\<Sum>e\<leftarrow>es. unat (rd_len e))"
  using assms
proof (induction es arbitrary: c op rs)
  case Nil
  then show ?case by auto
next
  case (Cons e es)
  from Cons.prems have "own_read key (oo_cookie op) e" "unat (rp_body_seen rs) + unat (rd_len e) < unat (rp_body_target rs)"
    by auto
  from body_progress [OF this(1) Cons.prems(2) this(2)] obtain op1 rs1 where
    p: "snd (plain_step e c) = []" "streaming (fst (plain_step e c)) key op1 rs1"
      "rs1 = rs\<lparr>rp_body_seen := rp_body_seen rs1\<rparr>" "op1 = op\<lparr>oo_resp := Some rs1\<rparr>"
      "unat (rp_body_seen rs1) = unat (rp_body_seen rs) + unat (rd_len e)" by blast
  have f: "rp_head_ts rs1 = rp_head_ts rs" "rp_status rs1 = rp_status rs" "rp_body_target rs1 = rp_body_target rs"
    by (subst p(3), simp)+
  have g: "oo_op_id op1 = oo_op_id op" "oo_ts_ns op1 = oo_ts_ns op" "oo_cookie op1 = oo_cookie op" by (subst p(4), simp)+
  show ?case using Cons.IH [OF _ p(2)] Cons.prems p(1,5) f g by (simp add: add.assoc)
qed

section \<open>Requests in a row\<close>

definition write_step :: "evt_tls_data \<Rightarrow> corr \<Rightarrow> corr \<times> operation list" where
  "write_step e c = (fst (on_tls_write e c), opt_list (snd (on_tls_write e c)))"

text \<open>A request on the descriptor \<open>key\<close>, not through a custom transport (a descriptor other than 0).\<close>

definition request_on :: "fd_key \<Rightarrow> evt_tls_data \<Rightarrow> bool" where
  "request_on key e \<longleftrightarrow> (hdr_tgid (td_hdr e), td_fd e) = key \<and> snd key \<noteq> 0 \<and> parse_request (captured e) \<noteq> None"

lemma request_onD:
  "request_on key e \<Longrightarrow> \<exists>req. parse_request (captured e) = Some req \<and> bio_cookie e = None \<and> \<not> bio_conn_changed e k c"
  by (auto simp: request_on_def bio_cookie_def bio_conn_changed_def)

lemma write_slot_after:
  assumes "request_on key e" and "parse_request (captured e) = Some req"
  shows "slot (fst (on_tls_write e c)) key = write_slot e req c"
  using assms by (simp add: on_tls_write_Some Let_def request_on_def slot_def)

lemma unanswered_write:
  assumes "request_on key e" and "open_at c key = Some p" and "oo_resp p = None"
  shows "\<exists>q r. snd (write_step e c) = [r] \<and> open_at (fst (write_step e c)) key = Some q \<and> oo_resp q = None
    \<and> o_op_id r = oo_op_id p \<and> o_req_seq r = oo_req_seq p \<and> o_delimitation r = Ambiguous
    \<and> o_http_status r = None \<and> oo_req_seq q = co_next_seq (slot c key)
    \<and> co_next_seq (slot (fst (write_step e c)) key) = co_next_seq (slot c key) + 1"
proof -
  obtain req where r: "parse_request (captured e) = Some req" "bio_cookie e = None" "\<not> bio_conn_changed e key c"
    using request_onD [OF assms(1)] by blast
  have k: "(hdr_tgid (td_hdr e), td_fd e) = key" using assms(1) by (simp add: request_on_def)
  have flush: "snd (on_tls_write e c) = Some (build_op c key (p\<lparr>oo_ambiguous := True\<rparr>) resp_facts_default)"
    using r assms(2,3) k by (simp add: on_tls_write_Some Let_def flush_prev_def resp_facts_on_flush_def)
  have q: "open_at (fst (on_tls_write e c)) key = Some (new_op e req c)"
    using on_tls_write_open_at [OF r(1), of c] k by simp
  have "co_next_seq (slot (fst (on_tls_write e c)) key) = co_next_seq (slot c key) + 1"
    "oo_req_seq (new_op e req c) = co_next_seq (slot c key)" "oo_resp (new_op e req c) = None"
    using r(3) k by (simp_all add: write_slot_after [OF assms(1) r(1)] write_slot_def new_op_def Let_def split_beta)
  with flush q show ?thesis
    by (simp add: write_step_def opt_list_def build_op_def resp_facts_default_def Let_def)
qed

lemma pipeline_run:
  assumes "list_all (request_on key) ws" and "open_at c key = Some p" and "oo_resp p = None"
    and "oo_req_seq p = m" and "co_next_seq (slot c key) = m + 1"
  shows "map o_req_seq (snd (run write_step ws c)) = map (\<lambda>i. m + of_nat i) [0..<length ws]
    \<and> list_all (\<lambda>r. o_delimitation r = Ambiguous \<and> o_http_status r = None) (snd (run write_step ws c))
    \<and> (\<exists>q. open_at (fst (run write_step ws c)) key = Some q \<and> oo_resp q = None \<and> oo_req_seq q = m + of_nat (length ws))"
  using assms
proof (induction ws arbitrary: c p m)
  case Nil
  then show ?case by simp
next
  case (Cons e ws)
  then have "request_on key e" by simp
  from unanswered_write [OF this Cons.prems(2,3)] obtain q r where
    s: "snd (write_step e c) = [r]" "open_at (fst (write_step e c)) key = Some q" "oo_resp q = None"
      "o_req_seq r = oo_req_seq p" "o_delimitation r = Ambiguous" "o_http_status r = None"
      "oo_req_seq q = m + 1" "co_next_seq (slot (fst (write_step e c)) key) = (m + 1) + 1"
    using Cons.prems(5) by (auto simp: add.commute)
  have "map (\<lambda>i. m + of_nat i) [0..<length (e # ws)] = m # map (\<lambda>i. m + 1 + of_nat i) [0..<length ws]"
    by (simp add: upt_conv_Cons map_Suc_upt [symmetric] comp_def add.assoc del: upt_Suc)
  with Cons.IH [OF _ s(2,3,7,8)] Cons.prems(1,4) s show ?case by (simp add: add.assoc)
qed

section \<open>Descriptor reuse\<close>

lemma on_conn_id_slot: "fmlookup (c_ops (on_conn_id e c)) (hdr_tgid (ci_hdr e), ci_fd e) = None"
  by (auto simp: on_conn_id_def Let_def evict_links_def bind_link_def split: option.split)

lemma write_on_empty_slot:
  assumes "request_on key e" and "fmlookup (c_ops c) key = None"
  shows "snd (on_tls_write e c) = None"
    "\<exists>q. open_at (fst (on_tls_write e c)) key = Some q \<and> oo_resp q = None \<and> oo_req_seq q = 0 \<and> \<not> oo_ambiguous q
      \<and> co_next_seq (slot (fst (on_tls_write e c)) key) = 1"
proof -
  obtain req where r: "parse_request (captured e) = Some req" "bio_cookie e = None" "\<not> bio_conn_changed e key c"
    using request_onD [OF assms(1)] by blast
  have k: "(hdr_tgid (td_hdr e), td_fd e) = key" using assms(1) by (simp add: request_on_def)
  have o: "open_at c key = None" "slot c key = conn_ops_default"
    using assms(2) by (simp_all add: open_at_def slot_def)
  show "snd (on_tls_write e c) = None" using o k by (simp add: on_tls_write_Some [OF r(1)] Let_def)
  show "\<exists>q. open_at (fst (on_tls_write e c)) key = Some q \<and> oo_resp q = None \<and> oo_req_seq q = 0 \<and> \<not> oo_ambiguous q
      \<and> co_next_seq (slot (fst (on_tls_write e c)) key) = 1"
    using on_tls_write_open_at [OF r(1), of c] k o r(3) write_slot_after [OF assms(1) r(1), of c]
    by (simp add: write_slot_def new_op_def Let_def split_beta conn_ops_default_def)
qed

section \<open>A slot in the middle of a body\<close>

definition sample_resp :: resp_state where
  "sample_resp = \<lparr>rp_head_ts = 20, rp_status = 200, rp_aws_request_id = None, rp_op_bytes_recv = 50,
     rp_resp_truncated = False, rp_body_target = 10, rp_body_seen = 0\<rparr>"

definition sample_op :: open_op where
  "sample_op = \<lparr>oo_op_id = ''1'', oo_ts_ns = 5, oo_req_seq = 0, oo_verb = ''GET'', oo_s3_op = None, oo_bucket = None,
     oo_key_hash = None, oo_op_bytes_sent = 17, oo_interim_ts = None, oo_head_truncated = False,
     oo_ambiguous = False, oo_resp = Some sample_resp, oo_cookie = None\<rparr>"

definition mid_body :: corr where
  "mid_body = (sample_corr [])\<lparr>c_ops := fmupd (7, 9) (conn_ops_default\<lparr>co_open := Some sample_op\<rparr>) fmempty\<rparr>"

definition body_chunk :: "u64 \<Rightarrow> u32 \<Rightarrow> evt_tls_body" where
  "body_chunk t n = \<lparr>tb_hdr = event_hdr_default\<lparr>hdr_tgid := 7, hdr_ts_ns := t\<rparr>, tb_fd = 9, tb_plaintext_len = n\<rparr>"

lemma mid_body_streaming: "streaming mid_body (7, 9) sample_op sample_resp"
  by (simp add: streaming_def mid_body_def open_at_def sample_op_def)

lemma sample_write_sel [simp]: "td_fd sample_write = 9" "hdr_tgid (td_hdr sample_write) = 7"
  by (simp_all add: sample_write_def event_hdr_default_def)

lemma sample_request_on: "request_on (7, 9) sample_write"
proof -
  have "parse_request sample_bytes \<noteq> None" by code_simp
  then show ?thesis by (simp add: request_on_def captured_sample)
qed

section \<open>Properties\<close>

text \<open>C7: the life cycle of a slot. A read, head or body, takes the slot it names one step along the abstract
  machine: a request starts streaming, a body grows without ever exceeding its target, and the slot
  becomes idle exactly when an operation is emitted. A parsed request leaves the slot requested and
  emits exactly when the slot was not idle. No read, head or body, touches another slot.\<close>

theorem slot_lifecycle:
  assumes "ops_ok c"
  shows "phase_step (phase_of (open_at c (hdr_tgid (td_hdr e), td_fd e)))
      (phase_of (open_at (fst (on_tls_read e c)) (hdr_tgid (td_hdr e), td_fd e))) (snd (on_tls_read e c) \<noteq> None)
    \<and> phase_step (phase_of (open_at c (hdr_tgid (tb_hdr b), tb_fd b)))
      (phase_of (open_at (fst (on_tls_read_body b c)) (hdr_tgid (tb_hdr b), tb_fd b))) (snd (on_tls_read_body b c) \<noteq> None)
    \<and> (parse_request (captured e) \<noteq> None \<longrightarrow>
        phase_of (open_at (fst (on_tls_write e c)) (hdr_tgid (td_hdr e), td_fd e)) = Requested
        \<and> (snd (on_tls_write e c) \<noteq> None \<longleftrightarrow> phase_of (open_at c (hdr_tgid (td_hdr e), td_fd e)) \<noteq> Idle))
    \<and> (k \<noteq> (hdr_tgid (td_hdr e), td_fd e) \<longrightarrow> fmlookup (c_ops (fst (on_tls_read e c))) k = fmlookup (c_ops c) k)
    \<and> (k \<noteq> (hdr_tgid (tb_hdr b), tb_fd b) \<longrightarrow> fmlookup (c_ops (fst (on_tls_read_body b c))) k = fmlookup (c_ops c) k)"
proof (intro conjI impI)
  show "phase_step (phase_of (open_at c (hdr_tgid (td_hdr e), td_fd e)))
      (phase_of (open_at (fst (on_tls_read e c)) (hdr_tgid (td_hdr e), td_fd e))) (snd (on_tls_read e c) \<noteq> None)"
    by (rule phase_reads [OF reads_on_tls_read assms])
  show "phase_step (phase_of (open_at c (hdr_tgid (tb_hdr b), tb_fd b)))
      (phase_of (open_at (fst (on_tls_read_body b c)) (hdr_tgid (tb_hdr b), tb_fd b))) (snd (on_tls_read_body b c) \<noteq> None)"
    by (rule phase_reads [OF reads_on_tls_read_body assms])
next
  assume "parse_request (captured e) \<noteq> None"
  then obtain req where r: "parse_request (captured e) = Some req" by blast
  show "phase_of (open_at (fst (on_tls_write e c)) (hdr_tgid (td_hdr e), td_fd e)) = Requested"
    by (simp add: on_tls_write_open_at [OF r] phase_of_def new_op_def Let_def split_beta)
  show "snd (on_tls_write e c) \<noteq> None \<longleftrightarrow> phase_of (open_at c (hdr_tgid (td_hdr e), td_fd e)) \<noteq> Idle"
    by (simp add: on_tls_write_Some [OF r] Let_def phase_of_def split: option.split)
next
  assume "k \<noteq> (hdr_tgid (td_hdr e), td_fd e)"
  then show "fmlookup (c_ops (fst (on_tls_read e c))) k = fmlookup (c_ops c) k"
    using reads_on_tls_read [of e c] by (auto simp: reads_def)
next
  assume "k \<noteq> (hdr_tgid (tb_hdr b), tb_fd b)"
  then show "fmlookup (c_ops (fst (on_tls_read_body b c))) k = fmlookup (c_ops c) k"
    using reads_on_tls_read_body [of b c] by (auto simp: reads_def)
qed

lemma slot_lifecycle_witness:
  "phase_of (open_at (fst (on_tls_write sample_write (sample_corr []))) (7, 9)) = Requested"
proof -
  have "ops_ok (sample_corr [])" using fresh_ok [OF fresh_sample] by (simp only: corr_ok_def)
  from slot_lifecycle [OF this, of sample_write "body_chunk 0 0" "(0, 0)"] sample_request_on
  show ?thesis by (simp add: request_on_def)
qed

text \<open>C26: the body count. While a slot streams, any sequence of reads of its connection, with captured bytes or
  with their length only, emits nothing until the announced length is reached; the read that reaches it
  emits the operation, with the announced length, the download measured from the head to that read and
  the total from the request, and empties the slot. On a descriptor other than 0 every read is one of the
  connection; on 0, which custom transports share, those whose cookie does not name another one.\<close>

theorem body_completes:
  assumes "list_all (own_read key (oo_cookie op)) (es @ [e])" "streaming c key op rs"
    and "unat (rp_body_seen rs) + (\<Sum>x\<leftarrow>es. unat (rd_len x)) < unat (rp_body_target rs)"
    and "unat (rp_body_target rs) \<le> unat (rp_body_seen rs) + (\<Sum>x\<leftarrow>es @ [e]. unat (rd_len x))"
  shows "\<exists>r. snd (run plain_step es c) = [] \<and> snd (run plain_step (es @ [e]) c) = [r]
    \<and> open_at (fst (run plain_step (es @ [e]) c)) key = None
    \<and> o_op_id r = oo_op_id op \<and> o_content_length r = Some (rp_body_target rs) \<and> o_http_status r = Some (rp_status rs)
    \<and> o_download_ns r = Some (sat_sub (hdr_ts_ns (rd_hdr e)) (rp_head_ts rs))
    \<and> o_total_ns r = Some (sat_sub (hdr_ts_ns (rd_hdr e)) (oo_ts_ns op))"
proof -
  have own: "list_all (own_read key (oo_cookie op)) es" "own_read key (oo_cookie op) e" using assms(1) by simp_all
  from body_run [OF own(1) assms(2,3)] obtain op' rs' where
    p: "snd (run plain_step es c) = []" "streaming (fst (run plain_step es c)) key op' rs'" "oo_cookie op' = oo_cookie op"
      "oo_op_id op' = oo_op_id op" "oo_ts_ns op' = oo_ts_ns op" "rp_head_ts rs' = rp_head_ts rs"
      "rp_status rs' = rp_status rs" "rp_body_target rs' = rp_body_target rs"
      "unat (rp_body_seen rs') = unat (rp_body_seen rs) + (\<Sum>x\<leftarrow>es. unat (rd_len x))" by blast
  have "rp_body_seen rs' < rp_body_target rs'" "unat (rp_body_target rs') \<le> unat (rp_body_seen rs') + unat (rd_len e)"
    using assms(3,4) p(8,9) by (simp_all add: word_less_nat_alt)
  from body_finish [OF own(2) [folded p(3)] p(2) this] show ?thesis
    using p by (simp add: run_append)
qed

lemma body_completes_witness:
  "\<exists>r. snd (run plain_step ([DataRead (sample_write\<lparr>td_plaintext_len := 4\<rparr>)] @ [BodyRead (body_chunk 40 6)]) mid_body) = [r]
    \<and> o_download_ns r = Some 20 \<and> o_total_ns r = Some 35"
proof -
  have "list_all (own_read (7, 9) (oo_cookie sample_op)) ([DataRead (sample_write\<lparr>td_plaintext_len := 4\<rparr>)] @ [BodyRead (body_chunk 40 6)])"
    by (simp add: own_read_def body_chunk_def)
  from body_completes [OF this mid_body_streaming] show ?thesis
    by (auto simp: body_chunk_def sample_resp_def sample_op_def sat_sub_def)
qed

text \<open>Body bytes are never read as a head. While a slot still waits for body bytes, a read with captured
  bytes does what a read without them does: whatever the bytes say, only their length and time count.\<close>

theorem body_bytes_not_parsed:
  assumes "awaiting_body c (hdr_tgid (td_hdr e), td_fd e)"
  shows "on_tls_read e c =
    on_tls_read_body \<lparr>tb_hdr = td_hdr e, tb_fd = td_fd e, tb_plaintext_len = td_plaintext_len e\<rparr> c"
  using assms by (simp add: on_tls_read_def on_tls_read_body_def Let_def)

lemma body_bytes_not_parsed_witness:
  "on_tls_read sample_write mid_body =
    on_tls_read_body \<lparr>tb_hdr = td_hdr sample_write, tb_fd = 9, tb_plaintext_len = 17\<rparr> mid_body"
proof -
  have "awaiting_body mid_body (hdr_tgid (td_hdr sample_write), td_fd sample_write)"
    by (simp add: awaiting_body_def mid_body_def open_at_def sample_op_def sample_resp_def)
  from body_bytes_not_parsed [OF this] show ?thesis by (simp add: sample_write_def)
qed

text \<open>A new connection on a descriptor starts afresh. After \<open>on_conn_id\<close> the first request on the
  descriptor is number 0, emits nothing and is not ambiguous; further requests sent without a response
  are numbered in order, each emitted when the next arrives, unanswered and marked ambiguous.\<close>

theorem reused_descriptor_starts_fresh:
  assumes "key = (hdr_tgid (ci_hdr i), ci_fd i)" and "list_all (request_on key) (w # ws)"
  shows "map o_req_seq (snd (run write_step (w # ws) (on_conn_id i c))) = map of_nat [0..<length ws]
    \<and> list_all (\<lambda>r. o_delimitation r = Ambiguous \<and> o_http_status r = None)
        (snd (run write_step (w # ws) (on_conn_id i c)))
    \<and> (\<exists>q. open_at (fst (run write_step (w # ws) (on_conn_id i c))) key = Some q
          \<and> oo_req_seq q = of_nat (length ws) \<and> oo_resp q = None)"
proof -
  have w: "request_on key w" "list_all (request_on key) ws" using assms(2) by simp_all
  note z = write_on_empty_slot [OF w(1) on_conn_id_slot [of i c, folded assms(1)]]
  from z(2) obtain q where "open_at (fst (write_step w (on_conn_id i c))) key = Some q" "oo_resp q = None"
    "oo_req_seq q = 0" "co_next_seq (slot (fst (write_step w (on_conn_id i c))) key) = 0 + 1"
    by (auto simp: write_step_def)
  from pipeline_run [OF w(2) this] z(1) show ?thesis
    by (auto simp: write_step_def opt_list_def)
qed

lemma reused_descriptor_starts_fresh_witness:
  "map o_req_seq (snd (run write_step [sample_write, sample_write, sample_write]
      (on_conn_id \<lparr>ci_hdr = event_hdr_default\<lparr>hdr_tgid := 7, hdr_sock_cookie := 77\<rparr>, ci_fd = 9, ci_pad = 0\<rparr> mid_body)))
    = [0, 1]"
  using reused_descriptor_starts_fresh [of "(7, 9)"
      "\<lparr>ci_hdr = event_hdr_default\<lparr>hdr_tgid := 7, hdr_sock_cookie := 77\<rparr>, ci_fd = 9, ci_pad = 0\<rparr>"
      sample_write "[sample_write, sample_write]" mid_body] sample_request_on
  by simp

end
