(* ===== verification/ConnProps.thy ===== *)
theory ConnProps
  imports PlainProps
begin

text \<open>
  Properties of the connection side: construction, the join of a close with its connect, DNS answers,
  the cache verdict of \<open>getaddrinfo\<close>, the merge of the TLS facts, the timing of an operation, and the
  output boundary.
\<close>

section \<open>The close of a connection\<close>

lemma on_connect_lookup:
  "fmlookup (c_conns (fst (on_connect e c))) (hdr_sock_cookie (tco_hdr e)) = Some
    \<lparr>cs_pid = hdr_tgid (tco_hdr e), cs_connect_latency_ns = tco_connect_latency_ns e,
     cs_ts_ns = sat_sub (hdr_ts_ns (tco_hdr e)) (tco_connect_latency_ns e),
     cs_family = tco_family e, cs_daddr = tco_daddr e, cs_dport = tco_dport e,
     cs_connect_failed = (tco_connect_failed e \<noteq> 0)\<rparr>"
  by (simp add: on_connect_conns)

lemma on_connect_tls: "fmlookup (c_tls (fst (on_connect e c))) (hdr_sock_cookie (tco_hdr e)) = None"
  by (simp add: on_connect_def Let_def)

lemma on_close_record:
  "\<exists>dns region. snd (on_close ord e c) = Some (close_record e (fmlookup (c_conns c) (hdr_sock_cookie (tcl_hdr e)))
      (close_endpoint (fmlookup (c_conns c) (hdr_sock_cookie (tcl_hdr e))) region) dns
      (close_tls (fmlookup (c_tls c) (hdr_sock_cookie (tcl_hdr e))) (handshake_ns e)))"
  by (auto simp: on_close_def Let_def split: option.split prod.split)

lemma on_close_forgets:
  "fmlookup (c_conns (fst (on_close ord e c))) (hdr_sock_cookie (tcl_hdr e)) = None"
  "fmlookup (c_tls (fst (on_close ord e c))) (hdr_sock_cookie (tcl_hdr e)) = None"
  by (simp_all add: on_close_def Let_def split: option.split prod.split)

section \<open>Answers and resolutions\<close>

lemma record_answers_lookup:
  assumes "fmlookup (record_answers q ts answers m) ip = Some r"
  shows "fmlookup m ip = Some r
    \<or> (\<exists>ttl. (ip, ttl) \<in> set answers \<and> rn_hostname r = pq_qname q \<and> rn_ttl_s r = ttl
         \<and> rn_wire_latency_ns r = sat_sub ts (pq_query_ts q) \<and> rn_resolved_ts r = ts)"
proof -
  define n where "n = (of_nat (min (length answers) 255) :: u8)"
  have "fmlookup (fold (\<lambda>(ip, ttl). fmupd ip (f ttl)) xs m) ip = Some r \<Longrightarrow>
      fmlookup m ip = Some r \<or> (\<exists>ttl. (ip, ttl) \<in> set xs \<and> r = f ttl)" for f xs
  proof (induction xs arbitrary: m)
    case (Cons x xs)
    obtain a b where x: "x = (a, b)" by force
    from Cons.IH [of "fmupd a (f b) m"] Cons.prems show ?case
      by (cases "a = ip") (auto simp: x)
  qed simp
  from this [of "\<lambda>ttl. \<lparr>rn_hostname = pq_qname q, rn_wire_latency_ns = sat_sub ts (pq_query_ts q), rn_ttl_s = ttl,
         rn_n_answers = n, rn_query_ts = pq_query_ts q, rn_resolved_ts = ts\<rparr>" answers] assms
  show ?thesis by (auto simp: record_answers_def n_def Let_def)
qed

lemma evict_resolutions_sub: "fmlookup (evict_resolutions answers m) ip = Some r \<Longrightarrow> fmlookup m ip = Some r"
  by (auto simp: evict_resolutions_def split: if_splits)

lemma evict_resolutions_keep:
  "ip \<in> set (map fst answers) \<Longrightarrow> fmlookup (evict_resolutions answers m) ip = fmlookup m ip"
  using oldest_keys_subset [of m "evict_target (fmlen m) DNS_MAP_CAP" rn_resolved_ts "\<lambda>ip. ip \<in> set (map fst answers)"]
  by (auto simp: evict_resolutions_def)

definition response_payload :: "evt_dns_response \<Rightarrow> u8 list" where
  "response_payload e = take (min (unat (dr_payload_len e)) (length (dr_payload e))) (dr_payload e)"

text \<open>The query a response answers: same socket, same transaction, same name.\<close>

definition answers_query :: "evt_dns_response \<Rightarrow> corr \<Rightarrow> pending_query \<Rightarrow> answer list \<Rightarrow> bool" where
  "answers_query e c q answers \<longleftrightarrow> (\<exists>txn. parse_dns_response (response_payload e) = Some (txn, Some (pq_qname q), answers)
     \<and> fmlookup (c_pending_dns c) (hdr_sock_cookie (dr_hdr e), txn) = Some q)"

lemma on_dns_response_cases:
  obtains (rejected) "on_dns_response e c = c" "\<nexists>q answers. answers_query e c q answers"
  | (accepted) q answers where "answers_query e c q answers"
      "c_resolutions (on_dns_response e c) = evict_resolutions answers
        (record_answers q (hdr_ts_ns (dr_hdr e)) answers (c_resolutions c))"
proof (cases "\<exists>q answers. answers_query e c q answers")
  case True
  then obtain q answers where "answers_query e c q answers" by blast
  moreover from this have "c_resolutions (on_dns_response e c) = evict_resolutions answers
        (record_answers q (hdr_ts_ns (dr_hdr e)) answers (c_resolutions c))"
    by (auto simp: answers_query_def response_payload_def on_dns_response_def Let_def)
  ultimately show ?thesis using that(2) by blast
next
  case False
  have "on_dns_response e c = c"
  proof (rule ccontr)
    assume "on_dns_response e c \<noteq> c"
    then have "\<exists>q answers. answers_query e c q answers"
      by (auto simp: on_dns_response_def Let_def answers_query_def response_payload_def split: option.splits if_splits)
    with False show False by blast
  qed
  with False that(1) show ?thesis by blast
qed

lemma saw_wire_iff:
  "saw_wire c host a b \<longleftrightarrow>
     (\<exists>ip r. fmlookup (c_resolutions c) ip = Some r \<and> rn_hostname r = host \<and> rn_query_ts r \<le> b \<and> a \<le> rn_resolved_ts r)
   \<or> (\<exists>k q. fmlookup (c_pending_dns c) k = Some q \<and> pq_qname q = host \<and> a \<le> pq_query_ts q \<and> pq_query_ts q \<le> b)"
  unfolding saw_wire_def list_ex_iff by (auto simp: fm_simps split: prod.splits; force simp: fm_simps)

section \<open>Sample events\<close>

definition sample_connect :: evt_tcp_connect where
  "sample_connect = evt_tcp_connect_default\<lparr>tco_hdr := event_hdr_default\<lparr>hdr_sock_cookie := 77, hdr_tgid := 7, hdr_ts_ns := 100\<rparr>,
     tco_connect_latency_ns := 30, tco_dport := 443\<rparr>"

lemma sample_connect_sel: "hdr_tgid (tco_hdr sample_connect) = 7" "tco_connect_failed sample_connect = 0"
  "tco_connect_latency_ns sample_connect = 30"
  by (simp_all add: sample_connect_def evt_tcp_connect_default_def)

definition sample_answer :: evt_dns_response where
  "sample_answer = evt_dns_response_default\<lparr>dr_hdr := event_hdr_default\<lparr>hdr_sock_cookie := 77, hdr_ts_ns := 100\<rparr>,
     dr_payload_len := 46,
     dr_payload := enc_response 7 [''s3'', ''amazonaws''] [Addr (V4 [52, 1, 2, 3]) 5]\<rparr>"

definition sample_query :: pending_query where
  "sample_query = \<lparr>pq_qname = ''s3.amazonaws'', pq_query_ts = 90\<rparr>"

definition asked :: corr where
  "asked = (sample_corr [])\<lparr>c_pending_dns := fmupd (77, 7) sample_query fmempty\<rparr>"

lemma sample_answers: "answers_query sample_answer asked sample_query [(V4 [52, 1, 2, 3], Some 5)]"
proof -
  have "parse_dns_response (enc_response 7 [''s3'', ''amazonaws''] [Addr (V4 [52, 1, 2, 3]) 5])
      = Some (7, Some ''s3.amazonaws'', [(V4 [52, 1, 2, 3], Some 5)])"
    "length (enc_response 7 [''s3'', ''amazonaws''] [Addr (V4 [52, 1, 2, 3]) 5]) \<le> 46"
    by code_simp+
  then show ?thesis
    by (simp add: answers_query_def response_payload_def sample_answer_def asked_def sample_query_def event_hdr_default_def)
qed

definition sample_gai :: evt_getaddrinfo where
  "sample_gai = evt_getaddrinfo_default\<lparr>ga_hdr := event_hdr_default\<lparr>hdr_ts_ns := 50\<rparr>, ga_latency_ns := 20,
     ga_hostname_len := 2, ga_hostname := as_bytes ''s3''\<rparr>"

definition sample_hello :: evt_tls_handshake where
  "sample_hello = evt_tls_handshake_default\<lparr>th_sni_len := 2, th_sni := as_bytes ''s3''\<rparr>"

definition sample_server :: evt_tls_server where
  "sample_server = evt_tls_server_default\<lparr>tse_version := 0x304\<rparr>"

section \<open>Properties\<close>

text \<open>Entropy fails closed. A correlator exists exactly when some entropy source could be read, and its
  salt is then the bytes of such a source: there is no fallback salt.\<close>

theorem entropy_fails_closed:
  "(\<exists>c. try_with_max_open read16 n = Inr c) = (\<exists>p\<in>set ENTROPY_SOURCES. \<exists>s. read16 p = Inr s)
   \<and> (case try_with_max_open read16 n of Inl e \<Rightarrow> True
      | Inr c \<Rightarrow> (\<exists>p\<in>set ENTROPY_SOURCES. read16 p = Inr (c_key_salt c)) \<and> 0 < c_max_open c)"
  by (cases "read16 ''/dev/urandom''"; cases "read16 ''/dev/random''")
    (simp_all add: try_with_max_open_def random_salt_from_def ENTROPY_SOURCES_def)

text \<open>A close joins the connect of its cookie. The record carries that connect's process, start time,
  address, port and measured latency (none if it failed), and is not partial; TLS facts of an earlier
  connection of the same cookie do not reach it; and the close forgets the cookie, so a second close
  of it is partial.\<close>

theorem close_joins_connect:
  assumes "hdr_sock_cookie (tcl_hdr e) = hdr_sock_cookie (tco_hdr k)"
    and "hdr_sock_cookie (tcl_hdr e2) = hdr_sock_cookie (tco_hdr k)"
    and "on_close ord e (fst (on_connect k c)) = (c1, Some r)" and "snd (on_close ord2 e2 c1) = Some r2"
  shows "\<not> cn_partial r \<and> app_pid (cn_app r) = hdr_tgid (tco_hdr k)
    \<and> cn_ts_ns r = Some (sat_sub (hdr_ts_ns (tco_hdr k)) (tco_connect_latency_ns k))
    \<and> cn_connect_failed r = (tco_connect_failed k \<noteq> 0)
    \<and> cn_tcp_connect_ns r = (if tco_connect_failed k \<noteq> 0 then None else nonzero (tco_connect_latency_ns k))
    \<and> ep_endpoint_ip (cn_endpoint r) = Some (ip_to_string (fst (classify_endpoint (tco_family k) (tco_daddr k))))
    \<and> ep_dport (cn_endpoint r) = Some (tco_dport k)
    \<and> tls_sni (cn_tls r) = None \<and> tls_version (cn_tls r) = None \<and> tls_cipher (cn_tls r) = None
    \<and> cn_partial r2 \<and> app_pid (cn_app r2) = 0"
proof -
  let ?s = "\<lparr>cs_pid = hdr_tgid (tco_hdr k), cs_connect_latency_ns = tco_connect_latency_ns k,
     cs_ts_ns = sat_sub (hdr_ts_ns (tco_hdr k)) (tco_connect_latency_ns k),
     cs_family = tco_family k, cs_daddr = tco_daddr k, cs_dport = tco_dport k,
     cs_connect_failed = (tco_connect_failed k \<noteq> 0)\<rparr>"
  obtain dns region where r: "r = close_record e (Some ?s) (close_endpoint (Some ?s) region) dns
      (close_tls None (handshake_ns e))"
    using on_close_record [of ord e "fst (on_connect k c)"] on_connect_lookup [of k c] on_connect_tls [of k c] assms(1,3)
    by auto
  have "fmlookup (c_conns c1) (hdr_sock_cookie (tcl_hdr e2)) = None"
    using on_close_forgets(1) [of ord e "fst (on_connect k c)"] assms(1-3) by simp
  with on_close_record [of ord2 e2 c1] assms(4) obtain ep2 dns2 t2 where
    r2: "r2 = close_record e2 None ep2 dns2 t2" by auto
  have "opt_filter (\<lambda>n. n \<noteq> 0) (Some (tco_connect_latency_ns k)) = nonzero (tco_connect_latency_ns k)"
    by (simp add: nonzero_def then_some_def)
  then show ?thesis
    by (auto simp: r r2 close_record_def close_endpoint_def close_tls_def tls_default_def Let_def split: prod.split)
qed

lemma close_joins_connect_witness:
  "\<exists>r. snd (on_close [] sample_close (fst (on_connect sample_connect (sample_corr [])))) = Some r
    \<and> \<not> cn_partial r \<and> app_pid (cn_app r) = 7 \<and> cn_tcp_connect_ns r = Some 30"
proof -
  let ?x = "on_close [] sample_close (fst (on_connect sample_connect (sample_corr [])))"
  obtain r where r: "?x = (fst ?x, Some r)"
    using on_close_record [of "[]" sample_close "fst (on_connect sample_connect (sample_corr []))"]
    by (metis prod.collapse)
  obtain r2 where r2: "snd (on_close [] sample_close (fst ?x)) = Some r2"
    using on_close_record [of "[]" sample_close "fst ?x"] by blast
  have "hdr_sock_cookie (tcl_hdr sample_close) = hdr_sock_cookie (tco_hdr sample_connect)"
    by (simp add: sample_close_def sample_connect_def)
  from close_joins_connect [OF this this r r2]
  have "\<not> cn_partial r" "app_pid (cn_app r) = 7" "cn_tcp_connect_ns r = Some 30"
    by (simp_all add: sample_connect_sel)
  moreover have "snd ?x = Some r" by (subst r) simp
  ultimately show ?thesis by blast
qed

text \<open>The origin of a resolution. After a DNS response, every address the correlator can resolve was
  there before or is an answer of this response to a query it saw: same socket, same transaction id and
  the same name, which is the name recorded. A response that answers no such query changes nothing at
  all; one that does keeps every answer, whatever had to be evicted.\<close>

theorem resolutions_come_from_queries:
  "(fmlookup (c_resolutions (on_dns_response e c)) ip = Some r \<longrightarrow>
      fmlookup (c_resolutions c) ip = Some r
      \<or> (\<exists>q answers. answers_query e c q answers \<and> ip \<in> set (map fst answers) \<and> rn_hostname r = pq_qname q
           \<and> rn_wire_latency_ns r = sat_sub (hdr_ts_ns (dr_hdr e)) (pq_query_ts q)))
   \<and> ((\<nexists>q answers. answers_query e c q answers) \<longrightarrow> on_dns_response e c = c)
   \<and> (answers_query e c q answers \<longrightarrow> set (map fst answers) \<subseteq> fmdom' (c_resolutions (on_dns_response e c)))"
proof (intro conjI impI)
  assume l: "fmlookup (c_resolutions (on_dns_response e c)) ip = Some r"
  show "fmlookup (c_resolutions c) ip = Some r
      \<or> (\<exists>q answers. answers_query e c q answers \<and> ip \<in> set (map fst answers) \<and> rn_hostname r = pq_qname q
           \<and> rn_wire_latency_ns r = sat_sub (hdr_ts_ns (dr_hdr e)) (pq_query_ts q))"
  proof (cases rule: on_dns_response_cases [of e c])
    case rejected
    with l show ?thesis by simp
  next
    case (accepted q answers)
    from l have "fmlookup (record_answers q (hdr_ts_ns (dr_hdr e)) answers (c_resolutions c)) ip = Some r"
      unfolding accepted(2) by (rule evict_resolutions_sub)
    from record_answers_lookup [OF this] accepted(1) show ?thesis by force
  qed
next
  assume "\<nexists>q answers. answers_query e c q answers"
  then show "on_dns_response e c = c" by (cases rule: on_dns_response_cases [of e c]) blast+
next
  assume a: "answers_query e c q answers"
  then have "c_resolutions (on_dns_response e c) = evict_resolutions answers
        (record_answers q (hdr_ts_ns (dr_hdr e)) answers (c_resolutions c))"
    by (auto simp: answers_query_def response_payload_def on_dns_response_def Let_def)
  moreover have "ip \<in> fmdom' (record_answers q ts answers m)" if "ip \<in> set (map fst answers)" for ip ts m
    using that unfolding record_answers_dom by blast
  ultimately show "set (map fst answers) \<subseteq> fmdom' (c_resolutions (on_dns_response e c))"
    using evict_resolutions_keep [of _ answers] by (metis in_fmdom'_iff subsetI)
qed

lemma resolutions_come_from_queries_witness:
  "V4 [52, 1, 2, 3] \<in> fmdom' (c_resolutions (on_dns_response sample_answer asked))"
proof -
  have "set (map fst [(V4 [52, 1, 2, 3], Some (5 :: u32))]) \<subseteq> fmdom' (c_resolutions (on_dns_response sample_answer asked))"
    using resolutions_come_from_queries [of sample_answer asked _ _ sample_query "[(V4 [52, 1, 2, 3], Some 5)]"]
      sample_answers by blast
  then show ?thesis by simp
qed

text \<open>The cache verdict of \<open>getaddrinfo\<close>. A call that succeeded with a usable name is recorded under
  that name with its latency, and as a cache hit exactly when no DNS lookup of the name overlapped the
  call: no answered lookup whose interval meets the call's, and no pending query sent during it.\<close>

theorem cache_hit_iff_no_lookup:
  assumes "ga_ret e = 0" "ga_hostname_truncated e = 0" "qname_str (ga_hostname e) (ga_hostname_len e) = Some host"
    and "a = sat_sub (hdr_ts_ns (ga_hdr e)) (ga_latency_ns e)" and "b = hdr_ts_ns (ga_hdr e)"
  shows "\<exists>g. fmlookup (c_gai (on_getaddrinfo e c)) host = Some g \<and> gi_latency_ns g = ga_latency_ns e \<and> gi_ts g = b
    \<and> (gi_cache_hit g \<longleftrightarrow>
        (\<forall>ip r. fmlookup (c_resolutions c) ip = Some r \<and> rn_hostname r = host \<longrightarrow> rn_resolved_ts r < a \<or> b < rn_query_ts r)
      \<and> (\<forall>k q. fmlookup (c_pending_dns c) k = Some q \<and> pq_qname q = host \<longrightarrow> pq_query_ts q < a \<or> b < pq_query_ts q))"
proof -
  let ?g = "\<lparr>gi_latency_ns = ga_latency_ns e, gi_cache_hit = (\<not> saw_wire c host a b), gi_ts = b\<rparr>"
  have "fmlookup (c_gai (on_getaddrinfo e c)) host = Some ?g"
    using assms by (simp add: on_getaddrinfo_def Let_def)
  moreover have "\<not> saw_wire c host a b \<longleftrightarrow>
        (\<forall>ip r. fmlookup (c_resolutions c) ip = Some r \<and> rn_hostname r = host \<longrightarrow> rn_resolved_ts r < a \<or> b < rn_query_ts r)
      \<and> (\<forall>k q. fmlookup (c_pending_dns c) k = Some q \<and> pq_qname q = host \<longrightarrow> pq_query_ts q < a \<or> b < pq_query_ts q)"
    unfolding saw_wire_iff not_less [symmetric] by blast
  ultimately show ?thesis by (intro exI [of _ ?g]) simp
qed

lemma cache_hit_iff_no_lookup_witness:
  "\<exists>g. fmlookup (c_gai (on_getaddrinfo sample_gai (sample_corr []))) ''s3'' = Some g \<and> gi_cache_hit g"
proof -
  have "qname_str (as_bytes ''s3'') 2 = Some ''s3''" by code_simp
  then have "qname_str (ga_hostname sample_gai) (ga_hostname_len sample_gai) = Some ''s3''"
    by (simp add: sample_gai_def)
  moreover have "ga_ret sample_gai = 0" "ga_hostname_truncated sample_gai = 0"
    by (simp_all add: sample_gai_def evt_getaddrinfo_default_def)
  ultimately show ?thesis
    using cache_hit_iff_no_lookup [of sample_gai "''s3''" _ _ "sample_corr []"]
    by (auto simp: sample_corr_def set_s3_endpoints_def)
qed

text \<open>The two halves of a handshake may arrive in either order. ClientHello and ServerHello of one
  connection leave the same facts in its entry whichever comes first, and neither erases what the other
  recorded.\<close>

theorem tls_facts_commute:
  assumes "hdr_sock_cookie (tse_hdr s) = hdr_sock_cookie (th_hdr h)"
    and "th_sni_truncated h = 0" "qname_str (th_sni h) (th_sni_len h) = Some sni"
  shows "fmlookup (c_tls (on_tls_server s (on_tls_handshake h c))) (hdr_sock_cookie (th_hdr h))
      = fmlookup (c_tls (on_tls_handshake h (on_tls_server s c))) (hdr_sock_cookie (th_hdr h))
    \<and> (\<exists>t. fmlookup (c_tls (on_tls_server s (on_tls_handshake h c))) (hdr_sock_cookie (th_hdr h)) = Some t
         \<and> ti_sni t = sni \<and> (tse_version s \<noteq> 0 \<longrightarrow> ti_version t = Some (tse_version s))
         \<and> (tse_cipher s \<noteq> 0 \<longrightarrow> ti_cipher t = Some (tse_cipher s)))"
  using assms
  by (auto simp: on_tls_server_def on_tls_handshake_def tls_entry_def Let_def split: option.split)

lemma tls_facts_commute_witness:
  "\<exists>t. fmlookup (c_tls (on_tls_server sample_server (on_tls_handshake sample_hello mid_body))) 0 = Some t
    \<and> ti_sni t = ''s3'' \<and> ti_version t = Some 0x304"
proof -
  have "qname_str (as_bytes ''s3'') 2 = Some ''s3''" by code_simp
  then have "qname_str (th_sni sample_hello) (th_sni_len sample_hello) = Some ''s3''"
    by (simp add: sample_hello_def)
  moreover have "hdr_sock_cookie (tse_hdr sample_server) = hdr_sock_cookie (th_hdr sample_hello)"
    "th_sni_truncated sample_hello = 0" and z: "tse_version sample_server = 0x304" "hdr_sock_cookie (th_hdr sample_hello) = 0"
    by (simp_all add: sample_server_def sample_hello_def evt_tls_server_default_def evt_tls_handshake_default_def event_hdr_default_def)
  ultimately obtain t where "fmlookup (c_tls (on_tls_server sample_server (on_tls_handshake sample_hello mid_body)))
      (hdr_sock_cookie (th_hdr sample_hello)) = Some t" "ti_sni t = ''s3''"
    "tse_version sample_server \<noteq> 0 \<longrightarrow> ti_version t = Some (tse_version sample_server)"
    using tls_facts_commute [of sample_server sample_hello "''s3''" mid_body] by blast
  then show ?thesis by (simp add: z)
qed

text \<open>The timing of an operation. With timestamps in order, the total is the time to first byte plus the
  download when no interim response was seen, and never less than their sum when one was; an absent
  time to first byte stands for zero.\<close>

theorem timing_adds_up:
  assumes "r = build_op c key op f" and "rf_ts_ns f = Some head" and "rf_body_complete_ts f = Some fin"
    and "oo_ts_ns op \<le> head" "head \<le> fin" "\<forall>t. oo_interim_ts op = Some t \<longrightarrow> oo_ts_ns op \<le> t \<and> t \<le> head"
  shows "\<exists>total download. o_total_ns r = Some total \<and> o_download_ns r = Some download
    \<and> (case o_ttfb_ns r of None \<Rightarrow> 0 | Some n \<Rightarrow> unat n) + unat download \<le> unat total
    \<and> (oo_interim_ts op = None \<longrightarrow>
        (case o_ttfb_ns r of None \<Rightarrow> 0 | Some n \<Rightarrow> unat n) + unat download = unat total)"
proof -
  define first where "first = (case oo_interim_ts op of Some t \<Rightarrow> t | None \<Rightarrow> head)"
  have ttfb: "(case o_ttfb_ns r of None \<Rightarrow> 0 | Some n \<Rightarrow> unat n) = unat first - unat (oo_ts_ns op)"
    using assms(1,2)
    by (cases "oo_interim_ts op") (simp_all add: build_op_def Let_def first_def flip: unat_sat_sub)
  have rest: "o_total_ns r = Some (sat_sub fin (oo_ts_ns op))" "o_download_ns r = Some (sat_sub fin head)"
    using assms(1-3) by (simp_all add: build_op_def Let_def)
  have "unat (oo_ts_ns op) \<le> unat first" "unat first \<le> unat head" "unat head \<le> unat fin"
    using assms(4-6) by (auto simp: first_def word_le_nat_alt split: option.split)
  then show ?thesis
    using rest by (auto simp: ttfb unat_sat_sub first_def)
qed

lemma timing_adds_up_witness:
  "\<exists>total. o_total_ns (build_op mid_body (7, 9) sample_op
      \<lparr>rf_status = Some 200, rf_aws_request_id = None, rf_op_bytes_recv = 50, rf_truncated = False,
       rf_ts_ns = Some 20, rf_body_complete_ts = Some 40, rf_content_length = Some 10\<rparr>) = Some total \<and> 20 \<le> unat total"
  using timing_adds_up [OF refl, of
      "\<lparr>rf_status = Some 200, rf_aws_request_id = None, rf_op_bytes_recv = 50, rf_truncated = False,
       rf_ts_ns = Some 20, rf_body_complete_ts = Some 40, rf_content_length = Some 10\<rparr>" 20 40 sample_op mid_body "(7, 9)"]
  by (auto simp: sample_op_def build_op_def Let_def sat_sub_def)

text \<open>The output boundary. An emitted line decodes to the record the correlator produced, stamped with
  the emission time, and in every other field unchanged except the socket cookie, which is never the
  kernel address: it is the keyed hash of it, and zero stays zero.\<close>

theorem emitted_line_decodes:
  "operation_of_json (emit_jsonl hash now (RecOperation o')) =
      Some (o'\<lparr>o_emitted_at := Some now, o_sock_cookie := (if o_sock_cookie o' = 0 then 0 else hash (o_sock_cookie o'))\<rparr>)
   \<and> connection_of_json (emit_jsonl hash now (RecConnection k)) =
      Some (k\<lparr>cn_emitted_at := Some now, cn_sock_cookie := (if cn_sock_cookie k = 0 then 0 else hash (cn_sock_cookie k))\<rparr>)
   \<and> tcp_sample_of_json (emit_jsonl hash now (RecTcpSample s)) =
      Some (s\<lparr>sm_emitted_at := Some now, sm_sock_cookie := (if sm_sock_cookie s = 0 then 0 else hash (sm_sock_cookie s))\<rparr>)"
  by (simp add: obscure_def)

end
