(* ===== verification/ScopeFilter.thy ===== *)
theory ScopeFilter
  imports RustStr Events
begin

text \<open>
  The capture scope of \<open>crates/s3tap-cli/src/filter.rs\<close> and its installation in
  \<open>crates/s3tap-cli/src/main.rs\<close> (\<open>build_filter_spec\<close>, \<open>engage_filter\<close>). What \<open>/proc\<close> answers is
  an argument: the entries of the directory, with the exe link and the cgroup file of each. The
  kernel's \<open>filter_pids\<close> map is an \<open>fmap\<close> from process to provenance byte; whether it takes one more
  entry is the argument \<open>room\<close>. The two warn-once statics are fields of the filter's state.
\<close>

section \<open>The scope and its match\<close>

record filter_spec =
  fs_pids :: "u32 list"
  fs_apps :: "string list"
  fs_exes :: "string list"
  fs_cgroups :: "u64 list"

definition is_active :: "filter_spec \<Rightarrow> bool" where
  "is_active s \<longleftrightarrow> fs_pids s \<noteq> [] \<or> fs_apps s \<noteq> [] \<or> fs_exes s \<noteq> [] \<or> fs_cgroups s \<noteq> []"

definition is_name_only :: "filter_spec \<Rightarrow> bool" where
  "is_name_only s \<longleftrightarrow> (fs_apps s \<noteq> [] \<or> fs_exes s \<noteq> []) \<and> fs_pids s = [] \<and> fs_cgroups s = []"

definition is_version_tail :: "string \<Rightarrow> bool" where
  "is_version_tail tail \<longleftrightarrow> (case tail of [] \<Rightarrow> False | t # _ \<Rightarrow> is_digit t)
     \<and> list_all (\<lambda>t. is_digit t \<or> t = CHR ''.'') tail"

text \<open>The loop over the characters of the name: \<open>stem\<close> is what was passed, in reverse.\<close>

fun strip_version_loop :: "string \<Rightarrow> string \<Rightarrow> string option" where
  "strip_version_loop stem [] = None"
| "strip_version_loop stem (c # tail) =
    (if c \<noteq> CHR ''-'' \<and> c \<noteq> CHR ''.'' then strip_version_loop (c # stem) tail
     else if stem = [] \<or> \<not> is_version_tail tail then strip_version_loop (c # stem) tail
     else Some (rev stem))"

definition strip_version_suffix :: "string \<Rightarrow> string option" where
  "strip_version_suffix base = strip_version_loop [] base"

definition exe_basename :: "string \<Rightarrow> string" where
  "exe_basename exe = last (split_char CHR ''/'' exe)"

definition matches_app_exe :: "filter_spec \<Rightarrow> string \<Rightarrow> bool" where
  "matches_app_exe spec exe =
    (if list_ex (\<lambda>x. x = exe) (fs_exes spec) then True
     else let base = exe_basename exe; stem = strip_version_suffix base in
       list_ex (\<lambda>a. a = base \<or> stem = Some a) (fs_apps spec))"

section \<open>What the process table answers\<close>

datatype link_error = PermissionDenied | OtherError

type_synonym link_result = "link_error + u8 list"

datatype exe_link = Resolved string | Absent | Denied

definition resolve_exe :: "link_result \<Rightarrow> exe_link" where
  "resolve_exe r = (case r of
     Inr p \<Rightarrow> Resolved (from_utf8_lossy p) | Inl PermissionDenied \<Rightarrow> Denied | Inl OtherError \<Rightarrow> Absent)"

definition parse_u32 :: "string \<Rightarrow> u32 option" where
  "parse_u32 s = map_option of_nat (parse_uint 4294967295 s)"

text \<open>An entry of \<open>/proc\<close>: its name, its exe link, and its cgroup file if readable.\<close>

record proc_entry =
  pr_name :: "u8 list"
  pr_exe :: link_result
  pr_cgroup :: "string option"

definition entry_pid :: "proc_entry \<Rightarrow> u32 option" where
  "entry_pid p = Option.bind (from_utf8 (pr_name p)) parse_u32"

text \<open>The scan of \<open>/proc\<close>: the matching processes, and whether a live one could not be identified.\<close>

fun scan_loop :: "filter_spec \<Rightarrow> proc_entry list \<Rightarrow> u32 list \<times> bool" where
  "scan_loop spec [] = ([], False)"
| "scan_loop spec (p # ps) =
    (let (pids, denied) = scan_loop spec ps in
     case entry_pid p of
       None \<Rightarrow> (pids, denied)
     | Some pid \<Rightarrow>
         (case resolve_exe (pr_exe p) of
            Resolved exe \<Rightarrow> (if matches_app_exe spec exe then pid # pids else pids, denied)
          | Denied \<Rightarrow> (pids, True)
          | Absent \<Rightarrow> (pids, denied)))"

definition scan_matching_pids :: "filter_spec \<Rightarrow> proc_entry list option \<Rightarrow> u32 list \<times> bool" where
  "scan_matching_pids spec entries =
    (if fs_apps spec = [] \<and> fs_exes spec = [] then ([], False)
     else case entries of None \<Rightarrow> ([], False) | Some ps \<Rightarrow> scan_loop spec ps)"

section \<open>Admission\<close>

definition ADMIT_EXPLICIT :: u8 where "ADMIT_EXPLICIT = 1"
definition ADMIT_BY_NAME :: u8 where "ADMIT_BY_NAME = 2"

datatype exec_admission = Admit u8 | Revoke | Leave

text \<open>\<open>link\<close> is what \<open>/proc/<tgid>/exe\<close> answers; the second component says a warning is owed.\<close>

definition exec_is_in_scope :: "filter_spec \<Rightarrow> link_result \<Rightarrow> bool \<times> bool" where
  "exec_is_in_scope spec link = (case resolve_exe link of
     Resolved exe \<Rightarrow> (matches_app_exe spec exe, False)
   | Denied \<Rightarrow> (False, fs_apps spec \<noteq> [] \<or> fs_exes spec \<noteq> [])
   | Absent \<Rightarrow> (False, False))"

definition admission_for :: "filter_spec \<Rightarrow> link_result \<Rightarrow> evt_proc_exec \<Rightarrow> u8 option \<Rightarrow> exec_admission" where
  "admission_for spec link e current =
    (if fst (exec_is_in_scope spec link) then
       Admit (if hdr_tgid (pe_hdr e) \<in> set (fs_pids spec) \<or> pe_cgroup_id e \<in> set (fs_cgroups spec)
              then ADMIT_EXPLICIT else ADMIT_BY_NAME)
     else if current = Some ADMIT_BY_NAME then Revoke
     else Leave)"

type_synonym seats = "(u32, u8) fmap"

record scope_filter =
  fi_spec :: filter_spec
  fi_pids :: seats
  fi_since_rescan :: u32
  fi_warned_full :: bool
  fi_warned_denied :: bool

definition RESCAN_EVERY :: u32 where "RESCAN_EVERY = 6"

definition filter_new :: "filter_spec \<Rightarrow> seats \<Rightarrow> scope_filter" where
  "filter_new spec pids = \<lparr>fi_spec = spec, fi_pids = pids, fi_since_rescan = 0,
     fi_warned_full = False, fi_warned_denied = False\<rparr>"

definition seat_insert :: "(seats \<Rightarrow> u32 \<Rightarrow> bool) \<Rightarrow> u32 \<Rightarrow> u8 \<Rightarrow> scope_filter \<Rightarrow> scope_filter" where
  "seat_insert room pid tag f =
    (if room (fi_pids f) pid then f\<lparr>fi_pids := fmupd pid tag (fi_pids f)\<rparr> else f\<lparr>fi_warned_full := True\<rparr>)"

definition on_exec :: "(seats \<Rightarrow> u32 \<Rightarrow> bool) \<Rightarrow> (u32 \<Rightarrow> link_result) \<Rightarrow> evt_proc_exec \<Rightarrow> scope_filter \<Rightarrow> scope_filter" where
  "on_exec room proc e f0 =
    (let tgid = hdr_tgid (pe_hdr e); link = proc tgid;
         current = fmlookup (fi_pids f0) tgid;
         f = f0\<lparr>fi_warned_denied := fi_warned_denied f0 \<or> snd (exec_is_in_scope (fi_spec f0) link)\<rparr>
     in case admission_for (fi_spec f) link e current of
          Admit tag \<Rightarrow> seat_insert room tgid tag f
        | Revoke \<Rightarrow> f\<lparr>fi_pids := fmdrop tgid (fi_pids f)\<rparr>
        | Leave \<Rightarrow> f)"

fun readmit :: "(seats \<Rightarrow> u32 \<Rightarrow> bool) \<Rightarrow> u32 list \<Rightarrow> scope_filter \<Rightarrow> scope_filter" where
  "readmit room [] f = f"
| "readmit room (pid # pids) f =
    readmit room pids (if fmlookup (fi_pids f) pid \<noteq> None then f else seat_insert room pid ADMIT_BY_NAME f)"

definition reap_dead ::
    "(seats \<Rightarrow> u32 \<Rightarrow> bool) \<Rightarrow> (u32 \<Rightarrow> bool) \<Rightarrow> proc_entry list option \<Rightarrow> scope_filter \<Rightarrow> scope_filter" where
  "reap_dead room alive entries f0 =
    (let dead = filter (\<lambda>pid. \<not> alive pid) (sorted_list_of_fset (fmdom (fi_pids f0)));
         f1 = f0\<lparr>fi_pids := fmdrop_keys dead (fi_pids f0), fi_since_rescan := fi_since_rescan f0 + 1\<rparr>
     in if fi_since_rescan f1 < RESCAN_EVERY then f1
        else let (pids, denied) = scan_matching_pids (fi_spec f1) entries
             in readmit room pids (f1\<lparr>fi_since_rescan := 0, fi_warned_denied := fi_warned_denied f1 \<or> denied\<rparr>))"

section \<open>Containers\<close>

text \<open>\<open>str::lines\<close>: split at line feeds, without a final empty line and without carriage returns.\<close>

definition str_lines :: "string \<Rightarrow> string list" where
  "str_lines s =
    (let ls = split_char (CHR 0x0A) s; ls' = (if last ls = [] then butlast ls else ls) in
     map (\<lambda>l. case strip_suffix [CHR 0x0D] l of Some l' \<Rightarrow> l' | None \<Rightarrow> l) ls')"

definition path_component_contains :: "string \<Rightarrow> string \<Rightarrow> bool" where
  "path_component_contains path token =
    list_ex (\<lambda>c. c \<noteq> [] \<and> sublist token c) (split_char CHR ''/'' path)"

definition trim_start_matches :: "char \<Rightarrow> string \<Rightarrow> string" where
  "trim_start_matches c s = dropWhile (\<lambda>x. x = c) s"

text \<open>The inode of a path under the cgroup mount is an argument.\<close>

definition cgroup_id_for_unified_path :: "(string \<Rightarrow> u64 option) \<Rightarrow> string \<Rightarrow> u64 option" where
  "cgroup_id_for_unified_path ino rel = ino (''/sys/fs/cgroup/'' @ trim_start_matches CHR ''/'' rel)"

definition unified_prefix :: string where "unified_prefix = ''0::''"

definition container_line :: "(string \<Rightarrow> u64 option) \<Rightarrow> string \<Rightarrow> string \<Rightarrow> u64 list \<Rightarrow> u64 list" where
  "container_line ino token line ids =
    (case strip_prefix unified_prefix line of
       None \<Rightarrow> ids
     | Some rest \<Rightarrow>
         if path_component_contains rest token then
           (case cgroup_id_for_unified_path ino rest of
              None \<Rightarrow> ids
            | Some i \<Rightarrow> if i \<in> set ids then ids else ids @ [i])
         else ids)"

definition container_entry :: "(string \<Rightarrow> u64 option) \<Rightarrow> string \<Rightarrow> proc_entry \<Rightarrow> u64 list \<Rightarrow> u64 list" where
  "container_entry ino token p ids =
    (if entry_pid p = None then ids
     else case pr_cgroup p of None \<Rightarrow> ids
        | Some content \<Rightarrow> fold (container_line ino token) (str_lines content) ids)"

definition resolve_container ::
    "(string \<Rightarrow> u64 option) \<Rightarrow> proc_entry list option \<Rightarrow> string \<Rightarrow> u64 list" where
  "resolve_container ino entries token0 =
    (let token = trim token0 in
     if token = [] \<or> list_all (\<lambda>c. c = CHR ''/'') token then []
     else case entries of None \<Rightarrow> [] | Some ps \<Rightarrow> fold (container_entry ino token) ps [])"

section \<open>Installing the scope\<close>

record scope_flags =
  sf_pid :: "u32 list"
  sf_app :: "string list"
  sf_exe :: "string list"
  sf_cgroup :: "u64 list"
  sf_container :: "string list"

datatype scope_error = NoContainerMatched | CgroupInsert | PidInsert | ModeSet

definition build_filter_spec :: "(string \<Rightarrow> u64 list) \<Rightarrow> scope_flags \<Rightarrow> scope_error + filter_spec" where
  "build_filter_spec resolve cli =
    (let spec = \<lparr>fs_pids = sf_pid cli, fs_apps = sf_app cli, fs_exes = sf_exe cli,
                 fs_cgroups = sf_cgroup cli @ concat (map resolve (sf_container cli))\<rparr>
     in if sf_container cli \<noteq> [] \<and> \<not> is_active spec then Inl NoContainerMatched else Inr spec)"

record kernel_scope =
  ks_cgroups :: "(u64, u8) fmap"
  ks_pids :: seats
  ks_allowlist :: bool
  ks_warned_full :: bool
  ks_warned_denied :: bool
  ks_unmatched :: bool

definition track_all :: kernel_scope where
  "track_all = \<lparr>ks_cgroups = fmempty, ks_pids = fmempty, ks_allowlist = False,
     ks_warned_full = False, ks_warned_denied = False, ks_unmatched = False\<rparr>"

fun insert_all :: "(('k, u8) fmap \<Rightarrow> 'k \<Rightarrow> bool) \<Rightarrow> u8 \<Rightarrow> 'k list \<Rightarrow> ('k, u8) fmap \<Rightarrow> ('k, u8) fmap option" where
  "insert_all room tag [] m = Some m"
| "insert_all room tag (k # ks) m = (if room m k then insert_all room tag ks (fmupd k tag m) else None)"

fun insert_best_effort :: "(seats \<Rightarrow> u32 \<Rightarrow> bool) \<Rightarrow> u32 list \<Rightarrow> seats \<Rightarrow> seats \<times> bool" where
  "insert_best_effort room [] m = (m, False)"
| "insert_best_effort room (pid # pids) m =
    (if room m pid then insert_best_effort room pids (fmupd pid ADMIT_BY_NAME m)
     else (let (m', _) = insert_best_effort room pids m in (m', True)))"

definition scope_unmatched :: "filter_spec \<Rightarrow> nat \<Rightarrow> bool" where
  "scope_unmatched spec matched \<longleftrightarrow> \<not> (0 < matched \<or> (fs_apps spec = [] \<and> fs_exes spec = []))"

definition engage_filter ::
    "(seats \<Rightarrow> u32 \<Rightarrow> bool) \<Rightarrow> ((u64, u8) fmap \<Rightarrow> u64 \<Rightarrow> bool) \<Rightarrow> bool \<Rightarrow> proc_entry list option \<Rightarrow> filter_spec \<Rightarrow>
      scope_error + kernel_scope" where
  "engage_filter room cg_room mode_ok entries spec =
    (if \<not> is_active spec then Inr track_all
     else case insert_all cg_room 1 (fs_cgroups spec) fmempty of
       None \<Rightarrow> Inl CgroupInsert
     | Some cgroups \<Rightarrow>
         (case insert_all room ADMIT_EXPLICIT (fs_pids spec) fmempty of
            None \<Rightarrow> Inl PidInsert
          | Some pids \<Rightarrow>
              let (scanned, denied) = scan_matching_pids spec entries;
                  (pids', full) = insert_best_effort room scanned pids
              in if \<not> mode_ok then Inl ModeSet
                 else Inr \<lparr>ks_cgroups = cgroups, ks_pids = pids', ks_allowlist = True,
                        ks_warned_full = full, ks_warned_denied = denied,
                        ks_unmatched = scope_unmatched spec (length scanned)\<rparr>))"

definition scope_never_matched :: "filter_spec \<Rightarrow> bool \<Rightarrow> bool \<Rightarrow> u64 \<Rightarrow> bool" where
  "scope_never_matched spec at_start at_end records \<longleftrightarrow>
     records = 0 \<and> is_name_only spec \<and> \<not> at_start \<and> \<not> at_end"

section \<open>Facts about the match\<close>

text \<open>Position \<open>i\<close> of a name separates a version suffix from a non-empty stem.\<close>

definition version_at :: "string \<Rightarrow> nat \<Rightarrow> bool" where
  "version_at base i \<longleftrightarrow> 0 < i \<and> i < length base \<and> (base ! i = CHR ''-'' \<or> base ! i = CHR ''.'')
     \<and> is_version_tail (drop (Suc i) base)"

lemma strip_version_loop_find:
  "i \<le> length base \<Longrightarrow> strip_version_loop (rev (take i base)) (drop i base)
    = map_option (\<lambda>j. take j base) (find (version_at base) [i..<length base])"
proof (induction "length base - i" arbitrary: i)
  case 0
  then show ?case by simp
next
  case (Suc n)
  then have i: "i < length base" by simp
  have IH: "strip_version_loop (rev (take (Suc i) base)) (drop (Suc i) base)
      = map_option (\<lambda>j. take j base) (find (version_at base) [Suc i..<length base])"
    using Suc by simp
  have d: "drop i base = base ! i # drop (Suc i) base" using i by (simp add: Cons_nth_drop_Suc)
  have t: "rev (take (Suc i) base) = base ! i # rev (take i base)" using i by (simp add: take_Suc_conv_app_nth)
  have u: "[i..<length base] = i # [Suc i..<length base]" using i by (simp add: upt_conv_Cons)
  have e: "rev (take i base) = [] \<longleftrightarrow> i = 0" using i by auto
  show ?case
    unfolding d u strip_version_loop.simps e t [symmetric]
    using IH i by (auto simp: version_at_def t)
qed

lemma find_upt:
  "find P [0..<n] = Some i \<longleftrightarrow> i < n \<and> P i \<and> (\<forall>j<i. \<not> P j)"
  by (auto simp: find_Some_iff)

lemma strip_version_suffix_Some:
  "strip_version_suffix base = Some stem \<longleftrightarrow>
    (\<exists>i. version_at base i \<and> stem = take i base \<and> (\<forall>j<i. \<not> version_at base j))"
proof -
  have "version_at base i \<Longrightarrow> i < length base" for i by (simp add: version_at_def)
  moreover have "strip_version_suffix base = map_option (\<lambda>j. take j base) (find (version_at base) [0..<length base])"
    using strip_version_loop_find [of 0 base] by (simp add: strip_version_suffix_def)
  ultimately show ?thesis by (auto simp: find_upt)
qed

section \<open>Facts about admission\<close>

lemma on_exec_other: "pid \<noteq> hdr_tgid (pe_hdr e) \<Longrightarrow> fmlookup (fi_pids (on_exec room proc e f)) pid = fmlookup (fi_pids f) pid"
  by (simp add: on_exec_def Let_def seat_insert_def split: exec_admission.split)

lemma on_exec_spec [simp]: "fi_spec (on_exec room proc e f) = fi_spec f"
  by (simp add: on_exec_def Let_def seat_insert_def split: exec_admission.split)

definition in_scope :: "filter_spec \<Rightarrow> link_result \<Rightarrow> bool" where
  "in_scope spec link \<longleftrightarrow> (\<exists>p. link = Inr p \<and> matches_app_exe spec (from_utf8_lossy p))"

lemma in_scope_iff: "fst (exec_is_in_scope spec link) = in_scope spec link"
  by (auto simp: exec_is_in_scope_def resolve_exe_def in_scope_def split: sum.split link_error.split)

definition explicit_for :: "filter_spec \<Rightarrow> evt_proc_exec \<Rightarrow> bool" where
  "explicit_for spec e \<longleftrightarrow> hdr_tgid (pe_hdr e) \<in> set (fs_pids spec) \<or> pe_cgroup_id e \<in> set (fs_cgroups spec)"

lemma on_exec_seat:
  "fmlookup (fi_pids (on_exec room proc e f)) (hdr_tgid (pe_hdr e)) =
    (let old = fmlookup (fi_pids f) (hdr_tgid (pe_hdr e)) in
     if in_scope (fi_spec f) (proc (hdr_tgid (pe_hdr e)))
     then (if room (fi_pids f) (hdr_tgid (pe_hdr e))
           then Some (if explicit_for (fi_spec f) e then ADMIT_EXPLICIT else ADMIT_BY_NAME) else old)
     else if old = Some ADMIT_BY_NAME then None else old)"
  by (simp add: on_exec_def Let_def seat_insert_def admission_for_def in_scope_iff explicit_for_def)

text \<open>Runs of execs, each with the process table it saw.\<close>

definition execs :: "(seats \<Rightarrow> u32 \<Rightarrow> bool) \<Rightarrow> ((u32 \<Rightarrow> link_result) \<times> evt_proc_exec) list \<Rightarrow> scope_filter \<Rightarrow> scope_filter" where
  "execs room es f = fold (\<lambda>(proc, e). on_exec room proc e) es f"

lemma execs_simps [simp]: "execs room [] f = f" "execs room ((proc, e) # es) f = execs room es (on_exec room proc e f)"
  by (simp_all add: execs_def)

lemma execs_append: "execs room (xs @ ys) f = execs room ys (execs room xs f)"
  by (simp add: execs_def)

lemma execs_spec [simp]: "fi_spec (execs room es f) = fi_spec f"
  by (induction es arbitrary: f) auto

lemma execs_other:
  "list_all (\<lambda>(proc, e). hdr_tgid (pe_hdr e) \<noteq> pid) es \<Longrightarrow> fmlookup (fi_pids (execs room es f)) pid = fmlookup (fi_pids f) pid"
  by (induction es arbitrary: f) (auto simp: on_exec_other)

section \<open>Facts about installation\<close>

lemma insert_all_lookup:
  "insert_all room tag ks m = Some m' \<Longrightarrow> fmlookup m' k = (if k \<in> set ks then Some tag else fmlookup m k)"
  by (induction ks arbitrary: m) (auto split: if_splits)

lemma insert_best_effort_lookup:
  "fmlookup (fst (insert_best_effort room pids m)) pid \<in> {fmlookup m pid} \<union> (if pid \<in> set pids then {Some ADMIT_BY_NAME} else {})"
proof (induction pids arbitrary: m)
  case (Cons p pids)
  from Cons.IH [of m] Cons.IH [of "fmupd p ADMIT_BY_NAME m"] show ?case
    by (cases "room m p") (auto simp: split_beta Let_def split: if_splits)
qed simp

lemma insert_best_effort_room:
  "(\<And>m k. room m k) \<Longrightarrow> fmlookup (fst (insert_best_effort room pids m)) pid
    = (if pid \<in> set pids then Some ADMIT_BY_NAME else fmlookup m pid) \<and> \<not> snd (insert_best_effort room pids m)"
  by (induction pids arbitrary: m) auto

lemma scan_loop_iff:
  "pid \<in> set (fst (scan_loop spec ps)) \<longleftrightarrow> (\<exists>p\<in>set ps. entry_pid p = Some pid \<and> in_scope spec (pr_exe p))"
  by (induction ps)
    (auto simp: Let_def split_beta in_scope_def resolve_exe_def split: option.splits sum.splits link_error.splits exe_link.splits)

lemma container_line_ids:
  "i \<in> set (container_line ino token line ids) \<Longrightarrow> i \<in> set ids
    \<or> (\<exists>rest. line = unified_prefix @ rest \<and> path_component_contains rest token \<and> cgroup_id_for_unified_path ino rest = Some i)"
  by (auto simp: container_line_def strip_prefix_def starts_with_def prefix_def split: option.splits if_splits)

lemma container_lines_ids:
  "i \<in> set (fold (container_line ino token) ls ids) \<Longrightarrow> i \<in> set ids
    \<or> (\<exists>rest. unified_prefix @ rest \<in> set ls \<and> path_component_contains rest token \<and> cgroup_id_for_unified_path ino rest = Some i)"
proof (induction ls arbitrary: ids)
  case (Cons l ls)
  from Cons.prems have "i \<in> set (fold (container_line ino token) ls (container_line ino token l ids))" by simp
  from Cons.IH [OF this] show ?case by (auto dest!: container_line_ids)
qed simp

definition names_cgroup :: "(string \<Rightarrow> u64 option) \<Rightarrow> proc_entry list \<Rightarrow> string \<Rightarrow> u64 \<Rightarrow> bool" where
  "names_cgroup ino ps token i \<longleftrightarrow> (\<exists>p content rest. p \<in> set ps \<and> pr_cgroup p = Some content
     \<and> unified_prefix @ rest \<in> set (str_lines content) \<and> path_component_contains rest token
     \<and> cgroup_id_for_unified_path ino rest = Some i)"

lemma container_entries_ids:
  "i \<in> set (fold (container_entry ino token) ps ids) \<Longrightarrow> i \<in> set ids \<or> names_cgroup ino ps token i"
proof (induction ps arbitrary: ids)
  case (Cons p ps)
  from Cons.prems have "i \<in> set (fold (container_entry ino token) ps (container_entry ino token p ids))" by simp
  from Cons.IH [OF this] have "i \<in> set (container_entry ino token p ids) \<or> names_cgroup ino ps token i" .
  then show ?case
    by (fastforce simp: container_entry_def names_cgroup_def dest: container_lines_ids split: if_splits option.splits)
qed simp

lemma resolve_container_ids:
  "i \<in> set (resolve_container ino entries token) \<Longrightarrow>
    \<exists>ps. entries = Some ps \<and> names_cgroup ino ps (trim token) i \<and> trim token \<noteq> []
      \<and> \<not> list_all (\<lambda>c. c = CHR ''/'') (trim token)"
  by (auto simp: resolve_container_def Let_def dest!: container_entries_ids split: if_splits option.splits)

section \<open>Properties\<close>

text \<open>Which executables an \<open>--app\<close> or \<open>--exe\<close> scope admits. A path matches exactly when it is one of the
  exact paths, or an app name is its last component, or is that component up to its first version
  suffix (a separator with digits and dots after it, over a non-empty stem).\<close>

theorem app_match_correct:
  "matches_app_exe spec exe \<longleftrightarrow> exe \<in> set (fs_exes spec)
    \<or> (\<exists>a. a \<in> set (fs_apps spec) \<and> (a = exe_basename exe
          \<or> (\<exists>i. version_at (exe_basename exe) i \<and> a = take i (exe_basename exe)
               \<and> (\<forall>j. j < i \<longrightarrow> \<not> version_at (exe_basename exe) j))))"
  by (auto simp: matches_app_exe_def Let_def list_ex_iff strip_version_suffix_Some)

lemma app_match_correct_witness:
  "matches_app_exe \<lparr>fs_pids = [], fs_apps = [''python3''], fs_exes = [], fs_cgroups = []\<rparr> ''/usr/bin/python3.12''"
proof -
  have e: "exe_basename ''/usr/bin/python3.12'' = ''python3.12''" by code_simp
  have v: "version_at ''python3.12'' 7" by (simp add: version_at_def is_version_tail_def is_digit_def)
  have n: "\<not> version_at ''python3.12'' j" if "j < 7" for j
  proof -
    from that have "j \<in> {0, 1, 2, 3, 4, 5, 6}" by auto
    then show ?thesis by (auto simp: version_at_def)
  qed
  have "\<exists>i. version_at ''python3.12'' i \<and> ''python3'' = take i ''python3.12'' \<and> (\<forall>j. j < i \<longrightarrow> \<not> version_at ''python3.12'' j)"
    by (rule exI [of _ 7]) (use v n in simp)
  then show ?thesis
    using app_match_correct [of "\<lparr>fs_pids = [], fs_apps = [''python3''], fs_exes = [], fs_cgroups = []\<rparr>" "''/usr/bin/python3.12''"]
    unfolding e by auto
qed

text \<open>C5: what an exec does to the scope. The decision uses the executable the kernel runs and nothing the
  process chose: two exec events of one process and control group have the same effect whatever name,
  path or thread they carry. A name match grants the seat its tag, if the map has room; anything else
  (another image, a vanished process, an unreadable link) withdraws a seat granted by name and no
  other seat. So, after any run of execs, whoever holds a seat by name and execed in it was running a
  matching executable at its last exec.\<close>

theorem exec_decision:
  assumes "pid = hdr_tgid (pe_hdr e)" and "list_all (\<lambda>(proc, e'). hdr_tgid (pe_hdr e') \<noteq> pid) later"
    and "old = fmlookup (fi_pids (execs room before f)) pid"
    and "hdr_tgid (pe_hdr e2) = pid" "pe_cgroup_id e2 = pe_cgroup_id e"
  shows "fmlookup (fi_pids (execs room (before @ (proc, e) # later) f)) pid =
      (if in_scope (fi_spec f) (proc pid)
       then (if room (fi_pids (execs room before f)) pid
             then Some (if explicit_for (fi_spec f) e then ADMIT_EXPLICIT else ADMIT_BY_NAME) else old)
       else if old = Some ADMIT_BY_NAME then None else old)
    \<and> (fmlookup (fi_pids (execs room (before @ (proc, e) # later) f)) pid = Some ADMIT_BY_NAME
        \<longrightarrow> in_scope (fi_spec f) (proc pid))
    \<and> on_exec room proc e2 f = on_exec room proc e f"
proof -
  have "fmlookup (fi_pids (execs room (before @ (proc, e) # later) f)) pid =
      (if in_scope (fi_spec f) (proc pid)
       then (if room (fi_pids (execs room before f)) pid
             then Some (if explicit_for (fi_spec f) e then ADMIT_EXPLICIT else ADMIT_BY_NAME) else old)
       else if old = Some ADMIT_BY_NAME then None else old)"
    using on_exec_seat [of room proc e "execs room before f"] assms(1-3)
    by (simp add: execs_append execs_other)
  moreover from this have "fmlookup (fi_pids (execs room (before @ (proc, e) # later) f)) pid = Some ADMIT_BY_NAME
      \<longrightarrow> in_scope (fi_spec f) (proc pid)"
    by (simp split: if_splits)
  moreover have "on_exec room proc e2 f = on_exec room proc e f"
    using assms(1,4,5) by (simp add: on_exec_def admission_for_def Let_def)
  ultimately show ?thesis by blast
qed

definition sample_spec :: filter_spec where
  "sample_spec = \<lparr>fs_pids = [42], fs_apps = [''python3''], fs_exes = [], fs_cgroups = []\<rparr>"

definition sample_exec :: "u32 \<Rightarrow> evt_proc_exec" where
  "sample_exec pid = evt_proc_exec_default\<lparr>pe_hdr := event_hdr_default\<lparr>hdr_tgid := pid\<rparr>\<rparr>"

text \<open>A seat inherited from an explicit process is lost after an exec into the name scope and one out of it.\<close>

lemma exec_decision_witness:
  "fmlookup (fi_pids (execs (\<lambda>_ _. True)
      [(\<lambda>_. Inr (as_bytes ''/usr/bin/python3''), sample_exec 43), (\<lambda>_. Inl OtherError, sample_exec 43)]
      (filter_new sample_spec (fmupd 43 ADMIT_EXPLICIT fmempty)))) 43 = None"
proof -
  let ?f = "filter_new sample_spec (fmupd 43 ADMIT_EXPLICIT fmempty)"
  let ?before = "[(\<lambda>_. Inr (as_bytes ''/usr/bin/python3''), sample_exec 43)]"
  have m: "matches_app_exe sample_spec (from_utf8_lossy (as_bytes ''/usr/bin/python3''))" by code_simp
  have t: "hdr_tgid (pe_hdr (sample_exec 43)) = 43" by (simp add: sample_exec_def)
  have "\<not> explicit_for sample_spec (sample_exec 43)"
    by (simp add: explicit_for_def sample_spec_def t) 
  then have old: "fmlookup (fi_pids (execs (\<lambda>_ _. True) ?before ?f)) 43 = Some ADMIT_BY_NAME"
    using on_exec_seat [of "\<lambda>_ _. True" "\<lambda>_. Inr (as_bytes ''/usr/bin/python3'')" "sample_exec 43" ?f] m
    by (simp add: t filter_new_def in_scope_def)
  have "\<not> in_scope (fi_spec ?f) (Inl OtherError)" by (simp add: in_scope_def)
  then show ?thesis
    using exec_decision [of 43 "sample_exec 43" "[]" _ "\<lambda>_ _. True" ?before ?f "sample_exec 43" "\<lambda>_. Inl OtherError", OF _ _ old [symmetric]]
    by (simp add: t)
qed

text \<open>C34: an unsatisfiable container scope is refused. When a run asks for containers, the filter that is
  built is active, so the capture is never host-wide; every control group in it was asked for by id or
  is named by a component of a process's cgroup path that contains a non-blank token; and an active
  filter, once installed, has switched the kernel to its allowlist.\<close>

theorem scope_fails_closed:
  assumes "build_filter_spec (resolve_container ino entries) cli = Inr spec"
  shows "(sf_container cli \<noteq> [] \<longrightarrow> is_active spec)
    \<and> (\<forall>i\<in>set (fs_cgroups spec). i \<in> set (sf_cgroup cli) \<or>
        (\<exists>t ps. t \<in> set (sf_container cli) \<and> entries = Some ps \<and> names_cgroup ino ps (trim t) i
           \<and> trim t \<noteq> [] \<and> \<not> list_all (\<lambda>c. c = CHR ''/'') (trim t)))
    \<and> (is_active spec \<longrightarrow> (\<forall>k. engage_filter room cg_room mode_ok procs spec = Inr k \<longrightarrow> ks_allowlist k))"
proof (intro conjI ballI)
  show "sf_container cli \<noteq> [] \<longrightarrow> is_active spec"
    using assms by (auto simp: build_filter_spec_def Let_def split: if_splits)
  show "is_active spec \<longrightarrow> (\<forall>k. engage_filter room cg_room mode_ok procs spec = Inr k \<longrightarrow> ks_allowlist k)"
    by (auto simp: engage_filter_def Let_def split_beta split: option.splits if_splits)
next
  fix i assume "i \<in> set (fs_cgroups spec)"
  moreover have "fs_cgroups spec = sf_cgroup cli @ concat (map (resolve_container ino entries) (sf_container cli))"
    using assms by (auto simp: build_filter_spec_def Let_def split: if_splits)
  ultimately show "i \<in> set (sf_cgroup cli) \<or>
        (\<exists>t ps. t \<in> set (sf_container cli) \<and> entries = Some ps \<and> names_cgroup ino ps (trim t) i
           \<and> trim t \<noteq> [] \<and> \<not> list_all (\<lambda>c. c = CHR ''/'') (trim t))"
    by (auto dest!: resolve_container_ids)
qed

lemma scope_fails_closed_witness:
  "\<exists>spec. build_filter_spec (resolve_container (\<lambda>_. Some 5) None) \<lparr>sf_pid = [42], sf_app = [], sf_exe = [], sf_cgroup = [],
      sf_container = ['' '']\<rparr> = Inr spec \<and> is_active spec"
proof -
  let ?cli = "\<lparr>sf_pid = [42], sf_app = [], sf_exe = [], sf_cgroup = [], sf_container = ['' '']\<rparr>"
  obtain spec where b: "build_filter_spec (resolve_container (\<lambda>_. Some 5) None) ?cli = Inr spec"
    by (simp add: build_filter_spec_def is_active_def)
  from scope_fails_closed [OF b] have "is_active spec" by simp
  with b show ?thesis by blast
qed

text \<open>The installed scope. With room in the kernel's map, the control groups are the requested ones and
  the seats exactly the requested processes and those found running a matching executable; a process
  found by the scan holds its seat by name, even one that was also requested by number.\<close>

theorem engaged_scope:
  assumes "is_active spec" and "\<And>m k. room m k" and "\<And>m k. cg_room m k"
  shows "\<exists>k. engage_filter room cg_room True entries spec = Inr k \<and> ks_allowlist k
    \<and> (\<forall>g. (fmlookup (ks_cgroups k) g \<noteq> None) = (g \<in> set (fs_cgroups spec)))
    \<and> (\<forall>pid. fmlookup (ks_pids k) pid =
        (if pid \<in> set (fst (scan_matching_pids spec entries)) then Some ADMIT_BY_NAME
         else if pid \<in> set (fs_pids spec) then Some ADMIT_EXPLICIT else None))
    \<and> (\<forall>pid. pid \<in> set (fst (scan_matching_pids spec entries)) \<longrightarrow>
        (\<exists>ps p. entries = Some ps \<and> p \<in> set ps \<and> entry_pid p = Some pid \<and> in_scope spec (pr_exe p)))"
proof -
  have "\<exists>m'. insert_all r tag ks m = Some m'" if "\<And>m k. r m k" for r tag m and ks :: "'k list"
    using that by (induction ks arbitrary: m) auto
  from this [of cg_room] this [of room] assms(2,3) obtain g p where
    g: "insert_all cg_room 1 (fs_cgroups spec) fmempty = Some g" and
    p: "insert_all room ADMIT_EXPLICIT (fs_pids spec) fmempty = Some p" by metis
  have "pid \<in> set (fst (scan_matching_pids spec entries)) \<longrightarrow>
        (\<exists>ps p. entries = Some ps \<and> p \<in> set ps \<and> entry_pid p = Some pid \<and> in_scope spec (pr_exe p))" for pid
    by (auto simp: scan_matching_pids_def scan_loop_iff split: option.split)
  then show ?thesis
    using assms(1) insert_all_lookup [OF g] insert_all_lookup [OF p]
      insert_best_effort_room [OF assms(2)]
    by (simp add: engage_filter_def g p Let_def split_beta)
qed

lemma engaged_scope_witness:
  "\<exists>k. engage_filter (\<lambda>_ _. True) (\<lambda>_ _. True) True
      (Some [\<lparr>pr_name = as_bytes ''42'', pr_exe = Inr (as_bytes ''/usr/bin/python3.12''), pr_cgroup = None\<rparr>]) sample_spec = Inr k
    \<and> fmlookup (ks_pids k) 42 = Some ADMIT_BY_NAME"
proof -
  let ?ps = "Some [\<lparr>pr_name = as_bytes ''42'', pr_exe = Inr (as_bytes ''/usr/bin/python3.12''), pr_cgroup = None\<rparr>]"
  have "from_utf8 (as_bytes ''42'') = Some ''42''"
    "matches_app_exe sample_spec (from_utf8_lossy (as_bytes ''/usr/bin/python3.12''))" by code_simp+
  moreover have "parse_u32 ''42'' = Some 42"
    by (simp add: parse_u32_def parse_uint_def is_digit_def)
  ultimately have "fst (scan_matching_pids sample_spec ?ps) = [42]"
    by (simp add: scan_matching_pids_def sample_spec_def entry_pid_def resolve_exe_def)
  moreover have "is_active sample_spec" by (simp add: is_active_def sample_spec_def)
  from engaged_scope [OF this, of "\<lambda>_ _. True" "\<lambda>_ _. True" ?ps] obtain k where
    "engage_filter (\<lambda>_ _. True) (\<lambda>_ _. True) True ?ps sample_spec = Inr k"
    "\<forall>pid. fmlookup (ks_pids k) pid =
        (if pid \<in> set (fst (scan_matching_pids sample_spec ?ps)) then Some ADMIT_BY_NAME
         else if pid \<in> set (fs_pids sample_spec) then Some ADMIT_EXPLICIT else None)" by blast
  ultimately show ?thesis by (intro exI [of _ k]) simp
qed

end
