(* ===== verification/LruList.thy ===== *)
theory LruList
  imports Prelude
begin

text \<open>
  Recency order kept by stamps, as in \<open>LruList\<close> of \<open>crates/s3tap-replay/src/arc.rs\<close>: a hash map from
  key to stamp, a \<open>BTreeMap\<close> from stamp to key, and a counter. A \<open>BTreeMap\<close> is an \<open>fmap\<close> walked in key
  order. \<open>lru_keys\<close> is the abstraction, the keys from least to most recently used; the locale
  \<open>recency\<close> states what its clients rely on.
\<close>

section \<open>Ordered maps\<close>

lemma sorted_fset_unique:
  assumes "sorted xs" and "distinct xs" and "set xs = fset A"
  shows "sorted_list_of_fset A = xs"
  using assms by (metis sorted_list_of_fset.rep_eq sorted_list_of_set.idem_if_sorted_distinct)

lemma sorted_list_of_fmap_eqI:
  assumes "sorted (map fst xs)" and "distinct (map fst xs)" and "\<And>k v. (k, v) \<in> set xs \<longleftrightarrow> fmlookup m k = Some v"
  shows "sorted_list_of_fmap m = xs"
proof -
  have "set (map fst xs) = fset (fmdom m)"
    using assms(3) by (force simp: fmlookup_dom_iff)
  then have "sorted_list_of_fset (fmdom m) = map fst xs" by (rule sorted_fset_unique [OF assms(1,2)])
  then have "sorted_list_of_fmap m = map (\<lambda>k. (k, the (fmlookup m k))) (map fst xs)"
    by (simp add: sorted_list_of_fmap_def)
  also have "\<dots> = xs"
    using assms(3) by (auto simp: comp_def intro!: map_idI)
  finally show ?thesis .
qed

lemma sorted_fst_sorted_list_of_fmap [fm_simps]: "sorted (map fst (sorted_list_of_fmap m))"
  unfolding sorted_list_of_fmap_map_fst by (simp add: sorted_list_of_fset.rep_eq)

lemma sorted_list_of_fmap_empty [simp]: "sorted_list_of_fmap fmempty = []"
  by (rule sorted_list_of_fmap_eqI) simp_all

lemma sorted_list_of_fmap_drop:
  "sorted_list_of_fmap (fmdrop k m) = filter (\<lambda>p. fst p \<noteq> k) (sorted_list_of_fmap m)"
  by (rule sorted_list_of_fmap_eqI)
    (auto simp: fm_simps distinct_map_filter sorted_filter)

lemma sorted_list_of_fmap_upd_last:
  assumes "\<And>j. j \<in> fmdom' m \<Longrightarrow> j < k"
  shows "sorted_list_of_fmap (fmupd k v m) = sorted_list_of_fmap m @ [(k, v)]"
proof (rule sorted_list_of_fmap_eqI)
  have lt: "j < k" if "j \<in> fst ` set (sorted_list_of_fmap m)" for j
    using that assms by (force simp: fm_simps fmlookup_dom'_iff)
  show "sorted (map fst (sorted_list_of_fmap m @ [(k, v)]))"
    using lt by (auto simp: sorted_append fm_simps less_imp_le)
  show "distinct (map fst (sorted_list_of_fmap m @ [(k, v)]))"
    using lt by (auto simp: fm_simps)
  show "(j, w) \<in> set (sorted_list_of_fmap m @ [(k, v)]) \<longleftrightarrow> fmlookup (fmupd k v m) j = Some w" for j w
    using assms [of k] by (auto simp: fm_simps fmlookup_dom'_iff)
qed

section \<open>The list\<close>

record lru_list =
  ll_stamp :: "(string, u64) fmap"
  ll_order :: "(u64, string) fmap"
  ll_next :: u64

definition lru_empty :: lru_list where
  "lru_empty = \<lparr>ll_stamp = fmempty, ll_order = fmempty, ll_next = 0\<rparr>"

definition lru_len :: "lru_list \<Rightarrow> nat" where
  "lru_len l = fmlen (ll_stamp l)"

definition lru_contains :: "string \<Rightarrow> lru_list \<Rightarrow> bool" where
  "lru_contains k l \<longleftrightarrow> fmlookup (ll_stamp l) k \<noteq> None"

definition lru_remove :: "string \<Rightarrow> lru_list \<Rightarrow> lru_list \<times> bool" where
  "lru_remove k l =
    (case fmlookup (ll_stamp l) k of
       Some s \<Rightarrow> (l\<lparr>ll_stamp := fmdrop k (ll_stamp l), ll_order := fmdrop s (ll_order l)\<rparr>, True)
     | None \<Rightarrow> (l, False))"

definition lru_touch :: "string \<Rightarrow> lru_list \<Rightarrow> lru_list" where
  "lru_touch k l0 =
    (let l = fst (lru_remove k l0); s = ll_next l in
     l\<lparr>ll_next := s + 1, ll_stamp := fmupd k s (ll_stamp l), ll_order := fmupd s k (ll_order l)\<rparr>)"

text \<open>The \<open>expect\<close> of the source cannot fail: the stamp comes from the map it is removed from.\<close>

definition lru_pop :: "lru_list \<Rightarrow> lru_list \<times> string option" where
  "lru_pop l =
    (case sorted_list_of_fmap (ll_order l) of
       [] \<Rightarrow> (l, None)
     | (s, k) # _ \<Rightarrow> (l\<lparr>ll_order := fmdrop s (ll_order l), ll_stamp := fmdrop k (ll_stamp l)\<rparr>, Some k))"

section \<open>The abstraction\<close>

definition lru_keys :: "lru_list \<Rightarrow> string list" where
  "lru_keys l = map snd (sorted_list_of_fmap (ll_order l))"

text \<open>The two maps are inverse to each other, and every stamp is below the counter.\<close>

definition lru_ok :: "lru_list \<Rightarrow> bool" where
  "lru_ok l \<longleftrightarrow> (\<forall>k s. fmlookup (ll_stamp l) k = Some s \<longleftrightarrow> fmlookup (ll_order l) s = Some k)
     \<and> (\<forall>s. s \<in> fmdom' (ll_order l) \<longrightarrow> s < ll_next l)"

lemma lru_okD: "lru_ok l \<Longrightarrow> fmlookup (ll_stamp l) k = Some s \<longleftrightarrow> fmlookup (ll_order l) s = Some k"
  by (simp add: lru_ok_def)

lemma lru_keys_mem: "lru_ok l \<Longrightarrow> k \<in> set (lru_keys l) \<longleftrightarrow> fmlookup (ll_stamp l) k \<noteq> None"
proof -
  assume ok: "lru_ok l"
  have "k \<in> set (lru_keys l) \<longleftrightarrow> (\<exists>s. (s, k) \<in> set (sorted_list_of_fmap (ll_order l)))"
    by (force simp: lru_keys_def)
  then show ?thesis by (auto simp: fm_simps lru_okD [OF ok, symmetric])
qed

lemma distinct_lru_keys: "lru_ok l \<Longrightarrow> distinct (lru_keys l)"
proof -
  assume ok: "lru_ok l"
  have "inj_on snd (set (sorted_list_of_fmap (ll_order l)))"
  proof (rule inj_onI)
    fix x y assume x: "x \<in> set (sorted_list_of_fmap (ll_order l))" and y: "y \<in> set (sorted_list_of_fmap (ll_order l))"
      and eq: "snd x = snd y"
    obtain a k where xa: "x = (a, k)" by force
    with eq obtain b where yb: "y = (b, k)" by (cases y) auto
    from x y have "fmlookup (ll_stamp l) k = Some a" "fmlookup (ll_stamp l) k = Some b"
      by (auto simp: xa yb fm_simps lru_okD [OF ok])
    then show "x = y" by (simp add: xa yb)
  qed
  then show ?thesis by (simp add: lru_keys_def distinct_map distinct_sorted_list_of_fmap)
qed

lemma lru_len_keys: "lru_ok l \<Longrightarrow> lru_len l = length (lru_keys l)"
proof -
  assume ok: "lru_ok l"
  have "set (lru_keys l) = fmdom' (ll_stamp l)"
    using lru_keys_mem [OF ok] by (auto simp: in_fmdom'_iff)
  then show ?thesis using distinct_card [OF distinct_lru_keys [OF ok]] by (simp add: lru_len_def fmlen_def)
qed

lemma lru_ok_empty: "lru_ok lru_empty" "lru_keys lru_empty = []"
  by (simp_all add: lru_ok_def lru_empty_def lru_keys_def)

lemma filter_snd_order:
  assumes ok: "lru_ok l" and s: "fmlookup (ll_stamp l) k = Some s"
  shows "map snd (filter (\<lambda>p. fst p \<noteq> s) (sorted_list_of_fmap (ll_order l))) = filter (\<lambda>x. x \<noteq> k) (lru_keys l)"
proof -
  have "(fst p \<noteq> s) = (snd p \<noteq> k)" if "p \<in> set (sorted_list_of_fmap (ll_order l))" for p
  proof -
    from that have "fmlookup (ll_order l) (fst p) = Some (snd p)"
      by (metis set_sorted_list_of_fmap prod.collapse)
    then have "fmlookup (ll_stamp l) (snd p) = Some (fst p)" by (simp add: lru_okD [OF ok])
    with s show ?thesis using \<open>fmlookup (ll_order l) (fst p) = Some (snd p)\<close> by (metis lru_okD [OF ok] option.inject)
  qed
  then show ?thesis by (simp add: lru_keys_def filter_map comp_def cong: filter_cong)
qed

lemma lru_remove_ok:
  assumes ok: "lru_ok l"
  shows "lru_ok (fst (lru_remove k l))" "lru_keys (fst (lru_remove k l)) = filter (\<lambda>x. x \<noteq> k) (lru_keys l)"
    "ll_next (fst (lru_remove k l)) = ll_next l" "snd (lru_remove k l) = (k \<in> set (lru_keys l))"
proof -
  show "lru_ok (fst (lru_remove k l))"
  proof (cases "fmlookup (ll_stamp l) k")
    case (Some s)
    have o: "fmlookup (ll_order l) s = Some k" using Some by (simp add: lru_okD [OF ok])
    have "fmlookup (fmdrop k (ll_stamp l)) j = Some t \<longleftrightarrow> fmlookup (fmdrop s (ll_order l)) t = Some j" for j t
      using Some o lru_okD [OF ok, of j t] by auto
    moreover have "\<forall>t. t \<in> fmdom' (fmdrop s (ll_order l)) \<longrightarrow> t < ll_next l"
      using ok by (simp add: lru_ok_def)
    ultimately have "lru_ok (l\<lparr>ll_stamp := fmdrop k (ll_stamp l), ll_order := fmdrop s (ll_order l)\<rparr>)"
      unfolding lru_ok_def by simp
    then show ?thesis by (simp add: lru_remove_def Some)
  qed (simp add: lru_remove_def ok)
  show "lru_keys (fst (lru_remove k l)) = filter (\<lambda>x. x \<noteq> k) (lru_keys l)"
  proof (cases "fmlookup (ll_stamp l) k")
    case None
    then have "k \<notin> set (lru_keys l)" by (simp add: lru_keys_mem [OF ok])
    with None show ?thesis by (auto simp: lru_remove_def intro!: filter_True [symmetric])
  next
    case (Some s)
    then show ?thesis
      using filter_snd_order [OF ok Some] by (simp add: lru_remove_def lru_keys_def sorted_list_of_fmap_drop)
  qed
qed (auto simp: lru_remove_def lru_keys_mem [OF ok] split: option.split)

lemma lru_touch_ok:
  assumes ok: "lru_ok l" and room: "unat (ll_next l) + 1 < 2 ^ 64"
  shows "lru_ok (lru_touch k l)" "lru_keys (lru_touch k l) = filter (\<lambda>x. x \<noteq> k) (lru_keys l) @ [k]"
    "unat (ll_next (lru_touch k l)) = Suc (unat (ll_next l))"
proof -
  let ?d = "fst (lru_remove k l)"
  have d: "lru_ok ?d" "ll_next ?d = ll_next l" "lru_keys ?d = filter (\<lambda>x. x \<noteq> k) (lru_keys l)"
    using lru_remove_ok [OF ok] by simp_all
  have below: "s < ll_next l" if "s \<in> fmdom' (ll_order ?d)" for s
    using d(1,2) that by (simp add: lru_ok_def)
  have n: "unat (ll_next l + 1) = Suc (unat (ll_next l))"
    using room by (simp add: unat_word_ariths)
  then have up: "ll_next l < ll_next l + 1" by (simp add: word_less_nat_alt)
  have k: "fmlookup (ll_stamp ?d) k = None"
    using lru_keys_mem [OF d(1), of k] d(3) by auto
  have fresh: "fmlookup (ll_order ?d) (ll_next l) = None"
    using below [of "ll_next l"] by (cases "fmlookup (ll_order ?d) (ll_next l)") (auto dest: fmdom'I)
  have "fmlookup (fmupd k (ll_next l) (ll_stamp ?d)) j = Some t
      \<longleftrightarrow> fmlookup (fmupd (ll_next l) k (ll_order ?d)) t = Some j" for j t
    using k fresh lru_okD [OF d(1), of j t] by (cases "j = k"; cases "t = ll_next l") auto
  moreover have "s < ll_next l + 1" if "s \<in> fmdom' (fmupd (ll_next l) k (ll_order ?d))" for s
    using that below up by (auto intro: less_trans)
  ultimately show "lru_ok (lru_touch k l)"
    by (simp add: lru_touch_def Let_def d(2) lru_ok_def)
  show "lru_keys (lru_touch k l) = filter (\<lambda>x. x \<noteq> k) (lru_keys l) @ [k]"
    using d(3) below by (simp add: lru_touch_def Let_def d(2) lru_keys_def sorted_list_of_fmap_upd_last)
  show "unat (ll_next (lru_touch k l)) = Suc (unat (ll_next l))"
    by (simp add: lru_touch_def Let_def d(2) n)
qed

lemma lru_touch_within:
  assumes "lru_ok l" and "unat (ll_next l) \<le> n" and "n + 1 < 2 ^ 64"
  shows "lru_ok (lru_touch k l)" "lru_keys (lru_touch k l) = filter (\<lambda>x. x \<noteq> k) (lru_keys l) @ [k]"
    "unat (ll_next (lru_touch k l)) \<le> Suc n"
proof -
  from assms(2,3) have "unat (ll_next l) + 1 < 2 ^ 64" by linarith
  from lru_touch_ok [OF assms(1) this] assms(2)
  show "lru_ok (lru_touch k l)" "lru_keys (lru_touch k l) = filter (\<lambda>x. x \<noteq> k) (lru_keys l) @ [k]"
    "unat (ll_next (lru_touch k l)) \<le> Suc n" by simp_all
qed

lemma lru_pop_ok:
  assumes ok: "lru_ok l"
  shows "lru_ok (fst (lru_pop l))" "lru_keys (fst (lru_pop l)) = tl (lru_keys l)"
    "snd (lru_pop l) = (case lru_keys l of [] \<Rightarrow> None | k # _ \<Rightarrow> Some k)" "ll_next (fst (lru_pop l)) = ll_next l"
proof -
  have "lru_ok (fst (lru_pop l)) \<and> lru_keys (fst (lru_pop l)) = tl (lru_keys l)
    \<and> snd (lru_pop l) = (case lru_keys l of [] \<Rightarrow> None | k # _ \<Rightarrow> Some k) \<and> ll_next (fst (lru_pop l)) = ll_next l"
  proof (cases "sorted_list_of_fmap (ll_order l)")
    case Nil
    then show ?thesis by (simp add: lru_pop_def lru_keys_def ok)
  next
    case (Cons p r)
    obtain s k where p: "p = (s, k)" by force
    have "(s, k) \<in> set (sorted_list_of_fmap (ll_order l))" by (simp add: Cons p)
    then have o: "fmlookup (ll_order l) s = Some k" by (simp add: fm_simps)
    then have st: "fmlookup (ll_stamp l) k = Some s" by (simp add: lru_okD [OF ok])
    then have rm: "fst (lru_pop l) = fst (lru_remove k l)"
      by (simp add: lru_pop_def lru_remove_def Cons p)
    have keys: "lru_keys l = k # map snd r" by (simp add: lru_keys_def Cons p)
    then have "filter (\<lambda>x. x \<noteq> k) (lru_keys l) = map snd r"
      using distinct_lru_keys [OF ok] by (auto simp: filter_id_conv)
    then show ?thesis
      using lru_remove_ok [OF ok, of k] keys by (simp add: rm) (simp add: lru_pop_def Cons p)
  qed
  then show "lru_ok (fst (lru_pop l))" "lru_keys (fst (lru_pop l)) = tl (lru_keys l)"
    "snd (lru_pop l) = (case lru_keys l of [] \<Rightarrow> None | k # _ \<Rightarrow> Some k)" "ll_next (fst (lru_pop l)) = ll_next l"
    by blast+
qed

end
