(* ===== verification/DemandCache.thy ===== *)
theory DemandCache
  imports Prelude
begin

text \<open>
  What the replay engine asks of a cache policy: \<open>crates/s3tap-replay/src/trace.rs\<close> (the normalized
  trace) and the sweep loop shared by \<open>eval_arc_caps\<close> and \<open>eval_s3fifo_caps\<close>. The locale
  \<open>demand_cache\<close> states the contract of a policy, and its lemmas compare any policy that meets it with
  a cache that never evicts. Hit and access counts are natural numbers; the hit rate, their quotient
  as a float, is not modelled.
\<close>

section \<open>The trace\<close>

datatype trace_op = Get | Head | Put | Delete | Other

record norm_event =
  ne_ts_ns :: u64
  ne_op :: trace_op
  ne_object_id :: string
  ne_range :: "(u64 \<times> u64) option"
  ne_size :: "u64 option"
  ne_version :: "string option"
  ne_status :: "u16 option"

text \<open>What a policy sees of a trace: reads are accesses, writes and deletes invalidate.\<close>

datatype cache_op = Access string | Invalidate string

section \<open>The sweep loop\<close>

text \<open>The loop of one row. \<open>access\<close> may fail to return, which is \<open>None\<close>.\<close>

fun replay_loop ::
    "(string \<Rightarrow> 's \<Rightarrow> ('s \<times> bool) option) \<Rightarrow> (string \<Rightarrow> 's \<Rightarrow> 's) \<Rightarrow> norm_event list \<Rightarrow> 's \<Rightarrow> nat \<Rightarrow> nat \<Rightarrow> (nat \<times> nat) option" where
  "replay_loop access invalidate [] s accesses hits = Some (accesses, hits)"
| "replay_loop access invalidate (ev # evs) s accesses hits =
    (case ne_op ev of
       Put \<Rightarrow> replay_loop access invalidate evs (invalidate (ne_object_id ev) s) accesses hits
     | Delete \<Rightarrow> replay_loop access invalidate evs (invalidate (ne_object_id ev) s) accesses hits
     | Head \<Rightarrow> replay_loop access invalidate evs s accesses hits
     | Other \<Rightarrow> replay_loop access invalidate evs s accesses hits
     | Get \<Rightarrow>
         (case access (ne_object_id ev) s of
            None \<Rightarrow> None
          | Some (s', hit) \<Rightarrow> replay_loop access invalidate evs s' (accesses + 1) (if hit then hits + 1 else hits)))"

section \<open>A cache that never evicts\<close>

fun gets :: "norm_event list \<Rightarrow> nat" where
  "gets [] = 0"
| "gets (ev # evs) = (if ne_op ev = Get then 1 else 0) + gets evs"

text \<open>The hits of a cache without a bound: an object is held from its first read to its next write.\<close>

fun ideal_hits :: "string set \<Rightarrow> norm_event list \<Rightarrow> nat" where
  "ideal_hits seen [] = 0"
| "ideal_hits seen (ev # evs) =
    (case ne_op ev of
       Put \<Rightarrow> ideal_hits (seen - {ne_object_id ev}) evs
     | Delete \<Rightarrow> ideal_hits (seen - {ne_object_id ev}) evs
     | Head \<Rightarrow> ideal_hits seen evs
     | Other \<Rightarrow> ideal_hits seen evs
     | Get \<Rightarrow> (if ne_object_id ev \<in> seen then 1 else 0) + ideal_hits (insert (ne_object_id ev) seen) evs)"

definition read_objects :: "norm_event list \<Rightarrow> string set" where
  "read_objects evs = ne_object_id ` {ev \<in> set evs. ne_op ev = Get}"

lemma read_objects_simps [simp]:
  "read_objects [] = {}"
  "read_objects (ev # evs) = (if ne_op ev = Get then {ne_object_id ev} else {}) \<union> read_objects evs"
  by (auto simp: read_objects_def)

lemma finite_read_objects [simp]: "finite (read_objects evs)"
  by (simp add: read_objects_def)

lemma ideal_hits_le: "ideal_hits seen evs \<le> gets evs"
  by (induction seen evs rule: ideal_hits.induct) (auto split: trace_op.split)

lemma ideal_hits_mono: "A \<subseteq> B \<Longrightarrow> ideal_hits A evs \<le> ideal_hits B evs"
proof (induction evs arbitrary: A B)
  case (Cons ev evs)
  have "A - {ne_object_id ev} \<subseteq> B - {ne_object_id ev}" "insert (ne_object_id ev) A \<subseteq> insert (ne_object_id ev) B"
    using Cons.prems by auto
  from Cons.IH [OF this(1)] Cons.IH [OF this(2)] Cons.IH [OF Cons.prems] Cons.prems
  show ?case by (auto split: trace_op.split)
qed simp

section \<open>The contract of a policy\<close>

text \<open>
  \<open>held\<close> is what the cache holds, \<open>ok n\<close> its invariant after at most \<open>n\<close> accesses, and \<open>budget\<close> the
  number of accesses its 64-bit stamps are good for. An access returns, says whether the object was
  held, and brings in no other object.
\<close>

locale bounded_cache =
  fixes access :: "string \<Rightarrow> 's \<Rightarrow> ('s \<times> bool) option"
    and invalidate :: "string \<Rightarrow> 's \<Rightarrow> 's"
    and held :: "'s \<Rightarrow> string set"
    and cap :: "'s \<Rightarrow> nat"
    and ok :: "nat \<Rightarrow> 's \<Rightarrow> bool"
    and budget :: nat
  assumes access_ok: "ok n s \<Longrightarrow> n < budget \<Longrightarrow> \<exists>s'. access k s = Some (s', k \<in> held s)
        \<and> ok (Suc n) s' \<and> cap s' = cap s \<and> held s' \<subseteq> insert k (held s)"
    and invalidate_ok: "ok n s \<Longrightarrow> ok n (invalidate k s) \<and> held (invalidate k s) = held s - {k} \<and> cap (invalidate k s) = cap s"
    and bounded: "ok n s \<Longrightarrow> finite (held s) \<and> card (held s) \<le> cap s"
begin

text \<open>A bounded policy never beats the ideal cache, and it returns.\<close>

lemma replay_sound:
  "ok n s \<Longrightarrow> n + gets evs \<le> budget \<Longrightarrow> held s \<subseteq> seen \<Longrightarrow>
    \<exists>h. replay_loop access invalidate evs s a h0 = Some (a + gets evs, h0 + h) \<and> h \<le> ideal_hits seen evs"
proof (induction evs arbitrary: n s seen a h0)
  case (Cons ev evs)
  show ?case
  proof (cases "ne_op ev = Get")
    case True
    let ?k = "ne_object_id ev"
    from Cons.prems True obtain s' where s': "access ?k s = Some (s', ?k \<in> held s)" "ok (Suc n) s'" "held s' \<subseteq> insert ?k (held s)"
      using access_ok [of n s ?k] by auto
    have "Suc n + gets evs \<le> budget" "held s' \<subseteq> insert ?k seen" using Cons.prems True s'(3) by auto
    from Cons.IH [OF s'(2) this, of "a + 1" "if ?k \<in> held s then h0 + 1 else h0"] obtain h where
      "replay_loop access invalidate evs s' (a + 1) (if ?k \<in> held s then h0 + 1 else h0)
        = Some (a + 1 + gets evs, (if ?k \<in> held s then h0 + 1 else h0) + h)" "h \<le> ideal_hits (insert ?k seen) evs" by blast
    then show ?thesis using Cons.prems(3) True s'(1)
      by (intro exI [of _ "(if ?k \<in> held s then 1 else 0) + h"]) (auto split: if_splits)
  next
    case False
    have inv: "ok n (invalidate (ne_object_id ev) s)" "held (invalidate (ne_object_id ev) s) \<subseteq> seen - {ne_object_id ev}"
      using invalidate_ok [OF Cons.prems(1)] Cons.prems(3) by auto
    have g: "n + gets evs \<le> budget" using Cons.prems(2) by simp
    from False show ?thesis
      using Cons.IH [OF Cons.prems(1) g Cons.prems(3)] Cons.IH [OF inv(1) g inv(2)] by (cases "ne_op ev") simp_all
  qed
qed simp

end

text \<open>A policy that admits every object, and gives up nothing on a hit or below the capacity.\<close>

locale demand_cache = bounded_cache access invalidate held cap ok budget
  for access :: "string \<Rightarrow> 's \<Rightarrow> ('s \<times> bool) option" and invalidate :: "string \<Rightarrow> 's \<Rightarrow> 's"
    and held :: "'s \<Rightarrow> string set" and cap :: "'s \<Rightarrow> nat" and ok :: "nat \<Rightarrow> 's \<Rightarrow> bool" and budget :: nat +
  assumes admits: "ok n s \<Longrightarrow> n < budget \<Longrightarrow> access k s = Some (s', hit) \<Longrightarrow>
      k \<in> held s' \<and> (k \<in> held s \<or> card (held s) < cap s \<longrightarrow> held s \<subseteq> held s')"
begin

text \<open>With room for every object read, it matches the ideal cache.\<close>

lemma replay_complete:
  "ok n s \<Longrightarrow> n + gets evs \<le> budget \<Longrightarrow> card (held s \<union> read_objects evs) \<le> cap s \<Longrightarrow>
    replay_loop access invalidate evs s a h0 = Some (a + gets evs, h0 + ideal_hits (held s) evs)"
proof (induction evs arbitrary: n s a h0)
  case (Cons ev evs)
  show ?case
  proof (cases "ne_op ev = Get")
    case True
    let ?k = "ne_object_id ev"
    have fin: "finite (held s)" using bounded [OF Cons.prems(1)] by simp
    from Cons.prems True obtain s' where s': "access ?k s = Some (s', ?k \<in> held s)" "ok (Suc n) s'" "cap s' = cap s" "?k \<in> held s'"
      "held s' \<subseteq> insert ?k (held s)" "?k \<in> held s \<or> card (held s) < cap s \<longrightarrow> held s \<subseteq> held s'"
      using access_ok [of n s ?k] admits [of n s ?k] by fastforce
    have "card (held s) < cap s" if "?k \<notin> held s"
    proof -
      have "card (held s) < card (insert ?k (held s))" using that fin by simp
      also have "\<dots> \<le> card (held s \<union> read_objects (ev # evs))" using fin True by (intro card_mono) auto
      finally show ?thesis using Cons.prems(3) by simp
    qed
    then have e: "held s' = insert ?k (held s)" using s'(4-6) by blast
    have "Suc n + gets evs \<le> budget" "card (held s' \<union> read_objects evs) \<le> cap s'"
      using Cons.prems True by (simp_all add: e s'(3))
    from Cons.IH [OF s'(2) this] show ?thesis using True by (simp add: s'(1) e)
  next
    case False
    let ?i = "invalidate (ne_object_id ev) s"
    have inv: "ok n ?i" "held ?i = held s - {ne_object_id ev}" "cap ?i = cap s"
      using invalidate_ok [OF Cons.prems(1)] by auto
    have g: "n + gets evs \<le> budget" using Cons.prems(2) by simp
    have c: "card (held s \<union> read_objects evs) \<le> cap s" using Cons.prems(3) False by simp
    moreover have "card (held ?i \<union> read_objects evs) \<le> card (held s \<union> read_objects evs)"
      using bounded [OF Cons.prems(1)] inv(2) by (intro card_mono) auto
    ultimately have ci: "card (held ?i \<union> read_objects evs) \<le> cap ?i" using inv(3) by simp
    from False show ?thesis
      using Cons.IH [OF Cons.prems(1) g c] Cons.IH [OF inv(1) g ci] by (cases "ne_op ev") (simp_all add: inv(2))
  qed
qed simp

end

end
