(* ===== verification/Belady.thy ===== *)
theory Belady
  imports DemandCache "HOL-Library.Char_ord" "HOL-Library.List_Lexorder" "HOL-Library.Product_Lexorder"
begin

text \<open>
  The reference ceiling of the study, \<open>belady_hit_rates\<close> of \<open>crates/s3tap-replay/src/driver.rs\<close>: on a
  miss over the capacity, drop the resident whose next read is farthest. The ordered set of
  \<open>(next use, object)\<close> pairs is an \<open>fset\<close> read at its greatest element. The last section proves that the
  ceiling is one: no policy that meets \<open>bounded_cache\<close> has more hits at the same capacity.
\<close>

section \<open>The next uses\<close>

text \<open>\<open>usize::MAX\<close>, which stands for no further read.\<close>

definition NEVER :: nat where "NEVER = 18446744073709551615"

fun cacheable :: "norm_event list \<Rightarrow> (string \<times> bool) list" where
  "cacheable [] = []"
| "cacheable (ev # evs) =
    (case ne_op ev of
       Get \<Rightarrow> (ne_object_id ev, True) # cacheable evs
     | Put \<Rightarrow> (ne_object_id ev, False) # cacheable evs
     | Delete \<Rightarrow> (ne_object_id ev, False) # cacheable evs
     | Head \<Rightarrow> cacheable evs
     | Other \<Rightarrow> cacheable evs)"

text \<open>The loop from the last event to the first: the uses from position \<open>i\<close> on, and the map \<open>last\<close>.\<close>

fun next_uses :: "nat \<Rightarrow> (string \<times> bool) list \<Rightarrow> nat list \<times> (string, nat) fmap" where
  "next_uses i [] = ([], fmempty)"
| "next_uses i ((ob, is_get) # xs) =
    (let (nus, lst) = next_uses (i + 1) xs in
     if is_get then ((case fmlookup lst ob of Some j \<Rightarrow> j | None \<Rightarrow> NEVER) # nus, fmupd ob i lst)
     else (NEVER # nus, fmdrop ob lst))"

section \<open>The cache\<close>

record opt_state =
  op_resident :: "string fset"
  op_order :: "(nat \<times> string) fset"
  op_key :: "(string, nat) fmap"

definition opt_empty :: opt_state where
  "opt_empty = \<lparr>op_resident = {||}, op_order = {||}, op_key = fmempty\<rparr>"

definition opt_drop :: "string \<Rightarrow> opt_state \<Rightarrow> opt_state" where
  "opt_drop ob st =
    (if ob |\<in>| op_resident st then
       (let st1 = st\<lparr>op_resident := op_resident st |-| {|ob|}\<rparr> in
        case fmlookup (op_key st1) ob of
          None \<Rightarrow> st1
        | Some ku \<Rightarrow> st1\<lparr>op_key := fmdrop ob (op_key st1), op_order := op_order st1 |-| {|(ku, ob)|}\<rparr>)
     else st)"

definition opt_read :: "nat \<Rightarrow> nat \<Rightarrow> string \<Rightarrow> opt_state \<Rightarrow> opt_state \<times> bool" where
  "opt_read cap nu ob st =
    (if ob |\<in>| op_resident st then
       (let order = (case fmlookup (op_key st) ob of Some ku \<Rightarrow> op_order st |-| {|(ku, ob)|} | None \<Rightarrow> op_order st)
        in (st\<lparr>op_key := fmupd ob nu (op_key st), op_order := finsert (nu, ob) order\<rparr>, True))
     else
       (let st1 = \<lparr>op_resident = finsert ob (op_resident st), op_order = finsert (nu, ob) (op_order st),
                   op_key = fmupd ob nu (op_key st)\<rparr>
        in (if cap < fcard (op_resident st1) then
              (case rev (sorted_list_of_fset (op_order st1)) of
                 [] \<Rightarrow> st1
               | (mku, mo) # _ \<Rightarrow> st1\<lparr>op_order := op_order st1 |-| {|(mku, mo)|}, op_key := fmdrop mo (op_key st1),
                                    op_resident := op_resident st1 |-| {|mo|}\<rparr>)
            else st1, False)))"

fun opt_loop :: "nat \<Rightarrow> (string \<times> bool) list \<Rightarrow> nat list \<Rightarrow> opt_state \<Rightarrow> nat \<Rightarrow> nat \<Rightarrow> nat \<times> nat" where
  "opt_loop cap ((ob, is_get) # xs) (nu # nus) st accesses hits =
    (if \<not> is_get then opt_loop cap xs nus (opt_drop ob st) accesses hits
     else (let (st1, hit) = opt_read cap nu ob st
           in opt_loop cap xs nus st1 (accesses + 1) (if hit then hits + 1 else hits)))"
| "opt_loop cap xs nus st accesses hits = (accesses, hits)"

definition opt_counts :: "norm_event list \<Rightarrow> nat \<Rightarrow> nat \<times> nat" where
  "opt_counts trace cap =
    (let xs = cacheable trace in opt_loop cap xs (fst (next_uses 0 xs)) opt_empty 0 0)"

definition belady_hit_rates :: "norm_event list \<Rightarrow> u64 list \<Rightarrow> (u64 \<times> nat \<times> nat) list" where
  "belady_hit_rates trace caps = map (\<lambda>c. (c, opt_counts trace (unat c))) caps"

section \<open>The next read of an object\<close>

fun next_at :: "nat \<Rightarrow> (string \<times> bool) list \<Rightarrow> string \<Rightarrow> nat" where
  "next_at i [] x = NEVER"
| "next_at i ((ob, is_get) # xs) x =
    (if ob = x then (if is_get then i else NEVER) else next_at (i + 1) xs x)"

lemma next_at_bounds: "i + length xs \<le> NEVER \<Longrightarrow> i \<le> next_at i xs x \<and> (next_at i xs x < i + length xs \<or> next_at i xs x = NEVER)"
proof (induction xs arbitrary: i)
  case (Cons p xs)
  from Cons.IH [of "i + 1"] Cons.prems show ?case by (cases p) auto
qed simp

lemma next_uses_lookup:
  "i + length xs \<le> NEVER \<Longrightarrow>
    fmlookup (snd (next_uses i xs)) x = (if next_at i xs x = NEVER then None else Some (next_at i xs x))"
proof (induction xs arbitrary: i)
  case (Cons p xs)
  obtain ob g where p: "p = (ob, g)" by force
  from Cons.IH [of "i + 1"] Cons.prems show ?case by (auto simp: p split_beta Let_def)
qed simp

lemma next_uses_Cons:
  assumes "i + length ((ob, g) # xs) \<le> NEVER"
  shows "fst (next_uses i ((ob, g) # xs)) = (if g then next_at (i + 1) xs ob else NEVER) # fst (next_uses (i + 1) xs)"
  using next_uses_lookup [of "i + 1" xs ob] assms by (auto simp: split_beta Let_def)

section \<open>What the cache keeps\<close>

text \<open>The three structures agree: the residents, each keyed and ordered by its next read.\<close>

definition opt_ok :: "(string \<Rightarrow> nat) \<Rightarrow> opt_state \<Rightarrow> bool" where
  "opt_ok f st \<longleftrightarrow> (\<forall>x. fmlookup (op_key st) x = (if x |\<in>| op_resident st then Some (f x) else None))
     \<and> fset (op_order st) = (\<lambda>x. (f x, x)) ` fset (op_resident st)"

lemma opt_ok_cong: "opt_ok f st \<Longrightarrow> (\<And>x. x |\<in>| op_resident st \<Longrightarrow> f x = g x) \<Longrightarrow> opt_ok g st"
  by (auto simp: opt_ok_def)

lemma opt_drop_ok:
  assumes "opt_ok f st"
  shows "opt_ok f (opt_drop x st)" "fset (op_resident (opt_drop x st)) = fset (op_resident st) - {x}"
  using assms by (auto simp: opt_ok_def opt_drop_def Let_def split: option.splits)

lemma opt_read_hit_ok:
  assumes ok: "opt_ok f st" and x: "x |\<in>| op_resident st" and g: "\<And>y. y \<noteq> x \<Longrightarrow> g y = f y"
  shows "opt_ok g (fst (opt_read cap (g x) x st))" "op_resident (fst (opt_read cap (g x) x st)) = op_resident st"
    "snd (opt_read cap (g x) x st)"
proof -
  have k: "fmlookup (op_key st) x = Some (f x)" using ok x by (simp add: opt_ok_def)
  have "insert (g x, x) ((\<lambda>y. (f y, y)) ` fset (op_resident st) - {(f x, x)}) = (\<lambda>y. (g y, y)) ` fset (op_resident st)"
    using x g by force
  then show "opt_ok g (fst (opt_read cap (g x) x st))"
    using ok x g k by (simp add: opt_ok_def opt_read_def Let_def)
qed (use x in \<open>simp_all add: opt_read_def Let_def\<close>)

lemma greatest_of_fset:
  fixes A :: "'a :: linorder fset"
  assumes "rev (sorted_list_of_fset A) = z # r"
  shows "z |\<in>| A" "y |\<in>| A \<Longrightarrow> y \<le> z"
proof -
  have e: "sorted_list_of_fset A = rev r @ [z]" using assms by (metis rev.simps(2) rev_rev_ident)
  have s: "sorted (sorted_list_of_fset A)" by (simp add: sorted_list_of_fset.rep_eq)
  have m: "set (sorted_list_of_fset A) = fset A" by simp
  show "z |\<in>| A" using m unfolding e by auto
  show "y |\<in>| A \<Longrightarrow> y \<le> z" using m s unfolding e by (auto simp: sorted_append)
qed

text \<open>On a miss the object comes in, and over the capacity one whose next read is the farthest goes out.\<close>

lemma opt_read_miss_ok:
  assumes ok: "opt_ok f st" and x: "x |\<notin>| op_resident st" and g: "\<And>y. y \<noteq> x \<Longrightarrow> g y = f y"
    and size: "fcard (op_resident st) \<le> cap" and r: "opt_read cap (g x) x st = (st', hit)"
  shows "\<not> hit \<and> opt_ok g st' \<and> fcard (op_resident st') \<le> cap
    \<and> (op_resident st' = finsert x (op_resident st)
       \<or> (\<exists>z. z |\<in>| finsert x (op_resident st) \<and> op_resident st' = finsert x (op_resident st) |-| {|z|}
            \<and> fcard (op_resident st') = cap \<and> (\<forall>y. y |\<in>| op_resident st' \<longrightarrow> g y \<le> g z)))"
proof -
  let ?R = "finsert x (op_resident st)"
  let ?st1 = "\<lparr>op_resident = ?R, op_order = finsert (g x, x) (op_order st), op_key = fmupd x (g x) (op_key st)\<rparr>"
  have ok1: "opt_ok g ?st1"
  proof -
    have "(\<lambda>y. (f y, y)) ` fset (op_resident st) = (\<lambda>y. (g y, y)) ` fset (op_resident st)"
      by (intro image_cong refl) (metis x g)
    then show ?thesis using ok x g by (auto simp: opt_ok_def)
  qed
  have size1: "fcard ?R \<le> Suc cap" using size x by (simp add: fcard_finsert_disjoint)
  show ?thesis
  proof (cases "cap < fcard ?R")
    case False
    then show ?thesis using r x ok1 by (auto simp: opt_read_def Let_def)
  next
    case True
    have "op_order ?st1 \<noteq> {||}" by simp
    then obtain z0 rest where zr: "rev (sorted_list_of_fset (op_order ?st1)) = z0 # rest"
      by (metis list.exhaust rev_is_Nil_conv sorted_list_of_fset_simps(2) fset_of_list_simps(1))
    obtain mku z where z0: "z0 = (mku, z)" by force
    note gr = greatest_of_fset [OF zr]
    from gr(1) ok1 have z: "z |\<in>| ?R" "mku = g z" by (auto simp: z0 opt_ok_def)
    have far: "g y \<le> g z" if "y |\<in>| ?R" for y
    proof -
      have "(g y, y) |\<in>| op_order ?st1" using ok1 that unfolding opt_ok_def by (metis (no_types, lifting) image_eqI opt_state.select_convs(1,2))
      from gr(2) [OF this] show ?thesis by (auto simp: z0 z(2) less_eq_prod_def)
    qed
    let ?st' = "?st1\<lparr>op_order := op_order ?st1 |-| {|(g z, z)|}, op_key := fmdrop z (op_key ?st1), op_resident := ?R |-| {|z|}\<rparr>"
    have e: "st' = ?st'" "\<not> hit" using r x True zr by (auto simp: opt_read_def Let_def z0 z(2))
    have "opt_ok g ?st'"
    proof -
      have "fset (op_order ?st1) - {(g z, z)} = (\<lambda>y. (g y, y)) ` (fset ?R - {z})" using ok1 unfolding opt_ok_def by auto
      then show ?thesis using ok1 unfolding opt_ok_def by auto
    qed
    moreover have "fcard (?R |-| {|z|}) = cap" using z(1) size1 True by (simp add: fcard_fminus_fsingleton)
    ultimately show ?thesis using e z(1) far by (intro conjI disjI2 exI [of _ z]) auto
  qed
qed

section \<open>The ceiling\<close>

text \<open>How many objects of \<open>S\<close> are read again before position \<open>t\<close>.\<close>

definition soon :: "string set \<Rightarrow> (string \<Rightarrow> nat) \<Rightarrow> nat \<Rightarrow> nat" where
  "soon S f t = card {x \<in> S. f x < t}"

text \<open>
  The lead of the ceiling over a policy: at every horizon, what the policy holds for it and its hits so
  far are covered by those of the ceiling.
\<close>

definition ahead :: "string set \<Rightarrow> nat \<Rightarrow> string set \<Rightarrow> nat \<Rightarrow> (string \<Rightarrow> nat) \<Rightarrow> bool" where
  "ahead A hA B hB f \<longleftrightarrow> (\<forall>t. t \<le> NEVER \<longrightarrow> soon A f t + hA \<le> soon B f t + hB)"

lemma soon_split:
  assumes "finite S"
  shows "soon S f t = soon (S - {x}) f t + (if x \<in> S \<and> f x < t then 1 else 0)"
proof -
  have "{y \<in> S. f y < t} = {y \<in> S - {x}. f y < t} \<union> (if x \<in> S \<and> f x < t then {x} else {})" by auto
  then show ?thesis using assms by (auto simp: soon_def)
qed

lemma soon_cong: "(\<And>y. y \<in> S \<Longrightarrow> f y = g y) \<Longrightarrow> soon S f t = soon S g t"
  by (auto simp: soon_def intro: arg_cong [of _ _ card])

lemma soon_mono: "S \<subseteq> T \<Longrightarrow> finite T \<Longrightarrow> soon S f t \<le> soon T f t"
  by (auto simp: soon_def intro: card_mono)

lemma ahead_write:
  assumes a: "ahead A hA B hB f" and f: "f x = NEVER" and fin: "finite A" "finite B"
  shows "ahead (A - {x}) hA (B - {x}) hB f"
  using a f soon_split [OF fin(1), of f _ x] soon_split [OF fin(2), of f _ x] by (simp add: ahead_def)

text \<open>The exchange argument, at a read of \<open>x\<close> at position \<open>i\<close>; \<open>f\<close> and \<open>g\<close> are the next reads before and after.\<close>

lemma ahead_read:
  assumes a: "ahead A hA B hB f" and fin: "finite A" "finite B" and i: "i < NEVER" and x: "f x = i"
    and later: "\<And>y. y \<noteq> x \<Longrightarrow> i < f y \<and> g y = f y" and A': "A' \<subseteq> insert x A" "card A' \<le> c"
    and B': "B' = insert x B \<or> (\<exists>z. B' = insert x B - {z} \<and> card B' = c \<and> (\<forall>y\<in>B'. g y \<le> g z))"
  shows "ahead A' (if x \<in> A then hA + 1 else hA) B' (if x \<in> B then hB + 1 else hB) g"
proof -
  let ?hA = "if x \<in> A then hA + 1 else hA" and ?hB = "if x \<in> B then hB + 1 else hB"
  have none: "soon (S - {x}) g t = 0" if "t \<le> i + 1" for S t
  proof -
    have "\<not> g y < t" if "y \<noteq> x" for y using later [OF that] \<open>t \<le> i + 1\<close> by simp
    then have "{y \<in> S - {x}. g y < t} = {}" by blast
    then show ?thesis unfolding soon_def by (simp only: card.empty)
  qed
  have fg: "soon (S - {x}) f t = soon (S - {x}) g t" for S t by (rule soon_cong) (use later in auto)
  have base: "soon (A - {x}) g t + ?hA \<le> soon (B - {x}) g t + ?hB" if t: "t \<le> NEVER" for t
  proof -
    have *: "soon (A - {x}) g t' + ?hA \<le> soon (B - {x}) g t' + ?hB" if "i < t'" "t' \<le> NEVER" for t'
      using a that x soon_split [OF fin(1), of f t' x] soon_split [OF fin(2), of f t' x]
      by (auto simp: ahead_def fg dest!: spec [of _ t'])
    show ?thesis
    proof (cases "i < t")
      case True
      then show ?thesis using * t by blast
    next
      case False
      then show ?thesis using * [of "i + 1"] i none [of "i + 1"] none [of t] by simp
    qed
  qed
  have grow: "soon A' g t + ?hA \<le> soon (insert x B) g t + ?hB" if t: "t \<le> NEVER" for t
  proof -
    have "soon A' g t \<le> soon (insert x A) g t" using A'(1) fin(1) by (simp add: soon_mono)
    then show ?thesis using base [OF t] soon_split [of "insert x A" g t x] soon_split [of "insert x B" g t x] fin by simp
  qed
  have "soon A' g t + ?hA \<le> soon B' g t + ?hB" if t: "t \<le> NEVER" for t
  proof (cases "B' = insert x B")
    case True
    then show ?thesis using grow [OF t] by simp
  next
    case False
    then obtain z where z: "B' = insert x B - {z}" "card B' = c" "\<forall>y\<in>B'. g y \<le> g z" using B' by blast
    show ?thesis
    proof (cases "g z < t")
      case True
      then have "{y \<in> B'. g y < t} = B'" using z(3) by (auto intro: le_less_trans)
      then have "soon B' g t = c" using z(2) by (simp add: soon_def)
      moreover have "finite A'" using A'(1) fin(1) by (meson finite_insert finite_subset)
      then have "card {y \<in> A'. g y < t} \<le> card A'" by (rule card_mono) blast
      then have "soon A' g t \<le> c" using A'(2) by (simp add: soon_def)
      moreover have "?hA \<le> ?hB" using base [of 0] by (simp add: soon_def)
      ultimately show ?thesis by linarith
    next
      case False
      then have "soon B' g t = soon (insert x B) g t" using soon_split [of "insert x B" g t z] fin by (simp add: z(1))
      then show ?thesis using grow [OF t] by simp
    qed
  qed
  then show ?thesis by (simp add: ahead_def)
qed

context bounded_cache begin

text \<open>No policy has more hits than the ceiling, at the same capacity or a larger one.\<close>

lemma replay_below_opt:
  assumes "cap s \<le> c"
  shows "ok n s \<Longrightarrow> n + gets evs \<le> budget \<Longrightarrow> i + length (cacheable evs) \<le> NEVER \<Longrightarrow> opt_ok (next_at i (cacheable evs)) st \<Longrightarrow>
    fcard (op_resident st) \<le> c \<Longrightarrow> ahead (held s) hA (fset (op_resident st)) hB (next_at i (cacheable evs)) \<Longrightarrow>
    \<exists>h h'. replay_loop access invalidate evs s a hA = Some (a + gets evs, h)
      \<and> opt_loop c (cacheable evs) (fst (next_uses i (cacheable evs))) st a hB = (a + gets evs, h') \<and> h \<le> h'"
  using assms
proof (induction evs arbitrary: n s i st a hA hB)
  case Nil
  then show ?case by (auto simp: ahead_def soon_def dest!: spec [of _ 0])
next
  case (Cons ev evs)
  let ?k = "ne_object_id ev" and ?xs = "cacheable evs"
  have fin: "finite (held s)" using bounded [OF Cons.prems(1)] by simp
  consider (get) "ne_op ev = Get" | (wr) "ne_op ev = Put \<or> ne_op ev = Delete" | (skip) "ne_op ev = Head \<or> ne_op ev = Other"
    by (cases "ne_op ev") auto
  then show ?case
  proof cases
    case get
    let ?f = "next_at i ((?k, True) # ?xs)" and ?g = "next_at (i + 1) ?xs"
    have xs: "cacheable (ev # evs) = (?k, True) # ?xs" using get by simp
    note pr = Cons.prems(1-6) [unfolded xs]
    have len: "i + 1 + length ?xs \<le> NEVER" using pr(3) by simp
    obtain s' where s': "access ?k s = Some (s', ?k \<in> held s)" "ok (Suc n) s'" "cap s' = cap s" "held s' \<subseteq> insert ?k (held s)"
      using access_ok [OF pr(1), of ?k] pr(2) get by auto
    have g: "?g y = ?f y" "i < ?f y" if "y \<noteq> ?k" for y
      using that next_at_bounds [OF len, of y] len by auto
    obtain st' hit where st': "opt_read c (?g ?k) ?k st = (st', hit)" by force
    have "opt_ok ?g st' \<and> hit = (?k |\<in>| op_resident st) \<and> fcard (op_resident st') \<le> c
      \<and> (fset (op_resident st') = insert ?k (fset (op_resident st))
         \<or> (\<exists>z. fset (op_resident st') = insert ?k (fset (op_resident st)) - {z} \<and> card (fset (op_resident st')) = c
              \<and> (\<forall>y\<in>fset (op_resident st'). ?g y \<le> ?g z)))"
    proof (cases "?k |\<in>| op_resident st")
      case True
      from opt_read_hit_ok [OF pr(4) True, of ?g c] g(1) st' pr(5) True show ?thesis by auto
    next
      case False
      have r: "opt_read c (?g ?k) ?k st = (st', hit)" by (rule st')
      have "?g y = ?f y" if "y \<noteq> ?k" for y using g(1) that by blast
      from opt_read_miss_ok [where g = ?g and f = ?f, OF pr(4) False this pr(5) r] False
      show ?thesis by (auto simp: fcard.rep_eq)
    qed
    note st = this
    have "ahead (held s') (if ?k \<in> held s then hA + 1 else hA) (fset (op_resident st'))
        (if ?k \<in> fset (op_resident st) then hB + 1 else hB) ?g"
    proof (rule ahead_read [OF pr(6) fin])
      show "card (held s') \<le> c" using bounded [OF s'(2)] s'(3) Cons.prems(7) by simp
    qed (use len g s'(4) st in auto)
    note lead = this
    have hit: "(if ?k \<in> fset (op_resident st) then hB + 1 else hB) = (if hit then hB + 1 else hB)" using st by simp
    have "Suc n + gets evs \<le> budget" "cap s' \<le> c" using pr(2) get s'(3) Cons.prems(7) by simp_all
    from Cons.IH [OF s'(2) this(1) len _ _ lead [unfolded hit] this(2), of "a + 1"] st obtain h h' where h:
      "replay_loop access invalidate evs s' (a + 1) (if ?k \<in> held s then hA + 1 else hA) = Some (a + 1 + gets evs, h)"
      "opt_loop c ?xs (fst (next_uses (i + 1) ?xs)) st' (a + 1) (if hit then hB + 1 else hB) = (a + 1 + gets evs, h')" "h \<le> h'"
      by blast
    have "opt_loop c ((?k, True) # ?xs) (fst (next_uses i ((?k, True) # ?xs))) st a hB = (a + 1 + gets evs, h')"
      unfolding next_uses_Cons [OF pr(3)] by (simp only: opt_loop.simps if_True not_True_eq_False if_False st' Let_def prod.case h(2))
    moreover have "replay_loop access invalidate (ev # evs) s a hA = Some (a + 1 + gets evs, h)"
      by (simp only: replay_loop.simps get trace_op.case s'(1) option.case prod.case h(1))
    ultimately show ?thesis unfolding xs using h(3) get by simp
  next
    case wr
    let ?g = "next_at (i + 1) ?xs"
    have xs: "cacheable (ev # evs) = (?k, False) # ?xs" using wr by auto
    note pr = Cons.prems(1-6) [unfolded xs]
    have len: "i + 1 + length ?xs \<le> NEVER" using pr(3) by simp
    note inv = invalidate_ok [OF pr(1), of ?k] and dr = opt_drop_ok [OF pr(4), of ?k]
    have g: "?g y = next_at i ((?k, False) # ?xs) y" if "y \<noteq> ?k" for y using that by simp
    have "opt_ok ?g (opt_drop ?k st)" by (rule opt_ok_cong [OF dr(1)]) (use dr(2) g in auto)
    moreover have "fcard (op_resident (opt_drop ?k st)) \<le> c"
      using pr(5) dr(2) card_mono [of "fset (op_resident st)" "fset (op_resident st) - {?k}"] by (auto simp: fcard.rep_eq)
    moreover have sc: "soon (S - {?k}) (next_at i ((?k, False) # ?xs)) t = soon (S - {?k}) ?g t" for S t
      by (rule soon_cong) auto
    have "ahead (held s - {?k}) hA (fset (op_resident st) - {?k}) hB (next_at i ((?k, False) # ?xs))"
      by (rule ahead_write [OF pr(6) _ fin]) simp_all
    then have "ahead (held (invalidate ?k s)) hA (fset (op_resident (opt_drop ?k st))) hB ?g"
      unfolding ahead_def sc by (simp only: inv dr(2))
    moreover have "n + gets evs \<le> budget" "ok n (invalidate ?k s)" "cap (invalidate ?k s) \<le> c"
      using pr(2) inv wr Cons.prems(7) by auto
    ultimately obtain h h' where h: "replay_loop access invalidate evs (invalidate ?k s) a hA = Some (a + gets evs, h)"
      "opt_loop c ?xs (fst (next_uses (i + 1) ?xs)) (opt_drop ?k st) a hB = (a + gets evs, h')" "h \<le> h'"
      using Cons.IH [OF _ _ len] by blast
    have "opt_loop c ((?k, False) # ?xs) (fst (next_uses i ((?k, False) # ?xs))) st a hB = (a + gets evs, h')"
      unfolding next_uses_Cons [OF pr(3)] by (simp only: opt_loop.simps if_True not_False_eq_True h(2))
    moreover have "replay_loop access invalidate (ev # evs) s a hA = Some (a + gets evs, h)"
      using wr h(1) by auto
    moreover have "gets (ev # evs) = gets evs" using wr by auto
    ultimately show ?thesis unfolding xs using h(3) by simp
  next
    case skip
    then have "cacheable (ev # evs) = ?xs" by auto
    with Cons.IH [of n s i st hA hB a] Cons.prems skip show ?thesis by auto
  qed
qed

lemma replay_below_ceiling:
  assumes "ok 0 s" and "held s = {}" and "cap s \<le> c" and "gets evs \<le> budget" and "length evs \<le> NEVER"
  shows "\<exists>h. replay_loop access invalidate evs s 0 0 = Some (gets evs, h)
    \<and> fst (opt_counts evs c) = gets evs \<and> h \<le> snd (opt_counts evs c)"
proof -
  have "length (cacheable evs) \<le> length evs" by (induction evs) (auto split: trace_op.split)
  then have len: "0 + length (cacheable evs) \<le> NEVER" using assms(5) by simp
  have o: "opt_ok (next_at 0 (cacheable evs)) opt_empty" "fcard (op_resident opt_empty) \<le> c"
      "ahead (held s) 0 (fset (op_resident opt_empty)) 0 (next_at 0 (cacheable evs))"
    using assms(2) by (simp_all add: opt_ok_def opt_empty_def ahead_def soon_def fcard_fempty)
  show ?thesis
    using replay_below_opt [OF assms(3,1) _ len o, of 0] assms(4) by (auto simp: opt_counts_def Let_def)
qed

end

end
