(* ===== verification/Sim.thy ===== *)
theory Sim
  imports LruList Belady
begin

text \<open>
  The LRU simulator of \<open>crates/s3tap-replay/src/sim.rs\<close> and the byte sweep of
  \<open>crates/s3tap-replay/src/bytes.rs\<close>. \<open>by_id\<close> and \<open>order\<close> are the stamped maps of \<open>LruList\<close> with a
  size and a flag per entry. The hit rates of a row, quotients of the counts as floats, are not
  modelled: a row is its counts.
\<close>

section \<open>The simulator\<close>

datatype sim_result = Hit (prefetch_first_use: bool) | Miss

record sim_entry =
  se_seq :: u64
  se_size :: u64
  se_prefetched_unused :: bool

record sim =
  sm_cap :: u64
  sm_used :: u64
  sm_clock :: u64
  sm_by_id :: "(string, sim_entry) fmap"
  sm_order :: "(u64, string) fmap"

definition sim_new :: "u64 \<Rightarrow> sim" where
  "sim_new cap = \<lparr>sm_cap = cap, sm_used = 0, sm_clock = 0, sm_by_id = fmempty, sm_order = fmempty\<rparr>"

definition sim_contains :: "string \<Rightarrow> sim \<Rightarrow> bool" where
  "sim_contains k s \<longleftrightarrow> fmlookup (sm_by_id s) k \<noteq> None"

definition sim_len :: "sim \<Rightarrow> nat" where
  "sim_len s = fmlen (sm_by_id s)"

definition lru_victim :: "sim \<Rightarrow> string option" where
  "lru_victim s = (case sorted_list_of_fmap (sm_order s) of [] \<Rightarrow> None | (_, k) # _ \<Rightarrow> Some k)"

definition sim_touch :: "string \<Rightarrow> sim \<Rightarrow> sim" where
  "sim_touch k s0 =
    (let s = s0\<lparr>sm_clock := sm_clock s0 + 1\<rparr>; new_seq = sm_clock s in
     case fmlookup (sm_by_id s) k of
       None \<Rightarrow> s
     | Some e \<Rightarrow> s\<lparr>sm_by_id := fmupd k (e\<lparr>se_seq := new_seq\<rparr>) (sm_by_id s),
                   sm_order := fmupd new_seq k (fmdrop (se_seq e) (sm_order s))\<rparr>)"

lemma order_front: "sorted_list_of_fmap m = (s, k) # r \<Longrightarrow> fmlookup m s = Some k"
  by (metis list.set_intros(1) set_sorted_list_of_fmap)

function evict_to_fit :: "sim \<Rightarrow> sim" where
  "evict_to_fit s =
    (if sm_cap s < sm_used s then
       (case sorted_list_of_fmap (sm_order s) of
          [] \<Rightarrow> s
        | (seq, victim) # _ \<Rightarrow>
            let s1 = s\<lparr>sm_order := fmdrop seq (sm_order s)\<rparr> in
            evict_to_fit (case fmlookup (sm_by_id s1) victim of
                None \<Rightarrow> s1
              | Some e \<Rightarrow> s1\<lparr>sm_by_id := fmdrop victim (sm_by_id s1), sm_used := sat_sub (sm_used s1) (se_size e)\<rparr>))
     else s)"
  by pat_completeness auto

termination
  by (relation "measure (\<lambda>s. fmlen (sm_order s))")
    (auto dest!: order_front simp: fmlen_drop fmlookup_dom'_iff fmlen_pos split: option.splits)

definition sim_access :: "string \<Rightarrow> u64 \<Rightarrow> sim \<Rightarrow> sim \<times> sim_result" where
  "sim_access k sz s =
    (case fmlookup (sm_by_id s) k of
       None \<Rightarrow> (s, Miss)
     | Some e \<Rightarrow>
         let f = se_prefetched_unused e; was = se_size e;
             s1 = sim_touch k (s\<lparr>sm_by_id := fmupd k (e\<lparr>se_prefetched_unused := False, se_size := sz\<rparr>) (sm_by_id s)\<rparr>)
         in (if was \<noteq> sz then evict_to_fit (s1\<lparr>sm_used := sat_add (sat_sub (sm_used s1) was) sz\<rparr>) else s1, Hit f))"

definition sim_insert :: "string \<Rightarrow> u64 \<Rightarrow> bool \<Rightarrow> sim \<Rightarrow> sim" where
  "sim_insert k sz prefetched s0 =
    (if sim_contains k s0 then sim_touch k s0
     else
       (let s = s0\<lparr>sm_clock := sm_clock s0 + 1\<rparr>; seq = sm_clock s in
        evict_to_fit (s\<lparr>sm_by_id := fmupd k \<lparr>se_seq = seq, se_size = sz, se_prefetched_unused = prefetched\<rparr> (sm_by_id s),
          sm_order := fmupd seq k (sm_order s), sm_used := sat_add (sm_used s) sz\<rparr>)))"

definition sim_invalidate :: "string \<Rightarrow> sim \<Rightarrow> sim" where
  "sim_invalidate k s =
    (case fmlookup (sm_by_id s) k of
       None \<Rightarrow> s
     | Some e \<Rightarrow> s\<lparr>sm_by_id := fmdrop k (sm_by_id s), sm_order := fmdrop (se_seq e) (sm_order s),
                   sm_used := sat_sub (sm_used s) (se_size e)\<rparr>)"

section \<open>The byte sweep\<close>

record byte_counts =
  by_accesses :: nat
  by_hits :: nat
  by_total_bytes :: u64
  by_hit_bytes :: u64
  by_peak :: u64

fun replay_bytes_loop :: "norm_event list \<Rightarrow> sim \<Rightarrow> byte_counts \<Rightarrow> byte_counts" where
  "replay_bytes_loop [] s r = r"
| "replay_bytes_loop (ev # evs) s r =
    (case ne_op ev of
       Put \<Rightarrow> replay_bytes_loop evs (sim_invalidate (ne_object_id ev) s) r
     | Delete \<Rightarrow> replay_bytes_loop evs (sim_invalidate (ne_object_id ev) s) r
     | Head \<Rightarrow> replay_bytes_loop evs s r
     | Other \<Rightarrow> replay_bytes_loop evs s r
     | Get \<Rightarrow>
         let sz = (case ne_size ev of Some n \<Rightarrow> n | None \<Rightarrow> 1);
             r1 = r\<lparr>by_accesses := by_accesses r + 1, by_total_bytes := sat_add (by_total_bytes r) sz\<rparr>;
             (s1, res) = sim_access (ne_object_id ev) sz s;
             (s2, r2) = (case res of
                 Hit _ \<Rightarrow> (s1, r1\<lparr>by_hits := by_hits r1 + 1, by_hit_bytes := sat_add (by_hit_bytes r1) sz\<rparr>)
               | Miss \<Rightarrow> (sim_insert (ne_object_id ev) sz False s1, r1))
         in replay_bytes_loop evs s2 (r2\<lparr>by_peak := max (by_peak r2) (sm_used s2)\<rparr>))"

definition replay_bytes :: "norm_event list \<Rightarrow> u64 \<Rightarrow> byte_counts" where
  "replay_bytes trace cap = replay_bytes_loop trace (sim_new cap)
     \<lparr>by_accesses = 0, by_hits = 0, by_total_bytes = 0, by_hit_bytes = 0, by_peak = 0\<rparr>"

definition sweep_bytes :: "norm_event list \<Rightarrow> u64 list \<Rightarrow> (u64 \<times> byte_counts) list" where
  "sweep_bytes trace caps = map (\<lambda>c. (c, replay_bytes trace c)) caps"

section \<open>A plain recency list\<close>

text \<open>The abstract cache: objects with their size and prefetch flag, least recently used first.\<close>

type_synonym sim_item = "string \<times> u64 \<times> bool"

definition total :: "sim_item list \<Rightarrow> nat" where
  "total xs = sum_list (map (\<lambda>(k, n, f). unat n) xs)"

definition drop_item :: "string \<Rightarrow> sim_item list \<Rightarrow> sim_item list" where
  "drop_item k xs = filter (\<lambda>x. fst x \<noteq> k) xs"

text \<open>Eviction leaves the longest recent part that fits.\<close>

fun fit :: "u64 \<Rightarrow> sim_item list \<Rightarrow> sim_item list" where
  "fit cap [] = []"
| "fit cap (x # xs) = (if unat cap < total (x # xs) then fit cap xs else x # xs)"

definition list_access :: "u64 \<Rightarrow> string \<Rightarrow> u64 \<Rightarrow> sim_item list \<Rightarrow> sim_item list \<times> sim_result" where
  "list_access cap k sz xs =
    (case find (\<lambda>x. fst x = k) xs of
       None \<Rightarrow> (xs, Miss)
     | Some (_, _, f) \<Rightarrow> (fit cap (drop_item k xs @ [(k, sz, False)]), Hit f))"

definition list_insert :: "u64 \<Rightarrow> string \<Rightarrow> u64 \<Rightarrow> bool \<Rightarrow> sim_item list \<Rightarrow> sim_item list" where
  "list_insert cap k sz prefetched xs =
    (case find (\<lambda>x. fst x = k) xs of
       None \<Rightarrow> fit cap (xs @ [(k, sz, prefetched)])
     | Some x \<Rightarrow> drop_item k xs @ [x])"

section \<open>The simulator implements the list\<close>

definition sim_lru :: "sim \<Rightarrow> lru_list" where
  "sim_lru s = \<lparr>ll_stamp = fmmap se_seq (sm_by_id s), ll_order = sm_order s, ll_next = sm_clock s + 1\<rparr>"

definition item_of :: "sim \<Rightarrow> string \<Rightarrow> sim_item" where
  "item_of s k = (case fmlookup (sm_by_id s) k of Some e \<Rightarrow> (k, se_size e, se_prefetched_unused e) | None \<Rightarrow> (k, 0, False))"

definition sim_items :: "sim \<Rightarrow> sim_item list" where
  "sim_items s = map (item_of s) (lru_keys (sim_lru s))"

text \<open>The tracked size: exact, or past the middle of the range while the newest object is too big to keep.\<close>

definition accounted :: "sim_item list \<Rightarrow> u64 \<Rightarrow> bool" where
  "accounted xs used \<longleftrightarrow> unat used = total xs
     \<or> (xs \<noteq> [] \<and> 2 ^ 63 + total (butlast xs) \<le> unat used \<and> unat used \<le> total xs)"

definition sim_ok :: "nat \<Rightarrow> sim \<Rightarrow> bool" where
  "sim_ok n s \<longleftrightarrow> lru_ok (sim_lru s) \<and> unat (sm_clock s) \<le> n \<and> unat (sm_used s) = total (sim_items s)
     \<and> sm_used s \<le> sm_cap s \<and> unat (sm_cap s) < 2 ^ 63"

lemma total_simps [simp]: "total [] = 0" "total ((k, n, f) # xs) = unat n + total xs" "total (xs @ ys) = total xs + total ys"
  by (simp_all add: total_def)

lemma fst_item_of [simp]: "fst (item_of s k) = k"
  by (simp add: item_of_def split: option.split)

lemma keys_sim_items: "map fst (sim_items s) = lru_keys (sim_lru s)"
  by (simp add: sim_items_def comp_def)

lemma distinct_sim_items: "lru_ok (sim_lru s) \<Longrightarrow> distinct (map fst (sim_items s))"
  by (simp add: keys_sim_items distinct_lru_keys)

lemma find_item:
  assumes "lru_ok (sim_lru s)"
  shows "find (\<lambda>x. fst x = k) (sim_items s) = (if fmlookup (sm_by_id s) k = None then None else Some (item_of s k))"
proof -
  have m: "k \<in> set (lru_keys (sim_lru s)) \<longleftrightarrow> fmlookup (sm_by_id s) k \<noteq> None"
    using lru_keys_mem [OF assms, of k] by (simp add: sim_lru_def)
  have "find (\<lambda>x. fst x = k) (map (item_of s) ks) = (if k \<in> set ks then Some (item_of s k) else None)" for ks
    by (induction ks) auto
  then show ?thesis by (simp add: sim_items_def m)
qed

lemma sim_pop:
  assumes ok: "lru_ok (sim_lru s)" and front: "sorted_list_of_fmap (sm_order s) = (seq, k) # r"
  shows "\<exists>e. fmlookup (sm_by_id s) k = Some e \<and> sim_items s = (k, se_size e, se_prefetched_unused e) # tl (sim_items s)
    \<and> (\<forall>u. lru_ok (sim_lru (s\<lparr>sm_order := fmdrop seq (sm_order s), sm_by_id := fmdrop k (sm_by_id s), sm_used := u\<rparr>))
        \<and> sim_items (s\<lparr>sm_order := fmdrop seq (sm_order s), sm_by_id := fmdrop k (sm_by_id s), sm_used := u\<rparr>) = tl (sim_items s))"
proof -
  have "fmlookup (ll_order (sim_lru s)) seq = Some k" using order_front [OF front] by (simp add: sim_lru_def)
  then have "fmlookup (ll_stamp (sim_lru s)) k = Some seq" by (simp add: lru_okD [OF ok])
  then obtain e where e: "fmlookup (sm_by_id s) k = Some e" by (auto simp: sim_lru_def)
  let ?s = "\<lambda>u. s\<lparr>sm_order := fmdrop seq (sm_order s), sm_by_id := fmdrop k (sm_by_id s), sm_used := u\<rparr>"
  have l: "sim_lru (?s u) = fst (lru_pop (sim_lru s))" for u
    using front by (simp add: sim_lru_def lru_pop_def)
  have keys: "lru_keys (sim_lru s) = k # map snd r" using front by (simp add: lru_keys_def sim_lru_def)
  have "k \<notin> set (map snd r)" using distinct_lru_keys [OF ok] by (simp add: keys)
  then have "sim_items (?s u) = map (item_of s) (map snd r)" for u
    unfolding sim_items_def l lru_pop_ok(2) [OF ok] keys list.sel
    by (intro map_cong refl) (auto simp: item_of_def)
  moreover have "sim_items s = item_of s k # map (item_of s) (map snd r)" by (simp add: sim_items_def keys)
  moreover have "item_of s k = (k, se_size e, se_prefetched_unused e)" by (simp add: item_of_def e)
  ultimately show ?thesis using e lru_pop_ok(1) [OF ok] by (simp add: l)
qed

declare evict_to_fit.simps [simp del]

lemma evict_to_fit_ok:
  "lru_ok (sim_lru s) \<Longrightarrow> accounted (sim_items s) (sm_used s) \<Longrightarrow> unat (sm_cap s) < 2 ^ 63 \<Longrightarrow>
    lru_ok (sim_lru (evict_to_fit s)) \<and> sim_items (evict_to_fit s) = fit (sm_cap s) (sim_items s)
      \<and> unat (sm_used (evict_to_fit s)) = total (sim_items (evict_to_fit s)) \<and> sm_used (evict_to_fit s) \<le> sm_cap s
      \<and> sm_cap (evict_to_fit s) = sm_cap s \<and> sm_clock (evict_to_fit s) = sm_clock s"
proof (induction s rule: evict_to_fit.induct)
  case (1 s)
  show ?case
  proof (cases "sm_cap s < sm_used s")
    case False
    then have le: "unat (sm_used s) \<le> unat (sm_cap s)" by (simp add: word_le_nat_alt not_less)
    then have "unat (sm_used s) = total (sim_items s)" using 1(3,4) by (auto simp: accounted_def)
    moreover from this le have "fit (sm_cap s) (sim_items s) = sim_items s" by (cases "sim_items s") auto
    moreover have "evict_to_fit s = s" using False by (subst evict_to_fit.simps) simp
    ultimately show ?thesis using 1(2) False by (simp add: not_less)
  next
    case True
    then have gt: "unat (sm_cap s) < unat (sm_used s)" by (simp add: word_less_nat_alt)
    show ?thesis
    proof (cases "sorted_list_of_fmap (sm_order s)")
      case Nil
      then have "sim_items s = []" by (simp add: sim_items_def lru_keys_def sim_lru_def)
      then show ?thesis using 1(3) gt by (auto simp: accounted_def)
    next
      case (Cons p r)
      obtain seq k where p: "p = (seq, k)" by force
      from sim_pop [OF 1(2) Cons [unfolded p]] obtain e where e: "fmlookup (sm_by_id s) k = Some e"
        "sim_items s = (k, se_size e, se_prefetched_unused e) # tl (sim_items s)"
        "\<And>u. lru_ok (sim_lru (s\<lparr>sm_order := fmdrop seq (sm_order s), sm_by_id := fmdrop k (sm_by_id s), sm_used := u\<rparr>))"
        "\<And>u. sim_items (s\<lparr>sm_order := fmdrop seq (sm_order s), sm_by_id := fmdrop k (sm_by_id s), sm_used := u\<rparr>) = tl (sim_items s)"
        by blast
      let ?u = "sat_sub (sm_used s) (se_size e)"
      let ?s1 = "s\<lparr>sm_order := fmdrop seq (sm_order s)\<rparr>"
      let ?s2 = "case fmlookup (sm_by_id ?s1) k of None \<Rightarrow> ?s1
          | Some e \<Rightarrow> ?s1\<lparr>sm_by_id := fmdrop k (sm_by_id ?s1), sm_used := sat_sub (sm_used ?s1) (se_size e)\<rparr>"
      have s2: "?s2 = s\<lparr>sm_order := fmdrop seq (sm_order s), sm_by_id := fmdrop k (sm_by_id s), sm_used := ?u\<rparr>"
        using e(1) by simp
      have step: "evict_to_fit s = evict_to_fit ?s2" using True Cons p by (subst evict_to_fit.simps) (simp add: Let_def)
      have tot: "total (sim_items s) = unat (se_size e) + total (tl (sim_items s))" by (subst e(2)) simp
      have acc: "accounted (tl (sim_items s)) ?u"
      proof (cases "unat (sm_used s) = total (sim_items s)")
        case True
        then show ?thesis by (simp add: accounted_def unat_sat_sub tot)
      next
        case False
        then have f: "2 ^ 63 + total (butlast (sim_items s)) \<le> unat (sm_used s)" "unat (sm_used s) \<le> total (sim_items s)"
          using 1(3) by (auto simp: accounted_def)
        show ?thesis
        proof (cases "tl (sim_items s) = []")
          case True
          then show ?thesis using f(2) tot by (simp add: accounted_def unat_sat_sub)
        next
          case ne: False
          then have "total (butlast (sim_items s)) = unat (se_size e) + total (butlast (tl (sim_items s)))" by (subst e(2)) simp
          then have "2 ^ 63 + total (butlast (tl (sim_items s))) \<le> unat ?u" "unat ?u \<le> total (tl (sim_items s))"
            unfolding unat_sat_sub using f tot by linarith+
          then show ?thesis using ne by (simp add: accounted_def)
        qed
      qed
      have "unat (sm_cap s) < total (sim_items s)" using 1(3,4) gt by (auto simp: accounted_def)
      then have fit: "fit (sm_cap s) (sim_items s) = fit (sm_cap s) (tl (sim_items s))" by (subst (1 2) e(2)) (simp add: tot)
      show ?thesis unfolding step [unfolded s2] fit
        using 1(1) [OF True Cons p [symmetric] refl, unfolded s2] e(3,4) acc 1(4) by simp
    qed
  qed
qed

lemma sim_touch_ok:
  assumes ok: "lru_ok (sim_lru s)" and room: "unat (sm_clock s) + 2 < 2 ^ 64" and e: "fmlookup (sm_by_id s) k = Some e"
  shows "lru_ok (sim_lru (sim_touch k s))" "sim_items (sim_touch k s) = drop_item k (sim_items s) @ [item_of s k]"
    "unat (sm_clock (sim_touch k s)) = Suc (unat (sm_clock s))" "sm_used (sim_touch k s) = sm_used s" "sm_cap (sim_touch k s) = sm_cap s"
proof -
  have n: "unat (sm_clock s + 1) = Suc (unat (sm_clock s))" using room by (simp add: unat_word_ariths)
  have l: "sim_lru (sim_touch k s) = lru_touch k (sim_lru s)"
    using e by (auto simp: sim_touch_def Let_def sim_lru_def lru_touch_def lru_remove_def intro!: fmap_ext)
  have "unat (ll_next (sim_lru s)) + 1 < 2 ^ 64" using room n by (simp add: sim_lru_def)
  note t = lru_touch_ok [OF ok this, of k]
  show "lru_ok (sim_lru (sim_touch k s))" using t by (simp add: l)
  have "item_of (sim_touch k s) j = item_of s j" for j
    using e by (auto simp: item_of_def sim_touch_def Let_def)
  then show "sim_items (sim_touch k s) = drop_item k (sim_items s) @ [item_of s k]"
    by (simp add: sim_items_def l t(2) drop_item_def filter_map comp_def)
qed (use e room in \<open>simp_all add: sim_touch_def Let_def unat_word_ariths\<close>)

lemma total_drop_item:
  "distinct (map fst xs) \<Longrightarrow> find (\<lambda>x. fst x = k) xs = Some (k, n, f) \<Longrightarrow> total xs = total (drop_item k xs) + unat n"
proof (induction xs)
  case (Cons x xs)
  obtain j m g where x: "x = (j, m, g)" by (cases x) auto
  have "drop_item k xs = xs" if "k \<notin> set (map fst xs)" using that by (force simp: drop_item_def filter_id_conv)
  with Cons show ?case by (auto simp: x drop_item_def split: if_splits)
qed simp

lemma accounted_add:
  assumes "total xs \<le> unat cap" "unat (cap :: u64) < 2 ^ 63" "unat used = total xs"
  shows "accounted (xs @ [(k, n, f)]) (sat_add used n)"
  using assms by (auto simp: accounted_def unat_sat_add min_def)

lemma sim_insert_ok:
  assumes ok: "sim_ok n s" and room: "n + 2 < 2 ^ 64"
  shows "sim_ok (Suc n) (sim_insert k sz pf s)" "sim_items (sim_insert k sz pf s) = list_insert (sm_cap s) k sz pf (sim_items s)"
    "sm_cap (sim_insert k sz pf s) = sm_cap s"
proof -
  have o: "lru_ok (sim_lru s)" "unat (sm_clock s) \<le> n" "unat (sm_used s) = total (sim_items s)" "sm_used s \<le> sm_cap s"
    "unat (sm_cap s) < 2 ^ 63" using ok by (simp_all add: sim_ok_def)
  have r: "unat (sm_clock s) + 2 < 2 ^ 64" using o(2) room by linarith
  have cl: "unat (sm_clock s + 1) = Suc (unat (sm_clock s))" using r by (simp add: unat_word_ariths)
  have "sim_ok (Suc n) (sim_insert k sz pf s) \<and> sim_items (sim_insert k sz pf s) = list_insert (sm_cap s) k sz pf (sim_items s)
    \<and> sm_cap (sim_insert k sz pf s) = sm_cap s"
  proof (cases "fmlookup (sm_by_id s) k")
    case (Some e)
    note t = sim_touch_ok [OF o(1) r Some]
    have f: "find (\<lambda>x. fst x = k) (sim_items s) = Some (item_of s k)" using find_item [OF o(1), of k] Some by simp
    have i: "item_of s k = (k, se_size e, se_prefetched_unused e)" by (simp add: item_of_def Some)
    have "total (drop_item k (sim_items s) @ [item_of s k]) = total (sim_items s)"
      using total_drop_item [OF distinct_sim_items [OF o(1)] f [unfolded i]] by (simp add: i)
    then show ?thesis using t o f by (simp add: sim_insert_def sim_contains_def Some sim_ok_def list_insert_def)
  next
    case None
    let ?e = "\<lparr>se_seq = sm_clock s + 1, se_size = sz, se_prefetched_unused = pf\<rparr>"
    let ?s1 = "s\<lparr>sm_clock := sm_clock s + 1, sm_by_id := fmupd k ?e (sm_by_id s),
      sm_order := fmupd (sm_clock s + 1) k (sm_order s), sm_used := sat_add (sm_used s) sz\<rparr>"
    have nk: "k \<notin> set (lru_keys (sim_lru s))" using lru_keys_mem [OF o(1), of k] None by (simp add: sim_lru_def)
    have l: "sim_lru ?s1 = lru_touch k (sim_lru s)"
      using None by (auto simp: sim_lru_def lru_touch_def lru_remove_def Let_def intro!: fmap_ext)
    have "unat (ll_next (sim_lru s)) + 1 < 2 ^ 64" using r cl by (simp add: sim_lru_def)
    note t = lru_touch_ok [OF o(1) this, of k]
    have "item_of ?s1 j = (if j = k then (k, sz, pf) else item_of s j)" for j by (simp add: item_of_def)
    then have items: "sim_items ?s1 = sim_items s @ [(k, sz, pf)]"
      unfolding sim_items_def l t(2) using nk by (auto simp: filter_id_conv intro!: map_cong)
    have "accounted (sim_items ?s1) (sm_used ?s1)"
      unfolding items using accounted_add [OF _ o(5,3)] o(3,4) by (simp add: word_le_nat_alt)
    note ev = evict_to_fit_ok [of ?s1, OF _ this]
    have f: "find (\<lambda>x. fst x = k) (sim_items s) = None" using find_item [OF o(1), of k] None by simp
    have e: "sim_insert k sz pf s = evict_to_fit ?s1" by (simp add: sim_insert_def sim_contains_def None Let_def)
    show ?thesis unfolding e using ev t(1) o(2,5) cl f items
      by (simp add: l sim_ok_def list_insert_def del: total_simps)
  qed
  then show "sim_ok (Suc n) (sim_insert k sz pf s)" "sim_items (sim_insert k sz pf s) = list_insert (sm_cap s) k sz pf (sim_items s)"
    "sm_cap (sim_insert k sz pf s) = sm_cap s" by blast+
qed

lemma fit_id: "total xs \<le> unat cap \<Longrightarrow> fit cap xs = xs"
  by (cases xs) auto

lemma sim_access_ok:
  assumes ok: "sim_ok n s" and room: "n + 2 < 2 ^ 64" and r: "sim_access k sz s = (s', res)"
  shows "sim_ok (Suc n) s' \<and> list_access (sm_cap s) k sz (sim_items s) = (sim_items s', res) \<and> sm_cap s' = sm_cap s"
proof -
  have o: "lru_ok (sim_lru s)" "unat (sm_clock s) \<le> n" "unat (sm_used s) = total (sim_items s)" "sm_used s \<le> sm_cap s"
    "unat (sm_cap s) < 2 ^ 63" using ok by (simp_all add: sim_ok_def)
  have rm: "unat (sm_clock s) + 2 < 2 ^ 64" using o(2) room by linarith
  show ?thesis
  proof (cases "fmlookup (sm_by_id s) k")
    case None
    then show ?thesis using find_item [OF o(1), of k] r ok by (auto simp: sim_access_def list_access_def sim_ok_def)
  next
    case (Some e)
    let ?e = "e\<lparr>se_prefetched_unused := False, se_size := sz\<rparr>"
    let ?s0 = "s\<lparr>sm_by_id := fmupd k ?e (sm_by_id s)\<rparr>"
    let ?s1 = "sim_touch k ?s0"
    have l0: "sim_lru ?s0 = sim_lru s" using Some by (auto simp: sim_lru_def intro!: fmap_ext)
    have i0: "item_of ?s0 j = (if j = k then (k, sz, False) else item_of s j)" for j by (simp add: item_of_def)
    have "lru_ok (sim_lru ?s0)" "unat (sm_clock ?s0) + 2 < 2 ^ 64" "fmlookup (sm_by_id ?s0) k = Some ?e" using o(1) rm by (simp_all add: l0)
    note t = sim_touch_ok [OF this]
    have d0: "drop_item k (sim_items ?s0) = drop_item k (sim_items s)"
      unfolding sim_items_def l0 drop_item_def filter_map comp_def fst_item_of by (rule map_cong) (auto simp: i0)
    have items: "sim_items ?s1 = drop_item k (sim_items s) @ [(k, sz, False)]" unfolding t(2) d0 by (simp add: i0)
    have i: "item_of s k = (k, se_size e, se_prefetched_unused e)" by (simp add: item_of_def Some)
    have f: "find (\<lambda>x. fst x = k) (sim_items s) = Some (k, se_size e, se_prefetched_unused e)"
      using find_item [OF o(1), of k] Some i by simp
    note tot = total_drop_item [OF distinct_sim_items [OF o(1)] f]
    have cap: "total (sim_items s) \<le> unat (sm_cap s)" using o(3,4) by (simp add: word_le_nat_alt)
    show ?thesis
    proof (cases "se_size e = sz")
      case True
      have "total (sim_items ?s1) = total (sim_items s)" using tot True by (simp add: items)
      then show ?thesis using r t o f Some True cap items
        by (auto simp: sim_access_def Let_def list_access_def sim_ok_def fit_id)
    next
      case False
      let ?u = "sat_add (sat_sub (sm_used s) (se_size e)) sz"
      have s': "s' = evict_to_fit (?s1\<lparr>sm_used := ?u\<rparr>)" "res = Hit (se_prefetched_unused e)"
        using r Some False t(4) by (auto simp: sim_access_def Let_def)
      have "sim_lru (?s1\<lparr>sm_used := ?u\<rparr>) = sim_lru ?s1" by (simp add: sim_lru_def)
      moreover have "sim_items (?s1\<lparr>sm_used := ?u\<rparr>) = sim_items ?s1" unfolding sim_items_def calculation by (simp add: item_of_def)
      moreover have "accounted (drop_item k (sim_items s) @ [(k, sz, False)]) ?u"
        by (rule accounted_add [OF _ o(5)]) (use tot cap o(3) in \<open>simp_all add: unat_sat_sub\<close>)
      ultimately show ?thesis
        using evict_to_fit_ok [of "?s1\<lparr>sm_used := ?u\<rparr>"] t(1,3,5) o(2,5) f
        by (auto simp: s' items list_access_def sim_ok_def)
    qed
  qed
qed

lemma sim_invalidate_ok:
  assumes ok: "sim_ok n s"
  shows "sim_ok n (sim_invalidate k s) \<and> sim_items (sim_invalidate k s) = drop_item k (sim_items s)
    \<and> sm_cap (sim_invalidate k s) = sm_cap s"
proof -
  have o: "lru_ok (sim_lru s)" "unat (sm_used s) = total (sim_items s)" "sm_used s \<le> sm_cap s" using ok by (simp_all add: sim_ok_def)
  have l: "sim_lru (sim_invalidate k s) = fst (lru_remove k (sim_lru s))"
    by (auto simp: sim_lru_def sim_invalidate_def lru_remove_def split: option.split)
  have "item_of (sim_invalidate k s) j = item_of s j" if "j \<noteq> k" for j
    using that by (simp add: item_of_def sim_invalidate_def split: option.split)
  then have items: "sim_items (sim_invalidate k s) = drop_item k (sim_items s)"
    unfolding sim_items_def l lru_remove_ok(2) [OF o(1)] drop_item_def filter_map comp_def fst_item_of
    by (intro map_cong) auto
  show ?thesis
  proof (cases "fmlookup (sm_by_id s) k")
    case None
    then have "sim_invalidate k s = s" by (simp add: sim_invalidate_def)
    then show ?thesis using ok items by simp
  next
    case (Some e)
    have "find (\<lambda>x. fst x = k) (sim_items s) = Some (k, se_size e, se_prefetched_unused e)"
      using find_item [OF o(1), of k] Some by (simp add: item_of_def)
    note tot = total_drop_item [OF distinct_sim_items [OF o(1)] this]
    have "lru_ok (sim_lru (sim_invalidate k s))" using lru_remove_ok(1) [OF o(1)] by (simp add: l)
    moreover have "sm_used (sim_invalidate k s) = sat_sub (sm_used s) (se_size e)" "sm_cap (sim_invalidate k s) = sm_cap s"
      "sm_clock (sim_invalidate k s) = sm_clock s" by (simp_all add: sim_invalidate_def Some)
    ultimately show ?thesis using ok items tot o sat_sub_le [of "sm_used s" "se_size e"]
      by (auto simp: sim_ok_def unat_sat_sub intro: order_trans)
  qed
qed

section \<open>More room, more hits\<close>

text \<open>A cache of a larger capacity holds what the smaller one holds, at the recent end.\<close>

definition recent_part :: "sim_item list \<Rightarrow> sim_item list \<Rightarrow> bool" where
  "recent_part xs ys \<longleftrightarrow> (\<exists>zs. ys = zs @ xs)"

lemma fit_recent: "recent_part (fit cap xs) xs"
  unfolding recent_part_def
proof (induction xs)
  case (Cons x xs)
  then obtain zs where "xs = zs @ fit cap xs" by blast
  then show ?case by (auto intro: exI [of _ "x # zs"])
qed simp

lemma fit_total: "total (fit cap xs) \<le> unat cap"
  by (induction xs) auto

text \<open>\<open>fit\<close> leaves the longest part that fits.\<close>

lemma fit_longest: "recent_part xs ys \<Longrightarrow> total xs \<le> unat cap \<Longrightarrow> recent_part xs (fit cap ys)"
proof (induction ys)
  case (Cons y ys)
  show ?case
  proof (cases "xs = y # ys")
    case True
    then show ?thesis using Cons.prems(2) by (simp add: fit_id recent_part_def)
  next
    case False
    then have "recent_part xs ys" using Cons.prems(1) by (auto simp: recent_part_def Cons_eq_append_conv)
    then show ?thesis using Cons by (auto simp: recent_part_def)
  qed
qed (simp add: recent_part_def)

lemma recent_part_trans: "recent_part xs ys \<Longrightarrow> recent_part ys zs \<Longrightarrow> recent_part xs zs"
  by (auto simp: recent_part_def)

lemma fit_mono:
  assumes "recent_part xs ys" and "cap \<le> cap'"
  shows "recent_part (fit cap xs) (fit cap' ys)"
proof -
  have "total (fit cap xs) \<le> unat cap'" using fit_total [of cap xs] assms(2) by (simp add: word_le_nat_alt)
  then show ?thesis using fit_longest recent_part_trans [OF fit_recent assms(1)] by blast
qed

lemma recent_part_drop: "recent_part xs ys \<Longrightarrow> recent_part (drop_item k xs) (drop_item k ys)"
  by (auto simp: recent_part_def drop_item_def)

lemma recent_part_snoc: "recent_part xs ys \<Longrightarrow> recent_part (xs @ [x]) (ys @ [x])"
  by (auto simp: recent_part_def)

lemma find_recent:
  "recent_part xs ys \<Longrightarrow> distinct (map fst ys) \<Longrightarrow> find (\<lambda>x. fst x = k) xs = Some x \<Longrightarrow> find (\<lambda>x. fst x = k) ys = Some x"
proof -
  assume "recent_part xs ys" and d: "distinct (map fst ys)" and f: "find (\<lambda>x. fst x = k) xs = Some x"
  then obtain zs where zs: "ys = zs @ xs" by (auto simp: recent_part_def)
  have "k \<in> fst ` set xs" using f by (force simp: find_Some_iff)
  then have "k \<notin> fst ` set zs" using d zs by auto
  then have "find (\<lambda>x. fst x = k) (zs @ xs) = find (\<lambda>x. fst x = k) xs" by (induction zs) auto
  then show ?thesis using f zs by simp
qed

section \<open>A demand read\<close>

text \<open>A read that misses inserts: what the sweeps do at each \<open>GET\<close>.\<close>

definition demand_read :: "string \<Rightarrow> u64 \<Rightarrow> sim \<Rightarrow> sim \<times> bool" where
  "demand_read k sz s =
    (case sim_access k sz s of (s1, Hit _) \<Rightarrow> (s1, True) | (s1, Miss) \<Rightarrow> (sim_insert k sz False s1, False))"

lemma find_none_iff: "find (\<lambda>x. fst x = k) xs = None \<longleftrightarrow> k \<notin> fst ` set xs"
  by (induction xs) auto

lemma drop_item_id: "k \<notin> fst ` set xs \<Longrightarrow> drop_item k xs = xs"
  by (induction xs) (auto simp: drop_item_def)

lemma demand_read_ok:
  assumes ok: "sim_ok n s" and room: "n + 3 < 2 ^ 64"
  shows "sim_ok (n + 2) (fst (demand_read k sz s))"
    "sim_items (fst (demand_read k sz s)) = fit (sm_cap s) (drop_item k (sim_items s) @ [(k, sz, False)])"
    "snd (demand_read k sz s) = (k \<in> fst ` set (sim_items s))" "sm_cap (fst (demand_read k sz s)) = sm_cap s"
proof -
  obtain s1 res where r: "sim_access k sz s = (s1, res)" by force
  from sim_access_ok [OF ok _ r] room have a: "sim_ok (Suc n) s1" "list_access (sm_cap s) k sz (sim_items s) = (sim_items s1, res)"
    "sm_cap s1 = sm_cap s" by simp_all
  have "sim_ok (n + 2) (fst (demand_read k sz s))
    \<and> sim_items (fst (demand_read k sz s)) = fit (sm_cap s) (drop_item k (sim_items s) @ [(k, sz, False)])
    \<and> snd (demand_read k sz s) = (k \<in> fst ` set (sim_items s)) \<and> sm_cap (fst (demand_read k sz s)) = sm_cap s"
  proof (cases "find (\<lambda>x. fst x = k) (sim_items s)")
    case None
    then have "res = Miss" "sim_items s1 = sim_items s" using a(2) by (auto simp: list_access_def)
    moreover note sim_insert_ok [OF a(1), of k sz False]
    ultimately show ?thesis using room None a(3)
      by (simp add: demand_read_def r list_insert_def find_none_iff drop_item_id)
  next
    case (Some x)
    obtain j m f where x: "x = (j, m, f)" by (cases x) auto
    have "k \<in> fst ` set (sim_items s)" using Some find_none_iff [of k "sim_items s"] by auto
    then show ?thesis using a Some by (auto simp: demand_read_def r list_access_def x sim_ok_def)
  qed
  then show "sim_ok (n + 2) (fst (demand_read k sz s))"
    "sim_items (fst (demand_read k sz s)) = fit (sm_cap s) (drop_item k (sim_items s) @ [(k, sz, False)])"
    "snd (demand_read k sz s) = (k \<in> fst ` set (sim_items s))" "sm_cap (fst (demand_read k sz s)) = sm_cap s" by blast+
qed

lemma sim_ok_new: "unat cap < 2 ^ 63 \<Longrightarrow> sim_ok 0 (sim_new cap)" "sim_items (sim_new cap) = []"
  by (simp_all add: sim_ok_def sim_new_def lru_ok_def sim_lru_def sim_items_def lru_keys_def)

lemma replay_bytes_Get:
  "ne_op ev = Get \<Longrightarrow> sz = (case ne_size ev of Some n \<Rightarrow> n | None \<Rightarrow> 1) \<Longrightarrow> demand_read (ne_object_id ev) sz s = (s', hit) \<Longrightarrow>
    replay_bytes_loop (ev # evs) s r = replay_bytes_loop evs s' (r\<lparr>by_accesses := by_accesses r + 1,
      by_total_bytes := sat_add (by_total_bytes r) sz, by_hits := (if hit then by_hits r + 1 else by_hits r),
      by_hit_bytes := (if hit then sat_add (by_hit_bytes r) sz else by_hit_bytes r), by_peak := max (by_peak r) (sm_used s')\<rparr>)"
  by (auto simp: demand_read_def Let_def split: prod.splits sim_result.splits)

lemma sat_add_mono: "a \<le> b \<Longrightarrow> sat_add a c \<le> sat_add b (c :: 'a :: len word)"
  by (simp add: word_le_nat_alt unat_sat_add min_def)

text \<open>The two sweeps side by side.\<close>

definition curve_below :: "u64 \<Rightarrow> byte_counts \<Rightarrow> byte_counts \<Rightarrow> bool" where
  "curve_below cap r r' \<longleftrightarrow> by_accesses r = by_accesses r' \<and> by_total_bytes r = by_total_bytes r'
     \<and> by_hits r \<le> by_hits r' \<and> by_hit_bytes r \<le> by_hit_bytes r' \<and> by_peak r \<le> by_peak r' \<and> by_peak r \<le> cap
     \<and> by_hits r \<le> by_accesses r \<and> by_hit_bytes r \<le> by_total_bytes r"

lemma sim_invalidate_Items:
  "sim_ok n s \<Longrightarrow> sim_ok n (sim_invalidate k s)" "sim_ok n s \<Longrightarrow> sim_items (sim_invalidate k s) = drop_item k (sim_items s)"
  "sim_ok n s \<Longrightarrow> sm_cap (sim_invalidate k s) = sm_cap s"
  using sim_invalidate_ok by blast+

lemma replay_bytes_mono:
  "sim_ok n s \<Longrightarrow> sim_ok n s' \<Longrightarrow> sm_cap s = cap \<Longrightarrow> sm_cap s \<le> sm_cap s' \<Longrightarrow> recent_part (sim_items s) (sim_items s') \<Longrightarrow>
    curve_below cap r r' \<Longrightarrow> n + 2 * length evs + 1 < 2 ^ 64 \<Longrightarrow>
    curve_below cap (replay_bytes_loop evs s r) (replay_bytes_loop evs s' r')
      \<and> by_accesses (replay_bytes_loop evs s r) = by_accesses r + gets evs"
proof (induction evs arbitrary: n s s' r r')
  case (Cons ev evs)
  show ?case
  proof (cases "ne_op ev = Get")
    case True
    let ?k = "ne_object_id ev"
    define sz where "sz = (case ne_size ev of Some n \<Rightarrow> n | None \<Rightarrow> 1)"
    obtain t hit where t: "demand_read ?k sz s = (t, hit)" by force
    obtain t' hit' where t': "demand_read ?k sz s' = (t', hit')" by force
    have room: "n + 3 < 2 ^ 64" using Cons.prems(7) by simp
    note d = demand_read_ok [OF Cons.prems(1) room, of ?k sz, unfolded t fst_conv snd_conv]
      and d' = demand_read_ok [OF Cons.prems(2) room, of ?k sz, unfolded t' fst_conv snd_conv]
    have rp: "recent_part (sim_items t) (sim_items t')"
      unfolding d(2) d'(2) by (intro fit_mono recent_part_snoc recent_part_drop Cons.prems(4,5))
    have hh: "hit \<Longrightarrow> hit'" unfolding d(3) d'(3) using Cons.prems(5) by (auto simp: recent_part_def)
    have used: "sm_used t \<le> sm_used t'" "sm_used t \<le> cap"
      using rp d(1,4) d'(1) Cons.prems(3) by (auto simp: sim_ok_def recent_part_def word_le_nat_alt)
    have n2: "n + 2 + 2 * length evs + 1 < 2 ^ 64" using Cons.prems(7) by simp
    let ?r = "\<lambda>r hit s. r\<lparr>by_accesses := by_accesses r + 1, by_total_bytes := sat_add (by_total_bytes r) sz,
      by_hits := (if hit then by_hits r + 1 else by_hits r), by_hit_bytes := (if hit then sat_add (by_hit_bytes r) sz else by_hit_bytes r),
      by_peak := max (by_peak r) (sm_used s)\<rparr>"
    have c: "curve_below cap (?r r hit t) (?r r' hit' t')"
      using Cons.prems(6) hh used sat_add_ge [of "by_hit_bytes r'" sz] sat_add_ge [of "by_total_bytes r" sz]
        sat_add_mono [of "by_hit_bytes r" "by_hit_bytes r'" sz] sat_add_mono [of "by_hit_bytes r" "by_total_bytes r" sz]
      by (auto simp: curve_below_def le_max_iff_disj intro: order_trans)
    have "sm_cap t = cap" "sm_cap t \<le> sm_cap t'" using d(4) d'(4) Cons.prems(3,4) by simp_all
    from Cons.IH [OF d(1) d'(1) this rp c n2] show ?thesis
      unfolding replay_bytes_Get [OF True sz_def t] replay_bytes_Get [OF True sz_def t'] using True by simp
  next
    case False
    let ?i = "sim_invalidate (ne_object_id ev)"
    have n2: "n + 2 * length evs + 1 < 2 ^ 64" using Cons.prems(7) by simp
    have "recent_part (sim_items (?i s)) (sim_items (?i s'))"
      using Cons.prems(5) recent_part_drop by (simp add: sim_invalidate_Items [OF Cons.prems(1)] sim_invalidate_Items [OF Cons.prems(2)])
    note i = Cons.IH [OF sim_invalidate_Items(1) [OF Cons.prems(1)] sim_invalidate_Items(1) [OF Cons.prems(2)] _ _ this Cons.prems(6) n2]
    have caps: "sm_cap (?i s) = sm_cap s" "sm_cap (?i s') = sm_cap s'"
      using sim_invalidate_Items(3) Cons.prems(1,2) by blast+
    from False show ?thesis
      using i Cons.IH [OF Cons.prems(1-6) n2] Cons.prems(3,4) caps by (cases "ne_op ev") simp_all
  qed
qed simp

text \<open>C33: the miss-ratio curve falls. Replaying a trace with more bytes of cache serves at least as many
  requests and as many bytes: the knee of the sweep is no artefact of the policy. No sweep holds more
  than its capacity at its peak, and every row counts the same reads and bytes.\<close>

theorem byte_curve_monotone:
  assumes "cap \<le> cap'" and "unat cap' < 2 ^ 63" and "2 * length trace + 1 < 2 ^ 64"
  shows "by_hits (replay_bytes trace cap) \<le> by_hits (replay_bytes trace cap')
    \<and> by_hit_bytes (replay_bytes trace cap) \<le> by_hit_bytes (replay_bytes trace cap')
    \<and> by_peak (replay_bytes trace cap) \<le> by_peak (replay_bytes trace cap')
    \<and> by_peak (replay_bytes trace cap) \<le> cap
    \<and> by_accesses (replay_bytes trace cap) = gets trace \<and> by_accesses (replay_bytes trace cap') = gets trace
    \<and> by_total_bytes (replay_bytes trace cap) = by_total_bytes (replay_bytes trace cap')
    \<and> by_hits (replay_bytes trace cap) \<le> gets trace
    \<and> by_hit_bytes (replay_bytes trace cap) \<le> by_total_bytes (replay_bytes trace cap)"
proof -
  let ?r = "\<lparr>by_accesses = 0, by_hits = 0, by_total_bytes = 0, by_hit_bytes = 0, by_peak = 0\<rparr>"
  have "unat cap < 2 ^ 63" using assms(1,2) by (auto simp: word_le_nat_alt)
  moreover have "sm_cap (sim_new c) = c" for c by (simp add: sim_new_def)
  moreover have "curve_below cap ?r ?r" by (simp add: curve_below_def)
  moreover have "recent_part (sim_items (sim_new cap)) (sim_items (sim_new cap'))" by (simp add: sim_ok_new(2) recent_part_def)
  ultimately have "curve_below cap (replay_bytes trace cap) (replay_bytes trace cap') \<and> by_accesses (replay_bytes trace cap) = gets trace"
    using replay_bytes_mono [of 0 "sim_new cap" "sim_new cap'" cap ?r ?r trace] sim_ok_new(1) assms
    unfolding replay_bytes_def by simp
  then show ?thesis by (auto simp: curve_below_def)
qed

definition sample_get :: "string \<Rightarrow> u64 \<Rightarrow> norm_event" where
  "sample_get k n = \<lparr>ne_ts_ns = 0, ne_op = Get, ne_object_id = k, ne_range = None, ne_size = Some n, ne_version = None, ne_status = None\<rparr>"

lemma byte_curve_monotone_witness:
  "by_peak (replay_bytes [sample_get ''a'' 3, sample_get ''b'' 4, sample_get ''a'' 3] 5) \<le> 5
   \<and> by_hits (replay_bytes [sample_get ''a'' 3, sample_get ''b'' 4, sample_get ''a'' 3] 5)
     \<le> by_hits (replay_bytes [sample_get ''a'' 3, sample_get ''b'' 4, sample_get ''a'' 3] 8)"
  using byte_curve_monotone [of 5 8 "[sample_get ''a'' 3, sample_get ''b'' 4, sample_get ''a'' 3]"]
  by (simp del: replay_bytes_loop.simps)

section \<open>The simulator meets the contract of a demand cache\<close>

definition count_access :: "string \<Rightarrow> sim \<Rightarrow> (sim \<times> bool) option" where
  "count_access k s = Some (demand_read k 1 s)"

definition sim_held :: "sim \<Rightarrow> string set" where
  "sim_held s = fst ` set (sim_items s)"

definition sim_slots :: "sim \<Rightarrow> nat" where
  "sim_slots s = unat (sm_cap s)"

definition count_ok :: "nat \<Rightarrow> sim \<Rightarrow> bool" where
  "count_ok n s \<longleftrightarrow> sim_ok (2 * n) s \<and> list_all (\<lambda>x. fst (snd x) = 1) (sim_items s) \<and> 1 \<le> sim_slots s"

lemma total_ones: "list_all (\<lambda>x. fst (snd x) = 1) xs \<Longrightarrow> total xs = length xs"
  by (induction xs) auto

lemma fit_ones:
  "list_all (\<lambda>x. fst (snd x) = 1) xs \<Longrightarrow> fit cap xs = drop (length xs - unat cap) xs"
proof (induction xs)
  case (Cons x xs)
  then have "total (x # xs) = Suc (length xs)" using total_ones [of "x # xs"] by simp
  with Cons show ?case by (auto simp: Suc_diff_le not_less)
qed simp

lemma sim_held_card: "sim_ok n s \<Longrightarrow> list_all (\<lambda>x. fst (snd x) = 1) (sim_items s) \<Longrightarrow>
    card (sim_held s) = length (sim_items s) \<and> length (sim_items s) \<le> sim_slots s"
  using distinct_card [OF distinct_sim_items, of s] total_ones [of "sim_items s"]
  by (auto simp: sim_ok_def sim_held_def sim_slots_def word_le_nat_alt)

lemma count_access_ok:
  assumes v: "count_ok n s" and n: "n < 2 ^ 63 - 2"
  shows "\<exists>s'. count_access k s = Some (s', k \<in> sim_held s) \<and> count_ok (Suc n) s' \<and> sim_slots s' = sim_slots s
      \<and> k \<in> sim_held s' \<and> sim_held s' \<subseteq> insert k (sim_held s)
      \<and> (k \<in> sim_held s \<or> card (sim_held s) < sim_slots s \<longrightarrow> sim_held s \<subseteq> sim_held s')"
proof -
  have o: "sim_ok (2 * n) s" "list_all (\<lambda>x. fst (snd x) = 1) (sim_items s)" "1 \<le> sim_slots s"
    using v by (simp_all add: count_ok_def)
  have room: "2 * n + 3 < 2 ^ 64" using n by simp
  let ?p = "drop_item k (sim_items s) @ [(k, 1, False)]" and ?t = "fst (demand_read k 1 s)"
  note d = demand_read_ok [OF o(1) room, of k 1]
  have ones: "list_all (\<lambda>x. fst (snd x) = 1) ?p" using o(2) by (auto simp: drop_item_def list_all_iff)
  have items: "sim_items ?t = drop (length ?p - sim_slots s) ?p" unfolding d(2) fit_ones [OF ones] sim_slots_def ..
  note c = sim_held_card [OF o(1,2)]
  have "list_all (\<lambda>x. fst (snd x) = 1) (sim_items ?t)" using ones unfolding items by (auto simp: list_all_iff dest: in_set_dropD)
  then have ok: "count_ok (Suc n) ?t" using d(1,4) o(3) by (simp add: count_ok_def sim_slots_def)
  have "length ?p - sim_slots s \<le> length (drop_item k (sim_items s))" using o(3) by simp
  then have k: "k \<in> sim_held ?t" unfolding sim_held_def items by simp
  have sub: "sim_held ?t \<subseteq> insert k (sim_held s)"
    unfolding sim_held_def items by (auto simp: drop_item_def dest!: in_set_dropD)
  have "sim_held s \<subseteq> sim_held ?t" if "k \<in> sim_held s \<or> card (sim_held s) < sim_slots s"
  proof -
    have "length ?p \<le> sim_slots s"
    proof (cases "k \<in> sim_held s")
      case True
      then have "length (drop_item k (sim_items s)) < length (sim_items s)"
        unfolding drop_item_def sim_held_def by (auto intro: length_filter_less)
      then show ?thesis using c by simp
    next
      case False
      have "length (drop_item k (sim_items s)) \<le> length (sim_items s)" by (simp add: drop_item_def)
      then show ?thesis using that False c by simp
    qed
    then have "sim_items ?t = ?p" by (simp add: items)
    then show ?thesis by (auto simp: sim_held_def drop_item_def image_iff)
  qed
  moreover have "demand_read k 1 s = (?t, k \<in> sim_held s)" using d(3) by (simp add: prod_eq_iff sim_held_def)
  ultimately show ?thesis using ok k sub d(4) by (intro exI [of _ ?t]) (simp add: count_access_def sim_slots_def)
qed

interpretation lru: demand_cache count_access sim_invalidate sim_held sim_slots count_ok "2 ^ 63 - 2"
proof unfold_locales
  fix n s k assume "count_ok n s" and "n < 2 ^ 63 - 2"
  from count_access_ok [OF this, of k]
  show "\<exists>s'. count_access k s = Some (s', k \<in> sim_held s) \<and> count_ok (Suc n) s' \<and> sim_slots s' = sim_slots s
      \<and> sim_held s' \<subseteq> insert k (sim_held s)" by blast
next
  fix n s k s' hit assume "count_ok n s" and "n < 2 ^ 63 - 2" and "count_access k s = Some (s', hit)"
  then show "k \<in> sim_held s' \<and> (k \<in> sim_held s \<or> card (sim_held s) < sim_slots s \<longrightarrow> sim_held s \<subseteq> sim_held s')"
    using count_access_ok [of n s k] by auto
next
  fix n s k assume v: "count_ok n s"
  then have o: "sim_ok (2 * n) s" by (simp add: count_ok_def)
  show "count_ok n (sim_invalidate k s) \<and> sim_held (sim_invalidate k s) = sim_held s - {k}
      \<and> sim_slots (sim_invalidate k s) = sim_slots s"
    using v sim_invalidate_Items [OF o, of k] by (auto simp: count_ok_def sim_held_def sim_slots_def drop_item_def list_all_iff)
next
  fix n s assume "count_ok n s"
  then show "finite (sim_held s) \<and> card (sim_held s) \<le> sim_slots s"
    using sim_held_card [of "2 * n" s] by (auto simp: count_ok_def sim_held_def)
qed

end
