(* ===== verification/S3Fifo.thy ===== *)
theory S3Fifo
  imports Belady
begin

text \<open>
  The S3-FIFO policy of \<open>crates/s3tap-replay/src/s3fifo.rs\<close>: three queues of \<open>(key, seq)\<close> slots with lazy
  deletion, a frequency counter per entry, and compaction. A \<open>VecDeque\<close> is a list with its front
  first. Loops whose end depends on the consistency of the queues and counters are
  \<open>partial_function (option)\<close>, so not returning is \<open>None\<close>. The target of the small queue is a float
  product in the source, \<open>cap * 0.10\<close> truncated: it is the argument \<open>tenth\<close>.
\<close>

section \<open>The cache\<close>

definition FREQ_MAX :: u8 where "FREQ_MAX = 3"
definition S_PROMOTE_MIN_FREQ :: u8 where "S_PROMOTE_MIN_FREQ = 2"

record s3_entry =
  en_freq :: u8
  en_in_m :: bool
  en_seq :: u64

type_synonym slot_queue = "(string \<times> u64) list"

record s3fifo =
  q3_cap :: nat
  q3_s_target :: nat
  q3_entries :: "(string, s3_entry) fmap"
  q3_s :: slot_queue
  q3_m :: slot_queue
  q3_s_len :: nat
  q3_m_len :: nat
  q3_ghost :: "(string, u64) fmap"
  q3_ghost_q :: slot_queue
  q3_next_seq :: u64

definition s3_new :: "(nat \<Rightarrow> nat) \<Rightarrow> nat \<Rightarrow> s3fifo" where
  "s3_new tenth cap0 = (let cap = max cap0 1 in
     \<lparr>q3_cap = cap, q3_s_target = max (tenth cap) 1, q3_entries = fmempty, q3_s = [], q3_m = [],
      q3_s_len = 0, q3_m_len = 0, q3_ghost = fmempty, q3_ghost_q = [], q3_next_seq = 0\<rparr>)"

definition bump_seq :: "s3fifo \<Rightarrow> s3fifo \<times> u64" where
  "bump_seq c = (c\<lparr>q3_next_seq := q3_next_seq c + 1\<rparr>, q3_next_seq c)"

definition slot_live :: "(string, s3_entry) fmap \<Rightarrow> bool \<Rightarrow> string \<times> u64 \<Rightarrow> bool" where
  "slot_live es in_m p = (case fmlookup es (fst p) of Some e \<Rightarrow> en_in_m e = in_m \<and> en_seq e = snd p | None \<Rightarrow> False)"

fun pop_live_loop :: "(string, s3_entry) fmap \<Rightarrow> bool \<Rightarrow> slot_queue \<Rightarrow> slot_queue \<times> string option" where
  "pop_live_loop es in_m [] = ([], None)"
| "pop_live_loop es in_m (p # q) = (if slot_live es in_m p then (q, Some (fst p)) else pop_live_loop es in_m q)"

definition pop_live :: "bool \<Rightarrow> s3fifo \<Rightarrow> s3fifo \<times> string option" where
  "pop_live in_m c =
    (if in_m then (let (q, k) = pop_live_loop (q3_entries c) in_m (q3_m c) in (c\<lparr>q3_m := q\<rparr>, k))
     else (let (q, k) = pop_live_loop (q3_entries c) in_m (q3_s c) in (c\<lparr>q3_s := q\<rparr>, k)))"

section \<open>The ghost queue\<close>

definition ghost_live :: "(string, u64) fmap \<Rightarrow> string \<times> u64 \<Rightarrow> bool" where
  "ghost_live g p \<longleftrightarrow> fmlookup g (fst p) = Some (snd p)"

text \<open>The inner loop drops the oldest live fingerprint, the outer one runs until the set fits.\<close>

fun ghost_pop :: "(string, u64) fmap \<Rightarrow> slot_queue \<Rightarrow> (string, u64) fmap \<times> slot_queue" where
  "ghost_pop g [] = (g, [])"
| "ghost_pop g (p # q) = (if ghost_live g p then (fmdrop (fst p) g, q) else ghost_pop g q)"

partial_function (option) ghost_trim ::
    "nat \<Rightarrow> (string, u64) fmap \<Rightarrow> slot_queue \<Rightarrow> ((string, u64) fmap \<times> slot_queue) option" where
  "ghost_trim cap g q =
    (if cap < fmlen g then ghost_trim cap (fst (ghost_pop g q)) (snd (ghost_pop g q)) else Some (g, q))"

definition compact_ghost_q :: "s3fifo \<Rightarrow> s3fifo" where
  "compact_ghost_q c =
    (if 2 * fmlen (q3_ghost c) + 8 < length (q3_ghost_q c)
     then c\<lparr>q3_ghost_q := filter (ghost_live (q3_ghost c)) (q3_ghost_q c)\<rparr> else c)"

definition ghost_add :: "string \<Rightarrow> s3fifo \<Rightarrow> s3fifo option" where
  "ghost_add key c0 =
    (let (c, g) = bump_seq c0 in
     case ghost_trim (q3_cap c) (fmupd key g (q3_ghost c)) (q3_ghost_q c @ [(key, g)]) of
       None \<Rightarrow> None
     | Some (gh, gq) \<Rightarrow> Some (compact_ghost_q (c\<lparr>q3_ghost := gh, q3_ghost_q := gq\<rparr>)))"

section \<open>Eviction\<close>

definition freq_of :: "string \<Rightarrow> s3fifo \<Rightarrow> u8" where
  "freq_of key c = (case fmlookup (q3_entries c) key of Some e \<Rightarrow> en_freq e | None \<Rightarrow> 0)"

definition evict_s :: "s3fifo \<Rightarrow> (s3fifo \<times> bool option) option" where
  "evict_s c0 =
    (case pop_live False c0 of
       (c, None) \<Rightarrow> Some (c, None)
     | (c, Some key) \<Rightarrow>
         let c1 = c\<lparr>q3_s_len := q3_s_len c - 1\<rparr> in
         if S_PROMOTE_MIN_FREQ \<le> freq_of key c1 then
           (let (c2, seq) = bump_seq c1;
                c3 = (case fmlookup (q3_entries c2) key of
                        Some e \<Rightarrow> c2\<lparr>q3_entries := fmupd key \<lparr>en_freq = 0, en_in_m = True, en_seq = seq\<rparr> (q3_entries c2)\<rparr>
                      | None \<Rightarrow> c2)
            in Some (c3\<lparr>q3_m := q3_m c3 @ [(key, seq)], q3_m_len := q3_m_len c3 + 1\<rparr>, Some False))
         else map_option (\<lambda>c2. (c2, Some True)) (ghost_add key (c1\<lparr>q3_entries := fmdrop key (q3_entries c1)\<rparr>)))"

definition evict_m :: "s3fifo \<Rightarrow> s3fifo \<times> bool option" where
  "evict_m c0 =
    (case pop_live True c0 of
       (c, None) \<Rightarrow> (c, None)
     | (c, Some key) \<Rightarrow>
         if 0 < freq_of key c then
           (let (c2, seq) = bump_seq c;
                c3 = (case fmlookup (q3_entries c2) key of
                        Some e \<Rightarrow> c2\<lparr>q3_entries := fmupd key (e\<lparr>en_freq := en_freq e - 1, en_seq := seq\<rparr>) (q3_entries c2)\<rparr>
                      | None \<Rightarrow> c2)
            in (c3\<lparr>q3_m := q3_m c3 @ [(key, seq)]\<rparr>, Some False))
         else (c\<lparr>q3_entries := fmdrop key (q3_entries c), q3_m_len := q3_m_len c - 1\<rparr>, Some True))"

definition evict_queue :: "s3fifo \<Rightarrow> (s3fifo \<times> bool option) option" where
  "evict_queue c =
    (if 0 < q3_s_len c \<and> (q3_s_target c \<le> q3_s_len c \<or> q3_m_len c = 0) then evict_s c else Some (evict_m c))"

partial_function (option) evict_one :: "s3fifo \<Rightarrow> s3fifo option" where
  "evict_one c = Option.bind (evict_queue c) (\<lambda>(c1, removed). if removed = Some False then evict_one c1 else Some c1)"

partial_function (option) make_space :: "s3fifo \<Rightarrow> s3fifo option" where
  "make_space c = (if q3_cap c \<le> q3_s_len c + q3_m_len c then Option.bind (evict_one c) make_space else Some c)"

section \<open>Access and invalidation\<close>

definition s3_insert :: "string \<Rightarrow> s3fifo \<Rightarrow> s3fifo option" where
  "s3_insert key c0 = map_option (\<lambda>c1.
     let (c, seq) = bump_seq c1 in
     if fmlookup (q3_ghost c) key \<noteq> None then
       c\<lparr>q3_ghost := fmdrop key (q3_ghost c),
         q3_entries := fmupd key \<lparr>en_freq = 0, en_in_m = True, en_seq = seq\<rparr> (q3_entries c),
         q3_m := q3_m c @ [(key, seq)], q3_m_len := q3_m_len c + 1\<rparr>
     else
       c\<lparr>q3_entries := fmupd key \<lparr>en_freq = 0, en_in_m = False, en_seq = seq\<rparr> (q3_entries c),
         q3_s := q3_s c @ [(key, seq)], q3_s_len := q3_s_len c + 1\<rparr>) (make_space c0)"

definition s3_access :: "string \<Rightarrow> s3fifo \<Rightarrow> (s3fifo \<times> bool) option" where
  "s3_access key c =
    (case fmlookup (q3_entries c) key of
       Some e \<Rightarrow> Some (c\<lparr>q3_entries := fmupd key (e\<lparr>en_freq := min (en_freq e + 1) FREQ_MAX\<rparr>) (q3_entries c)\<rparr>, True)
     | None \<Rightarrow> map_option (\<lambda>c1. (c1, False)) (s3_insert key c))"

definition maybe_compact :: "s3fifo \<Rightarrow> s3fifo" where
  "maybe_compact c0 =
    (let c1 = (if 2 * q3_s_len c0 + 8 < length (q3_s c0)
               then c0\<lparr>q3_s := filter (slot_live (q3_entries c0) False) (q3_s c0)\<rparr> else c0);
         c2 = (if 2 * q3_m_len c1 + 8 < length (q3_m c1)
               then c1\<lparr>q3_m := filter (slot_live (q3_entries c1) True) (q3_m c1)\<rparr> else c1)
     in compact_ghost_q c2)"

definition s3_invalidate :: "string \<Rightarrow> s3fifo \<Rightarrow> s3fifo" where
  "s3_invalidate key c0 =
    (let c1 = (case fmlookup (q3_entries c0) key of
                 None \<Rightarrow> c0
               | Some e \<Rightarrow>
                   let c = c0\<lparr>q3_entries := fmdrop key (q3_entries c0)\<rparr> in
                   if en_in_m e then c\<lparr>q3_m_len := q3_m_len c - 1\<rparr> else c\<lparr>q3_s_len := q3_s_len c - 1\<rparr>)
     in maybe_compact (c1\<lparr>q3_ghost := fmdrop key (q3_ghost c1)\<rparr>))"

definition s3_resident :: "s3fifo \<Rightarrow> nat" where
  "s3_resident c = q3_s_len c + q3_m_len c"

definition eval_s3fifo_caps :: "(nat \<Rightarrow> nat) \<Rightarrow> norm_event list \<Rightarrow> u64 list \<Rightarrow> (u64 \<times> (nat \<times> nat) option) list" where
  "eval_s3fifo_caps tenth trace caps =
    map (\<lambda>c. (c, replay_loop s3_access s3_invalidate trace (s3_new tenth (unat c)) 0 0)) caps"

section \<open>Three plain queues\<close>

text \<open>The abstract cache: keys with their counters in the two queues, and the fingerprints by age.\<close>

record fifo_lists =
  fq_s :: "(string \<times> u8) list"
  fq_m :: "(string \<times> u8) list"
  fq_g :: "string list"

definition without_key :: "string \<Rightarrow> (string \<times> 'a) list \<Rightarrow> (string \<times> 'a) list" where
  "without_key k xs = filter (\<lambda>p. fst p \<noteq> k) xs"

definition spec_ghost :: "nat \<Rightarrow> string \<Rightarrow> string list \<Rightarrow> string list" where
  "spec_ghost cap k g = (let g' = filter (\<lambda>x. x \<noteq> k) g @ [k] in drop (length g' - cap) g')"

lemma unat_pred: "0 < (f :: 'a :: len word) \<Longrightarrow> unat (f - 1) = unat f - 1"
  by (simp add: unat_minus_one word_neq_0_conv)

function fifo_evict :: "nat \<Rightarrow> nat \<Rightarrow> fifo_lists \<Rightarrow> fifo_lists" where
  "fifo_evict cap target l =
    (if fq_s l \<noteq> [] \<and> (target \<le> length (fq_s l) \<or> fq_m l = []) then
       (let (k, f) = hd (fq_s l); s = tl (fq_s l) in
        if 2 \<le> f then fifo_evict cap target (l\<lparr>fq_s := s, fq_m := fq_m l @ [(k, 0)]\<rparr>)
        else l\<lparr>fq_s := s, fq_g := spec_ghost cap k (fq_g l)\<rparr>)
     else
       (case fq_m l of
          [] \<Rightarrow> l
        | (k, f) # m \<Rightarrow>
            if 0 < f then fifo_evict cap target (l\<lparr>fq_m := m @ [(k, f - 1)]\<rparr>) else l\<lparr>fq_m := m\<rparr>))"
  by pat_completeness auto

termination
  by (relation "measures [\<lambda>(c, t, l). length (fq_s l), \<lambda>(c, t, l). sum_list (map (unat \<circ> snd) (fq_m l))]")
    (auto simp: unat_pred neq_Nil_conv word_less_nat_alt)

definition fifo_keys :: "fifo_lists \<Rightarrow> string set" where
  "fifo_keys l = fst ` set (fq_s l) \<union> fst ` set (fq_m l)"

definition fifo_hit :: "string \<Rightarrow> (string \<times> u8) list \<Rightarrow> (string \<times> u8) list" where
  "fifo_hit k xs = map (\<lambda>p. if fst p = k then (k, min (snd p + 1) 3) else p) xs"

definition fifo_access :: "nat \<Rightarrow> nat \<Rightarrow> string \<Rightarrow> fifo_lists \<Rightarrow> fifo_lists \<times> bool" where
  "fifo_access cap target k l =
    (if k \<in> fifo_keys l then (l\<lparr>fq_s := fifo_hit k (fq_s l), fq_m := fifo_hit k (fq_m l)\<rparr>, True)
     else
       (let l1 = (if cap \<le> length (fq_s l) + length (fq_m l) then fifo_evict cap target l else l) in
        if k \<in> set (fq_g l1)
        then (l1\<lparr>fq_g := filter (\<lambda>x. x \<noteq> k) (fq_g l1), fq_m := fq_m l1 @ [(k, 0)]\<rparr>, False)
        else (l1\<lparr>fq_s := fq_s l1 @ [(k, 0)]\<rparr>, False)))"

definition fifo_invalidate :: "string \<Rightarrow> fifo_lists \<Rightarrow> fifo_lists" where
  "fifo_invalidate k l = \<lparr>fq_s = without_key k (fq_s l), fq_m = without_key k (fq_m l), fq_g = filter (\<lambda>x. x \<noteq> k) (fq_g l)\<rparr>"

section \<open>The live slots\<close>

definition fifo :: "(string, s3_entry) fmap \<Rightarrow> bool \<Rightarrow> slot_queue \<Rightarrow> (string \<times> u8) list" where
  "fifo es b q = map (\<lambda>p. (fst p, en_freq (the (fmlookup es (fst p))))) (filter (slot_live es b) q)"

definition queue_ok :: "(string, s3_entry) fmap \<Rightarrow> bool \<Rightarrow> slot_queue \<Rightarrow> u64 \<Rightarrow> bool" where
  "queue_ok es b q nxt \<longleftrightarrow> distinct q \<and> (\<forall>p\<in>set q. snd p < nxt)
     \<and> (\<forall>k e. fmlookup es k = Some e \<and> en_in_m e = b \<longrightarrow> (k, en_seq e) \<in> set q)"

lemma fifo_drop: "fifo (fmdrop k es) b q = without_key k (fifo es b q)"
  by (induction q) (auto simp: fifo_def without_key_def slot_live_def split: option.splits)

lemma fifo_append: "fifo es b (xs @ ys) = fifo es b xs @ fifo es b ys"
  by (simp add: fifo_def)

lemma fifo_filter: "fifo es b (filter (slot_live es b) q) = fifo es b q"
  by (simp add: fifo_def)

lemma fifo_mem: "(k, f) \<in> set (fifo es b q) \<longleftrightarrow>
    (\<exists>e. fmlookup es k = Some e \<and> en_in_m e = b \<and> en_freq e = f \<and> (k, en_seq e) \<in> set q)"
  by (force simp: fifo_def slot_live_def split: option.splits)

lemma fifo_keys_iff: "queue_ok es b q n \<Longrightarrow> k \<in> fst ` set (fifo es b q) \<longleftrightarrow>
    (\<exists>e. fmlookup es k = Some e \<and> en_in_m e = b)"
proof -
  assume ok: "queue_ok es b q n"
  have "k \<in> fst ` set (fifo es b q) \<longleftrightarrow> (\<exists>f. (k, f) \<in> set (fifo es b q))" by force
  then show ?thesis using ok unfolding fifo_mem queue_ok_def by blast
qed

lemma distinct_fifo: "distinct q \<Longrightarrow> distinct (map fst (fifo es b q))"
proof (induction q)
  case (Cons p q)
  have "fst p \<notin> fst ` set (fifo es b q)" if "slot_live es b p"
    using that Cons.prems by (force simp: fifo_mem slot_live_def split: option.splits)
  with Cons show ?case by (auto simp: fifo_def image_iff)
qed (simp add: fifo_def)

lemma without_key_id: "k \<notin> fst ` set xs \<Longrightarrow> without_key k xs = xs"
  by (auto simp: without_key_def filter_id_conv)

lemma without_key_Cons [simp]: "without_key k (p # xs) = (if fst p = k then without_key k xs else p # without_key k xs)"
  by (simp add: without_key_def)

lemma pop_live_none: "fifo es b q = [] \<Longrightarrow> pop_live_loop es b q = ([], None)"
  by (induction q) (auto simp: fifo_def)

lemma pop_live_some:
  "fifo es b q = (k, f) # r \<Longrightarrow> \<exists>q' pre seq. pop_live_loop es b q = (q', Some k) \<and> q = pre @ (k, seq) # q'
     \<and> fifo es b q' = r \<and> slot_live es b (k, seq) \<and> fifo es b pre = []"
proof (induction q)
  case (Cons p q)
  show ?case
  proof (cases "slot_live es b p")
    case True
    then show ?thesis using Cons.prems by (intro exI [of _ q] exI [of _ "[]"] exI [of _ "snd p"]) (auto simp: fifo_def)
  next
    case False
    then have "fifo es b q = (k, f) # r" using Cons.prems by (simp add: fifo_def)
    from Cons.IH [OF this] obtain q' pre seq where
      "pop_live_loop es b q = (q', Some k)" "q = pre @ (k, seq) # q'" "fifo es b q' = r" "slot_live es b (k, seq)" "fifo es b pre = []"
      by blast
    then show ?thesis using False by (intro exI [of _ q'] exI [of _ "p # pre"] exI [of _ seq]) (auto simp: fifo_def)
  qed
qed (simp add: fifo_def)

text \<open>Popping the front of a queue, dropping a key, and pushing a key with a fresh stamp.\<close>

lemma queue_ok_pop:
  assumes ok: "queue_ok es b q n" and front: "fifo es b q = (k, f) # r"
  obtains q' e where "pop_live_loop es b q = (q', Some k)" "fmlookup es k = Some e" "en_freq e = f" "en_in_m e = b"
    "queue_ok (fmdrop k es) b q' n" "fifo (fmdrop k es) b q' = r" "k \<notin> fst ` set r" "length q' < length q"
proof -
  from pop_live_some [OF front] obtain q' pre seq where
    p: "pop_live_loop es b q = (q', Some k)" "q = pre @ (k, seq) # q'" "fifo es b q' = r" "slot_live es b (k, seq)" "fifo es b pre = []"
    by blast
  from front have "(k, f) \<in> set (fifo es b q)" by simp
  then obtain e where e: "fmlookup es k = Some e" "en_in_m e = b" "en_freq e = f" by (auto simp: fifo_mem)
  have d: "distinct (map fst (fifo es b q))" using ok by (simp add: queue_ok_def distinct_fifo)
  then have k: "k \<notin> fst ` set r" by (simp add: front)
  have "(j, en_seq e') \<in> set q'" if "fmlookup (fmdrop k es) j = Some e'" "en_in_m e' = b" for j e'
  proof -
    from that have j: "fmlookup es j = Some e'" "j \<noteq> k" by (auto split: if_splits)
    then have "(j, en_seq e') \<in> set q" using ok that(2) by (simp add: queue_ok_def)
    moreover have "(j, en_seq e') \<notin> set pre"
      using p(5) j that(2) by (force simp: fifo_def slot_live_def filter_empty_conv)
    ultimately show ?thesis using j(2) by (simp add: p(2))
  qed
  then have "queue_ok (fmdrop k es) b q' n" using ok by (auto simp: queue_ok_def p(2))
  moreover have "fifo (fmdrop k es) b q' = r" using k by (simp add: fifo_drop p(3) without_key_id)
  ultimately show thesis using that p(1) e k by (simp add: p(2))
qed

lemma queue_ok_drop: "queue_ok es b q n \<Longrightarrow> queue_ok (fmdrop k es) b q n"
  by (auto simp: queue_ok_def split: if_splits)

lemma fifo_upd_other:
  "en_in_m e \<noteq> b \<Longrightarrow> fifo (fmupd k e es) b q = fifo (fmdrop k es) b q"
  by (induction q) (auto simp: fifo_def slot_live_def split: option.splits)

lemma queue_ok_upd_other: "en_in_m e \<noteq> b \<Longrightarrow> queue_ok (fmdrop k es) b q n \<Longrightarrow> queue_ok (fmupd k e es) b q n"
  by (auto simp: queue_ok_def split: if_splits)

lemma queue_ok_mono: "queue_ok es b q n \<Longrightarrow> n \<le> n' \<Longrightarrow> queue_ok es b q n'"
  by (auto simp: queue_ok_def intro: less_le_trans)

lemma queue_ok_push:
  assumes ok: "queue_ok (fmdrop k es) b q n" and n: "n < n + 1" and e: "en_in_m e = b" "en_seq e = n"
  shows "queue_ok (fmupd k e es) b (q @ [(k, n)]) (n + 1)"
    "fifo (fmupd k e es) b (q @ [(k, n)]) = fifo (fmdrop k es) b q @ [(k, en_freq e)]"
proof -
  have fresh: "(k, n) \<notin> set q" using ok by (force simp: queue_ok_def)
  have "(j, en_seq e') \<in> set (q @ [(k, n)])" if "fmlookup (fmupd k e es) j = Some e'" "en_in_m e' = b" for j e'
    using that ok e by (cases "j = k") (auto simp: queue_ok_def)
  then show "queue_ok (fmupd k e es) b (q @ [(k, n)]) (n + 1)"
    using ok n fresh by (auto simp: queue_ok_def intro: less_trans)
  have "slot_live (fmupd k e es) b p = slot_live (fmdrop k es) b p" if "p \<in> set q" for p
    using that fresh e by (cases p) (auto simp: slot_live_def)
  then have f: "filter (slot_live (fmupd k e es) b) q = filter (slot_live (fmdrop k es) b) q" by (simp cong: filter_cong)
  have "\<not> slot_live (fmdrop k es) b (k, j)" for j by (simp add: slot_live_def)
  then have "fifo (fmupd k e es) b q = fifo (fmdrop k es) b q" by (auto simp: fifo_def f)
  then show "fifo (fmupd k e es) b (q @ [(k, n)]) = fifo (fmdrop k es) b q @ [(k, en_freq e)]"
    using e by (simp add: fifo_append) (simp add: fifo_def slot_live_def)
qed

lemma queue_ok_filter: "queue_ok es b q n \<Longrightarrow> queue_ok es b (filter (slot_live es b) q) n"
  by (auto simp: queue_ok_def slot_live_def)

section \<open>The live fingerprints\<close>

definition ghosts :: "(string, u64) fmap \<Rightarrow> slot_queue \<Rightarrow> string list" where
  "ghosts g q = map fst (filter (ghost_live g) q)"

definition ghost_ok :: "(string, u64) fmap \<Rightarrow> slot_queue \<Rightarrow> u64 \<Rightarrow> bool" where
  "ghost_ok g q nxt \<longleftrightarrow> distinct q \<and> (\<forall>p\<in>set q. snd p < nxt) \<and> (\<forall>k j. fmlookup g k = Some j \<longrightarrow> (k, j) \<in> set q)"

lemma ghosts_mem: "ghost_ok g q n \<Longrightarrow> k \<in> set (ghosts g q) \<longleftrightarrow> fmlookup g k \<noteq> None"
  by (force simp: ghosts_def ghost_live_def ghost_ok_def image_iff)

lemma distinct_ghosts: "distinct q \<Longrightarrow> distinct (ghosts g q)"
  by (induction q) (auto simp: ghosts_def ghost_live_def)

lemma length_ghosts: "ghost_ok g q n \<Longrightarrow> length (ghosts g q) = fmlen g"
proof -
  assume ok: "ghost_ok g q n"
  have "set (ghosts g q) = fmdom' g" using ghosts_mem [OF ok] by (auto simp: in_fmdom'_iff)
  moreover have "distinct (ghosts g q)" using ok by (simp add: ghost_ok_def distinct_ghosts)
  ultimately show ?thesis using distinct_card [of "ghosts g q"] by (simp add: fmlen_def)
qed

lemma ghosts_drop: "ghosts (fmdrop k g) q = filter (\<lambda>x. x \<noteq> k) (ghosts g q)"
  by (induction q) (auto simp: ghosts_def ghost_live_def)

lemma ghost_ok_drop: "ghost_ok g q n \<Longrightarrow> ghost_ok (fmdrop k g) q n"
  by (auto simp: ghost_ok_def split: if_splits)

lemma ghost_ok_mono: "ghost_ok g q n \<Longrightarrow> n \<le> n' \<Longrightarrow> ghost_ok g q n'"
  by (auto simp: ghost_ok_def intro: less_le_trans)

lemma ghost_ok_filter: "ghost_ok g q n \<Longrightarrow> ghost_ok g (filter (ghost_live g) q) n"
  by (auto simp: ghost_ok_def ghost_live_def)

lemma ghosts_filter: "ghosts g (filter (ghost_live g) q) = ghosts g q"
  by (simp add: ghosts_def)

lemma ghost_push:
  assumes ok: "ghost_ok g q n" and n: "n < n + 1"
  shows "ghost_ok (fmupd k n g) (q @ [(k, n)]) (n + 1)"
    "ghosts (fmupd k n g) (q @ [(k, n)]) = filter (\<lambda>x. x \<noteq> k) (ghosts g q) @ [k]"
proof -
  have fresh: "(k, n) \<notin> set q" using ok by (force simp: ghost_ok_def)
  show "ghost_ok (fmupd k n g) (q @ [(k, n)]) (n + 1)"
    using ok n fresh by (auto simp: ghost_ok_def intro: less_trans split: if_splits)
  have "ghost_live (fmupd k n g) p = ghost_live (fmdrop k g) p" if "p \<in> set q" for p
    using that fresh by (cases p) (auto simp: ghost_live_def)
  then have "ghosts (fmupd k n g) q = ghosts (fmdrop k g) q" by (simp add: ghosts_def cong: filter_cong)
  then show "ghosts (fmupd k n g) (q @ [(k, n)]) = filter (\<lambda>x. x \<noteq> k) (ghosts g q) @ [k]"
    by (simp add: ghosts_drop [symmetric]) (simp add: ghosts_def ghost_live_def)
qed

lemma ghost_pop_ok:
  assumes ok: "ghost_ok g q n" and ne: "ghosts g q \<noteq> []"
  shows "ghost_ok (fst (ghost_pop g q)) (snd (ghost_pop g q)) n"
    "ghosts (fst (ghost_pop g q)) (snd (ghost_pop g q)) = tl (ghosts g q)"
proof -
  have "\<exists>p q' pre. ghost_pop g q = (fmdrop (fst p) g, q') \<and> q = pre @ p # q' \<and> ghosts g pre = [] \<and> ghost_live g p"
    using ne
  proof (induction q)
    case (Cons p q)
    show ?case
    proof (cases "ghost_live g p")
      case True
      then show ?thesis by (intro exI [of _ p] exI [of _ q] exI [of _ "[]"]) (simp add: ghosts_def)
    next
      case False
      then have "ghosts g q \<noteq> []" using Cons.prems by (simp add: ghosts_def)
      from Cons.IH [OF this] obtain p' q' pre where
        "ghost_pop g q = (fmdrop (fst p') g, q')" "q = pre @ p' # q'" "ghosts g pre = []" "ghost_live g p'" by blast
      with False show ?thesis by (intro exI [of _ p'] exI [of _ q'] exI [of _ "p # pre"]) (simp add: ghosts_def)
    qed
  qed (simp add: ghosts_def)
  then obtain p q' pre where p: "ghost_pop g q = (fmdrop (fst p) g, q')" "q = pre @ p # q'" "ghosts g pre = []" "ghost_live g p" by blast
  have split: "ghosts g q = fst p # ghosts g q'" using p(3,4) by (simp add: p(2) ghosts_def)
  have "fst p \<notin> set (ghosts g q')" using distinct_ghosts [of q g] ok by (simp add: split ghost_ok_def)
  then show "ghosts (fst (ghost_pop g q)) (snd (ghost_pop g q)) = tl (ghosts g q)"
    by (simp add: p(1) ghosts_drop split filter_id_conv) (auto simp: filter_id_conv)
  have "(k, j) \<in> set q'" if "fmlookup (fmdrop (fst p) g) k = Some j" for k j
  proof -
    from that have kj: "fmlookup g k = Some j" "k \<noteq> fst p" by (auto split: if_splits)
    then have "(k, j) \<in> set q" using ok by (simp add: ghost_ok_def)
    moreover have "(k, j) \<notin> set pre" using p(3) kj by (force simp: ghosts_def ghost_live_def filter_empty_conv)
    ultimately show ?thesis using kj by (auto simp: p(2))
  qed
  then show "ghost_ok (fst (ghost_pop g q)) (snd (ghost_pop g q)) n"
    unfolding p(1) fst_conv snd_conv using ok by (auto simp: ghost_ok_def p(2))
qed

lemma ghost_trim_ok:
  "ghost_ok g q n \<Longrightarrow> \<exists>g' q'. ghost_trim cap g q = Some (g', q') \<and> ghost_ok g' q' n
     \<and> ghosts g' q' = drop (length (ghosts g q) - cap) (ghosts g q)"
proof (induction "length (ghosts g q)" arbitrary: g q)
  case 0
  then have "fmlen g = 0" using length_ghosts [OF 0(2)] by simp
  then show ?case using 0 by (subst ghost_trim.simps) auto
next
  case (Suc m)
  have len: "fmlen g = Suc m" using length_ghosts [OF Suc.prems] Suc.hyps(2) by simp
  show ?case
  proof (cases "cap < Suc m")
    case False
    then show ?thesis using Suc.prems Suc.hyps(2) len by (subst ghost_trim.simps) auto
  next
    case True
    have ne: "ghosts g q \<noteq> []" using Suc.hyps(2) by auto
    note p = ghost_pop_ok [OF Suc.prems ne]
    have "m = length (ghosts (fst (ghost_pop g q)) (snd (ghost_pop g q)))" using Suc.hyps(2) by (simp add: p(2))
    from Suc.hyps(1) [OF this p(1)] have "\<exists>g' q'. ghost_trim cap (fst (ghost_pop g q)) (snd (ghost_pop g q)) = Some (g', q') \<and> ghost_ok g' q' n
       \<and> ghosts g' q' = drop (m - cap) (tl (ghosts g q))"
      using Suc.hyps(2) [symmetric] by (simp add: p(2))
    moreover have "drop (m - cap) (tl (ghosts g q)) = drop (length (ghosts g q) - cap) (ghosts g q)"
      using True Suc.hyps(2) [symmetric] by (cases "ghosts g q") (auto simp: Suc_diff_le)
    ultimately show ?thesis using True len by (subst ghost_trim.simps) simp
  qed
qed

section \<open>The cache implements the queues\<close>

definition s3_abs :: "s3fifo \<Rightarrow> fifo_lists" where
  "s3_abs c = \<lparr>fq_s = fifo (q3_entries c) False (q3_s c), fq_m = fifo (q3_entries c) True (q3_m c),
     fq_g = ghosts (q3_ghost c) (q3_ghost_q c)\<rparr>"

text \<open>The stamps still owed: one per object of the small queue, one per count in the main queue.\<close>

definition owed_stamps :: "fifo_lists \<Rightarrow> nat" where
  "owed_stamps l = length (fq_s l) + sum_list (map (unat \<circ> snd) (fq_m l))"

definition s3_ok :: "nat \<Rightarrow> s3fifo \<Rightarrow> bool" where
  "s3_ok B c \<longleftrightarrow> queue_ok (q3_entries c) False (q3_s c) (q3_next_seq c) \<and> queue_ok (q3_entries c) True (q3_m c) (q3_next_seq c)
     \<and> ghost_ok (q3_ghost c) (q3_ghost_q c) (q3_next_seq c)
     \<and> q3_s_len c = length (fq_s (s3_abs c)) \<and> q3_m_len c = length (fq_m (s3_abs c))
     \<and> unat (q3_next_seq c) + owed_stamps (s3_abs c) \<le> B"

lemma s3_abs_sel [simp]:
  "fq_s (s3_abs c) = fifo (q3_entries c) False (q3_s c)" "fq_m (s3_abs c) = fifo (q3_entries c) True (q3_m c)"
  "fq_g (s3_abs c) = ghosts (q3_ghost c) (q3_ghost_q c)"
  by (simp_all add: s3_abs_def)

lemma s3_okD:
  assumes "s3_ok B c"
  shows "queue_ok (q3_entries c) False (q3_s c) (q3_next_seq c)" "queue_ok (q3_entries c) True (q3_m c) (q3_next_seq c)"
    "ghost_ok (q3_ghost c) (q3_ghost_q c) (q3_next_seq c)"
    "q3_s_len c = length (fq_s (s3_abs c))" "q3_m_len c = length (fq_m (s3_abs c))"
    "unat (q3_next_seq c) + owed_stamps (s3_abs c) \<le> B"
  using assms by (simp_all add: s3_ok_def)

text \<open>A key of one queue is not in the other, so dropping it leaves the other as it is.\<close>

lemma fifo_drop_other:
  "fmlookup es k = Some e \<Longrightarrow> en_in_m e \<noteq> b \<Longrightarrow> fifo (fmdrop k es) b q = fifo es b q"
  by (simp add: fifo_drop) (rule without_key_id, force simp: fifo_mem image_iff)

lemma fresh_stamp: "unat (n :: u64) < B \<Longrightarrow> B < 2 ^ 64 \<Longrightarrow> n < n + 1 \<and> unat (n + 1) = Suc (unat n)"
  by (simp add: unat_word_ariths word_less_nat_alt)

lemma ghost_add_ok:
  assumes ok: "ghost_ok (q3_ghost c) (q3_ghost_q c) (q3_next_seq c)" and n: "q3_next_seq c < q3_next_seq c + 1"
  shows "\<exists>c'. ghost_add k c = Some c' \<and> ghost_ok (q3_ghost c') (q3_ghost_q c') (q3_next_seq c + 1)
    \<and> ghosts (q3_ghost c') (q3_ghost_q c') = spec_ghost (q3_cap c) k (ghosts (q3_ghost c) (q3_ghost_q c))
    \<and> c' = c\<lparr>q3_next_seq := q3_next_seq c + 1, q3_ghost := q3_ghost c', q3_ghost_q := q3_ghost_q c'\<rparr>
    \<and> length (q3_ghost_q c') \<le> 2 * q3_cap c + 8"
proof -
  note p = ghost_push [OF ok n, of k]
  from ghost_trim_ok [OF p(1), of "q3_cap c"] obtain g' q' where t:
    "ghost_trim (q3_cap c) (fmupd k (q3_next_seq c) (q3_ghost c)) (q3_ghost_q c @ [(k, q3_next_seq c)]) = Some (g', q')"
    "ghost_ok g' q' (q3_next_seq c + 1)" "ghosts g' q' = spec_ghost (q3_cap c) k (ghosts (q3_ghost c) (q3_ghost_q c))"
    unfolding p(2) by (auto simp: spec_ghost_def Let_def)
  moreover from t(3) have "length (ghosts g' q') \<le> q3_cap c" by (auto simp: spec_ghost_def Let_def)
  then have "fmlen g' \<le> q3_cap c" "length (filter (ghost_live g') q') \<le> q3_cap c"
    using length_ghosts [OF t(2)] by (simp_all add: ghosts_def)
  ultimately show ?thesis
    by (simp add: ghost_add_def bump_seq_def compact_ghost_q_def ghost_ok_filter ghosts_filter)
qed

text \<open>
  One step of eviction: what it does to the queues, and that it stays within the stamps owed. The
  stale slots of a queue are never more than \<open>q3_cap c + 8\<close>.
\<close>

definition s3_bounded :: "s3fifo \<Rightarrow> bool" where
  "s3_bounded c \<longleftrightarrow> length (q3_s c) \<le> q3_s_len c + q3_cap c + 8 \<and> length (q3_m c) \<le> q3_m_len c + q3_cap c + 8
     \<and> length (q3_ghost_q c) \<le> 2 * q3_cap c + 8"

definition step_ok :: "nat \<Rightarrow> s3fifo \<Rightarrow> s3fifo \<Rightarrow> fifo_lists \<Rightarrow> bool" where
  "step_ok B c c' l \<longleftrightarrow> s3_ok B c' \<and> s3_abs c' = l \<and> q3_cap c' = q3_cap c \<and> q3_s_target c' = q3_s_target c
     \<and> (s3_bounded c \<longrightarrow> s3_bounded c')"

lemma evict_s_ok:
  assumes ok: "s3_ok B c" and B: "B < 2 ^ 64" and front: "fq_s (s3_abs c) = (k, f) # r"
  shows "\<exists>c'. evict_s c = Some (c', Some (\<not> 2 \<le> f)) \<and> step_ok B c c'
    (if 2 \<le> f then (s3_abs c)\<lparr>fq_s := r, fq_m := fq_m (s3_abs c) @ [(k, 0)]\<rparr>
     else (s3_abs c)\<lparr>fq_s := r, fq_g := spec_ghost (q3_cap c) k (fq_g (s3_abs c))\<rparr>)"
proof -
  let ?es = "q3_entries c" and ?n = "q3_next_seq c"
  note o = s3_okD [OF ok]
  have fr: "fifo ?es False (q3_s c) = (k, f) # r" using front by simp
  obtain q' e where p: "pop_live_loop ?es False (q3_s c) = (q', Some k)" "fmlookup ?es k = Some e" "en_freq e = f" "\<not> en_in_m e"
    "queue_ok (fmdrop k ?es) False q' ?n" "fifo (fmdrop k ?es) False q' = r" "length q' < length (q3_s c)"
    by (rule queue_ok_pop [OF o(1) fr]) auto
  have "unat ?n < B" using o(6) front by (simp add: owed_stamps_def)
  then have n: "?n < ?n + 1" "unat (?n + 1) = Suc (unat ?n)" using fresh_stamp B by blast+
  have m: "queue_ok (fmdrop k ?es) True (q3_m c) ?n" "fifo (fmdrop k ?es) True (q3_m c) = fifo ?es True (q3_m c)"
    using queue_ok_drop [OF o(2)] fifo_drop_other [OF p(2)] p(4) by simp_all
  have len: "q3_s_len c - 1 = length r" "unat ?n + Suc (length r) + sum_list (map (unat \<circ> snd) (fq_m (s3_abs c))) \<le> B"
    using o(4,6) front by (simp_all add: owed_stamps_def)
  show ?thesis
  proof (cases "2 \<le> f")
    case True
    let ?e = "\<lparr>en_freq = 0, en_in_m = True, en_seq = ?n\<rparr>"
    let ?c' = "c\<lparr>q3_s := q', q3_s_len := q3_s_len c - 1, q3_next_seq := ?n + 1, q3_entries := fmupd k ?e ?es,
      q3_m := q3_m c @ [(k, ?n)], q3_m_len := q3_m_len c + 1\<rparr>"
    have "evict_s c = Some (?c', Some False)"
      using p(1-4) True by (simp add: evict_s_def pop_live_def bump_seq_def freq_of_def S_PROMOTE_MIN_FREQ_def Let_def)
    moreover have a: "s3_abs ?c' = (s3_abs c)\<lparr>fq_s := r, fq_m := fq_m (s3_abs c) @ [(k, 0)]\<rparr>"
      using queue_ok_push(2) [OF m(1) n(1), of ?e] p(6) by (simp add: s3_abs_def fifo_upd_other m(2))
    moreover have "s3_ok B ?c'" unfolding s3_ok_def a
      using queue_ok_push(1) [OF m(1) n(1), of ?e] queue_ok_upd_other [OF _ p(5), of ?e] ghost_ok_mono [OF o(3), of "?n + 1"]
        n len o(5) by (simp add: owed_stamps_def queue_ok_mono [OF _ less_imp_le [OF n(1)]])
    moreover have "s3_bounded c \<longrightarrow> s3_bounded ?c'" using p(7) o(4) front by (simp add: s3_bounded_def)
    ultimately show ?thesis using True by (auto simp: step_ok_def)
  next
    case False
    let ?c1 = "c\<lparr>q3_s := q', q3_s_len := q3_s_len c - 1, q3_entries := fmdrop k ?es\<rparr>"
    obtain c' where g: "ghost_add k ?c1 = Some c'" "ghost_ok (q3_ghost c') (q3_ghost_q c') (?n + 1)"
      "ghosts (q3_ghost c') (q3_ghost_q c') = spec_ghost (q3_cap c) k (fq_g (s3_abs c))"
      "c' = ?c1\<lparr>q3_next_seq := ?n + 1, q3_ghost := q3_ghost c', q3_ghost_q := q3_ghost_q c'\<rparr>"
      "length (q3_ghost_q c') \<le> 2 * q3_cap c + 8"
      using ghost_add_ok [of ?c1 k] o(3) n(1) by auto
    have sel: "q3_entries c' = fmdrop k ?es" "q3_s c' = q'" "q3_m c' = q3_m c" "q3_next_seq c' = ?n + 1" "q3_s_len c' = q3_s_len c - 1"
      "q3_m_len c' = q3_m_len c" "q3_cap c' = q3_cap c" "q3_s_target c' = q3_s_target c"
      by (subst g(4), simp)+
    have "evict_s c = Some (c', Some True)"
      using p(1-4) False g(1) by (simp add: evict_s_def pop_live_def freq_of_def S_PROMOTE_MIN_FREQ_def Let_def)
    moreover have a: "s3_abs c' = (s3_abs c)\<lparr>fq_s := r, fq_g := spec_ghost (q3_cap c) k (fq_g (s3_abs c))\<rparr>"
      using g(3) p(6) m(2) by (simp add: s3_abs_def sel)
    moreover have "s3_ok B c'" unfolding s3_ok_def a
      using g(2) p(5) m(1) n len o(5) by (simp add: owed_stamps_def sel queue_ok_mono [OF _ less_imp_le [OF n(1)]])
    moreover have "s3_bounded c \<longrightarrow> s3_bounded c'" using p(7) g(5) o(4) front by (simp add: s3_bounded_def sel)
    ultimately show ?thesis using False sel by (auto simp: step_ok_def)
  qed
qed

lemma evict_m_ok:
  assumes ok: "s3_ok B c" and B: "B < 2 ^ 64" and front: "fq_m (s3_abs c) = (k, f) # r"
  shows "\<exists>c'. evict_m c = (c', Some (f = 0)) \<and> step_ok B c c'
    ((s3_abs c)\<lparr>fq_m := (if 0 < f then r @ [(k, f - 1)] else r)\<rparr>)"
proof -
  let ?es = "q3_entries c" and ?n = "q3_next_seq c"
  note o = s3_okD [OF ok]
  have fr: "fifo ?es True (q3_m c) = (k, f) # r" using front by simp
  obtain q' e where p: "pop_live_loop ?es True (q3_m c) = (q', Some k)" "fmlookup ?es k = Some e" "en_freq e = f" "en_in_m e"
    "queue_ok (fmdrop k ?es) True q' ?n" "fifo (fmdrop k ?es) True q' = r" "length q' < length (q3_m c)"
    by (rule queue_ok_pop [OF o(2) fr]) auto
  have s: "queue_ok (fmdrop k ?es) False (q3_s c) ?n" "fifo (fmdrop k ?es) False (q3_s c) = fifo ?es False (q3_s c)"
    using queue_ok_drop [OF o(1)] fifo_drop_other [OF p(2), of False] p(4) by simp_all
  have owed: "unat ?n + length (fq_s (s3_abs c)) + unat f + sum_list (map (unat \<circ> snd) r) \<le> B"
    using o(6) front by (simp add: owed_stamps_def)
  show ?thesis
  proof (cases "0 < f")
    case True
    then have "unat ?n < B" using owed by (simp add: word_less_nat_alt)
    then have n: "?n < ?n + 1" "unat (?n + 1) = Suc (unat ?n)" using fresh_stamp B by blast+
    let ?e = "e\<lparr>en_freq := en_freq e - 1, en_seq := ?n\<rparr>"
    let ?c' = "c\<lparr>q3_m := q' @ [(k, ?n)], q3_next_seq := ?n + 1, q3_entries := fmupd k ?e ?es\<rparr>"
    have "evict_m c = (?c', Some False)"
      using p(1-4) True by (simp add: evict_m_def pop_live_def bump_seq_def freq_of_def Let_def)
    moreover have a: "s3_abs ?c' = (s3_abs c)\<lparr>fq_m := r @ [(k, f - 1)]\<rparr>"
      using queue_ok_push(2) [OF p(5) n(1), of ?e] p(3,4,6) by (simp add: s3_abs_def fifo_upd_other s(2))
    moreover have "s3_ok B ?c'" unfolding s3_ok_def a
      using queue_ok_push(1) [OF p(5) n(1), of ?e] queue_ok_upd_other [OF _ s(1), of ?e] ghost_ok_mono [OF o(3) less_imp_le [OF n(1)]]
        n owed o(4,5) p(4) True fr
      by (simp add: owed_stamps_def queue_ok_mono [OF _ less_imp_le [OF n(1)]] unat_pred word_less_nat_alt)
    moreover have "s3_bounded c \<longrightarrow> s3_bounded ?c'" using p(7) by (simp add: s3_bounded_def)
    ultimately show ?thesis using True by (auto simp: step_ok_def)
  next
    case False
    let ?c' = "c\<lparr>q3_m := q', q3_entries := fmdrop k ?es, q3_m_len := q3_m_len c - 1\<rparr>"
    have "evict_m c = (?c', Some True)"
      using p(1-4) False by (simp add: evict_m_def pop_live_def freq_of_def)
    moreover have a: "s3_abs ?c' = (s3_abs c)\<lparr>fq_m := r\<rparr>" using p(6) s(2) by (simp add: s3_abs_def)
    moreover have "s3_ok B ?c'" unfolding s3_ok_def a
      using p(5) s(1) owed o fr by (simp add: owed_stamps_def)
    moreover have "s3_bounded c \<longrightarrow> s3_bounded ?c'" using p(7) o(5) fr by (simp add: s3_bounded_def)
    ultimately show ?thesis using False word_neq_0_conv [of f] by (auto simp: step_ok_def)
  qed
qed

declare fifo_evict.simps [simp del]

lemma evict_queue_ok:
  assumes ok: "s3_ok B c" and B: "B < 2 ^ 64"
  shows "evict_queue c =
    (if fq_s (s3_abs c) \<noteq> [] \<and> (q3_s_target c \<le> length (fq_s (s3_abs c)) \<or> fq_m (s3_abs c) = [])
     then evict_s c else Some (evict_m c))"
  using s3_okD(4,5) [OF ok] by (simp add: evict_queue_def)

lemma evict_one_ok:
  assumes B: "B < 2 ^ 64"
  shows "s3_ok B c \<Longrightarrow> \<exists>c'. evict_one c = Some c' \<and> step_ok B c c' (fifo_evict (q3_cap c) (q3_s_target c) (s3_abs c))"
proof (induction "q3_cap c" "q3_s_target c" "s3_abs c" arbitrary: c rule: fifo_evict.induct)
  case 1
  let ?l = "s3_abs c" and ?fs = "\<lambda>l. fq_s l \<noteq> [] \<and> (q3_s_target c \<le> length (fq_s l) \<or> fq_m l = [])"
  note q = evict_queue_ok [OF 1(3) B]
  have next_step: "\<exists>c'. evict_one c = Some c' \<and> step_ok B c c' (fifo_evict (q3_cap c) (q3_s_target c) l1)"
    if c1: "evict_queue c = Some (c1, Some False)" "step_ok B c c1 l1"
      and IH: "s3_ok B c1 \<Longrightarrow> \<exists>c'. evict_one c1 = Some c' \<and> step_ok B c1 c' (fifo_evict (q3_cap c1) (q3_s_target c1) (s3_abs c1))"
    for c1 l1
    using IH c1(2) by (subst evict_one.simps) (auto simp: c1(1) step_ok_def)
  show ?case
  proof (cases "?fs ?l")
    case True
    then obtain k f r where s: "fq_s ?l = (k, f) # r" by (cases "fq_s ?l") auto
    then have hd: "(k, f) = hd (fq_s ?l)" by simp
    from evict_s_ok [OF 1(3) B s] obtain c1 where c1: "evict_s c = Some (c1, Some (\<not> 2 \<le> f))" "step_ok B c c1
      (if 2 \<le> f then ?l\<lparr>fq_s := r, fq_m := fq_m ?l @ [(k, 0)]\<rparr> else ?l\<lparr>fq_s := r, fq_g := spec_ghost (q3_cap c) k (fq_g ?l)\<rparr>)"
      by blast
    show ?thesis
    proof (cases "2 \<le> f")
      case f: True
      have e: "fifo_evict (q3_cap c) (q3_s_target c) ?l = fifo_evict (q3_cap c) (q3_s_target c) (?l\<lparr>fq_s := r, fq_m := fq_m ?l @ [(k, 0)]\<rparr>)"
        using True s f by (subst fifo_evict.simps) simp
      have IH: "s3_ok B c1 \<Longrightarrow> \<exists>c'. evict_one c1 = Some c' \<and> step_ok B c1 c' (fifo_evict (q3_cap c1) (q3_s_target c1) (s3_abs c1))"
        by (rule 1(1) [OF True refl hd refl f]) (use s c1(2) f in \<open>auto simp: step_ok_def\<close>)
      show ?thesis unfolding e by (rule next_step [OF _ _ IH]) (use q True c1 f in auto)
    next
      case f: False
      have "fifo_evict (q3_cap c) (q3_s_target c) ?l = ?l\<lparr>fq_s := r, fq_g := spec_ghost (q3_cap c) k (fq_g ?l)\<rparr>"
        using True s f by (subst fifo_evict.simps) simp
      then show ?thesis using q True c1 f by (subst evict_one.simps) simp
    qed
  next
    case False
    show ?thesis
    proof (cases "fq_m ?l")
      case Nil
      have "evict_m c = (c\<lparr>q3_m := []\<rparr>, None)"
        using Nil pop_live_none [of "q3_entries c" True "q3_m c"] by (simp add: evict_m_def pop_live_def)
      moreover have "step_ok B c (c\<lparr>q3_m := []\<rparr>) ?l"
        using 1(3) Nil fifo_keys_iff [OF s3_okD(2) [OF 1(3)]]
        by (auto simp: step_ok_def s3_ok_def s3_abs_def queue_ok_def s3_bounded_def) (auto simp: fifo_def)
      moreover have "fifo_evict (q3_cap c) (q3_s_target c) ?l = ?l" using False Nil by (subst fifo_evict.simps) auto
      ultimately show ?thesis using q False by (subst evict_one.simps) auto
    next
      case (Cons p r)
      obtain k f where p: "p = (k, f)" by force
      from evict_m_ok [OF 1(3) B Cons [unfolded p]] obtain c1 where c1: "evict_m c = (c1, Some (f = 0))" "step_ok B c c1
        (?l\<lparr>fq_m := (if 0 < f then r @ [(k, f - 1)] else r)\<rparr>)" by blast
      show ?thesis
      proof (cases "0 < f")
        case f: True
        have e: "fifo_evict (q3_cap c) (q3_s_target c) ?l = fifo_evict (q3_cap c) (q3_s_target c) (?l\<lparr>fq_m := r @ [(k, f - 1)]\<rparr>)"
          using False Cons p f by (subst fifo_evict.simps) auto
        have IH: "s3_ok B c1 \<Longrightarrow> \<exists>c'. evict_one c1 = Some c' \<and> step_ok B c1 c' (fifo_evict (q3_cap c1) (q3_s_target c1) (s3_abs c1))"
          by (rule 1(2) [OF False Cons p [symmetric] f]) (use c1(2) f in \<open>auto simp: step_ok_def\<close>)
        show ?thesis unfolding e by (rule next_step [OF _ _ IH]) (use q False c1 f word_neq_0_conv [of f] in auto)
      next
        case f: False
        have "fifo_evict (q3_cap c) (q3_s_target c) ?l = ?l\<lparr>fq_m := r\<rparr>"
          using False Cons p f by (subst fifo_evict.simps) auto
        then show ?thesis using q False c1 f word_neq_0_conv [of f] by (subst evict_one.simps) auto
      qed
    qed
  qed
qed

section \<open>The invariant of the queues\<close>

definition fifo_size :: "fifo_lists \<Rightarrow> nat" where
  "fifo_size l = length (fq_s l) + length (fq_m l)"

definition fifo_inv :: "nat \<Rightarrow> fifo_lists \<Rightarrow> bool" where
  "fifo_inv cap l \<longleftrightarrow> distinct (map fst (fq_s l) @ map fst (fq_m l)) \<and> distinct (fq_g l) \<and> length (fq_g l) \<le> cap
     \<and> set (fq_g l) \<inter> fifo_keys l = {} \<and> list_all (\<lambda>p. snd p \<le> 3) (fq_s l @ fq_m l)"

lemma spec_ghost_facts:
  assumes "distinct g"
  shows "distinct (spec_ghost cap k g)" "set (spec_ghost cap k g) \<subseteq> insert k (set g)" "length (spec_ghost cap k g) \<le> cap"
proof -
  have "distinct (filter (\<lambda>x. x \<noteq> k) g @ [k])" using assms by auto
  then show "distinct (spec_ghost cap k g)" unfolding spec_ghost_def Let_def by (rule distinct_drop)
  show "set (spec_ghost cap k g) \<subseteq> insert k (set g)" by (auto simp: spec_ghost_def Let_def dest: in_set_dropD)
qed (auto simp: spec_ghost_def Let_def)

text \<open>Eviction frees exactly one place and brings in no key.\<close>

definition evict_ok :: "nat \<Rightarrow> fifo_lists \<Rightarrow> fifo_lists \<Rightarrow> bool" where
  "evict_ok cap l l' \<longleftrightarrow> fifo_inv cap l' \<and> fifo_size l' = fifo_size l - 1 \<and> fifo_keys l' \<subseteq> fifo_keys l"

lemma evict_ok_step:
  "evict_ok cap l1 l2 \<Longrightarrow> fifo_size l1 = fifo_size l \<Longrightarrow> fifo_keys l1 = fifo_keys l \<Longrightarrow> evict_ok cap l l2"
  by (simp add: evict_ok_def)

lemma word_pred_le: "(f :: u8) \<le> 3 \<Longrightarrow> 0 < f \<Longrightarrow> f - 1 \<le> 3"
  by (simp add: word_le_nat_alt unat_pred)

lemma fifo_evict_inv: "fifo_inv cap l \<Longrightarrow> evict_ok cap l (fifo_evict cap target l)"
proof (induction cap target l rule: fifo_evict.induct)
  case (1 cap target l)
  show ?case
  proof (cases "fq_s l \<noteq> [] \<and> (target \<le> length (fq_s l) \<or> fq_m l = [])")
    case True
    then obtain k f r where s: "fq_s l = (k, f) # r" by (cases "fq_s l") auto
    then have hd: "(k, f) = hd (fq_s l)" by simp
    show ?thesis
    proof (cases "2 \<le> f")
      case f: True
      have e: "fifo_evict cap target l = fifo_evict cap target (l\<lparr>fq_s := r, fq_m := fq_m l @ [(k, 0)]\<rparr>)"
        using True s f by (subst fifo_evict.simps) simp
      have "fifo_inv cap (l\<lparr>fq_s := tl (fq_s l), fq_m := fq_m l @ [(k, 0)]\<rparr>)"
        using 1(3) s by (auto simp: fifo_inv_def fifo_keys_def)
      from evict_ok_step [OF 1(1) [OF True refl hd refl f this], of l] show ?thesis
        unfolding e using s by (simp add: fifo_size_def fifo_keys_def)
    next
      case f: False
      have "fifo_evict cap target l = l\<lparr>fq_s := r, fq_g := spec_ghost cap k (fq_g l)\<rparr>"
        using True s f by (subst fifo_evict.simps) simp
      moreover have d: "distinct (fq_g l)" "set (fq_g l) \<inter> (fst ` set r \<union> fst ` set (fq_m l)) = {}"
          "k \<notin> fst ` set r \<union> fst ` set (fq_m l)"
        using 1(3) s by (auto simp: fifo_inv_def fifo_keys_def)
      have "set (spec_ghost cap k (fq_g l)) \<inter> (fst ` set r \<union> fst ` set (fq_m l)) = {}"
        using spec_ghost_facts(2) [OF d(1), of cap k] d(2,3) by blast
      ultimately show ?thesis using 1(3) s spec_ghost_facts(1,3) [OF d(1), of cap k]
        by (simp add: evict_ok_def fifo_inv_def fifo_keys_def fifo_size_def) blast
    qed
  next
    case False
    show ?thesis
    proof (cases "fq_m l")
      case Nil
      have "fifo_evict cap target l = l" using False Nil by (subst fifo_evict.simps) auto
      then show ?thesis using 1(3) Nil False by (auto simp: evict_ok_def fifo_size_def)
    next
      case (Cons p r)
      obtain k f where p: "p = (k, f)" by force
      show ?thesis
      proof (cases "0 < f")
        case f: True
        have e: "fifo_evict cap target l = fifo_evict cap target (l\<lparr>fq_m := r @ [(k, f - 1)]\<rparr>)"
          using False Cons p f by (subst fifo_evict.simps) auto
        have "fifo_inv cap (l\<lparr>fq_m := r @ [(k, f - 1)]\<rparr>)"
          using 1(3) Cons p word_pred_le [of f] f by (auto simp: fifo_inv_def fifo_keys_def)
        from evict_ok_step [OF 1(2) [OF False Cons p [symmetric] f this], of l] show ?thesis
          unfolding e using Cons p by (simp add: fifo_size_def fifo_keys_def)
      next
        case f: False
        have "fifo_evict cap target l = l\<lparr>fq_m := r\<rparr>" using False Cons p f by (subst fifo_evict.simps) auto
        then show ?thesis using 1(3) Cons p by (auto simp: evict_ok_def fifo_inv_def fifo_keys_def fifo_size_def)
      qed
    qed
  qed
qed

lemma map_fst_fifo_hit [simp]: "map fst (fifo_hit k xs) = map fst xs"
  by (induction xs) (auto simp: fifo_hit_def)

lemma fst_set_fifo_hit [simp]: "fst ` set (fifo_hit k xs) = fst ` set xs"
  by (metis map_fst_fifo_hit list.set_map)

lemma length_fifo_hit [simp]: "length (fifo_hit k xs) = length xs"
  by (simp add: fifo_hit_def)

lemma fifo_access_inv:
  assumes inv: "fifo_inv cap l" and size: "fifo_size l \<le> cap" and cap: "1 \<le> cap" and r: "fifo_access cap target k l = (r, hit)"
  shows "fifo_inv cap r \<and> fifo_size r \<le> cap \<and> hit = (k \<in> fifo_keys l) \<and> k \<in> fifo_keys r \<and> fifo_keys r \<subseteq> insert k (fifo_keys l)
    \<and> (k \<in> fifo_keys l \<or> fifo_size l < cap \<longrightarrow> fifo_keys l \<subseteq> fifo_keys r)"
proof (cases "k \<in> fifo_keys l")
  case True
  then have e: "r = l\<lparr>fq_s := fifo_hit k (fq_s l), fq_m := fifo_hit k (fq_m l)\<rparr>" "hit" using r by (auto simp: fifo_access_def)
  have "list_all (\<lambda>p. snd p \<le> 3) (fifo_hit k xs)" if "list_all (\<lambda>p. snd p \<le> 3) xs" for xs
    using that by (auto simp: fifo_hit_def list_all_iff min_def)
  then have "fifo_inv cap r" using inv by (simp add: e fifo_inv_def fifo_keys_def)
  moreover have "fifo_keys r = fifo_keys l" by (simp add: e fifo_keys_def)
  ultimately show ?thesis using size True e by (auto simp: fifo_size_def)
next
  case False
  obtain l1 where l1: "l1 = (if cap \<le> fifo_size l then fifo_evict cap target l else l)" by blast
  have f: "fifo_inv cap l1" "fifo_size l1 < cap" "fifo_keys l1 \<subseteq> fifo_keys l" "fifo_size l < cap \<longrightarrow> l1 = l"
    using fifo_evict_inv [OF inv, of target] inv size cap by (auto simp: l1 evict_ok_def)
  have "(r, hit) = (if k \<in> set (fq_g l1) then (l1\<lparr>fq_g := filter (\<lambda>x. x \<noteq> k) (fq_g l1), fq_m := fq_m l1 @ [(k, 0)]\<rparr>, False)
        else (l1\<lparr>fq_s := fq_s l1 @ [(k, 0)]\<rparr>, False))"
    using False by (simp only: r [symmetric] fifo_access_def Let_def l1 fifo_size_def if_False)
  moreover have "k \<notin> fifo_keys l1" using f(3) False by blast
  moreover have "length (filter (\<lambda>x. x \<noteq> k) (fq_g l1)) \<le> cap"
    using f(1) length_filter_le [of "\<lambda>x. x \<noteq> k" "fq_g l1"] unfolding fifo_inv_def by linarith
  ultimately show ?thesis using f False
    by (cases "k \<in> set (fq_g l1)") (auto simp: fifo_inv_def fifo_keys_def fifo_size_def)
qed

section \<open>The cache meets the contract\<close>

definition s3_valid :: "nat \<Rightarrow> s3fifo \<Rightarrow> bool" where
  "s3_valid n c \<longleftrightarrow> s3_ok (2 * n) c \<and> fifo_inv (q3_cap c) (s3_abs c) \<and> fifo_size (s3_abs c) \<le> q3_cap c \<and> 1 \<le> q3_cap c
     \<and> s3_bounded c"

definition s3_held :: "s3fifo \<Rightarrow> string set" where
  "s3_held c = fifo_keys (s3_abs c)"

lemma s3_ok_mono: "s3_ok B c \<Longrightarrow> B \<le> B' \<Longrightarrow> s3_ok B' c"
  by (auto simp: s3_ok_def)

lemma s3_size: "s3_ok B c \<Longrightarrow> q3_s_len c + q3_m_len c = fifo_size (s3_abs c)"
  by (simp add: s3_ok_def fifo_size_def)

lemma s3_held_iff: "s3_ok B c \<Longrightarrow> k \<in> s3_held c \<longleftrightarrow> fmlookup (q3_entries c) k \<noteq> None"
  using fifo_keys_iff [OF s3_okD(1), of B c k] fifo_keys_iff [OF s3_okD(2), of B c k]
  by (auto simp: s3_held_def fifo_keys_def)

lemma make_space_ok:
  assumes v: "s3_valid n c" and n: "2 * n < 2 ^ 64"
  shows "\<exists>c'. make_space c = Some c' \<and> step_ok (2 * n) c c'
    (if q3_cap c \<le> fifo_size (s3_abs c) then fifo_evict (q3_cap c) (q3_s_target c) (s3_abs c) else s3_abs c)"
proof (cases "q3_cap c \<le> fifo_size (s3_abs c)")
  case False
  then show ?thesis using v s3_size [of "2 * n" c] by (subst make_space.simps) (auto simp: s3_valid_def step_ok_def)
next
  case True
  have ok: "s3_ok (2 * n) c" "fifo_inv (q3_cap c) (s3_abs c)" "fifo_size (s3_abs c) \<le> q3_cap c" "1 \<le> q3_cap c"
    using v by (simp_all add: s3_valid_def)
  from evict_one_ok [OF n ok(1)] obtain c' where
    c': "evict_one c = Some c'" "step_ok (2 * n) c c' (fifo_evict (q3_cap c) (q3_s_target c) (s3_abs c))" by blast
  have "fifo_size (s3_abs c') < q3_cap c'"
    using fifo_evict_inv [OF ok(2), of "q3_s_target c"] c'(2) ok(3,4) by (auto simp: evict_ok_def step_ok_def)
  then have "make_space c' = Some c'"
    using s3_size [of "2 * n" c'] c'(2) by (subst make_space.simps) (auto simp: step_ok_def)
  then show ?thesis using c' True s3_size [OF ok(1)] by (subst make_space.simps) auto
qed

text \<open>A new entry gets a fresh stamp, in the main queue when its fingerprint is known.\<close>

lemma s3_insert_ok:
  assumes v: "s3_valid n c" and n: "2 * n + 2 < 2 ^ 64" and k: "k \<notin> s3_held c"
  shows "\<exists>c'. s3_insert k c = Some c' \<and> s3_ok (2 * n + 2) c' \<and> q3_cap c' = q3_cap c \<and> q3_s_target c' = q3_s_target c
    \<and> (s3_bounded c \<longrightarrow> s3_bounded c') \<and> (s3_abs c', False) = fifo_access (q3_cap c) (q3_s_target c) k (s3_abs c)"
proof -
  let ?l = "if q3_cap c \<le> fifo_size (s3_abs c) then fifo_evict (q3_cap c) (q3_s_target c) (s3_abs c) else s3_abs c"
  have "2 * n < 2 ^ 64" using n by linarith
  from make_space_ok [OF v this] obtain c1 where c1: "make_space c = Some c1" "step_ok (2 * n) c c1 ?l" by blast
  then have ok: "s3_ok (2 * n) c1" "s3_abs c1 = ?l" "q3_cap c1 = q3_cap c" "q3_s_target c1 = q3_s_target c"
    "s3_bounded c \<longrightarrow> s3_bounded c1" by (auto simp: step_ok_def)
  note o = s3_okD [OF ok(1)]
  let ?es = "q3_entries c1" and ?n = "q3_next_seq c1"
  have "fifo_keys ?l \<subseteq> fifo_keys (s3_abs c)"
    using fifo_evict_inv [of "q3_cap c" "s3_abs c" "q3_s_target c"] v by (auto simp: s3_valid_def evict_ok_def)
  then have none: "fmlookup ?es k = None" using s3_held_iff [OF ok(1), of k] k ok(2) by (auto simp: s3_held_def)
  then have drop: "fmdrop k ?es = ?es" by (intro fmap_ext) auto
  have "unat ?n < 2 * n + 2" using o(6) by linarith
  then have fr: "?n < ?n + 1" "unat (?n + 1) = Suc (unat ?n)" using fresh_stamp n by blast+
  note push = queue_ok_push [where es = ?es and k = k and n = ?n, unfolded drop, OF _ fr(1)]
  note other = queue_ok_mono [OF queue_ok_upd_other [where es = ?es and k = k and n = ?n, unfolded drop] less_imp_le [OF fr(1)]]
    fifo_upd_other [where es = ?es and k = k, unfolded drop]
  have acc: "fifo_access (q3_cap c) (q3_s_target c) k (s3_abs c) = (if k \<in> set (fq_g ?l)
      then (?l\<lparr>fq_g := filter (\<lambda>x. x \<noteq> k) (fq_g ?l), fq_m := fq_m ?l @ [(k, 0)]\<rparr>, False)
      else (?l\<lparr>fq_s := fq_s ?l @ [(k, 0)]\<rparr>, False))"
    using k by (simp add: fifo_access_def s3_held_def fifo_size_def Let_def)
  have g: "(fmlookup (q3_ghost c1) k \<noteq> None) = (k \<in> set (fq_g ?l))"
    using ghosts_mem [OF o(3), of k] ok(2) [symmetric] by simp
  show ?thesis
  proof (cases "fmlookup (q3_ghost c1) k = None")
    case True
    let ?e = "\<lparr>en_freq = 0, en_in_m = False, en_seq = ?n\<rparr>"
    let ?c' = "c1\<lparr>q3_next_seq := ?n + 1, q3_entries := fmupd k ?e ?es, q3_s := q3_s c1 @ [(k, ?n)], q3_s_len := q3_s_len c1 + 1\<rparr>"
    have "s3_insert k c = Some ?c'" using True by (simp add: s3_insert_def c1(1) bump_seq_def Let_def)
    moreover have a: "s3_abs ?c' = (s3_abs c1)\<lparr>fq_s := fq_s (s3_abs c1) @ [(k, 0)]\<rparr>"
      using push(2) [OF o(1), of ?e] other(2) [of ?e True] by (simp add: s3_abs_def)
    moreover have "s3_ok (2 * n + 2) ?c'" unfolding s3_ok_def a
      using push(1) [OF o(1), of ?e] other(1) [of ?e True, OF _ o(2)] ghost_ok_mono [OF o(3) less_imp_le [OF fr(1)]] o(4-6) fr(2)
      by (simp add: owed_stamps_def)
    moreover have "s3_bounded c \<longrightarrow> s3_bounded ?c'" using ok(5) by (auto simp: s3_bounded_def)
    ultimately show ?thesis using True g ok(2-4) unfolding acc by (intro exI [of _ ?c']) simp
  next
    case False
    let ?e = "\<lparr>en_freq = 0, en_in_m = True, en_seq = ?n\<rparr>"
    let ?c' = "c1\<lparr>q3_next_seq := ?n + 1, q3_ghost := fmdrop k (q3_ghost c1), q3_entries := fmupd k ?e ?es,
      q3_m := q3_m c1 @ [(k, ?n)], q3_m_len := q3_m_len c1 + 1\<rparr>"
    have "s3_insert k c = Some ?c'" using False by (simp add: s3_insert_def c1(1) bump_seq_def Let_def)
    moreover have a: "s3_abs ?c' = (s3_abs c1)\<lparr>fq_g := filter (\<lambda>x. x \<noteq> k) (fq_g (s3_abs c1)), fq_m := fq_m (s3_abs c1) @ [(k, 0)]\<rparr>"
      using push(2) [OF o(2), of ?e] other(2) [of ?e False] by (simp add: s3_abs_def ghosts_drop)
    moreover have "s3_ok (2 * n + 2) ?c'" unfolding s3_ok_def a
      using push(1) [OF o(2), of ?e] other(1) [of ?e False, OF _ o(1)] ghost_ok_mono [OF ghost_ok_drop [OF o(3)] less_imp_le [OF fr(1)]]
        o(4-6) fr(2) by (simp add: owed_stamps_def)
    moreover have "s3_bounded c \<longrightarrow> s3_bounded ?c'" using ok(5) by (auto simp: s3_bounded_def)
    ultimately show ?thesis using False g ok(2-4) unfolding acc by (intro exI [of _ ?c']) simp
  qed
qed

lemma fifo_upd_same:
  assumes "fmlookup es k = Some e" "en_in_m e' = en_in_m e" "en_seq e' = en_seq e" "en_freq e' = min (en_freq e + 1) 3"
  shows "fifo (fmupd k e' es) b q = fifo_hit k (fifo es b q)" "queue_ok es b q n \<Longrightarrow> queue_ok (fmupd k e' es) b q n"
proof -
  have l: "slot_live (fmupd k e' es) b = slot_live es b"
    using assms by (auto simp: slot_live_def fun_eq_iff split: option.split)
  show "fifo (fmupd k e' es) b q = fifo_hit k (fifo es b q)" using assms by (auto simp: fifo_def fifo_hit_def l)
  show "queue_ok es b q n \<Longrightarrow> queue_ok (fmupd k e' es) b q n" using assms by (auto simp: queue_ok_def)
qed

lemma count_fifo_hit:
  "distinct (map fst xs) \<Longrightarrow> sum_list (map (unat \<circ> snd) (fifo_hit k xs)) \<le> Suc (sum_list (map (unat \<circ> snd) xs))"
proof (induction xs)
  case (Cons p xs)
  have m: "unat (min (f + 1) (3 :: u8)) \<le> Suc (unat f)" for f :: u8
  proof -
    have "unat (min (f + 1) 3) \<le> unat (f + 1)" by (simp add: word_le_nat_alt [symmetric])
    also have "\<dots> \<le> Suc (unat f)" by (simp add: unat_word_ariths)
    finally show ?thesis .
  qed
  have "fifo_hit k xs = xs" if "k \<notin> fst ` set xs" using that by (force simp: fifo_hit_def intro: map_idI)
  then show ?case using Cons m [of "snd p"] by (cases "fst p = k") (auto simp: fifo_hit_def)
qed (simp add: fifo_hit_def)

lemma s3_hit_ok:
  assumes ok: "s3_ok B c" and e: "fmlookup (q3_entries c) k = Some e"
  shows "\<exists>c'. s3_access k c = Some (c', True) \<and> s3_ok (Suc B) c' \<and> q3_cap c' = q3_cap c \<and> q3_s_target c' = q3_s_target c
    \<and> (s3_bounded c \<longrightarrow> s3_bounded c') \<and> (s3_abs c', True) = fifo_access (q3_cap c) (q3_s_target c) k (s3_abs c)"
proof -
  let ?e = "e\<lparr>en_freq := min (en_freq e + 1) FREQ_MAX\<rparr>"
  let ?c' = "c\<lparr>q3_entries := fmupd k ?e (q3_entries c)\<rparr>"
  note o = s3_okD [OF ok]
  have s: "fifo (fmupd k ?e (q3_entries c)) b q = fifo_hit k (fifo (q3_entries c) b q)"
      "queue_ok (q3_entries c) b q n \<Longrightarrow> queue_ok (fmupd k ?e (q3_entries c)) b q n" for b q n
    using fifo_upd_same [OF e, of ?e] by (simp_all add: FREQ_MAX_def)
  have a: "s3_abs ?c' = (s3_abs c)\<lparr>fq_s := fifo_hit k (fq_s (s3_abs c)), fq_m := fifo_hit k (fq_m (s3_abs c))\<rparr>"
    by (simp add: s3_abs_def s)
  have "distinct (map fst (fq_m (s3_abs c)))" using o(2) by (simp add: distinct_fifo queue_ok_def)
  from count_fifo_hit [OF this, of k] have "s3_ok (Suc B) ?c'"
    unfolding s3_ok_def a using s(2) [OF o(1)] s(2) [OF o(2)] o(3-6) by (simp add: owed_stamps_def)
  moreover have "k \<in> fifo_keys (s3_abs c)" using s3_held_iff [OF ok, of k] e by (simp add: s3_held_def)
  ultimately show ?thesis using e by (intro exI [of _ ?c']) (simp add: s3_access_def fifo_access_def a s3_bounded_def)
qed

lemma s3_access_ok:
  assumes v: "s3_valid n c" and n: "2 * n + 2 < 2 ^ 64"
  shows "\<exists>c' hit. s3_access k c = Some (c', hit) \<and> s3_valid (Suc n) c' \<and> q3_cap c' = q3_cap c \<and> q3_s_target c' = q3_s_target c
    \<and> fifo_access (q3_cap c) (q3_s_target c) k (s3_abs c) = (s3_abs c', hit)"
proof -
  have o: "s3_ok (2 * n) c" "fifo_inv (q3_cap c) (s3_abs c)" "fifo_size (s3_abs c) \<le> q3_cap c" "1 \<le> q3_cap c"
    "s3_bounded c" using v by (simp_all add: s3_valid_def)
  have "\<exists>c' hit. s3_access k c = Some (c', hit) \<and> s3_ok (2 * n + 2) c' \<and> q3_cap c' = q3_cap c \<and> q3_s_target c' = q3_s_target c
    \<and> s3_bounded c' \<and> (s3_abs c', hit) = fifo_access (q3_cap c) (q3_s_target c) k (s3_abs c)"
  proof (cases "fmlookup (q3_entries c) k")
    case None
    then have "k \<notin> s3_held c" using s3_held_iff [OF o(1)] by simp
    from s3_insert_ok [OF v n this] None o(5) show ?thesis by (auto simp: s3_access_def)
  next
    case (Some e)
    from s3_hit_ok [OF o(1) this] obtain c' where c': "s3_access k c = Some (c', True)" "s3_ok (Suc (2 * n)) c'"
      "q3_cap c' = q3_cap c" "q3_s_target c' = q3_s_target c"
      "s3_bounded c'" "(s3_abs c', True) = fifo_access (q3_cap c) (q3_s_target c) k (s3_abs c)" using o(5) by blast
    then show ?thesis by (intro exI [of _ c'] exI [of _ True]) (auto intro: s3_ok_mono)
  qed
  then obtain c' hit where c': "s3_access k c = Some (c', hit)" "s3_ok (2 * n + 2) c'" "q3_cap c' = q3_cap c" "q3_s_target c' = q3_s_target c"
    "fifo_access (q3_cap c) (q3_s_target c) k (s3_abs c) = (s3_abs c', hit)" "s3_bounded c'" by metis
  from fifo_access_inv [OF o(2-4) c'(5)] show ?thesis using c' o(4) by (auto simp: s3_valid_def)
qed

text \<open>Compaction keeps exactly the live slots: it changes neither the queues nor the invariant.\<close>

lemma maybe_compact_ok:
  assumes "s3_ok B c"
  shows "s3_abs (maybe_compact c) = s3_abs c" "s3_ok B (maybe_compact c)" "q3_cap (maybe_compact c) = q3_cap c"
    "q3_s_target (maybe_compact c) = q3_s_target c"
proof -
  show a: "s3_abs (maybe_compact c) = s3_abs c"
    by (auto simp: maybe_compact_def compact_ghost_q_def Let_def s3_abs_def fifo_filter ghosts_filter)
  show "s3_ok B (maybe_compact c)" unfolding s3_ok_def a
    using s3_okD [OF assms] by (auto simp: maybe_compact_def compact_ghost_q_def Let_def queue_ok_filter ghost_ok_filter)
qed (auto simp: maybe_compact_def compact_ghost_q_def Let_def)

text \<open>Afterwards each queue has at most as many stale slots as live ones, and eight more.\<close>

lemma maybe_compact_bounds:
  assumes "s3_ok B c"
  shows "length (q3_s (maybe_compact c)) \<le> 2 * q3_s_len c + 8" "length (q3_m (maybe_compact c)) \<le> 2 * q3_m_len c + 8"
    "q3_s_len (maybe_compact c) = q3_s_len c" "q3_m_len (maybe_compact c) = q3_m_len c"
    "length (q3_ghost_q (maybe_compact c)) \<le> length (q3_ghost_q c)"
  using s3_okD(4,5) [OF assms] by (auto simp: maybe_compact_def compact_ghost_q_def Let_def fifo_def)

lemma owed_without: "sum_list (map (unat \<circ> snd) (without_key k xs)) \<le> sum_list (map (unat \<circ> snd) xs)"
  by (induction xs) (auto simp: without_key_def)

lemma owed_invalidate: "owed_stamps (fifo_invalidate k l) \<le> owed_stamps l"
  unfolding owed_stamps_def fifo_invalidate_def fifo_lists.simps
  by (intro add_mono owed_without) (simp add: without_key_def)

lemma length_without_key: "distinct (map fst xs) \<Longrightarrow>
    length (without_key k xs) = (if k \<in> fst ` set xs then length xs - 1 else length xs)"
proof (induction xs)
  case (Cons p xs)
  then show ?case using without_key_id [of k xs] by (auto simp: dest: length_pos_if_in_set)
qed (simp add: without_key_def)

lemma s3_invalidate_ok:
  assumes ok: "s3_ok B c"
  shows "s3_abs (s3_invalidate k c) = fifo_invalidate k (s3_abs c)" "s3_ok B (s3_invalidate k c)"
    "q3_cap (s3_invalidate k c) = q3_cap c" "q3_s_target (s3_invalidate k c) = q3_s_target c"
    "s3_bounded c \<Longrightarrow> fifo_size (s3_abs c) \<le> q3_cap c \<Longrightarrow> s3_bounded (s3_invalidate k c)"
proof -
  note o = s3_okD [OF ok]
  let ?c1 = "(case fmlookup (q3_entries c) k of None \<Rightarrow> c
               | Some e \<Rightarrow>
                   let c = c\<lparr>q3_entries := fmdrop k (q3_entries c)\<rparr> in
                   if en_in_m e then c\<lparr>q3_m_len := q3_m_len c - 1\<rparr> else c\<lparr>q3_s_len := q3_s_len c - 1\<rparr>)"
  let ?c2 = "?c1\<lparr>q3_ghost := fmdrop k (q3_ghost ?c1)\<rparr>"
  have e: "s3_invalidate k c = maybe_compact ?c2" by (simp add: s3_invalidate_def Let_def)
  have es: "q3_entries ?c1 = fmdrop k (q3_entries c)"
    by (auto simp: Let_def split: option.split intro!: fmap_ext)
  have sel: "q3_s ?c1 = q3_s c" "q3_m ?c1 = q3_m c" "q3_ghost ?c1 = q3_ghost c" "q3_ghost_q ?c1 = q3_ghost_q c"
    "q3_next_seq ?c1 = q3_next_seq c" "q3_cap ?c1 = q3_cap c" "q3_s_target ?c1 = q3_s_target c"
    by (simp_all add: Let_def split: option.split)
  have a: "s3_abs ?c2 = fifo_invalidate k (s3_abs c)"
    by (simp add: s3_abs_def es sel fifo_drop ghosts_drop fifo_invalidate_def)
  have d: "distinct (map fst (fq_s (s3_abs c)))" "distinct (map fst (fq_m (s3_abs c)))"
    using o(1,2) by (simp_all add: distinct_fifo queue_ok_def)
  have "q3_s_len ?c1 = length (without_key k (fq_s (s3_abs c)))" "q3_m_len ?c1 = length (without_key k (fq_m (s3_abs c)))"
    using o(4,5) d fifo_keys_iff [OF o(1), of k] fifo_keys_iff [OF o(2), of k]
    by (auto simp: length_without_key Let_def split: option.split)
  then have ok2: "s3_ok B ?c2" unfolding s3_ok_def a
    using queue_ok_drop [OF o(1), of k] queue_ok_drop [OF o(2), of k] ghost_ok_drop [OF o(3), of k]
      order_trans [OF add_left_mono [OF owed_invalidate [of k "s3_abs c"]] o(6)]
    by (simp add: es sel fifo_invalidate_def)
  show "s3_abs (s3_invalidate k c) = fifo_invalidate k (s3_abs c)" "s3_ok B (s3_invalidate k c)"
    "q3_cap (s3_invalidate k c) = q3_cap c" "q3_s_target (s3_invalidate k c) = q3_s_target c"
    unfolding e using maybe_compact_ok [OF ok2] a sel by simp_all
  assume b: "s3_bounded c" "fifo_size (s3_abs c) \<le> q3_cap c"
  have "q3_s_len ?c2 \<le> q3_cap c" "q3_m_len ?c2 \<le> q3_cap c"
    using s3_okD(4,5) [OF ok] b(2) by (auto simp: fifo_size_def Let_def split: option.split)
  then show "s3_bounded (s3_invalidate k c)"
    unfolding e s3_bounded_def using maybe_compact_bounds [OF ok2] maybe_compact_ok(3) [OF ok2] b(1) sel(4,6)
    by (simp add: s3_bounded_def)
qed

lemma s3_invalidate_valid:
  assumes v: "s3_valid n c"
  shows "s3_valid n (s3_invalidate k c)"
proof -
  have o: "s3_ok (2 * n) c" "fifo_inv (q3_cap c) (s3_abs c)" "fifo_size (s3_abs c) \<le> q3_cap c" "1 \<le> q3_cap c" "s3_bounded c"
    using v by (simp_all add: s3_valid_def)
  have w: "length (without_key k xs) \<le> length xs" for xs :: "(string \<times> u8) list" by (simp add: without_key_def)
  have d: "distinct (map fst (without_key k xs))" if "distinct (map fst xs)" for xs :: "(string \<times> u8) list"
    using that by (simp add: without_key_def distinct_map_filter)
  have "length (filter (\<lambda>x. x \<noteq> k) (fq_g (s3_abs c))) \<le> q3_cap c"
    using o(2) length_filter_le [of "\<lambda>x. x \<noteq> k" "fq_g (s3_abs c)"] unfolding fifo_inv_def by linarith
  then have "fifo_inv (q3_cap c) (fifo_invalidate k (s3_abs c))"
    using o(2) d [of "fq_s (s3_abs c)"] d [of "fq_m (s3_abs c)"]
    by (auto simp: fifo_inv_def fifo_invalidate_def fifo_keys_def without_key_def list_all_iff simp del: s3_abs_sel)
  moreover have "fifo_size (fifo_invalidate k (s3_abs c)) \<le> q3_cap c"
    using o(3) w [of "fq_s (s3_abs c)"] w [of "fq_m (s3_abs c)"] unfolding fifo_size_def fifo_invalidate_def by simp
  ultimately show ?thesis using s3_invalidate_ok [OF o(1), of k] o(3-5) by (simp add: s3_valid_def)
qed

lemma s3_held_invalidate: "s3_ok B c \<Longrightarrow> s3_held (s3_invalidate k c) = s3_held c - {k}"
  by (auto simp: s3_held_def s3_invalidate_ok fifo_invalidate_def fifo_keys_def without_key_def simp del: s3_abs_sel)

lemma s3_held_card: "s3_valid n c \<Longrightarrow> finite (s3_held c) \<and> card (s3_held c) = fifo_size (s3_abs c)"
proof -
  assume "s3_valid n c"
  then have d: "distinct (map fst (fq_s (s3_abs c)) @ map fst (fq_m (s3_abs c)))" by (simp add: s3_valid_def fifo_inv_def)
  have "s3_held c = set (map fst (fq_s (s3_abs c)) @ map fst (fq_m (s3_abs c)))" by (auto simp: s3_held_def fifo_keys_def simp del: s3_abs_sel)
  with distinct_card [OF d] show ?thesis by (simp add: fifo_size_def)
qed

lemma s3_step_ok:
  assumes v: "s3_valid n c" and n: "n < 2 ^ 63 - 1"
  shows "\<exists>c'. s3_access k c = Some (c', k \<in> s3_held c) \<and> s3_valid (Suc n) c' \<and> q3_cap c' = q3_cap c
      \<and> k \<in> s3_held c' \<and> s3_held c' \<subseteq> insert k (s3_held c)
      \<and> (k \<in> s3_held c \<or> card (s3_held c) < q3_cap c \<longrightarrow> s3_held c \<subseteq> s3_held c')"
proof -
  from n have "2 * n + 2 < 2 ^ 64" by simp
  from s3_access_ok [OF v this] obtain c' hit where c': "s3_access k c = Some (c', hit)" "s3_valid (Suc n) c'" "q3_cap c' = q3_cap c"
    "fifo_access (q3_cap c) (q3_s_target c) k (s3_abs c) = (s3_abs c', hit)" by blast
  have "fifo_inv (q3_cap c) (s3_abs c)" "fifo_size (s3_abs c) \<le> q3_cap c" "1 \<le> q3_cap c" using v by (simp_all add: s3_valid_def)
  from fifo_access_inv [OF this c'(4)] s3_held_card [OF v] c'
  show "\<exists>c'. s3_access k c = Some (c', k \<in> s3_held c) \<and> s3_valid (Suc n) c' \<and> q3_cap c' = q3_cap c
      \<and> k \<in> s3_held c' \<and> s3_held c' \<subseteq> insert k (s3_held c)
      \<and> (k \<in> s3_held c \<or> card (s3_held c) < q3_cap c \<longrightarrow> s3_held c \<subseteq> s3_held c')"
    by (intro exI [of _ c']) (simp add: s3_held_def)
qed

interpretation s3: demand_cache s3_access s3_invalidate s3_held q3_cap s3_valid "2 ^ 63 - 1"
proof unfold_locales
  fix n c k assume "s3_valid n c" and "n < 2 ^ 63 - 1"
  from s3_step_ok [OF this, of k]
  show "\<exists>c'. s3_access k c = Some (c', k \<in> s3_held c) \<and> s3_valid (Suc n) c' \<and> q3_cap c' = q3_cap c
      \<and> s3_held c' \<subseteq> insert k (s3_held c)" by blast
next
  fix n c k c' hit assume "s3_valid n c" and "n < 2 ^ 63 - 1" and "s3_access k c = Some (c', hit)"
  then show "k \<in> s3_held c' \<and> (k \<in> s3_held c \<or> card (s3_held c) < q3_cap c \<longrightarrow> s3_held c \<subseteq> s3_held c')"
    using s3_step_ok [of n c k] by auto
next
  fix n c k assume v: "s3_valid n c"
  then have "s3_ok (2 * n) c" by (simp add: s3_valid_def)
  then show "s3_valid n (s3_invalidate k c) \<and> s3_held (s3_invalidate k c) = s3_held c - {k} \<and> q3_cap (s3_invalidate k c) = q3_cap c"
    using s3_invalidate_valid [OF v] s3_held_invalidate s3_invalidate_ok(3) by blast
next
  fix n c assume "s3_valid n c"
  then show "finite (s3_held c) \<and> card (s3_held c) \<le> q3_cap c"
    using s3_held_card [of n c] by (simp add: s3_valid_def)
qed

section \<open>Properties\<close>

fun s3_run :: "cache_op list \<Rightarrow> s3fifo \<Rightarrow> (s3fifo \<times> bool list) option" where
  "s3_run [] c = Some (c, [])"
| "s3_run (Access k # ops) c = (case s3_access k c of None \<Rightarrow> None
     | Some (c1, hit) \<Rightarrow> map_option (\<lambda>(c2, hits). (c2, hit # hits)) (s3_run ops c1))"
| "s3_run (Invalidate k # ops) c = s3_run ops (s3_invalidate k c)"

fun fifo_run :: "nat \<Rightarrow> nat \<Rightarrow> cache_op list \<Rightarrow> fifo_lists \<Rightarrow> fifo_lists \<times> bool list" where
  "fifo_run cap target [] l = (l, [])"
| "fifo_run cap target (Access k # ops) l =
    (let (l1, hit) = fifo_access cap target k l; (l2, hits) = fifo_run cap target ops l1 in (l2, hit # hits))"
| "fifo_run cap target (Invalidate k # ops) l = fifo_run cap target ops (fifo_invalidate k l)"

lemma s3_valid_mono: "s3_valid n c \<Longrightarrow> n \<le> m \<Longrightarrow> s3_valid m c"
  by (auto simp: s3_valid_def intro: s3_ok_mono)

lemma s3_run_refines:
  "s3_valid n c \<Longrightarrow> n + length ops < 2 ^ 63 \<Longrightarrow> \<exists>c' hits. s3_run ops c = Some (c', hits)
    \<and> fifo_run (q3_cap c) (q3_s_target c) ops (s3_abs c) = (s3_abs c', hits) \<and> s3_valid (n + length ops) c'
    \<and> q3_cap c' = q3_cap c"
proof (induction ops arbitrary: n c)
  case (Cons op ops)
  show ?case
  proof (cases op)
    case (Access k)
    have "2 * n + 2 < 2 ^ 64" using Cons.prems(2) by simp
    from s3_access_ok [OF Cons.prems(1) this, of k] obtain c1 hit where c1: "s3_access k c = Some (c1, hit)" "s3_valid (Suc n) c1"
      "q3_cap c1 = q3_cap c" "q3_s_target c1 = q3_s_target c" "fifo_access (q3_cap c) (q3_s_target c) k (s3_abs c) = (s3_abs c1, hit)"
      by blast
    from Cons.IH [OF c1(2)] Cons.prems(2) show ?thesis by (auto simp: Access c1)
  next
    case (Invalidate k)
    have "s3_ok (2 * n) c" using Cons.prems(1) by (simp add: s3_valid_def)
    note i = s3_invalidate_ok [OF this, of k]
    have "n + length ops < 2 ^ 63" using Cons.prems(2) by simp
    from Cons.IH [OF s3_invalidate_valid [OF Cons.prems(1), of k] this] show ?thesis
      by (auto simp: Invalidate i elim!: s3_valid_mono)
  qed
qed simp

text \<open>C3: the cache is three plain queues. Every run of accesses and invalidations returns, with the hits of
  the textbook algorithm on plain queues: no stamp, no stale slot, no compaction. So lazy deletion
  never resurrects a slot, and compaction, whenever it runs, changes no decision. The cache holds at
  most its capacity of objects and as many fingerprints, no object is in two places, no counter
  passes 3, and with its stale slots no queue passes twice the capacity and 8.\<close>

theorem s3fifo_implements_queues:
  assumes "length ops < 2 ^ 63"
  shows "\<exists>c hits. s3_run ops (s3_new tenth cap) = Some (c, hits)
    \<and> fifo_run (max cap 1) (max (tenth (max cap 1)) 1) ops \<lparr>fq_s = [], fq_m = [], fq_g = []\<rparr> = (s3_abs c, hits)
    \<and> s3_resident c \<le> max cap 1 \<and> fmlen (q3_ghost c) \<le> max cap 1
    \<and> distinct (map fst (fq_s (s3_abs c)) @ map fst (fq_m (s3_abs c)) @ fq_g (s3_abs c))
    \<and> list_all (\<lambda>p. snd p \<le> 3) (fq_s (s3_abs c) @ fq_m (s3_abs c))
    \<and> length (q3_s c) \<le> 2 * max cap 1 + 8 \<and> length (q3_m c) \<le> 2 * max cap 1 + 8 \<and> length (q3_ghost_q c) \<le> 2 * max cap 1 + 8"
proof -
  let ?n = "s3_new tenth cap"
  have new: "s3_abs ?n = \<lparr>fq_s = [], fq_m = [], fq_g = []\<rparr>" "q3_cap ?n = max cap 1" "q3_s_target ?n = max (tenth (max cap 1)) 1"
    by (simp_all add: s3_new_def Let_def s3_abs_def fifo_def ghosts_def)
  have "s3_valid 0 ?n" unfolding s3_valid_def s3_ok_def new
    by (simp add: s3_new_def Let_def queue_ok_def ghost_ok_def owed_stamps_def fifo_inv_def fifo_keys_def fifo_size_def s3_bounded_def)
  from s3_run_refines [OF this, of ops] assms obtain c hits where c: "s3_run ops ?n = Some (c, hits)"
    "fifo_run (max cap 1) (max (tenth (max cap 1)) 1) ops \<lparr>fq_s = [], fq_m = [], fq_g = []\<rparr> = (s3_abs c, hits)"
    "s3_valid (length ops) c" "q3_cap c = max cap 1" by (auto simp: new)
  have ok: "s3_ok (2 * length ops) c" "fifo_inv (max cap 1) (s3_abs c)" "fifo_size (s3_abs c) \<le> max cap 1" "s3_bounded c"
    using c(3) by (simp_all add: s3_valid_def c(4))
  have "fmlen (q3_ghost c) \<le> max cap 1" using ok(2) length_ghosts [OF s3_okD(3) [OF ok(1)]] by (simp add: fifo_inv_def)
  moreover have "distinct (map fst (fq_s (s3_abs c)) @ map fst (fq_m (s3_abs c)) @ fq_g (s3_abs c))"
    using ok(2) by (auto simp: fifo_inv_def fifo_keys_def simp del: s3_abs_sel)
  moreover have "s3_resident c \<le> max cap 1" "q3_s_len c \<le> max cap 1" "q3_m_len c \<le> max cap 1"
    using ok(3) s3_size [OF ok(1)] by (simp_all add: s3_resident_def)
  ultimately show ?thesis using c ok(2,4) unfolding s3_bounded_def c(4) fifo_inv_def
    by (intro exI [of _ c] exI [of _ hits]) (simp del: s3_abs_sel)
qed

lemma s3fifo_implements_queues_witness:
  "\<exists>c. s3_run [Access ''a'', Access ''a'', Access ''b'', Access ''c'', Access ''a'', Invalidate ''a'', Access ''a''] (s3_new (\<lambda>_. 0) 2)
      = Some (c, [False, True, False, False, False, False]) \<and> s3_resident c \<le> 2"
proof -
  let ?ops = "[Access ''a'', Access ''a'', Access ''b'', Access ''c'', Access ''a'', Invalidate ''a'', Access ''a'']"
  have r: "snd (fifo_run 2 1 ?ops \<lparr>fq_s = [], fq_m = [], fq_g = []\<rparr>) = [False, True, False, False, False, False]" by code_simp
  have len: "length ?ops < 2 ^ 63" and m: "max 2 1 = (2 :: nat)" "max 0 1 = (1 :: nat)" by simp_all
  from s3fifo_implements_queues [OF len, of "\<lambda>_. 0" 2, unfolded m] obtain c hits where
    "s3_run ?ops (s3_new (\<lambda>_. 0) 2) = Some (c, hits)" "fifo_run 2 1 ?ops \<lparr>fq_s = [], fq_m = [], fq_g = []\<rparr> = (s3_abs c, hits)"
    "s3_resident c \<le> 2" by blast
  with r show ?thesis by (intro exI [of _ c]) simp
qed

end
