(* ===== verification/ArcCache.thy ===== *)
theory ArcCache
  imports LruList Belady
begin

text \<open>
  The adaptive replacement cache of \<open>crates/s3tap-replay/src/arc.rs\<close>. Sizes are \<open>usize\<close> counts of
  what is in memory and are modelled as natural numbers; the stamps of the lists stay 64-bit.
\<close>

section \<open>The cache\<close>

record arc =
  ar_c :: nat
  ar_p :: nat
  ar_t1 :: lru_list
  ar_t2 :: lru_list
  ar_b1 :: lru_list
  ar_b2 :: lru_list

definition arc_new :: "nat \<Rightarrow> arc" where
  "arc_new c = \<lparr>ar_c = max c 1, ar_p = 0, ar_t1 = lru_empty, ar_t2 = lru_empty, ar_b1 = lru_empty, ar_b2 = lru_empty\<rparr>"

definition ratio_at_least_one :: "nat \<Rightarrow> nat \<Rightarrow> nat" where
  "ratio_at_least_one a b = max (if b = 0 then 1 else a div b) 1"

definition arc_resident :: "arc \<Rightarrow> nat" where
  "arc_resident a = lru_len (ar_t1 a) + lru_len (ar_t2 a)"

definition arc_replace :: "string \<Rightarrow> arc \<Rightarrow> arc" where
  "arc_replace incoming a =
    (let t1_over = ar_p a < lru_len (ar_t1 a);
         boundary = (lru_len (ar_t1 a) = ar_p a \<and> lru_contains incoming (ar_b2 a))
     in if 1 \<le> lru_len (ar_t1 a) \<and> (t1_over \<or> boundary)
        then (case lru_pop (ar_t1 a) of
                (t1, Some k) \<Rightarrow> a\<lparr>ar_t1 := t1, ar_b1 := lru_touch k (ar_b1 a)\<rparr>
              | (t1, None) \<Rightarrow> a\<lparr>ar_t1 := t1\<rparr>)
        else (case lru_pop (ar_t2 a) of
                (t2, Some k) \<Rightarrow> a\<lparr>ar_t2 := t2, ar_b2 := lru_touch k (ar_b2 a)\<rparr>
              | (t2, None) \<Rightarrow> a\<lparr>ar_t2 := t2\<rparr>))"

definition arc_evict_if_full :: "string \<Rightarrow> arc \<Rightarrow> arc" where
  "arc_evict_if_full incoming a = (if ar_c a \<le> arc_resident a then arc_replace incoming a else a)"

text \<open>What a full miss does before the key enters \<open>T1\<close>.\<close>

definition arc_make_room :: "string \<Rightarrow> arc \<Rightarrow> arc" where
  "arc_make_room key a =
    (let l1 = lru_len (ar_t1 a) + lru_len (ar_b1 a);
         total = lru_len (ar_t1 a) + lru_len (ar_t2 a) + lru_len (ar_b1 a) + lru_len (ar_b2 a)
     in if ar_c a \<le> arc_resident a then
          (if l1 = ar_c a then
             (if lru_len (ar_t1 a) < ar_c a
              then arc_replace key (a\<lparr>ar_b1 := fst (lru_pop (ar_b1 a))\<rparr>)
              else a\<lparr>ar_t1 := fst (lru_pop (ar_t1 a))\<rparr>)
           else if ar_c a \<le> total then
             arc_replace key (if total = 2 * ar_c a then a\<lparr>ar_b2 := fst (lru_pop (ar_b2 a))\<rparr> else a)
           else a)
        else
          (if l1 = ar_c a then a\<lparr>ar_b1 := fst (lru_pop (ar_b1 a))\<rparr>
           else if total = 2 * ar_c a then a\<lparr>ar_b2 := fst (lru_pop (ar_b2 a))\<rparr>
           else a))"

definition arc_access :: "string \<Rightarrow> arc \<Rightarrow> arc \<times> bool" where
  "arc_access key a =
    (if lru_contains key (ar_t1 a) \<or> lru_contains key (ar_t2 a) then
       (a\<lparr>ar_t1 := fst (lru_remove key (ar_t1 a)), ar_t2 := lru_touch key (ar_t2 a)\<rparr>, True)
     else if lru_contains key (ar_b1 a) then
       (let delta = ratio_at_least_one (lru_len (ar_b2 a)) (lru_len (ar_b1 a));
            a1 = arc_evict_if_full key (a\<lparr>ar_p := min (ar_p a + delta) (ar_c a)\<rparr>)
        in (a1\<lparr>ar_b1 := fst (lru_remove key (ar_b1 a1)), ar_t2 := lru_touch key (ar_t2 a1)\<rparr>, False))
     else if lru_contains key (ar_b2 a) then
       (let delta = ratio_at_least_one (lru_len (ar_b1 a)) (lru_len (ar_b2 a));
            a1 = arc_evict_if_full key (a\<lparr>ar_p := ar_p a - delta\<rparr>)
        in (a1\<lparr>ar_b2 := fst (lru_remove key (ar_b2 a1)), ar_t2 := lru_touch key (ar_t2 a1)\<rparr>, False))
     else
       (let a1 = arc_make_room key a in (a1\<lparr>ar_t1 := lru_touch key (ar_t1 a1)\<rparr>, False)))"

definition arc_invalidate :: "string \<Rightarrow> arc \<Rightarrow> arc" where
  "arc_invalidate key a =
    a\<lparr>ar_t1 := fst (lru_remove key (ar_t1 a)), ar_t2 := fst (lru_remove key (ar_t2 a)),
      ar_b1 := fst (lru_remove key (ar_b1 a)), ar_b2 := fst (lru_remove key (ar_b2 a))\<rparr>"

section \<open>The four lists\<close>

text \<open>The abstract cache: the four lists as key sequences, least recently used first.\<close>

record arc_lists =
  al_p :: nat
  al_t1 :: "string list"
  al_t2 :: "string list"
  al_b1 :: "string list"
  al_b2 :: "string list"

definition arc_abs :: "arc \<Rightarrow> arc_lists" where
  "arc_abs a = \<lparr>al_p = ar_p a, al_t1 = lru_keys (ar_t1 a), al_t2 = lru_keys (ar_t2 a),
     al_b1 = lru_keys (ar_b1 a), al_b2 = lru_keys (ar_b2 a)\<rparr>"

definition without :: "string \<Rightarrow> string list \<Rightarrow> string list" where
  "without k xs = filter (\<lambda>x. x \<noteq> k) xs"

definition demote1 :: "arc_lists \<Rightarrow> arc_lists" where
  "demote1 l = (case al_t1 l of [] \<Rightarrow> l | k # ks \<Rightarrow> l\<lparr>al_t1 := ks, al_b1 := without k (al_b1 l) @ [k]\<rparr>)"

definition demote2 :: "arc_lists \<Rightarrow> arc_lists" where
  "demote2 l = (case al_t2 l of [] \<Rightarrow> l | k # ks \<Rightarrow> l\<lparr>al_t2 := ks, al_b2 := without k (al_b2 l) @ [k]\<rparr>)"

definition spec_replace :: "string \<Rightarrow> arc_lists \<Rightarrow> arc_lists" where
  "spec_replace x l =
    (if al_t1 l \<noteq> [] \<and> (al_p l < length (al_t1 l) \<or> length (al_t1 l) = al_p l \<and> x \<in> set (al_b2 l))
     then demote1 l else demote2 l)"

definition spec_make_room :: "nat \<Rightarrow> string \<Rightarrow> arc_lists \<Rightarrow> arc_lists" where
  "spec_make_room c x l =
    (let l1 = length (al_t1 l) + length (al_b1 l);
         total = l1 + length (al_t2 l) + length (al_b2 l)
     in if c \<le> length (al_t1 l) + length (al_t2 l) then
          (if l1 = c then
             (if length (al_t1 l) < c then spec_replace x (l\<lparr>al_b1 := tl (al_b1 l)\<rparr>) else l\<lparr>al_t1 := tl (al_t1 l)\<rparr>)
           else if c \<le> total then spec_replace x (if total = 2 * c then l\<lparr>al_b2 := tl (al_b2 l)\<rparr> else l)
           else l)
        else if l1 = c then l\<lparr>al_b1 := tl (al_b1 l)\<rparr>
        else if total = 2 * c then l\<lparr>al_b2 := tl (al_b2 l)\<rparr>
        else l)"

definition spec_evict :: "nat \<Rightarrow> string \<Rightarrow> arc_lists \<Rightarrow> arc_lists" where
  "spec_evict c x l = (if c \<le> length (al_t1 l) + length (al_t2 l) then spec_replace x l else l)"

definition spec_access :: "nat \<Rightarrow> string \<Rightarrow> arc_lists \<Rightarrow> arc_lists \<times> bool" where
  "spec_access c x l =
    (if x \<in> set (al_t1 l) \<union> set (al_t2 l) then
       (l\<lparr>al_t1 := without x (al_t1 l), al_t2 := without x (al_t2 l) @ [x]\<rparr>, True)
     else if x \<in> set (al_b1 l) then
       (let l1 = spec_evict c x (l\<lparr>al_p := min (al_p l + ratio_at_least_one (length (al_b2 l)) (length (al_b1 l))) c\<rparr>)
        in (l1\<lparr>al_b1 := without x (al_b1 l1), al_t2 := without x (al_t2 l1) @ [x]\<rparr>, False))
     else if x \<in> set (al_b2 l) then
       (let l1 = spec_evict c x (l\<lparr>al_p := al_p l - ratio_at_least_one (length (al_b1 l)) (length (al_b2 l))\<rparr>)
        in (l1\<lparr>al_b2 := without x (al_b2 l1), al_t2 := without x (al_t2 l1) @ [x]\<rparr>, False))
     else
       (let l1 = spec_make_room c x l in (l1\<lparr>al_t1 := without x (al_t1 l1) @ [x]\<rparr>, False)))"

section \<open>The cache implements the lists\<close>

text \<open>The lists are consistent; the stamps of the residents are at most \<open>n\<close>, those of the ghosts at most \<open>m\<close>.\<close>

definition arc_ok :: "nat \<Rightarrow> nat \<Rightarrow> arc \<Rightarrow> bool" where
  "arc_ok n m a \<longleftrightarrow> lru_ok (ar_t1 a) \<and> lru_ok (ar_t2 a) \<and> lru_ok (ar_b1 a) \<and> lru_ok (ar_b2 a)
     \<and> unat (ll_next (ar_t1 a)) \<le> n \<and> unat (ll_next (ar_t2 a)) \<le> n
     \<and> unat (ll_next (ar_b1 a)) \<le> m \<and> unat (ll_next (ar_b2 a)) \<le> m"

named_theorems arc_simps

lemma arc_abs_sel [simp]:
  "al_p (arc_abs a) = ar_p a" "al_t1 (arc_abs a) = lru_keys (ar_t1 a)" "al_t2 (arc_abs a) = lru_keys (ar_t2 a)"
  "al_b1 (arc_abs a) = lru_keys (ar_b1 a)" "al_b2 (arc_abs a) = lru_keys (ar_b2 a)"
  by (simp_all add: arc_abs_def)

lemma arc_abs_eqI:
  "ar_p a = al_p l \<Longrightarrow> lru_keys (ar_t1 a) = al_t1 l \<Longrightarrow> lru_keys (ar_t2 a) = al_t2 l \<Longrightarrow>
    lru_keys (ar_b1 a) = al_b1 l \<Longrightarrow> lru_keys (ar_b2 a) = al_b2 l \<Longrightarrow> arc_abs a = l"
  by (simp add: arc_abs_def)

lemma arc_okD:
  assumes "arc_ok n m a"
  shows "lru_ok (ar_t1 a)" "lru_ok (ar_t2 a)" "lru_ok (ar_b1 a)" "lru_ok (ar_b2 a)"
    "unat (ll_next (ar_t1 a)) \<le> n" "unat (ll_next (ar_t2 a)) \<le> n"
    "unat (ll_next (ar_b1 a)) \<le> m" "unat (ll_next (ar_b2 a)) \<le> m"
  using assms by (simp_all add: arc_ok_def)

lemma arc_ok_contains:
  assumes "arc_ok n m a"
  shows "lru_contains k (ar_t1 a) = (k \<in> set (lru_keys (ar_t1 a)))" "lru_contains k (ar_t2 a) = (k \<in> set (lru_keys (ar_t2 a)))"
    "lru_contains k (ar_b1 a) = (k \<in> set (lru_keys (ar_b1 a)))" "lru_contains k (ar_b2 a) = (k \<in> set (lru_keys (ar_b2 a)))"
    "lru_len (ar_t1 a) = length (lru_keys (ar_t1 a))" "lru_len (ar_t2 a) = length (lru_keys (ar_t2 a))"
    "lru_len (ar_b1 a) = length (lru_keys (ar_b1 a))" "lru_len (ar_b2 a) = length (lru_keys (ar_b2 a))"
  by (simp_all add: lru_contains_def lru_keys_mem lru_len_keys arc_okD [OF assms])

lemma arc_replace_refines:
  assumes ok: "arc_ok n m a" and room: "m + 1 < 2 ^ 64"
  shows "arc_abs (arc_replace x a) = spec_replace x (arc_abs a) \<and> arc_ok n (Suc m) (arc_replace x a)
    \<and> ar_c (arc_replace x a) = ar_c a"
proof -
  note o = arc_okD [OF ok]
  have pop: "lru_pop l = (fst (lru_pop l), case lru_keys l of [] \<Rightarrow> None | k # _ \<Rightarrow> Some k)" if "lru_ok l" for l
    using lru_pop_ok(3) [OF that] by (metis prod.collapse)
  have r: "unat (ll_next (ar_b1 a)) + 1 < 2 ^ 64" "unat (ll_next (ar_b2 a)) + 1 < 2 ^ 64"
    using o(7,8) room by linarith+
  let ?l = "arc_abs a"
  let ?cond = "al_t1 ?l \<noteq> [] \<and> (al_p ?l < length (al_t1 ?l) \<or> length (al_t1 ?l) = al_p ?l \<and> x \<in> set (al_b2 ?l))"
  have c: "(1 \<le> lru_len (ar_t1 a) \<and> (ar_p a < lru_len (ar_t1 a) \<or> (lru_len (ar_t1 a) = ar_p a \<and> lru_contains x (ar_b2 a)))) = ?cond"
    by (auto simp: arc_ok_contains [OF ok] Suc_le_eq)
  show ?thesis
  proof (cases ?cond)
    case True
    then obtain k ks where k: "lru_keys (ar_t1 a) = k # ks" by (auto simp: neq_Nil_conv)
    obtain t where t: "lru_pop (ar_t1 a) = (t, Some k)" using pop [OF o(1)] k by simp
    have e: "arc_replace x a = a\<lparr>ar_t1 := fst (lru_pop (ar_t1 a)), ar_b1 := lru_touch k (ar_b1 a)\<rparr>"
      unfolding arc_replace_def Let_def using True by (simp only: c if_True) (simp add: t)
    have s: "spec_replace x ?l = demote1 ?l" using True unfolding spec_replace_def by (rule if_P)
    show ?thesis unfolding s e
      using o lru_pop_ok [OF o(1)] lru_touch_ok [OF o(3) r(1)] k
      by (auto simp: demote1_def without_def arc_ok_def intro!: arc_abs_eqI)
  next
    case False
    have s: "spec_replace x ?l = demote2 ?l" using False unfolding spec_replace_def by (rule if_not_P)
    have e: "arc_replace x a = (case lru_pop (ar_t2 a) of (t2, Some k) \<Rightarrow> a\<lparr>ar_t2 := t2, ar_b2 := lru_touch k (ar_b2 a)\<rparr>
              | (t2, None) \<Rightarrow> a\<lparr>ar_t2 := t2\<rparr>)"
      unfolding arc_replace_def Let_def using False by (simp only: c if_False)
    show ?thesis unfolding s e
      using o lru_pop_ok [OF o(2)] lru_touch_ok [OF o(4) r(2)]
      by (subst (1 2 3) pop [OF o(2)]) (auto simp: demote2_def without_def arc_ok_def split: list.splits intro!: arc_abs_eqI)
  qed
qed

lemma arc_evict_if_full_refines:
  assumes ok: "arc_ok n m a" and room: "m + 1 < 2 ^ 64"
  shows "arc_abs (arc_evict_if_full x a) = spec_evict (ar_c a) x (arc_abs a)
    \<and> arc_ok n (Suc m) (arc_evict_if_full x a) \<and> ar_c (arc_evict_if_full x a) = ar_c a"
  using arc_replace_refines [OF ok room] ok
  by (auto simp: arc_evict_if_full_def spec_evict_def arc_resident_def arc_ok_contains [OF ok] arc_ok_def)

lemma arc_pop_refines:
  assumes ok: "arc_ok n m a"
  shows "arc_abs (a\<lparr>ar_b1 := fst (lru_pop (ar_b1 a))\<rparr>) = (arc_abs a)\<lparr>al_b1 := tl (al_b1 (arc_abs a))\<rparr>"
    "arc_abs (a\<lparr>ar_b2 := fst (lru_pop (ar_b2 a))\<rparr>) = (arc_abs a)\<lparr>al_b2 := tl (al_b2 (arc_abs a))\<rparr>"
    "arc_abs (a\<lparr>ar_t1 := fst (lru_pop (ar_t1 a))\<rparr>) = (arc_abs a)\<lparr>al_t1 := tl (al_t1 (arc_abs a))\<rparr>"
    "arc_ok n m (a\<lparr>ar_b1 := fst (lru_pop (ar_b1 a))\<rparr>)" "arc_ok n m (a\<lparr>ar_b2 := fst (lru_pop (ar_b2 a))\<rparr>)"
    "arc_ok n m (a\<lparr>ar_t1 := fst (lru_pop (ar_t1 a))\<rparr>)"
  using arc_okD [OF ok] lru_pop_ok [of "ar_b1 a"] lru_pop_ok [of "ar_b2 a"] lru_pop_ok [of "ar_t1 a"]
  by (auto simp: arc_ok_def intro!: arc_abs_eqI)

lemma arc_ok_mono: "arc_ok n m a \<Longrightarrow> n \<le> n' \<Longrightarrow> m \<le> m' \<Longrightarrow> arc_ok n' m' a"
  by (auto simp: arc_ok_def)

lemma arc_make_room_refines:
  assumes ok: "arc_ok n m a" and room: "m + 1 < 2 ^ 64"
  shows "arc_abs (arc_make_room x a) = spec_make_room (ar_c a) x (arc_abs a)
    \<and> arc_ok n (Suc m) (arc_make_room x a) \<and> ar_c (arc_make_room x a) = ar_c a"
  using arc_pop_refines [OF ok] arc_replace_refines [OF arc_pop_refines(4) [OF ok] room, of x]
    arc_replace_refines [OF arc_pop_refines(5) [OF ok] room, of x] arc_replace_refines [OF ok room, of x]
    arc_ok_mono [OF ok, of n "Suc m"] arc_ok_mono [OF arc_pop_refines(4) [OF ok], of n "Suc m"]
    arc_ok_mono [OF arc_pop_refines(5) [OF ok], of n "Suc m"] arc_ok_mono [OF arc_pop_refines(6) [OF ok], of n "Suc m"]
  by (simp add: arc_make_room_def spec_make_room_def arc_resident_def Let_def arc_ok_contains [OF ok] ac_simps)

text \<open>The last step of an access moves the key into \<open>T1\<close> or \<open>T2\<close>.\<close>

lemma arc_promote_refines:
  assumes ok: "arc_ok n m a" and room: "n + 1 < 2 ^ 64"
  shows "arc_abs (a\<lparr>ar_t1 := lru_touch x (ar_t1 a)\<rparr>) = (arc_abs a)\<lparr>al_t1 := without x (al_t1 (arc_abs a)) @ [x]\<rparr>"
    "arc_abs (a\<lparr>ar_t1 := fst (lru_remove x (ar_t1 a)), ar_t2 := lru_touch x (ar_t2 a)\<rparr>)
      = (arc_abs a)\<lparr>al_t1 := without x (al_t1 (arc_abs a)), al_t2 := without x (al_t2 (arc_abs a)) @ [x]\<rparr>"
    "arc_abs (a\<lparr>ar_b1 := fst (lru_remove x (ar_b1 a)), ar_t2 := lru_touch x (ar_t2 a)\<rparr>)
      = (arc_abs a)\<lparr>al_b1 := without x (al_b1 (arc_abs a)), al_t2 := without x (al_t2 (arc_abs a)) @ [x]\<rparr>"
    "arc_abs (a\<lparr>ar_b2 := fst (lru_remove x (ar_b2 a)), ar_t2 := lru_touch x (ar_t2 a)\<rparr>)
      = (arc_abs a)\<lparr>al_b2 := without x (al_b2 (arc_abs a)), al_t2 := without x (al_t2 (arc_abs a)) @ [x]\<rparr>"
    "arc_ok (Suc n) m (a\<lparr>ar_t1 := lru_touch x (ar_t1 a)\<rparr>)"
    "arc_ok (Suc n) m (a\<lparr>ar_t1 := fst (lru_remove x (ar_t1 a)), ar_t2 := lru_touch x (ar_t2 a)\<rparr>)"
    "arc_ok (Suc n) m (a\<lparr>ar_b1 := fst (lru_remove x (ar_b1 a)), ar_t2 := lru_touch x (ar_t2 a)\<rparr>)"
    "arc_ok (Suc n) m (a\<lparr>ar_b2 := fst (lru_remove x (ar_b2 a)), ar_t2 := lru_touch x (ar_t2 a)\<rparr>)"
  using arc_okD [OF ok] lru_touch_within [OF arc_okD(1,5) [OF ok] room, of x]
    lru_touch_within [OF arc_okD(2,6) [OF ok] room, of x]
  by (simp_all add: arc_abs_def arc_ok_def without_def lru_remove_ok le_SucI)

lemma arc_access_refines:
  assumes ok: "arc_ok n m a" and room: "n + 1 < 2 ^ 64" "m + 1 < 2 ^ 64"
  shows "arc_abs (fst (arc_access x a)) = fst (spec_access (ar_c a) x (arc_abs a))
    \<and> snd (arc_access x a) = snd (spec_access (ar_c a) x (arc_abs a))
    \<and> arc_ok (Suc n) (Suc m) (fst (arc_access x a)) \<and> ar_c (fst (arc_access x a)) = ar_c a"
proof -
  have setp: "arc_ok n m (a\<lparr>ar_p := p\<rparr>)" "arc_abs (a\<lparr>ar_p := p\<rparr>) = (arc_abs a)\<lparr>al_p := p\<rparr>" for p
    using ok by (simp_all add: arc_ok_def arc_abs_def)
  note ev = arc_evict_if_full_refines [OF setp(1) room(2)] and mr = arc_make_room_refines [OF ok room(2)]
  note pr = arc_promote_refines [OF _ room(1)]
  let ?p1 = "min (ar_p a + ratio_at_least_one (lru_len (ar_b2 a)) (lru_len (ar_b1 a))) (ar_c a)"
  let ?p2 = "ar_p a - ratio_at_least_one (lru_len (ar_b1 a)) (lru_len (ar_b2 a))"
  show ?thesis
    using pr [OF ok] arc_ok_mono [OF pr(6) [OF ok], of "Suc n" "Suc m"]
      ev [of x ?p1] ev [of x ?p2] mr [of x]
      pr [of "Suc m" "arc_evict_if_full x (a\<lparr>ar_p := ?p1\<rparr>)" x] pr [of "Suc m" "arc_evict_if_full x (a\<lparr>ar_p := ?p2\<rparr>)" x]
      pr [of "Suc m" "arc_make_room x a" x]
    by (simp add: arc_access_def spec_access_def Let_def setp arc_ok_contains [OF ok])
qed

section \<open>The invariant of the lists\<close>

definition al_held :: "arc_lists \<Rightarrow> string set" where
  "al_held l = set (al_t1 l) \<union> set (al_t2 l)"

definition arc_inv :: "nat \<Rightarrow> arc_lists \<Rightarrow> bool" where
  "arc_inv c l \<longleftrightarrow> distinct (al_t1 l @ al_t2 l @ al_b1 l @ al_b2 l)
     \<and> length (al_t1 l) + length (al_t2 l) \<le> c \<and> length (al_t1 l) + length (al_b1 l) \<le> c
     \<and> length (al_t1 l) + length (al_t2 l) + length (al_b1 l) + length (al_b2 l) \<le> 2 * c \<and> al_p l \<le> c"

lemma without_id: "k \<notin> set xs \<Longrightarrow> without k xs = xs"
  by (auto simp: without_def filter_id_conv)

lemma in_set_tl: "x \<in> set (tl xs) \<Longrightarrow> x \<in> set xs"
  by (cases xs) auto

lemma set_without [simp]: "set (without k xs) = set xs - {k}"
  by (auto simp: without_def)

lemma distinct_without [simp]: "distinct xs \<Longrightarrow> distinct (without k xs)"
  by (simp add: without_def)

lemma length_without: "distinct xs \<Longrightarrow> length (without k xs) = (if k \<in> set xs then length xs - 1 else length xs)"
  by (induction xs) (auto simp: without_def filter_id_conv dest: length_pos_if_in_set)

text \<open>What replacing moves: the least recent key of \<open>T1\<close> to the end of \<open>B1\<close>, or that of \<open>T2\<close> to the end of \<open>B2\<close>.\<close>

lemma spec_replace_moves:
  assumes d: "distinct (al_t1 l @ al_t2 l @ al_b1 l @ al_b2 l)"
    and live: "al_t2 l \<noteq> [] \<or> (al_t1 l \<noteq> [] \<and> (al_p l < length (al_t1 l) \<or> length (al_t1 l) = al_p l \<and> x \<in> set (al_b2 l)))"
  obtains (one) k where "al_t1 l = k # al_t1 (spec_replace x l)" "al_b1 (spec_replace x l) = al_b1 l @ [k]"
      "al_t2 (spec_replace x l) = al_t2 l" "al_b2 (spec_replace x l) = al_b2 l" "al_p (spec_replace x l) = al_p l"
    | (two) k where "al_t2 l = k # al_t2 (spec_replace x l)" "al_b2 (spec_replace x l) = al_b2 l @ [k]"
      "al_t1 (spec_replace x l) = al_t1 l" "al_b1 (spec_replace x l) = al_b1 l" "al_p (spec_replace x l) = al_p l"
proof (cases "al_t1 l \<noteq> [] \<and> (al_p l < length (al_t1 l) \<or> length (al_t1 l) = al_p l \<and> x \<in> set (al_b2 l))")
  case True
  then obtain k ks where k: "al_t1 l = k # ks" by (auto simp: neq_Nil_conv)
  have r: "spec_replace x l = demote1 l" using True unfolding spec_replace_def by (rule if_P)
  from d k have "without k (al_b1 l) = al_b1 l" by (intro without_id) auto
  then show ?thesis by (intro one [of k]) (simp_all add: r demote1_def k)
next
  case False
  then obtain k ks where k: "al_t2 l = k # ks" using live by (cases "al_t2 l") auto
  have r: "spec_replace x l = demote2 l" using False unfolding spec_replace_def by (rule if_not_P)
  from d k have "without k (al_b2 l) = al_b2 l" by (intro without_id) auto
  then show ?thesis by (intro two [of k]) (simp_all add: r demote2_def k)
qed

lemma spec_replace_effect:
  assumes d: "distinct (al_t1 l @ al_t2 l @ al_b1 l @ al_b2 l)"
    and live: "al_t2 l \<noteq> [] \<or> (al_t1 l \<noteq> [] \<and> (al_p l < length (al_t1 l) \<or> length (al_t1 l) = al_p l \<and> x \<in> set (al_b2 l)))"
    and r: "r = spec_replace x l"
  shows "distinct (al_t1 r @ al_t2 r @ al_b1 r @ al_b2 r)
    \<and> Suc (length (al_t1 r) + length (al_t2 r)) = length (al_t1 l) + length (al_t2 l)
    \<and> length (al_t1 r) + length (al_b1 r) = length (al_t1 l) + length (al_b1 l)
    \<and> length (al_t2 r) + length (al_b2 r) = length (al_t2 l) + length (al_b2 l)
    \<and> al_p r = al_p l \<and> al_held r \<subseteq> al_held l
    \<and> al_held r \<union> set (al_b1 r) \<union> set (al_b2 r) = al_held l \<union> set (al_b1 l) \<union> set (al_b2 l)
    \<and> (\<forall>y. y \<notin> al_held l \<longrightarrow> (y \<in> set (al_b1 r)) = (y \<in> set (al_b1 l)) \<and> (y \<in> set (al_b2 r)) = (y \<in> set (al_b2 l)))"
  by (rule spec_replace_moves [OF d live]) (use d in \<open>auto simp: r al_held_def\<close>)

text \<open>Room for one more resident: what the last step of an access needs.\<close>

definition has_room :: "nat \<Rightarrow> arc_lists \<Rightarrow> arc_lists \<Rightarrow> bool" where
  "has_room c l0 l \<longleftrightarrow> distinct (al_t1 l @ al_t2 l @ al_b1 l @ al_b2 l)
     \<and> length (al_t1 l) + length (al_t2 l) < c \<and> al_p l \<le> c
     \<and> al_held l \<subseteq> al_held l0 \<and> (length (al_t1 l0) + length (al_t2 l0) < c \<longrightarrow> al_held l = al_held l0)
     \<and> al_held l \<union> set (al_b1 l) \<union> set (al_b2 l) \<subseteq> al_held l0 \<union> set (al_b1 l0) \<union> set (al_b2 l0)"

lemma spec_evict_room:
  assumes inv: "arc_inv c l" and c: "1 \<le> c" and ghost: "x \<in> set (al_b1 l) \<union> set (al_b2 l)" and x: "x \<notin> al_held l"
    and r: "r = spec_evict c x l"
  shows "has_room c l r \<and> length (al_t1 r) + length (al_b1 r) \<le> c
    \<and> length (al_t1 r) + length (al_t2 r) + length (al_b1 r) + length (al_b2 r) \<le> 2 * c
    \<and> (x \<in> set (al_b1 r)) = (x \<in> set (al_b1 l)) \<and> (x \<in> set (al_b2 r)) = (x \<in> set (al_b2 l))"
proof (cases "c \<le> length (al_t1 l) + length (al_t2 l)")
  case False
  then show ?thesis using inv by (auto simp: r spec_evict_def arc_inv_def has_room_def)
next
  case True
  have live: "al_t2 l \<noteq> [] \<or> (al_t1 l \<noteq> [] \<and> (al_p l < length (al_t1 l) \<or> length (al_t1 l) = al_p l \<and> x \<in> set (al_b2 l)))"
  proof (cases "al_t2 l = []")
    case t2: True
    with True inv have "length (al_t1 l) = c" by (simp add: arc_inv_def)
    with inv have "al_b1 l = []" by (simp add: arc_inv_def)
    with ghost \<open>length (al_t1 l) = c\<close> inv c show ?thesis by (auto simp: arc_inv_def)
  qed simp
  have d: "distinct (al_t1 l @ al_t2 l @ al_b1 l @ al_b2 l)" using inv by (simp add: arc_inv_def)
  have e: "r = spec_replace x l" using True by (simp add: r spec_evict_def)
  show ?thesis unfolding has_room_def using spec_replace_effect [OF d live e] x inv True by (simp add: arc_inv_def)
qed

lemma spec_make_room_room:
  assumes inv: "arc_inv c l" and c: "1 \<le> c" and r: "r = spec_make_room c x l"
  shows "has_room c l r \<and> length (al_t1 r) + length (al_b1 r) < c
    \<and> length (al_t1 r) + length (al_t2 r) + length (al_b1 r) + length (al_b2 r) < 2 * c"
proof -
  have d: "distinct (al_t1 l @ al_t2 l @ al_b1 l @ al_b2 l)" using inv by (simp add: arc_inv_def)
  consider (ghost) "c \<le> length (al_t1 l) + length (al_t2 l)" "length (al_t1 l) + length (al_b1 l) = c" "length (al_t1 l) < c"
    | (drop) "length (al_t1 l) = c"
    | (full) "c \<le> length (al_t1 l) + length (al_t2 l)" "length (al_t1 l) + length (al_b1 l) \<noteq> c"
    | (hole) "length (al_t1 l) + length (al_t2 l) < c"
    using inv by (fastforce simp: arc_inv_def)
  then show ?thesis
  proof cases
    case ghost
    let ?m = "l\<lparr>al_b1 := tl (al_b1 l)\<rparr>"
    obtain g gs where g: "al_b1 l = g # gs" using ghost by (cases "al_b1 l") auto
    have e: "r = spec_replace x ?m" using ghost by (simp add: r spec_make_room_def Let_def)
    have dm: "distinct (al_t1 ?m @ al_t2 ?m @ al_b1 ?m @ al_b2 ?m)" using d g by auto
    have live: "al_t2 ?m \<noteq> []" using ghost by auto
    show ?thesis unfolding has_room_def using spec_replace_effect [OF dm disjI1 [OF live] e] inv ghost g by (auto simp: arc_inv_def al_held_def)
  next
    case drop
    obtain k ks where k: "al_t1 l = k # ks" using drop c by (cases "al_t1 l") auto
    have "al_b1 l = []" "al_t2 l = []" using inv drop by (simp_all add: arc_inv_def)
    then show ?thesis using drop inv k by (auto simp: r spec_make_room_def Let_def arc_inv_def has_room_def al_held_def)
  next
    case full
    let ?m = "if length (al_t1 l) + length (al_b1 l) + length (al_t2 l) + length (al_b2 l) = 2 * c
      then l\<lparr>al_b2 := tl (al_b2 l)\<rparr> else l"
    have t1: "length (al_t1 l) + length (al_b1 l) < c" using full inv by (simp add: arc_inv_def)
    have e: "r = spec_replace x ?m" using full by (auto simp: r spec_make_room_def Let_def)
    have dm: "distinct (al_t1 ?m @ al_t2 ?m @ al_b1 ?m @ al_b2 ?m)"
      using d by (auto dest: in_set_tl intro: distinct_tl)
    have m: "al_t1 ?m = al_t1 l" "al_t2 ?m = al_t2 l" "al_b1 ?m = al_b1 l" "al_p ?m = al_p l" "set (al_b2 ?m) \<subseteq> set (al_b2 l)"
      "length (al_t1 l) + length (al_b1 l) + length (al_t2 l) + length (al_b2 ?m) < 2 * c"
      using inv t1 full c by (auto simp: arc_inv_def dest: in_set_tl)
    have live: "al_t2 ?m \<noteq> []" using full t1 by auto
    show ?thesis unfolding has_room_def using spec_replace_effect [OF dm disjI1 [OF live] e] m inv full t1 by (auto simp: arc_inv_def al_held_def simp del: if_split)
  next
    case hole
    then show ?thesis using inv c
      by (auto simp: r spec_make_room_def Let_def arc_inv_def has_room_def al_held_def dest: in_set_tl intro: distinct_tl)
  qed
qed

text \<open>One access keeps the invariant, reports whether the key was held, and holds it afterwards.\<close>

lemma spec_access_inv:
  assumes inv: "arc_inv c l" and c: "1 \<le> c" and r: "spec_access c x l = (r, hit)"
  shows "arc_inv c r \<and> hit = (x \<in> al_held l) \<and> x \<in> al_held r \<and> al_held r \<subseteq> insert x (al_held l)
    \<and> (x \<in> al_held l \<or> length (al_t1 l) + length (al_t2 l) < c \<longrightarrow> al_held l \<subseteq> al_held r)"
proof -
  consider (hit) "x \<in> al_held l" | (b1) "x \<notin> al_held l" "x \<in> set (al_b1 l)"
    | (b2) "x \<notin> al_held l" "x \<notin> set (al_b1 l)" "x \<in> set (al_b2 l)"
    | (miss) "x \<notin> al_held l" "x \<notin> set (al_b1 l)" "x \<notin> set (al_b2 l)" by blast
  then show ?thesis
  proof cases
    case hit
    then have e: "r = l\<lparr>al_t1 := without x (al_t1 l), al_t2 := without x (al_t2 l) @ [x]\<rparr>" "hit"
      using r by (auto simp: spec_access_def al_held_def)
    have "length (without x (al_t1 l)) + length (without x (al_t2 l)) < length (al_t1 l) + length (al_t2 l)"
      "length (without x (al_t1 l)) \<le> length (al_t1 l)"
      using hit inv by (auto simp: arc_inv_def al_held_def length_without dest: length_pos_if_in_set)
    then show ?thesis using hit inv by (auto simp: e arc_inv_def al_held_def)
  next
    case b1
    obtain m where m: "m = l\<lparr>al_p := min (al_p l + ratio_at_least_one (length (al_b2 l)) (length (al_b1 l))) c\<rparr>" by blast
    obtain e where e: "e = spec_evict c x m" by blast
    have r: "r = e\<lparr>al_b1 := without x (al_b1 e), al_t2 := without x (al_t2 e) @ [x]\<rparr>" "\<not> hit"
      using b1 r by (auto simp: spec_access_def al_held_def Let_def m e)
    have mi: "arc_inv c m" "al_held m = al_held l" "x \<in> set (al_b1 m) \<union> set (al_b2 m)" "al_b1 m = al_b1 l"
        "length (al_t1 m) + length (al_t2 m) = length (al_t1 l) + length (al_t2 l)"
      using inv b1 by (auto simp: arc_inv_def al_held_def m)
    from spec_evict_room [OF mi(1) c mi(3) _ e] b1 mi(2,4)
    have f: "has_room c m e" "length (al_t1 e) + length (al_b1 e) \<le> c" "x \<in> set (al_b1 e)"
      "length (al_t1 e) + length (al_t2 e) + length (al_b1 e) + length (al_b2 e) \<le> 2 * c" by auto
    have x: "x \<notin> al_held e" using f(1) b1 mi(2) by (auto simp: has_room_def)
    have d: "distinct (al_t1 e @ al_t2 e @ al_b1 e @ al_b2 e)" using f(1) by (simp add: has_room_def)
    have h: "al_held r = insert x (al_held e)" using x by (auto simp: r(1) al_held_def without_id)
    have len: "length (al_b1 e) = Suc (length (al_b1 r))" "length (al_t2 r) = Suc (length (al_t2 e))"
        "al_t1 r = al_t1 e" "al_b2 r = al_b2 e" "al_p r = al_p e"
      using d f(3) x by (auto simp: r(1) length_without al_held_def without_id dest: length_pos_if_in_set)
    have "distinct (al_t1 r @ al_t2 r @ al_b1 r @ al_b2 r)" using d f(3) x by (auto simp: r(1) al_held_def)
    then have "arc_inv c r" using f len by (simp add: arc_inv_def has_room_def)
    moreover have "al_held r \<subseteq> insert x (al_held l)"
        "length (al_t1 l) + length (al_t2 l) < c \<longrightarrow> al_held l \<subseteq> al_held r"
      using f(1) mi(2,5) by (auto simp: h has_room_def)
    ultimately show ?thesis using b1 r(2) h by simp
  next
    case b2
    obtain m where m: "m = l\<lparr>al_p := al_p l - ratio_at_least_one (length (al_b1 l)) (length (al_b2 l))\<rparr>" by blast
    obtain e where e: "e = spec_evict c x m" by blast
    have r: "r = e\<lparr>al_b2 := without x (al_b2 e), al_t2 := without x (al_t2 e) @ [x]\<rparr>" "\<not> hit"
      using b2 r by (auto simp: spec_access_def al_held_def Let_def m e)
    have mi: "arc_inv c m" "al_held m = al_held l" "x \<in> set (al_b1 m) \<union> set (al_b2 m)" "al_b2 m = al_b2 l"
        "length (al_t1 m) + length (al_t2 m) = length (al_t1 l) + length (al_t2 l)"
      using inv b2 by (auto simp: arc_inv_def al_held_def m)
    from spec_evict_room [OF mi(1) c mi(3) _ e] b2 mi(2,4)
    have f: "has_room c m e" "length (al_t1 e) + length (al_b1 e) \<le> c" "x \<in> set (al_b2 e)"
      "length (al_t1 e) + length (al_t2 e) + length (al_b1 e) + length (al_b2 e) \<le> 2 * c" by auto
    have x: "x \<notin> al_held e" using f(1) b2 mi(2) by (auto simp: has_room_def)
    have d: "distinct (al_t1 e @ al_t2 e @ al_b1 e @ al_b2 e)" using f(1) by (simp add: has_room_def)
    have h: "al_held r = insert x (al_held e)" using x by (auto simp: r(1) al_held_def without_id)
    have len: "length (al_b2 e) = Suc (length (al_b2 r))" "length (al_t2 r) = Suc (length (al_t2 e))"
        "al_t1 r = al_t1 e" "al_b1 r = al_b1 e" "al_p r = al_p e"
      using d f(3) x by (auto simp: r(1) length_without al_held_def without_id dest: length_pos_if_in_set)
    have "distinct (al_t1 r @ al_t2 r @ al_b1 r @ al_b2 r)" using d f(3) x by (auto simp: r(1) al_held_def)
    then have "arc_inv c r" using f len by (simp add: arc_inv_def has_room_def)
    moreover have "al_held r \<subseteq> insert x (al_held l)"
        "length (al_t1 l) + length (al_t2 l) < c \<longrightarrow> al_held l \<subseteq> al_held r"
      using f(1) mi(2,5) by (auto simp: h has_room_def)
    ultimately show ?thesis using b2 r(2) h by simp
  next
    case miss
    obtain e where e: "e = spec_make_room c x l" by blast
    have r: "r = e\<lparr>al_t1 := without x (al_t1 e) @ [x]\<rparr>" "\<not> hit"
      using miss r by (auto simp: spec_access_def al_held_def Let_def e)
    from spec_make_room_room [OF inv c e]
    have f: "has_room c l e" "length (al_t1 e) + length (al_b1 e) < c"
      "length (al_t1 e) + length (al_t2 e) + length (al_b1 e) + length (al_b2 e) < 2 * c" by auto
    have "x \<notin> al_held e \<union> set (al_b1 e) \<union> set (al_b2 e)" using f(1) miss by (auto simp: has_room_def)
    then show ?thesis using f miss by (auto simp: r has_room_def arc_inv_def al_held_def without_id)
  qed
qed

section \<open>The cache meets the contract\<close>

definition arc_held :: "arc \<Rightarrow> string set" where
  "arc_held a = al_held (arc_abs a)"

definition arc_valid :: "nat \<Rightarrow> arc \<Rightarrow> bool" where
  "arc_valid n a \<longleftrightarrow> arc_ok n n a \<and> 1 \<le> ar_c a \<and> arc_inv (ar_c a) (arc_abs a)"

definition arc_step :: "string \<Rightarrow> arc \<Rightarrow> (arc \<times> bool) option" where
  "arc_step k a = Some (arc_access k a)"

lemma arc_valid_new: "arc_valid 0 (arc_new c)" "arc_held (arc_new c) = {}"
  by (simp_all add: arc_valid_def arc_new_def arc_ok_def lru_ok_empty arc_inv_def arc_held_def al_held_def) (simp add: lru_empty_def)

lemma arc_held_card: "arc_valid n a \<Longrightarrow> card (arc_held a) = length (al_t1 (arc_abs a)) + length (al_t2 (arc_abs a))"
  by (simp add: arc_valid_def arc_inv_def arc_held_def al_held_def card_Un_disjoint distinct_card Int_Un_distrib)

lemma arc_invalidate_refines:
  assumes "arc_ok n n a"
  shows "arc_abs (arc_invalidate x a) = \<lparr>al_p = ar_p a, al_t1 = without x (al_t1 (arc_abs a)), al_t2 = without x (al_t2 (arc_abs a)),
      al_b1 = without x (al_b1 (arc_abs a)), al_b2 = without x (al_b2 (arc_abs a))\<rparr>"
    "arc_ok n n (arc_invalidate x a)" "ar_c (arc_invalidate x a) = ar_c a"
  using arc_okD [OF assms]
  by (simp_all add: arc_invalidate_def arc_abs_def without_def arc_ok_def lru_remove_ok)

lemma arc_inv_without:
  assumes "arc_inv c l"
  shows "arc_inv c \<lparr>al_p = al_p l, al_t1 = without x (al_t1 l), al_t2 = without x (al_t2 l),
      al_b1 = without x (al_b1 l), al_b2 = without x (al_b2 l)\<rparr>"
proof -
  have "length (without x ys) \<le> length ys" for ys by (simp add: without_def)
  from this [of "al_t1 l"] this [of "al_t2 l"] this [of "al_b1 l"] this [of "al_b2 l"] show ?thesis
    using assms by (auto simp: arc_inv_def)
qed

lemma arc_step_ok:
  assumes v: "arc_valid n a" and n: "n < 2 ^ 64 - 1"
  shows "\<exists>a'. arc_step k a = Some (a', k \<in> arc_held a) \<and> arc_valid (Suc n) a' \<and> ar_c a' = ar_c a
      \<and> k \<in> arc_held a' \<and> arc_held a' \<subseteq> insert k (arc_held a)
      \<and> (k \<in> arc_held a \<or> card (arc_held a) < ar_c a \<longrightarrow> arc_held a \<subseteq> arc_held a')"
proof -
  from v have o: "arc_ok n n a" "1 \<le> ar_c a" "arc_inv (ar_c a) (arc_abs a)" by (simp_all add: arc_valid_def)
  have room: "n + 1 < 2 ^ 64" using n by simp
  obtain r hit where r: "spec_access (ar_c a) k (arc_abs a) = (r, hit)" by force
  have s: "arc_abs (fst (arc_access k a)) = r" "snd (arc_access k a) = hit"
    "arc_ok (Suc n) (Suc n) (fst (arc_access k a))" "ar_c (fst (arc_access k a)) = ar_c a"
    using arc_access_refines [OF o(1) room room, of k] r by auto
  note i = spec_access_inv [OF o(3,2) r]
  have "arc_step k a = Some (fst (arc_access k a), k \<in> arc_held a)"
    using s(2) i by (cases "arc_access k a") (simp add: arc_step_def arc_held_def)
  then show "\<exists>a'. arc_step k a = Some (a', k \<in> arc_held a) \<and> arc_valid (Suc n) a' \<and> ar_c a' = ar_c a
      \<and> k \<in> arc_held a' \<and> arc_held a' \<subseteq> insert k (arc_held a)
      \<and> (k \<in> arc_held a \<or> card (arc_held a) < ar_c a \<longrightarrow> arc_held a \<subseteq> arc_held a')"
    unfolding arc_held_card [OF v] using i s o(2) by (intro exI [of _ "fst (arc_access k a)"]) (simp add: arc_valid_def arc_held_def)
qed

interpretation arc: demand_cache arc_step arc_invalidate arc_held ar_c arc_valid "2 ^ 64 - 1"
proof unfold_locales
  fix n a k assume "arc_valid n a" and "n < 2 ^ 64 - 1"
  from arc_step_ok [OF this, of k]
  show "\<exists>a'. arc_step k a = Some (a', k \<in> arc_held a) \<and> arc_valid (Suc n) a' \<and> ar_c a' = ar_c a
      \<and> arc_held a' \<subseteq> insert k (arc_held a)" by blast
next
  fix n a k a' hit assume "arc_valid n a" and "n < 2 ^ 64 - 1" and "arc_step k a = Some (a', hit)"
  then show "k \<in> arc_held a' \<and> (k \<in> arc_held a \<or> card (arc_held a) < ar_c a \<longrightarrow> arc_held a \<subseteq> arc_held a')"
    using arc_step_ok [of n a k] by auto
next
  fix n a k assume "arc_valid n a"
  then have o: "arc_ok n n a" "1 \<le> ar_c a" "arc_inv (ar_c a) (arc_abs a)" by (simp_all add: arc_valid_def)
  show "arc_valid n (arc_invalidate k a) \<and> arc_held (arc_invalidate k a) = arc_held a - {k} \<and> ar_c (arc_invalidate k a) = ar_c a"
    using arc_invalidate_refines [OF o(1), of k] arc_inv_without [OF o(3), of k] o(2)
    by (auto simp: arc_valid_def arc_held_def al_held_def)
next
  fix n a assume "arc_valid n a"
  then show "finite (arc_held a) \<and> card (arc_held a) \<le> ar_c a"
    using arc_held_card [of n a] by (simp add: arc_valid_def arc_inv_def arc_held_def al_held_def)
qed

section \<open>The sweep and the properties\<close>

definition eval_arc_caps :: "norm_event list \<Rightarrow> u64 list \<Rightarrow> (u64 \<times> (nat \<times> nat) option) list" where
  "eval_arc_caps trace caps =
    map (\<lambda>c. (c, replay_loop arc_step arc_invalidate trace (arc_new (unat c)) 0 0)) caps"

fun arc_run :: "cache_op list \<Rightarrow> arc \<Rightarrow> arc \<times> bool list" where
  "arc_run [] a = (a, [])"
| "arc_run (Access k # ops) a =
    (let (a1, hit) = arc_access k a; (a2, hits) = arc_run ops a1 in (a2, hit # hits))"
| "arc_run (Invalidate k # ops) a = arc_run ops (arc_invalidate k a)"

definition spec_invalidate :: "string \<Rightarrow> arc_lists \<Rightarrow> arc_lists" where
  "spec_invalidate k l = \<lparr>al_p = al_p l, al_t1 = without k (al_t1 l), al_t2 = without k (al_t2 l),
     al_b1 = without k (al_b1 l), al_b2 = without k (al_b2 l)\<rparr>"

fun lists_run :: "nat \<Rightarrow> cache_op list \<Rightarrow> arc_lists \<Rightarrow> arc_lists \<times> bool list" where
  "lists_run c [] l = (l, [])"
| "lists_run c (Access k # ops) l =
    (let (l1, hit) = spec_access c k l; (l2, hits) = lists_run c ops l1 in (l2, hit # hits))"
| "lists_run c (Invalidate k # ops) l = lists_run c ops (spec_invalidate k l)"

lemma arc_valid_mono: "arc_valid n a \<Longrightarrow> n \<le> m \<Longrightarrow> arc_valid m a"
  using arc_ok_mono by (simp add: arc_valid_def) blast

lemma arc_run_refines:
  "arc_valid n a \<Longrightarrow> n + length ops < 2 ^ 64 \<Longrightarrow> arc_run ops a = (a', hits) \<Longrightarrow>
    lists_run (ar_c a) ops (arc_abs a) = (arc_abs a', hits) \<and> arc_valid (n + length ops) a' \<and> ar_c a' = ar_c a"
proof (induction ops arbitrary: n a hits)
  case (Cons op ops)
  have v: "arc_ok n n a" "1 \<le> ar_c a" "arc_inv (ar_c a) (arc_abs a)" using Cons.prems(1) by (simp_all add: arc_valid_def)
  show ?case
  proof (cases op)
    case (Access k)
    have room: "n + 1 < 2 ^ 64" using Cons.prems(2) by simp
    obtain a1 hit where a1: "arc_access k a = (a1, hit)" by force
    obtain hs where hs: "arc_run ops a1 = (a', hs)" "hits = hit # hs"
      using Cons.prems(3) Access a1 by (auto split: prod.splits)
    have s: "spec_access (ar_c a) k (arc_abs a) = (arc_abs a1, hit)" "arc_ok (Suc n) (Suc n) a1" "ar_c a1 = ar_c a"
      using arc_access_refines [OF v(1) room room, of k] a1 by (auto intro: prod_eqI)
    have "arc_valid (Suc n) a1" using spec_access_inv [OF v(3,2) s(1)] s v by (simp add: arc_valid_def)
    from Cons.IH [OF this _ hs(1)] Cons.prems(2) show ?thesis by (simp add: Access s hs(2))
  next
    case (Invalidate k)
    note i = arc_invalidate_refines [OF v(1), of k]
    have "arc_valid n (arc_invalidate k a)" using i v arc_inv_without [OF v(3), of k] by (simp add: arc_valid_def)
    from Cons.IH [OF this] Cons.prems(2,3) show ?thesis
      by (auto simp: Invalidate spec_invalidate_def i intro: arc_valid_mono)
  qed
qed simp

text \<open>C4: the cache is the four-list algorithm. For any run of accesses and invalidations, the stamped maps
  behave as the four recency lists of the algorithm: the same hits, the same lists. The lists stay
  disjoint and within the bounds of the algorithm: at most \<open>c\<close> residents, at most \<open>c\<close> keys seen once, at
  most \<open>2c\<close> keys in all, and a target within the capacity.\<close>

theorem arc_implements_lists:
  assumes "length ops < 2 ^ 64" and "arc_run ops (arc_new c) = (a, hits)"
  shows "lists_run (max c 1) ops \<lparr>al_p = 0, al_t1 = [], al_t2 = [], al_b1 = [], al_b2 = []\<rparr> = (arc_abs a, hits)
    \<and> distinct (al_t1 (arc_abs a) @ al_t2 (arc_abs a) @ al_b1 (arc_abs a) @ al_b2 (arc_abs a))
    \<and> arc_resident a \<le> max c 1 \<and> lru_len (ar_t1 a) + lru_len (ar_b1 a) \<le> max c 1
    \<and> arc_resident a + lru_len (ar_b1 a) + lru_len (ar_b2 a) \<le> 2 * max c 1 \<and> ar_p a \<le> max c 1"
proof -
  have new: "arc_abs (arc_new c) = \<lparr>al_p = 0, al_t1 = [], al_t2 = [], al_b1 = [], al_b2 = []\<rparr>" "ar_c (arc_new c) = max c 1"
    by (simp_all add: arc_abs_def arc_new_def lru_ok_empty)
  from arc_run_refines [OF arc_valid_new(1) _ assms(2)] assms(1)
  have r: "lists_run (max c 1) ops \<lparr>al_p = 0, al_t1 = [], al_t2 = [], al_b1 = [], al_b2 = []\<rparr> = (arc_abs a, hits)"
    "arc_valid (length ops) a" "ar_c a = max c 1" by (simp_all add: new)
  from r(2) have "arc_ok (length ops) (length ops) a" "arc_inv (max c 1) (arc_abs a)" by (simp_all add: arc_valid_def r(3))
  then show ?thesis
    using r(1) arc_ok_contains [of "length ops" "length ops" a] by (simp add: arc_inv_def arc_resident_def)
qed

lemma arc_implements_lists_witness:
  "arc_resident (fst (arc_run [Access ''a'', Access ''a'', Access ''b'', Access ''c'', Invalidate ''a'', Access ''b''] (arc_new 2))) \<le> 2
   \<and> snd (arc_run [Access ''a'', Access ''a'', Access ''b'', Access ''c'', Invalidate ''a'', Access ''b''] (arc_new 2))
      = [False, True, False, False, False]"
proof -
  let ?ops = "[Access ''a'', Access ''a'', Access ''b'', Access ''c'', Invalidate ''a'', Access ''b'']"
  obtain a hits where r: "arc_run ?ops (arc_new 2) = (a, hits)" by force
  have "snd (lists_run 2 ?ops \<lparr>al_p = 0, al_t1 = [], al_t2 = [], al_b1 = [], al_b2 = []\<rparr>) = [False, True, False, False, False]"
    by code_simp
  moreover have len: "length ?ops < 2 ^ 64" and m: "max 2 1 = (2 :: nat)" by simp_all
  note p = arc_implements_lists [OF len r, unfolded m]
  ultimately have "hits = [False, True, False, False, False]" by (metis snd_conv)
  moreover from p have "arc_resident a \<le> 2" by blast
  ultimately show ?thesis unfolding r by simp
qed

end
