(* ===== verification/Ladder.thy ===== *)
theory Ladder
  imports Prelude
begin

text \<open>
  The byte capacities of the sweep, \<open>byte_cap_ladder\<close> of \<open>crates/s3tap-replay/src/bytes.rs\<close>. Its loops
  multiply a capacity by four until it reaches the working set; with a capacity of zero they would
  not end, so they are \<open>partial_function (option)\<close>, and the ladder is proved to return.
\<close>

definition MIN_RUNGS :: nat where "MIN_RUNGS = 5"

definition MIB :: u64 where "MIB = 1048576"

partial_function (option) rungs_loop :: "u64 \<Rightarrow> u64 \<Rightarrow> nat \<Rightarrow> nat option" where
  "rungs_loop tot c n = (if c < tot then rungs_loop tot (sat_mul c 4) (n + 1) else Some n)"

definition rungs :: "u64 \<Rightarrow> u64 \<Rightarrow> nat option" where
  "rungs tot fl = rungs_loop tot fl 1"

partial_function (option) floor_loop :: "u64 \<Rightarrow> u64 \<Rightarrow> u64 option" where
  "floor_loop tot fl =
    (if 1 < fl then Option.bind (rungs tot fl) (\<lambda>n. if n < MIN_RUNGS then floor_loop tot (max (fl div 4) 1) else Some fl)
     else Some fl)"

partial_function (option) caps_loop :: "u64 \<Rightarrow> u64 \<Rightarrow> u64 list \<Rightarrow> u64 list option" where
  "caps_loop tot c caps = (if c < tot then caps_loop tot (sat_mul c 4) (caps @ [c]) else Some caps)"

definition byte_cap_ladder :: "u64 \<Rightarrow> u64 list option" where
  "byte_cap_ladder total_bytes =
    (let tot = max total_bytes 1 in
     Option.bind (floor_loop tot (min MIB tot)) (\<lambda>fl.
     Option.bind (caps_loop tot fl []) (\<lambda>caps. Some (remdups_adj (caps @ [tot])))))"

section \<open>The rungs\<close>

text \<open>The rungs off a floor: its multiples by powers of four below the working set.\<close>

definition rung_list :: "u64 \<Rightarrow> u64 \<Rightarrow> u64 list \<Rightarrow> bool" where
  "rung_list tot c cs \<longleftrightarrow> map unat cs = map (\<lambda>i. unat c * 4 ^ i) [0..<length cs]
     \<and> list_all (\<lambda>x. x < tot) cs \<and> unat tot \<le> unat c * 4 ^ length cs"

lemma rung_list_Nil: "\<not> c < tot \<Longrightarrow> rung_list tot c []"
  by (simp add: rung_list_def word_le_nat_alt not_less)

lemma rung_list_Cons:
  assumes c: "1 \<le> c" "c < tot" and r: "rung_list tot (sat_mul c 4) cs"
  shows "rung_list tot c (c # cs)"
proof -
  have m: "unat (sat_mul c 4) = 4 * unat c" if "cs \<noteq> []"
  proof -
    obtain y ys where cs: "cs = y # ys" using \<open>cs \<noteq> []\<close> by (meson list.exhaust)
    have "map unat cs = unat (sat_mul c 4) # map (\<lambda>i. unat (sat_mul c 4) * 4 ^ i) [1..<length cs]"
      using r cs by (simp add: rung_list_def upt_rec del: upt_Suc)
    then have "unat y = unat (sat_mul c 4)" using cs by simp
    moreover have "y < tot" using r cs by (simp add: rung_list_def)
    ultimately have "unat (sat_mul c 4) < unat tot" by (simp add: word_less_nat_alt)
    moreover have "unat tot \<le> 2 ^ 64 - 1" using unat_bound [of tot] by simp
    ultimately have "unat (sat_mul c 4) < 2 ^ 64 - 1" by linarith
    then show ?thesis unfolding unat_sat_mul by (simp add: min_def split: if_splits)
  qed
  have upt: "[0..<length (c # cs)] = 0 # map Suc [0..<length cs]" by (simp add: upt_conv_Cons map_Suc_upt del: upt_Suc)
  have "map unat (c # cs) = map (\<lambda>i. unat c * 4 ^ i) [0..<length (c # cs)]"
  proof (cases "cs = []")
    case False
    have "map unat cs = map (\<lambda>i. unat (sat_mul c 4) * 4 ^ i) [0..<length cs]" using r by (simp add: rung_list_def)
    also have "\<dots> = map (\<lambda>i. unat c * 4 ^ Suc i) [0..<length cs]" using m [OF False] by simp
    finally show ?thesis unfolding upt by (simp add: comp_def)
  qed simp
  moreover have "unat tot \<le> unat c * 4 ^ length (c # cs)"
  proof (cases "cs = []")
    case True
    then have "unat tot \<le> unat (sat_mul c 4)" using r by (simp add: rung_list_def)
    then show ?thesis using True by (simp add: unat_sat_mul)
  next
    case False
    then show ?thesis using r m by (simp add: rung_list_def)
  qed
  ultimately show ?thesis using r c by (simp add: rung_list_def)
qed

lemma rung_list_less: "rung_list tot c cs \<Longrightarrow> 1 \<le> c \<Longrightarrow> sorted_wrt (<) (cs @ [tot])"
proof -
  assume r: "rung_list tot c cs" and c: "1 \<le> c"
  have "sorted_wrt (<) (map unat cs)"
    unfolding r [unfolded rung_list_def, THEN conjunct1]
    using c by (auto simp: sorted_wrt_map sorted_wrt_iff_nth_less word_le_nat_alt)
  then have "sorted_wrt (<) cs" unfolding sorted_wrt_map word_less_nat_alt [symmetric] .
  then show ?thesis using r by (auto simp: sorted_wrt_append rung_list_def list_all_iff)
qed

text \<open>From a floor of at least one, both loops return and agree.\<close>

lemma loops_ok:
  "1 \<le> c \<Longrightarrow> \<exists>cs. (\<forall>acc. caps_loop tot c acc = Some (acc @ cs)) \<and> (\<forall>n. rungs_loop tot c n = Some (n + length cs)) \<and> rung_list tot c cs"
proof (induction "unat tot - unat c" arbitrary: c rule: less_induct)
  case less
  show ?case
  proof (cases "c < tot")
    case False
    then show ?thesis by (intro exI [of _ "[]"]) (simp add: caps_loop.simps rungs_loop.simps rung_list_Nil)
  next
    case True
    have b: "unat tot \<le> 2 ^ 64 - 1" "1 \<le> unat c" "unat c < unat tot"
      using unat_bound [of tot] less.prems True by (simp_all add: word_le_nat_alt word_less_nat_alt)
    then have gt: "unat c < unat (sat_mul c 4)" unfolding unat_sat_mul by (simp add: min_def)
    then have "1 \<le> sat_mul c 4" by (simp add: word_le_nat_alt)
    moreover have "unat tot - unat (sat_mul c 4) < unat tot - unat c" using gt b(3) by linarith
    ultimately obtain cs where cs: "\<forall>acc. caps_loop tot (sat_mul c 4) acc = Some (acc @ cs)"
      "\<forall>n. rungs_loop tot (sat_mul c 4) n = Some (n + length cs)" "rung_list tot (sat_mul c 4) cs"
      using less.hyps by blast
    show ?thesis
      using True cs rung_list_Cons [OF less.prems True cs(3)]
      by (intro exI [of _ "c # cs"]) (simp add: caps_loop.simps [of tot c] rungs_loop.simps [of tot c])
  qed
qed

text \<open>The floor loop ends at a floor of one, or at one with enough rungs.\<close>

lemma floor_loop_ok:
  "1 \<le> c \<Longrightarrow> \<exists>f. floor_loop tot c = Some f \<and> 1 \<le> f \<and> f \<le> c \<and> (f = 1 \<or> (\<exists>n. rungs tot f = Some n \<and> MIN_RUNGS \<le> n))"
proof (induction "unat c" arbitrary: c rule: less_induct)
  case less
  show ?case
  proof (cases "1 < c")
    case False
    then show ?thesis using less.prems by (subst floor_loop.simps) auto
  next
    case True
    obtain cs :: "u64 list" where cs: "\<forall>n. rungs_loop tot c n = Some (n + length cs)" using loops_ok [OF less.prems, of tot] by blast
    show ?thesis
    proof (cases "1 + length cs < MIN_RUNGS")
      case False
      then show ?thesis using True cs less.prems by (subst floor_loop.simps) (simp add: rungs_def)
    next
      case enough: True
      let ?d = "max (c div 4) 1"
      have d: "1 \<le> ?d" "unat ?d < unat c" "?d \<le> c"
        using True by (auto simp: max_def word_less_nat_alt word_le_nat_alt unat_div)
      have "floor_loop tot c = floor_loop tot ?d" using True cs enough by (subst floor_loop.simps) (simp add: rungs_def)
      moreover from less.hyps [OF d(2,1)] obtain f where f: "floor_loop tot ?d = Some f" "1 \<le> f" "f \<le> ?d"
        "f = 1 \<or> (\<exists>n. rungs tot f = Some n \<and> MIN_RUNGS \<le> n)" by blast
      moreover have "f \<le> c" by (rule order_trans [OF f(3) d(3)])
      ultimately show ?thesis using f(2,4) by (intro exI [of _ f]) simp
    qed
  qed
qed

text \<open>The ladder is a curve. For every working set the loops return, with strictly rising capacities: powers
  of four off a floor, all below the working set, and the working set (at least one byte) last. There
  are at least five rungs, or the floor is one byte, so no working set has its knee read off one point.\<close>

theorem byte_ladder_correct:
  "\<exists>cs. byte_cap_ladder n = Some (cs @ [max n 1]) \<and> sorted_wrt (<) (cs @ [max n 1])
    \<and> (let fl = hd (cs @ [max n 1]) in 1 \<le> fl \<and> fl \<le> MIB
        \<and> map unat cs = map (\<lambda>i. unat fl * 4 ^ i) [0..<length cs] \<and> unat (max n 1) \<le> unat fl * 4 ^ length cs
        \<and> (fl = 1 \<or> MIN_RUNGS \<le> length (cs @ [max n 1])))"
proof -
  let ?tot = "max n 1"
  have "1 \<le> min MIB ?tot" by (simp add: MIB_def)
  from floor_loop_ok [OF this, of ?tot] obtain f where f: "floor_loop ?tot (min MIB ?tot) = Some f" "1 \<le> f" "f \<le> MIB" "f \<le> ?tot"
    "f = 1 \<or> (\<exists>n. rungs ?tot f = Some n \<and> MIN_RUNGS \<le> n)" by auto
  from loops_ok [OF f(2), of ?tot] obtain cs where cs: "caps_loop ?tot f [] = Some cs" "rungs ?tot f = Some (1 + length cs)"
    "rung_list ?tot f cs" by (auto simp: rungs_def)
  have s: "sorted_wrt (<) (cs @ [?tot])" by (rule rung_list_less [OF cs(3) f(2)])
  then have "remdups_adj (cs @ [?tot]) = cs @ [?tot]"
    using strict_sorted_iff remdups_adj_distinct by blast
  then have "byte_cap_ladder n = Some (cs @ [?tot])" by (simp add: byte_cap_ladder_def f(1) cs(1))
  moreover have "hd (cs @ [?tot]) = f"
  proof (cases cs)
    case Nil
    then have "?tot \<le> f" using cs(3) by (simp add: rung_list_def word_le_nat_alt)
    then show ?thesis using Nil f(4) by (simp only: append.simps list.sel antisym)
  next
    case (Cons y ys)
    have "map unat cs = unat f # map (\<lambda>i. unat f * 4 ^ i) [1..<length cs]"
      using cs(3) Cons by (simp add: rung_list_def upt_rec del: upt_Suc)
    then show ?thesis using Cons by (simp add: word_unat_eq_iff)
  qed
  ultimately show ?thesis using s cs(2,3) f(2,3,5) by (intro exI [of _ cs]) (simp add: rung_list_def Let_def)
qed

end
