(* ===== verification/Replay.thy ===== *)
theory Replay
  imports Sim S3Fifo ArcCache Ladder
begin

text \<open>
  The sweeps of \<open>crates/s3tap-replay/src/driver.rs\<close> over a trace: a predictor's prefetches
  (\<open>run\<close>, \<open>eval_all_caps\<close>) with the report of \<open>metrics.rs\<close>, and LRU with the frequency sketch of
  \<open>admission.rs\<close> as an admission filter (\<open>eval_admission_caps\<close>). A \<open>Predictor\<close> is its two methods over a
  state of its own; the standard library's hasher of the sketch is an argument. The last section
  compares the policies with the ceiling.
\<close>

section \<open>Prefetching\<close>

record report =
  re_accesses :: nat
  re_hits :: nat
  re_prefetch_issued :: nat
  re_prefetch_used :: nat

definition report_default :: report where
  "report_default = \<lparr>re_accesses = 0, re_hits = 0, re_prefetch_issued = 0, re_prefetch_used = 0\<rparr>"

definition origin_fetches :: "report \<Rightarrow> nat" where
  "origin_fetches r = (re_accesses r - re_hits r) + re_prefetch_issued r"

type_synonym 'p observe = "norm_event \<Rightarrow> 'p \<Rightarrow> 'p"
type_synonym 'p predict = "norm_event \<Rightarrow> 'p \<Rightarrow> 'p \<times> string list"

text \<open>The demand half of a read, and the prefetches of a ranked list.\<close>

definition read_step :: "string \<Rightarrow> sim \<times> report \<Rightarrow> sim \<times> report" where
  "read_step k sr =
    (let (s, r0) = sr; r = r0\<lparr>re_accesses := re_accesses r0 + 1\<rparr> in
     case sim_access k 1 s of
       (s1, Hit first_use) \<Rightarrow>
         (let r1 = r\<lparr>re_hits := re_hits r + 1\<rparr>
          in (s1, if first_use then r1\<lparr>re_prefetch_used := re_prefetch_used r1 + 1\<rparr> else r1))
     | (s1, Miss) \<Rightarrow> (sim_insert k 1 False s1, r))"

fun prefetch_step :: "string list \<Rightarrow> sim \<times> report \<Rightarrow> sim \<times> report" where
  "prefetch_step [] sr = sr"
| "prefetch_step (pid # pids) (s, r) =
    prefetch_step pids
      (if \<not> sim_contains pid s then (sim_insert pid 1 True s, r\<lparr>re_prefetch_issued := re_prefetch_issued r + 1\<rparr>) else (s, r))"

fun run_loop :: "'p observe \<Rightarrow> 'p predict \<Rightarrow> norm_event list \<Rightarrow> 'p \<Rightarrow> sim \<times> report \<Rightarrow> sim \<times> report" where
  "run_loop obs pre [] p sr = sr"
| "run_loop obs pre (ev # evs) p sr =
    (case ne_op ev of
       Put \<Rightarrow> run_loop obs pre evs p (sim_invalidate (ne_object_id ev) (fst sr), snd sr)
     | Delete \<Rightarrow> run_loop obs pre evs p (sim_invalidate (ne_object_id ev) (fst sr), snd sr)
     | Head \<Rightarrow> run_loop obs pre evs p sr
     | Other \<Rightarrow> run_loop obs pre evs p sr
     | Get \<Rightarrow>
         (let sr1 = read_step (ne_object_id ev) sr; (p1, pids) = pre ev (obs ev p)
          in run_loop obs pre evs p1 (prefetch_step pids sr1)))"

definition run :: "'p observe \<Rightarrow> 'p predict \<Rightarrow> norm_event list \<Rightarrow> 'p \<Rightarrow> u64 \<Rightarrow> report" where
  "run obs pre trace p cap = snd (run_loop obs pre trace p (sim_new cap, report_default))"

definition K_MAX :: nat where "K_MAX = 64"

definition k_for_cap :: "u64 \<Rightarrow> nat" where
  "k_for_cap cap = min (unat (max (cap div 4) 1)) K_MAX"

text \<open>One pass for all capacities: the simulators, reports and breadths are vectors indexed together.\<close>

fun all_caps_loop :: "'p observe \<Rightarrow> 'p predict \<Rightarrow> norm_event list \<Rightarrow> 'p \<Rightarrow> (nat \<times> sim \<times> report) list \<Rightarrow> (nat \<times> sim \<times> report) list" where
  "all_caps_loop obs pre [] p rows = rows"
| "all_caps_loop obs pre (ev # evs) p rows =
    (case ne_op ev of
       Put \<Rightarrow> all_caps_loop obs pre evs p (map (\<lambda>(k, s, r). (k, sim_invalidate (ne_object_id ev) s, r)) rows)
     | Delete \<Rightarrow> all_caps_loop obs pre evs p (map (\<lambda>(k, s, r). (k, sim_invalidate (ne_object_id ev) s, r)) rows)
     | Head \<Rightarrow> all_caps_loop obs pre evs p rows
     | Other \<Rightarrow> all_caps_loop obs pre evs p rows
     | Get \<Rightarrow>
         (let rows1 = map (\<lambda>(k, sr). (k, read_step (ne_object_id ev) sr)) rows;
              (p1, ranked) = pre ev (obs ev p)
          in all_caps_loop obs pre evs p1 (map (\<lambda>(k, sr). (k, prefetch_step (take k ranked) sr)) rows1)))"

definition eval_all_caps :: "'p observe \<Rightarrow> 'p predict \<Rightarrow> norm_event list \<Rightarrow> u64 list \<Rightarrow> 'p \<Rightarrow> (u64 \<times> report) list" where
  "eval_all_caps obs pre trace caps p =
    zip caps (map (snd \<circ> snd) (all_caps_loop obs pre trace p (map (\<lambda>c. (k_for_cap c, sim_new c, report_default)) caps)))"

definition null_observe :: "unit observe" where "null_observe ev p = p"
definition null_predict :: "unit predict" where "null_predict ev p = (p, [])"

section \<open>Admission\<close>

definition DEPTH :: nat where "DEPTH = 4"

record freq_sketch =
  fk_width :: nat
  fk_rows :: "u16 list list"
  fk_seeds :: "u64 list"
  fk_sample :: u64
  fk_sample_max :: u64

definition sketch_new :: "nat \<Rightarrow> u64 \<Rightarrow> freq_sketch" where
  "sketch_new width0 sample_max =
    (let width = max width0 1 in
     \<lparr>fk_width = width, fk_rows = replicate DEPTH (replicate width 0),
      fk_seeds = [0x9E3779B9, 0x85EBCA6B, 0xC2B2AE35, 0x27D4EB2F], fk_sample = 0, fk_sample_max = sample_max\<rparr>)"

definition sketch_idx :: "(u64 \<Rightarrow> string \<Rightarrow> u64) \<Rightarrow> freq_sketch \<Rightarrow> u64 \<Rightarrow> string \<Rightarrow> nat" where
  "sketch_idx h sk seed x = unat (h seed x) mod fk_width sk"

definition bump_row :: "nat \<Rightarrow> u16 list \<Rightarrow> u16 list" where
  "bump_row i row = row[i := sat_add (row ! i) 1]"

definition sketch_incr :: "(u64 \<Rightarrow> string \<Rightarrow> u64) \<Rightarrow> string \<Rightarrow> freq_sketch \<Rightarrow> freq_sketch" where
  "sketch_incr h x sk =
    (let rows = map2 (\<lambda>seed row. bump_row (sketch_idx h sk seed x) row) (fk_seeds sk) (fk_rows sk);
         sk1 = sk\<lparr>fk_rows := rows, fk_sample := fk_sample sk + 1\<rparr>
     in if fk_sample_max sk1 \<le> fk_sample sk1
        then sk1\<lparr>fk_rows := map (map (\<lambda>c. c div 2)) (fk_rows sk1), fk_sample := fk_sample sk1 div 2\<rparr>
        else sk1)"

definition sketch_est :: "(u64 \<Rightarrow> string \<Rightarrow> u64) \<Rightarrow> string \<Rightarrow> freq_sketch \<Rightarrow> u16" where
  "sketch_est h x sk =
    (case map2 (\<lambda>seed row. row ! sketch_idx h sk seed x) (fk_seeds sk) (fk_rows sk) of
       [] \<Rightarrow> 0 | c # cs \<Rightarrow> fold min cs c)"

definition admission_access :: "(u64 \<Rightarrow> string \<Rightarrow> u64) \<Rightarrow> string \<Rightarrow> sim \<times> freq_sketch \<Rightarrow> ((sim \<times> freq_sketch) \<times> bool) option" where
  "admission_access h k st =
    (let (s, sk0) = st; sk = sketch_incr h k sk0 in
     case sim_access k 1 s of
       (s1, Hit _) \<Rightarrow> Some ((s1, sk), True)
     | (s1, Miss) \<Rightarrow>
         let admit = (if sim_len s1 < unat (sm_cap s1) then True
                      else (case lru_victim s1 of Some v \<Rightarrow> sketch_est h v sk < sketch_est h k sk | None \<Rightarrow> True))
         in Some ((if admit then sim_insert k 1 False s1 else s1, sk), False))"

definition admission_invalidate :: "string \<Rightarrow> sim \<times> freq_sketch \<Rightarrow> sim \<times> freq_sketch" where
  "admission_invalidate k st = (sim_invalidate k (fst st), snd st)"

definition admission_new :: "u64 \<Rightarrow> sim \<times> freq_sketch" where
  "admission_new cap = (sim_new cap, sketch_new 65536 (max (sat_mul cap 16) 16384))"

definition eval_admission_caps :: "(u64 \<Rightarrow> string \<Rightarrow> u64) \<Rightarrow> norm_event list \<Rightarrow> u64 list \<Rightarrow> (u64 \<times> (nat \<times> nat) option) list" where
  "eval_admission_caps h trace caps =
    map (\<lambda>c. (c, replay_loop (admission_access h) admission_invalidate trace (admission_new c) 0 0)) caps"

section \<open>One pass or many\<close>

definition take_predict :: "nat \<Rightarrow> 'p predict \<Rightarrow> 'p predict" where
  "take_predict k pre ev p = (let (p1, ranked) = pre ev p in (p1, take k ranked))"

lemma all_caps_loop_eq:
  "all_caps_loop obs pre evs p rows = map (\<lambda>(k, sr). (k, run_loop obs (take_predict k pre) evs p sr)) rows"
proof (induction evs arbitrary: p rows)
  case (Cons ev evs)
  then show ?case
    by (cases "ne_op ev") (auto simp: take_predict_def Let_def split_beta comp_def)
qed auto

text \<open>One pass is as good as many. The single pass over all capacities, which trains the predictor once
  and gives each cache a prefix of its ranked list, reports for each capacity what a run of its own
  with that breadth reports: no cache sees the others.\<close>

theorem all_caps_are_single_runs:
  "eval_all_caps obs pre trace caps p
    = map (\<lambda>c. (c, run obs (take_predict (k_for_cap c) pre) trace p c)) caps"
  by (simp add: eval_all_caps_def all_caps_loop_eq run_def comp_def zip_map2 zip_same_conv_map split_beta)

section \<open>The report adds up\<close>

definition flagged :: "sim_item list \<Rightarrow> nat" where
  "flagged xs = length (filter (\<lambda>x. snd (snd x)) xs)"

lemma flagged_simps [simp]: "flagged [] = 0" "flagged (x # xs) = (if snd (snd x) then 1 else 0) + flagged xs"
    "flagged (xs @ ys) = flagged xs + flagged ys"
  by (simp_all add: flagged_def)

lemma flagged_fit: "flagged (fit cap xs) \<le> flagged xs"
  by (induction xs) auto

lemma flagged_drop_le: "flagged (drop_item k xs) \<le> flagged xs"
  by (induction xs) (auto simp: drop_item_def)

lemma flagged_drop:
  "find (\<lambda>x. fst x = k) xs = Some (j, m, f) \<Longrightarrow> flagged (drop_item k xs) + (if f then 1 else 0) \<le> flagged xs"
proof (induction xs)
  case (Cons x xs)
  then show ?case using flagged_drop_le [of k xs] by (cases "fst x = k") (auto simp: drop_item_def)
qed simp

definition report_ok :: "sim \<times> report \<Rightarrow> bool" where
  "report_ok sr \<longleftrightarrow> re_hits (snd sr) \<le> re_accesses (snd sr) \<and> re_prefetch_used (snd sr) \<le> re_hits (snd sr)
     \<and> re_prefetch_used (snd sr) + flagged (sim_items (fst sr)) \<le> re_prefetch_issued (snd sr)"

lemma read_step_ok:
  assumes ok: "sim_ok n s" and room: "n + 3 < 2 ^ 64" and r: "report_ok (s, r)"
  shows "sim_ok (n + 2) (fst (read_step k (s, r))) \<and> report_ok (read_step k (s, r))
    \<and> re_accesses (snd (read_step k (s, r))) = re_accesses r + 1
    \<and> re_prefetch_issued (snd (read_step k (s, r))) = re_prefetch_issued r"
proof -
  obtain s1 res where a: "sim_access k 1 s = (s1, res)" by force
  from sim_access_ok [OF ok _ a] room have s1: "sim_ok (Suc n) s1" "list_access (sm_cap s) k 1 (sim_items s) = (sim_items s1, res)"
    by simp_all
  show ?thesis
  proof (cases "find (\<lambda>x. fst x = k) (sim_items s)")
    case None
    then have m: "res = Miss" "sim_items s1 = sim_items s" using s1(2) by (auto simp: list_access_def)
    note i = sim_insert_ok [OF s1(1), of k 1 False]
    have "flagged (sim_items (sim_insert k 1 False s1)) \<le> flagged (sim_items s)"
      using i(2) room None m(2) flagged_fit [of "sm_cap s1" "sim_items s @ [(k, 1, False)]"] by (simp add: list_insert_def)
    then show ?thesis using i(1) room r m(1) by (simp add: read_step_def a report_ok_def)
  next
    case (Some x)
    obtain j m f where x: "x = (j, m, f)" by (cases x) auto
    have h: "res = Hit f" "sim_items s1 = fit (sm_cap s) (drop_item k (sim_items s) @ [(k, 1, False)])"
      using Some s1(2) by (auto simp: list_access_def x)
    have "flagged (sim_items s1) + (if f then 1 else 0) \<le> flagged (sim_items s)"
      using flagged_fit [of "sm_cap s" "drop_item k (sim_items s) @ [(k, 1, False)]"] flagged_drop [OF Some [unfolded x]] h(2) by simp
    moreover have "sim_ok (n + 2) s1" using s1(1) by (auto simp: sim_ok_def)
    ultimately show ?thesis using r h(1) by (auto simp: read_step_def a report_ok_def Let_def split: if_splits)
  qed
qed

lemma prefetch_step_ok:
  "sim_ok n (fst sr) \<Longrightarrow> n + length pids + 2 < 2 ^ 64 \<Longrightarrow> report_ok sr \<Longrightarrow>
    sim_ok (n + length pids) (fst (prefetch_step pids sr)) \<and> report_ok (prefetch_step pids sr)
    \<and> re_accesses (snd (prefetch_step pids sr)) = re_accesses (snd sr)"
proof (induction pids arbitrary: n sr)
  case (Cons pid pids)
  obtain s r where sr: "sr = (s, r)" by force
  have ok: "sim_ok n s" "report_ok (s, r)" and room: "n + 2 < 2 ^ 64" using Cons.prems by (simp_all add: sr)
  show ?case
  proof (cases "sim_contains pid s")
    case True
    have "sim_ok (Suc n) s" using ok(1) by (auto simp: sim_ok_def)
    from Cons.IH [of "Suc n" "(s, r)"] this Cons.prems True show ?thesis by (simp add: sr)
  next
    case False
    note i = sim_insert_ok [OF ok(1) room, of pid 1 True]
    have "lru_ok (sim_lru s)" using ok(1) by (simp add: sim_ok_def)
    then have "find (\<lambda>x. fst x = pid) (sim_items s) = None" using find_item False by (simp add: sim_contains_def)
    then have "flagged (sim_items (sim_insert pid 1 True s)) \<le> flagged (sim_items s) + 1"
      using i(2) flagged_fit [of "sm_cap s" "sim_items s @ [(pid, 1, True)]"] by (simp add: list_insert_def)
    then have "report_ok (sim_insert pid 1 True s, r\<lparr>re_prefetch_issued := re_prefetch_issued r + 1\<rparr>)"
      using ok(2) by (simp add: report_ok_def)
    from Cons.IH [of "Suc n" "(sim_insert pid 1 True s, r\<lparr>re_prefetch_issued := re_prefetch_issued r + 1\<rparr>)"] this i(1) Cons.prems(2) False
    show ?thesis by (simp add: sr)
  qed
qed simp

text \<open>The stamps a trace uses: two per read, and one per prefetch, of which there are at most \<open>w\<close> per read.\<close>

lemma run_loop_ok:
  assumes w: "\<And>ev p. length (snd (pre ev p)) \<le> w"
  shows "sim_ok n (fst sr) \<Longrightarrow> n + (w + 2) * length evs + 3 < 2 ^ 64 \<Longrightarrow> report_ok sr \<Longrightarrow>
    report_ok (run_loop obs pre evs p sr) \<and> re_accesses (snd (run_loop obs pre evs p sr)) = re_accesses (snd sr) + gets evs"
proof (induction evs arbitrary: n p sr)
  case (Cons ev evs)
  obtain s r where sr: "sr = (s, r)" by force
  have ok: "sim_ok n s" "report_ok (s, r)" using Cons.prems by (simp_all add: sr)
  have room: "n + (w + 2) + (w + 2) * length evs + 3 < 2 ^ 64" using Cons.prems(2) by (simp add: algebra_simps)
  show ?case
  proof (cases "ne_op ev = Get")
    case True
    let ?pids = "snd (pre ev (obs ev p))"
    have "n + 3 < 2 ^ 64" using room by linarith
    note a = read_step_ok [OF ok(1) this ok(2), of "ne_object_id ev"]
    have "n + 2 + length ?pids + 2 < 2 ^ 64" using room w [of ev "obs ev p"] by linarith
    from prefetch_step_ok [of "n + 2" "read_step (ne_object_id ev) (s, r)", OF _ this] a
    have b: "sim_ok (n + 2 + length ?pids) (fst (prefetch_step ?pids (read_step (ne_object_id ev) (s, r))))"
      "report_ok (prefetch_step ?pids (read_step (ne_object_id ev) (s, r)))"
      "re_accesses (snd (prefetch_step ?pids (read_step (ne_object_id ev) (s, r)))) = re_accesses r + 1" by simp_all
    have "sim_ok (n + (w + 2)) (fst (prefetch_step ?pids (read_step (ne_object_id ev) (s, r))))"
      using b(1) w [of ev "obs ev p"] by (auto simp: sim_ok_def)
    from Cons.IH [OF this room b(2), of "fst (pre ev (obs ev p))"] b(3) True show ?thesis
      by (simp add: sr split_beta Let_def)
  next
    case False
    have room': "n + (w + 2) * length evs + 3 < 2 ^ 64" using room by linarith
    let ?i = "sim_invalidate (ne_object_id ev) s"
    have "report_ok (?i, r)"
      using ok(2) sim_invalidate_Items(2) [OF ok(1), of "ne_object_id ev"] flagged_drop_le [of "ne_object_id ev" "sim_items s"]
      by (simp add: report_ok_def)
    then show ?thesis
      using False Cons.IH [of n "(?i, r)" p] Cons.IH [of n "(s, r)" p] sim_invalidate_Items(1) [OF ok(1)] room' ok
      by (cases "ne_op ev") (simp_all add: sr)
  qed
qed simp

text \<open>The report adds up, whatever the predictor. Every read of the trace is counted once; hits are reads,
  a first use of a prefetched object is a hit, and no more prefetches are used than were issued. So the
  subtraction in the number of origin fetches never underflows, and that number with the hits is the
  reads and the prefetches.\<close>

theorem report_adds_up:
  assumes "\<And>ev p. length (snd (pre ev p)) \<le> w" and "(w + 2) * length trace + 3 < 2 ^ 64" and "unat cap < 2 ^ 63"
    and "r = run obs pre trace p cap"
  shows "re_accesses r = gets trace \<and> re_hits r \<le> re_accesses r \<and> re_prefetch_used r \<le> re_hits r
    \<and> re_prefetch_used r \<le> re_prefetch_issued r \<and> origin_fetches r + re_hits r = re_accesses r + re_prefetch_issued r"
proof -
  have "report_ok (sim_new cap, report_default)" by (simp add: report_ok_def report_default_def sim_ok_new(2))
  with run_loop_ok [OF assms(1), where obs = obs and p = p and n = 0 and sr = "(sim_new cap, report_default)" and evs = trace] sim_ok_new(1) [OF assms(3)] assms(2)
  have "report_ok (run_loop obs pre trace p (sim_new cap, report_default))"
    "re_accesses r = gets trace" by (simp_all add: assms(4) run_def report_default_def)
  then show ?thesis by (simp add: report_ok_def assms(4) run_def origin_fetches_def)
qed

lemma report_adds_up_witness:
  "origin_fetches (run null_observe null_predict [sample_get ''a'' 1, sample_get ''b'' 1, sample_get ''a'' 1] () 2)
    + re_hits (run null_observe null_predict [sample_get ''a'' 1, sample_get ''b'' 1, sample_get ''a'' 1] () 2)
    = 3 + re_prefetch_issued (run null_observe null_predict [sample_get ''a'' 1, sample_get ''b'' 1, sample_get ''a'' 1] () 2)"
proof -
  let ?tr = "[sample_get ''a'' 1, sample_get ''b'' 1, sample_get ''a'' 1]"
  have "length (snd (null_predict ev p)) \<le> 0" for ev p by (simp add: null_predict_def)
  from report_adds_up [where pre = null_predict and obs = null_observe, OF this _ _ refl, of ?tr 2 "()"]
  show ?thesis by (simp add: sample_get_def)
qed

section \<open>The sketch never underestimates\<close>

definition sketch_ok :: "freq_sketch \<Rightarrow> bool" where
  "sketch_ok sk \<longleftrightarrow> 1 \<le> fk_width sk \<and> length (fk_seeds sk) = DEPTH \<and> length (fk_rows sk) = DEPTH
     \<and> list_all (\<lambda>row. length row = fk_width sk) (fk_rows sk)"

text \<open>The counter of key \<open>x\<close> in row \<open>d\<close>.\<close>

definition cell :: "(u64 \<Rightarrow> string \<Rightarrow> u64) \<Rightarrow> freq_sketch \<Rightarrow> string \<Rightarrow> nat \<Rightarrow> u16" where
  "cell h sk x d = fk_rows sk ! d ! sketch_idx h sk (fk_seeds sk ! d) x"

lemma sketch_est_min:
  assumes ok: "sketch_ok sk" and n: "\<And>d. d < DEPTH \<Longrightarrow> n \<le> unat (cell h sk x d)"
  shows "n \<le> unat (sketch_est h x sk)"
proof -
  let ?cs = "map2 (\<lambda>seed row. row ! sketch_idx h sk seed x) (fk_seeds sk) (fk_rows sk)"
  have len: "length ?cs = DEPTH" using ok by (simp add: sketch_ok_def)
  have all: "\<forall>c\<in>set ?cs. n \<le> unat c"
  proof
    fix c assume "c \<in> set ?cs"
    then obtain d where d: "d < length ?cs" "c = ?cs ! d" unfolding in_set_conv_nth by blast
    then have "c = cell h sk x d" by (simp add: cell_def)
    then show "n \<le> unat c" using n [of d] d(1) unfolding len by simp
  qed
  have fold: "n \<le> unat (fold min cs c)" if "\<forall>c\<in>set cs. n \<le> unat c" "n \<le> unat c" for cs and c :: u16
    using that by (induction cs arbitrary: c) (auto simp: min_def)
  from len have "?cs \<noteq> []" by (auto simp: DEPTH_def)
  then obtain c cs where cs: "?cs = c # cs" by (meson list.exhaust)
  then show ?thesis using all fold [of cs c] by (simp add: sketch_est_def)
qed

lemma sketch_incr_plain:
  assumes ok: "sketch_ok sk" and young: "fk_sample sk + 1 < fk_sample_max sk" and d: "d < DEPTH"
  shows "sketch_ok (sketch_incr h y sk)" "fk_sample (sketch_incr h y sk) = fk_sample sk + 1"
    "fk_sample_max (sketch_incr h y sk) = fk_sample_max sk"
    "cell h (sketch_incr h y sk) x d
      = (if sketch_idx h sk (fk_seeds sk ! d) x = sketch_idx h sk (fk_seeds sk ! d) y then sat_add (cell h sk x d) 1 else cell h sk x d)"
proof -
  have e: "sketch_incr h y sk = sk\<lparr>fk_rows := map2 (\<lambda>seed row. bump_row (sketch_idx h sk seed y) row) (fk_seeds sk) (fk_rows sk),
      fk_sample := fk_sample sk + 1\<rparr>"
    using young by (simp add: sketch_incr_def Let_def not_le)
  have row: "length (fk_rows sk ! d) = fk_width sk" using ok d by (simp add: sketch_ok_def list_all_length)
  have idx: "sketch_idx h sk seed z < fk_width sk" for seed z using ok by (simp add: sketch_ok_def sketch_idx_def)
  have si: "sketch_idx h (sketch_incr h y sk) seed z = sketch_idx h sk seed z" for seed z by (simp add: e sketch_idx_def)
  show "sketch_ok (sketch_incr h y sk)" using ok by (auto simp: e sketch_ok_def list_all_length bump_row_def)
  show "cell h (sketch_incr h y sk) x d
      = (if sketch_idx h sk (fk_seeds sk ! d) x = sketch_idx h sk (fk_seeds sk ! d) y then sat_add (cell h sk x d) 1 else cell h sk x d)"
    unfolding cell_def si using ok d row idx by (simp add: e sketch_ok_def bump_row_def nth_list_update)
  show "fk_sample (sketch_incr h y sk) = fk_sample sk + 1" "fk_sample_max (sketch_incr h y sk) = fk_sample_max sk"
    by (simp_all add: e)
qed

text \<open>The sketch never underestimates. Until the counters are first halved, the estimate of a key is at
  least the number of times it was counted, up to the largest 16-bit value, whatever the hash function.\<close>

theorem sketch_never_underestimates:
  assumes "length keys < unat sample_max"
  shows "min (count_list keys x) 65535 \<le> unat (sketch_est h x (fold (sketch_incr h) keys (sketch_new width sample_max)))"
proof -
  let ?init = "sketch_new width sample_max"
  have init: "sketch_ok ?init" "fk_sample ?init = 0" "fk_sample_max ?init = sample_max"
    by (simp_all add: sketch_ok_def sketch_new_def Let_def DEPTH_def list_all_iff)
  have "sketch_ok sk \<and> fk_sample_max sk = sample_max \<and> unat (fk_sample sk) = length keys
      \<and> (\<forall>d<DEPTH. min (count_list keys x) 65535 \<le> unat (cell h sk x d))"
    if "sk = fold (sketch_incr h) keys ?init" "length keys < unat sample_max" for sk
    using that
  proof (induction keys arbitrary: sk rule: rev_induct)
    case Nil
    then show ?case using init by simp
  next
    case (snoc y keys)
    let ?sk = "fold (sketch_incr h) keys ?init"
    from snoc.IH [OF refl] snoc.prems(2) have IH: "sketch_ok ?sk" "fk_sample_max ?sk = sample_max" "unat (fk_sample ?sk) = length keys"
      "\<forall>d<DEPTH. min (count_list keys x) 65535 \<le> unat (cell h ?sk x d)" by auto
    have "unat (fk_sample ?sk) + 1 < 2 ^ 64" using IH(3) snoc.prems(2) unat_bound [of sample_max] by simp
    then have n: "unat (fk_sample ?sk + 1) = Suc (length keys)" using IH(3) by (simp add: unat_word_ariths)
    then have young: "fk_sample ?sk + 1 < fk_sample_max ?sk" using snoc.prems(2) IH(2) by (simp add: word_less_nat_alt)
    have sk: "sk = sketch_incr h y ?sk" using snoc.prems(1) by simp
    have "min (count_list (keys @ [y]) x) 65535 \<le> unat (cell h sk x d)" if d: "d < DEPTH" for d
      using IH(4) d sketch_incr_plain(4) [OF IH(1) young d, of h y x]
      by (auto simp: sk unat_sat_add min_def split: if_splits)
    then show ?case using sketch_incr_plain(1-3) [OF IH(1) young, of 0] IH(2) n by (simp add: sk DEPTH_def)
  qed
  from this [OF refl assms] show ?thesis by (intro sketch_est_min) auto
qed

lemma sketch_never_underestimates_witness:
  "2 \<le> unat (sketch_est (\<lambda>_ k. of_nat (length k)) ''aa'' (fold (sketch_incr (\<lambda>_ k. of_nat (length k))) [''aa'', ''b'', ''aa''] (sketch_new 8 100)))"
  using sketch_never_underestimates [of "[''aa'', ''b'', ''aa'']" 100 "''aa''" "\<lambda>_ k. of_nat (length k)" 8] by simp

section \<open>The policies against the ceiling\<close>

definition admits :: "(u64 \<Rightarrow> string \<Rightarrow> u64) \<Rightarrow> string \<Rightarrow> sim \<Rightarrow> freq_sketch \<Rightarrow> bool" where
  "admits h k s sk \<longleftrightarrow> sim_len s < unat (sm_cap s)
     \<or> (case lru_victim s of Some v \<Rightarrow> sketch_est h v sk < sketch_est h k sk | None \<Rightarrow> True)"

lemma admission_access_eq:
  "admission_access h k (s, sk) = Some ((if snd (demand_read k 1 s) \<or> admits h k s (sketch_incr h k sk)
      then fst (demand_read k 1 s) else s, sketch_incr h k sk), snd (demand_read k 1 s))"
  by (cases "fmlookup (sm_by_id s) k")
    (auto simp: admission_access_def demand_read_def admits_def sim_access_def Let_def)

interpretation adm: bounded_cache "admission_access h" admission_invalidate "sim_held \<circ> fst" "sim_slots \<circ> fst"
    "\<lambda>n st. count_ok n (fst st)" "2 ^ 63 - 2"
  for h
proof unfold_locales
  fix n and st :: "sim \<times> freq_sketch" and k
  assume v: "count_ok n (fst st)" and n: "n < 2 ^ 63 - 2"
  obtain s sk where st: "st = (s, sk)" by force
  have v': "count_ok n s" using v by (simp add: st)
  from count_access_ok [OF v' n, of k] have d: "snd (demand_read k 1 s) = (k \<in> sim_held s)" "count_ok (Suc n) (fst (demand_read k 1 s))"
    "sim_slots (fst (demand_read k 1 s)) = sim_slots s" "sim_held (fst (demand_read k 1 s)) \<subseteq> insert k (sim_held s)"
    by (auto simp: count_access_def)
  have "count_ok (Suc n) s" using v' by (auto simp: count_ok_def sim_ok_def)
  with d show "\<exists>st'. admission_access h k st = Some (st', k \<in> (sim_held \<circ> fst) st) \<and> count_ok (Suc n) (fst st')
      \<and> (sim_slots \<circ> fst) st' = (sim_slots \<circ> fst) st \<and> (sim_held \<circ> fst) st' \<subseteq> insert k ((sim_held \<circ> fst) st)"
    by (simp add: st admission_access_eq) blast
next
  fix n and st :: "sim \<times> freq_sketch" and k
  assume "count_ok n (fst st)"
  then show "count_ok n (fst (admission_invalidate k st)) \<and> (sim_held \<circ> fst) (admission_invalidate k st) = (sim_held \<circ> fst) st - {k}
      \<and> (sim_slots \<circ> fst) (admission_invalidate k st) = (sim_slots \<circ> fst) st"
    using lru.invalidate_ok by (simp add: admission_invalidate_def)
next
  fix n and st :: "sim \<times> freq_sketch"
  assume "count_ok n (fst st)"
  then show "finite ((sim_held \<circ> fst) st) \<and> card ((sim_held \<circ> fst) st) \<le> (sim_slots \<circ> fst) st"
    using lru.bounded by simp
qed

text \<open>The reactive baseline is the simulator as a demand cache.\<close>

lemma run_null:
  "\<exists>a h. replay_loop count_access sim_invalidate evs s (re_accesses r) (re_hits r) = Some (a, h)
    \<and> re_accesses (snd (run_loop null_observe null_predict evs p (s, r))) = a
    \<and> re_hits (snd (run_loop null_observe null_predict evs p (s, r))) = h"
proof (induction evs arbitrary: s r)
  case (Cons ev evs)
  let ?k = "ne_object_id ev"
  have step: "count_access ?k s = Some (fst (read_step ?k (s, r)), snd (demand_read ?k 1 s))"
    "re_accesses (snd (read_step ?k (s, r))) = re_accesses r + 1"
    "re_hits (snd (read_step ?k (s, r))) = (if snd (demand_read ?k 1 s) then re_hits r + 1 else re_hits r)"
    by (cases "fmlookup (sm_by_id s) ?k"; simp add: count_access_def demand_read_def read_step_def sim_access_def Let_def)+
  show ?case
  proof (cases "ne_op ev")
    case Get
    obtain s1 r1 where sr: "read_step ?k (s, r) = (s1, r1)" by force
    from Cons.IH [of s1 r1] step show ?thesis by (simp add: Get sr null_predict_def null_observe_def split: if_splits)
  qed (use Cons.IH in simp_all)
qed simp

lemma count_ok_new: "1 \<le> unat cap \<Longrightarrow> unat cap < 2 ^ 63 \<Longrightarrow> count_ok 0 (sim_new cap)"
    "sim_held (sim_new cap) = {}" "sim_slots (sim_new cap) = unat cap"
  using sim_ok_new [of cap] by (simp_all add: count_ok_def sim_slots_def sim_held_def) (simp_all add: sim_new_def)

lemma s3_valid_new: "s3_valid 0 (s3_new tenth cap)" "s3_held (s3_new tenth cap) = {}" "q3_cap (s3_new tenth cap) = max cap 1"
proof -
  have new: "s3_abs (s3_new tenth cap) = \<lparr>fq_s = [], fq_m = [], fq_g = []\<rparr>" "q3_cap (s3_new tenth cap) = max cap 1"
    by (simp_all add: s3_new_def Let_def s3_abs_def fifo_def ghosts_def)
  show "s3_valid 0 (s3_new tenth cap)" unfolding s3_valid_def s3_ok_def new
    by (simp add: s3_new_def Let_def queue_ok_def ghost_ok_def owed_stamps_def fifo_inv_def fifo_keys_def fifo_size_def s3_bounded_def)
  show "s3_held (s3_new tenth cap) = {}" unfolding s3_held_def new by (simp add: fifo_keys_def)
qed (simp add: s3_new_def Let_def)

lemma gets_le_length: "gets evs \<le> length evs"
  by (induction evs) auto

text \<open>Each of the demand caches returns and counts the reads, and the reference bounds its hits.\<close>

definition opt_hits :: "norm_event list \<Rightarrow> u64 \<Rightarrow> nat" where
  "opt_hits trace c = snd (opt_counts trace (unat c))"

lemma policies_below:
  assumes "1 \<le> unat cap" and "unat cap < 2 ^ 63" and "length trace < 2 ^ 63 - 2"
  shows "opt_counts trace (unat cap) = (gets trace, opt_hits trace cap)"
    and "re_accesses (run null_observe null_predict trace () cap) = gets trace"
    and "re_hits (run null_observe null_predict trace () cap) \<le> opt_hits trace cap"
    and "\<exists>h. replay_loop (admission_access hash) admission_invalidate trace (admission_new cap) 0 0 = Some (gets trace, h) \<and> h \<le> opt_hits trace cap"
    and "\<exists>h. replay_loop arc_step arc_invalidate trace (arc_new (unat cap)) 0 0 = Some (gets trace, h) \<and> h \<le> opt_hits trace cap"
    and "\<exists>h. replay_loop s3_access s3_invalidate trace (s3_new tenth (unat cap)) 0 0 = Some (gets trace, h) \<and> h \<le> opt_hits trace cap"
proof -
  have len: "length trace \<le> NEVER" "gets trace \<le> 2 ^ 63 - 2" "gets trace \<le> 2 ^ 63 - 1" "gets trace \<le> 2 ^ 64 - 1"
    using assms(3) gets_le_length [of trace] by (simp_all add: NEVER_def)
  note new = count_ok_new(1) [OF assms(1,2)] count_ok_new(2,3) [of cap]
  have m: "max (unat cap) 1 = unat cap" using assms(1) by simp
  obtain hl where l: "replay_loop count_access sim_invalidate trace (sim_new cap) 0 0 = Some (gets trace, hl)"
      "fst (opt_counts trace (unat cap)) = gets trace" "hl \<le> opt_hits trace cap"
    using lru.replay_below_ceiling [OF new(1,2) _ len(2,1), of "unat cap"] new(3) by (auto simp: opt_hits_def)
  show "opt_counts trace (unat cap) = (gets trace, opt_hits trace cap)" using l(2) by (simp add: opt_hits_def prod_eq_iff)
  show "re_accesses (run null_observe null_predict trace () cap) = gets trace"
    and "re_hits (run null_observe null_predict trace () cap) \<le> opt_hits trace cap"
    using run_null [of trace "sim_new cap" report_default "()"] l(1,3) by (simp_all add: run_def report_default_def)
  show "\<exists>h. replay_loop (admission_access hash) admission_invalidate trace (admission_new cap) 0 0 = Some (gets trace, h) \<and> h \<le> opt_hits trace cap"
    using adm.replay_below_ceiling [of "admission_new cap" "unat cap" trace hash] new len(1,2) by (auto simp: admission_new_def opt_hits_def)
  show "\<exists>h. replay_loop arc_step arc_invalidate trace (arc_new (unat cap)) 0 0 = Some (gets trace, h) \<and> h \<le> opt_hits trace cap"
    using arc.replay_below_ceiling [OF arc_valid_new _ len(4,1), of "unat cap" "unat cap"] m by (auto simp: arc_new_def opt_hits_def)
  show "\<exists>h. replay_loop s3_access s3_invalidate trace (s3_new tenth (unat cap)) 0 0 = Some (gets trace, h) \<and> h \<le> opt_hits trace cap"
    using s3.replay_below_ceiling [OF s3_valid_new(1,2) _ len(3,1), of tenth "unat cap" "unat cap"] m by (auto simp: s3_valid_new(3) opt_hits_def)
qed

text \<open>C2: the ceiling is one. At any capacity of at least one object, every row of the sweep counts the same
  reads, and no policy (LRU, LRU with admission under any hash function, ARC, S3-FIFO with any small
  queue) has more hits than the reference that knows the future, writes included.\<close>

theorem ceiling_holds:
  assumes "1 \<le> unat cap" and "unat cap < 2 ^ 63" and "length trace < 2 ^ 63 - 2"
  shows "\<exists>best. belady_hit_rates trace [cap] = [(cap, gets trace, best)]
    \<and> re_hits (run null_observe null_predict trace () cap) \<le> best
    \<and> (\<exists>h. eval_admission_caps hash trace [cap] = [(cap, Some (gets trace, h))] \<and> h \<le> best)
    \<and> (\<exists>h. eval_arc_caps trace [cap] = [(cap, Some (gets trace, h))] \<and> h \<le> best)
    \<and> (\<exists>h. eval_s3fifo_caps tenth trace [cap] = [(cap, Some (gets trace, h))] \<and> h \<le> best)"
  using policies_below [OF assms]
  by (intro exI [of _ "opt_hits trace cap"])
    (simp add: belady_hit_rates_def eval_admission_caps_def eval_arc_caps_def eval_s3fifo_caps_def)

text \<open>With room, every admitting policy is ideal. When the capacity holds every object the trace reads, LRU,
  ARC and S3-FIFO hit exactly when the object was read before and not written since.\<close>

theorem ideal_with_room:
  assumes "unat cap < 2 ^ 63" and "1 \<le> unat cap" and "card (read_objects trace) \<le> unat cap" and "length trace < 2 ^ 63 - 2"
  shows "re_hits (run null_observe null_predict trace () cap) = ideal_hits {} trace
    \<and> eval_arc_caps trace [cap] = [(cap, Some (gets trace, ideal_hits {} trace))]
    \<and> eval_s3fifo_caps tenth trace [cap] = [(cap, Some (gets trace, ideal_hits {} trace))]"
proof -
  have len: "0 + gets trace \<le> 2 ^ 63 - 2" "0 + gets trace \<le> 2 ^ 63 - 1" "0 + gets trace \<le> 2 ^ 64 - 1"
    using assms(4) gets_le_length [of trace] by simp_all
  note new = count_ok_new(1) [OF assms(2,1)] count_ok_new(2,3) [of cap]
  have m: "max (unat cap) 1 = unat cap" using assms(2) by simp
  have "replay_loop count_access sim_invalidate trace (sim_new cap) 0 0 = Some (gets trace, ideal_hits {} trace)"
    using lru.replay_complete [OF new(1) len(1)] new(2,3) assms(3) by simp
  then have "re_hits (run null_observe null_predict trace () cap) = ideal_hits {} trace"
    using run_null [of trace "sim_new cap" report_default "()"] by (simp add: run_def report_default_def)
  moreover have "replay_loop arc_step arc_invalidate trace (arc_new (unat cap)) 0 0 = Some (gets trace, ideal_hits {} trace)"
    using arc.replay_complete [OF arc_valid_new(1) len(3), of "unat cap" 0 0] arc_valid_new(2) [of "unat cap"] assms(3) m
    by (simp add: arc_new_def)
  moreover have "replay_loop s3_access s3_invalidate trace (s3_new tenth (unat cap)) 0 0 = Some (gets trace, ideal_hits {} trace)"
    using s3.replay_complete [OF s3_valid_new(1) len(2), of tenth "unat cap" 0 0] assms(3) m by (simp add: s3_valid_new)
  ultimately show ?thesis by (simp add: eval_arc_caps_def eval_s3fifo_caps_def)
qed

definition sample_write :: "string \<Rightarrow> norm_event" where
  "sample_write k = (sample_get k 1)\<lparr>ne_op := Put\<rparr>"

lemma ceiling_holds_witness:
  "\<exists>best h. belady_hit_rates [sample_get ''a'' 1, sample_get ''b'' 1, sample_write ''b'', sample_get ''a'' 1] [1] = [(1, 3, best)]
    \<and> eval_arc_caps [sample_get ''a'' 1, sample_get ''b'' 1, sample_write ''b'', sample_get ''a'' 1] [1] = [(1, Some (3, h))] \<and> h \<le> best"
proof -
  let ?tr = "[sample_get ''a'' 1, sample_get ''b'' 1, sample_write ''b'', sample_get ''a'' 1]"
  have "gets ?tr = 3" by (simp add: sample_get_def sample_write_def)
  moreover from ceiling_holds [of 1 ?tr "\<lambda>_ _. 0" "\<lambda>_. 0"] obtain best h where
    "belady_hit_rates ?tr [1] = [(1, gets ?tr, best)]" "eval_arc_caps ?tr [1] = [(1, Some (gets ?tr, h))]" "h \<le> best" by auto
  ultimately show ?thesis by metis
qed

lemma ideal_with_room_witness:
  "eval_arc_caps [sample_get ''a'' 1, sample_get ''b'' 1, sample_write ''b'', sample_get ''a'' 1, sample_get ''b'' 1] [2] = [(2, Some (4, 1))]"
proof -
  let ?tr = "[sample_get ''a'' 1, sample_get ''b'' 1, sample_write ''b'', sample_get ''a'' 1, sample_get ''b'' 1]"
  have "gets ?tr = 4" "ideal_hits {} ?tr = 1" by (simp_all add: sample_get_def sample_write_def)
  moreover have "read_objects ?tr = {''a'', ''b''}" by (auto simp: sample_get_def sample_write_def)
  then have "card (read_objects ?tr) \<le> 2" by simp
  ultimately show ?thesis using ideal_with_room [of 2 ?tr "\<lambda>_. 0"] by simp
qed

end
