(* ===== verification/Predict.thy ===== *)
theory Predict
  imports RustStr Replay "HOL-Library.Multiset"
begin

text \<open>
  The prefetch predictors of \<open>crates/s3tap-replay/src/predict.rs\<close>: popularity, Markov, sequential
  read-ahead and co-occurrence. Markov and co-occurrence keep the same bounded table of counts, a row
  per context with first-in first-out eviction of whole rows. Where the code ranks the entries of a
  hash map by a total order, the model ranks them in ascending order of their keys. The adaptive
  predictor weighs these four by float averages and is not modelled.
\<close>

section \<open>Popularity\<close>

record freq_pred =
  fp_k :: nat
  fp_counts :: "(string, u64) fmap"
  fp_top :: "string list"
  fp_top_set :: "string fset"

definition freq_new :: "nat \<Rightarrow> freq_pred" where
  "freq_new k = \<lparr>fp_k = k, fp_counts = fmempty, fp_top = [], fp_top_set = {||}\<rparr>"

definition count_of :: "(string, u64) fmap \<Rightarrow> string \<Rightarrow> u64" where
  "count_of m x = (case fmlookup m x of Some c \<Rightarrow> c | None \<Rightarrow> 0)"

text \<open>The first least count and its index, as \<open>min_by_key\<close> finds it.\<close>

fun first_min :: "u64 list \<Rightarrow> (nat \<times> u64) option" where
  "first_min [] = None"
| "first_min (c # cs) =
    Some (case first_min cs of None \<Rightarrow> (0, c) | Some (i, m) \<Rightarrow> if m < c then (i + 1, m) else (0, c))"

definition freq_observe :: "freq_pred observe" where
  "freq_observe ev p0 =
    (let ob = ne_object_id ev;
         c = count_of (fp_counts p0) ob + 1;
         p = p0\<lparr>fp_counts := fmupd ob c (fp_counts p0)\<rparr>
     in if fp_k p = 0 \<or> ob |\<in>| fp_top_set p then p
        else if length (fp_top p) < fp_k p then p\<lparr>fp_top := fp_top p @ [ob], fp_top_set := finsert ob (fp_top_set p)\<rparr>
        else (case first_min (map (count_of (fp_counts p)) (fp_top p)) of
                None \<Rightarrow> p
              | Some (weak_idx, weak_count) \<Rightarrow>
                  if weak_count < c
                  then p\<lparr>fp_top := (fp_top p)[weak_idx := ob],
                         fp_top_set := finsert ob (fp_top_set p |-| {|fp_top p ! weak_idx|})\<rparr>
                  else p))"

text \<open>Hottest first, equal counts by identity.\<close>

definition rank_key :: "u64 \<Rightarrow> string \<Rightarrow> int \<times> string" where
  "rank_key c x = (- int (unat c), x)"

definition freq_predict :: "freq_pred predict" where
  "freq_predict ev p =
    (p, sort_key (\<lambda>x. rank_key (count_of (fp_counts p) x) x) (filter (\<lambda>x. x \<noteq> ne_object_id ev) (fp_top p)))"

section \<open>A bounded table of counts\<close>

record count_table =
  ct_rows :: "(string, (string, u64) fmap) fmap"
  ct_fifo :: "string list"

definition table_empty :: count_table where
  "table_empty = \<lparr>ct_rows = fmempty, ct_fifo = []\<rparr>"

definition row_bump :: "nat \<Rightarrow> string \<Rightarrow> (string, u64) fmap \<Rightarrow> (string, u64) fmap" where
  "row_bump max_cells b row =
    (case fmlookup row b of
       Some c \<Rightarrow> fmupd b (c + 1) row
     | None \<Rightarrow> if fmlen row < max_cells then fmupd b 1 row else row)"

definition table_row :: "count_table \<Rightarrow> string \<Rightarrow> (string, u64) fmap" where
  "table_row t a = (case fmlookup (ct_rows t) a of Some row \<Rightarrow> row | None \<Rightarrow> fmempty)"

definition table_bump :: "nat \<Rightarrow> nat \<Rightarrow> string \<Rightarrow> string \<Rightarrow> count_table \<Rightarrow> count_table" where
  "table_bump max_rows max_cells a b t =
    (let is_new = (fmlookup (ct_rows t) a = None);
         t1 = t\<lparr>ct_rows := fmupd a (row_bump max_cells b (table_row t a)) (ct_rows t)\<rparr>
     in if is_new then
          (let t2 = t1\<lparr>ct_fifo := ct_fifo t1 @ [a]\<rparr> in
           if max_rows < fmlen (ct_rows t2) then
             (case ct_fifo t2 of
                [] \<Rightarrow> t2
              | old # rest \<Rightarrow> t2\<lparr>ct_fifo := rest, ct_rows := fmdrop old (ct_rows t2)\<rparr>)
           else t2)
        else t1)"

definition ranked :: "nat \<Rightarrow> (string, u64) fmap \<Rightarrow> string list" where
  "ranked k row = map fst (take k (sort_key (\<lambda>(x, c). rank_key c x) (sorted_list_of_fmap row)))"

section \<open>Markov\<close>

record markov =
  mk_k :: nat
  mk_order :: nat
  mk_history :: "string list"
  mk_table :: count_table
  mk_max_contexts :: nat
  mk_max_successors :: nat

definition markov_with_order :: "nat \<Rightarrow> nat \<Rightarrow> markov" where
  "markov_with_order k order =
    \<lparr>mk_k = k, mk_order = max order 1, mk_history = [], mk_table = table_empty, mk_max_contexts = 200000, mk_max_successors = 256\<rparr>"

definition unit_separator :: string where "unit_separator = [CHR 0x1F]"

definition context_key :: "markov \<Rightarrow> string option" where
  "context_key p = (if length (mk_history p) = mk_order p then Some (join unit_separator (mk_history p)) else None)"

definition markov_observe :: "markov observe" where
  "markov_observe ev p0 =
    (let p1 = (case context_key p0 of
                 None \<Rightarrow> p0
               | Some key \<Rightarrow> p0\<lparr>mk_table := table_bump (mk_max_contexts p0) (mk_max_successors p0) key (ne_object_id ev) (mk_table p0)\<rparr>);
         h = mk_history p1 @ [ne_object_id ev]
     in p1\<lparr>mk_history := (if mk_order p1 < length h then tl h else h)\<rparr>)"

definition markov_predict :: "markov predict" where
  "markov_predict ev p =
    (p, case context_key p of
          None \<Rightarrow> []
        | Some key \<Rightarrow> (case fmlookup (ct_rows (mk_table p)) key of None \<Rightarrow> [] | Some succ \<Rightarrow> ranked (mk_k p) succ))"

section \<open>Sequential read-ahead and co-occurrence\<close>

definition seq_observe :: "nat observe" where "seq_observe ev k = k"

definition seq_predict :: "nat predict" where
  "seq_predict ev k =
    (k, case rsplit_once CHR ''#'' (ne_object_id ev) of
          None \<Rightarrow> []
        | Some (base, num) \<Rightarrow>
            (case parse_u64 num of
               None \<Rightarrow> []
             | Some n \<Rightarrow>
                 concat (map (\<lambda>d. if unat n + d < 2 ^ 64 then [base @ ''#'' @ dec_string (unat n + d)] else []) [1..<Suc k])))"

record cooc =
  co_k :: nat
  co_window :: nat
  co_max_objects :: nat
  co_max_partners :: nat
  co_recent :: "string list"
  co_table :: count_table

definition cooc_new :: "nat \<Rightarrow> cooc" where
  "cooc_new k = \<lparr>co_k = k, co_window = 32, co_max_objects = 100000, co_max_partners = 256, co_recent = [], co_table = table_empty\<rparr>"

definition cooc_bump :: "string \<Rightarrow> string \<Rightarrow> cooc \<Rightarrow> cooc" where
  "cooc_bump a b p = p\<lparr>co_table := table_bump (co_max_objects p) (co_max_partners p) a b (co_table p)\<rparr>"

definition cooc_observe :: "cooc observe" where
  "cooc_observe ev p0 =
    (let cur = ne_object_id ev;
         partners = remdups_adj (sort (filter (\<lambda>x. x \<noteq> cur) (co_recent p0)));
         p1 = fold (\<lambda>ob. cooc_bump ob cur \<circ> cooc_bump cur ob) partners p0;
         r = co_recent p1 @ [cur]
     in p1\<lparr>co_recent := (if co_window p1 < length r then tl r else r)\<rparr>)"

definition cooc_predict :: "cooc predict" where
  "cooc_predict ev p =
    (p, case fmlookup (ct_rows (co_table p)) (ne_object_id ev) of None \<Rightarrow> [] | Some m \<Rightarrow> ranked (co_k p) m)"

section \<open>The popular set is an exact one\<close>

lemma first_min_Some:
  "first_min cs = Some (i, m) \<Longrightarrow> i < length cs \<and> cs ! i = m \<and> (\<forall>c\<in>set cs. m \<le> c)"
proof (induction cs arbitrary: i m)
  case (Cons c cs)
  then show ?case
  proof (cases "first_min cs")
    case None
    then show ?thesis using Cons.prems by (cases cs) auto
  next
    case (Some q)
    then show ?thesis using Cons.prems Cons.IH [of "fst q" "snd q"]
      by (cases q) (auto split: if_splits)
  qed
qed simp

lemma unat_count: "length xs < 2 ^ 64 \<Longrightarrow> unat (of_nat (count_list xs y) :: u64) = count_list xs y"
  using count_le_length [of xs y] by (simp add: unat_of_nat)

lemma first_min_None [simp]: "first_min cs = None \<longleftrightarrow> cs = []"
  by (cases cs) auto

text \<open>After a trace of reads: counts are exact, and no untracked object was read more often than a tracked one.\<close>

definition freq_ok :: "nat \<Rightarrow> string list \<Rightarrow> freq_pred \<Rightarrow> bool" where
  "freq_ok k ids p \<longleftrightarrow> fp_k p = k \<and> fset (fp_top_set p) = set (fp_top p) \<and> distinct (fp_top p) \<and> set (fp_top p) \<subseteq> set ids
    \<and> length (fp_top p) = min k (card (set ids))
    \<and> (\<forall>x. count_of (fp_counts p) x = of_nat (count_list ids x))
    \<and> (\<forall>x\<in>set (fp_top p). \<forall>y\<in>set ids - set (fp_top p). count_list ids y \<le> count_list ids x)"

lemma freq_observe_ok:
  assumes ok: "freq_ok k ids p" and len: "length ids + 1 < 2 ^ 64"
  shows "freq_ok k (ids @ [ne_object_id ev]) (freq_observe ev p)"
proof -
  let ?x = "ne_object_id ev" and ?ids = "ids @ [ne_object_id ev]"
  let ?c = "\<lambda>y. count_list ?ids y"
  let ?counts = "fmupd ?x (count_of (fp_counts p) ?x + 1) (fp_counts p)"
  have counts: "count_of ?counts y = of_nat (?c y)" for y
    using ok by (auto simp: freq_ok_def count_of_def)
  have small: "unat (of_nat (?c y) :: u64) = ?c y" for y
    using len by (intro unat_count) simp
  have old: "x \<in> set (fp_top p) \<Longrightarrow> y \<in> set ids \<Longrightarrow> y \<notin> set (fp_top p) \<Longrightarrow> count_list ids y \<le> count_list ids x" for x y
    using ok by (auto simp: freq_ok_def)
  show ?thesis
  proof (cases "fp_k p = 0 \<or> ?x \<in> set (fp_top p)")
    case True
    moreover have "freq_observe ev p = p\<lparr>fp_counts := ?counts\<rparr>"
      using True ok by (auto simp: freq_observe_def freq_ok_def Let_def fset_eq_iff)
    moreover have "?c y \<le> ?c x" if "x \<in> set (fp_top p)" "y \<in> set ?ids - set (fp_top p)" for x y
      using that True old [of x y] ok by (auto simp: freq_ok_def le_SucI)
    ultimately show ?thesis using ok counts by (auto simp: freq_ok_def insert_absorb)
  next
    case untracked: False
    then have mem: "?x |\<notin>| fp_top_set p" "fp_k p \<noteq> 0" "?x \<notin> set (fp_top p)" using ok by (auto simp: freq_ok_def)
    show ?thesis
    proof (cases "length (fp_top p) < k")
      case True
      then have "set (fp_top p) = set ids"
        using ok by (intro card_subset_eq) (auto simp: freq_ok_def distinct_card)
      moreover have "freq_observe ev p = p\<lparr>fp_counts := ?counts, fp_top := fp_top p @ [?x], fp_top_set := finsert ?x (fp_top_set p)\<rparr>"
        using mem True ok by (simp add: freq_observe_def freq_ok_def Let_def)
      ultimately show ?thesis using ok mem counts True by (auto simp: freq_ok_def)
    next
      case full: False
      let ?cs = "map (count_of ?counts) (fp_top p)"
      have lens: "length (fp_top p) = k" "fp_top p \<noteq> []" "k \<le> card (set ids)" "fp_k p = k" using ok full mem(2) by (auto simp: freq_ok_def)
      then obtain i m where im: "first_min ?cs = Some (i, m)" by (metis first_min_None map_is_Nil_conv option.exhaust surj_pair)
      let ?w = "fp_top p ! i"
      have w1: "i < length (fp_top p)" "m = of_nat (?c ?w)" using first_min_Some [OF im] counts [of ?w] by auto
      have w: "?c ?w \<le> ?c x" if "x \<in> set (fp_top p)" for x
      proof -
        have "m \<le> count_of ?counts x" using first_min_Some [OF im] that by auto
        then show ?thesis unfolding w1(2) counts word_le_nat_alt small .
      qed
      have obs: "freq_observe ev p = (if m < count_of (fp_counts p) ?x + 1
          then p\<lparr>fp_counts := ?counts, fp_top := (fp_top p)[i := ?x], fp_top_set := finsert ?x (fp_top_set p |-| {|?w|})\<rparr>
          else p\<lparr>fp_counts := ?counts\<rparr>)"
        using mem lens im by (simp add: freq_observe_def Let_def)
      have "count_of (fp_counts p) ?x + 1 = of_nat (?c ?x)" using counts [of ?x] by (simp add: count_of_def)
      then have lt: "m < count_of (fp_counts p) ?x + 1 \<longleftrightarrow> ?c ?w < ?c ?x" unfolding w1(2) word_less_nat_alt by (simp only: small)
      have cx: "y \<noteq> ?x \<Longrightarrow> ?c y = count_list ids y" for y by simp
      have card: "min k (card (set ?ids)) = k" using lens(3) by (simp add: card_insert_if)
      show ?thesis
      proof (cases "?c ?w < ?c ?x")
        case False
        then have "freq_observe ev p = p\<lparr>fp_counts := ?counts\<rparr>" by (simp add: obs lt)
        moreover have "?c y \<le> ?c x" if "x \<in> set (fp_top p)" "y \<in> set ?ids - set (fp_top p)" for x y
          using that old [of x y] w [of x] False mem(3) by (cases "y = ?x") auto
        ultimately show ?thesis using ok counts card lens(1) by (auto simp: freq_ok_def)
      next
        case True
        have top: "set ((fp_top p)[i := ?x]) = insert ?x (set (fp_top p) - {?w})"
          using ok w1(1) by (intro set_update_distinct) (auto simp: freq_ok_def)
        then have "freq_observe ev p = p\<lparr>fp_counts := ?counts, fp_top := (fp_top p)[i := ?x], fp_top_set := finsert ?x (fp_top_set p |-| {|?w|})\<rparr>"
          using True by (simp add: obs lt)
        moreover have "distinct ((fp_top p)[i := ?x])"
          using ok mem(3) by (auto simp: freq_ok_def intro: distinct_list_update)
        moreover have "?c y \<le> ?c x" if "x \<in> insert ?x (set (fp_top p) - {?w})" "y \<in> set ?ids - insert ?x (set (fp_top p) - {?w})" for x y
        proof -
          have y: "y \<noteq> ?x" "y = ?w \<or> (y \<in> set ids \<and> y \<notin> set (fp_top p))" using that(2) by auto
          have "?c y \<le> ?c ?w" using y old [of ?w y] w1(1) by auto
          also have "\<dots> \<le> ?c x" using that(1) w [of x] True by auto
          finally show ?thesis .
        qed
        ultimately show ?thesis using ok counts card lens top by (auto simp: freq_ok_def)
      qed
    qed
  qed
qed

lemma freq_run_ok:
  assumes "length evs < 2 ^ 64"
  shows "freq_ok k (map ne_object_id evs) (fold freq_observe evs (freq_new k))"
  using assms
proof (induction evs rule: rev_induct)
  case Nil
  then show ?case by (simp add: freq_ok_def freq_new_def count_of_def)
next
  case (snoc ev evs)
  then show ?case using freq_observe_ok [of k "map ne_object_id evs" "fold freq_observe evs (freq_new k)" ev] by simp
qed

lemma sort_key_cong_on: "(\<And>x. x \<in> set xs \<Longrightarrow> f x = g x) \<Longrightarrow> sort_key f xs = sort_key g xs"
proof (induction xs)
  case (Cons x xs)
  have "insort_key f x ys = insort_key g x ys" if "set ys \<subseteq> set xs" for ys
    using that Cons.prems by (induction ys) auto
  then show ?case using Cons by simp
qed simp

text \<open>The popularity predictor tracks an exact top set. Maintained one read at a time, it holds as many objects
  as it may, or all of them; no untracked object was read more often than a tracked one; and a
  prediction is the tracked objects but the current one, hottest first.\<close>

theorem frequency_tracks_top_k:
  assumes "length evs < 2 ^ 64" and "ids = map ne_object_id evs"
  shows "\<exists>top. distinct top \<and> set top \<subseteq> set ids \<and> length top = min k (card (set ids))
    \<and> (\<forall>x\<in>set top. \<forall>y\<in>set ids - set top. count_list ids y \<le> count_list ids x)
    \<and> (\<forall>ev. snd (freq_predict ev (fold freq_observe evs (freq_new k)))
          = sort_key (\<lambda>x. (- int (count_list ids x), x)) (filter (\<lambda>x. x \<noteq> ne_object_id ev) top))"
proof -
  let ?p = "fold freq_observe evs (freq_new k)"
  have ok: "freq_ok k ids ?p" using freq_run_ok [OF assms(1)] by (simp add: assms(2))
  have "rank_key (count_of (fp_counts ?p) x) x = (- int (count_list ids x), x)" for x
    using ok assms unat_count [of ids x] by (simp add: freq_ok_def rank_key_def)
  then show ?thesis using ok unfolding freq_predict_def freq_ok_def by (intro exI [of _ "fp_top ?p"]) simp
qed

lemma frequency_tracks_top_k_witness:
  "\<exists>top. length top = 2 \<and> set top \<subseteq> {''a'', ''b'', ''c''}
    \<and> snd (freq_predict (sample_get ''d'' 1) (fold freq_observe (map (\<lambda>k. sample_get k 1) [''a'', ''b'', ''c'', ''b'']) (freq_new 2))) =
       sort_key (\<lambda>x. (- int (count_list [''a'', ''b'', ''c'', ''b''] x), x)) (filter (\<lambda>x. x \<noteq> ''d'') top)"
proof -
  have "length (map (\<lambda>k. sample_get k 1) [''a'', ''b'', ''c'', ''b'']) < 2 ^ 64" "[''a'', ''b'', ''c'', ''b''] = map ne_object_id (map (\<lambda>k. sample_get k 1) [''a'', ''b'', ''c'', ''b''])"
    by (simp_all add: sample_get_def)
  from frequency_tracks_top_k [OF this, of 2] obtain top where top: "set top \<subseteq> set [''a'', ''b'', ''c'', ''b'']"
    "length top = min 2 (card (set [''a'', ''b'', ''c'', ''b'']))"
    "\<And>ev. snd (freq_predict ev (fold freq_observe (map (\<lambda>k. sample_get k 1) [''a'', ''b'', ''c'', ''b'']) (freq_new 2)))
      = sort_key (\<lambda>x. (- int (count_list [''a'', ''b'', ''c'', ''b''] x), x)) (filter (\<lambda>x. x \<noteq> ne_object_id ev) top)" by blast
  have "ne_object_id (sample_get ''d'' 1) = ''d''" "set top \<subseteq> {''a'', ''b'', ''c''}" "length top = 2"
    using top(1,2) by (auto simp: sample_get_def card_insert_if)
  with top(3) [of "sample_get ''d'' 1"] show ?thesis by (intro exI [of _ top]) (simp only: simp_thms)
qed

section \<open>The tables stay bounded\<close>

definition table_ok :: "nat \<Rightarrow> nat \<Rightarrow> count_table \<Rightarrow> bool" where
  "table_ok max_rows max_cells t \<longleftrightarrow> distinct (ct_fifo t) \<and> set (ct_fifo t) = fmdom' (ct_rows t) \<and> length (ct_fifo t) \<le> max_rows
    \<and> (\<forall>a row. fmlookup (ct_rows t) a = Some row \<longrightarrow> fmlen row \<le> max_cells)"

lemma table_ok_empty: "table_ok R C table_empty"
  by (simp add: table_ok_def table_empty_def)

lemma row_bump_bounded: "fmlen row \<le> C \<Longrightarrow> fmlen (row_bump C b row) \<le> C"
  by (auto simp: row_bump_def fmlen_upd in_fmdom'_iff split: option.split)

lemma table_row_bounded: "table_ok R C t \<Longrightarrow> fmlen (table_row t a) \<le> C"
  by (auto simp: table_ok_def table_row_def split: option.split)

lemma table_ok_len: "table_ok R C t \<Longrightarrow> fmlen (ct_rows t) = length (ct_fifo t)"
  by (metis table_ok_def fmlen_def distinct_card)

lemma table_bump_ok:
  assumes ok: "table_ok R C t"
  shows "table_ok R C (table_bump R C a b t)"
proof -
  let ?row = "row_bump C b (table_row t a)"
  have row: "fmlen ?row \<le> C" by (intro row_bump_bounded table_row_bounded [OF ok])
  show ?thesis
  proof (cases "fmlookup (ct_rows t) a")
    case (Some r)
    then have "a \<in> fmdom' (ct_rows t)" by (rule fmdom'I)
    then show ?thesis using ok row Some by (auto simp: table_bump_def table_ok_def Let_def)
  next
    case None
    then have new: "a \<notin> set (ct_fifo t)" using ok by (auto simp: table_ok_def in_fmdom'_iff)
    have len: "fmlen (fmupd a ?row (ct_rows t)) = length (ct_fifo t) + 1"
      using table_ok_len [OF ok] None by (simp add: fmlen_upd in_fmdom'_iff)
    show ?thesis
    proof (cases "ct_fifo t")
      case Nil
      then show ?thesis using ok row None new len by (auto simp: table_bump_def table_ok_def Let_def)
    next
      case (Cons old rest)
      then have "old \<noteq> a" using new by auto
      with Cons show ?thesis using ok row None new len by (auto simp: table_bump_def table_ok_def Let_def split: if_splits)
    qed
  qed
qed

section \<open>Within its bounds a table counts exactly\<close>

definition followers :: "(string \<times> string) list \<Rightarrow> string \<Rightarrow> string list" where
  "followers ps a = map snd (filter (\<lambda>p. fst p = a) ps)"

definition row_counts :: "string list \<Rightarrow> (string, u64) fmap \<Rightarrow> bool" where
  "row_counts fs row \<longleftrightarrow> (\<forall>b. fmlookup row b = (if b \<in> set fs then Some (of_nat (count_list fs b)) else None))"

definition table_counts :: "(string \<times> string) list \<Rightarrow> count_table \<Rightarrow> bool" where
  "table_counts ps t \<longleftrightarrow> (\<forall>a. case fmlookup (ct_rows t) a of
     None \<Rightarrow> followers ps a = [] | Some row \<Rightarrow> followers ps a \<noteq> [] \<and> row_counts (followers ps a) row)"

definition fits :: "nat \<Rightarrow> nat \<Rightarrow> (string \<times> string) list \<Rightarrow> bool" where
  "fits R C ps \<longleftrightarrow> card (fst ` set ps) \<le> R \<and> (\<forall>a. card (set (followers ps a)) \<le> C)"

lemma followers_append [simp]: "followers (ps @ qs) a = followers ps a @ followers qs a"
  by (simp add: followers_def)

lemma followers_single [simp]: "followers [(a, b)] x = (if x = a then [b] else [])"
  by (auto simp: followers_def)

lemma followers_eq_Nil: "followers ps a = [] \<longleftrightarrow> a \<notin> fst ` set ps"
  by (auto simp: followers_def filter_empty_conv)

lemma row_counts_dom: "row_counts fs row \<Longrightarrow> fmdom' row = set fs"
  by (auto simp: row_counts_def fmlookup_dom'_iff split: if_splits)

lemma row_bump_counts:
  assumes "row_counts fs row" and "card (set (fs @ [b])) \<le> C"
  shows "row_counts (fs @ [b]) (row_bump C b row)"
proof (cases "b \<in> set fs")
  case True
  then show ?thesis using assms(1) by (auto simp: row_counts_def row_bump_def add.commute)
next
  case False
  then have "fmlen row < C" using assms(2) row_counts_dom [OF assms(1)] by (simp add: fmlen_def)
  then show ?thesis using assms(1) False by (auto simp: row_counts_def row_bump_def)
qed

lemma table_counts_dom: "table_counts ps t \<Longrightarrow> fmdom' (ct_rows t) = fst ` set ps"
  unfolding table_counts_def followers_eq_Nil by (force simp: fmlookup_dom'_iff split: option.splits)

lemma table_bump_counts:
  assumes cnt: "table_counts ps t" and fit: "fits R C (ps @ [(a, b)])"
  shows "table_counts (ps @ [(a, b)]) (table_bump R C a b t)"
proof -
  let ?row = "row_bump C b (table_row t a)"
  have "row_counts (followers ps a) (table_row t a)"
    using cnt by (auto simp: table_counts_def table_row_def row_counts_def split: option.splits dest!: spec [of _ a])
  moreover have "card (set (followers ps a @ [b])) \<le> C" using fit by (auto simp: fits_def dest: spec [of _ a])
  ultimately have row: "row_counts (followers ps a @ [b]) ?row" by (rule row_bump_counts)
  have "fmlen (fmupd a ?row (ct_rows t)) = card (fst ` set (ps @ [(a, b)]))"
    using table_counts_dom [OF cnt] by (simp add: fmlen_def)
  then have "\<not> R < fmlen (fmupd a ?row (ct_rows t))" using fit by (simp add: fits_def)
  then have "ct_rows (table_bump R C a b t) = fmupd a ?row (ct_rows t)" by (auto simp: table_bump_def Let_def)
  moreover have "case fmlookup (ct_rows t) x of None \<Rightarrow> followers (ps @ [(a, b)]) x = []
      | Some row \<Rightarrow> followers (ps @ [(a, b)]) x \<noteq> [] \<and> row_counts (followers (ps @ [(a, b)]) x) row" if "x \<noteq> a" for x
    using cnt [unfolded table_counts_def, THEN spec, of x] that by (auto split: option.splits)
  ultimately show ?thesis using row unfolding table_counts_def by (simp split: option.split)
qed

text \<open>The ranking of what followed a context: most frequent first, equal counts by identity.\<close>

definition top_followers :: "nat \<Rightarrow> string list \<Rightarrow> string list" where
  "top_followers k fs = take k (sort_key (\<lambda>x. (- int (count_list fs x), x)) (remdups fs))"

lemma map_sort_key: "map g (sort_key (\<lambda>x. f (g x)) xs) = sort_key f (map g xs)"
proof (induction xs)
  case (Cons x xs)
  have "map g (insort_key (\<lambda>x. f (g x)) x ys) = insort_key f (g x) (map g ys)" for ys
    by (induction ys) auto
  then show ?case using Cons by simp
qed simp

lemma ranked_counts:
  assumes row: "row_counts fs row" and len: "length fs < 2 ^ 64"
  shows "ranked k row = top_followers k fs"
proof -
  let ?L = "sorted_list_of_fmap row" and ?f = "\<lambda>x. (- int (count_list fs x), x)"
  have "rank_key c x = ?f x" if "fmlookup row x = Some c" for x c
  proof -
    have "c = of_nat (count_list fs x)" using row that by (auto simp: row_counts_def split: if_splits)
    then show ?thesis by (simp only: rank_key_def unat_count [OF len])
  qed
  then have "sort_key (\<lambda>(x, c). rank_key c x) ?L = sort_key (\<lambda>p. ?f (fst p)) ?L"
    by (intro sort_key_cong_on) (auto simp: set_sorted_list_of_fmap)
  then have "ranked k row = take k (sort_key ?f (map fst ?L))"
    unfolding ranked_def by (simp add: take_map [symmetric] map_sort_key [where g = fst and f = ?f, symmetric])
  moreover have "mset (map fst ?L) = mset (remdups fs)"
  proof -
    have "set (map fst ?L) = fmdom' row" unfolding sorted_list_of_fmap_map_fst by (simp add: fmdom'_alt_def sorted_list_of_fset.rep_eq)
    then show ?thesis using row_counts_dom [OF row] distinct_fst_sorted_list_of_fmap [of row]
      by (metis distinct_remdups set_remdups set_eq_iff_mset_eq_distinct)
  qed
  then have "sort_key ?f (map fst ?L) = sort_key ?f (remdups fs)"
    by (intro sort_key_inj_key_eq) (auto simp: inj_on_def)
  ultimately show ?thesis by (simp add: top_followers_def)
qed

section \<open>Markov counts transitions\<close>

text \<open>The transitions of order \<open>n\<close> of a trace: each run of \<open>n\<close> objects with the object read after it.\<close>

definition transitions :: "nat \<Rightarrow> string list \<Rightarrow> (string \<times> string) list" where
  "transitions n ids = map (\<lambda>i. (join unit_separator (take n (drop i ids)), ids ! (i + n))) [0..<length ids - n]"

lemma transitions_snoc:
  "transitions n (ids @ [x]) = transitions n ids
     @ (if n \<le> length ids then [(join unit_separator (drop (length ids - n) ids), x)] else [])"
proof (cases "n \<le> length ids")
  case True
  then have "[0..<length (ids @ [x]) - n] = [0..<length ids - n] @ [length ids - n]"
    by (simp add: Suc_diff_le)
  moreover have "map (\<lambda>i. (join unit_separator (take n (drop i (ids @ [x]))), (ids @ [x]) ! (i + n))) [0..<length ids - n]
      = transitions n ids"
    unfolding transitions_def by (rule map_cong) (auto simp: nth_append)
  ultimately show ?thesis using True by (simp add: transitions_def nth_append)
next
  case False
  then show ?thesis by (simp add: transitions_def)
qed

definition markov_ok :: "nat \<Rightarrow> nat \<Rightarrow> string list \<Rightarrow> markov \<Rightarrow> bool" where
  "markov_ok k n ids p \<longleftrightarrow> mk_k p = k \<and> mk_order p = n \<and> mk_max_contexts p = 200000 \<and> mk_max_successors p = 256
    \<and> mk_history p = drop (length ids - n) ids \<and> table_ok 200000 256 (mk_table p)"

lemma markov_observe_ok:
  assumes "markov_ok k n ids p" and "1 \<le> n"
  shows "markov_ok k n (ids @ [ne_object_id ev]) (markov_observe ev p)"
    and "mk_table (markov_observe ev p) =
      (if n \<le> length ids then table_bump 200000 256 (join unit_separator (drop (length ids - n) ids)) (ne_object_id ev) (mk_table p)
       else mk_table p)"
  using assms table_bump_ok [of 200000 256 "mk_table p"]
  by (auto simp: markov_ok_def markov_observe_def context_key_def Let_def tl_drop Suc_diff_le drop_Suc)

lemma fits_append:
  assumes "fits R C (ps @ qs)"
  shows "fits R C ps"
proof -
  have "card (fst ` set ps) \<le> card (fst ` set (ps @ qs))" by (intro card_mono) auto
  moreover have "card (set (followers ps a)) \<le> card (set (followers (ps @ qs) a))" for a by (intro card_mono) auto
  ultimately show ?thesis using assms unfolding fits_def by (meson order_trans)
qed

lemma markov_run_ok:
  assumes "1 \<le> n"
  shows "markov_ok k n (map ne_object_id evs) (fold markov_observe evs (markov_with_order k n))"
    and "fits 200000 256 (transitions n (map ne_object_id evs)) \<Longrightarrow>
      table_counts (transitions n (map ne_object_id evs)) (mk_table (fold markov_observe evs (markov_with_order k n)))"
proof (induction evs rule: rev_induct)
  case Nil
  { case 1 then show ?case using assms by (simp add: markov_ok_def markov_with_order_def table_ok_empty) }
  { case 2 then show ?case by (simp add: transitions_def table_counts_def markov_with_order_def table_empty_def followers_def) }
next
  case (snoc ev evs)
  let ?ids = "map ne_object_id evs" and ?p = "fold markov_observe evs (markov_with_order k n)"
  note step = markov_observe_ok [OF snoc.IH(1) assms, of ev]
  { case 1 then show ?case using step(1) by simp }
  { case 2
    then have fit: "fits 200000 256 (transitions n (?ids @ [ne_object_id ev]))" by simp
    show ?case
    proof (cases "n \<le> length ?ids")
      case True
      then have eq: "transitions n (?ids @ [ne_object_id ev]) = transitions n ?ids @ [(join unit_separator (drop (length ?ids - n) ?ids), ne_object_id ev)]"
        by (simp only: transitions_snoc if_True)
      then have "fits 200000 256 (transitions n ?ids)" using fit by (metis fits_append)
      from table_bump_counts [OF snoc.IH(2) [OF this] fit [unfolded eq]] show ?thesis
        using step(2) True eq by simp
    next
      case False
      then have eq: "transitions n (?ids @ [ne_object_id ev]) = transitions n ?ids" by (simp only: transitions_snoc if_False append_Nil2)
      then show ?thesis using snoc.IH(2) fit step(2) False by simp
    qed }
qed

lemma length_followers: "length (followers ps a) \<le> length ps"
  by (simp add: followers_def)

lemma length_transitions: "length (transitions n ids) \<le> length ids"
  by (simp add: transitions_def)

text \<open>Markov prediction counts transitions. Over a trace with at most 200000 contexts of at most 256
  successors, nothing is evicted, and a prediction is what followed the last \<open>n\<close> objects wherever they
  were read before, most frequent first and equal counts by identity, cut at the breadth.\<close>

theorem markov_predicts_followers:
  assumes "1 \<le> n" and "length evs < 2 ^ 64" and "ids = map ne_object_id evs" and "fits 200000 256 (transitions n ids)"
  shows "snd (markov_predict ev (fold markov_observe evs (markov_with_order k n)))
    = (if length ids < n then [] else top_followers k (followers (transitions n ids) (join unit_separator (drop (length ids - n) ids))))"
proof -
  let ?p = "fold markov_observe evs (markov_with_order k n)" and ?ts = "transitions n ids"
  let ?key = "join unit_separator (drop (length ids - n) ids)"
  have ok: "markov_ok k n ids ?p" "table_counts ?ts (mk_table ?p)"
    using markov_run_ok(1) [OF assms(1), of k evs] markov_run_ok(2) [OF assms(1), of evs k] assms(3,4) by simp_all
  have len: "length (followers ?ts ?key) < 2 ^ 64"
    using length_followers [of ?ts ?key] length_transitions [of n ids] assms(2,3) by simp
  have hist: "context_key ?p = (if length ids < n then None else Some ?key)"
    using ok(1) assms(1) by (auto simp: markov_ok_def context_key_def)
  have row: "case fmlookup (ct_rows (mk_table ?p)) ?key of None \<Rightarrow> followers ?ts ?key = []
      | Some row \<Rightarrow> followers ?ts ?key \<noteq> [] \<and> row_counts (followers ?ts ?key) row"
    using ok(2) by (simp add: table_counts_def)
  have k: "mk_k ?p = k" using ok(1) by (simp add: markov_ok_def)
  show ?thesis
  proof (cases "fmlookup (ct_rows (mk_table ?p)) ?key")
    case None
    then show ?thesis using row hist by (simp add: markov_predict_def top_followers_def)
  next
    case (Some r)
    then have "row_counts (followers ?ts ?key) r" using row by simp
    from ranked_counts [OF this len] show ?thesis using Some hist k by (simp add: markov_predict_def)
  qed
qed

lemma markov_predicts_followers_witness:
  "snd (markov_predict (sample_get ''b'' 1) (fold markov_observe (map (\<lambda>k. sample_get k 1) [''a'', ''b'', ''a'', ''c'', ''a'', ''b'', ''a'']) (markov_with_order 2 1)))
     = [''b'', ''c'']"
proof -
  let ?ids = "[''a'', ''b'', ''a'', ''c'', ''a'', ''b'', ''a'']" and ?evs = "map (\<lambda>k. sample_get k 1) [''a'', ''b'', ''a'', ''c'', ''a'', ''b'', ''a'']"
  have ts: "transitions 1 ?ids = [(''a'', ''b''), (''b'', ''a''), (''a'', ''c''), (''c'', ''a''), (''a'', ''b''), (''b'', ''a'')]" by code_simp
  have "card (set (followers (transitions 1 ?ids) a)) \<le> 256" for a
    using card_length [of "followers (transitions 1 ?ids) a"] length_followers [of "transitions 1 ?ids" a] unfolding ts by simp
  moreover have "card (fst ` set (transitions 1 ?ids)) \<le> 200000"
    using card_length [of "map fst (transitions 1 ?ids)"] unfolding ts by simp
  ultimately have fit: "fits 200000 256 (transitions 1 ?ids)" by (simp add: fits_def)
  have "?ids = map ne_object_id ?evs" "length ?evs < 2 ^ 64" by (simp_all add: sample_get_def)
  from markov_predicts_followers [OF _ this(2,1) fit, of "sample_get ''b'' 1" 2]
  have "snd (markov_predict (sample_get ''b'' 1) (fold markov_observe ?evs (markov_with_order 2 1)))
    = (if length ?ids < 1 then [] else top_followers 2 (followers (transitions 1 ?ids) (join unit_separator (drop (length ?ids - 1) ?ids))))" by simp
  also have "\<dots> = [''b'', ''c'']" by code_simp
  finally show ?thesis .
qed

section \<open>What a prediction may contain\<close>

definition cells_in :: "(string \<Rightarrow> string \<Rightarrow> bool) \<Rightarrow> count_table \<Rightarrow> bool" where
  "cells_in P t \<longleftrightarrow> (\<forall>a row b. fmlookup (ct_rows t) a = Some row \<longrightarrow> b \<in> fmdom' row \<longrightarrow> P a b)"

lemma cells_in_empty: "cells_in P table_empty"
  by (simp add: cells_in_def table_empty_def)

lemma cells_in_mono: "cells_in P t \<Longrightarrow> (\<And>a b. P a b \<Longrightarrow> Q a b) \<Longrightarrow> cells_in Q t"
  by (auto simp: cells_in_def)

lemma row_bump_dom: "fmdom' (row_bump C b row) \<subseteq> insert b (fmdom' row)"
  by (auto simp: row_bump_def split: option.splits)

lemma cells_in_bump:
  assumes "cells_in P t" and "P a b"
  shows "cells_in P (table_bump R C a b t)"
proof -
  have row: "P a x" if "x \<in> fmdom' (row_bump C b (table_row t a))" for x
    using that row_bump_dom [of C b "table_row t a"] assms
    by (fastforce simp: cells_in_def table_row_def split: option.splits)
  have "P y x" if "fmlookup (ct_rows (table_bump R C a b t)) y = Some r" "x \<in> fmdom' r" for y r x
  proof -
    have "fmlookup (fmupd a (row_bump C b (table_row t a)) (ct_rows t)) y = Some r"
      using that(1) by (auto simp: table_bump_def Let_def split: if_splits list.splits)
    then show ?thesis using row that(2) assms(1) by (auto simp: cells_in_def split: if_splits)
  qed
  then show ?thesis by (auto simp: cells_in_def)
qed

lemma ranked_facts: "distinct (ranked k row)" "set (ranked k row) \<subseteq> fmdom' row" "length (ranked k row) \<le> k"
proof -
  let ?L = "sort_key (\<lambda>(x, c). rank_key c x) (sorted_list_of_fmap row)"
  have "mset (map fst ?L) = mset (map fst (sorted_list_of_fmap row))" by simp
  then have d: "distinct (map fst ?L)" "set (map fst ?L) = set (map fst (sorted_list_of_fmap row))"
    using distinct_fst_sorted_list_of_fmap [of row] by (metis mset_eq_imp_distinct_iff, metis mset_eq_setD)
  have eq: "ranked k row = take k (map fst ?L)" by (simp add: ranked_def take_map)
  show "distinct (ranked k row)" unfolding eq using d(1) by simp
  have "set (map fst (sorted_list_of_fmap row)) = fmdom' row"
    unfolding sorted_list_of_fmap_map_fst by (simp add: fmdom'_alt_def sorted_list_of_fset.rep_eq)
  then show "set (ranked k row) \<subseteq> fmdom' row" unfolding eq using d(2) by (metis set_take_subset)
  show "length (ranked k row) \<le> k" by (simp add: ranked_def)
qed

definition markov_seen :: "string list \<Rightarrow> markov \<Rightarrow> bool" where
  "markov_seen ids p \<longleftrightarrow> cells_in (\<lambda>_ b. b \<in> set ids) (mk_table p)"

lemma markov_seen_run: "markov_seen (map ne_object_id evs) (fold markov_observe evs (markov_with_order k n))"
proof (induction evs rule: rev_induct)
  case Nil
  then show ?case by (simp add: markov_seen_def markov_with_order_def cells_in_empty)
next
  case (snoc ev evs)
  then have "cells_in (\<lambda>_ b. b \<in> set (map ne_object_id (evs @ [ev]))) (mk_table (fold markov_observe evs (markov_with_order k n)))"
    unfolding markov_seen_def by (rule cells_in_mono) auto
  then show ?case unfolding markov_seen_def
    by (auto simp: markov_observe_def Let_def split: option.split intro: cells_in_bump)
qed

definition cooc_ok :: "nat \<Rightarrow> string list \<Rightarrow> cooc \<Rightarrow> bool" where
  "cooc_ok k ids p \<longleftrightarrow> co_k p = k \<and> co_window p = 32 \<and> co_max_objects p = 100000 \<and> co_max_partners p = 256
    \<and> length (co_recent p) \<le> 32 \<and> set (co_recent p) \<subseteq> set ids \<and> table_ok 100000 256 (co_table p)
    \<and> cells_in (\<lambda>a b. a \<noteq> b \<and> b \<in> set ids) (co_table p)"

lemma cooc_bump_ok:
  "cooc_ok k ids p \<Longrightarrow> a \<noteq> b \<Longrightarrow> b \<in> set ids \<Longrightarrow> cooc_ok k ids (cooc_bump a b p)"
  by (simp add: cooc_ok_def cooc_bump_def table_bump_ok cells_in_bump)

lemma cooc_bumps_ok:
  "cooc_ok k ids p \<Longrightarrow> cur \<in> set ids \<Longrightarrow> set xs \<subseteq> set ids - {cur} \<Longrightarrow>
    cooc_ok k ids (fold (\<lambda>ob. cooc_bump ob cur \<circ> cooc_bump cur ob) xs p)"
proof (induction xs arbitrary: p)
  case (Cons x xs)
  have "cooc_ok k ids (cooc_bump x cur (cooc_bump cur x p))"
    using Cons.prems by (intro cooc_bump_ok) auto
  from Cons.IH [OF this] Cons.prems show ?case by simp
qed simp

lemma cooc_observe_ok:
  assumes "cooc_ok k ids p"
  shows "cooc_ok k (ids @ [ne_object_id ev]) (cooc_observe ev p)"
proof -
  let ?cur = "ne_object_id ev" and ?ids = "ids @ [ne_object_id ev]"
  let ?xs = "remdups_adj (sort (filter (\<lambda>x. x \<noteq> ?cur) (co_recent p)))"
  have "cells_in (\<lambda>a b. a \<noteq> b \<and> b \<in> set ?ids) (co_table p)"
    by (rule cells_in_mono [of "\<lambda>a b. a \<noteq> b \<and> b \<in> set ids"]) (use assms in \<open>auto simp: cooc_ok_def\<close>)
  then have "cooc_ok k ?ids p" using assms by (auto simp: cooc_ok_def)
  then have "cooc_ok k ?ids (fold (\<lambda>ob. cooc_bump ob ?cur \<circ> cooc_bump ?cur ob) ?xs p)"
    using assms by (intro cooc_bumps_ok) (auto simp: cooc_ok_def)
  moreover have "set (tl xs) \<subseteq> set xs" for xs :: "string list" by (cases xs) auto
  ultimately show ?thesis unfolding cooc_observe_def Let_def by (fastforce simp: cooc_ok_def)
qed

lemma cooc_run_ok: "cooc_ok k (map ne_object_id evs) (fold cooc_observe evs (cooc_new k))"
proof (induction evs rule: rev_induct)
  case Nil
  then show ?case by (simp add: cooc_ok_def cooc_new_def table_ok_empty cells_in_empty)
next
  case (snoc ev evs)
  then show ?case using cooc_observe_ok [of k _ _ ev] by simp
qed

text \<open>Predictions look back, and are few. After any trace, each predictor that learns returns at most as many
  objects as its breadth, each once, and only objects the trace has read; popularity and co-occurrence
  never return the current object. The tables never pass their caps: 200000 contexts of 256 successors
  and 100000 objects of 256 partners.\<close>

theorem predictions_look_back:
  assumes "length evs < 2 ^ 64" and "1 \<le> n"
    and "f = fold freq_observe evs (freq_new k)" and "m = fold markov_observe evs (markov_with_order k n)"
    and "c = fold cooc_observe evs (cooc_new k)"
    and "out \<in> {snd (freq_predict ev f), snd (markov_predict ev m), snd (cooc_predict ev c)}"
  shows "length out \<le> k \<and> distinct out \<and> set out \<subseteq> ne_object_id ` set evs
    \<and> ne_object_id ev \<notin> set (snd (freq_predict ev f)) \<and> ne_object_id ev \<notin> set (snd (cooc_predict ev c))
    \<and> fmlen (ct_rows (mk_table m)) \<le> 200000 \<and> fmlen (ct_rows (co_table c)) \<le> 100000
    \<and> (\<forall>a. fmlen (table_row (mk_table m) a) \<le> 256 \<and> fmlen (table_row (co_table c) a) \<le> 256)"
proof -
  note f = freq_run_ok [OF assms(1), of k, folded assms(3)]
  note m = markov_run_ok(1) [OF assms(2), of k evs, folded assms(4)] markov_seen_run [of evs k n, folded assms(4)]
  note c = cooc_run_ok [of k evs, folded assms(5)]
  have F: "length out \<le> k" "distinct out" "set out \<subseteq> ne_object_id ` set evs" if "out = snd (freq_predict ev f)" for out
    using f that length_filter_le [of "\<lambda>x. x \<noteq> ne_object_id ev" "fp_top f"] by (auto simp: freq_ok_def freq_predict_def)
  have M: "length out \<le> k" "distinct out" "set out \<subseteq> ne_object_id ` set evs" if "out = snd (markov_predict ev m)" for out
    using m that ranked_facts(1,3) ranked_facts(2) [of k]
    by (auto simp: markov_ok_def markov_seen_def markov_predict_def cells_in_def image_iff split: option.splits) blast
  have C: "length out \<le> k" "distinct out" "set out \<subseteq> ne_object_id ` set evs - {ne_object_id ev}" if "out = snd (cooc_predict ev c)" for out
    using c that ranked_facts(1,3) ranked_facts(2) [of k]
    by (auto simp: cooc_ok_def cooc_predict_def cells_in_def image_iff split: option.splits) blast+
  have t: "table_ok 200000 256 (mk_table m)" "table_ok 100000 256 (co_table c)" using m c by (simp_all add: markov_ok_def cooc_ok_def)
  then have "fmlen (ct_rows (mk_table m)) \<le> 200000" "fmlen (ct_rows (co_table c)) \<le> 100000"
    using table_ok_len [OF t(1)] table_ok_len [OF t(2)] by (simp_all add: table_ok_def)
  moreover have "ne_object_id ev \<notin> set (snd (freq_predict ev f))" by (simp add: freq_predict_def)
  moreover have "ne_object_id ev \<notin> set (snd (cooc_predict ev c))" using C(3) [OF refl] by (simp add: subset_Diff_insert)
  moreover have "length out \<le> k \<and> distinct out \<and> set out \<subseteq> ne_object_id ` set evs"
  proof -
    from assms(6) consider "out = snd (freq_predict ev f)" | "out = snd (markov_predict ev m)" | "out = snd (cooc_predict ev c)" by blast
    then show ?thesis
    proof cases
      case 1
      then show ?thesis using F by simp
    next
      case 2
      then show ?thesis using M by simp
    next
      case 3
      from C(3) [OF 3] have "set out \<subseteq> ne_object_id ` set evs" by (rule order_trans) (rule Diff_subset)
      then show ?thesis using C(1,2) [OF 3] by simp
    qed
  qed
  ultimately show ?thesis using table_row_bounded [OF t(1)] table_row_bounded [OF t(2)] by simp
qed

lemma predictions_look_back_witness:
  "set (snd (cooc_predict (sample_get ''a'' 1) (fold cooc_observe (map (\<lambda>k. sample_get k 1) [''a'', ''b'', ''c'', ''a'']) (cooc_new 2))))
    \<subseteq> {''a'', ''b'', ''c''}"
proof -
  let ?evs = "map (\<lambda>k. sample_get k 1) [''a'', ''b'', ''c'', ''a'']"
  have "length ?evs < 2 ^ 64" "(1::nat) \<le> 1" by simp_all
  from predictions_look_back [OF this refl refl refl insertI2 [OF insertI2 [OF insertI1]], where k = 2 and ev = "sample_get ''a'' 1"]
  have "set (snd (cooc_predict (sample_get ''a'' 1) (fold cooc_observe ?evs (cooc_new 2)))) \<subseteq> ne_object_id ` set ?evs" by blast
  also have "ne_object_id ` set ?evs = {''a'', ''b'', ''c''}" by (auto simp: sample_get_def)
  finally show ?thesis .
qed

text \<open>Read-ahead names the next blocks in order, as far as block numbers go.\<close>

lemma sequential_next_blocks:
  fixes n :: u64
  assumes "ne_object_id ev = base @ ''#'' @ dec_string (unat n)" and "unat n + k < 2 ^ 64"
  shows "snd (seq_predict ev k) = map (\<lambda>d. base @ ''#'' @ dec_string (unat n + d)) [1..<Suc k]"
proof -
  have "CHR ''#'' \<notin> set (dec_string (unat n))"
    using dec_string_digits [of "unat n"] by (auto simp: list_all_iff is_digit_def)
  then have "rsplit_once CHR ''#'' (ne_object_id ev) = Some (base, dec_string (unat n))"
    unfolding assms(1) by (simp add: rsplit_once_def split_once_append rev_map)
  moreover have "concat (map (\<lambda>d. if unat n + d < 2 ^ 64 then [base @ ''#'' @ dec_string (unat n + d)] else []) [1..<Suc k])
      = concat (map (\<lambda>d. [base @ ''#'' @ dec_string (unat n + d)]) [1..<Suc k])"
    using assms(2) by (intro arg_cong [of _ _ concat] map_cong) auto
  ultimately show ?thesis
    unfolding seq_predict_def by (simp add: parse_u64_dec_string concat_map_singleton del: upt_Suc)
qed

end
