(* ===== verification/IbmTrace.thy ===== *)
theory IbmTrace
  imports RustStr DemandCache
begin

text \<open>
  \<open>crates/s3tap-replay/src/ibm.rs\<close>: one line of an IBM COS trace as a normalized event, and the
  expansion of a trace into accesses to fixed-size blocks. The last sections prove the two claims the
  source makes of the expansion: a write invalidates the object whole although it only names blocks
  that were read, and the expanded trace is linear in the trace.
\<close>

section \<open>One line\<close>

text \<open>\<open>str::split_whitespace\<close>: the nonempty pieces between white space.\<close>

lemma ws_seqs_nonempty: "w \<in> set ws_seqs \<Longrightarrow> w \<noteq> []"
  by (auto simp: ws_seqs_def)

function split_ws :: "string \<Rightarrow> string \<Rightarrow> string list" where
  "split_ws cur s =
    (case s of
       [] \<Rightarrow> if cur = [] then [] else [cur]
     | c # cs \<Rightarrow>
         (case find (\<lambda>w. prefix w s) ws_seqs of
            Some w \<Rightarrow> (if cur = [] then [] else [cur]) @ split_ws [] (drop (length w) s)
          | None \<Rightarrow> split_ws (cur @ [c]) cs))"
  by pat_completeness auto

termination
  by (relation "measure (\<lambda>(cur, s). length s)") (auto dest!: find_Some_iff2 ws_seqs_nonempty)

definition split_whitespace :: "string \<Rightarrow> string list" where
  "split_whitespace s = split_ws [] s"

definition nth_field :: "nat \<Rightarrow> string list \<Rightarrow> string option" where
  "nth_field i fs = (if i < length fs then Some (fs ! i) else None)"

definition OBJECT_RESOURCES :: "string list" where
  "OBJECT_RESOURCES = [''OBJECT'', ''PART'']"

definition ibm_op :: "string \<Rightarrow> trace_op option" where
  "ibm_op req =
    (case strip_prefix ''REST.'' req of
       None \<Rightarrow> None
     | Some rest \<Rightarrow>
         (let parts = split_char CHR ''.'' rest;
              verb = hd parts;
              on_object = (case nth_field 1 parts of Some r \<Rightarrow> r \<in> set OBJECT_RESOURCES | None \<Rightarrow> False)
          in Some (if verb = ''GET'' \<and> on_object then Get
                   else if verb = ''HEAD'' \<and> on_object then Head
                   else if verb = ''GET'' \<or> verb = ''HEAD'' then Other
                   else if verb = ''PUT'' \<or> verb = ''POST'' \<or> verb = ''COPY'' then Put
                   else if verb = ''DELETE'' then Delete
                   else Other)))"

definition ibm_range :: "u64 option \<Rightarrow> u64 option \<Rightarrow> u64 option \<Rightarrow> (u64 \<times> u64) option" where
  "ibm_range osz start stop =
    (let whole = (case osz of Some sz \<Rightarrow> if 0 < sz then Some (0, sz - 1) else None | None \<Rightarrow> None) in
     case (start, stop) of
       (Some s, Some e) \<Rightarrow> if s \<le> e then Some (s, e) else whole
     | _ \<Rightarrow> whole)"

definition from_ibm_line :: "string \<Rightarrow> norm_event option" where
  "from_ibm_line line =
    (let f = split_whitespace line in
     Option.bind (Option.bind (nth_field 0 f) parse_u64) (\<lambda>ts_ms.
     Option.bind (nth_field 1 f) (\<lambda>req.
     Option.bind (nth_field 2 f) (\<lambda>object_id.
     let sz = Option.bind (nth_field 3 f) parse_u64;
         start = Option.bind (nth_field 4 f) parse_u64;
         stop = Option.bind (nth_field 5 f) parse_u64
     in map_option (\<lambda>op. \<lparr>ne_ts_ns = sat_mul ts_ms 1000000, ne_op = op, ne_object_id = object_id,
          ne_range = ibm_range sz start stop, ne_size = None, ne_version = None, ne_status = None\<rparr>) (ibm_op req)))))"

section \<open>Blocks\<close>

definition is_write :: "norm_event \<Rightarrow> bool" where
  "is_write ev \<longleftrightarrow> ne_op ev = Put \<or> ne_op ev = Delete"

definition touched_span :: "norm_event \<Rightarrow> u64 \<times> u64" where
  "touched_span ev =
    (let (s, e) = (case ne_range ev of
                     Some r \<Rightarrow> r
                   | None \<Rightarrow> (case ne_size ev of Some sz \<Rightarrow> if 0 < sz then (0, sz - 1) else (0, 0) | None \<Rightarrow> (0, 0)))
     in if s \<le> e then (s, e) else (e, s))"

text \<open>The blocks \<open>b0..=b1\<close> of an event, at most 4096.\<close>

definition event_blocks :: "u64 \<Rightarrow> norm_event \<Rightarrow> u64 list" where
  "event_blocks b ev =
    (let (s, e) = touched_span ev; b0 = s div b; b1 = min (e div b) (sat_add b0 4095)
     in map of_nat [unat b0..<Suc (unat b1)])"

definition block_id :: "string \<Rightarrow> u64 \<Rightarrow> string" where
  "block_id ob blk = ob @ ''#'' @ dec_string (unat blk)"

definition block_event :: "norm_event \<Rightarrow> u64 \<Rightarrow> norm_event" where
  "block_event ev blk =
    \<lparr>ne_ts_ns = ne_ts_ns ev, ne_op = ne_op ev, ne_object_id = block_id (ne_object_id ev) blk,
     ne_range = None, ne_size = None, ne_version = None, ne_status = ne_status ev\<rparr>"

type_synonym touched = "(string, u64 fset) fmap"

definition blocks_of :: "touched \<Rightarrow> string \<Rightarrow> u64 fset" where
  "blocks_of t ob = (case fmlookup t ob of Some s \<Rightarrow> s | None \<Rightarrow> {||})"

lemma blocks_of_simps [simp]:
  "blocks_of fmempty ob = {||}"
  "blocks_of (fmupd x s t) ob = (if x = ob then s else blocks_of t ob)"
  "blocks_of (fmdrop x t) ob = (if x = ob then {||} else blocks_of t ob)"
  by (auto simp: blocks_of_def)

fun to_blocks_loop :: "u64 \<Rightarrow> bool \<Rightarrow> touched \<Rightarrow> norm_event list \<Rightarrow> norm_event list" where
  "to_blocks_loop b has_writes t [] = []"
| "to_blocks_loop b has_writes t (ev # evs) =
    (if ne_op ev = Head \<or> ne_op ev = Other then to_blocks_loop b has_writes t evs
     else if ne_op ev = Get then
       map (block_event ev) (event_blocks b ev)
       @ to_blocks_loop b has_writes
           (if has_writes then fmupd (ne_object_id ev) (blocks_of t (ne_object_id ev) |\<union>| fset_of_list (event_blocks b ev)) t else t) evs
     else
       map (block_event ev) (sorted_list_of_fset (blocks_of t (ne_object_id ev) |\<union>| fset_of_list (event_blocks b ev)))
       @ to_blocks_loop b has_writes (fmdrop (ne_object_id ev) t) evs)"

definition to_blocks :: "norm_event list \<Rightarrow> u64 \<Rightarrow> norm_event list" where
  "to_blocks trace block_bytes = to_blocks_loop (max block_bytes 1) (list_ex is_write trace) fmempty trace"

section \<open>A write invalidates the whole object\<close>

text \<open>The hits of an unbounded cache of blocks in which a write drops every block of its object.\<close>

fun chunk_hits :: "u64 \<Rightarrow> (string \<times> u64) set \<Rightarrow> norm_event list \<Rightarrow> nat" where
  "chunk_hits b seen [] = 0"
| "chunk_hits b seen (ev # evs) =
    (case ne_op ev of
       Get \<Rightarrow> (let blks = set (event_blocks b ev); ob = ne_object_id ev
               in card {k \<in> blks. (ob, k) \<in> seen} + chunk_hits b (seen \<union> {ob} \<times> blks) evs)
     | Put \<Rightarrow> chunk_hits b (seen - {ne_object_id ev} \<times> UNIV) evs
     | Delete \<Rightarrow> chunk_hits b (seen - {ne_object_id ev} \<times> UNIV) evs
     | Head \<Rightarrow> chunk_hits b seen evs
     | Other \<Rightarrow> chunk_hits b seen evs)"

definition bid :: "string \<times> u64 \<Rightarrow> string" where
  "bid p = block_id (fst p) (snd p)"

lemma bid_inj: "inj bid"
proof (rule injI)
  fix p q assume eq: "bid p = bid q"
  have no: "CHR ''#'' \<notin> set (dec_string n)" for n
    using dec_string_digits [of n] by (auto simp: list_all_iff is_digit_def)
  have "rev (dec_string (unat (snd p))) @ CHR ''#'' # rev (fst p) = rev (dec_string (unat (snd q))) @ CHR ''#'' # rev (fst q)"
    using arg_cong [OF eq, of rev] by (simp add: bid_def block_id_def)
  moreover have "split_once CHR ''#'' (rev (dec_string (unat (snd r))) @ CHR ''#'' # rev (fst r)) = Some (rev (dec_string (unat (snd r))), rev (fst r))"
    for r :: "string \<times> u64" using no by (intro split_once_append) simp
  ultimately have "fst p = fst q" "dec_string (unat (snd p)) = dec_string (unat (snd q))"
    by (metis option.inject prod.inject rev_rev_ident)+
  then show "p = q" by (metis parse_u64_dec_string option.inject prod_eqI)
qed

lemma block_event_simps [simp]:
  "ne_op (block_event ev k) = ne_op ev" "ne_object_id (block_event ev k) = bid (ne_object_id ev, k)"
  by (simp_all add: block_event_def bid_def)

lemma distinct_event_blocks: "distinct (event_blocks b ev)"
proof -
  have "inj_on (of_nat :: nat \<Rightarrow> u64) (set [unat x..<Suc (unat y)])" for x y :: u64
    using unat_bound [of y] by (intro inj_onI) (auto simp: of_nat_inverse word_of_nat_eq_iff take_bit_nat_eq_self)
  then show ?thesis by (simp add: event_blocks_def Let_def split_beta distinct_map del: upt_Suc)
qed

lemma ideal_hits_reads:
  assumes "ne_op ev = Get" and "distinct blks"
  shows "ideal_hits (bid ` seen) (map (block_event ev) blks @ rest)
    = card {k \<in> set blks. (ne_object_id ev, k) \<in> seen} + ideal_hits (bid ` (seen \<union> {ne_object_id ev} \<times> set blks)) rest"
  using assms(2)
proof (induction blks arbitrary: seen)
  case (Cons k blks)
  let ?ob = "ne_object_id ev"
  have mem: "bid (?ob, k) \<in> bid ` seen \<longleftrightarrow> (?ob, k) \<in> seen" using bid_inj by (simp add: inj_image_mem_iff)
  have "{x \<in> set blks. (?ob, x) \<in> insert (?ob, k) seen} = {x \<in> set blks. (?ob, x) \<in> seen}" using Cons.prems by auto
  moreover have "card {x \<in> set (k # blks). (?ob, x) \<in> seen} = (if (?ob, k) \<in> seen then 1 else 0) + card {x \<in> set blks. (?ob, x) \<in> seen}"
  proof -
    have "{x \<in> set (k # blks). (?ob, x) \<in> seen} = (if (?ob, k) \<in> seen then insert k else id) {x \<in> set blks. (?ob, x) \<in> seen}" by auto
    then show ?thesis using Cons.prems by (simp add: card_insert_if)
  qed
  moreover have "insert (?ob, k) seen \<union> {?ob} \<times> set blks = seen \<union> {?ob} \<times> set (k # blks)" by auto
  ultimately show ?case
    using Cons.IH [of "insert (?ob, k) seen"] Cons.prems assms(1) mem by simp
qed simp

lemma ideal_hits_writes:
  assumes "is_write ev"
  shows "ideal_hits (bid ` seen) (map (block_event ev) blks @ rest) = ideal_hits (bid ` (seen - {ne_object_id ev} \<times> set blks)) rest"
proof (induction blks arbitrary: seen)
  case (Cons k blks)
  let ?ob = "ne_object_id ev"
  have "bid ` seen - {bid (?ob, k)} = bid ` (seen - {(?ob, k)})" using bid_inj by (auto simp: inj_eq)
  moreover have "seen - {(?ob, k)} - {?ob} \<times> set blks = seen - {?ob} \<times> set (k # blks)" by auto
  ultimately show ?case using Cons.IH [of "seen - {(?ob, k)}"] assms by (cases "ne_op ev") (simp_all add: is_write_def)
qed simp

lemma to_blocks_hits:
  assumes "\<And>ob k. hw \<Longrightarrow> (ob, k) \<in> seen \<Longrightarrow> k |\<in>| blocks_of t ob" and "\<not> hw \<Longrightarrow> \<not> list_ex is_write evs"
  shows "ideal_hits (bid ` seen) (to_blocks_loop b hw t evs) = chunk_hits b seen evs"
  using assms
proof (induction evs arbitrary: seen t)
  case (Cons ev evs)
  let ?ob = "ne_object_id ev" and ?blks = "event_blocks b ev"
  show ?case
  proof (cases "ne_op ev = Get")
    case True
    let ?t = "if hw then fmupd ?ob (blocks_of t ?ob |\<union>| fset_of_list ?blks) t else t"
    have "ideal_hits (bid ` (seen \<union> {?ob} \<times> set ?blks)) (to_blocks_loop b hw ?t evs) = chunk_hits b (seen \<union> {?ob} \<times> set ?blks) evs"
      using Cons.prems by (intro Cons.IH) (auto simp: fset_of_list_elem split: if_splits)
    then show ?thesis
      using ideal_hits_reads [OF True distinct_event_blocks, of seen b] True by (simp add: Let_def)
  next
    case False
    show ?thesis
    proof (cases "is_write ev")
      case True
      then have hw: hw using Cons.prems(2) by auto
      let ?all = "blocks_of t ?ob |\<union>| fset_of_list ?blks"
      have "seen - {?ob} \<times> fset ?all = seen - {?ob} \<times> UNIV" using Cons.prems(1) [OF hw] by auto
      moreover have "ideal_hits (bid ` (seen - {?ob} \<times> UNIV)) (to_blocks_loop b hw (fmdrop ?ob t) evs) = chunk_hits b (seen - {?ob} \<times> UNIV) evs"
        using Cons.prems hw by (intro Cons.IH) auto
      ultimately show ?thesis
        using ideal_hits_writes [OF True, of seen "sorted_list_of_fset ?all"] True False
        by (auto simp: is_write_def sorted_list_of_fset.rep_eq)
    next
      case other: False
      then have "ne_op ev = Head \<or> ne_op ev = Other" using False by (cases "ne_op ev") (auto simp: is_write_def)
      then show ?thesis using Cons.IH [of seen t] Cons.prems by auto
    qed
  qed
qed simp

text \<open>Block mode invalidates objects. An unbounded cache fed the expanded trace, where a write names
  only the blocks read since the last write and its own extent, has exactly the hits of a cache in which
  a write drops every block of its object: no stale block is ever served, and no block in use is lost.\<close>

theorem blocks_invalidate_objects:
  "ideal_hits {} (to_blocks trace block_bytes) = chunk_hits (max block_bytes 1) {} trace"
  using to_blocks_hits [of "list_ex is_write trace" "{}" fmempty trace "max block_bytes 1"] by (simp add: to_blocks_def)

section \<open>The expansion is linear\<close>

definition cards :: "touched \<Rightarrow> nat" where
  "cards t = (\<Sum>ob\<in>fmdom' t. fcard (blocks_of t ob))"

lemma blocks_of_notin: "ob \<notin> fmdom' t \<Longrightarrow> blocks_of t ob = {||}"
  by (auto simp: blocks_of_def fmlookup_dom'_iff split: option.split)

lemma cards_drop: "cards (fmdrop ob t) + fcard (blocks_of t ob) = cards t"
proof (cases "ob \<in> fmdom' t")
  case True
  then have "cards t = fcard (blocks_of t ob) + (\<Sum>x\<in>fmdom' t - {ob}. fcard (blocks_of t x))"
    unfolding cards_def by (intro sum.remove) simp_all
  moreover have "(\<Sum>x\<in>fmdom' t - {ob}. fcard (blocks_of (fmdrop ob t) x)) = (\<Sum>x\<in>fmdom' t - {ob}. fcard (blocks_of t x))"
    by (intro sum.cong) auto
  ultimately show ?thesis by (simp add: cards_def)
next
  case False
  then show ?thesis by (simp add: fmdrop_None fmdom'_notD blocks_of_notin)
qed

lemma cards_upd: "cards (fmupd ob s t) + fcard (blocks_of t ob) = cards t + fcard s"
  using cards_drop [of ob "fmupd ob s t"] cards_drop [of ob t] by (simp add: fmdrop_fmupd_same)

lemma touched_span_le: "fst (touched_span ev) \<le> snd (touched_span ev)"
  by (auto simp: touched_span_def Let_def split_beta)

lemma event_blocks_bounds: "length (event_blocks b ev) \<le> 4096" "event_blocks b ev \<noteq> []"
proof -
  obtain s e where se: "touched_span ev = (s, e)" "s \<le> e" using touched_span_le [of ev] by (metis prod.collapse)
  let ?b0 = "s div b" and ?b1 = "min (e div b) (sat_add (s div b) 4095)"
  have "?b1 \<le> sat_add ?b0 4095" by simp
  then have "unat ?b1 \<le> unat ?b0 + 4095" by (simp add: word_le_nat_alt unat_sat_add)
  then show "length (event_blocks b ev) \<le> 4096" by (simp add: event_blocks_def se(1) Let_def del: upt_Suc)
  have "?b0 \<le> e div b" using se(2) by (simp add: word_le_nat_alt unat_div div_le_mono)
  then have "?b0 \<le> ?b1" by (rule min.boundedI) (rule sat_add_ge)
  then show "event_blocks b ev \<noteq> []" by (simp add: event_blocks_def se(1) Let_def word_le_nat_alt del: upt_Suc)
qed

lemma gets_append [simp]: "gets (xs @ ys) = gets xs + gets ys"
  by (induction xs) auto

lemma gets_map_block: "gets (map (block_event ev) blks) = (if ne_op ev = Get then length blks else 0)"
  by (induction blks) auto

lemma length_sorted_fset: "length (sorted_list_of_fset s) = fcard s"
  by (simp add: sorted_list_of_fset.rep_eq fcard.rep_eq)

lemma to_blocks_loop_length:
  "length (to_blocks_loop b hw t evs) \<le> cards t + 8192 * gets evs + 4096 * length (filter is_write evs)"
proof (induction evs arbitrary: t)
  case (Cons ev evs)
  let ?ob = "ne_object_id ev" and ?blks = "event_blocks b ev"
  have "fcard (fset_of_list ?blks) \<le> 4096"
    using event_blocks_bounds(1) [of b ev] card_length [of ?blks] by (simp add: fcard.rep_eq fset_of_list.rep_eq)
  then have un: "fcard (blocks_of t ?ob |\<union>| fset_of_list ?blks) \<le> fcard (blocks_of t ?ob) + 4096"
    using fcard_funion_finter [of "blocks_of t ?ob" "fset_of_list ?blks"] by linarith
  show ?case
  proof (cases "ne_op ev = Get")
    case True
    let ?t = "if hw then fmupd ?ob (blocks_of t ?ob |\<union>| fset_of_list ?blks) t else t"
    have "cards ?t \<le> cards t + 4096"
      using un cards_upd [of ?ob "blocks_of t ?ob |\<union>| fset_of_list ?blks" t] by auto
    then show ?thesis using True Cons.IH [of ?t] event_blocks_bounds(1) [of b ev] by (simp add: is_write_def)
  next
    case False
    then show ?thesis
      using Cons.IH [of t] Cons.IH [of "fmdrop ?ob t"] un cards_drop [of ?ob t]
      by (cases "ne_op ev") (simp_all add: is_write_def length_sorted_fset)
  qed
qed simp

lemma to_blocks_loop_gets: "gets evs \<le> gets (to_blocks_loop b hw t evs)"
proof (induction evs arbitrary: t)
  case (Cons ev evs)
  have "1 \<le> length (event_blocks b ev)" using event_blocks_bounds(2) [of b ev] by (cases "event_blocks b ev") auto
  then show ?case
    using Cons [of t] Cons [of "fmdrop (ne_object_id ev) t"]
      Cons [of "if hw then fmupd (ne_object_id ev) (blocks_of t (ne_object_id ev) |\<union>| fset_of_list (event_blocks b ev)) t else t"]
    by (cases "ne_op ev") (simp_all add: gets_map_block)
qed simp

text \<open>Block mode is linear. A read expands into at least one access and at most 4096, and the writes
  together into at most as many as the reads and 4096 each: a write uses up the blocks it
  invalidates, so alternating reads and writes cannot make the trace grow quadratically.\<close>

theorem blocks_linear:
  "length (to_blocks trace block_bytes) \<le> 8192 * gets trace + 4096 * length (filter is_write trace)
    \<and> gets trace \<le> gets (to_blocks trace block_bytes)"
  using to_blocks_loop_length [of "max block_bytes 1" "list_ex is_write trace" fmempty trace]
    to_blocks_loop_gets [of trace "max block_bytes 1" "list_ex is_write trace" fmempty]
  by (simp add: to_blocks_def cards_def)

section \<open>Lines read back\<close>

text \<open>A word of a line: not empty, and no byte of it starts a white space.\<close>

definition plain_word :: "string \<Rightarrow> bool" where
  "plain_word w \<longleftrightarrow> w \<noteq> [] \<and> list_all (\<lambda>c. list_all (\<lambda>s. hd s \<noteq> c) ws_seqs) w"

lemma no_ws: "list_all (\<lambda>s. hd s \<noteq> c) ws_seqs \<Longrightarrow> find (\<lambda>w. prefix w (c # cs)) ws_seqs = None"
  using ws_seqs_nonempty by (force simp: find_None_iff list_all_iff prefix_Cons)

declare split_ws.simps [simp del]

lemma split_ws_word:
  "list_all (\<lambda>c. list_all (\<lambda>s. hd s \<noteq> c) ws_seqs) w \<Longrightarrow> split_ws cur (w @ rest) = split_ws (cur @ w) rest"
proof (induction w arbitrary: cur)
  case (Cons c w)
  then show ?case using no_ws [of c "w @ rest"] by (simp add: split_ws.simps [of cur])
qed simp

lemma split_ws_space: "cur \<noteq> [] \<Longrightarrow> split_ws cur (CHR 0x20 # rest) = cur # split_ws [] rest"
proof -
  assume "cur \<noteq> []"
  moreover have "find (\<lambda>w. prefix w (CHR 0x20 # rest)) ws_seqs = Some [CHR 0x20]" by (simp add: ws_seqs_def)
  ultimately show ?thesis by (simp add: split_ws.simps [of cur])
qed

lemma split_whitespace_join: "list_all plain_word ws \<Longrightarrow> split_whitespace (join '' '' ws) = ws"
  unfolding split_whitespace_def
proof (induction "'' ''" ws rule: join.induct)
  case (2 x)
  then show ?case using split_ws_word [of x "[]" "[]"] by (simp add: plain_word_def split_ws.simps)
next
  case (3 x y ys)
  then show ?case using split_ws_word [of x "[]" "CHR 0x20 # join '' '' (y # ys)"] split_ws_space [of x]
    by (simp add: plain_word_def)
qed (simp add: split_ws.simps)

lemma plain_word_dec: "plain_word (dec_string n)"
proof -
  have "list_all (\<lambda>s. hd s \<noteq> c) ws_seqs" if "is_digit c" for c
    using that by (auto simp: ws_seqs_def is_digit_def)
  then show ?thesis using dec_string_digits [of n] by (auto simp: plain_word_def list_all_iff)
qed

text \<open>Trace lines read back, and only reads of objects are reads. A line written with a time stamp, a
  request type, an identity and any of size and offsets gives back the identity, the time in nanoseconds
  and the extent; a \<open>GET\<close> is a demand read exactly when its resource is an object or a part, and a write
  verb invalidates whatever its resource.\<close>

theorem ibm_line_read:
  assumes "plain_word ob" and "plain_word verb" and "plain_word res" and "CHR ''.'' \<notin> set verb" and "CHR ''.'' \<notin> set res"
    and "case span of Some (s, e) \<Rightarrow> sz \<noteq> None \<and> s \<le> e | None \<Rightarrow> True"
  shows "from_ibm_line (join '' '' ([dec_string (unat ts), ''REST.'' @ verb @ ''.'' @ res, ob]
        @ (case sz of None \<Rightarrow> [] | Some n \<Rightarrow> [dec_string (unat n)])
        @ (case span of None \<Rightarrow> [] | Some (s, e) \<Rightarrow> [dec_string (unat s), dec_string (unat e)])))
    = Some \<lparr>ne_ts_ns = sat_mul ts 1000000,
        ne_op = (if verb \<in> {''GET'', ''HEAD''} then (if res \<notin> {''OBJECT'', ''PART''} then Other else if verb = ''GET'' then Get else Head)
                 else if verb \<in> {''PUT'', ''POST'', ''COPY''} then Put else if verb = ''DELETE'' then Delete else Other),
        ne_object_id = ob,
        ne_range = (case span of Some (s, e) \<Rightarrow> Some (s, e) | None \<Rightarrow> (case sz of Some n \<Rightarrow> if 0 < n then Some (0, n - 1) else None | None \<Rightarrow> None)),
        ne_size = None, ne_version = None, ne_status = None\<rparr>"
proof -
  let ?req = "''REST.'' @ verb @ ''.'' @ res"
  let ?ws = "[dec_string (unat ts), ?req, ob] @ (case sz of None \<Rightarrow> [] | Some n \<Rightarrow> [dec_string (unat n)])
        @ (case span of None \<Rightarrow> [] | Some (s, e) \<Rightarrow> [dec_string (unat s), dec_string (unat e)])"
  have "plain_word (''REST.'' @ x)" if "plain_word x" for x
  proof -
    have "plain_word ''REST.''" by code_simp
    then show ?thesis using that by (simp add: plain_word_def)
  qed
  moreover have "plain_word (verb @ ''.'' @ res)"
  proof -
    have "plain_word ''.''" by code_simp
    then show ?thesis using assms(2,3) by (simp add: plain_word_def)
  qed
  ultimately have "list_all plain_word ?ws"
    using assms(1) by (auto simp: plain_word_dec split: option.split)
  from split_whitespace_join [OF this] have f: "split_whitespace (join '' '' ?ws) = ?ws" .
  have "split_char CHR ''.'' (verb @ ''.'' @ res) = [verb, res]"
    using concat_split_char [OF assms(4)] split_char_no_sep [OF assms(5)] by simp
  then have op: "ibm_op ?req = Some (if verb \<in> {''GET'', ''HEAD''} then (if res \<notin> {''OBJECT'', ''PART''} then Other else if verb = ''GET'' then Get else Head)
                 else if verb \<in> {''PUT'', ''POST'', ''COPY''} then Put else if verb = ''DELETE'' then Delete else Other)"
    by (auto simp: ibm_op_def strip_prefix_def nth_field_def OBJECT_RESOURCES_def)
  let ?range = "case span of Some (s, e) \<Rightarrow> Some (s, e) | None \<Rightarrow> (case sz of Some n \<Rightarrow> if 0 < n then Some (0, n - 1) else None | None \<Rightarrow> None)"
  have fields: "nth_field 0 ?ws = Some (dec_string (unat ts))" "nth_field 1 ?ws = Some ?req" "nth_field 2 ?ws = Some ob"
    by (simp_all add: nth_field_def)
  have sz: "Option.bind (nth_field 3 ?ws) parse_u64 = sz"
    using assms(6) by (cases sz; cases span) (auto simp: nth_field_def parse_u64_dec_string)
  have start: "Option.bind (nth_field 4 ?ws) parse_u64 = map_option fst span" and stop: "Option.bind (nth_field 5 ?ws) parse_u64 = map_option snd span"
    using assms(6) by (cases sz; cases span; auto simp: nth_field_def parse_u64_dec_string)+
  have range: "ibm_range sz (map_option fst span) (map_option snd span) = ?range"
    using assms(6) by (cases span) (auto simp: ibm_range_def Let_def)
  show ?thesis
    unfolding from_ibm_line_def f Let_def fields sz start stop range op
    by (simp only: bind.bind_lunit option.map parse_u64_dec_string Option.bind.simps op)
qed

lemma ibm_line_read_witness:
  "map_option ne_range (from_ibm_line ''1232 REST.GET.OBJECT 95d3 1168 0 1167'') = Some (Some (0, 1167))"
proof -
  have p: "plain_word ''95d3''" "plain_word ''GET''" "plain_word ''OBJECT''" by code_simp+
  have no_dot: "CHR ''.'' \<notin> set ''GET''" "CHR ''.'' \<notin> set ''OBJECT''" "case Some (0::u64, 1167::u64) of Some (s, e) \<Rightarrow> Some (1168::u64) \<noteq> None \<and> s \<le> e | None \<Rightarrow> True"
    by simp_all
  have d: "dec_string 1232 = ''1232''" "dec_string 1168 = ''1168''" "dec_string 0 = ''0''" "dec_string 1167 = ''1167''" by code_simp+
  from ibm_line_read [OF p no_dot, of 1232] show ?thesis using d by simp
qed

end
