(* ===== verification/TraceLine.thy ===== *)
theory TraceLine
  imports IbmTrace Schema Http
begin

text \<open>
  \<open>crates/s3tap-replay/src/adapt.rs\<close>: captured operations as normalized events, and the routing of one
  line of input by its schema tag. The JSON parser is an argument, \<open>json_of_line\<close>; a number that is no
  integer, which no field accepts, stands in its values as an empty array. Unlike the records of
  \<open>Schema\<close>, the structs here are read the way serde reads any struct, from an object or from an array of
  the fields in order.
\<close>

section \<open>Operation records\<close>

record op_record =
  or_verb :: "string option"
  or_s3_op :: "string option"
  or_bucket :: "string option"
  or_key_hash :: "string option"
  or_ts_ns :: "string option"
  or_http_status :: "u16 option"
  or_content_length :: "u64 option"

definition op_kind :: "string option \<Rightarrow> string option \<Rightarrow> trace_op" where
  "op_kind s3_op verb =
    (case s3_op of
       Some op \<Rightarrow>
         if op = ''GetObject'' then Get
         else if op = ''HeadObject'' then Head
         else if op \<in> {''PutObject'', ''UploadPart'', ''CreateMultipartUpload'', ''CompleteMultipartUpload'', ''CopyObject''} then Put
         else if op \<in> {''DeleteObject'', ''DeleteObjects'', ''AbortMultipartUpload''} then Delete
         else Other
     | None \<Rightarrow>
         if verb = Some ''GET'' then Get
         else if verb = Some ''HEAD'' then Head
         else if verb = Some ''PUT'' then Put
         else if verb = Some ''DELETE'' then Delete
         else Other)"

definition record_op_kind :: "op_record \<Rightarrow> trace_op" where
  "record_op_kind r = op_kind (or_s3_op r) (or_verb r)"

definition demand_op :: "op_record \<Rightarrow> trace_op option" where
  "demand_op r =
    (let op = op_kind (or_s3_op r) (or_verb r) in
     if op \<noteq> Get then Some op
     else if or_http_status r = Some 200 then Some Get
     else if or_http_status r = Some 206 then Some Other
     else None)"

definition from_record :: "op_record \<Rightarrow> norm_event option" where
  "from_record r =
    do {
      bucket \<leftarrow> or_bucket r;
      key_hash \<leftarrow> or_key_hash r;
      ts \<leftarrow> Option.bind (or_ts_ns r) parse_u64;
      op \<leftarrow> demand_op r;
      Some \<lparr>ne_ts_ns = ts, ne_op = op, ne_object_id = bucket @ ''/'' @ key_hash, ne_range = None,
        ne_size = or_content_length r, ne_version = None, ne_status = or_http_status r\<rparr>
    }"

definition from_records :: "op_record list \<Rightarrow> norm_event list" where
  "from_records rs = List.map_filter from_record rs"

section \<open>Reading the structs\<close>

definition struct_fields :: "string list \<Rightarrow> json \<Rightarrow> fields option" where
  "struct_fields names j =
    (case j of
       JObj fs \<Rightarrow> Some fs
     | JArr vs \<Rightarrow> if length vs \<le> length names then Some (zip names vs) else None
     | _ \<Rightarrow> None)"

definition wire_tag :: "json \<Rightarrow> (json option \<times> bool) option" where
  "wire_tag j =
    do {
      fs \<leftarrow> struct_fields [''schema'', ''partial''] j;
      schema \<leftarrow> (case entries ''schema'' fs of [] \<Rightarrow> Some None | [v] \<Rightarrow> Some (Some v) | _ \<Rightarrow> None);
      part \<leftarrow> (case entries ''partial'' fs of [] \<Rightarrow> Some False | [v] \<Rightarrow> bool_of_json v | _ \<Rightarrow> None);
      Some (schema, part)
    }"

definition op_record_of_json :: "json \<Rightarrow> op_record option" where
  "op_record_of_json j =
    do {
      fs \<leftarrow> struct_fields [''verb'', ''s3_op'', ''bucket'', ''key_hash'', ''ts_ns'', ''http_status'', ''content_length''] j;
      verb \<leftarrow> optional ''verb'' string_of_json fs;
      s3_op \<leftarrow> optional ''s3_op'' string_of_json fs;
      bucket \<leftarrow> optional ''bucket'' string_of_json fs;
      key_hash \<leftarrow> optional ''key_hash'' string_of_json fs;
      ts_ns \<leftarrow> optional ''ts_ns'' string_of_json fs;
      http_status \<leftarrow> optional ''http_status'' word_of_json fs;
      content_length \<leftarrow> optional ''content_length'' word_of_json fs;
      Some \<lparr>or_verb = verb, or_s3_op = s3_op, or_bucket = bucket, or_key_hash = key_hash, or_ts_ns = ts_ns,
        or_http_status = http_status, or_content_length = content_length\<rparr>
    }"

text \<open>A unit variant is its name, or an object from its name to null.\<close>

definition trace_op_of_name :: "string \<Rightarrow> trace_op option" where
  "trace_op_of_name s =
    (if s = ''get'' then Some Get else if s = ''head'' then Some Head else if s = ''put'' then Some Put
     else if s = ''delete'' then Some Delete else if s = ''other'' then Some Other else None)"

fun trace_op_of_json :: "json \<Rightarrow> trace_op option" where
  "trace_op_of_json (JStr s) = trace_op_of_name s"
| "trace_op_of_json (JObj [(s, JNull)]) = trace_op_of_name s"
| "trace_op_of_json _ = None"

fun pair_of_json :: "json \<Rightarrow> (u64 \<times> u64) option" where
  "pair_of_json (JArr [a, b]) = do { x \<leftarrow> word_of_json a; y \<leftarrow> word_of_json b; Some (x, y) }"
| "pair_of_json _ = None"

definition norm_event_of_json :: "json \<Rightarrow> norm_event option" where
  "norm_event_of_json j =
    do {
      fs \<leftarrow> struct_fields [''ts_ns'', ''op'', ''object_id'', ''range'', ''size'', ''version'', ''status''] j;
      ts_ns \<leftarrow> required ''ts_ns'' word_of_json fs;
      op \<leftarrow> required ''op'' trace_op_of_json fs;
      object_id \<leftarrow> required ''object_id'' string_of_json fs;
      range \<leftarrow> optional ''range'' pair_of_json fs;
      sz \<leftarrow> optional ''size'' word_of_json fs;
      version \<leftarrow> optional ''version'' string_of_json fs;
      status \<leftarrow> optional ''status'' word_of_json fs;
      Some \<lparr>ne_ts_ns = ts_ns, ne_op = op, ne_object_id = object_id, ne_range = range, ne_size = sz, ne_version = version, ne_status = status\<rparr>
    }"

section \<open>Routing a line\<close>

datatype line_outcome = Event norm_event | OperationDropped | OtherRecord | Unusable

definition KNOWN_NON_TRACE_SCHEMAS :: "string list" where
  "KNOWN_NON_TRACE_SCHEMAS = [''s3tap.connection/2'', ''s3tap.sample/1'']"

text \<open>The tag of operations this reader is written against: its own copy of the constant.\<close>

definition REPLAY_OPERATION_SCHEMA :: string where
  "REPLAY_OPERATION_SCHEMA = ''s3tap.operation/1''"

definition owns_tag :: "json option \<Rightarrow> bool" where
  "owns_tag j =
    (case Option.bind j wire_tag of
       Some (schema, _) \<Rightarrow> schema \<noteq> None
     | None \<Rightarrow> (case j of Some (JObj fs) \<Rightarrow> entries ''schema'' fs \<noteq> [] | _ \<Rightarrow> False))"

definition tag_of :: "json option \<Rightarrow> (string \<times> bool) option" where
  "tag_of j =
    do {
      w \<leftarrow> Option.bind j wire_tag;
      raw \<leftarrow> fst w;
      tag \<leftarrow> string_of_json raw;
      Some (tag, snd w)
    }"

definition classify_trace_line :: "(string \<Rightarrow> json option) \<Rightarrow> string \<Rightarrow> line_outcome" where
  "classify_trace_line json_of_line line =
    (let j = json_of_line line in
     if owns_tag j \<and> tag_of j = None then Unusable
     else case tag_of j of
       Some (tag, part) \<Rightarrow>
         if tag = REPLAY_OPERATION_SCHEMA then
           (if part then OperationDropped
            else case Option.bind j op_record_of_json of
              None \<Rightarrow> Unusable
            | Some r \<Rightarrow> (case from_record r of Some ev \<Rightarrow> Event ev | None \<Rightarrow> OperationDropped))
         else if tag \<in> set KNOWN_NON_TRACE_SCHEMAS then OtherRecord
         else Unusable
     | None \<Rightarrow>
         (case Option.bind j norm_event_of_json of
            Some ev \<Rightarrow> Event ev
          | None \<Rightarrow> (case from_ibm_line line of Some ev \<Rightarrow> Event ev | None \<Rightarrow> Unusable)))"

definition parse_trace_line :: "(string \<Rightarrow> json option) \<Rightarrow> string \<Rightarrow> norm_event option" where
  "parse_trace_line json_of_line line =
    (case classify_trace_line json_of_line line of Event ev \<Rightarrow> Some ev | _ \<Rightarrow> None)"

section \<open>The tag decides\<close>

lemma wire_tag_obj:
  "wire_tag (JObj fs) = Some (schema, part) \<longleftrightarrow>
    (case entries ''schema'' fs of [] \<Rightarrow> schema = None | [v] \<Rightarrow> schema = Some v | _ \<Rightarrow> False)
    \<and> (entries ''partial'' fs = [] \<and> \<not> part \<or> entries ''partial'' fs = [JBool part])"
proof -
  have "bool_of_json v = Some p \<longleftrightarrow> v = JBool p" for v p by (cases v) auto
  then show ?thesis
    by (auto simp: wire_tag_def struct_fields_def bind_eq_Some_conv split: list.splits)
qed

lemma tag_of_obj:
  "tag_of (Some (JObj fs)) = Some (tag, part) \<longleftrightarrow>
    entries ''schema'' fs = [JStr tag] \<and> (entries ''partial'' fs = [] \<and> \<not> part \<or> entries ''partial'' fs = [JBool part])"
proof -
  have "string_of_json v = Some s \<longleftrightarrow> v = JStr s" for v s by (cases v) auto
  then show ?thesis
    by (auto simp: tag_of_def bind_eq_Some_conv wire_tag_obj split: list.splits)
qed

lemma owns_tag_obj: "entries ''schema'' fs \<noteq> [] \<Longrightarrow> owns_tag (Some (JObj fs))"
  by (auto simp: owns_tag_def wire_tag_obj split: option.split list.splits)

lemma demand_op_Get: "demand_op r = Some Get \<Longrightarrow> or_http_status r = Some 200 \<and> record_op_kind r = Get"
  by (auto simp: demand_op_def record_op_kind_def Let_def split: if_splits)

text \<open>The schema tag decides. An object with a \<open>schema\<close> member, whatever its other fields, becomes an event
  exactly when that member is the one operation tag, the record is not partial, and its fields make a
  usable record; it is never read as a raw event. A demand read was answered with status 200.\<close>

theorem schema_tag_decides:
  assumes "json_of_line line = Some (JObj fs)" and "entries ''schema'' fs \<noteq> []"
  shows "parse_trace_line json_of_line line = Some ev \<longleftrightarrow>
      entries ''schema'' fs = [JStr OPERATION_SCHEMA] \<and> entries ''partial'' fs \<in> {[], [JBool False]}
      \<and> (\<exists>r. op_record_of_json (JObj fs) = Some r \<and> from_record r = Some ev
             \<and> (ne_op ev = Get \<longrightarrow> or_http_status r = Some 200 \<and> record_op_kind r = Get))"
proof -
  have get: "ne_op ev = Get \<Longrightarrow> or_http_status r = Some 200 \<and> record_op_kind r = Get" if "from_record r = Some ev" for r
    using that demand_op_Get [of r] by (auto simp: from_record_def bind_eq_Some_conv)
  show ?thesis
  proof (cases "tag_of (Some (JObj fs))")
    case None
    then have no: "\<not> (entries ''schema'' fs = [JStr OPERATION_SCHEMA] \<and> entries ''partial'' fs \<in> {[], [JBool False]})"
      using tag_of_obj [of fs OPERATION_SCHEMA False] by auto
    have "classify_trace_line json_of_line line = Unusable"
      using owns_tag_obj [OF assms(2)] None by (simp add: classify_trace_line_def assms(1))
    then show ?thesis using no by (auto simp: parse_trace_line_def)
  next
    case (Some p)
    obtain tag part where p: "p = (tag, part)" by (cases p)
    have t: "entries ''schema'' fs = [JStr tag]" "entries ''partial'' fs = [] \<and> \<not> part \<or> entries ''partial'' fs = [JBool part]"
      using Some tag_of_obj [of fs tag part] p by auto
    have "classify_trace_line json_of_line line =
        (if tag = REPLAY_OPERATION_SCHEMA then
           (if part then OperationDropped
            else case op_record_of_json (JObj fs) of
              None \<Rightarrow> Unusable
            | Some r \<Rightarrow> (case from_record r of Some ev \<Rightarrow> Event ev | None \<Rightarrow> OperationDropped))
         else if tag \<in> set KNOWN_NON_TRACE_SCHEMAS then OtherRecord
         else Unusable)"
      using Some p by (simp add: classify_trace_line_def assms(1))
    then show ?thesis
      using t get by (auto simp: parse_trace_line_def OPERATION_SCHEMA_def REPLAY_OPERATION_SCHEMA_def split: option.splits if_splits)
  qed
qed

section \<open>What the agent emits\<close>

lemma ts_string: "opt_of_json string_of_json (opt_u64_as_dec_string w) = Some (map_option (\<lambda>n. dec_string (unat n)) w)"
  by (cases w) (auto simp: opt_u64_as_dec_string_def opt_of_json_def)

lemma op_record_of_operation:
  "op_record_of_json (json_of_operation r) = Some \<lparr>or_verb = o_verb r, or_s3_op = o_s3_op r, or_bucket = o_bucket r,
     or_key_hash = o_key_hash r, or_ts_ns = map_option (\<lambda>n. dec_string (unat n)) (o_ts_ns r),
     or_http_status = o_http_status r, or_content_length = o_content_length r\<rparr>"
  by (simp add: op_record_of_json_def struct_fields_def json_of_operation_def fields_of_operation_def serde_simps ts_string)

lemma classify_tagged:
  assumes "json_of_line line = Some j" and "tag_of (Some j) = Some (tag, part)"
  shows "classify_trace_line json_of_line line =
    (if tag = REPLAY_OPERATION_SCHEMA then
       (if part then OperationDropped
        else case op_record_of_json j of
          None \<Rightarrow> Unusable
        | Some r \<Rightarrow> (case from_record r of Some ev \<Rightarrow> Event ev | None \<Rightarrow> OperationDropped))
     else if tag \<in> set KNOWN_NON_TRACE_SCHEMAS then OtherRecord
     else Unusable)"
  using assms by (simp add: classify_trace_line_def)

lemma emitted_tags:
  "tag_of (Some (json_of_operation r)) = Some (OPERATION_SCHEMA, o_partial r)"
  "\<exists>part. tag_of (Some (json_of_connection c)) = Some (CONNECTION_SCHEMA, part)"
  "\<exists>part. tag_of (Some (json_of_tcp_sample s)) = Some (SAMPLE_SCHEMA, part)"
  by (auto simp: json_of_operation_def json_of_connection_def json_of_tcp_sample_def tag_of_obj
      fields_of_operation_def fields_of_connection_def fields_of_tcp_sample_def)

text \<open>C35: a capture replays. The line the agent writes for an operation becomes an event of its object when the
  record is whole, names its bucket, key and start, and, if it is a read, got the whole object (a range
  is kept but never counted as a read); any other operation is dropped by content and never called
  unreadable. The lines of connections and samples are recognised as such.\<close>

theorem capture_replays:
  "(json_of_line line = Some (json_of_operation r) \<longrightarrow> classify_trace_line json_of_line line =
      (case (o_partial r, o_bucket r, o_key_hash r, o_ts_ns r) of
         (False, Some b, Some k, Some ts) \<Rightarrow>
           (let kind = op_kind (o_s3_op r) (o_verb r) in
            if kind = Get \<and> o_http_status r \<notin> {Some 200, Some 206} then OperationDropped
            else Event \<lparr>ne_ts_ns = ts, ne_op = (if kind = Get \<and> o_http_status r = Some 206 then Other else kind),
              ne_object_id = b @ ''/'' @ k, ne_range = None, ne_size = o_content_length r, ne_version = None, ne_status = o_http_status r\<rparr>)
       | _ \<Rightarrow> OperationDropped))
    \<and> (json_of_line line \<in> {Some (json_of_connection c), Some (json_of_tcp_sample s)} \<longrightarrow>
       classify_trace_line json_of_line line = OtherRecord)"
proof (intro conjI impI)
  let ?r = "\<lparr>or_verb = o_verb r, or_s3_op = o_s3_op r, or_bucket = o_bucket r,
     or_key_hash = o_key_hash r, or_ts_ns = map_option (\<lambda>n. dec_string (unat n)) (o_ts_ns r),
     or_http_status = o_http_status r, or_content_length = o_content_length r\<rparr>"
  assume j: "json_of_line line = Some (json_of_operation r)"
  have "classify_trace_line json_of_line line = (if o_partial r then OperationDropped
      else case from_record ?r of Some ev \<Rightarrow> Event ev | None \<Rightarrow> OperationDropped)"
    by (simp add: classify_tagged [where json_of_line = json_of_line and line = line, OF j emitted_tags(1) [of r]] op_record_of_operation OPERATION_SCHEMA_def REPLAY_OPERATION_SCHEMA_def)
  then show "classify_trace_line json_of_line line = (case (o_partial r, o_bucket r, o_key_hash r, o_ts_ns r) of
         (False, Some b, Some k, Some ts) \<Rightarrow>
           (let kind = op_kind (o_s3_op r) (o_verb r) in
            if kind = Get \<and> o_http_status r \<notin> {Some 200, Some 206} then OperationDropped
            else Event \<lparr>ne_ts_ns = ts, ne_op = (if kind = Get \<and> o_http_status r = Some 206 then Other else kind),
              ne_object_id = b @ ''/'' @ k, ne_range = None, ne_size = o_content_length r, ne_version = None, ne_status = o_http_status r\<rparr>)
       | _ \<Rightarrow> OperationDropped)"
    by (cases "o_bucket r"; cases "o_key_hash r"; cases "o_ts_ns r")
      (simp_all add: from_record_def demand_op_def Let_def parse_u64_dec_string)
next
  assume "json_of_line line \<in> {Some (json_of_connection c), Some (json_of_tcp_sample s)}"
  moreover obtain p1 p2 where "tag_of (Some (json_of_connection c)) = Some (CONNECTION_SCHEMA, p1)"
    "tag_of (Some (json_of_tcp_sample s)) = Some (SAMPLE_SCHEMA, p2)" using emitted_tags(2,3) by blast
  ultimately show "classify_trace_line json_of_line line = OtherRecord"
    by (auto simp: classify_tagged CONNECTION_SCHEMA_def SAMPLE_SCHEMA_def REPLAY_OPERATION_SCHEMA_def KNOWN_NON_TRACE_SCHEMAS_def)
qed

text \<open>A read of an access control list is an object read to the taxonomy of the agent, and so to the replay.\<close>

lemma acl_read_counts: "op_kind (Some (as_str (classify ''GET'' ''/key'' ''acl''))) (Some ''GET'') = Get"
  by code_simp

definition sample_operation :: operation where
  "sample_operation = operation_default\<lparr>o_ts_ns := Some 7, o_s3_op := Some ''GetObject'', o_bucket := Some ''b'',
     o_key_hash := Some ''k'', o_http_status := Some 200, o_content_length := Some 3\<rparr>"

lemma capture_replays_witness:
  "classify_trace_line (\<lambda>_. Some (json_of_operation sample_operation)) ''l'' =
     Event \<lparr>ne_ts_ns = 7, ne_op = Get, ne_object_id = ''b/k'', ne_range = None, ne_size = Some 3, ne_version = None, ne_status = Some 200\<rparr>"
proof -
  have k: "op_kind (o_s3_op sample_operation) (o_verb sample_operation) = Get" by code_simp
  have "(\<lambda>_::string. Some (json_of_operation sample_operation)) ''l'' = Some (json_of_operation sample_operation)" by simp
  from capture_replays [THEN conjunct1, THEN mp, OF this] show ?thesis
    unfolding k by (simp add: sample_operation_def operation_default_def)
qed

lemma schema_tag_decides_witness:
  "parse_trace_line (\<lambda>_. Some (JObj [(''schema'', JStr ''s3tap.operation/2''), (''op'', JStr ''get'')])) ''l'' = None"
proof -
  let ?fs = "[(''schema'', JStr ''s3tap.operation/2''), (''op'', JStr ''get'')]"
  have e: "entries ''schema'' ?fs = [JStr ''s3tap.operation/2'']" by (simp add: entries_def)
  then have ne: "entries ''schema'' ?fs \<noteq> []" by simp
  have "parse_trace_line (\<lambda>_. Some (JObj ?fs)) ''l'' \<noteq> Some ev" for ev
    using schema_tag_decides [of "\<lambda>_. Some (JObj ?fs)" "''l''" ?fs ev, OF refl ne]
    unfolding e OPERATION_SCHEMA_def by simp
  then show ?thesis by (metis option.exhaust)
qed

end
