(* ===== verification/Redact.thy ===== *)
theory Redact
  imports RustStr "HOL-Library.Multiset" "HOL-Library.Monad_Syntax"
begin

text \<open>
  What \<open>--dump-events\<close> may print of a captured request line (\<open>main.rs\<close>: \<open>redact_request_line\<close>,
  \<open>scrub_query\<close>, \<open>scrub_aws_sigv4\<close>). Slicing a string between bytes of one code point panics in
  Rust; here it is \<open>None\<close>, so that a theorem that gives \<open>Some\<close> also excludes the panic.
\<close>

section \<open>Slices\<close>

definition is_char_boundary :: "string \<Rightarrow> nat \<Rightarrow> bool" where
  "is_char_boundary s i = (i = 0 \<or> i = length s \<or> i < length s \<and> \<not> utf8_cont (byte_of (s ! i)))"

definition str_get_from :: "string \<Rightarrow> nat \<Rightarrow> string option" where
  "str_get_from s i = (if is_char_boundary s i then Some (drop i s) else None)"

definition str_slice :: "string \<Rightarrow> nat \<Rightarrow> nat \<Rightarrow> string option" where
  "str_slice s a b =
    (if a \<le> b \<and> is_char_boundary s a \<and> is_char_boundary s b then Some (take (b - a) (drop a s)) else None)"

definition str_find :: "string \<Rightarrow> string \<Rightarrow> nat option" where
  "str_find p s = find (\<lambda>i. prefix p (drop i s)) [0..<Suc (length s)]"

section \<open>The needle scrub\<close>

definition is_delim :: "char \<Rightarrow> bool" where
  "is_delim c = (c = CHR ''&'' \<or> c = CHR '' '' \<or> c = CHR 0x09)"

definition needles :: "string list" where
  "needles = [''x-amz-signature='', ''x-amz-credential='', ''x-amz-security-token='',
     ''signature='', ''awsaccesskeyid='', ''expires='']"

definition find_delim :: "string \<Rightarrow> nat option" where
  "find_delim s = (if list_ex is_delim s then Some (length (takeWhile (\<lambda>c. \<not> is_delim c) s)) else None)"

text \<open>The search for one needle, from a byte offset on; an offset inside a code point finds nothing.
  The last test is for termination only: the offset always grows, since no needle is empty and the
  lower-cased line has the length of the line.\<close>

function needle_loop :: "string \<Rightarrow> string \<Rightarrow> string \<Rightarrow> nat \<Rightarrow> (nat \<times> nat) list option" where
  "needle_loop needle lower line from =
    (case Option.bind (str_get_from lower from) (str_find needle) of
       None \<Rightarrow> Some []
     | Some rel \<Rightarrow>
         (let val_start = from + rel + length needle in
          case str_get_from line val_start of
            None \<Rightarrow> None
          | Some rest \<Rightarrow>
              (let val_end = (case find_delim rest of None \<Rightarrow> length line | Some d \<Rightarrow> val_start + d);
                   from' = min (max val_end (val_start + 1)) (length line)
               in if from < from'
                  then map_option (\<lambda>spans. (val_start, val_end) # spans) (needle_loop needle lower line from')
                  else None)))"
  by pat_completeness auto
termination
  by (relation "measure (\<lambda>(needle, lower, line, from). length line - from)") auto

declare needle_loop.simps [simp del]

fun merge_spans :: "(nat \<times> nat) list \<Rightarrow> (nat \<times> nat) list \<Rightarrow> (nat \<times> nat) list" where
  "merge_spans merged [] = merged"
| "merge_spans merged ((s, e) # spans) =
    (if merged \<noteq> [] \<and> s \<le> snd (last merged)
     then merge_spans (butlast merged @ [(fst (last merged), max (snd (last merged)) e)]) spans
     else merge_spans (merged @ [(s, e)]) spans)"

definition redacted :: string where "redacted = ''REDACTED''"

fun rebuild :: "string \<Rightarrow> nat \<Rightarrow> (nat \<times> nat) list \<Rightarrow> string option" where
  "rebuild line pos [] = str_get_from line pos"
| "rebuild line pos ((s, e) # spans) =
    do {
      kept \<leftarrow> str_slice line pos s;
      rest \<leftarrow> rebuild line e spans;
      Some (kept @ redacted @ rest)
    }"

fun all_spans :: "string list \<Rightarrow> string \<Rightarrow> (nat \<times> nat) list option" where
  "all_spans [] line = Some []"
| "all_spans (n # ns) line =
    do {
      xs \<leftarrow> needle_loop n (to_ascii_lowercase line) line 0;
      ys \<leftarrow> all_spans ns line;
      Some (xs @ ys)
    }"

definition scrub_aws_sigv4 :: "string \<Rightarrow> string option" where
  "scrub_aws_sigv4 line =
    do {
      spans \<leftarrow> all_spans needles line;
      if spans = [] then Some line else rebuild line 0 (merge_spans [] (sort spans))
    }"

section \<open>The request line\<close>

definition SAFE_QUERY_KEYS :: "string list" where
  "SAFE_QUERY_KEYS = [''versionid'', ''partnumber'', ''uploadid'', ''list-type'', ''delete'', ''uploads'', ''session'']"

definition scrub_pair :: "string \<Rightarrow> string" where
  "scrub_pair pair =
    (case split_once CHR ''='' pair of
       None \<Rightarrow> pair
     | Some (key, value) \<Rightarrow>
         key @ ''='' @ (if to_ascii_lowercase key \<in> set SAFE_QUERY_KEYS then value else redacted))"

definition scrub_query :: "string \<Rightarrow> string" where
  "scrub_query query = join ''&'' (map scrub_pair (split_char CHR ''&'' query))"

definition is_http_method :: "string \<Rightarrow> bool" where
  "is_http_method s = (s \<noteq> [] \<and> length s \<le> 16 \<and> list_all is_upper s)"

definition is_request_target :: "string \<Rightarrow> bool" where
  "is_request_target t = (starts_with ''/'' t \<or> starts_with ''http://'' t \<or> starts_with ''https://'' t)"

definition redact_request_line :: "string \<Rightarrow> string option" where
  "redact_request_line line =
    (case split_once CHR '' '' line of
       Some (verb, rest) \<Rightarrow>
         if is_http_method verb then
           (let (target, tail) = (case split_once CHR '' '' rest of Some (t, after) \<Rightarrow> (t, Some after) | None \<Rightarrow> (rest, None)) in
            if is_request_target target then
              (let q = (case split_once CHR ''?'' target of None \<Rightarrow> [] | Some (_, query) \<Rightarrow> ''?'' @ scrub_query query);
                   version = (case tail of
                       None \<Rightarrow> []
                     | Some t \<Rightarrow> if starts_with ''HTTP/1.'' t \<and> CHR '' '' \<notin> set t \<and> CHR 0x09 \<notin> set t then '' '' @ t else [])
               in Some (verb @ '' /<key>'' @ q @ version))
            else scrub_aws_sigv4 line)
         else scrub_aws_sigv4 line
     | None \<Rightarrow> scrub_aws_sigv4 line)"

text \<open>The first captured line, lossily decoded.\<close>

definition first_line :: "u8 list \<Rightarrow> u8 list" where
  "first_line captured = takeWhile (\<lambda>b. b \<noteq> 0x0D \<and> b \<noteq> 0x0A) captured"

definition displayed_line :: "u8 list \<Rightarrow> string option" where
  "displayed_line captured = redact_request_line (from_utf8_lossy (first_line captured))"

section \<open>Code points and their boundaries\<close>

text \<open>No code point starts with a continuation byte, neither at the start nor after an ASCII byte.\<close>

definition cut_ok :: "string \<Rightarrow> bool" where
  "cut_ok s = (\<forall>i<length s. i = 0 \<or> byte_of (s ! (i - 1)) < 0x80 \<longrightarrow> \<not> utf8_cont (byte_of (s ! i)))"

lemma cut_ok_append:
  assumes "a \<noteq> [] \<Longrightarrow> \<not> utf8_cont (byte_of (hd a))"
    and "\<And>j. 0 < j \<Longrightarrow> j < length a \<Longrightarrow> \<not> byte_of (a ! (j - 1)) < 0x80" and "cut_ok b"
  shows "cut_ok (a @ b)"
  unfolding cut_ok_def
proof (intro allI impI)
  fix i assume i: "i < length (a @ b)" "i = 0 \<or> byte_of ((a @ b) ! (i - 1)) < 0x80"
  show "\<not> utf8_cont (byte_of ((a @ b) ! i))"
  proof (cases "i < length a")
    case True
    then have "i = 0" using i(2) assms(2) [of i] by (cases "i = 0") (auto simp: nth_append split: if_splits)
    then show ?thesis using True assms(1) by (cases a) auto
  next
    case False
    then have "i - length a = 0 \<or> byte_of (b ! (i - length a - 1)) < 0x80"
      using i(2) by (cases "i = length a") (auto simp: nth_append diff_commute split: if_splits)
    moreover have "i - length a < length b" "(a @ b) ! i = b ! (i - length a)" using False i(1) by (auto simp: nth_append)
    ultimately show ?thesis using assms(3) unfolding cut_ok_def by metis
  qed
qed

lemma not_ascii:
  "utf8_cont b \<Longrightarrow> \<not> b < 0x80" "utf8_second_ok b0 b \<Longrightarrow> \<not> b < 0x80" "1 < utf8_need b \<Longrightarrow> \<not> b < 0x80"
  "utf8_need b \<noteq> 0 \<Longrightarrow> \<not> utf8_cont b"
  by (auto simp: utf8_cont_def utf8_second_ok_def utf8_need_def word_less_nat_alt word_le_nat_alt split: if_splits)

lemma chunk_shape:
  assumes "utf8_chunk bs = (n, True)" and "bs \<noteq> []"
  shows "\<not> utf8_cont (hd bs)" and "0 < j \<Longrightarrow> j < n \<Longrightarrow> \<not> bs ! (j - 1) < 0x80" and "0 < n" and "n \<le> length bs"
proof -
  obtain b0 r where bs: "bs = b0 # r" using assms(2) by (cases bs) auto
  have need: "utf8_need b0 \<noteq> 0" "n = utf8_need b0" "n \<le> 4"
    using assms(1) by (auto simp: bs utf8_chunk_def utf8_need_def Let_def split: list.splits if_splits)
  show "\<not> utf8_cont (hd bs)" using not_ascii(4) [OF need(1)] by (simp add: bs)
  show "0 < n" "n \<le> length bs" using utf8_chunk_pos [OF assms(2)] utf8_chunk_le [of bs] assms(1) by simp_all
  assume j: "0 < j" "j < n"
  have "\<not> b0 < 0x80" using j need(2) by (intro not_ascii(3)) simp
  moreover have "\<not> bs ! 1 < 0x80" if "2 < n"
    using assms(1) that by (auto simp: bs utf8_chunk_def Let_def split: list.splits if_splits dest: not_ascii(2))
  moreover have "\<not> bs ! 2 < 0x80" if "3 < n"
    using assms(1) that by (auto simp: bs utf8_chunk_def Let_def split: list.splits if_splits dest: not_ascii(1))
  moreover have "j = 1 \<or> j = 2 \<or> j = 3" using j need(3) by linarith
  ultimately show "\<not> bs ! (j - 1) < 0x80" using j(2) by (elim disjE) (simp_all add: bs)
qed

lemma cut_ok_chunk:
  assumes "utf8_chunk bs = (n, True)" and "bs \<noteq> []" and "cut_ok b"
  shows "cut_ok (map chr_of (take n bs) @ b)"
  using chunk_shape [OF assms(1,2)] assms(2) by (intro cut_ok_append [OF _ _ assms(3)]) (auto simp: hd_map)

lemma cut_ok_lossy: "cut_ok (from_utf8_lossy bs)"
proof (induction bs rule: from_utf8_lossy.induct)
  case (1 bs)
  have r: "cut_ok (utf8_replacement @ b)" if "cut_ok b" for b
  proof (rule cut_ok_append [OF _ _ that])
    have bytes: "\<not> utf8_cont (byte_of CHR 0xEF)" "\<not> byte_of CHR 0xEF < 0x80" "\<not> byte_of CHR 0xBF < 0x80" by code_simp+
    show "\<not> utf8_cont (byte_of (hd utf8_replacement))" using bytes by (simp add: utf8_replacement_def)
    fix j assume "0 < j" "j < length utf8_replacement"
    then have "j = 1 \<or> j = 2" by (auto simp: utf8_replacement_def)
    then show "\<not> byte_of (utf8_replacement ! (j - 1)) < 0x80" using bytes by (auto simp: utf8_replacement_def)
  qed
  show ?case
  proof (cases "bs = []")
    case True
    then show ?thesis by (simp add: from_utf8_lossy.simps cut_ok_def)
  next
    case False
    obtain n ok where c: "utf8_chunk bs = (n, ok)" by (metis surj_pair)
    have ih: "cut_ok (from_utf8_lossy (drop n bs))" using 1 [OF False] c by simp
    have "from_utf8_lossy bs = (if ok then map chr_of (take n bs) else utf8_replacement) @ from_utf8_lossy (drop n bs)"
      using False c by (subst from_utf8_lossy.simps) simp
    then show ?thesis using cut_ok_chunk [OF _ False ih] c r [OF ih] by (cases ok) simp_all
  qed
qed

lemma boundary_after: "cut_ok (a @ c # b) \<Longrightarrow> byte_of c < 0x80 \<Longrightarrow> is_char_boundary (a @ c # b) (Suc (length a))"
  by (auto simp: cut_ok_def is_char_boundary_def nth_append dest!: spec [of _ "Suc (length a)"])

lemma boundary_at: "byte_of c < 0x80 \<Longrightarrow> is_char_boundary (a @ c # b) (length a)"
  by (auto simp: is_char_boundary_def nth_append utf8_cont_def)

lemma boundary_ends [simp]: "is_char_boundary s 0" "is_char_boundary s (length s)"
  by (simp_all add: is_char_boundary_def)

section \<open>Finding\<close>

lemma str_find_Nil: "str_find p [] = (if p = [] then Some 0 else None)"
  by (simp add: str_find_def)

lemma str_find_Cons: "str_find p (c # s) = (if prefix p (c # s) then Some 0 else map_option Suc (str_find p s))"
proof -
  have "[0..<Suc n] = 0 # map Suc [0..<n]" for n unfolding map_Suc_upt by (rule upt_conv_Cons) simp
  then have "[0..<Suc (length (c # s))] = 0 # map Suc [0..<Suc (length s)]" by (simp only: list.size add_Suc_right add_0_right)
  moreover have "find P (map Suc xs) = map_option Suc (find (P \<circ> Suc) xs)" for P xs by (induction xs) auto
  ultimately show ?thesis by (simp add: str_find_def comp_def del: upt_Suc)
qed

lemma str_find_sep:
  assumes "d \<notin> set p" and "p \<noteq> []"
  shows "str_find p (f @ d # r) =
    (case str_find p f of Some i \<Rightarrow> Some i | None \<Rightarrow> map_option (\<lambda>j. Suc (length f + j)) (str_find p r))"
proof (induction f)
  case Nil
  then show ?case using assms by (cases p) (auto simp: str_find_Nil str_find_Cons)
next
  case (Cons c f)
  have "prefix p ((c # f) @ d # r) \<longleftrightarrow> prefix p (c # f)"
    using assms(1) by (auto simp: prefix_append prefix_Cons)
  then show ?case using Cons
    by (simp add: str_find_Cons option.map_comp comp_def split: option.splits)
qed

lemma str_find_SomeD: "str_find p s = Some i \<Longrightarrow> i + length p \<le> length s \<and> prefix p (drop i s)"
  unfolding str_find_def by (drule find_Some_iff2) (auto dest: prefix_length_le)

section \<open>Field by field\<close>

text \<open>A line is a list of fields between delimiters. The reference redacts each field from the end of its
  first secret name on.\<close>

definition field :: "string \<Rightarrow> string" where "field line = takeWhile (\<lambda>c. \<not> is_delim c) line"

definition after_field :: "string \<Rightarrow> string" where "after_field line = dropWhile (\<lambda>c. \<not> is_delim c) line"

definition match_end :: "string \<Rightarrow> string \<Rightarrow> nat option" where
  "match_end n f = map_option (\<lambda>i. i + length n) (str_find n (to_ascii_lowercase f))"

definition secret_start :: "string list \<Rightarrow> string \<Rightarrow> nat option" where
  "secret_start ns f = (case List.map_filter (\<lambda>n. match_end n f) ns of [] \<Rightarrow> None | i # is \<Rightarrow> Some (Min (set (i # is))))"

definition redact_field :: "string list \<Rightarrow> string \<Rightarrow> string" where
  "redact_field ns f = (case secret_start ns f of None \<Rightarrow> f | Some i \<Rightarrow> take i f @ redacted)"

lemma field_split: "line = field line @ after_field line"
  by (simp add: field_def after_field_def)

lemma after_field_Cons: "after_field line = d # r \<Longrightarrow> is_delim d \<and> line = field line @ d # r"
  using hd_dropWhile [of "\<lambda>c. \<not> is_delim c" line] field_split [of line] by (auto simp: after_field_def)

lemma after_field_shorter: "after_field line = d # r \<Longrightarrow> length r < length line"
  using arg_cong [OF field_split [of line], of length] by simp

function scrub_fields :: "string list \<Rightarrow> string \<Rightarrow> string" where
  "scrub_fields ns line =
    redact_field ns (field line) @ (case after_field line of [] \<Rightarrow> [] | d # r \<Rightarrow> d # scrub_fields ns r)"
  by pat_completeness auto
termination
  by (relation "measure (\<lambda>(ns, line). length line)") (auto dest: after_field_shorter)

declare scrub_fields.simps [simp del]

text \<open>The spans one needle contributes, and those of all needles merged, at offset \<open>p\<close>.\<close>

function needle_spans :: "string \<Rightarrow> nat \<Rightarrow> string \<Rightarrow> (nat \<times> nat) list" where
  "needle_spans n p line =
    (case match_end n (field line) of None \<Rightarrow> [] | Some i \<Rightarrow> [(p + i, p + length (field line))])
    @ (case after_field line of [] \<Rightarrow> [] | d # r \<Rightarrow> needle_spans n (p + Suc (length (field line))) r)"
  by pat_completeness auto
termination
  by (relation "measure (\<lambda>(n, p, line). length line)") (auto dest: after_field_shorter)

function field_spans :: "string list \<Rightarrow> nat \<Rightarrow> string \<Rightarrow> (nat \<times> nat) list" where
  "field_spans ns p line =
    (case secret_start ns (field line) of None \<Rightarrow> [] | Some i \<Rightarrow> [(p + i, p + length (field line))])
    @ (case after_field line of [] \<Rightarrow> [] | d # r \<Rightarrow> field_spans ns (p + Suc (length (field line))) r)"
  by pat_completeness auto
termination
  by (relation "measure (\<lambda>(ns, p, line). length line)") (auto dest: after_field_shorter)

declare needle_spans.simps [simp del] field_spans.simps [simp del]

definition needle_ok :: "string \<Rightarrow> bool" where
  "needle_ok n = (n \<noteq> [] \<and> list_all (\<lambda>c. \<not> is_delim c) n \<and> last n = CHR ''='')"

lemma needles_ok: "n \<in> set needles \<Longrightarrow> needle_ok n"
  by (auto simp: needles_def needle_ok_def is_delim_def)

lemma lower_char_eq_iff: "\<not> is_upper d \<Longrightarrow> \<not> is_lower d \<Longrightarrow> lower_char c = d \<longleftrightarrow> c = d"
proof -
  assume d: "\<not> is_upper d" "\<not> is_lower d"
  have "is_lower (lower_char c)" if "is_upper c"
    using that by (auto simp: lower_char_def is_upper_def is_lower_def)
  then show ?thesis using d by (auto simp: lower_char_def)
qed

lemma lower_delim [simp]: "is_delim (lower_char c) \<longleftrightarrow> is_delim c"
  by (simp add: is_delim_def lower_char_eq_iff is_upper_def is_lower_def)

lemma lower_eq_sign: "lower_char c = CHR ''='' \<longleftrightarrow> c = CHR ''=''"
  by (simp add: lower_char_eq_iff is_upper_def is_lower_def)

lemma match_end_SomeD:
  assumes "match_end n f = Some i" and "needle_ok n"
  shows "0 < i" and "i \<le> length f" and "f ! (i - 1) = CHR ''=''"
proof -
  obtain j where j: "str_find n (to_ascii_lowercase f) = Some j" "i = j + length n"
    using assms(1) by (auto simp: match_end_def)
  have pre: "prefix n (drop j (to_ascii_lowercase f))" "j + length n \<le> length f" using str_find_SomeD [OF j(1)] by auto
  show "0 < i" "i \<le> length f" using assms(2) j(2) pre(2) by (auto simp: needle_ok_def)
  obtain zs where "drop j (to_ascii_lowercase f) = n @ zs" using pre(1) by (auto elim: prefixE)
  then have "to_ascii_lowercase f ! (j + (length n - 1)) = n ! (length n - 1)"
    using assms(2) pre(2) by (metis diff_less length_greater_0_conv length_to_ascii_lowercase le_add1 le_trans needle_ok_def nth_append nth_drop zero_less_one)
  moreover have k: "j + (length n - 1) < length f" "i - 1 = j + (length n - 1)" using assms(2) pre(2) j(2) length_greater_0_conv [of n] unfolding needle_ok_def by linarith+
  ultimately have "lower_char (f ! (i - 1)) = n ! (length n - 1)" by (simp only: k(2) to_ascii_lowercase_def nth_map)
  then have "lower_char (f ! (i - 1)) = CHR ''=''" using assms(2) last_conv_nth [of n] by (simp add: needle_ok_def)
  then show "f ! (i - 1) = CHR ''=''" by (simp only: lower_eq_sign)
qed

section \<open>The search finds the fields\<close>

lemma is_delim_ascii: "is_delim c \<Longrightarrow> byte_of c < 0x80"
  by (auto simp: is_delim_def byte_of_def)

lemma unat_byte_of: "unat (byte_of c) = of_char c"
  by (simp add: byte_of_def unat_of_nat take_bit_eq_mod [symmetric])

lemma boundary_lower [simp]: "is_char_boundary (to_ascii_lowercase s) i = is_char_boundary s i"
proof -
  have "utf8_cont (byte_of (lower_char c)) \<longleftrightarrow> utf8_cont (byte_of c)" for c
  proof (cases "is_upper c")
    case True
    then have lt: "(of_char c :: nat) < 96" by (simp add: is_upper_def)
    then have "of_char (lower_char c) = (of_char c :: nat) + 32"
      using True by (simp only: lower_char_def if_True of_char_of) (rule mod_less, linarith)
    then show ?thesis using lt unfolding utf8_cont_def word_le_nat_alt unat_byte_of by simp
  qed (simp add: lower_char_def)
  moreover have "i < length s \<Longrightarrow> to_ascii_lowercase s ! i = lower_char (s ! i)" by (simp add: to_ascii_lowercase_def)
  ultimately show ?thesis unfolding is_char_boundary_def length_to_ascii_lowercase by metis
qed

lemma needle_loop_none:
  "str_find n (drop p (to_ascii_lowercase whole)) = None \<Longrightarrow> needle_loop n (to_ascii_lowercase whole) whole p = Some []"
  by (subst needle_loop.simps) (simp add: str_get_from_def)

lemma needle_loop_step:
  assumes "str_find n (drop p (to_ascii_lowercase whole)) = Some rel" and "n \<noteq> []" and "p \<le> length whole"
    and "is_char_boundary whole p" and "is_char_boundary whole (p + rel + length n)"
  shows "needle_loop n (to_ascii_lowercase whole) whole p =
    (let vs = p + rel + length n;
         ve = (case find_delim (drop vs whole) of None \<Rightarrow> length whole | Some d \<Rightarrow> vs + d)
     in map_option ((#) (vs, ve)) (needle_loop n (to_ascii_lowercase whole) whole (min (max ve (vs + 1)) (length whole))))"
proof -
  have "rel + length n \<le> length whole - p" using str_find_SomeD [OF assms(1)] by simp
  then have "p + rel + length n \<le> length whole" "p < p + rel + length n" using assms(2,3) by (auto simp: neq_Nil_conv)
  then have "p < min (max ve (p + rel + length n + 1)) (length whole)" for ve
    unfolding min_less_iff_conj less_max_iff_disj by linarith
  then show ?thesis using assms(1,4,5)
    by (subst needle_loop.simps) (simp add: str_get_from_def Let_def)
qed

lemma needle_loop_skip:
  assumes "str_find n (drop p (to_ascii_lowercase whole)) = map_option ((+) k) (str_find n (drop (p + k) (to_ascii_lowercase whole)))"
    and "n \<noteq> []" and "p + k \<le> length whole" and "is_char_boundary whole p" and "is_char_boundary whole (p + k)"
    and "\<And>rel. str_find n (drop (p + k) (to_ascii_lowercase whole)) = Some rel \<Longrightarrow> is_char_boundary whole (p + k + rel + length n)"
  shows "needle_loop n (to_ascii_lowercase whole) whole p = needle_loop n (to_ascii_lowercase whole) whole (p + k)"
proof (cases "str_find n (drop (p + k) (to_ascii_lowercase whole))")
  case None
  then show ?thesis using assms(1) by (simp add: needle_loop_none)
next
  case (Some rel)
  then have "str_find n (drop p (to_ascii_lowercase whole)) = Some (k + rel)" using assms(1) by simp
  from needle_loop_step [OF this assms(2)] needle_loop_step [OF Some assms(2,3,5) assms(6) [OF Some]] show ?thesis
    using assms(3,4) assms(6) [OF Some] by (simp add: add.assoc add.left_commute)
qed

lemma find_delim_field:
  "i \<le> length (field line) \<Longrightarrow> find_delim (drop i line) = (if after_field line = [] then None else Some (length (field line) - i))"
proof -
  assume i: "i \<le> length (field line)"
  have nd: "\<forall>c\<in>set (drop i (field line)). \<not> is_delim c"
    by (auto simp: field_def dest!: in_set_dropD set_takeWhileD)
  have "drop i line = drop i (field line) @ after_field line" using i by (subst field_split [of line]) simp
  then show ?thesis using nd after_field_Cons [of line]
    by (cases "after_field line") (auto simp: find_delim_def list_ex_iff takeWhile_append)
qed

lemma to_ascii_lowercase_append:
  "to_ascii_lowercase (a @ b) = to_ascii_lowercase a @ to_ascii_lowercase b"
  "to_ascii_lowercase (c # b) = lower_char c # to_ascii_lowercase b"
  by (simp_all add: to_ascii_lowercase_def)

lemma drop_lower: "drop (length pre) (to_ascii_lowercase (pre @ line)) = to_ascii_lowercase line"
  by (simp add: to_ascii_lowercase_def)

lemma plus_fun_Suc: "(\<lambda>j. Suc (k + j)) = (+) (Suc k)"
  by (rule ext) simp

lemma find_line:
  assumes "needle_ok n" and "after_field line = d # r"
  shows "str_find n (to_ascii_lowercase line) =
    (case match_end n (field line) of
       Some i \<Rightarrow> Some (i - length n)
     | None \<Rightarrow> map_option ((+) (Suc (length (field line)))) (str_find n (to_ascii_lowercase r)))"
proof -
  have line: "line = field line @ d # r" and d: "is_delim d" using after_field_Cons [OF assms(2)] by auto
  have "lower_char d \<notin> set n" "n \<noteq> []" using assms(1) d by (auto simp: needle_ok_def list_all_iff)
  from str_find_sep [OF this, of "to_ascii_lowercase (field line)" "to_ascii_lowercase r"] show ?thesis
    unfolding to_ascii_lowercase_append [symmetric] line [symmetric]
    by (simp add: match_end_def plus_fun_Suc split: option.split)
qed

lemma eq_sign_ascii: "byte_of CHR ''='' < 0x80"
  by code_simp

lemma match_boundary:
  assumes "cut_ok whole" and "str_find n (drop p (to_ascii_lowercase whole)) = Some rel" and "needle_ok n" and "p \<le> length whole"
  shows "is_char_boundary whole (p + rel + length n)"
proof -
  let ?s = "drop p whole" and ?i = "rel + length n"
  have "match_end n ?s = Some ?i" using assms(2) by (simp add: match_end_def to_ascii_lowercase_def drop_map)
  from match_end_SomeD [OF this assms(3)] have i: "0 < ?i" "p + ?i \<le> length whole" "whole ! (p + (?i - 1)) = CHR ''=''"
    using assms(4) by auto
  show ?thesis
  proof (cases "p + ?i = length whole")
    case False
    then have lt: "p + ?i < length whole" using i by simp
    have "p + ?i - 1 = p + (?i - 1)" using i(1) by linarith
    then have "whole ! (p + ?i - 1) = CHR ''=''" using i(3) by (simp only:)
    then have "\<not> utf8_cont (byte_of (whole ! (p + ?i)))" using assms(1) lt eq_sign_ascii unfolding cut_ok_def by metis
    then show ?thesis using lt by (simp add: is_char_boundary_def add.assoc)
  qed (simp add: is_char_boundary_def add.assoc)
qed

lemma needle_loop_match:
  assumes n: "needle_ok n" and cut: "cut_ok (pre @ line)" and bp: "is_char_boundary (pre @ line) (length pre)"
    and found: "str_find n (to_ascii_lowercase line) = Some rel" and i: "rel + length n \<le> length (field line)"
  shows "needle_loop n (to_ascii_lowercase (pre @ line)) (pre @ line) (length pre) =
    map_option ((#) (length pre + (rel + length n), length pre + length (field line)))
      (needle_loop n (to_ascii_lowercase (pre @ line)) (pre @ line)
        (min (max (length pre + length (field line)) (Suc (length pre + (rel + length n)))) (length (pre @ line))))"
proof -
  let ?w = "pre @ line" and ?p = "length pre" and ?i = "rel + length n"
  have f: "str_find n (drop ?p (to_ascii_lowercase ?w)) = Some rel" using found by (simp only: drop_lower)
  have "drop (?p + rel + length n) ?w = drop ?i line" by (simp add: add.assoc)
  then have "find_delim (drop (?p + rel + length n) ?w) = (if after_field line = [] then None else Some (length (field line) - ?i))"
    using find_delim_field [OF i] by (simp only:)
  then have ve: "(case find_delim (drop (?p + rel + length n) ?w) of None \<Rightarrow> length ?w | Some d \<Rightarrow> ?p + rel + length n + d)
      = ?p + length (field line)"
    using i arg_cong [OF field_split [of line], of length] by simp
  have n0: "n \<noteq> []" using n by (simp add: needle_ok_def)
  show ?thesis
    using needle_loop_step [OF f n0 _ bp match_boundary [OF cut f n]] unfolding Let_def ve by (simp add: add.assoc)
qed

lemma needle_loop_fields:
  assumes "needle_ok n" and "cut_ok (pre @ line)" and "pre = [] \<or> byte_of (last pre) < 0x80"
  shows "needle_loop n (to_ascii_lowercase (pre @ line)) (pre @ line) (length pre) = Some (needle_spans n (length pre) line)"
  using assms(2,3)
proof (induction "length line" arbitrary: pre line rule: less_induct)
  case less
  let ?w = "pre @ line" and ?p = "length pre" and ?f = "field line"
  let ?L = "to_ascii_lowercase ?w"
  have n: "n \<noteq> []" using assms(1) by (auto simp: needle_ok_def)
  have bp: "is_char_boundary ?w ?p"
    using less.prems by (cases pre rule: rev_cases; cases line) (auto simp: boundary_after [of _ _ _, simplified])
  show ?case
  proof (cases "after_field line")
    case Nil
    then have f: "?f = line" using field_split [of line] by simp
    show ?thesis
    proof (cases "str_find n (to_ascii_lowercase line)")
      case None
      then have "needle_loop n ?L ?w ?p = Some []" by (intro needle_loop_none) (simp only: drop_lower)
      then show ?thesis using Nil f None by (simp add: needle_spans.simps [of n ?p line] match_end_def)
    next
      case (Some rel)
      then have len: "rel + length n \<le> length line" using str_find_SomeD [OF Some] by simp
      have "needle_loop n ?L ?w (length ?w) = Some []"
        using n by (intro needle_loop_none) (simp add: str_find_Nil)
      moreover have "min (max (?p + length ?f) (Suc (?p + (rel + length n)))) (length ?w) = length ?w" using f by simp
      ultimately have "needle_loop n ?L ?w ?p = Some [(?p + (rel + length n), ?p + length ?f)]"
        using needle_loop_match [OF assms(1) less.prems(1) bp Some] len f by simp
      then show ?thesis using Some Nil f by (simp add: needle_spans.simps [of n ?p line] match_end_def)
    qed
  next
    case (Cons d r)
    let ?pre = "pre @ ?f @ [d]" and ?q = "?p + Suc (length ?f)"
    have d: "is_delim d" "byte_of d < 0x80" using after_field_Cons [OF Cons] is_delim_ascii by auto
    have w: "?pre @ r = ?w" "(pre @ ?f) @ d # r = ?w" using after_field_Cons [OF Cons] by simp_all
    have lp: "length ?pre = ?q" "length (pre @ ?f) = ?p + length ?f" "length ?w = ?q + length r"
      using arg_cong [OF w(1), of length] by simp_all
    have "needle_loop n (to_ascii_lowercase (?pre @ r)) (?pre @ r) (length ?pre) = Some (needle_spans n (length ?pre) r)"
      by (rule less.hyps [OF after_field_shorter [OF Cons]]) (use less.prems(1) d w(1) in \<open>simp_all only: last_snoc append_assoc [symmetric] simp_thms\<close>)
    then have ih: "needle_loop n ?L ?w ?q = Some (needle_spans n ?q r)" unfolding w(1) lp(1) .
    have bq: "is_char_boundary ?w (?p + Suc (length ?f))"
      using boundary_after [of "pre @ ?f" d r] less.prems(1) d(2) unfolding w(2) lp(2) by simp
    have bf: "is_char_boundary ?w (?p + length ?f)" using boundary_at [OF d(2), of "pre @ ?f" r] unfolding w(2) lp(2) .
    have dr: "drop ?q ?L = to_ascii_lowercase r" using drop_lower [of ?pre r] unfolding w(1) lp(1) .
    have df: "drop (?p + length ?f) ?L = to_ascii_lowercase (d # r)" using drop_lower [of "pre @ ?f" "d # r"] unfolding w(2) lp(2) .
    have bm: "is_char_boundary ?w (?q + rel + length n)" if "str_find n (drop ?q ?L) = Some rel" for rel
      using match_boundary [OF less.prems(1) that assms(1)] lp(3) by simp
    show ?thesis
    proof (cases "match_end n ?f")
      case None
      then have "needle_loop n ?L ?w ?p = needle_loop n ?L ?w ?q"
        using find_line [OF assms(1) Cons] bp bq n lp(3) bm by (intro needle_loop_skip) (simp_all only: drop_lower dr option.case le_add1 simp_thms not_False_eq_True)
      then show ?thesis using ih None Cons by (simp add: needle_spans.simps [of n ?p line])
    next
      case (Some i)
      then have i: "str_find n (to_ascii_lowercase line) = Some (i - length n)" "length n \<le> i" "i \<le> length ?f"
        using find_line [OF assms(1) Cons] match_end_SomeD(2) [OF Some assms(1)] by (auto simp: match_end_def)
      let ?e = "min (max (?p + length ?f) (Suc (?p + i))) (length ?w)"
      have "needle_loop n ?L ?w ?e = needle_loop n ?L ?w ?q"
      proof (cases "i = length ?f")
        case True
        then have "?e = ?q" using lp(3) by simp
        then show ?thesis by (simp only:)
      next
        case False
        then have e: "?e = ?p + length ?f" "?p + length ?f + 1 = ?q" using i(3) lp(3) by simp_all
        have "\<not> prefix n (lower_char d # to_ascii_lowercase r)"
          using assms(1) d(1) by (cases n) (auto simp: needle_ok_def)
        then have "str_find n (drop (?p + length ?f) ?L) = map_option ((+) 1) (str_find n (drop ?q ?L))"
          unfolding df dr by (simp add: to_ascii_lowercase_append str_find_Cons plus_1_eq_Suc del: One_nat_def)
        then have "needle_loop n ?L ?w (?p + length ?f) = needle_loop n ?L ?w (?p + length ?f + 1)"
          using n lp(3) bf bq bm unfolding e(2) [symmetric] by (intro needle_loop_skip) simp_all
        then show ?thesis unfolding e .
      qed
      then show ?thesis
        using needle_loop_match [OF assms(1) less.prems(1) bp i(1)] i ih Some Cons
        by (simp add: needle_spans.simps [of n ?p line])
    qed
  qed
qed

section \<open>Merged spans\<close>

lemma all_spans_fields:
  assumes "\<forall>n\<in>set ns. needle_ok n" and "cut_ok line"
  shows "all_spans ns line = Some (concat (map (\<lambda>n. needle_spans n 0 line) ns))"
  using assms(1) needle_loop_fields [of _ "[]" line] assms(2) by (induction ns) simp_all

lemma needle_spans_after: "needle_ok n \<Longrightarrow> (s, e) \<in> set (needle_spans n p line) \<Longrightarrow> p < s \<and> s \<le> e"
proof (induction n p line rule: needle_spans.induct)
  case (1 n p line)
  have "(s, e) \<in> set (case match_end n (field line) of None \<Rightarrow> [] | Some i \<Rightarrow> [(p + i, p + length (field line))]) \<Longrightarrow> p < s \<and> s \<le> e"
    using match_end_SomeD [OF _ "1.prems"(1), of "field line"] by (auto split: option.splits)
  then show ?case using 1 unfolding needle_spans.simps [of n p line] by (cases "after_field line") force+
qed

lemma merge_spans_acc:
  assumes "\<forall>(s, e)\<in>set xs. s \<le> b \<and> e = b"
  shows "merge_spans (m @ [(s0, b)]) (xs @ ys) = merge_spans (m @ [(s0, b)]) ys"
  using assms by (induction xs) auto

lemma mset_concat_append: "mset (concat (map (\<lambda>n. f n @ g n) ns)) = mset (concat (map f ns)) + mset (concat (map g ns))"
  by (induction ns) auto

lemma sort_map_mono: "(\<And>x y. x \<le> y \<Longrightarrow> g x \<le> g y) \<Longrightarrow> sort (map g xs) = map g (sort xs)"
  for g :: "nat \<Rightarrow> nat \<times> nat"
proof (rule properties_for_sort)
  assume g: "\<And>x y. x \<le> y \<Longrightarrow> g x \<le> g y"
  show "sorted (map g (sort xs))" unfolding sorted_map using sorted_sort by (rule sorted_wrt_mono_rel [rotated]) (rule g)
qed simp

lemma sort_hd_Min: "sort xs = y # ys \<Longrightarrow> y = Min (set xs)" for xs :: "nat list"
proof -
  assume s: "sort xs = y # ys"
  have "set xs = set (y # ys)" "sorted (y # ys)" using s set_sort sorted_sort by metis+
  then show ?thesis by (intro Min_eqI [symmetric]) auto
qed

lemma sort_eq_Nil [simp]: "sort xs = [] \<longleftrightarrow> xs = []"
  by (metis length_sort length_0_conv)

lemma merge_fields:
  assumes ns: "\<forall>n\<in>set ns. needle_ok n" and m: "m = [] \<or> snd (last m) \<le> p"
  shows "merge_spans m (sort (concat (map (\<lambda>n. needle_spans n p line) ns))) = m @ field_spans ns p line"
  using ns m
proof (induction ns p line arbitrary: m rule: field_spans.induct)
  case (1 ns p line)
  let ?f = "field line" and ?b = "p + length (field line)"
  let ?xs = "List.map_filter (\<lambda>n. match_end n ?f) ns" and ?g = "\<lambda>i. (p + i, ?b)"
  let ?here = "\<lambda>n. case match_end n ?f of None \<Rightarrow> [] | Some i \<Rightarrow> [?g i]"
  let ?rest = "\<lambda>n. case after_field line of [] \<Rightarrow> [] | d # r \<Rightarrow> needle_spans n (p + Suc (length ?f)) r"
  let ?R = "sort (concat (map ?rest ns))"
  have xs: "0 < i \<and> i \<le> length ?f" if "i \<in> set ?xs" for i
    using that match_end_SomeD "1.prems"(1) by (fastforce simp: List.map_filter_def)
  have "concat (map ?here ns) = map ?g ?xs" by (induction ns) (auto simp: List.map_filter_simps split: option.splits)
  moreover have "(\<lambda>n. needle_spans n p line) = (\<lambda>n. ?here n @ ?rest n)" by (rule ext) (subst needle_spans.simps, rule refl)
  ultimately have "mset (concat (map (\<lambda>n. needle_spans n p line) ns)) = mset (map ?g (sort ?xs) @ ?R)"
    by (simp only: mset_concat_append mset_append mset_sort mset_map)
  moreover have "sorted (map ?g (sort ?xs) @ ?R)"
  proof -
    have "sorted (map ?g (sort ?xs))" by (subst sort_map_mono [symmetric]) simp_all
    moreover have "?g i \<le> y" if "i \<in> set ?xs" "y \<in> set ?R" for i y
    proof -
      from that(2) obtain d r n where "after_field line = d # r" "n \<in> set ns" "y \<in> set (needle_spans n (p + Suc (length ?f)) r)"
        by (cases "after_field line") auto
      then have "p + Suc (length ?f) < fst y" using needle_spans_after [of n "fst y" "snd y"] "1.prems"(1) by simp
      then show ?thesis using xs [OF that(1)] by (cases y) simp
    qed
    ultimately show ?thesis unfolding sorted_append set_map set_sort
      by (intro conjI ballI) (assumption, rule sorted_sort, elim imageE, simp only:)
  qed
  ultimately have sort: "sort (concat (map (\<lambda>n. needle_spans n p line) ns)) = map ?g (sort ?xs) @ ?R"
    by (rule properties_for_sort [OF sym])
  have rest: "merge_spans m' ?R = m' @ (case after_field line of [] \<Rightarrow> [] | d # r \<Rightarrow> field_spans ns (p + Suc (length ?f)) r)"
    if "m' = [] \<or> snd (last m') \<le> p + Suc (length ?f)" for m'
    using "1.IH" "1.prems"(1) that by (cases "after_field line") (simp_all add: map_replicate_const)
  show ?case
  proof (cases "sort ?xs")
    case Nil
    then have "?xs = []" by simp
    moreover have "m = [] \<or> snd (last m) \<le> p + Suc (length ?f)" using "1.prems"(2) by auto
    ultimately show ?thesis using rest [of m] sort
      by (simp add: field_spans.simps [of ns p line] secret_start_def)
  next
    case (Cons y ys)
    have mem: "y \<in> set ?xs" "set ys \<subseteq> set ?xs" using Cons set_sort [of "\<lambda>x. x" ?xs] by auto
    have "secret_start ns ?f = Some y" using sort_hd_Min [OF Cons] mem(1) by (auto simp: secret_start_def split: list.split)
    moreover have "merge_spans m (map ?g (sort ?xs) @ ?R) = merge_spans (m @ [?g y]) (map ?g ys @ ?R)"
      using "1.prems"(2) xs [OF mem(1)] by (auto simp: Cons)
    moreover have "\<dots> = merge_spans (m @ [?g y]) ?R"
      using mem(2) xs by (intro merge_spans_acc) auto
    ultimately show ?thesis using rest [of "m @ [?g y]"] sort
      by (simp add: field_spans.simps [of ns p line])
  qed
qed

section \<open>The scrub redacts each field\<close>

lemma secret_start_SomeD:
  assumes "secret_start ns f = Some i" and "\<forall>n\<in>set ns. needle_ok n"
  shows "0 < i" and "i \<le> length f" and "f ! (i - 1) = CHR ''=''"
proof -
  have "i \<in> set (List.map_filter (\<lambda>n. match_end n f) ns)"
  proof (cases "List.map_filter (\<lambda>n. match_end n f) ns")
    case (Cons x xs)
    then show ?thesis using assms(1) Min_in [of "set (x # xs)"] by (simp add: secret_start_def)
  qed (use assms(1) in \<open>simp add: secret_start_def\<close>)
  then obtain n where "n \<in> set ns" "match_end n f = Some i" by (auto simp: List.map_filter_def)
  then show "0 < i" "i \<le> length f" "f ! (i - 1) = CHR ''=''" using match_end_SomeD assms(2) by auto
qed

lemma rebuild_fields:
  assumes ns: "\<forall>n\<in>set ns. needle_ok n" and "cut_ok (pre @ line)" and "pos \<le> length pre" and "is_char_boundary (pre @ line) pos"
  shows "rebuild (pre @ line) pos (field_spans ns (length pre) line) = Some (drop pos pre @ scrub_fields ns line)"
  using assms(2-)
proof (induction "length line" arbitrary: pre line pos rule: less_induct)
  case less
  let ?w = "pre @ line" and ?p = "length pre" and ?f = "field line"
  have rest: "rebuild ?w pos' (case after_field line of [] \<Rightarrow> [] | d # r \<Rightarrow> field_spans ns (?p + Suc (length ?f)) r)
      = Some (drop pos' (pre @ ?f) @ (case after_field line of [] \<Rightarrow> [] | d # r \<Rightarrow> d # scrub_fields ns r))"
    if pos': "pos' \<le> ?p + length ?f" "is_char_boundary ?w pos'" for pos'
  proof (cases "after_field line")
    case Nil
    then show ?thesis using pos' field_split [of line] by (simp add: str_get_from_def)
  next
    case (Cons d r)
    have w: "(pre @ ?f @ [d]) @ r = ?w" using after_field_Cons [OF Cons] by simp
    have "rebuild ((pre @ ?f @ [d]) @ r) pos' (field_spans ns (length (pre @ ?f @ [d])) r) = Some (drop pos' (pre @ ?f @ [d]) @ scrub_fields ns r)"
      by (rule less.hyps [OF after_field_shorter [OF Cons]]) (use less.prems(1) pos' in \<open>simp_all only: w\<close>, simp)
    then show ?thesis using Cons pos'(1) unfolding w by simp
  qed
  show ?case
  proof (cases "secret_start ns ?f")
    case None
    then show ?thesis using rest [of pos] less.prems
      by (simp add: field_spans.simps [of ns ?p line] scrub_fields.simps [of ns line] redact_field_def)
  next
    case (Some i)
    note i = secret_start_SomeD [OF Some ns]
    have line: "line = ?f @ after_field line" by (rule field_split)
    have lw: "length ?w = ?p + length ?f + length (after_field line)" using arg_cong [OF line, of length] by simp
    have "?p + i - 1 = ?p + (i - 1)" using i(1) by linarith
    then have "?w ! (?p + i - 1) = line ! (i - 1)" by (simp only: nth_append_length_plus)
    also have "\<dots> = ?f ! (i - 1)" using i(1,2) by (subst line) (simp add: nth_append less_imp_diff_less order_less_le_trans [OF diff_less])
    finally have eq: "byte_of (?w ! (?p + i - 1)) < 0x80" using i(3) eq_sign_ascii by (simp only:)
    have bi: "is_char_boundary ?w (?p + i)"
    proof (cases "?p + i = length ?w")
      case False
      then have "?p + i < length ?w" using lw i(2) by simp
      then show ?thesis using less.prems(1) eq unfolding cut_ok_def is_char_boundary_def by blast
    qed (simp only: boundary_ends)
    have bf: "is_char_boundary ?w (?p + length ?f)"
    proof (cases "after_field line")
      case (Cons d r)
      then show ?thesis using boundary_at [of d "pre @ ?f" r] is_delim_ascii [of d] after_field_Cons [OF Cons] by simp
    qed (use lw in \<open>simp add: is_char_boundary_def\<close>)
    have "take (?p + i - pos) (drop pos ?w) = drop pos pre @ take i line" using less.prems(2) by simp
    also have "take i line = take i ?f" using i(2) by (subst line) simp
    finally have "str_slice ?w pos (?p + i) = Some (drop pos pre @ take i ?f)"
      using less.prems(2,3) bi by (simp add: str_slice_def)
    then show ?thesis using rest [OF _ bf] Some
      by (simp add: field_spans.simps [of ns ?p line] scrub_fields.simps [of ns line] redact_field_def)
  qed
qed

lemma scrub_aws_sigv4_fields:
  assumes "cut_ok line"
  shows "scrub_aws_sigv4 line = Some (scrub_fields needles line)"
proof -
  let ?spans = "concat (map (\<lambda>n. needle_spans n 0 line) needles)"
  have ns: "\<forall>n\<in>set needles. needle_ok n" using needles_ok by blast
  have spans: "all_spans needles line = Some ?spans" by (rule all_spans_fields [OF ns assms])
  have "merge_spans [] (sort ?spans) = field_spans needles 0 line" using merge_fields [OF ns, of "[]" 0 line] by simp
  moreover have "rebuild line 0 (field_spans needles 0 line) = Some (scrub_fields needles line)"
    using rebuild_fields [OF ns, of "[]" line 0] assms by simp
  moreover have "rebuild line 0 (merge_spans [] (sort ?spans)) = Some line" if "?spans = []"
    unfolding that by (simp add: str_get_from_def)
  ultimately show ?thesis by (simp add: scrub_aws_sigv4_def spans)
qed

text \<open>The scrub of other lines redacts field by field. On any captured bytes the search over byte offsets with its
  merged spans never panics and yields the reference: in each field between delimiters, whatever follows
  the first secret parameter name is redacted and nothing else is changed. So no line panics the display.\<close>

theorem scrub_matches_reference:
  "scrub_aws_sigv4 (from_utf8_lossy bytes) = Some (scrub_fields needles (from_utf8_lossy bytes))
    \<and> displayed_line captured \<noteq> None"
  using scrub_aws_sigv4_fields [OF cut_ok_lossy] cut_ok_lossy
  by (auto simp: displayed_line_def redact_request_line_def Let_def split: option.splits prod.splits)

section \<open>What a request line reveals\<close>

text \<open>What may be known of a target: the names in its query, and the values of the selectors of a version, a
  part, an upload or a sub-resource. No other value may: not that of a signature, a credential or a token,
  nor that of a prefix, a marker or a file name, which encode keys.\<close>

definition selectors :: "string list" where
  "selectors = [''versionid'', ''partnumber'', ''uploadid'', ''list-type'', ''delete'', ''uploads'', ''session'']"

definition public_pair :: "string \<Rightarrow> string \<times> string option" where
  "public_pair pair =
    (case split_once CHR ''='' pair of
       None \<Rightarrow> (pair, None)
     | Some (key, value) \<Rightarrow> (key, Some (if to_ascii_lowercase key \<in> set selectors then value else [])))"

definition public_target :: "string \<Rightarrow> (string \<times> string option) list option" where
  "public_target t = map_option (\<lambda>(_, query). map public_pair (split_char CHR ''&'' query)) (split_once CHR ''?'' t)"

definition clean_version :: "string \<Rightarrow> bool" where
  "clean_version t = (starts_with ''HTTP/1.'' t \<and> CHR '' '' \<notin> set t \<and> CHR 0x09 \<notin> set t)"

lemma scrub_pair_public: "public_pair a = public_pair b \<Longrightarrow> scrub_pair a = scrub_pair b"
  by (auto simp: public_pair_def scrub_pair_def selectors_def SAFE_QUERY_KEYS_def split: option.splits if_splits)

lemma map_eq_lift:
  assumes "map f xs = map f ys" and "\<And>a b. f a = f b \<Longrightarrow> g a = g b"
  shows "map g xs = map g ys"
proof (rule nth_equalityI)
  show len: "length (map g xs) = length (map g ys)" using map_eq_imp_length_eq [OF assms(1)] by simp
  fix i assume "i < length (map g xs)"
  moreover from this have "f (xs ! i) = f (ys ! i)" using assms(1) len by (metis length_map nth_map)
  ultimately show "map g xs ! i = map g ys ! i" using len assms(2) [of "xs ! i" "ys ! i"] by simp
qed

lemma scrub_query_public:
  "map public_pair (split_char CHR ''&'' a) = map public_pair (split_char CHR ''&'' b) \<Longrightarrow> scrub_query a = scrub_query b"
  unfolding scrub_query_def by (rule arg_cong [OF map_eq_lift [OF _ scrub_pair_public]])

definition shown_query :: "string \<Rightarrow> string" where
  "shown_query target = (case split_once CHR ''?'' target of None \<Rightarrow> [] | Some (_, query) \<Rightarrow> ''?'' @ scrub_query query)"

lemma shown_query_public: "public_target a = public_target b \<Longrightarrow> shown_query a = shown_query b"
  unfolding public_target_def shown_query_def
  by (cases "split_once CHR ''?'' a"; cases "split_once CHR ''?'' b") (auto dest: scrub_query_public)

lemma redact_request:
  assumes "is_http_method verb" and "is_request_target target" and "CHR '' '' \<notin> set target"
  shows "redact_request_line (verb @ '' '' @ target) = Some (verb @ '' /<key>'' @ shown_query target)"
    and "redact_request_line (verb @ '' '' @ target @ '' '' @ tail) =
      Some (verb @ '' /<key>'' @ shown_query target @ (if clean_version tail then '' '' @ tail else []))"
proof -
  have "CHR '' '' \<notin> set verb" using assms(1) by (auto simp: is_http_method_def list_all_iff is_upper_def)
  then have "split_once CHR '' '' (verb @ '' '' @ rest) = Some (verb, rest)" for rest by (simp add: split_once_append)
  moreover have "split_once CHR '' '' target = None" using assms(3) by (simp add: split_once_None_iff)
  moreover have "split_once CHR '' '' (target @ '' '' @ tail) = Some (target, tail)" using assms(3) by (simp add: split_once_append)
  ultimately show "redact_request_line (verb @ '' '' @ target) = Some (verb @ '' /<key>'' @ shown_query target)"
    "redact_request_line (verb @ '' '' @ target @ '' '' @ tail) =
      Some (verb @ '' /<key>'' @ shown_query target @ (if clean_version tail then '' '' @ tail else []))"
    using assms(1,2) by (simp_all add: redact_request_line_def shown_query_def clean_version_def)
qed

text \<open>C36: what the display of a request line depends on. In a line of a method of up to sixteen capital letters,
  one space and a target that starts as a path or as an absolute URL, only the method, the names in the
  query and the values of the seven selectors (versionId, partNumber, uploadId, list-type, delete,
  uploads, session) matter: two such targets that agree on these are displayed alike, whatever the path and
  the other values, those of credentials and prefixes included. What follows the target is shown only if it
  is one token that starts as a version. (A second space before the target escapes all this, see below.)\<close>

theorem display_hides_secrets:
  assumes "is_http_method verb" and "is_request_target target1" and "is_request_target target2"
    and "CHR '' '' \<notin> set target1" and "CHR '' '' \<notin> set target2" and "public_target target1 = public_target target2"
  shows "redact_request_line (verb @ '' '' @ target1) = redact_request_line (verb @ '' '' @ target2)
    \<and> redact_request_line (verb @ '' '' @ target1 @ '' '' @ tail) =
       redact_request_line (verb @ '' '' @ target2 @ (if clean_version tail then '' '' @ tail else []))"
  using redact_request [OF assms(1,2,4)] redact_request [OF assms(1,3,5)] shown_query_public [OF assms(6)] by simp

lemma display_hides_secrets_witness:
  "redact_request_line ''GET /a/key?Signature=s1&versionId=7 HTTP/1.1 X'' = redact_request_line ''GET http://h/b?Signature=&versionId=7''"
proof -
  have "is_http_method ''GET''" "is_request_target ''/a/key?Signature=s1&versionId=7''" "is_request_target ''http://h/b?Signature=&versionId=7''"
    "CHR '' '' \<notin> set ''/a/key?Signature=s1&versionId=7''" "CHR '' '' \<notin> set ''http://h/b?Signature=&versionId=7''"
    "public_target ''/a/key?Signature=s1&versionId=7'' = public_target ''http://h/b?Signature=&versionId=7''"
    by (simp_all add: is_http_method_def is_upper_def is_request_target_def starts_with_def public_target_def public_pair_def
        selectors_def to_ascii_lowercase_def lower_char_def)
  note display_hides_secrets [OF this, of "''HTTP/1.1 X''"]
  moreover have "\<not> clean_version ''HTTP/1.1 X''" by (simp add: clean_version_def)
  ultimately show ?thesis by simp
qed

text \<open>A second space before the target is enough to escape the redaction.\<close>

lemma double_space_shown: "redact_request_line ''GET  /key HTTP/1.1'' = Some ''GET  /key HTTP/1.1''"
  by (simp add: redact_request_line_def is_http_method_def is_upper_def is_request_target_def starts_with_def
      scrub_aws_sigv4_def needles_def needle_loop.simps str_get_from_def str_find_def to_ascii_lowercase_def lower_char_def)

end
