(* ===== verification/Privilege.thy ===== *)
theory Privilege
  imports RustStr "HOL-Library.Monad_Syntax"
begin

unbundle bit_operations_syntax

text \<open>
  Privileges (\<open>elevate.rs\<close>, and \<open>dac_readable_by\<close>, \<open>real_user_can_traverse_to\<close> of \<open>main.rs\<close>): when the agent
  asks \<open>sudo\<close> for help and what crosses that boundary, which binaries it trusts, and what a caller may read.
  An \<open>OsString\<close> is a string of bytes. An absolute canonical path is the list of its components.
  Mode bits are in decimal: 18 is 022 (group and other may write), 511 is 0777, and so on.
\<close>

section \<open>What an invocation needs\<close>

definition CAP_DAC_READ_SEARCH :: nat where "CAP_DAC_READ_SEARCH = 2"
definition CAP_SYS_ADMIN :: nat where "CAP_SYS_ADMIN = 21"
definition CAP_PERFMON :: nat where "CAP_PERFMON = 38"
definition CAP_BPF :: nat where "CAP_BPF = 39"

record needs =
  nd_base :: bool
  nd_uprobes :: bool
  nd_wants_l7 :: bool
  nd_root :: bool

definition cap_bit :: "nat \<Rightarrow> u64" where "cap_bit n = push_bit n 1"

definition wanted_caps :: "needs \<Rightarrow> u64" where
  "wanted_caps needs =
    (if nd_base needs then cap_bit CAP_BPF OR cap_bit CAP_PERFMON OR cap_bit CAP_DAC_READ_SEARCH else 0)
    OR (if nd_uprobes needs then cap_bit CAP_SYS_ADMIN else 0)"

definition lacking :: "u64 \<Rightarrow> u32 \<Rightarrow> needs \<Rightarrow> bool" where
  "lacking cap_eff euid needs =
    (if nd_root needs then euid \<noteq> 0
     else if euid = 0 then False
     else cap_eff AND wanted_caps needs \<noteq> wanted_caps needs)"

definition borrowed_privilege :: "u32 \<Rightarrow> u64 \<Rightarrow> bool" where
  "borrowed_privilege euid cap_eff = (euid \<noteq> 0 \<and> cap_eff \<noteq> 0)"

section \<open>The elevation decision\<close>

datatype decision = Proceed | NoteAndProceed | Elevate

definition decide :: "bool \<Rightarrow> bool \<Rightarrow> bool \<Rightarrow> bool \<Rightarrow> decision" where
  "decide lack already_elevated no_elevate is_tty =
    (if \<not> lack \<or> already_elevated \<or> no_elevate then Proceed
     else if is_tty then Elevate else NoteAndProceed)"

section \<open>What crosses the boundary\<close>

definition ELEVATED_MARKER :: string where "ELEVATED_MARKER = ''S3TAP_ELEVATED''"

definition SECRET_VARS :: "string list" where
  "SECRET_VARS = [''AWS_SECRET_ACCESS_KEY'', ''AWS_ACCESS_KEY_ID'', ''AWS_SESSION_TOKEN'']"

definition FORWARD_VARS :: "string list" where
  "FORWARD_VARS = [''HOME'', ''AWS_PROFILE'', ''AWS_DEFAULT_PROFILE'', ''AWS_REGION'', ''AWS_DEFAULT_REGION'',
     ''CURL_CA_BUNDLE'', ''SSL_CERT_FILE'', ''SSL_CERT_DIR'']"

definition elevation_env :: "(string \<times> string) list \<Rightarrow> (string \<times> string) list" where
  "elevation_env vars = sort (filter (\<lambda>(k, _). k \<in> set FORWARD_VARS) vars)"

definition secrets_in_env :: "(string \<times> string) list \<Rightarrow> bool" where
  "secrets_in_env vars = list_ex (\<lambda>(k, _). k \<in> set SECRET_VARS) vars"

definition kv :: "string \<Rightarrow> string \<Rightarrow> string" where
  "kv k v = k @ ''='' @ v"

definition sudo_argv :: "string \<Rightarrow> string list \<Rightarrow> (string \<times> string) list \<Rightarrow> string list" where
  "sudo_argv exe args env =
    [''sudo'', ''env'', kv ELEVATED_MARKER ''1''] @ map (\<lambda>(k, v). kv k v) env
    @ (if CHR ''='' \<in> set exe then [''--''] else []) @ [exe] @ args"

text \<open>What \<open>maybe_elevate\<close> does: nothing, or it becomes \<open>sudo\<close> with this argument vector. The mask of an
  unreadable status is 0.\<close>

definition maybe_elevate ::
    "u64 option \<Rightarrow> u32 \<Rightarrow> needs \<Rightarrow> bool \<Rightarrow> bool \<Rightarrow> string \<Rightarrow> string list \<Rightarrow> (string \<times> string) list \<Rightarrow> string list option" where
  "maybe_elevate cap_eff euid needs no_elevate is_tty exe args env =
    (let cap = (case cap_eff of None \<Rightarrow> 0 | Some c \<Rightarrow> c);
         already = list_ex (\<lambda>(k, _). k = ELEVATED_MARKER) env
     in case decide (lacking cap euid needs) already no_elevate is_tty of
          Elevate \<Rightarrow> Some (sudo_argv exe args (elevation_env env))
        | _ \<Rightarrow> None)"

section \<open>Trusted binaries\<close>

type_synonym path = "string list"

definition display_path :: "path \<Rightarrow> string" where
  "display_path p = (if p = [] then ''/'' else concat (map (\<lambda>c. ''/'' @ c) p))"

type_synonym probe = "path \<Rightarrow> (u32 \<times> u32) option"

fun oct_string :: "nat \<Rightarrow> string" where
  "oct_string n = (if n < 8 then [digit_char n] else oct_string (n div 8) @ [digit_char (n mod 8)])"

declare oct_string.simps [simp del]

definition component_unsafe :: "string \<Rightarrow> (u32 \<times> u32) option \<Rightarrow> string option" where
  "component_unsafe what p =
    (case p of
       None \<Rightarrow> Some (''cannot stat the '' @ what)
     | Some (uid, mode) \<Rightarrow>
         if uid \<noteq> 0 then Some (''the '' @ what @ '' is owned by uid '' @ dec_string (unat uid) @ '', not root'')
         else if mode AND 18 \<noteq> 0
         then Some (''the '' @ what @ '' is group- or world-writable (mode '' @ oct_string (unat (mode AND 511)) @ '')'')
         else None)"

text \<open>The proper ancestors of a path, nearest first.\<close>

fun ancestors :: "path \<Rightarrow> path list" where
  "ancestors p = (if p = [] then [] else butlast p # ancestors (butlast p))"

declare ancestors.simps [simp del]

fun first_unsafe :: "probe \<Rightarrow> path list \<Rightarrow> string option" where
  "first_unsafe probe [] = None"
| "first_unsafe probe (d # ds) =
    (case component_unsafe (if d = [] then ''root directory'' else ''directory '' @ display_path d) (probe d) of
       Some reason \<Rightarrow> Some reason
     | None \<Rightarrow> first_unsafe probe ds)"

definition insecure_setcap_walk :: "path \<Rightarrow> probe \<Rightarrow> string option" where
  "insecure_setcap_walk exe probe =
    (case component_unsafe ''binary'' (probe exe) of
       Some reason \<Rightarrow> Some reason
     | None \<Rightarrow> first_unsafe probe (ancestors exe))"

definition HELPER_DIRS :: "path list" where
  "HELPER_DIRS = [[''usr'', ''bin''], [''bin''], [''usr'', ''sbin''], [''sbin'']]"

text \<open>Loop state: the reasons so far.\<close>

fun pick_loop :: "string \<Rightarrow> path list \<Rightarrow> (path \<Rightarrow> path option) \<Rightarrow> probe \<Rightarrow> string list \<Rightarrow> string list + path" where
  "pick_loop name [] canon probe refused = Inl refused"
| "pick_loop name (dir # dirs) canon probe refused =
    (case canon (dir @ [name]) of
       None \<Rightarrow> pick_loop name dirs canon probe refused
     | Some real \<Rightarrow>
         (case insecure_setcap_walk real probe of
            None \<Rightarrow> Inr real
          | Some reason \<Rightarrow>
              (let line = display_path real @ '': '' @ reason in
               pick_loop name dirs canon probe (if line \<in> set refused then refused else refused @ [line]))))"

definition pick_helper :: "string \<Rightarrow> path list \<Rightarrow> (path \<Rightarrow> path option) \<Rightarrow> probe \<Rightarrow> string + path" where
  "pick_helper name dirs canon probe =
    (case pick_loop name dirs canon probe [] of
       Inr real \<Rightarrow> Inr real
     | Inl refused \<Rightarrow>
         Inl (''cannot run `'' @ name @ ''`: no trusted copy in '' @ join '', '' (map display_path dirs)
           @ ''. s3tap resolves helper programs by absolute path and never through PATH, because this binary can carry file ''
           @ ''capabilities that a PATH lookup would hand to any local user (''
           @ (if refused = [] then ''nothing of that name is installed there'' else ''refused '' @ join '', '' refused)
           @ '')''))"

text \<open>The gate of \<open>s3tap setup\<close>: the path that is granted capabilities, if any.\<close>

definition insecure_setcap_target :: "path \<Rightarrow> (path \<Rightarrow> path option) \<Rightarrow> probe \<Rightarrow> string option" where
  "insecure_setcap_target exe canon probe = insecure_setcap_walk (case canon exe of Some real \<Rightarrow> real | None \<Rightarrow> exe) probe"

definition cap_string :: "bool \<Rightarrow> string" where
  "cap_string uprobes =
    (if uprobes then ''cap_bpf,cap_perfmon,cap_dac_read_search,cap_sys_admin+ep''
     else ''cap_bpf,cap_perfmon,cap_dac_read_search+ep'')"

section \<open>What a caller may read\<close>

definition dac_readable_by :: "u32 \<Rightarrow> u32 \<Rightarrow> u32 \<Rightarrow> u32 \<Rightarrow> u32 list \<Rightarrow> bool" where
  "dac_readable_by mode st_uid st_gid uid groups =
    (if st_uid = uid then mode AND 256 \<noteq> 0
     else if st_gid \<in> set groups then mode AND 32 \<noteq> 0
     else mode AND 4 \<noteq> 0)"

definition searchable_by :: "u32 \<Rightarrow> u32 \<Rightarrow> u32 \<Rightarrow> u32 \<Rightarrow> u32 list \<Rightarrow> bool" where
  "searchable_by mode st_uid st_gid uid groups =
    (if st_uid = uid then mode AND 64 \<noteq> 0
     else if st_gid \<in> set groups then mode AND 8 \<noteq> 0
     else mode AND 1 \<noteq> 0)"

section \<open>Elevation\<close>

lemma and_eq_iff_bits: "cap AND want = want \<longleftrightarrow> (\<forall>n. bit want n \<longrightarrow> bit cap n)" for cap want :: u64
  by (auto simp: bit_eq_iff bit_and_iff) (use bit_imp_le_length [of want] in fastforce)

lemma bit_cap_bit: "bit (cap_bit k) n \<longleftrightarrow> n = k \<and> k < 64"
  by (auto simp only: cap_bit_def bit_push_bit_iff bit_1_iff possible_bit_word) (auto dest: bit_imp_le_length)

text \<open>The capabilities an invocation needs, as bit numbers.\<close>

definition needed_caps :: "needs \<Rightarrow> nat list" where
  "needed_caps needs =
    (if nd_base needs then [CAP_BPF, CAP_PERFMON, CAP_DAC_READ_SEARCH] else [])
    @ (if nd_uprobes needs then [CAP_SYS_ADMIN] else [])"

lemma bit_wanted_caps: "bit (wanted_caps needs) n \<longleftrightarrow> n \<in> set (needed_caps needs)"
  by (auto simp: wanted_caps_def needed_caps_def bit_or_iff bit_cap_bit CAP_BPF_def CAP_PERFMON_def CAP_DAC_READ_SEARCH_def CAP_SYS_ADMIN_def)

lemma lacking_iff:
  "lacking cap euid needs \<longleftrightarrow> euid \<noteq> 0 \<and> (nd_root needs \<or> (\<exists>n\<in>set (needed_caps needs). \<not> bit cap n))"
  by (auto simp: lacking_def and_eq_iff_bits bit_wanted_caps)

text \<open>Elevation happens exactly when it should, and once. The agent becomes \<open>sudo\<close> exactly when it is not root
  and lacks root or a capability the command needs, it was not elevated before, nobody opted out, and there is a terminal to ask on.
  Its argument vector marks the child, and a marked child never elevates again.\<close>

theorem elevates_once:
  "(maybe_elevate cap_eff euid needs no_elevate is_tty exe args env \<noteq> None \<longleftrightarrow>
      euid \<noteq> 0 \<and> (nd_root needs \<or> (\<exists>n\<in>set (needed_caps needs). \<not> (case cap_eff of Some cap \<Rightarrow> bit cap n | None \<Rightarrow> False)))
      \<and> ELEVATED_MARKER \<notin> fst ` set env \<and> \<not> no_elevate \<and> is_tty)
    \<and> (case maybe_elevate cap_eff euid needs no_elevate is_tty exe args env of
        Some argv \<Rightarrow> take 3 argv = [''sudo'', ''env'', ''S3TAP_ELEVATED=1'']
      | None \<Rightarrow> True)
    \<and> maybe_elevate cap_eff euid needs no_elevate is_tty exe args ((ELEVATED_MARKER, ''1'') # env) = None"
proof -
  have ex: "list_ex (\<lambda>(k, _). k = ELEVATED_MARKER) env \<longleftrightarrow> ELEVATED_MARKER \<in> fst ` set env"
    by (force simp: list_ex_iff)
  let ?cap = "case cap_eff of None \<Rightarrow> 0 | Some c \<Rightarrow> c"
  have bits: "\<not> bit ?cap n \<longleftrightarrow> \<not> (case cap_eff of Some cap \<Rightarrow> bit cap n | None \<Rightarrow> False)" for n
    by (cases cap_eff) simp_all
  have run: "maybe_elevate cap_eff euid needs no_elevate is_tty exe args env =
      (if lacking ?cap euid needs \<and> ELEVATED_MARKER \<notin> fst ` set env \<and> \<not> no_elevate \<and> is_tty
       then Some (sudo_argv exe args (elevation_env env)) else None)"
    by (simp add: maybe_elevate_def Let_def ex decide_def)
  have argv: "take 3 (sudo_argv exe args vars) = [''sudo'', ''env'', ''S3TAP_ELEVATED=1'']" for vars
    by (simp add: sudo_argv_def kv_def ELEVATED_MARKER_def)
  have "maybe_elevate cap_eff euid needs no_elevate is_tty exe args ((ELEVATED_MARKER, ''1'') # env) = None"
    by (simp add: maybe_elevate_def decide_def)
  then show ?thesis unfolding run lacking_iff bits argv by (simp add: argv)
qed

text \<open>C39: credentials in the environment do not cross the boundary. What the agent runs is the same with and
  without the credential variables, and every word of it is fixed, the agent's own path, one of its own arguments,
  or the assignment of a variable on the allowlist.\<close>

theorem secrets_stay_behind:
  "maybe_elevate cap_eff euid needs no_elevate is_tty exe args env =
     maybe_elevate cap_eff euid needs no_elevate is_tty exe args (filter (\<lambda>(k, _). k \<notin> set SECRET_VARS) env)
   \<and> (case maybe_elevate cap_eff euid needs no_elevate is_tty exe args env of
       Some argv \<Rightarrow> set argv \<subseteq> {''sudo'', ''env'', ''S3TAP_ELEVATED=1'', ''--'', exe} \<union> set args
         \<union> {kv k v |k v. (k, v) \<in> set env \<and> k \<in> set FORWARD_VARS}
     | None \<Rightarrow> True)"
proof -
  have dis: "k \<in> set FORWARD_VARS \<Longrightarrow> k \<notin> set SECRET_VARS" for k
    by (auto simp: FORWARD_VARS_def SECRET_VARS_def)
  have env: "elevation_env (filter (\<lambda>(k, _). k \<notin> set SECRET_VARS) env) = elevation_env env"
    unfolding elevation_env_def filter_filter by (rule arg_cong [where f = sort]) (rule filter_cong, auto dest: dis)
  have marker: "list_ex (\<lambda>(k, _). k = ELEVATED_MARKER) (filter (\<lambda>(k, _). k \<notin> set SECRET_VARS) env) = list_ex (\<lambda>(k, _). k = ELEVATED_MARKER) env"
    by (auto simp: list_ex_iff ELEVATED_MARKER_def SECRET_VARS_def)
  have argv: "set (sudo_argv exe args (elevation_env env)) \<subseteq> {''sudo'', ''env'', ''S3TAP_ELEVATED=1'', ''--'', exe} \<union> set args
      \<union> {kv k v |k v. (k, v) \<in> set env \<and> k \<in> set FORWARD_VARS}"
    by (auto simp: sudo_argv_def elevation_env_def kv_def ELEVATED_MARKER_def)
  show ?thesis using argv unfolding maybe_elevate_def env marker Let_def by (simp split: decision.split)
qed

section \<open>Trust in a binary\<close>

definition safe_component :: "(u32 \<times> u32) option \<Rightarrow> bool" where
  "safe_component p = (case p of Some (uid, mode) \<Rightarrow> uid = 0 \<and> \<not> bit mode 4 \<and> \<not> bit mode 1 | None \<Rightarrow> False)"

text \<open>The binary and every directory above it belong to root and only root may write them.\<close>

definition trusted :: "probe \<Rightarrow> path \<Rightarrow> bool" where
  "trusted probe p \<longleftrightarrow> list_all (\<lambda>q. safe_component (probe q)) (p # ancestors p)"

lemma mode_writable: "mode AND 18 = 0 \<longleftrightarrow> \<not> bit mode 4 \<and> \<not> bit mode 1" for mode :: u32
proof -
  have eq: "(18 :: u32) = push_bit 1 1 OR push_bit 4 1" by simp
  have b: "bit (18 :: u32) n \<longleftrightarrow> n = 1 \<or> n = 4" for n
    by (simp only: eq bit_or_iff bit_push_bit_iff bit_1_iff possible_bit_word) auto
  have "mode AND 18 = 0 \<longleftrightarrow> (\<forall>n. \<not> (bit mode n \<and> bit (18 :: u32) n))"
    unfolding bit_and_iff [symmetric] by (metis bit_0_eq bit_eqI bot_apply bot_bool_def)
  then show ?thesis unfolding b by blast
qed

lemma component_unsafe_None: "component_unsafe what p = None \<longleftrightarrow> safe_component p"
  by (auto simp: component_unsafe_def safe_component_def mode_writable split: option.splits prod.splits)

lemma first_unsafe_None: "first_unsafe probe ds = None \<longleftrightarrow> list_all (\<lambda>d. safe_component (probe d)) ds"
proof (induction ds)
  case (Cons d ds)
  let ?c = "component_unsafe (if d = [] then ''root directory'' else ''directory '' @ display_path d) (probe d)"
  have "?c = None \<longleftrightarrow> safe_component (probe d)" by (rule component_unsafe_None)
  then show ?case using Cons by (cases ?c) simp_all
qed simp

lemma set_ancestors: "set (ancestors p) = {q. strict_prefix q p}"
proof (induction p rule: rev_induct)
  case Nil
  then show ?case by (simp add: ancestors.simps)
next
  case (snoc c p)
  have "strict_prefix q (p @ [c]) \<longleftrightarrow> q = p \<or> strict_prefix q p" for q
    by (auto simp: strict_prefix_def)
  then show ?case using snoc by (subst ancestors.simps) auto
qed

lemma walk_trusted: "insecure_setcap_walk p probe = None \<longleftrightarrow> trusted probe p"
proof -
  have "component_unsafe ''binary'' (probe p) = None \<longleftrightarrow> safe_component (probe p)" by (rule component_unsafe_None)
  then show ?thesis
    by (cases "component_unsafe ''binary'' (probe p)") (simp_all add: insecure_setcap_walk_def trusted_def first_unsafe_None)
qed

lemma trusted_prefixes: "trusted probe p \<longleftrightarrow> (\<forall>q. prefix q p \<longrightarrow> safe_component (probe q))"
  by (auto simp: trusted_def list_all_iff set_ancestors strict_prefix_def)

lemma pick_loop_Inr:
  "pick_loop name dirs canon probe refused = Inr real \<longleftrightarrow>
    find (trusted probe) (List.map_filter (\<lambda>dir. canon (dir @ [name])) dirs) = Some real"
proof (induction dirs arbitrary: refused)
  case (Cons dir dirs)
  show ?case
  proof (cases "canon (dir @ [name])")
    case (Some r)
    then show ?thesis using Cons walk_trusted [of r probe]
      by (cases "insecure_setcap_walk r probe") (simp_all add: List.map_filter_simps Let_def)
  qed (simp add: Cons List.map_filter_simps)
qed (simp add: List.map_filter_simps)

text \<open>C38: a helper program is run only if nobody but root could have chosen it. The search returns the first candidate, in
  directory order, whose resolved file and every directory above it up to the root are owned by root and not
  writable by group or others; when there is none it fails, and \<open>setup\<close> refuses any other binary.\<close>

theorem helpers_trusted:
  "(pick_helper name dirs canon probe = Inr real \<longleftrightarrow>
      find (trusted probe) (List.map_filter (\<lambda>dir. canon (dir @ [name])) dirs) = Some real)
    \<and> (insecure_setcap_target exe resolve probe = None \<longleftrightarrow> trusted probe (case resolve exe of Some r \<Rightarrow> r | None \<Rightarrow> exe))"
  using pick_loop_Inr [of name dirs canon probe "[]" real]
  by (auto simp: pick_helper_def insecure_setcap_target_def walk_trusted split: sum.splits)

end
