(* ===== verification/Creds.thy ===== *)
theory Creds
  imports Privilege ScopeFilter IbmTrace
begin

text \<open>
  Credentials of \<open>--auth\<close>: where they come from (\<open>main.rs\<close>: \<open>resolve_aws_creds\<close>, \<open>ini_get\<close>,
  \<open>read_credentials_file\<close>) and how they reach \<open>curl\<close> (\<open>selftest.rs\<close>: \<open>curl_auth_config\<close>). The environment, the
  file system as the kernel answers and the version banner of \<open>curl\<close> are the record \<open>host\<close>.
\<close>

section \<open>INI files\<close>

fun ini_loop :: "string \<Rightarrow> string \<Rightarrow> bool \<Rightarrow> string list \<Rightarrow> string option" where
  "ini_loop sect key in_section [] = None"
| "ini_loop sect key in_section (raw # lines) =
    (let line = trim raw in
     if line = [] \<or> hd line \<in> {CHR ''#'', CHR '';''} then ini_loop sect key in_section lines
     else case Option.bind (strip_prefix ''['' line) (strip_suffix '']'') of
       Some name \<Rightarrow> ini_loop sect key (trim name = sect) lines
     | None \<Rightarrow>
         (case (if in_section then split_once CHR ''='' line else None) of
            Some (k, v) \<Rightarrow> if trim k = key then Some (trim v) else ini_loop sect key in_section lines
          | None \<Rightarrow> ini_loop sect key in_section lines))"

definition ini_get :: "string \<Rightarrow> string \<Rightarrow> string \<Rightarrow> string option" where
  "ini_get body sect key = ini_loop sect key False (str_lines body)"

definition config_section :: "string \<Rightarrow> string" where
  "config_section profile = (if profile = ''default'' then ''default'' else ''profile '' @ profile)"

section \<open>The host\<close>

datatype open_error = Eloop | Other_error

record opened =
  of_path :: "path option"
  of_meta :: "(u32 \<times> u32 \<times> u32) option"
  of_body :: "string option"

record host =
  h_env :: "string \<Rightarrow> string option"
  h_borrowed :: bool
  h_access :: "string \<Rightarrow> bool"
  h_open :: "string \<Rightarrow> open_error + opened"
  h_open_contained :: "string \<Rightarrow> open_error + opened"
  h_stat :: "path \<Rightarrow> (u32 \<times> u32 \<times> u32) option"
  h_uid :: u32
  h_groups :: "u32 list"
  h_curl_banner :: "string option"

text \<open>\<open>real_user_can_traverse_to\<close>: every directory above the file the kernel opened.\<close>

definition real_user_can_traverse_to :: "host \<Rightarrow> opened \<Rightarrow> bool" where
  "real_user_can_traverse_to h f =
    (case of_path f of
       None \<Rightarrow> False
     | Some real \<Rightarrow>
         list_all (\<lambda>d. case h_stat h d of
            None \<Rightarrow> False
          | Some (mode, st_uid, st_gid) \<Rightarrow> searchable_by mode st_uid st_gid (h_uid h) (h_groups h)) (ancestors real))"

datatype cred_error = BorrowedRefusal | NoSymlinks | Unreadable | StatFailed | ReadFailed
  | MissingKeys | OldCurl | BadRegion | UnsafeCred

definition open_creds :: "host \<Rightarrow> string \<Rightarrow> cred_error + opened" where
  "open_creds h path =
    (if \<not> h_borrowed h then (case h_open h path of Inl _ \<Rightarrow> Inl Unreadable | Inr f \<Rightarrow> Inr f)
     else case h_open_contained h path of
       Inl Eloop \<Rightarrow> Inl NoSymlinks
     | Inl Other_error \<Rightarrow> Inl Unreadable
     | Inr f \<Rightarrow> Inr f)"

definition read_body :: "opened \<Rightarrow> cred_error + string" where
  "read_body f = (case of_body f of None \<Rightarrow> Inl ReadFailed | Some body \<Rightarrow> Inr body)"

definition read_credentials_file :: "host \<Rightarrow> string \<Rightarrow> cred_error + string" where
  "read_credentials_file h path =
    (if h_borrowed h \<and> \<not> h_access h path then Inl BorrowedRefusal
     else case open_creds h path of
       Inl e \<Rightarrow> Inl e
     | Inr f \<Rightarrow>
         if h_borrowed h then
           (case of_meta f of
              None \<Rightarrow> Inl StatFailed
            | Some (mode, st_uid, st_gid) \<Rightarrow>
                if \<not> dac_readable_by mode st_uid st_gid (h_uid h) (h_groups h) then Inl BorrowedRefusal
                else if \<not> real_user_can_traverse_to h f then Inl BorrowedRefusal
                else read_body f)
         else read_body f)"

section \<open>Resolution\<close>

record aws_creds =
  ac_access_key :: string
  ac_secret_key :: string
  ac_session_token :: "string option"
  ac_region :: string

definition path_join :: "string \<Rightarrow> string \<Rightarrow> string" where
  "path_join a b = (if a = [] then b else if last a = CHR ''/'' then a @ b else a @ ''/'' @ b)"

definition aws_dir :: "host \<Rightarrow> string" where
  "aws_dir h = path_join (case h_env h ''HOME'' of Some home \<Rightarrow> home | None \<Rightarrow> ''.'') ''.aws''"

definition parse_u32 :: "string \<Rightarrow> nat option" where
  "parse_u32 s = parse_uint (2 ^ 32 - 1) s"

definition parse_curl_version :: "string \<Rightarrow> (nat \<times> nat) option" where
  "parse_curl_version banner =
    (case split_whitespace banner of
       _ # ver # _ \<Rightarrow>
         (case split_char CHR ''.'' ver of
            a # b # _ \<Rightarrow> do { maj \<leftarrow> parse_u32 a; minor \<leftarrow> parse_u32 b; Some (maj, minor) }
          | _ \<Rightarrow> None)
     | _ \<Rightarrow> None)"

definition sts_gate_blocks :: "(nat \<times> nat) option \<Rightarrow> bool" where
  "sts_gate_blocks curl = (case curl of None \<Rightarrow> False | Some (maj, minor) \<Rightarrow> maj < 7 \<or> maj = 7 \<and> minor < 86)"

definition region_is_valid :: "string \<Rightarrow> bool" where
  "region_is_valid region = (region \<noteq> [] \<and> list_all (\<lambda>c. is_alphanumeric c \<or> c = CHR ''-'') region)"

definition reject_unsafe_cred :: "string \<Rightarrow> bool" where
  "reject_unsafe_cred value = list_ex (\<lambda>c. c \<in> {CHR 0x22, CHR 0x5C, CHR 0x0D, CHR 0x0A}) value"

definition reject_unsafe_creds :: "aws_creds \<Rightarrow> bool" where
  "reject_unsafe_creds c =
    (reject_unsafe_cred (ac_access_key c) \<or> reject_unsafe_cred (ac_secret_key c) \<or> reject_unsafe_cred (ac_region c)
     \<or> (case ac_session_token c of Some tok \<Rightarrow> reject_unsafe_cred tok | None \<Rightarrow> False))"

definition nonempty_env :: "host \<Rightarrow> string \<Rightarrow> string option" where
  "nonempty_env h v = opt_filter (\<lambda>s. s \<noteq> []) (h_env h v)"

definition aws_profile :: "host \<Rightarrow> string" where
  "aws_profile h = (case h_env h ''AWS_PROFILE'' of Some p \<Rightarrow> p | None \<Rightarrow> ''default'')"

definition resolve_keys :: "host \<Rightarrow> cred_error + (string \<times> string \<times> string option)" where
  "resolve_keys h =
    (case (nonempty_env h ''AWS_ACCESS_KEY_ID'', nonempty_env h ''AWS_SECRET_ACCESS_KEY'') of
       (Some ak, Some sk) \<Rightarrow> Inr (ak, sk, nonempty_env h ''AWS_SESSION_TOKEN'')
     | _ \<Rightarrow>
         (case read_credentials_file h (path_join (aws_dir h) ''credentials'') of
            Inl e \<Rightarrow> Inl e
          | Inr body \<Rightarrow>
              (case (ini_get body (aws_profile h) ''aws_access_key_id'', ini_get body (aws_profile h) ''aws_secret_access_key'') of
                 (Some ak, Some sk) \<Rightarrow> Inr (ak, sk, ini_get body (aws_profile h) ''aws_session_token'')
               | _ \<Rightarrow> Inl MissingKeys)))"

definition config_region :: "host \<Rightarrow> string option" where
  "config_region h =
    (let path = path_join (aws_dir h) ''config'' in
     if h_borrowed h \<and> \<not> h_access h path then None
     else case (if h_borrowed h then h_open_contained h path else h_open h path) of
       Inl _ \<Rightarrow> None
     | Inr f \<Rightarrow>
         if h_borrowed h \<and>
            (case of_meta f of
               None \<Rightarrow> True
             | Some (mode, st_uid, st_gid) \<Rightarrow> \<not> dac_readable_by mode st_uid st_gid (h_uid h) (h_groups h)
                 \<or> \<not> real_user_can_traverse_to h f)
         then None
         else do {
           cfg \<leftarrow> of_body f;
           opt_filter (\<lambda>s. s \<noteq> []) (ini_get cfg (config_section (aws_profile h)) ''region'')
         })"

definition resolve_region :: "host \<Rightarrow> string option \<Rightarrow> string" where
  "resolve_region h flag =
    (case opt_or (opt_filter (\<lambda>s. s \<noteq> []) flag)
            (opt_or (nonempty_env h ''AWS_REGION'') (opt_or (nonempty_env h ''AWS_DEFAULT_REGION'') (config_region h))) of
       Some r \<Rightarrow> r | None \<Rightarrow> ''us-east-1'')"

definition resolve_aws_creds :: "host \<Rightarrow> string option \<Rightarrow> cred_error + aws_creds" where
  "resolve_aws_creds h flag =
    (case resolve_keys h of
       Inl e \<Rightarrow> Inl e
     | Inr (ak, sk, tok) \<Rightarrow>
         if tok \<noteq> None \<and> sts_gate_blocks (Option.bind (h_curl_banner h) parse_curl_version) then Inl OldCurl
         else
           (let region = resolve_region h flag;
                creds = \<lparr>ac_access_key = ak, ac_secret_key = sk, ac_session_token = tok, ac_region = region\<rparr>
            in if \<not> region_is_valid region then Inl BadRegion
               else if reject_unsafe_creds creds then Inl UnsafeCred
               else Inr creds))"

section \<open>The signing configuration\<close>

definition quoted :: "string \<Rightarrow> string" where "quoted v = [CHR 0x22] @ v @ [CHR 0x22]"

definition curl_auth_config :: "aws_creds \<Rightarrow> string option" where
  "curl_auth_config c =
    (if reject_unsafe_creds c then None
     else Some (''user = '' @ quoted (ac_access_key c @ '':'' @ ac_secret_key c) @ [CHR 0x0A]
       @ ''aws-sigv4 = '' @ quoted (''aws:amz:'' @ ac_region c @ '':s3'') @ [CHR 0x0A]
       @ (case ac_session_token c of
            None \<Rightarrow> []
          | Some tok \<Rightarrow> ''header = '' @ quoted (''x-amz-security-token: '' @ tok) @ [CHR 0x0A])))"

section \<open>INI files read back\<close>

text \<open>Text that trimming leaves alone: its first byte starts no white space and its last byte ends none.\<close>

definition firm :: "string \<Rightarrow> bool" where
  "firm s \<longleftrightarrow> s \<noteq> [] \<and> list_all (\<lambda>w. hd w \<noteq> hd s \<and> last w \<noteq> last s) ws_seqs"

lemma ws_nonempty_seq: "w \<in> set ws_seqs \<Longrightarrow> w \<noteq> []"
  by (auto simp: ws_seqs_def)

lemma firm_no_prefix: "firm s \<Longrightarrow> find (\<lambda>w. prefix w (s @ t)) ws_seqs = None"
  unfolding find_None_iff firm_def list_all_iff using ws_nonempty_seq
  by (auto simp: prefix_def hd_append dest!: bspec) (metis hd_append)

lemma firm_no_suffix: "firm s \<Longrightarrow> find (\<lambda>w. prefix w (rev (t @ s))) (map rev ws_seqs) = None"
proof -
  assume f: "firm s"
  have "\<not> prefix (rev w) (rev (t @ s))" if w: "w \<in> set ws_seqs" for w
  proof
    assume "prefix (rev w) (rev (t @ s))"
    then obtain u where "rev (t @ s) = rev w @ u" by (auto simp: prefix_def)
    then have "hd (rev (t @ s)) = hd (rev w)" using ws_nonempty_seq [OF w] by simp
    then have "last s = last w" using f ws_nonempty_seq [OF w] by (simp add: firm_def hd_rev)
    then show False using f w by (auto simp: firm_def list_all_iff)
  qed
  then show ?thesis by (auto simp: find_None_iff)
qed

lemma strip_none: "find (\<lambda>p. prefix p s) ps = None \<Longrightarrow> strip_seqs n ps s = s"
  by (cases n) auto

lemma trim_firm: "firm s \<Longrightarrow> trim s = s"
  using firm_no_prefix [of s "[]"] firm_no_suffix [of s "[]"]
  by (simp add: trim_def trim_start_def trim_end_def strip_none)

lemma strip_one_space: "find (\<lambda>p. prefix p s) ps = None \<Longrightarrow> find (\<lambda>p. prefix p (CHR '' '' # s)) ps = Some [CHR 0x20]
    \<Longrightarrow> strip_seqs (Suc n) ps (CHR '' '' # s) = s"
  by (simp add: strip_none)

lemma space_found: "find (\<lambda>p. prefix p (CHR '' '' # s)) ws_seqs = Some [CHR 0x20]"
  "find (\<lambda>p. prefix p (CHR '' '' # s)) (map rev ws_seqs) = Some [CHR 0x20]"
  by (simp_all add: ws_seqs_def)

lemma trim_space_firm: "firm s \<Longrightarrow> trim (CHR '' '' # s) = s"
  using firm_no_prefix [of s "[]"] firm_no_suffix [of s "[]"]
  by (simp add: trim_def trim_start_def trim_end_def strip_none strip_one_space space_found)

lemma trim_firm_space: "firm s \<Longrightarrow> trim (s @ [CHR '' '']) = s"
  using firm_no_prefix [of s "[CHR 0x20]"] firm_no_suffix [of s "[]"]
  by (simp add: trim_def trim_start_def trim_end_def strip_none strip_one_space space_found)

lemma firm_glue: "firm a \<Longrightarrow> firm b \<Longrightarrow> firm (a @ m @ b)"
  by (auto simp: firm_def list_all_iff)

definition ini_line :: "string \<times> string \<Rightarrow> string" where
  "ini_line p = fst p @ '' = '' @ snd p"

definition ini_lines :: "string \<times> (string \<times> string) list \<Rightarrow> string list" where
  "ini_lines sec = (''['' @ fst sec @ '']'') # map ini_line (snd sec)"

definition render_ini :: "(string \<times> (string \<times> string) list) list \<Rightarrow> string" where
  "render_ini secs = concat (map (\<lambda>l. l @ [CHR 0x0A]) (concat (map ini_lines secs)))"

definition ini_text :: "string \<Rightarrow> bool" where
  "ini_text s \<longleftrightarrow> firm s \<and> CHR 0x0A \<notin> set s"

definition ini_key :: "string \<Rightarrow> bool" where
  "ini_key k \<longleftrightarrow> ini_text k \<and> CHR ''='' \<notin> set k \<and> hd k \<notin> {CHR ''#'', CHR '';'', CHR ''[''}"

definition ini_sections_ok :: "(string \<times> (string \<times> string) list) list \<Rightarrow> bool" where
  "ini_sections_ok secs \<longleftrightarrow> list_all (\<lambda>(n, kvs). ini_text n \<and> list_all (\<lambda>(k, v). ini_key k \<and> ini_text v) kvs) secs"

lemma str_lines_render:
  assumes "list_all (\<lambda>l. CHR 0x0A \<notin> set l \<and> l \<noteq> [] \<and> last l \<noteq> CHR 0x0D) ls"
  shows "str_lines (concat (map (\<lambda>l. l @ [CHR 0x0A]) ls)) = ls"
proof -
  have "split_char CHR 0x0A (concat (map (\<lambda>l. l @ [CHR 0x0A]) ls)) = ls @ [[]]"
    using assms by (induction ls) (simp_all add: concat_split_char)
  moreover have "(case strip_suffix [CHR 0x0D] l of Some l' \<Rightarrow> l' | None \<Rightarrow> l) = l" if "l \<in> set ls" for l
  proof -
    have "\<not> suffix [CHR 0x0D] l" using assms that by (auto simp: list_all_iff suffix_def)
    then show ?thesis by (simp add: strip_suffix_def)
  qed
  ultimately show ?thesis by (simp add: str_lines_def Let_def map_idI)
qed

lemma ini_loop_section:
  assumes "ini_text n"
  shows "ini_loop sect key b ((''['' @ n @ '']'') # lines) = ini_loop sect key (n = sect) lines"
proof -
  have "firm (''['' @ n @ '']'')" by (simp add: firm_def ws_seqs_def)
  moreover have "strip_prefix ''['' (''['' @ n @ '']'') = Some (n @ '']'')" by (simp add: strip_prefix_def)
  moreover have "strip_suffix '']'' (n @ '']'') = Some n" by (simp add: strip_suffix_def)
  ultimately show ?thesis using assms by (simp add: trim_firm ini_text_def Let_def)
qed

lemma ini_loop_pair:
  assumes "ini_key k" and "ini_text v"
  shows "ini_loop sect key b (ini_line (k, v) # lines) = (if b \<and> k = key then Some v else ini_loop sect key b lines)"
proof -
  have f: "firm k" "firm v" using assms by (auto simp: ini_key_def ini_text_def)
  then obtain c r where k: "k = c # r" by (cases k) (auto simp: firm_def)
  have "firm (ini_line (k, v))" using firm_glue [OF f, of "'' = ''"] by (simp add: ini_line_def)
  then have t: "trim (ini_line (k, v)) = ini_line (k, v)" by (rule trim_firm)
  have "split_once CHR ''='' ((k @ '' '') @ CHR ''='' # ('' '' @ v)) = Some (k @ '' '', '' '' @ v)"
    using assms(1) by (intro split_once_append) (simp add: ini_key_def)
  then have s: "split_once CHR ''='' (ini_line (k, v)) = Some (k @ '' '', '' '' @ v)" by (simp add: ini_line_def)
  have h: "strip_prefix ''['' (ini_line (k, v)) = None" "ini_line (k, v) \<noteq> []" "hd (ini_line (k, v)) \<notin> {CHR ''#'', CHR '';''}"
    using assms(1) by (auto simp: ini_line_def strip_prefix_def ini_key_def k)
  have tk: "trim (k @ '' '') = k" "trim ('' '' @ v) = v" using trim_firm_space [OF f(1)] trim_space_firm [OF f(2)] by simp_all
  show ?thesis
  proof (cases b)
    case True
    then have "ini_loop sect key b (ini_line (k, v) # lines) = (if trim (k @ '' '') = key then Some (trim ('' '' @ v)) else ini_loop sect key b lines)"
      using h(2,3) by (simp only: ini_loop.simps Let_def t s h(1) if_False Option.bind.simps option.case prod.case if_True de_Morgan_disj simp_thms)
    then show ?thesis unfolding tk using True by simp
  qed (use h in \<open>simp add: Let_def t\<close>)
qed

lemma ini_loop_pairs:
  "list_all (\<lambda>(k, v). ini_key k \<and> ini_text v) kvs \<Longrightarrow>
    ini_loop sect key b (map ini_line kvs @ lines) =
      (case (if b then map_of kvs key else None) of Some v \<Rightarrow> Some v | None \<Rightarrow> ini_loop sect key b lines)"
  by (induction kvs) (auto simp: ini_loop_pair simp del: ini_loop.simps)

lemma ini_loop_sections:
  "ini_sections_ok secs \<Longrightarrow>
    ini_loop sect key b (concat (map ini_lines secs)) = map_of (concat (map snd (filter (\<lambda>(n, _). n = sect) secs))) key"
proof (induction secs arbitrary: b)
  case (Cons sec secs)
  obtain n kvs where sec: "sec = (n, kvs)" by (cases sec)
  have ok: "ini_text n" "list_all (\<lambda>(k, v). ini_key k \<and> ini_text v) kvs" "ini_sections_ok secs"
    using Cons.prems by (auto simp: ini_sections_ok_def sec)
  have "ini_loop sect key b (concat (map ini_lines (sec # secs)))
      = ini_loop sect key (n = sect) (map ini_line kvs @ concat (map ini_lines secs))"
    using ini_loop_section [OF ok(1)] by (simp only: sec ini_lines_def [of "(n, kvs)"] fst_conv snd_conv list.map concat.simps append_Cons append_Nil)
  then show ?case using Cons.IH [OF ok(3)] ini_loop_pairs [OF ok(2)]
    by (simp add: sec map_of_append map_add_def split: option.split del: ini_loop.simps)
qed simp

text \<open>The credentials file reads back. In a file of sections with their settings, a lookup gives the first
  setting of that name in the sections of that name, trimmed as it was written, and nothing else.\<close>

theorem ini_reads_back:
  assumes "ini_sections_ok secs"
  shows "ini_get (render_ini secs) sect key = map_of (concat (map snd (filter (\<lambda>(n, _). n = sect) secs))) key"
proof -
  have last: "s \<noteq> [] \<and> last s \<noteq> CHR 0x0D \<and> CHR 0x0A \<notin> set s" if "ini_text s" for s
    using that by (auto simp: ini_text_def firm_def ws_seqs_def)
  have pair: "CHR 0x0A \<notin> set (ini_line (k, v)) \<and> ini_line (k, v) \<noteq> [] \<and> last (ini_line (k, v)) \<noteq> CHR 0x0D"
    if "ini_key k" "ini_text v" for k v
    using last [of k] last [of v] that by (simp add: ini_line_def ini_key_def)
  have "list_all (\<lambda>l. CHR 0x0A \<notin> set l \<and> l \<noteq> [] \<and> last l \<noteq> CHR 0x0D) (ini_lines (n, kvs))"
    if "ini_text n" "list_all (\<lambda>(k, v). ini_key k \<and> ini_text v) kvs" for n kvs
    using last [OF that(1)] that(2) pair by (auto simp: ini_lines_def list_all_iff)
  then have "list_all (\<lambda>l. CHR 0x0A \<notin> set l \<and> l \<noteq> [] \<and> last l \<noteq> CHR 0x0D) (concat (map ini_lines secs))"
    using assms unfolding ini_sections_ok_def by (induction secs) auto
  from str_lines_render [OF this] show ?thesis
    by (simp add: ini_get_def render_ini_def ini_loop_sections [OF assms])
qed

lemma ini_reads_back_witness:
  "ini_get (render_ini [(''default'', [(''k'', ''v'')]), (''p'', [(''k'', ''a b''), (''k'', ''c'')])]) ''p'' ''k'' = Some ''a b''"
proof -
  have "ini_sections_ok [(''default'', [(''k'', ''v'')]), (''p'', [(''k'', ''a b''), (''k'', ''c'')])]"
    by (simp add: ini_sections_ok_def ini_text_def ini_key_def firm_def ws_seqs_def)
  from ini_reads_back [OF this, of "''p''" "''k''"] show ?thesis by simp
qed

section \<open>Borrowed privilege\<close>

text \<open>The Unix permission check, independently of the code: the class of the caller picks three mode bits.\<close>

definition mode_class :: "u32 \<Rightarrow> u32 \<Rightarrow> u32 \<Rightarrow> u32 list \<Rightarrow> nat" where
  "mode_class st_uid st_gid uid groups = (if uid = st_uid then 6 else if st_gid \<in> set groups then 3 else 0)"

definition caller_may_read :: "host \<Rightarrow> opened \<Rightarrow> bool" where
  "caller_may_read h f =
    (case (of_meta f, of_path f) of
       (Some (mode, st_uid, st_gid), Some real) \<Rightarrow>
         bit mode (mode_class st_uid st_gid (h_uid h) (h_groups h) + 2)
         \<and> list_all (\<lambda>d. case h_stat h d of
              Some (m, u, g) \<Rightarrow> bit m (mode_class u g (h_uid h) (h_groups h))
            | None \<Rightarrow> False) (ancestors real)
     | _ \<Rightarrow> False)"

text \<open>The host with other contents in every file the caller may not read.\<close>

definition with_secrets :: "(string \<Rightarrow> string option) \<Rightarrow> (string \<Rightarrow> open_error + opened) \<Rightarrow> host \<Rightarrow> host" where
  "with_secrets other plain h =
    h\<lparr>h_open := plain,
      h_open_contained := (\<lambda>path. case h_open_contained h path of
         Inl e \<Rightarrow> Inl e
       | Inr f \<Rightarrow> if h_access h path \<and> caller_may_read h f then Inr f else Inr (f\<lparr>of_body := other path\<rparr>))\<rparr>"

lemma and_power_bit: "w AND 2 ^ n \<noteq> 0 \<longleftrightarrow> bit w n" for w :: u32
proof (cases "bit w n")
  case True
  then have "bit (w AND 2 ^ n) n" using bit_imp_le_length [OF True] by (simp add: bit_and_iff bit_exp_iff)
  then show ?thesis using True by auto
next
  case False
  have "w AND 2 ^ n = 0" by (rule bit_eqI) (use False in \<open>auto simp: bit_and_iff bit_exp_iff\<close>)
  then show ?thesis using False by simp
qed

lemma mode_bits:
  "w AND 256 \<noteq> 0 \<longleftrightarrow> bit w 8" "w AND 32 \<noteq> 0 \<longleftrightarrow> bit w 5" "w AND 4 \<noteq> 0 \<longleftrightarrow> bit w 2"
  "w AND 64 \<noteq> 0 \<longleftrightarrow> bit w 6" "w AND 8 \<noteq> 0 \<longleftrightarrow> bit w 3" "w AND 1 \<noteq> 0 \<longleftrightarrow> bit w 0" for w :: u32
  using and_power_bit [of w 8] and_power_bit [of w 5] and_power_bit [of w 2] and_power_bit [of w 6] and_power_bit [of w 3] and_power_bit [of w 0]
  by simp_all

lemma dac_readable_class: "dac_readable_by mode st_uid st_gid uid groups \<longleftrightarrow> bit mode (mode_class st_uid st_gid uid groups + 2)"
  unfolding dac_readable_by_def mode_class_def mode_bits by (auto simp del: add_2_eq_Suc add_2_eq_Suc')

lemma searchable_class: "searchable_by mode st_uid st_gid uid groups \<longleftrightarrow> bit mode (mode_class st_uid st_gid uid groups)"
  unfolding searchable_by_def mode_class_def mode_bits by auto

lemma may_read_checks:
  "caller_may_read h f \<longleftrightarrow> (case of_meta f of
      None \<Rightarrow> False
    | Some (mode, st_uid, st_gid) \<Rightarrow> dac_readable_by mode st_uid st_gid (h_uid h) (h_groups h) \<and> real_user_can_traverse_to h f)"
proof -
  have "(case h_stat h d of Some (m, u, g) \<Rightarrow> bit m (mode_class u g (h_uid h) (h_groups h)) | None \<Rightarrow> False)
      = (case h_stat h d of None \<Rightarrow> False | Some (m, u, g) \<Rightarrow> searchable_by m u g (h_uid h) (h_groups h))" for d
    by (simp add: searchable_class split: option.split)
  then show ?thesis
    by (simp add: caller_may_read_def real_user_can_traverse_to_def dac_readable_class split: option.split)
qed

lemma with_secrets_simps [simp]:
  "h_env (with_secrets other plain h) = h_env h" "h_borrowed (with_secrets other plain h) = h_borrowed h"
  "h_access (with_secrets other plain h) = h_access h" "h_stat (with_secrets other plain h) = h_stat h"
  "h_uid (with_secrets other plain h) = h_uid h" "h_groups (with_secrets other plain h) = h_groups h"
  "h_curl_banner (with_secrets other plain h) = h_curl_banner h"
  by (simp_all add: with_secrets_def)

lemma with_secrets_views [simp]:
  "real_user_can_traverse_to (with_secrets other plain h) f = real_user_can_traverse_to h f"
  "real_user_can_traverse_to h (f\<lparr>of_body := b\<rparr>) = real_user_can_traverse_to h f"
  "aws_dir (with_secrets other plain h) = aws_dir h" "aws_profile (with_secrets other plain h) = aws_profile h"
  "nonempty_env (with_secrets other plain h) v = nonempty_env h v"
  unfolding real_user_can_traverse_to_def aws_dir_def aws_profile_def nonempty_env_def with_secrets_simps by simp_all

lemma with_secrets_open:
  "h_open_contained (with_secrets other plain h) path = (case h_open_contained h path of
     Inl e \<Rightarrow> Inl e
   | Inr f \<Rightarrow> if h_access h path \<and> caller_may_read h f then Inr f else Inr (f\<lparr>of_body := other path\<rparr>))"
  by (simp add: with_secrets_def)

lemma read_credentials_secrets:
  assumes "h_borrowed h"
  shows "read_credentials_file (with_secrets other plain h) path = read_credentials_file h path"
proof (cases "h_open_contained h path")
  case (Inl e)
  then show ?thesis using assms by (cases e) (simp_all add: read_credentials_file_def open_creds_def with_secrets_open)
next
  case (Inr f)
  then show ?thesis using assms
    by (auto simp: read_credentials_file_def open_creds_def with_secrets_open may_read_checks split: option.split prod.split)
qed

lemma config_region_secrets:
  assumes "h_borrowed h"
  shows "config_region (with_secrets other plain h) = config_region h"
proof (cases "h_open_contained h (path_join (aws_dir h) ''config'')")
  case (Inr f)
  then show ?thesis using assms
    by (auto simp: config_region_def Let_def with_secrets_open may_read_checks split: option.split prod.split)
qed (use assms in \<open>simp add: config_region_def Let_def with_secrets_open\<close>)

text \<open>C37: borrowed privilege reads nobody else's files. On an agent that holds capabilities its caller lacks, the outcome of
  resolving credentials, error or not, does not depend on the contents of any file the caller could not
  read by the permission bits of the file and of every directory above it.\<close>

theorem borrowed_reads_own:
  assumes "h_borrowed h"
  shows "resolve_aws_creds (with_secrets other plain h) flag = resolve_aws_creds h flag"
  unfolding resolve_aws_creds_def resolve_keys_def resolve_region_def read_credentials_secrets [OF assms]
    config_region_secrets [OF assms] with_secrets_simps with_secrets_views ..

text \<open>A caller with user id 7 points \<open>HOME\<close> at root's home. Root's file is not readable to him.\<close>

definition stolen_home :: "string \<Rightarrow> host" where
  "stolen_home body = \<lparr>h_env = (\<lambda>v. if v = ''HOME'' then Some ''/root'' else None), h_borrowed = True, h_access = (\<lambda>_. True),
     h_open = (\<lambda>_. Inl Other_error),
     h_open_contained = (\<lambda>_. Inr \<lparr>of_path = Some [''root'', ''.aws'', ''credentials''], of_meta = Some (384, 0, 0), of_body = Some body\<rparr>),
     h_stat = (\<lambda>_. Some (493, 0, 0)), h_uid = 7, h_groups = [7], h_curl_banner = None\<rparr>"

lemma borrowed_reads_own_witness:
  "resolve_aws_creds (stolen_home ''[default]'') None = resolve_aws_creds (stolen_home ''[admin]'') None"
proof -
  have b: "h_borrowed (stolen_home ''[admin]'')" by (simp add: stolen_home_def)
  have "\<not> caller_may_read (stolen_home ''[admin]'') \<lparr>of_path = Some [''root'', ''.aws'', ''credentials''], of_meta = Some (384, 0, 0), of_body = Some ''[admin]''\<rparr>"
    by (simp add: may_read_checks dac_readable_by_def stolen_home_def)
  then have "with_secrets (\<lambda>_. Some ''[default]'') (\<lambda>_. Inl Other_error) (stolen_home ''[admin]'') = stolen_home ''[default]''"
    by (simp add: with_secrets_def stolen_home_def)
  with borrowed_reads_own [OF b, of "\<lambda>_. Some ''[default]''" "\<lambda>_. Inl Other_error" None] show ?thesis by simp
qed

section \<open>The configuration \<open>curl\<close> reads\<close>

text \<open>A line of the configuration as \<open>curl\<close> documents it: a name, an equal sign and a quoted value.\<close>

definition directive :: "string \<Rightarrow> (string \<times> string) option" where
  "directive line =
    do {
      (left, right) \<leftarrow> split_once CHR 0x22 line;
      name \<leftarrow> strip_suffix '' = '' left;
      v \<leftarrow> strip_suffix [CHR 0x22] right;
      then_some (CHR 0x22 \<notin> set v \<and> CHR 0x5C \<notin> set v) (name, v)
    }"

definition expected_directives :: "aws_creds \<Rightarrow> (string \<times> string) list" where
  "expected_directives c =
    [(''user'', ac_access_key c @ '':'' @ ac_secret_key c), (''aws-sigv4'', ''aws:amz:'' @ ac_region c @ '':s3'')]
    @ (case ac_session_token c of None \<Rightarrow> [] | Some tok \<Rightarrow> [(''header'', ''x-amz-security-token: '' @ tok)])"

definition harmless :: "string \<Rightarrow> bool" where
  "harmless v \<longleftrightarrow> CHR 0x22 \<notin> set v \<and> CHR 0x5C \<notin> set v \<and> CHR 0x0D \<notin> set v \<and> CHR 0x0A \<notin> set v"

lemma harmless_cred: "\<not> reject_unsafe_cred v \<longleftrightarrow> harmless v"
  by (auto simp: reject_unsafe_cred_def harmless_def list_ex_iff)

lemma harmless_append [simp]: "harmless (a @ b) \<longleftrightarrow> harmless a \<and> harmless b"
  by (auto simp: harmless_def)

lemma directive_line:
  assumes "CHR 0x22 \<notin> set name" and "harmless v"
  shows "directive (name @ '' = '' @ quoted v) = Some (name, v)"
proof -
  have "split_once CHR 0x22 ((name @ '' = '') @ CHR 0x22 # (v @ [CHR 0x22])) = Some (name @ '' = '', v @ [CHR 0x22])"
    using assms(1) by (intro split_once_append) simp
  moreover have "strip_suffix '' = '' (name @ '' = '') = Some name" "strip_suffix [CHR 0x22] (v @ [CHR 0x22]) = Some v"
    by (auto simp: strip_suffix_def suffix_def)
  ultimately show ?thesis using assms(2) by (simp add: directive_def quoted_def harmless_def)
qed

lemma config_lines:
  assumes "list_all (\<lambda>(name, v). harmless name \<and> harmless v) ds"
  shows "map directive (str_lines (concat (map (\<lambda>l. l @ [CHR 0x0A]) (map (\<lambda>(name, v). name @ '' = '' @ quoted v) ds)))) = map Some ds"
proof -
  have "list_all (\<lambda>l. CHR 0x0A \<notin> set l \<and> l \<noteq> [] \<and> last l \<noteq> CHR 0x0D) (map (\<lambda>(name, v). name @ '' = '' @ quoted v) ds)"
    using assms by (auto simp: list_all_iff harmless_def quoted_def)
  note lines = str_lines_render [OF this]
  have "directive (case p of (name, v) \<Rightarrow> name @ '' = '' @ quoted v) = Some p" if "p \<in> set ds" for p
  proof (cases p)
    case (Pair name v)
    then have "harmless name" "harmless v" using assms that by (auto simp: list_all_iff)
    then show ?thesis using directive_line [of name v] by (simp only: Pair prod.case harmless_def simp_thms not_False_eq_True)
  qed
  then have "map directive (map (\<lambda>(name, v). name @ '' = '' @ quoted v) ds) = map Some ds"
    unfolding map_map comp_def by (rule map_cong [OF refl])
  then show ?thesis unfolding lines .
qed

definition credential_text :: "aws_creds \<Rightarrow> string" where
  "credential_text c =
    ac_access_key c @ ac_secret_key c @ ac_region c @ (case ac_session_token c of Some tok \<Rightarrow> tok | None \<Rightarrow> [])"

text \<open>C40: credentials cannot inject directives. The configuration is built exactly when no credential holds a quote,
  a backslash, a carriage return or a line feed; its lines then are the intended directives with the
  values as they are, and no others. Credentials that were resolved always build one.\<close>

theorem signing_config_intact:
  "(curl_auth_config c = None) = list_ex (\<lambda>x. x \<in> {CHR 0x22, CHR 0x5C, CHR 0x0D, CHR 0x0A}) (credential_text c)
    \<and> (case curl_auth_config c of
      Some cfg \<Rightarrow> map directive (str_lines cfg) = map Some (expected_directives c)
    | None \<Rightarrow> True)
    \<and> (case resolve_aws_creds h flag of Inr creds \<Rightarrow> curl_auth_config creds \<noteq> None \<and> region_is_valid (ac_region creds) | Inl _ \<Rightarrow> True)"
proof (intro conjI)
  show "(curl_auth_config c = None) = list_ex (\<lambda>x. x \<in> {CHR 0x22, CHR 0x5C, CHR 0x0D, CHR 0x0A}) (credential_text c)"
    by (simp add: curl_auth_config_def credential_text_def reject_unsafe_creds_def reject_unsafe_cred_def split: option.split)
  show "case curl_auth_config c of
      Some cfg \<Rightarrow> map directive (str_lines cfg) = map Some (expected_directives c)
    | None \<Rightarrow> True"
  proof (cases "reject_unsafe_creds c")
    case False
    have "harmless ''user''" "harmless ''aws-sigv4''" "harmless ''header''" "harmless ''aws:amz:''" "harmless '':s3''" "harmless '':''"
      "harmless ''x-amz-security-token: ''" by (simp_all add: harmless_def)
    then have ok: "list_all (\<lambda>(name, v). harmless name \<and> harmless v) (expected_directives c)"
      using False by (auto simp: reject_unsafe_creds_def harmless_cred expected_directives_def simp del: append_Cons split: option.splits)
    have "curl_auth_config c = Some (concat (map (\<lambda>l. l @ [CHR 0x0A]) (map (\<lambda>(name, v). name @ '' = '' @ quoted v) (expected_directives c))))"
      using False by (simp add: curl_auth_config_def expected_directives_def split: option.split)
    then show ?thesis using config_lines [OF ok] by simp
  qed (simp add: curl_auth_config_def)
  show "case resolve_aws_creds h flag of Inr creds \<Rightarrow> curl_auth_config creds \<noteq> None \<and> region_is_valid (ac_region creds) | Inl _ \<Rightarrow> True"
    by (auto simp: resolve_aws_creds_def curl_auth_config_def Let_def split: sum.split)
qed

end
