(* ===== verification/Intake.thy ===== *)
theory Intake
  imports TraceLine ScopeFilter Fold
begin

text \<open>
  How the consumers read a capture: \<open>parse_records\<close> of \<open>s3tap-doctor/lib.rs\<close>, \<open>load_trace_counted\<close> of
  \<open>s3tap-advisor/analyze.rs\<close>, and the bounded line reader of \<open>s3tap-cli/main.rs\<close> with the two readers that
  feed the parsers in batches. A \<open>BufRead\<close> is the list of the results its \<open>fill_buf\<close> is still to give; an
  I/O error is a value of any type. The JSON parser is an argument.
\<close>

section \<open>The reader\<close>

text \<open>One result of \<open>fill_buf\<close>; an empty chunk is the end of the input, and so is the end of the list.\<close>

datatype 'e fill = Chunk "u8 list" | Interrupted | Broken 'e

primrec position :: "('a \<Rightarrow> bool) \<Rightarrow> 'a list \<Rightarrow> nat option" where
  "position P [] = None"
| "position P (x # xs) = (if P x then Some 0 else map_option Suc (position P xs))"

definition consume :: "nat \<Rightarrow> u8 list \<Rightarrow> 'e fill list \<Rightarrow> 'e fill list" where
  "consume n c r = (if n < length c then Chunk (drop n c) # r else r)"

text \<open>The loop of \<open>read_line_capped\<close>: its answer, the buffer it leaves, and the reader after it.\<close>

fun read_line_loop ::
    "nat \<Rightarrow> bool \<Rightarrow> bool \<Rightarrow> u8 list \<Rightarrow> 'e fill list \<Rightarrow> ('e + bool option) \<times> u8 list \<times> 'e fill list" where
  "read_line_loop mx over read_any buf [] = (Inr (if read_any then Some over else None), buf, [])"
| "read_line_loop mx over read_any buf (Interrupted # r) = read_line_loop mx over read_any buf r"
| "read_line_loop mx over read_any buf (Broken e # r) = (Inl e, buf, r)"
| "read_line_loop mx over read_any buf (Chunk c # r) =
    (if c = [] then (Inr (if read_any then Some over else None), buf, r)
     else
       let (tk, consumed, eol) = (case position (\<lambda>b. b = 0x0A) c of
              Some i \<Rightarrow> (i, i + 1, True)
            | None \<Rightarrow> (length c, length c, False));
           (over', buf') =
             (if over then (over, buf)
              else if mx < length buf + tk then (True, [])
              else (False, buf @ take tk c))
       in if eol then (Inr (Some over'), buf', consume consumed c r)
          else read_line_loop mx over' True buf' r)"

definition read_line_capped :: "nat \<Rightarrow> 'e fill list \<Rightarrow> ('e + bool option) \<times> u8 list \<times> 'e fill list" where
  "read_line_capped mx r = read_line_loop mx False False [] r"

definition MAX_INPUT_LINE :: nat where "MAX_INPUT_LINE = 1048576"
definition PARSE_BATCH_BYTES :: nat where "PARSE_BATCH_BYTES = 1048576"

text \<open>A reader shrinks with every line it gives: the measure of the loops below.\<close>

fun fill_size :: "'e fill \<Rightarrow> nat" where
  "fill_size (Chunk c) = Suc (length c)"
| "fill_size _ = 1"

definition reader_size :: "'e fill list \<Rightarrow> nat" where
  "reader_size r = sum_list (map fill_size r)"

lemma reader_size_simps [simp]:
  "reader_size [] = 0" "reader_size (f # r) = fill_size f + reader_size r"
  by (simp_all add: reader_size_def)

lemma position_SomeD: "position P xs = Some i \<Longrightarrow> i < length xs \<and> P (xs ! i) \<and> (\<forall>j<i. \<not> P (xs ! j))"
proof (induction xs arbitrary: i)
  case (Cons x xs)
  then show ?case by (cases i) (auto split: if_splits simp: less_Suc_eq_0_disj)
qed simp

lemma reader_size_consume: "0 < n \<Longrightarrow> c \<noteq> [] \<Longrightarrow> reader_size (consume n c r) < Suc (length c) + reader_size r"
  by (auto simp: consume_def)

definition kept :: "nat \<Rightarrow> bool \<Rightarrow> u8 list \<Rightarrow> u8 list \<Rightarrow> u8 list" where
  "kept mx over buf c = (if over then buf else if mx < length buf + length c then [] else buf @ c)"

lemma read_line_loop_Chunk:
  assumes "c \<noteq> []"
  shows "position (\<lambda>b. b = 0x0A) c = None \<Longrightarrow> read_line_loop mx over ra buf (Chunk c # r) =
      read_line_loop mx (over \<or> mx < length buf + length c) True (kept mx over buf c) r"
    and "position (\<lambda>b. b = 0x0A) c = Some i \<Longrightarrow> read_line_loop mx over ra buf (Chunk c # r) =
      (Inr (Some (over \<or> mx < length buf + i)), kept mx over buf (take i c), consume (i + 1) c r)"
  using assms position_SomeD [of "\<lambda>b. b = 0x0A" c i] by (auto simp: kept_def)

lemma read_line_loop_eof [simp]:
  "read_line_loop mx over ra buf (Chunk [] # r) = (Inr (if ra then Some over else None), buf, r)"
  by simp

declare read_line_loop.simps(4) [simp del]

lemma read_line_loop_size:
  "read_line_loop mx over ra buf r = (Inr (Some b), buf', r') \<Longrightarrow>
    reader_size r' \<le> reader_size r \<and> (ra \<or> reader_size r' < reader_size r)"
proof (induction r arbitrary: over ra buf)
  case (Cons f r)
  show ?case
  proof (cases f)
    case (Chunk c)
    show ?thesis
    proof (cases "c = []")
      case True
      with Cons.prems Chunk show ?thesis by (auto split: if_splits)
    next
      case c: False
      show ?thesis
      proof (cases "position (\<lambda>b. b = 0x0A) c")
        case None
        from Cons.IH [OF Cons.prems [unfolded Chunk read_line_loop_Chunk(1) [OF c None]]] show ?thesis
          by (simp add: Chunk)
      next
        case (Some i)
        with Cons.prems [unfolded Chunk read_line_loop_Chunk(2) [OF c Some]] reader_size_consume [of "i + 1" c r] c
        show ?thesis by (auto simp: Chunk)
      qed
    qed
  next
    case Interrupted
    with Cons.IH [of over ra buf] Cons.prems show ?thesis by auto
  qed (use Cons in simp)
qed (auto split: if_splits)

lemma read_line_shrinks: "read_line_capped mx r = (Inr (Some b), buf, r') \<Longrightarrow> reader_size r' < reader_size r"
  unfolding read_line_capped_def by (drule read_line_loop_size) simp

section \<open>The two batching readers\<close>

text \<open>\<open>flush\<close> inside \<open>stream_records\<close>: a batch goes to the parser, and the counters add up.\<close>

definition flush_batch :: "(string \<Rightarrow> 'r list \<times> 'c::comm_monoid_add) \<Rightarrow> string \<Rightarrow> 'r list \<Rightarrow> 'c \<Rightarrow> 'r list \<times> 'c" where
  "flush_batch parse batch records stats =
    (if batch = [] then (records, stats)
     else let (recs, st) = parse batch in (records @ recs, stats + st))"

function stream_loop ::
    "(string \<Rightarrow> 'r list \<times> 'c::comm_monoid_add) \<Rightarrow> 'c \<Rightarrow> 'e fill list \<Rightarrow> string \<Rightarrow> 'r list \<Rightarrow> 'c \<Rightarrow> 'e + 'r list \<times> 'c" where
  "stream_loop parse bad r batch records stats =
    (case read_line_capped MAX_INPUT_LINE r of
       (Inl e, _, _) \<Rightarrow> Inl e
     | (Inr None, _, _) \<Rightarrow> Inr (flush_batch parse batch records stats)
     | (Inr (Some True), _, r') \<Rightarrow> stream_loop parse bad r' batch records (stats + bad)
     | (Inr (Some False), line, r') \<Rightarrow>
        (case from_utf8 line of
           None \<Rightarrow> stream_loop parse bad r' batch records (stats + bad)
         | Some s \<Rightarrow>
            let batch' = batch @ s @ [CHR 0x0A] in
            if PARSE_BATCH_BYTES \<le> length batch' then
              (let (records', stats') = flush_batch parse batch' records stats in
               stream_loop parse bad r' [] records' stats')
            else stream_loop parse bad r' batch' records stats))"
  by pat_completeness auto
termination
  by (relation "measure (\<lambda>(parse, bad, r, batch, records, stats). reader_size r)") (auto dest!: read_line_shrinks [OF sym])

declare stream_loop.simps [simp del]

definition stream_lines :: "(string \<Rightarrow> 'r list \<times> 'c::comm_monoid_add) \<Rightarrow> 'c \<Rightarrow> 'e fill list \<Rightarrow> 'e + 'r list \<times> 'c" where
  "stream_lines parse bad r = stream_loop parse bad r [] [] 0"

text \<open>\<open>stream_bounded\<close>: stop once \<open>hard\<close> items are there.\<close>

function bounded_loop ::
    "nat \<Rightarrow> (string \<Rightarrow> 'r list \<times> 'c::comm_monoid_add) \<Rightarrow> 'c \<Rightarrow> 'e fill list \<Rightarrow> string \<Rightarrow> nat \<Rightarrow> 'r list \<Rightarrow> 'c
      \<Rightarrow> 'e + 'r list \<times> 'c" where
  "bounded_loop hard parse one r batch batch_lines items skipped =
    (if hard \<le> length items then Inr (flush_batch parse batch items skipped)
     else case read_line_capped MAX_INPUT_LINE r of
       (Inl e, _, _) \<Rightarrow> Inl e
     | (Inr None, _, _) \<Rightarrow> Inr (flush_batch parse batch items skipped)
     | (Inr (Some True), _, r') \<Rightarrow> bounded_loop hard parse one r' batch batch_lines items (skipped + one)
     | (Inr (Some False), line, r') \<Rightarrow>
        (case from_utf8 line of
           None \<Rightarrow> bounded_loop hard parse one r' batch batch_lines items (skipped + one)
         | Some s \<Rightarrow>
            let batch' = batch @ s @ [CHR 0x0A]; lines' = batch_lines + 1 in
            if hard - length items \<le> lines' \<or> PARSE_BATCH_BYTES \<le> length batch' then
              (let (parsed, sk) = parse batch' in
               bounded_loop hard parse one r' [] 0 (items @ parsed) (skipped + sk))
            else bounded_loop hard parse one r' batch' lines' items skipped))"
  by pat_completeness auto
termination
  by (relation "measure (\<lambda>(hard, parse, one, r, batch, batch_lines, items, skipped). reader_size r)")
    (auto dest!: read_line_shrinks [OF sym])

declare bounded_loop.simps [simp del]

definition stream_bounded ::
    "nat \<Rightarrow> (string \<Rightarrow> 'r list \<times> 'c::comm_monoid_add) \<Rightarrow> 'c \<Rightarrow> 'e fill list \<Rightarrow> 'e + 'r list \<times> 'c" where
  "stream_bounded hard parse one r = bounded_loop hard parse one r [] 0 [] 0"

section \<open>The two parsers\<close>

text \<open>
  What \<open>from_str::<Value>\<close> makes of the JSON text it read: of two members with one name the last is kept.
  The order of the members is not visible to a lookup.
\<close>

fun last_members :: "fields \<Rightarrow> fields" where
  "last_members [] = []"
| "last_members ((k, v) # fs) = (if k \<in> fst ` set fs then last_members fs else (k, v) # last_members fs)"

fun to_value :: "json \<Rightarrow> json" where
  "to_value (JArr vs) = JArr (map to_value vs)"
| "to_value (JObj fs) = JObj (last_members (map (map_prod id to_value) fs))"
| "to_value j = j"

datatype capture_record = CapturedOperation operation | CapturedConnection connection | CapturedSample tcp_sample

datatype parse_stats = ParseStats (bad_lines: nat) (unknown_schema: nat)

datatype load_counts = LoadCounts (lc_skipped: nat) (lc_operations_dropped: nat) (lc_other_records: nat)

instantiation parse_stats :: comm_monoid_add
begin
definition zero_parse_stats :: parse_stats where "0 = ParseStats 0 0"
definition plus_parse_stats :: "parse_stats \<Rightarrow> parse_stats \<Rightarrow> parse_stats" where
  "a + b = ParseStats (bad_lines a + bad_lines b) (unknown_schema a + unknown_schema b)"
instance by standard (auto simp: zero_parse_stats_def plus_parse_stats_def intro: parse_stats.expand)
end

instantiation load_counts :: comm_monoid_add
begin
definition zero_load_counts :: load_counts where "0 = LoadCounts 0 0 0"
definition plus_load_counts :: "load_counts \<Rightarrow> load_counts \<Rightarrow> load_counts" where
  "a + b = LoadCounts (lc_skipped a + lc_skipped b) (lc_operations_dropped a + lc_operations_dropped b)
     (lc_other_records a + lc_other_records b)"
instance by standard (auto simp: zero_load_counts_def plus_load_counts_def intro: load_counts.expand)
end

text \<open>The body of the loop of \<open>parse_records\<close>: the record of a line, or the counter it raises.\<close>

definition parse_record_line :: "(string \<Rightarrow> json option) \<Rightarrow> string \<Rightarrow> capture_record list \<times> parse_stats" where
  "parse_record_line json_of_line line0 =
    (let line = trim line0 in
     if line = [] then ([], ParseStats 0 0)
     else case map_option to_value (json_of_line line) of
       Some (JObj fs) \<Rightarrow>
         (let tag = Option.bind (map_of fs ''schema'') string_of_json;
              keep = (\<lambda>r. case r of Some x \<Rightarrow> ([x], ParseStats 0 0) | None \<Rightarrow> ([], ParseStats 1 0)) in
          if tag = Some OPERATION_SCHEMA then keep (map_option CapturedOperation (operation_of_json (JObj fs)))
          else if tag = Some CONNECTION_SCHEMA then keep (map_option CapturedConnection (connection_of_json (JObj fs)))
          else if tag = Some SAMPLE_SCHEMA then keep (map_option CapturedSample (tcp_sample_of_json (JObj fs)))
          else ([], ParseStats 0 1))
     | _ \<Rightarrow> ([], ParseStats 1 0))"

fun parse_records_loop ::
    "(string \<Rightarrow> json option) \<Rightarrow> string list \<Rightarrow> capture_record list \<Rightarrow> parse_stats \<Rightarrow> capture_record list \<times> parse_stats" where
  "parse_records_loop json_of_line [] out stats = (out, stats)"
| "parse_records_loop json_of_line (l # ls) out stats =
    (let (rs, st) = parse_record_line json_of_line l in parse_records_loop json_of_line ls (out @ rs) (stats + st))"

definition parse_records :: "(string \<Rightarrow> json option) \<Rightarrow> string \<Rightarrow> capture_record list \<times> parse_stats" where
  "parse_records json_of_line input = parse_records_loop json_of_line (str_lines input) [] (ParseStats 0 0)"

definition USIZE_MAX :: nat where "USIZE_MAX = 2 ^ 64 - 1"

fun load_loop ::
    "(string \<Rightarrow> json option) \<Rightarrow> nat \<Rightarrow> string list \<Rightarrow> norm_event list \<Rightarrow> load_counts \<Rightarrow> norm_event list \<times> load_counts" where
  "load_loop json_of_line hard [] trace counts = (trace, counts)"
| "load_loop json_of_line hard (line # ls) trace counts =
    (if hard \<le> length trace then (trace, counts)
     else if trim line = [] then load_loop json_of_line hard ls trace counts
     else case classify_trace_line json_of_line line of
       Event ev \<Rightarrow> load_loop json_of_line hard ls (trace @ [ev]) counts
     | OperationDropped \<Rightarrow> load_loop json_of_line hard ls trace (counts + LoadCounts 1 1 0)
     | OtherRecord \<Rightarrow> load_loop json_of_line hard ls trace (counts + LoadCounts 1 0 1)
     | Unusable \<Rightarrow> load_loop json_of_line hard ls trace (counts + LoadCounts 1 0 0))"

definition load_trace_counted :: "(string \<Rightarrow> json option) \<Rightarrow> string \<Rightarrow> nat \<Rightarrow> norm_event list \<times> load_counts" where
  "load_trace_counted json_of_line input limit =
    (let hard = (if limit = 0 then USIZE_MAX else min (limit + 1) USIZE_MAX) in
     load_loop json_of_line hard (str_lines input) [] (LoadCounts 0 0 0))"

text \<open>The readers of \<open>doctor\<close>, \<open>advise\<close> and \<open>scorecard\<close>, and the reader of \<open>analyze\<close>.\<close>

definition stream_records :: "(string \<Rightarrow> json option) \<Rightarrow> 'e fill list \<Rightarrow> 'e + capture_record list \<times> parse_stats" where
  "stream_records json_of_line r = stream_lines (parse_records json_of_line) (ParseStats 1 0) r"

definition read_trace :: "(string \<Rightarrow> json option) \<Rightarrow> nat \<Rightarrow> 'e fill list \<Rightarrow> 'e + norm_event list \<times> load_counts" where
  "read_trace json_of_line max_events r =
    (let hard = (if max_events = 0 then USIZE_MAX else min (max_events + 1) USIZE_MAX) in
     stream_bounded hard (\<lambda>batch. load_trace_counted json_of_line batch 0) (LoadCounts 1 0 0) r)"

section \<open>The lines of a reader\<close>

text \<open>The bytes a reader gives before it fails or ends, the failure, and the lines: a last line without its
  terminator counts unless the reader failed inside it.\<close>

fun content :: "'e fill list \<Rightarrow> u8 list" where
  "content [] = []"
| "content (Chunk c # r) = c @ content r"
| "content (Interrupted # r) = content r"
| "content (Broken e # r) = []"

fun failure :: "'e fill list \<Rightarrow> 'e option" where
  "failure [] = None"
| "failure (Chunk c # r) = failure r"
| "failure (Interrupted # r) = failure r"
| "failure (Broken e # r) = Some e"

definition steady :: "'e fill list \<Rightarrow> bool" where
  "steady r \<longleftrightarrow> list_all (\<lambda>f. f \<noteq> Chunk []) r"

fun pieces :: "u8 list \<Rightarrow> u8 list list" where
  "pieces [] = [[]]"
| "pieces (b # bs) =
    (if b = 0x0A then [] # pieces bs else (b # hd (pieces bs)) # tl (pieces bs))"

definition byte_lines :: "bool \<Rightarrow> u8 list \<Rightarrow> u8 list list" where
  "byte_lines ended bs =
    (let ps = pieces bs in butlast ps @ (if ended \<and> last ps \<noteq> [] then [last ps] else []))"

definition reader_lines :: "'e fill list \<Rightarrow> u8 list list" where
  "reader_lines r = byte_lines (failure r = None) (content r)"

lemma steady_simps [simp]: "steady []" "steady (f # r) \<longleftrightarrow> f \<noteq> Chunk [] \<and> steady r"
  by (simp_all add: steady_def)

lemma pieces_nonempty [simp]: "pieces bs \<noteq> []"
  by (cases bs) simp_all

lemma pieces_line: "0x0A \<notin> set l \<Longrightarrow> pieces (l @ 0x0A # bs) = l # pieces bs"
  by (induction l) auto

lemma pieces_last: "0x0A \<notin> set l \<Longrightarrow> pieces l = [l]"
  by (induction l) auto

lemma byte_lines_line: "0x0A \<notin> set l \<Longrightarrow> byte_lines ended (l @ 0x0A # bs) = l # byte_lines ended bs"
  by (simp add: byte_lines_def Let_def pieces_line)

lemma byte_lines_last: "0x0A \<notin> set l \<Longrightarrow> byte_lines ended l = (if ended \<and> l \<noteq> [] then [l] else [])"
  by (simp add: byte_lines_def pieces_last)

section \<open>One line\<close>

lemma position_None: "position P xs = None \<longleftrightarrow> list_all (\<lambda>x. \<not> P x) xs"
  by (induction xs) auto

lemma kept_append: "kept mx (over \<or> mx < length buf + length c) (kept mx over buf c) d = kept mx over buf (c @ d)"
  by (simp add: kept_def)

lemma over_append:
  "(over \<or> mx < length buf + length c) \<or> mx < length (kept mx over buf c) + length d
    \<longleftrightarrow> over \<or> mx < length buf + length (c @ d)"
  by (auto simp: kept_def)

lemma length_kept: "length buf \<le> mx \<Longrightarrow> length (kept mx over buf c) \<le> mx"
  by (simp add: kept_def)

lemma first_newline:
  "(b :: u8) \<notin> set xs \<Longrightarrow> b \<notin> set ys \<Longrightarrow> xs @ b # u = ys @ b # v \<longleftrightarrow> xs = ys \<and> u = v"
proof (induction xs arbitrary: ys)
  case Nil
  then show ?case by (cases ys) auto
next
  case (Cons x xs)
  then show ?case by (cases ys) auto
qed

lemma newline_split:
  assumes "c @ d = l @ (0x0A :: u8) # rest" and "0x0A \<notin> set l"
  obtains (before) l2 where "0x0A \<notin> set c" "l = c @ l2" "d = l2 @ 0x0A # rest"
    | (inside) c2 where "c = l @ 0x0A # c2" "rest = c2 @ d"
proof (cases "0x0A \<in> set c")
  case True
  then obtain c1 c2 where c: "c = c1 @ 0x0A # c2" "0x0A \<notin> set c1" by (meson split_list_first)
  with assms have "c1 = l \<and> c2 @ d = rest" using first_newline [of "0x0A" c1 l "c2 @ d" rest] by simp
  with c show thesis using inside by auto
next
  case False
  with assms obtain l2 where "l = c @ l2 \<and> d = l2 @ 0x0A # rest"
    by (auto simp: append_eq_append_conv2 append_eq_Cons_conv)
  with False show thesis using before by auto
qed

lemma position_newline: "0x0A \<notin> set l \<Longrightarrow> position (\<lambda>b. b = (0x0A :: u8)) (l @ 0x0A # c) = Some (length l)"
  by (induction l) auto

lemma read_line_loop_line:
  "steady r \<Longrightarrow> content r = l @ 0x0A # rest \<Longrightarrow> 0x0A \<notin> set l \<Longrightarrow> length buf \<le> mx \<Longrightarrow>
    \<exists>r'. read_line_loop mx over ra buf r = (Inr (Some (over \<or> mx < length buf + length l)), kept mx over buf l, r')
      \<and> steady r' \<and> content r' = rest \<and> failure r' = failure r"
proof (induction r arbitrary: over ra buf l)
  case (Cons f r)
  show ?case
  proof (cases f)
    case (Chunk c)
    with Cons.prems have c: "c \<noteq> []" and st: "steady r" and eq: "c @ content r = l @ 0x0A # rest" by auto
    from eq Cons.prems(3) show ?thesis
    proof (cases rule: newline_split)
      case (before l2)
      then have "position (\<lambda>b. b = 0x0A) c = None" by (auto simp: position_None list_all_iff)
      note step = read_line_loop_Chunk(1) [OF c this, of mx over ra buf r]
      from Cons.IH [OF st before(3), of "kept mx over buf c" "over \<or> mx < length buf + length c" True]
      show ?thesis using Cons.prems(3,4) before(2)
        by (simp add: Chunk step kept_append length_kept over_append [simplified])
    next
      case (inside c2)
      with position_newline Cons.prems(3) have "position (\<lambda>b. b = 0x0A) c = Some (length l)" by simp
      note step = read_line_loop_Chunk(2) [OF c this, of mx over ra buf r]
      from st show ?thesis by (simp add: Chunk step, simp add: inside consume_def)
    qed
  qed (use Cons in auto)
qed simp

lemma read_line_loop_end:
  "steady r \<Longrightarrow> 0x0A \<notin> set (content r) \<Longrightarrow> length buf \<le> mx \<Longrightarrow>
    (case failure r of
       Some e \<Rightarrow> fst (read_line_loop mx over ra buf r) = Inl e
     | None \<Rightarrow> read_line_loop mx over ra buf r =
        (Inr (if ra \<or> content r \<noteq> [] then Some (over \<or> mx < length buf + length (content r)) else None),
         kept mx over buf (content r), []))"
proof (induction r arbitrary: over ra buf)
  case Nil
  then show ?case by (auto simp: kept_def)
next
  case (Cons f r)
  show ?case
  proof (cases f)
    case (Chunk c)
    with Cons.prems have c: "c \<noteq> []" and st: "steady r" "0x0A \<notin> set (content r)" by auto
    from Cons.prems Chunk have "position (\<lambda>b. b = 0x0A) c = None" by (auto simp: position_None list_all_iff)
    note step = read_line_loop_Chunk(1) [OF c this, of mx over ra buf r]
    from Cons.IH [OF st, of "kept mx over buf c" "over \<or> mx < length buf + length c" True]
    show ?thesis using Cons.prems(3) c
      by (simp add: Chunk step kept_append length_kept over_append [simplified] split: option.splits)
  next
    case Interrupted
    from Cons.prems have "steady r" "0x0A \<notin> set (content r)" "length buf \<le> mx" by (simp_all add: Interrupted)
    from Cons.IH [OF this, of over ra] show ?thesis by (cases "failure r") (simp_all add: Interrupted)
  qed (use Cons in simp)
qed

section \<open>A parser that judges each line alone\<close>

text \<open>
  What the two readers need of a parser: the text of one line and the rest of a batch are judged
  independently. A text is no longer than Rust allows a string to be.
\<close>

definition MAX_STR :: nat where "MAX_STR = 2 ^ 63 - 1"

definition unlines :: "string list \<Rightarrow> string" where
  "unlines ls = concat (map (\<lambda>l. l @ [CHR 0x0A]) ls)"

definition judge_line :: "(string \<Rightarrow> 'r list \<times> 'c) \<Rightarrow> 'c \<Rightarrow> u8 list \<Rightarrow> 'r list \<times> 'c::comm_monoid_add" where
  "judge_line parse bad line =
    (if MAX_INPUT_LINE < length line then ([], bad)
     else case from_utf8 line of None \<Rightarrow> ([], bad) | Some s \<Rightarrow> parse (s @ [CHR 0x0A]))"

definition judge_lines :: "('l \<Rightarrow> 'r list \<times> 'c) \<Rightarrow> 'l list \<Rightarrow> 'r list \<times> 'c::comm_monoid_add" where
  "judge_lines judge ls = (concat (map (fst \<circ> judge) ls), sum_list (map (snd \<circ> judge) ls))"

lemma judge_lines_simps [simp]:
  "judge_lines judge [] = ([], 0)"
  "judge_lines judge (l # ls) = (fst (judge l) @ fst (judge_lines judge ls), snd (judge l) + snd (judge_lines judge ls))"
  by (simp_all add: judge_lines_def)

lemma judge_lines_append:
  "judge_lines judge (ls @ ls') =
    (fst (judge_lines judge ls) @ fst (judge_lines judge ls'), snd (judge_lines judge ls) + snd (judge_lines judge ls'))"
  by (induction ls) (simp_all add: add.assoc)

lemma unlines_simps [simp]: "unlines [] = []" "unlines (l # ls) = l @ CHR 0x0A # unlines ls" "unlines (ls @ ls') = unlines ls @ unlines ls'"
  by (simp_all add: unlines_def)

lemma unlines_eq_Nil [simp]: "unlines ls = [] \<longleftrightarrow> ls = []"
  by (cases ls) simp_all

lemma read_line_line:
  assumes "steady r" and "content r = l @ 0x0A # rest" and "0x0A \<notin> set l"
  obtains r' where "read_line_capped mx r = (Inr (Some (mx < length l)), (if mx < length l then [] else l), r')"
    "steady r'" "content r' = rest" "failure r' = failure r"
  using read_line_loop_line [OF assms, of "[]" mx False False] by (auto simp: read_line_capped_def kept_def)

lemma read_line_end:
  assumes "steady r" and "0x0A \<notin> set (content r)"
  shows "failure r = Some e \<Longrightarrow> fst (read_line_capped mx r) = Inl e"
    and "failure r = None \<Longrightarrow> read_line_capped mx r =
      (Inr (if content r \<noteq> [] then Some (mx < length (content r)) else None),
       (if mx < length (content r) then [] else content r), [])"
  using read_line_loop_end [OF assms, of "[]" mx False False] by (auto simp: read_line_capped_def kept_def)

text \<open>The next line of a reader, and what is left: the step both readers take.\<close>

lemma reader_cases:
  assumes "steady r"
  obtains (line) l r' where "reader_lines r = l # reader_lines r'" "failure r' = failure r" "steady r'" "0x0A \<notin> set l"
      "reader_size r' < reader_size r"
      "read_line_capped MAX_INPUT_LINE r = (Inr (Some (MAX_INPUT_LINE < length l)), (if MAX_INPUT_LINE < length l then [] else l), r')"
  | (at_end) "reader_lines r = []" "failure r = None" "fst (read_line_capped MAX_INPUT_LINE r) = Inr None"
  | (failed) e where "reader_lines r = []" "failure r = Some e" "fst (read_line_capped MAX_INPUT_LINE r) = Inl e"
proof (cases "0x0A \<in> set (content r)")
  case True
  then obtain l rest where c: "content r = l @ 0x0A # rest" "0x0A \<notin> set l" by (meson split_list_first)
  from read_line_line [OF assms this, of MAX_INPUT_LINE] obtain r' where
    r': "read_line_capped MAX_INPUT_LINE r = (Inr (Some (MAX_INPUT_LINE < length l)), (if MAX_INPUT_LINE < length l then [] else l), r')"
      "steady r'" "content r' = rest" "failure r' = failure r" .
  with c have "reader_lines r = l # reader_lines r'" by (simp add: reader_lines_def byte_lines_line)
  from line [OF this r'(4,2) c(2) read_line_shrinks [OF r'(1)] r'(1)] show thesis .
next
  case False
  note ends = read_line_end [OF assms this]
  have lines: "reader_lines r = (if failure r = None \<and> content r \<noteq> [] then [content r] else [])"
    using False by (simp add: reader_lines_def byte_lines_last)
  show thesis
  proof (cases "failure r")
    case (Some e)
    with ends(1) lines failed show thesis by auto
  next
    case None
    show thesis
    proof (cases "content r = []")
      case True
      with None ends(2) [of MAX_INPUT_LINE] lines show thesis by (auto intro: at_end)
    next
      case c: False
      note step = ends(2) [OF None, of MAX_INPUT_LINE]
      then have "reader_size ([] :: 'a fill list) < reader_size r" using c by (auto dest: read_line_shrinks)
      with step c None lines line [of "content r" "[]"] False show thesis
        by (simp add: reader_lines_def byte_lines_last)
    qed
  qed
qed

text \<open>The reference for a bounded reader: one line at a time, until there are enough items.\<close>

fun lines_until :: "nat \<Rightarrow> ('l \<Rightarrow> 'r list \<times> 'c) \<Rightarrow> 'e option \<Rightarrow> 'l list \<Rightarrow> 'r list \<Rightarrow> 'c \<Rightarrow> 'e + 'r list \<times> 'c::comm_monoid_add" where
  "lines_until hard judge err [] items n =
    (if hard \<le> length items then Inr (items, n) else case err of Some e \<Rightarrow> Inl e | None \<Rightarrow> Inr (items, n))"
| "lines_until hard judge err (l # ls) items n =
    (if hard \<le> length items then Inr (items, n)
     else lines_until hard judge err ls (items @ fst (judge l)) (n + snd (judge l)))"

lemma lines_until_full [simp]: "hard \<le> length items \<Longrightarrow> lines_until hard judge err ls items n = Inr (items, n)"
  by (cases ls) simp_all

lemma lines_until_exact:
  assumes "\<And>l. length (fst (judge l)) \<le> 1"
  shows "lines_until hard judge err ls items n = Inr (xs, m) \<Longrightarrow> length items \<le> hard \<Longrightarrow>
    xs = take hard (items @ concat (map (fst \<circ> judge) ls))"
proof (induction ls arbitrary: items n)
  case Nil
  then show ?case by (auto split: if_splits option.splits)
next
  case (Cons l ls)
  show ?case
  proof (cases "hard \<le> length items")
    case True
    with Cons.prems show ?thesis by simp
  next
    case False
    with assms [of l] have "length (items @ fst (judge l)) \<le> hard" by simp
    from Cons.IH [OF _ this] Cons.prems False show ?thesis by simp
  qed
qed

lemma from_utf8_newline:
  assumes "from_utf8 l = Some s" and "0x0A \<notin> set l"
  shows "CHR 0x0A \<notin> set s \<and> length s = length l"
proof -
  have s: "s = map chr_of l" using assms(1) by (simp add: from_utf8_def split: if_splits)
  have "CHR 0x0A \<noteq> chr_of b" if "b \<in> set l" for b
  proof
    assume "CHR 0x0A = chr_of b"
    then have "byte_of (CHR 0x0A) = b" by simp
    then have "b = 0x0A" by (simp add: byte_of_def)
    with that assms(2) show False by simp
  qed
  with s show ?thesis by auto
qed

locale line_judge =
  fixes parse :: "string \<Rightarrow> 'r list \<times> 'c::comm_monoid_add"
  assumes parse_nil: "parse [] = ([], 0)"
    and parse_line: "CHR 0x0A \<notin> set l \<Longrightarrow> length l + length s < MAX_STR \<Longrightarrow>
      parse (l @ CHR 0x0A # s) =
        (fst (parse (l @ [CHR 0x0A])) @ fst (parse s), snd (parse (l @ [CHR 0x0A])) + snd (parse s))"
begin

lemma parse_unlines:
  "list_all (\<lambda>l. CHR 0x0A \<notin> set l) ls \<Longrightarrow> length (unlines ls) \<le> MAX_STR \<Longrightarrow>
    parse (unlines ls) = judge_lines (\<lambda>l. parse (l @ [CHR 0x0A])) ls"
proof (induction ls)
  case (Cons l ls)
  then have "parse (unlines ls) = judge_lines (\<lambda>l. parse (l @ [CHR 0x0A])) ls" by simp
  with parse_line [of l "unlines ls"] Cons.prems show ?case by simp
qed (simp add: parse_nil)

lemma flush_unlines:
  "list_all (\<lambda>l. CHR 0x0A \<notin> set l) ls \<Longrightarrow> length (unlines ls) \<le> MAX_STR \<Longrightarrow>
    flush_batch parse (unlines ls) records n =
      (records @ fst (judge_lines (\<lambda>l. parse (l @ [CHR 0x0A])) ls), n + snd (judge_lines (\<lambda>l. parse (l @ [CHR 0x0A])) ls))"
  using parse_unlines [of ls] by (cases ls) (simp_all add: flush_batch_def)

lemma batch_room:
  assumes "list_all (\<lambda>l. CHR 0x0A \<notin> set l) pend" and "length (unlines pend) < PARSE_BATCH_BYTES"
    and "from_utf8 l = Some s" and "0x0A \<notin> set l" and "length l \<le> MAX_INPUT_LINE"
  shows "list_all (\<lambda>l. CHR 0x0A \<notin> set l) (pend @ [s]) \<and> length (unlines (pend @ [s])) \<le> MAX_STR"
  using from_utf8_newline [OF assms(3,4)] assms by (simp add: MAX_INPUT_LINE_def PARSE_BATCH_BYTES_def MAX_STR_def)

lemma stream_loop_lines:
  "steady r \<Longrightarrow> list_all (\<lambda>l. CHR 0x0A \<notin> set l) pend \<Longrightarrow> length (unlines pend) < PARSE_BATCH_BYTES \<Longrightarrow>
    stream_loop parse bad r (unlines pend) records n =
      (case failure r of
         Some e \<Rightarrow> Inl e
       | None \<Rightarrow> Inr (records @ fst (judge_lines (\<lambda>l. parse (l @ [CHR 0x0A])) pend) @ fst (judge_lines (judge_line parse bad) (reader_lines r)),
           n + snd (judge_lines (\<lambda>l. parse (l @ [CHR 0x0A])) pend) + snd (judge_lines (judge_line parse bad) (reader_lines r))))"
proof (induction "reader_size r" arbitrary: r pend records n rule: less_induct)
  case less
  let ?J = "judge_lines (\<lambda>l. parse (l @ [CHR 0x0A]))"
  have fits: "length (unlines pend) \<le> MAX_STR" using less.prems(3) by (simp add: PARSE_BATCH_BYTES_def MAX_STR_def)
  from less.prems(1) show ?case
  proof (cases rule: reader_cases)
    case (line l r')
    note IH = less.hyps [OF line(5,3)]
    show ?thesis
    proof (cases "MAX_INPUT_LINE < length l \<or> from_utf8 l = None")
      case True
      then have j: "judge_line parse bad l = ([], bad)" by (auto simp: judge_line_def)
      from True have "stream_loop parse bad r (unlines pend) records n = stream_loop parse bad r' (unlines pend) records (n + bad)"
        by (subst stream_loop.simps) (auto simp: line(6))
      with IH [OF less.prems(2,3)] j show ?thesis by (cases "failure r") (simp_all add: line(1,2) ac_simps)
    next
      case False
      then obtain s where s: "from_utf8 l = Some s" "length l \<le> MAX_INPUT_LINE" by auto
      then have j: "judge_line parse bad l = parse (s @ [CHR 0x0A])" by (simp add: judge_line_def)
      from batch_room [OF less.prems(2,3) s(1) line(4) s(2)]
      have room: "list_all (\<lambda>l. CHR 0x0A \<notin> set l) (pend @ [s])" "length (unlines (pend @ [s])) \<le> MAX_STR" by simp_all
      have un: "unlines pend @ s @ [CHR 0x0A] = unlines (pend @ [s])" by simp
      show ?thesis
      proof (cases "PARSE_BATCH_BYTES \<le> length (unlines (pend @ [s]))")
        case True
        then have "stream_loop parse bad r (unlines pend) records n =
            stream_loop parse bad r' (unlines []) (records @ fst (?J (pend @ [s]))) (n + snd (?J (pend @ [s])))"
          using s flush_unlines [OF room, of records n]
          by (subst stream_loop.simps) (simp add: line(6) Let_def un del: unlines_simps(2,3))
        with IH [of "[]"] j show ?thesis
          by (cases "failure r") (simp_all add: line(1,2) judge_lines_append PARSE_BATCH_BYTES_def ac_simps)
      next
        case False
        then have "stream_loop parse bad r (unlines pend) records n = stream_loop parse bad r' (unlines (pend @ [s])) records n"
          using s by (subst stream_loop.simps) (simp add: line(6) Let_def un del: unlines_simps(2,3))
        with IH [OF room(1)] False j show ?thesis
          by (cases "failure r") (simp_all add: line(1,2) judge_lines_append ac_simps del: unlines_simps(2,3))
      qed
    qed
  next
    case at_end
    then have "stream_loop parse bad r (unlines pend) records n = Inr (flush_batch parse (unlines pend) records n)"
      by (subst stream_loop.simps) (auto split: prod.split)
    with flush_unlines [OF less.prems(2) fits] at_end show ?thesis by simp
  next
    case (failed e)
    then show ?thesis by (subst stream_loop.simps) (auto split: prod.split)
  qed
qed

lemma stream_lines_judged:
  "steady r \<Longrightarrow> stream_lines parse bad r =
    (case failure r of Some e \<Rightarrow> Inl e | None \<Rightarrow> Inr (judge_lines (judge_line parse bad) (reader_lines r)))"
  using stream_loop_lines [of r "[]" bad "[]" 0] by (simp add: stream_lines_def PARSE_BATCH_BYTES_def split: option.splits)

end

locale bounded_judge = line_judge parse for parse :: "string \<Rightarrow> 'r list \<times> 'c::comm_monoid_add" +
  assumes at_most_one: "CHR 0x0A \<notin> set l \<Longrightarrow> length l < MAX_STR \<Longrightarrow> length (fst (parse (l @ [CHR 0x0A]))) \<le> 1"
begin

lemma at_most_each:
  "list_all (\<lambda>l. CHR 0x0A \<notin> set l) ls \<Longrightarrow> length (unlines ls) \<le> MAX_STR \<Longrightarrow>
    length (fst (judge_lines (\<lambda>l. parse (l @ [CHR 0x0A])) ls)) \<le> length ls"
proof (induction ls)
  case (Cons l ls)
  with at_most_one [of l] show ?case by fastforce
qed simp

lemma bounded_loop_lines:
  "steady r \<Longrightarrow> list_all (\<lambda>l. CHR 0x0A \<notin> set l) pend \<Longrightarrow> length (unlines pend) < PARSE_BATCH_BYTES \<Longrightarrow>
    pend = [] \<or> length items + length pend < hard \<Longrightarrow>
    bounded_loop hard parse one r (unlines pend) (length pend) items n =
      lines_until hard (judge_line parse one) (failure r) (reader_lines r)
        (items @ fst (judge_lines (\<lambda>l. parse (l @ [CHR 0x0A])) pend)) (n + snd (judge_lines (\<lambda>l. parse (l @ [CHR 0x0A])) pend))"
proof (induction "reader_size r" arbitrary: r pend items n rule: less_induct)
  case less
  let ?J = "judge_lines (\<lambda>l. parse (l @ [CHR 0x0A]))"
  have fits: "length (unlines pend) \<le> MAX_STR" using less.prems(3) by (simp add: PARSE_BATCH_BYTES_def MAX_STR_def)
  show ?case
  proof (cases "hard \<le> length items")
    case True
    with less.prems(4) have "pend = []" by auto
    with True show ?thesis by (simp add: bounded_loop.simps [of hard] flush_batch_def)
  next
    case more: False
    with at_most_each [OF less.prems(2) fits] less.prems(4) have few: "\<not> hard \<le> length (items @ fst (?J pend))" by auto
    from less.prems(1) show ?thesis
    proof (cases rule: reader_cases)
      case (line l r')
      note IH = less.hyps [OF line(5,3)]
      show ?thesis
      proof (cases "MAX_INPUT_LINE < length l \<or> from_utf8 l = None")
        case True
        then have j: "judge_line parse one l = ([], one)" by (auto simp: judge_line_def)
        from True more have "bounded_loop hard parse one r (unlines pend) (length pend) items n =
            bounded_loop hard parse one r' (unlines pend) (length pend) items (n + one)"
          by (subst bounded_loop.simps) (auto simp: line(6))
        with IH [OF less.prems(2-4)] j few show ?thesis by (simp add: line(1,2) ac_simps)
      next
        case False
        then obtain s where s: "from_utf8 l = Some s" "length l \<le> MAX_INPUT_LINE" by auto
        then have j: "judge_line parse one l = parse (s @ [CHR 0x0A])" by (simp add: judge_line_def)
        from batch_room [OF less.prems(2,3) s(1) line(4) s(2)]
        have room: "list_all (\<lambda>l. CHR 0x0A \<notin> set l) (pend @ [s])" "length (unlines (pend @ [s])) \<le> MAX_STR" by simp_all
        have un: "unlines pend @ s @ [CHR 0x0A] = unlines (pend @ [s])" by simp
        show ?thesis
        proof (cases "hard - length items \<le> length (pend @ [s]) \<or> PARSE_BATCH_BYTES \<le> length (unlines (pend @ [s]))")
          case True
          then have "bounded_loop hard parse one r (unlines pend) (length pend) items n =
              bounded_loop hard parse one r' (unlines []) (length ([] :: string list)) (items @ fst (?J (pend @ [s]))) (n + snd (?J (pend @ [s])))"
            using s more parse_unlines [OF room]
            by (subst bounded_loop.simps) (simp add: line(6) Let_def un del: unlines_simps(2,3) split: prod.split)
          with IH [of "[]"] j few show ?thesis
            by (simp add: line(1,2) judge_lines_append PARSE_BATCH_BYTES_def ac_simps)
        next
          case False
          then have "bounded_loop hard parse one r (unlines pend) (length pend) items n =
              bounded_loop hard parse one r' (unlines (pend @ [s])) (length (pend @ [s])) items n"
            using s more by (subst bounded_loop.simps) (simp add: line(6) Let_def un del: unlines_simps(2,3))
          moreover from False have "length items + length (pend @ [s]) < hard" "length (unlines (pend @ [s])) < PARSE_BATCH_BYTES" by auto
          note IH [OF room(1) this(2) disjI2 [OF this(1)], of n]
          ultimately show ?thesis using j few
            by (simp add: line(1,2) judge_lines_append ac_simps del: unlines_simps(2,3))
        qed
      qed
    next
      case at_end
      then have "bounded_loop hard parse one r (unlines pend) (length pend) items n = Inr (flush_batch parse (unlines pend) items n)"
        using more by (subst bounded_loop.simps) (auto split: prod.split)
      with flush_unlines [OF less.prems(2) fits] at_end few show ?thesis by simp
    next
      case (failed e)
      then show ?thesis using few more by (subst bounded_loop.simps) (auto split: prod.split)
    qed
  qed
qed

lemma stream_bounded_lines:
  "steady r \<Longrightarrow> stream_bounded hard parse one r = lines_until hard (judge_line parse one) (failure r) (reader_lines r) [] 0"
  using bounded_loop_lines [of r "[]" "[]" hard one 0] by (simp add: stream_bounded_def PARSE_BATCH_BYTES_def)

end

section \<open>The parsers judge each line alone\<close>

lemma str_lines_Nil [simp]: "str_lines [] = []"
  by (simp add: str_lines_def)

lemma str_lines_line:
  assumes "CHR 0x0A \<notin> set l"
  shows "str_lines (l @ CHR 0x0A # s) = str_lines (l @ [CHR 0x0A]) @ str_lines s"
  using assms by (simp add: str_lines_def Let_def concat_split_char)

lemma str_lines_one:
  assumes "CHR 0x0A \<notin> set l"
  shows "\<exists>l'. str_lines (l @ [CHR 0x0A]) = [l']"
  using assms by (simp add: str_lines_def Let_def concat_split_char)

lemma length_str_lines: "length (str_lines s) \<le> Suc (length s)"
proof -
  have "length (split_char c t) \<le> Suc (length t)" for c t
    by (induction t) (auto split: list.split)
  from this [of "CHR 0x0A" s] show ?thesis by (auto simp: str_lines_def Let_def)
qed

lemma parse_records_loop_judge:
  "parse_records_loop j ls out n = (out @ fst (judge_lines (parse_record_line j) ls), n + snd (judge_lines (parse_record_line j) ls))"
  by (induction ls arbitrary: out n) (simp_all add: Let_def split_beta add.assoc)

lemma parse_records_judge: "parse_records j s = judge_lines (parse_record_line j) (str_lines s)"
  by (simp add: parse_records_def parse_records_loop_judge zero_parse_stats_def [symmetric])

definition count_line :: "(string \<Rightarrow> json option) \<Rightarrow> string \<Rightarrow> norm_event list \<times> load_counts" where
  "count_line j line =
    (if trim line = [] then ([], 0)
     else case classify_trace_line j line of
       Event ev \<Rightarrow> ([ev], 0)
     | OperationDropped \<Rightarrow> ([], LoadCounts 1 1 0)
     | OtherRecord \<Rightarrow> ([], LoadCounts 1 0 1)
     | Unusable \<Rightarrow> ([], LoadCounts 1 0 0))"

lemma load_loop_until:
  "load_loop j hard ls trace n = projr (lines_until hard (count_line j) (None :: unit option) ls trace n)"
  by (induction ls arbitrary: trace n) (auto simp: count_line_def split: line_outcome.split)

lemma lines_until_room:
  "length items + length ls < hard \<Longrightarrow> (\<And>l. length (fst (judge l)) \<le> 1) \<Longrightarrow>
    lines_until hard judge None ls items n = Inr (items @ fst (judge_lines judge ls), n + snd (judge_lines judge ls))"
proof (induction ls arbitrary: items n)
  case (Cons l ls)
  have "length (items @ fst (judge l)) + length ls < hard" using Cons.prems(1) Cons.prems(2) [of l] by simp
  from Cons.IH [OF this Cons.prems(2)] Cons.prems(1) show ?case by (simp add: add.assoc)
qed simp

lemma count_line_one: "length (fst (count_line j l)) \<le> 1"
  by (simp add: count_line_def split: line_outcome.split)

lemma load_trace_judge:
  assumes "length s \<le> MAX_STR"
  shows "load_trace_counted j s 0 = judge_lines (count_line j) (str_lines s)"
proof -
  have "length ([] :: norm_event list) + length (str_lines s) < USIZE_MAX"
    using assms length_str_lines [of s] by (simp add: MAX_STR_def USIZE_MAX_def)
  from lines_until_room [OF this, of "count_line j" 0, OF count_line_one]
  have "lines_until USIZE_MAX (count_line j) (None :: unit option) (str_lines s) [] 0 = Inr (judge_lines (count_line j) (str_lines s))"
    by simp
  then show ?thesis
    by (simp add: load_trace_counted_def load_loop_until zero_load_counts_def [symmetric])
qed

interpretation records: line_judge "parse_records j" for j
proof unfold_locales
  fix l s :: string
  assume "CHR 0x0A \<notin> set l"
  from str_lines_line [OF this, of s] show "parse_records j (l @ CHR 0x0A # s) =
      (fst (parse_records j (l @ [CHR 0x0A])) @ fst (parse_records j s),
       snd (parse_records j (l @ [CHR 0x0A])) + snd (parse_records j s))"
    by (simp add: parse_records_judge judge_lines_append)
qed (simp add: parse_records_judge)

interpretation trace: bounded_judge "\<lambda>s. load_trace_counted j s 0" for j
proof unfold_locales
  fix l s :: string
  assume l: "CHR 0x0A \<notin> set l" "length l + length s < MAX_STR"
  then show "load_trace_counted j (l @ CHR 0x0A # s) 0 =
      (fst (load_trace_counted j (l @ [CHR 0x0A]) 0) @ fst (load_trace_counted j s 0),
       snd (load_trace_counted j (l @ [CHR 0x0A]) 0) + snd (load_trace_counted j s 0))"
    by (simp add: load_trace_judge str_lines_line [OF l(1), of s] judge_lines_append)
next
  fix l :: string
  assume l: "CHR 0x0A \<notin> set l" "length l < MAX_STR"
  with str_lines_one count_line_one show "length (fst (load_trace_counted j (l @ [CHR 0x0A]) 0)) \<le> 1"
    by (metis (no_types) One_nat_def Suc_leI append_Nil2 fst_conv judge_lines_simps length_append_singleton load_trace_judge)
qed (simp add: load_trace_judge)

section \<open>The readers are exact\<close>

text \<open>
  A line by itself, as the reference: over-long and ill-formed lines are bad, and any other is judged
  without its carriage return.
\<close>

definition chomp :: "string \<Rightarrow> string" where
  "chomp s = (case strip_suffix [CHR 0x0D] s of Some l \<Rightarrow> l | None \<Rightarrow> s)"

definition usable_line :: "u8 list \<Rightarrow> string option" where
  "usable_line line = (if MAX_INPUT_LINE < length line then None else map_option chomp (from_utf8 line))"

definition capture_line :: "(string \<Rightarrow> json option) \<Rightarrow> u8 list \<Rightarrow> capture_record list \<times> parse_stats" where
  "capture_line j line = (case usable_line line of None \<Rightarrow> ([], ParseStats 1 0) | Some s \<Rightarrow> parse_record_line j s)"

definition trace_line :: "(string \<Rightarrow> json option) \<Rightarrow> u8 list \<Rightarrow> norm_event list \<times> load_counts" where
  "trace_line j line = (case usable_line line of None \<Rightarrow> ([], LoadCounts 1 0 0) | Some s \<Rightarrow> count_line j s)"

lemma str_lines_chomp: "CHR 0x0A \<notin> set s \<Longrightarrow> str_lines (s @ [CHR 0x0A]) = [chomp s]"
  by (simp add: str_lines_def Let_def concat_split_char chomp_def)

lemma judge_capture: "0x0A \<notin> set l \<Longrightarrow> judge_line (parse_records j) (ParseStats 1 0) l = capture_line j l"
  by (auto simp: judge_line_def capture_line_def usable_line_def parse_records_judge str_lines_chomp
      dest: from_utf8_newline split: option.split)

lemma judge_trace:
  assumes "0x0A \<notin> set l"
  shows "judge_line (\<lambda>s. load_trace_counted j s 0) (LoadCounts 1 0 0) l = trace_line j l"
proof (cases "from_utf8 l")
  case None
  then show ?thesis by (simp add: judge_line_def trace_line_def usable_line_def)
next
  case (Some s)
  note nl = from_utf8_newline [OF Some assms]
  show ?thesis
  proof (cases "MAX_INPUT_LINE < length l")
    case True
    then show ?thesis by (simp add: judge_line_def trace_line_def usable_line_def)
  next
    case False
    with nl have "length (s @ [CHR 0x0A]) \<le> MAX_STR" by (simp add: MAX_INPUT_LINE_def MAX_STR_def)
    from load_trace_judge [OF this, of j] Some False nl show ?thesis
      by (simp add: judge_line_def trace_line_def usable_line_def str_lines_chomp)
  qed
qed

lemma set_pieces: "l \<in> set (pieces bs) \<Longrightarrow> 0x0A \<notin> set l"
proof (induction bs arbitrary: l)
  case (Cons b bs)
  obtain p ps where "pieces bs = p # ps" by (cases "pieces bs") auto
  with Cons show ?case by (auto split: if_splits)
qed simp

lemma set_reader_lines: "l \<in> set (reader_lines r) \<Longrightarrow> 0x0A \<notin> set l"
  using set_pieces [of l "content r"]
  by (auto simp: reader_lines_def byte_lines_def Let_def split: if_splits dest: in_set_butlastD)

lemma judge_lines_cong: "(\<And>l. l \<in> set ls \<Longrightarrow> f l = g l) \<Longrightarrow> judge_lines f ls = judge_lines g ls"
  by (induction ls) simp_all

lemma lines_until_cong:
  "(\<And>l. l \<in> set ls \<Longrightarrow> f l = g l) \<Longrightarrow> lines_until hard f err ls items n = lines_until hard g err ls items n"
  by (induction ls arbitrary: items n) simp_all

lemma trace_line_one: "length (fst (trace_line j l)) \<le> 1"
  using count_line_one by (simp add: trace_line_def split: option.split)

lemma stream_records_lines:
  assumes "steady r"
  shows "stream_records j r =
    (case failure r of Some e \<Rightarrow> Inl e | None \<Rightarrow> Inr (judge_lines (capture_line j) (reader_lines r)))"
proof -
  have "judge_lines (judge_line (parse_records j) (ParseStats 1 0)) (reader_lines r) = judge_lines (capture_line j) (reader_lines r)"
    by (rule judge_lines_cong) (rule judge_capture, rule set_reader_lines)
  with records.stream_lines_judged [OF assms, of j "ParseStats 1 0"] show ?thesis
    unfolding stream_records_def by (simp split: option.split)
qed

text \<open>C29: reading in batches changes nothing. Whatever the chunks a reader arrives in and wherever it is
  interrupted, \<open>stream_records\<close> gives what judging each line of its bytes alone gives, with the counters
  added up; the last line counts without a terminator, and a failure of the reader is the answer.\<close>

theorem stream_is_linewise:
  assumes "steady r"
  shows "stream_records j r =
    (case failure r of Some e \<Rightarrow> Inl e | None \<Rightarrow> Inr (judge_lines (capture_line j) (reader_lines r)))"
  using stream_records_lines [OF assms] .

text \<open>\<open>analyze\<close> stops at the line that fills its budget, one event past the requested maximum, and gives
  exactly the first events of the input; no line after it is read, and so none can fail.\<close>

theorem trace_stops_exactly:
  assumes "steady r"
  shows "read_trace j max_events r = lines_until (if max_events = 0 then USIZE_MAX else min (max_events + 1) USIZE_MAX)
      (trace_line j) (failure r) (reader_lines r) [] 0
    \<and> (case read_trace j max_events r of
         Inl e \<Rightarrow> failure r = Some e
       | Inr (xs, n) \<Rightarrow> xs = take (if max_events = 0 then USIZE_MAX else min (max_events + 1) USIZE_MAX)
           (concat (map (fst \<circ> trace_line j) (reader_lines r))))"
proof -
  let ?hard = "if max_events = 0 then USIZE_MAX else min (max_events + 1) USIZE_MAX"
  let ?ref = "\<lambda>ls items n. lines_until ?hard (trace_line j) (failure r) ls items n"
  have "lines_until ?hard (judge_line (\<lambda>s. load_trace_counted j s 0) (LoadCounts 1 0 0)) (failure r) (reader_lines r) [] 0 =
      ?ref (reader_lines r) [] 0"
    by (rule lines_until_cong) (rule judge_trace, rule set_reader_lines)
  with trace.stream_bounded_lines [OF assms, of ?hard j "LoadCounts 1 0 0"]
  have eq: "read_trace j max_events r = ?ref (reader_lines r) [] 0" by (simp add: read_trace_def)
  have err: "?ref ls items n = Inl e \<Longrightarrow> failure r = Some e" for ls items n e
    by (induction ls arbitrary: items n) (auto split: if_splits option.splits)
  show ?thesis
  proof (cases "?ref (reader_lines r) [] 0")
    case (Inl e)
    with eq err show ?thesis by simp
  next
    case (Inr p)
    obtain xs n where p: "p = (xs, n)" by (cases p)
    from lines_until_exact [of "trace_line j" ?hard "failure r" "reader_lines r" "[]" 0 xs n, OF trace_line_one] Inr p eq
    show ?thesis by simp
  qed
qed

section \<open>A capture is read back\<close>

definition value_fields :: "fields \<Rightarrow> fields" where
  "value_fields fs = last_members (map (map_prod id to_value) fs)"

lemma to_value_obj: "to_value (JObj fs) = JObj (value_fields fs)"
  by (simp add: value_fields_def)

lemma entries_last_members:
  "entries k (last_members fs) = (if entries k fs = [] then [] else [last (entries k fs)])"
proof (induction fs)
  case (Cons p fs)
  obtain k' v where "p = (k', v)" by (cases p)
  moreover have "entries k' fs \<noteq> [] \<longleftrightarrow> k' \<in> fst ` set fs" by (force simp: entries_def filter_empty_conv)
  ultimately show ?case using Cons by (auto simp: entries_def)
qed (simp add: entries_def)

lemma map_of_last_members: "map_of (last_members fs) k = (if entries k fs = [] then None else Some (last (entries k fs)))"
proof -
  have "entries k gs = [v] \<Longrightarrow> map_of gs k = Some v" for gs v
    by (induction gs) (auto simp: entries_def split: if_splits)
  moreover have "entries k gs = [] \<Longrightarrow> map_of gs k = None" for gs
    by (induction gs) (auto simp: entries_def split: if_splits)
  ultimately show ?thesis using entries_last_members [of k fs] by presburger
qed

lemma entries_map_value: "entries k (map (map_prod id f) fs) = map f (entries k fs)"
  by (induction fs) (auto simp: entries_def)

lemma entries_value: "length (entries k fs) \<le> 1 \<Longrightarrow> entries k (value_fields fs) = map to_value (entries k fs)"
  by (cases "entries k fs") (auto simp: value_fields_def entries_last_members entries_map_value)

lemma map_of_value: "entries k fs = [v] \<Longrightarrow> map_of (value_fields fs) k = Some (to_value v)"
  by (simp add: value_fields_def map_of_last_members entries_map_value)

lemma value_leaves:
  "to_value (json_of_word w) = json_of_word w"
  "to_value (json_of_opt e v) = json_of_opt (\<lambda>x. to_value (e x)) v"
  "to_value (u64_as_dec_string n) = u64_as_dec_string n"
  "to_value (opt_u64_as_dec_string m) = opt_u64_as_dec_string m"
  "to_value (json_of_delimitation d) = json_of_delimitation d"
  "map to_value (case x of None \<Rightarrow> [] | Some y \<Rightarrow> [g y]) = (case x of None \<Rightarrow> [] | Some y \<Rightarrow> [to_value (g y)])"
  "length (case x of None \<Rightarrow> [] | Some y \<Rightarrow> [g y]) \<le> Suc 0"
  "(case w' of None \<Rightarrow> Some None | Some y \<Rightarrow> opt_of_json word_of_json (to_value (json_of_word y))) = Some w'"
  "(case b of None \<Rightarrow> Some None | Some y \<Rightarrow> opt_of_json bool_of_json (to_value (JBool y))) = Some b"
  "(case s of None \<Rightarrow> Some None | Some y \<Rightarrow> opt_of_json string_of_json (to_value (JStr y))) = Some s"
  by (cases v; cases d; auto simp: json_of_word_def u64_as_dec_string_def opt_u64_as_dec_string_def opt_of_json_def
      then_some_def split: option.split)+

lemma value_nested:
  "app_of_json (to_value (json_of_app a)) = Some a"
  "endpoint_of_json (to_value (json_of_endpoint ep)) = Some ep"
  "tls_of_json (to_value (json_of_tls t)) = Some t"
  "dns_of_json (to_value (json_of_dns d)) = Some d"
  by (simp_all add: app_of_json_def json_of_app_def fields_of_app_def endpoint_of_json_def json_of_endpoint_def
      fields_of_endpoint_def tls_of_json_def json_of_tls_def fields_of_tls_def dns_of_json_def json_of_dns_def
      fields_of_dns_def to_value_obj entries_value value_leaves serde_simps del: to_value.simps(2))

lemma value_not_null: "to_value (json_of_app a) \<noteq> JNull" "to_value (json_of_endpoint ep) \<noteq> JNull"
  "to_value (json_of_tls t) \<noteq> JNull" "to_value (json_of_dns d) \<noteq> JNull"
  by (simp_all add: json_of_app_def json_of_endpoint_def json_of_tls_def json_of_dns_def)

lemma operation_value: "operation_of_json (to_value (json_of_operation r)) = Some r"
  by (simp add: operation_of_json_def json_of_operation_def fields_of_operation_def to_value_obj entries_value
      value_leaves value_nested value_not_null serde_simps del: to_value.simps(2))

lemma connection_value: "connection_of_json (to_value (json_of_connection r)) = Some r"
  by (simp add: connection_of_json_def json_of_connection_def fields_of_connection_def to_value_obj entries_value
      value_leaves value_nested value_not_null serde_simps del: to_value.simps(2))

lemma tcp_sample_value: "tcp_sample_of_json (to_value (json_of_tcp_sample r)) = Some r"
  by (simp add: tcp_sample_of_json_def json_of_tcp_sample_def fields_of_tcp_sample_def to_value_obj entries_value
      value_leaves value_nested value_not_null serde_simps del: to_value.simps(2))

text \<open>What a consumer holds for a record the agent emitted at time \<open>now\<close>.\<close>

fun read_back :: "(u64 \<Rightarrow> u64) \<Rightarrow> string \<Rightarrow> out_record \<Rightarrow> capture_record" where
  "read_back hash now (RecConnection r) =
     CapturedConnection (r\<lparr>cn_emitted_at := Some now, cn_sock_cookie := obscure hash (cn_sock_cookie r)\<rparr>)"
| "read_back hash now (RecOperation r) =
     CapturedOperation (r\<lparr>o_emitted_at := Some now, o_sock_cookie := obscure hash (o_sock_cookie r)\<rparr>)"
| "read_back hash now (RecTcpSample r) =
     CapturedSample (r\<lparr>sm_emitted_at := Some now, sm_sock_cookie := obscure hash (sm_sock_cookie r)\<rparr>)"

lemma record_line_emitted:
  assumes "trim l \<noteq> []" and "j (trim l) = Some (emit_jsonl hash now rec)"
  shows "parse_record_line j l = ([read_back hash now rec], 0)"
proof -
  have tag: "entries ''schema'' (fields_of_operation o') = [JStr OPERATION_SCHEMA]"
    "entries ''schema'' (fields_of_connection c) = [JStr CONNECTION_SCHEMA]"
    "entries ''schema'' (fields_of_tcp_sample sm) = [JStr SAMPLE_SCHEMA]" for o' c sm
    by (simp_all add: fields_of_operation_def fields_of_connection_def fields_of_tcp_sample_def)
  note tags = map_of_value [OF tag(1)] map_of_value [OF tag(2)] map_of_value [OF tag(3)]
  show ?thesis
  proof (cases rec)
    case (RecConnection c)
    let ?c = "c\<lparr>cn_emitted_at := Some now, cn_sock_cookie := obscure hash (cn_sock_cookie c)\<rparr>"
    have "connection_of_json (JObj (value_fields (fields_of_connection ?c))) = Some ?c"
      using connection_value [of ?c] by (simp add: json_of_connection_def to_value_obj del: to_value.simps(2))
    with assms RecConnection tags(2) [of ?c] show ?thesis
      by (simp add: parse_record_line_def Let_def json_of_connection_def to_value_obj zero_parse_stats_def
          OPERATION_SCHEMA_def CONNECTION_SCHEMA_def del: to_value.simps(2))
  next
    case (RecOperation o')
    let ?o = "o'\<lparr>o_emitted_at := Some now, o_sock_cookie := obscure hash (o_sock_cookie o')\<rparr>"
    have "operation_of_json (JObj (value_fields (fields_of_operation ?o))) = Some ?o"
      using operation_value [of ?o] by (simp add: json_of_operation_def to_value_obj del: to_value.simps(2))
    with assms RecOperation tags(1) [of ?o] show ?thesis
      by (simp add: parse_record_line_def Let_def json_of_operation_def to_value_obj zero_parse_stats_def del: to_value.simps(2))
  next
    case (RecTcpSample sm)
    let ?s = "sm\<lparr>sm_emitted_at := Some now, sm_sock_cookie := obscure hash (sm_sock_cookie sm)\<rparr>"
    have "tcp_sample_of_json (JObj (value_fields (fields_of_tcp_sample ?s))) = Some ?s"
      using tcp_sample_value [of ?s] by (simp add: json_of_tcp_sample_def to_value_obj del: to_value.simps(2))
    with assms RecTcpSample tags(3) [of ?s] show ?thesis
      by (simp add: parse_record_line_def Let_def json_of_tcp_sample_def to_value_obj zero_parse_stats_def
          OPERATION_SCHEMA_def CONNECTION_SCHEMA_def SAMPLE_SCHEMA_def del: to_value.simps(2))
  qed
qed

text \<open>What the serializer promises of a line: printable text on one line, of bounded length, that parses back.\<close>

definition wire_line :: "string \<Rightarrow> bool" where
  "wire_line l \<longleftrightarrow> l \<noteq> [] \<and> CHR 0x0A \<notin> set l \<and> length l \<le> MAX_INPUT_LINE
     \<and> from_utf8 (as_bytes l) = Some l \<and> chomp l = l \<and> trim l = l"

lemma byte_lines_unlines:
  "list_all wire_line ls \<Longrightarrow> byte_lines True (as_bytes (unlines ls)) = map as_bytes ls"
proof (induction ls)
  case (Cons l ls)
  have "0x0A \<notin> set (as_bytes l)"
  proof
    assume "0x0A \<in> set (as_bytes l)"
    then obtain c where "c \<in> set l" "byte_of c = 0x0A" by (auto simp: as_bytes_def)
    moreover have "chr_of 0x0A = CHR 0x0A" using chr_of_byte_of [of "CHR 0x0A"] by (simp add: byte_of_def)
    ultimately have "CHR 0x0A \<in> set l" by (metis chr_of_byte_of)
    with Cons.prems show False by (simp add: wire_line_def)
  qed
  moreover have "as_bytes (unlines (l # ls)) = as_bytes l @ 0x0A # as_bytes (unlines ls)"
    by (simp add: as_bytes_def byte_of_def)
  ultimately show ?case using Cons by (simp add: byte_lines_line)
qed (simp add: byte_lines_def as_bytes_def)

text \<open>C27: doctor reads back what the agent wrote. A file of the lines of emitted records, read in any chunks,
  gives exactly those records, in order, each with the time and the obscured socket of its line, and no
  line is counted as bad or unknown.\<close>

theorem capture_reads_back:
  assumes "steady r" and "failure r = None"
    and "content r = as_bytes (unlines (map (\<lambda>(now, rec). to_text (emit_jsonl hash now rec)) out))"
    and "list_all (\<lambda>(now, rec). let v = emit_jsonl hash now rec in wire_line (to_text v) \<and> j (to_text v) = Some v) out"
  shows "stream_records j r = Inr (map (\<lambda>(now, rec). read_back hash now rec) out, ParseStats 0 0)"
proof -
  let ?line = "\<lambda>(now, rec). to_text (emit_jsonl hash now rec)"
  have "list_all wire_line (map ?line out)" using assms(4) by (auto simp: list_all_iff Let_def)
  from byte_lines_unlines [OF this] have "reader_lines r = map as_bytes (map ?line out)"
    by (simp add: reader_lines_def assms(2,3))
  moreover have "judge_lines (capture_line j) (map as_bytes (map ?line out)) = (map (\<lambda>(now, rec). read_back hash now rec) out, 0)"
    using assms(4)
  proof (induction out)
    case (Cons p out)
    obtain now rec where p: "p = (now, rec)" by (cases p)
    let ?v = "emit_jsonl hash now rec"
    from Cons.prems p have w: "wire_line (to_text ?v)" "j (to_text ?v) = Some ?v" by (simp_all add: Let_def)
    from w(1) have "usable_line (as_bytes (to_text ?v)) = Some (to_text ?v)"
      by (simp add: wire_line_def usable_line_def as_bytes_def)
    moreover from w have "parse_record_line j (to_text ?v) = ([read_back hash now rec], 0)"
      by (intro record_line_emitted) (simp_all add: wire_line_def)
    ultimately have "capture_line j (as_bytes (to_text ?v)) = ([read_back hash now rec], 0)"
      by (simp add: capture_line_def)
    with Cons p show ?case by simp
  qed simp
  ultimately show ?thesis using stream_records_lines [OF assms(1), of j] assms(2) by (simp add: zero_parse_stats_def)
qed

lemma ascii_text: "list_all (\<lambda>c. byte_of c < 0x80) s \<Longrightarrow> from_utf8 (as_bytes s) = Some s"
  by (subst from_utf8_ascii) (auto simp: as_bytes_def list_all_iff comp_def)

text \<open>Two lines in three chunks: the first is no JSON, and the second ends where the reader breaks.\<close>

lemma stream_is_linewise_witness:
  "stream_records (\<lambda>_. None) [Chunk [0x68], Interrupted, Chunk [0x69, 0x0A, 0x68], Broken ()] = Inl ()
   \<and> stream_records (\<lambda>_. None) [Chunk [0x68], Interrupted, Chunk [0x69, 0x0A, 0x0A, 0xFF] :: unit fill] = Inr ([], ParseStats 2 0)"
proof -
  let ?r = "[Chunk [0x68], Interrupted, Chunk [0x69, 0x0A, 0x68], Broken ()]"
  let ?s = "[Chunk [0x68], Interrupted, Chunk [0x69, 0x0A, 0x0A, 0xFF] :: unit fill]"
  have lines: "reader_lines ?s = [[0x68, 0x69], [], [0xFF]]" by (simp add: reader_lines_def byte_lines_def)
  have "from_utf8 (as_bytes ''hi'') = Some ''hi''" by (rule ascii_text) (simp add: byte_of_def)
  moreover have "chomp ''hi'' = ''hi''" "chomp [] = []" by code_simp+
  ultimately have u: "usable_line [0x68, 0x69] = Some ''hi''" "usable_line [] = Some []" "usable_line [0xFF] = None"
    by (simp_all add: usable_line_def MAX_INPUT_LINE_def as_bytes_def byte_of_def)
      (simp_all add: from_utf8_def utf8_valid_up_to.simps utf8_chunk_def utf8_need_def)
  have t: "trim ''hi'' = ''hi''" "trim [] = []" by code_simp+
  have "judge_lines (capture_line (\<lambda>_. None)) (reader_lines ?s) = ([], ParseStats 2 0)"
    by (simp add: lines capture_line_def u parse_record_line_def t zero_parse_stats_def plus_parse_stats_def)
  moreover have "steady ?r" "steady ?s" "failure ?r = Some ()" "failure ?s = None" by simp_all
  ultimately show ?thesis
    using stream_is_linewise [of ?r "\<lambda>_. None"] stream_is_linewise [of ?s "\<lambda>_. None"] by simp
qed

lemma trace_stops_exactly_witness:
  "read_trace (\<lambda>_. None) 1 [Chunk [0x68, 0x0A], Broken ()] = Inl ()"
proof -
  let ?r = "[Chunk [0x68, 0x0A], Broken ()]"
  have r: "steady ?r" "reader_lines ?r = [[0x68]]" "failure ?r = Some ()" by (simp_all add: reader_lines_def byte_lines_def)
  have "length (fst (trace_line (\<lambda>_. None) [0x68])) \<le> 1" by (rule trace_line_one)
  with trace_stops_exactly [OF r(1), of "\<lambda>_. None" 1] show ?thesis by (simp add: r(2,3) USIZE_MAX_def)
qed

lemma capture_reads_back_witness:
  "stream_records (\<lambda>_. Some (emit_jsonl (\<lambda>x. x) ''now'' (RecOperation sample_operation)))
     [Chunk [0x7B], Interrupted, Chunk [0x7D, 0x0A] :: unit fill] =
   Inr ([CapturedOperation (sample_operation\<lparr>o_emitted_at := Some ''now''\<rparr>)], ParseStats 0 0)"
proof -
  let ?out = "[(''now'', RecOperation sample_operation)]"
  let ?r = "[Chunk [0x7B], Interrupted, Chunk [0x7D, 0x0A] :: unit fill]"
  have t: "trim ''{}'' = ''{}''" "chomp ''{}'' = ''{}''" by code_simp+
  have "from_utf8 (as_bytes ''{}'') = Some ''{}''" by (rule ascii_text) (simp add: byte_of_def)
  then have "wire_line ''{}''" by (simp add: wire_line_def t MAX_INPUT_LINE_def)
  then have w: "list_all (\<lambda>(now, rec). let v = emit_jsonl (\<lambda>x. x) now rec in wire_line ''{}''
      \<and> (\<lambda>_. Some (emit_jsonl (\<lambda>x. x) ''now'' (RecOperation sample_operation))) ''{}'' = Some v) ?out"
    by simp
  have c: "content ?r = as_bytes (unlines (map (\<lambda>(now, rec). (\<lambda>_. ''{}'') (emit_jsonl (\<lambda>x. x) now rec)) ?out))"
    by (simp add: as_bytes_def byte_of_def)
  have "steady ?r" "failure ?r = None" by simp_all
  from capture_reads_back [OF this c w] show ?thesis
    by (simp add: sample_operation_def operation_default_def obscure_def)
qed

end
