(* ===== verification/Sink.thy ===== *)
theory Sink
  imports Intake
begin

text \<open>
  The output side of the agent, \<open>RecordSink\<close> of \<open>s3tap-cli/main.rs\<close>: records are gathered into chunks that
  end at a line, and a chunk goes through a bounded channel to a task that writes it out. The thread of the
  capture never waits for that task while the capture runs; a chunk that does not fit is dropped and
  counted. Once the capture has stopped, the sink waits instead.
\<close>

section \<open>The sink and the channel\<close>

record sink =
  sk_buf :: "u8 list"
  sk_blocking :: bool
  sk_dropped_chunks :: u64
  sk_dropped_bytes :: u64

text \<open>The channel of \<open>std::sync::mpsc\<close>: what is queued, and whether its receiver, the writer task, lives.\<close>

record channel =
  ch_queue :: "u8 list list"
  ch_open :: bool

definition OUTPUT_QUEUE :: nat where "OUTPUT_QUEUE = 256"
definition RECORD_CHUNK_BYTES :: nat where "RECORD_CHUNK_BYTES = 65536"

definition fresh_sink :: sink where
  "fresh_sink = \<lparr>sk_buf = [], sk_blocking = False, sk_dropped_chunks = 0, sk_dropped_bytes = 0\<rparr>"

definition fresh_channel :: channel where
  "fresh_channel = \<lparr>ch_queue = [], ch_open = True\<rparr>"

definition block_on_send :: "sink \<Rightarrow> sink" where
  "block_on_send s = s\<lparr>sk_blocking := True\<rparr>"

text \<open>What became of a chunk; \<open>Refused\<close> is the error of a closed pipe.\<close>

datatype fate = Queued | Dropped | Refused

text \<open>\<open>send\<close> gives None where it waits: the queue is full and the sink blocks.\<close>

definition sink_send :: "u8 list \<Rightarrow> sink \<Rightarrow> channel \<Rightarrow> (fate \<times> sink \<times> channel) option" where
  "sink_send chunk s ch =
    (if sk_blocking s then
       (if \<not> ch_open ch then Some (Refused, s, ch)
        else if length (ch_queue ch) < OUTPUT_QUEUE then Some (Queued, s, ch\<lparr>ch_queue := ch_queue ch @ [chunk]\<rparr>)
        else None)
     else if \<not> ch_open ch then Some (Refused, s, ch)
     else if length (ch_queue ch) < OUTPUT_QUEUE then Some (Queued, s, ch\<lparr>ch_queue := ch_queue ch @ [chunk]\<rparr>)
     else Some (Dropped, s\<lparr>sk_dropped_chunks := sk_dropped_chunks s + 1,
       sk_dropped_bytes := sk_dropped_bytes s + of_nat (length chunk)\<rparr>, ch))"

text \<open>The position after the last line feed: \<open>rposition\<close> and one.\<close>

definition line_cut :: "u8 list \<Rightarrow> nat option" where
  "line_cut bs = map_option (\<lambda>p. p + 1) (find (\<lambda>i. bs ! i = 0x0A) (rev [0..<length bs]))"

text \<open>\<open>write\<close> and \<open>flush\<close>: the chunk handed over, if any, with its fate.\<close>

definition sink_write :: "u8 list \<Rightarrow> sink \<Rightarrow> channel \<Rightarrow> ((u8 list \<times> fate) option \<times> sink \<times> channel) option" where
  "sink_write data s0 ch =
    (let s = s0\<lparr>sk_buf := sk_buf s0 @ data\<rparr> in
     if RECORD_CHUNK_BYTES \<le> length (sk_buf s) then
       (case line_cut (sk_buf s) of
          Some n \<Rightarrow> map_option (\<lambda>(f, s', ch'). (Some (take n (sk_buf s), f), s', ch'))
            (sink_send (take n (sk_buf s)) (s\<lparr>sk_buf := drop n (sk_buf s)\<rparr>) ch)
        | None \<Rightarrow> Some (None, s, ch))
     else Some (None, s, ch))"

definition sink_flush :: "sink \<Rightarrow> channel \<Rightarrow> ((u8 list \<times> fate) option \<times> sink \<times> channel) option" where
  "sink_flush s ch =
    (if sk_buf s = [] then Some (None, s, ch)
     else map_option (\<lambda>(f, s', ch'). (Some (sk_buf s, f), s', ch')) (sink_send (sk_buf s) (s\<lparr>sk_buf := []\<rparr>) ch))"

section \<open>Runs\<close>

text \<open>
  The writer task takes chunks in order; when the pipe it writes to is closed it ends, and what was still
  queued is gone. A run interleaves its steps with those of the sink in any way; \<open>out\<close> is what was written.
\<close>

datatype act = Wrote "u8 list" "(u8 list \<times> fate) option" | Flushed "(u8 list \<times> fate) option" | Blocking | Received | HungUp

type_synonym world = "sink \<times> channel \<times> u8 list list"

inductive sink_step :: "world \<Rightarrow> act \<Rightarrow> world \<Rightarrow> bool" where
  Write: "sink_write data s ch = Some (h, s', ch') \<Longrightarrow> sink_step (s, ch, out) (Wrote data h) (s', ch', out)"
| Flush: "sink_flush s ch = Some (h, s', ch') \<Longrightarrow> sink_step (s, ch, out) (Flushed h) (s', ch', out)"
| Block: "sink_step (s, ch, out) Blocking (block_on_send s, ch, out)"
| Receive: "ch_open ch \<Longrightarrow> ch_queue ch = chunk # rest \<Longrightarrow> sink_step (s, ch, out) Received (s, ch\<lparr>ch_queue := rest\<rparr>, out @ [chunk])"
| HangUp: "ch_open ch \<Longrightarrow> sink_step (s, ch, out) HungUp (s, ch\<lparr>ch_queue := [], ch_open := False\<rparr>, out)"

inductive_cases sink_stepE: "sink_step w a w'"

inductive sink_run :: "act list \<Rightarrow> world \<Rightarrow> bool" where
  Start: "sink_run [] (fresh_sink, fresh_channel, [])"
| Step: "sink_run acts w \<Longrightarrow> sink_step w a w' \<Longrightarrow> sink_run (acts @ [a]) w'"

text \<open>What a run wrote, and the chunks it handed over with their fates, in order.\<close>

fun act_bytes :: "act \<Rightarrow> u8 list" where
  "act_bytes (Wrote data h) = data"
| "act_bytes _ = []"

fun act_handed :: "act \<Rightarrow> (u8 list \<times> fate) list" where
  "act_handed (Wrote data (Some p)) = [p]"
| "act_handed (Flushed (Some p)) = [p]"
| "act_handed _ = []"

definition written :: "act list \<Rightarrow> u8 list" where "written acts = concat (map act_bytes acts)"
definition handed :: "act list \<Rightarrow> (u8 list \<times> fate) list" where "handed acts = concat (map act_handed acts)"

definition with_fate :: "fate \<Rightarrow> act list \<Rightarrow> u8 list list" where
  "with_fate f acts = map fst (filter (\<lambda>p. snd p = f) (handed acts))"

lemma history_simps [simp]:
  "written [] = []" "written (acts @ [a]) = written acts @ act_bytes a"
  "handed [] = []" "handed (acts @ [a]) = handed acts @ act_handed a"
  "with_fate f [] = []" "with_fate f (acts @ [a]) = with_fate f acts @ map fst (filter (\<lambda>p. snd p = f) (act_handed a))"
  by (simp_all add: written_def handed_def with_fate_def)

section \<open>Nothing is lost unseen\<close>

lemma find_last: "find P (rev [0..<n]) = Some p \<Longrightarrow> p < n \<and> P p \<and> (\<forall>i. p < i \<and> i < n \<longrightarrow> \<not> P i)"
proof (induction n)
  case (Suc n)
  then show ?case by (auto split: if_splits simp: less_Suc_eq)
qed simp

lemma line_cut_SomeD:
  assumes "line_cut bs = Some n"
  shows "take n bs \<noteq> [] \<and> last (take n bs) = 0x0A \<and> 0x0A \<notin> set (drop n bs)"
proof -
  from assms obtain p where p: "find (\<lambda>i. bs ! i = 0x0A) (rev [0..<length bs]) = Some p" "n = p + 1"
    by (auto simp: line_cut_def)
  from find_last [OF p(1)] have q: "p < length bs" "bs ! p = 0x0A" "\<forall>i. p < i \<and> i < length bs \<longrightarrow> bs ! i \<noteq> 0x0A" by auto
  have "drop n bs ! i \<noteq> 0x0A" if "i < length (drop n bs)" for i
    using q(1,3) that by (simp add: p(2))
  then have "0x0A \<notin> set (drop n bs)" by (metis in_set_conv_nth)
  moreover have "last (take n bs) = 0x0A" using p(2) q(1,2) by (simp add: take_Suc_conv_app_nth)
  ultimately show ?thesis using p(2) q(1) by auto
qed

lemma line_cut_NoneD: "line_cut bs = None \<Longrightarrow> 0x0A \<notin> set bs"
  by (auto simp: line_cut_def find_None_iff in_set_conv_nth)

text \<open>What handing over one chunk changes.\<close>

lemma sink_send_cases:
  assumes "sink_send c s ch = Some (f, s', ch')"
  shows "s' = (if f = Dropped then s\<lparr>sk_dropped_chunks := sk_dropped_chunks s + 1,
        sk_dropped_bytes := sk_dropped_bytes s + of_nat (length c)\<rparr> else s)"
    and "ch' = (if f = Queued then ch\<lparr>ch_queue := ch_queue ch @ [c]\<rparr> else ch)"
    and "f = Queued \<Longrightarrow> ch_open ch \<and> length (ch_queue ch) < OUTPUT_QUEUE"
    and "f = Dropped \<Longrightarrow> ch_open ch \<and> \<not> sk_blocking s \<and> OUTPUT_QUEUE \<le> length (ch_queue ch)"
    and "f = Refused \<Longrightarrow> \<not> ch_open ch"
  using assms by (auto simp: sink_send_def split: if_splits)

text \<open>One hand-over of a chunk \<open>c\<close>, leaving \<open>rest\<close> in the buffer.\<close>

definition hands_over :: "u8 list \<Rightarrow> fate \<Rightarrow> u8 list \<Rightarrow> sink \<Rightarrow> channel \<Rightarrow> sink \<Rightarrow> channel \<Rightarrow> bool" where
  "hands_over c f rest s ch s' ch' \<longleftrightarrow> c \<noteq> [] \<and> sink_send c (s\<lparr>sk_buf := rest\<rparr>) ch = Some (f, s', ch')"

lemma sink_write_cases:
  assumes "sink_write data s ch = Some (h, s', ch')"
  obtains (kept) "h = None" "s' = s\<lparr>sk_buf := sk_buf s @ data\<rparr>" "ch' = ch"
      "length (sk_buf s') < RECORD_CHUNK_BYTES \<or> 0x0A \<notin> set (sk_buf s')"
    | (cut) c f rest where "h = Some (c, f)" "sk_buf s @ data = c @ rest" "last c = 0x0A" "0x0A \<notin> set rest"
      "hands_over c f rest s ch s' ch'"
proof (cases "RECORD_CHUNK_BYTES \<le> length (sk_buf s @ data)")
  case False
  with assms kept show thesis by (auto simp: sink_write_def Let_def)
next
  case big: True
  show thesis
  proof (cases "line_cut (sk_buf s @ data)")
    case None
    with assms big kept line_cut_NoneD [OF None] show thesis by (auto simp: sink_write_def Let_def)
  next
    case (Some n)
    let ?b = "sk_buf s @ data"
    note n = line_cut_SomeD [OF Some]
    from assms big Some obtain f where f: "h = Some (take n ?b, f)" "sink_send (take n ?b) (s\<lparr>sk_buf := drop n ?b\<rparr>) ch = Some (f, s', ch')"
      by (auto simp: sink_write_def Let_def)
    show thesis by (rule cut [OF f(1), of "drop n ?b"]) (use f(2) n in \<open>auto simp: hands_over_def simp del: take_append drop_append\<close>)
  qed
qed

lemma sink_flush_cases:
  assumes "sink_flush s ch = Some (h, s', ch')"
  obtains (kept) "h = None" "s' = s" "ch' = ch" "sk_buf s = []"
    | (all) f where "h = Some (sk_buf s, f)" "hands_over (sk_buf s) f [] s ch s' ch'"
  using assms by (auto simp: sink_flush_def hands_over_def split: if_splits)

definition sink_inv :: "act list \<Rightarrow> world \<Rightarrow> bool" where
  "sink_inv acts w \<longleftrightarrow> (case w of (s, ch, out) \<Rightarrow>
     written acts = concat (map fst (handed acts)) @ sk_buf s
     \<and> prefix (out @ ch_queue ch) (with_fate Queued acts) \<and> (ch_open ch \<longrightarrow> out @ ch_queue ch = with_fate Queued acts)
     \<and> sk_dropped_chunks s = of_nat (length (with_fate Dropped acts))
     \<and> sk_dropped_bytes s = of_nat (sum_list (map length (with_fate Dropped acts)))
     \<and> length (ch_queue ch) \<le> OUTPUT_QUEUE
     \<and> [] \<notin> fst ` set (handed acts))"

lemma sink_inv_handed:
  assumes "sink_inv acts (s, ch, out)" and "hands_over c f rest s ch s' ch'"
    and "act_bytes a @ [] = act_bytes a" and "sk_buf s @ act_bytes a = c @ rest" and "act_handed a = [(c, f)]"
  shows "sink_inv (acts @ [a]) (s', ch', out)"
  using assms sink_send_cases [of c "s\<lparr>sk_buf := rest\<rparr>" ch f s' ch']
  by (cases f) (auto simp: sink_inv_def hands_over_def)

lemma sink_inv_step: "sink_inv acts w \<Longrightarrow> sink_step w a w' \<Longrightarrow> sink_inv (acts @ [a]) w'"
proof (elim sink_stepE)
  fix data s ch h s' ch' out
  assume inv: "sink_inv acts w" and eq: "w = (s, ch, out)" "a = Wrote data h" "w' = (s', ch', out)"
    and "sink_write data s ch = Some (h, s', ch')"
  from this(5) show ?thesis
  proof (cases rule: sink_write_cases)
    case kept
    with inv eq show ?thesis by (simp add: sink_inv_def)
  next
    case (cut c f rest)
    with inv eq sink_inv_handed [of acts s ch out c f rest s' ch' a] show ?thesis by simp
  qed
next
  fix s ch h s' ch' out
  assume inv: "sink_inv acts w" and eq: "w = (s, ch, out)" "a = Flushed h" "w' = (s', ch', out)"
    and "sink_flush s ch = Some (h, s', ch')"
  from this(5) show ?thesis
  proof (cases rule: sink_flush_cases)
    case kept
    with inv eq show ?thesis by (simp add: sink_inv_def)
  next
    case (all f)
    with inv eq sink_inv_handed [of acts s ch out "sk_buf s" f "[]" s' ch' a] show ?thesis by simp
  qed
qed (auto simp: sink_inv_def block_on_send_def dest: append_prefixD)

lemma sink_run_inv: "sink_run acts w \<Longrightarrow> sink_inv acts w"
proof (induction rule: sink_run.induct)
  case Start
  show ?case by (simp add: sink_inv_def fresh_sink_def fresh_channel_def)
qed (rule sink_inv_step)

section \<open>Whole lines\<close>

text \<open>The capture flushes between records: whatever is written before a flush ends a line.\<close>

definition at_line_end :: "u8 list \<Rightarrow> bool" where
  "at_line_end bs \<longleftrightarrow> bs = [] \<or> last bs = 0x0A"

fun flushes_between :: "u8 list \<Rightarrow> act list \<Rightarrow> bool" where
  "flushes_between before [] = True"
| "flushes_between before (Flushed h # acts) = (at_line_end before \<and> flushes_between before acts)"
| "flushes_between before (a # acts) = flushes_between (before @ act_bytes a) acts"

definition flushes_whole :: "act list \<Rightarrow> bool" where
  "flushes_whole acts = flushes_between [] acts"

lemma flushes_between_snoc:
  "flushes_between before (acts @ [a]) \<longleftrightarrow> flushes_between before acts
    \<and> (case a of Flushed h \<Rightarrow> at_line_end (before @ written acts) | _ \<Rightarrow> True)"
proof (induction before acts rule: flushes_between.induct)
  case (1 before)
  then show ?case by (cases a) (simp_all add: written_def)
qed (cases a; simp add: written_def)+

lemma byte_lines_Nil [simp]: "byte_lines ended [] = []"
  by (simp add: byte_lines_def)

lemma handed_lines:
  assumes "sink_run acts w"
  shows "flushes_whole acts \<Longrightarrow> list_all (\<lambda>p. last (fst p) = 0x0A) (handed acts)"
  using assms
proof (induction rule: sink_run.induct)
  case (Step acts w a w')
  from Step.prems have fl: "flushes_whole acts" by (simp add: flushes_whole_def flushes_between_snoc)
  note old = Step.IH [OF this]
  from Step.hyps(2) show ?case
  proof (cases rule: sink_step.cases)
    case (Write data s ch h s' ch' out)
    from Write(4) show ?thesis by (cases rule: sink_write_cases) (use old Write(2) in auto)
  next
    case (Flush s ch h s' ch' out)
    from Flush(4) show ?thesis
    proof (cases rule: sink_flush_cases)
      case (all f)
      have "at_line_end (written acts)" using Step.prems Flush(2) by (simp add: flushes_whole_def flushes_between_snoc)
      moreover have "written acts = concat (map fst (handed acts)) @ sk_buf s"
        using sink_run_inv [OF Step.hyps(1)] by (simp add: Flush(1) sink_inv_def)
      ultimately have "last (sk_buf s) = 0x0A" using all(2) by (auto simp: at_line_end_def hands_over_def)
      with old all(1) Flush(2) show ?thesis by simp
    qed (use old Flush(2) in simp)
  qed (use old in auto)
qed simp

lemma byte_lines_whole: "at_line_end bs \<Longrightarrow> byte_lines True (bs @ cs) = byte_lines True bs @ byte_lines True cs"
proof (induction bs rule: length_induct)
  case (1 bs)
  show ?case
  proof (cases "0x0A \<in> set bs")
    case True
    then obtain l rest where bs: "bs = l @ 0x0A # rest" "0x0A \<notin> set l" by (meson split_list_first)
    with 1 have "byte_lines True (rest @ cs) = byte_lines True rest @ byte_lines True cs"
      by (auto simp: at_line_end_def split: if_splits)
    with bs show ?thesis by (simp add: byte_lines_line)
  next
    case False
    with 1(2) have "bs = []" by (metis at_line_end_def last_in_set)
    then show ?thesis by (simp add: byte_lines_def)
  qed
qed

lemma byte_lines_chunks:
  "list_all at_line_end cs \<Longrightarrow> byte_lines True (concat cs @ rest) = concat (map (byte_lines True) cs) @ byte_lines True rest"
  by (induction cs) (simp_all add: byte_lines_whole)

lemma subseq_concat_map: "subseq xs ys \<Longrightarrow> subseq (concat (map f xs)) (concat (map f ys))"
proof (induction rule: list_emb.induct)
  case (list_emb_Cons xs ys y)
  then show ?case by (simp add: list_emb_append2)
next
  case (list_emb_Cons2 x y xs ys)
  then show ?case by (simp add: list_emb_append_mono)
qed simp

text \<open>C28: a slow reader costs whole records. In any interleaving of the capture with the writer task, the
  lines that reached the pipe are a subsequence of the lines written, never half a line; the bytes handed
  over and those still held are all there are; and what was dropped is in the two counters.\<close>

theorem sink_loses_whole_lines:
  assumes "sink_run acts (s, ch, out)" and "flushes_whole acts"
  shows "subseq (byte_lines True (concat out)) (byte_lines True (written acts))
    \<and> written acts = concat (map fst (handed acts)) @ sk_buf s
    \<and> prefix (out @ ch_queue ch) (with_fate Queued acts)
    \<and> sk_dropped_chunks s = of_nat (length (with_fate Dropped acts))
    \<and> sk_dropped_bytes s = of_nat (sum_list (map length (with_fate Dropped acts)))
    \<and> length (ch_queue ch) \<le> OUTPUT_QUEUE"
proof -
  note inv = sink_run_inv [OF assms(1), unfolded sink_inv_def, simplified]
  note lines = handed_lines [OF assms]
  have pre: "prefix out (with_fate Queued acts)" using inv by (auto dest: append_prefixD)
  have "subseq (with_fate Queued acts) (map fst (handed acts))"
    unfolding with_fate_def by (rule subseq_map) (rule subseq_filter_left)
  with pre have sub: "subseq out (map fst (handed acts))" by (meson prefix_imp_subseq subseq_order.order_trans)
  have all: "list_all at_line_end (map fst (handed acts))" using lines by (auto simp: list_all_iff at_line_end_def)
  have "set out \<subseteq> set (map fst (handed acts))" using sub by (auto dest: list_emb_set)
  with all have "list_all at_line_end out" by (auto simp: list_all_iff)
  from byte_lines_chunks [OF this, of "[]"] byte_lines_chunks [OF all, of "sk_buf s"] subseq_concat_map [OF sub, of "byte_lines True"]
  have "subseq (byte_lines True (concat out)) (byte_lines True (written acts))"
    using inv by (simp add: byte_lines_def [of True "[]"] list_emb_append2 subseq_rev_drop_many)
  with inv show ?thesis by simp
qed

section \<open>Waiting\<close>

lemma hands_over_blocking: "hands_over c f rest s ch s' ch' \<Longrightarrow> sk_blocking s' = sk_blocking s"
  unfolding hands_over_def by (auto dest!: sink_send_cases(1) split: if_splits)

lemma block_recorded: "sink_run acts (s, ch, out) \<Longrightarrow> sk_blocking s \<longleftrightarrow> Blocking \<in> set acts"
proof (induction acts "(s, ch, out)" arbitrary: s ch out rule: sink_run.induct)
  case Start
  then show ?case by (simp add: fresh_sink_def)
next
  case (Step acts w a)
  from Step(3) show ?case
  proof (cases rule: sink_step.cases)
    case (Write data s0 ch0 h)
    from Write(3) show ?thesis
      by (cases rule: sink_write_cases) (use Step(2) Write in \<open>auto dest: hands_over_blocking\<close>)
  next
    case (Flush s0 ch0 h)
    from Flush(3) show ?thesis
      by (cases rule: sink_flush_cases) (use Step(2) Flush in \<open>auto dest: hands_over_blocking\<close>)
  qed (use Step(2) in \<open>auto simp: block_on_send_def\<close>)
qed

lemma sink_run_appendD: "sink_run (acts @ acts') w \<Longrightarrow> \<exists>w0. sink_run acts w0"
proof (induction acts' arbitrary: w rule: rev_induct)
  case (snoc a acts')
  from snoc.prems show ?case by (cases rule: sink_run.cases) (use snoc.IH in auto)
qed auto

text \<open>C30: the shutdown drops nothing. Once the sink has been told to wait, no further chunk is dropped,
  whatever the writer does.\<close>

theorem shutdown_drops_nothing:
  assumes "sink_run (acts @ Blocking # acts') w"
  shows "with_fate Dropped (acts @ Blocking # acts') = with_fate Dropped acts"
  using assms
proof (induction acts' arbitrary: w rule: rev_induct)
  case Nil
  then show ?case by (simp add: with_fate_def handed_def)
next
  case (snoc a acts')
  let ?before = "acts @ Blocking # acts'"
  from snoc.prems obtain w0 where run: "sink_run ?before w0" and step: "sink_step w0 a w"
    by (cases rule: sink_run.cases) auto
  obtain s ch out where w0: "w0 = (s, ch, out)" by (cases w0)
  from block_recorded [of ?before s ch out] run w0 have b: "sk_blocking s" by simp
  from step have "filter (\<lambda>p. snd p = Dropped) (act_handed a) = []"
  proof (cases rule: sink_step.cases)
    case (Write data s0 ch0 h)
    from Write(4) show ?thesis
      by (cases rule: sink_write_cases) (use Write(1,2) w0 b in \<open>auto simp: hands_over_def dest: sink_send_cases(4)\<close>)
  next
    case (Flush s0 ch0 h)
    from Flush(4) show ?thesis
      by (cases rule: sink_flush_cases) (use Flush(1,2) w0 b in \<open>auto simp: hands_over_def dest: sink_send_cases(4)\<close>)
  qed auto
  with snoc.IH [OF run] show ?case using history_simps(6) [of Dropped ?before a] by simp
qed

text \<open>The capture never waits for its reader, and the shutdown never waits for ever. While the capture runs,
  writing and flushing return at once; afterwards they wait only for a full queue with a living writer,
  and a single step of the writer lets them go on.\<close>

theorem sink_never_stuck:
  "if sink_write data s ch = None \<or> sink_flush s ch = None
   then sk_blocking s \<and> ch_open ch \<and> OUTPUT_QUEUE \<le> length (ch_queue ch)
     \<and> (\<exists>ch' chunk. sink_step (s, ch, out) Received (s, ch', out @ [chunk])
          \<and> (if length (ch_queue ch) \<le> OUTPUT_QUEUE
             then sink_write data s ch' \<noteq> None \<and> sink_flush s ch' \<noteq> None else True))
   else True"
proof -
  have wait: "sk_blocking s' \<and> ch_open ch \<and> OUTPUT_QUEUE \<le> length (ch_queue ch)" if "sink_send c s' ch = None" for c s' ch
    using that by (auto simp: sink_send_def split: if_splits)
  have send: "sink_send c s' ch \<noteq> None" if "\<not> sk_blocking s \<or> \<not> ch_open ch \<or> length (ch_queue ch) < OUTPUT_QUEUE"
      "sk_blocking s' = sk_blocking s" for c s' ch
    using that wait by fastforce
  have ops: "sink_write data s ch \<noteq> None \<and> sink_flush s ch \<noteq> None"
    if "\<not> sk_blocking s \<or> \<not> ch_open ch \<or> length (ch_queue ch) < OUTPUT_QUEUE" for ch
  proof
    show "sink_flush s ch \<noteq> None" using send [OF that] by (simp add: sink_flush_def del: not_None_eq)
    define b where "b = sk_buf s @ data"
    have "sink_write data s ch = (if RECORD_CHUNK_BYTES \<le> length b then
        (case line_cut b of
           Some n \<Rightarrow> map_option (\<lambda>(f, s', ch'). (Some (take n b, f), s', ch')) (sink_send (take n b) (s\<lparr>sk_buf := drop n b\<rparr>) ch)
         | None \<Rightarrow> Some (None, s\<lparr>sk_buf := b\<rparr>, ch))
       else Some (None, s\<lparr>sk_buf := b\<rparr>, ch))"
      by (simp add: sink_write_def Let_def b_def cong: if_cong option.case_cong)
    then show "sink_write data s ch \<noteq> None" using send [OF that] by (simp split: option.split del: not_None_eq)
  qed
  show ?thesis
  proof (cases "\<not> sk_blocking s \<or> \<not> ch_open ch \<or> length (ch_queue ch) < OUTPUT_QUEUE")
    case True
    with ops [of ch] show ?thesis by (simp del: not_None_eq)
  next
    case False
    then obtain chunk rest where q: "ch_queue ch = chunk # rest" by (cases "ch_queue ch") (auto simp: OUTPUT_QUEUE_def)
    let ?ch = "ch\<lparr>ch_queue := rest\<rparr>"
    from False q have "sink_step (s, ch, out) Received (s, ?ch, out @ [chunk])" by (auto intro: Receive)
    moreover have "if length (ch_queue ch) \<le> OUTPUT_QUEUE
        then sink_write data s ?ch \<noteq> None \<and> sink_flush s ?ch \<noteq> None else True"
      using ops [of ?ch] q by (simp del: not_None_eq)
    ultimately show ?thesis using False by auto
  qed
qed

section \<open>Instances\<close>

lemma one_record_run:
  "sink_run [Wrote [0x68, 0x0A] None, Flushed (Some ([0x68, 0x0A], Queued)), Blocking, Received]
     (block_on_send fresh_sink, fresh_channel, [[0x68, 0x0A]])"
proof -
  let ?s = "fresh_sink\<lparr>sk_buf := [0x68, 0x0A]\<rparr>"
  let ?c = "fresh_channel\<lparr>ch_queue := [[0x68, 0x0A]]\<rparr>"
  have "sink_step (fresh_sink, fresh_channel, []) (Wrote [0x68, 0x0A] None) (?s, fresh_channel, [])"
    by (rule Write) (simp add: sink_write_def fresh_sink_def RECORD_CHUNK_BYTES_def)
  note 1 = Step [OF Start this]
  have "sink_step (?s, fresh_channel, []) (Flushed (Some ([0x68, 0x0A], Queued))) (fresh_sink, ?c, [])"
    by (rule Flush) (simp add: sink_flush_def sink_send_def fresh_sink_def fresh_channel_def OUTPUT_QUEUE_def)
  note 2 = Step [OF 1 this]
  note 3 = Step [OF 2 Block]
  have "sink_step (block_on_send fresh_sink, ?c, []) Received (block_on_send fresh_sink, ?c\<lparr>ch_queue := []\<rparr>, [] @ [[0x68, 0x0A]])"
    by (rule Receive) (simp_all add: fresh_channel_def)
  from Step [OF 3 this] show ?thesis by (simp add: fresh_channel_def)
qed

lemma sink_loses_whole_lines_witness:
  "subseq (byte_lines True [0x68, 0x0A])
     (byte_lines True (written [Wrote [0x68, 0x0A] None, Flushed (Some ([0x68, 0x0A], Queued)), Blocking, Received]))"
proof -
  have "flushes_whole [Wrote [0x68, 0x0A] None, Flushed (Some ([0x68, 0x0A], Queued)), Blocking, Received]"
    by (simp add: flushes_whole_def at_line_end_def)
  from sink_loses_whole_lines [OF one_record_run this, THEN conjunct1] show ?thesis by simp
qed

lemma shutdown_drops_nothing_witness:
  "with_fate Dropped [Wrote [0x68, 0x0A] None, Flushed (Some ([0x68, 0x0A], Queued)), Blocking, Received] = []"
  using shutdown_drops_nothing [of "[Wrote [0x68, 0x0A] None, Flushed (Some ([0x68, 0x0A], Queued))]" "[Received]"] one_record_run
  by (simp add: with_fate_def handed_def)

end
