(* ===== verification/Float64.thy ===== *)
theory Float64
  imports Complex_Main "HOL-Library.Log_Nat"
begin

text \<open>
  Double precision, for the parts of the program that compute rates, confidences and thresholds. A
  finite double is the real number it denotes. The lemmas bound the error of a rounding and show that
  rounding keeps order and leaves whole numbers below \<open>2 ^ 53\<close> as they are.
\<close>

section \<open>Operations\<close>

text \<open>
  A finite double is a real number, and an operation is the exact one rounded to 53 bits, to the nearest
  and to even on a tie. No value here is subnormal or overflows: counts, spans of time and their ratios.
\<close>

definition half_even :: "real \<Rightarrow> int" where
  "half_even y =
    (let f = \<lfloor>y\<rfloor>; d = y - of_int f in
     if d < 1 / 2 then f else if 1 / 2 < d then f + 1 else if even f then f else f + 1)"

definition f64_exponent :: "real \<Rightarrow> int" where
  "f64_exponent x =
    (if 1 \<le> x then int (floorlog 2 (nat \<lfloor>x\<rfloor>)) - 1 else - int (floorlog 2 (nat (\<lceil>1 / x\<rceil> - 1))))"

definition ulp :: "real \<Rightarrow> real" where
  "ulp x = 2 powi (f64_exponent \<bar>x\<bar> - 52)"

definition f64_round :: "real \<Rightarrow> real" where
  "f64_round x = (if x = 0 then 0 else of_int (half_even (x / ulp x)) * ulp x)"

definition f64_of :: "nat \<Rightarrow> real" where "f64_of n = f64_round (of_nat n)"
definition f64_div :: "real \<Rightarrow> real \<Rightarrow> real" where "f64_div a b = f64_round (a / b)"
definition f64_sub :: "real \<Rightarrow> real \<Rightarrow> real" where "f64_sub a b = f64_round (a - b)"
definition f64_mul :: "real \<Rightarrow> real \<Rightarrow> real" where "f64_mul a b = f64_round (a * b)"
definition f64_add :: "real \<Rightarrow> real \<Rightarrow> real" where "f64_add a b = f64_round (a + b)"

text \<open>\<open>as u64\<close> drops the fraction.\<close>

definition f64_as_nat :: "real \<Rightarrow> nat" where "f64_as_nat x = nat \<lfloor>x\<rfloor>"

lemma half_even_near: "\<bar>of_int (half_even y) - y\<bar> \<le> 1 / 2"
  unfolding half_even_def Let_def
  using of_int_floor_le [of y] real_of_int_floor_add_one_gt [of y] by (auto simp: abs_le_iff)

lemma half_even_int [simp]: "half_even (of_int i) = i"
  by (simp add: half_even_def)

lemma ulp_pos: "0 < ulp x"
  by (simp add: ulp_def)

text \<open>The exponent is the whole part of the logarithm.\<close>

lemma f64_exponent_bounds:
  assumes "0 < x"
  shows "2 powi f64_exponent x \<le> x" and "x < 2 powi (f64_exponent x + 1)"
proof -
  have "2 powi f64_exponent x \<le> x \<and> x < 2 powi (f64_exponent x + 1)"
  proof (cases "1 \<le> x")
    case True
    let ?n = "nat \<lfloor>x\<rfloor>"
    have n: "0 < ?n" "real ?n \<le> x" "x < real ?n + 1" using True by (auto simp: le_floor_iff of_nat_nat; linarith)+
    then obtain k where k: "floorlog 2 ?n = Suc k"
      by (metis floorlog_eq_zero_iff less_numeral_extra(4) not0_implies_Suc not_le not_numeral_le_zero one_less_numeral_iff semiring_norm(76))
    have "2 ^ k \<le> ?n \<and> ?n < 2 ^ Suc k" using floorlog_bounds [of ?n 2] n k by simp
    then have "(2::real) ^ k \<le> real ?n" "real ?n + 1 \<le> 2 ^ Suc k"
      by (metis of_nat_le_iff of_nat_numeral of_nat_power, metis Suc_leI of_nat_Suc add.commute of_nat_le_iff of_nat_numeral of_nat_power)
    then have "2 ^ k \<le> x" "x < 2 ^ Suc k" using n by linarith+
    then show ?thesis using True k by (simp add: f64_exponent_def power_int_add)
  next
    case False
    let ?n = "nat (\<lceil>1 / x\<rceil> - 1)"
    have y: "1 < 1 / x" using False assms by simp
    then have c: "1 < \<lceil>1 / x\<rceil>" by (simp add: less_ceiling_iff)
    then have "int ?n = \<lceil>1 / x\<rceil> - 1" by linarith
    then have "real ?n = of_int \<lceil>1 / x\<rceil> - 1" by (metis of_int_1 of_int_diff of_int_of_nat_eq)
    then have n: "0 < ?n" "real ?n < 1 / x" "1 / x \<le> real ?n + 1"
      using c ceiling_correct [of "1 / x"] by auto
    then obtain k where k: "floorlog 2 ?n = Suc k"
      by (metis floorlog_eq_zero_iff less_numeral_extra(4) not0_implies_Suc not_le not_numeral_le_zero one_less_numeral_iff semiring_norm(76))
    have "2 ^ k \<le> ?n \<and> ?n < 2 ^ Suc k" using floorlog_bounds [of ?n 2] n k by simp
    then have "(2::real) ^ k \<le> real ?n" "real ?n + 1 \<le> 2 ^ Suc k"
      by (metis of_nat_le_iff of_nat_numeral of_nat_power, metis Suc_leI of_nat_Suc add.commute of_nat_le_iff of_nat_numeral of_nat_power)
    then have "2 ^ k < 1 / x" "1 / x \<le> 2 ^ Suc k" using n by linarith+
    then have "x < 1 / 2 ^ k" "1 / 2 ^ Suc k \<le> x" using assms by (simp_all add: field_simps)
    moreover have "f64_exponent x = - int (Suc k)" "f64_exponent x + 1 = - int k"
      using False k by (simp_all add: f64_exponent_def)
    moreover have "(2::real) powi (- int j) = 1 / 2 ^ j" for j
      by (simp only: power_int_minus power_int_of_nat inverse_eq_divide)
    ultimately show ?thesis by presburger
  qed
  then show "2 powi f64_exponent x \<le> x" and "x < 2 powi (f64_exponent x + 1)" by simp_all
qed

lemma ulp_le:
  assumes "x \<noteq> 0"
  shows "ulp x \<le> \<bar>x\<bar> / 2 ^ 52"
  using f64_exponent_bounds(1) [of "\<bar>x\<bar>"] assms by (simp add: ulp_def power_int_diff divide_right_mono)

text \<open>The relative error of a rounding, which decides every comparison that is not at the border.\<close>

lemma f64_round_near: "\<bar>f64_round x - x\<bar> \<le> \<bar>x\<bar> / 2 ^ 53"
proof (cases "x = 0")
  case True
  then show ?thesis by (simp add: f64_round_def)
next
  case False
  let ?u = "ulp x"
  have "f64_round x - x = (of_int (half_even (x / ?u)) - x / ?u) * ?u"
    using False ulp_pos [of x] by (simp add: f64_round_def field_simps)
  then have "\<bar>f64_round x - x\<bar> = \<bar>of_int (half_even (x / ?u)) - x / ?u\<bar> * ?u"
    using ulp_pos [of x] by (simp add: abs_mult)
  also have "\<dots> \<le> 1 / 2 * ?u" using half_even_near ulp_pos [of x] by (intro mult_right_mono) auto
  also have "\<dots> \<le> \<bar>x\<bar> / 2 ^ 53" using ulp_le [OF False] by simp
  finally show ?thesis .
qed

lemma f64_round_bounds:
  assumes "0 \<le> x"
  shows "x * (1 - 1 / 2 ^ 53) \<le> f64_round x" and "f64_round x \<le> x * (1 + 1 / 2 ^ 53)"
proof -
  have "\<bar>f64_round x - x\<bar> \<le> x / 2 ^ 53" using f64_round_near [of x] assms by simp
  then have "f64_round x - x \<le> x / 2 ^ 53" "x - f64_round x \<le> x / 2 ^ 53" by (simp_all only: abs_le_iff minus_diff_eq)
  then show "x * (1 - 1 / 2 ^ 53) \<le> f64_round x" "f64_round x \<le> x * (1 + 1 / 2 ^ 53)"
    by (simp_all add: field_simps)
qed

text \<open>The same with bounds that linear arithmetic can use.\<close>

lemma f64_round_coarse:
  assumes "0 \<le> x"
  shows "x - x / 1000000000 \<le> f64_round x" and "f64_round x \<le> x + x / 1000000000"
proof -
  have "x / 2 ^ 53 \<le> x / 1000000000" using assms by (intro divide_left_mono) simp_all
  with f64_round_near [of x] assms show "x - x / 1000000000 \<le> f64_round x" and "f64_round x \<le> x + x / 1000000000"
    by (simp_all only: abs_le_iff abs_of_nonneg) linarith+
qed

lemma f64_of_exact:
  assumes "n < 2 ^ 53"
  shows "f64_of n = of_nat n"
proof (cases "n = 0")
  case True
  then show ?thesis by (simp add: f64_of_def f64_round_def)
next
  case False
  let ?e = "f64_exponent (real n)"
  have "real n < 2 ^ 53" using assms by (metis of_nat_less_iff of_nat_numeral of_nat_power)
  moreover have "2 powi ?e \<le> real n" using f64_exponent_bounds(1) [of "real n"] False by simp
  ultimately have "(2::real) powi ?e < 2 powi 53" by simp
  then have "?e \<le> 52" using power_int_increasing [of 53 ?e "2::real"] by linarith
  then obtain k where k: "?e = 52 - int k" by (metis add_diff_cancel_left' diff_ge_0_iff_ge diff_diff_eq2 zero_le_imp_eq_int)
  have "ulp (real n) = 1 / 2 ^ k" by (simp add: ulp_def k power_int_minus divide_inverse)
  then have "real n / ulp (real n) = of_int (int n * 2 ^ k)" by simp
  then have "of_int (half_even (real n / ulp (real n))) * ulp (real n) = real n"
    using ulp_pos [of "real n"] by (metis half_even_int less_irrefl nonzero_eq_divide_eq)
  then show ?thesis using False by (simp add: f64_of_def f64_round_def)
qed

lemma f64_round_pos: "0 < x \<Longrightarrow> 0 < f64_round x"
  using f64_round_coarse(1) [of x] by simp

lemma f64_round_nonneg: "0 \<le> x \<Longrightarrow> 0 \<le> f64_round x"
  using f64_round_coarse(1) [of x] by simp

lemma f64_of_nonneg: "0 \<le> f64_of n"
  by (simp add: f64_of_def f64_round_nonneg)

lemma f64_div_nonneg: "0 \<le> a \<Longrightarrow> 0 \<le> b \<Longrightarrow> 0 \<le> f64_div a b"
  by (simp add: f64_div_def f64_round_nonneg)

lemma f64_mul_nonneg: "0 \<le> a \<Longrightarrow> 0 \<le> b \<Longrightarrow> 0 \<le> f64_mul a b"
  by (simp add: f64_mul_def f64_round_nonneg)

text \<open>Rounding keeps order: within a binade the rounding to an integer does, and between two stands the power that ends the lower.\<close>

lemma half_even_mono: "x \<le> y \<Longrightarrow> half_even x \<le> half_even y"
proof (cases "\<lfloor>x\<rfloor> = \<lfloor>y\<rfloor>")
  case True
  assume "x \<le> y"
  then show ?thesis by (simp add: half_even_def Let_def True)
next
  case False
  assume "x \<le> y"
  then have "\<lfloor>x\<rfloor> + 1 \<le> \<lfloor>y\<rfloor>" using False floor_mono [of x y] by linarith
  moreover have "half_even x \<le> \<lfloor>x\<rfloor> + 1" "\<lfloor>y\<rfloor> \<le> half_even y" by (simp_all add: half_even_def Let_def)
  ultimately show ?thesis by linarith
qed

lemma f64_round_binade:
  assumes "0 < x"
  shows "2 powi f64_exponent x \<le> f64_round x" and "f64_round x \<le> 2 powi (f64_exponent x + 1)"
proof -
  let ?e = "f64_exponent x" and ?u = "ulp x"
  have u: "?u = 2 powi (?e - 52)" "0 < ?u" using assms by (simp_all add: ulp_def)
  have q: "2 powi (?e + k) / ?u = 2 powi (52 + k)" for k
    using power_int_diff [of "2::real" "?e + k" "?e - 52"] by (simp add: u(1) add.commute)
  have lo: "of_int (2 ^ 52) \<le> x / ?u" and hi: "x / ?u \<le> of_int (2 ^ 53)"
    using f64_exponent_bounds [OF assms] q [of 0] q [of 1] u(2)
      divide_right_mono [of "2 powi ?e" x ?u] divide_right_mono [of x "2 powi (?e + 1)" ?u] by simp_all
  have "2 ^ 52 \<le> half_even (x / ?u)" "half_even (x / ?u) \<le> 2 ^ 53"
    using half_even_mono [OF lo] half_even_mono [OF hi] by (simp_all only: half_even_int)
  then have "(2 ^ 52 :: real) \<le> of_int (half_even (x / ?u))" "of_int (half_even (x / ?u)) \<le> (2 ^ 53 :: real)"
    by (metis of_int_le_iff of_int_numeral of_int_power)+
  then have "2 ^ 52 * ?u \<le> f64_round x" "f64_round x \<le> 2 ^ 53 * ?u"
    using assms u(2) by (simp_all add: f64_round_def)
  moreover have "2 ^ 52 * ?u = 2 powi ?e" "2 ^ 53 * ?u = 2 powi (?e + 1)"
    using q [of 0] q [of 1] u(2) by (simp_all add: field_simps)
  ultimately show "2 powi ?e \<le> f64_round x" and "f64_round x \<le> 2 powi (?e + 1)" by simp_all
qed

lemma f64_round_mono:
  assumes "0 \<le> x" and "x \<le> y"
  shows "f64_round x \<le> f64_round y"
proof (cases "x = 0")
  case True
  then show ?thesis using assms f64_round_nonneg [of y] by (simp add: f64_round_def)
next
  case False
  then have x: "0 < x" and y: "0 < y" using assms by simp_all
  have le: "f64_exponent x \<le> f64_exponent y"
  proof (rule ccontr)
    assume "\<not> ?thesis"
    then have "(2::real) powi (f64_exponent y + 1) \<le> 2 powi f64_exponent x" by (intro power_int_increasing) simp_all
    then show False using f64_exponent_bounds(1) [OF x] f64_exponent_bounds(2) [OF y] assms(2) by linarith
  qed
  show ?thesis
  proof (cases "f64_exponent x = f64_exponent y")
    case True
    then have "ulp x = ulp y" using x y by (simp add: ulp_def)
    then show ?thesis using x y ulp_pos [of y] assms(2)
      by (simp add: f64_round_def mult_right_mono half_even_mono divide_right_mono)
  next
    case False
    with le have "(2::real) powi (f64_exponent x + 1) \<le> 2 powi f64_exponent y" by (intro power_int_increasing) simp_all
    then show ?thesis using f64_round_binade(2) [OF x] f64_round_binade(1) [OF y] by linarith
  qed
qed

lemma f64_round_nat: "n < 2 ^ 53 \<Longrightarrow> f64_round (of_nat n) = of_nat n"
  using f64_of_exact [of n] by (simp add: f64_of_def)

lemma f64_round_le_nat: "0 \<le> x \<Longrightarrow> x \<le> of_nat n \<Longrightarrow> n < 2 ^ 53 \<Longrightarrow> f64_round x \<le> of_nat n"
  using f64_round_mono [of x "of_nat n"] by (simp add: f64_round_nat)

lemma f64_round_ge_nat: "of_nat n \<le> x \<Longrightarrow> n < 2 ^ 53 \<Longrightarrow> of_nat n \<le> f64_round x"
  using f64_round_mono [of "of_nat n" x] by (simp add: f64_round_nat)

text \<open>A rounded value is its own rounding.\<close>

lemma f64_exponent_unique:
  assumes "0 < x" and "2 powi e \<le> x" and "x < 2 powi (e + 1)"
  shows "f64_exponent x = e"
proof -
  have "(2::real) powi e < 2 powi (f64_exponent x + 1)" "(2::real) powi f64_exponent x < 2 powi (e + 1)"
    using f64_exponent_bounds [OF assms(1)] assms(2,3) by linarith+
  then have "e < f64_exponent x + 1" "f64_exponent x < e + 1"
    by (metis not_less one_le_numeral power_int_increasing)+
  then show ?thesis by simp
qed

lemma f64_round_idem:
  assumes "0 \<le> x"
  shows "f64_round (f64_round x) = f64_round x"
proof (cases "x = 0")
  case True
  then show ?thesis by (simp add: f64_round_def)
next
  case False
  then have x: "0 < x" using assms by simp
  let ?e = "f64_exponent x" and ?y = "f64_round x" and ?n = "half_even (x / ulp x)"
  have y: "0 < ?y" by (rule f64_round_pos [OF x])
  have n: "?y = of_int ?n * 2 powi (?e - 52)" using x by (simp add: f64_round_def ulp_def)
  have "\<exists>m :: int. ?y / ulp ?y = of_int m"
  proof (cases "?y < 2 powi (?e + 1)")
    case True
    then have "ulp ?y = 2 powi (?e - 52)"
      using f64_exponent_unique [OF y f64_round_binade(1) [OF x]] y by (simp add: ulp_def)
    then show ?thesis using n by simp
  next
    case False
    then have eq: "?y = 2 powi (?e + 1)" using f64_round_binade(2) [OF x] by simp
    have "f64_exponent ?y = ?e + 1" unfolding eq by (rule f64_exponent_unique) (simp_all add: power_int_strict_increasing)
    then have "ulp ?y = 2 powi (?e + 1 - 52)" using y by (simp add: ulp_def)
    then have "?y / ulp ?y = of_int (2 ^ 52)" unfolding eq using power_int_diff [of "2::real" "?e + 1" "?e + 1 - 52"] by simp
    then show ?thesis by blast
  qed
  then obtain m :: int where m: "?y / ulp ?y = of_int m" by blast
  then have "f64_round ?y = of_int m * ulp ?y" using y unfolding f64_round_def [of ?y] by simp
  also have "\<dots> = ?y" using m ulp_pos [of ?y] by (simp add: field_simps)
  finally show ?thesis .
qed

lemma f64_of_mono: "n \<le> m \<Longrightarrow> f64_of n \<le> f64_of m"
  by (simp add: f64_of_def f64_round_mono)

end
