(* ===== verification/Findings.thy ===== *)
theory Findings
  imports "HOL-Library.Option_ord" Intake Float64
begin

text \<open>
  What the commands that judge a capture share: the findings of \<open>s3tap-schema/lib.rs\<close>, the populations of
  \<open>s3tap-doctor/lib.rs\<close> and \<open>s3tap-advisor/render.rs\<close>, the constructor of \<open>s3tap-advisor/fields.rs\<close>, and the
  arithmetic of \<open>f64\<close>. A finding keeps what it says of the capture, not its titles and texts.
\<close>

section \<open>Findings\<close>

datatype severity = Healthy | Warn | Advisory | Unjudged
datatype domain = DomNetwork | DomClient | DomS3 | DomRun
datatype sample_kind = KindOperation | KindConnection | KindMixed

record population =
  pn_judged :: nat
  pn_excluded :: nat
  pn_kind :: sample_kind

record finding_scope =
  fs_s3_op :: "string option"
  fs_bucket :: "string option"
  fs_prefix_hash :: "string option"
  fs_region :: "string option"
  fs_app_pid :: "u32 option"

definition whole_capture :: finding_scope where
  "whole_capture = \<lparr>fs_s3_op = None, fs_bucket = None, fs_prefix_hash = None, fs_region = None, fs_app_pid = None\<rparr>"

abbreviation pid_scope :: "u32 \<Rightarrow> finding_scope" where "pid_scope pid \<equiv> whole_capture\<lparr>fs_app_pid := Some pid\<rparr>"

record time_window =
  tw_start :: u64
  tw_end :: u64

record evidence =
  ev_op_ids :: "string list"
  ev_sock_cookies :: "string list"
  ev_aws_request_ids :: "string list"

definition no_evidence :: evidence where
  "no_evidence = \<lparr>ev_op_ids = [], ev_sock_cookies = [], ev_aws_request_ids = []\<rparr>"

datatype metric_value = Num real | Str string
datatype metric_unit = URatio | UNs | UUs | UMs | UCount | UBytesPerS | UNone

record finding =
  fd_id :: string
  fd_source_schema :: "string list"
  fd_domain :: domain
  fd_severity :: severity
  fd_metric :: string
  fd_value :: "metric_value option"
  fd_unit :: metric_unit
  fd_baseline_rtt_us :: "nat option"
  fd_ratio_to_rtt :: "real option"
  fd_sample :: population
  fd_scope :: finding_scope
  fd_window :: time_window
  fd_evidence :: evidence

datatype src = SrcOps | SrcConns

definition schemas :: "src \<Rightarrow> string list" where
  "schemas s = (case s of SrcOps \<Rightarrow> [OPERATION_SCHEMA] | SrcConns \<Rightarrow> [CONNECTION_SCHEMA])"

definition advisory ::
    "string \<Rightarrow> src \<Rightarrow> domain \<Rightarrow> severity \<Rightarrow> string \<Rightarrow> real option \<Rightarrow> metric_unit \<Rightarrow> finding_scope \<Rightarrow> time_window \<Rightarrow> population \<Rightarrow> finding" where
  "advisory fid s dm sev mt v u scope w p =
    \<lparr>fd_id = fid, fd_source_schema = schemas s, fd_domain = dm, fd_severity = sev, fd_metric = mt,
     fd_value = map_option Num v, fd_unit = u,
     fd_baseline_rtt_us = None, fd_ratio_to_rtt = None, fd_sample = p,
     fd_scope = scope, fd_window = w, fd_evidence = no_evidence\<rparr>"

section \<open>Records and populations\<close>

text \<open>\<open>entry(k).or_default()\<close> of a map, with what is done to the entry.\<close>

definition entry_mod :: "'k \<Rightarrow> 'v \<Rightarrow> ('v \<Rightarrow> 'v) \<Rightarrow> ('k, 'v) fmap \<Rightarrow> ('k, 'v) fmap" where
  "entry_mod k d f m = fmupd k (f (case fmlookup m k of Some v \<Rightarrow> v | None \<Rightarrow> d)) m"

definition entry_or :: "'v \<Rightarrow> ('k, 'v) fmap \<Rightarrow> 'k \<Rightarrow> 'v" where
  "entry_or d m k = (case fmlookup m k of Some v \<Rightarrow> v | None \<Rightarrow> d)"

lemma fmlookup_entry_mod [simp]:
  "fmlookup (entry_mod k d f m) l = (if l = k then Some (f (entry_or d m k)) else fmlookup m l)"
  by (simp add: entry_mod_def entry_or_def)

lemma entry_or_entry_mod [simp]:
  "entry_or d (entry_mod k d f m) l = (if l = k then f (entry_or d m k) else entry_or d m l)"
  by (simp add: entry_or_def [of d "entry_mod k d f m"]) (simp add: entry_or_def)

lemma entry_or_empty [simp]: "entry_or d fmempty k = d"
  by (simp add: entry_or_def)

text \<open>Grouping by a key keeps, under each key, the items that have it, in their order.\<close>

definition group_by :: "('a \<Rightarrow> 'k) \<Rightarrow> ('a \<Rightarrow> 'v) \<Rightarrow> 'a list \<Rightarrow> ('k, 'v list) fmap \<Rightarrow> ('k, 'v list) fmap" where
  "group_by key val xs m = fold (\<lambda>x. entry_mod (key x) [] (\<lambda>v. v @ [val x])) xs m"

lemma entry_or_group_by:
  "entry_or [] (group_by key val xs m) k = entry_or [] m k @ map val (filter (\<lambda>x. key x = k) xs)"
  unfolding group_by_def by (induction xs arbitrary: m) auto

lemma fmlookup_group_by:
  "fmlookup (group_by key val xs fmempty) k =
     (let vs = map val (filter (\<lambda>x. key x = k) xs) in if vs = [] then None else Some vs)"
proof -
  have "fmlookup (group_by key val xs m) k =
     (let vs = map val (filter (\<lambda>x. key x = k) xs) in
      if vs = [] then fmlookup m k else Some (entry_or [] m k @ vs))" for m
    unfolding group_by_def
  proof (induction xs arbitrary: m)
    case (Cons x xs)
    show ?case by (simp add: Cons Let_def)
  qed simp
  then show ?thesis by (simp add: Let_def)
qed

lemma list_ex_groups:
  "(\<exists>k vs. fmlookup (group_by key val xs fmempty) k = Some vs \<and> list_ex Q vs) \<longleftrightarrow> list_ex (\<lambda>x. Q (val x)) xs"
  (is "?L \<longleftrightarrow> ?R")
proof
  assume ?L
  then show ?R by (auto simp: fmlookup_group_by Let_def list_ex_iff split: if_splits)
next
  assume ?R
  then obtain x where x: "x \<in> set xs" "Q (val x)" by (auto simp: list_ex_iff)
  then have "fmlookup (group_by key val xs fmempty) (key x) = Some (map val (filter (\<lambda>y. key y = key x) xs))"
    by (auto simp: fmlookup_group_by Let_def filter_empty_conv)
  moreover have "list_ex Q (map val (filter (\<lambda>y. key y = key x) xs))" using x by (auto simp: list_ex_iff)
  ultimately show ?L by blast
qed

text \<open>A walk over the items of a map.\<close>

lemma list_ex_items:
  "list_ex P (concat (map f (sorted_list_of_fmap m))) \<longleftrightarrow> (\<exists>k v. fmlookup m k = Some v \<and> list_ex P (f (k, v)))"
  unfolding list_ex_iff by (simp add: set_sorted_list_of_fmap [symmetric] Bex_def split_paired_Ex) blast

lemma list_all_items:
  "list_all P (concat (map f (sorted_list_of_fmap m))) \<longleftrightarrow> (\<forall>k v. fmlookup m k = Some v \<longrightarrow> list_all P (f (k, v)))"
proof -
  have "list_all P xs \<longleftrightarrow> \<not> list_ex (\<lambda>x. \<not> P x) xs" for xs by (auto simp: list_all_iff list_ex_iff)
  then show ?thesis by (simp add: list_ex_items)
qed

fun operations :: "capture_record list \<Rightarrow> operation list" where
  "operations [] = []"
| "operations (CapturedOperation o' # rs) = o' # operations rs"
| "operations (_ # rs) = operations rs"

fun connections :: "capture_record list \<Rightarrow> connection list" where
  "connections [] = []"
| "connections (CapturedConnection c # rs) = c # connections rs"
| "connections (_ # rs) = connections rs"

lemma set_operations: "set (operations rs) = {o'. CapturedOperation o' \<in> set rs}"
  by (induction rs rule: operations.induct) auto

abbreviation op_pid :: "operation \<Rightarrow> u32" where "op_pid o' \<equiv> app_pid (o_app o')"

text \<open>The windows: of some operations, and of a whole capture.\<close>

definition record_ts :: "capture_record \<Rightarrow> u64 option" where
  "record_ts r = (case r of CapturedOperation o' \<Rightarrow> o_ts_ns o' | CapturedConnection c \<Rightarrow> cn_ts_ns c
     | CapturedSample s \<Rightarrow> sm_ts_ns s)"

definition widen :: "u64 option \<Rightarrow> u64 \<times> u64 \<Rightarrow> u64 \<times> u64" where
  "widen ts w = (case ts of Some t \<Rightarrow> (min (fst w) t, max (snd w) t) | None \<Rightarrow> w)"

definition window_of :: "u64 option list \<Rightarrow> time_window" where
  "window_of tss =
    (let (lo, hi) = fold widen tss (- 1, 0) in
     if lo = - 1 then \<lparr>tw_start = 0, tw_end = 0\<rparr> else \<lparr>tw_start = lo, tw_end = hi\<rparr>)"

definition capture_window :: "capture_record list \<Rightarrow> time_window" where
  "capture_window records = window_of (map record_ts records)"

definition op_window :: "operation list \<Rightarrow> time_window" where
  "op_window ops = window_of (map o_ts_ns ops)"

definition min_or_0 :: "u64 list \<Rightarrow> u64" where "min_or_0 ts = (case ts of [] \<Rightarrow> 0 | t # us \<Rightarrow> fold min us t)"
definition max_or_0 :: "u64 list \<Rightarrow> u64" where "max_or_0 ts = (case ts of [] \<Rightarrow> 0 | t # us \<Rightarrow> fold max us t)"

definition window_and_sample :: "operation list \<Rightarrow> nat \<Rightarrow> time_window \<times> population" where
  "window_and_sample ops excluded =
    (let ts = List.map_filter o_ts_ns ops in
     (\<lparr>tw_start = min_or_0 ts, tw_end = max_or_0 ts\<rparr>,
      \<lparr>pn_judged = length ops, pn_excluded = excluded, pn_kind = KindOperation\<rparr>))"

record op_population_counts =
  op_seen :: nat
  op_answered :: nat

definition nothing_judgeable :: "op_population_counts \<Rightarrow> bool" where
  "nothing_judgeable p = (op_seen p = 0 \<or> op_answered p = 0)"

definition op_population :: "capture_record list \<Rightarrow> op_population_counts" where
  "op_population records =
    fold (\<lambda>r p. case r of
        CapturedOperation o' \<Rightarrow>
          p\<lparr>op_seen := op_seen p + 1, op_answered := op_answered p + (if o_http_status o' \<noteq> None then 1 else 0)\<rparr>
      | _ \<Rightarrow> p) records \<lparr>op_seen = 0, op_answered = 0\<rparr>"

lemma op_population_counts:
  "op_population records =
     \<lparr>op_seen = length (operations records),
      op_answered = length (filter (\<lambda>o'. o_http_status o' \<noteq> None) (operations records))\<rparr>"
proof -
  have "fold (\<lambda>r p. case r of
        CapturedOperation o' \<Rightarrow>
          p\<lparr>op_seen := op_seen p + 1, op_answered := op_answered p + (if o_http_status o' \<noteq> None then 1 else 0)\<rparr>
      | _ \<Rightarrow> p) records p =
     \<lparr>op_seen = op_seen p + length (operations records),
      op_answered = op_answered p + length (filter (\<lambda>o'. o_http_status o' \<noteq> None) (operations records))\<rparr>"
    for p :: op_population_counts
    by (induction records arbitrary: p rule: operations.induct) simp_all
  then show ?thesis by (simp add: op_population_def)
qed

definition advisory_exit :: "finding list \<Rightarrow> op_population_counts \<Rightarrow> bool \<Rightarrow> int" where
  "advisory_exit findings pop strict =
    (if strict \<and> list_ex (\<lambda>f. fd_severity f = Warn \<or> fd_severity f = Advisory) findings then 1
     else if nothing_judgeable pop then 2
     else 0)"

definition unjudged_run_finding :: "capture_record list \<Rightarrow> finding option" where
  "unjudged_run_finding records =
    (let pop = op_population records in
     if \<not> nothing_judgeable pop then None
     else Some (advisory ''advisor-run'' SrcOps DomRun Unjudged ''judgeable_operations'' (Some (f64_of (op_answered pop))) UCount whole_capture
       (capture_window records)
       \<lparr>pn_judged = op_answered pop, pn_excluded = op_seen pop - op_answered pop, pn_kind = KindOperation\<rparr>))"

section \<open>What the doctor shares with the others\<close>

definition is_eligible :: "operation \<Rightarrow> bool" where
  "is_eligible o' =
    ((case o_http_status o' of Some s \<Rightarrow> s | None \<Rightarrow> 0) < 400 \<and> \<not> o_partial o' \<and> o_delimitation o' = Clean)"

definition is_timeable :: "operation \<Rightarrow> bool" where
  "is_timeable o' = (is_eligible o' \<and> o_http_status o' \<noteq> None)"

datatype status_class = Throttle | ServerError | Forbidden | NotFound | BadRequest | ClientError | Success

definition classify_status :: "u16 \<Rightarrow> status_class" where
  "classify_status s =
    (if s = 429 \<or> s = 503 then Throttle
     else if s = 403 then Forbidden
     else if s = 404 then NotFound
     else if s = 400 then BadRequest
     else if 400 \<le> s \<and> s < 500 then ClientError
     else if 500 \<le> s then ServerError
     else Success)"

text \<open>Success is the one class that is not an error.\<close>

lemma classify_success: "classify_status s = Success \<longleftrightarrow> s < 400"
  by (auto simp: classify_status_def word_less_nat_alt word_le_nat_alt)

definition MAX_EVIDENCE :: nat where "MAX_EVIDENCE = 5"

definition add_evidence :: "operation \<Rightarrow> evidence \<Rightarrow> evidence" where
  "add_evidence o' ev =
    (let ev = (if length (ev_op_ids ev) < MAX_EVIDENCE
               then ev\<lparr>ev_op_ids := ev_op_ids ev @ [o_op_id o'],
                       ev_sock_cookies := ev_sock_cookies ev @ [dec_string (unat (o_sock_cookie o'))]\<rparr>
               else ev) in
     if length (ev_aws_request_ids ev) < MAX_EVIDENCE
     then (case o_aws_request_id o' of Some i \<Rightarrow> ev\<lparr>ev_aws_request_ids := ev_aws_request_ids ev @ [i]\<rparr> | None \<Rightarrow> ev)
     else ev)"

definition evidence_of :: "operation list \<Rightarrow> evidence" where
  "evidence_of ops =
    (let ev = fold add_evidence ops no_evidence in ev\<lparr>ev_sock_cookies := remdups_adj (sort (ev_sock_cookies ev))\<rparr>)"

definition median :: "real list \<Rightarrow> real option" where
  "median xs =
    (if xs = [] then None
     else let ys = sort xs; n = length ys in
       Some (if n mod 2 = 1 then ys ! (n div 2) else f64_div (f64_add (ys ! (n div 2 - 1)) (ys ! (n div 2))) 2))"

definition clamp :: "nat \<Rightarrow> nat \<Rightarrow> nat \<Rightarrow> nat" where "clamp lo hi x = (if x < lo then lo else if hi < x then hi else x)"

definition pctl :: "real list \<Rightarrow> real \<Rightarrow> real option" where
  "pctl xs p =
    (if xs = [] then None
     else let ys = sort xs; n = length ys; rank = nat \<lceil>f64_mul (f64_div p 100) (f64_of n)\<rceil> in
       Some (ys ! (clamp 1 n rank - 1)))"

definition MIN_TAIL_SAMPLE :: nat where "MIN_TAIL_SAMPLE = 20"
definition MIN_P99_SAMPLE :: nat where "MIN_P99_SAMPLE = 100"
definition MAX_PLAUSIBLE_RTT_US :: u32 where "MAX_PLAUSIBLE_RTT_US = 30000000"

end
