(* ===== verification/Serial.thy ===== *)
theory Serial
  imports Findings
begin

text \<open>
  The check for requests issued one at a time, of \<open>s3tap-advisor/checks/parallelism.rs\<close>: the requests of
  a process, the sweep over the ends of their intervals, and the gates. The sweep is shown to measure
  what it means to: the instants at which something was in flight, and those at which two
  connections were.
\<close>

section \<open>The population\<close>

type_synonym ts_span = "(u64 \<times> u64) option"

definition widen_span :: "u64 option \<Rightarrow> ts_span \<Rightarrow> ts_span" where
  "widen_span ts sp =
    (case ts of None \<Rightarrow> sp
     | Some t \<Rightarrow> Some (case sp of None \<Rightarrow> (t, t) | Some (lo, hi) \<Rightarrow> (min lo t, max hi t)))"

definition span_window :: "ts_span \<Rightarrow> time_window" where
  "span_window sp = (case sp of None \<Rightarrow> \<lparr>tw_start = 0, tw_end = 0\<rparr> | Some (lo, hi) \<Rightarrow> \<lparr>tw_start = lo, tw_end = hi\<rparr>)"

type_synonym serial_population = "operation list \<times> nat \<times> ts_span"

definition serial_judged :: "operation \<Rightarrow> bool" where
  "serial_judged o' = (\<not> o_partial o' \<and> o_delimitation o' = Clean \<and> o_ts_ns o' \<noteq> None \<and> o_total_ns o' \<noteq> None)"

definition serial_tally :: "operation \<Rightarrow> serial_population \<Rightarrow> serial_population" where
  "serial_tally o' p =
    (case p of (ops, dropped, sp) \<Rightarrow>
      (let sp = widen_span (o_ts_ns o') sp in
       if serial_judged o' then (ops @ [o'], dropped, sp) else (ops, dropped + 1, sp)))"

definition serial_by_pid :: "capture_record list \<Rightarrow> (u32, serial_population) fmap" where
  "serial_by_pid records =
    fold (\<lambda>r m. case r of
        CapturedOperation o' \<Rightarrow>
          if o_s3_op o' \<noteq> Some ''GetObject'' then m else entry_mod (op_pid o') ([], 0, None) (serial_tally o') m
      | _ \<Rightarrow> m) records fmempty"

lemma serial_tally_size:
  "length (fst (serial_tally o' p)) + fst (snd (serial_tally o' p)) = length (fst p) + fst (snd p) + 1"
  by (simp add: serial_tally_def Let_def split: prod.splits)

lemma serial_population_size:
  "(let p = entry_or ([], 0, None) (serial_by_pid records) pid in length (fst p) + fst (snd p)) =
     length (filter (\<lambda>o'. op_pid o' = pid \<and> o_s3_op o' = Some ''GetObject'') (operations records))"
proof -
  let ?size = "\<lambda>p :: serial_population. length (fst p) + fst (snd p)"
  have "?size (entry_or ([], 0, None) (fold (\<lambda>r m. case r of
        CapturedOperation o' \<Rightarrow>
          if o_s3_op o' \<noteq> Some ''GetObject'' then m else entry_mod (op_pid o') ([], 0, None) (serial_tally o') m
      | _ \<Rightarrow> m) records m) pid) = ?size (entry_or ([], 0, None) m pid) +
        length (filter (\<lambda>o'. op_pid o' = pid \<and> o_s3_op o' = Some ''GetObject'') (operations records))" for m
    by (induction records arbitrary: m rule: operations.induct) (simp_all add: serial_tally_size)
  then show ?thesis by (simp add: serial_by_pid_def Let_def)
qed

section \<open>The sweep\<close>

datatype sweep_kind = EndEv | StartEv

instantiation sweep_kind :: linorder
begin
definition less_eq_sweep_kind :: "sweep_kind \<Rightarrow> sweep_kind \<Rightarrow> bool" where "a \<le> b \<longleftrightarrow> a = EndEv \<or> b = StartEv"
definition less_sweep_kind :: "sweep_kind \<Rightarrow> sweep_kind \<Rightarrow> bool" where "a < b \<longleftrightarrow> a = EndEv \<and> b = StartEv"
instance
proof
  fix x y :: sweep_kind
  show "x < y \<longleftrightarrow> x \<le> y \<and> \<not> y \<le> x" "x \<le> y \<or> y \<le> x"
    by (cases x; cases y; simp add: less_eq_sweep_kind_def less_sweep_kind_def)+
qed (auto simp: less_eq_sweep_kind_def intro: sweep_kind.exhaust)
end

type_synonym sweep_event = "u64 \<times> sweep_kind \<times> u64"

definition serial_events :: "operation list \<Rightarrow> sweep_event list" where
  "serial_events ops =
    concat (map (\<lambda>o'.
      let ts = the (o_ts_ns o'); total = the (o_total_ns o') in
      if total = 0 then []
      else [(ts, StartEv, o_sock_cookie o'), (sat_add ts total, EndEv, o_sock_cookie o')]) ops)"

record sweep =
  sw_in_flight :: "(u64, u32) fmap"
  sw_busy_ns :: u64
  sw_overlap_ns :: u64
  sw_prev_ts :: "u64 option"

definition sweep_span :: "u64 \<Rightarrow> sweep \<Rightarrow> sweep" where
  "sweep_span ts s =
    (case sw_prev_ts s of
       None \<Rightarrow> s
     | Some p \<Rightarrow>
         (let sp = ts - p; conc = fmlen (sw_in_flight s) in
          s\<lparr>sw_busy_ns := sw_busy_ns s + (if 1 \<le> conc then sp else 0),
            sw_overlap_ns := sw_overlap_ns s + (if 2 \<le> conc then sp else 0)\<rparr>))"

definition sweep_flight :: "sweep_kind \<Rightarrow> u64 \<Rightarrow> (u64, u32) fmap \<Rightarrow> (u64, u32) fmap" where
  "sweep_flight k cookie m =
    (case k of
       StartEv \<Rightarrow> entry_mod cookie 0 (\<lambda>c. c + 1) m
     | EndEv \<Rightarrow>
         (case fmlookup m cookie of
            None \<Rightarrow> m
          | Some c \<Rightarrow> if c - 1 = 0 then fmdrop cookie m else fmupd cookie (c - 1) m))"

definition sweep_event :: "sweep_event \<Rightarrow> sweep \<Rightarrow> sweep" where
  "sweep_event ev s =
    (case ev of (ts, k, cookie) \<Rightarrow>
      (let s = sweep_span ts s in
       s\<lparr>sw_in_flight := sweep_flight k cookie (sw_in_flight s), sw_prev_ts := Some ts\<rparr>))"

definition sweep_start :: sweep where
  "sweep_start = \<lparr>sw_in_flight = fmempty, sw_busy_ns = 0, sw_overlap_ns = 0, sw_prev_ts = None\<rparr>"

definition serial_sweep :: "operation list \<Rightarrow> sweep" where
  "serial_sweep ops = fold sweep_event (sort (serial_events ops)) sweep_start"

section \<open>The gates\<close>

definition SERIAL_MIN_OPS :: nat where "SERIAL_MIN_OPS = 50"
definition OVERLAP_FRAC_CEIL :: real where "OVERLAP_FRAC_CEIL = f64_round (5 / 100)"
definition BUSY_FLOOR_NS :: nat where "BUSY_FLOOR_NS = 10000000000"
definition BUSY_WINDOW_FRAC :: real where "BUSY_WINDOW_FRAC = f64_round (20 / 100)"
definition MAX_DROPPED_FRAC :: real where "MAX_DROPPED_FRAC = f64_round (20 / 100)"

definition op_end :: "operation \<Rightarrow> u64" where
  "op_end o' = sat_add (the (o_ts_ns o')) (the (o_total_ns o'))"

definition judge_serial :: "u32 \<Rightarrow> operation list \<Rightarrow> nat \<Rightarrow> finding option" where
  "judge_serial pid ops dropped =
    (let s = serial_sweep ops;
         active_window = max_or_0 (map op_end ops) - min_or_0 (map (\<lambda>o'. the (o_ts_ns o')) ops);
         busy_ns = unat (sw_busy_ns s);
         busy_floor = max BUSY_FLOOR_NS (f64_as_nat (f64_mul BUSY_WINDOW_FRAC (f64_of (unat active_window)))) in
     if busy_ns < busy_floor \<or> busy_ns = 0 then None
     else if OVERLAP_FRAC_CEIL \<le> f64_div (f64_of (unat (sw_overlap_ns s))) (f64_of busy_ns) then None
     else Some (advisory ''advisor-serial-requests'' SrcOps DomClient Advisory ''serialized_busy_ms''
       (Some (f64_div (f64_of busy_ns) 1000000)) UMs (pid_scope pid) (fst (window_and_sample ops dropped))
       \<lparr>pn_judged = length ops, pn_excluded = dropped, pn_kind = KindOperation\<rparr>))"

definition serial_of_pid :: "u32 \<times> serial_population \<Rightarrow> finding list" where
  "serial_of_pid e =
    (case e of (pid, ops, dropped, sp) \<Rightarrow>
      (let total_seen = length ops + dropped in
       if total_seen < SERIAL_MIN_OPS then []
       else if f64_mul MAX_DROPPED_FRAC (f64_of total_seen) < f64_of dropped then
         [advisory ''advisor-serial-requests'' SrcOps DomClient Unjudged ''dropped_frac''
            (Some (f64_div (f64_of dropped) (f64_of total_seen))) URatio (pid_scope pid) (span_window sp)
            \<lparr>pn_judged = length ops, pn_excluded = dropped, pn_kind = KindOperation\<rparr>]
       else if length ops < SERIAL_MIN_OPS then []
       else case judge_serial pid ops dropped of Some f \<Rightarrow> [f] | None \<Rightarrow> []))"

definition check_serial_requests :: "capture_record list \<Rightarrow> finding list" where
  "check_serial_requests records = concat (map serial_of_pid (sorted_list_of_fmap (serial_by_pid records)))"

section \<open>What the sweep measures\<close>

text \<open>The connections with a request in flight at an instant.\<close>

definition in_flight_at :: "operation list \<Rightarrow> u64 \<Rightarrow> u64 set" where
  "in_flight_at ops t = {o_sock_cookie o' | o'. o' \<in> set ops \<and> the (o_ts_ns o') \<le> t \<and> t < op_end o'}"

abbreviation ev_count :: "sweep_kind \<Rightarrow> u64 \<Rightarrow> sweep_event list \<Rightarrow> nat" where
  "ev_count k c evs \<equiv> length (filter (\<lambda>(t, k', c'). k' = k \<and> c' = c) evs)"

lemma length_filter_sort: "length (filter P (sort xs)) = length (filter P xs)"
  by (metis mset_filter mset_sort size_mset)

lemma filter_filter_count:
  "ev_count k c (filter P evs) = length (filter (\<lambda>e. P e \<and> fst (snd e) = k \<and> snd (snd e) = c) evs)"
  by (simp add: case_prod_unfold)

text \<open>The requests of a connection with a span, and the events of the sweep up to an instant.\<close>

abbreviation spans_of :: "u64 \<Rightarrow> operation list \<Rightarrow> operation list" where
  "spans_of c ops \<equiv> filter (\<lambda>o'. o_sock_cookie o' = c \<and> the (o_total_ns o') \<noteq> 0) ops"

lemma starts_of_events:
  "length (filter (\<lambda>e. P (fst e) \<and> fst (snd e) = StartEv \<and> snd (snd e) = c) (serial_events ops)) =
     length (filter (\<lambda>o'. P (the (o_ts_ns o'))) (spans_of c ops))"
  unfolding serial_events_def by (induction ops) (simp_all add: Let_def)

lemma ends_of_events:
  "length (filter (\<lambda>e. P (fst e) \<and> fst (snd e) = EndEv \<and> snd (snd e) = c) (serial_events ops)) =
     length (filter (\<lambda>o'. P (op_end o')) (spans_of c ops))"
  unfolding serial_events_def by (induction ops) (simp_all add: Let_def op_end_def)

lemma sorted_counts:
  "ev_count StartEv c (filter (\<lambda>e. P (fst e)) (sort (serial_events ops))) =
     length (filter (\<lambda>o'. P (the (o_ts_ns o'))) (spans_of c ops))"
  "ev_count EndEv c (filter (\<lambda>e. P (fst e)) (sort (serial_events ops))) =
     length (filter (\<lambda>o'. P (op_end o')) (spans_of c ops))"
  by (simp_all only: filter_filter_count length_filter_sort starts_of_events ends_of_events)

lemma op_end_after: "the (o_ts_ns o') \<le> op_end o'"
  unfolding op_end_def by (rule sat_add_ge)

lemma op_end_later:
  assumes "the (o_total_ns o') \<noteq> 0" and "op_end o' \<noteq> - 1"
  shows "the (o_ts_ns o') < op_end o'"
proof -
  have "unat (the (o_ts_ns o')) + unat (the (o_total_ns o')) < 2 ^ 64"
    using assms(2) by (auto simp: op_end_def sat_add_def split: if_splits)
  then have "unat (op_end o') = unat (the (o_ts_ns o')) + unat (the (o_total_ns o'))"
    unfolding op_end_def by (simp add: unat_sat_add)
  moreover have "0 < unat (the (o_total_ns o'))" using assms(1) by (simp add: unat_gt_0)
  ultimately show ?thesis unfolding word_less_nat_alt by linarith
qed

text \<open>
  Up to the last representable instant, no prefix of the sorted events ends a request it did not start:
  an end is later than its start, and at one instant the ends come first.
\<close>

lemma filter_length_mono: "(\<And>x. x \<in> set xs \<Longrightarrow> P x \<Longrightarrow> Q x) \<Longrightarrow> length (filter P xs) \<le> length (filter Q xs)"
  by (induction xs) (auto intro: le_SucI)

lemma sorted_le_last: "sorted xs \<Longrightarrow> x \<in> set xs \<Longrightarrow> x \<le> last xs"
  by (induction xs) auto

lemma sorted_prefix_order:
  assumes "sort (serial_events ops) = pre @ post" and "x \<in> set pre" and "y \<in> set post"
  shows "fst x \<le> fst y"
proof -
  have "sorted (pre @ post)" using assms(1) by (metis sorted_sort)
  then have "x \<le> y" using assms(2,3) by (simp add: sorted_append)
  then show ?thesis by (auto simp: less_eq_prod_def)
qed

lemma prefix_balanced:
  assumes "sort (serial_events ops) = pre @ post" and "\<forall>e\<in>set pre. fst e \<noteq> - 1"
  shows "ev_count EndEv c pre \<le> ev_count StartEv c pre"
proof (cases "pre = []")
  case False
  define T where "T = fst (last pre)"
  let ?L = "sort (serial_events ops)"
  have le: "fst e \<le> T" if "e \<in> set pre" for e
  proof -
    have "sorted pre" using assms(1) sorted_sort [of "serial_events ops"] by (simp add: sorted_append)
    from sorted_le_last [OF this that] have "e \<le> last pre" .
    then show ?thesis by (auto simp: T_def less_eq_prod_def)
  qed
  have T: "T \<noteq> - 1" using assms(2) False by (simp add: T_def)
  have "ev_count EndEv c pre = ev_count EndEv c (filter (\<lambda>e. fst e \<le> T) pre)"
    using le by (metis (mono_tags, lifting) filter_True)
  also have "\<dots> \<le> ev_count EndEv c (filter (\<lambda>e. fst e \<le> T) ?L)" by (simp add: assms(1))
  also have "\<dots> = length (filter (\<lambda>o'. op_end o' \<le> T) (spans_of c ops))" by (rule sorted_counts)
  also have "\<dots> \<le> length (filter (\<lambda>o'. the (o_ts_ns o') < T) (spans_of c ops))"
  proof (rule filter_length_mono)
    fix x assume x: "x \<in> set (spans_of c ops)" "op_end x \<le> T"
    then have "op_end x \<noteq> - 1" using T by (metis word_order.extremum_uniqueI)
    then show "the (o_ts_ns x) < T" using op_end_later [of x] x by force
  qed
  also have "\<dots> = ev_count StartEv c (filter (\<lambda>e. fst e < T) ?L)"
    by (rule sorted_counts(1) [symmetric])
  also have "\<dots> = ev_count StartEv c (filter (\<lambda>e. fst e < T) pre)"
  proof -
    have "T \<le> fst y" if "y \<in> set post" for y
      unfolding T_def using sorted_prefix_order [OF assms(1) last_in_set [OF False] that] .
    then have "filter (\<lambda>e. fst e < T) post = []" by (force simp: filter_empty_conv)
    then show ?thesis by (simp add: assms(1))
  qed
  also have "\<dots> \<le> ev_count StartEv c pre" unfolding filter_filter by (rule filter_length_mono) simp
  finally show ?thesis .
qed simp

lemma sw_in_flight_span [simp]: "sw_in_flight (sweep_span ts s) = sw_in_flight s"
  by (simp add: sweep_span_def Let_def split: option.splits)

lemma sweep_event_flight:
  "sw_in_flight (sweep_event (ts, k, c) s) = sweep_flight k c (sw_in_flight s)"
  by (simp add: sweep_event_def Let_def)

lemma sweep_event_after:
  assumes "sw_prev_ts s = Some p"
  shows "sw_prev_ts (sweep_event (ts, k, c) s) = Some ts"
    and "sw_busy_ns (sweep_event (ts, k, c) s) = sw_busy_ns s + (if 1 \<le> fmlen (sw_in_flight s) then ts - p else 0)"
    and "sw_overlap_ns (sweep_event (ts, k, c) s) = sw_overlap_ns s + (if 2 \<le> fmlen (sw_in_flight s) then ts - p else 0)"
  by (simp_all add: sweep_event_def sweep_span_def assms Let_def)

lemma starts_bounded:
  assumes "sort (serial_events ops) = pre @ post"
  shows "ev_count StartEv c pre \<le> length ops"
proof -
  have "ev_count StartEv c pre \<le> ev_count StartEv c (filter (\<lambda>e. True) (sort (serial_events ops)))"
    by (simp add: assms)
  also have "\<dots> \<le> length ops"
    using sorted_counts(1) [of c "\<lambda>_. True" ops] by (simp add: le_trans [OF length_filter_le])
  finally show ?thesis .
qed

text \<open>So the reference counts are exact until then.\<close>

definition counted :: "nat \<Rightarrow> u32 option" where
  "counted n = (if n = 0 then None else Some (of_nat n))"

lemma counted_flight:
  assumes "fmlookup m c = counted (s - e)" and "e \<le> s" and "s < 2 ^ 32"
  shows "s + 1 < 2 ^ 32 \<Longrightarrow> fmlookup (sweep_flight StartEv c m) c = counted (s + 1 - e)"
    and "e < s \<Longrightarrow> fmlookup (sweep_flight EndEv c m) c = counted (s - (e + 1))"
proof -
  assume "s + 1 < 2 ^ 32"
  then show "fmlookup (sweep_flight StartEv c m) c = counted (s + 1 - e)"
    using assms by (auto simp: sweep_flight_def counted_def entry_or_def Suc_diff_le)
next
  assume less: "e < s"
  obtain d where d: "s - e = Suc d" using less by (metis Suc_diff_Suc)
  then have "d < 2 ^ 32" using assms(3) by linarith
  then have "(of_nat d = (0::u32)) = (d = 0)"
    using nat_dvd_not_less [of d "2 ^ 32"] by (auto simp: word_of_nat_eq_0_iff)
  moreover have "s - (e + 1) = d" using d by simp
  ultimately show "fmlookup (sweep_flight EndEv c m) c = counted (s - (e + 1))"
    using assms(1) d by (simp add: sweep_flight_def counted_def)
qed

lemma sweep_flight_other: "c' \<noteq> c \<Longrightarrow> fmlookup (sweep_flight k c m) c' = fmlookup m c'"
  by (auto simp: sweep_flight_def split: sweep_kind.splits option.splits)

lemma in_flight_exact:
  assumes "length ops < 2 ^ 32" and "sort (serial_events ops) = pre @ post" and "\<forall>e\<in>set pre. fst e \<noteq> - 1"
  shows "fmlookup (sw_in_flight (fold sweep_event pre sweep_start)) c =
    counted (ev_count StartEv c pre - ev_count EndEv c pre)"
  using assms(2,3)
proof (induction pre arbitrary: post c rule: rev_induct)
  case Nil
  then show ?case by (simp add: sweep_start_def counted_def)
next
  case (snoc ev pre)
  obtain t k c' where ev: "ev = (t, k, c')" by (cases ev)
  let ?m = "sw_in_flight (fold sweep_event pre sweep_start)"
  have split: "sort (serial_events ops) = pre @ ev # post" using snoc.prems by simp
  have IH: "fmlookup ?m c = counted (ev_count StartEv c pre - ev_count EndEv c pre)" for c
    using snoc.IH [OF split] snoc.prems by simp
  have before: "ev_count EndEv c pre \<le> ev_count StartEv c pre"
    using prefix_balanced [OF split] snoc.prems by simp
  have after: "ev_count EndEv c (pre @ [ev]) \<le> ev_count StartEv c (pre @ [ev])" for c
    using prefix_balanced [OF snoc.prems] .
  have small: "ev_count StartEv c (pre @ [ev]) < 2 ^ 32" for c
    using starts_bounded [OF snoc.prems(1), of c] assms(1) by linarith
  show ?case
  proof (cases "c = c'")
    case False
    then show ?thesis using IH by (simp add: ev sweep_event_flight sweep_flight_other)
  next
    case True
    note step = counted_flight [OF IH before]
    show ?thesis
    proof (cases k)
      case StartEv
      then show ?thesis using step(1) small [of c] True by (simp add: ev sweep_event_flight)
    next
      case EndEv
      then show ?thesis using step(2) after [of c] small [of c] True by (simp add: ev sweep_event_flight)
    qed
  qed
qed

text \<open>Between two events the counts are the connections in flight.\<close>

lemma live_counts:
  assumes split: "sort (serial_events ops) = pre @ post"
    and pre: "\<forall>e\<in>set pre. fst e \<le> t" and post: "\<forall>e\<in>set post. t < fst e"
  shows "c \<in> in_flight_at ops t \<longleftrightarrow> ev_count EndEv c pre < ev_count StartEv c pre"
proof -
  have "filter (\<lambda>e. fst e \<le> t) (sort (serial_events ops)) = pre"
    using pre post by (auto simp: split filter_empty_conv filter_id_conv not_le)
  then have counts: "ev_count StartEv c pre = length (filter (\<lambda>o'. the (o_ts_ns o') \<le> t) (spans_of c ops))"
    "ev_count EndEv c pre = length (filter (\<lambda>o'. op_end o' \<le> t) (spans_of c ops))"
    using sorted_counts [of c "\<lambda>x. x \<le> t" ops] by simp_all
  have sum: "length (filter (\<lambda>o'. the (o_ts_ns o') \<le> t) xs) =
      length (filter (\<lambda>o'. the (o_ts_ns o') \<le> t \<and> t < op_end o') xs) + length (filter (\<lambda>o'. op_end o' \<le> t) xs)" for xs
  proof (induction xs)
    case (Cons x xs)
    show ?case using Cons order_trans [OF op_end_after [of x], of t] by (auto simp: not_less)
  qed simp
  have zero: "op_end x = the (o_ts_ns x)" if "the (o_total_ns x) = 0" for x
    using that by (simp add: op_end_def)
  have "c \<in> in_flight_at ops t \<longleftrightarrow> filter (\<lambda>o'. the (o_ts_ns o') \<le> t \<and> t < op_end o') (spans_of c ops) \<noteq> []"
    unfolding in_flight_at_def filter_empty_conv using zero by (auto simp: leD)
  then show ?thesis unfolding counts sum by auto
qed

lemma in_flight_len:
  assumes "length ops < 2 ^ 32" and "sort (serial_events ops) = pre @ post"
    and "\<forall>e\<in>set pre. fst e \<le> t" and "\<forall>e\<in>set post. t < fst e" and "t \<noteq> - 1"
  shows "fmlen (sw_in_flight (fold sweep_event pre sweep_start)) = card (in_flight_at ops t)"
proof -
  have "\<forall>e\<in>set pre. fst e \<noteq> - 1" using assms(3,5) by (metis word_order.extremum_uniqueI)
  note exact = in_flight_exact [OF assms(1,2) this]
  have "fmdom' (sw_in_flight (fold sweep_event pre sweep_start)) = in_flight_at ops t"
    unfolding set_eq_iff in_fmdom'_iff exact live_counts [OF assms(2-4)] by (auto simp: counted_def)
  then show ?thesis by (simp add: fmlen_def)
qed

lemma card_word_interval: "card {a..<b} = unat b - unat a" for a b :: "'a::len word"
proof -
  have "bij_betw unat {a..<b} {unat a..<unat b}"
    unfolding bij_betw_def
  proof (intro conjI)
    show "inj_on unat {a..<b}" by (rule inj_onI) (simp add: word_unat_eq_iff)
    show "unat ` {a..<b} = {unat a..<unat b}"
    proof (intro equalityI subsetI)
      fix n assume n: "n \<in> {unat a..<unat b}"
      then have "n < 2 ^ LENGTH('a)" using unat_bound [of b] by (auto intro: less_trans)
      then have "unat (of_nat n :: 'a word) = n" by (simp add: unat_of_nat)
      then show "n \<in> unat ` {a..<b}" using n
        by (intro image_eqI [of _ _ "of_nat n"]) (simp_all add: word_le_nat_alt word_less_nat_alt)
    qed (auto simp: word_le_nat_alt word_less_nat_alt)
  qed
  then show ?thesis by (simp add: bij_betw_same_card)
qed

text \<open>A stretch in which nothing changes counts whole or not at all.\<close>

lemma card_stretch:
  fixes p ts :: u64
  assumes "p \<le> ts" and "\<And>t. p \<le> t \<Longrightarrow> t < ts \<Longrightarrow> Q t \<longleftrightarrow> b"
  shows "(of_nat (card {t. t < ts \<and> Q t}) :: u64) = of_nat (card {t. t < p \<and> Q t}) + (if b then ts - p else 0)"
proof -
  have "{t. t < ts \<and> Q t} = {t. t < p \<and> Q t} \<union> (if b then {p..<ts} else {})"
    using assms by (auto simp: not_le) (meson less_le_trans not_le)+
  moreover have "{t. t < p \<and> Q t} \<inter> {p..<ts} = {}" by auto
  ultimately have "card {t. t < ts \<and> Q t} = card {t. t < p \<and> Q t} + (if b then unat ts - unat p else 0)"
    by (simp add: card_Un_disjoint card_word_interval)
  then show ?thesis using assms(1) by (simp add: of_nat_diff word_le_nat_alt)
qed

definition measured :: "operation list \<Rightarrow> sweep_event list \<Rightarrow> sweep \<Rightarrow> bool" where
  "measured ops pre s \<longleftrightarrow>
    sw_prev_ts s = Some (fst (last pre))
    \<and> sw_busy_ns s = of_nat (card {t. t < fst (last pre) \<and> 1 \<le> card (in_flight_at ops t)})
    \<and> sw_overlap_ns s = of_nat (card {t. t < fst (last pre) \<and> 2 \<le> card (in_flight_at ops t)})"

lemma sweep_measured:
  assumes "length ops < 2 ^ 32" and "sort (serial_events ops) = pre @ post" and "pre \<noteq> []"
  shows "measured ops pre (fold sweep_event pre sweep_start)"
  using assms(2,3)
proof (induction pre arbitrary: post rule: rev_induct)
  case (snoc ev pre)
  obtain ts k c where ev: "ev = (ts, k, c)" by (cases ev)
  let ?s = "fold sweep_event pre sweep_start"
  have split: "sort (serial_events ops) = pre @ ev # post" using snoc.prems by simp
  have later: "ts \<le> fst y" if "y \<in> set (ev # post)" for y
  proof (cases "y = ev")
    case False
    then show ?thesis using sorted_prefix_order [OF snoc.prems(1), of ev y] that by (simp add: ev)
  qed (simp add: ev)
  have len: "fmlen (sw_in_flight ?s) = card (in_flight_at ops t)"
    if "t < ts" "\<forall>e\<in>set pre. fst e \<le> t" for t
  proof (rule in_flight_len [OF assms(1) split that(2)])
    show "\<forall>e\<in>set (ev # post). t < fst e" using less_le_trans [OF that(1) later] by blast
    show "t \<noteq> - 1" using that(1) by (metis not_less word_order.extremum)
  qed
  show ?case
  proof (cases "pre = []")
    case True
    have "card (in_flight_at ops t) = 0" if "t < ts" for t using len [OF that] True by (simp add: sweep_start_def)
    then have none: "{t. t < ts \<and> n \<le> card (in_flight_at ops t)} = {}" if "0 < n" for n
      using that by force
    show ?thesis using True
      by (simp add: none measured_def ev sweep_event_def sweep_span_def sweep_start_def)
  next
    case False
    define p where "p = fst (last pre)"
    from snoc.IH [OF split False] have IH: "measured ops pre ?s" .
    have le: "p \<le> ts" unfolding p_def using sorted_prefix_order [OF split last_in_set [OF False], of ev] by (simp add: ev)
    have "fst e \<le> p" if "e \<in> set pre" for e
    proof -
      have "sorted pre" using split sorted_sort [of "serial_events ops"] by (simp add: sorted_append)
      from sorted_le_last [OF this that] show ?thesis by (auto simp: p_def less_eq_prod_def)
    qed
    then have here: "card (in_flight_at ops t) = fmlen (sw_in_flight ?s)" if "p \<le> t" "t < ts" for t
      using len [of t] that by (metis order_trans)
    have step: "of_nat (card {t. t < ts \<and> n \<le> card (in_flight_at ops t)}) =
      (of_nat (card {t. t < p \<and> n \<le> card (in_flight_at ops t)}) :: u64)
      + (if n \<le> fmlen (sw_in_flight ?s) then ts - p else 0)" for n
      by (rule card_stretch [OF le]) (simp add: here)
    from IH have "sw_prev_ts ?s = Some p" by (simp only: measured_def p_def)
    note after = sweep_event_after [OF this, of ts k c]
    show ?thesis using IH unfolding measured_def fold_append comp_def fold_simps id_apply ev after
      by (simp only: step p_def last_snoc fst_conv simp_thms)
  qed
qed simp

lemma nothing_after_the_last:
  assumes "sort (serial_events ops) = L" and "L \<noteq> []" and "fst (last L) \<le> t"
  shows "in_flight_at ops t = {}"
proof -
  have "op_end o' \<le> t" if o': "o' \<in> set ops" "the (o_total_ns o') \<noteq> 0" for o'
  proof -
    have "(op_end o', EndEv, o_sock_cookie o') \<in> set (serial_events ops)"
      using o' unfolding serial_events_def op_end_def by (auto simp: Let_def intro!: bexI [of _ o'])
    then have "(op_end o', EndEv, o_sock_cookie o') \<in> set L" by (simp flip: assms(1))
    moreover have "sorted L" using assms(1) by auto
    ultimately have "(op_end o', EndEv, o_sock_cookie o') \<le> last L" by (simp add: sorted_le_last)
    then show ?thesis using assms(3) by (auto simp: less_eq_prod_def)
  qed
  then show ?thesis by (auto simp: in_flight_at_def op_end_def leD) (metis leD op_end_def sat_add_0_right)
qed

lemma unat_card_instants: "unat (of_nat (card {t. t < ts \<and> Q t}) :: u64) = card {t. t < ts \<and> Q t}" for ts :: u64
proof -
  have "card {t. t < ts \<and> Q t} \<le> card {0..<ts}" by (rule card_mono) auto
  then show ?thesis using unat_bound [of ts] by (simp add: card_word_interval unat_of_nat)
qed

lemma busy_measured:
  assumes "length ops < 2 ^ 32"
  shows "unat (sw_busy_ns (serial_sweep ops)) = card {t. 1 \<le> card (in_flight_at ops t)}
    \<and> unat (sw_overlap_ns (serial_sweep ops)) = card {t. 2 \<le> card (in_flight_at ops t)}"
proof (cases "sort (serial_events ops) = []")
  case True
  have "in_flight_at ops t = {}" for t
  proof -
    have "c \<in> in_flight_at ops t \<longleftrightarrow> False" for c using live_counts [of ops "[]" "[]" t c] True by simp
    then show ?thesis by blast
  qed
  then show ?thesis by (simp add: serial_sweep_def True sweep_start_def)
next
  case False
  let ?L = "sort (serial_events ops)"
  from sweep_measured [OF assms, of ?L "[]"] False
  have m: "measured ops ?L (serial_sweep ops)" by (simp add: serial_sweep_def)
  have before: "t < fst (last ?L)" if "n \<le> card (in_flight_at ops t)" "0 < n" for t n
    using nothing_after_the_last [OF refl False, of t] that by (cases "t < fst (last ?L)") (auto simp: not_less)
  have sets: "{t. t < fst (last ?L) \<and> n \<le> card (in_flight_at ops t)} = {t. n \<le> card (in_flight_at ops t)}"
    if "0 < n" for n
    using before [OF _ that] by blast
  have "unat (sw_busy_ns (serial_sweep ops)) = card {t. t < fst (last ?L) \<and> 1 \<le> card (in_flight_at ops t)}"
    "unat (sw_overlap_ns (serial_sweep ops)) = card {t. t < fst (last ?L) \<and> 2 \<le> card (in_flight_at ops t)}"
    using m unfolding measured_def by (simp_all only: unat_card_instants)
  then show ?thesis by (simp only: sets zero_less_one zero_less_numeral simp_thms)
qed

text \<open>C19: the sweep of \<open>check_serial_requests\<close> measures concurrency: its busy time is the number of instants
  at which some request of the process was in flight, and its overlap the number of those at which
  requests on two connections were, whatever the order of the requests and however they end.
\<close>

theorem sweep_measures_concurrency:
  assumes "length ops < 2 ^ 32"
  shows "unat (sw_busy_ns (serial_sweep ops)) = card {t. 1 \<le> card (in_flight_at ops t)}
    \<and> unat (sw_overlap_ns (serial_sweep ops)) = card {t. 2 \<le> card (in_flight_at ops t)}"
  using assms by (rule busy_measured)

definition served :: "u64 \<Rightarrow> u64 \<Rightarrow> u64 \<Rightarrow> operation" where
  "served cookie ts dur =
    operation_default\<lparr>o_sock_cookie := cookie, o_ts_ns := Some ts, o_total_ns := Some dur, o_s3_op := Some ''GetObject''\<rparr>"

theorem sweep_measures_concurrency_witness:
  "unat (sw_busy_ns (serial_sweep [served 1 100 10, served 2 105 20, served 1 400 0]))
     = card {t. 1 \<le> card (in_flight_at [served 1 100 10, served 2 105 20, served 1 400 0] t)}
   \<and> unat (sw_overlap_ns (serial_sweep [served 1 100 10, served 2 105 20, served 1 400 0]))
     = card {t. 2 \<le> card (in_flight_at [served 1 100 10, served 2 105 20, served 1 400 0] t)}"
  by (rule sweep_measures_concurrency) simp

section \<open>What a finding of the check rests on\<close>

text \<open>Rounding cannot bring a tenth below the ceiling of a twentieth.\<close>

lemma f64_ratio_ge:
  assumes "0 < b" and "b \<le> 10 * a"
  shows "9 / 100 \<le> f64_div (f64_of a) (f64_of b)"
proof -
  let ?e = "1 / 2 ^ 53 :: real"
  have a: "real a * (1 - ?e) \<le> f64_of a" and b: "f64_of b \<le> real b * (1 + ?e)"
    unfolding f64_of_def by (simp_all only: f64_round_bounds of_nat_0_le_iff)
  have "0 < real b * (1 - ?e)" using assms(1) by simp
  also have "\<dots> \<le> f64_of b" unfolding f64_of_def by (simp only: f64_round_bounds of_nat_0_le_iff)
  finally have pos: "0 < f64_of b" .
  have "real b \<le> 10 * real a" using assms(2) by (metis of_nat_le_iff of_nat_mult of_nat_numeral)
  then have "95 / 1000 * (real b * (1 + ?e)) \<le> real a * (1 - ?e)" by (simp add: field_simps)
  then have "95 / 1000 * f64_of b \<le> f64_of a" using a b by argo
  then have q: "95 / 1000 \<le> f64_of a / f64_of b" using pos by (simp add: pos_le_divide_eq)
  then have "f64_of a / f64_of b * (1 - ?e) \<le> f64_div (f64_of a) (f64_of b)"
    unfolding f64_div_def by (intro f64_round_bounds) linarith
  moreover have "95 / 1000 * (1 - ?e) \<le> f64_of a / f64_of b * (1 - ?e)" using q by (intro mult_right_mono) simp_all
  ultimately show ?thesis by simp
qed

lemma overlap_ceil_small: "OVERLAP_FRAC_CEIL \<le> 6 / 100"
  using f64_round_bounds(2) [of "5 / 100"] by (simp add: OVERLAP_FRAC_CEIL_def)

text \<open>\<open>judge_pid\<close> advises a process to issue its requests in parallel only when something was in flight
  for ten seconds or more of the capture, and two connections were at once for less than a tenth of
  that time.
\<close>

theorem serial_advice_earned:
  assumes "length ops < 2 ^ 32" and "judge_serial pid ops dropped \<noteq> None"
  shows "10 ^ 10 \<le> card {t. 1 \<le> card (in_flight_at ops t)}
    \<and> 10 * card {t. 2 \<le> card (in_flight_at ops t)} < card {t. 1 \<le> card (in_flight_at ops t)}"
proof -
  let ?busy = "unat (sw_busy_ns (serial_sweep ops))" and ?overlap = "unat (sw_overlap_ns (serial_sweep ops))"
  have "BUSY_FLOOR_NS \<le> ?busy" "0 < ?busy"
    and "\<not> OVERLAP_FRAC_CEIL \<le> f64_div (f64_of ?overlap) (f64_of ?busy)"
    using assms(2) by (auto simp: judge_serial_def Let_def split: if_splits)
  then have "10 ^ 10 \<le> ?busy \<and> 10 * ?overlap < ?busy"
    using f64_ratio_ge [of ?busy ?overlap] overlap_ceil_small by (fastforce simp: BUSY_FLOOR_NS_def)
  moreover note busy_measured [OF assms(1)]
  ultimately show ?thesis by simp
qed

theorem serial_advice_earned_witness:
  "10 ^ 10 \<le> card {t. 1 \<le> card (in_flight_at [served 1 5 10000000000] t)}
   \<and> 10 * card {t. 2 \<le> card (in_flight_at [served 1 5 10000000000] t)}
     < card {t. 1 \<le> card (in_flight_at [served 1 5 10000000000] t)}"
proof (rule serial_advice_earned)
  let ?ops = "[served 1 5 10000000000]"
  have sweep: "sw_busy_ns (serial_sweep ?ops) = 10000000000" "sw_overlap_ns (serial_sweep ?ops) = 0"
    by (simp_all add: serial_sweep_def serial_events_def served_def sat_add_def sweep_event_def sweep_span_def
        sweep_start_def sweep_flight_def fm_simps entry_mod_def less_eq_prod_def Let_def)
  have window: "max_or_0 [op_end (served 1 5 10000000000)] -
      min_or_0 [the (o_ts_ns (served 1 5 10000000000))] = 10000000000"
    by (simp add: served_def op_end_def sat_add_def max_or_0_def min_or_0_def)
  have of: "f64_of 10000000000 = 10000000000" by (subst f64_of_exact) simp_all
  have frac: "0 \<le> BUSY_WINDOW_FRAC" "BUSY_WINDOW_FRAC \<le> 1 / 4" "0 < OVERLAP_FRAC_CEIL"
    using f64_round_bounds [of "20 / 100"] f64_round_bounds(1) [of "5 / 100"]
    by (simp_all add: BUSY_WINDOW_FRAC_def OVERLAP_FRAC_CEIL_def)
  have "f64_mul BUSY_WINDOW_FRAC 10000000000 \<le> 10000000000"
    using f64_round_bounds(2) [of "BUSY_WINDOW_FRAC * 10000000000"] frac by (simp add: f64_mul_def)
  then have "f64_as_nat (f64_mul BUSY_WINDOW_FRAC 10000000000) \<le> 10000000000"
    unfolding f64_as_nat_def by linarith
  moreover have "f64_div (f64_of 0) 10000000000 = 0" by (simp add: f64_div_def f64_of_def f64_round_def)
  ultimately show "judge_serial 7 ?ops 0 \<noteq> None"
    using frac by (simp add: judge_serial_def sweep window of BUSY_FLOOR_NS_def Let_def)
qed simp

text \<open>A serial-requests finding is about one process, and accounts for every \<open>GetObject\<close> the capture has of
  it: each one is either judged or excluded.
\<close>

theorem serial_counts_every_get:
  "list_all (\<lambda>f. case fs_app_pid (fd_scope f) of
      Some pid \<Rightarrow>
        pn_judged (fd_sample f) + pn_excluded (fd_sample f) =
          length (filter (\<lambda>o'. op_pid o' = pid \<and> o_s3_op o' = Some ''GetObject'') (operations records))
    | None \<Rightarrow> False) (check_serial_requests records)"
proof -
  let ?gets = "\<lambda>pid. length (filter (\<lambda>o'. op_pid o' = pid \<and> o_s3_op o' = Some ''GetObject'') (operations records))"
  let ?size = "\<lambda>p :: serial_population. length (fst p) + fst (snd p)"
  have all: "?size p = ?gets pid" if "fmlookup (serial_by_pid records) pid = Some p" for pid p
    using serial_population_size [of records pid] that by (simp add: entry_or_def)
  have "case fs_app_pid (fd_scope f) of Some pid' \<Rightarrow> pid' = pid \<and> pn_judged (fd_sample f) + pn_excluded (fd_sample f) = ?size p
      | None \<Rightarrow> False"
    if "f \<in> set (serial_of_pid (pid, p))" for f pid p
    using that
    by (auto simp: serial_of_pid_def judge_serial_def advisory_def whole_capture_def Let_def
        split: prod.splits if_splits option.splits)
  then show ?thesis using all unfolding check_serial_requests_def list_all_iff
    by (fastforce simp: fm_simps split: option.splits)
qed

end
