(* ===== verification/Service.thy ===== *)
theory Service
  imports Findings
begin

text \<open>
  The service-response checks of \<open>s3tap-advisor/checks/service.rs\<close>: 503 responses with the search for
  their recovery, and the network path by endpoint. The sorted indexes of the first are shown to
  answer what a scan of all responses would.
\<close>

section \<open>Throttling\<close>

definition MIN_TOTAL_OPS :: nat where "MIN_TOTAL_OPS = 50"
definition RATE_FLOOR :: real where "RATE_FLOOR = f64_round (1 / 100)"
definition MIN_503S :: nat where "MIN_503S = 5"
definition RECOVERY_WINDOW_NS :: u64 where "RECOVERY_WINDOW_NS = 30000000000"

record answered =
  an_ts :: u64
  an_pid :: u32
  an_bucket :: "string option"
  an_key :: "string option"
  an_status :: u16

fun answered_ops :: "capture_record list \<Rightarrow> answered list" where
  "answered_ops [] = []"
| "answered_ops (CapturedOperation o' # rs) =
    (case (o_ts_ns o', o_http_status o') of
       (Some ts, Some st) \<Rightarrow>
         \<lparr>an_ts = ts, an_pid = op_pid o', an_bucket = o_bucket o', an_key = o_key_hash o', an_status = st\<rparr> # answered_ops rs
     | _ \<Rightarrow> answered_ops rs)"
| "answered_ops (_ # rs) = answered_ops rs"

definition op_records :: "capture_record list \<Rightarrow> nat" where
  "op_records records = length (filter (\<lambda>r. case r of CapturedOperation _ \<Rightarrow> True | _ \<Rightarrow> False) records)"

text \<open>\<open>partition_point\<close> of a slice in which what satisfies the predicate comes first.\<close>

definition partition_point :: "('a \<Rightarrow> bool) \<Rightarrow> 'a list \<Rightarrow> nat" where
  "partition_point P xs = length (takeWhile P xs)"

definition ok_by_key :: "answered list \<Rightarrow> (u32 \<times> string option \<times> string option, u64 list) fmap" where
  "ok_by_key ops =
    fmmap sort (group_by (\<lambda>a. (an_pid a, an_bucket a, an_key a)) an_ts
      (filter (\<lambda>a. classify_status (an_status a) = Success) ops) fmempty)"

definition ok_by_bucket :: "answered list \<Rightarrow> (u32 \<times> string option, u64 list) fmap" where
  "ok_by_bucket ops =
    fmmap sort (group_by (\<lambda>a. (an_pid a, an_bucket a)) an_ts
      (filter (\<lambda>a. classify_status (an_status a) = Success) ops) fmempty)"

definition has_ok_in_window :: "u64 list option \<Rightarrow> u64 \<Rightarrow> bool" where
  "has_ok_in_window ts_list t =
    (case ts_list of None \<Rightarrow> False
     | Some v \<Rightarrow>
         (let i = partition_point (\<lambda>x. x \<le> t) v in i < length v \<and> v ! i \<le> sat_add t RECOVERY_WINDOW_NS))"

definition recovery_found :: "answered list \<Rightarrow> answered \<Rightarrow> bool" where
  "recovery_found ops a =
    (case an_key a of
       Some _ \<Rightarrow> has_ok_in_window (fmlookup (ok_by_key ops) (an_pid a, an_bucket a, an_key a)) (an_ts a)
     | None \<Rightarrow> has_ok_in_window (fmlookup (ok_by_bucket ops) (an_pid a, an_bucket a)) (an_ts a))"

record recovery_counts =
  rv_recovered :: nat
  rv_unrecovered :: nat
  rv_indeterminate :: nat

definition count_recovery :: "answered list \<Rightarrow> u64 \<Rightarrow> answered \<Rightarrow> recovery_counts \<Rightarrow> recovery_counts" where
  "count_recovery ops capture_end a n =
    (if capture_end < sat_add (an_ts a) RECOVERY_WINDOW_NS then n\<lparr>rv_indeterminate := rv_indeterminate n + 1\<rparr>
     else if recovery_found ops a then n\<lparr>rv_recovered := rv_recovered n + 1\<rparr>
     else n\<lparr>rv_unrecovered := rv_unrecovered n + 1\<rparr>)"

definition throttle_severity :: "recovery_counts \<Rightarrow> severity" where
  "throttle_severity n = (if 0 < rv_unrecovered n then Warn else if 0 < rv_recovered n then Advisory else Unjudged)"

definition check_throttling :: "capture_record list \<Rightarrow> finding list" where
  "check_throttling records =
    (let ops = answered_ops records; total_ops = length ops in
     if total_ops < MIN_TOTAL_OPS then []
     else
       (let throttled = filter (\<lambda>a. an_status a = 503) ops;
            rate = f64_div (f64_of (length throttled)) (f64_of total_ops) in
        if length throttled < MIN_503S \<or> rate \<le> RATE_FLOOR then []
        else
          (let capture_end = max_or_0 (map an_ts ops);
               n = fold (count_recovery ops capture_end) throttled
                     \<lparr>rv_recovered = 0, rv_unrecovered = 0, rv_indeterminate = 0\<rparr> in
           [advisory ''advisor-throttling'' SrcOps DomS3 (throttle_severity n) ''rate_503'' (Some rate) URatio whole_capture
              \<lparr>tw_start = min_or_0 (map an_ts ops), tw_end = capture_end\<rparr>
              \<lparr>pn_judged = total_ops, pn_excluded = op_records records - total_ops, pn_kind = KindOperation\<rparr>])))"

section \<open>The network path\<close>

definition MIN_CONNS :: nat where "MIN_CONNS = 5"
definition RTT_REPORT_FLOOR_US :: u32 where "RTT_REPORT_FLOOR_US = 50000"

definition path_group :: "connection \<Rightarrow> string" where
  "path_group c = (case ep_endpoint_ip (cn_endpoint c) of Some ip \<Rightarrow> ip | None \<Rightarrow> ''unknown'')"

definition path_groups :: "capture_record list \<Rightarrow> (string, connection list) fmap" where
  "path_groups records = group_by path_group (\<lambda>c. c) (connections records) fmempty"

definition usable_rtts :: "connection list \<Rightarrow> u32 list" where
  "usable_rtts conns = List.map_filter (\<lambda>c. opt_filter (\<lambda>v. v \<noteq> 0 \<and> v < MAX_PLAUSIBLE_RTT_US) (cn_min_rtt_us c)) conns"

definition common_pid :: "connection list \<Rightarrow> u32 option" where
  "common_pid conns =
    (let pids = remdups (map (\<lambda>c. app_pid (cn_app c)) conns) in if length pids = 1 then Some (hd pids) else None)"

definition path_finding ::
    "connection list \<Rightarrow> string \<Rightarrow> severity \<Rightarrow> string \<Rightarrow> real \<Rightarrow> metric_unit \<Rightarrow> string option \<Rightarrow> nat \<Rightarrow> nat \<Rightarrow> finding" where
  "path_finding conns fid sev mt v u region judged excluded =
    (let ts = List.map_filter cn_ts_ns conns in
     advisory fid SrcConns DomNetwork sev mt (Some v) u (whole_capture\<lparr>fs_region := region, fs_app_pid := common_pid conns\<rparr>)
       \<lparr>tw_start = min_or_0 ts, tw_end = max_or_0 ts\<rparr>
       \<lparr>pn_judged = judged, pn_excluded = excluded, pn_kind = KindConnection\<rparr>)"

definition first_region :: "connection list \<Rightarrow> string option" where
  "first_region conns = Option.bind (find (\<lambda>c. ep_region (cn_endpoint c) \<noteq> None) conns) (\<lambda>c. ep_region (cn_endpoint c))"

definition judge_path :: "connection list \<Rightarrow> finding list" where
  "judge_path conns =
    (if list_ex (\<lambda>c. ep_cross_region (cn_endpoint c)) conns then
       [path_finding conns ''advisor-latency-cross-region'' Advisory ''connections'' (f64_of (length conns)) UCount (first_region conns)
          (length conns) 0]
     else
       (let rtts = usable_rtts conns; excluded = length conns - length rtts in
        if length rtts < MIN_CONNS then
          (if MIN_CONNS \<le> length conns
           then [path_finding conns ''advisor-latency-unjudged'' Unjudged ''rtt_samples'' (f64_of (length rtts)) UCount None (length rtts) excluded]
           else [])
        else
          (let median_us = sort rtts ! (length rtts div 2) in
           if median_us < RTT_REPORT_FLOOR_US then []
           else if list_ex (\<lambda>c. ep_via_vpce (cn_endpoint c)) conns then
             [path_finding conns ''advisor-latency-unjudged'' Unjudged ''median_min_rtt_us'' (f64_of (unat median_us)) UUs None (length rtts) excluded]
           else
             [path_finding conns ''advisor-latency-high-rtt'' Unjudged ''median_min_rtt_us'' (f64_of (unat median_us)) UUs None (length rtts) excluded])))"

definition check_latency_path :: "capture_record list \<Rightarrow> finding list" where
  "check_latency_path records = concat (map (\<lambda>(ip, conns). judge_path conns) (sorted_list_of_fmap (path_groups records)))"

section \<open>The recovery of a 503\<close>

text \<open>What the check says a recovery is: a later success of the same process on the same key.\<close>

definition recovers :: "answered \<Rightarrow> answered \<Rightarrow> bool" where
  "recovers a b \<longleftrightarrow>
    classify_status (an_status b) = Success \<and> an_pid b = an_pid a \<and> an_bucket b = an_bucket a
    \<and> (an_key a = None \<or> an_key b = an_key a)
    \<and> an_ts a < an_ts b \<and> an_ts b \<le> sat_add (an_ts a) RECOVERY_WINDOW_NS"

definition full_window :: "answered list \<Rightarrow> answered \<Rightarrow> bool" where
  "full_window ops a \<longleftrightarrow> sat_add (an_ts a) RECOVERY_WINDOW_NS \<le> max_or_0 (map an_ts ops)"

lemma has_ok_in_sorted:
  assumes "sorted v"
  shows "has_ok_in_window (Some v) t \<longleftrightarrow> (\<exists>x\<in>set v. t < x \<and> x \<le> sat_add t RECOVERY_WINDOW_NS)"
  using assms
proof (induction v)
  case (Cons x v)
  have "t < y" if "\<not> x \<le> t" "y \<in> set (x # v)" for y using that Cons.prems by (auto simp: not_le)
  moreover have "has_ok_in_window (Some (x # v)) t \<longleftrightarrow>
      (if x \<le> t then has_ok_in_window (Some v) t else x \<le> sat_add t RECOVERY_WINDOW_NS)"
    by (simp add: has_ok_in_window_def partition_point_def Let_def)
  ultimately show ?case using Cons by (auto simp: leD)
qed (simp add: has_ok_in_window_def partition_point_def)

lemma has_ok_in_index:
  "has_ok_in_window (map_option sort (fmlookup (group_by key an_ts xs fmempty) k)) t \<longleftrightarrow>
     list_ex (\<lambda>b. key b = k \<and> t < an_ts b \<and> an_ts b \<le> sat_add t RECOVERY_WINDOW_NS) xs"
proof (cases "filter (\<lambda>b. key b = k) xs = []")
  case True
  then show ?thesis
    by (auto simp: fmlookup_group_by Let_def has_ok_in_window_def filter_empty_conv list_ex_iff)
next
  case False
  then have "has_ok_in_window (map_option sort (fmlookup (group_by key an_ts xs fmempty) k)) t \<longleftrightarrow>
      has_ok_in_window (Some (sort (map an_ts (filter (\<lambda>b. key b = k) xs)))) t"
    by (simp add: fmlookup_group_by Let_def)
  also have "\<dots> \<longleftrightarrow> list_ex (\<lambda>b. key b = k \<and> t < an_ts b \<and> an_ts b \<le> sat_add t RECOVERY_WINDOW_NS) xs"
    unfolding has_ok_in_sorted [OF sorted_sort] by (auto simp: list_ex_iff)
  finally show ?thesis .
qed

lemma recovery_found_iff: "recovery_found ops a \<longleftrightarrow> list_ex (recovers a) ops"
  by (cases "an_key a")
    (auto simp: recovery_found_def ok_by_key_def ok_by_bucket_def has_ok_in_index list_ex_iff recovers_def)

lemma count_recovery_fold:
  "rv_unrecovered (fold (count_recovery ops e) xs n) = rv_unrecovered n +
     length (filter (\<lambda>a. sat_add (an_ts a) RECOVERY_WINDOW_NS \<le> e \<and> \<not> recovery_found ops a) xs)"
  "rv_recovered (fold (count_recovery ops e) xs n) = rv_recovered n +
     length (filter (\<lambda>a. sat_add (an_ts a) RECOVERY_WINDOW_NS \<le> e \<and> recovery_found ops a) xs)"
  by (induction xs arbitrary: n) (auto simp: count_recovery_def not_le)

text \<open>C21: the severity of the throttling finding is what a scan of all responses says: a warning exactly when
  some 503 had its full thirty seconds of capture after it and, within those thirty seconds, no success of
  the same process on the same key (or bucket, when it has no key); an advisory when some had a full
  window and all of those recovered; and unjudged when none had a full window. A success is any status
  below 400, a redirect or a 304 included.\<close>

theorem throttling_judged_by_recovery:
  "let ops = answered_ops records; judged = filter (\<lambda>a. an_status a = 503 \<and> full_window ops a) ops in
   list_all (\<lambda>f. fd_severity f =
      (if list_ex (\<lambda>a. \<not> list_ex (recovers a) ops) judged then Warn
       else if judged \<noteq> [] then Advisory
       else Unjudged)) (check_throttling records)"
proof -
  let ?ops = "answered_ops records"
  let ?judged = "filter (\<lambda>a. an_status a = 503 \<and> full_window ?ops a) ?ops"
  have "throttle_severity (fold (count_recovery ?ops (max_or_0 (map an_ts ?ops))) (filter (\<lambda>a. an_status a = 503) ?ops)
      \<lparr>rv_recovered = 0, rv_unrecovered = 0, rv_indeterminate = 0\<rparr>) =
    (if list_ex (\<lambda>a. \<not> list_ex (recovers a) ?ops) ?judged then Warn else if ?judged \<noteq> [] then Advisory else Unjudged)"
    unfolding throttle_severity_def count_recovery_fold recovery_found_iff full_window_def
    by (auto simp: filter_empty_conv list_ex_iff)
  then show ?thesis by (simp add: check_throttling_def advisory_def Let_def)
qed

section \<open>What the path check may gate on\<close>

lemma judge_path_gates:
  "list_ex (\<lambda>f. fd_severity f = Warn \<or> fd_severity f = Advisory) (judge_path conns) \<longleftrightarrow>
     list_ex (\<lambda>c. ep_cross_region (cn_endpoint c)) conns"
  by (simp add: judge_path_def path_finding_def advisory_def Let_def)

text \<open>The network path fails a strict run exactly when some connection is known to cross regions: no round
  trip time, however large or however forged, gates.\<close>

theorem path_gates_on_region_only:
  "list_ex (\<lambda>f. fd_severity f = Warn \<or> fd_severity f = Advisory) (check_latency_path records) \<longleftrightarrow>
     list_ex (\<lambda>c. ep_cross_region (cn_endpoint c)) (connections records)"
proof -
  have "list_ex (\<lambda>f. fd_severity f = Warn \<or> fd_severity f = Advisory) (check_latency_path records) \<longleftrightarrow>
      (\<exists>ip conns. fmlookup (path_groups records) ip = Some conns \<and> list_ex (\<lambda>c. ep_cross_region (cn_endpoint c)) conns)"
    unfolding judge_path_gates [symmetric] check_latency_path_def list_ex_items by simp
  also have "\<dots> \<longleftrightarrow> list_ex (\<lambda>c. ep_cross_region (cn_endpoint c)) (connections records)"
    unfolding path_groups_def list_ex_groups ..
  finally show ?thesis .
qed

end
