(* ===== verification/Patterns.thy ===== *)
theory Patterns
  imports Serial Service
begin

text \<open>
  The request-pattern checks of \<open>s3tap-advisor/checks/patterns.rs\<close>: a HEAD followed by a GET of the same
  object, and storms of small objects. The first keeps one forward cursor over the GETs of an object;
  it is shown to pair what a scan of all of them for every HEAD would.
\<close>

section \<open>HEAD then GET: the population\<close>

definition PAIR_WINDOW_NS :: u64 where "PAIR_WINDOW_NS = 1000000000"
definition MIN_PAIRS :: nat where "MIN_PAIRS = 20"
definition PAIR_RATIO_FLOOR :: real where "PAIR_RATIO_FLOOR = f64_round (2 / 10)"
definition MAX_UNTIMED_FRAC :: real where "MAX_UNTIMED_FRAC = f64_round (20 / 100)"

type_synonym obj_id = "string option \<times> string"
type_synonym heads = "(u64 \<times> u64 option) list"

record head_gets =
  hg_by_pid :: "(u32, (obj_id, heads \<times> u64 list) fmap) fmap"
  hg_gets :: "(u32, nat) fmap"
  hg_heads :: "(u32, nat) fmap"

definition head_get_record :: "capture_record \<Rightarrow> head_gets \<Rightarrow> head_gets" where
  "head_get_record r s =
    (case r of
       CapturedOperation o' \<Rightarrow>
         (case (o_key_hash o', o_ts_ns o') of
            (Some key, Some ts) \<Rightarrow>
              (let obj = (o_bucket o', key); pid = op_pid o' in
               if o_s3_op o' = Some ''HeadObject'' then
                 (let timed = (if \<not> o_partial o' \<and> o_delimitation o' = Clean then o_total_ns o' else None) in
                  s\<lparr>hg_heads := entry_mod pid 0 (\<lambda>n. n + 1) (hg_heads s),
                    hg_by_pid := entry_mod pid fmempty
                      (entry_mod obj ([], []) (\<lambda>(hs, gs). (hs @ [(ts, timed)], gs))) (hg_by_pid s)\<rparr>)
               else if o_s3_op o' = Some ''GetObject'' then
                 s\<lparr>hg_gets := entry_mod pid 0 (\<lambda>n. n + 1) (hg_gets s),
                   hg_by_pid := entry_mod pid fmempty
                     (entry_mod obj ([], []) (\<lambda>(hs, gs). (hs, gs @ [ts]))) (hg_by_pid s)\<rparr>
               else s)
          | _ \<Rightarrow> s)
     | _ \<Rightarrow> s)"

definition head_get_population :: "capture_record list \<Rightarrow> head_gets" where
  "head_get_population records =
    fold head_get_record records \<lparr>hg_by_pid = fmempty, hg_gets = fmempty, hg_heads = fmempty\<rparr>"

section \<open>The cursor\<close>

function skip_consumed :: "bool list \<Rightarrow> nat \<Rightarrow> nat" where
  "skip_consumed consumed cursor =
    (if cursor < length consumed \<and> consumed ! cursor then skip_consumed consumed (cursor + 1) else cursor)"
  by pat_completeness auto
termination by (relation "measure (\<lambda>(consumed, cursor). length consumed - cursor)") auto

function claim_gets :: "u64 list \<Rightarrow> u64 \<Rightarrow> nat \<Rightarrow> bool list \<Rightarrow> nat \<Rightarrow> bool list \<times> nat" where
  "claim_gets gs hi j consumed claimed =
    (if j < length gs \<and> gs ! j \<le> hi then
       (if \<not> consumed ! j then claim_gets gs hi (j + 1) (consumed[j := True]) (claimed + 1)
        else claim_gets gs hi (j + 1) consumed claimed)
     else (consumed, claimed))"
  by pat_completeness auto
termination by (relation "measure (\<lambda>(gs, hi, j, consumed, claimed). length gs - j)") auto

declare skip_consumed.simps [simp del] claim_gets.simps [simp del]

record pairing =
  pr_pairs :: nat
  pr_untimed :: nat
  pr_wasted_ns :: u64

definition count_pair :: "nat \<Rightarrow> u64 option \<Rightarrow> pairing \<Rightarrow> pairing" where
  "count_pair claimed h_total p =
    (if claimed = 1 then
       (let p = p\<lparr>pr_pairs := pr_pairs p + 1\<rparr> in
        case h_total of
          Some t \<Rightarrow> p\<lparr>pr_wasted_ns := sat_add (pr_wasted_ns p) t\<rparr>
        | None \<Rightarrow> p\<lparr>pr_untimed := pr_untimed p + 1\<rparr>)
     else p)"

definition pair_head :: "u64 list \<Rightarrow> u64 \<times> u64 option \<Rightarrow> nat \<times> bool list \<times> pairing \<Rightarrow> nat \<times> bool list \<times> pairing" where
  "pair_head gs head st =
    (case (head, st) of ((h, h_total), (cursor, consumed, p)) \<Rightarrow>
      (let cursor = max cursor (partition_point (\<lambda>g. g \<le> h) gs);
           cursor = skip_consumed consumed cursor;
           hi = sat_add h PAIR_WINDOW_NS;
           (consumed, claimed) = claim_gets gs hi cursor consumed 0 in
       (cursor, consumed, count_pair claimed h_total p)))"

definition pair_object :: "heads \<times> u64 list \<Rightarrow> pairing \<Rightarrow> pairing" where
  "pair_object e p =
    (case e of (heads, obj_gets) \<Rightarrow>
      (let heads = sort heads; obj_gets = sort obj_gets; consumed = replicate (length obj_gets) False in
       snd (snd (fold (pair_head obj_gets) heads (0, consumed, p)))))"

section \<open>HEAD then GET: the check\<close>

definition head_get_of_pid :: "head_gets \<Rightarrow> u32 \<times> (obj_id, heads \<times> u64 list) fmap \<Rightarrow> finding list" where
  "head_get_of_pid s e =
    (case e of (pid, objs) \<Rightarrow>
      (let gets = entry_or 0 (hg_gets s) pid;
           values = map snd (sorted_list_of_fmap objs);
           p = fold pair_object values \<lparr>pr_pairs = 0, pr_untimed = 0, pr_wasted_ns = 0\<rparr>;
           pairs = pr_pairs p in
       if pairs < MIN_PAIRS \<or> gets = 0 \<or> f64_div (f64_of pairs) (f64_of gets) < PAIR_RATIO_FLOOR then []
       else
         (let ts_all = concat (map (\<lambda>(h, g). map fst h @ g) values);
              judged = gets + entry_or 0 (hg_heads s) pid;
              severity = (if f64_mul MAX_UNTIMED_FRAC (f64_of pairs) < f64_of (pr_untimed p) then Unjudged else Advisory) in
          [advisory ''advisor-head-then-get'' SrcOps DomClient severity ''head_get_pairs'' (Some (f64_of pairs)) UCount (pid_scope pid)
             \<lparr>tw_start = min_or_0 ts_all, tw_end = max_or_0 ts_all\<rparr>
             \<lparr>pn_judged = judged, pn_excluded = pr_untimed p, pn_kind = KindOperation\<rparr>])))"

definition check_head_then_get :: "capture_record list \<Rightarrow> finding list" where
  "check_head_then_get records =
    (let s = head_get_population records in
     concat (map (head_get_of_pid s) (sorted_list_of_fmap (hg_by_pid s))))"

section \<open>Small objects\<close>

definition MIN_TINY_GETS :: nat where "MIN_TINY_GETS = 1000"
definition TINY_MEDIAN_CEIL :: u64 where "TINY_MEDIAN_CEIL = 262144"
definition OVERHEAD_FLOOR_NS :: u64 where "OVERHEAD_FLOOR_NS = 10000000000"
definition SMALL_DROPPED_FRAC :: real where "SMALL_DROPPED_FRAC = f64_round (20 / 100)"
definition SIZE_COVERAGE_FLOOR :: real where "SIZE_COVERAGE_FLOOR = f64_round (8 / 10)"

record timed_get =
  tg_ttfb :: u64
  tg_download :: u64
  tg_size :: "u64 option"
  tg_ts :: u64

type_synonym small_population = "timed_get list \<times> nat \<times> ts_span"

definition small_tally :: "operation \<Rightarrow> small_population \<Rightarrow> small_population" where
  "small_tally o' e =
    (case e of (judged, dropped, sp) \<Rightarrow>
      (let sp = widen_span (o_ts_ns o') sp;
           clean = (o_delimitation o' = Clean \<and> \<not> o_partial o') in
       case (o_ttfb_ns o', o_download_ns o') of
         (Some t, Some d) \<Rightarrow>
           if clean then
             (judged @ [\<lparr>tg_ttfb = t, tg_download = d, tg_size = o_content_length o',
                tg_ts = (case o_ts_ns o' of Some ts \<Rightarrow> ts | None \<Rightarrow> 0)\<rparr>], dropped, sp)
           else (judged, dropped + 1, sp)
       | _ \<Rightarrow> (judged, dropped + 1, sp)))"

definition small_by_pid :: "capture_record list \<Rightarrow> (u32, small_population) fmap" where
  "small_by_pid records =
    fold (\<lambda>r m. case r of
        CapturedOperation o' \<Rightarrow>
          if o_s3_op o' \<noteq> Some ''GetObject'' \<or> o_http_status o' \<noteq> Some 200 then m
          else entry_mod (op_pid o') ([], 0, None) (small_tally o') m
      | _ \<Rightarrow> m) records fmempty"

definition small_finding :: "u32 \<Rightarrow> severity \<Rightarrow> string \<Rightarrow> real \<Rightarrow> time_window \<Rightarrow> nat \<Rightarrow> nat \<Rightarrow> finding" where
  "small_finding pid sev mt v w judged excluded =
    advisory ''advisor-small-objects'' SrcOps DomClient sev mt (Some v) URatio (pid_scope pid) w
      \<lparr>pn_judged = judged, pn_excluded = excluded, pn_kind = KindOperation\<rparr>"

definition judge_small :: "u32 \<Rightarrow> timed_get list \<Rightarrow> nat \<Rightarrow> ts_span \<Rightarrow> finding option" where
  "judge_small pid judged dropped sp =
    (let total_gets = length judged + dropped in
     if total_gets < MIN_TINY_GETS then None
     else if f64_mul SMALL_DROPPED_FRAC (f64_of total_gets) < f64_of dropped then
       Some (small_finding pid Unjudged ''dropped_frac'' (f64_div (f64_of dropped) (f64_of total_gets)) (span_window sp)
         (length judged) dropped)
     else if length judged < MIN_TINY_GETS then None
     else
       (let sizes = List.map_filter tg_size judged;
            sizeless = length judged - length sizes;
            coverage = f64_div (f64_of (length sizes)) (f64_of (length judged)) in
        if coverage < SIZE_COVERAGE_FLOOR then
          Some (small_finding pid Unjudged ''size_coverage'' coverage
            \<lparr>tw_start = min_or_0 (map tg_ts judged), tw_end = max_or_0 (map tg_ts judged)\<rparr> (length judged) sizeless)
        else if TINY_MEDIAN_CEIL < sort sizes ! (length sizes div 2) then None
        else
          (let sum_ttfb = fold (\<lambda>g a. sat_add a (tg_ttfb g)) judged 0;
               sum_dl = fold (\<lambda>g a. sat_add a (tg_download g)) judged 0 in
           if sum_ttfb < sum_dl \<or> sum_ttfb < OVERHEAD_FLOOR_NS then None
           else
             (let overhead_frac =
                f64_div (f64_of (unat sum_ttfb)) (f64_of (max (unat (sat_add sum_ttfb sum_dl)) 1)) in
              Some (small_finding pid Advisory ''overhead_fraction'' overhead_frac (span_window sp) (length judged) (dropped + sizeless))))))"

definition check_small_objects :: "capture_record list \<Rightarrow> finding list" where
  "check_small_objects records =
    concat (map (\<lambda>(pid, judged, dropped, sp). case judge_small pid judged dropped sp of Some f \<Rightarrow> [f] | None \<Rightarrow> [])
      (sorted_list_of_fmap (small_by_pid records)))"

section \<open>The cursor is a rescan\<close>

text \<open>What a HEAD claims when every GET of the object is looked at.\<close>

definition scan_head :: "u64 list \<Rightarrow> u64 \<times> u64 option \<Rightarrow> bool list \<times> pairing \<Rightarrow> bool list \<times> pairing" where
  "scan_head gs head st =
    (case (head, st) of ((h, h_total), (consumed, p)) \<Rightarrow>
      (let in_window = (\<lambda>g. h < g \<and> g \<le> sat_add h PAIR_WINDOW_NS) in
       (map2 (\<lambda>g c. c \<or> in_window g) gs consumed,
        count_pair (length (filter (\<lambda>(g, c). \<not> c \<and> in_window g) (zip gs consumed))) h_total p)))"

definition scan_object :: "heads \<times> u64 list \<Rightarrow> pairing \<Rightarrow> pairing" where
  "scan_object e p =
    (case e of (heads, gs) \<Rightarrow> snd (fold (scan_head (sort gs)) (sort heads) (replicate (length gs) False, p)))"

lemma scan_skip:
  assumes "list_all2 (\<lambda>g c. P g \<longrightarrow> c) gs cs"
  shows "map2 (\<lambda>g c. c \<or> P g) gs cs = cs" and "filter (\<lambda>(g, c). \<not> c \<and> P g) (zip gs cs) = []"
  using assms by (induction rule: list_all2_induct) auto

lemma claim_gets_scan:
  assumes "sorted gs" and "length cs = length gs"
  shows "claim_gets gs hi j cs n =
    (take j cs @ map2 (\<lambda>g c. c \<or> g \<le> hi) (drop j gs) (drop j cs),
     n + length (filter (\<lambda>(g, c). \<not> c \<and> g \<le> hi) (zip (drop j gs) (drop j cs))))"
  using assms
proof (induction gs hi j cs n rule: claim_gets.induct)
  case (1 gs hi j cs n)
  note len = \<open>length cs = length gs\<close>
  show ?case
  proof (cases "j < length gs \<and> gs ! j \<le> hi")
    case True
    then have j: "drop j gs = gs ! j # drop (Suc j) gs" "drop j cs = cs ! j # drop (Suc j) cs"
      "take (Suc j) cs = take j cs @ [cs ! j]"
      using len by (simp_all add: Cons_nth_drop_Suc take_Suc_conv_app_nth)
    show ?thesis
    proof (cases "cs ! j")
      case c: True
      then show ?thesis using 1(2)[OF True] 1(3) len True j
        by (subst claim_gets.simps) simp
    next
      case c: False
      have "take (Suc j) (cs[j := True]) = take j cs @ [True]"
        using True len by (simp add: take_Suc_conv_app_nth)
      then show ?thesis using 1(1)[OF True c] 1(3) len True c j
        by (subst claim_gets.simps) simp
    qed
  next
    case False
    have late: "\<not> g \<le> hi" if "g \<in> set (drop j gs)" for g
    proof -
      have j: "j < length gs" using that by (metis drop_all empty_iff list.set(1) not_le)
      then have "drop j gs = gs ! j # drop (Suc j) gs" by (simp add: Cons_nth_drop_Suc)
      moreover have "sorted (drop j gs)" using \<open>sorted gs\<close> by (rule sorted_wrt_drop)
      ultimately have "gs ! j \<le> g" using that by auto
      then show ?thesis using False j by auto
    qed
    have "list_all2 (\<lambda>g c. g \<le> hi \<longrightarrow> c) (drop j gs) (drop j cs)"
    proof (rule list_all2_all_nthI)
      fix i assume "i < length (drop j gs)"
      from late [OF nth_mem [OF this]] show "drop j gs ! i \<le> hi \<longrightarrow> drop j cs ! i" by blast
    qed (simp add: len)
    note none = scan_skip [OF this]
    show ?thesis using False by (subst claim_gets.simps) (auto simp: none)
  qed
qed

lemma skip_consumed_over:
  "cursor \<le> skip_consumed cs cursor"
  "i \<in> {cursor..<skip_consumed cs cursor} \<Longrightarrow> cs ! i"
  "cursor \<le> length cs \<Longrightarrow> skip_consumed cs cursor \<le> length cs"
proof (induction cs cursor rule: skip_consumed.induct)
  case (1 cs cursor)
  {
    case 1
    show ?case using "1.IH"(1) by (subst skip_consumed.simps) auto
  next
    case 2
    then show ?case using "1.IH"(2) by (subst (asm) skip_consumed.simps) (auto split: if_splits simp: le_Suc_eq Suc_le_eq nat_less_le)
  next
    case 3
    then show ?case using "1.IH"(3) by (subst skip_consumed.simps) auto
  }
qed

text \<open>What lies behind the cursor is consumed, or no later than the HEAD.\<close>

definition behind :: "u64 list \<Rightarrow> u64 \<Rightarrow> nat \<Rightarrow> bool list \<Rightarrow> bool" where
  "behind gs h cursor cs \<longleftrightarrow> length cs = length gs \<and> cursor \<le> length gs \<and> (\<forall>i<cursor. cs ! i \<or> gs ! i \<le> h)"

lemma partition_point_sorted:
  assumes "sorted gs"
  shows "partition_point (\<lambda>g. g \<le> h) gs \<le> length gs"
    and "i < partition_point (\<lambda>g. g \<le> h) gs \<Longrightarrow> gs ! i \<le> h"
    and "partition_point (\<lambda>g. g \<le> h) gs \<le> i \<Longrightarrow> i < length gs \<Longrightarrow> h < gs ! i"
proof -
  show "partition_point (\<lambda>g. g \<le> h) gs \<le> length gs" by (simp add: partition_point_def length_takeWhile_le)
  show "i < partition_point (\<lambda>g. g \<le> h) gs \<Longrightarrow> gs ! i \<le> h"
    by (metis nth_mem partition_point_def set_takeWhileD takeWhile_nth)
  assume i: "partition_point (\<lambda>g. g \<le> h) gs \<le> i" "i < length gs"
  let ?k = "length (takeWhile (\<lambda>g. g \<le> h) gs)"
  have "\<not> gs ! ?k \<le> h" using i by (intro nth_length_takeWhile) (simp add: partition_point_def)
  moreover have "gs ! ?k \<le> gs ! i" using assms i by (intro sorted_nth_mono) (simp_all add: partition_point_def)
  ultimately show "h < gs ! i" by simp
qed

lemma pair_head_scan:
  assumes "sorted gs" and "behind gs h0 cursor cs" and "h0 \<le> h"
  shows "\<exists>cursor'. pair_head gs (h, ht) (cursor, cs, p) = (cursor', scan_head gs (h, ht) (cs, p))
    \<and> behind gs h cursor' (fst (scan_head gs (h, ht) (cs, p)))"
proof -
  let ?c = "max cursor (partition_point (\<lambda>g. g \<le> h) gs)"
  let ?k = "skip_consumed cs ?c"
  let ?hi = "sat_add h PAIR_WINDOW_NS"
  let ?W = "\<lambda>g. h < g \<and> g \<le> ?hi"
  have len: "length cs = length gs" and c: "?c \<le> length cs"
    using assms(2) partition_point_sorted(1) [OF assms(1)] by (simp_all add: behind_def)
  have k: "?c \<le> ?k" "?k \<le> length gs" using skip_consumed_over(1,3) [of ?c cs] c len by simp_all
  have before: "cs ! i \<or> gs ! i \<le> h" if "i < ?k" for i
  proof (cases "i < ?c")
    case True
    then show ?thesis using assms(2,3) partition_point_sorted(2) [OF assms(1), of i h]
      by (auto simp: behind_def less_max_iff_disj intro: order_trans)
  next
    case False
    then have "i \<in> {?c..<?k}" using that by (simp add: not_less)
    from skip_consumed_over(2) [OF this] show ?thesis ..
  qed
  have after: "h < gs ! i" if "?k \<le> i" "i < length gs" for i
    using partition_point_sorted(3) [OF assms(1), of h i] that k by simp
  have "list_all2 (\<lambda>g c. ?W g \<longrightarrow> c) (take ?k gs) (take ?k cs)"
  proof (rule list_all2_all_nthI)
    fix i assume "i < length (take ?k gs)"
    then have "i < ?k" by simp
    from before [OF this] show "?W (take ?k gs ! i) \<longrightarrow> take ?k cs ! i" using \<open>i < ?k\<close> by auto
  qed (use len in simp)
  note skipped = scan_skip [OF this]
  have "h < g" if "g \<in> set (drop ?k gs)" for g
    using that after k by (auto simp: in_set_conv_nth)
  then have rest: "map2 (\<lambda>g c. c \<or> g \<le> ?hi) (drop ?k gs) (drop ?k cs) = map2 (\<lambda>g c. c \<or> ?W g) (drop ?k gs) (drop ?k cs)"
    "filter (\<lambda>(g, c). \<not> c \<and> g \<le> ?hi) (zip (drop ?k gs) (drop ?k cs)) =
       filter (\<lambda>(g, c). \<not> c \<and> ?W g) (zip (drop ?k gs) (drop ?k cs))"
    by (auto intro!: map_cong filter_cong dest: set_zip_leftD)
  have zips: "zip gs cs = zip (take ?k gs) (take ?k cs) @ zip (drop ?k gs) (drop ?k cs)"
    using len k by (metis append_take_drop_id length_take zip_append)
  have "claim_gets gs ?hi ?k cs 0 =
      (map2 (\<lambda>g c. c \<or> ?W g) gs cs, length (filter (\<lambda>(g, c). \<not> c \<and> ?W g) (zip gs cs)))"
    unfolding claim_gets_scan [OF assms(1) len] rest zips by (simp add: skipped)
  then have "pair_head gs (h, ht) (cursor, cs, p) = (?k, scan_head gs (h, ht) (cs, p))"
    by (simp add: pair_head_def scan_head_def Let_def)
  moreover have "behind gs h ?k (fst (scan_head gs (h, ht) (cs, p)))"
    using before k len by (auto simp: behind_def scan_head_def Let_def)
  ultimately show ?thesis by blast
qed

lemma pair_heads_scan:
  assumes "sorted gs" and "sorted heads" and "behind gs h0 cursor cs" and "\<forall>hd\<in>set heads. h0 \<le> fst hd"
  shows "snd (fold (pair_head gs) heads (cursor, cs, p)) = fold (scan_head gs) heads (cs, p)"
  using assms(2-4)
proof (induction heads arbitrary: h0 cursor cs p)
  case (Cons hd heads)
  obtain h ht where hd: "hd = (h, ht)" by (cases hd)
  have "h0 \<le> h" using Cons.prems(3) hd by simp
  from pair_head_scan [OF assms(1) Cons.prems(2) this, of ht p]
  obtain cursor' where step: "pair_head gs (h, ht) (cursor, cs, p) = (cursor', scan_head gs (h, ht) (cs, p))"
    "behind gs h cursor' (fst (scan_head gs (h, ht) (cs, p)))"
    by blast
  have "\<forall>x\<in>set heads. h \<le> fst x" using Cons.prems(1) hd by (auto simp: less_eq_prod_def)
  then show ?case
    using Cons.IH [of h cursor' "fst (scan_head gs (h, ht) (cs, p))" "snd (scan_head gs (h, ht) (cs, p))"] Cons.prems(1) step
    by (simp add: hd)
qed simp

text \<open>C22: the forward cursor of the HEAD-then-GET check pairs exactly what a scan of every unclaimed GET for
  every HEAD would, with the same cost and the same HEADs without timing, for any requests of an object
  in any order.\<close>

theorem cursor_is_rescan: "pair_object e p = scan_object e p"
proof (cases e)
  case (Pair heads gs)
  have "behind (sort gs) 0 0 (replicate (length gs) False)" by (simp add: behind_def)
  from pair_heads_scan [OF sorted_sort sorted_sort this]
  show ?thesis by (simp add: Pair pair_object_def scan_object_def Let_def)
qed

section \<open>Small objects are small\<close>

lemma upper_median:
  fixes xs :: "'a::linorder list"
  assumes "xs \<noteq> []" and "sort xs ! (length xs div 2) \<le> b"
  shows "length xs < 2 * length (filter (\<lambda>x. x \<le> b) xs)"
proof -
  let ?m = "length xs div 2"
  have m: "?m < length (sort xs)" using assms(1) by (simp add: div_less_dividend)
  have "x \<le> b" if x: "x \<in> set (take (Suc ?m) (sort xs))" for x
  proof -
    obtain i where "i < Suc ?m" "x = sort xs ! i" using x m by (auto simp: in_set_conv_nth)
    then have "x \<le> sort xs ! ?m" using m by (simp add: sorted_nth_mono)
    then show ?thesis using assms(2) by simp
  qed
  then have "filter (\<lambda>x. x \<le> b) (take (Suc ?m) (sort xs)) = take (Suc ?m) (sort xs)" by simp
  then have "length (filter (\<lambda>x. x \<le> b) (take (Suc ?m) (sort xs))) = Suc ?m" using m by simp
  moreover have "length (filter (\<lambda>x. x \<le> b) (sort xs)) =
      length (filter (\<lambda>x. x \<le> b) (take (Suc ?m) (sort xs))) + length (filter (\<lambda>x. x \<le> b) (drop (Suc ?m) (sort xs)))"
    by (metis append_take_drop_id filter_append length_append)
  ultimately have "Suc ?m \<le> length (filter (\<lambda>x. x \<le> b) xs)" by (simp add: length_filter_sort)
  then show ?thesis by linarith
qed

text \<open>The sizes the check takes its median of.\<close>

definition timed_get_of :: "operation \<Rightarrow> bool" where
  "timed_get_of o' \<longleftrightarrow> o_s3_op o' = Some ''GetObject'' \<and> o_http_status o' = Some 200 \<and> o_delimitation o' = Clean
    \<and> \<not> o_partial o' \<and> o_ttfb_ns o' \<noteq> None \<and> o_download_ns o' \<noteq> None"

definition get_sizes :: "capture_record list \<Rightarrow> u32 \<Rightarrow> u64 list" where
  "get_sizes records pid =
    List.map_filter o_content_length (filter (\<lambda>o'. op_pid o' = pid \<and> timed_get_of o') (operations records))"

lemma map_filter_append: "List.map_filter f (xs @ ys) = List.map_filter f xs @ List.map_filter f ys"
  by (simp add: List.map_filter_def)

lemma small_tally_sizes:
  assumes "o_s3_op o' = Some ''GetObject''" and "o_http_status o' = Some 200"
  shows "List.map_filter tg_size (fst (small_tally o' e)) =
    List.map_filter tg_size (fst e) @ (if timed_get_of o' then List.map_filter o_content_length [o'] else [])"
  using assms
  by (auto simp: small_tally_def timed_get_of_def map_filter_append map_filter_simps Let_def split: prod.splits option.splits)

lemma not_timed_get: "o_s3_op o' \<noteq> Some ''GetObject'' \<or> o_http_status o' \<noteq> Some 200 \<Longrightarrow> \<not> timed_get_of o'"
  by (auto simp: timed_get_of_def)

lemma small_population_sizes:
  "List.map_filter tg_size (fst (entry_or ([], 0, None) (small_by_pid records) pid)) = get_sizes records pid"
proof -
  have "List.map_filter tg_size (fst (entry_or ([], 0, None) (fold (\<lambda>r m. case r of
        CapturedOperation o' \<Rightarrow>
          if o_s3_op o' \<noteq> Some ''GetObject'' \<or> o_http_status o' \<noteq> Some 200 then m
          else entry_mod (op_pid o') ([], 0, None) (small_tally o') m
      | _ \<Rightarrow> m) records m) pid)) =
    List.map_filter tg_size (fst (entry_or ([], 0, None) m pid)) @ get_sizes records pid" for m
    unfolding get_sizes_def
    by (induction records arbitrary: m rule: operations.induct)
      (auto simp: small_tally_sizes not_timed_get map_filter_simps split: option.split)
  then show ?thesis by (simp add: small_by_pid_def map_filter_simps)
qed

lemma judge_small_median:
  assumes "judge_small pid judged dropped sp = Some f" and "fd_severity f = Advisory"
  shows "length (List.map_filter tg_size judged) < 2 * length (filter (\<lambda>n. n \<le> TINY_MEDIAN_CEIL) (List.map_filter tg_size judged))"
proof -
  let ?sizes = "List.map_filter tg_size judged"
  have "\<not> f64_div (f64_of (length ?sizes)) (f64_of (length judged)) < SIZE_COVERAGE_FLOOR"
    and med: "sort ?sizes ! (length ?sizes div 2) \<le> TINY_MEDIAN_CEIL"
    using assms by (auto simp: judge_small_def small_finding_def advisory_def Let_def not_less split: if_splits)
  moreover have "0 < SIZE_COVERAGE_FLOOR" using f64_round_bounds(1) [of "8 / 10"] by (simp add: SIZE_COVERAGE_FLOOR_def)
  ultimately have "?sizes \<noteq> []" by (auto simp: f64_div_def f64_of_def f64_round_def)
  then show ?thesis using med by (rule upper_median)
qed

text \<open>A process is told to pack small objects only when more than half of its cleanly timed downloads
  whose size is known are of 256 KiB or less.\<close>

theorem small_objects_majority:
  "list_all (\<lambda>f. case (fd_severity f, fs_app_pid (fd_scope f)) of
      (Advisory, Some pid) \<Rightarrow>
        length (get_sizes records pid) < 2 * length (filter (\<lambda>n. n \<le> 256 * 1024) (get_sizes records pid))
    | (_, pid) \<Rightarrow> pid \<noteq> None) (check_small_objects records)"
proof -
  have scope: "fs_app_pid (fd_scope f) = Some pid" if "judge_small pid judged dropped sp = Some f" for f pid judged dropped sp
    using that by (auto simp: judge_small_def small_finding_def advisory_def whole_capture_def Let_def split: if_splits)
  have "length (get_sizes records pid) < 2 * length (filter (\<lambda>n. n \<le> 256 * 1024) (get_sizes records pid))"
    if "fmlookup (small_by_pid records) pid = Some (judged, dropped, sp)" "judge_small pid judged dropped sp = Some f"
      "fd_severity f = Advisory" for pid judged dropped sp f
    using judge_small_median [OF that(2,3)] small_population_sizes [of records pid] that(1)
    by (simp add: entry_or_def TINY_MEDIAN_CEIL_def)
  then show ?thesis unfolding check_small_objects_def list_all_items
    by (auto split: option.splits severity.splits simp: scope)
qed

end
