(* ===== verification/Refetch.thy ===== *)
theory Refetch
  imports Service
begin

text \<open>
  Objects read again although nothing wrote them, of \<open>s3tap-advisor/checks/refetch.rs\<close>: the GETs of a process
  and the writes of the whole capture by object, the runs of GETs between writes, and the gates. The
  walk over a run is shown to count the GETs with an earlier one and no write in between.
\<close>

section \<open>The population\<close>

type_synonym obj_id = "string option \<times> string"
type_synonym sized_gets = "(u64 \<times> u64 option) list"

definition REFETCH_MIN_OPS :: nat where "REFETCH_MIN_OPS = 50"
definition RUN_REPEAT_FLOOR :: u32 where "RUN_REPEAT_FLOOR = 3"
definition WASTED_BYTES_FLOOR :: u64 where "WASTED_BYTES_FLOOR = 104857600"
definition REDUNDANT_COUNT_FLOOR :: u64 where "REDUNDANT_COUNT_FLOOR = 1000"

definition WRITE_OPS :: "string list" where
  "WRITE_OPS = [''PutObject'', ''UploadPart'', ''CompleteMultipartUpload'', ''DeleteObject'']"

record refetch =
  rf_gets_by_pid :: "(u32, (obj_id, sized_gets) fmap) fmap"
  rf_writes_by_obj :: "(obj_id, u64 list) fmap"
  rf_no_ts_by_pid :: "(u32, nat) fmap"
  rf_partial_by_pid :: "(u32, nat) fmap"

definition is_get_200 :: "operation \<Rightarrow> bool" where
  "is_get_200 o' = (o_s3_op o' = Some ''GetObject'' \<and> o_http_status o' = Some 200)"

definition is_write :: "operation \<Rightarrow> bool" where
  "is_write o' = (case o_s3_op o' of Some s \<Rightarrow> List.member WRITE_OPS s | None \<Rightarrow> False)"

definition refetch_record :: "capture_record \<Rightarrow> refetch \<Rightarrow> refetch" where
  "refetch_record r s =
    (case r of
       CapturedOperation o' \<Rightarrow>
         (case o_key_hash o' of
            None \<Rightarrow> s
          | Some key \<Rightarrow>
              (let obj = (o_bucket o', key); pid = op_pid o' in
               if o_partial o' \<and> \<not> is_write o' then
                 (if is_get_200 o' then s\<lparr>rf_partial_by_pid := entry_mod pid 0 (\<lambda>n. n + 1) (rf_partial_by_pid s)\<rparr> else s)
               else if \<not> is_get_200 o' \<and> \<not> is_write o' then s
               else case o_ts_ns o' of
                 None \<Rightarrow> s\<lparr>rf_no_ts_by_pid := entry_mod pid 0 (\<lambda>n. n + 1) (rf_no_ts_by_pid s)\<rparr>
               | Some ts \<Rightarrow>
                   if is_write o' then
                     s\<lparr>rf_writes_by_obj := entry_mod obj [] (\<lambda>w. w @ [ts]) (rf_writes_by_obj s)\<rparr>
                   else
                     s\<lparr>rf_gets_by_pid := entry_mod pid fmempty
                         (entry_mod obj [] (\<lambda>g. g @ [(ts, o_content_length o')])) (rf_gets_by_pid s)\<rparr>))
     | _ \<Rightarrow> s)"

definition refetch_population :: "capture_record list \<Rightarrow> refetch" where
  "refetch_population records =
    (let s = fold refetch_record records
       \<lparr>rf_gets_by_pid = fmempty, rf_writes_by_obj = fmempty, rf_no_ts_by_pid = fmempty, rf_partial_by_pid = fmempty\<rparr> in
     s\<lparr>rf_writes_by_obj := fmmap sort (rf_writes_by_obj s)\<rparr>)"

section \<open>The runs of an object\<close>

record run =
  rn_redundant :: u64
  rn_bytes :: u64
  rn_sizeless :: nat
  rn_len :: u32
  rn_max :: u32
  rn_w_idx :: nat

definition run_start :: run where
  "run_start = \<lparr>rn_redundant = 0, rn_bytes = 0, rn_sizeless = 0, rn_len = 0, rn_max = 0, rn_w_idx = 0\<rparr>"

function skip_writes :: "u64 list \<Rightarrow> u64 \<Rightarrow> nat \<Rightarrow> nat" where
  "skip_writes ws ts w_idx =
    (if w_idx < length ws \<and> ws ! w_idx < ts then skip_writes ws ts (w_idx + 1) else w_idx)"
  by pat_completeness auto
termination by (relation "measure (\<lambda>(ws, ts, w_idx). length ws - w_idx)") auto

declare skip_writes.simps [simp del]

definition run_get :: "u64 list \<Rightarrow> u64 \<times> u64 option \<Rightarrow> run \<Rightarrow> run" where
  "run_get ws ev s =
    (case ev of (ts, sz) \<Rightarrow>
      (let s = (if rn_w_idx s < length ws \<and> ws ! rn_w_idx s < ts
                then s\<lparr>rn_w_idx := skip_writes ws ts (rn_w_idx s), rn_len := 0\<rparr> else s);
           s = s\<lparr>rn_len := rn_len s + 1\<rparr>;
           s = s\<lparr>rn_max := max (rn_max s) (rn_len s)\<rparr> in
       if 1 < rn_len s then
         (let s = s\<lparr>rn_redundant := rn_redundant s + 1\<rparr> in
          case sz of
            Some n \<Rightarrow> s\<lparr>rn_bytes := sat_add (rn_bytes s) n\<rparr>
          | None \<Rightarrow> s\<lparr>rn_sizeless := rn_sizeless s + 1\<rparr>)
       else s))"

text \<open>The code sorts without keeping the order of GETs at one instant; the model keeps it.\<close>

definition object_run :: "u64 list \<Rightarrow> sized_gets \<Rightarrow> run" where
  "object_run ws evs = fold (run_get ws) (sort_key fst evs) run_start"

section \<open>The check\<close>

record flagged =
  fl_obj :: obj_id
  fl_redundant :: u64
  fl_bytes :: u64
  fl_sizeless :: nat

definition flag_object :: "(obj_id, u64 list) fmap \<Rightarrow> obj_id \<times> sized_gets \<Rightarrow> flagged list" where
  "flag_object writes_by_obj e =
    (case e of (obj, evs) \<Rightarrow>
      (let r = object_run (entry_or [] writes_by_obj obj) evs in
       if RUN_REPEAT_FLOOR < rn_max r
       then [\<lparr>fl_obj = obj, fl_redundant = rn_redundant r, fl_bytes = rn_bytes r, fl_sizeless = rn_sizeless r\<rparr>] else []))"

definition refetch_of_pid :: "refetch \<Rightarrow> u32 \<times> (obj_id, sized_gets) fmap \<Rightarrow> finding list" where
  "refetch_of_pid s e =
    (case e of (pid, objs) \<Rightarrow>
      (let evss = map snd (sorted_list_of_fmap objs);
           ops = sum_list (map length evss) in
       if ops < REFETCH_MIN_OPS then []
       else
         (let flagged = concat (map (flag_object (rf_writes_by_obj s)) (sorted_list_of_fmap objs)) in
          if flagged = [] then []
          else
            (let redundant_gets = fold (\<lambda>f a. sat_add a (fl_redundant f)) flagged 0;
                 wasted_bytes = fold (\<lambda>f a. sat_add a (fl_bytes f)) flagged 0;
                 size_excluded = sum_list (map fl_sizeless flagged) in
             if wasted_bytes < WASTED_BYTES_FLOOR \<and> redundant_gets < REDUNDANT_COUNT_FLOOR then []
             else
               (let ts_all = map fst (concat evss) in
                [advisory ''advisor-redundant-refetch'' SrcOps DomClient Advisory ''wasted_bytes'' (Some (f64_of (unat wasted_bytes))) UNone
                   (pid_scope pid) \<lparr>tw_start = min_or_0 ts_all, tw_end = max_or_0 ts_all\<rparr>
                   \<lparr>pn_judged = ops,
                    pn_excluded = entry_or 0 (rf_no_ts_by_pid s) pid + size_excluded + entry_or 0 (rf_partial_by_pid s) pid,
                    pn_kind = KindOperation\<rparr>])))))"

definition check_redundant_refetch :: "capture_record list \<Rightarrow> finding list" where
  "check_redundant_refetch records =
    (let s = refetch_population records in
     concat (map (refetch_of_pid s) (sorted_list_of_fmap (rf_gets_by_pid s))))"

section \<open>Runs\<close>

text \<open>A run is the GETs with the same writes before them.\<close>

definition epoch :: "u64 list \<Rightarrow> u64 \<Rightarrow> nat" where
  "epoch ws ts = length (filter (\<lambda>w. w < ts) ws)"

definition run_length :: "u64 list \<Rightarrow> sized_gets \<Rightarrow> nat \<Rightarrow> nat" where
  "run_length ws evs e = length (filter (\<lambda>ev. epoch ws (fst ev) = e) evs)"

lemma epoch_mono: "s \<le> t \<Longrightarrow> epoch ws s \<le> epoch ws t"
  unfolding epoch_def by (induction ws) (auto intro: less_le_trans)

lemma epoch_nth:
  assumes "sorted ws" and "i < length ws"
  shows "ws ! i < ts \<longleftrightarrow> i < epoch ws ts"
  using assms
proof (induction ws arbitrary: i)
  case (Cons w ws)
  show ?case
  proof (cases "w < ts")
    case True
    then show ?thesis using Cons by (cases i) (simp_all add: epoch_def)
  next
    case False
    then have none: "\<not> x < ts" if "x \<in> set (w # ws)" for x using Cons.prems(1) that by auto
    then have "epoch (w # ws) ts = 0" unfolding epoch_def by (metis filter_False length_0_conv)
    then show ?thesis using none [OF nth_mem [OF Cons.prems(2)]] by simp
  qed
qed simp

lemma epoch_le: "epoch ws ts \<le> length ws"
  by (simp add: epoch_def)

lemma skip_writes_epoch:
  assumes "sorted ws" and "w_idx \<le> epoch ws ts"
  shows "skip_writes ws ts w_idx = epoch ws ts"
  using assms
proof (induction ws ts w_idx rule: skip_writes.induct)
  case (1 ws ts w_idx)
  show ?case
  proof (cases "w_idx < epoch ws ts")
    case True
    then have "w_idx < length ws \<and> ws ! w_idx < ts"
      using epoch_le [of ws ts] epoch_nth [OF 1(2), of w_idx ts] by auto
    then show ?thesis using 1 True by (subst skip_writes.simps) auto
  next
    case False
    then have "w_idx = epoch ws ts" "\<not> (w_idx < length ws \<and> ws ! w_idx < ts)"
      using 1(3) epoch_nth [OF 1(2), of w_idx ts] by auto
    then show ?thesis by (subst skip_writes.simps) auto
  qed
qed

text \<open>What the walk knows after some of the GETs, in time order.\<close>

definition walked :: "u64 list \<Rightarrow> sized_gets \<Rightarrow> run \<Rightarrow> bool" where
  "walked ws pre r \<longleftrightarrow>
    (\<forall>ev\<in>set pre. epoch ws (fst ev) \<le> rn_w_idx r)
    \<and> unat (rn_len r) = run_length ws pre (rn_w_idx r)
    \<and> unat (rn_redundant r) + card ((epoch ws \<circ> fst) ` set pre) = length pre
    \<and> (\<forall>n. n < unat (rn_max r) \<longleftrightarrow> (\<exists>e. n < run_length ws pre e))"

lemma run_length_snoc:
  "run_length ws (pre @ [ev]) e = run_length ws pre e + (if epoch ws (fst ev) = e then 1 else 0)"
  by (simp add: run_length_def)

lemma run_length_le: "run_length ws pre e \<le> length pre"
  by (simp add: run_length_def)

lemma run_length_pos: "0 < run_length ws pre e \<longleftrightarrow> e \<in> (epoch ws \<circ> fst) ` set pre"
  by (auto simp: run_length_def filter_empty_conv image_iff)

lemma unat_Suc_small:
  fixes a :: "'a::len word"
  assumes "unat a + 1 < 2 ^ LENGTH('a)"
  shows "unat (a + 1) = unat a + 1"
  using assms by (simp add: unat_word_ariths(1))

lemma walked_step:
  assumes sorted: "sorted ws" and walked: "walked ws pre r"
    and later: "\<forall>x\<in>set pre. fst x \<le> ts" and idx: "rn_w_idx r \<le> epoch ws ts" and small: "length pre + 1 < 2 ^ 32"
  shows "walked ws (pre @ [(ts, sz)]) (run_get ws (ts, sz) r) \<and> rn_w_idx (run_get ws (ts, sz) r) = epoch ws ts"
proof -
  let ?e = "epoch ws ts"
  let ?r = "run_get ws (ts, sz) r"
  have "(rn_w_idx r < length ws \<and> ws ! rn_w_idx r < ts) \<longleftrightarrow> rn_w_idx r < ?e"
    using epoch_nth [OF sorted, of "rn_w_idx r" ts] epoch_le [of ws ts] by auto
  note r = run_get_def [of ws "(ts, sz)" r, unfolded prod.case this skip_writes_epoch [OF sorted idx] Let_def]
  have len: "unat (rn_len r) = run_length ws pre (rn_w_idx r)"
    and red: "unat (rn_redundant r) + card ((epoch ws \<circ> fst) ` set pre) = length pre"
    and mx: "n < unat (rn_max r) \<longleftrightarrow> (\<exists>e. n < run_length ws pre e)" for n
    using walked by (simp_all add: walked_def)
  have none: "run_length ws pre ?e = 0" if "rn_w_idx r < ?e"
    using walked that by (auto simp: walked_def run_length_def filter_empty_conv)
  define before where "before = (if rn_w_idx r < ?e then 0 else rn_len r)"
  have before: "unat before = run_length ws pre ?e"
    using len none idx by (auto simp: before_def)
  have small': "unat before + 1 < 2 ^ 32" using before run_length_le [of ws pre ?e] small by linarith
  have fields: "rn_w_idx ?r = ?e" "rn_len ?r = before + 1" "rn_max ?r = max (rn_max r) (before + 1)"
    "rn_redundant ?r = (if 1 < before + 1 then rn_redundant r + 1 else rn_redundant r)"
    unfolding r before_def using idx by (auto split: option.splits)
  have here: "unat (before + 1) = run_length ws pre ?e + 1"
    using unat_Suc_small [of before] small' before by simp
  have "1 < before + 1 \<longleftrightarrow> 0 < run_length ws pre ?e"
    unfolding word_less_nat_alt here by simp
  moreover have "unat (rn_redundant r) \<le> length pre" using red by linarith
  then have "unat (rn_redundant r + 1) = unat (rn_redundant r) + 1" using small by (intro unat_Suc_small) simp
  ultimately have red': "unat (rn_redundant ?r) + card ((epoch ws \<circ> fst) ` set (pre @ [(ts, sz)])) = length pre + 1"
    using red run_length_pos [of ws pre ?e] by (auto simp: fields(4) card_insert_if)
  have "n < unat (rn_max ?r) \<longleftrightarrow> n < unat (rn_max r) \<or> n < unat (before + 1)" for n
    by (simp add: fields(3) max_def word_le_nat_alt) linarith
  then have max': "n < unat (rn_max ?r) \<longleftrightarrow> (\<exists>e. n < run_length ws (pre @ [(ts, sz)]) e)" for n
    unfolding mx here run_length_snoc by (auto intro: less_SucI)
  show ?thesis
    using walked later idx here red' max'
    by (auto simp: walked_def fields(1,2) run_length_snoc intro: epoch_mono)
qed

lemma object_run_walked:
  assumes "sorted ws" and "length evs < 2 ^ 32"
  shows "walked ws (sort_key fst evs) (object_run ws evs)"
proof -
  have "walked ws pre (fold (run_get ws) pre run_start)
      \<and> (\<forall>t. (\<forall>x\<in>set pre. fst x \<le> t) \<longrightarrow> rn_w_idx (fold (run_get ws) pre run_start) \<le> epoch ws t)"
    if "sorted (map fst pre)" "length pre < 2 ^ 32" for pre
    using that
  proof (induction pre rule: rev_induct)
    case Nil
    then show ?case by (simp add: walked_def run_start_def run_length_def)
  next
    case (snoc ev pre)
    obtain ts sz where ev: "ev = (ts, sz)" by (cases ev)
    have IH: "walked ws pre (fold (run_get ws) pre run_start)"
      "rn_w_idx (fold (run_get ws) pre run_start) \<le> epoch ws ts"
      and later: "\<forall>x\<in>set pre. fst x \<le> ts"
      using snoc by (auto simp: sorted_append ev)
    have step: "walked ws (pre @ [ev]) (fold (run_get ws) (pre @ [ev]) run_start)"
      "rn_w_idx (fold (run_get ws) (pre @ [ev]) run_start) = epoch ws ts"
      using walked_step [OF assms(1) IH(1) later IH(2), of sz] snoc.prems by (simp_all add: ev)
    have "epoch ws ts \<le> epoch ws t" if "\<forall>x\<in>set (pre @ [ev]). fst x \<le> t" for t
      using that by (intro epoch_mono) (simp add: ev)
    then show ?case unfolding step(2) using step(1) by blast
  qed
  then show ?thesis using assms(2) by (simp add: object_run_def)
qed

lemma run_length_sorted: "run_length ws (sort_key fst evs) e = run_length ws evs e"
  using mset_filter [of "\<lambda>ev. epoch ws (fst ev) = e" "sort_key fst evs"]
    mset_filter [of "\<lambda>ev. epoch ws (fst ev) = e" evs]
  unfolding run_length_def size_mset [symmetric] by simp

text \<open>C23: the walk of the re-fetch check counts what its definition says: every GET of an object but the first of
  its run is redundant, a run being the GETs with the same writes before them, and the object is flagged
  exactly when some run has four GETs or more.\<close>

theorem refetch_counts_runs:
  assumes "sorted ws" and "length evs < 2 ^ 32"
  shows "unat (rn_redundant (object_run ws evs)) = length evs - card ((\<lambda>ev. epoch ws (fst ev)) ` set evs)
    \<and> (RUN_REPEAT_FLOOR < rn_max (object_run ws evs) \<longleftrightarrow> (\<exists>ev\<in>set evs. 4 \<le> run_length ws evs (epoch ws (fst ev))))"
proof -
  have w: "walked ws (sort_key fst evs) (object_run ws evs)" by (rule object_run_walked [OF assms])
  then have "unat (rn_redundant (object_run ws evs)) + card ((epoch ws \<circ> fst) ` set evs) = length evs"
    by (simp add: walked_def)
  moreover have "RUN_REPEAT_FLOOR < rn_max (object_run ws evs) \<longleftrightarrow> (\<exists>e. 3 < run_length ws evs e)"
    using w by (simp add: walked_def run_length_sorted RUN_REPEAT_FLOOR_def word_less_nat_alt)
  moreover have "(\<exists>e. 3 < run_length ws evs e) \<longleftrightarrow> (\<exists>ev\<in>set evs. 4 \<le> run_length ws evs (epoch ws (fst ev)))"
  proof
    assume "\<exists>e. 3 < run_length ws evs e"
    then obtain e where e: "3 < run_length ws evs e" ..
    then have "0 < run_length ws evs e" by simp
    then obtain ev where "ev \<in> set evs" "e = epoch ws (fst ev)" by (auto simp: run_length_pos)
    then show "\<exists>ev\<in>set evs. 4 \<le> run_length ws evs (epoch ws (fst ev))" using e by (intro bexI [of _ ev]) auto
  next
    assume "\<exists>ev\<in>set evs. 4 \<le> run_length ws evs (epoch ws (fst ev))"
    then obtain ev where "ev \<in> set evs" "4 \<le> run_length ws evs (epoch ws (fst ev))" by blast
    then show "\<exists>e. 3 < run_length ws evs e" by (intro exI [of _ "epoch ws (fst ev)"]) simp
  qed
  ultimately show ?thesis by (simp add: comp_def)
qed

theorem refetch_counts_runs_witness:
  "unat (rn_redundant (object_run [15] [(10, None), (11, Some 7), (20, None), (14, Some 9)]))
     = 4 - card ((\<lambda>ev. epoch [15] (fst ev)) ` set [(10, None), (11, Some (7::u64)), (20, None), (14, Some 9)])
   \<and> (RUN_REPEAT_FLOOR < rn_max (object_run [15] [(10, None), (11, Some 7), (20, None), (14, Some 9)]) \<longleftrightarrow>
      (\<exists>ev\<in>set [(10, None), (11, Some (7::u64)), (20, None), (14, Some 9)].
        4 \<le> run_length [15] [(10, None), (11, Some 7), (20, None), (14, Some 9)] (epoch [15] (fst ev))))"
  using refetch_counts_runs [of "[15]" "[(10, None), (11, Some 7), (20, None), (14, Some 9)]"] by simp

section \<open>What enters the runs\<close>

definition write_ts :: "obj_id \<Rightarrow> operation \<Rightarrow> u64 option" where
  "write_ts obj o' =
    (if is_write o' \<and> o_bucket o' = fst obj \<and> o_key_hash o' = Some (snd obj) then o_ts_ns o' else None)"

definition timed_download :: "u32 \<Rightarrow> obj_id \<Rightarrow> operation \<Rightarrow> (u64 \<times> u64 option) option" where
  "timed_download pid obj o' =
    (if is_get_200 o' \<and> \<not> o_partial o' \<and> op_pid o' = pid \<and> o_bucket o' = fst obj \<and> o_key_hash o' = Some (snd obj)
     then map_option (\<lambda>ts. (ts, o_content_length o')) (o_ts_ns o') else None)"

definition writes_of :: "capture_record list \<Rightarrow> obj_id \<Rightarrow> u64 list" where
  "writes_of records obj = List.map_filter (write_ts obj) (operations records)"

definition gets_of :: "capture_record list \<Rightarrow> u32 \<Rightarrow> obj_id \<Rightarrow> sized_gets" where
  "gets_of records pid obj = List.map_filter (timed_download pid obj) (operations records)"

lemma get_not_write: "is_get_200 o' \<Longrightarrow> \<not> is_write o'"
  by (simp add: is_get_200_def is_write_def WRITE_OPS_def)

lemma refetch_one:
  "entry_or [] (rf_writes_by_obj (refetch_record (CapturedOperation o') s)) obj =
     entry_or [] (rf_writes_by_obj s) obj @ opt_list (write_ts obj o')"
  "entry_or [] (entry_or fmempty (rf_gets_by_pid (refetch_record (CapturedOperation o') s)) pid) obj =
     entry_or [] (entry_or fmempty (rf_gets_by_pid s) pid) obj @ opt_list (timed_download pid obj o')"
  using get_not_write [of o']
  by (cases obj; cases "o_key_hash o'"; cases "o_ts_ns o'";
      auto simp: refetch_record_def Let_def write_ts_def timed_download_def opt_list_def)+

lemma refetch_fold:
  "entry_or [] (rf_writes_by_obj (fold refetch_record records s)) obj = entry_or [] (rf_writes_by_obj s) obj @ writes_of records obj"
  "entry_or [] (entry_or fmempty (rf_gets_by_pid (fold refetch_record records s)) pid) obj =
     entry_or [] (entry_or fmempty (rf_gets_by_pid s) pid) obj @ gets_of records pid obj"
proof (induction records arbitrary: s)
  case (Cons r records)
  case 1
  show ?case
    by (cases r) (simp_all add: Cons(1) writes_of_def refetch_one, auto simp: refetch_record_def opt_list_def split: option.split)
  case 2
  show ?case
    by (cases r) (simp_all add: Cons(2) gets_of_def refetch_one, auto simp: refetch_record_def opt_list_def split: option.split)
qed (simp_all add: writes_of_def gets_of_def map_filter_simps)

lemma entry_or_fmmap: "entry_or d (fmmap f m) k = (case fmlookup m k of Some v \<Rightarrow> f v | None \<Rightarrow> d)"
  by (simp add: entry_or_def split: option.split)

text \<open>The runs are over the right requests: the writes of an object are those of every process of the
  capture, cut short or not, in time order, and the reads of a process are its whole, answered downloads.\<close>

theorem refetch_sees_every_write:
  "entry_or [] (rf_writes_by_obj (refetch_population records)) obj = sort (writes_of records obj)
    \<and> entry_or [] (entry_or fmempty (rf_gets_by_pid (refetch_population records)) pid) obj = gets_of records pid obj"
proof -
  let ?s = "fold refetch_record records
    \<lparr>rf_gets_by_pid = fmempty, rf_writes_by_obj = fmempty, rf_no_ts_by_pid = fmempty, rf_partial_by_pid = fmempty\<rparr>"
  have "entry_or [] (rf_writes_by_obj ?s) obj = writes_of records obj" by (simp add: refetch_fold)
  then have "entry_or [] (fmmap sort (rf_writes_by_obj ?s)) obj = sort (writes_of records obj)"
    unfolding entry_or_fmmap by (auto simp: entry_or_def split: option.splits)
  then show ?thesis by (simp add: refetch_population_def Let_def refetch_fold)
qed

end
