(* ===== verification/Churn.thy ===== *)
theory Churn
  imports Findings
begin

text \<open>
  Connections opened anew for each request, of \<open>s3tap-advisor/checks/churn.rs\<close>: the requests by process, the
  judgment of a process with the cost of its fresh connections, and the judgment of the whole capture
  when no process has enough requests of its own.
\<close>

definition CHURN_MIN_OPS :: nat where "CHURN_MIN_OPS = 50"
definition SINGLE_SHOT_FLOOR :: real where "SINGLE_SHOT_FLOOR = f64_round (1 / 2)"
definition WASTED_MS_FLOOR :: real where "WASTED_MS_FLOOR = 500"
definition AGG_MIN_PIDS :: nat where "AGG_MIN_PIDS = 20"
definition AGG_SINGLE_SHOT_FLOOR :: real where "AGG_SINGLE_SHOT_FLOOR = f64_round (8 / 10)"
definition AGG_MIN_FRESH :: nat where "AGG_MIN_FRESH = 100"
definition UNTIMED_FRAC :: real where "UNTIMED_FRAC = f64_round (2 / 10)"

definition churn_op :: "operation \<Rightarrow> bool" where
  "churn_op o' = (o_s3_op o' = Some ''GetObject'' \<or> o_s3_op o' = Some ''PutObject'')"

definition churn_by_pid :: "capture_record list \<Rightarrow> (u32, operation list) fmap" where
  "churn_by_pid records = group_by op_pid (\<lambda>o'. o') (filter churn_op (operations records)) fmempty"

definition partial_by_pid :: "capture_record list \<Rightarrow> (u32, nat) fmap" where
  "partial_by_pid records =
    fold (\<lambda>o'. entry_mod (op_pid o') 0 (\<lambda>n. n + 1)) (filter (\<lambda>o'. churn_op o' \<and> o_partial o') (operations records)) fmempty"

definition is_fresh :: "operation \<Rightarrow> bool" where
  "is_fresh o' = (\<not> o_connection_reused o' \<and> \<not> o_partial o')"

definition connect_cost :: "operation \<Rightarrow> u64" where
  "connect_cost o' =
    sat_add (case o_tcp_connect_ns o' of Some n \<Rightarrow> n | None \<Rightarrow> 0) (case o_tls_handshake_ns o' of Some n \<Rightarrow> n | None \<Rightarrow> 0)"

text \<open>\<open>min_by_key\<close>: the first of those with the least key.\<close>

fun min_by_key :: "('a \<Rightarrow> 'b::linorder) \<Rightarrow> 'a list \<Rightarrow> 'a option" where
  "min_by_key f [] = None"
| "min_by_key f (x # xs) =
    (case min_by_key f xs of None \<Rightarrow> Some x | Some y \<Rightarrow> if f y < f x then Some y else Some x)"

definition wasted_ns :: "operation list \<Rightarrow> u64" where
  "wasted_ns fresh =
    (let timed = filter (\<lambda>o'. o_tcp_connect_ns o' \<noteq> None) fresh;
         total_cost = fold (\<lambda>o' a. sat_add a (connect_cost o')) timed 0;
         earliest_cost =
           (case min_by_key (\<lambda>o'. case o_ts_ns o' of Some t \<Rightarrow> t | None \<Rightarrow> - 1) fresh of
              Some o' \<Rightarrow> connect_cost o' | None \<Rightarrow> 0) in
     sat_sub total_cost earliest_cost)"

definition churn_finding :: "severity \<Rightarrow> string \<Rightarrow> real \<Rightarrow> metric_unit \<Rightarrow> finding_scope \<Rightarrow> operation list \<Rightarrow> nat \<Rightarrow> finding" where
  "churn_finding sev mt v u scope ops excluded =
    (let (w, sample) = window_and_sample ops excluded in
     advisory ''advisor-connection-churn'' SrcOps DomClient sev mt (Some v) u scope w sample)"

definition judge_churn :: "u32 \<Rightarrow> operation list \<Rightarrow> nat \<Rightarrow> finding option" where
  "judge_churn pid ops partials =
    (let n = length ops;
         fresh = filter is_fresh ops;
         single_shot_frac = f64_div (f64_of (length fresh)) (f64_of n) in
     if single_shot_frac \<le> SINGLE_SHOT_FLOOR then None
     else
       (let timed = filter (\<lambda>o'. o_tcp_connect_ns o' \<noteq> None) fresh;
            untimed = length fresh - length timed in
        if f64_mul UNTIMED_FRAC (f64_of (length fresh)) < f64_of untimed then
          Some (churn_finding Unjudged ''single_shot_frac'' single_shot_frac URatio (pid_scope pid) ops (untimed + partials))
        else
          (let wasted_ms = f64_div (f64_of (unat (wasted_ns fresh))) 1000000 in
           if wasted_ms < WASTED_MS_FLOOR then None
           else Some (churn_finding Advisory ''wasted_connect_ms'' wasted_ms UMs (pid_scope pid) ops (untimed + partials)))))"

definition churn_of_pids :: "(u32, nat) fmap \<Rightarrow> (u32, operation list) fmap \<Rightarrow> finding list" where
  "churn_of_pids partials by_pid =
    concat (map (\<lambda>(pid, ops).
      if length ops < CHURN_MIN_OPS then []
      else (case judge_churn pid ops (entry_or 0 partials pid) of Some f \<Rightarrow> [f] | None \<Rightarrow> []))
      (sorted_list_of_fmap by_pid))"

definition churn_of_fleet :: "(u32, nat) fmap \<Rightarrow> (u32, operation list) fmap \<Rightarrow> finding list" where
  "churn_of_fleet partials by_pid =
    (let everything = concat (map snd (sorted_list_of_fmap by_pid));
         fresh = filter is_fresh everything;
         frac = f64_div (f64_of (length fresh)) (f64_of (max (length everything) 1)) in
     if AGG_MIN_FRESH \<le> length fresh \<and> AGG_SINGLE_SHOT_FLOOR < frac then
       [churn_finding Advisory ''single_shot_frac'' frac URatio whole_capture everything (sum_list (map snd (sorted_list_of_fmap partials)))]
     else [])"

definition check_connection_churn :: "capture_record list \<Rightarrow> finding list" where
  "check_connection_churn records =
    (let by_pid = churn_by_pid records; partials = partial_by_pid records;
         all_below_floor = list_all (\<lambda>(pid, ops). length ops < CHURN_MIN_OPS) (sorted_list_of_fmap by_pid) in
     churn_of_pids partials by_pid @
     (if all_below_floor \<and> AGG_MIN_PIDS \<le> fmlen by_pid then churn_of_fleet partials by_pid else []))"

section \<open>One level at a time\<close>

lemma churn_below_floor:
  assumes "list_all (\<lambda>(pid, ops). length ops < CHURN_MIN_OPS) (sorted_list_of_fmap by_pid)"
  shows "churn_of_pids partials by_pid = []"
  using assms by (auto simp: churn_of_pids_def list_all_iff)

lemma churn_finding_scope [simp]: "fd_scope (churn_finding sev mt v u scope ops excluded) = scope"
  by (simp add: churn_finding_def advisory_def split: prod.splits)

lemma judge_churn_scope: "judge_churn pid ops partials = Some f \<Longrightarrow> fd_scope f = pid_scope pid"
  by (auto simp: judge_churn_def Let_def split: if_splits)

lemma churn_pid_scope: "list_all (\<lambda>f. \<exists>pid. fd_scope f = pid_scope pid) (churn_of_pids partials by_pid)"
  unfolding churn_of_pids_def list_all_items by (auto dest: judge_churn_scope split: option.split)

text \<open>Connection churn is told of once: a finding about the whole capture stands alone, and only when no
  process has fifty requests of its own, so no process is blamed twice.\<close>

theorem churn_told_once:
  "let fs = check_connection_churn records in
   if list_ex (\<lambda>f. fd_scope f = whole_capture) fs
   then length fs = 1
     \<and> list_all (\<lambda>(pid, ops). length ops < CHURN_MIN_OPS) (sorted_list_of_fmap (churn_by_pid records))
   else list_all (\<lambda>f. fs_app_pid (fd_scope f) \<noteq> None) fs"
proof -
  let ?m = "churn_by_pid records" and ?p = "partial_by_pid records"
  have fleet: "length (churn_of_fleet ?p ?m) \<le> 1"
    by (simp add: churn_of_fleet_def Let_def)
  have pids: "list_all (\<lambda>f. \<exists>pid. fd_scope f = pid_scope pid) (churn_of_pids ?p ?m)" by (rule churn_pid_scope)
  show ?thesis
  proof (cases "list_all (\<lambda>(pid, ops). length ops < CHURN_MIN_OPS) (sorted_list_of_fmap ?m) \<and> AGG_MIN_PIDS \<le> fmlen ?m")
    case True
    then have "check_connection_churn records = churn_of_fleet ?p ?m"
      by (simp add: check_connection_churn_def churn_below_floor Let_def)
    then show ?thesis using True fleet
      by (auto simp: churn_of_fleet_def Let_def)
  next
    case False
    then have "check_connection_churn records = churn_of_pids ?p ?m" by (auto simp: check_connection_churn_def Let_def)
    then show ?thesis using pids by (auto simp: list_all_iff list_ex_iff whole_capture_def Let_def)
  qed
qed

end
