(* ===== verification/Scorecard.thy ===== *)
theory Scorecard
  imports Findings
begin

text \<open>
  The scorecard of \<open>s3tap-doctor/scorecard.rs\<close>: one row per bucket and operation with its counts, status mix
  and percentiles, the findings on errors and on the tail, and the exit code. Labels are sanitized
  character by character, so they are decoded from and encoded to UTF-8.
\<close>

section \<open>Labels\<close>

definition utf8_width :: "nat \<Rightarrow> nat" where
  "utf8_width b = (if b < 128 then 1 else if b < 224 then 2 else if b < 240 then 3 else 4)"

definition utf8_scalar :: "nat list \<Rightarrow> uchar" where
  "utf8_scalar bs =
    (case bs of
       [a] \<Rightarrow> a
     | [a, b] \<Rightarrow> (a mod 32) * 64 + b mod 64
     | [a, b, c] \<Rightarrow> ((a mod 16) * 64 + b mod 64) * 64 + c mod 64
     | [a, b, c, d] \<Rightarrow> (((a mod 8) * 64 + b mod 64) * 64 + c mod 64) * 64 + d mod 64
     | _ \<Rightarrow> 65533)"

function str_chars :: "string \<Rightarrow> uchar list" where
  "str_chars [] = []"
| "str_chars (c # cs) =
    (let w = utf8_width (of_char c) in utf8_scalar (map of_char (take w (c # cs))) # str_chars (drop w (c # cs)))"
  by pat_completeness auto
termination by (relation "measure length") (auto simp: utf8_width_def)

definition utf8_encode :: "uchar \<Rightarrow> string" where
  "utf8_encode n =
    map char_of
      (if n < 128 then [n]
       else if n < 2048 then [192 + n div 64, 128 + n mod 64]
       else if n < 65536 then [224 + n div 4096, 128 + n div 64 mod 64, 128 + n mod 64]
       else [240 + n div 262144, 128 + n div 4096 mod 64, 128 + n div 64 mod 64, 128 + n mod 64 :: nat])"

definition sanitize_label :: "string \<Rightarrow> string" where
  "sanitize_label s = concat (map utf8_encode (sanitize_term (str_chars s)))"

section \<open>Rows\<close>

definition MIN_OPS :: nat where "MIN_OPS = 50"
definition ERR_RATE_FLOOR :: real where "ERR_RATE_FLOOR = f64_round (1 / 100)"
definition MIN_ERRORS :: nat where "MIN_ERRORS = 5"
definition TAIL_RATIO_FLOOR :: real where "TAIL_RATIO_FLOOR = 10"

type_synonym group_key = "string option \<times> string option"

record scorecard_row =
  sr_bucket :: "string option"
  sr_s3_op :: "string option"
  sr_ops :: nat
  sr_errors :: nat
  sr_error_rate :: real
  sr_status_counts :: "(u16, nat) fmap"
  sr_ttfb_p50_ns :: "nat option"
  sr_ttfb_p95_ns :: "nat option"
  sr_ttfb_p99_ns :: "nat option"
  sr_latency_sample :: nat
  sr_throughput :: "real option"
  sr_window :: time_window

record scorecard_result =
  sc_rows :: "scorecard_row list"
  sc_findings :: "finding list"
  sc_ops_seen :: nat
  sc_window :: time_window

definition group_key_of :: "operation \<Rightarrow> group_key" where
  "group_key_of o' = (map_option sanitize_label (o_bucket o'), map_option sanitize_label (o_s3_op o'))"

definition scorecard_groups :: "capture_record list \<Rightarrow> (group_key, operation list) fmap" where
  "scorecard_groups records = group_by group_key_of (\<lambda>o'. o') (operations records) fmempty"

abbreviation answered_op :: "operation \<Rightarrow> bool" where "answered_op o' \<equiv> o_http_status o' \<noteq> None"

definition status_counts_of :: "operation list \<Rightarrow> (u16, nat) fmap" where
  "status_counts_of scored =
    fold (\<lambda>o' m. case o_http_status o' of Some st \<Rightarrow> entry_mod st 0 (\<lambda>n. n + 1) m | None \<Rightarrow> m) scored fmempty"

definition count_status :: "(u16 \<Rightarrow> bool) \<Rightarrow> (u16, nat) fmap \<Rightarrow> nat" where
  "count_status P m = sum_list (map snd (filter (\<lambda>(st, c). P st) (sorted_list_of_fmap m)))"

definition ttfb_sample :: "operation list \<Rightarrow> real list" where
  "ttfb_sample ops = map (\<lambda>n. f64_of (unat n)) (List.map_filter o_ttfb_ns (filter is_timeable ops))"

definition throughput_sample :: "operation list \<Rightarrow> real list" where
  "throughput_sample ops =
    List.map_filter (\<lambda>o'.
      case (o_content_length o', o_download_ns o') of
        (Some cl, Some dl) \<Rightarrow>
          if 0 < dl then Some (f64_mul (f64_div (f64_of (unat cl)) (f64_of (unat dl))) 1000000000) else None
      | _ \<Rightarrow> None) (filter is_timeable ops)"

definition round_ns :: "real \<Rightarrow> nat" where "round_ns v = nat (round v)"

definition tail_estimate :: "nat \<Rightarrow> real list \<Rightarrow> real \<Rightarrow> real option" where
  "tail_estimate least ttfb p = (if least \<le> length ttfb then pctl ttfb p else None)"

definition row_of_group :: "group_key \<Rightarrow> operation list \<Rightarrow> scorecard_row" where
  "row_of_group key ops =
    (let scored = filter answered_op ops;
         n_ops = length scored;
         counts = status_counts_of scored;
         errors = count_status (\<lambda>st. 400 \<le> st) counts;
         ttfb = ttfb_sample ops in
     \<lparr>sr_bucket = fst key, sr_s3_op = snd key, sr_ops = n_ops, sr_errors = errors,
      sr_error_rate = f64_div (f64_of errors) (f64_of n_ops), sr_status_counts = counts,
      sr_ttfb_p50_ns = map_option round_ns (median ttfb),
      sr_ttfb_p95_ns = map_option round_ns (tail_estimate MIN_TAIL_SAMPLE ttfb 95),
      sr_ttfb_p99_ns = map_option round_ns (tail_estimate MIN_P99_SAMPLE ttfb 99),
      sr_latency_sample = length ttfb,
      sr_throughput = (if snd key = Some ''GetObject'' then median (throughput_sample ops) else None),
      sr_window = op_window ops\<rparr>)"

section \<open>Findings\<close>

definition ERROR_ORDER :: "status_class list" where
  "ERROR_ORDER = [Forbidden, NotFound, BadRequest, Throttle, ServerError, ClientError]"

definition error_class_meta :: "status_class \<Rightarrow> (string \<times> domain) option" where
  "error_class_meta c =
    (case c of
       Forbidden \<Rightarrow> Some (''scorecard-error-403'', DomClient)
     | NotFound \<Rightarrow> Some (''scorecard-error-404'', DomClient)
     | BadRequest \<Rightarrow> Some (''scorecard-error-400'', DomClient)
     | Throttle \<Rightarrow> Some (''scorecard-throttle'', DomS3)
     | ServerError \<Rightarrow> Some (''scorecard-server-5xx'', DomS3)
     | ClientError \<Rightarrow> Some (''scorecard-error-4xx'', DomClient)
     | Success \<Rightarrow> None)"

definition scorecard_finding ::
    "string \<Rightarrow> domain \<Rightarrow> severity \<Rightarrow> string \<Rightarrow> real \<Rightarrow> metric_unit \<Rightarrow> finding_scope \<Rightarrow> time_window \<Rightarrow> population \<Rightarrow> evidence \<Rightarrow> finding" where
  "scorecard_finding fid dm sev mt v u scope w p ev =
    \<lparr>fd_id = fid, fd_source_schema = [OPERATION_SCHEMA], fd_domain = dm, fd_severity = sev,
     fd_metric = mt, fd_value = Some (Num v), fd_unit = u,
     fd_baseline_rtt_us = None, fd_ratio_to_rtt = None, fd_sample = p, fd_scope = scope, fd_window = w, fd_evidence = ev\<rparr>"

definition class_finding :: "group_key \<Rightarrow> operation list \<Rightarrow> status_class \<Rightarrow> finding list" where
  "class_finding key ops c =
    (let r = row_of_group key ops;
         count = count_status (\<lambda>st. classify_status st = c) (sr_status_counts r);
         rate = f64_div (f64_of count) (f64_of (sr_ops r)) in
     case error_class_meta c of
       None \<Rightarrow> []
     | Some (fid, dm) \<Rightarrow>
         if count < MIN_ERRORS \<or> rate \<le> ERR_RATE_FLOOR then []
         else
           [scorecard_finding fid dm Warn ''error_rate'' rate URatio (whole_capture\<lparr>fs_s3_op := snd key, fs_bucket := fst key\<rparr>) (sr_window r)
              \<lparr>pn_judged = sr_ops r, pn_excluded = length ops - sr_ops r, pn_kind = KindOperation\<rparr>
              (evidence_of (filter (\<lambda>o'. case o_http_status o' of Some st \<Rightarrow> classify_status st = c | None \<Rightarrow> False)
                (filter answered_op ops)))])"

definition tail_finding :: "group_key \<Rightarrow> operation list \<Rightarrow> finding list" where
  "tail_finding key ops =
    (let r = row_of_group key ops; ttfb = ttfb_sample ops in
     case (median ttfb, tail_estimate MIN_P99_SAMPLE ttfb 99) of
       (Some p50v, Some p99v) \<Rightarrow>
         if 0 < p50v \<and> TAIL_RATIO_FLOOR \<le> f64_div p99v p50v then
           [scorecard_finding ''scorecard-latency-tail'' DomS3 Advisory ''p99_over_p50'' (f64_div p99v p50v) URatio
              (whole_capture\<lparr>fs_s3_op := snd key, fs_bucket := fst key\<rparr>) (sr_window r)
              \<lparr>pn_judged = sr_latency_sample r, pn_excluded = length ops - sr_latency_sample r, pn_kind = KindOperation\<rparr>
              (evidence_of (filter (\<lambda>o'. is_timeable o'
                 \<and> (case o_ttfb_ns o' of Some t \<Rightarrow> round_ns p99v \<le> unat t | None \<Rightarrow> False)) ops))]
         else []
     | _ \<Rightarrow> [])"

definition group_findings :: "group_key \<Rightarrow> operation list \<Rightarrow> finding list" where
  "group_findings key ops =
    (if key = (None, None) then []
     else (if MIN_OPS \<le> sr_ops (row_of_group key ops) then concat (map (class_finding key ops) ERROR_ORDER) else [])
       @ tail_finding key ops)"

definition scored_groups :: "capture_record list \<Rightarrow> (group_key \<times> operation list) list" where
  "scored_groups records = filter (\<lambda>(key, ops). list_ex answered_op ops) (sorted_list_of_fmap (scorecard_groups records))"

definition scorecard :: "capture_record list \<Rightarrow> scorecard_result" where
  "scorecard records =
    \<lparr>sc_rows = map (\<lambda>(key, ops). row_of_group key ops) (scored_groups records),
     sc_findings = concat (map (\<lambda>(key, ops). group_findings key ops) (scored_groups records)),
     sc_ops_seen = length (operations records),
     sc_window = capture_window records\<rparr>"

definition scorecard_run_finding :: "scorecard_result \<Rightarrow> finding option" where
  "scorecard_run_finding sc =
    (if sc_rows sc \<noteq> [] then None
     else Some (scorecard_finding ''scorecard-run'' DomRun Unjudged ''scoreable_groups'' 0 UCount whole_capture (sc_window sc)
       \<lparr>pn_judged = 0, pn_excluded = sc_ops_seen sc, pn_kind = KindOperation\<rparr> no_evidence))"

definition scorecard_exit :: "scorecard_result \<Rightarrow> bool \<Rightarrow> int" where
  "scorecard_exit sc strict =
    (if strict \<and> list_ex (\<lambda>f. fd_severity f = Warn \<or> fd_severity f = Advisory) (sc_findings sc) then 1
     else if sc_rows sc = [] then 2
     else 0)"

section \<open>What a row counts\<close>

lemma sum_items:
  "sum_list (map g (sorted_list_of_fmap m)) = (\<Sum>k\<in>fmdom' m. g (k, the (fmlookup m k)))"
proof -
  have "sum_list (map g (sorted_list_of_fmap m)) = sum g (set (sorted_list_of_fmap m))"
    by (simp add: sum_list_distinct_conv_sum_set fm_simps)
  also have "set (sorted_list_of_fmap m) = (\<lambda>k. (k, the (fmlookup m k))) ` fmdom' m"
    by (auto simp: fm_simps image_iff fmlookup_dom'_iff)
  also have "sum g \<dots> = (\<Sum>k\<in>fmdom' m. g (k, the (fmlookup m k)))"
    by (simp add: sum.reindex inj_on_def)
  finally show ?thesis .
qed

lemma sum_list_filter_if: "sum_list (map f (filter P xs)) = sum_list (map (\<lambda>x. if P x then f x else (0::nat)) xs)"
  by (induction xs) auto

lemma count_status_sum: "count_status P m = (\<Sum>st | P st. entry_or 0 m st)"
proof -
  have "count_status P m = (\<Sum>st\<in>fmdom' m. if P st then entry_or 0 m st else 0)"
    unfolding count_status_def sum_list_filter_if sum_items
    by (intro sum.cong) (auto simp: entry_or_def fmlookup_dom'_iff)
  also have "\<dots> = (\<Sum>st\<in>UNIV. if P st then entry_or 0 m st else 0)"
    by (intro sum.mono_neutral_left) (auto simp: entry_or_def fmlookup_dom'_iff split: option.splits)
  also have "\<dots> = (\<Sum>st | P st. entry_or 0 m st)" by (simp add: sum.If_cases)
  finally show ?thesis .
qed

lemma count_status_entry_mod:
  "count_status P (entry_mod st 0 (\<lambda>n. n + 1) m) = count_status P m + (if P st then 1 else 0)"
proof -
  have "entry_or 0 (entry_mod st 0 (\<lambda>n. n + 1) m) l = entry_or 0 m l + (if l = st then 1 else 0)" for l by simp
  then show ?thesis by (simp add: count_status_sum sum.distrib)
qed

lemma count_status_of:
  "count_status P (status_counts_of scored) =
     length (filter (\<lambda>o'. case o_http_status o' of Some st \<Rightarrow> P st | None \<Rightarrow> False) scored)"
proof -
  have "count_status P (fold (\<lambda>o' m. case o_http_status o' of Some st \<Rightarrow> entry_mod st 0 (\<lambda>n. n + 1) m | None \<Rightarrow> m) scored m) =
    count_status P m + length (filter (\<lambda>o'. case o_http_status o' of Some st \<Rightarrow> P st | None \<Rightarrow> False) scored)" for m
    by (induction scored arbitrary: m) (auto simp: count_status_entry_mod simp del: One_nat_def split: option.split)
  then show ?thesis by (simp add: status_counts_of_def count_status_sum)
qed

lemma group_by_total:
  "sum_list (map (\<lambda>(k, vs). length (filter Q vs)) (sorted_list_of_fmap (group_by key (\<lambda>x. x) xs fmempty))) = length (filter Q xs)"
proof -
  let ?m = "group_by key (\<lambda>x. x) xs fmempty"
  have dom: "fmdom' ?m = key ` set xs"
    by (auto simp: fmlookup_dom'_iff fmlookup_group_by Let_def filter_empty_conv image_iff split: if_splits)
  have "sum_list (map (\<lambda>(k, vs). length (filter Q vs)) (sorted_list_of_fmap ?m)) =
      (\<Sum>k\<in>key ` set xs. length (filter (\<lambda>x. Q x \<and> key x = k) xs))"
    unfolding sum_items dom
    by (intro sum.cong refl) (auto simp: fmlookup_group_by Let_def filter_empty_conv conj_commute)
  also have "\<dots> = length (filter Q xs)"
  proof -
    have "(\<Sum>k\<in>K. length (filter (\<lambda>x. Q x \<and> key x = k) ys)) = length (filter Q ys)"
      if "finite K" "key ` set ys \<subseteq> K" for K ys
      using that(2)
    proof (induction ys)
      case (Cons y ys)
      have "(\<Sum>k\<in>K. length (filter (\<lambda>x. Q x \<and> key x = k) (y # ys))) =
          (\<Sum>k\<in>K. (if k = key y then (if Q y then 1 else 0) else 0) + length (filter (\<lambda>x. Q x \<and> key x = k) ys))"
        by (intro sum.cong) auto
      then show ?case using Cons that(1) by (simp add: sum.distrib)
    qed simp
    then show ?thesis by simp
  qed
  finally show ?thesis .
qed

text \<open>A status belongs to one class, and the classes of \<open>ERROR_ORDER\<close> are those of the errors.\<close>

lemma length_filter_disjoint:
  "(\<And>x. \<not> (P x \<and> Q x)) \<Longrightarrow> length (filter P xs) + length (filter Q xs) = length (filter (\<lambda>x. P x \<or> Q x) xs)"
  by (induction xs) auto

lemma timeable_answered: "is_timeable o' \<Longrightarrow> answered_op o'"
  by (simp add: is_timeable_def)

lemma latency_sample_le: "length (ttfb_sample ops) \<le> length (filter answered_op ops)"
  unfolding ttfb_sample_def by (induction ops) (auto simp: map_filter_simps timeable_answered split: option.split)

lemma row_counts:
  "sr_ops (row_of_group key ops) = length (filter answered_op ops)"
  "sr_errors (row_of_group key ops) =
     length (filter (\<lambda>o'. case o_http_status o' of Some st \<Rightarrow> 400 \<le> st | None \<Rightarrow> False) ops)"
proof -
  have "filter (\<lambda>o'. case o_http_status o' of Some st \<Rightarrow> 400 \<le> st | None \<Rightarrow> False) (filter answered_op ops) =
      filter (\<lambda>o'. case o_http_status o' of Some st \<Rightarrow> 400 \<le> st | None \<Rightarrow> False) ops"
    by (induction ops) (auto split: option.splits)
  then show "sr_errors (row_of_group key ops) =
     length (filter (\<lambda>o'. case o_http_status o' of Some st \<Rightarrow> 400 \<le> st | None \<Rightarrow> False) ops)"
    by (simp only: row_of_group_def Let_def scorecard_row.select_convs count_status_of)
qed (simp add: row_of_group_def Let_def)

lemma row_errors_le: "sr_errors (row_of_group key ops) \<le> sr_ops (row_of_group key ops)"
  unfolding row_counts by (induction ops) (auto split: option.splits)

lemma scored_total:
  assumes "\<And>ops. \<not> list_ex answered_op ops \<Longrightarrow> filter Q ops = []"
  shows "sum_list (map (\<lambda>(key, ops). length (filter Q ops)) (scored_groups records)) = length (filter Q (operations records))"
proof -
  have "sum_list (map (\<lambda>(key, ops). length (filter Q ops)) (scored_groups records)) =
      sum_list (map (\<lambda>(key, ops). length (filter Q ops)) (sorted_list_of_fmap (scorecard_groups records)))"
    unfolding scored_groups_def sum_list_filter_if
    by (intro arg_cong [of _ _ sum_list] map_cong refl) (auto simp: assms)
  then show ?thesis unfolding scorecard_groups_def group_by_total .
qed

text \<open>C24: the scorecard counts each answered request once: its rows add up to the answered operations of the
  capture and their errors to those answered 400 and above; in no row do the errors or the requests
  behind the percentiles exceed the requests of the row.\<close>

theorem scorecard_counts_every_answer:
  "let rows = sc_rows (scorecard records) in
   sum_list (map sr_ops rows) = length (filter answered_op (operations records))
   \<and> sum_list (map sr_errors rows) =
       length (filter (\<lambda>o'. case o_http_status o' of Some st \<Rightarrow> 400 \<le> st | None \<Rightarrow> False) (operations records))
   \<and> list_all (\<lambda>r. sr_errors r \<le> sr_ops r \<and> sr_latency_sample r \<le> sr_ops r \<and> 0 < sr_ops r) rows"
proof -
  let ?err = "\<lambda>o'. case o_http_status o' of Some st \<Rightarrow> 400 \<le> st | None \<Rightarrow> False"
  have "sum_list (map sr_ops (sc_rows (scorecard records))) = length (filter answered_op (operations records))"
    using scored_total [of answered_op records]
    by (simp add: scorecard_def comp_def case_prod_unfold row_counts(1) filter_empty_conv list_ex_iff)
  moreover have "sum_list (map sr_errors (sc_rows (scorecard records))) = length (filter ?err (operations records))"
    using scored_total [of ?err records]
    by (simp add: scorecard_def comp_def case_prod_unfold row_counts(2) filter_empty_conv list_ex_iff)
  moreover have "list_all (\<lambda>r. sr_errors r \<le> sr_ops r \<and> sr_latency_sample r \<le> sr_ops r \<and> 0 < sr_ops r) (sc_rows (scorecard records))"
    using latency_sample_le row_errors_le
    by (auto simp: scorecard_def scored_groups_def list_all_iff list_ex_iff row_counts(1) filter_empty_conv)
      (simp add: row_of_group_def Let_def latency_sample_le)
  ultimately show ?thesis by (simp add: Let_def)
qed

text \<open>The error taxonomy counts each error in one class: over any status counts, the classes the scorecard
  reports add up to the errors, so no finding takes a status that another one has.\<close>

theorem error_classes_partition:
  "sum_list (map (\<lambda>c. count_status (\<lambda>st. classify_status st = c) counts) ERROR_ORDER) = count_status (\<lambda>st. 400 \<le> st) counts
   \<and> list_all (\<lambda>c. error_class_meta c \<noteq> None) ERROR_ORDER"
proof -
  let ?n = "\<lambda>c. count_status (\<lambda>st. classify_status st = c) counts"
  have "finite {st. classify_status st = c}" for c :: status_class by simp
  have "(\<Sum>st | 400 \<le> st. entry_or 0 counts st) = (\<Sum>st | classify_status st \<in> set ERROR_ORDER. entry_or 0 counts st)"
  proof (intro sum.cong refl Collect_cong)
    fix st :: u16
    have "400 \<le> st \<longleftrightarrow> classify_status st \<noteq> Success" by (simp add: classify_success not_less)
    also have "\<dots> \<longleftrightarrow> classify_status st \<in> set ERROR_ORDER" by (cases "classify_status st") (simp_all add: ERROR_ORDER_def)
    finally show "400 \<le> st \<longleftrightarrow> classify_status st \<in> set ERROR_ORDER" .
  qed
  also have "\<dots> = (\<Sum>c\<in>set ERROR_ORDER. \<Sum>st | classify_status st = c. entry_or 0 counts st)"
  proof -
    have "{st. classify_status st \<in> set ERROR_ORDER} = (\<Union>c\<in>set ERROR_ORDER. {st. classify_status st = c})" by auto
    then show ?thesis by (simp only:) (rule sum.UNION_disjoint; auto)
  qed
  also have "\<dots> = sum_list (map ?n ERROR_ORDER)"
    by (subst sum_list_distinct_conv_sum_set) (simp_all add: count_status_sum ERROR_ORDER_def)
  finally show ?thesis by (simp add: count_status_sum) (simp add: ERROR_ORDER_def error_class_meta_def)
qed

end
