(* ===== verification/Verdict.thy ===== *)
theory Verdict
  imports Scorecard
begin

text \<open>
  From a judged capture to what a command says and returns: the report of \<open>s3tap-doctor/lib.rs\<close> with its
  roll-up and its projection to findings, and the exit codes of \<open>doctor\<close>, \<open>advise\<close> and \<open>scorecard\<close>
  (\<open>s3tap-cli/main.rs\<close>). How the doctor draws the rows from the records is not modelled: a report is any
  value of the record below. Labels, notes and texts are left out.
\<close>

section \<open>The report\<close>

datatype mark = MarkOk | MarkWarn | MarkNa | MarkAdvisory | MarkFyi

definition mark_severity :: "mark \<Rightarrow> severity" where
  "mark_severity m =
    (case m of MarkOk \<Rightarrow> Healthy | MarkWarn \<Rightarrow> Warn | MarkAdvisory \<Rightarrow> Advisory | MarkNa \<Rightarrow> Unjudged | MarkFyi \<Rightarrow> Unjudged)"

record metric =
  mt_name :: string
  mt_value :: "real option"
  mt_unit :: metric_unit
  mt_rtt_relative :: bool
  mt_ratio_to_rtt :: "real option"
  mt_baseline_us :: "real option"
  mt_per_op_baseline :: bool

definition metric_default :: metric where
  "metric_default =
    \<lparr>mt_name = [], mt_value = None, mt_unit = UNone, mt_rtt_relative = False, mt_ratio_to_rtt = None,
     mt_baseline_us = None, mt_per_op_baseline = False\<rparr>"

abbreviation plain_metric :: "string \<Rightarrow> real \<Rightarrow> metric_unit \<Rightarrow> metric" where
  "plain_metric n v u \<equiv> metric_default\<lparr>mt_name := n, mt_value := Some v, mt_unit := u\<rparr>"

record row =
  rw_id :: string
  rw_label :: string
  rw_mark :: mark
  rw_metric :: metric

record s3_row =
  s3_id :: string
  s3_label :: string
  s3_mark :: mark
  s3_s3_op :: "string option"
  s3_metric :: metric
  s3_population :: "(nat \<times> nat) option"

datatype verdict =
    MixedPaths | Attention | NoBaseline | NoOperations | NoResponses | ChecksPassed
  | HealthyRun (reuse_working: bool)

datatype env_class = SameRegion | CrossRegion | FarPath | MixedEnv
datatype confidence = HighConf | LikelyConf | UncertainConf

record env_estimate =
  ev_class :: env_class
  ev_confidence :: confidence

definition env_label :: "env_class \<Rightarrow> string" where
  "env_label c =
    (case c of SameRegion \<Rightarrow> ''same-region (in-cloud)'' | CrossRegion \<Rightarrow> ''cross-region''
     | FarPath \<Rightarrow> ''WAN / on-premises (or cross-region)'' | MixedEnv \<Rightarrow> ''mixed (multiple regions/paths)'')"

record report =
  rp_rows :: "row list"
  rp_s3 :: "s3_row list"
  rp_tail :: "row list"
  rp_reuse :: "row option"
  rp_path :: "row list"
  rp_timeseries :: "row list"
  rp_ts_streams :: nat
  rp_ts_down_streams :: nat
  rp_ts_up_streams :: nat
  rp_sampled_recv_streams :: nat
  rp_sampled_send_streams :: nat
  rp_verdict :: verdict
  rp_baseline_rtt_us :: "nat option"
  rp_environment :: "env_estimate option"
  rp_op_judged :: nat
  rp_op_excluded :: nat
  rp_op_statused :: nat
  rp_op_nonpartial :: nat
  rp_row_pop :: "(string \<times> nat \<times> nat) list"
  rp_mixed_paths :: bool
  rp_conn_count :: nat
  rp_floor_judged :: nat
  rp_floor_excluded :: nat
  rp_rtx_stream_count :: "nat option"
  rp_window :: "u64 \<times> u64"
  rp_evidence :: "(string \<times> evidence) list"

section \<open>The roll-up\<close>

definition op_total :: "report \<Rightarrow> nat" where "op_total r = rp_op_judged r + rp_op_excluded r"

definition anything_judged_against_a_floor :: "report \<Rightarrow> bool" where
  "anything_judged_against_a_floor r =
    (list_ex (\<lambda>w. mt_ratio_to_rtt (rw_metric w) \<noteq> None) (rp_rows r)
     \<or> list_ex (\<lambda>w. mt_ratio_to_rtt (rw_metric w) \<noteq> None) (rp_tail r)
     \<or> list_ex (\<lambda>w. mt_ratio_to_rtt (s3_metric w) \<noteq> None) (rp_s3 r))"

definition overall_verdict :: "report \<Rightarrow> verdict" where
  "overall_verdict r =
    (let s3_warn = list_ex (\<lambda>w. s3_mark w = MarkWarn) (rp_s3 r);
         tail_warn = list_ex (\<lambda>w. rw_mark w = MarkWarn) (rp_tail r);
         reuse_warn = (case rp_reuse r of Some w \<Rightarrow> rw_mark w = MarkWarn | None \<Rightarrow> False) in
     if rp_verdict r = Attention \<or> s3_warn \<or> tail_warn \<or> reuse_warn then Attention
     else if op_total r = 0 then NoOperations
     else if rp_op_statused r = 0 then NoResponses
     else if rp_mixed_paths r \<and> \<not> anything_judged_against_a_floor r then MixedPaths
     else rp_verdict r)"

definition is_attention :: "report \<Rightarrow> bool" where "is_attention r = (overall_verdict r = Attention)"

definition opt_list :: "'a option \<Rightarrow> 'a list" where
  "opt_list x = (case x of Some y \<Rightarrow> [y] | None \<Rightarrow> [])"

definition has_advisory :: "report \<Rightarrow> bool" where
  "has_advisory r =
    (list_ex (\<lambda>w. rw_mark w = MarkAdvisory) (rp_rows r @ rp_tail r @ opt_list (rp_reuse r) @ rp_path r)
     \<or> list_ex (\<lambda>w. s3_mark w = MarkAdvisory) (rp_s3 r))"

definition verdict_severity :: "verdict \<Rightarrow> severity" where
  "verdict_severity v =
    (case v of Attention \<Rightarrow> Warn
     | NoBaseline \<Rightarrow> Unjudged | NoOperations \<Rightarrow> Unjudged | NoResponses \<Rightarrow> Unjudged | MixedPaths \<Rightarrow> Unjudged
     | ChecksPassed \<Rightarrow> Healthy | HealthyRun _ \<Rightarrow> Healthy)"

section \<open>Findings of a report\<close>

definition id_in :: "string list \<Rightarrow> string \<Rightarrow> bool" where "id_in ids i = list_ex (\<lambda>j. j = i) ids"

definition global_domain :: "string \<Rightarrow> domain" where
  "global_domain i =
    (if id_in [''http_errors'', ''reuse_rate'', ''send_bottleneck'', ''bdp_ceiling'', ''recv_ceiling''] i
     then DomClient else DomNetwork)"

definition is_status_mix :: "string \<Rightarrow> bool" where
  "is_status_mix i = id_in [''http_errors'', ''s3_throttle'', ''s3_server_errors'', ''s3_client_errors''] i"

definition is_reuse_rate :: "string \<Rightarrow> bool" where "is_reuse_rate i = (i = ''reuse_rate'')"

definition is_row_populationed :: "string \<Rightarrow> bool" where
  "is_row_populationed i =
    id_in [''ttfb_new_p95'', ''ttfb_new_p99'', ''ttfb_reused_p95'', ''ttfb_reused_p99'', ''dns_cold'',
           ''tcp_connect'', ''ttfb_new'', ''ttfb_reused''] i"

definition is_timeseries :: "string \<Rightarrow> bool" where
  "is_timeseries i =
    id_in [''throughput_ramp'', ''throughput_aggregate_down'', ''throughput_aggregate_up'', ''bufferbloat_onset'',
           ''loss_timeline_reorder'', ''loss_timeline_retrans''] i"

definition finding_kind :: "string \<Rightarrow> sample_kind" where
  "finding_kind i =
    (if id_in [''baseline_rtt'', ''retransmit_rate'', ''path_min_rtt'', ''tls_handshake'', ''send_bottleneck'',
               ''bdp_ceiling'', ''recv_ceiling'', ''loss_shape'', ''throughput_ramp'', ''throughput_aggregate_down'',
               ''throughput_aggregate_up'', ''bufferbloat_onset'', ''loss_timeline_reorder'', ''loss_timeline_retrans''] i
     then KindConnection else KindOperation)"

definition report_sample :: "report \<Rightarrow> sample_kind \<Rightarrow> population" where
  "report_sample r k =
    (case k of
       KindConnection \<Rightarrow> \<lparr>pn_judged = rp_conn_count r, pn_excluded = 0, pn_kind = k\<rparr>
     | KindMixed \<Rightarrow> \<lparr>pn_judged = rp_op_judged r + rp_conn_count r, pn_excluded = rp_op_excluded r, pn_kind = k\<rparr>
     | KindOperation \<Rightarrow> \<lparr>pn_judged = rp_op_judged r, pn_excluded = rp_op_excluded r, pn_kind = k\<rparr>)"

definition finding_sample :: "report \<Rightarrow> string \<Rightarrow> population" where
  "finding_sample r i =
    (let k = finding_kind i; pop = (\<lambda>j e. \<lparr>pn_judged = j, pn_excluded = e, pn_kind = k\<rparr>) in
     if is_timeseries i then
       pop (if id_in [''throughput_aggregate_down'', ''loss_timeline_reorder''] i then rp_ts_down_streams r
            else if id_in [''throughput_aggregate_up'', ''loss_timeline_retrans''] i then rp_ts_up_streams r
            else rp_ts_streams r) 0
     else if is_status_mix i then pop (rp_op_statused r) (op_total r - rp_op_statused r)
     else case find (\<lambda>e. fst e = i) (rp_row_pop r) of
       Some (_, j, e) \<Rightarrow> pop j e
     | None \<Rightarrow>
         if is_reuse_rate i then pop (rp_op_nonpartial r) (op_total r - rp_op_nonpartial r)
         else if i = ''baseline_rtt'' then pop (rp_floor_judged r) (rp_floor_excluded r)
         else if i = ''retransmit_rate'' then
           pop (case rp_rtx_stream_count r of Some n \<Rightarrow> n | None \<Rightarrow> rp_conn_count r) 0
         else if rp_conn_count r = 0 \<and> id_in [''bdp_ceiling'', ''recv_ceiling''] i then
           pop (if i = ''recv_ceiling'' then rp_sampled_recv_streams r else rp_sampled_send_streams r) 0
         else report_sample r k)"

definition finding_baseline :: "report \<Rightarrow> string \<Rightarrow> metric \<Rightarrow> nat option" where
  "finding_baseline r i m =
    (case mt_baseline_us m of
       Some u \<Rightarrow> Some (nat (round u))
     | None \<Rightarrow>
         if mt_rtt_relative m \<and> \<not> mt_per_op_baseline m \<and> (mt_ratio_to_rtt m \<noteq> None \<or> i = ''baseline_rtt'')
         then rp_baseline_rtt_us r else None)"

definition report_window :: "report \<Rightarrow> time_window" where
  "report_window r = \<lparr>tw_start = fst (rp_window r), tw_end = snd (rp_window r)\<rparr>"

definition evidence_for :: "report \<Rightarrow> string \<Rightarrow> evidence" where
  "evidence_for r label =
    (case find (\<lambda>e. fst e = label) (rp_evidence r) of Some e \<Rightarrow> snd e | None \<Rightarrow> no_evidence)"

definition report_finding :: "report \<Rightarrow> string \<Rightarrow> domain \<Rightarrow> mark \<Rightarrow> metric \<Rightarrow> finding_scope \<Rightarrow> evidence \<Rightarrow> finding" where
  "report_finding r i dm mk m scope ev =
    \<lparr>fd_id = i,
     fd_source_schema = (if is_timeseries i then [SAMPLE_SCHEMA] else [OPERATION_SCHEMA, CONNECTION_SCHEMA]),
     fd_domain = dm, fd_severity = mark_severity mk, fd_metric = mt_name m,
     fd_value = map_option Num (mt_value m), fd_unit = mt_unit m,
     fd_baseline_rtt_us = finding_baseline r i m, fd_ratio_to_rtt = mt_ratio_to_rtt m,
     fd_sample = finding_sample r i, fd_scope = scope, fd_window = report_window r, fd_evidence = ev\<rparr>"

definition row_finding :: "report \<Rightarrow> row \<Rightarrow> finding" where
  "row_finding r w =
    report_finding r (rw_id w) (global_domain (rw_id w)) (rw_mark w) (rw_metric w) whole_capture
      (evidence_for r (rw_label w))"

definition s3_finding :: "report \<Rightarrow> s3_row \<Rightarrow> finding" where
  "s3_finding r w =
    (let f = report_finding r (s3_id w) DomS3 (s3_mark w) (s3_metric w) (whole_capture\<lparr>fs_s3_op := s3_s3_op w\<rparr>)
               (evidence_for r (s3_label w)) in
     case s3_population w of
       Some (j, e) \<Rightarrow> f\<lparr>fd_sample := \<lparr>pn_judged = j, pn_excluded = e, pn_kind = KindOperation\<rparr>\<rparr>
     | None \<Rightarrow> f)"

definition environment_finding :: "report \<Rightarrow> finding option" where
  "environment_finding r =
    map_option (\<lambda>env.
      \<lparr>fd_id = ''environment'', fd_source_schema = [CONNECTION_SCHEMA], fd_domain = DomNetwork, fd_severity = Unjudged,
       fd_metric = ''environment'', fd_value = Some (Str (env_label (ev_class env))),
       fd_unit = UNone, fd_baseline_rtt_us = rp_baseline_rtt_us r,
       fd_ratio_to_rtt = None, fd_sample = report_sample r KindConnection, fd_scope = whole_capture,
       fd_window = report_window r, fd_evidence = no_evidence\<rparr>) (rp_environment r)"

definition run_finding :: "report \<Rightarrow> finding" where
  "run_finding r =
    \<lparr>fd_id = ''run'', fd_source_schema = [OPERATION_SCHEMA, CONNECTION_SCHEMA], fd_domain = DomRun,
     fd_severity = verdict_severity (overall_verdict r), fd_metric = ''verdict'', fd_value = None, fd_unit = UNone,
     fd_baseline_rtt_us = rp_baseline_rtt_us r,
     fd_ratio_to_rtt = None, fd_sample = report_sample r KindMixed, fd_scope = whole_capture,
     fd_window = report_window r, fd_evidence = no_evidence\<rparr>"

definition findings :: "report \<Rightarrow> finding list" where
  "findings r =
    map (row_finding r) (rp_rows r @ rp_tail r @ opt_list (rp_reuse r) @ rp_path r @ rp_timeseries r)
    @ map (s3_finding r) (rp_s3 r)
    @ opt_list (environment_finding r)
    @ [run_finding r]"

section \<open>Exit codes\<close>

definition verdict_exit_code :: "report \<Rightarrow> bool \<Rightarrow> int" where
  "verdict_exit_code r strict =
    (case overall_verdict r of
       Attention \<Rightarrow> 1
     | NoBaseline \<Rightarrow> 2 | NoOperations \<Rightarrow> 2 | NoResponses \<Rightarrow> 2 | MixedPaths \<Rightarrow> 2
     | _ \<Rightarrow> if strict \<and> has_advisory r then 1 else 0)"

definition EXIT_NOTHING_JUDGEABLE :: int where "EXIT_NOTHING_JUDGEABLE = 2"

end
