(* ===== verification/Floors.thy ===== *)
theory Floors
  imports Verdict
begin

text \<open>
  The round-trip floors of \<open>s3tap-doctor/lib.rs\<close>: the floor of a connection, the ladder that finds the floor of
  an operation, the test for more than one path, and the estimate of the environment. Then the samples of a
  capture, by connection and by lifetime of a connection, with what they say of its sending.
\<close>

section \<open>Constants\<close>

definition MIN_DIRECTIONAL_BYTES :: u64 where "MIN_DIRECTIONAL_BYTES = 65536"
definition ENV_SAME_REGION_MS :: real where "ENV_SAME_REGION_MS = 2"
definition ENV_FAR_MS :: real where "ENV_FAR_MS = 10"
definition ENV_MIXED_SRTT_RATIO :: real where "ENV_MIXED_SRTT_RATIO = 5"


section \<open>The floor of an operation\<close>

type_synonym conn_by_cookie = "(u64, connection) fmap"
type_synonym region_floor = "(string option, real) fmap"

definition live_rtt :: "u32 option \<Rightarrow> u32 option" where
  "live_rtt x = opt_filter (\<lambda>v. v \<noteq> 0 \<and> v < MAX_PLAUSIBLE_RTT_US) x"

definition usable_rtt :: "u32 option \<Rightarrow> real option" where
  "usable_rtt x = map_option (\<lambda>v. f64_of (unat v)) (live_rtt x)"

definition conn_floor_us :: "connection \<Rightarrow> real option" where
  "conn_floor_us c = (case usable_rtt (cn_srtt_us c) of Some f \<Rightarrow> Some f | None \<Rightarrow> usable_rtt (cn_min_rtt_us c))"

definition joined_floor :: "conn_by_cookie \<Rightarrow> region_floor \<Rightarrow> operation \<Rightarrow> real option" where
  "joined_floor by_cookie regions o' =
    (case fmlookup by_cookie (o_sock_cookie o') of
       None \<Rightarrow> None
     | Some c \<Rightarrow>
         (case conn_floor_us c of
            Some f \<Rightarrow> Some f
          | None \<Rightarrow>
              if ep_region (cn_endpoint c) \<noteq> None then fmlookup regions (ep_region (cn_endpoint c)) else None))"

definition floor_for :: "conn_by_cookie \<Rightarrow> region_floor \<Rightarrow> real option \<Rightarrow> bool \<Rightarrow> operation \<Rightarrow> real option" where
  "floor_for by_cookie regions global_us mixed_regions o' =
    (case joined_floor by_cookie regions o' of
       Some f \<Rightarrow> Some f
     | None \<Rightarrow> if mixed_regions then None else global_us)"

definition cookie_counts :: "connection list \<Rightarrow> (u64, nat) fmap" where
  "cookie_counts conns = fold (\<lambda>c. entry_mod (cn_sock_cookie c) 0 (\<lambda>n. n + 1)) conns fmempty"

definition conns_by_cookie :: "connection list \<Rightarrow> conn_by_cookie" where
  "conns_by_cookie conns =
    fold (\<lambda>c. fmupd (cn_sock_cookie c) c) (filter (\<lambda>c. entry_or 0 (cookie_counts conns) (cn_sock_cookie c) = 1) conns) fmempty"

text \<open>No list of floors is empty, so each has a median.\<close>

definition region_floors :: "connection list \<Rightarrow> region_floor" where
  "region_floors conns =
    fmmap (\<lambda>v. the (median v))
      (group_by fst snd (List.map_filter (\<lambda>c. map_option (Pair (ep_region (cn_endpoint c))) (conn_floor_us c)) conns) fmempty)"

definition build_floor_maps :: "connection list \<Rightarrow> conn_by_cookie \<times> region_floor" where
  "build_floor_maps conns = (conns_by_cookie conns, region_floors conns)"

section \<open>More than one path\<close>

definition reduce :: "('a \<Rightarrow> 'a \<Rightarrow> 'a) \<Rightarrow> 'a list \<Rightarrow> 'a option" where
  "reduce f xs = (case xs of [] \<Rightarrow> None | x # ys \<Rightarrow> Some (fold f ys x))"

definition conn_srtts :: "connection list \<Rightarrow> real list" where
  "conn_srtts conns = List.map_filter (\<lambda>c. usable_rtt (cn_srtt_us c)) conns"

definition bimodal :: "connection list \<Rightarrow> bool" where
  "bimodal conns =
    (case (reduce min (conn_srtts conns), reduce max (conn_srtts conns)) of
       (Some l, Some h) \<Rightarrow> 0 < l \<and> ENV_MIXED_SRTT_RATIO \<le> f64_div h l \<and> ENV_FAR_MS \<le> f64_div h 1000
     | _ \<Rightarrow> False)"

definition distinct_strings :: "string list \<Rightarrow> string list" where
  "distinct_strings xs = remdups_adj (sort xs)"

definition regions_of :: "connection list \<Rightarrow> string list" where
  "regions_of conns = List.map_filter (\<lambda>c. ep_region (cn_endpoint c)) conns"

definition multi_path :: "connection list \<Rightarrow> bool" where
  "multi_path conns =
    (1 < length (distinct_strings (filter (\<lambda>r. r \<noteq> []) (map (\<lambda>r. to_ascii_lowercase (trim r)) (regions_of conns))))
     \<or> bimodal conns)"

section \<open>The environment\<close>

definition cross_region_estimate :: env_estimate where
  "cross_region_estimate = \<lparr>ev_class = CrossRegion, ev_confidence = HighConf\<rparr>"

definition mixed_estimate :: env_estimate where
  "mixed_estimate = \<lparr>ev_class = MixedEnv, ev_confidence = UncertainConf\<rparr>"

definition estimate_environment :: "real option \<Rightarrow> connection list \<Rightarrow> env_estimate option" where
  "estimate_environment rtt_ms conns =
    (let cross = (\<lambda>c. ep_cross_region (cn_endpoint c));
         cross_any = list_ex cross conns;
         cross_all = (conns \<noteq> [] \<and> list_all cross conns);
         via_vpce = list_ex (\<lambda>c. ep_via_vpce (cn_endpoint c)) conns in
     if 1 < length (distinct_strings (regions_of conns)) then Some mixed_estimate
     else if cross_all then Some cross_region_estimate
     else if bimodal conns then Some mixed_estimate
     else if cross_any then Some cross_region_estimate
     else
       map_option (\<lambda>ms.
         if ms < ENV_SAME_REGION_MS then \<lparr>ev_class = SameRegion, ev_confidence = HighConf\<rparr>
         else if ms < ENV_FAR_MS then
           \<lparr>ev_class = SameRegion, ev_confidence = if via_vpce then HighConf else LikelyConf\<rparr>
         else \<lparr>ev_class = FarPath, ev_confidence = UncertainConf\<rparr>) rtt_ms)"

section \<open>Samples\<close>

fun samples :: "capture_record list \<Rightarrow> tcp_sample list" where
  "samples [] = []"
| "samples (CapturedSample s # rs) = s # samples rs"
| "samples (_ # rs) = samples rs"

definition sample_ts :: "tcp_sample \<Rightarrow> u64" where
  "sample_ts s = (case sm_ts_ns s of Some t \<Rightarrow> t | None \<Rightarrow> 0)"

text \<open>A counter that falls is where the pointer of a closed socket was taken by the next one.\<close>

definition counters_reset :: "tcp_sample \<Rightarrow> tcp_sample \<Rightarrow> bool" where
  "counters_reset a b = (sm_bytes_recv b < sm_bytes_recv a \<or> sm_bytes_sent b < sm_bytes_sent a)"

fun ts_segments :: "tcp_sample list \<Rightarrow> tcp_sample list list" where
  "ts_segments [] = []"
| "ts_segments [s] = [[s]]"
| "ts_segments (a # b # ss) =
    (case ts_segments (b # ss) of
       seg # segs \<Rightarrow> if counters_reset a b then [a] # seg # segs else (a # seg) # segs
     | [] \<Rightarrow> [[a]])"

text \<open>The walk of each function that reads the samples: by cookie, in the order of time, segment by segment.\<close>

definition cookie_segments :: "tcp_sample list \<Rightarrow> (u64 \<times> tcp_sample list) list" where
  "cookie_segments ss =
    concat (map (\<lambda>(cookie, series). map (Pair cookie) (ts_segments (sort_key sample_ts series)))
      (sorted_list_of_fmap (group_by sm_sock_cookie (\<lambda>s. s) ss fmempty)))"

record send_deltas =
  sd_sent :: u64
  sd_retrans :: u64
  sd_streams :: "u64 list"

definition add_send_delta :: "u64 \<times> tcp_sample list \<Rightarrow> send_deltas \<Rightarrow> send_deltas" where
  "add_send_delta cseg acc =
    (let (cookie, seg) = cseg;
         d = sat_sub (sm_bytes_sent (last seg)) (sm_bytes_sent (hd seg));
         rt = sat_sub (sm_total_retrans (last seg)) (sm_total_retrans (hd seg)) in
     \<lparr>sd_sent = sat_add (sd_sent acc) d, sd_retrans = sat_add (sd_retrans acc) (ucast rt),
      sd_streams = if 0 < d \<or> 0 < rt then List.insert cookie (sd_streams acc) else sd_streams acc\<rparr>)"

definition sample_send_deltas :: "tcp_sample list \<Rightarrow> u64 \<times> u64 \<times> nat" where
  "sample_send_deltas ss =
    (let acc = fold add_send_delta (cookie_segments ss) \<lparr>sd_sent = 0, sd_retrans = 0, sd_streams = []\<rparr> in
     (sd_sent acc, sd_retrans acc, length (sd_streams acc)))"

datatype seg_dir = SegUp | SegDown

definition seg_direction :: "tcp_sample list \<Rightarrow> seg_dir option" where
  "seg_direction seg =
    (if seg = [] then None
     else let l = last seg in
       if sm_bytes_recv l < sm_bytes_sent l \<and> MIN_DIRECTIONAL_BYTES \<le> sm_bytes_sent l then Some SegUp
       else if sm_bytes_sent l < sm_bytes_recv l \<and> MIN_DIRECTIONAL_BYTES \<le> sm_bytes_recv l then Some SegDown
       else None)"

section \<open>The segments of the samples\<close>

lemma ts_segments_ne: "ts_segments (a # xs) \<noteq> []"
  by (cases xs) (auto split: list.splits)

lemma concat_ts_segments [simp]: "concat (ts_segments xs) = xs"
proof (induction xs rule: ts_segments.induct)
  case (3 a b ss)
  then show ?case using ts_segments_ne [of b ss] by (auto split: list.splits)
qed simp_all

lemma ts_segments_steady:
  "list_all (\<lambda>seg. seg \<noteq> [] \<and> successively (\<lambda>a b. \<not> counters_reset a b) seg) (ts_segments xs)"
proof (induction xs rule: ts_segments.induct)
  case (3 a b ss)
  obtain seg segs where s: "ts_segments (b # ss) = seg # segs" using ts_segments_ne by (cases "ts_segments (b # ss)") auto
  with 3 have seg: "seg \<noteq> []" by simp
  with s have "hd seg = b" using concat_ts_segments [of "b # ss"] by (cases seg) auto
  with 3 s seg show ?case by (cases seg) auto
qed simp_all

lemma sorted_pieces: "sorted (map f (concat xss)) \<Longrightarrow> xs \<in> set xss \<Longrightarrow> sorted (map f xs)"
  by (induction xss) (auto simp: sorted_append)

lemma cookie_segments_total:
  "length (filter Q (concat (map snd (cookie_segments ss)))) = length (filter Q ss)"
proof -
  let ?m = "group_by sm_sock_cookie (\<lambda>s. s) ss fmempty"
  have cat: "concat (map snd (concat (map (\<lambda>(cookie, series). map (Pair cookie) (ts_segments (sort_key sample_ts series))) items))) =
      concat (map (\<lambda>(k, v). sort_key sample_ts v) items)" for items :: "(u64 \<times> tcp_sample list) list"
    by (induction items) (auto simp: comp_def)
  have sorted_len: "length (filter Q (sort_key sample_ts v)) = length (filter Q v)" for v :: "tcp_sample list"
    by (metis filter_sort length_sort)
  have "length (filter Q (concat (map (\<lambda>(k, v). sort_key sample_ts v) items))) =
      sum_list (map (\<lambda>(k, v). length (filter Q v)) items)" for items :: "(u64 \<times> tcp_sample list) list"
    by (induction items) (auto simp: sorted_len)
  then have "length (filter Q (concat (map snd (cookie_segments ss)))) =
      sum_list (map (\<lambda>(k, v). length (filter Q v)) (sorted_list_of_fmap ?m))"
    by (simp add: cookie_segments_def cat)
  then show ?thesis by (simp only: group_by_total)
qed

lemma cookie_segment_from:
  assumes "(cookie, seg) \<in> set (cookie_segments ss)"
  obtains "seg \<in> set (ts_segments (sort_key sample_ts (filter (\<lambda>s. sm_sock_cookie s = cookie) ss)))"
  using assms
  by (auto simp: cookie_segments_def set_sorted_list_of_fmap fmlookup_group_by Let_def split: if_splits)

lemma cookie_segment_props:
  assumes "(cookie, seg) \<in> set (cookie_segments ss)"
  shows "seg \<noteq> []" and "list_all (\<lambda>s. sm_sock_cookie s = cookie) seg" and "sorted (map sample_ts seg)"
    and "successively (\<lambda>a b. sm_bytes_recv a \<le> sm_bytes_recv b \<and> sm_bytes_sent a \<le> sm_bytes_sent b) seg"
proof -
  let ?ser = "sort_key sample_ts (filter (\<lambda>s. sm_sock_cookie s = cookie) ss)"
  from assms have seg: "seg \<in> set (ts_segments ?ser)" by (rule cookie_segment_from)
  with ts_segments_steady [of ?ser] have steady: "seg \<noteq> []" "successively (\<lambda>a b. \<not> counters_reset a b) seg"
    unfolding list_all_iff by blast+
  then show "seg \<noteq> []" by blast
  show "successively (\<lambda>a b. sm_bytes_recv a \<le> sm_bytes_recv b \<and> sm_bytes_sent a \<le> sm_bytes_sent b) seg"
    using steady(2) by (rule successively_mono) (auto simp: counters_reset_def not_less)
  have "set seg \<subseteq> set (concat (ts_segments ?ser))" using seg unfolding set_concat by blast
  then have "set seg \<subseteq> set (filter (\<lambda>s. sm_sock_cookie s = cookie) ss)" by (simp only: concat_ts_segments set_sort)
  then show "list_all (\<lambda>s. sm_sock_cookie s = cookie) seg" by (auto simp: list_all_iff)
  show "sorted (map sample_ts seg)" using seg by (rule sorted_pieces [rotated]) simp
qed

text \<open>C18: the walk over the samples of a capture takes each of them once: its segments together hold the
  samples, and each is of one socket, in the order of time, with no counter of bytes that falls.\<close>

theorem segments_partition_samples:
  "mset (concat (map snd (cookie_segments ss))) = mset ss
   \<and> list_all (\<lambda>(cookie, seg). seg \<noteq> [] \<and> list_all (\<lambda>s. sm_sock_cookie s = cookie) seg \<and> sorted (map sample_ts seg)
        \<and> successively (\<lambda>a b. sm_bytes_recv a \<le> sm_bytes_recv b \<and> sm_bytes_sent a \<le> sm_bytes_sent b) seg)
      (cookie_segments ss)"
proof
  show "mset (concat (map snd (cookie_segments ss))) = mset ss"
  proof (rule multiset_eqI)
    fix s
    show "count (mset (concat (map snd (cookie_segments ss)))) s = count (mset ss) s"
      using cookie_segments_total [of "\<lambda>t. s = t" ss] by (simp add: count_mset count_list_eq_length_filter)
  qed
  show "list_all (\<lambda>(cookie, seg). seg \<noteq> [] \<and> list_all (\<lambda>s. sm_sock_cookie s = cookie) seg \<and> sorted (map sample_ts seg)
        \<and> successively (\<lambda>a b. sm_bytes_recv a \<le> sm_bytes_recv b \<and> sm_bytes_sent a \<le> sm_bytes_sent b) seg)
      (cookie_segments ss)"
    unfolding list_all_iff [of _ "cookie_segments ss"]
  proof (rule ballI)
    fix cs assume cs: "cs \<in> set (cookie_segments ss)"
    obtain cookie seg where p: "cs = (cookie, seg)" by (rule prod.exhaust)
    note props = cookie_segment_props [OF cs [unfolded p]]
    show "case cs of (cookie, seg) \<Rightarrow> seg \<noteq> [] \<and> list_all (\<lambda>s. sm_sock_cookie s = cookie) seg
        \<and> sorted (map sample_ts seg)
        \<and> successively (\<lambda>a b. sm_bytes_recv a \<le> sm_bytes_recv b \<and> sm_bytes_sent a \<le> sm_bytes_sent b) seg"
      unfolding p prod.case by (intro conjI props)
  qed
qed

section \<open>A floor is the round trip of a path\<close>

definition plausible_floor :: "real \<Rightarrow> bool" where "plausible_floor f = (0 < f \<and> f < 30000000)"

lemma usable_rtt_plausible: "usable_rtt x = Some f \<Longrightarrow> 1 \<le> f \<and> f \<le> 29999999"
proof -
  assume "usable_rtt x = Some f"
  then obtain v where v: "v \<noteq> 0" "v < MAX_PLAUSIBLE_RTT_US" "f = f64_of (unat v)"
    by (cases x) (auto simp: usable_rtt_def live_rtt_def split: if_splits)
  have n: "unat v < 30000000" using v(2) by (simp add: MAX_PLAUSIBLE_RTT_US_def word_less_nat_alt)
  then have "f64_of (unat v) = of_nat (unat v)" by (intro f64_of_exact) simp
  moreover have "0 < unat v" using v(1) by (simp add: unat_gt_0)
  ultimately show ?thesis using n v(3) by (simp add: nat_less_real_le le_nat_iff)
qed

lemma mean_plausible:
  assumes "1 \<le> a" "a \<le> 29999999" and "1 \<le> b" "b \<le> 29999999"
  shows "plausible_floor (f64_div (f64_add a b) 2)"
proof -
  let ?s = "f64_add a b"
  have "0 \<le> a + b" using assms by linarith
  note r = f64_round_coarse [OF this, folded f64_add_def]
  have s: "1 \<le> ?s" using r assms by argo
  have t: "?s \<le> 59999999" using r assms by argo
  have "0 \<le> ?s / 2" using s by simp
  note r = f64_round_coarse [OF this, folded f64_div_def]
  show ?thesis using r s t unfolding plausible_floor_def by argo
qed

lemma median_between:
  assumes "list_all (\<lambda>x. 1 \<le> x \<and> x \<le> 29999999) xs" and "median xs = Some f"
  shows "plausible_floor f"
proof -
  let ?ys = "sort xs" and ?n = "length xs"
  have ne: "xs \<noteq> []" using assms(2) by (auto simp: median_def)
  have all: "1 \<le> ?ys ! i \<and> ?ys ! i \<le> 29999999" if "i < ?n" for i
    using assms(1) nth_mem [of i ?ys] that by (auto simp: list_all_iff)
  show ?thesis
  proof (cases "?n mod 2 = 1")
    case True
    have "?n div 2 < ?n" using ne by simp
    moreover have "f = ?ys ! (?n div 2)" using assms(2) True ne by (simp add: median_def Let_def)
    ultimately show ?thesis using all [of "?n div 2"] by (simp add: plausible_floor_def)
  next
    case False
    have "?n div 2 - 1 < ?n" "?n div 2 < ?n" using ne by (simp_all add: less_imp_diff_less)
    then have "plausible_floor (f64_div (f64_add (?ys ! (?n div 2 - 1)) (?ys ! (?n div 2))) 2)"
      using all by (intro mean_plausible) auto
    then show ?thesis using assms(2) False ne by (simp add: median_def Let_def)
  qed
qed

lemma conn_floor_plausible: "conn_floor_us c = Some f \<Longrightarrow> 1 \<le> f \<and> f \<le> 29999999"
  by (auto simp: conn_floor_us_def dest: usable_rtt_plausible split: option.splits)

lemma median_some_iff: "median xs = None \<longleftrightarrow> xs = []"
  by (simp add: median_def Let_def)

lemma region_floor_plausible:
  assumes "fmlookup (region_floors conns) k = Some f"
  shows "plausible_floor f"
proof -
  let ?pairs = "List.map_filter (\<lambda>c. map_option (Pair (ep_region (cn_endpoint c))) (conn_floor_us c)) conns"
  let ?vs = "map snd (filter (\<lambda>x. fst x = k) ?pairs)"
  have vs: "?vs \<noteq> []" "f = the (median ?vs)"
    using assms by (auto simp: region_floors_def fmlookup_group_by Let_def split: if_splits)
  have "list_all (\<lambda>x. 1 \<le> x \<and> x \<le> 29999999) (map snd ?pairs)"
    by (induction conns) (auto simp: map_filter_simps dest: conn_floor_plausible split: option.splits)
  then have "list_all (\<lambda>x. 1 \<le> x \<and> x \<le> 29999999) ?vs" by (auto simp: list_all_iff)
  moreover have "median ?vs = Some f" using vs median_some_iff [of ?vs] by auto
  ultimately show ?thesis by (rule median_between)
qed

lemma joined_floor_plausible: "joined_floor by_cookie (region_floors conns) o' = Some f \<Longrightarrow> plausible_floor f"
  by (auto simp: joined_floor_def plausible_floor_def
      dest: conn_floor_plausible region_floor_plausible [unfolded plausible_floor_def] split: option.splits if_splits)

lemma pooled_plausible: "median (List.map_filter (\<lambda>x. usable_rtt (pick x)) xs) = Some f \<Longrightarrow> plausible_floor f"
proof (rule median_between)
  show "list_all (\<lambda>x. 1 \<le> x \<and> x \<le> 29999999) (List.map_filter (\<lambda>x. usable_rtt (pick x)) xs)"
    by (induction xs) (auto simp: map_filter_simps dest: usable_rtt_plausible split: option.splits)
qed

text \<open>
  The two functions share the test on the round trips, and not the one on the regions: two spellings of one
  region are one path, and a mixed environment.
\<close>

lemma region_spelling_diverges:
  assumes "regions_of conns = [''us-east-1'', ''US-EAST-1'']" and "\<not> bimodal conns"
  shows "\<not> multi_path conns \<and> estimate_environment rtt conns = Some mixed_estimate"
proof
  have "filter (\<lambda>r. r \<noteq> []) (map (\<lambda>r. to_ascii_lowercase (trim r)) (regions_of conns)) = [''us-east-1'', ''us-east-1'']"
    unfolding assms(1) by code_simp
  then show "\<not> multi_path conns" using assms(2) by (simp add: multi_path_def distinct_strings_def)
  have "1 < length (distinct_strings (regions_of conns))" unfolding assms(1) by code_simp
  then show "estimate_environment rtt conns = Some mixed_estimate" by (simp add: estimate_environment_def)
qed

end
