(* ===== verification/Timeline.thy ===== *)
theory Timeline
  imports Floors
begin

text \<open>
  The time series of \<open>s3tap-doctor/lib.rs\<close>: the rate of a segment of samples and its shape, the growth of its
  queue, the rate of all streams together by the second, and the rows drawn from them. No such row is
  judged. The texts of the rows are left out, and with them what only a text says.
\<close>

section \<open>Constants\<close>

definition MIN_TS_INTERVALS :: nat where "MIN_TS_INTERVALS = 6"
definition TS_HELD_FRACTION :: real where "TS_HELD_FRACTION = f64_round (8 / 10)"
definition TS_RAMP_MARGIN :: real where "TS_RAMP_MARGIN = f64_round (12 / 10)"
definition TS_BLOAT_HI :: real where "TS_BLOAT_HI = 2"
definition TS_IDLE_FRAC :: real where "TS_IDLE_FRAC = f64_round (5 / 100)"
definition TS_AGG_BUCKET_NS :: real where "TS_AGG_BUCKET_NS = 1000000000"
definition TS_AGG_MIN_COVER :: real where "TS_AGG_MIN_COVER = 1 / 4"
definition TS_AGG_MAX_SPAN_BUCKETS :: nat where "TS_AGG_MAX_SPAN_BUCKETS = 4096"
definition F64_MIN :: real where "F64_MIN = - ((2 - 1 / 2 ^ 52) * 2 ^ 1023)"

abbreviation f64_u64 :: "u64 \<Rightarrow> real" where "f64_u64 w \<equiv> f64_of (unat w)"
abbreviation f64_u32 :: "u32 \<Rightarrow> real" where "f64_u32 w \<equiv> f64_of (unat w)"

section \<open>The rate of a segment\<close>

fun windows2 :: "'a list \<Rightarrow> ('a \<times> 'a) list" where
  "windows2 (a # b # xs) = (a, b) # windows2 (b # xs)"
| "windows2 _ = []"

fun windows3 :: "'a list \<Rightarrow> ('a \<times> 'a \<times> 'a) list" where
  "windows3 (a # b # c # xs) = (a, b, c) # windows3 (b # c # xs)"
| "windows3 _ = []"

definition robust_peak :: "real list \<Rightarrow> real option" where
  "robust_peak rates =
    (if rates = [] then None
     else if length rates < 3 then Some (fold (\<lambda>r m. max m r) rates F64_MIN)
     else Some (fold (\<lambda>(a, b, c) best. max best (f64_div (f64_add (f64_add a b) c) 3)) (windows3 rates) F64_MIN))"

definition midpoint :: "u64 \<Rightarrow> u64 \<Rightarrow> real \<Rightarrow> real" where
  "midpoint ta tb t0 = f64_sub (f64_div (f64_add (f64_u64 ta) (f64_u64 tb)) 2) t0"

text \<open>A sample without a time ends the walk, and with it the rates of the segment.\<close>

fun down_rates :: "real \<Rightarrow> (tcp_sample \<times> tcp_sample) list \<Rightarrow> (real \<times> real) list option" where
  "down_rates t0 [] = Some []"
| "down_rates t0 ((x, y) # ws) =
    (case (sm_ts_ns x, sm_ts_ns y) of
       (Some a, Some b) \<Rightarrow>
         (let dt = f64_u64 (sat_sub b a); dbytes = f64_u64 (sat_sub (sm_bytes_recv y) (sm_bytes_recv x)) in
          map_option (\<lambda>rs. if 0 < dt then (midpoint a b t0, f64_div dbytes (f64_div dt 1000000000)) # rs else rs)
            (down_rates t0 ws))
     | _ \<Rightarrow> None)"

fun up_rates :: "real \<Rightarrow> tcp_sample list \<Rightarrow> (real \<times> real) list option" where
  "up_rates t0 [] = Some []"
| "up_rates t0 (s # ss) =
    (case sm_delivery_rate_bps s of
       None \<Rightarrow> up_rates t0 ss
     | Some d \<Rightarrow>
         (case sm_ts_ns s of
            None \<Rightarrow> None
          | Some t \<Rightarrow> map_option (Cons (f64_sub (f64_u64 t) t0, f64_u64 d)) (up_rates t0 ss)))"

definition segment_rates :: "seg_dir \<Rightarrow> real \<Rightarrow> tcp_sample list \<Rightarrow> (real \<times> real) list option" where
  "segment_rates dir t0 seg = (case dir of SegDown \<Rightarrow> down_rates t0 (windows2 seg) | SegUp \<Rightarrow> up_rates t0 seg)"

datatype thru_shape = Steady | Bursty | StillRamping

record seg_thru =
  st_sustained_bps :: real
  st_peak_bps :: real
  st_shape :: "thru_shape option"
  st_t90_pct :: "real option"
  st_app_limited :: bool
  st_is_download :: bool
  st_loss_thirds :: "real list option"

definition third_of :: "real \<Rightarrow> nat" where
  "third_of rel = (if rel < f64_div 1 3 then 0 else if rel < f64_div 2 3 then 1 else 2)"

definition sum_f64 :: "real list \<Rightarrow> real" where "sum_f64 xs = fold (\<lambda>x s. f64_add s x) xs 0"

definition loss_in_thirds :: "seg_dir \<Rightarrow> real \<Rightarrow> real \<Rightarrow> real \<Rightarrow> tcp_sample list \<Rightarrow> real list" where
  "loss_in_thirds dir t0 s e seg =
    fold (\<lambda>(x, y) loss.
        case (sm_ts_ns x, sm_ts_ns y) of
          (Some ta, Some tb) \<Rightarrow>
            (let mid = midpoint ta tb t0 in
             if s \<le> mid \<and> mid \<le> e then
               (let d = (case dir of
                     SegDown \<Rightarrow> f64_u32 (sat_sub (sm_rcv_ooopack y) (sm_rcv_ooopack x))
                   | SegUp \<Rightarrow> f64_u32 (sat_sub (sm_total_retrans y) (sm_total_retrans x)));
                    idx = third_of (f64_div (f64_sub mid s) (f64_sub e s)) in
                loss[idx := f64_add (loss ! idx) d])
             else loss)
        | _ \<Rightarrow> loss) (windows2 seg) [0, 0, 0]"

definition third_mean :: "(real \<times> real) list \<Rightarrow> real \<Rightarrow> real \<Rightarrow> real \<Rightarrow> real option" where
  "third_mean win s lo hi =
    (let xs = map snd (filter (\<lambda>(t, r). lo \<le> f64_sub t s \<and> f64_sub t s \<le> hi) win) in
     if xs = [] then None else Some (f64_div (sum_f64 xs) (f64_of (length xs))))"

definition still_rising :: "(real \<times> real) list \<Rightarrow> real \<Rightarrow> real \<Rightarrow> bool" where
  "still_rising win s aw =
    (case (third_mean win s (f64_div aw 3) (f64_div (f64_mul 2 aw) 3), third_mean win s (f64_div (f64_mul 2 aw) 3) aw) of
       (Some m, Some l) \<Rightarrow> 0 < m \<and> f64_mul TS_RAMP_MARGIN m < l
     | _ \<Rightarrow> False)"

definition segment_shape ::
    "seg_dir \<Rightarrow> real \<Rightarrow> tcp_sample list \<Rightarrow> (real \<times> real) list \<Rightarrow> real \<Rightarrow> real
     \<Rightarrow> thru_shape option \<times> real option \<times> real list option" where
  "segment_shape dir t0 seg rates peak sustained =
    (let idle = f64_mul TS_IDLE_FRAC peak in
     case (find (\<lambda>(t, r). idle \<le> r) rates, find (\<lambda>(t, r). idle \<le> r) (rev rates)) of
       (Some (s, _), Some (e, _)) \<Rightarrow>
         if MIN_TS_INTERVALS \<le> length rates \<and> 0 < f64_sub e s \<and> 0 < peak then
           (let aw = f64_sub e s;
                win = filter (\<lambda>(t, r). s \<le> t \<and> t \<le> e) rates;
                t90 = map_option (\<lambda>(t, r). f64_mul (f64_div (f64_sub t s) aw) 100)
                        (find (\<lambda>(t, r). f64_mul (f64_round (9 / 10)) peak \<le> r) win);
                shape = (if still_rising win s aw then StillRamping
                         else if f64_mul TS_HELD_FRACTION peak \<le> sustained then Steady
                         else Bursty) in
            (Some shape, t90, Some (loss_in_thirds dir t0 s e seg)))
         else (None, None, None)
     | _ \<Rightarrow> (None, None, None))"

definition throughput_of_segment :: "tcp_sample list \<Rightarrow> seg_thru option" where
  "throughput_of_segment seg =
    do {
      dir \<leftarrow> seg_direction seg;
      first_ts \<leftarrow> sm_ts_ns (hd seg);
      last_ts \<leftarrow> sm_ts_ns (last seg);
      let t0 = f64_u64 first_ts;
      let seg_span = max (f64_sub (f64_u64 last_ts) t0) 0;
      rates \<leftarrow> segment_rates dir t0 seg;
      peak \<leftarrow> robust_peak (map snd rates);
      let active = filter (\<lambda>r. f64_mul TS_IDLE_FRAC peak \<le> r) (map snd rates);
      let sustained = (case median active of Some v \<Rightarrow> v | None \<Rightarrow> peak);
      let app_limited =
        (dir = SegUp \<and> 0 < seg_span
         \<and> list_ex (\<lambda>s. sm_rate_app_limited s
             \<and> f64_mul (f64_div 2 3) seg_span \<le> f64_sub (f64_u64 (sample_ts s)) t0) seg);
      let (shape, t90_pct, loss_thirds) = segment_shape dir t0 seg rates peak sustained;
      Some \<lparr>st_sustained_bps = sustained, st_peak_bps = peak, st_shape = shape, st_t90_pct = t90_pct,
        st_app_limited = app_limited, st_is_download = (dir = SegDown), st_loss_thirds = loss_thirds\<rparr>
    }"

section \<open>The queue of a segment\<close>

definition bloat_step :: "real \<Rightarrow> real \<Rightarrow> real \<Rightarrow> tcp_sample \<Rightarrow> real \<times> string \<Rightarrow> real \<times> string" where
  "bloat_step floor_us t0 seg_span s acc =
    (let (max_ratio, onset) = acc in
     case live_rtt (sm_srtt_us s) of
       None \<Rightarrow> (max_ratio, onset)
     | Some srtt \<Rightarrow>
         (let ratio = f64_div (f64_u32 srtt) floor_us in
          (max max_ratio ratio,
           if onset = [] \<and> TS_BLOAT_HI \<le> ratio
           then [''early'', ''mid'', ''late''] ! third_of (f64_div (f64_sub (f64_u64 (sample_ts s)) t0) seg_span)
           else onset)))"

definition bufferbloat_of_segment :: "tcp_sample list \<Rightarrow> (real \<times> string) option" where
  "bufferbloat_of_segment seg =
    do {
      low \<leftarrow> reduce min (List.map_filter (\<lambda>s. live_rtt (sm_min_rtt_us s)) seg);
      let floor_us = f64_u32 low;
      first_ts \<leftarrow> (if floor_us \<le> 0 then None else sm_ts_ns (hd seg));
      last_ts \<leftarrow> sm_ts_ns (last seg);
      let t0 = f64_u64 first_ts;
      let seg_span = max (f64_sub (f64_u64 last_ts) t0) 1;
      let (max_ratio, onset) = fold (bloat_step floor_us t0 seg_span) seg (F64_MIN, []);
      if F64_MIN < max_ratio then Some (max_ratio, onset) else None
    }"

section \<open>All streams together, by the second\<close>

record agg_bucket =
  ab_bytes :: real
  ab_cookies :: "u64 list"
  ab_t0 :: u64
  ab_t1 :: u64

type_synonym agg_buckets = "(nat, agg_bucket) fmap"

definition empty_bucket :: agg_bucket where
  "empty_bucket = \<lparr>ab_bytes = 0, ab_cookies = [], ab_t0 = 0, ab_t1 = 0\<rparr>"

definition covered_s :: "agg_bucket \<Rightarrow> real" where
  "covered_s b = f64_div (f64_u64 (sat_sub (ab_t1 b) (ab_t0 b))) 1000000000"

definition bucket_add :: "u64 \<Rightarrow> real \<Rightarrow> u64 \<Rightarrow> u64 \<Rightarrow> agg_bucket \<Rightarrow> agg_bucket" where
  "bucket_add cookie bytes ta tb b =
    \<lparr>ab_bytes = f64_add (ab_bytes b) bytes, ab_cookies = List.insert cookie (ab_cookies b),
     ab_t0 = if ab_cookies b = [] then ta else min (ab_t0 b) ta,
     ab_t1 = if ab_cookies b = [] then tb else max (ab_t1 b) tb\<rparr>"

text \<open>\<open>as u64\<close> saturates. The index of a second is never negative.\<close>

definition f64_as_u64 :: "real \<Rightarrow> u64" where
  "f64_as_u64 x = (if f64_as_nat x < 2 ^ 64 then of_nat (f64_as_nat x) else - 1)"

definition bucket_of :: "u64 \<Rightarrow> nat" where "bucket_of t = f64_as_nat (f64_div (f64_u64 t) TS_AGG_BUCKET_NS)"

definition add_overlap :: "u64 \<Rightarrow> real \<Rightarrow> u64 \<Rightarrow> u64 \<Rightarrow> nat \<Rightarrow> agg_buckets \<Rightarrow> agg_buckets" where
  "add_overlap cookie bytes ta tb bk buckets =
    (let lo = max ta (f64_as_u64 (f64_mul (f64_of bk) TS_AGG_BUCKET_NS));
         hi = min tb (f64_as_u64 (f64_mul (f64_of (bk + 1)) TS_AGG_BUCKET_NS)) in
     if hi \<le> lo then buckets
     else entry_mod bk empty_bucket
       (bucket_add cookie (f64_div (f64_mul bytes (f64_u64 (hi - lo))) (f64_u64 (tb - ta))) lo hi) buckets)"

definition add_interval :: "u64 \<Rightarrow> real \<Rightarrow> u64 \<Rightarrow> u64 \<Rightarrow> agg_buckets \<Rightarrow> agg_buckets" where
  "add_interval cookie bytes ta tb buckets =
    (let f = bucket_of ta; l = bucket_of (tb - 1) in
     if f + TS_AGG_MAX_SPAN_BUCKETS \<le> l then buckets
     else fold (add_overlap cookie bytes ta tb) [f..<l + 1] buckets)"

definition agg_from_buckets :: "agg_buckets \<Rightarrow> (real \<times> real \<times> nat) option" where
  "agg_from_buckets buckets =
    (let covered = filter (\<lambda>b. f64_div (f64_mul TS_AGG_MIN_COVER TS_AGG_BUCKET_NS) 1000000000 \<le> covered_s b)
           (map snd (sorted_list_of_fmap buckets));
         rates = map (\<lambda>b. f64_div (ab_bytes b) (covered_s b)) covered in
     if covered = [] then None
     else map_option (\<lambda>typical.
         (fold (\<lambda>r m. max m r) rates F64_MIN, typical, fold (\<lambda>b m. max m (length (ab_cookies b))) covered 0))
       (median rates))"

section \<open>The rows\<close>

record timeline =
  tm_sustained_mbps :: "real list"
  tm_streams :: nat
  tm_down :: nat
  tm_up :: nat
  tm_down_loss :: "real list"
  tm_up_loss :: "real list"
  tm_down_buckets :: agg_buckets
  tm_up_buckets :: agg_buckets
  tm_worst_bloat :: "real option"

definition timeline_start :: timeline where
  "timeline_start =
    \<lparr>tm_sustained_mbps = [], tm_streams = 0, tm_down = 0, tm_up = 0, tm_down_loss = [0, 0, 0], tm_up_loss = [0, 0, 0],
     tm_down_buckets = fmempty, tm_up_buckets = fmempty, tm_worst_bloat = None\<rparr>"

definition moved_bytes :: "seg_dir \<Rightarrow> tcp_sample \<Rightarrow> tcp_sample \<Rightarrow> u64" where
  "moved_bytes dir x y =
    (case dir of SegDown \<Rightarrow> sat_sub (sm_bytes_recv y) (sm_bytes_recv x) | SegUp \<Rightarrow> sat_sub (sm_bytes_sent y) (sm_bytes_sent x))"

definition segment_intervals :: "u64 \<Rightarrow> seg_dir \<Rightarrow> tcp_sample list \<Rightarrow> agg_buckets \<Rightarrow> agg_buckets" where
  "segment_intervals cookie dir seg =
    fold (\<lambda>(x, y) buckets.
        case (sm_ts_ns x, sm_ts_ns y) of
          (Some ta, Some tb) \<Rightarrow>
            if ta < tb then add_interval cookie (f64_u64 (moved_bytes dir x y)) ta tb buckets else buckets
        | _ \<Rightarrow> buckets) (windows2 seg)"

definition note_intervals :: "u64 \<Rightarrow> tcp_sample list \<Rightarrow> timeline \<Rightarrow> timeline" where
  "note_intervals cookie seg tm =
    (case seg_direction seg of
       None \<Rightarrow> tm
     | Some SegDown \<Rightarrow> tm\<lparr>tm_down_buckets := segment_intervals cookie SegDown seg (tm_down_buckets tm)\<rparr>
     | Some SegUp \<Rightarrow> tm\<lparr>tm_up_buckets := segment_intervals cookie SegUp seg (tm_up_buckets tm)\<rparr>)"

definition add_thirds :: "real list option \<Rightarrow> real list \<Rightarrow> real list" where
  "add_thirds lt dst = (case lt of None \<Rightarrow> dst | Some ls \<Rightarrow> map (\<lambda>(d, l). f64_add d l) (zip dst ls))"

definition note_throughput :: "tcp_sample list \<Rightarrow> timeline \<Rightarrow> timeline" where
  "note_throughput seg tm =
    (case throughput_of_segment seg of
       None \<Rightarrow> tm
     | Some t \<Rightarrow>
         (let tm = tm\<lparr>tm_streams := tm_streams tm + 1,
                      tm_sustained_mbps := tm_sustained_mbps tm @ [f64_div (st_sustained_bps t) 1000000]\<rparr> in
          if st_is_download t
          then tm\<lparr>tm_down := tm_down tm + 1, tm_down_loss := add_thirds (st_loss_thirds t) (tm_down_loss tm)\<rparr>
          else tm\<lparr>tm_up := tm_up tm + 1, tm_up_loss := add_thirds (st_loss_thirds t) (tm_up_loss tm)\<rparr>))"

definition note_bloat :: "tcp_sample list \<Rightarrow> timeline \<Rightarrow> timeline" where
  "note_bloat seg tm =
    (case bufferbloat_of_segment seg of
       None \<Rightarrow> tm
     | Some (ratio, third) \<Rightarrow>
         if (case tm_worst_bloat tm of None \<Rightarrow> True | Some w \<Rightarrow> w < ratio)
         then tm\<lparr>tm_worst_bloat := Some ratio\<rparr> else tm)"

definition note_segment :: "u64 \<times> tcp_sample list \<Rightarrow> timeline \<Rightarrow> timeline" where
  "note_segment cseg tm =
    (let (cookie, seg) = cseg in note_bloat seg (note_throughput seg (note_intervals cookie seg tm)))"

definition fyi_row :: "string \<Rightarrow> string \<Rightarrow> metric \<Rightarrow> row" where
  "fyi_row i label m = \<lparr>rw_id = i, rw_label = label, rw_mark = MarkFyi, rw_metric = m\<rparr>"

abbreviation DOWN_ARROW :: string where "DOWN_ARROW \<equiv> [CHR 0xE2, CHR 0x86, CHR 0x93]"
abbreviation UP_ARROW :: string where "UP_ARROW \<equiv> [CHR 0xE2, CHR 0x86, CHR 0x91]"

definition aggregate_row :: "string \<Rightarrow> string \<Rightarrow> agg_buckets \<Rightarrow> row list" where
  "aggregate_row i label buckets =
    (case agg_from_buckets buckets of
       Some (peak, typical, maxc) \<Rightarrow>
         if 2 \<le> maxc then [fyi_row i label (plain_metric ''throughput_aggregate_bps'' peak UBytesPerS)] else []
     | None \<Rightarrow> [])"

definition loss_row :: "string \<Rightarrow> string \<Rightarrow> real list \<Rightarrow> row list" where
  "loss_row i label thirds =
    (let n = sum_f64 thirds in
     if 0 < n then [fyi_row i label (plain_metric ''loss_events'' n UCount)] else [])"

definition timeseries_domain :: "tcp_sample list \<Rightarrow> row list \<times> nat \<times> nat \<times> nat" where
  "timeseries_domain ss =
    (if ss = [] then ([], 0, 0, 0)
     else
       (let tm = fold note_segment (cookie_segments ss) timeline_start in
        ((case median (tm_sustained_mbps tm) of
            Some sustained \<Rightarrow>
              [fyi_row ''throughput_ramp'' ''throughput''
                 (plain_metric ''throughput_sustained_bps'' (f64_mul sustained 1000000) UBytesPerS)]
          | None \<Rightarrow> [])
         @ aggregate_row ''throughput_aggregate_down'' (''aggregate '' @ DOWN_ARROW) (tm_down_buckets tm)
         @ aggregate_row ''throughput_aggregate_up'' (''aggregate '' @ UP_ARROW) (tm_up_buckets tm)
         @ loss_row ''loss_timeline_reorder'' (''reorder timeline '' @ DOWN_ARROW) (tm_down_loss tm)
         @ loss_row ''loss_timeline_retrans'' (''retrans timeline '' @ UP_ARROW) (tm_up_loss tm)
         @ (case tm_worst_bloat tm of
              Some ratio \<Rightarrow> [fyi_row ''bufferbloat_onset'' ''bufferbloat'' (plain_metric ''srtt_inflation_ratio'' ratio URatio)]
            | None \<Rightarrow> []),
         tm_streams tm, tm_down tm, tm_up tm)))"

end
