(* ===== verification/PathRows.thy ===== *)
theory PathRows
  imports Timeline
begin

text \<open>
  The path of \<open>s3tap-doctor/lib.rs\<close>: the rows drawn from the closed connections, and the two ceilings drawn
  from the samples when no connection closed. No such row is judged, and what a row only says in its text
  is left out.
\<close>

section \<open>Closed connections\<close>

definition ms_of_us :: "u32 option \<Rightarrow> real option" where
  "ms_of_us x = map_option (\<lambda>v. f64_div (f64_u32 v) 1000) (live_rtt x)"

definition min_rtts_ms :: "connection list \<Rightarrow> real list" where
  "min_rtts_ms conns = List.map_filter (\<lambda>c. ms_of_us (cn_min_rtt_us c)) conns"

definition send_heavy :: "connection \<Rightarrow> bool" where
  "send_heavy c = (cn_bytes_recv c < cn_bytes_sent c \<and> MIN_DIRECTIONAL_BYTES \<le> cn_bytes_sent c)"

definition recv_heavy :: "connection \<Rightarrow> bool" where
  "recv_heavy c = (cn_bytes_sent c < cn_bytes_recv c \<and> MIN_DIRECTIONAL_BYTES \<le> cn_bytes_recv c)"

definition min_rtt_row :: "connection list \<Rightarrow> row list" where
  "min_rtt_row conns =
    opt_list (map_option (\<lambda>v. fyi_row ''path_min_rtt'' ''min RTT (true floor)'' (plain_metric ''min_rtt'' v UMs))
      (median (min_rtts_ms conns)))"

definition tls_row :: "connection list \<Rightarrow> row list" where
  "tls_row conns =
    (case median (List.map_filter (\<lambda>c. map_option (\<lambda>v. f64_div (f64_u64 v) 1000000) (tls_handshake_ns (cn_tls c))) conns) of
       None \<Rightarrow> []
     | Some hs_ms \<Rightarrow>
         (let low = median (min_rtts_ms conns);
              ratio = Option.bind low (\<lambda>f. if 0 < f then Some (f64_div hs_ms f) else None) in
          [fyi_row ''tls_handshake'' ''TLS handshake''
             (plain_metric ''tls_handshake'' hs_ms UMs
                \<lparr>mt_rtt_relative := True, mt_ratio_to_rtt := ratio,
                 mt_baseline_us := map_option (\<lambda>f. f64_mul f 1000) low\<rparr>)]))"

definition jiffies :: "(connection \<Rightarrow> u32 option) \<Rightarrow> connection list \<Rightarrow> real" where
  "jiffies field conns = sum_f64 (map f64_u32 (List.map_filter field (filter send_heavy conns)))"

definition send_bottleneck_row :: "connection list \<Rightarrow> row list" where
  "send_bottleneck_row conns =
    (let busy = jiffies cn_busy_jiffies conns;
         all = f64_add (f64_add busy (jiffies cn_rwnd_limited_jiffies conns)) (jiffies cn_sndbuf_limited_jiffies conns) in
     if 0 < all
     then [fyi_row ''send_bottleneck'' ''send bottleneck''
             (plain_metric ''send_free_pct'' (f64_mul (f64_div busy all) 100) UNone)]
     else [])"

definition bdp_of :: "connection \<Rightarrow> real option" where
  "bdp_of c =
    do {
      cwnd \<leftarrow> opt_filter (\<lambda>v. 0 < v) (cn_snd_cwnd c);
      mss \<leftarrow> opt_filter (\<lambda>v. 0 < v) (cn_mss c);
      low \<leftarrow> live_rtt (cn_min_rtt_us c);
      Some (f64_div (f64_mul (f64_u32 cwnd) (f64_u32 mss)) (f64_div (f64_u32 low) 1000000))
    }"

definition bdp_row :: "connection list \<Rightarrow> row list" where
  "bdp_row conns =
    opt_list (map_option (\<lambda>v. fyi_row ''bdp_ceiling'' ''1-stream ceiling'' (plain_metric ''bdp_ceiling'' v UBytesPerS))
      (median (List.map_filter bdp_of (filter send_heavy conns))))"

definition recv_ceiling_of :: "connection \<Rightarrow> real option" where
  "recv_ceiling_of c =
    do {
      clamp_bytes \<leftarrow> opt_filter (\<lambda>v. 0 < v) (cn_window_clamp c);
      low \<leftarrow> live_rtt (cn_min_rtt_us c);
      life \<leftarrow> cn_lifetime_ns c;
      if 0 < f64_u64 life then Some (f64_div (f64_u32 clamp_bytes) (f64_div (f64_u32 low) 1000000)) else None
    }"

definition recv_row :: "connection list \<Rightarrow> row list" where
  "recv_row conns =
    opt_list (map_option (\<lambda>v. fyi_row ''recv_ceiling'' ''download ceiling'' (plain_metric ''recv_window_ceiling'' v UBytesPerS))
      (median (List.map_filter recv_ceiling_of (filter recv_heavy conns))))"

definition loss_shape_row :: "connection list \<Rightarrow> row list" where
  "loss_shape_row conns =
    (let reord = reduce max (List.map_filter cn_reordering conns);
         recov = length (filter (\<lambda>c. case cn_ca_state c of Some s \<Rightarrow> 3 \<le> s | None \<Rightarrow> False) conns);
         reorder_high = (case reord of Some r \<Rightarrow> 3 < r | None \<Rightarrow> False);
         ooo = sum_list (map unat (List.map_filter cn_rcv_ooopack conns));
         dsack = sum_list (map unat (List.map_filter cn_dsack_dups (filter send_heavy conns)));
         shape = (\<lambda>m. [fyi_row ''loss_shape'' ''loss shape'' m]) in
     if reorder_high then shape (plain_metric ''reordering'' (f64_u32 (the reord)) UCount)
     else if 0 < recov then shape (plain_metric ''loss_recovery'' (f64_of recov) UCount)
     else if 0 < ooo then shape (plain_metric ''rcv_ooopack'' (f64_of ooo) UCount)
     else if 0 < dsack then shape (plain_metric ''dsack_dups'' (f64_of dsack) UCount)
     else [])"

definition path_domain :: "connection list \<Rightarrow> row list" where
  "path_domain conns =
    min_rtt_row conns @ tls_row conns @ send_bottleneck_row conns @ bdp_row conns @ recv_row conns @ loss_shape_row conns"

section \<open>Samples\<close>

definition ASSUMED_MSS_BYTES :: real where "ASSUMED_MSS_BYTES = 1460"

record sampled_path =
  sp_dn :: "(real \<times> real option) list"
  sp_up :: "(real \<times> real option) list"
  sp_dn_streams :: "u64 list"
  sp_up_streams :: "u64 list"

definition seg_min_rtt_s :: "tcp_sample list \<Rightarrow> real option" where
  "seg_min_rtt_s seg =
    map_option (\<lambda>v. f64_div (f64_u32 v) 1000000) (reduce min (List.map_filter (\<lambda>s. live_rtt (sm_min_rtt_us s)) seg))"

definition sampled_segment :: "u64 \<times> tcp_sample list \<Rightarrow> sampled_path \<Rightarrow> sampled_path" where
  "sampled_segment cseg sp =
    (let (cookie, seg) = cseg; thru = map_option st_sustained_bps (throughput_of_segment seg) in
     case seg_min_rtt_s seg of
       None \<Rightarrow> sp
     | Some low \<Rightarrow>
         (case seg_direction seg of
            Some SegDown \<Rightarrow>
              (case reduce max (filter (\<lambda>w. 0 < w) (map sm_rcv_wnd seg)) of
                 Some wnd \<Rightarrow>
                   sp\<lparr>sp_dn := sp_dn sp @ [(f64_div (f64_u32 wnd) low, thru)],
                      sp_dn_streams := List.insert cookie (sp_dn_streams sp)\<rparr>
               | None \<Rightarrow> sp)
          | Some SegUp \<Rightarrow>
              (case median (map f64_u32 (filter (\<lambda>c. 0 < c) (map sm_snd_cwnd seg))) of
                 Some cwnd \<Rightarrow>
                   sp\<lparr>sp_up := sp_up sp @ [(f64_div (f64_mul cwnd ASSUMED_MSS_BYTES) low, thru)],
                      sp_up_streams := List.insert cookie (sp_up_streams sp)\<rparr>
               | None \<Rightarrow> sp)
          | None \<Rightarrow> sp))"

text \<open>The ceiling over the segments that have a rate, or over all when none has.\<close>

definition sampled_ceiling :: "(real \<times> real option) list \<Rightarrow> real option" where
  "sampled_ceiling xs =
    (let rated = List.map_filter (\<lambda>(cl, a). map_option (Pair cl) a) xs in
     case (median (map fst rated), median (map snd rated)) of
       (Some cl, Some avg) \<Rightarrow> Some cl
     | _ \<Rightarrow> median (map fst xs))"

definition path_domain_sampled :: "tcp_sample list \<Rightarrow> row list \<times> nat \<times> nat" where
  "path_domain_sampled ss =
    (if ss = [] then ([], 0, 0)
     else
       (let sp = fold sampled_segment (cookie_segments ss)
                   \<lparr>sp_dn = [], sp_up = [], sp_dn_streams = [], sp_up_streams = []\<rparr> in
        (opt_list (map_option (\<lambda>v. fyi_row ''recv_ceiling'' ''download ceiling''
             (plain_metric ''recv_window_ceiling'' v UBytesPerS)) (sampled_ceiling (sp_dn sp)))
         @ opt_list (map_option (\<lambda>v. fyi_row ''bdp_ceiling'' ''1-stream ceiling''
             (plain_metric ''bdp_ceiling'' v UBytesPerS)) (sampled_ceiling (sp_up sp))),
         length (sp_dn_streams sp), length (sp_up_streams sp))))"

end
