(* ===== verification/Doctor.thy ===== *)
theory Doctor
  imports PathRows
begin

text \<open>
  The doctor of \<open>s3tap-doctor/lib.rs\<close>: the rows it draws from the records of a capture, with their marks and
  their populations, and the report they make.
\<close>

section \<open>Constants\<close>

definition TAIL_RTT_MULT :: real where "TAIL_RTT_MULT = 8"
definition P99_RTT_MULT :: real where "P99_RTT_MULT = 12"
definition TTFB_RTT_MULT :: real where "TTFB_RTT_MULT = 4"
definition TCP_CONNECT_RTT_MULT :: real where "TCP_CONNECT_RTT_MULT = 3"
definition RTX_RATE_MAX :: real where "RTX_RATE_MAX = f64_round (1 / 1000)"
definition TCP_MSS_BYTES :: u64 where "TCP_MSS_BYTES = 1460"
definition MIN_RATE_SEGMENTS :: u64 where "MIN_RATE_SEGMENTS = MIN_DIRECTIONAL_BYTES div TCP_MSS_BYTES"
definition MIN_REUSE_SAMPLE :: nat where "MIN_REUSE_SAMPLE = 5"
definition MIN_JUDGE_SAMPLE :: nat where "MIN_JUDGE_SAMPLE = 3"
definition REUSE_RATIO_MIN :: real where "REUSE_RATIO_MIN = f64_round (8 / 10)"

section \<open>The pooled floor\<close>

record pooled_floor =
  pf_us :: "real option"
  pf_label :: string
  pf_judged :: nat
  pf_excluded :: nat

definition sample_floors :: "(tcp_sample \<Rightarrow> u32 option) \<Rightarrow> tcp_sample list \<Rightarrow> real list" where
  "sample_floors pick ss = List.map_filter (\<lambda>s. usable_rtt (pick s)) ss"

definition pooled_floor_of :: "connection list \<Rightarrow> tcp_sample list \<Rightarrow> pooled_floor" where
  "pooled_floor_of conns ss =
    (let close = conn_srtts conns; mins = sample_floors sm_min_rtt_us ss; srtts = sample_floors sm_srtt_us ss in
     case median close of
       Some f \<Rightarrow> \<lparr>pf_us = Some f, pf_label = ''baseline RTT (srtt)'', pf_judged = length close,
                  pf_excluded = length conns - length close\<rparr>
     | None \<Rightarrow>
         (case median mins of
            Some f \<Rightarrow> \<lparr>pf_us = Some f, pf_label = ''baseline RTT (min_rtt, sampled)'', pf_judged = length mins,
                       pf_excluded = length ss - length mins\<rparr>
          | None \<Rightarrow>
              (case median srtts of
                 Some f \<Rightarrow> \<lparr>pf_us = Some f, pf_label = ''baseline RTT (srtt, sampled)'', pf_judged = length srtts,
                            pf_excluded = length conns + length ss - length srtts\<rparr>
               | None \<Rightarrow> \<lparr>pf_us = None, pf_label = ''baseline RTT (srtt)'', pf_judged = 0,
                          pf_excluded = length conns + length ss\<rparr>)))"

section \<open>Rows against the pooled floor\<close>

definition ratio_row :: "string \<Rightarrow> string \<Rightarrow> real \<Rightarrow> real option \<Rightarrow> real \<Rightarrow> row" where
  "ratio_row i label ms rtt_ms limit =
    (let m = (plain_metric i ms UMs)\<lparr>mt_rtt_relative := True\<rparr> in
     case rtt_ms of
       None \<Rightarrow> \<lparr>rw_id = i, rw_label = label, rw_mark = MarkNa, rw_metric = m\<rparr>
     | Some rtt \<Rightarrow>
         (let ratio = f64_div ms rtt in
          \<lparr>rw_id = i, rw_label = label, rw_mark = if ratio \<le> limit then MarkOk else MarkWarn,
           rw_metric = m\<lparr>mt_ratio_to_rtt := Some ratio\<rparr>\<rparr>))"

definition baseline_row :: "pooled_floor \<Rightarrow> row list" where
  "baseline_row pf =
    opt_list (map_option (\<lambda>f.
      \<lparr>rw_id = ''baseline_rtt'', rw_label = pf_label pf, rw_mark = MarkNa,
       rw_metric = (plain_metric ''baseline_rtt'' (f64_div f 1000) UMs)\<lparr>mt_rtt_relative := True\<rparr>\<rparr>) (pf_us pf))"

definition ns_ms :: "real \<Rightarrow> real" where "ns_ms v = f64_div v 1000000"

definition span_row :: "string \<Rightarrow> string \<Rightarrow> real option \<Rightarrow> real \<Rightarrow> real option \<Rightarrow> row list" where
  "span_row i label rtt_ms limit v = opt_list (map_option (\<lambda>t. ratio_row i label (ns_ms t) rtt_ms limit) v)"

definition dns_row :: "real option \<Rightarrow> row list" where
  "dns_row v = opt_list (map_option (\<lambda>t. fyi_row ''dns_cold'' ''DNS, cold resolve'' (plain_metric ''dns_cold'' (ns_ms t) UMs)) v)"

section \<open>Reliability\<close>

definition retransmit_row :: "u64 \<Rightarrow> u64 \<Rightarrow> row" where
  "retransmit_row rtx sent_bytes =
    (let segs = sent_bytes div TCP_MSS_BYTES;
         row = (\<lambda>mk m. \<lparr>rw_id = ''retransmit_rate'', rw_label = ''retransmit rate'', rw_mark = mk, rw_metric = m\<rparr>) in
     if segs < MIN_RATE_SEGMENTS
     then row MarkNa (metric_default\<lparr>mt_name := ''retransmit_rate'', mt_unit := URatio\<rparr>)
     else
       (let rate = f64_div (f64_u64 rtx) (f64_u64 segs) in
        row (if rate \<le> RTX_RATE_MAX then MarkOk else MarkWarn) (plain_metric ''retransmit_rate'' rate URatio)))"

definition http_errors_row :: "nat \<Rightarrow> nat \<Rightarrow> row" where
  "http_errors_row statused nerr =
    (let row = (\<lambda>mk m. \<lparr>rw_id = ''http_errors'', rw_label = ''HTTP errors'', rw_mark = mk, rw_metric = m\<rparr>) in
     if statused = 0 then row MarkNa (metric_default\<lparr>mt_name := ''http_errors'', mt_unit := UCount\<rparr>)
     else row (if nerr = 0 then MarkOk else MarkWarn) (plain_metric ''http_errors'' (f64_of nerr) UCount))"

definition reuse_row :: "nat \<Rightarrow> nat \<Rightarrow> row option" where
  "reuse_row n reused =
    (if n < MIN_REUSE_SAMPLE then None
     else
       (let ratio = f64_div (f64_of reused) (f64_of n) in
        Some \<lparr>rw_id = ''reuse_rate'', rw_label = ''connection reuse'',
          rw_mark = if REUSE_RATIO_MIN \<le> ratio then MarkOk else MarkWarn,
          rw_metric = plain_metric ''reuse_rate'' ratio URatio\<rparr>))"

section \<open>Tails\<close>

record tail_spec =
  ts_id :: string
  ts_label :: string
  ts_p :: real
  ts_min_n :: nat
  ts_mult :: real

definition uniform_floor :: "real list \<Rightarrow> real option" where
  "uniform_floor floors =
    (case floors of [] \<Rightarrow> None | f # fs \<Rightarrow> if list_all (\<lambda>g. g = f) fs then Some f else None)"

definition na_tail_row :: "tail_spec \<Rightarrow> real \<Rightarrow> row" where
  "na_tail_row sp ms =
    \<lparr>rw_id = ts_id sp, rw_label = ts_label sp, rw_mark = MarkNa,
     rw_metric = (plain_metric (ts_id sp) ms UMs)\<lparr>mt_rtt_relative := True\<rparr>\<rparr>"

definition floored :: "(real \<times> real option) list \<Rightarrow> (real \<times> real) list" where
  "floored pairs = List.map_filter (\<lambda>(t, f). map_option (Pair t) f) pairs"

type_synonym row_population = "string \<times> nat \<times> nat"

definition tail_row :: "(real \<times> real option) list \<Rightarrow> tail_spec \<Rightarrow> (row \<times> row_population) option" where
  "tail_row pairs sp =
    (let n = length pairs; judged = floored pairs; j = length judged;
         na = (\<lambda>jn. map_option (\<lambda>v. (na_tail_row sp v, (ts_id sp, jn, n - jn))) (pctl (map fst pairs) (ts_p sp))) in
     if n < ts_min_n sp then None
     else if j < ts_min_n sp then na 0
     else
       (case (pctl (map fst judged) (ts_p sp), pctl (map (\<lambda>(t, f). f64_div t f) judged) (ts_p sp)) of
          (Some ttfb_ms, Some ratio) \<Rightarrow>
            (let dropped_frac = f64_div (f64_of (n - j)) (f64_of n);
                 tail_frac = f64_sub 1 (f64_div (ts_p sp) 100);
                 uniform = uniform_floor (map (\<lambda>(t, f). f64_mul f 1000) judged);
                 good = (ratio \<le> ts_mult sp) in
             if good \<and> tail_frac < dropped_frac then na j
             else Some
               (\<lparr>rw_id = ts_id sp, rw_label = ts_label sp, rw_mark = if good then MarkOk else MarkWarn,
                 rw_metric = (plain_metric (ts_id sp) ttfb_ms UMs)
                   \<lparr>mt_rtt_relative := True, mt_ratio_to_rtt := Some ratio, mt_baseline_us := uniform,
                    mt_per_op_baseline := (uniform = None)\<rparr>\<rparr>,
                (ts_id sp, j, n - j)))
        | _ \<Rightarrow> None))"

definition new_specs :: "tail_spec list" where
  "new_specs =
    [\<lparr>ts_id = ''ttfb_new_p95'', ts_label = ''TTFB p95, new conn'', ts_p = 95, ts_min_n = MIN_TAIL_SAMPLE, ts_mult = TAIL_RTT_MULT\<rparr>,
     \<lparr>ts_id = ''ttfb_new_p99'', ts_label = ''TTFB p99, new conn'', ts_p = 99, ts_min_n = MIN_P99_SAMPLE, ts_mult = P99_RTT_MULT\<rparr>]"

definition reused_specs :: "tail_spec list" where
  "reused_specs =
    [\<lparr>ts_id = ''ttfb_reused_p95'', ts_label = ''TTFB p95, reused conn'', ts_p = 95, ts_min_n = MIN_TAIL_SAMPLE, ts_mult = TAIL_RTT_MULT\<rparr>,
     \<lparr>ts_id = ''ttfb_reused_p99'', ts_label = ''TTFB p99, reused conn'', ts_p = 99, ts_min_n = MIN_P99_SAMPLE, ts_mult = P99_RTT_MULT\<rparr>]"

definition tail_rows :: "(real \<times> real option) list \<Rightarrow> (real \<times> real option) list \<Rightarrow> (row \<times> row_population) list" where
  "tail_rows ttfb_new ttfb_reu =
    List.map_filter (tail_row ttfb_new) new_specs @ List.map_filter (tail_row ttfb_reu) reused_specs"

section \<open>The S3 domain\<close>

definition na_s3_ttfb_row :: "string \<Rightarrow> real \<Rightarrow> s3_row" where
  "na_s3_ttfb_row cls ms =
    \<lparr>s3_id = ''s3_ttfb'', s3_label = cls @ '' TTFB'', s3_mark = MarkNa, s3_s3_op = Some cls,
     s3_metric = (plain_metric ''s3_ttfb'' ms UMs)\<lparr>mt_rtt_relative := True\<rparr>, s3_population = None\<rparr>"

definition ttfb_pair :: "(operation \<Rightarrow> real option) \<Rightarrow> operation \<Rightarrow> (real \<times> real option) option" where
  "ttfb_pair floor_of o' =
    map_option (\<lambda>t. (ns_ms (f64_u64 t), map_option (\<lambda>f. f64_div f 1000) (floor_of o'))) (o_ttfb_ns o')"

definition s3_ttfb_row :: "(operation \<Rightarrow> real option) \<Rightarrow> string \<Rightarrow> operation list \<Rightarrow> s3_row option" where
  "s3_ttfb_row floor_of cls ops =
    (let pairs = List.map_filter (ttfb_pair floor_of) ops; judged = floored pairs in
     case median (if judged = [] then map fst pairs else map fst judged) of
       None \<Rightarrow> None
     | Some ms \<Rightarrow>
         (case median (map (\<lambda>(t, f). f64_div t f) judged) of
            None \<Rightarrow> Some (na_s3_ttfb_row cls ms)
          | Some ratio \<Rightarrow>
              (let uniform = uniform_floor (map (\<lambda>(t, f). f64_mul f 1000) judged); ok = (ratio \<le> TTFB_RTT_MULT) in
               if ok \<and> length judged < MIN_JUDGE_SAMPLE then Some (na_s3_ttfb_row cls ms)
               else Some
                 \<lparr>s3_id = ''s3_ttfb'', s3_label = cls @ '' TTFB'', s3_mark = if ok then MarkOk else MarkWarn,
                  s3_s3_op = Some cls,
                  s3_metric = (plain_metric ''s3_ttfb'' ms UMs)
                    \<lparr>mt_rtt_relative := True, mt_ratio_to_rtt := Some ratio, mt_baseline_us := uniform,
                     mt_per_op_baseline := (uniform = None)\<rparr>,
                  s3_population = None\<rparr>)))"

definition op_class :: "operation \<Rightarrow> string option" where "op_class o' = map_option sanitize_label (o_s3_op o')"

definition by_class :: "operation list \<Rightarrow> (string, operation list) fmap" where
  "by_class good = group_by (\<lambda>o'. the (op_class o')) (\<lambda>o'. o') (filter (\<lambda>o'. op_class o' \<noteq> None) good) fmempty"

definition class_row :: "(operation \<Rightarrow> real option) \<Rightarrow> operation list \<Rightarrow> string \<times> operation list \<Rightarrow> (s3_row \<times> (string \<times> evidence)) option" where
  "class_row floor_of ops cops =
    (let (cls, class_ops) = cops;
         judged = length (filter (\<lambda>o'. o_ttfb_ns o' \<noteq> None \<and> floor_of o' \<noteq> None) class_ops);
         candidates = length (filter (\<lambda>o'. o_ttfb_ns o' \<noteq> None \<and> op_class o' = Some cls) ops) in
     map_option (\<lambda>w. (w\<lparr>s3_population := Some (judged, candidates - judged)\<rparr>, (s3_label w, evidence_of class_ops)))
       (s3_ttfb_row floor_of cls class_ops))"

definition by_status :: "(status_class \<Rightarrow> bool) \<Rightarrow> operation list \<Rightarrow> operation list" where
  "by_status P ops = filter (\<lambda>o'. case o_http_status o' of Some st \<Rightarrow> P (classify_status st) | None \<Rightarrow> False) ops"

definition is_client_class :: "status_class \<Rightarrow> bool" where
  "is_client_class c = (c = Forbidden \<or> c = NotFound \<or> c = BadRequest \<or> c = ClientError)"

definition status_row :: "string \<Rightarrow> string \<Rightarrow> string \<Rightarrow> operation list \<Rightarrow> (s3_row \<times> (string \<times> evidence)) list" where
  "status_row i label mname hit =
    (if hit = [] then []
     else [(\<lparr>s3_id = i, s3_label = label, s3_mark = MarkWarn, s3_s3_op = None,
             s3_metric = plain_metric mname (f64_of (length hit)) UCount, s3_population = None\<rparr>,
            (label, evidence_of hit))])"

definition get_rate :: "operation \<Rightarrow> real option" where
  "get_rate o' =
    (case (o_content_length o', o_download_ns o') of
       (Some cl, Some dl) \<Rightarrow> if 0 < dl then Some (f64_mul (f64_div (f64_u64 cl) (f64_u64 dl)) 1000) else None
     | _ \<Rightarrow> None)"

definition is_get :: "operation \<Rightarrow> bool" where "is_get o' = (o_s3_op o' = Some ''GetObject'')"

definition throughput_row :: "operation list \<Rightarrow> operation list \<Rightarrow> s3_row list" where
  "throughput_row ops good =
    (let get_ops = length (filter (\<lambda>o'. is_get o' \<and> o_content_length o' \<noteq> None
           \<and> (case o_download_ns o' of Some d \<Rightarrow> 0 < d | None \<Rightarrow> False)) ops);
         tputs = List.map_filter get_rate (filter is_get good) in
     opt_list (map_option (\<lambda>mbps.
       \<lparr>s3_id = ''s3_throughput'', s3_label = ''GetObject throughput'', s3_mark = MarkAdvisory, s3_s3_op = Some ''GetObject'',
        s3_metric = plain_metric ''s3_get_throughput'' (f64_mul mbps 1000000) UBytesPerS,
        s3_population = Some (length tputs, get_ops - length tputs)\<rparr>) (median tputs)))"

definition s3_domain :: "(operation \<Rightarrow> real option) \<Rightarrow> operation list \<Rightarrow> s3_row list \<times> (string \<times> evidence) list" where
  "s3_domain floor_of ops =
    (let good = filter is_timeable ops;
         judged = List.map_filter (class_row floor_of ops) (sorted_list_of_fmap (by_class good))
           @ status_row ''s3_throttle'' ''throttling (429/503)'' ''s3_status_throttle'' (by_status (\<lambda>c. c = Throttle) ops)
           @ status_row ''s3_server_errors'' ''server errors (5xx)'' ''s3_status_server'' (by_status (\<lambda>c. c = ServerError) ops)
           @ status_row ''s3_client_errors'' ''client errors (4xx)'' ''s3_status_client'' (by_status is_client_class ops) in
     (map fst judged @ throughput_row ops good, map snd judged))"

section \<open>The report of a capture\<close>

definition first_verdict :: "row list \<Rightarrow> real option \<Rightarrow> bool \<Rightarrow> bool \<Rightarrow> verdict" where
  "first_verdict rows rtt_ms judged reused =
    (if list_ex (\<lambda>w. rw_mark w = MarkWarn) rows then Attention
     else if rtt_ms = None then NoBaseline
     else if \<not> judged then ChecksPassed
     else HealthyRun reused)"

definition cold_dns :: "operation \<Rightarrow> bool" where
  "cold_dns o' = (case o_dns o' of Some d \<Rightarrow> \<not> dns_cache_hit d | None \<Rightarrow> False)"

definition send_totals :: "connection list \<Rightarrow> tcp_sample list \<Rightarrow> u64 \<times> u64 \<times> nat option" where
  "send_totals conns ss =
    (let close_sent = fold (\<lambda>c a. sat_add a (cn_bytes_sent c)) conns 0;
         close_rtx = fold (\<lambda>c a. sat_add a (ucast (cn_retransmits c))) conns 0 in
     if 0 < close_sent then (close_rtx, close_sent, None)
     else (let (sent, rtx, streams) = sample_send_deltas ss in (rtx, sent, Some streams)))"

definition ttfbs :: "bool \<Rightarrow> operation list \<Rightarrow> real list" where
  "ttfbs reused good = map f64_u64 (List.map_filter o_ttfb_ns (filter (\<lambda>o'. o_connection_reused o' = reused) good))"

definition connect_times :: "operation list \<Rightarrow> real list" where
  "connect_times good = map f64_u64 (List.map_filter o_tcp_connect_ns good)"

definition cold_times :: "operation list \<Rightarrow> real list" where
  "cold_times good =
    map (\<lambda>d. f64_u64 (dns_latency_ns d)) (filter (\<lambda>d. \<not> dns_cache_hit d) (List.map_filter o_dns good))"

definition global_rows :: "pooled_floor \<Rightarrow> bool \<Rightarrow> operation list \<Rightarrow> connection list \<Rightarrow> tcp_sample list \<Rightarrow> row list" where
  "global_rows pf mixed ops conns ss =
    (let good = filter is_timeable ops;
         row_rtt_ms = (if mixed then None else map_option (\<lambda>f. f64_div f 1000) (pf_us pf));
         (rtx, sent_bytes, streams) = send_totals conns ss in
     baseline_row pf
     @ dns_row (median (cold_times good))
     @ span_row ''tcp_connect'' ''TCP connect'' row_rtt_ms TCP_CONNECT_RTT_MULT (median (connect_times good))
     @ span_row ''ttfb_new'' ''TTFB, new conn'' row_rtt_ms TTFB_RTT_MULT (median (ttfbs False good))
     @ span_row ''ttfb_reused'' ''TTFB, reused conn'' row_rtt_ms TTFB_RTT_MULT (median (ttfbs True good))
     @ [retransmit_row rtx sent_bytes,
        http_errors_row (length (filter answered_op ops))
          (length (filter (\<lambda>o'. case o_http_status o' of Some st \<Rightarrow> 400 \<le> st | None \<Rightarrow> False) ops))])"

definition global_populations :: "operation list \<Rightarrow> row_population list" where
  "global_populations ops =
    (let good = filter is_timeable ops;
         entry = (\<lambda>i P. (i, length (filter P good), length (filter P ops) - length (filter P good))) in
     filter (\<lambda>(i, j, e). 0 < j)
       [entry ''dns_cold'' cold_dns,
        entry ''tcp_connect'' (\<lambda>o'. o_tcp_connect_ns o' \<noteq> None),
        entry ''ttfb_new'' (\<lambda>o'. \<not> o_connection_reused o' \<and> o_ttfb_ns o' \<noteq> None),
        entry ''ttfb_reused'' (\<lambda>o'. o_connection_reused o' \<and> o_ttfb_ns o' \<noteq> None)])"

definition floor_of_op :: "pooled_floor \<Rightarrow> connection list \<Rightarrow> operation \<Rightarrow> real option" where
  "floor_of_op pf conns =
    (let (by_cookie, regions) = build_floor_maps conns in floor_for by_cookie regions (pf_us pf) (multi_path conns))"

definition tail_pairs :: "(operation \<Rightarrow> real option) \<Rightarrow> bool \<Rightarrow> operation list \<Rightarrow> (real \<times> real option) list" where
  "tail_pairs floor_of reused ops =
    List.map_filter (ttfb_pair floor_of) (filter (\<lambda>o'. o_connection_reused o' = reused) (filter is_timeable ops))"

definition analyze :: "capture_record list \<Rightarrow> report" where
  "analyze records =
    (let ops = operations records; conns = connections records; ss = samples records;
         pf = pooled_floor_of conns ss; mixed = multi_path conns; floor_of = floor_of_op pf conns;
         rtt_ms = map_option (\<lambda>f. f64_div f 1000) (pf_us pf);
         good = filter is_timeable ops;
         rows = global_rows pf mixed ops conns ss;
         error_ops = filter (\<lambda>o'. case o_http_status o' of Some st \<Rightarrow> 400 \<le> st | None \<Rightarrow> False) ops;
         (s3, evidence) = s3_domain floor_of ops;
         tails = tail_rows (tail_pairs floor_of False ops) (tail_pairs floor_of True ops);
         nonpartial = filter (\<lambda>o'. \<not> o_partial o') ops;
         (sampled_rows, recv_n, send_n) = (if conns = [] then path_domain_sampled ss else ([], 0, 0));
         (timeseries, streams, down, up) = timeseries_domain ss;
         ts = List.map_filter o_ts_ns ops @ List.map_filter cn_ts_ns conns @ List.map_filter sm_ts_ns ss in
     \<lparr>rp_rows = rows, rp_s3 = s3, rp_tail = map fst tails,
      rp_reuse = reuse_row (length nonpartial) (length (filter o_connection_reused nonpartial)),
      rp_path = path_domain conns @ sampled_rows, rp_timeseries = timeseries,
      rp_ts_streams = streams, rp_ts_down_streams = down, rp_ts_up_streams = up,
      rp_sampled_recv_streams = recv_n, rp_sampled_send_streams = send_n,
      rp_verdict = first_verdict rows rtt_ms
        (connect_times good \<noteq> [] \<or> ttfbs False good \<noteq> [] \<or> ttfbs True good \<noteq> []) (ttfbs True good \<noteq> []),
      rp_baseline_rtt_us = map_option f64_as_nat (pf_us pf),
      rp_environment = estimate_environment rtt_ms conns,
      rp_op_judged = length good, rp_op_excluded = length ops - length good,
      rp_op_statused = length (filter answered_op ops), rp_op_nonpartial = length nonpartial,
      rp_row_pop = map snd tails @ global_populations ops,
      rp_mixed_paths = mixed, rp_conn_count = length conns,
      rp_floor_judged = pf_judged pf, rp_floor_excluded = pf_excluded pf,
      rp_rtx_stream_count = snd (snd (send_totals conns ss)),
      rp_window = (min_or_0 ts, max_or_0 ts),
      rp_evidence = evidence @ (if error_ops = [] then [] else [(''HTTP errors'', evidence_of error_ops)])\<rparr>)"

end
