(* ===== verification/Diff.thy ===== *)
theory Diff
  imports Doctor
begin

text \<open>
  A capture against a baseline: \<open>diff\<close> of \<open>s3tap-doctor/lib.rs\<close>, and the exit codes of the commands of
  \<open>s3tap-cli/main.rs\<close> that judge a capture.
\<close>

section \<open>What is compared\<close>

datatype delta_kind = Regressed | NewIssue | Improved | Resolved | Unjudgeable | Unchanged

record delta =
  dl_id :: string
  dl_baseline :: "real option"
  dl_current :: "real option"
  dl_unit :: metric_unit
  dl_rtt_relative :: bool
  dl_severity :: severity
  dl_kind :: delta_kind

record diff_report =
  df_deltas :: "delta list"
  df_baseline_verdict :: verdict
  df_current_verdict :: verdict
  df_caveat :: bool

definition REGRESS_FACTOR :: real where "REGRESS_FACTOR = 5 / 4"
definition IMPROVE_FACTOR :: real where "IMPROVE_FACTOR = 3 / 4"
definition DIFF_MS_NOISE_FLOOR :: real where "DIFF_MS_NOISE_FLOOR = 5"

definition cmp_value :: "finding \<Rightarrow> real option" where
  "cmp_value f =
    (case fd_ratio_to_rtt f of
       Some r \<Rightarrow> Some r
     | None \<Rightarrow> (case fd_value f of Some (Num n) \<Rightarrow> Some n | _ \<Rightarrow> None))"

definition gate_value :: "finding \<Rightarrow> real option" where
  "gate_value f =
    (case cmp_value f of
       None \<Rightarrow> None
     | Some raw \<Rightarrow>
         if \<not> is_status_mix (fd_id f) then Some raw
         else (let ops = pn_judged (fd_sample f) in if 0 < ops then Some (f64_div raw (f64_of ops)) else None))"

definition min_delta :: "finding \<Rightarrow> real" where
  "min_delta f =
    (if is_status_mix (fd_id f) then f64_div 1 (f64_of (max (pn_judged (fd_sample f)) 1))
     else if fd_ratio_to_rtt f \<noteq> None then 1 / 2
     else if fd_unit f = UCount then 1
     else if fd_unit f = URatio then RTX_RATE_MAX
     else if fd_unit f = UMs then DIFF_MS_NOISE_FLOOR
     else 0)"

definition verdict_rank :: "verdict \<Rightarrow> nat" where
  "verdict_rank v =
    (case v of HealthyRun _ \<Rightarrow> 0 | ChecksPassed \<Rightarrow> 0
     | NoBaseline \<Rightarrow> 1 | NoOperations \<Rightarrow> 1 | NoResponses \<Rightarrow> 1 | MixedPaths \<Rightarrow> 1
     | Attention \<Rightarrow> 2)"

definition diff_key :: "finding \<Rightarrow> string" where
  "diff_key f = fd_id f @ ''|'' @ (case fs_s3_op (fd_scope f) of Some s \<Rightarrow> s | None \<Rightarrow> [])"

definition is_cur :: "finding \<Rightarrow> bool" where "is_cur f = (fd_id f \<noteq> ''run'')"
definition is_ref :: "finding \<Rightarrow> bool" where "is_ref f = (fd_id f \<noteq> ''run'' \<and> fd_severity f \<noteq> Unjudged)"

definition base_map :: "finding list \<Rightarrow> (string, finding) fmap" where
  "base_map base = fold (\<lambda>f. fmupd (diff_key f) f) (filter is_ref base) fmempty"

definition higher_better :: "finding \<Rightarrow> bool" where
  "higher_better f = (fd_unit f = UBytesPerS \<or> fd_metric f = ''reuse_rate'')"

definition compare_values :: "finding \<Rightarrow> real \<Rightarrow> real \<Rightarrow> delta_kind" where
  "compare_values f b c =
    (let worse = f64_mul b REGRESS_FACTOR; better = f64_mul b IMPROVE_FACTOR in
     if higher_better f then (if c < better then Regressed else if worse < c then Improved else Unchanged)
     else if worse < c \<and> min_delta f \<le> f64_sub c b then Regressed
     else if c < better \<and> min_delta f \<le> f64_sub b c then Improved
     else Unchanged)"

definition delta_of :: "finding \<Rightarrow> real option \<Rightarrow> real option \<Rightarrow> bool \<Rightarrow> severity \<Rightarrow> delta_kind \<Rightarrow> delta" where
  "delta_of f b c rel sev k =
    \<lparr>dl_id = fd_id f, dl_baseline = b, dl_current = c, dl_unit = fd_unit f, dl_rtt_relative = rel,
     dl_severity = sev, dl_kind = k\<rparr>"

definition current_delta :: "(string, finding) fmap \<Rightarrow> finding \<Rightarrow> delta option" where
  "current_delta bm f =
    (case fmlookup bm (diff_key f) of
       Some b \<Rightarrow>
         if fd_severity f = Unjudged then
           Some (delta_of f (cmp_value b) None (fd_ratio_to_rtt b \<noteq> None) (fd_severity b)
             (if fd_severity b = Warn then Unjudgeable else Unchanged))
         else
           (case (gate_value b, gate_value f) of
              (Some _, None) \<Rightarrow>
                Some (delta_of f (cmp_value b) None (fd_ratio_to_rtt f \<noteq> None) (fd_severity f) Unjudgeable)
            | (Some bv, Some cv) \<Rightarrow>
                Some (delta_of f (cmp_value b) (cmp_value f) (fd_ratio_to_rtt f \<noteq> None) (fd_severity f) (compare_values f bv cv))
            | _ \<Rightarrow>
                Some (delta_of f (cmp_value b) (cmp_value f) (fd_ratio_to_rtt f \<noteq> None) (fd_severity f) Unchanged))
     | None \<Rightarrow>
         if fd_severity f = Warn
         then Some (delta_of f None (cmp_value f) (fd_ratio_to_rtt f \<noteq> None) (fd_severity f) NewIssue)
         else None)"

definition cur_pop :: "report \<Rightarrow> finding \<Rightarrow> nat" where
  "cur_pop current b =
    (if is_status_mix (fd_id b) then rp_op_statused current
     else if is_reuse_rate (fd_id b) then rp_op_nonpartial current
     else if is_row_populationed (fd_id b) then
       (case find (\<lambda>e. fst e = fd_id b) (rp_row_pop current) of Some (_, judged, _) \<Rightarrow> judged | None \<Rightarrow> 0)
     else if fd_id b = ''s3_ttfb'' then
       (case Option.bind (find (\<lambda>w. s3_id w = ''s3_ttfb'' \<and> s3_s3_op w = fs_s3_op (fd_scope b)) (rp_s3 current)) s3_population of
          Some (judged, _) \<Rightarrow> judged | None \<Rightarrow> 0)
     else rp_op_judged current)"

definition gone_delta :: "report \<Rightarrow> string list \<Rightarrow> finding \<Rightarrow> delta option" where
  "gone_delta current seen b =
    (if diff_key b \<notin> set seen \<and> fd_severity b = Warn then
       Some (delta_of b (cmp_value b) None (fd_ratio_to_rtt b \<noteq> None) (fd_severity b)
         (if pn_judged (fd_sample b) \<le> cur_pop current b then Resolved else Unjudgeable))
     else None)"

definition delta_order :: "delta_kind \<Rightarrow> nat" where
  "delta_order k =
    (case k of NewIssue \<Rightarrow> 0 | Regressed \<Rightarrow> 1 | Unjudgeable \<Rightarrow> 2 | Improved \<Rightarrow> 3 | Resolved \<Rightarrow> 4 | Unchanged \<Rightarrow> 5)"

definition dissimilar :: "report \<Rightarrow> report \<Rightarrow> bool" where
  "dissimilar current baseline =
    (let cur = op_total current; base = op_total baseline; lo = min cur base; hi = max cur base in
     0 < lo \<and> lo * 5 \<le> hi)"

definition diff :: "report \<Rightarrow> report \<Rightarrow> diff_report" where
  "diff current baseline =
    (let cur = filter is_cur (findings current); base = findings baseline in
     \<lparr>df_deltas = sort_key (\<lambda>d. delta_order (dl_kind d))
        (List.map_filter (current_delta (base_map base)) cur
         @ List.map_filter (gone_delta current (map diff_key cur)) (filter is_ref base)),
      df_baseline_verdict = overall_verdict baseline, df_current_verdict = overall_verdict current,
      df_caveat = dissimilar current baseline\<rparr>)"

definition gates :: "bool \<Rightarrow> delta \<Rightarrow> bool" where
  "gates strict d =
    (case dl_kind d of
       Regressed \<Rightarrow> strict \<or> dl_severity d \<noteq> Advisory
     | NewIssue \<Rightarrow> True
     | Unjudgeable \<Rightarrow> True
     | _ \<Rightarrow> False)"

definition regressed_with :: "diff_report \<Rightarrow> bool \<Rightarrow> bool" where
  "regressed_with d strict =
    (list_ex (gates strict) (df_deltas d)
     \<or> verdict_rank (df_baseline_verdict d) < verdict_rank (df_current_verdict d))"

section \<open>Exit codes\<close>

text \<open>\<open>require_records\<close>: a capture without a record is a failure of the run (\<open>None\<close>) and no verdict.\<close>

definition require_records :: "capture_record list \<Rightarrow> capture_record list option" where
  "require_records records = (if records = [] then None else Some records)"

record doctor_args =
  da_strict :: bool
  da_cost :: bool
  da_baseline :: "capture_record list option"

definition report_code :: "report \<Rightarrow> doctor_args \<Rightarrow> int option" where
  "report_code r args =
    do {
      d \<leftarrow> (case da_baseline args of
             None \<Rightarrow> Some None
           | Some brecords \<Rightarrow> map_option (\<lambda>bs. Some (diff r (analyze bs))) (require_records brecords));
      Some (if da_cost args then 0
        else case d of
          Some df \<Rightarrow>
            if verdict_exit_code r (da_strict args) = 2 then EXIT_NOTHING_JUDGEABLE
            else if regressed_with df (da_strict args) then 1 else 0
        | None \<Rightarrow> verdict_exit_code r (da_strict args))
    }"

definition doctor_code :: "capture_record list \<Rightarrow> doctor_args \<Rightarrow> int option" where
  "doctor_code records args = Option.bind (require_records records) (\<lambda>rs. report_code (analyze rs) args)"

definition scorecard_code :: "capture_record list \<Rightarrow> bool \<Rightarrow> int option" where
  "scorecard_code records strict = map_option (\<lambda>rs. scorecard_exit (scorecard rs) strict) (require_records records)"

end
