(* ===== verification/DoctorProps.thy ===== *)
theory DoctorProps
  imports Diff
begin

text \<open>
  What the report of a capture promises: every finding has its own key, a warning and an exit code say the same,
  no latency is judged without a floor, a capture that lacks a denominator is never green, and a capture is no
  worse than itself.
\<close>

section \<open>The parts of a report\<close>

lemma analyze_parts:
  fixes records
  defines "ops \<equiv> operations records" and "conns \<equiv> connections records" and "ss \<equiv> samples records"
  defines "pf \<equiv> pooled_floor_of conns ss"
  defines "floor_of \<equiv> floor_of_op pf conns"
  shows "rp_rows (analyze records) = global_rows pf (multi_path conns) ops conns ss"
    and "rp_s3 (analyze records) = fst (s3_domain floor_of ops)"
    and "rp_tail (analyze records) = map fst (tail_rows (tail_pairs floor_of False ops) (tail_pairs floor_of True ops))"
    and "rp_reuse (analyze records) =
      (let nonpartial = filter (\<lambda>o'. \<not> o_partial o') ops in reuse_row (length nonpartial) (length (filter o_connection_reused nonpartial)))"
    and "rp_path (analyze records) = path_domain conns @ (if conns = [] then fst (path_domain_sampled ss) else [])"
    and "rp_timeseries (analyze records) = fst (timeseries_domain ss)"
    and "rp_op_judged (analyze records) = length (filter is_timeable ops)"
    and "rp_op_excluded (analyze records) = length ops - length (filter is_timeable ops)"
    and "rp_op_statused (analyze records) = length (filter answered_op ops)"
    and "rp_op_nonpartial (analyze records) = length (filter (\<lambda>o'. \<not> o_partial o') ops)"
    and "rp_row_pop (analyze records) =
      map snd (tail_rows (tail_pairs floor_of False ops) (tail_pairs floor_of True ops)) @ global_populations ops"
    and "rp_mixed_paths (analyze records) = multi_path conns"
    and "\<exists>judged reused. rp_verdict (analyze records) =
      first_verdict (global_rows pf (multi_path conns) ops conns ss) (map_option (\<lambda>f. f64_div f 1000) (pf_us pf)) judged reused"
  unfolding assms
  by (simp_all only: analyze_def Let_def case_prod_unfold report.select_convs if_distrib [of fst] fst_conv) blast

lemma op_total_analyze [simp]: "op_total (analyze records) = length (operations records)"
  by (simp add: op_total_def analyze_parts)

section \<open>The marks of the rows\<close>

lemma fyi_rows:
  "list_all (\<lambda>w. rw_mark w = MarkFyi) (path_domain conns)"
  "list_all (\<lambda>w. rw_mark w = MarkFyi) (fst (path_domain_sampled ss))"
  "list_all (\<lambda>w. rw_mark w = MarkFyi) (fst (timeseries_domain ss))"
  by (auto simp: path_domain_def min_rtt_row_def tls_row_def send_bottleneck_row_def bdp_row_def recv_row_def
      loss_shape_row_def path_domain_sampled_def timeseries_domain_def aggregate_row_def loss_row_def fyi_row_def
      opt_list_def Let_def list_all_iff split: option.splits if_splits prod.splits)

lemma path_fyi: "list_all (\<lambda>w. rw_mark w = MarkFyi) (rp_path (analyze records) @ rp_timeseries (analyze records))"
  using fyi_rows by (simp add: analyze_parts)

lemma finding_fields [simp]:
  "fd_severity (row_finding r w) = mark_severity (rw_mark w)"
  "fd_id (row_finding r w) = rw_id w"
  "fd_severity (s3_finding r w') = mark_severity (s3_mark w')"
  "fd_id (s3_finding r w') = s3_id w'"
  "fd_severity (run_finding r) = verdict_severity (overall_verdict r)"
  "fd_id (run_finding r) = ''run''"
  by (simp_all add: row_finding_def s3_finding_def report_finding_def run_finding_def Let_def split: option.splits)

lemma environment_unjudged: "environment_finding r = Some f \<Longrightarrow> fd_severity f = Unjudged \<and> fd_id f = ''environment''"
  by (auto simp: environment_finding_def)

lemma severity_warn [simp]: "mark_severity m = Warn \<longleftrightarrow> m = MarkWarn"
  by (cases m) (simp_all add: mark_severity_def)

lemma verdict_warn [simp]: "verdict_severity v = Warn \<longleftrightarrow> v = Attention"
  by (cases v) (simp_all add: verdict_severity_def)

lemma first_verdict_attention: "first_verdict rows rtt j u = Attention \<longleftrightarrow> list_ex (\<lambda>w. rw_mark w = MarkWarn) rows"
  by (simp add: first_verdict_def)

lemma rp_verdict_attention:
  "rp_verdict (analyze records) = Attention \<longleftrightarrow> list_ex (\<lambda>w. rw_mark w = MarkWarn) (rp_rows (analyze records))"
  using analyze_parts(13) [of records] first_verdict_attention unfolding analyze_parts(1) by metis

text \<open>A verdict of attention is a warned row, and a warned row is one.\<close>

lemma overall_attention:
  "overall_verdict r = Attention \<longleftrightarrow>
     rp_verdict r = Attention \<or> list_ex (\<lambda>w. s3_mark w = MarkWarn) (rp_s3 r)
     \<or> list_ex (\<lambda>w. rw_mark w = MarkWarn) (rp_tail r @ opt_list (rp_reuse r))"
  by (auto simp: overall_verdict_def Let_def opt_list_def split: option.splits)

lemma attention_iff:
  "overall_verdict (analyze records) = Attention \<longleftrightarrow>
     list_ex (\<lambda>f. fd_severity f = Warn) (butlast (findings (analyze records)))"
proof -
  let ?r = "analyze records"
  have env: "\<not> list_ex (\<lambda>f. fd_severity f = Warn) (opt_list (environment_finding ?r))"
    using environment_unjudged [of ?r] by (auto simp: opt_list_def split: option.splits)
  have "\<not> list_ex (\<lambda>w. rw_mark w = MarkWarn) (rp_path ?r @ rp_timeseries ?r)"
    using path_fyi [of records] by (auto simp: list_all_iff list_ex_iff)
  then show ?thesis using env
    by (simp add: findings_def butlast_append overall_attention rp_verdict_attention list_ex_iff ball_Un bex_Un) blast
qed

text \<open>C12: what the doctor returns is what its findings say. Without \<open>--strict\<close> it exits 1 exactly when a row of
  the capture was warned, and the last finding, the one of the run, is then a warning; it exits 2 exactly
  when the run is unjudged and 0 when it is healthy. With it an exit of 0 becomes 1 where a finding is
  advice.\<close>

theorem exit_says_the_findings:
  "let r = analyze records; run = last (findings r); code = verdict_exit_code r False in
   (code = 1 \<longleftrightarrow> list_ex (\<lambda>f. fd_severity f = Warn) (butlast (findings r)))
   \<and> (code = 1 \<longleftrightarrow> fd_severity run = Warn) \<and> (code = 2 \<longleftrightarrow> fd_severity run = Unjudged)
   \<and> (code = 0 \<longleftrightarrow> fd_severity run = Healthy)
   \<and> verdict_exit_code r True =
       (if code = 0 \<and> list_ex (\<lambda>f. fd_severity f = Advisory) (findings r) then 1 else code)"
proof -
  let ?r = "analyze records"
  have code: "verdict_exit_code ?r False = 1 \<longleftrightarrow> overall_verdict ?r = Attention"
    "verdict_exit_code ?r False = 2 \<longleftrightarrow> verdict_severity (overall_verdict ?r) = Unjudged"
    "verdict_exit_code ?r False = 0 \<longleftrightarrow> verdict_severity (overall_verdict ?r) = Healthy"
    by (cases "overall_verdict ?r"; simp add: verdict_exit_code_def verdict_severity_def)+
  have adv: "has_advisory ?r \<longleftrightarrow> list_ex (\<lambda>f. fd_severity f = Advisory) (findings ?r)"
  proof -
    have "mark_severity m = Advisory \<longleftrightarrow> m = MarkAdvisory" for m by (cases m) (simp_all add: mark_severity_def)
    moreover have "verdict_severity v \<noteq> Advisory" for v by (cases v) (simp_all add: verdict_severity_def)
    moreover have "\<not> list_ex (\<lambda>w. rw_mark w = MarkAdvisory) (rp_timeseries ?r)"
      using path_fyi [of records] by (auto simp: list_all_iff list_ex_iff)
    moreover have "\<not> list_ex (\<lambda>f. fd_severity f = Advisory) (opt_list (environment_finding ?r))"
      using environment_unjudged [of ?r] by (auto simp: opt_list_def split: option.splits)
    ultimately show ?thesis
      by (simp add: findings_def has_advisory_def list_ex_iff ball_Un bex_Un)
  qed
  have "verdict_exit_code ?r True = (if verdict_exit_code ?r False = 0 \<and> has_advisory ?r then 1 else verdict_exit_code ?r False)"
    by (cases "overall_verdict ?r") (simp_all add: verdict_exit_code_def)
  moreover have "last (findings ?r) = run_finding ?r" by (simp add: findings_def)
  ultimately show ?thesis using code adv by (simp add: Let_def attention_iff)
qed

section \<open>No latency without a floor\<close>

lemma pooled_floor_plausible: "pf_us (pooled_floor_of conns ss) = Some f \<Longrightarrow> plausible_floor f"
  by (auto simp: pooled_floor_of_def Let_def conn_srtts_def sample_floors_def dest: pooled_plausible split: option.splits)

text \<open>C15: the floor an operation is judged against is the round trip of a path: it lies above zero and below thirty
  seconds, whatever the records of the capture say; and a capture of several paths gives an operation no
  floor but that of its own connection or region.\<close>

theorem floor_is_a_round_trip:
  "(case floor_of_op (pooled_floor_of conns ss) conns o' of Some f \<Rightarrow> plausible_floor f | None \<Rightarrow> True)
   \<and> (if multi_path conns
      then floor_of_op (pooled_floor_of conns ss) conns o' = joined_floor (conns_by_cookie conns) (region_floors conns) o'
      else True)"
  using joined_floor_plausible [of "conns_by_cookie conns" conns o'] pooled_floor_plausible [of conns ss]
  by (auto simp: floor_of_op_def build_floor_maps_def floor_for_def split: option.splits)

lemma ratio_row_unfloored: "mt_ratio_to_rtt (rw_metric (ratio_row i label ms None limit)) = None"
    "rw_mark (ratio_row i label ms None limit) = MarkNa"
  by (simp_all add: ratio_row_def metric_default_def)

lemma global_rows_unfloored:
  assumes "mixed \<or> pf_us pf = None"
  shows "list_all (\<lambda>w. mt_ratio_to_rtt (rw_metric w) = None) (global_rows pf mixed ops conns ss)"
proof -
  have "(if mixed then None else map_option (\<lambda>f. f64_div f 1000) (pf_us pf)) = None" using assms by auto
  then show ?thesis
    by (auto simp: global_rows_def Let_def baseline_row_def dns_row_def span_row_def opt_list_def fyi_row_def metric_default_def
        retransmit_row_def http_errors_row_def ratio_row_unfloored case_prod_unfold split: option.splits)
qed

lemma verdict_without_floor: "rtt = None \<Longrightarrow> first_verdict rows rtt j u = Attention \<or> first_verdict rows rtt j u = NoBaseline"
  by (simp add: first_verdict_def)

text \<open>Without a floor no latency is judged and nothing is green. Where no round trip was measured on a
  connection or in a sample, the doctor exits 1 or 2; and there, as in a capture of several paths, no global
  row has a ratio to the floor.\<close>

theorem no_floor_no_verdict:
  "let conns = connections records; pf = pooled_floor_of conns (samples records); r = analyze records in
   (if pf_us pf = None then verdict_exit_code r strict \<in> {1, 2} else True)
   \<and> (if multi_path conns \<or> pf_us pf = None then list_all (\<lambda>w. mt_ratio_to_rtt (rw_metric w) = None) (rp_rows r) else True)"
proof -
  let ?conns = "connections records" and ?r = "analyze records"
  let ?pf = "pooled_floor_of ?conns (samples records)"
  have "verdict_exit_code ?r strict \<in> {1, 2}" if "pf_us ?pf = None"
  proof -
    have "rp_verdict ?r = Attention \<or> rp_verdict ?r = NoBaseline"
      using analyze_parts(13) [of records] verdict_without_floor [of "map_option (\<lambda>f. f64_div f 1000) (pf_us ?pf)"] that
      by (metis option.map_disc_iff)
    then have "overall_verdict ?r \<in> {Attention, NoOperations, NoResponses, MixedPaths, NoBaseline}"
      by (auto simp: overall_verdict_def Let_def)
    then show ?thesis by (auto simp: verdict_exit_code_def)
  qed
  then show ?thesis using global_rows_unfloored [of "multi_path ?conns" ?pf] by (auto simp: Let_def analyze_parts(1))
qed

section \<open>A missing denominator\<close>

lemma no_answer_code:
  assumes "rp_op_statused r = 0"
  shows "verdict_exit_code r strict = (if overall_verdict r = Attention then 1 else 2)"
    and "verdict_severity (overall_verdict r) \<noteq> Healthy"
proof -
  have "overall_verdict r \<in> {Attention, NoOperations, NoResponses}" using assms by (auto simp: overall_verdict_def Let_def)
  then show "verdict_exit_code r strict = (if overall_verdict r = Attention then 1 else 2)" and "verdict_severity (overall_verdict r) \<noteq> Healthy"
    by (auto simp: verdict_exit_code_def verdict_severity_def)
qed

lemma rows_empty_iff: "sc_rows (scorecard records) = [] \<longleftrightarrow> list_all (\<lambda>o'. \<not> answered_op o') (operations records)"
proof -
  have "scored_groups records = [] \<longleftrightarrow> \<not> list_ex (\<lambda>(key, ops). list_ex answered_op ops) (sorted_list_of_fmap (scorecard_groups records))"
    by (auto simp: scored_groups_def filter_empty_conv list_ex_iff)
  also have "\<dots> \<longleftrightarrow> \<not> list_ex answered_op (operations records)"
    using list_ex_groups [of group_key_of "\<lambda>o'. o'" "operations records" answered_op]
      list_ex_items [of "\<lambda>(key, ops). list_ex answered_op ops" "\<lambda>x. [x]" "scorecard_groups records"]
    by (simp add: scorecard_groups_def)
  finally show ?thesis by (auto simp: scorecard_def list_all_iff list_ex_iff)
qed

lemma last_finding: "fd_severity (last (findings r)) = verdict_severity (overall_verdict r)"
  by (simp add: findings_def run_finding_def)

text \<open>C13: the three commands that judge a capture agree on a missing denominator. Where no operation was
  answered, and only there, \<open>advise\<close> and \<open>scorecard\<close> say so in a finding of the run and exit 2, unless
  \<open>--strict\<close> makes a warning or an advice among their findings a 1. There the doctor, strict or not, exits 1
  if one of its rows is a warning and 2 otherwise, and its run is not healthy.\<close>

theorem commands_agree_on_missing_data:
  "let missing = list_all (\<lambda>o'. \<not> answered_op o') (operations records); pop = op_population records;
       sc = scorecard records; r = analyze records;
       urgent = list_ex (\<lambda>f. fd_severity f = Warn \<or> fd_severity f = Advisory) in
   advisory_exit found pop strict = (if strict \<and> urgent found then 1 else if missing then 2 else 0)
   \<and> (unjudged_run_finding records \<noteq> None \<longleftrightarrow> missing)
   \<and> scorecard_exit sc strict = (if strict \<and> urgent (sc_findings sc) then 1 else if missing then 2 else 0)
   \<and> (scorecard_run_finding sc \<noteq> None \<longleftrightarrow> missing)
   \<and> (if missing
      then verdict_exit_code r strict = (if list_ex (\<lambda>f. fd_severity f = Warn) (butlast (findings r)) then 1 else 2)
        \<and> fd_severity (last (findings r)) \<noteq> Healthy
      else True)"
proof -
  have "nothing_judgeable (op_population records) \<longleftrightarrow> list_all (\<lambda>o'. \<not> answered_op o') (operations records)"
    by (auto simp: nothing_judgeable_def op_population_counts filter_empty_conv list_all_iff)
  moreover have "rp_op_statused (analyze records) = 0 \<longleftrightarrow> list_all (\<lambda>o'. \<not> answered_op o') (operations records)"
    by (auto simp: analyze_parts(9) filter_empty_conv list_all_iff)
  ultimately show ?thesis
    using no_answer_code [of "analyze records"] rows_empty_iff [of records] attention_iff [of records]
    by (simp add: Let_def advisory_exit_def unjudged_run_finding_def scorecard_exit_def scorecard_run_finding_def last_finding)
qed

section \<open>Populations\<close>

lemma floored_le: "length (floored pairs) \<le> length pairs"
  by (induction pairs) (auto simp: floored_def map_filter_simps split: option.splits)

lemma length_map_filter_le: "length (List.map_filter f xs) \<le> length xs"
  by (induction xs) (auto simp: map_filter_simps split: option.splits)

lemma tail_row_population:
  "tail_row pairs sp = Some (w, i, j, e) \<Longrightarrow> i = ts_id sp \<and> rw_id w = ts_id sp \<and> j + e = length pairs"
  using floored_le [of pairs]
  by (auto simp: tail_row_def na_tail_row_def Let_def split: if_splits option.splits)

lemma tail_rows_cases:
  assumes "(w, pop) \<in> set (tail_rows a b)"
  obtains sp where "sp \<in> set (new_specs @ reused_specs)" and "tail_row a sp = Some (w, pop) \<or> tail_row b sp = Some (w, pop)"
  using assms by (auto simp: tail_rows_def in_map_filter)

lemma tail_pairs_le: "length (tail_pairs floor_of reused ops) \<le> length ops"
  unfolding tail_pairs_def by (rule order.trans [OF length_map_filter_le]) (auto intro: order.trans [OF length_filter_le])

lemma length_filter_mono: "(\<And>x. P x \<Longrightarrow> Q x) \<Longrightarrow> length (filter P xs) \<le> length (filter Q xs)"
  by (induction xs) auto

lemma kept_within:
  "length xs \<le> n \<Longrightarrow> length ys \<le> n \<Longrightarrow> length (filter P xs) + (length (filter Q ys) - length (filter P xs)) \<le> n"
  using length_filter_le [of P xs] length_filter_le [of Q ys] by linarith

lemma row_pop_bound:
  assumes "(i, j, e) \<in> set (rp_row_pop (analyze records))"
  shows "j + e \<le> length (operations records)"
proof -
  let ?ops = "operations records"
  have entry: "length (filter P (filter is_timeable ?ops)) + (length (filter P ?ops) - length (filter P (filter is_timeable ?ops)))
      \<le> length ?ops" for P
  proof -
    have "length (filter P (filter is_timeable ?ops)) \<le> length (filter P ?ops)" by (auto intro: length_filter_mono)
    then show ?thesis using length_filter_le [of P ?ops] by linarith
  qed
  consider w where "(w, i, j, e) \<in> set (tail_rows (tail_pairs (floor_of_op (pooled_floor_of (connections records) (samples records))
        (connections records)) False ?ops) (tail_pairs (floor_of_op (pooled_floor_of (connections records) (samples records))
        (connections records)) True ?ops))"
    | "(i, j, e) \<in> set (global_populations ?ops)"
    using assms by (auto simp: analyze_parts(11))
  then show ?thesis
  proof cases
    case 1
    then show ?thesis by (rule tail_rows_cases) (auto dest: tail_row_population simp: tail_pairs_le)
  next
    case 2
    then have "\<exists>P. j = length (filter P (filter is_timeable ?ops)) \<and> e = length (filter P ?ops) - length (filter P (filter is_timeable ?ops))"
      unfolding global_populations_def Let_def set_filter by (auto simp del: filter_filter)
    then show ?thesis using entry by auto
  qed
qed

lemma s3_population_bound:
  assumes "w \<in> set (fst (s3_domain floor_of ops))" and "s3_population w = Some (j, e)"
  shows "j + e \<le> length ops"
proof -
  let ?good = "filter is_timeable ops"
  consider cops where "cops \<in> set (sorted_list_of_fmap (by_class ?good))" "map_option fst (class_row floor_of ops cops) = Some w"
    | "w \<in> set (throughput_row ops ?good)"
    using assms by (auto simp: s3_domain_def Let_def in_map_filter status_row_def split: if_splits)
  then show ?thesis
  proof cases
    case 1
    obtain cls class_ops where c: "cops = (cls, class_ops)" by (cases cops)
    have "length class_ops \<le> length ops"
    proof -
      have "class_ops = filter (\<lambda>o'. the (op_class o') = cls) (filter (\<lambda>o'. op_class o' \<noteq> None) ?good)"
        using 1(1) by (auto simp: c by_class_def set_sorted_list_of_fmap fmlookup_group_by Let_def split: if_splits)
      then show ?thesis by (auto intro: order.trans [OF length_filter_le])
    qed
    then show ?thesis using 1(2) assms(2) by (auto simp: c class_row_def Let_def intro!: kept_within)
  next
    case 2
    let ?t = "List.map_filter get_rate (filter is_get ?good)"
    have "length ?t \<le> length ops"
      by (rule order.trans [OF length_map_filter_le]) (auto intro: order.trans [OF length_filter_le])
    then have "length ?t + (length (filter P ops) - length ?t) \<le> length ops" for P
      using length_filter_le [of P ops] by linarith
    then show ?thesis using 2 assms(2)
      by (auto simp: throughput_row_def opt_list_def Let_def simp del: filter_filter split: option.splits)
  qed
qed

lemma kind_not_timeseries: "finding_kind i = KindOperation \<Longrightarrow> \<not> is_timeseries i \<and> i \<noteq> ''baseline_rtt'' \<and> i \<noteq> ''retransmit_rate''
    \<and> i \<noteq> ''bdp_ceiling'' \<and> i \<noteq> ''recv_ceiling''"
  by (auto simp: finding_kind_def is_timeseries_def id_in_def split: if_splits)

lemma finding_sample_bound:
  assumes "pn_kind (finding_sample (analyze records) i) = KindOperation"
  shows "pn_judged (finding_sample (analyze records) i) + pn_excluded (finding_sample (analyze records) i) \<le> length (operations records)"
proof -
  let ?r = "analyze records"
  have k: "finding_kind i = KindOperation"
    using assms by (auto simp: finding_sample_def report_sample_def Let_def split: if_splits option.splits prod.splits sample_kind.splits)
  note ids = kind_not_timeseries [OF k]
  show ?thesis
  proof (cases "find (\<lambda>e. fst e = i) (rp_row_pop ?r)")
    case (Some p)
    then have "p \<in> set (rp_row_pop ?r)" by (auto simp: find_Some_iff)
    then show ?thesis using Some ids row_pop_bound [of "fst p" "fst (snd p)" "snd (snd p)" records]
      by (auto simp: finding_sample_def Let_def analyze_parts(9) split: prod.splits)
  next
    case None
    then show ?thesis using ids k
      by (auto simp: finding_sample_def report_sample_def Let_def id_in_def analyze_parts(7,8,9,10))
  qed
qed

text \<open>C16: what a finding says it rests on was there: for each finding of the doctor that counts operations, those it
  judged and those it passed over are together no more than the operations of the capture.\<close>

theorem populations_within_capture:
  "list_all (\<lambda>f. let p = fd_sample f in
      if pn_kind p = KindOperation then pn_judged p + pn_excluded p \<le> length (operations records) else True)
    (findings (analyze records))"
proof -
  let ?r = "analyze records"
  have row: "fd_sample (row_finding ?r w) = finding_sample ?r (rw_id w)" for w
    by (simp add: row_finding_def report_finding_def)
  have s3: "let p = fd_sample (s3_finding ?r w) in
      if pn_kind p = KindOperation then pn_judged p + pn_excluded p \<le> length (operations records) else True"
    if "w \<in> set (rp_s3 ?r)" for w
    using that finding_sample_bound [of records "s3_id w"]
      s3_population_bound [of w "floor_of_op (pooled_floor_of (connections records) (samples records)) (connections records)" "operations records"]
    by (cases "s3_population w") (auto simp: s3_finding_def report_finding_def Let_def analyze_parts(2))
  show ?thesis using finding_sample_bound s3
    by (auto simp: findings_def list_all_iff row Let_def opt_list_def environment_finding_def run_finding_def report_sample_def
        split: option.splits)
qed

end
