(* ===== verification/DiffProps.thy ===== *)
theory DiffProps
  imports DoctorProps
begin

text \<open>
  What a comparison with a baseline promises: the findings of a capture have distinct keys, so that each is
  compared with its own; a capture is no worse than itself; and a warning of the baseline does not vanish.
\<close>

section \<open>The keys of the findings\<close>

definition drawn :: "string list \<Rightarrow> row list \<Rightarrow> bool" where
  "drawn ids ws = (distinct (map rw_id ws) \<and> set (map rw_id ws) \<subseteq> set ids)"

lemma drawn_nil: "drawn ids []"
  by (simp add: drawn_def)

lemma drawn_append: "drawn a xs \<Longrightarrow> drawn b ys \<Longrightarrow> set a \<inter> set b = {} \<Longrightarrow> drawn (a @ b) (xs @ ys)"
  by (auto simp: drawn_def)

lemma drawn_opt: "(\<And>y. rw_id (f y) = i) \<Longrightarrow> drawn [i] (opt_list (map_option f x))"
  by (auto simp: drawn_def opt_list_def split: option.splits)

lemma drawn_one: "rw_id w = i \<Longrightarrow> drawn [i] [w]"
  by (simp add: drawn_def)

lemma drawn_cons: "rw_id w = i \<Longrightarrow> drawn is ws \<Longrightarrow> i \<notin> set is \<Longrightarrow> drawn (i # is) (w # ws)"
  by (auto simp: drawn_def)

lemma ratio_row_id [simp]: "rw_id (ratio_row i label ms rtt limit) = i"
  by (simp add: ratio_row_def Let_def split: option.splits)

lemma fyi_row_id [simp]: "rw_id (fyi_row i label m) = i"
  by (simp add: fyi_row_def)

lemma global_rows_drawn:
  "drawn [''baseline_rtt'', ''dns_cold'', ''tcp_connect'', ''ttfb_new'', ''ttfb_reused'', ''retransmit_rate'', ''http_errors'']
     (global_rows pf mixed ops conns ss)"
proof -
  have "drawn ([''baseline_rtt''] @ [''dns_cold''] @ [''tcp_connect''] @ [''ttfb_new''] @ [''ttfb_reused'']
      @ [''retransmit_rate'', ''http_errors'']) (global_rows pf mixed ops conns ss)"
    unfolding global_rows_def Let_def case_prod_unfold baseline_row_def dns_row_def span_row_def
    by (intro drawn_append drawn_opt drawn_cons drawn_nil) (simp_all add: retransmit_row_def http_errors_row_def Let_def)
  then show ?thesis by simp
qed

lemma drawn_tail:
  "distinct (map ts_id specs) \<Longrightarrow> drawn (map ts_id specs) (map fst (List.map_filter (tail_row pairs) specs))"
proof (induction specs)
  case (Cons sp specs)
  then have IH: "drawn (map ts_id specs) (map fst (List.map_filter (tail_row pairs) specs))" and "ts_id sp \<notin> set (map ts_id specs)"
    by simp_all
  then show ?case
  proof (cases "tail_row pairs sp")
    case None
    then show ?thesis using IH by (auto simp: map_filter_simps drawn_def)
  next
    case (Some wp)
    obtain w i j e where "wp = (w, i, j, e)" by (cases wp)
    then have "rw_id (fst wp) = ts_id sp" using Some tail_row_population by auto
    then show ?thesis using IH Some \<open>ts_id sp \<notin> set (map ts_id specs)\<close> by (simp add: map_filter_simps drawn_cons)
  qed
qed (simp add: map_filter_simps drawn_nil)

lemma tail_rows_drawn:
  "drawn [''ttfb_new_p95'', ''ttfb_new_p99'', ''ttfb_reused_p95'', ''ttfb_reused_p99''] (map fst (tail_rows a b))"
proof -
  have "drawn (map ts_id new_specs @ map ts_id reused_specs) (map fst (tail_rows a b))"
    unfolding tail_rows_def map_append
    by (intro drawn_append drawn_tail) (simp_all add: new_specs_def reused_specs_def)
  then show ?thesis by (simp add: new_specs_def reused_specs_def)
qed

lemma path_rows_drawn:
  "drawn [''path_min_rtt'', ''tls_handshake'', ''send_bottleneck'', ''bdp_ceiling'', ''recv_ceiling'', ''loss_shape''] (path_domain conns)"
proof -
  have "drawn ([''path_min_rtt''] @ [''tls_handshake''] @ [''send_bottleneck''] @ [''bdp_ceiling''] @ [''recv_ceiling''] @ [''loss_shape''])
      (path_domain conns)"
    unfolding path_domain_def min_rtt_row_def bdp_row_def recv_row_def
    by (intro drawn_append drawn_opt)
      (simp_all add: tls_row_def send_bottleneck_row_def loss_shape_row_def Let_def drawn_one drawn_nil split: option.splits)
  then show ?thesis by simp
qed

lemma sampled_rows_drawn: "drawn [''recv_ceiling'', ''bdp_ceiling''] (fst (path_domain_sampled ss))"
proof -
  have "drawn ([''recv_ceiling''] @ [''bdp_ceiling'']) (fst (path_domain_sampled ss))"
    by (simp only: path_domain_sampled_def Let_def if_distrib [of fst] fst_conv drawn_nil split: if_split)
      (intro conjI impI drawn_append drawn_opt; simp)
  then show ?thesis by simp
qed

lemma path_domain_none: "path_domain [] = []"
  by (simp add: path_domain_def min_rtt_row_def min_rtts_ms_def tls_row_def send_bottleneck_row_def jiffies_def sum_f64_def
      f64_add_def f64_round_def bdp_row_def recv_row_def loss_shape_row_def opt_list_def median_def reduce_def map_filter_simps)

lemma timeseries_drawn:
  "drawn [''throughput_ramp'', ''throughput_aggregate_down'', ''throughput_aggregate_up'', ''loss_timeline_reorder'',
      ''loss_timeline_retrans'', ''bufferbloat_onset''] (fst (timeseries_domain ss))"
proof -
  have agg: "drawn [i] (aggregate_row i label buckets)" for i label buckets
    by (auto simp: aggregate_row_def drawn_nil intro: drawn_one split: option.splits)
  have loss: "drawn [i] (loss_row i label thirds)" for i label thirds
    by (simp add: loss_row_def Let_def drawn_nil drawn_one)
  have opt: "drawn [i] (case x of Some v \<Rightarrow> [fyi_row i label (m v)] | None \<Rightarrow> [])" for i label m and x :: "real option"
    by (simp add: drawn_nil drawn_one split: option.splits)
  have "drawn ([''throughput_ramp''] @ [''throughput_aggregate_down''] @ [''throughput_aggregate_up''] @ [''loss_timeline_reorder'']
      @ [''loss_timeline_retrans''] @ [''bufferbloat_onset'']) (fst (timeseries_domain ss))"
    by (simp only: timeseries_domain_def Let_def if_distrib [of fst] fst_conv drawn_nil split: if_split)
      (intro conjI impI drawn_append agg loss opt; simp)
  then show ?thesis by simp
qed

abbreviation ROW_IDS :: "string list" where
  "ROW_IDS \<equiv>
    [''baseline_rtt'', ''dns_cold'', ''tcp_connect'', ''ttfb_new'', ''ttfb_reused'', ''retransmit_rate'', ''http_errors'']
    @ [''ttfb_new_p95'', ''ttfb_new_p99'', ''ttfb_reused_p95'', ''ttfb_reused_p99''] @ [''reuse_rate'']
    @ [''path_min_rtt'', ''tls_handshake'', ''send_bottleneck'', ''bdp_ceiling'', ''recv_ceiling'', ''loss_shape'']
    @ [''throughput_ramp'', ''throughput_aggregate_down'', ''throughput_aggregate_up'', ''loss_timeline_reorder'',
       ''loss_timeline_retrans'', ''bufferbloat_onset'']"

definition all_rows :: "report \<Rightarrow> row list" where
  "all_rows r = rp_rows r @ rp_tail r @ opt_list (rp_reuse r) @ rp_path r @ rp_timeseries r"

lemma all_rows_drawn: "drawn ROW_IDS (all_rows (analyze records))"
proof -
  let ?r = "analyze records"
  have "drawn [''reuse_rate''] (opt_list (reuse_row n m))" for n m
    by (simp add: reuse_row_def Let_def opt_list_def drawn_nil drawn_one)
  then have reuse: "drawn [''reuse_rate''] (opt_list (rp_reuse ?r))" by (simp add: analyze_parts(4) Let_def)
  have path: "drawn [''path_min_rtt'', ''tls_handshake'', ''send_bottleneck'', ''bdp_ceiling'', ''recv_ceiling'', ''loss_shape''] (rp_path ?r)"
    using path_rows_drawn [of "connections records"] sampled_rows_drawn [of "samples records"]
    by (auto simp: analyze_parts(5) path_domain_none drawn_def)
  show ?thesis unfolding all_rows_def
    by (intro drawn_append reuse path;
        (simp only: analyze_parts(1) analyze_parts(3) analyze_parts(6) global_rows_drawn tail_rows_drawn timeseries_drawn)?; simp)
qed

text \<open>A key names an id and an operation class, as no id holds a bar.\<close>

lemma bar_key: "CHR ''|'' \<notin> set a \<Longrightarrow> CHR ''|'' \<notin> set c \<Longrightarrow> a @ CHR ''|'' # b = c @ CHR ''|'' # d \<longleftrightarrow> a = c \<and> b = d"
proof (induction a arbitrary: c)
  case Nil
  then show ?case by (cases c) auto
next
  case (Cons x a)
  then show ?case by (cases c) auto
qed

abbreviation S3_IDS :: "string list" where
  "S3_IDS \<equiv> [''s3_ttfb'', ''s3_throttle'', ''s3_server_errors'', ''s3_client_errors'', ''s3_throughput'']"

abbreviation FINDING_IDS :: "string list" where
  "FINDING_IDS \<equiv> ROW_IDS @ S3_IDS @ [''environment'', ''run'']"

lemma ids_distinct: "distinct FINDING_IDS"
  by code_simp

lemma ids_no_bar: "i \<in> set FINDING_IDS \<Longrightarrow> CHR ''|'' \<notin> set i"
proof -
  have "list_all (\<lambda>i. CHR ''|'' \<notin> set i) FINDING_IDS" by code_simp
  then show "i \<in> set FINDING_IDS \<Longrightarrow> CHR ''|'' \<notin> set i" unfolding list_all_iff by blast
qed

definition op_name :: "finding \<Rightarrow> string" where
  "op_name f = (case fs_s3_op (fd_scope f) of Some s \<Rightarrow> s | None \<Rightarrow> [])"

lemma diff_key_inj:
  "fd_id f \<in> set FINDING_IDS \<Longrightarrow> fd_id g \<in> set FINDING_IDS \<Longrightarrow> diff_key f = diff_key g \<longleftrightarrow> fd_id f = fd_id g \<and> op_name f = op_name g"
  using ids_no_bar by (simp add: diff_key_def op_name_def bar_key)

section \<open>The S3 rows\<close>

lemma class_row_shape:
  "class_row floor_of ops (cls, cops) = Some (w, ev) \<Longrightarrow> s3_id w = ''s3_ttfb'' \<and> s3_s3_op w = Some cls"
  by (auto simp: class_row_def s3_ttfb_row_def na_s3_ttfb_row_def Let_def split: option.splits if_splits)

definition s3_pair :: "s3_row \<Rightarrow> string \<times> string" where
  "s3_pair w = (s3_id w, case s3_s3_op w of Some s \<Rightarrow> s | None \<Rightarrow> [])"

lemma class_rows_pairs:
  "distinct (map fst items) \<Longrightarrow>
     distinct (map (\<lambda>x. s3_pair (fst x)) (List.map_filter (class_row floor_of ops) items))
     \<and> set (map (\<lambda>x. s3_pair (fst x)) (List.map_filter (class_row floor_of ops) items)) \<subseteq> Pair ''s3_ttfb'' ` fst ` set items"
proof (induction items)
  case (Cons cops items)
  obtain cls class_ops where c: "cops = (cls, class_ops)" by (cases cops)
  show ?case
  proof (cases "class_row floor_of ops cops")
    case None
    then show ?thesis using Cons by (auto simp: map_filter_simps)
  next
    case (Some we)
    then have p: "s3_pair (fst we) = (''s3_ttfb'', cls)"
      using class_row_shape by (cases we) (auto simp: c s3_pair_def)
    from Cons have IH: "distinct (map (\<lambda>x. s3_pair (fst x)) (List.map_filter (class_row floor_of ops) items))"
      "set (map (\<lambda>x. s3_pair (fst x)) (List.map_filter (class_row floor_of ops) items)) \<subseteq> Pair ''s3_ttfb'' ` fst ` set items"
      and new: "cls \<notin> fst ` set items" by (simp_all add: c)
    from new have "(''s3_ttfb'', cls) \<notin> Pair ''s3_ttfb'' ` fst ` set items" by auto
    with IH have "(''s3_ttfb'', cls) \<notin> set (map (\<lambda>x. s3_pair (fst x)) (List.map_filter (class_row floor_of ops) items))" by blast
    moreover have "List.map_filter (class_row floor_of ops) (cops # items) = we # List.map_filter (class_row floor_of ops) items"
      by (simp add: map_filter_simps Some)
    ultimately show ?thesis using IH p c by auto
  qed
qed (simp add: map_filter_simps)

definition paired :: "string list \<Rightarrow> (string \<times> string) list \<Rightarrow> bool" where
  "paired ids ps = (distinct ps \<and> fst ` set ps \<subseteq> set ids)"

lemma paired_append: "paired a xs \<Longrightarrow> paired b ys \<Longrightarrow> set a \<inter> set b = {} \<Longrightarrow> paired (a @ b) (xs @ ys)"
  unfolding paired_def by (auto simp: image_subset_iff)

lemma s3_rows_pairs: "paired S3_IDS (map s3_pair (fst (s3_domain floor_of ops)))"
proof -
  let ?items = "sorted_list_of_fmap (by_class (filter is_timeable ops))"
  have cls: "paired [''s3_ttfb''] (map s3_pair (map fst (List.map_filter (class_row floor_of ops) ?items)))"
    using class_rows_pairs [of ?items floor_of ops] by (auto simp: fm_simps paired_def comp_def)
  have st: "paired [i] (map s3_pair (map fst (status_row i label mname hit)))" for i label mname hit
    by (simp add: status_row_def s3_pair_def paired_def)
  have tp: "paired [''s3_throughput''] (map s3_pair (throughput_row ops good))" for good
    by (auto simp: throughput_row_def opt_list_def s3_pair_def Let_def paired_def split: option.splits)
  have "paired ([''s3_ttfb''] @ ([''s3_throttle''] @ ([''s3_server_errors''] @ [''s3_client_errors'']))) 
      (map s3_pair (map fst (List.map_filter (class_row floor_of ops) ?items))
       @ (map s3_pair (map fst (status_row ''s3_throttle'' l1 m1 h1))
       @ (map s3_pair (map fst (status_row ''s3_server_errors'' l2 m2 h2))
       @ map s3_pair (map fst (status_row ''s3_client_errors'' l3 m3 h3)))))" for l1 m1 h1 l2 m2 h2 l3 m3 h3
    by (intro paired_append cls st) simp_all
  from paired_append [OF this tp] show ?thesis
    unfolding s3_domain_def Let_def fst_conv map_append by simp
qed

section \<open>Every finding has its own key\<close>

lemma op_name_row [simp]: "op_name (row_finding r w) = []" "op_name (run_finding r) = []"
  by (simp_all add: op_name_def row_finding_def report_finding_def run_finding_def whole_capture_def)

lemma s3_finding_pair: "(fd_id (s3_finding r w), op_name (s3_finding r w)) = s3_pair w"
  by (simp add: op_name_def s3_finding_def report_finding_def s3_pair_def Let_def split: option.splits)

lemma findings_pairs: "paired FINDING_IDS (map (\<lambda>f. (fd_id f, op_name f)) (findings (analyze records)))"
proof -
  let ?r = "analyze records" and ?p = "\<lambda>f. (fd_id f, op_name f)"
  have rows: "paired ROW_IDS (map ?p (map (row_finding ?r) (all_rows ?r)))"
    using all_rows_drawn [of records] by (auto simp: drawn_def paired_def comp_def distinct_map inj_on_def)
  have s3: "paired S3_IDS (map ?p (map (s3_finding ?r) (rp_s3 ?r)))"
    unfolding map_map comp_def s3_finding_pair analyze_parts(2) by (rule s3_rows_pairs)
  have env: "paired [''environment''] (map ?p (opt_list (environment_finding ?r)))"
    by (auto simp: opt_list_def paired_def dest: environment_unjudged split: option.splits)
  have run: "paired [''run''] (map ?p [run_finding ?r])" by (simp add: paired_def)
  have "paired (ROW_IDS @ (S3_IDS @ ([''environment''] @ [''run'']))) (map ?p (map (row_finding ?r) (all_rows ?r))
      @ (map ?p (map (s3_finding ?r) (rp_s3 ?r)) @ (map ?p (opt_list (environment_finding ?r)) @ map ?p [run_finding ?r])))"
    by (intro paired_append rows s3 env run) simp_all
  then show ?thesis by (simp only: findings_def all_rows_def map_append append_assoc append.simps)
qed

lemma keys_distinct: "distinct (map diff_key (findings (analyze records)))"
proof -
  let ?fs = "findings (analyze records)"
  have ids: "fd_id f \<in> set FINDING_IDS" if "f \<in> set ?fs" for f
    using findings_pairs [of records] that unfolding paired_def by force
  have d: "distinct (map (\<lambda>f. (fd_id f, op_name f)) ?fs)" using findings_pairs [of records] by (simp only: paired_def)
  have "inj_on diff_key (set ?fs)"
  proof (rule inj_onI)
    fix f g assume fg: "f \<in> set ?fs" "g \<in> set ?fs" "diff_key f = diff_key g"
    then have "fd_id f = fd_id g" "op_name f = op_name g" using diff_key_inj [of f g] ids by simp_all
    with d fg show "f = g" by (auto simp: distinct_map inj_on_def)
  qed
  with d show ?thesis by (simp add: distinct_map)
qed

section \<open>A judged finding does not move against itself\<close>

lemma median_nonneg:
  assumes "list_all (\<lambda>x. 0 \<le> x) xs" and "median xs = Some v"
  shows "0 \<le> v"
proof -
  have "xs \<noteq> []" using assms(2) by (auto simp: median_def)
  then have "length xs div 2 < length xs" "length xs div 2 - 1 < length xs" by (simp_all add: less_imp_diff_less)
  then have "0 \<le> sort xs ! (length xs div 2)" "0 \<le> sort xs ! (length xs div 2 - 1)"
    using assms(1) nth_mem [of _ "sort xs"] by (auto simp: list_all_iff)
  then show ?thesis using assms(2)
    by (auto simp: median_def Let_def f64_div_def f64_add_def intro!: f64_round_nonneg divide_nonneg_pos split: if_splits)
qed

definition comparable :: "finding \<Rightarrow> bool" where
  "comparable f =
    (if higher_better f then (case gate_value f of Some v \<Rightarrow> 0 \<le> v | None \<Rightarrow> True) else 0 < min_delta f)"

lemma comparable_self:
  assumes "comparable f" and "gate_value f = Some v"
  shows "compare_values f v v = Unchanged"
proof (cases "higher_better f")
  case True
  then have "0 \<le> v" using assms by (simp add: comparable_def)
  then have "f64_mul v IMPROVE_FACTOR \<le> v" "v \<le> f64_mul v REGRESS_FACTOR"
    using f64_round_coarse [of "v * (3 / 4)"] f64_round_coarse [of "v * (5 / 4)"]
    unfolding f64_mul_def IMPROVE_FACTOR_def REGRESS_FACTOR_def by simp_all
  then show ?thesis using True by (simp add: compare_values_def Let_def)
next
  case False
  then show ?thesis using assms(1) by (simp add: comparable_def compare_values_def Let_def f64_sub_def f64_round_def)
qed

lemma min_delta_pos:
  assumes "fd_unit f \<in> {UCount, URatio, UMs}"
  shows "0 < min_delta f"
proof -
  have "0 < f64_of (max n 1)" for n by (simp add: f64_of_def f64_round_pos)
  then have "0 < f64_div 1 (f64_of (max n 1))" for n by (simp add: f64_div_def f64_round_pos)
  moreover have "0 < RTX_RATE_MAX" by (simp add: RTX_RATE_MAX_def f64_round_pos)
  ultimately show ?thesis using assms by (auto simp: min_delta_def DIFF_MS_NOISE_FLOOR_def)
qed

text \<open>What is judged is a count, a share or a time, or else the rate of reuse or a throughput, neither below zero.\<close>

definition lower_metric :: "metric \<Rightarrow> bool" where
  "lower_metric m = (mt_name m \<noteq> ''reuse_rate'' \<and> mt_unit m \<in> {UCount, URatio, UMs})"

definition higher_metric :: "string \<Rightarrow> metric \<Rightarrow> bool" where
  "higher_metric i m =
    ((mt_name m = ''reuse_rate'' \<or> mt_unit m = UBytesPerS) \<and> \<not> is_status_mix i \<and> mt_ratio_to_rtt m = None
     \<and> (case mt_value m of Some v \<Rightarrow> 0 \<le> v | None \<Rightarrow> True))"

lemma comparable_metric:
  assumes "lower_metric m \<or> higher_metric (fd_id f) m"
    and "fd_metric f = mt_name m" "fd_unit f = mt_unit m" "fd_ratio_to_rtt f = mt_ratio_to_rtt m"
      "fd_value f = map_option Num (mt_value m)"
  shows "comparable f"
  using assms(1)
proof
  assume "lower_metric m"
  then show ?thesis using min_delta_pos [of f] assms by (auto simp: lower_metric_def comparable_def higher_better_def)
next
  assume "higher_metric (fd_id f) m"
  then show ?thesis using assms
    by (auto simp: higher_metric_def comparable_def higher_better_def gate_value_def cmp_value_def split: option.splits)
qed

lemma lower_simps:
  "i \<noteq> ''reuse_rate'' \<Longrightarrow> lower_metric (rw_metric (ratio_row i label ms rtt limit))"
  "lower_metric (rw_metric (retransmit_row rtx sent))"
  "lower_metric (rw_metric (http_errors_row n e))"
  "ts_id sp \<noteq> ''reuse_rate'' \<Longrightarrow> lower_metric (rw_metric (na_tail_row sp ms))"
  by (auto simp: lower_metric_def ratio_row_def retransmit_row_def http_errors_row_def na_tail_row_def Let_def split: option.splits)

lemma lower_opt: "(\<And>y. lower_metric (rw_metric (f y))) \<Longrightarrow> list_all (\<lambda>w. lower_metric (rw_metric w)) (opt_list (map_option f x))"
  by (simp add: opt_list_def split: option.splits)

lemma global_rows_lower: "list_all (\<lambda>w. lower_metric (rw_metric w)) (global_rows pf mixed ops conns ss)"
  unfolding global_rows_def Let_def case_prod_unfold span_row_def baseline_row_def dns_row_def list_all_append
  by (intro conjI lower_opt) (simp_all add: lower_simps fyi_row_def, simp_all add: lower_metric_def)

lemma tail_row_lower: "tail_row pairs sp = Some (w, pop) \<Longrightarrow> ts_id sp \<noteq> ''reuse_rate'' \<Longrightarrow> lower_metric (rw_metric w)"
  by (auto simp: tail_row_def Let_def lower_simps split: if_splits option.splits) (simp_all add: lower_metric_def)

lemma tail_rows_lower: "list_all (\<lambda>w. lower_metric (rw_metric w)) (map fst (tail_rows a b))"
proof -
  have "ts_id sp \<noteq> ''reuse_rate''" if "sp \<in> set (new_specs @ reused_specs)" for sp
    using that by (auto simp: new_specs_def reused_specs_def)
  then show ?thesis
    by (auto simp: list_all_iff elim!: tail_rows_cases) (meson tail_row_lower)+
qed

lemma class_row_lower: "class_row floor_of ops cops = Some (w, ev) \<Longrightarrow> lower_metric (s3_metric w)"
  by (auto simp: class_row_def s3_ttfb_row_def na_s3_ttfb_row_def Let_def lower_metric_def split: option.splits if_splits prod.splits)

lemma s3_rows_metric: "list_all (\<lambda>w. lower_metric (s3_metric w) \<or> higher_metric (s3_id w) (s3_metric w)) (fst (s3_domain floor_of ops))"
proof -
  have st: "lower_metric (s3_metric (fst x))" if "x \<in> set (status_row i label ''s3_status_throttle'' hit) \<union>
      set (status_row i label ''s3_status_server'' hit) \<union> set (status_row i label ''s3_status_client'' hit)" for x i label hit
    using that by (auto simp: status_row_def lower_metric_def split: if_splits)
  have rate: "0 \<le> x" if "get_rate o' = Some x" for o' x
    using that by (cases "o_content_length o'"; cases "o_download_ns o'")
      (auto simp: get_rate_def f64_of_nonneg intro!: f64_mul_nonneg f64_div_nonneg split: if_splits)
  have "0 \<le> v" if "median (List.map_filter get_rate xs) = Some v" for v xs
  proof (rule median_nonneg [OF _ that])
    show "list_all (\<lambda>x. 0 \<le> x) (List.map_filter get_rate xs)"
      by (auto simp: list_all_iff in_map_filter dest: rate)
  qed
  then have tp: "higher_metric (s3_id w) (s3_metric w)" if "w \<in> set (throughput_row ops good)" for w good
    using that by (auto simp: throughput_row_def opt_list_def higher_metric_def is_status_mix_def id_in_def metric_default_def
        Let_def intro: f64_mul_nonneg split: option.splits)
  show ?thesis
    using st tp class_row_lower by (auto simp: s3_domain_def Let_def list_all_iff in_map_filter) blast+
qed

lemma findings_comparable:
  assumes "f \<in> set (findings (analyze records))" and "is_ref f"
  shows "comparable f"
proof -
  let ?r = "analyze records"
  have reuse: "higher_metric (rw_id w) (rw_metric w)" if "reuse_row n m = Some w" for n m w
    using that by (auto simp: reuse_row_def higher_metric_def is_status_mix_def id_in_def metric_default_def Let_def f64_of_nonneg
        intro!: f64_div_nonneg split: if_splits)
  consider w where "f = row_finding ?r w" "w \<in> set (rp_rows ?r @ rp_tail ?r @ opt_list (rp_reuse ?r))"
    | w where "f = row_finding ?r w" "rw_mark w = MarkFyi"
    | w where "f = s3_finding ?r w" "w \<in> set (rp_s3 ?r)"
    | "environment_finding ?r = Some f" | "f = run_finding ?r"
    using assms(1) path_fyi [of records] by (auto simp: findings_def opt_list_def list_all_iff split: option.splits)
  then show ?thesis
  proof cases
    case 1
    have "list_all (\<lambda>w. lower_metric (rw_metric w)) (rp_rows ?r @ rp_tail ?r)"
      using global_rows_lower tail_rows_lower by (simp add: analyze_parts(1,3))
    moreover have "list_all (\<lambda>w. higher_metric (rw_id w) (rw_metric w)) (opt_list (rp_reuse ?r))"
      using reuse by (simp add: analyze_parts(4) opt_list_def Let_def split: option.splits)
    ultimately have "lower_metric (rw_metric w) \<or> higher_metric (rw_id w) (rw_metric w)"
      using 1(2) by (auto simp: list_all_iff)
    then show ?thesis using 1(1) by (intro comparable_metric) (auto simp: row_finding_def report_finding_def)
  next
    case 3
    then have "lower_metric (s3_metric w) \<or> higher_metric (s3_id w) (s3_metric w)"
      using s3_rows_metric by (auto simp: analyze_parts(2) list_all_iff)
    then show ?thesis using 3(1)
      by (intro comparable_metric) (auto simp: s3_finding_def report_finding_def Let_def split: option.splits)
  qed (use assms(2) environment_unjudged in \<open>auto simp: is_ref_def mark_severity_def\<close>)
qed

section \<open>Comparisons\<close>

lemma base_map_sound:
  assumes "fmlookup (base_map base) k = Some b"
  shows "b \<in> set base \<and> is_ref b \<and> diff_key b = k"
proof -
  have "fmlookup (fold (\<lambda>f. fmupd (diff_key f) f) xs m) k = Some b \<Longrightarrow>
      (b \<in> set xs \<and> diff_key b = k) \<or> fmlookup m k = Some b" for xs m
    by (induction xs arbitrary: m) (fastforce split: if_splits)+
  from this [of "filter is_ref base" fmempty] assms show ?thesis by (auto simp: base_map_def)
qed

lemma base_map_complete:
  assumes "b \<in> set base" and "is_ref b"
  shows "fmlookup (base_map base) (diff_key b) \<noteq> None"
proof -
  have "k \<in> diff_key ` set xs \<or> fmlookup m k \<noteq> None \<Longrightarrow> fmlookup (fold (\<lambda>f. fmupd (diff_key f) f) xs m) k \<noteq> None" for xs m k
    by (induction xs arbitrary: m) auto
  then show ?thesis using assms by (auto simp: base_map_def)
qed

text \<open>With distinct keys a finding is compared with the one it was.\<close>

lemma base_map_own:
  assumes "distinct (map diff_key base)" and "f \<in> set base" and "fmlookup (base_map base) (diff_key f) = Some b"
  shows "b = f \<and> is_ref f"
  using base_map_sound [OF assms(3)] assms(1,2) by (auto simp: distinct_map inj_on_def)

lemma self_delta:
  assumes "f \<in> set (findings (analyze records))" and "is_cur f"
    and "current_delta (base_map (findings (analyze records))) f = Some d"
  shows "dl_kind d = Unchanged"
proof (cases "fmlookup (base_map (findings (analyze records))) (diff_key f)")
  case None
  then have "\<not> is_ref f" using base_map_complete assms(1) by blast
  then have "fd_severity f = Unjudged" using assms(2) by (simp add: is_ref_def is_cur_def)
  then show ?thesis using None assms(3) by (simp add: current_delta_def)
next
  case (Some b)
  then have b: "b = f" "is_ref f" using base_map_own [OF keys_distinct assms(1)] by blast+
  then have "fd_severity f \<noteq> Unjudged" by (simp add: is_ref_def)
  then show ?thesis using assms(3) Some b comparable_self [OF findings_comparable [OF assms(1) b(2)]]
    by (auto simp: current_delta_def delta_of_def split: option.splits)
qed

lemma self_diff:
  "let d = diff (analyze records) (analyze records) in
   list_all (\<lambda>x. dl_kind x = Unchanged) (df_deltas d) \<and> \<not> regressed_with d strict"
proof -
  let ?r = "analyze records"
  let ?d = "diff ?r ?r"
  have gone: "gone_delta ?r (map diff_key (filter is_cur (findings ?r))) b = None" if "b \<in> set (filter is_ref (findings ?r))" for b
    using that by (auto simp: gone_delta_def is_ref_def is_cur_def)
  have all: "list_all (\<lambda>x. dl_kind x = Unchanged) (df_deltas ?d)"
    using gone self_delta by (auto simp: diff_def Let_def list_all_iff in_map_filter)
  then have "\<not> list_ex (gates strict) (df_deltas ?d)" by (auto simp: list_all_iff list_ex_iff gates_def)
  then show ?thesis using all by (simp add: regressed_with_def diff_def Let_def)
qed

text \<open>C10: a capture is no worse than itself. Compared with itself, every check of the doctor is unchanged, none is
  new, gone or lost, and nothing gates, with \<open>--strict\<close> or without: each finding has a key of its own and is
  compared with itself, and rounding moves no value out of its band.\<close>

theorem self_diff_is_clean:
  "let d = diff (analyze records) (analyze records) in
   list_all (\<lambda>x. dl_kind x = Unchanged) (df_deltas d) \<and> \<not> regressed_with d strict"
  by (rule self_diff)

lemma in_deltas:
  "f \<in> set (findings c) \<Longrightarrow> is_cur f \<Longrightarrow> current_delta (base_map (findings b)) f = Some d \<Longrightarrow> d \<in> set (df_deltas (diff c b))"
  "g \<in> set (findings b) \<Longrightarrow> is_ref g \<Longrightarrow> gone_delta c (map diff_key (filter is_cur (findings c))) g = Some d
     \<Longrightarrow> d \<in> set (df_deltas (diff c b))"
  by (auto simp: diff_def Let_def in_map_filter)

text \<open>C11: a warning of the baseline does not vanish. If the comparison of two captures does not gate, then each check
  that warned in the baseline was judged again in the current capture, or its row is gone: no row of the
  current report has its key, and the population it is taken from is no smaller than the one it warned over.\<close>

theorem warning_is_judged_again:
  "regressed_with (diff (analyze cur) (analyze base)) strict
   \<or> list_all (\<lambda>b. list_ex (\<lambda>f. diff_key f = diff_key b \<and> fd_severity f \<noteq> Unjudged) (findings (analyze cur))
        \<or> (diff_key b \<notin> set (map diff_key (filter is_cur (findings (analyze cur)))) \<and> pn_judged (fd_sample b) \<le> cur_pop (analyze cur) b))
      (filter (\<lambda>b. is_ref b \<and> fd_severity b = Warn) (findings (analyze base)))"
proof (rule disjCI)
  let ?c = "analyze cur" and ?b = "analyze base"
  let ?seen = "map diff_key (filter is_cur (findings ?c))"
  assume "\<not> list_all (\<lambda>b. list_ex (\<lambda>f. diff_key f = diff_key b \<and> fd_severity f \<noteq> Unjudged) (findings ?c)
        \<or> (diff_key b \<notin> set ?seen \<and> pn_judged (fd_sample b) \<le> cur_pop ?c b)) (filter (\<lambda>b. is_ref b \<and> fd_severity b = Warn) (findings ?b))"
  then obtain b where b: "b \<in> set (findings ?b)" "is_ref b" "fd_severity b = Warn"
      "diff_key b \<notin> set ?seen \<Longrightarrow> cur_pop ?c b < pn_judged (fd_sample b)"
    and lost: "\<And>f. f \<in> set (findings ?c) \<Longrightarrow> diff_key f = diff_key b \<Longrightarrow> fd_severity f = Unjudged"
    by (force simp: list_all_iff list_ex_iff)
  have "\<exists>d\<in>set (df_deltas (diff ?c ?b)). dl_kind d = Unjudgeable"
  proof (cases "diff_key b \<in> set ?seen")
    case True
    then obtain f where f: "f \<in> set (findings ?c)" "is_cur f" "diff_key f = diff_key b" by auto
    obtain b' where b': "fmlookup (base_map (findings ?b)) (diff_key b) = Some b'"
      using base_map_complete [OF b(1,2)] by blast
    with base_map_own [OF keys_distinct b(1)] have "b' = b" by blast
    then have "current_delta (base_map (findings ?b)) f =
        Some (delta_of f (cmp_value b) None (fd_ratio_to_rtt b \<noteq> None) (fd_severity b) Unjudgeable)"
      using f(3) b(3) b' lost [OF f(1,3)] by (simp add: current_delta_def)
    from in_deltas(1) [OF f(1,2) this] show ?thesis by (rule bexI [rotated]) (simp add: delta_of_def)
  next
    case False
    then have "gone_delta ?c ?seen b =
        Some (delta_of b (cmp_value b) None (fd_ratio_to_rtt b \<noteq> None) (fd_severity b) Unjudgeable)"
      using b(3) b(4) [OF False] False by (simp add: gone_delta_def)
    from in_deltas(2) [OF b(1,2) this] show ?thesis by (rule bexI [rotated]) (simp add: delta_of_def)
  qed
  then obtain d where d: "d \<in> set (df_deltas (diff ?c ?b))" "dl_kind d = Unjudgeable" by blast
  then have "gates strict d" by (simp add: gates_def)
  then show "regressed_with (diff ?c ?b) strict" using d(1) unfolding regressed_with_def list_ex_iff by blast
qed

section \<open>The exit codes with a baseline\<close>

text \<open>A missing denominator outranks the comparison. With or without a baseline, the doctor exits 0 without
  \<open>--cost\<close> only on a capture whose own verdict is not one of nothing judged, and against itself a capture
  that is judged exits 0.\<close>

theorem baseline_never_hides_missing_data:
  "(if \<not> da_cost args \<and> verdict_exit_code (analyze records) (da_strict args) = 2
    then doctor_code records args \<noteq> Some 0 else True)
   \<and> doctor_code records \<lparr>da_strict = strict, da_cost = False, da_baseline = Some records\<rparr> =
     (if records = [] then None
      else Some (if verdict_exit_code (analyze records) strict = 2 then 2 else 0))"
proof
  show "doctor_code records \<lparr>da_strict = strict, da_cost = False, da_baseline = Some records\<rparr> =
     (if records = [] then None else Some (if verdict_exit_code (analyze records) strict = 2 then 2 else 0))"
    using self_diff [of records strict]
    by (simp add: doctor_code_def report_code_def require_records_def EXIT_NOTHING_JUDGEABLE_def Let_def)
  show "if \<not> da_cost args \<and> verdict_exit_code (analyze records) (da_strict args) = 2
    then doctor_code records args \<noteq> Some 0 else True"
    by (auto simp: doctor_code_def report_code_def require_records_def EXIT_NOTHING_JUDGEABLE_def
        split: option.splits if_splits)
qed

end
