(* ===== verification/Metrics.thy ===== *)
theory Metrics
  imports Predict Float64
begin

text \<open>
  The float half of the replay study: the rates of \<open>metrics.rs\<close> and of a demand cache, the rows of
  \<open>driver.rs\<close> with its four sweeps, and from \<open>predict.rs\<close> the chain that looks several reads ahead and
  the adaptive predictor, which chooses among the others by their recent accuracy.
\<close>

section \<open>Rates of a report\<close>

text \<open>A share of the accesses, zero where there are none.\<close>

definition rate :: "nat \<Rightarrow> nat \<Rightarrow> real" where
  "rate n accesses = (if accesses = 0 then 0 else f64_div (f64_of n) (f64_of accesses))"

definition hit_rate :: "report \<Rightarrow> real" where "hit_rate r = rate (re_hits r) (re_accesses r)"

definition prefetch_precision :: "report \<Rightarrow> real" where
  "prefetch_precision r = rate (re_prefetch_used r) (re_prefetch_issued r)"

definition reuse_benefit :: "report \<Rightarrow> real" where "reuse_benefit r = hit_rate r"

definition prefetch_cost :: "report \<Rightarrow> real" where
  "prefetch_cost r = rate (re_prefetch_issued r) (re_accesses r)"

definition prefetch_latency_saved :: "report \<Rightarrow> real" where
  "prefetch_latency_saved r = rate (re_prefetch_used r) (re_accesses r)"

definition net_savings :: "report \<Rightarrow> real" where
  "net_savings r = f64_sub (reuse_benefit r) (prefetch_cost r)"

section \<open>Rows\<close>

record sweep_row =
  sr_predictor :: string
  sr_cap :: u64
  sr_hit_rate :: real
  sr_pf_precision :: real
  sr_pf_per_access :: real
  sr_net_savings :: real
  sr_pf_latency :: real

definition from_report :: "string \<Rightarrow> u64 \<Rightarrow> report \<Rightarrow> sweep_row" where
  "from_report predictor cap r =
    \<lparr>sr_predictor = predictor, sr_cap = cap, sr_hit_rate = hit_rate r, sr_pf_precision = prefetch_precision r,
     sr_pf_per_access = prefetch_cost r, sr_net_savings = net_savings r, sr_pf_latency = prefetch_latency_saved r\<rparr>"

definition demand_row :: "string \<Rightarrow> u64 \<Rightarrow> real \<Rightarrow> sweep_row" where
  "demand_row predictor cap hr =
    \<lparr>sr_predictor = predictor, sr_cap = cap, sr_hit_rate = hr, sr_pf_precision = 0, sr_pf_per_access = 0,
     sr_net_savings = hr, sr_pf_latency = 0\<rparr>"

definition report_rows :: "string \<Rightarrow> (u64 \<times> report) list \<Rightarrow> sweep_row list" where
  "report_rows label rs = map (\<lambda>(cap, r). from_report label cap r) rs"

definition count_row :: "string \<Rightarrow> u64 \<times> nat \<times> nat \<Rightarrow> sweep_row" where
  "count_row label x = (case x of (cap, accesses, hits) \<Rightarrow> demand_row label cap (rate hits accesses))"

text \<open>The rows of a policy that may not return are the rows of the runs that do: that all do is a theorem.\<close>

fun count_rows :: "string \<Rightarrow> (u64 \<times> (nat \<times> nat) option) list \<Rightarrow> sweep_row list option" where
  "count_rows label [] = Some []"
| "count_rows label ((cap, r) # rs) =
    Option.bind r (\<lambda>c. map_option (Cons (count_row label (cap, c))) (count_rows label rs))"

section \<open>Several reads ahead\<close>

definition MIN_SUPPORT :: nat where "MIN_SUPPORT = 2"

text \<open>The sum of the source is over 64-bit counters, each a number of reads seen.\<close>

definition row_total :: "(string, u64) fmap \<Rightarrow> nat" where
  "row_total succ = sum_list (map (\<lambda>(x, c). unat c) (sorted_list_of_fmap succ))"

definition best_successor :: "(string, u64) fmap \<Rightarrow> (string \<times> u64) option" where
  "best_successor succ =
    (case sort_key (\<lambda>(x, c). rank_key c x) (sorted_list_of_fmap succ) of [] \<Rightarrow> None | b # _ \<Rightarrow> Some b)"

fun chain_steps :: "markov \<Rightarrow> real \<Rightarrow> nat \<Rightarrow> string \<Rightarrow> real \<Rightarrow> string option" where
  "chain_steps p conf 0 cur chain_conf = Some cur"
| "chain_steps p conf (Suc n) cur chain_conf =
    (case fmlookup (ct_rows (mk_table p)) cur of
       None \<Rightarrow> None
     | Some succ \<Rightarrow>
         (if row_total succ < MIN_SUPPORT then None
          else case best_successor succ of
             None \<Rightarrow> None
           | Some (best, cnt) \<Rightarrow>
               (let chain_conf' = f64_mul chain_conf (f64_div (f64_of (unat cnt)) (f64_of (row_total succ))) in
                if chain_conf' < conf then None else chain_steps p conf n best chain_conf')))"

definition chain_ahead :: "markov \<Rightarrow> string \<Rightarrow> nat \<Rightarrow> real \<Rightarrow> string option" where
  "chain_ahead p start depth conf = (if mk_order p \<noteq> 1 then None else chain_steps p conf (max depth 1) start 1)"

section \<open>The adaptive predictor\<close>

datatype any_predictor = AnyFrequency freq_pred | AnyMarkov markov | AnyCooc cooc | AnySequential nat

fun any_observe :: "any_predictor observe" where
  "any_observe ev (AnyFrequency p) = AnyFrequency (freq_observe ev p)"
| "any_observe ev (AnyMarkov p) = AnyMarkov (markov_observe ev p)"
| "any_observe ev (AnyCooc p) = AnyCooc (cooc_observe ev p)"
| "any_observe ev (AnySequential p) = AnySequential (seq_observe ev p)"

fun any_predict :: "any_predictor predict" where
  "any_predict ev (AnyFrequency p) = map_prod AnyFrequency id (freq_predict ev p)"
| "any_predict ev (AnyMarkov p) = map_prod AnyMarkov id (markov_predict ev p)"
| "any_predict ev (AnyCooc p) = map_prod AnyCooc id (cooc_predict ev p)"
| "any_predict ev (AnySequential p) = map_prod AnySequential id (seq_predict ev p)"

record expert =
  ex_pred :: any_predictor
  ex_last :: "string list"
  ex_acc :: real

record adaptive =
  ad_experts :: "expert list"
  ad_alpha :: real
  ad_ghost_on :: sim
  ad_ghost_off :: sim
  ad_hit_on :: real
  ad_hit_off :: real
  ad_floor :: real
  ad_margin :: real

definition new_expert :: "any_predictor \<Rightarrow> expert" where
  "new_expert p = \<lparr>ex_pred = p, ex_last = [], ex_acc = 0\<rparr>"

definition adaptive_with_ref_cap :: "nat \<Rightarrow> u64 \<Rightarrow> adaptive" where
  "adaptive_with_ref_cap k ref_cap =
    (let cap = max ref_cap 1 in
     \<lparr>ad_experts = map new_expert
        [AnyFrequency (freq_new k), AnyMarkov (markov_with_order k 1), AnyMarkov (markov_with_order k 2),
         AnyCooc (cooc_new k), AnySequential k],
      ad_alpha = f64_round (2 / 100), ad_ghost_on = sim_new cap, ad_ghost_off = sim_new cap,
      ad_hit_on = 0, ad_hit_off = 0, ad_floor = f64_round (5 / 100), ad_margin = f64_round (2 / 100)\<rparr>)"

text \<open>An exponential average: \<open>alpha * x + (1 - alpha) * old\<close>.\<close>

definition ewma :: "real \<Rightarrow> real \<Rightarrow> real \<Rightarrow> real" where
  "ewma alpha x old = f64_add (f64_mul alpha x) (f64_mul (f64_sub 1 alpha) old)"

definition of_hit :: "bool \<Rightarrow> real" where "of_hit b = (if b then 1 else 0)"

text \<open>A demand read of a shadow cache, and whether it hit.\<close>

definition shadow_read :: "string \<Rightarrow> sim \<Rightarrow> sim \<times> bool" where
  "shadow_read k s =
    (case sim_access k 1 s of (s1, Hit _) \<Rightarrow> (s1, True) | (s1, Miss) \<Rightarrow> (sim_insert k 1 False s1, False))"

definition score_expert :: "real \<Rightarrow> norm_event \<Rightarrow> expert \<Rightarrow> expert" where
  "score_expert alpha ev e =
    e\<lparr>ex_acc := ewma alpha (of_hit (ne_object_id ev \<in> set (ex_last e))) (ex_acc e), ex_pred := any_observe ev (ex_pred e)\<rparr>"

definition adaptive_observe :: "adaptive observe" where
  "adaptive_observe ev p =
    (let alpha = ad_alpha p; k = ne_object_id ev;
         (on, on_hit) = shadow_read k (ad_ghost_on p); (off, off_hit) = shadow_read k (ad_ghost_off p) in
     p\<lparr>ad_experts := map (score_expert alpha ev) (ad_experts p),
       ad_ghost_on := on, ad_hit_on := ewma alpha (of_hit on_hit) (ad_hit_on p),
       ad_ghost_off := off, ad_hit_off := ewma alpha (of_hit off_hit) (ad_hit_off p)\<rparr>)"

definition TIE :: real where "TIE = f64_round (1 / 10 ^ 9)"

definition refresh_expert :: "norm_event \<Rightarrow> expert \<Rightarrow> expert" where
  "refresh_expert ev e = (let (p, xs) = any_predict ev (ex_pred e) in e\<lparr>ex_pred := p, ex_last := xs\<rparr>)"

text \<open>The first expert with the fewest predictions among those within a tie of the best.\<close>

fun fewest :: "expert list \<Rightarrow> expert option" where
  "fewest [] = None"
| "fewest (e # es) =
    (case fewest es of None \<Rightarrow> Some e
     | Some b \<Rightarrow> Some (if length (ex_last e) \<le> length (ex_last b) then e else b))"

definition max_acc :: "expert list \<Rightarrow> real" where
  "max_acc es = (case map ex_acc es of [] \<Rightarrow> 0 | a # as \<Rightarrow> fold max as a)"

definition best_expert :: "expert list \<Rightarrow> expert option" where
  "best_expert es = fewest (filter (\<lambda>e. f64_sub (max_acc es) TIE \<le> ex_acc e) es)"

fun shadow_prefetch :: "string list \<Rightarrow> sim \<Rightarrow> sim" where
  "shadow_prefetch [] s = s"
| "shadow_prefetch (pid # pids) s = shadow_prefetch pids (if sim_contains pid s then s else sim_insert pid 1 True s)"

definition adaptive_predict :: "adaptive predict" where
  "adaptive_predict ev p =
    (let es = map (refresh_expert ev) (ad_experts p);
         chosen = (case best_expert es of Some e \<Rightarrow> ex_last e | None \<Rightarrow> ex_last (hd es));
         engage = (ad_floor p \<le> max_acc es \<and> f64_sub (ad_hit_off p) (ad_margin p) \<le> ad_hit_on p) in
     (p\<lparr>ad_experts := es, ad_ghost_on := shadow_prefetch chosen (ad_ghost_on p)\<rparr>, if engage then chosen else []))"

section \<open>Sweeps\<close>

text \<open>What the sweeps take from outside: the standard library's hasher, and the float product of S3-FIFO.\<close>

definition null_rows :: "norm_event list \<Rightarrow> u64 list \<Rightarrow> sweep_row list" where
  "null_rows trace caps = report_rows ''null'' (eval_all_caps null_observe null_predict trace caps ())"

definition markov_rows :: "string \<Rightarrow> nat \<Rightarrow> norm_event list \<Rightarrow> u64 list \<Rightarrow> sweep_row list" where
  "markov_rows label order trace caps =
    report_rows label (eval_all_caps markov_observe markov_predict trace caps (markov_with_order K_MAX order))"

definition sweep_demand :: "norm_event list \<Rightarrow> u64 list \<Rightarrow> sweep_row list" where
  "sweep_demand trace caps =
    null_rows trace caps @ markov_rows ''markov'' 1 trace caps @ markov_rows ''markov2'' 2 trace caps"

definition opt_rows :: "norm_event list \<Rightarrow> u64 list \<Rightarrow> sweep_row list" where
  "opt_rows trace caps = map (count_row ''opt'') (belady_hit_rates trace caps)"

definition retention_rows ::
    "(u64 \<Rightarrow> string \<Rightarrow> u64) \<Rightarrow> (nat \<Rightarrow> nat) \<Rightarrow> norm_event list \<Rightarrow> u64 list \<Rightarrow> sweep_row list option" where
  "retention_rows h tenth trace caps =
    Option.bind (count_rows ''lru+adm'' (eval_admission_caps h trace caps)) (\<lambda>adm.
    Option.bind (count_rows ''arc'' (eval_arc_caps trace caps)) (\<lambda>arc.
    Option.bind (count_rows ''s3fifo'' (eval_s3fifo_caps tenth trace caps)) (\<lambda>s3.
      Some (opt_rows trace caps @ adm @ arc @ s3))))"

text \<open>A stable sort by capacity, then by a fixed order of the policies.\<close>

definition in_order :: "(string \<Rightarrow> nat) \<Rightarrow> sweep_row list \<Rightarrow> sweep_row list" where
  "in_order rank rows = sort_key (\<lambda>r. (sr_cap r, rank (sr_predictor r))) rows"

definition rank_in :: "string list \<Rightarrow> string \<Rightarrow> nat" where
  "rank_in labels l = length (takeWhile (\<lambda>x. x \<noteq> l) labels)"

definition sweep_retention ::
    "(u64 \<Rightarrow> string \<Rightarrow> u64) \<Rightarrow> (nat \<Rightarrow> nat) \<Rightarrow> norm_event list \<Rightarrow> u64 list \<Rightarrow> sweep_row list option" where
  "sweep_retention h tenth trace caps =
    map_option (\<lambda>rs. in_order (rank_in [''null'', ''lru+adm'', ''arc'', ''s3fifo'']) (null_rows trace caps @ rs))
      (retention_rows h tenth trace caps)"

definition adaptive_row :: "norm_event list \<Rightarrow> u64 \<Rightarrow> sweep_row" where
  "adaptive_row trace cap =
    from_report ''adaptive'' cap
      (run adaptive_observe adaptive_predict trace (adaptive_with_ref_cap (k_for_cap cap) cap) cap)"

definition sweep_impl ::
    "(u64 \<Rightarrow> string \<Rightarrow> u64) \<Rightarrow> (nat \<Rightarrow> nat) \<Rightarrow> norm_event list \<Rightarrow> u64 list \<Rightarrow> bool \<Rightarrow> sweep_row list option" where
  "sweep_impl h tenth trace caps block_mode =
    map_option (\<lambda>rs. in_order
        (rank_in [''null'', ''lru+adm'', ''arc'', ''s3fifo'', ''opt'', ''frequency'', ''markov'', ''markov2'', ''cooc'', ''sequential''])
        (null_rows trace caps
         @ report_rows ''frequency'' (eval_all_caps freq_observe freq_predict trace caps (freq_new K_MAX))
         @ markov_rows ''markov'' 1 trace caps @ markov_rows ''markov2'' 2 trace caps
         @ report_rows ''cooc'' (eval_all_caps cooc_observe cooc_predict trace caps (cooc_new K_MAX))
         @ (if block_mode then report_rows ''sequential'' (eval_all_caps seq_observe seq_predict trace caps K_MAX) else [])
         @ map (adaptive_row trace) caps @ rs))
      (retention_rows h tenth trace caps)"

definition sweep :: "(u64 \<Rightarrow> string \<Rightarrow> u64) \<Rightarrow> (nat \<Rightarrow> nat) \<Rightarrow> norm_event list \<Rightarrow> u64 list \<Rightarrow> sweep_row list option" where
  "sweep h tenth trace caps = sweep_impl h tenth trace caps False"

definition sweep_blocks :: "(u64 \<Rightarrow> string \<Rightarrow> u64) \<Rightarrow> (nat \<Rightarrow> nat) \<Rightarrow> norm_event list \<Rightarrow> u64 list \<Rightarrow> sweep_row list option" where
  "sweep_blocks h tenth trace caps = sweep_impl h tenth trace caps True"

end
