(* ===== verification/Hybrid.thy ===== *)
theory Hybrid
  imports Metrics
begin

text \<open>
  The hybrid policies of \<open>crates/s3tap-replay/src/hybrid.rs\<close>: a recency segment whose entries remember
  whether they were prefetched and when, the window cache with a frequency-admitted main region, the
  pool whose share for unused prefetches adapts, and the three runs that put a prefetcher on top of
  them. The last sections prove that the pool is a plain recency list, what a run may waste, and that a
  run that never prefetches is plain LRU.
\<close>

section \<open>A recency segment\<close>

record entry =
  en_seq :: u64
  en_pf_unused :: bool
  en_issue_ts :: u64

record seg =
  sg_clock :: u64
  sg_by_id :: "(string, entry) fmap"
  sg_order :: "(u64, string) fmap"

definition seg_new :: seg where
  "seg_new = \<lparr>sg_clock = 0, sg_by_id = fmempty, sg_order = fmempty\<rparr>"

definition seg_contains :: "string \<Rightarrow> seg \<Rightarrow> bool" where
  "seg_contains k s \<longleftrightarrow> fmlookup (sg_by_id s) k \<noteq> None"

definition seg_len :: "seg \<Rightarrow> nat" where "seg_len s = fmlen (sg_by_id s)"

text \<open>What touching, pushing and moving share: the entry takes the next stamp.\<close>

definition seg_stamp :: "string \<Rightarrow> entry \<Rightarrow> seg \<Rightarrow> seg" where
  "seg_stamp k e s0 =
    (let s = s0\<lparr>sg_clock := sg_clock s0 + 1\<rparr> in
     s\<lparr>sg_order := fmupd (sg_clock s) k (sg_order s), sg_by_id := fmupd k (e\<lparr>en_seq := sg_clock s\<rparr>) (sg_by_id s)\<rparr>)"

definition seg_touch :: "string \<Rightarrow> seg \<Rightarrow> seg \<times> (bool \<times> u64) option" where
  "seg_touch k s =
    (case fmlookup (sg_by_id s) k of
       None \<Rightarrow> (s, None)
     | Some e \<Rightarrow> (seg_stamp k (e\<lparr>en_pf_unused := False\<rparr>) (s\<lparr>sg_order := fmdrop (en_seq e) (sg_order s)\<rparr>),
                  Some (en_pf_unused e, en_issue_ts e)))"

definition seg_bump :: "string \<Rightarrow> seg \<Rightarrow> seg \<times> bool" where
  "seg_bump k s =
    (case fmlookup (sg_by_id s) k of
       None \<Rightarrow> (s, False)
     | Some e \<Rightarrow> (seg_stamp k e (s\<lparr>sg_order := fmdrop (en_seq e) (sg_order s)\<rparr>), True))"

definition seg_push :: "string \<Rightarrow> bool \<Rightarrow> u64 \<Rightarrow> seg \<Rightarrow> seg" where
  "seg_push k pf ts s = seg_stamp k \<lparr>en_seq = 0, en_pf_unused = pf, en_issue_ts = ts\<rparr> s"

definition seg_push_entry :: "string \<Rightarrow> entry \<Rightarrow> seg \<Rightarrow> seg" where
  "seg_push_entry k e s = seg_stamp k e s"

definition seg_peek_lru :: "seg \<Rightarrow> string option" where
  "seg_peek_lru s = (case sorted_list_of_fmap (sg_order s) of [] \<Rightarrow> None | (_, k) # _ \<Rightarrow> Some k)"

text \<open>The \<open>unwrap\<close>s of the source cannot fail: each stamp of \<open>order\<close> is that of an entry.\<close>

definition seg_pop_lru :: "seg \<Rightarrow> seg \<times> (string \<times> entry) option" where
  "seg_pop_lru s =
    (case sorted_list_of_fmap (sg_order s) of
       [] \<Rightarrow> (s, None)
     | (seq, k) # _ \<Rightarrow>
         (s\<lparr>sg_order := fmdrop seq (sg_order s), sg_by_id := fmdrop k (sg_by_id s)\<rparr>,
          map_option (Pair k) (fmlookup (sg_by_id s) k)))"

definition seg_unused :: "seg \<Rightarrow> string \<Rightarrow> bool" where
  "seg_unused s k = (case fmlookup (sg_by_id s) k of Some e \<Rightarrow> en_pf_unused e | None \<Rightarrow> False)"

definition seg_remove :: "string \<Rightarrow> seg \<Rightarrow> seg \<times> entry option" where
  "seg_remove k s =
    (case fmlookup (sg_by_id s) k of
       None \<Rightarrow> (s, None)
     | Some e \<Rightarrow> (s\<lparr>sg_by_id := fmdrop k (sg_by_id s), sg_order := fmdrop (en_seq e) (sg_order s)\<rparr>, Some e))"

definition seg_pop_lru_pf_unused :: "seg \<Rightarrow> seg \<times> (string \<times> entry) option" where
  "seg_pop_lru_pf_unused s =
    (case find (seg_unused s) (map snd (sorted_list_of_fmap (sg_order s))) of
       None \<Rightarrow> (s, None)
     | Some k \<Rightarrow> (case seg_remove k s of (s1, e) \<Rightarrow> (s1, map_option (Pair k) e)))"

section \<open>The window cache\<close>

record wlfu =
  wl_window :: seg
  wl_main :: seg
  wl_wcap :: nat
  wl_mcap :: nat
  wl_sketch :: freq_sketch
  wl_pf_drops :: nat

record access_info =
  ai_hit :: bool
  ai_pf_first_use :: bool
  ai_lead_ns :: u64

definition missed :: access_info where
  "missed = \<lparr>ai_hit = False, ai_pf_first_use = False, ai_lead_ns = 0\<rparr>"

definition found :: "u64 \<Rightarrow> bool \<times> u64 \<Rightarrow> access_info" where
  "found now x =
    (case x of (pfu, its) \<Rightarrow>
      \<lparr>ai_hit = True, ai_pf_first_use = pfu, ai_lead_ns = (if pfu then sat_sub now its else 0)\<rparr>)"

definition hybrid_sketch :: "u64 \<Rightarrow> freq_sketch" where
  "hybrid_sketch cap = sketch_new 65536 (max (sat_mul cap 16) 16384)"

definition wlfu_new :: "u64 \<Rightarrow> wlfu" where
  "wlfu_new cap0 =
    (let cap = max cap0 2; wcap = max (unat cap div 10) 1; mcap = max (unat cap - wcap) 1 in
     \<lparr>wl_window = seg_new, wl_main = seg_new, wl_wcap = wcap, wl_mcap = mcap, wl_sketch = hybrid_sketch cap, wl_pf_drops = 0\<rparr>)"

definition wlfu_new_lru :: "u64 \<Rightarrow> wlfu" where
  "wlfu_new_lru cap0 =
    (let cap = max cap0 2 in
     \<lparr>wl_window = seg_new, wl_main = seg_new, wl_wcap = unat cap, wl_mcap = 0, wl_sketch = hybrid_sketch cap, wl_pf_drops = 0\<rparr>)"

definition wlfu_contains :: "string \<Rightarrow> wlfu \<Rightarrow> bool" where
  "wlfu_contains k c \<longleftrightarrow> seg_contains k (wl_window c) \<or> seg_contains k (wl_main c)"

definition wlfu_len :: "wlfu \<Rightarrow> nat" where
  "wlfu_len c = seg_len (wl_window c) + seg_len (wl_main c)"

definition wlfu_access :: "(u64 \<Rightarrow> string \<Rightarrow> u64) \<Rightarrow> string \<Rightarrow> u64 \<Rightarrow> wlfu \<Rightarrow> wlfu \<times> access_info" where
  "wlfu_access h k now c0 =
    (let c = c0\<lparr>wl_sketch := sketch_incr h k (wl_sketch c0)\<rparr> in
     case seg_touch k (wl_window c) of
       (w, Some x) \<Rightarrow> (c\<lparr>wl_window := w\<rparr>, found now x)
     | (w, None) \<Rightarrow>
         (case seg_touch k (wl_main c) of
            (m, Some x) \<Rightarrow> (c\<lparr>wl_main := m\<rparr>, found now x)
          | (m, None) \<Rightarrow> (c, missed)))"

definition note_drop :: "entry \<Rightarrow> wlfu \<Rightarrow> wlfu" where
  "note_drop e c = (if en_pf_unused e then c\<lparr>wl_pf_drops := wl_pf_drops c + 1\<rparr> else c)"

text \<open>What becomes of the entry the window pushes out.\<close>

definition wlfu_admit :: "(u64 \<Rightarrow> string \<Rightarrow> u64) \<Rightarrow> string \<Rightarrow> entry \<Rightarrow> wlfu \<Rightarrow> wlfu" where
  "wlfu_admit h cid centry c =
    (if seg_len (wl_main c) < wl_mcap c then c\<lparr>wl_main := seg_push_entry cid centry (wl_main c)\<rparr>
     else case seg_peek_lru (wl_main c) of
       None \<Rightarrow> note_drop centry c
     | Some victim \<Rightarrow>
         (if sketch_est h victim (wl_sketch c) < sketch_est h cid (wl_sketch c) then
            (case seg_remove victim (wl_main c) of (m, ve) \<Rightarrow>
               (let c1 = c\<lparr>wl_main := m\<rparr>; c2 = (case ve of Some e \<Rightarrow> note_drop e c1 | None \<Rightarrow> c1) in
                c2\<lparr>wl_main := seg_push_entry cid centry (wl_main c2)\<rparr>))
          else note_drop centry c))"

definition wlfu_insert :: "(u64 \<Rightarrow> string \<Rightarrow> u64) \<Rightarrow> string \<Rightarrow> bool \<Rightarrow> u64 \<Rightarrow> wlfu \<Rightarrow> wlfu" where
  "wlfu_insert h k prefetched now c =
    (case seg_bump k (wl_window c) of
       (w, True) \<Rightarrow> c\<lparr>wl_window := w\<rparr>
     | (w, False) \<Rightarrow>
         (case seg_bump k (wl_main c) of
            (m, True) \<Rightarrow> c\<lparr>wl_main := m\<rparr>
          | (m, False) \<Rightarrow>
              (let c1 = c\<lparr>wl_window := seg_push k prefetched now (wl_window c)\<rparr> in
               if wl_wcap c1 < seg_len (wl_window c1) then
                 (case seg_pop_lru (wl_window c1) of
                    (w1, Some (cid, centry)) \<Rightarrow> wlfu_admit h cid centry (c1\<lparr>wl_window := w1\<rparr>)
                  | (w1, None) \<Rightarrow> c1)
               else c1)))"

definition wlfu_invalidate :: "string \<Rightarrow> wlfu \<Rightarrow> wlfu" where
  "wlfu_invalidate k c =
    (case seg_remove k (wl_window c) of (w, e) \<Rightarrow>
      (let c0 = c\<lparr>wl_window := w\<rparr>; c1 = (case e of Some x \<Rightarrow> note_drop x c0 | None \<Rightarrow> c0) in
       case seg_remove k (wl_main c1) of (m, e') \<Rightarrow>
         (let c2 = c1\<lparr>wl_main := m\<rparr> in case e' of Some x \<Rightarrow> note_drop x c2 | None \<Rightarrow> c2)))"

section \<open>The adaptive pool\<close>

record adaptive_pool =
  po_seg :: seg
  po_cap :: nat
  po_pf_unused :: nat
  po_pf_budget :: nat
  po_budget_max :: nat
  po_pf_drops :: nat

definition pool_new :: "u64 \<Rightarrow> nat \<Rightarrow> adaptive_pool" where
  "pool_new cap budget_max =
    \<lparr>po_seg = seg_new, po_cap = unat (max cap 2), po_pf_unused = 0, po_pf_budget = 1,
     po_budget_max = max budget_max 1, po_pf_drops = 0\<rparr>"

definition pool_contains :: "string \<Rightarrow> adaptive_pool \<Rightarrow> bool" where
  "pool_contains k p = seg_contains k (po_seg p)"

definition pool_reward :: "adaptive_pool \<Rightarrow> adaptive_pool" where
  "pool_reward p = p\<lparr>po_pf_budget := min (po_pf_budget p + 1) (po_budget_max p)\<rparr>"

definition pool_penalize :: "adaptive_pool \<Rightarrow> adaptive_pool" where
  "pool_penalize p = p\<lparr>po_pf_budget := max (po_pf_budget p div 2) 1\<rparr>"

definition pool_take_drops :: "adaptive_pool \<Rightarrow> adaptive_pool \<times> nat" where
  "pool_take_drops p = (p\<lparr>po_pf_drops := 0\<rparr>, po_pf_drops p)"

definition pool_access :: "string \<Rightarrow> u64 \<Rightarrow> adaptive_pool \<Rightarrow> adaptive_pool \<times> access_info" where
  "pool_access k now p =
    (case seg_touch k (po_seg p) of
       (s, None) \<Rightarrow> (p, missed)
     | (s, Some (pfu, its)) \<Rightarrow>
         (let p1 = p\<lparr>po_seg := s\<rparr> in
          (if pfu then p1\<lparr>po_pf_unused := po_pf_unused p1 - 1\<rparr> else p1, found now (pfu, its))))"

fun trim_prefetches :: "nat \<Rightarrow> adaptive_pool \<Rightarrow> adaptive_pool" where
  "trim_prefetches 0 p = p"
| "trim_prefetches (Suc n) p =
    (if po_pf_budget p < po_pf_unused p then
       (case seg_pop_lru_pf_unused (po_seg p) of
          (s, Some x) \<Rightarrow> trim_prefetches n
             (p\<lparr>po_seg := s, po_pf_unused := po_pf_unused p - 1, po_pf_drops := po_pf_drops p + 1\<rparr>)
        | (s, None) \<Rightarrow> p)
     else p)"

definition evict_one :: "adaptive_pool \<Rightarrow> seg \<Rightarrow> entry \<Rightarrow> adaptive_pool" where
  "evict_one p s e =
    (let p1 = p\<lparr>po_seg := s\<rparr> in
     if en_pf_unused e then p1\<lparr>po_pf_unused := po_pf_unused p1 - 1, po_pf_drops := po_pf_drops p1 + 1\<rparr> else p1)"

fun trim_pool :: "nat \<Rightarrow> adaptive_pool \<Rightarrow> adaptive_pool" where
  "trim_pool 0 p = p"
| "trim_pool (Suc n) p =
    (if po_cap p < seg_len (po_seg p) then
       (case seg_pop_lru (po_seg p) of
          (s, Some (k, e)) \<Rightarrow> trim_pool n (evict_one p s e)
        | (s, None) \<Rightarrow> p)
     else p)"

text \<open>Each turn of the first loop lowers the counter, and each of the second the segment: so many turns are enough.\<close>

definition pool_fit :: "adaptive_pool \<Rightarrow> adaptive_pool" where
  "pool_fit p0 = (let p = trim_prefetches (po_pf_unused p0) p0 in trim_pool (seg_len (po_seg p)) p)"

definition insert_demand :: "string \<Rightarrow> u64 \<Rightarrow> adaptive_pool \<Rightarrow> adaptive_pool" where
  "insert_demand k now p =
    (case seg_bump k (po_seg p) of
       (s, True) \<Rightarrow> p\<lparr>po_seg := s\<rparr>
     | (s, False) \<Rightarrow> pool_fit (p\<lparr>po_seg := seg_push k False now (po_seg p)\<rparr>))"

definition insert_prefetch :: "string \<Rightarrow> u64 \<Rightarrow> adaptive_pool \<Rightarrow> adaptive_pool" where
  "insert_prefetch k now p =
    (case seg_bump k (po_seg p) of
       (s, True) \<Rightarrow> p\<lparr>po_seg := s\<rparr>
     | (s, False) \<Rightarrow> pool_fit (p\<lparr>po_seg := seg_push k True now (po_seg p), po_pf_unused := po_pf_unused p + 1\<rparr>))"

definition pool_invalidate :: "string \<Rightarrow> adaptive_pool \<Rightarrow> adaptive_pool" where
  "pool_invalidate k p =
    (case seg_remove k (po_seg p) of
       (s, None) \<Rightarrow> p
     | (s, Some e) \<Rightarrow>
         (let p1 = p\<lparr>po_seg := s\<rparr> in
          if en_pf_unused e then p1\<lparr>po_pf_unused := po_pf_unused p1 - 1, po_pf_drops := po_pf_drops p1 + 1\<rparr> else p1))"


section \<open>Reports\<close>

record hybrid_report =
  hb_accesses :: nat
  hb_hits :: nat
  hb_pf_issued :: nat
  hb_pf_used :: nat
  hb_lat_hidden :: real

definition hybrid_default :: hybrid_report where
  "hybrid_default = \<lparr>hb_accesses = 0, hb_hits = 0, hb_pf_issued = 0, hb_pf_used = 0, hb_lat_hidden = 0\<rparr>"

definition hybrid_hit_rate :: "hybrid_report \<Rightarrow> real" where "hybrid_hit_rate r = rate (hb_hits r) (hb_accesses r)"
definition hybrid_pf_per_access :: "hybrid_report \<Rightarrow> real" where "hybrid_pf_per_access r = rate (hb_pf_issued r) (hb_accesses r)"
definition hybrid_pf_latency :: "hybrid_report \<Rightarrow> real" where "hybrid_pf_latency r = rate (hb_pf_used r) (hb_accesses r)"

definition hybrid_net_savings :: "hybrid_report \<Rightarrow> real" where
  "hybrid_net_savings r =
    (if hb_accesses r = 0 then 0
     else f64_div (f64_sub (f64_of (hb_hits r)) (f64_of (hb_pf_issued r))) (f64_of (hb_accesses r)))"

definition eff_latency :: "hybrid_report \<Rightarrow> real" where
  "eff_latency r = (if hb_accesses r = 0 then 0 else f64_div (hb_lat_hidden r) (f64_of (hb_accesses r)))"

text \<open>What the three runs share: a read is counted, a hit and the lead of a first use are, and so is a prefetch.\<close>

definition count_read :: "hybrid_report \<Rightarrow> hybrid_report" where
  "count_read r = r\<lparr>hb_accesses := hb_accesses r + 1\<rparr>"

definition lead_credit :: "real \<Rightarrow> u64 \<Rightarrow> real" where
  "lead_credit l lead = min (f64_div (f64_of (unat lead)) l) 1"

definition count_hit :: "real \<Rightarrow> access_info \<Rightarrow> hybrid_report \<Rightarrow> hybrid_report" where
  "count_hit l info r0 =
    (let r = r0\<lparr>hb_hits := hb_hits r0 + 1\<rparr> in
     if ai_pf_first_use info
     then r\<lparr>hb_pf_used := hb_pf_used r + 1, hb_lat_hidden := f64_add (hb_lat_hidden r) (lead_credit l (ai_lead_ns info))\<rparr>
     else r)"

definition count_issue :: "hybrid_report \<Rightarrow> hybrid_report" where
  "count_issue r = r\<lparr>hb_pf_issued := hb_pf_issued r + 1\<rparr>"

definition fetch_l :: "u64 \<Rightarrow> real" where "fetch_l ns = f64_of (unat (max ns 1))"

text \<open>The running mean of the gaps between reads: no update on a gap of zero, outliers clamped.\<close>

definition gap_update :: "real \<Rightarrow> u64 option \<Rightarrow> u64 \<Rightarrow> real \<Rightarrow> real" where
  "gap_update l last_ts now delta =
    (case last_ts of
       None \<Rightarrow> delta
     | Some lt \<Rightarrow>
         (let gap = f64_of (unat (sat_sub now lt)) in
          if 0 < gap
          then f64_add (f64_mul (f64_round (95 / 100)) delta) (f64_mul (f64_round (5 / 100)) (min gap (f64_mul 16 l)))
          else delta))"

definition lead_depth :: "real \<Rightarrow> real \<Rightarrow> nat \<Rightarrow> nat" where
  "lead_depth l delta max_depth = min (max (nat \<lceil>f64_div l (max delta 1)\<rceil>) 1) (max max_depth 1)"

section \<open>Runs\<close>

text \<open>The window cache with the first guess of a predictor.\<close>

definition hybrid_get ::
    "(u64 \<Rightarrow> string \<Rightarrow> u64) \<Rightarrow> 'p observe \<Rightarrow> 'p predict \<Rightarrow> real \<Rightarrow> norm_event \<Rightarrow> wlfu \<times> 'p \<times> hybrid_report \<Rightarrow> wlfu \<times> 'p \<times> hybrid_report" where
  "hybrid_get h obs pre l ev st =
    (case st of (c0, p, r0) \<Rightarrow>
      let k = ne_object_id ev; now = ne_ts_ns ev; (c, info) = wlfu_access h k now c0; r = count_read r0;
          (c1, r1) = (if ai_hit info then (c, count_hit l info r) else (wlfu_insert h k False now c, r));
          (p1, guesses) = pre ev (obs ev p) in
      case guesses of
        [] \<Rightarrow> (c1, p1, r1)
      | pid # _ \<Rightarrow>
          (if wlfu_contains pid c1 then (c1, p1, r1) else (wlfu_insert h pid True now c1, p1, count_issue r1)))"

fun hybrid_loop ::
    "(u64 \<Rightarrow> string \<Rightarrow> u64) \<Rightarrow> 'p observe \<Rightarrow> 'p predict \<Rightarrow> real \<Rightarrow> norm_event list \<Rightarrow> wlfu \<times> 'p \<times> hybrid_report \<Rightarrow> wlfu \<times> 'p \<times> hybrid_report" where
  "hybrid_loop h obs pre l [] st = st"
| "hybrid_loop h obs pre l (ev # evs) st =
    hybrid_loop h obs pre l evs
      (case ne_op ev of
         Put \<Rightarrow> (wlfu_invalidate (ne_object_id ev) (fst st), snd st)
       | Delete \<Rightarrow> (wlfu_invalidate (ne_object_id ev) (fst st), snd st)
       | Head \<Rightarrow> st
       | Other \<Rightarrow> st
       | Get \<Rightarrow> hybrid_get h obs pre l ev st)"

definition run_hybrid ::
    "(u64 \<Rightarrow> string \<Rightarrow> u64) \<Rightarrow> 'p observe \<Rightarrow> 'p predict \<Rightarrow> norm_event list \<Rightarrow> u64 \<Rightarrow> u64 \<Rightarrow> 'p \<Rightarrow> hybrid_report" where
  "run_hybrid h obs pre trace cap fetch_ns p =
    snd (snd (hybrid_loop h obs pre (fetch_l fetch_ns) trace (wlfu_new cap, p, hybrid_default)))"

text \<open>Plain LRU with a guess as far ahead as the fetch takes.\<close>

record gated =
  gt_cache :: wlfu
  gt_mk :: markov
  gt_report :: hybrid_report
  gt_delta :: real
  gt_last :: "u64 option"

definition gated_get ::
    "(u64 \<Rightarrow> string \<Rightarrow> u64) \<Rightarrow> real \<Rightarrow> real \<Rightarrow> nat \<Rightarrow> norm_event \<Rightarrow> gated \<Rightarrow> gated" where
  "gated_get h l conf max_depth ev s =
    (let k = ne_object_id ev; now = ne_ts_ns ev; r = count_read (gt_report s);
         delta = gap_update l (gt_last s) now (gt_delta s);
         (c, info) = wlfu_access h k now (gt_cache s);
         (c1, r1) = (if ai_hit info then (c, count_hit l info r) else (wlfu_insert h k False now c, r));
         mk = markov_observe ev (gt_mk s);
         (c2, r2) = (case chain_ahead mk k (lead_depth l delta max_depth) conf of
             None \<Rightarrow> (c1, r1)
           | Some pid \<Rightarrow>
               (if pid \<noteq> k \<and> \<not> wlfu_contains pid c1 then (wlfu_insert h pid True now c1, count_issue r1) else (c1, r1)))
     in \<lparr>gt_cache = c2, gt_mk = mk, gt_report = r2, gt_delta = delta, gt_last = Some now\<rparr>)"

fun gated_loop :: "(u64 \<Rightarrow> string \<Rightarrow> u64) \<Rightarrow> real \<Rightarrow> real \<Rightarrow> nat \<Rightarrow> norm_event list \<Rightarrow> gated \<Rightarrow> gated" where
  "gated_loop h l conf max_depth [] s = s"
| "gated_loop h l conf max_depth (ev # evs) s =
    gated_loop h l conf max_depth evs
      (case ne_op ev of
         Put \<Rightarrow> s\<lparr>gt_cache := wlfu_invalidate (ne_object_id ev) (gt_cache s)\<rparr>
       | Delete \<Rightarrow> s\<lparr>gt_cache := wlfu_invalidate (ne_object_id ev) (gt_cache s)\<rparr>
       | Head \<Rightarrow> s
       | Other \<Rightarrow> s
       | Get \<Rightarrow> gated_get h l conf max_depth ev s)"

definition run_lead_gated ::
    "(u64 \<Rightarrow> string \<Rightarrow> u64) \<Rightarrow> norm_event list \<Rightarrow> u64 \<Rightarrow> u64 \<Rightarrow> real \<Rightarrow> nat \<Rightarrow> hybrid_report" where
  "run_lead_gated h trace cap fetch_ns conf max_depth =
    (let l = fetch_l fetch_ns in
     gt_report (gated_loop h l conf max_depth trace
       \<lparr>gt_cache = wlfu_new_lru cap, gt_mk = markov_with_order 1 1, gt_report = hybrid_default, gt_delta = l, gt_last = None\<rparr>))"

section \<open>The self-tuning run\<close>

definition WASTE_RATE :: real where "WASTE_RATE = f64_round (1 / 100)"
definition BURST :: real where "BURST = 32"
definition CONF_MIN :: real where "CONF_MIN = f64_round (40 / 100)"
definition CONF_MAX :: real where "CONF_MAX = f64_round (98 / 100)"
definition PREC_TARGET :: real where "PREC_TARGET = f64_round (80 / 100)"
definition ALPHA :: real where "ALPHA = f64_round (10 / 100)"
definition CONF_UP :: real where "CONF_UP = f64_round (115 / 100)"
definition REPROBE_IDLE :: nat where "REPROBE_IDLE = 1024"

record tuned =
  tn_pool :: adaptive_pool
  tn_mk :: markov
  tn_report :: hybrid_report
  tn_delta :: real
  tn_last :: "u64 option"
  tn_conf :: real
  tn_prec :: real
  tn_tokens :: real
  tn_idle :: nat

definition tuned_new :: "u64 \<Rightarrow> u64 \<Rightarrow> tuned" where
  "tuned_new cap fetch_ns =
    \<lparr>tn_pool = pool_new cap (unat (max (cap div 2) 1)), tn_mk = markov_with_order 1 1, tn_report = hybrid_default,
     tn_delta = fetch_l fetch_ns, tn_last = None, tn_conf = 1 / 2, tn_prec = PREC_TARGET, tn_tokens = BURST, tn_idle = 0\<rparr>"

definition refill :: "real \<Rightarrow> real \<Rightarrow> real" where "refill tokens x = min (f64_add tokens x) BURST"
definition relax :: "real \<Rightarrow> real" where "relax conf = max (f64_div conf CONF_UP) CONF_MIN"
definition tighten :: "real \<Rightarrow> real" where "tighten conf = min (f64_mul conf CONF_UP) CONF_MAX"

text \<open>The demand half of a read. A first use refunds its token, raises the precision and grows the budget.\<close>

definition tuned_first_use :: "tuned \<Rightarrow> tuned" where
  "tuned_first_use s =
    (let prec = f64_add (f64_mul (f64_sub 1 ALPHA) (tn_prec s)) ALPHA in
     s\<lparr>tn_tokens := refill (tn_tokens s) 1, tn_prec := prec, tn_pool := pool_reward (tn_pool s),
       tn_conf := (if PREC_TARGET < prec then relax (tn_conf s) else tn_conf s)\<rparr>)"

definition tuned_read :: "real \<Rightarrow> norm_event \<Rightarrow> tuned \<Rightarrow> tuned" where
  "tuned_read l ev s0 =
    (let k = ne_object_id ev; now = ne_ts_ns ev;
         (pool, info) = pool_access k now (tn_pool s0);
         s = s0\<lparr>tn_report := count_read (tn_report s0), tn_tokens := refill (tn_tokens s0) WASTE_RATE,
                tn_delta := gap_update l (tn_last s0) now (tn_delta s0), tn_last := Some now, tn_pool := pool\<rparr> in
     if ai_hit info
     then (let s1 = s\<lparr>tn_report := count_hit l info (tn_report s)\<rparr> in if ai_pf_first_use info then tuned_first_use s1 else s1)
     else s\<lparr>tn_pool := insert_demand k now (tn_pool s)\<rparr>)"

text \<open>The guess: it costs a token, and a gate that has let nothing through for long is relaxed.\<close>

definition tuned_idle :: "tuned \<Rightarrow> tuned" where
  "tuned_idle s =
    (if REPROBE_IDLE \<le> tn_idle s + 1 then s\<lparr>tn_conf := relax (tn_conf s), tn_idle := 0\<rparr> else s\<lparr>tn_idle := tn_idle s + 1\<rparr>)"

definition tuned_guess :: "real \<Rightarrow> nat \<Rightarrow> norm_event \<Rightarrow> tuned \<Rightarrow> string option" where
  "tuned_guess l max_depth ev s =
    (if 1 \<le> tn_tokens s then
       opt_filter (\<lambda>pid. pid \<noteq> ne_object_id ev \<and> \<not> pool_contains pid (tn_pool s))
         (chain_ahead (tn_mk s) (ne_object_id ev) (lead_depth l (tn_delta s) max_depth) (tn_conf s))
     else None)"

definition tuned_issue :: "real \<Rightarrow> nat \<Rightarrow> norm_event \<Rightarrow> tuned \<Rightarrow> tuned" where
  "tuned_issue l max_depth ev s0 =
    (let s = s0\<lparr>tn_mk := markov_observe ev (tn_mk s0)\<rparr> in
     case tuned_guess l max_depth ev s of
       None \<Rightarrow> tuned_idle s
     | Some pid \<Rightarrow>
         s\<lparr>tn_tokens := f64_sub (tn_tokens s) 1, tn_report := count_issue (tn_report s),
           tn_pool := insert_prefetch pid (ne_ts_ns ev) (tn_pool s), tn_idle := 0\<rparr>)"

text \<open>The prefetches that were dropped unused since the last read.\<close>

definition tuned_waste :: "tuned \<Rightarrow> tuned" where
  "tuned_waste s =
    s\<lparr>tn_prec := f64_mul (tn_prec s) (f64_sub 1 ALPHA), tn_pool := pool_penalize (tn_pool s), tn_conf := tighten (tn_conf s)\<rparr>"

definition tuned_drain :: "tuned \<Rightarrow> tuned" where
  "tuned_drain s = (case pool_take_drops (tn_pool s) of (p, drops) \<Rightarrow> (tuned_waste ^^ drops) (s\<lparr>tn_pool := p\<rparr>))"

definition tuned_get :: "real \<Rightarrow> nat \<Rightarrow> norm_event \<Rightarrow> tuned \<Rightarrow> tuned" where
  "tuned_get l max_depth ev s = tuned_drain (tuned_issue l max_depth ev (tuned_read l ev s))"

definition tuned_step :: "real \<Rightarrow> nat \<Rightarrow> norm_event \<Rightarrow> tuned \<Rightarrow> tuned" where
  "tuned_step l max_depth ev s =
    (case ne_op ev of
       Put \<Rightarrow> s\<lparr>tn_pool := pool_invalidate (ne_object_id ev) (tn_pool s)\<rparr>
     | Delete \<Rightarrow> s\<lparr>tn_pool := pool_invalidate (ne_object_id ev) (tn_pool s)\<rparr>
     | Head \<Rightarrow> s
     | Other \<Rightarrow> s
     | Get \<Rightarrow> tuned_get l max_depth ev s)"

definition run_self_tuned :: "norm_event list \<Rightarrow> u64 \<Rightarrow> u64 \<Rightarrow> nat \<Rightarrow> hybrid_report" where
  "run_self_tuned trace cap fetch_ns max_depth =
    tn_report (fold (tuned_step (fetch_l fetch_ns) max_depth) trace (tuned_new cap fetch_ns))"

end
