(* ===== verification/Link.thy ===== *)
theory Link
  imports Hybrid
begin

text \<open>
  The replay over a finite link of \<open>crates/s3tap-replay/src/link.rs\<close>: one server with a demand lane and a
  shared cursor, a cache whose entries carry the time they land, and the run that measures how long
  reads wait. The last section proves that giving demand priority reorders work and creates none.
\<close>

section \<open>The link\<close>

record link_cfg =
  lc_rtt_ns :: u64
  lc_bw_bps :: u64
  lc_chunk_bytes :: u64

text \<open>The product is taken in 128 bits, where it does not overflow, and the quotient cut to 64.\<close>

definition transfer_ns :: "link_cfg \<Rightarrow> u64" where
  "transfer_ns c = of_nat (unat (lc_chunk_bytes c) * 8 * 1000000000 div unat (max (lc_bw_bps c) 1))"

definition fetch_ns :: "link_cfg \<Rightarrow> u64" where
  "fetch_ns c = sat_add (lc_rtt_ns c) (transfer_ns c)"

datatype discipline = Fifo | DemandPriority

datatype link_policy = NoCache | Demand | LeadGated discipline

record link =
  lk_demand_free :: u64
  lk_any_free :: u64
  lk_transfer :: u64
  lk_rtt :: u64

definition link_new :: "link_cfg \<Rightarrow> link" where
  "link_new c = \<lparr>lk_demand_free = 0, lk_any_free = 0, lk_transfer = transfer_ns c, lk_rtt = lc_rtt_ns c\<rparr>"

text \<open>The link after a demand fetch, when it is done, and which waiting prefetches it pushed back by how much.\<close>

definition fetch_demand :: "u64 \<Rightarrow> discipline \<Rightarrow> link \<Rightarrow> link \<times> u64 \<times> (u64 \<times> u64) option" where
  "fetch_demand now disc k =
    (let queue_from = (case disc of Fifo \<Rightarrow> lk_any_free k | DemandPriority \<Rightarrow> lk_demand_free k);
         start = max (sat_add now (lk_rtt k)) queue_from;
         done' = sat_add start (lk_transfer k);
         any_free = max (sat_add (max (lk_any_free k) (sat_add now (lk_rtt k))) (lk_transfer k)) done'
     in (k\<lparr>lk_demand_free := max (lk_demand_free k) done', lk_any_free := any_free\<rparr>, done',
         if start < lk_any_free k then Some (start, lk_transfer k) else None))"

definition fetch_prefetch :: "u64 \<Rightarrow> link \<Rightarrow> link \<times> u64" where
  "fetch_prefetch now k =
    (let done' = sat_add (max (sat_add now (lk_rtt k)) (lk_any_free k)) (lk_transfer k)
     in (k\<lparr>lk_any_free := max (lk_any_free k) done'\<rparr>, done'))"

section \<open>A cache with landing times\<close>

record ready_entry =
  rd_seq :: u64
  rd_ready :: u64
  rd_prefetch :: bool

record ready_lru =
  rl_cap :: nat
  rl_clock :: u64
  rl_by_id :: "(string, ready_entry) fmap"
  rl_order :: "(u64, string) fmap"

definition ready_new :: "u64 \<Rightarrow> ready_lru" where
  "ready_new cap = \<lparr>rl_cap = unat (max cap 1), rl_clock = 0, rl_by_id = fmempty, rl_order = fmempty\<rparr>"

definition ready_contains :: "string \<Rightarrow> ready_lru \<Rightarrow> bool" where
  "ready_contains k c \<longleftrightarrow> fmlookup (rl_by_id c) k \<noteq> None"

definition ready_touch :: "string \<Rightarrow> ready_lru \<Rightarrow> ready_lru \<times> u64 option" where
  "ready_touch k c0 =
    (case fmlookup (rl_by_id c0) k of
       None \<Rightarrow> (c0, None)
     | Some e \<Rightarrow>
         (let c = c0\<lparr>rl_order := fmdrop (rd_seq e) (rl_order c0), rl_clock := rl_clock c0 + 1\<rparr> in
          (c\<lparr>rl_by_id := fmupd k (e\<lparr>rd_seq := rl_clock c\<rparr>) (rl_by_id c), rl_order := fmupd (rl_clock c) k (rl_order c)\<rparr>,
           Some (rd_ready e))))"

definition ready_insert :: "string \<Rightarrow> u64 \<Rightarrow> bool \<Rightarrow> ready_lru \<Rightarrow> ready_lru" where
  "ready_insert k ready pf c0 =
    (case ready_touch k c0 of
       (c1, Some _) \<Rightarrow> c1
     | (_, None) \<Rightarrow>
         (let c1 = c0\<lparr>rl_clock := rl_clock c0 + 1\<rparr>;
              c = c1\<lparr>rl_by_id := fmupd k \<lparr>rd_seq = rl_clock c1, rd_ready = ready, rd_prefetch = pf\<rparr> (rl_by_id c1),
                     rl_order := fmupd (rl_clock c1) k (rl_order c1)\<rparr>
          in if rl_cap c < fmlen (rl_by_id c) then
               (case sorted_list_of_fmap (rl_order c) of
                  [] \<Rightarrow> c
                | (seq, victim) # _ \<Rightarrow> c\<lparr>rl_order := fmdrop seq (rl_order c), rl_by_id := fmdrop victim (rl_by_id c)\<rparr>)
             else c))"

definition ready_invalidate :: "string \<Rightarrow> ready_lru \<Rightarrow> ready_lru" where
  "ready_invalidate k c =
    (case fmlookup (rl_by_id c) k of
       None \<Rightarrow> c
     | Some e \<Rightarrow> c\<lparr>rl_by_id := fmdrop k (rl_by_id c), rl_order := fmdrop (rd_seq e) (rl_order c)\<rparr>)"

definition push_back :: "u64 \<Rightarrow> u64 \<Rightarrow> ready_entry \<Rightarrow> ready_entry" where
  "push_back cutoff delta e =
    (if rd_prefetch e \<and> cutoff < rd_ready e then e\<lparr>rd_ready := sat_add (rd_ready e) delta\<rparr> else e)"

definition push_back_prefetches :: "u64 \<Rightarrow> u64 \<Rightarrow> ready_lru \<Rightarrow> ready_lru" where
  "push_back_prefetches cutoff delta c = c\<lparr>rl_by_id := fmmap (push_back cutoff delta) (rl_by_id c)\<rparr>"

section \<open>The run\<close>

text \<open>The sum of the waits is 128 bits wide and a run that overflows it does not exist, so it is a number here.\<close>

record contended_report =
  cd_accesses :: nat
  cd_total_wait :: nat
  cd_zero_wait :: nat
  cd_pf_issued :: nat
  cd_demand_fetches :: nat

definition contended_default :: contended_report where
  "contended_default = \<lparr>cd_accesses = 0, cd_total_wait = 0, cd_zero_wait = 0, cd_pf_issued = 0, cd_demand_fetches = 0\<rparr>"

definition mean_wait_ms :: "contended_report \<Rightarrow> real" where
  "mean_wait_ms r =
    (if cd_accesses r = 0 then 0 else f64_div (f64_div (f64_of (cd_total_wait r)) (f64_of (cd_accesses r))) 1000000)"

definition zero_wait_frac :: "contended_report \<Rightarrow> real" where "zero_wait_frac r = rate (cd_zero_wait r) (cd_accesses r)"
definition contended_pf_per_access :: "contended_report \<Rightarrow> real" where
  "contended_pf_per_access r = rate (cd_pf_issued r) (cd_accesses r)"

record contended =
  cs_link :: link
  cs_cache :: ready_lru
  cs_mk :: markov
  cs_report :: contended_report
  cs_delta :: real
  cs_last :: "u64 option"

definition wait :: "u64 \<Rightarrow> contended_report \<Rightarrow> contended_report" where
  "wait ns r = r\<lparr>cd_total_wait := cd_total_wait r + unat ns\<rparr>"

text \<open>A demand fetch of a run: the link, the entries it pushed back, the count and the wait.\<close>

definition demand_fetch :: "discipline \<Rightarrow> u64 \<Rightarrow> contended \<Rightarrow> contended \<times> u64" where
  "demand_fetch disc now s =
    (case fetch_demand now disc (cs_link s) of
       (k, done', pushed) \<Rightarrow>
         (let c = (case pushed of Some (cutoff, delta) \<Rightarrow> push_back_prefetches cutoff delta (cs_cache s) | None \<Rightarrow> cs_cache s);
              r = cs_report s\<lparr>cd_demand_fetches := cd_demand_fetches (cs_report s) + 1\<rparr>
          in (s\<lparr>cs_link := k, cs_cache := c, cs_report := wait (done' - now) r\<rparr>, done')))"

definition contended_read :: "link_policy \<Rightarrow> discipline \<Rightarrow> norm_event \<Rightarrow> contended \<Rightarrow> contended" where
  "contended_read policy disc ev s0 =
    (let k = ne_object_id ev; now = ne_ts_ns ev;
         s = s0\<lparr>cs_report := cs_report s0\<lparr>cd_accesses := cd_accesses (cs_report s0) + 1\<rparr>\<rparr> in
     case policy of
       NoCache \<Rightarrow> fst (demand_fetch disc now s)
     | _ \<Rightarrow>
         (case ready_touch k (cs_cache s) of
            (c, Some ready) \<Rightarrow>
              (let s1 = s\<lparr>cs_cache := c\<rparr> in
               if ready \<le> now then s1\<lparr>cs_report := cs_report s1\<lparr>cd_zero_wait := cd_zero_wait (cs_report s1) + 1\<rparr>\<rparr>
               else s1\<lparr>cs_report := wait (ready - now) (cs_report s1)\<rparr>)
          | (c, None) \<Rightarrow>
              (case demand_fetch disc now s of
                 (s1, done') \<Rightarrow> s1\<lparr>cs_cache := ready_insert k done' False (cs_cache s1)\<rparr>)))"

definition contended_guess :: "real \<Rightarrow> real \<Rightarrow> nat \<Rightarrow> norm_event \<Rightarrow> contended \<Rightarrow> contended" where
  "contended_guess l conf max_depth ev s0 =
    (let k = ne_object_id ev; now = ne_ts_ns ev; delta = gap_update l (cs_last s0) now (cs_delta s0);
         mk = markov_observe ev (cs_mk s0); s = s0\<lparr>cs_delta := delta, cs_last := Some now, cs_mk := mk\<rparr> in
     case chain_ahead mk k (lead_depth l delta max_depth) conf of
       None \<Rightarrow> s
     | Some pid \<Rightarrow>
         (if pid \<noteq> k \<and> \<not> ready_contains pid (cs_cache s) then
            (case fetch_prefetch now (cs_link s) of
               (lk, done') \<Rightarrow>
                 s\<lparr>cs_link := lk, cs_cache := ready_insert pid done' True (cs_cache s),
                   cs_report := cs_report s\<lparr>cd_pf_issued := cd_pf_issued (cs_report s) + 1\<rparr>\<rparr>)
          else s))"

definition discipline_of :: "link_policy \<Rightarrow> discipline" where
  "discipline_of policy = (case policy of LeadGated d \<Rightarrow> d | _ \<Rightarrow> Fifo)"

definition contended_step :: "real \<Rightarrow> link_policy \<Rightarrow> real \<Rightarrow> nat \<Rightarrow> norm_event \<Rightarrow> contended \<Rightarrow> contended" where
  "contended_step l policy conf max_depth ev s =
    (case ne_op ev of
       Put \<Rightarrow> s\<lparr>cs_cache := ready_invalidate (ne_object_id ev) (cs_cache s)\<rparr>
     | Delete \<Rightarrow> s\<lparr>cs_cache := ready_invalidate (ne_object_id ev) (cs_cache s)\<rparr>
     | Head \<Rightarrow> s
     | Other \<Rightarrow> s
     | Get \<Rightarrow>
         (let s1 = contended_read policy (discipline_of policy) ev s in
          case policy of LeadGated _ \<Rightarrow> contended_guess l conf max_depth ev s1 | _ \<Rightarrow> s1))"

definition run_contended :: "norm_event list \<Rightarrow> u64 \<Rightarrow> link_cfg \<Rightarrow> link_policy \<Rightarrow> real \<Rightarrow> nat \<Rightarrow> contended_report" where
  "run_contended trace cap cfg policy conf max_depth =
    (let l = fetch_l (fetch_ns cfg) in
     cs_report (fold (contended_step l policy conf max_depth) trace
       \<lparr>cs_link = link_new cfg, cs_cache = ready_new cap, cs_mk = markov_with_order 1 1, cs_report = contended_default,
        cs_delta = l, cs_last = None\<rparr>))"

section \<open>Priority creates no bandwidth\<close>

text \<open>Requests to the link, in the order they are made, and when each fetch is done.\<close>

datatype link_request = DemandAt u64 | PrefetchAt u64

fun link_step :: "discipline \<Rightarrow> link_request \<Rightarrow> link \<Rightarrow> link \<times> u64" where
  "link_step disc (DemandAt now) k = (case fetch_demand now disc k of (k1, d, _) \<Rightarrow> (k1, d))"
| "link_step disc (PrefetchAt now) k = fetch_prefetch now k"

fun link_run :: "discipline \<Rightarrow> link_request list \<Rightarrow> link \<Rightarrow> link \<times> u64 list" where
  "link_run disc [] k = (k, [])"
| "link_run disc (x # xs) k =
    (case link_step disc x k of (k1, d) \<Rightarrow> (case link_run disc xs k1 of (k2, ds) \<Rightarrow> (k2, d # ds)))"

definition links_match :: "link \<Rightarrow> link \<Rightarrow> bool" where
  "links_match k k' \<longleftrightarrow> lk_any_free k' = lk_any_free k \<and> lk_transfer k' = lk_transfer k \<and> lk_rtt k' = lk_rtt k
     \<and> lk_demand_free k' \<le> lk_any_free k"

lemma link_step_match:
  assumes "links_match k k'" and "link_step Fifo x k = (k1, d)" and "link_step DemandPriority x k' = (k1', d')"
  shows "links_match k1 k1'" and "d' \<le> d" and "lk_any_free k \<le> lk_any_free k1" and "d \<le> lk_any_free k1"
proof -
  have m: "lk_any_free k' = lk_any_free k" "lk_transfer k' = lk_transfer k" "lk_rtt k' = lk_rtt k"
      "lk_demand_free k' \<le> lk_any_free k" using assms(1) by (simp_all add: links_match_def)
  have "links_match k1 k1' \<and> d' \<le> d \<and> lk_any_free k \<le> lk_any_free k1 \<and> d \<le> lk_any_free k1"
  proof (cases x)
    case (PrefetchAt now)
    then show ?thesis using assms(2,3) m
      by (auto simp: links_match_def fetch_prefetch_def Let_def max_def)
  next
    case (DemandAt now)
    let ?t = "sat_add now (lk_rtt k)" and ?a = "lk_any_free k" and ?tr = "lk_transfer k"
    have d: "d = sat_add (max ?t ?a) ?tr" and d': "d' = sat_add (max ?t (lk_demand_free k')) ?tr"
      using DemandAt assms(2,3) m by (auto simp: fetch_demand_def Let_def)
    have le: "d' \<le> d" unfolding d d' using m(4) by (intro sat_add_mono) (auto simp: max_def)
    have ge: "max ?t ?a \<le> d" unfolding d by (rule sat_add_ge)
    have "lk_any_free k1 = d" "lk_any_free k1' = d" "lk_demand_free k1' = max (lk_demand_free k') d'"
        "lk_transfer k1 = ?tr" "lk_transfer k1' = ?tr" "lk_rtt k1 = lk_rtt k" "lk_rtt k1' = lk_rtt k"
      using DemandAt assms(2,3) m le by (auto simp: fetch_demand_def Let_def d d' max.commute max_def)
    then show ?thesis using le ge m(4) by (auto simp: links_match_def)
  qed
  then show "links_match k1 k1'" and "d' \<le> d" and "lk_any_free k \<le> lk_any_free k1" and "d \<le> lk_any_free k1" by auto
qed

lemma link_run_match:
  assumes "links_match k k'"
  shows "lk_any_free (fst (link_run DemandPriority xs k')) = lk_any_free (fst (link_run Fifo xs k))
     \<and> list_all2 (\<le>) (snd (link_run DemandPriority xs k')) (snd (link_run Fifo xs k))"
  using assms
proof (induction xs arbitrary: k k')
  case Nil
  then show ?case by (simp add: links_match_def)
next
  case (Cons x xs)
  obtain k1 d where s: "link_step Fifo x k = (k1, d)" by force
  obtain k1' d' where s': "link_step DemandPriority x k' = (k1', d')" by force
  show ?case using Cons.IH [OF link_step_match(1) [OF Cons.prems s s']] link_step_match(2) [OF Cons.prems s s']
    by (simp add: s s' split_beta)
qed

text \<open>A cache without its landing times, and a run without its waits: what is left does not depend on the discipline.\<close>

definition erase :: "ready_lru \<Rightarrow> ready_lru" where
  "erase c = c\<lparr>rl_by_id := fmmap (\<lambda>e. e\<lparr>rd_ready := 0\<rparr>) (rl_by_id c)\<rparr>"

lemma fmlen_fmmap [simp]: "fmlen (fmmap f m) = fmlen m"
  by (simp add: fmlen_def)

lemma erase_sel [simp]: "rl_order (erase c) = rl_order c" "rl_clock (erase c) = rl_clock c" "rl_cap (erase c) = rl_cap c"
    "rl_by_id (erase c) = fmmap (\<lambda>e. e\<lparr>rd_ready := 0\<rparr>) (rl_by_id c)"
  by (simp_all add: erase_def)

lemma clear_seq [simp]: "e\<lparr>rd_ready := 0, rd_seq := n\<rparr> = e\<lparr>rd_seq := n, rd_ready := 0\<rparr>"
  by (cases e) simp

lemma ready_touch_erase: "ready_touch k (erase c) = map_prod erase (map_option (\<lambda>_. 0)) (ready_touch k c)"
  by (cases c) (auto simp: ready_touch_def erase_def Let_def fmmap_fmupd split: option.split)

lemma ready_insert_erase: "ready_insert k 0 pf (erase c) = erase (ready_insert k r pf c)"
proof (cases "fmlookup (rl_by_id c) k")
  case None
  then show ?thesis
    by (cases c) (auto simp: ready_insert_def ready_touch_def Let_def erase_def fmlen_upd intro!: fmap_ext split: list.split)
next
  case (Some e)
  then show ?thesis
    by (cases c) (simp add: ready_insert_def ready_touch_def Let_def erase_def fmmap_fmupd)
qed

lemma ready_invalidate_erase: "ready_invalidate k (erase c) = erase (ready_invalidate k c)"
  by (cases c) (auto simp: ready_invalidate_def erase_def split: option.split)

lemma erase_push_back [simp]: "erase (push_back_prefetches cutoff delta c) = erase c"
proof -
  have "(push_back cutoff delta e)\<lparr>rd_ready := 0\<rparr> = e\<lparr>rd_ready := 0\<rparr>" for e by (simp add: push_back_def)
  then have eq: "fmmap (\<lambda>e. e\<lparr>rd_ready := 0\<rparr>) (fmmap (push_back cutoff delta) m) = fmmap (\<lambda>e. e\<lparr>rd_ready := 0\<rparr>) m" for m
    by (intro fmap_ext) (simp add: option.map_comp comp_def)
  show ?thesis by (simp add: erase_def push_back_prefetches_def eq)
qed

definition counts :: "contended_report \<Rightarrow> nat \<times> nat \<times> nat" where
  "counts r = (cd_accesses r, cd_demand_fetches r, cd_pf_issued r)"

definition alike :: "contended \<Rightarrow> contended \<Rightarrow> bool" where
  "alike s s' \<longleftrightarrow> links_match (cs_link s) (cs_link s') \<and> erase (cs_cache s') = erase (cs_cache s) \<and> cs_mk s' = cs_mk s
     \<and> cs_delta s' = cs_delta s \<and> cs_last s' = cs_last s \<and> counts (cs_report s') = counts (cs_report s)"

lemma erase_touch:
  assumes "erase c' = erase c"
  shows "erase (fst (ready_touch k c')) = erase (fst (ready_touch k c))"
    and "snd (ready_touch k c') = None \<longleftrightarrow> snd (ready_touch k c) = None"
proof -
  have "map_prod erase (map_option (\<lambda>_. 0 :: u64)) (ready_touch k c') = map_prod erase (map_option (\<lambda>_. 0)) (ready_touch k c)"
    using ready_touch_erase [of k c'] ready_touch_erase [of k c] assms by simp
  then show "erase (fst (ready_touch k c')) = erase (fst (ready_touch k c))"
    and "snd (ready_touch k c') = None \<longleftrightarrow> snd (ready_touch k c) = None"
    by (cases "ready_touch k c"; cases "ready_touch k c'"; force)+
qed

lemma erase_insert: "erase c' = erase c \<Longrightarrow> erase (ready_insert k r' pf c') = erase (ready_insert k r pf c)"
  by (metis ready_insert_erase)

lemma erase_contains: "erase c' = erase c \<Longrightarrow> ready_contains k c' = ready_contains k c"
proof -
  assume "erase c' = erase c"
  then have "fmlookup (rl_by_id (erase c')) k = fmlookup (rl_by_id (erase c)) k" by simp
  then show ?thesis by (cases "fmlookup (rl_by_id c') k"; cases "fmlookup (rl_by_id c) k") (simp_all add: ready_contains_def)
qed

lemma alike_demand_fetch:
  assumes "alike s s'"
  shows "alike (fst (demand_fetch Fifo now s)) (fst (demand_fetch DemandPriority now s'))"
proof -
  obtain k d p where f: "fetch_demand now Fifo (cs_link s) = (k, d, p)" by (metis prod_cases3)
  obtain k' d' p' where f': "fetch_demand now DemandPriority (cs_link s') = (k', d', p')" by (metis prod_cases3)
  have "links_match k k'"
    using link_step_match(1) [of "cs_link s" "cs_link s'" "DemandAt now" k d k' d'] assms by (simp add: alike_def f f')
  then show ?thesis using assms
    by (auto simp: demand_fetch_def f f' alike_def Let_def counts_def wait_def split: option.split)
qed

lemma alike_read:
  assumes "alike s s'"
  shows "alike (contended_read (LeadGated d) Fifo ev s) (contended_read (LeadGated d') DemandPriority ev s')"
proof -
  let ?b = "\<lambda>s. s\<lparr>cs_report := cs_report s\<lparr>cd_accesses := cd_accesses (cs_report s) + 1\<rparr>\<rparr>"
  let ?k = "ne_object_id ev" and ?now = "ne_ts_ns ev"
  have b: "alike (?b s) (?b s')" using assms by (simp add: alike_def counts_def)
  have e: "erase (cs_cache s') = erase (cs_cache s)" using assms by (simp add: alike_def)
  obtain c r where t: "ready_touch ?k (cs_cache s) = (c, r)" by force
  obtain c' r' where t': "ready_touch ?k (cs_cache s') = (c', r')" by force
  have c: "erase c' = erase c" and r: "r' = None \<longleftrightarrow> r = None" using erase_touch [OF e, of ?k] by (simp_all add: t t')
  show ?thesis
  proof (cases r)
    case None
    have a: "alike (fst (demand_fetch Fifo ?now (?b s))) (fst (demand_fetch DemandPriority ?now (?b s')))"
      by (rule alike_demand_fetch [OF b])
    then show ?thesis using None r
      by (simp add: contended_read_def Let_def t t' split_beta alike_def erase_insert)
  next
    case (Some x)
    with r obtain x' where "r' = Some x'" by auto
    then show ?thesis using Some b c
      by (simp add: contended_read_def Let_def t t' alike_def counts_def wait_def)
  qed
qed

lemma alike_guess:
  assumes "alike s s'"
  shows "alike (contended_guess l conf n ev s) (contended_guess l conf n ev s')"
proof -
  have m: "links_match (cs_link s) (cs_link s')" and e: "erase (cs_cache s') = erase (cs_cache s)"
    using assms by (simp_all add: alike_def)
  obtain k d where f: "fetch_prefetch (ne_ts_ns ev) (cs_link s) = (k, d)" by force
  obtain k' d' where f': "fetch_prefetch (ne_ts_ns ev) (cs_link s') = (k', d')" by force
  have "links_match k k'" using link_step_match(1) [OF m, of "PrefetchAt (ne_ts_ns ev)"] by (simp add: f f')
  then show ?thesis using assms
    by (simp add: contended_guess_def Let_def alike_def f f' counts_def erase_contains [OF e] erase_insert [OF e] split: option.split)
qed

lemma alike_run:
  assumes "alike s s'"
  shows "alike (fold (contended_step l (LeadGated Fifo) conf n) trace s)
    (fold (contended_step l (LeadGated DemandPriority) conf n) trace s')"
  using assms
proof (induction trace arbitrary: s s')
  case (Cons ev trace)
  have "erase (ready_invalidate k (cs_cache s')) = erase (ready_invalidate k (cs_cache s))" for k
    using Cons.prems by (simp add: alike_def ready_invalidate_erase [symmetric])
  then have "alike (contended_step l (LeadGated Fifo) conf n ev s) (contended_step l (LeadGated DemandPriority) conf n ev s')"
    using Cons.prems alike_guess [OF alike_read [OF Cons.prems]]
    by (cases "ne_op ev") (simp_all add: contended_step_def discipline_of_def alike_def)
  then show ?case using Cons.IH by simp
qed simp

lemma fifo_pushes_nothing: "snd (snd (fetch_demand now Fifo k)) = None"
  by (auto simp: fetch_demand_def Let_def max_def dest: less_imp_le)

text \<open>C25: priority creates no bandwidth. For any link and any interleaving of demand fetches and prefetches,
  the link is busy until the same moment under both disciplines, and with priority no fetch is given a
  later completion when it is made than it is given in one queue. A lead-gated replay of any trace reads,
  fetches and prefetches the same number of objects under both, whatever is pushed back on the way.\<close>

theorem priority_conserves_work:
  "lk_any_free (fst (link_run DemandPriority xs (link_new cfg))) = lk_any_free (fst (link_run Fifo xs (link_new cfg)))
     \<and> list_all2 (\<le>) (snd (link_run DemandPriority xs (link_new cfg))) (snd (link_run Fifo xs (link_new cfg)))
     \<and> counts (run_contended trace cap cfg (LeadGated DemandPriority) conf n)
         = counts (run_contended trace cap cfg (LeadGated Fifo) conf n)"
proof -
  have m: "links_match (link_new cfg) (link_new cfg)" by (simp add: links_match_def link_new_def)
  let ?s = "\<lparr>cs_link = link_new cfg, cs_cache = ready_new cap, cs_mk = markov_with_order 1 1,
    cs_report = contended_default, cs_delta = fetch_l (fetch_ns cfg), cs_last = None\<rparr>"
  have "alike ?s ?s" using m by (simp add: alike_def)
  from alike_run [OF this] link_run_match [OF m] show ?thesis by (simp add: run_contended_def Let_def alike_def)
qed

end
