(* ===== verification/HybridProps.thy ===== *)
theory HybridProps
  imports Hybrid
begin

text \<open>
  What the hybrid policies of \<open>Hybrid\<close> guarantee. A segment is a plain recency list; the pool keeps its
  capacity and the share of unused prefetches; the token bucket bounds what a run wastes; the latency
  it claims is at most the instant upper bound; and while it prefetches nothing it is plain LRU.
\<close>

section \<open>An account\<close>

text \<open>
  A run whose steps pay for what they spend out of a balance that is never negative spends at most what
  it began with and what it earned. The potential argument, once for all runs.
\<close>

locale account =
  fixes step :: "'e \<Rightarrow> 's \<Rightarrow> 's" and balance :: "'s \<Rightarrow> real" and spent :: "'s \<Rightarrow> real" and earned :: "'s \<Rightarrow> real"
    and solvent :: "'s \<Rightarrow> bool"
  assumes stays_solvent: "solvent s \<Longrightarrow> solvent (step e s)"
    and not_negative: "solvent s \<Longrightarrow> 0 \<le> balance s"
    and pays: "solvent s \<Longrightarrow> balance (step e s) + spent (step e s) - spent s \<le> balance s + earned (step e s) - earned s"
begin

lemma books_balance:
  "solvent s \<Longrightarrow> solvent (fold step es s)
    \<and> balance (fold step es s) + spent (fold step es s) - spent s \<le> balance s + earned (fold step es s) - earned s"
proof (induction es arbitrary: s)
  case (Cons e es)
  note ih = Cons.IH [OF stays_solvent [OF Cons.prems, of e]] and p = pays [OF Cons.prems, of e]
  have "balance (fold step (e # es) s) + spent (fold step (e # es) s) - spent s \<le> balance s + earned (fold step (e # es) s) - earned s"
    using ih p by (simp only: fold_simps) linarith
  then show ?case using ih by simp
qed simp

lemma spends_within:
  assumes "solvent s"
  shows "spent (fold step es s) \<le> spent s + balance s + earned (fold step es s) - earned s"
  using books_balance [OF assms, of es] not_negative [of "fold step es s"] by simp

end

section \<open>A segment is a recency list\<close>

definition seg_lru :: "seg \<Rightarrow> lru_list" where
  "seg_lru s = \<lparr>ll_stamp = fmmap en_seq (sg_by_id s), ll_order = sg_order s, ll_next = sg_clock s + 1\<rparr>"

definition seg_keys :: "seg \<Rightarrow> string list" where "seg_keys s = lru_keys (seg_lru s)"

text \<open>The objects, least recently used first, each with whether it is a prefetch not used yet.\<close>

definition seg_items :: "seg \<Rightarrow> (string \<times> bool) list" where
  "seg_items s = map (\<lambda>k. (k, seg_unused s k)) (seg_keys s)"

definition seg_ok :: "nat \<Rightarrow> seg \<Rightarrow> bool" where
  "seg_ok n s \<longleftrightarrow> lru_ok (seg_lru s) \<and> unat (sg_clock s) \<le> n"

definition others :: "string \<Rightarrow> (string \<times> bool) list \<Rightarrow> (string \<times> bool) list" where
  "others k xs = filter (\<lambda>x. fst x \<noteq> k) xs"

lemma seg_ok_new: "seg_ok 0 seg_new" "seg_items seg_new = []"
  by (simp_all add: seg_ok_def seg_new_def seg_lru_def lru_ok_def seg_items_def seg_keys_def lru_keys_def)

lemma seg_ok_mono: "seg_ok n s \<Longrightarrow> n \<le> m \<Longrightarrow> seg_ok m s"
  by (simp add: seg_ok_def)

lemma seg_key_iff: "seg_ok n s \<Longrightarrow> k \<in> set (seg_keys s) \<longleftrightarrow> fmlookup (sg_by_id s) k \<noteq> None"
  using lru_keys_mem [of "seg_lru s" k] by (simp add: seg_ok_def seg_keys_def) (simp add: seg_lru_def)

lemma fst_seg_items [simp]: "map fst (seg_items s) = seg_keys s"
  by (simp add: seg_items_def comp_def)

lemma distinct_seg_items: "seg_ok n s \<Longrightarrow> distinct (map fst (seg_items s))"
  by (simp add: seg_ok_def seg_keys_def distinct_lru_keys)

lemma seg_len_items: "seg_ok n s \<Longrightarrow> seg_len s = length (seg_items s)"
  using lru_len_keys [of "seg_lru s"]
  by (simp add: seg_ok_def seg_items_def seg_keys_def lru_len_def seg_len_def seg_lru_def fmlen_def)

lemma seg_item_iff: "seg_ok n s \<Longrightarrow> (k, f) \<in> set (seg_items s) \<longleftrightarrow> (\<exists>e. fmlookup (sg_by_id s) k = Some e \<and> en_pf_unused e = f)"
  using seg_key_iff [of n s k] by (auto simp: seg_items_def seg_unused_def split: option.splits)

lemma fmupd_drop [simp]: "fmupd k v (fmmap f (fmdrop k m)) = fmupd k v (fmmap f m)"
  by (rule fmap_ext) simp

text \<open>Stamping an object, after its old stamp is gone, is a touch.\<close>

definition unstamped :: "string \<Rightarrow> seg \<Rightarrow> seg" where
  "unstamped k s = (case fmlookup (sg_by_id s) k of None \<Rightarrow> s | Some e \<Rightarrow> s\<lparr>sg_order := fmdrop (en_seq e) (sg_order s)\<rparr>)"

lemma seg_stamp_lru: "seg_lru (seg_stamp k e (unstamped k s)) = lru_touch k (seg_lru s)"
  by (cases s) (auto simp: seg_lru_def seg_stamp_def unstamped_def lru_touch_def lru_remove_def Let_def fmmap_fmupd split: option.split)

lemma seg_stamp_ok:
  assumes "seg_ok n s" and "n + 2 < 2 ^ 64"
  shows "seg_ok (Suc n) (seg_stamp k e (unstamped k s))"
    and "seg_items (seg_stamp k e (unstamped k s)) = others k (seg_items s) @ [(k, en_pf_unused e)]"
proof -
  let ?s = "seg_stamp k e (unstamped k s)"
  have ok: "lru_ok (seg_lru s)" and c: "unat (sg_clock s) + 2 < 2 ^ 64" using assms by (simp_all add: seg_ok_def)
  have n: "unat (sg_clock s + 1) = Suc (unat (sg_clock s))" using c by (simp add: unat_word_ariths)
  have "unat (ll_next (seg_lru s)) + 1 < 2 ^ 64" using c n by (simp add: seg_lru_def)
  note t = lru_touch_ok [OF ok this, of k]
  have "sg_clock ?s = sg_clock s + 1" by (simp add: seg_stamp_def unstamped_def Let_def split: option.split)
  then show "seg_ok (Suc n) ?s" using t(1) n assms(1) by (simp add: seg_ok_def seg_stamp_lru)
  have u: "seg_unused ?s j = (if j = k then en_pf_unused e else seg_unused s j)" for j
    by (simp add: seg_unused_def seg_stamp_def unstamped_def Let_def split: option.split)
  have "seg_keys ?s = filter (\<lambda>x. x \<noteq> k) (seg_keys s) @ [k]" using t(2) by (simp add: seg_keys_def seg_stamp_lru)
  then show "seg_items ?s = others k (seg_items s) @ [(k, en_pf_unused e)]"
    by (auto simp: seg_items_def u others_def filter_map comp_def)
qed

lemma others_id: "k \<notin> fst ` set xs \<Longrightarrow> others k xs = xs"
  by (force simp: others_def filter_id_conv)

lemma seg_push_ok:
  assumes "seg_ok n s" and "n + 2 < 2 ^ 64" and "fmlookup (sg_by_id s) k = None"
  shows "seg_ok (Suc n) (seg_push k pf ts s)" and "seg_items (seg_push k pf ts s) = seg_items s @ [(k, pf)]"
proof -
  have u: "unstamped k s = s" using assms(3) by (simp add: unstamped_def)
  have "k \<notin> fst ` set (seg_items s)" using seg_key_iff [OF assms(1), of k] assms(3) by (metis fst_seg_items set_map)
  then show "seg_ok (Suc n) (seg_push k pf ts s)" and "seg_items (seg_push k pf ts s) = seg_items s @ [(k, pf)]"
    using seg_stamp_ok [OF assms(1,2), of k "\<lparr>en_seq = 0, en_pf_unused = pf, en_issue_ts = ts\<rparr>"]
    by (simp_all add: seg_push_def u others_id)
qed

lemma seg_touch_ok:
  assumes "seg_ok n s" and "n + 2 < 2 ^ 64" and "seg_touch k s = (s', r)"
  shows "seg_ok (Suc n) s'"
    and "case r of None \<Rightarrow> k \<notin> set (seg_keys s) \<and> s' = s
      | Some (pf, ts) \<Rightarrow> (k, pf) \<in> set (seg_items s) \<and> seg_items s' = others k (seg_items s) @ [(k, False)]"
proof -
  have "seg_ok (Suc n) s' \<and> (case r of None \<Rightarrow> k \<notin> set (seg_keys s) \<and> s' = s
      | Some (pf, ts) \<Rightarrow> (k, pf) \<in> set (seg_items s) \<and> seg_items s' = others k (seg_items s) @ [(k, False)])"
  proof (cases "fmlookup (sg_by_id s) k")
    case None
    then show ?thesis using assms seg_key_iff [OF assms(1), of k] seg_ok_mono [OF assms(1), of "Suc n"]
      by (auto simp: seg_touch_def)
  next
    case (Some e)
    have s': "s' = seg_stamp k (e\<lparr>en_pf_unused := False\<rparr>) (unstamped k s)" and r: "r = Some (en_pf_unused e, en_issue_ts e)"
      using assms(3) Some by (auto simp: seg_touch_def unstamped_def)
    show ?thesis using seg_stamp_ok [OF assms(1,2), of k "e\<lparr>en_pf_unused := False\<rparr>"] seg_item_iff [OF assms(1)] Some
      by (auto simp: s' r)
  qed
  then show "seg_ok (Suc n) s'"
    and "case r of None \<Rightarrow> k \<notin> set (seg_keys s) \<and> s' = s
      | Some (pf, ts) \<Rightarrow> (k, pf) \<in> set (seg_items s) \<and> seg_items s' = others k (seg_items s) @ [(k, False)]" by blast+
qed

lemma seg_bump_ok:
  assumes "seg_ok n s" and "n + 2 < 2 ^ 64" and "seg_bump k s = (s', r)"
  shows "seg_ok (Suc n) s'"
    and "if r then (\<exists>f. (k, f) \<in> set (seg_items s) \<and> seg_items s' = others k (seg_items s) @ [(k, f)])
      else fmlookup (sg_by_id s) k = None \<and> s' = s"
proof -
  have "seg_ok (Suc n) s' \<and> (if r then (\<exists>f. (k, f) \<in> set (seg_items s) \<and> seg_items s' = others k (seg_items s) @ [(k, f)])
      else fmlookup (sg_by_id s) k = None \<and> s' = s)"
  proof (cases "fmlookup (sg_by_id s) k")
    case None
    then show ?thesis using assms seg_ok_mono [OF assms(1), of "Suc n"] by (auto simp: seg_bump_def)
  next
    case (Some e)
    have s': "s' = seg_stamp k e (unstamped k s)" and r: "r"
      using assms(3) Some by (auto simp: seg_bump_def unstamped_def)
    show ?thesis using seg_stamp_ok [OF assms(1,2), of k e] seg_item_iff [OF assms(1)] Some
      by (auto simp: s' r)
  qed
  then show "seg_ok (Suc n) s'"
    and "if r then (\<exists>f. (k, f) \<in> set (seg_items s) \<and> seg_items s' = others k (seg_items s) @ [(k, f)])
      else fmlookup (sg_by_id s) k = None \<and> s' = s" by blast+
qed

lemma seg_remove_ok:
  assumes "seg_ok n s" and "seg_remove k s = (s', r)"
  shows "seg_ok n s'" and "seg_items s' = others k (seg_items s)"
    and "case r of None \<Rightarrow> k \<notin> set (seg_keys s) \<and> s' = s | Some e \<Rightarrow> (k, en_pf_unused e) \<in> set (seg_items s)"
proof -
  have ok: "lru_ok (seg_lru s)" using assms(1) by (simp add: seg_ok_def)
  have l: "seg_lru s' = fst (lru_remove k (seg_lru s))"
    using assms(2) by (cases s) (auto simp: seg_remove_def seg_lru_def lru_remove_def split: option.splits)
  have c: "sg_clock s' = sg_clock s" using assms(2) by (auto simp: seg_remove_def split: option.splits)
  show "seg_ok n s'" using lru_remove_ok(1) [OF ok, of k] assms(1) by (simp add: seg_ok_def l c)
  have u: "seg_unused s' j = seg_unused s j" if "j \<noteq> k" for j
    using assms(2) that by (auto simp: seg_remove_def seg_unused_def split: option.splits)
  have "seg_keys s' = filter (\<lambda>x. x \<noteq> k) (seg_keys s)" using lru_remove_ok(2) [OF ok, of k] by (simp add: seg_keys_def l)
  then show "seg_items s' = others k (seg_items s)" by (auto simp: seg_items_def others_def filter_map comp_def u)
  show "case r of None \<Rightarrow> k \<notin> set (seg_keys s) \<and> s' = s | Some e \<Rightarrow> (k, en_pf_unused e) \<in> set (seg_items s)"
    using assms(2) seg_key_iff [OF assms(1), of k] seg_item_iff [OF assms(1)]
    by (auto simp: seg_remove_def split: option.splits)
qed

lemma seg_pop_ok:
  assumes "seg_ok n s" and "seg_pop_lru s = (s', r)"
  shows "seg_ok n s'"
    and "case seg_items s of [] \<Rightarrow> r = None \<and> s' = s
      | (k, f) # xs \<Rightarrow> seg_items s' = xs \<and> (\<exists>e. r = Some (k, e) \<and> en_pf_unused e = f)"
proof -
  have ok: "lru_ok (seg_lru s)" using assms(1) by (simp add: seg_ok_def)
  have "seg_ok n s' \<and> (case seg_items s of [] \<Rightarrow> r = None \<and> s' = s
      | (k, f) # xs \<Rightarrow> seg_items s' = xs \<and> (\<exists>e. r = Some (k, e) \<and> en_pf_unused e = f))"
  proof (cases "sorted_list_of_fmap (sg_order s)")
    case Nil
    then show ?thesis using assms by (simp add: seg_pop_lru_def seg_items_def seg_keys_def lru_keys_def seg_lru_def)
  next
    case (Cons p rest)
    obtain seq k where p: "p = (seq, k)" by force
    have "fmlookup (ll_order (seg_lru s)) seq = Some k" using order_front [of "sg_order s" seq k rest] Cons by (simp add: p seg_lru_def)
    then have "fmlookup (ll_stamp (seg_lru s)) k = Some seq" by (simp add: lru_okD [OF ok])
    then obtain e where e: "fmlookup (sg_by_id s) k = Some e" "en_seq e = seq" by (auto simp: seg_lru_def)
    have s': "s' = fst (seg_remove k s)" and r: "r = Some (k, e)"
      using assms(2) e by (auto simp: seg_pop_lru_def seg_remove_def Cons p)
    have keys: "seg_keys s = k # map snd rest" by (simp add: seg_keys_def lru_keys_def seg_lru_def Cons p)
    then have items: "seg_items s = (k, en_pf_unused e) # tl (seg_items s)" using e by (simp add: seg_items_def seg_unused_def)
    then have "k \<notin> fst ` set (tl (seg_items s))" using distinct_seg_items [OF assms(1)]
      by (metis distinct.simps(2) fst_conv list.set_map list.simps(9))
    moreover have "others k (seg_items s) = others k (tl (seg_items s))"
      by (subst items) (simp add: others_def)
    ultimately have "others k (seg_items s) = tl (seg_items s)" by (simp add: others_id)
    moreover obtain x where "seg_remove k s = (s', x)" using s' by (metis prod.collapse)
    ultimately have "seg_ok n s'" "seg_items s' = tl (seg_items s)" using seg_remove_ok [OF assms(1)] by metis+
    then show ?thesis by (subst items) (simp add: r)
  qed
  then show "seg_ok n s'"
    and "case seg_items s of [] \<Rightarrow> r = None \<and> s' = s
      | (k, f) # xs \<Rightarrow> seg_items s' = xs \<and> (\<exists>e. r = Some (k, e) \<and> en_pf_unused e = f)" by blast+
qed

lemma seg_pop_unused_ok:
  assumes "seg_ok n s" and "seg_pop_lru_pf_unused s = (s', r)"
  shows "seg_ok n s'"
    and "case r of None \<Rightarrow> s' = s \<and> list_all (\<lambda>x. \<not> snd x) (seg_items s)
      | Some (k, e) \<Rightarrow> (k, True) \<in> set (seg_items s) \<and> seg_items s' = others k (seg_items s)"
proof -
  have keys: "map snd (sorted_list_of_fmap (sg_order s)) = seg_keys s" by (simp add: seg_keys_def lru_keys_def seg_lru_def)
  have "seg_ok n s' \<and> (case r of None \<Rightarrow> s' = s \<and> list_all (\<lambda>x. \<not> snd x) (seg_items s)
      | Some (k, e) \<Rightarrow> (k, True) \<in> set (seg_items s) \<and> seg_items s' = others k (seg_items s))"
  proof (cases "find (seg_unused s) (seg_keys s)")
    case None
    then have "s' = s" "r = None" using assms(2) by (simp_all add: seg_pop_lru_pf_unused_def keys)
    moreover have "list_all (\<lambda>x. \<not> snd x) (seg_items s)"
      using None by (auto simp: find_None_iff seg_items_def list_all_iff)
    ultimately show ?thesis using assms(1) by simp
  next
    case (Some k)
    then have u: "seg_unused s k" "k \<in> set (seg_keys s)" by (auto simp: find_Some_iff)
    obtain s1 x where rm: "seg_remove k s = (s1, x)" by force
    have r: "s' = s1" "r = map_option (Pair k) x" using assms(2) Some by (simp_all add: seg_pop_lru_pf_unused_def keys rm)
    note o = seg_remove_ok [OF assms(1) rm]
    from o(3) u(2) obtain e where "x = Some e" by (cases x) auto
    moreover have "(k, True) \<in> set (seg_items s)" using u by (auto simp: seg_items_def)
    ultimately show ?thesis using o(1,2) by (simp add: r)
  qed
  then show "seg_ok n s'"
    and "case r of None \<Rightarrow> s' = s \<and> list_all (\<lambda>x. \<not> snd x) (seg_items s)
      | Some (k, e) \<Rightarrow> (k, True) \<in> set (seg_items s) \<and> seg_items s' = others k (seg_items s)" by blast+
qed

section \<open>The pool\<close>

definition unused :: "(string \<times> bool) list \<Rightarrow> nat" where
  "unused xs = length (filter snd xs)"

lemma unused_simps [simp]: "unused [] = 0" "unused (x # xs) = (if snd x then 1 else 0) + unused xs"
    "unused (xs @ ys) = unused xs + unused ys"
  by (simp_all add: unused_def)

lemma unused_others:
  "distinct (map fst xs) \<Longrightarrow> (k, f) \<in> set xs \<Longrightarrow> unused (others k xs) + (if f then 1 else 0) = unused xs"
proof (induction xs)
  case (Cons x xs)
  obtain j g where x: "x = (j, g)" by force
  have "others k xs = xs" if "k \<notin> fst ` set xs" using others_id that by blast
  with Cons show ?case by (cases "j = k") (auto simp: x others_def image_iff)
qed simp

lemma length_others: "length (others k xs) \<le> length xs"
  by (simp add: others_def)

lemma length_others_mem: "k \<in> fst ` set xs \<Longrightarrow> length (others k xs) < length xs"
  unfolding others_def by (metis (mono_tags, lifting) image_iff length_filter_less)

text \<open>The counter is exact, and the budget is at least one and within its maximum.\<close>

definition pool_wf :: "nat \<Rightarrow> adaptive_pool \<Rightarrow> bool" where
  "pool_wf n p \<longleftrightarrow> seg_ok n (po_seg p) \<and> po_pf_unused p = unused (seg_items (po_seg p))
     \<and> 1 \<le> po_pf_budget p \<and> po_pf_budget p \<le> po_budget_max p"

definition pool_ok :: "nat \<Rightarrow> adaptive_pool \<Rightarrow> bool" where
  "pool_ok n p \<longleftrightarrow> pool_wf n p \<and> length (seg_items (po_seg p)) \<le> po_cap p \<and> po_pf_unused p \<le> po_budget_max p"

text \<open>What the pool keeps of its settings.\<close>

definition settings :: "adaptive_pool \<Rightarrow> nat \<times> nat \<times> nat" where
  "settings p = (po_cap p, po_pf_budget p, po_budget_max p)"

lemma trim_prefetches_ok:
  "pool_wf n p \<Longrightarrow> po_pf_unused p \<le> m \<Longrightarrow>
    pool_wf n (trim_prefetches m p) \<and> po_pf_unused (trim_prefetches m p) \<le> po_pf_budget p
    \<and> po_pf_unused (trim_prefetches m p) \<le> po_pf_unused p \<and> settings (trim_prefetches m p) = settings p
    \<and> length (seg_items (po_seg (trim_prefetches m p))) \<le> length (seg_items (po_seg p))
    \<and> po_pf_drops p \<le> po_pf_drops (trim_prefetches m p)
    \<and> po_pf_unused (trim_prefetches m p) + po_pf_drops (trim_prefetches m p) = po_pf_unused p + po_pf_drops p"
proof (induction m arbitrary: p)
  case 0
  then show ?case by simp
next
  case (Suc m)
  show ?case
  proof (cases "po_pf_budget p < po_pf_unused p")
    case False
    then show ?thesis using Suc.prems by simp
  next
    case True
    have ok: "seg_ok n (po_seg p)" and u: "po_pf_unused p = unused (seg_items (po_seg p))"
      using Suc.prems by (simp_all add: pool_wf_def)
    obtain s r where pop: "seg_pop_lru_pf_unused (po_seg p) = (s, r)" by force
    note o = seg_pop_unused_ok [OF ok pop]
    have "\<not> list_all (\<lambda>x. \<not> snd x) (seg_items (po_seg p))"
    proof
      assume "list_all (\<lambda>x. \<not> snd x) (seg_items (po_seg p))"
      then have "unused (seg_items (po_seg p)) = 0" by (auto simp: unused_def list_all_iff filter_empty_conv)
      with True u show False by simp
    qed
    with o(2) obtain k e where r: "r = Some (k, e)" by (cases r) auto
    with o(2) have k: "(k, True) \<in> set (seg_items (po_seg p))" "seg_items s = others k (seg_items (po_seg p))" by simp_all
    let ?p = "p\<lparr>po_seg := s, po_pf_unused := po_pf_unused p - 1, po_pf_drops := po_pf_drops p + 1\<rparr>"
    have c: "unused (seg_items s) + 1 = po_pf_unused p"
      using unused_others [OF distinct_seg_items [OF ok] k(1)] by (simp add: k(2) u)
    then have wf: "pool_wf n ?p" using Suc.prems o(1) by (auto simp: pool_wf_def)
    have m: "po_pf_unused ?p \<le> m" using Suc.prems(2) True by simp
    have eq: "trim_prefetches (Suc m) p = trim_prefetches m ?p" using True by (simp add: pop r)
    show ?thesis unfolding eq using Suc.IH [OF wf m] c length_others [of k "seg_items (po_seg p)"]
      by (simp add: settings_def k(2))
  qed
qed

lemma trim_pool_ok:
  "pool_wf n p \<Longrightarrow> length (seg_items (po_seg p)) \<le> m \<Longrightarrow>
    pool_wf n (trim_pool m p) \<and> po_pf_unused (trim_pool m p) \<le> po_pf_unused p \<and> settings (trim_pool m p) = settings p
    \<and> seg_items (po_seg (trim_pool m p)) = drop (length (seg_items (po_seg p)) - po_cap p) (seg_items (po_seg p))
    \<and> po_pf_unused (trim_pool m p) + po_pf_drops (trim_pool m p) = po_pf_unused p + po_pf_drops p"
proof (induction m arbitrary: p)
  case 0
  then show ?case by simp
next
  case (Suc m)
  have ok: "seg_ok n (po_seg p)" and u: "po_pf_unused p = unused (seg_items (po_seg p))"
    using Suc.prems by (simp_all add: pool_wf_def)
  show ?case
  proof (cases "po_cap p < seg_len (po_seg p)")
    case False
    then show ?thesis using Suc.prems seg_len_items [OF ok] by simp
  next
    case True
    obtain s r where pop: "seg_pop_lru (po_seg p) = (s, r)" by force
    note o = seg_pop_ok [OF ok pop]
    from True seg_len_items [OF ok] obtain k f xs where it: "seg_items (po_seg p) = (k, f) # xs"
      by (cases "seg_items (po_seg p)") auto
    with o(2) obtain e where r: "r = Some (k, e)" "en_pf_unused e = f" and xs: "seg_items s = xs" by auto
    let ?p = "evict_one p s e"
    have p': "po_seg ?p = s" "settings ?p = settings p" "po_pf_unused ?p = unused xs"
        "po_pf_unused ?p + po_pf_drops ?p = po_pf_unused p + po_pf_drops p" "po_cap ?p = po_cap p"
      using u r by (auto simp: evict_one_def Let_def settings_def it)
    then have wf: "pool_wf n ?p" using Suc.prems o(1) by (auto simp: pool_wf_def settings_def xs)
    have m: "length (seg_items (po_seg ?p)) \<le> m" using Suc.prems(2) p'(1) by (simp add: it xs)
    have eq: "trim_pool (Suc m) p = trim_pool m ?p" using True by (simp add: pop r(1))
    have "po_cap p \<le> length xs" using True seg_len_items [OF ok] by (simp add: it)
    then show ?thesis unfolding eq using Suc.IH [OF wf m] p' u by (simp add: it xs Suc_diff_le)
  qed
qed

lemma pool_fit_ok:
  assumes "pool_wf n p"
  shows "pool_ok n (pool_fit p)" and "settings (pool_fit p) = settings p"
    and "po_pf_unused (pool_fit p) + po_pf_drops (pool_fit p) = po_pf_unused p + po_pf_drops p"
    and "po_pf_unused p = 0 \<Longrightarrow>
      seg_items (po_seg (pool_fit p)) = drop (length (seg_items (po_seg p)) - po_cap p) (seg_items (po_seg p))"
proof -
  let ?q = "trim_prefetches (po_pf_unused p) p"
  note a = trim_prefetches_ok [OF assms order.refl]
  have q: "pool_wf n ?q" using a by blast
  have len: "length (seg_items (po_seg ?q)) \<le> seg_len (po_seg ?q)"
    using seg_len_items [of n "po_seg ?q"] q by (simp add: pool_wf_def)
  note b = trim_pool_ok [OF q len]
  have f: "pool_fit p = trim_pool (seg_len (po_seg ?q)) ?q" by (simp add: pool_fit_def Let_def)
  have "po_pf_budget p \<le> po_budget_max p" using assms by (simp add: pool_wf_def)
  then show "pool_ok n (pool_fit p)" using a b unfolding f by (auto simp: pool_ok_def settings_def)
  show "settings (pool_fit p) = settings p" using a b unfolding f by simp
  show "po_pf_unused (pool_fit p) + po_pf_drops (pool_fit p) = po_pf_unused p + po_pf_drops p"
    using a b unfolding f by simp
  show "seg_items (po_seg (pool_fit p)) = drop (length (seg_items (po_seg p)) - po_cap p) (seg_items (po_seg p))"
    if "po_pf_unused p = 0" using b that unfolding f by simp
qed

lemma pool_okD: "pool_ok n p \<Longrightarrow> seg_ok n (po_seg p)" "pool_ok n p \<Longrightarrow> po_pf_unused p = unused (seg_items (po_seg p))"
    "pool_ok n p \<Longrightarrow> pool_wf n p"
  by (simp_all add: pool_ok_def pool_wf_def)

lemma pool_ok_new: "pool_ok 0 (pool_new cap b)" "po_pf_unused (pool_new cap b) = 0" "po_pf_drops (pool_new cap b) = 0"
    "seg_items (po_seg (pool_new cap b)) = []"
  by (simp_all add: pool_ok_def pool_wf_def pool_new_def seg_ok_new)

lemma pool_access_ok:
  assumes ok: "pool_ok n p" and room: "n + 2 < 2 ^ 64" and a: "pool_access k now p = (p', info)"
  shows "pool_ok (Suc n) p'" and "settings p' = settings p" and "po_pf_drops p' = po_pf_drops p"
    and "po_pf_unused p' + (if ai_pf_first_use info then 1 else 0) = po_pf_unused p"
    and "ai_pf_first_use info \<longrightarrow> ai_hit info" and "ai_hit info \<longleftrightarrow> k \<in> set (seg_keys (po_seg p))"
    and "seg_items (po_seg p') = (if ai_hit info then others k (seg_items (po_seg p)) @ [(k, False)] else seg_items (po_seg p))"
proof -
  obtain s r where t: "seg_touch k (po_seg p) = (s, r)" by force
  note o = seg_touch_ok [OF pool_okD(1) [OF ok] room t]
  have "pool_ok (Suc n) p' \<and> settings p' = settings p \<and> po_pf_drops p' = po_pf_drops p
    \<and> po_pf_unused p' + (if ai_pf_first_use info then 1 else 0) = po_pf_unused p
    \<and> (ai_pf_first_use info \<longrightarrow> ai_hit info) \<and> (ai_hit info \<longleftrightarrow> k \<in> set (seg_keys (po_seg p)))
    \<and> seg_items (po_seg p') = (if ai_hit info then others k (seg_items (po_seg p)) @ [(k, False)] else seg_items (po_seg p))"
  proof (cases r)
    case None
    then have "p' = p" "info = missed" "k \<notin> set (seg_keys (po_seg p))" using a t o(2) by (auto simp: pool_access_def)
    moreover have "pool_ok (Suc n) p" using ok seg_ok_mono [of n _ "Suc n"] by (simp add: pool_ok_def pool_wf_def)
    ultimately show ?thesis by (simp add: missed_def)
  next
    case (Some x)
    obtain f ts where x: "x = (f, ts)" by force
    have i: "(k, f) \<in> set (seg_items (po_seg p))" "seg_items s = others k (seg_items (po_seg p)) @ [(k, False)]"
      using o(2) by (simp_all add: Some x)
    have p': "p' = (if f then p\<lparr>po_seg := s, po_pf_unused := po_pf_unused p - 1\<rparr> else p\<lparr>po_seg := s\<rparr>)"
      and info: "info = found now (f, ts)" using a by (auto simp: pool_access_def t Some x Let_def)
    have c: "unused (others k (seg_items (po_seg p))) + (if f then 1 else 0) = po_pf_unused p"
      using unused_others [OF distinct_seg_items [OF pool_okD(1) [OF ok]] i(1)] pool_okD(2) [OF ok] by simp
    have k: "k \<in> set (seg_keys (po_seg p))" using i(1) by (metis fst_conv fst_seg_items image_eqI list.set_map)
    have "k \<in> fst ` set (seg_items (po_seg p))" using i(1) by force
    note len = length_others_mem [OF this]
    have "pool_ok (Suc n) p'" using ok o(1) c len by (auto simp: p' pool_ok_def pool_wf_def i(2))
    then show ?thesis using c k i(2) by (auto simp: p' info found_def settings_def)
  qed
  then show "pool_ok (Suc n) p'" and "settings p' = settings p" and "po_pf_drops p' = po_pf_drops p"
    and "po_pf_unused p' + (if ai_pf_first_use info then 1 else 0) = po_pf_unused p"
    and "ai_pf_first_use info \<longrightarrow> ai_hit info" and "ai_hit info \<longleftrightarrow> k \<in> set (seg_keys (po_seg p))"
    and "seg_items (po_seg p') = (if ai_hit info then others k (seg_items (po_seg p)) @ [(k, False)] else seg_items (po_seg p))"
    by blast+
qed

lemma pool_absent: "pool_ok n p \<Longrightarrow> k \<notin> set (seg_keys (po_seg p)) \<Longrightarrow> fmlookup (sg_by_id (po_seg p)) k = None"
  using seg_key_iff pool_okD(1) by blast

text \<open>Both insertions push an object the pool does not hold.\<close>

lemma pool_push_ok:
  assumes ok: "pool_ok n p" and room: "n + 2 < 2 ^ 64" and k: "k \<notin> set (seg_keys (po_seg p))"
    and q: "q = pool_fit (p\<lparr>po_seg := seg_push k f now (po_seg p), po_pf_unused := po_pf_unused p + (if f then 1 else 0)\<rparr>)"
  shows "pool_ok (Suc n) q" and "settings q = settings p"
    and "po_pf_unused q + po_pf_drops q = po_pf_unused p + po_pf_drops p + (if f then 1 else 0)"
    and "po_pf_unused p = 0 \<Longrightarrow> \<not> f \<Longrightarrow> seg_items (po_seg q)
      = drop (Suc (length (seg_items (po_seg p))) - po_cap p) (seg_items (po_seg p) @ [(k, False)])"
proof -
  let ?p = "p\<lparr>po_seg := seg_push k f now (po_seg p), po_pf_unused := po_pf_unused p + (if f then 1 else 0)\<rparr>"
  note s = seg_push_ok [OF pool_okD(1) [OF ok] room pool_absent [OF ok k], of f now]
  have wf: "pool_wf (Suc n) ?p" using ok s by (simp add: pool_ok_def pool_wf_def)
  show "pool_ok (Suc n) q" "settings q = settings p"
    "po_pf_unused q + po_pf_drops q = po_pf_unused p + po_pf_drops p + (if f then 1 else 0)"
    using pool_fit_ok(1-3) [OF wf] by (simp_all add: q settings_def)
  show "seg_items (po_seg q) = drop (Suc (length (seg_items (po_seg p))) - po_cap p) (seg_items (po_seg p) @ [(k, False)])"
    if "po_pf_unused p = 0" "\<not> f" using pool_fit_ok(4) [OF wf] that s(2) by (simp add: q)
qed

lemma seg_bump_absent: "fmlookup (sg_by_id s) k = None \<Longrightarrow> seg_bump k s = (s, False)"
  by (simp add: seg_bump_def)

lemma insert_demand_push:
  "pool_ok n p \<Longrightarrow> k \<notin> set (seg_keys (po_seg p)) \<Longrightarrow> insert_demand k now p =
    pool_fit (p\<lparr>po_seg := seg_push k False now (po_seg p), po_pf_unused := po_pf_unused p + (if False then 1 else 0)\<rparr>)"
  using pool_absent [of n p k] by (simp add: insert_demand_def seg_bump_absent)

lemma insert_prefetch_push:
  "pool_ok n p \<Longrightarrow> k \<notin> set (seg_keys (po_seg p)) \<Longrightarrow> insert_prefetch k now p =
    pool_fit (p\<lparr>po_seg := seg_push k True now (po_seg p), po_pf_unused := po_pf_unused p + (if True then 1 else 0)\<rparr>)"
  using pool_absent [of n p k] by (simp add: insert_prefetch_def seg_bump_absent)

lemma pool_invalidate_ok:
  assumes ok: "pool_ok n p"
  shows "pool_ok n (pool_invalidate k p)" and "settings (pool_invalidate k p) = settings p"
    and "po_pf_unused (pool_invalidate k p) + po_pf_drops (pool_invalidate k p) = po_pf_unused p + po_pf_drops p"
    and "seg_items (po_seg (pool_invalidate k p)) = others k (seg_items (po_seg p))"
proof -
  obtain s r where t: "seg_remove k (po_seg p) = (s, r)" by force
  note o = seg_remove_ok [OF pool_okD(1) [OF ok] t]
  have "pool_ok n (pool_invalidate k p) \<and> settings (pool_invalidate k p) = settings p
    \<and> po_pf_unused (pool_invalidate k p) + po_pf_drops (pool_invalidate k p) = po_pf_unused p + po_pf_drops p
    \<and> seg_items (po_seg (pool_invalidate k p)) = others k (seg_items (po_seg p))"
  proof (cases r)
    case None
    then show ?thesis using o ok by (simp add: pool_invalidate_def t)
  next
    case (Some e)
    have c: "unused (others k (seg_items (po_seg p))) + (if en_pf_unused e then 1 else 0) = po_pf_unused p"
      using unused_others [OF distinct_seg_items [OF pool_okD(1) [OF ok]]] o(3) Some pool_okD(2) [OF ok] by simp
    then show ?thesis using o ok length_others [of k "seg_items (po_seg p)"]
      by (auto simp: pool_invalidate_def t Some Let_def pool_ok_def pool_wf_def settings_def)
  qed
  then show "pool_ok n (pool_invalidate k p)" and "settings (pool_invalidate k p) = settings p"
    and "po_pf_unused (pool_invalidate k p) + po_pf_drops (pool_invalidate k p) = po_pf_unused p + po_pf_drops p"
    and "seg_items (po_seg (pool_invalidate k p)) = others k (seg_items (po_seg p))" by blast+
qed

lemma pool_contains_iff: "pool_ok n p \<Longrightarrow> pool_contains k p \<longleftrightarrow> k \<in> set (seg_keys (po_seg p))"
  using seg_key_iff [OF pool_okD(1), of n p k] by (simp add: pool_contains_def seg_contains_def)

section \<open>Reports add up\<close>

definition report_fine :: "hybrid_report \<Rightarrow> bool" where
  "report_fine r \<longleftrightarrow> hb_hits r \<le> hb_accesses r \<and> hb_pf_used r \<le> hb_hits r
     \<and> 0 \<le> hb_lat_hidden r \<and> hb_lat_hidden r \<le> of_nat (hb_pf_used r)"

lemma report_fine_default: "report_fine hybrid_default"
  by (simp add: report_fine_def hybrid_default_def)

lemma fetch_l_nonneg: "0 \<le> fetch_l ns"
  by (simp add: fetch_l_def f64_of_nonneg)

lemma lead_credit_bounds: "0 \<le> l \<Longrightarrow> 0 \<le> lead_credit l n" "lead_credit l n \<le> 1"
  by (simp_all add: lead_credit_def f64_div_nonneg f64_of_nonneg)

lemma report_fine_issue: "report_fine (count_issue r) = report_fine r"
  by (simp add: report_fine_def count_issue_def)

text \<open>A read is counted, and a hit once: in each run exactly this happens to the report of a read.\<close>

lemma report_fine_miss: "report_fine r \<Longrightarrow> report_fine (count_read r)"
  by (auto simp: report_fine_def count_read_def)

lemma report_fine_hit:
  assumes "report_fine r" and "0 \<le> l" and "hb_accesses r + 1 < 2 ^ 53"
  shows "report_fine (count_hit l info (count_read r))"
proof -
  let ?c = "lead_credit l (ai_lead_ns info)"
  have s: "0 \<le> hb_lat_hidden r + ?c" "hb_lat_hidden r + ?c \<le> of_nat (hb_pf_used r + 1)"
    using assms(1) lead_credit_bounds(1) [OF assms(2), of "ai_lead_ns info"] lead_credit_bounds(2) [of l "ai_lead_ns info"]
    by (auto simp: report_fine_def)
  have "hb_pf_used r + 1 < 2 ^ 53" using assms by (simp add: report_fine_def)
  from f64_round_le_nat [OF s this] f64_round_nonneg [OF s(1)] assms(1) show ?thesis
    by (simp add: report_fine_def count_hit_def count_read_def Let_def f64_add_def)
qed

lemma count_simps [simp]: "hb_accesses (count_read r) = hb_accesses r + 1" "hb_accesses (count_hit l info r) = hb_accesses r"
    "hb_accesses (count_issue r) = hb_accesses r" "hb_hits (count_hit l info r) = hb_hits r + 1" "hb_hits (count_read r) = hb_hits r"
    "hb_hits (count_issue r) = hb_hits r" "hb_pf_issued (count_read r) = hb_pf_issued r" "hb_pf_issued (count_hit l info r) = hb_pf_issued r"
    "hb_pf_issued (count_issue r) = hb_pf_issued r + 1" "hb_pf_used (count_read r) = hb_pf_used r" "hb_pf_used (count_issue r) = hb_pf_used r"
    "hb_pf_used (count_hit l info r) = hb_pf_used r + (if ai_pf_first_use info then 1 else 0)"
  by (simp_all add: count_read_def count_hit_def count_issue_def Let_def)

lemma eff_le_pf_latency:
  assumes "report_fine r" and "hb_accesses r < 2 ^ 53"
  shows "eff_latency r \<le> hybrid_pf_latency r"
proof (cases "hb_accesses r = 0")
  case False
  have "hb_pf_used r < 2 ^ 53" using assms by (simp add: report_fine_def)
  then have "f64_of (hb_pf_used r) = of_nat (hb_pf_used r)" by (rule f64_of_exact)
  then have "hb_lat_hidden r / f64_of (hb_accesses r) \<le> f64_of (hb_pf_used r) / f64_of (hb_accesses r)"
    using assms(1) by (simp add: report_fine_def divide_right_mono f64_of_nonneg)
  moreover have "0 \<le> hb_lat_hidden r / f64_of (hb_accesses r)" using assms(1) by (simp add: report_fine_def f64_of_nonneg)
  ultimately show ?thesis using False f64_round_mono by (simp add: eff_latency_def hybrid_pf_latency_def rate_def f64_div_def)
qed (simp add: eff_latency_def hybrid_pf_latency_def rate_def)

text \<open>The reads of a trace bound what any of the runs counts.\<close>

lemma hybrid_loop_fine:
  "0 \<le> l \<Longrightarrow> report_fine (snd (snd st)) \<Longrightarrow> hb_accesses (snd (snd st)) + length evs < 2 ^ 53 \<Longrightarrow>
    report_fine (snd (snd (hybrid_loop h obs pre l evs st)))
    \<and> hb_accesses (snd (snd (hybrid_loop h obs pre l evs st))) \<le> hb_accesses (snd (snd st)) + length evs"
proof (induction evs arbitrary: st)
  case (Cons ev evs)
  let ?st = "case ne_op ev of Put \<Rightarrow> (wlfu_invalidate (ne_object_id ev) (fst st), snd st)
    | Delete \<Rightarrow> (wlfu_invalidate (ne_object_id ev) (fst st), snd st) | Head \<Rightarrow> st | Other \<Rightarrow> st
    | Get \<Rightarrow> hybrid_get h obs pre l ev st"
  obtain c p r where st: "st = (c, p, r)" by (cases st) auto
  have r: "report_fine r" "hb_accesses r + 1 < 2 ^ 53" using Cons.prems by (simp_all add: st)
  have "report_fine (snd (snd (hybrid_get h obs pre l ev (c, p, r))))
      \<and> hb_accesses (snd (snd (hybrid_get h obs pre l ev (c, p, r)))) = hb_accesses r + 1"
    using report_fine_miss [OF r(1)] report_fine_hit [OF r(1) Cons.prems(1) r(2)]
    by (auto simp: hybrid_get_def Let_def report_fine_issue split: prod.split list.split)
  then have "report_fine (snd (snd (hybrid_get h obs pre l ev st)))"
      "hb_accesses (snd (snd (hybrid_get h obs pre l ev st))) = hb_accesses (snd (snd st)) + 1" by (simp_all add: st)
  then have "report_fine (snd (snd ?st)) \<and> hb_accesses (snd (snd ?st)) \<le> hb_accesses (snd (snd st)) + 1"
    using Cons.prems(2) by (cases "ne_op ev") simp_all
  then show ?case using Cons.IH [OF Cons.prems(1), of ?st] Cons.prems(3) by simp
qed simp

lemma gated_loop_fine:
  "0 \<le> l \<Longrightarrow> report_fine (gt_report s) \<Longrightarrow> hb_accesses (gt_report s) + length evs < 2 ^ 53 \<Longrightarrow>
    report_fine (gt_report (gated_loop h l conf n evs s))
    \<and> hb_accesses (gt_report (gated_loop h l conf n evs s)) \<le> hb_accesses (gt_report s) + length evs"
proof (induction evs arbitrary: s)
  case (Cons ev evs)
  let ?s = "case ne_op ev of Put \<Rightarrow> s\<lparr>gt_cache := wlfu_invalidate (ne_object_id ev) (gt_cache s)\<rparr>
    | Delete \<Rightarrow> s\<lparr>gt_cache := wlfu_invalidate (ne_object_id ev) (gt_cache s)\<rparr> | Head \<Rightarrow> s | Other \<Rightarrow> s
    | Get \<Rightarrow> gated_get h l conf n ev s"
  have r: "report_fine (gt_report s)" "hb_accesses (gt_report s) + 1 < 2 ^ 53" using Cons.prems by simp_all
  have "report_fine (gt_report (gated_get h l conf n ev s))
      \<and> hb_accesses (gt_report (gated_get h l conf n ev s)) = hb_accesses (gt_report s) + 1"
    using report_fine_miss [OF r(1)] report_fine_hit [OF r(1) Cons.prems(1) r(2)]
    by (auto simp: gated_get_def Let_def report_fine_issue split: prod.split option.split)
  then have "report_fine (gt_report ?s) \<and> hb_accesses (gt_report ?s) \<le> hb_accesses (gt_report s) + 1"
    using Cons.prems(2) by (cases "ne_op ev") simp_all
  then show ?case using Cons.IH [OF Cons.prems(1), of ?s] Cons.prems(3) by simp
qed simp

section \<open>The self-tuning run\<close>

definition pool_limits :: "adaptive_pool \<Rightarrow> nat \<times> nat" where
  "pool_limits p = (po_cap p, po_budget_max p)"

definition tuned_ok :: "nat \<Rightarrow> tuned \<Rightarrow> bool" where
  "tuned_ok n s \<longleftrightarrow> pool_ok n (tn_pool s) \<and> report_fine (tn_report s)
     \<and> hb_pf_used (tn_report s) + po_pf_unused (tn_pool s) + po_pf_drops (tn_pool s) \<le> hb_pf_issued (tn_report s)"

lemma settings_limits: "settings p = settings q \<Longrightarrow> pool_limits p = pool_limits q"
  by (simp add: settings_def pool_limits_def)

lemma pool_reward_ok: "pool_ok n p \<Longrightarrow> pool_ok n (pool_reward p)" "pool_limits (pool_reward p) = pool_limits p"
    "po_seg (pool_reward p) = po_seg p" "po_pf_unused (pool_reward p) = po_pf_unused p" "po_pf_drops (pool_reward p) = po_pf_drops p"
  by (auto simp: pool_ok_def pool_wf_def pool_reward_def pool_limits_def)

lemma pool_penalize_ok: "pool_ok n p \<Longrightarrow> pool_ok n (pool_penalize p)" "pool_limits (pool_penalize p) = pool_limits p"
    "po_seg (pool_penalize p) = po_seg p" "po_pf_unused (pool_penalize p) = po_pf_unused p" "po_pf_drops (pool_penalize p) = po_pf_drops p"
  by (auto simp: pool_ok_def pool_wf_def pool_penalize_def pool_limits_def)

lemma tuned_waste_iter:
  "tn_report ((tuned_waste ^^ d) s) = tn_report s" "tn_tokens ((tuned_waste ^^ d) s) = tn_tokens s"
  "po_seg (tn_pool ((tuned_waste ^^ d) s)) = po_seg (tn_pool s)"
  "po_pf_unused (tn_pool ((tuned_waste ^^ d) s)) = po_pf_unused (tn_pool s)"
  "po_pf_drops (tn_pool ((tuned_waste ^^ d) s)) = po_pf_drops (tn_pool s)"
  "pool_limits (tn_pool ((tuned_waste ^^ d) s)) = pool_limits (tn_pool s)"
  "pool_ok n (tn_pool s) \<Longrightarrow> pool_ok n (tn_pool ((tuned_waste ^^ d) s))"
  by (induction d) (simp_all add: tuned_waste_def pool_penalize_ok)

lemma tuned_drain_ok:
  "tuned_ok n s \<Longrightarrow> tuned_ok n (tuned_drain s)" "tn_report (tuned_drain s) = tn_report s" "tn_tokens (tuned_drain s) = tn_tokens s"
  "po_seg (tn_pool (tuned_drain s)) = po_seg (tn_pool s)" "pool_limits (tn_pool (tuned_drain s)) = pool_limits (tn_pool s)"
proof -
  let ?s = "s\<lparr>tn_pool := (tn_pool s)\<lparr>po_pf_drops := 0\<rparr>\<rparr>" and ?d = "po_pf_drops (tn_pool s)"
  have d: "tuned_drain s = (tuned_waste ^^ ?d) ?s" by (simp add: tuned_drain_def pool_take_drops_def)
  have "pool_ok n (tn_pool s) \<Longrightarrow> pool_ok n (tn_pool ?s)" by (simp add: pool_ok_def pool_wf_def)
  then show "tuned_ok n s \<Longrightarrow> tuned_ok n (tuned_drain s)"
    unfolding d by (auto simp: tuned_ok_def tuned_waste_iter)
  show "tn_report (tuned_drain s) = tn_report s" "tn_tokens (tuned_drain s) = tn_tokens s"
    "po_seg (tn_pool (tuned_drain s)) = po_seg (tn_pool s)" "pool_limits (tn_pool (tuned_drain s)) = pool_limits (tn_pool s)"
    unfolding d by (simp_all add: tuned_waste_iter) (simp add: pool_limits_def)
qed

lemma tuned_read_parts:
  assumes "pool_access (ne_object_id ev) (ne_ts_ns ev) (tn_pool s) = (p, info)"
  shows "tn_report (tuned_read l ev s) = (if ai_hit info then count_hit l info (count_read (tn_report s)) else count_read (tn_report s))"
    and "tn_pool (tuned_read l ev s) =
      (if ai_hit info then (if ai_pf_first_use info then pool_reward p else p) else insert_demand (ne_object_id ev) (ne_ts_ns ev) p)"
    and "tn_tokens (tuned_read l ev s) =
      (let t = refill (tn_tokens s) WASTE_RATE in if ai_hit info \<and> ai_pf_first_use info then refill t 1 else t)"
  using assms by (auto simp: tuned_read_def tuned_first_use_def Let_def)

text \<open>What a read of plain LRU does to the objects.\<close>

definition lru_read :: "nat \<Rightarrow> string \<Rightarrow> (string \<times> bool) list \<Rightarrow> (string \<times> bool) list" where
  "lru_read cap k xs =
    (if k \<in> fst ` set xs then others k xs @ [(k, False)] else drop (Suc (length xs) - cap) (xs @ [(k, False)]))"

lemma seg_keys_items: "set (seg_keys s) = fst ` set (seg_items s)"
  by (metis fst_seg_items list.set_map)

lemma tuned_read_ok:
  assumes ok: "tuned_ok n s" and room: "n + 3 < 2 ^ 64" and l: "0 \<le> l" and acc: "hb_accesses (tn_report s) + 1 < 2 ^ 53"
  shows "tuned_ok (n + 2) (tuned_read l ev s)" and "pool_limits (tn_pool (tuned_read l ev s)) = pool_limits (tn_pool s)"
    and "unused (seg_items (po_seg (tn_pool s))) = 0 \<Longrightarrow> seg_items (po_seg (tn_pool (tuned_read l ev s)))
        = lru_read (po_cap (tn_pool s)) (ne_object_id ev) (seg_items (po_seg (tn_pool s)))"
    and "hb_hits (tn_report (tuned_read l ev s)) =
      hb_hits (tn_report s) + (if ne_object_id ev \<in> fst ` set (seg_items (po_seg (tn_pool s))) then 1 else 0)"
proof -
  let ?k = "ne_object_id ev" and ?now = "ne_ts_ns ev" and ?q = "tn_pool (tuned_read l ev s)"
  obtain p info where a: "pool_access ?k ?now (tn_pool s) = (p, info)" by force
  have p: "pool_ok n (tn_pool s)" and r: "report_fine (tn_report s)"
    and c: "hb_pf_used (tn_report s) + po_pf_unused (tn_pool s) + po_pf_drops (tn_pool s) \<le> hb_pf_issued (tn_report s)"
    using ok by (simp_all add: tuned_ok_def)
  have u: "po_pf_unused (tn_pool s) = unused (seg_items (po_seg (tn_pool s)))" using pool_okD(2) [OF p] .
  have r1: "n + 2 < 2 ^ 64" "Suc n + 2 < 2 ^ 64" using room by simp_all
  note o = pool_access_ok [OF p r1(1) a]
  note part = tuned_read_parts [OF a, of l]
  have up: "pool_ok (n + 2) q" if "pool_ok (Suc n) q" for q
    using that seg_ok_mono [of "Suc n" "po_seg q" "n + 2"] by (simp add: pool_ok_def pool_wf_def)
  have k: "?k \<in> fst ` set (seg_items (po_seg (tn_pool s))) \<longleftrightarrow> ai_hit info" using o(6) by (simp add: seg_keys_items)
  show "hb_hits (tn_report (tuned_read l ev s)) =
      hb_hits (tn_report s) + (if ?k \<in> fst ` set (seg_items (po_seg (tn_pool s))) then 1 else 0)"
    unfolding k by (simp add: part)
  have "tuned_ok (n + 2) (tuned_read l ev s) \<and> pool_limits ?q = pool_limits (tn_pool s)
    \<and> (unused (seg_items (po_seg (tn_pool s))) = 0 \<longrightarrow>
        seg_items (po_seg ?q) = lru_read (po_cap (tn_pool s)) ?k (seg_items (po_seg (tn_pool s))))"
  proof (cases "ai_hit info")
    case True
    have w: "pool_ok (n + 2) (if ai_pf_first_use info then pool_reward p else p)" using up [OF o(1)] pool_reward_ok(1) by simp
    have "hb_pf_used (tn_report s) + (po_pf_unused p + (if ai_pf_first_use info then 1 else 0)) + po_pf_drops p \<le> hb_pf_issued (tn_report s)"
      using c unfolding o(3,4) .
    then show ?thesis
      using w True k o(7) settings_limits [OF o(2)] report_fine_hit [OF r l acc]
      by (auto simp: tuned_ok_def part pool_reward_ok lru_read_def)
  next
    case False
    have p': "seg_items (po_seg p) = seg_items (po_seg (tn_pool s))" using o(7) False by simp
    have k': "?k \<notin> set (seg_keys (po_seg p))" using k False p' by (simp add: seg_keys_items)
    note q = pool_push_ok [OF o(1) r1(2) k' insert_demand_push [OF o(1) k'], of ?now]
    have f: "ai_pf_first_use info = False" using o(5) False by simp
    have q': "?q = insert_demand ?k ?now p" using False by (simp add: part)
    have "settings ?q = settings (tn_pool s)" using q(2) o(2) by (simp add: q')
    moreover have "po_pf_unused ?q + po_pf_drops ?q = po_pf_unused (tn_pool s) + po_pf_drops (tn_pool s)"
      using q(3) o(3,4) f by (simp add: q')
    moreover have "po_cap p = po_cap (tn_pool s)" using o(2) by (simp add: settings_def)
    moreover have "pool_ok (n + 2) ?q" using q(1) by (simp add: q')
    moreover have "tn_report (tuned_read l ev s) = count_read (tn_report s)" using False by (simp add: part)
    moreover have "unused (seg_items (po_seg (tn_pool s))) = 0 \<longrightarrow>
        seg_items (po_seg ?q) = drop (Suc (length (seg_items (po_seg p))) - po_cap p) (seg_items (po_seg p) @ [(?k, False)])"
      using q(4) u o(4) f by (simp add: q')
    ultimately show ?thesis
      using False k p' c settings_limits [of ?q "tn_pool s"] report_fine_miss [OF r] by (simp add: tuned_ok_def lru_read_def)
  qed
  then show "tuned_ok (n + 2) (tuned_read l ev s)" and "pool_limits ?q = pool_limits (tn_pool s)"
    and "unused (seg_items (po_seg (tn_pool s))) = 0 \<Longrightarrow>
        seg_items (po_seg ?q) = lru_read (po_cap (tn_pool s)) ?k (seg_items (po_seg (tn_pool s)))" by blast+
qed

lemma tuned_guess_SomeD:
  "tuned_guess l m ev s = Some pid \<Longrightarrow> 1 \<le> tn_tokens s \<and> pid \<noteq> ne_object_id ev \<and> \<not> pool_contains pid (tn_pool s)"
  by (auto simp: tuned_guess_def opt_filter_eq_Some split: if_splits)

lemma tuned_idle_simps [simp]: "tn_report (tuned_idle s) = tn_report s" "tn_pool (tuned_idle s) = tn_pool s"
    "tn_tokens (tuned_idle s) = tn_tokens s"
  by (simp_all add: tuned_idle_def)

lemma tuned_issue_ok:
  assumes ok: "tuned_ok n s" and room: "n + 2 < 2 ^ 64"
  shows "tuned_ok (Suc n) (tuned_issue l m ev s)" and "pool_limits (tn_pool (tuned_issue l m ev s)) = pool_limits (tn_pool s)"
    and "hb_hits (tn_report (tuned_issue l m ev s)) = hb_hits (tn_report s)"
    and "hb_accesses (tn_report (tuned_issue l m ev s)) = hb_accesses (tn_report s)"
    and "hb_pf_issued (tn_report s) \<le> hb_pf_issued (tn_report (tuned_issue l m ev s))"
    and "hb_pf_issued (tn_report (tuned_issue l m ev s)) = hb_pf_issued (tn_report s) \<Longrightarrow>
      tn_pool (tuned_issue l m ev s) = tn_pool s"
proof -
  let ?s = "s\<lparr>tn_mk := markov_observe ev (tn_mk s)\<rparr>"
  have p: "pool_ok n (tn_pool s)" using ok by (simp add: tuned_ok_def)
  have "tuned_ok (Suc n) (tuned_issue l m ev s) \<and> pool_limits (tn_pool (tuned_issue l m ev s)) = pool_limits (tn_pool s)
      \<and> hb_hits (tn_report (tuned_issue l m ev s)) = hb_hits (tn_report s)
      \<and> hb_accesses (tn_report (tuned_issue l m ev s)) = hb_accesses (tn_report s)
      \<and> (if hb_pf_issued (tn_report (tuned_issue l m ev s)) = hb_pf_issued (tn_report s)
          then tn_pool (tuned_issue l m ev s) = tn_pool s
          else hb_pf_issued (tn_report s) \<le> hb_pf_issued (tn_report (tuned_issue l m ev s)))"
  proof (cases "tuned_guess l m ev ?s")
    case None
    have "pool_ok (Suc n) (tn_pool s)" using p seg_ok_mono [of n "po_seg (tn_pool s)" "Suc n"] by (simp add: pool_ok_def pool_wf_def)
    then show ?thesis using ok None by (simp add: tuned_issue_def Let_def tuned_ok_def)
  next
    case (Some pid)
    then have "pid \<notin> set (seg_keys (po_seg (tn_pool s)))" using tuned_guess_SomeD [OF Some] pool_contains_iff [OF p] by simp
    from pool_push_ok [OF p room this insert_prefetch_push [OF p this], of "ne_ts_ns ev"]
    show ?thesis using ok settings_limits [of "insert_prefetch pid (ne_ts_ns ev) (tn_pool s)" "tn_pool s"]
      by (simp add: tuned_issue_def Let_def Some tuned_ok_def report_fine_issue)
  qed
  then show "tuned_ok (Suc n) (tuned_issue l m ev s)" and "pool_limits (tn_pool (tuned_issue l m ev s)) = pool_limits (tn_pool s)"
    and "hb_hits (tn_report (tuned_issue l m ev s)) = hb_hits (tn_report s)"
    and "hb_accesses (tn_report (tuned_issue l m ev s)) = hb_accesses (tn_report s)"
    and "hb_pf_issued (tn_report s) \<le> hb_pf_issued (tn_report (tuned_issue l m ev s))"
    and "hb_pf_issued (tn_report (tuned_issue l m ev s)) = hb_pf_issued (tn_report s) \<Longrightarrow>
      tn_pool (tuned_issue l m ev s) = tn_pool s" by (auto split: if_splits)
qed

text \<open>A step of the run: what it keeps, and what it does to the objects if it issues nothing.\<close>

definition silent_step :: "norm_event \<Rightarrow> nat \<Rightarrow> (string \<times> bool) list \<times> nat \<Rightarrow> (string \<times> bool) list \<times> nat" where
  "silent_step ev cap st =
    (case ne_op ev of
       Put \<Rightarrow> (others (ne_object_id ev) (fst st), snd st)
     | Delete \<Rightarrow> (others (ne_object_id ev) (fst st), snd st)
     | Head \<Rightarrow> st
     | Other \<Rightarrow> st
     | Get \<Rightarrow> (lru_read cap (ne_object_id ev) (fst st), snd st + (if ne_object_id ev \<in> fst ` set (fst st) then 1 else 0)))"

definition tuned_view :: "tuned \<Rightarrow> (string \<times> bool) list \<times> nat" where
  "tuned_view s = (seg_items (po_seg (tn_pool s)), hb_hits (tn_report s))"

lemma tuned_read_accesses: "hb_accesses (tn_report (tuned_read l ev s)) = hb_accesses (tn_report s) + 1"
    and tuned_read_issued: "hb_pf_issued (tn_report (tuned_read l ev s)) = hb_pf_issued (tn_report s)"
proof -
  obtain p info where a: "pool_access (ne_object_id ev) (ne_ts_ns ev) (tn_pool s) = (p, info)" by force
  show "hb_accesses (tn_report (tuned_read l ev s)) = hb_accesses (tn_report s) + 1"
    and "hb_pf_issued (tn_report (tuned_read l ev s)) = hb_pf_issued (tn_report s)"
    by (simp_all add: tuned_read_parts [OF a])
qed

lemma tuned_step_ok:
  assumes ok: "tuned_ok n s" and room: "n + 5 < 2 ^ 64" and l: "0 \<le> l" and acc: "hb_accesses (tn_report s) + 1 < 2 ^ 53"
  shows "tuned_ok (n + 3) (tuned_step l m ev s)" and "pool_limits (tn_pool (tuned_step l m ev s)) = pool_limits (tn_pool s)"
    and "hb_accesses (tn_report (tuned_step l m ev s)) \<le> hb_accesses (tn_report s) + 1"
    and "hb_pf_issued (tn_report s) \<le> hb_pf_issued (tn_report (tuned_step l m ev s))"
    and "hb_pf_issued (tn_report (tuned_step l m ev s)) = 0 \<Longrightarrow>
      tuned_view (tuned_step l m ev s) = silent_step ev (po_cap (tn_pool s)) (tuned_view s)"
proof -
  let ?t = "tuned_step l m ev s"
  have p: "pool_ok n (tn_pool s)" using ok by (simp add: tuned_ok_def)
  have up: "tuned_ok (n + 3) s'" if "tuned_ok n s'" for s'
    using that seg_ok_mono [of n "po_seg (tn_pool s')" "n + 3"] by (simp add: tuned_ok_def pool_ok_def pool_wf_def)
  have "tuned_ok (n + 3) ?t \<and> pool_limits (tn_pool ?t) = pool_limits (tn_pool s)
    \<and> hb_accesses (tn_report ?t) \<le> hb_accesses (tn_report s) + 1 \<and> hb_pf_issued (tn_report s) \<le> hb_pf_issued (tn_report ?t)
    \<and> (hb_pf_issued (tn_report ?t) = 0 \<longrightarrow> tuned_view ?t = silent_step ev (po_cap (tn_pool s)) (tuned_view s))"
  proof (cases "ne_op ev = Get")
    case True
    have room1: "n + 3 < 2 ^ 64" and room2: "n + 2 + 2 < 2 ^ 64" using room by simp_all
    note r = tuned_read_ok [OF ok room1 l acc, where ev = ev]
    note i = tuned_issue_ok [OF r(1) room2, where l = l and m = m and ev = ev]
    have t: "?t = tuned_drain (tuned_issue l m ev (tuned_read l ev s))" using True by (simp add: tuned_step_def tuned_get_def)
    have a: "hb_accesses (tn_report ?t) = hb_accesses (tn_report s) + 1"
      and b: "hb_pf_issued (tn_report s) \<le> hb_pf_issued (tn_report ?t)"
      using i(4,5) by (simp_all add: t tuned_drain_ok tuned_read_accesses tuned_read_issued)
    have "tuned_view ?t = silent_step ev (po_cap (tn_pool s)) (tuned_view s)" if z: "hb_pf_issued (tn_report ?t) = 0"
    proof -
      have "hb_pf_issued (tn_report (tuned_issue l m ev (tuned_read l ev s))) = hb_pf_issued (tn_report (tuned_read l ev s))"
        using z i(5) by (simp add: t tuned_drain_ok)
      note same = i(6) [OF this]
      have "po_pf_unused (tn_pool s) = 0" using ok z b by (simp add: tuned_ok_def)
      then have "unused (seg_items (po_seg (tn_pool s))) = 0" using pool_okD(2) [OF p] by simp
      note items = r(3) [OF this]
      show ?thesis using True same items i(3) r(4)
        by (simp add: t tuned_view_def tuned_drain_ok silent_step_def)
    qed
    moreover have "tuned_ok (n + 3) ?t" using tuned_drain_ok(1) [OF i(1)] by (simp add: t eval_nat_numeral)
    moreover have "pool_limits (tn_pool ?t) = pool_limits (tn_pool s)" using r(2) i(2) by (simp add: t tuned_drain_ok)
    ultimately show ?thesis using a b by simp
  next
    case False
    note v = pool_invalidate_ok [OF p, of "ne_object_id ev"]
    let ?i = "s\<lparr>tn_pool := pool_invalidate (ne_object_id ev) (tn_pool s)\<rparr>"
    have "tuned_ok n ?i" using v ok by (simp add: tuned_ok_def)
    then show ?thesis using False up [OF ok] up [of ?i] v(4) settings_limits [OF v(2)]
      by (cases "ne_op ev") (simp_all add: tuned_step_def silent_step_def tuned_view_def)
  qed
  then show "tuned_ok (n + 3) ?t" and "pool_limits (tn_pool ?t) = pool_limits (tn_pool s)"
    and "hb_accesses (tn_report ?t) \<le> hb_accesses (tn_report s) + 1"
    and "hb_pf_issued (tn_report s) \<le> hb_pf_issued (tn_report ?t)"
    and "hb_pf_issued (tn_report ?t) = 0 \<Longrightarrow> tuned_view ?t = silent_step ev (po_cap (tn_pool s)) (tuned_view s)" by blast+
qed

lemma tuned_run_ok:
  "tuned_ok n s \<Longrightarrow> 0 \<le> l \<Longrightarrow> n + 3 * length evs + 2 < 2 ^ 64 \<Longrightarrow> hb_accesses (tn_report s) + length evs < 2 ^ 53 \<Longrightarrow>
    tuned_ok (n + 3 * length evs) (fold (tuned_step l m) evs s)
    \<and> pool_limits (tn_pool (fold (tuned_step l m) evs s)) = pool_limits (tn_pool s)
    \<and> hb_accesses (tn_report (fold (tuned_step l m) evs s)) \<le> hb_accesses (tn_report s) + length evs
    \<and> hb_pf_issued (tn_report s) \<le> hb_pf_issued (tn_report (fold (tuned_step l m) evs s))
    \<and> (hb_pf_issued (tn_report (fold (tuned_step l m) evs s)) = 0 \<longrightarrow>
        tuned_view (fold (tuned_step l m) evs s) = fold (\<lambda>ev. silent_step ev (po_cap (tn_pool s))) evs (tuned_view s))"
proof (induction evs arbitrary: n s)
  case (Cons ev evs)
  have room: "n + 5 < 2 ^ 64" "n + 3 + 3 * length evs + 2 < 2 ^ 64" and acc: "hb_accesses (tn_report s) + 1 < 2 ^ 53"
    using Cons.prems by simp_all
  note a = tuned_step_ok [OF Cons.prems(1) room(1) Cons.prems(2) acc, where m = m and ev = ev]
  have "hb_accesses (tn_report (tuned_step l m ev s)) + length evs < 2 ^ 53" using a(3) Cons.prems(4) by simp
  note ih = Cons.IH [OF a(1) Cons.prems(2) room(2) this]
  have "po_cap (tn_pool (tuned_step l m ev s)) = po_cap (tn_pool s)" using a(2) by (simp add: pool_limits_def)
  then show ?case using ih a(2-5) by (auto simp: algebra_simps)
qed simp

section \<open>A silent run is plain LRU\<close>

definition sim_view :: "sim \<Rightarrow> (string \<times> bool) list" where
  "sim_view s = map (\<lambda>x. (fst x, False)) (sim_items s)"

definition ones :: "sim_item list \<Rightarrow> bool" where "ones xs = list_all (\<lambda>x. fst (snd x) = 1) xs"

lemma fst_sim_view: "fst ` set (sim_view s) = fst ` set (sim_items s)"
  by (force simp: sim_view_def)

lemma others_view: "others k (map (\<lambda>x. (fst x, False)) xs) = map (\<lambda>x. (fst x, False)) (drop_item k xs)"
  by (induction xs) (auto simp: others_def drop_item_def)

lemma ones_read: "ones xs \<Longrightarrow> ones (drop_item k xs @ [(k, 1, f)])"
  by (auto simp: ones_def drop_item_def list_all_iff)

lemma read_step_demand: "fst (read_step k (s, r)) = fst (demand_read k 1 s)"
    "re_hits (snd (read_step k (s, r))) = re_hits r + (if snd (demand_read k 1 s) then 1 else 0)"
  by (auto simp: read_step_def demand_read_def Let_def split: prod.split sim_result.split)

lemma sim_read_view:
  assumes ok: "sim_ok n s" and room: "n + 3 < 2 ^ 64" and o: "ones (sim_items s)"
  shows "sim_ok (n + 2) (fst (read_step k (s, r)))" and "ones (sim_items (fst (read_step k (s, r))))"
    and "sm_cap (fst (read_step k (s, r))) = sm_cap s"
    and "sim_view (fst (read_step k (s, r))) = lru_read (unat (sm_cap s)) k (sim_view s)"
    and "re_hits (snd (read_step k (s, r))) = re_hits r + (if k \<in> fst ` set (sim_view s) then 1 else 0)"
proof -
  let ?ys = "drop_item k (sim_items s) @ [(k, 1, False)]"
  note d = demand_read_ok [OF ok room, of k 1]
  have ys: "ones ?ys" using o by (rule ones_read)
  then have it: "sim_items (fst (read_step k (s, r))) = drop (length ?ys - unat (sm_cap s)) ?ys"
    using d(2) fit_ones [of ?ys "sm_cap s"] by (simp add: read_step_demand(1) ones_def)
  show "sim_ok (n + 2) (fst (read_step k (s, r)))" "sm_cap (fst (read_step k (s, r))) = sm_cap s"
    using d(1,4) by (simp_all add: read_step_demand(1))
  show "ones (sim_items (fst (read_step k (s, r))))"
    using ys by (auto simp: it ones_def list_all_iff dest: in_set_dropD)
  show "re_hits (snd (read_step k (s, r))) = re_hits r + (if k \<in> fst ` set (sim_view s) then 1 else 0)"
    using d(3) by (simp add: read_step_demand(2) fst_sim_view)
  have dist: "distinct (map fst (sim_items s))" and len: "length (sim_items s) \<le> unat (sm_cap s)"
    using ok distinct_sim_items total_ones [of "sim_items s"] o by (auto simp: sim_ok_def ones_def word_le_nat_alt)
  have v: "sim_view (fst (read_step k (s, r))) = drop (length ?ys - unat (sm_cap s)) (others k (sim_view s) @ [(k, False)])"
    by (simp add: sim_view_def it drop_map [symmetric] others_view)
  show "sim_view (fst (read_step k (s, r))) = lru_read (unat (sm_cap s)) k (sim_view s)"
  proof (cases "k \<in> fst ` set (sim_items s)")
    case True
    then have "length (drop_item k (sim_items s)) < length (sim_items s)"
      unfolding drop_item_def by (metis (mono_tags, lifting) image_iff length_filter_less)
    then have "length ?ys - unat (sm_cap s) = 0" using len by simp
    then show ?thesis using True v by (simp only: drop_0 lru_read_def fst_sim_view if_True)
  next
    case False
    then have "drop_item k (sim_items s) = sim_items s" by (rule drop_item_id)
    then show ?thesis using False v others_id [of k "sim_view s"]
      by (simp add: lru_read_def fst_sim_view) (simp add: sim_view_def)
  qed
qed

lemma null_run_view:
  "sim_ok n (fst sr) \<Longrightarrow> n + 2 * length evs + 3 < 2 ^ 64 \<Longrightarrow> ones (sim_items (fst sr)) \<Longrightarrow>
    re_hits (snd (run_loop null_observe null_predict evs p sr))
      = snd (fold (\<lambda>ev. silent_step ev (unat (sm_cap (fst sr)))) evs (sim_view (fst sr), re_hits (snd sr)))"
proof (induction evs arbitrary: n p sr)
  case (Cons ev evs)
  obtain s r where sr: "sr = (s, r)" by force
  have ok: "sim_ok n s" and o: "ones (sim_items s)" and room: "n + 3 < 2 ^ 64" "n + 2 + 2 * length evs + 3 < 2 ^ 64"
    using Cons.prems by (simp_all add: sr)
  let ?i = "sim_invalidate (ne_object_id ev) s"
  have i: "sim_ok n ?i" "sim_items ?i = drop_item (ne_object_id ev) (sim_items s)" "sm_cap ?i = sm_cap s"
    using sim_invalidate_Items [OF ok] by simp_all
  have oi: "ones (sim_items ?i)" using o by (auto simp: i(2) ones_def drop_item_def list_all_iff)
  have vi: "sim_view ?i = others (ne_object_id ev) (sim_view s)" by (simp add: sim_view_def i(2) others_view)
  note g = sim_read_view [OF ok room(1) o, of "ne_object_id ev" r]
  show ?case
  proof (cases "ne_op ev")
    case Get
    have "read_step (ne_object_id ev) (s, r) = (fst (read_step (ne_object_id ev) (s, r)), snd (read_step (ne_object_id ev) (s, r)))"
      by simp
    then show ?thesis using Cons.IH [of "n + 2" "read_step (ne_object_id ev) (s, r)" p] g room(2) Get
      by (simp add: sr null_observe_def null_predict_def silent_step_def)
  qed (use Cons.IH [of n "(?i, r)" p] Cons.IH [of n "(s, r)" p] ok o i oi vi room in
      \<open>simp_all add: sr silent_step_def\<close>)
qed simp

lemma tuned_step_accesses:
  "hb_accesses (tn_report (tuned_step l m ev s)) = hb_accesses (tn_report s) + (if ne_op ev = Get then 1 else 0)"
proof -
  have "hb_accesses (tn_report (tuned_issue l m ev s')) = hb_accesses (tn_report s')" for s'
    by (simp add: tuned_issue_def Let_def split: option.split)
  then show ?thesis by (cases "ne_op ev") (simp_all add: tuned_step_def tuned_get_def tuned_drain_ok tuned_read_accesses)
qed

lemma tuned_run_accesses: "hb_accesses (tn_report (fold (tuned_step l m) evs s)) = hb_accesses (tn_report s) + gets evs"
proof (induction evs arbitrary: s)
  case (Cons ev evs)
  show ?case by (cases "ne_op ev") (simp_all add: Cons.IH tuned_step_accesses)
qed simp

lemma tuned_new_sel: "tn_pool (tuned_new cap ns) = pool_new cap (unat (max (cap div 2) 1))" "tn_report (tuned_new cap ns) = hybrid_default"
    "tn_tokens (tuned_new cap ns) = 32"
  by (simp_all add: tuned_new_def BURST_def)

lemma hybrid_default_sel [simp]: "hb_accesses hybrid_default = 0" "hb_hits hybrid_default = 0" "hb_pf_used hybrid_default = 0"
    "hb_pf_issued hybrid_default = 0"
  by (simp_all add: hybrid_default_def)

lemma tuned_new_ok: "tuned_ok 0 (tuned_new cap ns)" "tuned_view (tuned_new cap ns) = ([], 0)"
    "hb_accesses (tn_report (tuned_new cap ns)) = 0" "po_cap (tn_pool (tuned_new cap ns)) = unat (max cap 2)"
    "pool_limits (tn_pool (tuned_new cap ns)) = (unat (max cap 2), unat (max (cap div 2) 1))"
proof -
  have "1 \<le> unat (max (cap div 2) (1 :: u64))" by (metis max.cobounded2 unat_1 word_le_nat_alt)
  then show "pool_limits (tn_pool (tuned_new cap ns)) = (unat (max cap 2), unat (max (cap div 2) 1))"
    by (simp add: tuned_new_sel pool_limits_def pool_new_def)
  show "po_cap (tn_pool (tuned_new cap ns)) = unat (max cap 2)" by (simp add: tuned_new_sel pool_new_def)
qed (simp_all add: tuned_new_sel tuned_ok_def pool_ok_new report_fine_default tuned_view_def)

text \<open>Speculation is quarantined. After any trace the pool of the self-tuning run holds at most its
  capacity, and at most half of it are prefetches that nobody has used; its counter of them is exact,
  and with those used they are no more than were issued.\<close>

theorem speculation_is_quarantined:
  assumes "3 * length trace + 2 < 2 ^ 64" and "length trace < 2 ^ 53"
    and "s = fold (tuned_step (fetch_l ns) m) trace (tuned_new cap ns)"
  shows "length (seg_items (po_seg (tn_pool s))) \<le> unat (max cap 2)
    \<and> po_pf_unused (tn_pool s) \<le> unat (max (cap div 2) 1)
    \<and> po_pf_unused (tn_pool s) = length (filter snd (seg_items (po_seg (tn_pool s))))
    \<and> hb_pf_used (tn_report s) + po_pf_unused (tn_pool s) \<le> hb_pf_issued (tn_report s)"
proof -
  have a: "tuned_ok (3 * length trace) s" "pool_limits (tn_pool s) = (unat (max cap 2), unat (max (cap div 2) 1))"
    using tuned_run_ok [OF tuned_new_ok(1) fetch_l_nonneg, of trace cap ns ns m] assms tuned_new_ok(3,5) by simp_all
  then have "pool_ok (3 * length trace) (tn_pool s)" by (simp add: tuned_ok_def)
  then show ?thesis using a by (simp add: tuned_ok_def pool_ok_def pool_wf_def pool_limits_def unused_def)
qed

lemma speculation_is_quarantined_witness:
  "length (seg_items (po_seg (tn_pool (fold (tuned_step (fetch_l 100) 32) [sample_get ''a'' 1, sample_get ''b'' 1] (tuned_new 4 100))))) \<le> 4"
  using speculation_is_quarantined [of "[sample_get ''a'' 1, sample_get ''b'' 1]" _ 100 32 4, OF _ _ refl] by simp

text \<open>A run that issues nothing is plain LRU. If the self-tuning run of a trace issues no prefetch, it
  counts the same reads and the same hits as the demand cache of the sweep at its capacity: the
  machinery around it costs the demand traffic nothing.\<close>

theorem silent_run_is_lru:
  assumes "3 * length trace + 3 < 2 ^ 64" and "length trace < 2 ^ 53" and "unat cap < 2 ^ 63"
    and "hb_pf_issued (run_self_tuned trace cap ns m) = 0"
  shows "hb_hits (run_self_tuned trace cap ns m) = re_hits (run null_observe null_predict trace () (max cap 2))
    \<and> hb_accesses (run_self_tuned trace cap ns m) = gets trace"
proof -
  let ?s = "fold (tuned_step (fetch_l ns) m) trace (tuned_new cap ns)" and ?c = "max cap 2"
  have "hb_pf_issued (tn_report ?s) = 0" using assms(4) by (simp add: run_self_tuned_def)
  then have v: "tuned_view ?s = fold (\<lambda>ev. silent_step ev (unat ?c)) trace ([], 0)"
    using tuned_run_ok [OF tuned_new_ok(1) fetch_l_nonneg, of trace cap ns ns m] assms(1,2) tuned_new_ok(2-4) by simp
  have c: "unat ?c < 2 ^ 63" using assms(3) by (auto simp: max_def)
  have "re_hits (snd (run_loop null_observe null_predict trace () (sim_new ?c, report_default))) = snd (tuned_view ?s)"
    unfolding v
    using null_run_view [of 0 "(sim_new ?c, report_default)" trace "()"] assms(1) sim_ok_new(1) [OF c] sim_ok_new(2) [of ?c]
    by (simp add: ones_def sim_view_def sim_new_def report_default_def)
  then have "hb_hits (tn_report ?s) = re_hits (run null_observe null_predict trace () ?c)"
    by (simp add: run_def tuned_view_def)
  then show ?thesis using tuned_run_accesses [of "fetch_l ns" m trace "tuned_new cap ns"] tuned_new_ok(3)
    by (simp add: run_self_tuned_def)
qed

text \<open>One read leaves nothing to guess from.\<close>

lemma first_read_silent: "hb_pf_issued (run_self_tuned [sample_get k n] cap ns m) = 0"
proof -
  let ?s = "tuned_read (fetch_l ns) (sample_get k n) (tuned_new cap ns)"
  have mk: "tn_mk ?s = markov_with_order 1 1"
    by (simp add: tuned_read_def tuned_first_use_def tuned_new_def Let_def split: prod.split)
  have "chain_ahead (markov_observe (sample_get k n) (markov_with_order 1 1)) k' d conf = None" for k' d conf
    by (cases "max d 1") (simp_all add: chain_ahead_def markov_observe_def markov_with_order_def context_key_def table_empty_def Let_def)
  then have "tn_report (tuned_issue (fetch_l ns) m (sample_get k n) ?s) = tn_report ?s"
    by (simp add: tuned_issue_def tuned_guess_def mk Let_def)
  moreover have "hb_pf_issued (tn_report ?s) = 0"
    by (cases "pool_access (ne_object_id (sample_get k n)) (ne_ts_ns (sample_get k n)) (tn_pool (tuned_new cap ns))")
      (simp add: tuned_read_parts(1) count_hit_def count_read_def tuned_new_def hybrid_default_def Let_def)
  moreover have "ne_op (sample_get k n) = Get" by (simp add: sample_get_def)
  ultimately show ?thesis by (simp add: run_self_tuned_def tuned_step_def tuned_get_def tuned_drain_ok(2))
qed

lemma silent_run_is_lru_witness:
  "hb_hits (run_self_tuned [sample_get ''a'' 1] 4 100 32) = re_hits (Replay.run null_observe null_predict [sample_get ''a'' 1] () 4)"
  using silent_run_is_lru [of "[sample_get ''a'' 1]" 4 100 32] first_read_silent [of "''a''" 1 4 100 32] by simp

text \<open>The latency a run claims is achievable. For each of the three hybrid runs the lead-aware share of
  hidden fetches lies between zero and the share that fetching in no time at all would hide, and each
  counts at most one hit per read.\<close>

theorem latency_within_upper_bound:
  assumes "length trace < 2 ^ 53" and "3 * length trace + 2 < 2 ^ 64"
    and "r \<in> {run_hybrid h obs pre trace cap ns p, run_lead_gated h trace cap ns conf m, run_self_tuned trace cap ns m}"
  shows "0 \<le> eff_latency r \<and> eff_latency r \<le> hybrid_pf_latency r \<and> hb_pf_used r \<le> hb_hits r \<and> hb_hits r \<le> hb_accesses r"
proof -
  note d = report_fine_default
  have a: "report_fine r \<and> hb_accesses r < 2 ^ 53"
    using assms(3)
  proof (elim insertE emptyE)
    assume "r = run_hybrid h obs pre trace cap ns p"
    then show ?thesis using hybrid_loop_fine [OF fetch_l_nonneg [of ns], where st = "(wlfu_new cap, p, hybrid_default)" and evs = trace and h = h and obs = obs and pre = pre] d assms(1)
      by (simp add: run_hybrid_def)
  next
    let ?s = "\<lparr>gt_cache = wlfu_new_lru cap, gt_mk = markov_with_order 1 1, gt_report = hybrid_default, gt_delta = fetch_l ns, gt_last = None\<rparr>"
    assume "r = run_lead_gated h trace cap ns conf m"
    then show ?thesis using gated_loop_fine [OF fetch_l_nonneg [of ns], where s = ?s and evs = trace and h = h and conf = conf and n = m] d assms(1)
      by (simp add: run_lead_gated_def Let_def)
  next
    assume "r = run_self_tuned trace cap ns m"
    then show ?thesis using tuned_run_ok [OF tuned_new_ok(1) fetch_l_nonneg, of trace cap ns ns m] assms tuned_new_ok(3)
      by (simp add: run_self_tuned_def tuned_ok_def)
  qed
  then have "0 \<le> eff_latency r" by (simp add: report_fine_def eff_latency_def f64_div_nonneg f64_of_nonneg)
  then show ?thesis using a eff_le_pf_latency [of r] by (simp add: report_fine_def)
qed

lemma latency_within_upper_bound_witness:
  "eff_latency (run_self_tuned [sample_get ''a'' 1, sample_get ''b'' 1] 4 100 32)
    \<le> hybrid_pf_latency (run_self_tuned [sample_get ''a'' 1, sample_get ''b'' 1] 4 100 32)"
  using latency_within_upper_bound [of "[sample_get ''a'' 1, sample_get ''b'' 1]" "run_self_tuned [sample_get ''a'' 1, sample_get ''b'' 1] 4 100 32"
      "\<lambda>_ _. 0" null_observe null_predict 4 100 "()" 0 32] by simp

section \<open>The token bucket\<close>

lemma small_round: "0 \<le> y \<Longrightarrow> y \<le> 33 \<Longrightarrow> f64_round y \<le> y + 33 / 1000000000"
  using f64_round_coarse(2) [of y] divide_right_mono [of y 33 "1000000000"] by simp

lemma refill_bounds:
  assumes "0 \<le> t" and "t \<le> 32" and "0 \<le> x" and "x \<le> 1"
  shows "0 \<le> refill t x" and "refill t x \<le> 32" and "refill t x \<le> t + x + 33 / 1000000000"
proof -
  have y: "0 \<le> t + x" "t + x \<le> 33" using assms by linarith+
  note b = small_round [OF y] f64_round_nonneg [OF y(1)]
  show "0 \<le> refill t x" "refill t x \<le> 32" using b by (simp_all add: refill_def BURST_def f64_add_def)
  show "refill t x \<le> t + x + 33 / 1000000000" using b(1) by (simp add: refill_def f64_add_def min_le_iff_disj)
qed

lemma waste_rate: "0 \<le> WASTE_RATE" "WASTE_RATE \<le> 10001 / 1000000"
  using f64_round_coarse [of "1 / 100"] by (simp_all add: WASTE_RATE_def)

lemma charge_bounds:
  assumes "1 \<le> t" and "t \<le> 32"
  shows "0 \<le> f64_sub t 1" and "f64_sub t 1 \<le> 32" and "f64_sub t 1 \<le> t - 1 + 33 / 1000000000"
proof -
  have y: "0 \<le> t - 1" "t - 1 \<le> 33" using assms by linarith+
  note b = small_round [OF y] f64_round_nonneg [OF y(1)]
  show "0 \<le> f64_sub t 1" using b by (simp add: f64_sub_def)
  have "f64_round (t - 1) \<le> 32" "f64_round (t - 1) \<le> t - 1 + 33 / 1000000000" using b(1) assms by linarith+
  then show "f64_sub t 1 \<le> 32" "f64_sub t 1 \<le> t - 1 + 33 / 1000000000" by (simp_all add: f64_sub_def)
qed

definition earned_tokens :: "tuned \<Rightarrow> real" where
  "earned_tokens s = of_nat (hb_pf_used (tn_report s)) + of_nat (hb_accesses (tn_report s)) * (101 / 10000)"

definition spent_tokens :: "tuned \<Rightarrow> real" where
  "spent_tokens s = of_nat (hb_pf_issued (tn_report s))"

definition solvent :: "tuned \<Rightarrow> bool" where
  "solvent s \<longleftrightarrow> 0 \<le> tn_tokens s \<and> tn_tokens s \<le> 32"

lemma read_earns:
  assumes "solvent s"
  shows "solvent (tuned_read l ev s)" and "spent_tokens (tuned_read l ev s) = spent_tokens s"
    and "tn_tokens (tuned_read l ev s) \<le> tn_tokens s + earned_tokens (tuned_read l ev s) - earned_tokens s - 5 / 100000"
proof -
  obtain p info where a: "pool_access (ne_object_id ev) (ne_ts_ns ev) (tn_pool s) = (p, info)" by force
  note part = tuned_read_parts [OF a, of l]
  have t: "0 \<le> tn_tokens s" "tn_tokens s \<le> 32" using assms by (simp_all add: solvent_def)
  have w: "0 \<le> WASTE_RATE" "WASTE_RATE \<le> 1" using waste_rate by simp_all
  let ?t = "refill (tn_tokens s) WASTE_RATE"
  note r = refill_bounds [OF t w]
  note r1 = refill_bounds [OF r(1,2), of 1]
  show "solvent (tuned_read l ev s)" using r r1 by (simp add: solvent_def part Let_def)
  show "spent_tokens (tuned_read l ev s) = spent_tokens s" by (simp add: spent_tokens_def tuned_read_issued)
  show "tn_tokens (tuned_read l ev s) \<le> tn_tokens s + earned_tokens (tuned_read l ev s) - earned_tokens s - 5 / 100000"
  proof -
    have e: "earned_tokens (tuned_read l ev s) - earned_tokens s = 101 / 10000 + (if ai_hit info \<and> ai_pf_first_use info then 1 else 0)"
      by (simp add: earned_tokens_def part algebra_simps add_divide_distrib)
    have b: "?t \<le> tn_tokens s + 101 / 10000 - 5 / 100000" "refill ?t 1 \<le> tn_tokens s + 1 + 101 / 10000 - 5 / 100000"
      using r(3) r1(3) waste_rate(2) by linarith+
    have t: "tn_tokens (tuned_read l ev s) = (if ai_hit info \<and> ai_pf_first_use info then refill ?t 1 else ?t)"
      by (simp add: part Let_def)
    show ?thesis
    proof (cases "ai_hit info \<and> ai_pf_first_use info")
      case True
      then have "tn_tokens (tuned_read l ev s) = refill ?t 1"
        "earned_tokens (tuned_read l ev s) - earned_tokens s = 101 / 10000 + 1" using t e by simp_all
      then show ?thesis using b(2) by linarith
    next
      case False
      then have "tn_tokens (tuned_read l ev s) = ?t"
        "earned_tokens (tuned_read l ev s) - earned_tokens s = 101 / 10000" using t e by (simp_all only: if_False add_0_right)
      then show ?thesis using b(1) by linarith
    qed
  qed
qed

lemma issue_pays:
  assumes "solvent s"
  shows "solvent (tuned_issue l m ev s)" and "earned_tokens (tuned_issue l m ev s) = earned_tokens s"
    and "tn_tokens (tuned_issue l m ev s) + spent_tokens (tuned_issue l m ev s) \<le> tn_tokens s + spent_tokens s + 33 / 1000000000"
proof -
  let ?s = "s\<lparr>tn_mk := markov_observe ev (tn_mk s)\<rparr>"
  have "solvent (tuned_issue l m ev s) \<and> earned_tokens (tuned_issue l m ev s) = earned_tokens s
    \<and> tn_tokens (tuned_issue l m ev s) + spent_tokens (tuned_issue l m ev s) \<le> tn_tokens s + spent_tokens s + 33 / 1000000000"
  proof (cases "tuned_guess l m ev ?s")
    case None
    then show ?thesis using assms by (simp add: tuned_issue_def Let_def solvent_def earned_tokens_def spent_tokens_def)
  next
    case (Some pid)
    then have "1 \<le> tn_tokens s" using tuned_guess_SomeD [OF Some] by simp
    with charge_bounds [of "tn_tokens s"] assms show ?thesis
      by (simp add: tuned_issue_def Let_def Some solvent_def earned_tokens_def spent_tokens_def)
  qed
  then show "solvent (tuned_issue l m ev s)" and "earned_tokens (tuned_issue l m ev s) = earned_tokens s"
    and "tn_tokens (tuned_issue l m ev s) + spent_tokens (tuned_issue l m ev s) \<le> tn_tokens s + spent_tokens s + 33 / 1000000000"
    by blast+
qed

interpretation bucket: account "tuned_step l m" tn_tokens spent_tokens earned_tokens solvent for l m
proof
  fix s e
  assume s: "solvent s"
  show "0 \<le> tn_tokens s" using s by (simp add: solvent_def)
  note r = read_earns [OF s, of l e] and i = issue_pays [OF read_earns(1) [OF s, of l e], of l m e]
  have "solvent (tuned_step l m e s) \<and> tn_tokens (tuned_step l m e s) + spent_tokens (tuned_step l m e s) - spent_tokens s
      \<le> tn_tokens s + earned_tokens (tuned_step l m e s) - earned_tokens s"
  proof (cases "ne_op e = Get")
    case True
    have "solvent (tuned_drain s') = solvent s'" "tn_tokens (tuned_drain s') = tn_tokens s'"
      "spent_tokens (tuned_drain s') = spent_tokens s'" "earned_tokens (tuned_drain s') = earned_tokens s'" for s'
      by (simp_all add: solvent_def spent_tokens_def earned_tokens_def tuned_drain_ok)
    then show ?thesis using True r i by (simp add: tuned_step_def tuned_get_def)
  qed (use s in \<open>cases "ne_op e"; simp add: tuned_step_def solvent_def spent_tokens_def earned_tokens_def\<close>)
  then show "solvent (tuned_step l m e s)"
    and "tn_tokens (tuned_step l m e s) + spent_tokens (tuned_step l m e s) - spent_tokens s
      \<le> tn_tokens s + earned_tokens (tuned_step l m e s) - earned_tokens s" by blast+
qed

text \<open>C20: waste is bounded. Whatever the trace, the self-tuning run issues at most as many prefetches as are
  used, plus the cold-start burst of 32, and one for every hundred reads: the rounding of the bucket in
  floating point, over the whole run, is within a hundredth of that rate.\<close>

theorem waste_is_bounded:
  "real (hb_pf_issued (run_self_tuned trace cap ns m))
    \<le> real (hb_pf_used (run_self_tuned trace cap ns m)) + 32 + real (gets trace) * (101 / 10000)"
proof -
  have "solvent (tuned_new cap ns)" by (simp add: solvent_def tuned_new_sel)
  from bucket.spends_within [OF this, of "fetch_l ns" m trace] show ?thesis
    using tuned_run_accesses [of "fetch_l ns" m trace "tuned_new cap ns"]
    by (simp add: run_self_tuned_def spent_tokens_def earned_tokens_def tuned_new_sel)
qed

end
