(* ===== verification/Caching.thy ===== *)
theory Caching
  imports HybridProps Ladder TraceLine Churn Refetch Patterns Serial Service
begin

text \<open>
  The caching check of \<open>crates/s3tap-advisor/src/checks/caching.rs\<close>, which replays the reads of a capture
  and judges whether a cache would pay, with the list of all checks in \<open>s3tap-advisor/src/lib.rs\<close>. The
  lemmas say that it gives one verdict, that a size comes with it, and what the verdict rests on.
\<close>

section \<open>Thresholds\<close>

definition MAX_EVENTS :: nat where "MAX_EVENTS = 500000"
definition MIN_GETS :: nat where "MIN_GETS = 200"
definition NOGO_MIN_GETS :: nat where "NOGO_MIN_GETS = 2000"
definition GO_FLOOR :: real where "GO_FLOOR = f64_round (10 / 100)"
definition STRUCTURE_FLOOR :: real where "STRUCTURE_FLOOR = f64_round (10 / 100)"
definition LAT_FLOOR :: real where "LAT_FLOOR = f64_round (5 / 100)"
definition KNEE_EPS_FRAC :: real where "KNEE_EPS_FRAC = f64_round (5 / 100)"
definition POLICY_FETCH_NS :: u64 where "POLICY_FETCH_NS = 100000000"
definition POLICY_MAX_DEPTH :: nat where "POLICY_MAX_DEPTH = 32"
definition SIZE_COVERAGE_FLOOR :: real where "SIZE_COVERAGE_FLOOR = f64_round (80 / 100)"
definition RANGED_FRAC_MAX :: real where "RANGED_FRAC_MAX = f64_round (5 / 100)"
definition MIN_BYTE_RUNGS :: nat where "MIN_BYTE_RUNGS = 3"

definition knee_floor :: "real \<Rightarrow> real" where
  "knee_floor ceil = f64_sub ceil (f64_mul \<bar>ceil\<bar> KNEE_EPS_FRAC)"

section \<open>The bridge\<close>

definition is_write_op :: "operation \<Rightarrow> bool" where
  "is_write_op o' = (case o_s3_op o' of Some s \<Rightarrow> List.member WRITE_OPS s | None \<Rightarrow> False)"

definition op_record_of :: "operation \<Rightarrow> op_record" where
  "op_record_of o' =
    \<lparr>or_verb = o_verb o', or_s3_op = o_s3_op o', or_bucket = o_bucket o', or_key_hash = o_key_hash o',
     or_ts_ns = map_option (\<lambda>t. dec_string (unat t)) (o_ts_ns o'), or_http_status = o_http_status o',
     or_content_length = o_content_length o'\<rparr>"

definition to_op_records :: "capture_record list \<Rightarrow> op_record list" where
  "to_op_records records = map op_record_of (filter (\<lambda>o'. \<not> (o_partial o' \<and> \<not> is_write_op o')) (operations records))"

section \<open>Ranged reads\<close>

definition is_ranged_read :: "norm_event \<Rightarrow> bool" where "is_ranged_read e \<longleftrightarrow> ne_status e = Some 206"

definition is_whole_object_get :: "norm_event \<Rightarrow> bool" where
  "is_whole_object_get e \<longleftrightarrow> ne_op e = Get \<and> \<not> is_ranged_read e"

definition is_unplaceable_ranged_read :: "norm_event \<Rightarrow> bool" where
  "is_unplaceable_ranged_read e \<longleftrightarrow> is_ranged_read e \<and> ne_range e = None"

definition ranged_share :: "norm_event list \<Rightarrow> nat \<times> nat \<times> real" where
  "ranged_share trace =
    (let ranged = length (filter is_unplaceable_ranged_read trace);
         body = length (filter (\<lambda>e. ne_op e = Get \<or> is_ranged_read e) trace)
     in (ranged, body, rate ranged body))"

section \<open>Sizing in bytes\<close>

record sizing =
  bz_total_bytes :: u64
  bz_distinct_objects :: nat
  bz_knee_cap :: u64
  bz_knee_hit :: real
  bz_req_max :: real
  bz_egress_max :: real

definition credit_size :: "u64 option \<Rightarrow> u64 \<Rightarrow> u64" where
  "credit_size own fallback = (case own of Some s \<Rightarrow> s | None \<Rightarrow> fallback)"

text \<open>Per object, the time and size of its latest sized read.\<close>

type_synonym object_sizes = "(string, (u64 \<times> u64) option) fmap"

definition see_size :: "norm_event \<Rightarrow> object_sizes \<Rightarrow> object_sizes" where
  "see_size e m =
    entry_mod (ne_object_id e) None
      (\<lambda>slot. case ne_size e of
         None \<Rightarrow> slot
       | Some sz \<Rightarrow> (case slot of
           None \<Rightarrow> Some (ne_ts_ns e, sz)
         | Some (ts, _) \<Rightarrow> if ts \<le> ne_ts_ns e then Some (ne_ts_ns e, sz) else slot)) m"

definition latest_sizes :: "norm_event list \<Rightarrow> object_sizes" where
  "latest_sizes trace = fold see_size (filter is_whole_object_get trace) fmempty"

definition known_sizes :: "object_sizes \<Rightarrow> u64 list" where
  "known_sizes m = sort (List.map_filter (\<lambda>(_, s). map_option snd s) (sorted_list_of_fmap m))"

definition size_of_object :: "object_sizes \<Rightarrow> u64 \<Rightarrow> string \<Rightarrow> u64" where
  "size_of_object m median_size k = (case fmlookup m k of Some (Some (_, sz)) \<Rightarrow> sz | _ \<Rightarrow> median_size)"

definition byte_event :: "(string \<Rightarrow> u64) \<Rightarrow> norm_event \<Rightarrow> norm_event option" where
  "byte_event size_of e =
    (if ne_op e = Get \<and> is_whole_object_get e
     then Some (e\<lparr>ne_size := Some (credit_size (ne_size e) (size_of (ne_object_id e)))\<rparr>)
     else if ne_op e = Put \<or> ne_op e = Delete then Some e else None)"

definition byte_hit_rate :: "byte_counts \<Rightarrow> real" where "byte_hit_rate r = rate (by_hits r) (by_accesses r)"
definition byte_egress_rate :: "byte_counts \<Rightarrow> real" where
  "byte_egress_rate r = rate (unat (by_hit_bytes r)) (unat (by_total_bytes r))"

text \<open>A fold of \<open>f64::max\<close> from zero.\<close>

definition max_from_zero :: "real list \<Rightarrow> real" where "max_from_zero xs = fold max xs 0"

definition fallback_size :: "object_sizes \<Rightarrow> u64" where
  "fallback_size m = (let known = known_sizes m in max (known ! (length known div 2)) 1)"

definition working_set :: "object_sizes \<Rightarrow> u64" where
  "working_set m = fold (\<lambda>(k, _) a. sat_add a (size_of_object m (fallback_size m) k)) (sorted_list_of_fmap m) 0"

text \<open>The ladder of capacities returns for every working set (\<open>byte_ladder_correct\<close>).\<close>

definition byte_sizing :: "norm_event list \<Rightarrow> sizing option" where
  "byte_sizing trace =
    (let per_obj = latest_sizes trace in
     if per_obj = fmempty \<or> known_sizes per_obj = [] then None
     else
       (let size_of = size_of_object per_obj (fallback_size per_obj); total_bytes = working_set per_obj in
        if total_bytes = 0 then None
        else case byte_cap_ladder total_bytes of
          None \<Rightarrow> None
        | Some caps \<Rightarrow>
            (if length caps < MIN_BYTE_RUNGS then None
             else
               (let brows = sweep_bytes (List.map_filter (byte_event size_of) trace) caps;
                    req_max = max_from_zero (map (byte_hit_rate \<circ> snd) brows);
                    egress_max = max_from_zero (map (byte_egress_rate \<circ> snd) brows) in
                case find (\<lambda>r. knee_floor req_max \<le> byte_hit_rate (snd r)) brows of
                  None \<Rightarrow> None
                | Some knee \<Rightarrow> Some
                    \<lparr>bz_total_bytes = total_bytes, bz_distinct_objects = fmlen per_obj, bz_knee_cap = fst knee,
                     bz_knee_hit = byte_hit_rate (snd knee), bz_req_max = req_max, bz_egress_max = egress_max\<rparr>))))"

section \<open>Sizing in objects\<close>

definition distinct_reads :: "norm_event list \<Rightarrow> nat" where
  "distinct_reads trace = card (set (map ne_object_id (filter (\<lambda>e. ne_op e = Get) trace)))"

text \<open>Powers of two below the top: the loop of the source, which starts at two.\<close>

function doublings :: "nat \<Rightarrow> nat \<Rightarrow> nat list" where
  "doublings c hi = (if 0 < c \<and> c < hi then c # doublings (c * 2) hi else [])"
  by pat_completeness auto
termination by (relation "measure (\<lambda>(c, hi). hi - c)") auto

declare doublings.simps [simp del]

definition ladder_to :: "nat \<Rightarrow> u64 list" where
  "ladder_to hi = map of_nat (remdups_adj (doublings 2 hi @ [hi]))"

definition count_ladder :: "norm_event list \<Rightarrow> u64 list" where
  "count_ladder trace = ladder_to (max (distinct_reads trace) 2)"

definition get_row :: "sweep_row list \<Rightarrow> string \<Rightarrow> u64 \<Rightarrow> sweep_row option" where
  "get_row rows pred cap = find (\<lambda>r. sr_predictor r = pred \<and> sr_cap r = cap) rows"

definition net_of :: "sweep_row list \<Rightarrow> string \<Rightarrow> u64 \<Rightarrow> real option" where
  "net_of rows pred cap = map_option sr_net_savings (get_row rows pred cap)"

definition best_net :: "sweep_row list \<Rightarrow> string \<Rightarrow> u64 list \<Rightarrow> real" where
  "best_net rows pred caps = max_from_zero (List.map_filter (net_of rows pred) caps)"

definition knee_at :: "sweep_row list \<Rightarrow> u64 list \<Rightarrow> u64 option" where
  "knee_at rows caps =
    find (\<lambda>cap. case net_of rows ''null'' cap of Some v \<Rightarrow> knee_floor (best_net rows ''null'' caps) \<le> v | None \<Rightarrow> False) caps"

definition structure_at :: "sweep_row list \<Rightarrow> u64 \<Rightarrow> (real \<times> u64) option" where
  "structure_at rows cap =
    Option.bind (get_row rows ''null'' cap) (\<lambda>n.
    Option.bind (get_row rows ''markov'' cap) (\<lambda>mk.
    Option.bind (get_row rows ''markov2'' cap) (\<lambda>mk2.
      Some (f64_sub (max (sr_hit_rate mk) (sr_hit_rate mk2)) (sr_hit_rate n), cap))))"

definition structure_peak :: "sweep_row list \<Rightarrow> u64 list \<Rightarrow> real \<times> u64" where
  "structure_peak rows caps =
    fold (\<lambda>x acc. if fst acc < fst x then x else acc) (List.map_filter (structure_at rows) caps) (0, hd caps)"

section \<open>The findings\<close>

definition trace_window :: "norm_event list \<Rightarrow> time_window" where
  "trace_window trace =
    (case map ne_ts_ns trace of
       [] \<Rightarrow> \<lparr>tw_start = 0, tw_end = 0\<rparr>
     | t # ts \<Rightarrow> \<lparr>tw_start = fold min ts t, tw_end = fold max ts t\<rparr>)"

text \<open>\<open>mk_finding\<close>, and the one finding that carries no unit.\<close>

definition cache_finding :: "norm_event list \<Rightarrow> nat \<Rightarrow> string \<Rightarrow> severity \<Rightarrow> string \<Rightarrow> real \<Rightarrow> finding" where
  "cache_finding trace excluded fid sev metric v =
    advisory fid SrcOps DomClient sev metric (Some v) URatio whole_capture (trace_window trace)
      \<lparr>pn_judged = gets trace, pn_excluded = excluded, pn_kind = KindOperation\<rparr>"

definition size_findings :: "(string \<Rightarrow> severity \<Rightarrow> string \<Rightarrow> real \<Rightarrow> finding) \<Rightarrow> sizing option \<Rightarrow> u64 option \<Rightarrow> finding list" where
  "size_findings mk byte knee =
    (case byte of
       Some b \<Rightarrow>
         [(mk ''advisor-cache-size'' Advisory ''knee_cap_bytes'' (f64_of (unat (bz_knee_cap b))))\<lparr>fd_unit := UNone\<rparr>]
         @ (if bz_egress_max b < GO_FLOOR
            then [mk ''advisor-cache-requests-not-dollars'' Advisory ''egress_byte_savings_max'' (bz_egress_max b)] else [])
     | None \<Rightarrow>
         (case knee of
            Some k \<Rightarrow> [mk ''advisor-cache-size'' Advisory ''knee_cap_objects'' (f64_of (unat k))]
          | None \<Rightarrow> []))"

definition coverage :: "norm_event list \<Rightarrow> real" where
  "coverage trace =
    rate (length (filter (\<lambda>e. is_whole_object_get e \<and> ne_size e \<noteq> None) trace)) (length (filter is_whole_object_get trace))"

definition sized :: "norm_event list \<Rightarrow> sizing option" where
  "sized trace =
    (if SIZE_COVERAGE_FLOOR \<le> coverage trace \<and> snd (snd (ranged_share trace)) \<le> RANGED_FRAC_MAX then byte_sizing trace else None)"

text \<open>The verdict of a workload that is not ranged, and what goes with it.\<close>

definition verdict_findings ::
    "(string \<Rightarrow> severity \<Rightarrow> string \<Rightarrow> real \<Rightarrow> finding) \<Rightarrow> nat \<Rightarrow> real \<Rightarrow> real \<Rightarrow> bool \<Rightarrow> finding list \<Rightarrow> finding list" where
  "verdict_findings mk n lru_max structure hides sizes =
    (if GO_FLOOR \<le> lru_max then mk ''advisor-cache-go'' Advisory ''lru_net_savings_max'' lru_max # sizes
     else if hides then [mk ''advisor-cache-go-latency'' Advisory ''structure'' structure]
     else if NOGO_MIN_GETS \<le> n then [mk ''advisor-cache-nogo'' Advisory ''lru_net_savings_max'' lru_max]
     else [mk ''advisor-cache-unjudged'' Unjudged ''gets'' (f64_of n)])"

definition overlay_of :: "norm_event list \<Rightarrow> real \<times> u64 \<Rightarrow> hybrid_report option" where
  "overlay_of trace peak =
    (if STRUCTURE_FLOOR \<le> fst peak then Some (run_self_tuned trace (snd peak) POLICY_FETCH_NS POLICY_MAX_DEPTH) else None)"

definition hides_latency :: "hybrid_report option \<Rightarrow> bool" where
  "hides_latency st = (case st of Some r \<Rightarrow> LAT_FLOOR \<le> eff_latency r | None \<Rightarrow> False)"

definition judge_cache :: "norm_event list \<Rightarrow> nat \<Rightarrow> finding list" where
  "judge_cache trace excluded =
    (let mk = cache_finding trace excluded; n = gets trace in
     if n < MIN_GETS then []
     else if RANGED_FRAC_MAX < snd (snd (ranged_share trace))
     then [mk ''advisor-cache-unjudged'' Unjudged ''ranged_read_frac'' (snd (snd (ranged_share trace)))]
     else
       (let caps = count_ladder trace; rows = sweep_demand trace caps;
            lru_max = best_net rows ''null'' caps; peak = structure_peak rows caps; overlay = overlay_of trace peak in
        verdict_findings mk n lru_max (fst peak) (hides_latency overlay) (size_findings mk (sized trace) (knee_at rows caps))
        @ (case overlay of
             Some st \<Rightarrow> [mk ''advisor-cache-policy'' Advisory ''self_tuned_net_savings'' (hybrid_net_savings st)]
           | None \<Rightarrow> [])))"

definition advise_caching :: "op_record list \<Rightarrow> nat \<Rightarrow> finding list" where
  "advise_caching ops pre_dropped =
    (let considered = take MAX_EVENTS ops; trace = from_records considered in
     judge_cache trace (pre_dropped + (length considered - length trace)))"

section \<open>All checks\<close>

definition advise :: "capture_record list \<Rightarrow> finding list" where
  "advise records =
    check_connection_churn records @ check_serial_requests records @ check_redundant_refetch records
    @ check_head_then_get records @ check_small_objects records @ check_throttling records @ check_latency_path records
    @ (let cache_ops = to_op_records records in
       advise_caching cache_ops (length (operations records) - length cache_ops))"

end
