(* ===== verification/Study.thy ===== *)
theory Study
  imports Caching
begin

text \<open>
  The offline study of \<open>crates/s3tap-advisor/src/analyze.rs\<close>: one trace, swept over a ladder of capacities
  at one of three levels of cost, with the knee, the best demand cache there, the prefetch tradeoff and
  the verdict. The lemmas compare its verdict with the caching check of the advisor and say what a
  recommended size rests on. The texts of the report are not modelled.
\<close>

section \<open>Options and rows\<close>

definition MAX_CAP :: u64 where "MAX_CAP = 4096"
definition ANCHOR_CAP :: u64 where "ANCHOR_CAP = 64"
definition DEFAULT_BLOCK :: u64 where "DEFAULT_BLOCK = 8 * 1024 * 1024"
definition DEFAULT_MAX_EVENTS :: nat where "DEFAULT_MAX_EVENTS = 3000000"

definition RETENTION :: "string list" where "RETENTION = [''null'', ''lru+adm'', ''arc'', ''s3fifo'', ''opt'']"
definition PREFETCHERS :: "string list" where
  "PREFETCHERS = [''markov'', ''markov2'', ''cooc'', ''sequential'', ''adaptive'']"
definition NON_SEQ_RUNGS :: "string list" where "NON_SEQ_RUNGS = [''frequency'']"

record analyze_opts =
  ao_block_bytes :: "u64 option"
  ao_max_events :: nat
  ao_fast :: bool
  ao_deep :: bool

definition default_opts :: analyze_opts where
  "default_opts =
    \<lparr>ao_block_bytes = Some DEFAULT_BLOCK, ao_max_events = DEFAULT_MAX_EVENTS, ao_fast = False, ao_deep = False\<rparr>"

datatype cache_verdict = Go | GoLatency | NoGo | CannotJudge

definition policy_label :: "string \<Rightarrow> string" where
  "policy_label pred =
    (case map_of
       [(''null'', ''LRU (floor)''), (''lru+adm'', ''LRU+admission''), (''arc'', ''ARC''), (''s3fifo'', ''S3-FIFO''),
        (''opt'', ''OPT (ceiling)''), (''markov'', ''Markov-1''), (''markov2'', ''Markov-2''), (''cooc'', ''Co-occurrence''),
        (''sequential'', ''Sequential''), (''adaptive'', ''Adaptive''), (''frequency'', ''Frequency (LFU pin)'')] pred of
       Some l \<Rightarrow> l | None \<Rightarrow> pred)"

record policy_line =
  pr_policy :: string
  pr_label :: string
  pr_hit_rate :: real
  pr_net_savings :: real
  pr_pf_per_access :: real
  pr_pf_precision :: real
  pr_pf_latency :: real

definition policy_row :: "sweep_row \<Rightarrow> policy_line" where
  "policy_row r =
    \<lparr>pr_policy = sr_predictor r, pr_label = policy_label (sr_predictor r), pr_hit_rate = sr_hit_rate r,
     pr_net_savings = sr_net_savings r, pr_pf_per_access = sr_pf_per_access r, pr_pf_precision = sr_pf_precision r,
     pr_pf_latency = sr_pf_latency r\<rparr>"

text \<open>The ladder: powers of two below the working set, which is clamped between the anchor and the largest capacity.\<close>

definition cap_ladder :: "nat \<Rightarrow> u64 list" where
  "cap_ladder working = ladder_to (min (max working (unat (min ANCHOR_CAP MAX_CAP))) (unat MAX_CAP))"

section \<open>Bytes\<close>

text \<open>The fields of \<open>ByteVerdict\<close> are those of the sizing.\<close>

definition byte_verdict :: "norm_event list \<Rightarrow> nat \<Rightarrow> sizing option" where
  "byte_verdict otrace n =
    (if n = 0 then None
     else if coverage otrace < SIZE_COVERAGE_FLOOR \<or> RANGED_FRAC_MAX < snd (snd (ranged_share otrace)) then None
     else byte_sizing otrace)"

section \<open>The prefetch tradeoff\<close>

record prefetch_report =
  pv_has_structure :: bool
  pv_hides_latency :: bool
  pv_structure :: real
  pv_structure_cap :: u64
  pv_best_prefetcher :: string
  pv_best_pf_hit :: real
  pv_best_pf_latency :: real
  pv_best_pf_cost :: real
  pv_best_pf_precision :: real
  pv_overlay_net :: real
  pv_overlay_latency_hidden :: real
  pv_lru_net_at_cap :: real

definition best_pf_hit :: "sweep_row list \<Rightarrow> u64 \<Rightarrow> real" where
  "best_pf_hit rows cap = max_from_zero (List.map_filter (\<lambda>p. map_option sr_hit_rate (get_row rows p cap)) PREFETCHERS)"

fun structure_scan :: "sweep_row list \<Rightarrow> u64 list \<Rightarrow> real \<times> u64 \<Rightarrow> real \<times> u64" where
  "structure_scan rows [] acc = acc"
| "structure_scan rows (cap # caps) acc =
    structure_scan rows caps
      (case get_row rows ''null'' cap of
         None \<Rightarrow> acc
       | Some n \<Rightarrow>
           (let d = f64_sub (best_pf_hit rows cap) (sr_hit_rate n) in if fst acc < d then (d, cap) else acc))"

definition TIE12 :: real where "TIE12 = f64_round (1 / 10 ^ 12)"

text \<open>More hits first, then fewer prefetches; on a tie the earlier rung stays.\<close>

definition better_row :: "sweep_row \<Rightarrow> sweep_row \<Rightarrow> bool" where
  "better_row best cand =
    (let d = f64_sub (sr_hit_rate cand) (sr_hit_rate best) in
     TIE12 < d \<or> (\<bar>d\<bar> \<le> TIE12 \<and> sr_pf_per_access cand < f64_sub (sr_pf_per_access best) TIE12))"

definition best_row :: "sweep_row list \<Rightarrow> sweep_row option" where
  "best_row rs = (case rs of [] \<Rightarrow> None | r # rs \<Rightarrow> Some (fold (\<lambda>cand best. if better_row best cand then cand else best) rs r))"

definition net_or_zero :: "sweep_row list \<Rightarrow> string \<Rightarrow> u64 \<Rightarrow> real" where
  "net_or_zero rows p cap = (case net_of rows p cap of Some v \<Rightarrow> v | None \<Rightarrow> 0)"

text \<open>The name of the best rung is the name its row carries.\<close>

definition prefetch_verdict :: "norm_event list \<Rightarrow> sweep_row list \<Rightarrow> u64 list \<Rightarrow> prefetch_report option" where
  "prefetch_verdict strace rows caps =
    (let (structure, cap) = structure_scan rows caps (0, hd caps) in
     case best_row (List.map_filter (\<lambda>p. get_row rows p cap) PREFETCHERS) of
       None \<Rightarrow> None
     | Some br \<Rightarrow>
         (let st = run_self_tuned strace cap POLICY_FETCH_NS POLICY_MAX_DEPTH in
          Some
            \<lparr>pv_has_structure = (STRUCTURE_FLOOR \<le> structure),
             pv_hides_latency = (STRUCTURE_FLOOR \<le> structure \<and> LAT_FLOOR \<le> eff_latency st),
             pv_structure = structure, pv_structure_cap = cap, pv_best_prefetcher = sr_predictor br,
             pv_best_pf_hit = sr_hit_rate br, pv_best_pf_latency = sr_pf_latency br, pv_best_pf_cost = sr_pf_per_access br,
             pv_best_pf_precision = sr_pf_precision br, pv_overlay_net = hybrid_net_savings st,
             pv_overlay_latency_hidden = eff_latency st, pv_lru_net_at_cap = net_or_zero rows ''null'' cap\<rparr>))"

section \<open>The analysis\<close>

record trace_analysis =
  ta_verdict :: cache_verdict
  ta_events :: nat
  ta_gets :: nat
  ta_accesses :: nat
  ta_distinct :: nat
  ta_sampled :: bool
  ta_ranged_excluded :: nat
  ta_ranged_unjudged :: bool
  ta_ranged_reads :: nat
  ta_body_reads :: nat
  ta_ladder_capped :: bool
  ta_ladder_cap_bytes :: "u64 option"
  ta_cache_go :: bool
  ta_lru_max :: real
  ta_opt_max :: real
  ta_knee_cap :: u64
  ta_knee_hit :: real
  ta_recommended_cap :: "u64 option"
  ta_best_retention :: string
  ta_best_retention_net :: real
  ta_arc_delta :: real
  ta_s3fifo_delta :: real
  ta_opt_gap_at_knee :: real
  ta_rows :: "policy_line list"
  ta_byte :: "sizing option"
  ta_prefetch :: "prefetch_report option"

text \<open>The sweep, by level of cost. The demand caches may not return in the model; that they do is a theorem of theirs.\<close>

definition is_markov_row :: "sweep_row \<Rightarrow> bool" where
  "is_markov_row r \<longleftrightarrow> sr_predictor r = ''markov'' \<or> sr_predictor r = ''markov2''"

definition study_rows ::
    "(u64 \<Rightarrow> string \<Rightarrow> u64) \<Rightarrow> (nat \<Rightarrow> nat) \<Rightarrow> analyze_opts \<Rightarrow> norm_event list \<Rightarrow> u64 list \<Rightarrow> sweep_row list option" where
  "study_rows h tenth opts strace caps =
    (if ao_fast opts then sweep_retention h tenth strace caps
     else if ao_deep opts then sweep_blocks h tenth strace caps
     else map_option (\<lambda>v. v @ filter is_markov_row (sweep_demand strace caps)) (sweep_retention h tenth strace caps))"

definition knee_or_last :: "sweep_row list \<Rightarrow> u64 list \<Rightarrow> u64" where
  "knee_or_last rows caps = (case knee_at rows caps of Some c \<Rightarrow> c | None \<Rightarrow> last caps)"

definition net_or :: "sweep_row list \<Rightarrow> u64 \<Rightarrow> real \<Rightarrow> string \<Rightarrow> real" where
  "net_or rows cap d p = (case net_of rows p cap of Some v \<Rightarrow> v | None \<Rightarrow> d)"

text \<open>The best of LRU, ARC and S3-FIFO, by a margin of a billionth.\<close>

definition best_retention :: "real \<Rightarrow> real \<Rightarrow> real \<Rightarrow> string \<times> real" where
  "best_retention lru arc s3 =
    fold (\<lambda>(p, n) best. if f64_add (snd best) TIE < n then (p, n) else best) [(''arc'', arc), (''s3fifo'', s3)] (''null'', lru)"

definition policy_rows :: "bool \<Rightarrow> sweep_row list \<Rightarrow> u64 \<Rightarrow> policy_line list" where
  "policy_rows fast rows cap =
    (let found = List.map_filter (\<lambda>p. map_option policy_row (get_row rows p cap)) in
     found RETENTION @ (if fast then [] else found PREFETCHERS @ found NON_SEQ_RUNGS))"

definition study_verdict :: "bool \<Rightarrow> bool \<Rightarrow> bool \<Rightarrow> nat \<Rightarrow> cache_verdict" where
  "study_verdict ranged_unjudged cache_go hides n =
    (if ranged_unjudged then CannotJudge else if cache_go then Go else if hides then GoLatency
     else if NOGO_MIN_GETS \<le> n then NoGo else CannotJudge)"

text \<open>Everything after the sweep, from its rows.\<close>

definition analyze_rows ::
    "analyze_opts \<Rightarrow> nat \<Rightarrow> norm_event list \<Rightarrow> norm_event list \<Rightarrow> sweep_row list \<Rightarrow> u64 list \<Rightarrow> trace_analysis" where
  "analyze_rows opts n_in otrace strace rows caps =
    (let n = gets otrace; working = distinct_reads strace;
         lru_max = best_net rows ''null'' caps; knee = knee_or_last rows caps;
         lru = net_or rows knee 0 ''null''; arc = net_or rows knee lru ''arc''; s3 = net_or rows knee lru ''s3fifo'';
         best = best_retention lru arc s3;
         prefetch = (if ao_fast opts then None else prefetch_verdict strace rows caps);
         (ranged, body, frac) = ranged_share otrace; unjudged = RANGED_FRAC_MAX < frac;
         go = (\<not> unjudged \<and> GO_FLOOR \<le> lru_max);
         hides = (\<not> unjudged \<and> (case prefetch of Some p \<Rightarrow> pv_hides_latency p | None \<Rightarrow> False))
     in \<lparr>ta_verdict = study_verdict unjudged go hides n, ta_events = length otrace, ta_gets = n, ta_accesses = gets strace,
         ta_distinct = working, ta_sampled = (0 < ao_max_events opts \<and> ao_max_events opts < n_in),
         ta_ranged_excluded = length (filter (\<lambda>e. ne_status e = Some 206 \<and> ne_op e \<noteq> Get) otrace),
         ta_ranged_unjudged = unjudged, ta_ranged_reads = ranged, ta_body_reads = body,
         ta_ladder_capped = (unat MAX_CAP < working),
         ta_ladder_cap_bytes = map_option (\<lambda>b. sat_mul b MAX_CAP) (ao_block_bytes opts),
         ta_cache_go = go, ta_lru_max = lru_max, ta_opt_max = best_net rows ''opt'' caps, ta_knee_cap = knee,
         ta_knee_hit = lru, ta_recommended_cap = (if go then Some knee else None),
         ta_best_retention = fst best, ta_best_retention_net = snd best, ta_arc_delta = f64_sub arc lru,
         ta_s3fifo_delta = f64_sub s3 lru, ta_opt_gap_at_knee = max (f64_sub (net_or rows knee lru ''opt'') lru) 0,
         ta_rows = policy_rows (ao_fast opts) rows knee, ta_byte = byte_verdict otrace n, ta_prefetch = prefetch\<rparr>)"

definition sampled_trace :: "analyze_opts \<Rightarrow> norm_event list \<Rightarrow> norm_event list" where
  "sampled_trace opts otrace_in =
    (if 0 < ao_max_events opts \<and> ao_max_events opts < length otrace_in then take (ao_max_events opts) otrace_in else otrace_in)"

definition policy_trace :: "analyze_opts \<Rightarrow> norm_event list \<Rightarrow> norm_event list" where
  "policy_trace opts otrace = (case ao_block_bytes opts of Some b \<Rightarrow> to_blocks otrace b | None \<Rightarrow> otrace)"

definition analyze_trace ::
    "(u64 \<Rightarrow> string \<Rightarrow> u64) \<Rightarrow> (nat \<Rightarrow> nat) \<Rightarrow> norm_event list \<Rightarrow> analyze_opts \<Rightarrow> trace_analysis option" where
  "analyze_trace h tenth otrace_in opts =
    (let otrace = sampled_trace opts otrace_in; strace = policy_trace opts otrace; caps = cap_ladder (distinct_reads strace) in
     map_option (\<lambda>rows. analyze_rows opts (length otrace_in) otrace strace rows caps) (study_rows h tenth opts strace caps))"

end
