(* ===== verification/CachingProps.thy ===== *)
theory CachingProps
  imports Study
begin

text \<open>
  What the caching check and the study may say: one verdict with its size, a knee that is always found,
  and the two commands on the same gate.
\<close>

section \<open>Maxima and knees\<close>

lemma fold_max_mem: "fold max xs (a :: real) \<in> insert a (set xs)"
proof (induction xs arbitrary: a)
  case (Cons x xs)
  then show ?case using Cons.IH [of "max x a"] by (auto simp: max_def split: if_splits)
qed simp

lemma fold_max_ge: "a \<le> fold max xs (a :: real) \<and> (\<forall>x \<in> set xs. x \<le> fold max xs a)"
proof (induction xs arbitrary: a)
  case (Cons x xs)
  then show ?case using Cons.IH [of "max x a"] by (auto simp: le_max_iff_disj intro: order_trans [of _ "max x a"])
qed simp

lemma max_from_zero_nonneg [simp]: "0 \<le> max_from_zero xs"
  using fold_max_ge [of 0 xs] by (simp add: max_from_zero_def)

lemma max_from_zero_ge: "x \<in> set xs \<Longrightarrow> x \<le> max_from_zero xs"
  using fold_max_ge [of 0 xs] by (simp add: max_from_zero_def)

lemma max_from_zero_mem: "0 < max_from_zero xs \<Longrightarrow> max_from_zero xs \<in> set xs"
  using fold_max_mem [of xs 0] by (auto simp: max_from_zero_def)

text \<open>The threshold of a knee is at or below its ceiling, rounding included.\<close>

lemma knee_eps: "1 / 25 \<le> KNEE_EPS_FRAC" "KNEE_EPS_FRAC \<le> 3 / 50"
  using f64_round_coarse [of "5 / 100"] by (simp_all add: KNEE_EPS_FRAC_def)

lemma knee_floor_bounds:
  assumes "0 \<le> x"
  shows "knee_floor x \<le> x" and "x * (9 / 10) \<le> knee_floor x"
proof -
  let ?d = "f64_mul \<bar>x\<bar> KNEE_EPS_FRAC"
  have e: "x * (1 / 25) \<le> x * KNEE_EPS_FRAC" "x * KNEE_EPS_FRAC \<le> x * (3 / 50)"
    using mult_left_mono [OF knee_eps(1) assms] mult_left_mono [OF knee_eps(2) assms] by simp_all
  then have "0 \<le> x * KNEE_EPS_FRAC" using assms by (meson mult_nonneg_nonneg order_trans zero_le_divide_1_iff zero_le_numeral)
  from f64_round_coarse [OF this] e assms have d: "x / 30 \<le> ?d" "?d \<le> x * (7 / 100)"
    unfolding f64_mul_def abs_of_nonneg [OF assms] by linarith+
  then have "0 \<le> x - ?d" "(x - ?d) / 1000000000 \<le> x / 1000000000" using assms by (linarith, intro divide_right_mono) linarith+
  from f64_round_coarse [OF this(1)] this(2) d assms show "knee_floor x \<le> x" "x * (9 / 10) \<le> knee_floor x"
    unfolding knee_floor_def f64_sub_def by linarith+
qed

lemma rate_nonneg [simp]: "0 \<le> rate n m"
  by (simp add: rate_def f64_div_nonneg f64_of_nonneg)

lemma knee_found:
  assumes "xs \<noteq> []" and "\<forall>x \<in> set xs. 0 \<le> f x"
  shows "\<exists>x. find (\<lambda>x. knee_floor (max_from_zero (map f xs)) \<le> f x) xs = Some x
    \<and> x \<in> set xs \<and> knee_floor (max_from_zero (map f xs)) \<le> f x \<and> f x \<le> max_from_zero (map f xs)"
proof -
  let ?m = "max_from_zero (map f xs)"
  have "\<exists>x \<in> set xs. ?m \<le> f x"
  proof (cases "0 < ?m")
    case True
    then have "?m \<in> set (map f xs)" by (rule max_from_zero_mem)
    then show ?thesis by auto
  next
    case False
    then have "?m = 0" using max_from_zero_nonneg [of "map f xs"] by linarith
    then show ?thesis using assms by (cases xs) auto
  qed
  then obtain x where "x \<in> set xs" "?m \<le> f x" by blast
  moreover from this have "knee_floor ?m \<le> f x" using knee_floor_bounds(1) [of ?m] by simp
  ultimately obtain y where y: "find (\<lambda>x. knee_floor ?m \<le> f x) xs = Some y"
    by (cases "find (\<lambda>x. knee_floor ?m \<le> f x) xs") (auto simp: find_None_iff)
  then have "y \<in> set xs" "knee_floor ?m \<le> f y" by (auto simp: find_Some_iff)
  then show ?thesis using y by (auto intro: max_from_zero_ge)
qed

section \<open>The verdict of the check\<close>

definition tally :: "finding list \<Rightarrow> string \<Rightarrow> nat" where
  "tally fs i = length (filter (\<lambda>f. fd_id f = i) fs)"

lemma tally_simps [simp]: "tally [] i = 0" "tally (f # fs) i = (if fd_id f = i then 1 else 0) + tally fs i"
    "tally (fs @ gs) i = tally fs i + tally gs i"
  by (simp_all add: tally_def)

lemma cache_finding_sel [simp]: "fd_id (cache_finding trace ex i sev m v) = i"
    "fd_severity (cache_finding trace ex i sev m v) = sev" "fd_value (cache_finding trace ex i sev m v) = Some (Num v)"
    "fd_sample (cache_finding trace ex i sev m v) = \<lparr>pn_judged = gets trace, pn_excluded = ex, pn_kind = KindOperation\<rparr>"
  by (simp_all add: cache_finding_def advisory_def)

lemma GO_FLOOR_pos: "0 < GO_FLOOR"
  using f64_round_coarse [of "10 / 100"] by (simp add: GO_FLOOR_def)

lemma knee_at_found:
  assumes "0 < best_net rows ''null'' caps"
  shows "knee_at rows caps \<noteq> None"
proof -
  let ?m = "best_net rows ''null'' caps"
  have "?m \<in> set (List.map_filter (net_of rows ''null'') caps)"
    using assms unfolding best_net_def by (rule max_from_zero_mem)
  then obtain c where c: "c \<in> set caps" "net_of rows ''null'' c = Some ?m" by (auto simp: List.map_filter_def)
  have "knee_floor ?m \<le> ?m" using assms by (intro knee_floor_bounds(1)) simp
  then show ?thesis using c unfolding knee_at_def find_None_iff by auto
qed

lemma verdict_tally:
  fixes trace :: "norm_event list" and ex :: nat
  defines "mk \<equiv> cache_finding trace ex"
  shows "tally (verdict_findings mk n m st hides (size_findings mk byte knee)) ''advisor-cache-go''
      = (if GO_FLOOR \<le> m then 1 else 0)"
    "tally (verdict_findings mk n m st hides (size_findings mk byte knee)) ''advisor-cache-go-latency''
      = (if GO_FLOOR \<le> m then 0 else if hides then 1 else 0)"
    "tally (verdict_findings mk n m st hides (size_findings mk byte knee)) ''advisor-cache-nogo''
      = (if GO_FLOOR \<le> m \<or> hides then 0 else if NOGO_MIN_GETS \<le> n then 1 else 0)"
    "tally (verdict_findings mk n m st hides (size_findings mk byte knee)) ''advisor-cache-unjudged''
      = (if GO_FLOOR \<le> m \<or> hides then 0 else if NOGO_MIN_GETS \<le> n then 0 else 1)"
    "tally (verdict_findings mk n m st hides (size_findings mk byte knee)) ''advisor-cache-size''
      = (if GO_FLOOR \<le> m \<and> (byte \<noteq> None \<or> knee \<noteq> None) then 1 else 0)"
    "tally (verdict_findings mk n m st hides (size_findings mk byte knee)) ''advisor-cache-policy'' = 0"
  by (simp_all add: mk_def verdict_findings_def size_findings_def split: option.splits)

text \<open>One verdict, and a size with it. A trace of fewer than 200 reads gets no finding of the caching
  check. Any other gets exactly one verdict among go, go for latency, no-go and unjudged; exactly the go
  carries a recommended size, which is always found; and at most one policy finding goes with it.\<close>

theorem one_caching_verdict:
  "(let n = tally (judge_cache trace ex) in
     n ''advisor-cache-go'' + n ''advisor-cache-go-latency'' + n ''advisor-cache-nogo'' + n ''advisor-cache-unjudged''
       = (if gets trace < MIN_GETS then 0 else 1)
     \<and> n ''advisor-cache-size'' = n ''advisor-cache-go'' \<and> n ''advisor-cache-policy'' \<le> 1
     \<and> n ''advisor-cache-go-latency'' \<le> n ''advisor-cache-policy'')"
proof -
  let ?caps = "count_ladder trace" and ?mk = "cache_finding trace ex"
  let ?rows = "sweep_demand trace ?caps"
  let ?m = "best_net ?rows ''null'' ?caps" and ?overlay = "overlay_of trace (structure_peak ?rows ?caps)"
  have "knee_at ?rows ?caps \<noteq> None" if "GO_FLOOR \<le> ?m" using knee_at_found [of ?rows ?caps] GO_FLOOR_pos that by linarith
  then show ?thesis
    by (cases ?overlay) (auto simp: judge_cache_def Let_def verdict_tally hides_latency_def)
qed

section \<open>The byte sizing\<close>

lemma see_size_lookup:
  "fmlookup (see_size e m) k =
    (if k = ne_object_id e
     then Some (case fmlookup m k of
        Some (Some (ts, s)) \<Rightarrow> (case ne_size e of Some sz \<Rightarrow> if ts \<le> ne_ts_ns e then Some (ne_ts_ns e, sz) else Some (ts, s) | None \<Rightarrow> Some (ts, s))
      | _ \<Rightarrow> map_option (Pair (ne_ts_ns e)) (ne_size e))
     else fmlookup m k)"
  by (auto simp: see_size_def entry_mod_def split: option.splits)

lemma see_sizes_dom: "fmdom' (fold see_size es m) = fmdom' m \<union> ne_object_id ` set es"
proof (induction es arbitrary: m)
  case (Cons e es)
  have "fmdom' (see_size e m) = insert (ne_object_id e) (fmdom' m)" by (simp add: see_size_def entry_mod_def)
  then show ?case using Cons.IH [of "see_size e m"] by simp
qed simp

lemma see_sizes_sized:
  "(\<exists>k v. fmlookup (fold see_size es m) k = Some (Some v)) \<longleftrightarrow>
    (\<exists>k v. fmlookup m k = Some (Some v)) \<or> (\<exists>e \<in> set es. ne_size e \<noteq> None)"
proof (induction es arbitrary: m)
  case (Cons e es)
  have "(\<exists>k v. fmlookup (see_size e m) k = Some (Some v)) \<longleftrightarrow> (\<exists>k v. fmlookup m k = Some (Some v)) \<or> ne_size e \<noteq> None"
    (is "?l \<longleftrightarrow> ?r")
  proof
    assume ?l
    then obtain k v where "fmlookup (see_size e m) k = Some (Some v)" by blast
    then show ?r by (cases "k = ne_object_id e") (auto simp: see_size_lookup split: option.splits if_splits intro: exI [of _ k])
  next
    assume ?r
    then show ?l
    proof
      assume "\<exists>k v. fmlookup m k = Some (Some v)"
      then obtain k v where "fmlookup m k = Some (Some v)" by blast
      then show ?l by (intro exI [of _ k]) (auto simp: see_size_lookup split: option.splits prod.splits)
    next
      assume "ne_size e \<noteq> None"
      then show ?l by (intro exI [of _ "ne_object_id e"]) (auto simp: see_size_lookup split: option.splits prod.splits)
    qed
  qed
  then show ?case using Cons.IH [of "see_size e m"] by auto
qed simp

lemma known_sizes_found: "known_sizes m \<noteq> [] \<longleftrightarrow> (\<exists>k v. fmlookup m k = Some (Some v))"
proof -
  have "known_sizes m \<noteq> [] \<longleftrightarrow> (\<exists>x. x \<in> set (List.map_filter (\<lambda>(_, s). map_option snd s) (sorted_list_of_fmap m)))"
    unfolding known_sizes_def ex_in_conv by (simp add: set_empty [symmetric] del: set_empty)
  also have "\<dots> \<longleftrightarrow> (\<exists>k v. (k, Some v) \<in> set (sorted_list_of_fmap m))"
    unfolding in_map_filter
  proof (intro iffI; elim exE bexE)
    fix x p
    assume p: "p \<in> set (sorted_list_of_fmap m)" "(case p of (_, s) \<Rightarrow> map_option snd s) = Some x"
    then show "\<exists>k v. (k, Some v) \<in> set (sorted_list_of_fmap m)" by (auto split: prod.splits)
  next
    fix k v
    assume "(k, Some v) \<in> set (sorted_list_of_fmap m)"
    then show "\<exists>x. \<exists>p \<in> set (sorted_list_of_fmap m). (case p of (_, s) \<Rightarrow> map_option snd s) = Some x"
      by (intro exI [of _ "snd v"] bexI [of _ "(k, Some v)"]) auto
  qed
  finally show ?thesis by (simp add: set_sorted_list_of_fmap)
qed

lemma sized_reads: "known_sizes (latest_sizes trace) \<noteq> [] \<longleftrightarrow> list_ex (\<lambda>e. is_whole_object_get e \<and> ne_size e \<noteq> None) trace"
  using see_sizes_sized [of "filter is_whole_object_get trace" fmempty]
  by (simp only: known_sizes_found latest_sizes_def) (auto simp: list_ex_iff)

text \<open>The rungs of the ladder are fewer than three only for a working set of at most four bytes.\<close>

lemma few_rungs:
  obtains cs where "byte_cap_ladder n = Some (cs @ [max n 1])" "\<forall>c \<in> set (cs @ [max n 1]). 1 \<le> c \<and> c \<le> max n 1"
    "length (cs @ [max n 1]) < MIN_BYTE_RUNGS \<longleftrightarrow> n \<le> 4"
proof -
  let ?t = "max n 1"
  obtain cs where l: "byte_cap_ladder n = Some (cs @ [?t])" "sorted_wrt (<) (cs @ [?t])" "1 \<le> hd (cs @ [?t])"
      "map unat cs = map (\<lambda>i. unat (hd (cs @ [?t])) * 4 ^ i) [0..<length cs]" "unat ?t \<le> unat (hd (cs @ [?t])) * 4 ^ length cs"
      "hd (cs @ [?t]) = 1 \<or> MIN_RUNGS \<le> length (cs @ [?t])"
    using byte_ladder_correct [of n] by (auto simp: Let_def)
  have in_range: "\<forall>c \<in> set (cs @ [?t]). 1 \<le> c \<and> c \<le> ?t"
  proof
    fix c assume c: "c \<in> set (cs @ [?t])"
    have "hd (cs @ [?t]) \<le> c" using c l(2) by (cases cs) (auto simp: sorted_wrt_append)
    moreover have "c \<le> ?t" using c l(2) by (auto simp: sorted_wrt_append)
    ultimately show "1 \<le> c \<and> c \<le> ?t" using l(3) by (meson order_trans)
  qed
  have "length (cs @ [?t]) < MIN_BYTE_RUNGS \<longleftrightarrow> n \<le> 4"
  proof
    assume few: "length (cs @ [?t]) < MIN_BYTE_RUNGS"
    then have "hd (cs @ [?t]) = 1" using l(6) by (simp add: MIN_BYTE_RUNGS_def MIN_RUNGS_def)
    then have "unat ?t \<le> 4 ^ length cs" using l(5) by simp
    moreover have "(4 :: nat) ^ length cs \<le> 4 ^ 1" using few by (intro power_increasing) (simp_all add: MIN_BYTE_RUNGS_def)
    ultimately have "unat ?t \<le> 4" by simp
    then show "n \<le> 4" by (auto simp: word_le_nat_alt max_def split: if_splits)
  next
    assume n: "n \<le> 4"
    show "length (cs @ [?t]) < MIN_BYTE_RUNGS"
    proof (rule ccontr)
      assume "\<not> ?thesis"
      then have len: "2 \<le> length cs" by (simp add: MIN_BYTE_RUNGS_def)
      then have "unat (cs ! 1) = map unat cs ! 1" by simp
      also have "\<dots> = unat (hd (cs @ [?t])) * 4" using len unfolding l(4) by simp
      finally have "4 \<le> unat (cs ! 1)" using l(3) by (simp add: word_le_nat_alt)
      moreover have "cs ! 1 < ?t" using l(2) len by (simp add: sorted_wrt_append)
      ultimately show False using n by (auto simp: word_less_nat_alt word_le_nat_alt max_def split: if_splits)
    qed
  qed
  then show ?thesis using that l(1) in_range by blast
qed

text \<open>The size in bytes is the knee of a curve. A trace is sized in bytes exactly if some read of a whole
  object carries a size and the working set has more than four bytes. Then the size lies between
  one byte and the working set, it reaches nine tenths of the best share of hits (five per cent off, rounding
  included), and the objects counted are those read whole.\<close>

theorem byte_size_is_a_knee:
  "(byte_sizing trace \<noteq> None) =
      (list_ex (\<lambda>e. is_whole_object_get e \<and> ne_size e \<noteq> None) trace \<and> 4 < working_set (latest_sizes trace))
    \<and> (case byte_sizing trace of None \<Rightarrow> True | Some b \<Rightarrow>
        1 \<le> bz_knee_cap b \<and> bz_knee_cap b \<le> bz_total_bytes b \<and> bz_total_bytes b = working_set (latest_sizes trace)
        \<and> knee_floor (bz_req_max b) \<le> bz_knee_hit b \<and> bz_req_max b * (9 / 10) \<le> bz_knee_hit b \<and> bz_knee_hit b \<le> bz_req_max b
        \<and> bz_distinct_objects b = card (ne_object_id ` set (filter is_whole_object_get trace)))"
proof -
  let ?m = "latest_sizes trace" and ?so = "size_of_object (latest_sizes trace) (fallback_size (latest_sizes trace))"
  obtain cs where l: "byte_cap_ladder (working_set ?m) = Some (cs @ [max (working_set ?m) 1])"
      "\<forall>c \<in> set (cs @ [max (working_set ?m) 1]). 1 \<le> c \<and> c \<le> max (working_set ?m) 1"
      "length (cs @ [max (working_set ?m) 1]) < MIN_BYTE_RUNGS \<longleftrightarrow> working_set ?m \<le> 4"
    by (rule few_rungs)
  let ?rows = "sweep_bytes (List.map_filter (byte_event ?so) trace) (cs @ [max (working_set ?m) 1])"
  have "?rows \<noteq> []" by (simp add: sweep_bytes_def)
  then obtain r where r: "find (\<lambda>r. knee_floor (max_from_zero (map (byte_hit_rate \<circ> snd) ?rows)) \<le> (byte_hit_rate \<circ> snd) r) ?rows = Some r"
      "r \<in> set ?rows" "knee_floor (max_from_zero (map (byte_hit_rate \<circ> snd) ?rows)) \<le> (byte_hit_rate \<circ> snd) r"
      "(byte_hit_rate \<circ> snd) r \<le> max_from_zero (map (byte_hit_rate \<circ> snd) ?rows)"
    using knee_found [of ?rows "byte_hit_rate \<circ> snd"] by (auto simp: byte_hit_rate_def)
  have cap: "1 \<le> fst r \<and> fst r \<le> max (working_set ?m) 1" using r(2) l(2) by (auto simp: sweep_bytes_def)
  have k0: "?m = fmempty \<Longrightarrow> known_sizes ?m = []" by (simp add: known_sizes_def)
  show ?thesis
  proof (cases "known_sizes ?m = [] \<or> working_set ?m \<le> 4")
    case True
    then have "byte_sizing trace = None" using k0 l(1,3) by (auto simp: byte_sizing_def Let_def)
    then show ?thesis using True sized_reads [of trace] by (auto simp: not_less)
  next
    case False
    then have big: "4 < working_set ?m" "working_set ?m \<noteq> 0" "max (working_set ?m) 1 = working_set ?m"
      by (auto simp: not_le max_def word_le_nat_alt word_less_nat_alt)
    have "byte_sizing trace = Some
        \<lparr>bz_total_bytes = working_set ?m, bz_distinct_objects = fmlen ?m, bz_knee_cap = fst r,
         bz_knee_hit = byte_hit_rate (snd r), bz_req_max = max_from_zero (map (byte_hit_rate \<circ> snd) ?rows),
         bz_egress_max = max_from_zero (map (byte_egress_rate \<circ> snd) ?rows)\<rparr>"
      using False k0 l(1,3) r(1) big(2) by (auto simp: byte_sizing_def Let_def comp_def)
    moreover have "fmlen ?m = card (ne_object_id ` set (filter is_whole_object_get trace))"
      by (simp add: fmlen_def latest_sizes_def see_sizes_dom del: set_filter)
    ultimately show ?thesis
      using False sized_reads [of trace] big cap r(3,4) knee_floor_bounds(2) [OF max_from_zero_nonneg, of "map (byte_hit_rate \<circ> snd) ?rows"]
      by (simp del: map_append)
  qed
qed

end
