(* ===== verification/StudyProps.thy ===== *)
theory StudyProps
  imports CachingProps
begin

text \<open>
  The study returns, no policy in it beats the reference, its knee is always found, and on a trace of
  whole objects it gives the verdict of the advisor's caching check.
\<close>

section \<open>Rows by policy\<close>

lemma find_filter: "find P (filter Q xs) = find (\<lambda>x. Q x \<and> P x) xs"
  by (induction xs) auto

definition of_policy :: "string \<Rightarrow> sweep_row list \<Rightarrow> sweep_row list" where
  "of_policy p = filter (\<lambda>r. sr_predictor r = p)"

lemma get_row_of_policy: "get_row rows p c = find (\<lambda>r. sr_cap r = c) (of_policy p rows)"
  by (simp add: get_row_def of_policy_def find_filter)

text \<open>A list of rows that all carry one label, one for each capacity of a ladder.\<close>

definition row_at :: "string \<Rightarrow> (u64 \<Rightarrow> sweep_row) \<Rightarrow> bool" where
  "row_at l f \<longleftrightarrow> (\<forall>c. sr_predictor (f c) = l \<and> sr_cap (f c) = c)"

lemma of_policy_append [simp]: "of_policy p (xs @ ys) = of_policy p xs @ of_policy p ys"
  by (simp add: of_policy_def)

lemma of_policy_rows: "row_at l f \<Longrightarrow> of_policy p (map f caps) = (if p = l then map f caps else [])"
  by (auto simp: of_policy_def row_at_def filter_empty_conv)

lemma of_policy_in_order:
  assumes "row_at p f" and "sorted caps" and "of_policy p rows = map f caps"
  shows "of_policy p (in_order rank rows) = map f caps"
proof -
  have "sorted (map (\<lambda>r. (sr_cap r, rank (sr_predictor r))) (map f caps))"
    using assms(1,2) by (auto simp: row_at_def sorted_iff_nth_mono less_eq_prod_def le_less)
  then show ?thesis unfolding in_order_def of_policy_def filter_sort
    using assms(3) by (simp only: of_policy_def sort_key_id_if_sorted)
qed

lemma of_policy_in_order_Nil: "of_policy p rows = [] \<Longrightarrow> of_policy p (in_order rank rows) = []"
  by (simp add: of_policy_def in_order_def filter_sort)

lemma get_row_found:
  assumes "of_policy p rows = map f caps" and "row_at p f" and "c \<in> set caps"
  shows "get_row rows p c = Some (f c)"
proof -
  have "find (\<lambda>r. sr_cap r = c) (map f caps) = Some (f c)"
    using assms(2,3) by (induction caps) (auto simp: row_at_def)
  then show ?thesis by (simp add: get_row_of_policy assms(1))
qed

lemma get_row_missing: "of_policy p rows = [] \<Longrightarrow> get_row rows p c = None"
  by (simp add: get_row_of_policy)

section \<open>The rows of the sweeps\<close>

definition null_row :: "norm_event list \<Rightarrow> u64 \<Rightarrow> sweep_row" where
  "null_row trace c = from_report ''null'' c (Replay.run null_observe (take_predict (k_for_cap c) null_predict) trace () c)"

definition markov_row :: "string \<Rightarrow> nat \<Rightarrow> norm_event list \<Rightarrow> u64 \<Rightarrow> sweep_row" where
  "markov_row l order trace c =
    from_report l c (Replay.run markov_observe (take_predict (k_for_cap c) markov_predict) trace (markov_with_order K_MAX order) c)"

lemma row_at_report: "row_at l (\<lambda>c. from_report l c (r c))" "row_at l (\<lambda>c. count_row l (c, n c))"
  by (simp_all add: row_at_def from_report_def count_row_def demand_row_def split: prod.splits)

lemma row_at_rows [simp]: "row_at ''null'' (null_row trace)" "row_at l (markov_row l order trace)"
  unfolding null_row_def [abs_def] markov_row_def [abs_def] by (rule row_at_report)+

lemma null_rows_map: "null_rows trace caps = map (null_row trace) caps"
  by (simp add: null_rows_def report_rows_def all_caps_are_single_runs null_row_def)

lemma markov_rows_map: "markov_rows l order trace caps = map (markov_row l order trace) caps"
  by (simp add: markov_rows_def report_rows_def all_caps_are_single_runs markov_row_def)

lemma count_rows_map:
  "count_rows l (map (\<lambda>c. (c, Some (n c))) caps) = Some (map (\<lambda>c. count_row l (c, n c)) caps)"
  by (induction caps) simp_all

lemma counts_map:
  assumes "\<And>c. c \<in> set caps \<Longrightarrow> \<exists>h. f c = Some (n, h) \<and> h \<le> b c"
  shows "\<exists>g. map (\<lambda>c. (c, f c)) caps = map (\<lambda>c. (c, Some (n, g c))) caps \<and> (\<forall>c \<in> set caps. g c \<le> b c)"
proof -
  have "\<And>c. c \<in> set caps \<Longrightarrow> f c = Some (n, snd (the (f c))) \<and> snd (the (f c)) \<le> b c" using assms by force
  then show ?thesis by (intro exI [of _ "\<lambda>c. snd (the (f c))"]) auto
qed

definition hits_row :: "string \<Rightarrow> norm_event list \<Rightarrow> (u64 \<Rightarrow> nat) \<Rightarrow> u64 \<Rightarrow> sweep_row" where
  "hits_row l trace n c = count_row l (c, gets trace, n c)"

lemma row_at_hits [simp]: "row_at l (hits_row l trace n)"
  unfolding hits_row_def [abs_def] by (rule row_at_report)

definition fine_caps :: "u64 list \<Rightarrow> bool" where
  "fine_caps caps \<longleftrightarrow> caps \<noteq> [] \<and> sorted caps \<and> (\<forall>c \<in> set caps. 1 \<le> unat c \<and> unat c < 2 ^ 63)"

lemma retention_rows_map:
  assumes "fine_caps caps" and "length trace < 2 ^ 63 - 2"
  obtains adm arc s3 where "retention_rows h tenth trace caps = Some (map (hits_row ''opt'' trace (opt_hits trace)) caps
      @ map (hits_row ''lru+adm'' trace adm) caps @ map (hits_row ''arc'' trace arc) caps @ map (hits_row ''s3fifo'' trace s3) caps)"
    and "\<And>c. c \<in> set caps \<Longrightarrow> arc c \<le> opt_hits trace c" and "\<And>c. c \<in> set caps \<Longrightarrow> s3 c \<le> opt_hits trace c"
proof -
  have c: "1 \<le> unat c" "unat c < 2 ^ 63" if "c \<in> set caps" for c using assms(1) that by (auto simp: fine_caps_def)
  note below = policies_below [OF c assms(2)]
  obtain adm where adm: "eval_admission_caps h trace caps = map (\<lambda>c. (c, Some (gets trace, adm c))) caps"
    using counts_map [of caps "\<lambda>c. replay_loop (admission_access h) admission_invalidate trace (admission_new c) 0 0", OF below(4)]
    unfolding eval_admission_caps_def by blast
  obtain arc where arc: "eval_arc_caps trace caps = map (\<lambda>c. (c, Some (gets trace, arc c))) caps" "\<forall>c \<in> set caps. arc c \<le> opt_hits trace c"
    using counts_map [of caps "\<lambda>c. replay_loop arc_step arc_invalidate trace (arc_new (unat c)) 0 0", OF below(5)]
    unfolding eval_arc_caps_def by blast
  obtain s3 where s3: "eval_s3fifo_caps tenth trace caps = map (\<lambda>c. (c, Some (gets trace, s3 c))) caps" "\<forall>c \<in> set caps. s3 c \<le> opt_hits trace c"
    using counts_map [of caps "\<lambda>c. replay_loop s3_access s3_invalidate trace (s3_new tenth (unat c)) 0 0", OF below(6)]
    unfolding eval_s3fifo_caps_def by blast
  have "opt_rows trace caps = map (hits_row ''opt'' trace (opt_hits trace)) caps"
    using below(1) by (simp add: opt_rows_def belady_hit_rates_def hits_row_def)
  then show ?thesis
    using that [of adm arc s3] arc(2) s3(2) unfolding retention_rows_def adm arc(1) s3(1) count_rows_map
    by (simp add: hits_row_def [abs_def])
qed

section \<open>The ladder\<close>

lemma doublings_range: "0 < c \<Longrightarrow> sorted (doublings c hi) \<and> (\<forall>x \<in> set (doublings c hi). c \<le> x \<and> x < hi)"
proof (induction c hi rule: doublings.induct)
  case (1 c hi)
  show ?case
  proof (cases "c < hi")
    case True
    then have "sorted (doublings (c * 2) hi)" "\<forall>x \<in> set (doublings (c * 2) hi). c * 2 \<le> x \<and> x < hi" using 1 by auto
    then show ?thesis using True 1(2) by (subst (1 2) doublings.simps) auto
  qed (subst (1 2) doublings.simps, simp)
qed

lemma ladder_fine:
  assumes "2 \<le> hi" and "hi < 2 ^ 63"
  shows "fine_caps (ladder_to hi)"
proof -
  let ?xs = "remdups_adj (doublings 2 hi @ [hi])"
  have d: "sorted (doublings 2 hi)" "\<forall>x \<in> set (doublings 2 hi). 2 \<le> x \<and> x < hi" using doublings_range [of 2 hi] by auto
  then have "sorted ?xs" by (auto simp: sorted_append sorted_remdups_adj less_imp_le)
  have r: "\<forall>x \<in> set ?xs. 2 \<le> x \<and> x < 2 ^ 63" using d(2) assms by auto
  then have u: "unat (of_nat x :: u64) = x" if "x \<in> set ?xs" for x using that by (auto simp: unat_of_nat)
  have "sorted (map (of_nat :: nat \<Rightarrow> u64) ?xs)"
    unfolding sorted_map by (rule sorted_wrt_mono_rel [OF _ \<open>sorted ?xs\<close>]) (simp add: word_le_nat_alt u)
  then show ?thesis using u r by (auto simp: fine_caps_def ladder_to_def)
qed

section \<open>The rows of the study\<close>

lemma of_policy_report_rows: "of_policy p (report_rows l rs) = (if p = l then report_rows l rs else [])"
  by (auto simp: of_policy_def report_rows_def from_report_def filter_empty_conv filter_id_conv)

lemma row_at_adaptive [simp]: "row_at ''adaptive'' (adaptive_row trace)"
  unfolding adaptive_row_def [abs_def] by (rule row_at_report)

lemmas of_policy_map [simp] = of_policy_rows [OF row_at_rows(1)] of_policy_rows [OF row_at_rows(2)]
  of_policy_rows [OF row_at_hits] of_policy_rows [OF row_at_adaptive]

definition demand_rows :: "norm_event list \<Rightarrow> u64 list \<Rightarrow> (u64 \<Rightarrow> nat) \<Rightarrow> (u64 \<Rightarrow> nat) \<Rightarrow> sweep_row list \<Rightarrow> bool" where
  "demand_rows trace caps arc s3 rows \<longleftrightarrow>
    of_policy ''null'' rows = map (null_row trace) caps
    \<and> of_policy ''opt'' rows = map (hits_row ''opt'' trace (opt_hits trace)) caps
    \<and> of_policy ''arc'' rows = map (hits_row ''arc'' trace arc) caps
    \<and> of_policy ''s3fifo'' rows = map (hits_row ''s3fifo'' trace s3) caps"

lemma demand_rows_in_order:
  "sorted caps \<Longrightarrow> demand_rows trace caps arc s3 rows \<Longrightarrow> demand_rows trace caps arc s3 (in_order rank rows)"
  unfolding demand_rows_def by (auto intro!: of_policy_in_order)

lemma study_rows_found:
  assumes "fine_caps caps" and "length trace < 2 ^ 63 - 2"
  shows "\<exists>rows arc s3. study_rows h tenth opts trace caps = Some rows \<and> demand_rows trace caps arc s3 rows
    \<and> (\<forall>c \<in> set caps. arc c \<le> opt_hits trace c \<and> s3 c \<le> opt_hits trace c)"
proof -
  obtain adm arc s3 where ret: "retention_rows h tenth trace caps = Some (map (hits_row ''opt'' trace (opt_hits trace)) caps
      @ map (hits_row ''lru+adm'' trace adm) caps @ map (hits_row ''arc'' trace arc) caps @ map (hits_row ''s3fifo'' trace s3) caps)"
      (is "_ = Some ?ret")
    and le: "\<And>c. c \<in> set caps \<Longrightarrow> arc c \<le> opt_hits trace c" "\<And>c. c \<in> set caps \<Longrightarrow> s3 c \<le> opt_hits trace c"
    by (rule retention_rows_map [OF assms, of h tenth]) blast
  have s: "sorted caps" using assms(1) by (simp add: fine_caps_def)
  have null: "demand_rows trace caps arc s3 (null_rows trace caps @ ?ret)"
    by (simp add: demand_rows_def null_rows_map)
  obtain rows where rows: "study_rows h tenth opts trace caps = Some rows" and d: "demand_rows trace caps arc s3 rows"
  proof (cases "\<not> ao_fast opts \<and> ao_deep opts")
    case True
    have "demand_rows trace caps arc s3 (null_rows trace caps @ xs @ ?ret)"
      if "of_policy ''null'' xs = []" "of_policy ''opt'' xs = []" "of_policy ''arc'' xs = []" "of_policy ''s3fifo'' xs = []" for xs
      using null that by (simp add: demand_rows_def)
    note deep = this [of "report_rows ''frequency'' (eval_all_caps freq_observe freq_predict trace caps (freq_new K_MAX))
         @ markov_rows ''markov'' 1 trace caps @ markov_rows ''markov2'' 2 trace caps
         @ report_rows ''cooc'' (eval_all_caps cooc_observe cooc_predict trace caps (cooc_new K_MAX))
         @ report_rows ''sequential'' (eval_all_caps seq_observe seq_predict trace caps K_MAX)
         @ map (adaptive_row trace) caps"]
    then show ?thesis using that True demand_rows_in_order [OF s deep]
      by (simp add: study_rows_def sweep_blocks_def sweep_impl_def ret of_policy_report_rows markov_rows_map)
  next
    case False
    have m: "of_policy p (filter is_markov_row xs) = []" if "p \<noteq> ''markov''" "p \<noteq> ''markov2''" for p xs
      using that by (auto simp: of_policy_def is_markov_row_def filter_empty_conv)
    have "demand_rows trace caps arc s3 (in_order rank (null_rows trace caps @ ?ret))" for rank
      by (rule demand_rows_in_order [OF s null])
    then show ?thesis using that False
      by (cases "ao_fast opts") (simp_all add: study_rows_def sweep_retention_def ret demand_rows_def m)
  qed
  then show ?thesis using le by blast
qed

section \<open>Rates\<close>

lemma rate_mono: "n \<le> m \<Longrightarrow> rate n a \<le> rate m a"
  by (simp add: rate_def f64_div_def f64_round_mono divide_right_mono f64_of_mono f64_of_nonneg)

lemma rate_zero [simp]: "rate 0 a = 0"
  by (simp add: rate_def f64_div_def f64_of_def f64_round_def)

lemma sub_zero_rate [simp]: "f64_sub (rate n a) 0 = rate n a"
  by (simp add: f64_sub_def rate_def f64_div_def f64_round_idem f64_of_nonneg) (simp add: f64_round_def)

lemma take_null [simp]: "take_predict k null_predict = null_predict"
  by (simp add: fun_eq_iff take_predict_def null_predict_def)

lemma run_loop_null_issued:
  "re_prefetch_issued (snd (run_loop null_observe null_predict evs p sr)) = re_prefetch_issued (snd sr)"
proof (induction evs arbitrary: p sr)
  case (Cons ev evs)
  have "re_prefetch_issued (snd (read_step k sr)) = re_prefetch_issued (snd sr)" for k
    by (cases sr) (simp add: read_step_def Let_def split: prod.split sim_result.split)
  then show ?case using Cons.IH by (cases "ne_op ev") (auto simp: null_predict_def null_observe_def split_beta)
qed simp

definition lru_hits :: "norm_event list \<Rightarrow> u64 \<Rightarrow> nat" where
  "lru_hits trace c = re_hits (Replay.run null_observe null_predict trace () c)"

lemma null_row_net:
  assumes "1 \<le> unat c" and "unat c < 2 ^ 63" and "length trace < 2 ^ 63 - 2"
  shows "sr_net_savings (null_row trace c) = rate (lru_hits trace c) (gets trace)"
    and "sr_hit_rate (null_row trace c) = rate (lru_hits trace c) (gets trace)"
proof -
  have "re_prefetch_issued (Replay.run null_observe null_predict trace () c) = 0"
    by (simp add: Replay.run_def run_loop_null_issued report_default_def)
  then show "sr_net_savings (null_row trace c) = rate (lru_hits trace c) (gets trace)"
    and "sr_hit_rate (null_row trace c) = rate (lru_hits trace c) (gets trace)"
    using policies_below(2) [OF assms]
    by (simp_all add: null_row_def from_report_def net_savings_def reuse_benefit_def prefetch_cost_def hit_rate_def lru_hits_def)
qed

lemma demand_nets:
  assumes "fine_caps caps" and "length trace < 2 ^ 63 - 2" and "demand_rows trace caps arc s3 rows" and "c \<in> set caps"
  shows "net_of rows ''null'' c = Some (rate (lru_hits trace c) (gets trace))"
    and "net_of rows ''opt'' c = Some (rate (opt_hits trace c) (gets trace))"
    and "net_of rows ''arc'' c = Some (rate (arc c) (gets trace))"
    and "net_of rows ''s3fifo'' c = Some (rate (s3 c) (gets trace))"
    and "lru_hits trace c \<le> opt_hits trace c"
proof -
  have c: "1 \<le> unat c" "unat c < 2 ^ 63" using assms(1,4) by (auto simp: fine_caps_def)
  note d = assms(3) [unfolded demand_rows_def]
  show "net_of rows ''null'' c = Some (rate (lru_hits trace c) (gets trace))"
    using get_row_found [OF d [THEN conjunct1] row_at_rows(1) assms(4)] null_row_net [OF c assms(2)] by (simp add: net_of_def)
  have h: "sr_net_savings (hits_row l trace n c) = rate (n c) (gets trace)" for l n
    by (simp add: hits_row_def count_row_def demand_row_def)
  show "net_of rows ''opt'' c = Some (rate (opt_hits trace c) (gets trace))"
    "net_of rows ''arc'' c = Some (rate (arc c) (gets trace))" "net_of rows ''s3fifo'' c = Some (rate (s3 c) (gets trace))"
    using d h [of "''opt''" "opt_hits trace"] h [of "''arc''" arc] h [of "''s3fifo''" s3]
      get_row_found [OF _ row_at_hits [of "''opt''" trace "opt_hits trace"] assms(4), of rows]
      get_row_found [OF _ row_at_hits [of "''arc''" trace arc] assms(4), of rows]
      get_row_found [OF _ row_at_hits [of "''s3fifo''" trace s3] assms(4), of rows]
    by (simp_all add: net_of_def)
  show "lru_hits trace c \<le> opt_hits trace c" unfolding lru_hits_def by (rule policies_below(3) [OF c assms(2)])
qed

lemma best_net_map:
  assumes "\<And>c. c \<in> set caps \<Longrightarrow> net_of rows p c = Some (g c)"
  shows "best_net rows p caps = max_from_zero (map g caps)"
proof -
  have "List.map_filter (net_of rows p) caps = map g caps"
    using assms by (induction caps) (simp_all add: map_filter_simps)
  then show ?thesis by (simp add: best_net_def)
qed

lemma knee_of_nets:
  assumes "caps \<noteq> []" and "\<And>c. c \<in> set caps \<Longrightarrow> net_of rows ''null'' c = Some (g c)" and "\<forall>c \<in> set caps. 0 \<le> g c"
  shows "\<exists>c. knee_at rows caps = Some c \<and> c \<in> set caps
    \<and> knee_floor (best_net rows ''null'' caps) \<le> g c \<and> g c \<le> best_net rows ''null'' caps"
proof -
  have b: "best_net rows ''null'' caps = max_from_zero (map g caps)" by (rule best_net_map) (rule assms(2))
  have "knee_at rows caps = find (\<lambda>c. knee_floor (max_from_zero (map g caps)) \<le> g c) caps"
    unfolding knee_at_def b using assms(2) by (intro find_cong) auto
  then show ?thesis using knee_found [OF assms(1,3)] b by simp
qed

lemma max_from_zero_mono:
  assumes "\<And>c. c \<in> set cs \<Longrightarrow> f c \<le> g c"
  shows "max_from_zero (map f cs) \<le> max_from_zero (map g cs)"
proof (cases "0 < max_from_zero (map f cs)")
  case True
  from max_from_zero_mem [OF this] obtain c where "c \<in> set cs" "max_from_zero (map f cs) = f c" by auto
  then show ?thesis using assms max_from_zero_ge [of "g c" "map g cs"] by fastforce
next
  case False
  then show ?thesis by (rule order.trans [OF leI max_from_zero_nonneg])
qed

lemma best_retention_le: "lru \<le> b \<Longrightarrow> arc \<le> b \<Longrightarrow> s3 \<le> b \<Longrightarrow> snd (best_retention lru arc s3) \<le> b"
  by (simp add: best_retention_def)

section \<open>The study\<close>

lemma study_ladder: "fine_caps (cap_ladder n)"
  unfolding cap_ladder_def by (rule ladder_fine) (simp_all add: ANCHOR_CAP_def MAX_CAP_def)

lemma policy_trace_length:
  assumes "length trace < 2 ^ 49"
  shows "length (policy_trace opts trace) < 2 ^ 63 - 2"
proof -
  have "length (to_blocks trace b) < 2 ^ 63 - 2" for b
  proof -
    have "length (to_blocks trace b) \<le> 8192 * gets trace + 4096 * length (filter IbmTrace.is_write trace)"
      using blocks_linear [of trace b] by blast
    also have "\<dots> \<le> 8192 * length trace + 4096 * length trace"
      by (intro add_mono mult_left_mono gets_le_length length_filter_le) simp_all
    finally show ?thesis using assms by simp
  qed
  then show ?thesis using assms by (simp add: policy_trace_def split: option.split)
qed

text \<open>C17: the study returns and keeps its promises. Whatever the options, on a trace of fewer than \<open>2 ^ 49\<close> events
  the analysis returns. Neither the best LRU of the ladder nor the best of LRU, ARC and S3-FIFO at the knee
  saves more than the reference of the sweep. The savings at the knee are at most those of the best LRU
  and within the tolerance of it. The verdict is to cache exactly if the best LRU saves a tenth of the
  reads and at most a twentieth of the body reads are ranged without a known extent; only then is a size
  recommended, that of the knee; and a trace with more such reads is not judged.\<close>

theorem study_is_sound:
  assumes "length trace < 2 ^ 49"
  shows "\<exists>a. analyze_trace h tenth trace opts = Some a
    \<and> ta_lru_max a \<le> ta_opt_max a \<and> ta_best_retention_net a \<le> ta_opt_max a
    \<and> knee_floor (ta_lru_max a) \<le> ta_knee_hit a \<and> ta_knee_hit a \<le> ta_lru_max a
    \<and> ta_recommended_cap a = (if ta_verdict a = Go then Some (ta_knee_cap a) else None)
    \<and> (ta_verdict a = Go) = (\<not> ta_ranged_unjudged a \<and> GO_FLOOR \<le> ta_lru_max a)
    \<and> ta_ranged_unjudged a = (RANGED_FRAC_MAX < snd (snd (ranged_share (sampled_trace opts trace))))
    \<and> (ta_ranged_unjudged a \<longrightarrow> ta_verdict a = CannotJudge)"
proof -
  let ?o = "sampled_trace opts trace"
  let ?s = "policy_trace opts ?o"
  let ?caps = "cap_ladder (distinct_reads ?s)"
  have "length ?o < 2 ^ 49" using assms by (simp add: sampled_trace_def)
  note len = policy_trace_length [OF this, of opts]
  note fine = study_ladder [of "distinct_reads ?s"]
  obtain rows arc s3 where rows: "study_rows h tenth opts ?s ?caps = Some rows" "demand_rows ?s ?caps arc s3 rows"
      "\<forall>c \<in> set ?caps. arc c \<le> opt_hits ?s c \<and> s3 c \<le> opt_hits ?s c"
    using study_rows_found [OF fine len, of h tenth opts] by blast
  note nets = demand_nets [OF fine len rows(2)]
  let ?r = "\<lambda>n c. rate (n c) (gets ?s)"
  have best: "best_net rows ''null'' ?caps = max_from_zero (map (?r (lru_hits ?s)) ?caps)"
    "best_net rows ''opt'' ?caps = max_from_zero (map (?r (opt_hits ?s)) ?caps)"
    using nets(1,2) by (auto intro: best_net_map)
  have ne: "?caps \<noteq> []" using fine by (simp add: fine_caps_def)
  obtain k where k: "knee_at rows ?caps = Some k" "k \<in> set ?caps" "knee_floor (best_net rows ''null'' ?caps) \<le> ?r (lru_hits ?s) k"
      "?r (lru_hits ?s) k \<le> best_net rows ''null'' ?caps"
    using knee_of_nets [of ?caps rows "?r (lru_hits ?s)", OF ne nets(1)] by auto
  have lo: "best_net rows ''null'' ?caps \<le> best_net rows ''opt'' ?caps"
    unfolding best by (rule max_from_zero_mono) (simp add: rate_mono nets(5))
  have "?r (opt_hits ?s) k \<le> best_net rows ''opt'' ?caps"
    unfolding best by (rule max_from_zero_ge) (use k(2) in auto)
  then have le: "?r (lru_hits ?s) k \<le> best_net rows ''opt'' ?caps" "?r arc k \<le> best_net rows ''opt'' ?caps" "?r s3 k \<le> best_net rows ''opt'' ?caps"
    using rows(3) nets(5) k(2) rate_mono order.trans by blast+
  show ?thesis
    unfolding analyze_trace_def Let_def rows(1)
    using k nets [OF k(2)] lo best_retention_le [OF le]
    by (simp add: analyze_rows_def Let_def knee_or_last_def net_or_def study_verdict_def split: prod.split)
qed

lemma study_is_sound_witness:
  "\<exists>a. analyze_trace (\<lambda>_ _. 0) (\<lambda>n. n div 10) [sample_get ''a'' 3, sample_get ''a'' 3] default_opts = Some a
    \<and> ta_lru_max a \<le> ta_opt_max a"
  using study_is_sound [of "[sample_get ''a'' 3, sample_get ''a'' 3]" "\<lambda>_ _. 0" "\<lambda>n. n div 10" default_opts] by auto

section \<open>Two commands\<close>

text \<open>The rows of the default level are those of the advisor's sweep, as far as that reads them.\<close>

lemma of_policy_filter: "of_policy p (filter Q xs) = filter Q (of_policy p xs)"
  by (simp add: of_policy_def conj_commute)

definition reads_alike :: "sweep_row list \<Rightarrow> sweep_row list \<Rightarrow> bool" where
  "reads_alike rows demand \<longleftrightarrow>
    of_policy ''null'' rows = of_policy ''null'' demand \<and> of_policy ''markov'' rows = of_policy ''markov'' demand
    \<and> of_policy ''markov2'' rows = of_policy ''markov2'' demand
    \<and> of_policy ''cooc'' rows = [] \<and> of_policy ''sequential'' rows = [] \<and> of_policy ''adaptive'' rows = []"

lemma sweep_demand_policies:
  "of_policy ''null'' (sweep_demand trace caps) = map (null_row trace) caps"
  "of_policy ''markov'' (sweep_demand trace caps) = map (markov_row ''markov'' 1 trace) caps"
  "of_policy ''markov2'' (sweep_demand trace caps) = map (markov_row ''markov2'' 2 trace) caps"
  "p \<notin> {''null'', ''markov'', ''markov2''} \<Longrightarrow> of_policy p (sweep_demand trace caps) = []"
  by (simp_all add: sweep_demand_def null_rows_map markov_rows_map)

lemma study_rows_alike:
  assumes "fine_caps caps" and "length trace < 2 ^ 63 - 2" and "\<not> ao_fast opts" and "\<not> ao_deep opts"
  shows "\<exists>rows. study_rows h tenth opts trace caps = Some rows \<and> reads_alike rows (sweep_demand trace caps)"
proof -
  obtain adm arc s3 where ret: "retention_rows h tenth trace caps = Some (map (hits_row ''opt'' trace (opt_hits trace)) caps
      @ map (hits_row ''lru+adm'' trace adm) caps @ map (hits_row ''arc'' trace arc) caps @ map (hits_row ''s3fifo'' trace s3) caps)"
      (is "_ = Some ?ret")
    by (rule retention_rows_map [OF assms(1,2), of h tenth]) blast
  let ?xs = "null_rows trace caps @ ?ret"
  have s: "sorted caps" using assms(1) by (simp add: fine_caps_def)
  have "of_policy ''null'' (in_order rank ?xs) = map (null_row trace) caps" for rank
    by (rule of_policy_in_order [OF row_at_rows(1) s]) (simp add: null_rows_map)
  moreover have "of_policy p (in_order rank ?xs) = []" if "p \<in> {''markov'', ''markov2'', ''cooc'', ''sequential'', ''adaptive''}" for p rank
    using that by (intro of_policy_in_order_Nil) (auto simp: null_rows_map)
  moreover have "filter is_markov_row (map (markov_row l order trace) caps) = map (markov_row l order trace) caps"
    if "l \<in> {''markov'', ''markov2''}" for l order
    using that row_at_rows(2) [of l order trace] by (auto simp: filter_id_conv is_markov_row_def row_at_def)
  moreover have "filter is_markov_row (map (null_row trace) caps) = []"
    using row_at_rows(1) [of trace] by (auto simp: filter_empty_conv is_markov_row_def row_at_def)
  ultimately show ?thesis using assms(3,4)
    by (simp add: study_rows_def sweep_retention_def ret reads_alike_def sweep_demand_policies of_policy_filter)
qed

lemma alike_get_row:
  assumes "reads_alike rows demand" and "p \<in> {''null'', ''markov'', ''markov2''}"
  shows "get_row rows p c = get_row demand p c"
  using assms by (auto simp: get_row_of_policy reads_alike_def)

lemma demand_get_row:
  assumes "c \<in> set caps"
  shows "get_row (sweep_demand trace caps) ''null'' c = Some (null_row trace c)"
    and "get_row (sweep_demand trace caps) ''markov'' c = Some (markov_row ''markov'' 1 trace c)"
    and "get_row (sweep_demand trace caps) ''markov2'' c = Some (markov_row ''markov2'' 2 trace c)"
  using get_row_found [OF sweep_demand_policies(1) row_at_rows(1) assms] get_row_found [OF sweep_demand_policies(2) row_at_rows(2) assms]
    get_row_found [OF sweep_demand_policies(3) row_at_rows(2) assms] by blast+

lemma hit_rate_nonneg: "0 \<le> sr_hit_rate (markov_row l order trace c)"
  by (simp add: markov_row_def from_report_def hit_rate_def)

lemma alike_best_hit:
  assumes "reads_alike rows (sweep_demand trace caps)" and "c \<in> set caps"
  shows "best_pf_hit rows c =
    max (sr_hit_rate (markov_row ''markov'' 1 trace c)) (sr_hit_rate (markov_row ''markov2'' 2 trace c))"
proof -
  have "get_row rows p c = None" if "p \<in> {''cooc'', ''sequential'', ''adaptive''}" for p
    using assms(1) that by (auto simp: reads_alike_def intro: get_row_missing)
  then show ?thesis
    using alike_get_row [OF assms(1), of "''markov''" c] alike_get_row [OF assms(1), of "''markov2''" c] demand_get_row [OF assms(2)]
      hit_rate_nonneg [of "''markov''" 1 trace c] hit_rate_nonneg [of "''markov2''" 2 trace c]
    by (simp add: best_pf_hit_def PREFETCHERS_def map_filter_simps max_from_zero_def max.commute)
qed

lemma structure_scan_alike:
  assumes "reads_alike rows (sweep_demand trace caps)" and "set cs \<subseteq> set caps"
  shows "structure_scan rows cs acc =
    fold (\<lambda>x acc. if fst acc < fst x then x else acc) (List.map_filter (structure_at (sweep_demand trace caps)) cs) acc"
  using assms(2)
proof (induction cs arbitrary: acc)
  case (Cons c cs)
  then have c: "c \<in> set caps" by simp
  have "get_row rows ''null'' c = Some (null_row trace c)"
    using alike_get_row [OF assms(1), of "''null''" c] demand_get_row(1) [OF c] by simp
  moreover have "structure_at (sweep_demand trace caps) c = Some (f64_sub (best_pf_hit rows c) (sr_hit_rate (null_row trace c)), c)"
    by (simp add: structure_at_def demand_get_row [OF c] alike_best_hit [OF assms(1) c])
  ultimately show ?case using Cons by (simp add: map_filter_simps Let_def)
qed (simp add: map_filter_simps)

lemma structure_scan_cap: "snd (structure_scan rows cs acc) \<in> insert (snd acc) (set cs)"
proof (induction cs arbitrary: acc)
  case (Cons c cs)
  let ?acc = "case get_row rows ''null'' c of None \<Rightarrow> acc
    | Some n \<Rightarrow> (let d = f64_sub (best_pf_hit rows c) (sr_hit_rate n) in if fst acc < d then (d, c) else acc)"
  have "snd ?acc \<in> {snd acc, c}" by (auto simp: Let_def split: option.split)
  then show ?case using Cons.IH [of ?acc] by auto
qed simp

lemma net_of_alike: "reads_alike rows demand \<Longrightarrow> net_of rows ''null'' = net_of demand ''null''"
  using alike_get_row [of rows demand "''null''"] by (simp add: net_of_def fun_eq_iff)

text \<open>The finding of the advisor for a verdict of the study.\<close>

definition verdict_finding :: "cache_verdict \<Rightarrow> string" where
  "verdict_finding v =
    (case v of Go \<Rightarrow> ''advisor-cache-go'' | GoLatency \<Rightarrow> ''advisor-cache-go-latency''
     | NoGo \<Rightarrow> ''advisor-cache-nogo'' | CannotJudge \<Rightarrow> ''advisor-cache-unjudged'')"

lemma same_verdict:
  assumes "reads_alike rows (sweep_demand trace caps)" and "caps = count_ladder trace" and "caps \<noteq> []"
    and "MIN_GETS \<le> gets trace" and "\<not> ao_fast opts"
    and a: "a = analyze_rows opts n trace trace rows caps"
  shows "tally (judge_cache trace ex) (verdict_finding (ta_verdict a)) = 1"
    and "ta_lru_max a = best_net (sweep_demand trace caps) ''null'' caps"
    and "ta_knee_cap a = knee_or_last (sweep_demand trace caps) caps"
    and "ta_byte a = sized trace"
proof -
  let ?d = "sweep_demand trace caps"
  let ?peak = "structure_peak ?d caps"
  have b: "best_net rows ''null'' caps = best_net ?d ''null'' caps" by (simp add: best_net_def net_of_alike [OF assms(1)])
  have best: "best_net rows ''null'' caps = best_net ?d ''null'' caps" "knee_at rows caps = knee_at ?d caps"
    unfolding knee_at_def net_of_alike [OF assms(1)] b by (rule refl)+
  then show "ta_lru_max a = best_net ?d ''null'' caps" "ta_knee_cap a = knee_or_last ?d caps"
    by (simp_all add: a analyze_rows_def Let_def knee_or_last_def split: prod.split)
  have n: "gets trace \<noteq> 0" using assms(4) by (simp add: MIN_GETS_def)
  then show "ta_byte a = sized trace"
    by (simp add: a analyze_rows_def Let_def byte_verdict_def sized_def not_less split: prod.split)
  have scan: "structure_scan rows caps (0, hd caps) = ?peak"
    by (simp add: structure_scan_alike [OF assms(1)] structure_peak_def)
  have cap: "snd ?peak \<in> set caps" using structure_scan_cap [of rows caps "(0, hd caps)"] assms(3) unfolding scan by auto
  obtain br where "best_row (List.map_filter (\<lambda>p. get_row rows p (snd ?peak)) PREFETCHERS) = Some br"
    using alike_get_row [OF assms(1), of "''markov''" "snd ?peak"] demand_get_row(2) [OF cap]
    by (auto simp: PREFETCHERS_def map_filter_simps best_row_def)
  then obtain pv where pv: "prefetch_verdict trace rows caps = Some pv" "pv_hides_latency pv = hides_latency (overlay_of trace ?peak)"
    by (auto simp: prefetch_verdict_def scan Let_def hides_latency_def overlay_of_def split_beta)
  show "tally (judge_cache trace ex) (verdict_finding (ta_verdict a)) = 1"
    using assms(4,5) best pv
    by (auto simp: a analyze_rows_def judge_cache_def Let_def assms(2) [symmetric] study_verdict_def verdict_finding_def
        verdict_tally not_less split: prod.split option.split)
qed

text \<open>C14: two commands, one verdict. On a trace of at least 200 reads of 64 to 4096 objects, of at most the
  three million events the study takes in, the study of whole objects at its default level returns, and
  its verdict is the one the caching check of the advisor publishes for the same events; it measures the
  same best saving and the same sizing in bytes, and when the verdict is to cache it recommends the size at
  the knee of the curve of the advisor.\<close>

theorem two_commands_one_verdict:
  assumes "MIN_GETS \<le> gets trace" and "length trace \<le> DEFAULT_MAX_EVENTS"
    and "64 \<le> distinct_reads trace" and "distinct_reads trace \<le> 4096"
  shows "\<exists>a. analyze_trace h tenth trace (default_opts\<lparr>ao_block_bytes := None\<rparr>) = Some a
    \<and> tally (judge_cache trace ex) (verdict_finding (ta_verdict a)) = 1
    \<and> ta_lru_max a = best_net (sweep_demand trace (count_ladder trace)) ''null'' (count_ladder trace)
    \<and> ta_byte a = sized trace
    \<and> (ta_verdict a = Go \<longrightarrow> ta_recommended_cap a = knee_at (sweep_demand trace (count_ladder trace)) (count_ladder trace))"
proof -
  let ?opts = "default_opts\<lparr>ao_block_bytes := None\<rparr>" and ?caps = "count_ladder trace"
  let ?d = "sweep_demand trace ?caps"
  have ladder: "cap_ladder (distinct_reads trace) = ?caps"
    using assms(3,4) by (simp add: cap_ladder_def count_ladder_def ANCHOR_CAP_def MAX_CAP_def max_def min_def)
  have fine: "fine_caps ?caps" using study_ladder [of "distinct_reads trace"] by (simp only: ladder)
  have len: "length trace < 2 ^ 63 - 2" using assms(2) by (simp add: DEFAULT_MAX_EVENTS_def)
  obtain rows where rows: "study_rows h tenth ?opts trace ?caps = Some rows" "reads_alike rows ?d"
    using study_rows_alike [OF fine len, of ?opts h tenth] by (auto simp: default_opts_def)
  let ?a = "analyze_rows ?opts (length trace) trace trace rows ?caps"
  have "sampled_trace ?opts trace = trace" "policy_trace ?opts trace = trace"
    using assms(2) by (simp_all add: sampled_trace_def policy_trace_def default_opts_def)
  then have "analyze_trace h tenth trace ?opts = Some ?a" by (simp add: analyze_trace_def Let_def ladder rows(1))
  moreover have same: "tally (judge_cache trace ex) (verdict_finding (ta_verdict ?a)) = 1"
      "ta_lru_max ?a = best_net ?d ''null'' ?caps" "ta_knee_cap ?a = knee_or_last ?d ?caps" "ta_byte ?a = sized trace"
    using same_verdict [OF rows(2) refl _ assms(1) _ refl, of ?opts] fine by (simp_all add: fine_caps_def default_opts_def)
  moreover have "ta_recommended_cap ?a = knee_at ?d ?caps" if "ta_verdict ?a = Go"
  proof -
    have go: "GO_FLOOR \<le> ta_lru_max ?a" "ta_recommended_cap ?a = Some (ta_knee_cap ?a)"
      using that by (auto simp: analyze_rows_def Let_def study_verdict_def split: prod.splits if_splits)
    then have "knee_at ?d ?caps \<noteq> None" using knee_at_found [of ?d ?caps] GO_FLOOR_pos unfolding same(2) by linarith
    then show ?thesis using go(2) same(3) by (auto simp: knee_or_last_def)
  qed
  ultimately show ?thesis by blast
qed

text \<open>Two hundred objects read once.\<close>

lemma two_commands_one_verdict_witness:
  "\<exists>a. analyze_trace (\<lambda>_ _. 0) (\<lambda>n. n div 10) (map (\<lambda>i. sample_get (replicate i CHR ''a'') 1) [0..<200]) (default_opts\<lparr>ao_block_bytes := None\<rparr>) = Some a
    \<and> tally (judge_cache (map (\<lambda>i. sample_get (replicate i CHR ''a'') 1) [0..<200]) 0) (verdict_finding (ta_verdict a)) = 1"
proof -
  let ?t = "map (\<lambda>i. sample_get (replicate i CHR ''a'') 1) [0..<200]"
  have "gets (map (\<lambda>i. sample_get (f i) n) xs) = length xs" for f :: "nat \<Rightarrow> string" and n and xs :: "nat list"
    by (induction xs) (simp_all add: sample_get_def)
  then have g: "gets ?t = 200" by simp
  have "inj (\<lambda>i. replicate i CHR ''a'')" by (rule injI) (metis length_replicate)
  then have "card ((\<lambda>i. replicate i CHR ''a'') ` {0..<200}) = 200" using card_image [OF inj_on_subset [OF _ subset_UNIV]] by (metis card_atLeastLessThan diff_zero)
  then have d: "distinct_reads ?t = 200"
    by (simp add: distinct_reads_def sample_get_def image_image filter_map comp_def del: upt_Suc upt_conv_Nil)
  have "length ?t \<le> DEFAULT_MAX_EVENTS" unfolding length_map length_upt by (simp add: DEFAULT_MAX_EVENTS_def)
  from two_commands_one_verdict [OF _ this, of "\<lambda>_ _. 0" "\<lambda>n. n div 10" 0] show ?thesis
    unfolding g d by (auto simp: MIN_GETS_def)
qed

end
