(* ===== verification/Spec2Isabelle.thy ===== *)
theory Spec2Isabelle
  imports ConnProps ScopeFilter Predict TraceLine Redact Creds Sink Patterns Refetch Churn Serial Service DiffProps Link StudyProps
begin

text \<open>
  A verification library of s3tap, an agent that observes S3 traffic of processes on a host and studies
  what a cache in front of S3 would save. The models are written after the Rust sources under
  \<open>crates/\<close>, file by file and function by function, and keep their names where Isabelle allows it.

  \<^bold>\<open>The program and its parts.\<close> Kernel probes emit events into a ring buffer. \<open>s3tap-events\<close> decodes their
  bytes. The drain loop of \<open>s3tap-cli/main.rs\<close> folds each event into the correlator of
  \<open>s3tap-core/correlate.rs\<close>, which joins TCP, DNS and TLS facts per socket with the HTTP heads read off
  the plaintext (\<open>s3tap-core/http.rs\<close>), and emits an operation per S3 request, a connection per socket
  and samples, as records of \<open>s3tap-schema\<close> with keys hashed by \<open>s3tap-core/hash.rs\<close>. A scope filter
  (\<open>s3tap-cli/filter.rs\<close>) decides which processes are seen. \<open>s3tap-replay\<close> replays a trace of reads and
  writes through cache policies and compares them with the best cache that knows the future. Three commands
  judge a capture: \<open>s3tap-advisor\<close> looks for access patterns that cost requests or time, \<open>s3tap-doctor\<close>
  compares each latency with the round trip the path itself needs, gives a verdict, an exit code and a
  comparison with an earlier report, and its scorecard counts the answers by operation and error class.

  \<^bold>\<open>Which theory models what.\<close>
  \<^item> \<open>Prelude\<close>, \<open>RustStr\<close>: machine integers with saturation, hash maps as finite maps, and the string
    functions of the standard library. Strings are lists of bytes.
  \<^item> \<open>Events\<close>: the event records of \<open>s3tap-events/lib.rs\<close>, their layout and \<open>Event::parse\<close>.
  \<^item> \<open>Schema\<close>: the public records of \<open>s3tap-schema/lib.rs\<close> with their JSON form, field by field, and
    \<open>sanitize_term\<close>. JSON text itself is the JSON library's; records are JSON values.
  \<^item> \<open>Hash\<close>, \<open>Http\<close>: \<open>hash.rs\<close> and \<open>http.rs\<close>.
  \<^item> \<open>Evict\<close>, \<open>Dns\<close>, \<open>CorrState\<close>, \<open>CorrConn\<close>, \<open>CorrOps\<close>: \<open>correlate.rs\<close>. The record \<open>corr\<close> has the fields of
    \<open>Correlator\<close>; each handler is one definition from a state to a state and what it returns.
  \<^item> \<open>Fold\<close>: the drain loop, the shutdown flush and the output boundary of \<open>main.rs\<close>.
  \<^item> \<open>ScopeFilter\<close>: \<open>filter.rs\<close>, and from \<open>main.rs\<close> \<open>build_filter_spec\<close> and \<open>engage_filter\<close>. Live processes,
    control groups and the kernel's capacity are arguments.
  \<^item> \<open>Redact\<close>: what \<open>--dump-events\<close> shows of a captured request line (\<open>main.rs\<close>). \<open>Privilege\<close>, \<open>Creds\<close>: \<open>elevate.rs\<close> with
    the permission checks of \<open>main.rs\<close>; where credentials come from and how \<open>selftest.rs\<close> hands them to \<open>curl\<close>.
  \<^item> \<open>Sink\<close>: how records leave \<open>main.rs\<close>, through a bounded channel to a writer task. \<open>Intake\<close>: how the commands that read
    a capture take it in, from the chunks of a reader to records or trace events.
  \<^item> \<open>DemandCache\<close>, \<open>LruList\<close>, \<open>Belady\<close>, \<open>ArcCache\<close>, \<open>S3Fifo\<close>, \<open>Sim\<close>, \<open>Ladder\<close>, \<open>Replay\<close>: the policies and sweeps of
    \<open>s3tap-replay\<close> (\<open>trace.rs\<close>, \<open>arc.rs\<close>, \<open>s3fifo.rs\<close>, \<open>sim.rs\<close>, \<open>bytes.rs\<close>, \<open>driver.rs\<close>, \<open>admission.rs\<close>, \<open>metrics.rs\<close>).
  \<^item> \<open>Predict\<close>: the predictors of \<open>predict.rs\<close> that count: popularity, Markov, sequential, co-occurrence. \<open>Metrics\<close>:
    the rates of a report, the rows and the four sweeps of \<open>driver.rs\<close>, and from \<open>predict.rs\<close> the chain of several
    reads ahead and the adaptive predictor.
  \<^item> \<open>Hybrid\<close>: \<open>hybrid.rs\<close>, segments, the window cache, the pool whose share for speculation adapts, and the
    three runs that prefetch; \<open>HybridProps\<close> has its theorems. \<open>Link\<close>: \<open>link.rs\<close>, the replay over a finite link.
  \<^item> \<open>IbmTrace\<close>, \<open>TraceLine\<close>: how a trace is read. \<open>ibm.rs\<close> has the lines of the public traces and the
    expansion into blocks; \<open>adapt.rs\<close> routes a line and turns the agent's own records into events.

  \<^item> \<open>Findings\<close>: what the judging commands share: findings with their scope and severity, the population a
    finding speaks of, grouping into hash maps, medians and percentiles, and float arithmetic.
  \<^item> \<open>Serial\<close>, \<open>Service\<close>, \<open>Patterns\<close>, \<open>Refetch\<close>, \<open>Churn\<close>: the checks of \<open>s3tap-advisor/checks\<close> (\<open>parallelism.rs\<close>,
    \<open>service.rs\<close>, \<open>patterns.rs\<close>, \<open>refetch.rs\<close>, \<open>churn.rs\<close>).
  \<^item> \<open>Caching\<close>: the check of \<open>caching.rs\<close>, which replays a capture to judge whether a cache would pay, and the list
    of all checks. \<open>Study\<close>: \<open>analyze.rs\<close>, the offline study of one trace. \<open>CachingProps\<close> and \<open>StudyProps\<close> hold
    their theorems.
  \<^item> \<open>Scorecard\<close>: \<open>s3tap-doctor/scorecard.rs\<close>. \<open>Verdict\<close>, \<open>Floors\<close>, \<open>Timeline\<close>, \<open>PathRows\<close>, \<open>Doctor\<close>, \<open>Diff\<close>:
    \<open>s3tap-doctor/lib.rs\<close>, in the order thresholds and verdicts, latency floors, samples and their segments,
    rows per path, the report (\<open>analyze_with\<close>) and the comparison with a baseline. \<open>DoctorProps\<close> and
    \<open>DiffProps\<close> hold their theorems.

  \<^bold>\<open>Interfaces.\<close> \<open>capped_map\<close> (\<open>Evict\<close>) is what the correlator asks of its bounded maps; it is interpreted on
  four of them in \<open>CorrInv\<close>. \<open>machine\<close> and \<open>ledger\<close> (\<open>Machine\<close>) lift an invariant, a property of the outputs
  and the conservation of tokens from one step to whole runs; both are interpreted on the drain loop.
  \<open>bounded_cache\<close> and \<open>demand_cache\<close> (\<open>DemandCache\<close>) are what the sweeps ask of a policy: a hit is a key it
  holds, a read adds at most the key read, a write drops its key, and it never holds more than its
  capacity; a demand cache with room also admits. They are interpreted on LRU, LRU with admission, ARC
  and S3-FIFO, and \<open>Belady\<close> proves once, inside the interface, that no such policy beats the reference.

  \<open>account\<close> (\<open>HybridProps\<close>) is the potential argument of a budget: steps that pay from a balance that is never
  negative spend at most what they earn. It is interpreted on the token bucket of the self-tuning run.
  \<open>line_judge\<close> and \<open>bounded_judge\<close> (\<open>Intake\<close>) are what the batching readers ask of a parser: lines are judged alone,
  and one gives at most one event. They are interpreted on the doctor's parser and on the trace loader.

  \<^bold>\<open>What the lemmas show.\<close>
  \<^item> Decoding: \<open>Event::parse\<close> inverts the layout of the C structs and rejects any other version or length;
    DNS answers, request heads and the emitted JSON lines read back what was written.
  \<^item> Recognition: the addressing styles of S3 agree on bucket and key, content lengths follow the
    framing rules, and nothing is reported as S3 that no rule recognises.
  \<^item> Correlation: \<open>CorrSlot\<close> gives the life cycle of a request in its slot, \<open>CorrInv\<close> the bounds of every map,
    \<open>CorrLedger\<close> that each request is emitted exactly once, \<open>CorrShape\<close> the shape of every record. \<open>Capture\<close>,
    \<open>PlainProps\<close> and \<open>ConnProps\<close> state them for whole captures.
  \<^item> Scope: which executables match, what an exec does to a seat, and that an unsatisfiable scope is
    refused.
  \<^item> Secrets: the display of a request reveals neither key nor credential, credentials neither cross the \<open>sudo\<close>
    boundary nor inject directives, borrowed privilege reads no file its caller could not, and a helper
    program is run only from places that only root can write.
  \<^item> Output and input: a slow reader costs whole records, all counted, and the shutdown loses none; the agent
    never waits for its reader; reading in batches of any chunks equals judging each line alone; and a
    capture is read back as the records that were emitted.
  \<^item> Traces: a schema tag decides what a line is, the agent's lines replay as the events they record, and
    block mode serves no stale block while it grows the trace linearly.
  \<^item> Predictors: the popular set is an exact one, Markov counts transitions, and all of them predict
    at most as many objects as asked, all seen before.
  \<^item> Policies: ARC refines the four plain lists of the algorithm and S3-FIFO three plain queues, with
    lazy deletion and compaction proved invisible; the reference ceiling is one; the byte sweep is
    monotone; reports add up; the capacity ladder ends.
  \<^item> Speculation: the pool of the self-tuning run is a plain recency list with an exact count of unused
    prefetches, its token bucket bounds what it wastes, the latency it claims is at most the instant upper
    bound, and while it issues nothing it is plain LRU; priority on a link moves waits and creates no work.
  \<^item> Caching: one verdict, with a size exactly when it is to cache; the study returns, reports no demand
    cache above the reference, and agrees with the advisor's check on whole objects.
  \<^item> Advice: the sweep over starts and ends measures busy time and concurrency exactly, the recovery index
    equals a scan of the later answers, the cursor over ranged reads equals a rescan, and re-fetches are
    counted as runs of reads between writes.
  \<^item> Judgement: the scorecard counts each answer once; the exit code says what the findings say; no floor
    means no verdict, and a missing denominator is never green; floors are plausible round trips and the
    segments of a socket's samples partition them; a report compared with itself is clean, and neither a
    warning nor missing data is hidden by a baseline.

  \<^bold>\<open>Bounds.\<close> Handlers use the integers of the source at their width. Loops that end by structure are \<open>fun\<close>;
  those that end by an invariant are \<open>partial_function (option)\<close> and proved to return: eviction in
  S3-FIFO, the trim of its ghost queue, and the loops of the ladder. Stamps of the policies are 64-bit
  and wrap: their theorems hold for \<open>2 ^ 63 - 2\<close> accesses (S3-FIFO stamps twice per access, so that many
  suffice), and the ledger of operations for fewer than \<open>2 ^ 64\<close> requests, after which ids repeat.

  \<^bold>\<open>Parameters.\<close> The iteration order of a hash map where it shows, the random source of the salt, the
  process file system, files and their permission bits as the kernel reports them, the capacity of kernel maps, the standard library's hasher in the frequency
  sketch, the float product that sizes a small queue and the JSON parser of trace lines are arguments.

  \<^bold>\<open>Floats.\<close> The judging commands and the replay study compute in \<open>f64\<close>. A float is modelled as the real number it denotes and each
  operation rounds its exact result to 53 significant bits, to even (\<open>f64_round\<close> in \<open>Float64\<close>). Overflow,
  subnormals and NaN are left out (a decaying average of the replay study may become subnormal, far
  below every threshold it is compared with): the values are counts, bytes and nanoseconds of at most 64 bits, their
  sums, quotients and shares, and every quotient is guarded in the code against a zero denominator.
  \<open>sort_unstable\<close> is modelled by a stable sort: a tie shows only in the re-fetch check, where the size of one
  of two reads of an object at the same nanosecond is counted, and there capture order is assumed.

  \<^bold>\<open>Not modelled.\<close> Kernel probes (C), probe loading, async input and output, the command line and terminal
  rendering. Of the judging commands: the texts of findings and the values only a text shows, the headline
  and the labels of the study that repeat a field, the JSON form of floats, and the cost table of the
  doctor. In the replay crate the random and synthetic traces and the binaries that drive the studies.
\<close>

end
